(* ===== verification/Prelude.thy ===== *)
theory Prelude
  imports Main "HOL-Library.Word" "HOL-Library.Finite_Map" "HOL-Library.Char_ord"
    "HOL-Library.List_Lexorder"
begin

text \<open>
  Names of the machine types and the facts about lists, options, finite maps and words the
  component theories share.

  \<^item> \<open>u64\<close> and \<open>i64\<close> are 64-bit words; an \<open>i64\<close> is read in two's complement by \<open>sint\<close>.
    Rust's \<open>wrapping_add\<close> and an atomic \<open>fetch_add\<close> are word addition.
  \<^item> \<open>usize\<close> is \<open>nat\<close>: every index and length of the modelled code is the length of an
    object in memory.
  \<^item> A Rust \<open>String\<close> is the list of its UTF-8 bytes, so its length and its order are Rust's.
  \<^item> \<open>HashMap\<close> and \<open>BTreeMap\<close> are finite maps (\<open>fmap\<close>), which are equal exactly when
    their entries are; where the code iterates over a \<open>BTreeMap\<close> the model uses the
    sorted list of its keys.
\<close>

type_synonym u8 = "8 word"
type_synonym u64 = "64 word"
type_synonym i64 = "64 word"
type_synonym u128 = "128 word"

text \<open>The string maps that carry labels and metadata.\<close>

type_synonym smap = "(string, string) fmap"

named_theorems step_intros \<open>introduction rules of the step relations\<close>
named_theorems op_defs \<open>unfoldings of the components' operations\<close>
named_theorems frame \<open>what an operation leaves alone\<close>

abbreviation u64_max :: u64 where
  "u64_max \<equiv> - 1"

abbreviation i64_min :: i64 where
  "i64_min \<equiv> 0x8000000000000000"

lemma sint_i64_min: "sint i64_min = - (2 ^ 63)"
  by simp

text \<open>Rust's \<open>checked_add\<close> and saturating operations on \<open>u64\<close>.\<close>

definition saturating_sub :: "u64 \<Rightarrow> u64 \<Rightarrow> u64" where
  "saturating_sub a b = (if a < b then 0 else a - b)"

definition checked_add :: "u64 \<Rightarrow> u64 \<Rightarrow> u64 option" where
  "checked_add a b = (if unat a + unat b < 2 ^ 64 then Some (a + b) else None)"

definition saturating_add :: "u64 \<Rightarrow> u64 \<Rightarrow> u64" where
  "saturating_add a b = (case checked_add a b of Some c \<Rightarrow> c | None \<Rightarrow> u64_max)"

definition saturating_mul :: "u64 \<Rightarrow> u64 \<Rightarrow> u64" where
  "saturating_mul a b = (if unat a * unat b < 2 ^ 64 then a * b else u64_max)"

lemma unat_saturating_sub: "unat (saturating_sub a b) = unat a - unat b"
proof (cases "a < b")
  case True
  then show ?thesis by (simp add: saturating_sub_def word_less_nat_alt)
next
  case False
  then have "b \<le> a" by simp
  with False show ?thesis by (simp add: saturating_sub_def unat_sub)
qed

lemma checked_add_Some: "checked_add a b = Some c \<Longrightarrow> unat c = unat a + unat b"
  by (auto simp: checked_add_def unat_word_ariths split: if_splits)

lemma unat_saturating_add: "unat a + unat b < 2 ^ 64 \<Longrightarrow> unat (saturating_add a b) = unat a + unat b"
  by (simp add: saturating_add_def checked_add_def unat_word_ariths)

subsection \<open>Finite maps\<close>

lemma fmap_eqI: "(\<And>k. fmlookup m k = fmlookup n k) \<Longrightarrow> m = n"
  by (rule fmap_ext) simp

lemma fmdom'_alt: "k \<in> fmdom' m \<longleftrightarrow> fmlookup m k \<noteq> None"
  by (metis fmdom'_notI fmdom'_notD)

lemma fmupd_same: "fmlookup m k = Some v \<Longrightarrow> fmupd k v m = m"
  by (rule fmap_eqI) auto

subsection \<open>Lists\<close>

lemma nth_list_update_if:
  "i < length xs \<Longrightarrow> xs[i := x] ! j = (if i = j then x else xs ! j)"
  by simp

lemma sum_list_word_update:
  fixes xs :: "'a::len word list"
  assumes "i < length xs"
  shows "sum_list (xs[i := xs ! i + v]) = sum_list xs + v"
  using assms
proof (induction xs arbitrary: i)
  case Nil
  then show ?case by simp
next
  case (Cons x xs)
  then show ?case by (cases i) (simp_all add: algebra_simps)
qed

subsection \<open>Strings\<close>

text \<open>\<open>str::split\<close> on a character and \<open>str::strip_prefix\<close>.\<close>

fun split_on :: "char \<Rightarrow> string \<Rightarrow> string list" where
  "split_on c [] = [[]]"
| "split_on c (x # s) =
     (if x = c then [] # split_on c s
      else case split_on c s of p # ps \<Rightarrow> (x # p) # ps | [] \<Rightarrow> [[x]])"

lemma split_on_plain: "c \<notin> set p \<Longrightarrow> split_on c p = [p]"
  by (induction p) auto

lemma split_on_append: "c \<notin> set p \<Longrightarrow> split_on c (p @ c # s) = p # split_on c s"
  by (induction p) auto

fun strip_prefix :: "string \<Rightarrow> string \<Rightarrow> string option" where
  "strip_prefix [] s = Some s"
| "strip_prefix (p # ps) [] = None"
| "strip_prefix (p # ps) (c # s) = (if p = c then strip_prefix ps s else None)"

lemma strip_prefix_Some [simp]: "strip_prefix p s = Some r \<longleftrightarrow> s = p @ r"
  by (induction p s rule: strip_prefix.induct) auto

subsection \<open>Words\<close>

lemma unat_u64_max: "unat u64_max = 2 ^ 64 - 1"
  by (simp add: unsigned_minus_1_eq_mask mask_eq_exp_minus_1)

lemma of_nat_unat_same: "of_nat (unat w) = (w :: 'a::len word)"
  by simp

lemma unat_of_nat_u64: "n < 2 ^ 64 \<Longrightarrow> unat (of_nat n :: u64) = n"
  by (simp add: unat_of_nat)

end
