(* ===== verification/Windows.thy ===== *)
theory Windows
  imports Prelude
begin

text \<open>
  The acquisition window of a reading (\<open>metriken-types/src/window.rs\<close>) and the two stores that
  keep one beside a value: \<open>WindowCell\<close> for a scalar (\<open>metriken/src/window_cell.rs\<close>) and
  \<open>GroupWindows\<close> for the entries of a group (\<open>metriken/src/group/windows.rs\<close>). Both hold a
  lock inside a \<open>OnceLock\<close>; the outer \<open>option\<close> is the \<open>OnceLock\<close>, \<open>None\<close> until the first
  write allocates it. The operations here are the bodies that run under the guard; how
  guards of several threads interleave is the theory \<open>PairLock\<close>.
\<close>

section \<open>Windows\<close>

record window =
  begin_ns :: u64
  end_ns :: u64

definition window_new :: "u64 \<Rightarrow> u64 \<Rightarrow> window" where
  "window_new b e = \<lparr>begin_ns = b, end_ns = e\<rparr>"

definition width_ns :: "window \<Rightarrow> u64" where
  "width_ns w = saturating_sub (end_ns w) (begin_ns w)"

lemma unat_width_ns: "unat (width_ns w) = unat (end_ns w) - unat (begin_ns w)"
  by (simp add: width_ns_def unat_saturating_sub)

section \<open>The window cell of a scalar\<close>

type_synonym window_cell = "window option option"

definition wc_new :: window_cell where
  "wc_new = None"

definition wc_get_or_init :: "window_cell \<Rightarrow> window_cell" where
  "wc_get_or_init c = (case c of None \<Rightarrow> Some None | Some w \<Rightarrow> Some w)"

text \<open>\<open>f\<close> gets the guarded window and gives its result and the window it leaves behind.\<close>

definition wc_with_write ::
    "window_cell \<Rightarrow> (window option \<Rightarrow> 'r \<times> window option) \<Rightarrow> 'r \<times> window_cell" where
  "wc_with_write c f =
     (case f (case wc_get_or_init c of None \<Rightarrow> None | Some w \<Rightarrow> w) of (r, w') \<Rightarrow> (r, Some w'))"

definition wc_with_read :: "window_cell \<Rightarrow> (window option \<Rightarrow> 'r) \<Rightarrow> 'r" where
  "wc_with_read c f = (case c of Some w \<Rightarrow> f w | None \<Rightarrow> f None)"

definition wc_load :: "window_cell \<Rightarrow> window option" where
  "wc_load c = (case c of Some w \<Rightarrow> w | None \<Rightarrow> None)"

lemmas wc_defs = wc_new_def wc_get_or_init_def wc_with_write_def wc_with_read_def wc_load_def

lemma wc_load_with_write: "wc_load (snd (wc_with_write c f)) = snd (f (wc_load c))"
  by (simp add: wc_defs split: option.splits prod.splits)

lemma wc_with_read_load: "wc_with_read c f = f (wc_load c)"
  by (simp add: wc_defs split: option.splits)

section \<open>The windows of a group's entries\<close>

type_synonym group_windows = "(nat, window) fmap option"

definition gw_new :: group_windows where
  "gw_new = None"

definition gw_get_or_init :: "group_windows \<Rightarrow> (nat, window) fmap" where
  "gw_get_or_init g = (case g of None \<Rightarrow> fmempty | Some m \<Rightarrow> m)"

definition gw_insert :: "group_windows \<Rightarrow> nat \<Rightarrow> window \<Rightarrow> group_windows" where
  "gw_insert g idx w = Some (fmupd idx w (gw_get_or_init g))"

definition gw_with_write ::
    "group_windows \<Rightarrow> ((nat, window) fmap \<Rightarrow> 'r \<times> (nat, window) fmap) \<Rightarrow> 'r \<times> group_windows" where
  "gw_with_write g f = (case f (gw_get_or_init g) of (r, m) \<Rightarrow> (r, Some m))"

definition gw_with_read :: "group_windows \<Rightarrow> ((nat, window) fmap option \<Rightarrow> 'r) \<Rightarrow> 'r" where
  "gw_with_read g f = (case g of Some m \<Rightarrow> f (Some m) | None \<Rightarrow> f None)"

definition gw_load :: "group_windows \<Rightarrow> nat \<Rightarrow> window option" where
  "gw_load g idx = (case g of None \<Rightarrow> None | Some m \<Rightarrow> fmlookup m idx)"

text \<open>The order of a \<open>HashMap\<close>'s entries is unspecified, so a snapshot is their finite set.\<close>

definition gw_snapshot :: "group_windows \<Rightarrow> (nat \<times> window) fset" where
  "gw_snapshot g = (case g of Some m \<Rightarrow> fset_of_fmap m | None \<Rightarrow> {||})"

lemmas gw_defs = gw_new_def gw_get_or_init_def gw_insert_def gw_with_write_def
  gw_with_read_def gw_load_def gw_snapshot_def

lemma gw_load_new [simp]: "gw_load gw_new idx = None"
  by (simp add: gw_defs)

lemma gw_load_insert [simp]:
  "gw_load (gw_insert g idx w) j = (if idx = j then Some w else gw_load g j)"
  by (simp add: gw_defs split: option.splits)

lemma gw_snapshot_iff: "(idx, w) |\<in>| gw_snapshot g \<longleftrightarrow> gw_load g idx = Some w"
  by (auto simp: gw_defs split: option.splits)

end
