(* ===== verification/PairLock.thy ===== *)
theory PairLock
  imports Windows
begin

text \<open>
  The locking protocol behind every \<open>set_with_window\<close> and \<open>load_with_window\<close>
  (\<open>metriken/src/window_cell.rs\<close>, \<open>group/windows.rs\<close>, and their callers in \<open>windowed.rs\<close>,
  \<open>group/counter.rs\<close> and \<open>group/gauge.rs\<close>), as steps of any number of threads.

  A writer allocates the lock's \<open>OnceLock\<close> cell if it is absent, takes the write guard, stores
  the value, stores the window and drops the guard. A reader that finds the cell takes the
  read guard and reads value and window under it; a reader that finds no cell reads the value
  with no guard and reports no window. What the threads share is a store of type \<open>'s\<close> with the
  operations of a \<open>pair_ops\<close> record, so one protocol serves the scalars and the groups.
\<close>

section \<open>The store under the lock\<close>

record ('s, 'i, 'v) pair_ops =
  op_pre :: "'s \<Rightarrow> 's"                     \<comment> \<open>what a writer does before it asks for the guard\<close>
  op_prep :: "'s \<Rightarrow> 's"                    \<comment> \<open>what it does first under the guard\<close>
  op_put :: "'i \<Rightarrow> 'v \<Rightarrow> 's \<Rightarrow> 's"
  op_put_window :: "'i \<Rightarrow> window \<Rightarrow> 's \<Rightarrow> 's"
  op_get :: "'s \<Rightarrow> 'i \<Rightarrow> 'v option"
  op_get_window :: "'s \<Rightarrow> 'i \<Rightarrow> window option"

text \<open>
  The contract of such a store. \<open>view\<close> says how a stored value reads back: \<open>Some\<close> of it,
  or \<open>None\<close> for the sentinel of a group.
\<close>

locale paired_store =
  fixes ops :: "('s, 'i, 'v) pair_ops"
    and good :: "'s \<Rightarrow> bool"
    and valid :: "'i \<Rightarrow> bool"
    and view :: "'v \<Rightarrow> 'v option"
  assumes inv_pre: "good s \<Longrightarrow> good (op_pre ops s)"
    and inv_prep: "good s \<Longrightarrow> good (op_prep ops s)"
    and inv_put: "good s \<Longrightarrow> valid i \<Longrightarrow> good (op_put ops i v s)"
    and inv_put_window:
      "good s \<Longrightarrow> valid i \<Longrightarrow> op_get ops s i = view v \<Longrightarrow> good (op_put_window ops i w s)"
    and get_pre: "good s \<Longrightarrow> op_get ops (op_pre ops s) i = op_get ops s i"
    and window_pre: "good s \<Longrightarrow> op_get_window ops (op_pre ops s) i = op_get_window ops s i"
    and window_prep: "good s \<Longrightarrow> op_get_window ops (op_prep ops s) i = op_get_window ops s i"
    and prep_settled:
      "good s \<Longrightarrow> op_get_window ops s i \<noteq> None \<Longrightarrow> op_get ops (op_prep ops s) i = op_get ops s i"
    and get_put: "good s \<Longrightarrow> valid i \<Longrightarrow>
      op_get ops (op_put ops i v s) j = (if i = j then view v else op_get ops s j)"
    and window_put: "good s \<Longrightarrow> valid i \<Longrightarrow>
      op_get_window ops (op_put ops i v s) j = op_get_window ops s j"
    and get_put_window: "good s \<Longrightarrow> valid i \<Longrightarrow>
      op_get ops (op_put_window ops i w s) j = op_get ops s j"
    and window_put_window: "good s \<Longrightarrow> valid i \<Longrightarrow>
      op_get_window ops (op_put_window ops i w s) j = (if i = j then Some w else op_get_window ops s j)"

section \<open>Threads and steps\<close>

datatype ('i, 'v) lock_pc =
    Idle
  | WCalled 'i 'v window      \<comment> \<open>in \<open>set_with_window\<close>\<close>
  | WReady 'i 'v window       \<comment> \<open>the bounds check and \<open>op_pre\<close> are done\<close>
  | WQueued 'i 'v window      \<comment> \<open>the lock cell exists\<close>
  | WHeld 'i 'v window        \<comment> \<open>write guard held\<close>
  | WPrepared 'i 'v window    \<comment> \<open>\<open>op_prep\<close> done\<close>
  | WStored 'i 'v window      \<comment> \<open>value stored\<close>
  | WPaired                   \<comment> \<open>window stored, guard still held\<close>
  | RCalled 'i                \<comment> \<open>in \<open>load_with_window\<close>\<close>
  | RBare 'i                  \<comment> \<open>found no lock cell: reads with no guard\<close>
  | RQueued 'i                \<comment> \<open>found the lock cell\<close>
  | RHeld 'i                  \<comment> \<open>read guard held\<close>
  | RValue 'i "'v option"     \<comment> \<open>value read, window not yet\<close>
  | RWindow 'i "window option" \<comment> \<open>window read, value not yet\<close>
  | Got 'i "'v option" "window option"

record ('s, 'i, 'v) lock_sys =
  ls_store :: 's
  ls_cell :: bool                \<comment> \<open>the lock's \<open>OnceLock\<close> is initialised\<close>
  ls_writer :: "nat option"
  ls_readers :: "nat set"
  ls_pcs :: "nat \<Rightarrow> ('i, 'v) lock_pc"
  ls_calls :: "('i \<times> 'v \<times> window) set"  \<comment> \<open>history: every \<open>set_with_window\<close> called\<close>

definition at_pc :: "nat \<Rightarrow> ('i, 'v) lock_pc \<Rightarrow> ('s, 'i, 'v) lock_sys \<Rightarrow> ('s, 'i, 'v) lock_sys" where
  "at_pc t p s = s\<lparr>ls_pcs := (ls_pcs s)(t := p)\<rparr>"

definition lock_init :: "'s \<Rightarrow> ('s, 'i, 'v) lock_sys" where
  "lock_init s0 = \<lparr>ls_store = s0, ls_cell = False, ls_writer = None, ls_readers = {}, ls_pcs = (\<lambda>_. Idle), ls_calls = {}\<rparr>"

inductive lock_step ::
    "('s, 'i, 'v) pair_ops \<Rightarrow> ('i \<Rightarrow> bool) \<Rightarrow> ('s, 'i, 'v) lock_sys \<Rightarrow> ('s, 'i, 'v) lock_sys \<Rightarrow> bool"
  for ops :: "('s, 'i, 'v) pair_ops" and valid :: "'i \<Rightarrow> bool" where
  w_call: "ls_pcs s t = Idle \<Longrightarrow> valid i \<Longrightarrow>
    lock_step ops valid s (at_pc t (WCalled i v w) (s\<lparr>ls_calls := insert (i, v, w) (ls_calls s)\<rparr>))"
| w_pre: "ls_pcs s t = WCalled i v w \<Longrightarrow>
    lock_step ops valid s (at_pc t (WReady i v w) (s\<lparr>ls_store := op_pre ops (ls_store s)\<rparr>))"
| w_cell: "ls_pcs s t = WReady i v w \<Longrightarrow>
    lock_step ops valid s (at_pc t (WQueued i v w) (s\<lparr>ls_cell := True\<rparr>))"
| w_lock: "ls_pcs s t = WQueued i v w \<Longrightarrow> ls_writer s = None \<Longrightarrow> ls_readers s = {} \<Longrightarrow>
    lock_step ops valid s (at_pc t (WHeld i v w) (s\<lparr>ls_writer := Some t\<rparr>))"
| w_prep: "ls_pcs s t = WHeld i v w \<Longrightarrow>
    lock_step ops valid s (at_pc t (WPrepared i v w) (s\<lparr>ls_store := op_prep ops (ls_store s)\<rparr>))"
| w_put: "ls_pcs s t = WPrepared i v w \<Longrightarrow>
    lock_step ops valid s (at_pc t (WStored i v w) (s\<lparr>ls_store := op_put ops i v (ls_store s)\<rparr>))"
| w_put_window: "ls_pcs s t = WStored i v w \<Longrightarrow>
    lock_step ops valid s (at_pc t WPaired (s\<lparr>ls_store := op_put_window ops i w (ls_store s)\<rparr>))"
| w_unlock: "ls_pcs s t = WPaired \<Longrightarrow>
    lock_step ops valid s (at_pc t Idle (s\<lparr>ls_writer := None\<rparr>))"
| r_call: "ls_pcs s t = Idle \<Longrightarrow> valid i \<Longrightarrow> lock_step ops valid s (at_pc t (RCalled i) s)"
| r_bare: "ls_pcs s t = RCalled i \<Longrightarrow> \<not> ls_cell s \<Longrightarrow> lock_step ops valid s (at_pc t (RBare i) s)"
| r_found: "ls_pcs s t = RCalled i \<Longrightarrow> ls_cell s \<Longrightarrow> lock_step ops valid s (at_pc t (RQueued i) s)"
| r_bare_read: "ls_pcs s t = RBare i \<Longrightarrow>
    lock_step ops valid s (at_pc t (Got i (op_get ops (ls_store s) i) None) s)"
| r_lock: "ls_pcs s t = RQueued i \<Longrightarrow> ls_writer s = None \<Longrightarrow>
    lock_step ops valid s (at_pc t (RHeld i) (s\<lparr>ls_readers := insert t (ls_readers s)\<rparr>))"
| r_value: "ls_pcs s t = RHeld i \<Longrightarrow>
    lock_step ops valid s (at_pc t (RValue i (op_get ops (ls_store s) i)) s)"
| r_window: "ls_pcs s t = RHeld i \<Longrightarrow>
    lock_step ops valid s (at_pc t (RWindow i (op_get_window ops (ls_store s) i)) s)"
| r_window_second: "ls_pcs s t = RValue i x \<Longrightarrow>
    lock_step ops valid s
      (at_pc t (Got i x (op_get_window ops (ls_store s) i)) (s\<lparr>ls_readers := ls_readers s - {t}\<rparr>))"
| r_value_second: "ls_pcs s t = RWindow i y \<Longrightarrow>
    lock_step ops valid s
      (at_pc t (Got i (op_get ops (ls_store s) i) y) (s\<lparr>ls_readers := ls_readers s - {t}\<rparr>))"
| r_return: "ls_pcs s t = Got i x y \<Longrightarrow> lock_step ops valid s (at_pc t Idle s)"

inductive lock_reach ::
    "('s, 'i, 'v) pair_ops \<Rightarrow> ('i \<Rightarrow> bool) \<Rightarrow> ('s, 'i, 'v) lock_sys \<Rightarrow> ('s, 'i, 'v) lock_sys \<Rightarrow> bool"
  for ops :: "('s, 'i, 'v) pair_ops" and valid :: "'i \<Rightarrow> bool" and s0 :: "('s, 'i, 'v) lock_sys" where
  start: "lock_reach ops valid s0 s0"
| next_step: "lock_reach ops valid s0 s \<Longrightarrow> lock_step ops valid s s' \<Longrightarrow> lock_reach ops valid s0 s'"

declare lock_step.intros [step_intros]

section \<open>The invariant\<close>

definition writing :: "('i, 'v) lock_pc \<Rightarrow> bool" where
  "writing p \<longleftrightarrow>
     (case p of WHeld _ _ _ \<Rightarrow> True | WPrepared _ _ _ \<Rightarrow> True | WStored _ _ _ \<Rightarrow> True
      | WPaired \<Rightarrow> True | _ \<Rightarrow> False)"

definition reading :: "('i, 'v) lock_pc \<Rightarrow> bool" where
  "reading p \<longleftrightarrow>
     (case p of RHeld _ \<Rightarrow> True | RValue _ _ \<Rightarrow> True | RWindow _ _ \<Rightarrow> True | _ \<Rightarrow> False)"

text \<open>\<open>(i, x, y)\<close> is a pair some call wrote, or has no window.\<close>

definition paired ::
    "('v \<Rightarrow> 'v option) \<Rightarrow> ('i \<times> 'v \<times> window) set \<Rightarrow> 'i \<Rightarrow> 'v option \<Rightarrow> window option \<Rightarrow> bool" where
  "paired view cs i x y \<longleftrightarrow>
     (case y of None \<Rightarrow> True | Some w \<Rightarrow> (\<exists>v. (i, v, w) \<in> cs \<and> x = view v))"

text \<open>Guards exclude each other and are held exactly by the threads inside them.\<close>

definition guards_ok :: "('s, 'i, 'v) lock_sys \<Rightarrow> bool" where
  "guards_ok s \<longleftrightarrow>
     (\<forall>t. writing (ls_pcs s t) \<longleftrightarrow> ls_writer s = Some t) \<and>
     (\<forall>t. reading (ls_pcs s t) \<longleftrightarrow> t \<in> ls_readers s) \<and>
     (ls_writer s \<noteq> None \<longrightarrow> ls_readers s = {})"

text \<open>What each program counter knows of the shared store.\<close>

fun pc_ok ::
    "('s, 'i, 'v) pair_ops \<Rightarrow> ('i \<Rightarrow> bool) \<Rightarrow> ('v \<Rightarrow> 'v option) \<Rightarrow> ('s, 'i, 'v) lock_sys
      \<Rightarrow> ('i, 'v) lock_pc \<Rightarrow> bool" where
  "pc_ok ops valid view s (WCalled i v w) \<longleftrightarrow> valid i \<and> (i, v, w) \<in> ls_calls s"
| "pc_ok ops valid view s (WReady i v w) \<longleftrightarrow> valid i \<and> (i, v, w) \<in> ls_calls s"
| "pc_ok ops valid view s (WQueued i v w) \<longleftrightarrow> valid i \<and> (i, v, w) \<in> ls_calls s"
| "pc_ok ops valid view s (WHeld i v w) \<longleftrightarrow> valid i \<and> (i, v, w) \<in> ls_calls s"
| "pc_ok ops valid view s (WPrepared i v w) \<longleftrightarrow> valid i \<and> (i, v, w) \<in> ls_calls s"
| "pc_ok ops valid view s (WStored i v w) \<longleftrightarrow>
     valid i \<and> (i, v, w) \<in> ls_calls s \<and> op_get ops (ls_store s) i = view v"
| "pc_ok ops valid view s (RValue i x) \<longleftrightarrow> x = op_get ops (ls_store s) i"
| "pc_ok ops valid view s (RWindow i y) \<longleftrightarrow> y = op_get_window ops (ls_store s) i"
| "pc_ok ops valid view s (Got i x y) \<longleftrightarrow> paired view (ls_calls s) i x y"
| "pc_ok ops valid view s _ \<longleftrightarrow> True"

text \<open>Entry \<open>i\<close> is between its value and its window.\<close>

fun stored_at :: "('i, 'v) lock_pc \<Rightarrow> 'i option" where
  "stored_at (WStored i v w) = Some i"
| "stored_at _ = None"

definition torn :: "('s, 'i, 'v) lock_sys \<Rightarrow> 'i \<Rightarrow> bool" where
  "torn s i \<longleftrightarrow> (\<exists>t. stored_at (ls_pcs s t) = Some i)"

definition lock_inv ::
    "('s, 'i, 'v) pair_ops \<Rightarrow> ('s \<Rightarrow> bool) \<Rightarrow> ('i \<Rightarrow> bool) \<Rightarrow> ('v \<Rightarrow> 'v option)
      \<Rightarrow> ('s, 'i, 'v) lock_sys \<Rightarrow> bool" where
  "lock_inv ops good valid view s \<longleftrightarrow>
     good (ls_store s) \<and> guards_ok s \<and> (\<forall>t. pc_ok ops valid view s (ls_pcs s t)) \<and>
     (\<forall>i. \<not> torn s i \<longrightarrow>
        paired view (ls_calls s) i (op_get ops (ls_store s) i) (op_get_window ops (ls_store s) i))"

lemma paired_insert: "paired view cs i x y \<Longrightarrow> paired view (insert c cs) i x y"
  by (auto simp: paired_def split: option.splits)

lemma at_pc_simps [simp]:
  "ls_pcs (at_pc t p s) = (ls_pcs s)(t := p)" "ls_store (at_pc t p s) = ls_store s" "ls_cell (at_pc t p s) = ls_cell s"
  "ls_writer (at_pc t p s) = ls_writer s" "ls_readers (at_pc t p s) = ls_readers s" "ls_calls (at_pc t p s) = ls_calls s"
  by (simp_all add: at_pc_def)


section \<open>The invariant holds in every reachable state\<close>

lemma paired_mono: "cs \<subseteq> cs' \<Longrightarrow> paired view cs i x y \<Longrightarrow> paired view cs' i x y"
  by (auto simp: paired_def split: option.splits)

lemma writing_simps [simp]:
  "\<not> writing Idle" "\<not> writing (WCalled i v w)" "\<not> writing (WReady i v w)"
  "\<not> writing (WQueued i v w)" "writing (WHeld i v w)" "writing (WPrepared i v w)"
  "writing (WStored i v w)" "writing WPaired" "\<not> writing (RCalled i)" "\<not> writing (RBare i)"
  "\<not> writing (RQueued i)" "\<not> writing (RHeld i)" "\<not> writing (RValue i x)"
  "\<not> writing (RWindow i y)" "\<not> writing (Got i x y)"
  by (simp_all add: writing_def)

lemma reading_simps [simp]:
  "\<not> reading Idle" "\<not> reading (WCalled i v w)" "\<not> reading (WReady i v w)"
  "\<not> reading (WQueued i v w)" "\<not> reading (WHeld i v w)" "\<not> reading (WPrepared i v w)"
  "\<not> reading (WStored i v w)" "\<not> reading WPaired" "\<not> reading (RCalled i)" "\<not> reading (RBare i)"
  "\<not> reading (RQueued i)" "reading (RHeld i)" "reading (RValue i x)"
  "reading (RWindow i y)" "\<not> reading (Got i x y)"
  by (simp_all add: reading_def)

lemma pc_ok_mono:
  "pc_ok ops valid view s p \<Longrightarrow> ls_store s' = ls_store s \<Longrightarrow> ls_calls s \<subseteq> ls_calls s'
    \<Longrightarrow> pc_ok ops valid view s' p"
  by (cases p) (auto intro: paired_mono)

text \<open>A thread outside the guards knows nothing of the store that another can invalidate.\<close>

lemma pc_ok_outside:
  "pc_ok ops valid view s p \<Longrightarrow> \<not> reading p \<Longrightarrow> \<not> writing p \<Longrightarrow> ls_calls s \<subseteq> ls_calls s'
    \<Longrightarrow> pc_ok ops valid view s' p"
  by (cases p) (auto intro: paired_mono)

lemma guards_here:
  "ls_pcs s t = p \<Longrightarrow> guards_ok s \<Longrightarrow>
     (ls_writer s = Some t \<longleftrightarrow> writing p) \<and> (t \<in> ls_readers s \<longleftrightarrow> reading p) \<and>
     (ls_writer s \<noteq> None \<longrightarrow> ls_readers s = {})"
  by (auto simp: guards_ok_def)

text \<open>One thread moves; the guards of the others are as they were.\<close>

lemma guards_ok_at_pc:
  assumes "guards_ok s" and "ls_pcs s' = ls_pcs s"
    and "writing p \<longleftrightarrow> ls_writer s' = Some t" and "reading p \<longleftrightarrow> t \<in> ls_readers s'"
    and "\<And>u. u \<noteq> t \<Longrightarrow> ls_writer s' = Some u \<longleftrightarrow> ls_writer s = Some u"
    and "\<And>u. u \<noteq> t \<Longrightarrow> u \<in> ls_readers s' \<longleftrightarrow> u \<in> ls_readers s"
    and "ls_writer s' \<noteq> None \<Longrightarrow> ls_readers s' = {}"
  shows "guards_ok (at_pc t p s')"
  using assms unfolding guards_ok_def by simp

lemma guards_ok_step:
  assumes "lock_step ops valid s s'" and "guards_ok s"
  shows "guards_ok s'"
  using assms
proof (induction rule: lock_step.induct)
qed (frule (1) guards_here; erule guards_ok_at_pc; auto)+

lemma guard_alone:
  assumes "guards_ok s" and "writing (ls_pcs s t)" and "u \<noteq> t"
  shows "\<not> reading (ls_pcs s u)" and "\<not> writing (ls_pcs s u)"
  using assms unfolding guards_ok_def by (metis empty_iff option.distinct(1), metis option.inject)

lemma pc_ok_same_view:
  assumes "\<And>j. op_get ops (ls_store s') j = op_get ops (ls_store s) j"
    and "\<And>j. op_get_window ops (ls_store s') j = op_get_window ops (ls_store s) j"
    and "ls_calls s' = ls_calls s"
  shows "pc_ok ops valid view s' p \<longleftrightarrow> pc_ok ops valid view s p"
  by (cases p) (simp_all add: assms)

lemma torn_at_pc:
  assumes "stored_at p = None" and "stored_at (ls_pcs s t) = None" and "ls_pcs s' = ls_pcs s"
  shows "torn (at_pc t p s') i \<longleftrightarrow> torn s i"
proof -
  have "stored_at (((ls_pcs s)(t := p)) u) = stored_at (ls_pcs s u)" for u
    using assms by simp
  then show ?thesis by (simp add: torn_def assms(3) del: fun_upd_apply)
qed

lemma lock_inv_I:
  assumes "good (ls_store s)" and "guards_ok s"
    and "\<And>t. pc_ok ops valid view s (ls_pcs s t)"
    and "\<And>i. \<not> torn s i \<Longrightarrow>
      paired view (ls_calls s) i (op_get ops (ls_store s) i) (op_get_window ops (ls_store s) i)"
  shows "lock_inv ops good valid view s"
  using assms by (simp add: lock_inv_def)

text \<open>
  Steps that leave the store alone: one thread moves on, so its own program counter is what
  has to be checked.
\<close>

lemma lock_inv_quiet:
  assumes inv: "lock_inv ops good valid view s" and step: "lock_step ops valid s (at_pc t p s')"
    and store: "ls_store s' = ls_store s" and calls: "ls_calls s \<subseteq> ls_calls s'"
    and pcs: "ls_pcs s' = ls_pcs s"
    and own: "pc_ok ops valid view s' p"
    and quiet: "stored_at p = None" "stored_at (ls_pcs s t) = None"
  shows "lock_inv ops good valid view (at_pc t p s')"
proof (rule lock_inv_I)
  show "good (ls_store (at_pc t p s'))" using inv store by (simp add: lock_inv_def)
  show "guards_ok (at_pc t p s')" using guards_ok_step [OF step] inv by (simp add: lock_inv_def)
next
  fix u
  have "pc_ok ops valid view s' (((ls_pcs s)(t := p)) u)"
  proof (cases "u = t")
    case True
    with own show ?thesis by simp
  next
    case False
    have "pc_ok ops valid view s' (ls_pcs s u)"
      by (rule pc_ok_mono [of _ _ _ s]) (use inv [unfolded lock_inv_def] store calls in blast)+
    with False show ?thesis by simp
  qed
  then have "pc_ok ops valid view (at_pc t p s') (((ls_pcs s)(t := p)) u)"
    by (rule pc_ok_mono) simp_all
  then show "pc_ok ops valid view (at_pc t p s') (ls_pcs (at_pc t p s') u)"
    by (simp add: pcs)
next
  fix i assume "\<not> torn (at_pc t p s') i"
  then have "\<not> torn s i" using torn_at_pc [OF quiet pcs] by simp
  then have "paired view (ls_calls s) i (op_get ops (ls_store s) i) (op_get_window ops (ls_store s) i)"
    using inv by (simp add: lock_inv_def)
  then show "paired view (ls_calls (at_pc t p s')) i (op_get ops (ls_store (at_pc t p s')) i)
      (op_get_window ops (ls_store (at_pc t p s')) i)"
    using paired_mono [OF calls] store by simp
qed

text \<open>
  Steps of the writer that change the store: nobody else is inside a guard.
\<close>

lemma lock_inv_store:
  assumes inv: "lock_inv ops good valid view s" and w: "writing (ls_pcs s t)"
    and step: "lock_step ops valid s (at_pc t p (s\<lparr>ls_store := x\<rparr>))"
    and good: "good x" and own: "pc_ok ops valid view (s\<lparr>ls_store := x\<rparr>) p"
    and pair: "\<And>i. \<not> torn (at_pc t p s) i \<Longrightarrow>
      paired view (ls_calls s) i (op_get ops x i) (op_get_window ops x i)"
  shows "lock_inv ops good valid view (at_pc t p (s\<lparr>ls_store := x\<rparr>))"
proof (rule lock_inv_I)
  have g: "guards_ok s" using inv by (simp add: lock_inv_def)
  show "good (ls_store (at_pc t p (s\<lparr>ls_store := x\<rparr>)))" using good by simp
  show "guards_ok (at_pc t p (s\<lparr>ls_store := x\<rparr>))" using guards_ok_step [OF step g] .
  fix u
  show "pc_ok ops valid view (at_pc t p (s\<lparr>ls_store := x\<rparr>))
      (ls_pcs (at_pc t p (s\<lparr>ls_store := x\<rparr>)) u)"
  proof (cases "u = t")
    case True
    have "pc_ok ops valid view (at_pc t p (s\<lparr>ls_store := x\<rparr>)) p"
      by (rule pc_ok_mono [OF own]) simp_all
    with True show ?thesis by simp
  next
    case False
    have "pc_ok ops valid view (at_pc t p (s\<lparr>ls_store := x\<rparr>)) (ls_pcs s u)"
      by (rule pc_ok_outside [of _ _ _ s])
        (use inv guard_alone [OF g w False] in \<open>simp_all add: lock_inv_def\<close>)
    with False show ?thesis by simp
  qed
next
  fix i assume "\<not> torn (at_pc t p (s\<lparr>ls_store := x\<rparr>)) i"
  then have "\<not> torn (at_pc t p s) i" by (simp add: torn_def)
  then show "paired view (ls_calls (at_pc t p (s\<lparr>ls_store := x\<rparr>))) i
      (op_get ops (ls_store (at_pc t p (s\<lparr>ls_store := x\<rparr>))) i)
      (op_get_window ops (ls_store (at_pc t p (s\<lparr>ls_store := x\<rparr>))) i)"
    using pair by simp
qed

lemma lock_inv_here:
  "ls_pcs s t = p \<Longrightarrow> lock_inv ops good valid view s \<Longrightarrow>
     pc_ok ops valid view s p \<and> guards_ok s \<and> good (ls_store s)"
  by (auto simp: lock_inv_def)

text \<open>While a reader holds its guard, no entry is torn.\<close>

lemma stored_writing: "stored_at p = Some i \<Longrightarrow> writing p"
  by (cases p) auto

lemma reader_sees_pairs:
  assumes "lock_inv ops good valid view s" and "reading (ls_pcs s t)"
  shows "paired view (ls_calls s) i (op_get ops (ls_store s) i) (op_get_window ops (ls_store s) i)"
proof -
  have "guards_ok s" using assms(1) by (simp add: lock_inv_def)
  then have "\<not> writing (ls_pcs s u)" for u
    using assms(2) unfolding guards_ok_def by (metis empty_iff option.distinct(1))
  then have "\<not> torn s i" by (metis stored_writing torn_def)
  then show ?thesis using assms(1) by (simp add: lock_inv_def)
qed

text \<open>While a writer holds its guard, only its own entry can be torn.\<close>

lemma writer_tears_alone:
  assumes "guards_ok s" and "writing (ls_pcs s t)" and "stored_at (ls_pcs s t) \<noteq> Some j"
  shows "\<not> torn s j"
  unfolding torn_def
proof (rule notI, elim exE)
  fix u assume u: "stored_at (ls_pcs s u) = Some j"
  then have "u \<noteq> t" using assms(3) by auto
  then show False using guard_alone(2) [OF assms(1,2)] stored_writing [OF u] by simp
qed

text \<open>A store change nobody can see: \<open>op_pre\<close>, which runs outside the guard.\<close>

lemma lock_inv_hidden:
  assumes inv: "lock_inv ops good valid view s"
    and step: "lock_step ops valid s (at_pc t p (s\<lparr>ls_store := x\<rparr>))"
    and good: "good x" and own: "pc_ok ops valid view s p"
    and same: "\<And>j. op_get ops x j = op_get ops (ls_store s) j"
      "\<And>j. op_get_window ops x j = op_get_window ops (ls_store s) j"
    and quiet: "stored_at p = None" "stored_at (ls_pcs s t) = None"
  shows "lock_inv ops good valid view (at_pc t p (s\<lparr>ls_store := x\<rparr>))" (is "lock_inv _ _ _ _ ?s'")
proof (rule lock_inv_I)
  show "good (ls_store ?s')" using good by simp
  show "guards_ok ?s'" using guards_ok_step [OF step] inv by (simp add: lock_inv_def)
next
  fix u
  have "pc_ok ops valid view s (((ls_pcs s)(t := p)) u)"
    using own inv by (simp add: lock_inv_def)
  then show "pc_ok ops valid view ?s' (ls_pcs ?s' u)"
    using pc_ok_same_view [of ops ?s' s] by (simp add: same)
next
  fix i assume "\<not> torn ?s' i"
  then have "\<not> torn s i" using torn_at_pc [OF quiet, of "s\<lparr>ls_store := x\<rparr>"] by simp
  then show "paired view (ls_calls ?s') i (op_get ops (ls_store ?s') i) (op_get_window ops (ls_store ?s') i)"
    using inv by (simp add: lock_inv_def same)
qed

section \<open>Runs of one call at a time\<close>

definition set_store :: "('s, 'i, 'v) pair_ops \<Rightarrow> 'i \<Rightarrow> 'v \<Rightarrow> window \<Rightarrow> 's \<Rightarrow> 's" where
  "set_store ops i v w s = op_put_window ops i w (op_put ops i v (op_prep ops (op_pre ops s)))"

lemma lock_reach_then:
  "lock_reach ops valid s0 s \<Longrightarrow> lock_step ops valid s s' \<Longrightarrow> lock_reach ops valid s0 s'"
  by (rule lock_reach.next_step)

text \<open>A whole \<open>set_with_window\<close> by thread 0 while nobody holds a guard.\<close>

lemma run_set:
  assumes "lock_reach ops valid s0 s" and "ls_pcs s 0 = Idle" and "valid i"
    and "ls_writer s = None" and "ls_readers s = {}"
  shows "\<exists>s'. lock_reach ops valid s0 s' \<and> ls_store s' = set_store ops i v w (ls_store s) \<and>
    ls_pcs s' = ls_pcs s \<and> ls_cell s' \<and> ls_writer s' = None \<and> ls_readers s' = {} \<and>
    ls_calls s' = insert (i, v, w) (ls_calls s)"
proof -
  let ?b = "at_pc 0 (WCalled i v w) (s\<lparr>ls_calls := insert (i, v, w) (ls_calls s)\<rparr>)"
  let ?c = "at_pc 0 (WReady i v w) (?b\<lparr>ls_store := op_pre ops (ls_store ?b)\<rparr>)"
  let ?d = "at_pc 0 (WQueued i v w) (?c\<lparr>ls_cell := True\<rparr>)"
  let ?e = "at_pc 0 (WHeld i v w) (?d\<lparr>ls_writer := Some 0\<rparr>)"
  let ?f = "at_pc 0 (WPrepared i v w) (?e\<lparr>ls_store := op_prep ops (ls_store ?e)\<rparr>)"
  let ?g = "at_pc 0 (WStored i v w) (?f\<lparr>ls_store := op_put ops i v (ls_store ?f)\<rparr>)"
  let ?h = "at_pc 0 WPaired (?g\<lparr>ls_store := op_put_window ops i w (ls_store ?g)\<rparr>)"
  let ?k = "at_pc 0 Idle (?h\<lparr>ls_writer := None\<rparr>)"
  have "lock_reach ops valid s0 ?b" by (rule lock_reach_then [OF assms(1)]) (rule w_call, fact+)
  then have "lock_reach ops valid s0 ?c" by (rule lock_reach_then) (rule w_pre, simp)
  then have "lock_reach ops valid s0 ?d" by (rule lock_reach_then) (rule w_cell, simp)
  then have "lock_reach ops valid s0 ?e"
    by (rule lock_reach_then) (rule w_lock, simp_all add: assms at_pc_def)
  then have "lock_reach ops valid s0 ?f" by (rule lock_reach_then) (rule w_prep, simp)
  then have "lock_reach ops valid s0 ?g" by (rule lock_reach_then) (rule w_put, simp)
  then have "lock_reach ops valid s0 ?h" by (rule lock_reach_then) (rule w_put_window, simp)
  then have "lock_reach ops valid s0 ?k" by (rule lock_reach_then) (rule w_unlock, simp)
  then show ?thesis
    by (intro exI [of _ ?k] conjI)
      (simp_all add: at_pc_def set_store_def assms fun_eq_iff)
qed

text \<open>A whole \<open>load_with_window\<close> by thread 1 that finds the lock and nobody in it.\<close>

lemma run_load:
  assumes "lock_reach ops valid s0 s" and "ls_pcs s 1 = Idle" and "valid i"
    and "ls_writer s = None" and "ls_cell s"
  shows "\<exists>s'. lock_reach ops valid s0 s' \<and> ls_calls s' = ls_calls s \<and>
    ls_pcs s' 1 = Got i (op_get ops (ls_store s) i) (op_get_window ops (ls_store s) i)"
proof -
  let ?b = "at_pc 1 (RCalled i) s"
  let ?c = "at_pc 1 (RQueued i) ?b"
  let ?d = "at_pc 1 (RHeld i) (?c\<lparr>ls_readers := insert 1 (ls_readers ?c)\<rparr>)"
  let ?e = "at_pc 1 (RValue i (op_get ops (ls_store ?d) i)) ?d"
  let ?f = "at_pc 1 (Got i (op_get ops (ls_store ?d) i) (op_get_window ops (ls_store ?e) i))
    (?e\<lparr>ls_readers := ls_readers ?e - {1}\<rparr>)"
  have "lock_reach ops valid s0 ?b" by (rule lock_reach_then [OF assms(1)]) (rule r_call, fact+)
  then have "lock_reach ops valid s0 ?c"
    by (rule lock_reach_then) (rule r_found, simp_all add: assms at_pc_def)
  then have "lock_reach ops valid s0 ?d"
    by (rule lock_reach_then) (rule r_lock, simp_all add: assms at_pc_def)
  then have "lock_reach ops valid s0 ?e" by (rule lock_reach_then) (rule r_value, simp)
  then have "lock_reach ops valid s0 ?f" by (rule lock_reach_then) (rule r_window_second, simp)
  then show ?thesis by (intro exI [of _ ?f] conjI) (simp_all add: at_pc_def)
qed

lemma run_set_then_load:
  assumes "valid i"
  shows "\<exists>s. lock_reach ops valid (lock_init s0) s \<and> ls_calls s = {(i, v, w)} \<and>
    ls_pcs s 1 = Got i (op_get ops (set_store ops i v w s0) i)
      (op_get_window ops (set_store ops i v w s0) i)"
proof -
  obtain s where "lock_reach ops valid (lock_init s0) s"
    "ls_store s = set_store ops i v w s0" "ls_pcs s = (\<lambda>_. Idle)" "ls_cell s" "ls_writer s = None"
    "ls_calls s = {(i, v, w)}"
    using run_set [OF lock_reach.start [of ops valid "lock_init s0"], of i v w] assms
    by (auto simp: lock_init_def)
  then show ?thesis using run_load [of ops valid "lock_init s0" s i] assms by auto
qed

text \<open>Inside the contract, every step keeps the invariant.\<close>

context paired_store
begin

lemma lock_inv_step:
  assumes "lock_step ops valid s s'" and "lock_inv ops good valid view s"
  shows "lock_inv ops good valid view s'"
  using assms
proof (induction rule: lock_step.induct)
  case (w_pre s t i v w)
  note here = lock_inv_here [OF w_pre]
  show ?case
    by (rule lock_inv_hidden [OF w_pre(2) lock_step.w_pre [OF w_pre(1)]])
      (use here w_pre(1) in \<open>simp_all add: inv_pre get_pre window_pre\<close>)
next
  case (w_prep s t i v w)
  note here = lock_inv_here [OF w_prep]
  have settled: "\<not> torn s j" for j
    by (rule writer_tears_alone [of s t]) (use here w_prep(1) in simp_all)
  have "paired view (ls_calls s) j (op_get ops (op_prep ops (ls_store s)) j)
      (op_get_window ops (op_prep ops (ls_store s)) j)" for j
    using w_prep(2) settled [of j] here window_prep prep_settled
    by (auto simp: lock_inv_def paired_def split: option.splits)
  then show ?case
    by (intro lock_inv_store [OF w_prep(2) _ lock_step.w_prep [OF w_prep(1)]])
      (use here w_prep(1) in \<open>simp_all add: inv_prep\<close>)
next
  case (w_put s t i v w)
  note here = lock_inv_here [OF w_put]
  have settled: "\<not> torn s j" for j
    by (rule writer_tears_alone [of s t]) (use here w_put(1) in simp_all)
  have "paired view (ls_calls s) j (op_get ops (op_put ops i v (ls_store s)) j)
      (op_get_window ops (op_put ops i v (ls_store s)) j)"
    if "\<not> torn (at_pc t (WStored i v w) s) j" for j
  proof -
    have "j \<noteq> i" using that unfolding torn_def by (metis at_pc_simps(1) fun_upd_same stored_at.simps(1))
    then show ?thesis
      using w_put(2) settled [of j] here by (simp add: lock_inv_def get_put window_put)
  qed
  then show ?case
    by (intro lock_inv_store [OF w_put(2) _ lock_step.w_put [OF w_put(1)]])
      (use here w_put(1) in \<open>simp_all add: inv_put get_put\<close>)
next
  case (w_put_window s t i v w)
  note here = lock_inv_here [OF w_put_window]
  have settled: "\<not> torn s j" if "j \<noteq> i" for j
    by (rule writer_tears_alone [of s t]) (use here w_put_window(1) that in simp_all)
  have "paired view (ls_calls s) j (op_get ops (op_put_window ops i w (ls_store s)) j)
      (op_get_window ops (op_put_window ops i w (ls_store s)) j)" for j
    using w_put_window(2) settled [of j] here
    by (cases "j = i") (auto simp: lock_inv_def get_put_window window_put_window paired_def)
  then show ?case
    by (intro lock_inv_store [OF w_put_window(2) _ lock_step.w_put_window [OF w_put_window(1)]])
      (use here w_put_window(1) inv_put_window [of "ls_store s" i v w] in simp_all)
next
  case (r_window_second s t i x)
  note here = lock_inv_here [OF r_window_second]
  show ?case
    by (rule lock_inv_quiet [OF r_window_second(2) lock_step.r_window_second [OF r_window_second(1)]])
      (use here r_window_second reader_sees_pairs [of ops good valid view s t i] in simp_all)
next
  case (r_value_second s t i y)
  note here = lock_inv_here [OF r_value_second]
  show ?case
    by (rule lock_inv_quiet [OF r_value_second(2) lock_step.r_value_second [OF r_value_second(1)]])
      (use here r_value_second reader_sees_pairs [of ops good valid view s t i] in simp_all)
qed (frule (1) lock_inv_here; rule lock_inv_quiet, assumption, (rule step_intros; assumption);
     (simp add: paired_def subset_insertI)?)+

lemma lock_inv_init:
  "good s0 \<Longrightarrow> (\<And>i. op_get_window ops s0 i = None) \<Longrightarrow> lock_inv ops good valid view (lock_init s0)"
  by (auto simp: lock_inv_def lock_init_def guards_ok_def paired_def)

lemma lock_inv_reach:
  assumes "lock_reach ops valid (lock_init s0) s"
    and "good s0" and "\<And>i. op_get_window ops s0 i = None"
  shows "lock_inv ops good valid view s"
  using assms
proof (induction rule: lock_reach.induct)
  case start
  then show ?case by (blast intro: lock_inv_init)
next
  case (next_step s s')
  then show ?case by (blast intro: lock_inv_step)
qed

text \<open>A change of the store that no value and no window shows, by any thread at any time, keeps it too.\<close>

lemma lock_inv_unseen:
  assumes "lock_inv ops good valid view s" and "good x"
    and "\<And>i. op_get ops x i = op_get ops (ls_store s) i"
    and "\<And>i. op_get_window ops x i = op_get_window ops (ls_store s) i"
  shows "lock_inv ops good valid view (s\<lparr>ls_store := x\<rparr>)"
proof (rule lock_inv_I)
  show "guards_ok (s\<lparr>ls_store := x\<rparr>)" using assms(1) by (simp add: lock_inv_def guards_ok_def)
  show "pc_ok ops valid view (s\<lparr>ls_store := x\<rparr>) (ls_pcs (s\<lparr>ls_store := x\<rparr>) t)" for t
    using assms pc_ok_same_view [of ops "s\<lparr>ls_store := x\<rparr>" s] by (simp add: lock_inv_def)
qed (use assms in \<open>simp_all add: lock_inv_def torn_def\<close>)

lemma got_pair_was_written:
  "lock_inv ops good valid view s \<Longrightarrow> ls_pcs s t = Got i x (Some w) \<Longrightarrow> \<exists>v. (i, v, w) \<in> ls_calls s \<and> x = view v"
  by (drule (1) lock_inv_here [rotated]) (simp add: paired_def)

text \<open>
  A pair \<open>load_with_window\<close> returns with a window is one a single \<open>set_with_window\<close> wrote.
\<close>

lemma loaded_pair_was_written:
  assumes "lock_reach ops valid (lock_init s0) s"
    and "good s0" and "\<And>i. op_get_window ops s0 i = None"
    and "ls_pcs s t = Got i x (Some w)"
  shows "\<exists>v. (i, v, w) \<in> ls_calls s \<and> x = view v"
  using got_pair_was_written [OF lock_inv_reach [OF assms(1-3)] assms(4)] .

end

end
