(* ===== verification/Scalars.thy ===== *)
theory Scalars
  imports PairLock
begin

text \<open>
  The scalar metrics of the crate \<open>metriken\<close>: \<open>Counter\<close> (\<open>counter.rs\<close>), \<open>Gauge\<close>
  (\<open>gauge.rs\<close>), the lazily created metric \<open>Lazy\<close> (\<open>lazy.rs\<close>) and the two windowed
  scalars of \<open>windowed.rs\<close>. An operation on an atomic gives what it returns and the value it
  leaves; each is one atomic instruction of the code, so a run of several threads is some
  sequence of these operations.
\<close>

section \<open>Counter and gauge\<close>

type_synonym counter = u64
type_synonym gauge = i64

definition counter_with_value :: "u64 \<Rightarrow> counter" where
  "counter_with_value v = v"

definition counter_new :: counter where
  "counter_new = counter_with_value 0"

definition counter_add :: "counter \<Rightarrow> u64 \<Rightarrow> u64 \<times> counter" where
  "counter_add c v = (c, c + v)"

definition counter_increment :: "counter \<Rightarrow> u64 \<times> counter" where
  "counter_increment c = counter_add c 1"

definition counter_value :: "counter \<Rightarrow> u64" where
  "counter_value c = c"

definition counter_set :: "counter \<Rightarrow> u64 \<Rightarrow> u64 \<times> counter" where
  "counter_set c v = (c, v)"

definition counter_reset :: "counter \<Rightarrow> u64 \<times> counter" where
  "counter_reset c = counter_set c 0"

definition gauge_with_value :: "i64 \<Rightarrow> gauge" where
  "gauge_with_value v = v"

definition gauge_new :: gauge where
  "gauge_new = gauge_with_value 0"

definition gauge_add :: "gauge \<Rightarrow> i64 \<Rightarrow> i64 \<times> gauge" where
  "gauge_add g v = (g, g + v)"

definition gauge_sub :: "gauge \<Rightarrow> i64 \<Rightarrow> i64 \<times> gauge" where
  "gauge_sub g v = (g, g - v)"

definition gauge_increment :: "gauge \<Rightarrow> i64 \<times> gauge" where
  "gauge_increment g = gauge_add g 1"

definition gauge_decrement :: "gauge \<Rightarrow> i64 \<times> gauge" where
  "gauge_decrement g = gauge_sub g 1"

definition gauge_value :: "gauge \<Rightarrow> i64" where
  "gauge_value g = g"

definition gauge_set :: "gauge \<Rightarrow> i64 \<Rightarrow> i64 \<times> gauge" where
  "gauge_set g v = (g, v)"

definition gauge_reset :: "gauge \<Rightarrow> i64 \<times> gauge" where
  "gauge_reset g = gauge_set g 0"

lemmas counter_defs [op_defs] = counter_with_value_def counter_new_def counter_add_def
  counter_increment_def counter_value_def counter_set_def counter_reset_def
lemmas gauge_defs [op_defs] = gauge_with_value_def gauge_new_def gauge_add_def gauge_sub_def
  gauge_increment_def gauge_decrement_def gauge_value_def gauge_set_def gauge_reset_def

section \<open>Lazy\<close>

text \<open>
  \<open>func\<close> is taken out of its cell the first time the value is forced. It may panic, after
  which the cell stays empty and the function is gone.
\<close>

datatype lazy_panic = Poisoned | FuncPanicked

record 'a lazy =
  lz_cell :: "'a option"
  lz_func :: "(unit \<Rightarrow> 'a option) option"   \<comment> \<open>\<open>None\<close> from the call: it panicked\<close>

definition lazy_new :: "(unit \<Rightarrow> 'a option) \<Rightarrow> 'a lazy" where
  "lazy_new f = \<lparr>lz_cell = None, lz_func = Some f\<rparr>"

definition lazy_get :: "'a lazy \<Rightarrow> 'a option" where
  "lazy_get l = lz_cell l"

definition lazy_force :: "'a lazy \<Rightarrow> (lazy_panic + 'a) \<times> 'a lazy" where
  "lazy_force l =
     (case lz_cell l of
        Some x \<Rightarrow> (Inr x, l)
      | None \<Rightarrow>
         (case lz_func l of
            None \<Rightarrow> (Inl Poisoned, l)
          | Some f \<Rightarrow>
             (case f () of
                None \<Rightarrow> (Inl FuncPanicked, l\<lparr>lz_func := None\<rparr>)
              | Some x \<Rightarrow> (Inr x, l\<lparr>lz_func := None, lz_cell := Some x\<rparr>))))"

text \<open>A metric behind a \<open>Lazy\<close> is read without forcing it.\<close>

definition lazy_is_enabled :: "'a lazy \<Rightarrow> bool" where
  "lazy_is_enabled l \<longleftrightarrow> lazy_get l \<noteq> None"

definition lazy_value :: "('a \<Rightarrow> 'b option) \<Rightarrow> 'a lazy \<Rightarrow> 'b option" where
  "lazy_value value l = Option.bind (lazy_get l) value"

lemma lazy_force_get: "lazy_force l = (Inr x, l') \<Longrightarrow> lazy_get l' = Some x"
  by (auto simp: lazy_force_def lazy_get_def split: option.splits)

lemma lazy_force_stable: "lazy_get l = Some x \<Longrightarrow> lazy_force l = (Inr x, l)"
  by (simp add: lazy_force_def lazy_get_def)

text \<open>The function runs at most once: a second force gives the first's value, or panics.\<close>

lemma lazy_force_twice:
  "lazy_force l = (r, l') \<Longrightarrow>
     lazy_force l' = ((case r of Inr x \<Rightarrow> Inr x | Inl _ \<Rightarrow> Inl Poisoned), l')"
  by (auto simp: lazy_force_def split: option.splits)

section \<open>Windowed scalars\<close>

text \<open>
  \<open>WindowedLazyCounter\<close> and \<open>WindowedLazyGauge\<close> differ only in the Rust type of the value,
  and both types are 64-bit words here, so one record models both.
\<close>

record windowed_lazy =
  wl_inner :: "u64 lazy"
  wl_window :: window_cell

definition windowed_new :: "(unit \<Rightarrow> u64 option) \<Rightarrow> windowed_lazy" where
  "windowed_new f = \<lparr>wl_inner = lazy_new f, wl_window = wc_new\<rparr>"

text \<open>
  \<open>self.inner.set(value)\<close> forces the inner metric and swaps the value in, under the window
  guard; when forcing panics the guard is dropped and neither value nor window is stored.
\<close>

definition windowed_set :: "u64 \<Rightarrow> windowed_lazy \<Rightarrow> (lazy_panic + unit) \<times> windowed_lazy" where
  "windowed_set v s =
     (case lazy_force (wl_inner s) of
        (Inl e, l) \<Rightarrow> (Inl e, s\<lparr>wl_inner := l\<rparr>)
      | (Inr old, l) \<Rightarrow>
          (Inr (), s\<lparr>wl_inner := l\<lparr>lz_cell := Some (snd (counter_set old v))\<rparr>\<rparr>))"

definition windowed_set_with_window ::
    "u64 \<Rightarrow> window \<Rightarrow> windowed_lazy \<Rightarrow> (lazy_panic + unit) \<times> windowed_lazy" where
  "windowed_set_with_window v w s =
     (case windowed_set v (s\<lparr>wl_window := wc_get_or_init (wl_window s)\<rparr>) of
        (Inl e, s') \<Rightarrow> (Inl e, s')
      | (Inr _, s') \<Rightarrow>
          (Inr (), s'\<lparr>wl_window := snd (wc_with_write (wl_window s') (\<lambda>_. ((), Some w)))\<rparr>))"

definition windowed_load_with_window :: "windowed_lazy \<Rightarrow> u64 option \<times> window option" where
  "windowed_load_with_window s =
     wc_with_read (wl_window s) (\<lambda>w. (map_option counter_value (lazy_get (wl_inner s)), w))"

definition windowed_load_window :: "windowed_lazy \<Rightarrow> window option" where
  "windowed_load_window s = wc_load (wl_window s)"

lemma windowed_load_after_set:
  "windowed_set_with_window v w s = (Inr (), s') \<Longrightarrow>
     windowed_load_with_window s' = (Some v, Some w)"
  by (auto simp: windowed_set_with_window_def windowed_set_def windowed_load_with_window_def
      wc_defs lazy_get_def op_defs split: prod.splits sum.splits option.splits)

section \<open>The windowed scalars keep the pair contract\<close>

text \<open>
  The steps of \<open>set_with_window\<close> under the guard: force the inner metric, swap the value
  in, store the window. The constructor of a windowed static is a function that returns, so
  the inner metric holds a value or a function that gives one; a window is only ever stored
  after a value.
\<close>

definition windowed_good :: "windowed_lazy \<Rightarrow> bool" where
  "windowed_good s \<longleftrightarrow>
     (lazy_get (wl_inner s) = None \<longrightarrow>
        (\<exists>f x. lz_func (wl_inner s) = Some f \<and> f () = Some x) \<and> wc_load (wl_window s) = None)"

definition windowed_ops :: "(windowed_lazy, unit, u64) pair_ops" where
  "windowed_ops =
     \<lparr>op_pre = (\<lambda>s. s),
      op_prep = (\<lambda>s. s\<lparr>wl_inner := snd (lazy_force (wl_inner s))\<rparr>),
      op_put = (\<lambda>_ v s. snd (windowed_set v s)),
      op_put_window = (\<lambda>_ w s.
        s\<lparr>wl_window := snd (wc_with_write (wl_window s) (\<lambda>_. ((), Some w)))\<rparr>),
      op_get = (\<lambda>s _. map_option counter_value (lazy_get (wl_inner s))),
      op_get_window = (\<lambda>s _. wc_load (wl_window s))\<rparr>"

lemma windowed_good_new: "f () \<noteq> None \<Longrightarrow> windowed_good (windowed_new f)"
  by (auto simp: windowed_good_def windowed_new_def lazy_new_def lazy_get_def wc_defs)

lemma windowed_forced:
  assumes "windowed_good s"
  obtains x l where "lazy_force (wl_inner s) = (Inr x, l)" and "lz_cell l = Some x"
    and "lazy_get (wl_inner s) \<noteq> None \<longrightarrow> l = wl_inner s"
  using assms by (fastforce simp: windowed_good_def lazy_force_def lazy_get_def split: option.splits)

text \<open>The three steps under the guard, in order, are the whole of \<open>set_with_window\<close>.\<close>

lemma windowed_ops_compose:
  assumes "windowed_good s"
  shows "windowed_set_with_window v w s =
    (Inr (), op_put_window windowed_ops () w (op_put windowed_ops () v (op_prep windowed_ops s)))"
proof -
  obtain x l where "lazy_force (wl_inner s) = (Inr x, l)" and "lz_cell l = Some x"
    using windowed_forced [OF assms] .
  then show ?thesis
    by (simp add: windowed_set_with_window_def windowed_set_def windowed_ops_def lazy_get_def
        wc_defs op_defs lazy_force_stable split: option.splits)
qed


interpretation windowed: paired_store windowed_ops windowed_good "\<lambda>_. True" Some
proof
  fix s :: windowed_lazy and i j :: unit and v w
  assume good: "windowed_good s"
  obtain x l where force: "lazy_force (wl_inner s) = (Inr x, l)" and l: "lz_cell l = Some x"
    and old: "lazy_get (wl_inner s) \<noteq> None \<longrightarrow> l = wl_inner s"
    using windowed_forced [OF good] .
  note ops = windowed_ops_def windowed_set_def windowed_good_def wc_defs op_defs lazy_get_def force l
  show "windowed_good (op_pre windowed_ops s)"
    "op_get windowed_ops (op_pre windowed_ops s) i = op_get windowed_ops s i"
    "op_get_window windowed_ops (op_pre windowed_ops s) i = op_get_window windowed_ops s i"
    using good by (simp_all add: windowed_ops_def)
  show "windowed_good (op_prep windowed_ops s)" "windowed_good (op_put windowed_ops i v s)"
    by (simp_all add: ops)
  show "op_get windowed_ops s i = Some v \<Longrightarrow> windowed_good (op_put_window windowed_ops i w s)"
    by (auto simp: windowed_ops_def windowed_good_def lazy_get_def)
  show "op_get_window windowed_ops (op_prep windowed_ops s) i = op_get_window windowed_ops s i"
    "op_get windowed_ops (op_put windowed_ops i v s) j =
       (if i = j then Some v else op_get windowed_ops s j)"
    "op_get_window windowed_ops (op_put windowed_ops i v s) j = op_get_window windowed_ops s j"
    "op_get windowed_ops (op_put_window windowed_ops i w s) j = op_get windowed_ops s j"
    "op_get_window windowed_ops (op_put_window windowed_ops i w s) j =
       (if i = j then Some w else op_get_window windowed_ops s j)"
    by (simp_all add: ops split: option.splits)
  show "op_get_window windowed_ops s i \<noteq> None \<Longrightarrow>
      op_get windowed_ops (op_prep windowed_ops s) i = op_get windowed_ops s i"
    using good old l
    by (auto simp: windowed_ops_def windowed_good_def wc_defs op_defs lazy_get_def force)
qed

section \<open>The claims\<close>

text \<open>
  C10. However many threads call \<open>set_with_window\<close> and \<open>load_with_window\<close> on one windowed
  counter or gauge, a load that returns a window returns it with the value of the same call:
  some single \<open>set_with_window(v, w)\<close> wrote both.
\<close>

theorem windowed_load_never_mixes_calls:
  assumes "f () \<noteq> None"
    and "lock_reach windowed_ops (\<lambda>_. True) (lock_init (windowed_new f)) s"
    and "ls_pcs s t = Got () x (Some w)"
  shows "\<exists>v. ((), v, w) \<in> ls_calls s \<and> x = Some v"
  using windowed.loaded_pair_was_written [OF assms(2) windowed_good_new [of f, OF assms(1)] _ assms(3)]
  by (simp add: windowed_ops_def windowed_new_def wc_defs)

theorem windowed_load_never_mixes_calls_witness:
  "\<exists>s. lock_reach windowed_ops (\<lambda>_. True) (lock_init (windowed_new (\<lambda>_. Some 0))) s \<and>
     ls_pcs s 1 = Got () (Some 9) (Some (window_new 10 20)) \<and>
     (\<exists>v. ((), v, window_new 10 20) \<in> ls_calls s \<and> Some 9 = Some v)"
proof -
  let ?w = "window_new 10 20" and ?s0 = "windowed_new (\<lambda>_. Some 0)"
  obtain s where s: "lock_reach windowed_ops (\<lambda>_. True) (lock_init ?s0) s"
    and got: "ls_pcs s 1 = Got () (op_get windowed_ops (set_store windowed_ops () 9 ?w ?s0) ())
      (op_get_window windowed_ops (set_store windowed_ops () 9 ?w ?s0) ())"
    using run_set_then_load [of "\<lambda>_. True" "()" windowed_ops ?s0 9 ?w] by auto
  have pc: "ls_pcs s 1 = Got () (Some 9) (Some ?w)"
    using got by (simp add: set_store_def windowed_ops_def windowed_set_def windowed_new_def
        lazy_new_def lazy_force_def lazy_get_def wc_defs op_defs)
  have "\<exists>v. ((), v, ?w) \<in> ls_calls s \<and> Some 9 = Some v"
    by (rule windowed_load_never_mixes_calls [OF _ s pc]) simp
  with s pc show ?thesis by blast
qed

text \<open>
  The exception to the pair: a load that looked for the lock before the first
  \<open>set_with_window\<close> allocated it takes no guard. That call can store its value and its window
  and return before the load reads, and then the load returns the value with no window.
\<close>

theorem first_load_can_lose_the_window:
  "\<exists>s. lock_reach windowed_ops (\<lambda>_. True) (lock_init (windowed_new (\<lambda>_. Some 0))) s \<and>
     ls_calls s = {((), v, w)} \<and> ls_pcs s 0 = Idle \<and>
     windowed_load_with_window (ls_store s) = (Some v, Some w) \<and>
     ls_pcs s 1 = Got () (Some v) None"
proof -
  let ?s0 = "lock_init (windowed_new (\<lambda>_. Some 0))"
  let ?reach = "lock_reach windowed_ops (\<lambda>_. True) ?s0"
  let ?a = "at_pc 1 (RBare ()) (at_pc 1 (RCalled ()) ?s0)"
  have "?reach (at_pc 1 (RCalled ()) ?s0)"
    by (rule lock_reach_then [OF lock_reach.start]) (rule r_call, simp_all add: lock_init_def)
  then have "?reach ?a"
    by (rule lock_reach_then) (rule r_bare, simp_all add: lock_init_def at_pc_def)
  then obtain s where s: "?reach s" "ls_calls s = {((), v, w)}" "ls_pcs s 0 = Idle"
    "ls_pcs s 1 = RBare ()"
    "ls_store s = set_store windowed_ops () v w (windowed_new (\<lambda>_. Some 0))"
    using run_set [of windowed_ops "\<lambda>_. True" ?s0 ?a "()" v w]
    by (auto simp: lock_init_def at_pc_def)
  have stored: "windowed_load_with_window (ls_store s) = (Some v, Some w)"
    by (simp add: s(5) set_store_def windowed_ops_def windowed_set_def windowed_load_with_window_def
        windowed_new_def lazy_new_def lazy_force_def lazy_get_def wc_defs op_defs)
  let ?s = "at_pc 1 (Got () (op_get windowed_ops (ls_store s) ()) None) s"
  have "?reach ?s" by (rule lock_reach_then [OF s(1)]) (rule r_bare_read, rule s(4))
  moreover have "op_get windowed_ops (ls_store s) () = Some v"
    using stored by (auto simp: windowed_load_with_window_def windowed_ops_def wc_with_read_load)
  ultimately show ?thesis using s stored by (intro exI [of _ ?s]) simp
qed

end
