(* ===== verification/GroupMeta.thy ===== *)
theory GroupMeta
  imports Prelude
begin

text \<open>
  \<open>GroupMetadata\<close> (\<open>metriken/src/group/metadata.rs\<close>): the sparse metadata of a group's entries,
  with the version that every mutation bumps under the write lock. Each operation takes the
  lock once, so a run of several threads is a sequence of these operations.
\<close>

section \<open>State and operations\<close>

record group_metadata =
  gm_inner :: "(nat, smap) fmap option"   \<comment> \<open>the \<open>OnceLock\<close>: \<open>None\<close> until the first insert\<close>
  gm_version :: u64

definition gm_new :: group_metadata where
  "gm_new = \<lparr>gm_inner = None, gm_version = 0\<rparr>"

definition gm_get_or_init :: "group_metadata \<Rightarrow> (nat, smap) fmap" where
  "gm_get_or_init g = (case gm_inner g of None \<Rightarrow> fmempty | Some m \<Rightarrow> m)"

definition gm_insert :: "nat \<Rightarrow> smap \<Rightarrow> group_metadata \<Rightarrow> group_metadata" where
  "gm_insert idx md g =
     \<lparr>gm_inner = Some (fmupd idx md (gm_get_or_init g)), gm_version = gm_version g + 1\<rparr>"

definition gm_insert_kv :: "nat \<Rightarrow> string \<Rightarrow> string \<Rightarrow> group_metadata \<Rightarrow> group_metadata" where
  "gm_insert_kv idx k v g =
     (let store = gm_get_or_init g;
          entry = (case fmlookup store idx of None \<Rightarrow> fmempty | Some md \<Rightarrow> md)
      in \<lparr>gm_inner = Some (fmupd idx (fmupd k v entry) store), gm_version = gm_version g + 1\<rparr>)"

definition gm_load :: "group_metadata \<Rightarrow> nat \<Rightarrow> smap option" where
  "gm_load g idx = (case gm_inner g of None \<Rightarrow> None | Some m \<Rightarrow> fmlookup m idx)"

definition gm_with :: "group_metadata \<Rightarrow> nat \<Rightarrow> (smap option \<Rightarrow> 'r) \<Rightarrow> 'r" where
  "gm_with g idx f = (case gm_inner g of Some m \<Rightarrow> f (fmlookup m idx) | None \<Rightarrow> f None)"

definition gm_remove :: "nat \<Rightarrow> group_metadata \<Rightarrow> group_metadata" where
  "gm_remove idx g =
     (case gm_inner g of
        None \<Rightarrow> g
      | Some m \<Rightarrow>
          (if fmlookup m idx \<noteq> None
           then g\<lparr>gm_inner := Some (fmdrop idx m), gm_version := gm_version g + 1\<rparr> else g))"

text \<open>The order of the entries is unspecified, so a snapshot is their finite set.\<close>

definition gm_snapshot :: "group_metadata \<Rightarrow> (nat \<times> smap) fset" where
  "gm_snapshot g = (case gm_inner g of Some m \<Rightarrow> fset_of_fmap m | None \<Rightarrow> {||})"

lemmas gm_defs = gm_new_def gm_get_or_init_def gm_insert_def gm_insert_kv_def gm_load_def
  gm_with_def gm_remove_def gm_snapshot_def

section \<open>What an entry reads as\<close>

lemma gm_load_new [simp]: "gm_load gm_new i = None"
  by (simp add: gm_defs)

lemma gm_load_insert [simp]:
  "gm_load (gm_insert idx md g) i = (if idx = i then Some md else gm_load g i)"
  by (simp add: gm_defs split: option.splits)

lemma gm_load_insert_kv [simp]:
  "gm_load (gm_insert_kv idx k v g) i =
     (if idx = i then Some (fmupd k v (case gm_load g i of None \<Rightarrow> fmempty | Some md \<Rightarrow> md))
      else gm_load g i)"
  by (simp add: gm_defs Let_def split: option.splits)

lemma gm_load_remove [simp]: "gm_load (gm_remove idx g) i = (if idx = i then None else gm_load g i)"
  by (auto simp: gm_defs split: option.splits)

lemma gm_with_load: "gm_with g idx f = f (gm_load g idx)"
  by (simp add: gm_defs split: option.splits)

lemma gm_snapshot_iff: "(i, md) |\<in>| gm_snapshot g \<longleftrightarrow> gm_load g i = Some md"
  by (auto simp: gm_defs split: option.splits)

section \<open>The version\<close>

datatype gm_op = MSet nat smap | MSetKv nat string string | MRemove nat

fun gm_apply :: "gm_op \<Rightarrow> group_metadata \<Rightarrow> group_metadata" where
  "gm_apply (MSet i md) g = gm_insert i md g"
| "gm_apply (MSetKv i k v) g = gm_insert_kv i k v g"
| "gm_apply (MRemove i) g = gm_remove i g"

definition gm_run :: "gm_op list \<Rightarrow> group_metadata \<Rightarrow> group_metadata" where
  "gm_run ops g = fold gm_apply ops g"

text \<open>How many of the operations mutate: all but a remove of an absent entry.\<close>

fun gm_mutates :: "gm_op \<Rightarrow> group_metadata \<Rightarrow> bool" where
  "gm_mutates (MRemove i) g \<longleftrightarrow> gm_load g i \<noteq> None"
| "gm_mutates _ g \<longleftrightarrow> True"

fun gm_mutations :: "gm_op list \<Rightarrow> group_metadata \<Rightarrow> nat" where
  "gm_mutations [] g = 0"
| "gm_mutations (x # xs) g = (if gm_mutates x g then 1 else 0) + gm_mutations xs (gm_apply x g)"

lemma gm_version_apply: "gm_version (gm_apply x g) = gm_version g + (if gm_mutates x g then 1 else 0)"
  by (cases x) (auto simp: gm_defs Let_def split: option.splits)

lemma gm_apply_idle: "\<not> gm_mutates x g \<Longrightarrow> gm_load (gm_apply x g) = gm_load g"
  by (cases x) (auto simp: fun_eq_iff)

lemma gm_version_run: "gm_version (gm_run ops g) = gm_version g + of_nat (gm_mutations ops g)"
  by (induction ops arbitrary: g) (auto simp: gm_run_def gm_version_apply)

lemma gm_mutations_le: "gm_mutations ops g \<le> length ops"
  by (induction ops g rule: gm_mutations.induct) auto

lemma gm_run_idle: "gm_mutations ops g = 0 \<Longrightarrow> gm_load (gm_run ops g) = gm_load g"
  by (induction ops g rule: gm_mutations.induct) (auto simp: gm_run_def gm_apply_idle split: if_splits)

lemma gm_mutations_append:
  "gm_mutations (xs @ ys) g = gm_mutations xs g + gm_mutations ys (gm_run xs g)"
  by (induction xs g rule: gm_mutations.induct) (auto simp: gm_run_def)

lemma of_nat_u64_0: "n < 2 ^ 64 \<Longrightarrow> (of_nat n :: u64) = 0 \<longleftrightarrow> n = 0"
  by (auto simp: word_of_nat_eq_0_iff dest: dvd_imp_le)

text \<open>
  A reader that takes the version, then reads metadata, and later finds the version
  unchanged holds metadata that is still current: whatever writers did in between (fewer
  than \<open>2 ^ 64\<close> writes), no entry reads differently from what it read.
\<close>

theorem unchanged_version_unchanged_metadata:
  assumes "gm_version (gm_run (before @ after) g) = gm_version g"
    and "length (before @ after) < 2 ^ 64"
  shows "gm_load (gm_run (before @ after) g) = gm_load (gm_run before g)"
proof -
  have "(of_nat (gm_mutations (before @ after) g) :: u64) = 0"
    using assms(1) by (simp add: gm_version_run)
  moreover have "gm_mutations (before @ after) g < 2 ^ 64"
    using gm_mutations_le assms(2) by (rule le_less_trans)
  ultimately have "gm_mutations (before @ after) g = 0" by (simp add: of_nat_u64_0)
  then have "gm_mutations after (gm_run before g) = 0" by (simp add: gm_mutations_append)
  then have "gm_load (gm_run after (gm_run before g)) = gm_load (gm_run before g)"
    by (rule gm_run_idle)
  then show ?thesis by (simp add: gm_run_def)
qed

theorem unchanged_version_unchanged_metadata_witness:
  "gm_load (gm_run ([MRemove 3] @ [MRemove 4]) (gm_insert 1 fmempty gm_new)) =
   gm_load (gm_run [MRemove 3] (gm_insert 1 fmempty gm_new))"
  by (rule unchanged_version_unchanged_metadata) (simp_all add: gm_run_def gm_defs)

end
