(* ===== verification/MetricGroups.thy ===== *)
theory MetricGroups
  imports PairLock GroupMeta
begin

text \<open>
  \<open>CounterGroup\<close> and \<open>GaugeGroup\<close> (\<open>metriken/src/group/counter.rs\<close>, \<open>gauge.rs\<close>): a dense array
  of atomics that is allocated on the first write and filled with a sentinel, with sparse
  metadata and sparse windows beside it. The two types have the same code but for the
  sentinel (\<open>u64::MAX\<close>, \<open>i64::MIN\<close>) and the gauge's \<open>sub\<close>, so the operations are
  written once over the sentinel \<open>u\<close> and then instantiated.

  Slices are indexed with a bounds check in Rust: an index outside the slice is a panic, a
  value of the result type here. An entry's atomic operations are single instructions, so
  a run of several threads is a sequence of the operations below; the compare-exchange loop
  inside \<open>add\<close> and \<open>sub\<close> is taken apart in the theory \<open>CasLoop\<close>.
\<close>

section \<open>State\<close>

datatype backing = Owned "u64 list" | External "u64 list"

fun as_slice :: "backing \<Rightarrow> u64 list" where
  "as_slice (Owned v) = v"
| "as_slice (External s) = s"

fun with_slice :: "u64 list \<Rightarrow> backing \<Rightarrow> backing" where
  "with_slice xs (Owned v) = Owned xs"
| "with_slice xs (External s) = External xs"

record group =
  g_values :: "backing option"         \<comment> \<open>the \<open>OnceLock\<close>\<close>
  g_metadata :: group_metadata
  g_windows :: group_windows
  g_entries :: nat

datatype group_panic = IndexOutOfBounds

section \<open>Operations over a sentinel\<close>

definition grp_new :: "nat \<Rightarrow> group" where
  "grp_new n = \<lparr>g_values = None, g_metadata = gm_new, g_windows = gw_new, g_entries = n\<rparr>"

definition grp_attach_external :: "u64 list \<Rightarrow> group \<Rightarrow> group" where
  "grp_attach_external xs g =
     (case g_values g of None \<Rightarrow> g\<lparr>g_values := Some (External xs)\<rparr> | Some _ \<Rightarrow> g)"

definition grp_get_or_init :: "u64 \<Rightarrow> group \<Rightarrow> group" where
  "grp_get_or_init u g =
     (case g_values g of
        None \<Rightarrow> g\<lparr>g_values := Some (Owned (replicate (g_entries g) u))\<rparr> | Some _ \<Rightarrow> g)"

definition grp_slice :: "group \<Rightarrow> u64 list" where
  "grp_slice g = (case g_values g of None \<Rightarrow> [] | Some b \<Rightarrow> as_slice b)"

text \<open>One atomic read-modify-write of \<open>slice[idx]\<close>.\<close>

definition grp_modify :: "nat \<Rightarrow> (u64 \<Rightarrow> u64) \<Rightarrow> group \<Rightarrow> (group_panic + bool) \<times> group" where
  "grp_modify idx f g =
     (if idx < length (grp_slice g)
      then (Inr True, g\<lparr>g_values := map_option
              (with_slice ((grp_slice g)[idx := f (grp_slice g ! idx)])) (g_values g)\<rparr>)
      else (Inl IndexOutOfBounds, g))"

text \<open>What the compare-exchange loop of \<open>add\<close> puts in place of the current value.\<close>

definition bump :: "u64 \<Rightarrow> u64 \<Rightarrow> u64 \<Rightarrow> u64" where
  "bump u v current = (if current = u then v else current + v)"

definition drop_by :: "u64 \<Rightarrow> u64 \<Rightarrow> u64 \<Rightarrow> u64" where
  "drop_by u v current = (if current = u then - v else current - v)"

definition grp_update :: "u64 \<Rightarrow> nat \<Rightarrow> (u64 \<Rightarrow> u64) \<Rightarrow> group \<Rightarrow> (group_panic + bool) \<times> group" where
  "grp_update u idx f g =
     (if g_entries g \<le> idx then (Inr False, g) else grp_modify idx f (grp_get_or_init u g))"

definition grp_add :: "u64 \<Rightarrow> nat \<Rightarrow> u64 \<Rightarrow> group \<Rightarrow> (group_panic + bool) \<times> group" where
  "grp_add u idx v g = grp_update u idx (bump u v) g"

definition grp_sub :: "u64 \<Rightarrow> nat \<Rightarrow> u64 \<Rightarrow> group \<Rightarrow> (group_panic + bool) \<times> group" where
  "grp_sub u idx v g = grp_update u idx (drop_by u v) g"

definition grp_set :: "u64 \<Rightarrow> nat \<Rightarrow> u64 \<Rightarrow> group \<Rightarrow> (group_panic + bool) \<times> group" where
  "grp_set u idx v g = grp_update u idx (\<lambda>_. v) g"

definition view :: "u64 \<Rightarrow> u64 \<Rightarrow> u64 option" where
  "view u v = (if v \<noteq> u then Some v else None)"

text \<open>The read under \<open>value\<close> and \<open>load_with_window\<close>; a slice that is too short panics.\<close>

definition grp_read :: "u64 \<Rightarrow> nat \<Rightarrow> group \<Rightarrow> group_panic + u64 option" where
  "grp_read u idx g =
     (case g_values g of
        None \<Rightarrow> Inr None
      | Some b \<Rightarrow>
          (if idx < length (as_slice b) then Inr (view u (as_slice b ! idx))
           else Inl IndexOutOfBounds))"

definition grp_value :: "u64 \<Rightarrow> nat \<Rightarrow> group \<Rightarrow> group_panic + u64 option" where
  "grp_value u idx g = (if g_entries g \<le> idx then Inr None else grp_read u idx g)"

definition grp_load :: "group \<Rightarrow> u64 list option" where
  "grp_load g = map_option as_slice (g_values g)"

definition grp_set_metadata :: "nat \<Rightarrow> smap \<Rightarrow> group \<Rightarrow> group" where
  "grp_set_metadata idx md g =
     (if idx < g_entries g then g\<lparr>g_metadata := gm_insert idx md (g_metadata g)\<rparr> else g)"

definition grp_insert_metadata :: "nat \<Rightarrow> string \<Rightarrow> string \<Rightarrow> group \<Rightarrow> group" where
  "grp_insert_metadata idx k v g =
     (if idx < g_entries g then g\<lparr>g_metadata := gm_insert_kv idx k v (g_metadata g)\<rparr> else g)"

definition grp_load_metadata :: "group \<Rightarrow> nat \<Rightarrow> smap option" where
  "grp_load_metadata g idx = gm_load (g_metadata g) idx"

definition grp_metadata_version :: "group \<Rightarrow> u64" where
  "grp_metadata_version g = gm_version (g_metadata g)"

definition grp_with_metadata :: "group \<Rightarrow> nat \<Rightarrow> (smap option \<Rightarrow> 'r) \<Rightarrow> 'r" where
  "grp_with_metadata g idx f = gm_with (g_metadata g) idx f"

definition grp_clear_metadata :: "nat \<Rightarrow> group \<Rightarrow> group" where
  "grp_clear_metadata idx g = g\<lparr>g_metadata := gm_remove idx (g_metadata g)\<rparr>"

definition grp_metadata_snapshot :: "group \<Rightarrow> (nat \<times> smap) fset" where
  "grp_metadata_snapshot g = gm_snapshot (g_metadata g)"

definition grp_set_window :: "nat \<Rightarrow> u64 \<Rightarrow> u64 \<Rightarrow> group \<Rightarrow> group" where
  "grp_set_window idx b e g =
     (if idx < g_entries g
      then g\<lparr>g_windows := gw_insert (g_windows g) idx (window_new b e)\<rparr> else g)"

definition grp_load_window :: "group \<Rightarrow> nat \<Rightarrow> window option" where
  "grp_load_window g idx = gw_load (g_windows g) idx"

definition grp_window_snapshot :: "group \<Rightarrow> (nat \<times> window) fset" where
  "grp_window_snapshot g = gw_snapshot (g_windows g)"

definition grp_set_with_window ::
    "u64 \<Rightarrow> nat \<Rightarrow> u64 \<Rightarrow> window \<Rightarrow> group \<Rightarrow> (group_panic + bool) \<times> group" where
  "grp_set_with_window u idx v w g =
     (if g_entries g \<le> idx then (Inr False, g)
      else
        case grp_modify idx (\<lambda>_. v) (grp_get_or_init u g) of
          (Inl e, g') \<Rightarrow> (Inl e, g'\<lparr>g_windows := Some (gw_get_or_init (g_windows g'))\<rparr>)
        | (Inr _, g') \<Rightarrow>
            (Inr True, g'\<lparr>g_windows :=
               snd (gw_with_write (g_windows g') (\<lambda>m. ((), fmupd idx w m)))\<rparr>))"

definition grp_load_with_window ::
    "u64 \<Rightarrow> nat \<Rightarrow> group \<Rightarrow> group_panic + (u64 option \<times> window option)" where
  "grp_load_with_window u idx g =
     (if g_entries g \<le> idx then Inr (None, None)
      else gw_with_read (g_windows g) (\<lambda>m.
        case grp_read u idx g of
          Inl e \<Rightarrow> Inl e
        | Inr x \<Rightarrow> Inr (x, case m of None \<Rightarrow> None | Some m \<Rightarrow> fmlookup m idx)))"

section \<open>The counter group and the gauge group\<close>

definition UNWRITTEN :: u64 where
  "UNWRITTEN = u64_max"

definition cg_add :: "nat \<Rightarrow> u64 \<Rightarrow> group \<Rightarrow> (group_panic + bool) \<times> group" where
  "cg_add = grp_add UNWRITTEN"

definition cg_increment :: "nat \<Rightarrow> group \<Rightarrow> (group_panic + bool) \<times> group" where
  "cg_increment idx = cg_add idx 1"

definition cg_set :: "nat \<Rightarrow> u64 \<Rightarrow> group \<Rightarrow> (group_panic + bool) \<times> group" where
  "cg_set = grp_set UNWRITTEN"

definition cg_value :: "nat \<Rightarrow> group \<Rightarrow> group_panic + u64 option" where
  "cg_value = grp_value UNWRITTEN"

definition cg_set_with_window :: "nat \<Rightarrow> u64 \<Rightarrow> window \<Rightarrow> group \<Rightarrow> (group_panic + bool) \<times> group" where
  "cg_set_with_window = grp_set_with_window UNWRITTEN"

definition cg_load_with_window :: "nat \<Rightarrow> group \<Rightarrow> group_panic + (u64 option \<times> window option)" where
  "cg_load_with_window = grp_load_with_window UNWRITTEN"

definition gg_add :: "nat \<Rightarrow> i64 \<Rightarrow> group \<Rightarrow> (group_panic + bool) \<times> group" where
  "gg_add = grp_add i64_min"

definition gg_sub :: "nat \<Rightarrow> i64 \<Rightarrow> group \<Rightarrow> (group_panic + bool) \<times> group" where
  "gg_sub = grp_sub i64_min"

definition gg_increment :: "nat \<Rightarrow> group \<Rightarrow> (group_panic + bool) \<times> group" where
  "gg_increment idx = gg_add idx 1"

definition gg_decrement :: "nat \<Rightarrow> group \<Rightarrow> (group_panic + bool) \<times> group" where
  "gg_decrement idx = gg_sub idx 1"

definition gg_set :: "nat \<Rightarrow> i64 \<Rightarrow> group \<Rightarrow> (group_panic + bool) \<times> group" where
  "gg_set = grp_set i64_min"

definition gg_value :: "nat \<Rightarrow> group \<Rightarrow> group_panic + i64 option" where
  "gg_value = grp_value i64_min"

definition gg_set_with_window :: "nat \<Rightarrow> i64 \<Rightarrow> window \<Rightarrow> group \<Rightarrow> (group_panic + bool) \<times> group" where
  "gg_set_with_window = grp_set_with_window i64_min"

definition gg_load_with_window :: "nat \<Rightarrow> group \<Rightarrow> group_panic + (i64 option \<times> window option)" where
  "gg_load_with_window = grp_load_with_window i64_min"

lemmas counter_group_defs = UNWRITTEN_def cg_add_def cg_increment_def cg_set_def cg_value_def
  cg_set_with_window_def cg_load_with_window_def
lemmas gauge_group_defs = gg_add_def gg_sub_def gg_increment_def gg_decrement_def gg_set_def
  gg_value_def gg_set_with_window_def gg_load_with_window_def

section \<open>Well-formed groups\<close>

text \<open>
  An owned array has exactly \<open>entries\<close> elements; an attached slice must have at least as
  many, which is what \<open>attach_external\<close> asks of its caller.
\<close>

definition grp_wf :: "group \<Rightarrow> bool" where
  "grp_wf g \<longleftrightarrow> (case g_values g of None \<Rightarrow> True | Some b \<Rightarrow> g_entries g \<le> length (as_slice b))"

text \<open>The raw content of an entry; \<open>u\<close> while nothing is allocated.\<close>

definition grp_cell :: "u64 \<Rightarrow> group \<Rightarrow> nat \<Rightarrow> u64" where
  "grp_cell u g i = (case g_values g of None \<Rightarrow> u | Some b \<Rightarrow> as_slice b ! i)"

lemma as_slice_with_slice [simp]: "as_slice (with_slice xs b) = xs"
  by (cases b) simp_all

lemma grp_new_wf [simp]: "grp_wf (grp_new n)" "g_entries (grp_new n) = n"
  "grp_cell u (grp_new n) i = u" "grp_load_window (grp_new n) i = None"
  by (simp_all add: grp_wf_def grp_new_def grp_cell_def grp_load_window_def)

lemma grp_get_or_init_simps [simp]:
  "g_entries (grp_get_or_init u g) = g_entries g"
  "g_windows (grp_get_or_init u g) = g_windows g"
  "g_metadata (grp_get_or_init u g) = g_metadata g"
  "grp_wf (grp_get_or_init u g) \<longleftrightarrow> grp_wf g"
  by (auto simp: grp_get_or_init_def grp_wf_def split: option.splits)

lemma grp_cell_get_or_init [simp]:
  "i < g_entries g \<Longrightarrow> grp_cell u (grp_get_or_init u g) i = grp_cell u g i"
  by (simp add: grp_get_or_init_def grp_cell_def split: option.splits)

lemma grp_modify_initialised:
  assumes "grp_wf g" and "i < g_entries g"
  obtains b where "g_values (grp_get_or_init u g) = Some b" and "i < length (as_slice b)"
  using assms by (fastforce simp: grp_get_or_init_def grp_wf_def split: option.splits)

lemma grp_cell_values [simp]: "grp_cell u (g\<lparr>g_values := Some b\<rparr>) j = as_slice b ! j"
  by (simp add: grp_cell_def)

text \<open>The one fact about \<open>add\<close>, \<open>sub\<close> and \<open>set\<close>: entry \<open>i\<close> changes by \<open>f\<close>, nothing else does.\<close>

lemma grp_update_in_range:
  assumes "grp_wf g" and "i < g_entries g"
  shows "fst (grp_update u i f g) = Inr True" (is ?res)
    and "grp_wf (snd (grp_update u i f g))" (is ?wf)
    and "j < g_entries g \<Longrightarrow> grp_cell u (snd (grp_update u i f g)) j =
           (if i = j then f (grp_cell u g i) else grp_cell u g j)" (is "_ \<Longrightarrow> ?cell")
proof -
  obtain b where b: "g_values (grp_get_or_init u g) = Some b" "i < length (as_slice b)"
    using grp_modify_initialised [OF assms] .
  note upd = grp_update_def grp_modify_def grp_slice_def b
  show ?res using assms(2) b by (simp add: upd)
  have wf: "grp_wf (grp_get_or_init u g)" using assms(1) by simp
  show ?wf using assms(2) b wf by (simp add: upd grp_wf_def)
  assume j: "j < g_entries g"
  then have "j < length (as_slice b)" using wf b by (simp add: grp_wf_def)
  moreover have "as_slice b ! j = grp_cell u g j" "as_slice b ! i = grp_cell u g i"
    using b assms(2) j grp_cell_get_or_init [of j g u] grp_cell_get_or_init [of i g u]
    by (simp_all add: grp_cell_def)
  ultimately show ?cell using assms(2) b
    by (cases "i = j") (simp_all add: upd)
qed

lemma grp_modify_frame [simp]:
  "g_windows (snd (grp_modify i f g)) = g_windows g"
  "g_entries (snd (grp_modify i f g)) = g_entries g"
  by (simp_all add: grp_modify_def)

lemma grp_update_out_of_range: "g_entries g \<le> i \<Longrightarrow> grp_update u i f g = (Inr False, g)"
  by (simp add: grp_update_def)

lemma grp_update_frame [simp]:
  "g_entries (snd (grp_update u i f g)) = g_entries g"
  "g_windows (snd (grp_update u i f g)) = g_windows g"
  "g_metadata (snd (grp_update u i f g)) = g_metadata g"
  by (simp_all add: grp_update_def grp_modify_def)

lemma grp_value_cell:
  "grp_wf g \<Longrightarrow> i < g_entries g \<Longrightarrow> grp_value u i g = Inr (view u (grp_cell u g i))"
  by (auto simp: grp_value_def grp_read_def grp_wf_def grp_cell_def view_def split: option.splits)

lemma grp_set_with_window_update:
  "i < g_entries g \<Longrightarrow> grp_wf g \<Longrightarrow>
     grp_set_with_window u i v w g =
       (Inr True, (snd (grp_update u i (\<lambda>_. v) g))\<lparr>g_windows := gw_insert (g_windows g) i w\<rparr>)"
  using grp_update_in_range(1) [of g i u "\<lambda>_. v"]
  by (auto simp: grp_set_with_window_def grp_update_def grp_modify_def gw_defs split: if_splits)

lemma grp_cell_windows [simp]: "grp_cell u (g\<lparr>g_windows := x\<rparr>) i = grp_cell u g i"
  "grp_wf (g\<lparr>g_windows := x\<rparr>) = grp_wf g"
  by (simp_all add: grp_cell_def grp_wf_def split: option.splits)

text \<open>\<open>attach_external\<close> with a slice shorter than the group: the first use of a missing entry panics.\<close>

lemma short_slice_panics:
  assumes "length xs \<le> i" and "i < n"
  shows "fst (cg_add i v (grp_attach_external xs (grp_new n))) = Inl IndexOutOfBounds"
    and "cg_value i (grp_attach_external xs (grp_new n)) = Inl IndexOutOfBounds"
  using assms
  by (simp_all add: counter_group_defs grp_add_def grp_value_def grp_read_def grp_update_def
      grp_modify_def grp_get_or_init_def grp_attach_external_def grp_new_def grp_slice_def)

section \<open>A group is independent cells that start unwritten\<close>

datatype grp_op =
    GAdd nat u64 | GSub nat u64 | GSet nat u64 | GSetWithWindow nat u64 window

fun grp_apply :: "u64 \<Rightarrow> grp_op \<Rightarrow> group \<Rightarrow> (group_panic + bool) \<times> group" where
  "grp_apply u (GAdd i v) g = grp_add u i v g"
| "grp_apply u (GSub i v) g = grp_sub u i v g"
| "grp_apply u (GSet i v) g = grp_set u i v g"
| "grp_apply u (GSetWithWindow i v w) g = grp_set_with_window u i v w g"

fun grp_run :: "u64 \<Rightarrow> grp_op list \<Rightarrow> group \<Rightarrow> (group_panic + bool) list \<times> group" where
  "grp_run u [] g = ([], g)"
| "grp_run u (x # xs) g =
     (case grp_apply u x g of (r, g') \<Rightarrow> (case grp_run u xs g' of (rs, g'') \<Rightarrow> (r # rs, g'')))"

fun op_index :: "grp_op \<Rightarrow> nat" where
  "op_index (GAdd i v) = i"
| "op_index (GSub i v) = i"
| "op_index (GSet i v) = i"
| "op_index (GSetWithWindow i v w) = i"

text \<open>The specification of one cell: what an operation does to the value it holds.\<close>

fun cell_apply :: "u64 \<Rightarrow> grp_op \<Rightarrow> u64 \<Rightarrow> u64" where
  "cell_apply u (GAdd i v) c = bump u v c"
| "cell_apply u (GSub i v) c = drop_by u v c"
| "cell_apply u (GSet i v) c = v"
| "cell_apply u (GSetWithWindow i v w) c = v"

definition cell_spec :: "u64 \<Rightarrow> nat \<Rightarrow> grp_op list \<Rightarrow> u64 \<Rightarrow> u64" where
  "cell_spec u i ops c = fold (cell_apply u) (filter (\<lambda>x. op_index x = i) ops) c"

lemma grp_apply_correct:
  assumes "grp_wf g" and "grp_apply u x g = (r, g')"
  shows "r = Inr (op_index x < g_entries g)" and "grp_wf g'" and "g_entries g' = g_entries g"
    and "j < g_entries g \<Longrightarrow> grp_cell u g' j =
           (if op_index x = j then cell_apply u x (grp_cell u g j) else grp_cell u g j)"
proof -
  have out: "g' = g \<and> r = Inr False" if "g_entries g \<le> op_index x"
    using assms(2) that
    by (cases x) (simp_all add: grp_add_def grp_sub_def grp_set_def grp_update_out_of_range
        grp_set_with_window_def)
  note inr = grp_update_in_range [OF assms(1)]
  have "r = Inr (op_index x < g_entries g) \<and> grp_wf g' \<and> g_entries g' = g_entries g \<and>
    (j < g_entries g \<longrightarrow> grp_cell u g' j =
       (if op_index x = j then cell_apply u x (grp_cell u g j) else grp_cell u g j))" for j
  proof (cases "op_index x < g_entries g")
    case False
    then show ?thesis using out assms(1) by auto
  next
    case True
    then show ?thesis
      using assms inr
      by (cases x)
        (auto simp: grp_add_def grp_sub_def grp_set_def grp_set_with_window_update prod_eq_iff)
  qed
  then show "r = Inr (op_index x < g_entries g)" and "grp_wf g'" and "g_entries g' = g_entries g"
    and "j < g_entries g \<Longrightarrow> grp_cell u g' j =
           (if op_index x = j then cell_apply u x (grp_cell u g j) else grp_cell u g j)"
    by blast+
qed

lemma grp_run_correct:
  "grp_wf g \<Longrightarrow> grp_run u ops g = (rs, g') \<Longrightarrow>
     rs = map (\<lambda>x. Inr (op_index x < g_entries g)) ops \<and> grp_wf g' \<and> g_entries g' = g_entries g \<and>
     (\<forall>j < g_entries g. grp_cell u g' j = cell_spec u j ops (grp_cell u g j))"
proof (induction ops arbitrary: g rs g')
  case Nil
  then show ?case by (simp add: cell_spec_def)
next
  case (Cons x ops)
  obtain r h where h: "grp_apply u x g = (r, h)" by fastforce
  obtain rs' where rs: "grp_run u ops h = (rs', g')" "rs = r # rs'"
    using Cons.prems(2) h by (auto split: prod.splits)
  note one = grp_apply_correct [OF Cons.prems(1) h]
  show ?case
    using Cons.IH [OF one(2) rs(1)] one rs(2) by (auto simp: cell_spec_def)
qed

lemma group_run_value:
  "grp_value u i (snd (grp_run u ops (grp_new n))) =
     Inr (if i < n then view u (cell_spec u i ops u) else None)"
proof -
  obtain rs g where g: "grp_run u ops (grp_new n) = (rs, g)" by fastforce
  have wf: "grp_wf g" "g_entries g = n" and "\<forall>j < n. grp_cell u g j = cell_spec u j ops u"
    using grp_run_correct [OF _ g] by simp_all
  then show ?thesis
    using g grp_value_cell [OF wf(1), of i u] by (simp add: grp_value_def)
qed

lemma group_run_returns:
  "fst (grp_run u ops (grp_new n)) = map (\<lambda>x. Inr (op_index x < n)) ops"
proof -
  obtain rs g where g: "grp_run u ops (grp_new n) = (rs, g)" by fastforce
  show ?thesis using grp_run_correct [OF _ g] g by simp
qed

text \<open>
  C6. A group of \<open>n\<close> entries refines \<open>n\<close> independent cells. Whatever sequence of \<open>add\<close>, \<open>sub\<close>,
  \<open>set\<close> and \<open>set_with_window\<close> runs on a new group, each call returns whether its index is in
  bounds and never panics, and \<open>value(i)\<close> reads what the calls on \<open>i\<close> alone left, in order,
  in a cell that started at the sentinel. So an entry nobody wrote reads \<open>None\<close> however
  much the others were written.
\<close>

theorem group_refines_cells:
  "fst (grp_run u ops (grp_new n)) = map (\<lambda>x. Inr (op_index x < n)) ops \<and>
   grp_value u i (snd (grp_run u ops (grp_new n))) =
     Inr (if i < n then view u (cell_spec u i ops u) else None)"
  using group_run_returns group_run_value by blast

section \<open>Adds alone count\<close>

text \<open>The values added to entry \<open>i\<close>.\<close>

fun adds_at :: "nat \<Rightarrow> grp_op list \<Rightarrow> u64 list" where
  "adds_at i [] = []"
| "adds_at i (GAdd j v # ops) = (if j = i then v # adds_at i ops else adds_at i ops)"
| "adds_at i (_ # ops) = adds_at i ops"

fun only_adds :: "grp_op list \<Rightarrow> bool" where
  "only_adds [] \<longleftrightarrow> True"
| "only_adds (GAdd j v # ops) \<longleftrightarrow> only_adds ops"
| "only_adds (_ # ops) \<longleftrightarrow> False"

lemma cell_spec_adds: "only_adds ops \<Longrightarrow> cell_spec u i ops c = fold (bump u) (adds_at i ops) c"
  by (induction ops arbitrary: c rule: only_adds.induct) (auto simp: cell_spec_def)

text \<open>While the running total stays below the sentinel, bumping is plain addition.\<close>

lemma fold_bump_from:
  assumes "unat c + sum_list (map unat vs) < 2 ^ 64 - 1"
  shows "unat (fold (bump u64_max) vs c) = unat c + sum_list (map unat vs)"
  using assms
proof (induction vs arbitrary: c)
  case Nil
  then show ?case by simp
next
  case (Cons v vs)
  have "c \<noteq> u64_max" using Cons.prems unat_u64_max by auto
  moreover have "unat (c + v) = unat c + unat v"
    using Cons.prems by (intro unat_add_lem [THEN iffD1]) simp
  ultimately show ?case using Cons by (simp add: bump_def)
qed

lemma fold_bump_unwritten:
  assumes "vs \<noteq> []" and "sum_list (map unat vs) < 2 ^ 64 - 1"
  shows "unat (fold (bump u64_max) vs u64_max) = sum_list (map unat vs)"
proof -
  obtain v ws where vs: "vs = v # ws" using assms(1) by (cases vs) auto
  have "bump u64_max v u64_max = v" by (simp add: bump_def)
  then show ?thesis using fold_bump_from [of v ws] assms(2) vs by simp
qed

text \<open>
  A counter group counts: when only \<open>add\<close>s run and the total added to an entry is below
  \<open>u64::MAX\<close>, the entry reads as exactly that total, and as absent when nothing was added.
  The first \<open>add\<close> lands its own value, not one wrapped past the sentinel.
\<close>

theorem counter_group_counts:
  assumes "only_adds ops" and "i < n" and "sum_list (map unat (adds_at i ops)) < 2 ^ 64 - 1"
  shows "cg_value i (snd (grp_run UNWRITTEN ops (grp_new n))) =
    Inr (if adds_at i ops = [] then None else Some (of_nat (sum_list (map unat (adds_at i ops)))))"
proof -
  let ?c = "fold (bump u64_max) (adds_at i ops) u64_max"
  have "cg_value i (snd (grp_run UNWRITTEN ops (grp_new n))) = Inr (view u64_max ?c)"
    using group_run_value assms by (simp add: UNWRITTEN_def cg_value_def cell_spec_adds)
  moreover have "view u64_max ?c = Some (of_nat (sum_list (map unat (adds_at i ops))))"
    if "adds_at i ops \<noteq> []"
  proof -
    have c: "unat ?c = sum_list (map unat (adds_at i ops))"
      using fold_bump_unwritten [OF that assms(3)] .
    then have "?c \<noteq> u64_max" using assms(3) unat_u64_max by (metis less_irrefl)
    then show ?thesis using c by (metis of_nat_unat_same view_def)
  qed
  ultimately show ?thesis by (cases "adds_at i ops = []") (simp_all add: view_def)
qed

theorem counter_group_counts_witness:
  "cg_value 1 (snd (grp_run UNWRITTEN [GAdd 1 5, GAdd 0 9, GAdd 1 2] (grp_new 3))) = Inr (Some 7)"
  using counter_group_counts [of "[GAdd 1 5, GAdd 0 9, GAdd 1 2]" 1 3] by simp

section \<open>The pair contract of a group\<close>

text \<open>
  The steps of \<open>set_with_window\<close>: the array is allocated before the guard is taken; under it
  the slice element is stored and then the window inserted. A sentinel reads back as absent.
\<close>

definition group_ops :: "u64 \<Rightarrow> (group, nat, u64) pair_ops" where
  "group_ops u =
     \<lparr>op_pre = grp_get_or_init u,
      op_prep = (\<lambda>g. g),
      op_put = (\<lambda>i v g. snd (grp_modify i (\<lambda>_. v) (grp_get_or_init u g))),
      op_put_window = (\<lambda>i w g. g\<lparr>g_windows :=
        snd (gw_with_write (g_windows g) (\<lambda>m. ((), fmupd i w m)))\<rparr>),
      op_get = (\<lambda>g i. if i < g_entries g then view u (grp_cell u g i) else None),
      op_get_window = (\<lambda>g i. gw_load (g_windows g) i)\<rparr>"

definition group_good :: "nat \<Rightarrow> group \<Rightarrow> bool" where
  "group_good n g \<longleftrightarrow> grp_wf g \<and> g_entries g = n"

interpretation windowed_group: paired_store "group_ops u" "group_good n" "\<lambda>i. i < n" "view u"
  for u :: u64 and n :: nat
proof
  fix g :: group and i j :: nat and v :: u64 and w :: window
  assume good: "group_good n g"
  note ops = group_ops_def group_good_def
  show "group_good n (op_pre (group_ops u) g)"
    "group_good n (op_prep (group_ops u) g)"
    "op_get_window (group_ops u) (op_pre (group_ops u) g) i = op_get_window (group_ops u) g i"
    "op_get_window (group_ops u) (op_prep (group_ops u) g) i = op_get_window (group_ops u) g i"
    "op_get (group_ops u) (op_prep (group_ops u) g) i = op_get (group_ops u) g i"
    using good by (simp_all add: ops)
  show "op_get (group_ops u) (op_pre (group_ops u) g) i = op_get (group_ops u) g i"
    using good by (simp add: ops)
  assume i: "i < n"
  show "group_good n (op_put (group_ops u) i v g)"
    "op_get (group_ops u) (op_put (group_ops u) i v g) j =
       (if i = j then view u v else op_get (group_ops u) g j)"
    "op_get_window (group_ops u) (op_put (group_ops u) i v g) j = op_get_window (group_ops u) g j"
    using good i grp_update_in_range [where g = g and i = i and u = u and f = "\<lambda>_. v"]
      grp_update_frame [where u = u and i = i and f = "\<lambda>_. v" and g = g]
    by (cases "i = j"; simp add: ops grp_update_def)+
  show "group_good n (op_put_window (group_ops u) i w g)"
    "op_get (group_ops u) (op_put_window (group_ops u) i w g) j = op_get (group_ops u) g j"
    "op_get_window (group_ops u) (op_put_window (group_ops u) i w g) j =
       (if i = j then Some w else op_get_window (group_ops u) g j)"
    using good by (simp_all add: ops gw_defs split: option.splits)
qed

text \<open>Those steps, run alone, are the whole of \<open>set_with_window\<close>, and likewise for the load.\<close>

lemma group_ops_compose:
  assumes "group_good n g" and "i < n"
  shows "grp_set_with_window u i v w g =
    (Inr True, op_put_window (group_ops u) i w
       (op_put (group_ops u) i v (op_prep (group_ops u) (op_pre (group_ops u) g))))"
proof -
  have "grp_get_or_init u (grp_get_or_init u g) = grp_get_or_init u g"
    by (simp add: grp_get_or_init_def split: option.splits)
  then show ?thesis
    using assms by (auto simp: group_ops_def group_good_def grp_set_with_window_update
        grp_update_def gw_defs)
qed

lemma group_load_parts:
  assumes "group_good n g" and "i < n"
  shows "grp_load_with_window u i g =
    Inr (op_get (group_ops u) g i, op_get_window (group_ops u) g i)"
  using assms grp_value_cell [of g i u]
  by (auto simp: group_ops_def group_good_def grp_load_with_window_def grp_value_def gw_defs
      split: option.splits)

text \<open>
  Nothing keeps \<open>set\<close>, \<open>add\<close>, \<open>sub\<close> and \<open>set_window\<close> of a base group out of the guard: one of them after
  \<open>set_with_window\<close> on the same entry, by any thread, leaves a value beside a window no call wrote it with, as the
  documentation of \<open>set_with_window\<close> warns. The types of \<open>windowed.rs\<close> (the theory \<open>WindowedGroups\<close>) offer none of
  these.
\<close>

lemma lock_free_write_mixes_calls:
  assumes "group_good n g" and "i < n" and "v' \<noteq> u"
  shows "grp_load_with_window u i (snd (grp_set u i v' (snd (grp_set_with_window u i v w g)))) = Inr (Some v', Some w)"
    and "grp_load_with_window u i (grp_set_window i b e (snd (grp_set_with_window u i v' w g))) =
      Inr (Some v', Some (window_new b e))"
proof -
  let ?h = "snd (grp_set_with_window u i v w g)" and ?h' = "snd (grp_set_with_window u i v' w g)"
  have wf: "grp_wf g" "i < g_entries g" using assms by (simp_all add: group_good_def)
  note set = grp_set_with_window_update [OF wf(2,1)]
  have good: "group_good n (snd (grp_update u i (\<lambda>_. x) g))" for x
    using grp_update_in_range(2) [OF wf] assms(1) by (simp add: group_good_def)
  have h: "group_good n ?h" "gw_load (g_windows ?h) i = Some w" using good by (simp_all add: set group_good_def)
  have h': "group_good n ?h'" "grp_cell u ?h' i = v'"
    using good grp_update_in_range(3) [OF wf wf(2)] by (simp_all add: set group_good_def)
  have k: "group_good n (snd (grp_set u i v' ?h))" "grp_cell u (snd (grp_set u i v' ?h)) i = v'"
    using grp_update_in_range(2,3) [of ?h i] h(1) assms(2) by (simp_all add: group_good_def grp_set_def)
  show "grp_load_with_window u i (snd (grp_set u i v' ?h)) = Inr (Some v', Some w)"
    using group_load_parts [OF k(1) assms(2), of u] k h(2) assms by (simp add: group_ops_def group_good_def view_def grp_set_def)
  have l: "group_good n (grp_set_window i b e ?h')" using h'(1) by (simp add: group_good_def grp_set_window_def)
  show "grp_load_with_window u i (grp_set_window i b e ?h') = Inr (Some v', Some (window_new b e))"
    using group_load_parts [OF l assms(2), of u] h' l assms by (simp add: group_ops_def group_good_def view_def grp_set_window_def)
qed

end
