(* ===== verification/WindowedGroups.thy ===== *)
theory WindowedGroups
  imports MetricGroups
begin

text \<open>
  \<open>WindowedCounterGroup\<close> and \<open>WindowedGaugeGroup\<close> (\<open>metriken/src/windowed.rs\<close>): a group behind a type that offers
  \<open>set_with_window\<close> as the only call that writes a value or a window, beside the reads and the metadata. The two
  types have the same code but for the sentinel of the group inside, so the operations are written over the
  sentinel \<open>u\<close> and then instantiated. \<open>for_each_metadata\<close>, a visit of what \<open>metadata_snapshot\<close> returns, is left out.
\<close>

section \<open>The wrapper and its operations\<close>

record wrapped_group =
  wg_inner :: group

definition wg_new :: "nat \<Rightarrow> wrapped_group" where
  "wg_new n = \<lparr>wg_inner = grp_new n\<rparr>"

definition wg_entries :: "wrapped_group \<Rightarrow> nat" where
  "wg_entries g = g_entries (wg_inner g)"

definition wg_set_with_window :: "u64 \<Rightarrow> nat \<Rightarrow> u64 \<Rightarrow> window \<Rightarrow> wrapped_group \<Rightarrow> (group_panic + bool) \<times> wrapped_group" where
  "wg_set_with_window u idx v w g =
     (case grp_set_with_window u idx v w (wg_inner g) of (r, inner) \<Rightarrow> (r, g\<lparr>wg_inner := inner\<rparr>))"

definition wg_load_with_window :: "u64 \<Rightarrow> nat \<Rightarrow> wrapped_group \<Rightarrow> group_panic + (u64 option \<times> window option)" where
  "wg_load_with_window u idx g = grp_load_with_window u idx (wg_inner g)"

definition wg_value :: "u64 \<Rightarrow> nat \<Rightarrow> wrapped_group \<Rightarrow> group_panic + u64 option" where
  "wg_value u idx g = grp_value u idx (wg_inner g)"

definition wg_set_metadata :: "nat \<Rightarrow> smap \<Rightarrow> wrapped_group \<Rightarrow> wrapped_group" where
  "wg_set_metadata idx md g = g\<lparr>wg_inner := grp_set_metadata idx md (wg_inner g)\<rparr>"

definition wg_insert_metadata :: "nat \<Rightarrow> string \<Rightarrow> string \<Rightarrow> wrapped_group \<Rightarrow> wrapped_group" where
  "wg_insert_metadata idx k v g = g\<lparr>wg_inner := grp_insert_metadata idx k v (wg_inner g)\<rparr>"

definition wg_clear_metadata :: "nat \<Rightarrow> wrapped_group \<Rightarrow> wrapped_group" where
  "wg_clear_metadata idx g = g\<lparr>wg_inner := grp_clear_metadata idx (wg_inner g)\<rparr>"

definition wg_load_metadata :: "wrapped_group \<Rightarrow> nat \<Rightarrow> smap option" where
  "wg_load_metadata g idx = grp_load_metadata (wg_inner g) idx"

definition wg_with_metadata :: "wrapped_group \<Rightarrow> nat \<Rightarrow> (smap option \<Rightarrow> 'r) \<Rightarrow> 'r" where
  "wg_with_metadata g idx f = grp_with_metadata (wg_inner g) idx f"

definition wg_metadata_snapshot :: "wrapped_group \<Rightarrow> (nat \<times> smap) fset" where
  "wg_metadata_snapshot g = grp_metadata_snapshot (wg_inner g)"

text \<open>\<open>Metric::value\<close>: the exposition reads the group inside.\<close>

definition wg_exposed :: "wrapped_group \<Rightarrow> group option" where
  "wg_exposed g = Some (wg_inner g)"

definition wcg_set_with_window :: "nat \<Rightarrow> u64 \<Rightarrow> window \<Rightarrow> wrapped_group \<Rightarrow> (group_panic + bool) \<times> wrapped_group" where
  "wcg_set_with_window = wg_set_with_window UNWRITTEN"

definition wcg_load_with_window :: "nat \<Rightarrow> wrapped_group \<Rightarrow> group_panic + (u64 option \<times> window option)" where
  "wcg_load_with_window = wg_load_with_window UNWRITTEN"

definition wcg_value :: "nat \<Rightarrow> wrapped_group \<Rightarrow> group_panic + u64 option" where
  "wcg_value = wg_value UNWRITTEN"

definition wgg_set_with_window :: "nat \<Rightarrow> i64 \<Rightarrow> window \<Rightarrow> wrapped_group \<Rightarrow> (group_panic + bool) \<times> wrapped_group" where
  "wgg_set_with_window = wg_set_with_window i64_min"

definition wgg_load_with_window :: "nat \<Rightarrow> wrapped_group \<Rightarrow> group_panic + (i64 option \<times> window option)" where
  "wgg_load_with_window = wg_load_with_window i64_min"

definition wgg_value :: "nat \<Rightarrow> wrapped_group \<Rightarrow> group_panic + i64 option" where
  "wgg_value = wg_value i64_min"

section \<open>Threads that share a wrapper\<close>

text \<open>The steps of the group inside, taken through the wrapper.\<close>

definition wg_ops :: "u64 \<Rightarrow> (wrapped_group, nat, u64) pair_ops" where
  "wg_ops u =
     \<lparr>op_pre = (\<lambda>g. g\<lparr>wg_inner := op_pre (group_ops u) (wg_inner g)\<rparr>),
      op_prep = (\<lambda>g. g\<lparr>wg_inner := op_prep (group_ops u) (wg_inner g)\<rparr>),
      op_put = (\<lambda>i v g. g\<lparr>wg_inner := op_put (group_ops u) i v (wg_inner g)\<rparr>),
      op_put_window = (\<lambda>i w g. g\<lparr>wg_inner := op_put_window (group_ops u) i w (wg_inner g)\<rparr>),
      op_get = (\<lambda>g. op_get (group_ops u) (wg_inner g)),
      op_get_window = (\<lambda>g. op_get_window (group_ops u) (wg_inner g))\<rparr>"

text \<open>
  What any number of threads can do to a new wrapper: the steps of \<open>set_with_window\<close> and \<open>load_with_window\<close>, and
  at any moment between them the three calls that change metadata. No other call of the type changes anything.
\<close>

inductive wrapper_reach :: "u64 \<Rightarrow> nat \<Rightarrow> (wrapped_group, nat, u64) lock_sys \<Rightarrow> bool"
  for u :: u64 and n :: nat where
  wr_start: "wrapper_reach u n (lock_init (wg_new n))"
| wr_windowed: "wrapper_reach u n s \<Longrightarrow> lock_step (wg_ops u) (\<lambda>i. i < n) s s' \<Longrightarrow> wrapper_reach u n s'"
| wr_set_metadata: "wrapper_reach u n s \<Longrightarrow> wrapper_reach u n (s\<lparr>ls_store := wg_set_metadata i md (ls_store s)\<rparr>)"
| wr_insert_metadata: "wrapper_reach u n s \<Longrightarrow>
    wrapper_reach u n (s\<lparr>ls_store := wg_insert_metadata i k x (ls_store s)\<rparr>)"
| wr_clear_metadata: "wrapper_reach u n s \<Longrightarrow> wrapper_reach u n (s\<lparr>ls_store := wg_clear_metadata i (ls_store s)\<rparr>)"

definition wg_good :: "nat \<Rightarrow> wrapped_group \<Rightarrow> bool" where
  "wg_good n g \<longleftrightarrow> group_good n (wg_inner g)"

interpretation wrapper: paired_store "wg_ops u" "wg_good n" "\<lambda>i. i < n" "view u"
  for u :: u64 and n :: nat
  by unfold_locales
    (simp_all add: wg_ops_def wg_good_def windowed_group.inv_pre windowed_group.inv_prep windowed_group.inv_put
      windowed_group.inv_put_window windowed_group.get_pre windowed_group.window_pre windowed_group.window_prep
      windowed_group.prep_settled windowed_group.get_put windowed_group.window_put windowed_group.get_put_window
      windowed_group.window_put_window)

text \<open>Metadata is beside the values and the windows.\<close>

lemma metadata_is_beside:
  "group_good n (g\<lparr>g_metadata := m\<rparr>) = group_good n g"
  "op_get (group_ops u) (g\<lparr>g_metadata := m\<rparr>) = op_get (group_ops u) g"
  "op_get_window (group_ops u) (g\<lparr>g_metadata := m\<rparr>) = op_get_window (group_ops u) g"
  by (simp_all add: group_good_def grp_wf_def group_ops_def grp_cell_def fun_eq_iff split: option.splits)

lemma wrapper_inv: "wrapper_reach u n s \<Longrightarrow> lock_inv (wg_ops u) (wg_good n) (\<lambda>i. i < n) (view u) s"
proof (induction rule: wrapper_reach.induct)
  case wr_start
  show ?case
    by (rule wrapper.lock_inv_init) (simp_all add: wg_good_def wg_ops_def wg_new_def group_good_def group_ops_def
        grp_new_def gw_defs grp_wf_def)
next
  case (wr_windowed s s')
  then show ?case by (blast intro: wrapper.lock_inv_step)
qed (rule wrapper.lock_inv_unseen; simp add: lock_inv_def wg_good_def wg_ops_def wg_set_metadata_def
    wg_insert_metadata_def wg_clear_metadata_def grp_set_metadata_def grp_insert_metadata_def grp_clear_metadata_def
    metadata_is_beside)+

text \<open>The steps, run alone, are the calls of the wrapper.\<close>

lemma wg_set_runs_its_steps:
  "wg_good n g \<Longrightarrow> wg_set_with_window u i v w g =
     (if i < n then (Inr True, set_store (wg_ops u) i v w g) else (Inr False, g))"
  using group_ops_compose [of n "wg_inner g" i u v w]
  by (auto simp: wg_good_def wg_set_with_window_def set_store_def wg_ops_def group_good_def grp_set_with_window_def)

lemma wg_load_runs_its_steps:
  "wg_good n g \<Longrightarrow> wg_load_with_window u i g =
     Inr (if i < n then (op_get (wg_ops u) g i, op_get_window (wg_ops u) g i) else (None, None))"
  using group_load_parts [of n "wg_inner g" i u]
  by (auto simp: wg_good_def wg_load_with_window_def wg_ops_def group_good_def grp_load_with_window_def)

text \<open>
  C9. However many threads share a windowed group, and whatever calls of the type they make in whatever
  interleaving: a load of an entry that returns a window returns it with the value one \<open>set_with_window\<close> call on
  that entry wrote with it (a call that writes the sentinel reads back as absent). And in every state so reached a
  \<open>set_with_window\<close> that runs alone is the steps interleaved here, put together, and returns whether its index is in
  bounds, and a \<open>load_with_window\<close> that runs alone reads what the steps read. It is the type that gives this: on the
  base group the lock-free writes can mix calls (\<open>lock_free_write_mixes_calls\<close>).
\<close>

theorem windowed_group_never_mixes_calls:
  assumes "wrapper_reach u n s" and "ls_pcs s t = Got i x (Some w)"
  shows "(\<exists>v. (i, v, w) \<in> ls_calls s \<and> x = view u v) \<and>
    wg_set_with_window u j v' w' (ls_store s) =
      (if j < n then (Inr True, set_store (wg_ops u) j v' w' (ls_store s)) else (Inr False, ls_store s)) \<and>
    wg_load_with_window u j (ls_store s) =
      Inr (if j < n then (op_get (wg_ops u) (ls_store s) j, op_get_window (wg_ops u) (ls_store s) j) else (None, None))"
proof -
  note inv = wrapper_inv [OF assms(1)]
  then have "wg_good n (ls_store s)" by (simp add: lock_inv_def)
  then show ?thesis
    using wrapper.got_pair_was_written [OF inv assms(2)] by (simp add: wg_set_runs_its_steps wg_load_runs_its_steps)
qed

lemma wrapper_reach_lock: "lock_reach (wg_ops u) (\<lambda>i. i < n) (lock_init (wg_new n)) s \<Longrightarrow> wrapper_reach u n s"
  by (induction rule: lock_reach.induct) (auto intro: wrapper_reach.intros)

theorem windowed_group_never_mixes_calls_witness:
  "\<exists>s. wrapper_reach UNWRITTEN 4 s \<and>
     ls_pcs s 1 = Got 2 (Some 9) (Some (window_new 10 20)) \<and>
     (\<exists>v. (2, v, window_new 10 20) \<in> ls_calls s \<and> Some 9 = view UNWRITTEN v) \<and>
     fst (wg_set_with_window UNWRITTEN 3 7 (window_new 20 30) (ls_store s)) = Inr True"
proof -
  let ?w = "window_new 10 20"
  obtain s where "lock_reach (wg_ops UNWRITTEN) (\<lambda>i. i < 4) (lock_init (wg_new 4)) s"
    and got: "ls_pcs s 1 = Got 2
      (op_get (wg_ops UNWRITTEN) (set_store (wg_ops UNWRITTEN) 2 9 ?w (wg_new 4)) 2)
      (op_get_window (wg_ops UNWRITTEN) (set_store (wg_ops UNWRITTEN) 2 9 ?w (wg_new 4)) 2)"
    using run_set_then_load [of "\<lambda>i. i < 4" 2 "wg_ops UNWRITTEN" "wg_new 4" 9 ?w] by auto
  then have s: "wrapper_reach UNWRITTEN 4 s" by (intro wrapper_reach_lock)
  have got: "ls_pcs s 1 = Got 2 (Some 9) (Some ?w)"
    using got by (simp add: set_store_def wg_ops_def wg_new_def group_ops_def grp_new_def grp_get_or_init_def
        grp_modify_def grp_slice_def grp_cell_def view_def UNWRITTEN_def gw_defs)
  show ?thesis using s got windowed_group_never_mixes_calls [OF s got, of 3 7 "window_new 20 30"] by auto
qed

end
