(* ===== verification/CasLoop.thy ===== *)
theory CasLoop
  imports MetricGroups
begin

text \<open>
  The compare-exchange loop of \<open>CounterGroup::add\<close>, \<open>GaugeGroup::add\<close> and \<open>GaugeGroup::sub\<close>
  (\<open>metriken/src/group/counter.rs\<close>, \<open>gauge.rs\<close>), instruction by instruction, on one entry's
  atomic shared by any number of threads. A thread loads the entry, computes the new value and
  tries to exchange it; \<open>compare_exchange_weak\<close> may fail because the entry changed, or for
  no reason, and either way reports the value it saw. A plain \<open>set\<close> is one store.

  Each thread runs its own list of calls. The ghost \<open>hist\<close> records, in the order the entry
  changed, which thread's call changed it. The entry's content is the specification \<open>cell_apply\<close>
  of \<open>MetricGroups\<close> run over that history, and each thread's part of the history is the list of its own calls,
  once each and in order: no update is lost and none is applied twice.
\<close>

section \<open>Steps\<close>

datatype cas_op = CAdd u64 | CSub u64 | CStore u64

fun cas_effect :: "u64 \<Rightarrow> cas_op \<Rightarrow> u64 \<Rightarrow> u64" where
  "cas_effect u (CAdd v) c = bump u v c"
| "cas_effect u (CSub v) c = drop_by u v c"
| "cas_effect u (CStore v) c = v"

datatype cas_pc =
    CIdle
  | CCalled cas_op       \<comment> \<open>before the load\<close>
  | CTry cas_op u64      \<comment> \<open>at the exchange, with \<open>current\<close>\<close>

record cas_sys =
  entry :: u64
  cpc :: "nat \<Rightarrow> cas_pc"
  todo :: "nat \<Rightarrow> cas_op list"
  hist :: "(nat \<times> cas_op) list"

definition cas_init :: "u64 \<Rightarrow> (nat \<Rightarrow> cas_op list) \<Rightarrow> cas_sys" where
  "cas_init c prog = \<lparr>entry = c, cpc = (\<lambda>_. CIdle), todo = prog, hist = []\<rparr>"

inductive cas_step :: "u64 \<Rightarrow> cas_sys \<Rightarrow> cas_sys \<Rightarrow> bool" for u :: u64 where
  call: "cpc s t = CIdle \<Longrightarrow> todo s t = x # xs \<Longrightarrow>
    cas_step u s (s\<lparr>cpc := (cpc s)(t := CCalled x), todo := (todo s)(t := xs)\<rparr>)"
| load: "cpc s t = CCalled x \<Longrightarrow> (\<And>v. x \<noteq> CStore v) \<Longrightarrow>
    cas_step u s (s\<lparr>cpc := (cpc s)(t := CTry x (entry s))\<rparr>)"
| exchange: "cpc s t = CTry x current \<Longrightarrow> entry s = current \<Longrightarrow>
    cas_step u s (s\<lparr>cpc := (cpc s)(t := CIdle), entry := cas_effect u x current,
                    hist := hist s @ [(t, x)]\<rparr>)"
| retry: "cpc s t = CTry x current \<Longrightarrow>
    cas_step u s (s\<lparr>cpc := (cpc s)(t := CTry x (entry s))\<rparr>)"
| store: "cpc s t = CCalled (CStore v) \<Longrightarrow>
    cas_step u s (s\<lparr>cpc := (cpc s)(t := CIdle), entry := v, hist := hist s @ [(t, CStore v)]\<rparr>)"

inductive cas_reach :: "u64 \<Rightarrow> cas_sys \<Rightarrow> cas_sys \<Rightarrow> bool" for u :: u64 and s0 :: cas_sys where
  cas_start: "cas_reach u s0 s0"
| cas_next: "cas_reach u s0 s \<Longrightarrow> cas_step u s s' \<Longrightarrow> cas_reach u s0 s'"

section \<open>The invariant\<close>

fun in_flight :: "cas_pc \<Rightarrow> cas_op list" where
  "in_flight CIdle = []"
| "in_flight (CCalled x) = [x]"
| "in_flight (CTry x c) = [x]"

definition done_by :: "nat \<Rightarrow> (nat \<times> cas_op) list \<Rightarrow> cas_op list" where
  "done_by t h = map snd (filter (\<lambda>e. fst e = t) h)"

lemma done_by_simps [simp]:
  "done_by t [] = []"
  "done_by t (h @ [(t', x)]) = (if t = t' then done_by t h @ [x] else done_by t h)"
  by (simp_all add: done_by_def)

definition cas_inv :: "u64 \<Rightarrow> u64 \<Rightarrow> (nat \<Rightarrow> cas_op list) \<Rightarrow> cas_sys \<Rightarrow> bool" where
  "cas_inv u c0 prog s \<longleftrightarrow>
     entry s = fold (cas_effect u) (map snd (hist s)) c0 \<and>
     (\<forall>t. prog t = done_by t (hist s) @ in_flight (cpc s t) @ todo s t)"

lemma cas_inv_step:
  assumes "cas_step u s s'" and "cas_inv u c0 prog s"
  shows "cas_inv u c0 prog s'"
  using assms
proof (induction rule: cas_step.induct)
  case (call s t x xs)
  then have "prog t = done_by t (hist s) @ x # xs" by (simp add: cas_inv_def)
  with call show ?case by (simp add: cas_inv_def)
next
  case (load s t x)
  then have "prog t = done_by t (hist s) @ x # todo s t" by (simp add: cas_inv_def)
  with load show ?case by (simp add: cas_inv_def)
next
  case (exchange s t x current)
  then have "prog t = done_by t (hist s) @ x # todo s t" by (simp add: cas_inv_def)
  with exchange show ?case by (simp add: cas_inv_def)
next
  case (retry s t x current)
  then have "prog t = done_by t (hist s) @ x # todo s t" by (simp add: cas_inv_def)
  with retry show ?case by (simp add: cas_inv_def)
next
  case (store s t v)
  then have "prog t = done_by t (hist s) @ CStore v # todo s t" by (simp add: cas_inv_def)
  with store show ?case by (simp add: cas_inv_def)
qed

lemma cas_inv_reach: "cas_reach u (cas_init c0 prog) s \<Longrightarrow> cas_inv u c0 prog s"
proof (induction rule: cas_reach.induct)
  case cas_start
  then show ?case by (simp add: cas_inv_def cas_init_def)
next
  case (cas_next s s')
  then show ?case by (blast intro: cas_inv_step)
qed

text \<open>An update in flight can always commit from where it stands: no thread is ever blocked.\<close>

lemma cas_can_commit:
  assumes "cpc s t = CTry x current"
  shows "\<exists>s'. cas_reach u s s' \<and> cpc s' t = CIdle \<and> hist s' = hist s @ [(t, x)]"
proof -
  let ?a = "s\<lparr>cpc := (cpc s)(t := CTry x (entry s))\<rparr>"
  let ?b = "?a\<lparr>cpc := (cpc ?a)(t := CIdle), entry := cas_effect u x (entry s),
    hist := hist ?a @ [(t, x)]\<rparr>"
  have "cas_reach u s ?a" by (rule cas_next [OF cas_start]) (rule retry, rule assms)
  then have "cas_reach u s ?b" by (rule cas_next) (rule exchange, simp_all)
  then show ?thesis by (intro exI [of _ ?b]) simp
qed

section \<open>The claim\<close>

text \<open>
  C5. Concurrent updates of one entry through the compare-exchange loop are linearizable and
  none is lost: in every reachable state the entry holds what the committed calls give when
  run one after the other in commit order, and the committed calls of each thread, followed by
  the one it is in the middle of and those it has not made, are exactly its program. So once every thread has
  finished, the entry holds all of their calls, each applied exactly once.
\<close>

theorem no_update_is_lost:
  assumes "cas_reach u (cas_init c0 prog) s"
  shows "entry s = fold (cas_effect u) (map snd (hist s)) c0 \<and>
    prog t = done_by t (hist s) @ in_flight (cpc s t) @ todo s t"
  using cas_inv_reach [OF assms] by (simp add: cas_inv_def)

lemma cas_go:
  "cas_reach u s0 s \<Longrightarrow> cas_step u s s' \<Longrightarrow> s' = s'' \<Longrightarrow> cas_reach u s0 s''"
  by (auto intro: cas_next)

theorem no_update_is_lost_witness:
  "\<exists>s :: cas_sys. entry s = 7 \<and> hist s = [(1, CAdd 4), (0, CAdd 3)] \<and>
     entry s = fold (cas_effect UNWRITTEN) (map snd (hist s)) UNWRITTEN \<and>
     [CAdd 3] = done_by 0 (hist s) @ in_flight (cpc s 0) @ todo s 0"
proof -
  let ?u = "UNWRITTEN"
  let ?prog = "(\<lambda>_. [])(0 := [CAdd 3], Suc 0 := [CAdd 4]) :: nat \<Rightarrow> cas_op list"
  let ?left = "(\<lambda>_. [])(Suc 0 := [CAdd 4]) :: nat \<Rightarrow> cas_op list"
  let ?reach = "cas_reach ?u (cas_init ?u ?prog)"
  have "?reach \<lparr>entry = ?u, cpc = (\<lambda>_. CIdle)(0 := CCalled (CAdd 3)), todo = ?left, hist = []\<rparr>"
    by (rule cas_go [OF cas_start], rule call [where t = 0])
      (simp_all add: cas_init_def fun_eq_iff)
  then have "?reach \<lparr>entry = ?u, cpc = (\<lambda>_. CIdle)(0 := CTry (CAdd 3) ?u), todo = ?left, hist = []\<rparr>"
    by (rule cas_go) (rule load [where t = 0], simp_all)
  then have "?reach \<lparr>entry = ?u, cpc = (\<lambda>_. CIdle)(0 := CTry (CAdd 3) ?u, 1 := CCalled (CAdd 4)),
      todo = \<lambda>_. [], hist = []\<rparr>"
    by (rule cas_go) (rule call [where t = 1], simp_all add: fun_eq_iff)
  then have "?reach \<lparr>entry = ?u, cpc = (\<lambda>_. CIdle)(0 := CTry (CAdd 3) ?u, 1 := CTry (CAdd 4) ?u),
      todo = \<lambda>_. [], hist = []\<rparr>"
    by (rule cas_go) (rule load [where t = 1], simp_all add: fun_eq_iff)
  then have "?reach \<lparr>entry = 4, cpc = (\<lambda>_. CIdle)(0 := CTry (CAdd 3) ?u), todo = \<lambda>_. [],
      hist = [(1, CAdd 4)]\<rparr>"
    by (rule cas_go) (rule exchange [where t = 1], simp, simp, simp add: fun_eq_iff bump_def UNWRITTEN_def)
  then have "?reach \<lparr>entry = 4, cpc = (\<lambda>_. CIdle)(0 := CTry (CAdd 3) 4), todo = \<lambda>_. [],
      hist = [(1, CAdd 4)]\<rparr>"
    by (rule cas_go) (rule retry [where t = 0], simp_all add: fun_eq_iff)
  then have reach: "?reach \<lparr>entry = 7, cpc = \<lambda>_. CIdle, todo = \<lambda>_. [],
      hist = [(1, CAdd 4), (0, CAdd 3)]\<rparr>"
    by (rule cas_go) (rule exchange [where t = 0], simp, simp, simp add: fun_eq_iff bump_def UNWRITTEN_def)
  have effect: "(7 :: u64) = fold (cas_effect ?u) [CAdd 4, CAdd 3] ?u"
    using no_update_is_lost [OF reach, of 0, THEN conjunct1] by simp
  have split: "[CAdd 3] = done_by 0 [(1 :: nat, CAdd 4), (0, CAdd 3)]"
    using no_update_is_lost [OF reach, of 0, THEN conjunct2] by simp
  show ?thesis
    by (rule exI [where x = "\<lparr>entry = 7, cpc = \<lambda>_. CIdle, todo = \<lambda>_. [],
      hist = [(1, CAdd 4), (0, CAdd 3)]\<rparr>"]) (use effect split in simp)
qed

end
