(* ===== verification/Uid.thy ===== *)
theory Uid
  imports Prelude
begin

text \<open>
  The uid that tells an occupant of a slot apart from any other
  (\<open>metriken/src/group/identity.rs\<close>: \<open>mint_uid\<close>, \<open>GENERATION\<close>, \<open>next_uid\<close>) and the producer
  epoch's format and timeline (\<open>metriken/src/epoch.rs\<close>). A uid is FNV-1a-64 over the producer
  epoch and the number of the assignment, which is a hash: the proof below settles for how many
  assignments it cannot collide.
\<close>

section \<open>Minting\<close>

definition fnv_offset :: u64 where
  "fnv_offset = 0xcbf29ce484222325"

definition fnv_prime :: u64 where
  "fnv_prime = 0x100000001b3"

definition fnv_byte :: "u8 \<Rightarrow> u64 \<Rightarrow> u64" where
  "fnv_byte b h = xor h (ucast b) * fnv_prime"

definition to_le_bytes :: "u64 \<Rightarrow> u8 list" where
  "to_le_bytes g = map (\<lambda>i. ucast (drop_bit (8 * i) g)) [0..<8]"

definition hex_digits :: string where
  "hex_digits = ''0123456789abcdef''"

text \<open>\<open>format!("{h:016x}")\<close>.\<close>

definition hex16 :: "u64 \<Rightarrow> string" where
  "hex16 h = map (\<lambda>i. hex_digits ! unat (and (drop_bit (60 - 4 * i) h) 15)) [0..<16]"

definition epoch_bytes :: "string \<Rightarrow> u8 list" where
  "epoch_bytes e = map of_char e"

definition mint_uid :: "string \<Rightarrow> u64 \<Rightarrow> string" where
  "mint_uid epoch generation =
     hex16 (fold fnv_byte (epoch_bytes epoch @ to_le_bytes generation) fnv_offset)"

text \<open>\<open>next_uid\<close>: the uid, and the counter after its \<open>fetch_add\<close>.\<close>

definition next_uid :: "string \<Rightarrow> u64 \<Rightarrow> string \<times> u64" where
  "next_uid epoch generation = (mint_uid epoch (generation + 1), generation + 1)"

section \<open>The producer epoch and its timeline\<close>

definition hex2 :: "u8 \<Rightarrow> string" where
  "hex2 b = [hex_digits ! unat (drop_bit 4 b), hex_digits ! unat (and b 15)]"

text \<open>\<open>mint\<close> on the sixteen bytes \<open>getrandom\<close> gives; the branch for a system that gives none is
  the string \<open>fallback\<close>, which the caller's clock and pid make.\<close>

definition uuid_format :: "u8 list \<Rightarrow> string" where
  "uuid_format b0 =
     (let b1 = b0[6 := or (and (b0 ! 6) 0x0f) 0x40];
          b = b1[8 := or (and (b1 ! 8) 0x3f) 0x80];
          h = concat (map hex2 b);
          part = (\<lambda>i j. take (j - i) (drop i h))
      in part 0 8 @ ''-'' @ part 8 12 @ ''-'' @ part 12 16 @ ''-'' @ part 16 20 @ ''-'' @ part 20 32)"

definition mint_epoch :: "u8 list option \<Rightarrow> string \<Rightarrow> string" where
  "mint_epoch random fallback =
     (case random of None \<Rightarrow> fallback | Some b \<Rightarrow> uuid_format b)"

text \<open>An instant is a reading of the monotonic clock in nanoseconds; \<open>as i64\<close> truncates.\<close>

definition anchored_ts :: "i64 \<Rightarrow> nat \<Rightarrow> nat \<Rightarrow> i64" where
  "anchored_ts anchor_wall_ns anchor now = anchor_wall_ns + of_nat (now - anchor)"

definition anchored_now :: "i64 \<Rightarrow> nat \<Rightarrow> nat \<Rightarrow> i64 \<Rightarrow> i64 \<times> i64" where
  "anchored_now anchor_wall_ns anchor now wall =
     (let ts = anchored_ts anchor_wall_ns anchor now in (ts, wall - ts))"

section \<open>The steps of the hash\<close>

lemma fnv_prime_inverse: "fnv_prime * 0xce965057aff6957b = 1"
  by (simp add: fnv_prime_def)

lemma fnv_prime_cancel: "x * fnv_prime = y * fnv_prime \<longleftrightarrow> x = y"
proof
  assume "x * fnv_prime = y * fnv_prime"
  then have "x * (fnv_prime * 0xce965057aff6957b) = y * (fnv_prime * 0xce965057aff6957b)"
    by (simp only: mult.assoc [symmetric])
  then show "x = y" by (simp add: fnv_prime_inverse)
qed simp

lemma xor_cancel_left: "xor h x = xor h y \<longleftrightarrow> x = (y :: u64)"
  by (auto simp: bit_eq_iff bit_xor_iff)

lemma ucast_u8_u64: "ucast b = (ucast c :: u64) \<longleftrightarrow> b = (c :: u8)"
proof
  assume eq: "ucast b = (ucast c :: u64)"
  show "b = c"
  proof (rule bit_word_eqI)
    fix n assume "n < LENGTH(8)"
    with arg_cong [OF eq, of "\<lambda>w. bit w n"] show "bit b n = bit c n"
      by (simp add: bit_simps)
  qed
qed simp

lemma fnv_byte_same_state: "fnv_byte b h = fnv_byte c h \<longleftrightarrow> b = c"
  by (simp add: fnv_byte_def fnv_prime_cancel xor_cancel_left ucast_u8_u64)

lemma fnv_byte_same_byte: "fnv_byte b h = fnv_byte b k \<longleftrightarrow> h = k"
  unfolding fnv_byte_def fnv_prime_cancel by (auto simp: bit_eq_iff bit_xor_iff)

lemma drop_bit_8_uint:
  assumes "drop_bit 8 x = drop_bit 8 (y :: u64)"
  shows "uint x div 256 = uint y div 256"
  using arg_cong [OF assms, of uint] by (simp add: drop_bit_eq_div uint_div)

text \<open>Xoring a byte moves a word within its block of 256.\<close>

lemma xor_byte_block:
  obtains e :: int where "\<bar>e\<bar> \<le> 255" "xor h (ucast (b :: u8)) = h + (of_int e :: u64)"
proof -
  have "drop_bit 8 (xor h (ucast b)) = drop_bit 8 h"
    by (auto simp: bit_eq_iff bit_simps dest: bit_imp_le_length)
  then have "uint (xor h (ucast b)) div 256 = uint h div 256"
    by (rule drop_bit_8_uint)
  then have "\<bar>uint (xor h (ucast b)) - uint h\<bar> \<le> 255"
    by presburger
  moreover have "xor h (ucast b) = h + of_int (uint (xor h (ucast b)) - uint h)"
    by simp
  ultimately show thesis by (rule that)
qed

lemma xor_byte_same_block:
  assumes "xor h (ucast (b :: u8)) = xor k (ucast (c :: u8))"
  obtains d :: int where "\<bar>d\<bar> \<le> 255" "h - k = (of_int d :: u64)"
proof -
  have "drop_bit 8 h = drop_bit 8 (xor h (ucast b))"
    by (auto simp: bit_eq_iff bit_simps dest: bit_imp_le_length)
  also have "\<dots> = drop_bit 8 k"
    unfolding assms by (auto simp: bit_eq_iff bit_simps dest: bit_imp_le_length)
  finally have "uint h div 256 = uint k div 256"
    by (rule drop_bit_8_uint)
  then have "\<bar>uint h - uint k\<bar> \<le> 255"
    by presburger
  moreover have "h - k = of_int (uint h - uint k)"
    by simp
  ultimately show thesis by (rule that)
qed

section \<open>Four bytes cannot collide\<close>

text \<open>
  With the prime \<open>2 ^ 40 + 435\<close>, the difference of two states four bytes apart is a polynomial
  in 435 modulo \<open>2 ^ 40\<close> whose coefficients are smaller than the overflow.
\<close>

lemma small_multiple: "c dvd d \<Longrightarrow> \<bar>d\<bar> < c \<Longrightarrow> d = 0" for c d :: int
  by (meson abs_dvd_iff dvd_abs_iff not_less zdvd_imp_le zero_less_abs_iff)

lemma fnv_low_part:
  fixes x e1 e2 d :: int
  assumes "\<bar>x\<bar> \<le> 255" "\<bar>e1\<bar> \<le> 510" "\<bar>e2\<bar> \<le> 510" "\<bar>d\<bar> \<le> 255"
    and "435 * (435 * (435 * x + e1) + e2) - d = 1099511627776 * q"
  shows "435 * (435 * (435 * x + e1) + e2) = d"
proof -
  let ?L = "435 * (435 * (435 * x + e1) + e2) - d"
  have "?L < 1099511627776" "- 1099511627776 < ?L"
    using assms(1-4) unfolding abs_le_iff by simp_all
  then have "\<bar>?L\<bar> < 1099511627776" by simp
  moreover have "1099511627776 dvd ?L" unfolding assms(5) by simp
  ultimately have "?L = 0" by (rule small_multiple [rotated])
  then show ?thesis by simp
qed

lemma fnv_polynomial:
  fixes x e1 e2 d :: int
  assumes bounds: "\<bar>x\<bar> \<le> 255" "\<bar>e1\<bar> \<le> 510" "\<bar>e2\<bar> \<le> 510" "\<bar>d\<bar> \<le> 255"
    and cong: "1099511628211 * (1099511628211 * (1099511628211 * x + e1) + e2) - d =
      18446744073709551616 * k"
  shows "x = 0 \<and> e1 = 0 \<and> e2 = 0"
proof -
  define m where "m = 567675 * x + 870 * e1 + e2"
  define n where "n = 1305 * x + e1"
  have expand: "1099511628211 * (1099511628211 * (1099511628211 * x + e1) + e2) =
      435 * (435 * (435 * x + e1) + e2) + 1099511627776 * m +
      1099511627776 * 1099511627776 * (n + 1099511627776 * x)"
    unfolding m_def n_def by algebra
  have low: "435 * (435 * (435 * x + e1) + e2) = d"
    by (rule fnv_low_part [OF bounds, where q = "16777216 * k - m -
        1099511627776 * (n + 1099511627776 * x)"]) (use cong expand in algebra)
  then have "d = 435 * (435 * (435 * x + e1) + e2)" by simp
  moreover from this have "d = 0"
    using bounds(4) by (intro small_multiple [of 435]) simp_all
  ultimately have zero: "435 * (435 * x + e1) + e2 = 0" by simp
  define t where "t = 435 * x + e1"
  have e2: "e2 = - 435 * t" using zero by (simp add: t_def)
  with bounds(3) have t: "\<bar>t\<bar> \<le> 1" by simp
  have m: "m = 435 * (435 * x + t)"
    unfolding m_def e2 t_def by algebra
  have "1099511627776 * (m + 1099511627776 * (n + 1099511627776 * x)) = 18446744073709551616 * k"
    using cong expand low by algebra
  then have "m + 1099511627776 * (n + 1099511627776 * x) = 16777216 * k" by simp
  then have "m = 16777216 * (k - 65536 * (n + 1099511627776 * x))" by algebra
  then obtain j where "435 * (435 * x + t) = 16777216 * j" unfolding m by blast
  then have "(2 :: int) ^ 24 dvd 435 * (435 * x + t)" by simp
  moreover have "coprime ((2 :: int) ^ 24) 435"
    by (simp only: coprime_power_left_iff coprime_left_2_iff_odd) simp
  ultimately have "16777216 dvd 435 * x + t"
    using coprime_dvd_mult_right_iff by fastforce
  then have sum: "435 * x + t = 0"
    by (rule small_multiple) (use bounds(1) t in simp)
  then have "t = 435 * (- x)" by simp
  moreover from this have "t = 0"
    using t by (intro small_multiple [of 435]) simp_all
  ultimately have "x = 0 \<and> t = 0" by simp
  then show ?thesis using e2 by (simp add: t_def)
qed

text \<open>The same in the words: two equal states before the fourth of four bytes.\<close>

lemma fnv_four_bytes:
  assumes "fnv_byte b3 (fnv_byte b2 (fnv_byte b1 (fnv_byte b0 h))) =
    fnv_byte c3 (fnv_byte c2 (fnv_byte c1 (fnv_byte c0 h)))"
  shows "b0 = c0 \<and> b1 = c1 \<and> b2 = c2 \<and> b3 = c3"
proof -
  define p :: u64 where "p = fnv_prime"
  define h1 k1 where "h1 = fnv_byte b0 h" and "k1 = fnv_byte c0 h"
  define h2 k2 where "h2 = fnv_byte b1 h1" and "k2 = fnv_byte c1 k1"
  define h3 k3 where "h3 = fnv_byte b2 h2" and "k3 = fnv_byte c2 k2"
  have p: "p = of_int 1099511628211" by (simp add: p_def fnv_prime_def)
  obtain d where d: "\<bar>d\<bar> \<le> 255" "h3 - k3 = of_int d"
    using assms xor_byte_same_block
    unfolding fnv_byte_def [of b3] fnv_byte_def [of c3] fnv_prime_cancel h1_def k1_def h2_def k2_def
      h3_def k3_def by metis
  obtain x where x: "\<bar>x\<bar> \<le> 255" "xor h (ucast b0) - xor h (ucast c0) = (of_int x :: u64)"
  proof (rule xor_byte_same_block [of "xor h (ucast b0)" b0 "xor h (ucast c0)" c0])
    show "xor (xor h (ucast b0)) (ucast b0) = xor (xor h (ucast c0)) (ucast c0 :: u64)"
      by (simp add: xor.assoc)
  qed blast
  obtain e1 e1' where e1: "\<bar>e1\<bar> \<le> 255" "xor h1 (ucast b1) = h1 + of_int e1"
      "\<bar>e1'\<bar> \<le> 255" "xor k1 (ucast c1) = k1 + of_int e1'"
    by (metis xor_byte_block)
  obtain e2 e2' where e2: "\<bar>e2\<bar> \<le> 255" "xor h2 (ucast b2) = h2 + of_int e2"
      "\<bar>e2'\<bar> \<le> 255" "xor k2 (ucast c2) = k2 + of_int e2'"
    by (metis xor_byte_block)
  have s1: "h1 - k1 = of_int x * p"
    unfolding h1_def k1_def fnv_byte_def p_def [symmetric] x(2) [symmetric] by (simp add: algebra_simps)
  have s2: "h2 - k2 = (of_int x * p + of_int (e1 - e1')) * p"
    unfolding h2_def k2_def fnv_byte_def p_def [symmetric] e1 s1 [symmetric] by (simp add: algebra_simps)
  have s3: "h3 - k3 = ((of_int x * p + of_int (e1 - e1')) * p + of_int (e2 - e2')) * p"
    unfolding h3_def k3_def fnv_byte_def p_def [symmetric] e2 s2 [symmetric] by (simp add: algebra_simps)
  have "(of_int (1099511628211 * (1099511628211 * (1099511628211 * x + (e1 - e1')) + (e2 - e2')) - d)
      :: u64) = 0"
    using s3 d(2) unfolding p by (simp add: algebra_simps)
  then obtain k where "1099511628211 * (1099511628211 * (1099511628211 * x + (e1 - e1')) + (e2 - e2')) - d
      = 18446744073709551616 * k"
    unfolding word_of_int_eq_0_iff by (auto elim: dvdE)
  then have zero: "x = 0 \<and> e1 - e1' = 0 \<and> e2 - e2' = 0"
    using x(1) e1(1,3) e2(1,3) d(1) by (intro fnv_polynomial) auto
  then have "xor h (ucast b0) = xor h (ucast c0 :: u64)" using x(2) by simp
  then have b0: "b0 = c0" by (simp add: xor_cancel_left ucast_u8_u64)
  then have "h1 = k1" by (simp add: h1_def k1_def)
  moreover from this have b1: "b1 = c1"
    using e1 zero by (metis eq_iff_diff_eq_0 xor_cancel_left ucast_u8_u64)
  ultimately have "h2 = k2" by (simp add: h2_def k2_def)
  moreover from this have b2: "b2 = c2"
    using e2 zero by (metis eq_iff_diff_eq_0 xor_cancel_left ucast_u8_u64)
  ultimately have "h3 = k3" by (simp add: h3_def k3_def)
  then have "b3 = c3"
    using assms unfolding h1_def k1_def h2_def k2_def h3_def k3_def by (simp add: fnv_byte_same_state)
  with b0 b1 b2 show ?thesis by simp
qed

section \<open>Uids within a process\<close>

lemma hex_digit_inj:
  "m < 16 \<Longrightarrow> n < 16 \<Longrightarrow> hex_digits ! m = hex_digits ! n \<longleftrightarrow> m = n"
  by (rule nth_eq_iff_index_eq) (simp_all add: hex_digits_def)

lemma nibble_less: "unat (and w 15 :: u64) < 16"
  using word_and_le1 [of w 15] by (simp add: word_le_nat_alt)

lemma hex16_inj: "hex16 g = hex16 h \<longleftrightarrow> g = h"
proof
  assume eq: "hex16 g = hex16 h"
  show "g = h"
  proof (rule bit_word_eqI)
    fix n assume n: "n < LENGTH(64)"
    have "hex16 g ! (15 - n div 4) = hex16 h ! (15 - n div 4)" using eq by simp
    then have "and (drop_bit (n div 4 * 4) g) 15 = and (drop_bit (n div 4 * 4) h) 15"
      using n by (simp add: hex16_def hex_digit_inj nibble_less diff_mult_distrib2 mult.commute
          flip: word_unat_eq_iff)
    then have "bit (and (drop_bit (n div 4 * 4) g) 15) (n mod 4) =
        bit (and (drop_bit (n div 4 * 4) h) 15) (n mod 4)" by simp
    moreover have "bit (15 :: u64) (n mod 4)"
    proof -
      have "(15 :: u64) = mask 4" by (simp add: mask_eq_exp_minus_1)
      then show ?thesis by (simp only: bit_mask_iff) (simp add: possible_bit_def)
    qed
    ultimately show "bit g n = bit h n"
      by (simp add: bit_and_iff bit_drop_bit_eq mod_div_mult_eq add.commute)
  qed
qed simp

lemma to_le_bytes_simp:
  "to_le_bytes g = [ucast g, ucast (drop_bit 8 g), ucast (drop_bit 16 g), ucast (drop_bit 24 g),
     ucast (drop_bit 32 g), ucast (drop_bit 40 g), ucast (drop_bit 48 g), ucast (drop_bit 56 g)]"
  by (simp add: to_le_bytes_def upt_rec)

lemma to_le_bytes_inj: "to_le_bytes g = to_le_bytes h \<longleftrightarrow> g = h"
proof
  assume eq: "to_le_bytes g = to_le_bytes h"
  show "g = h"
  proof (rule bit_word_eqI)
    fix n assume n: "n < LENGTH(64)"
    have "to_le_bytes g ! (n div 8) = to_le_bytes h ! (n div 8)" using eq by simp
    then have "(ucast (drop_bit (8 * (n div 8)) g) :: u8) = ucast (drop_bit (8 * (n div 8)) h)"
      using n by (simp add: to_le_bytes_def less_mult_imp_div_less)
    from arg_cong [OF this, of "\<lambda>w. bit w (n mod 8)"] show "bit g n = bit h n"
      by (simp add: bit_simps)
  qed
qed simp

lemma drop_bit_32_more:
  assumes "drop_bit 32 g = drop_bit 32 (h :: u64)" and "32 \<le> k"
  shows "drop_bit k g = drop_bit k h"
  using arg_cong [OF assms(1), of "drop_bit (k - 32)"] assms(2) by simp

lemma mint_uid_inj:
  assumes "mint_uid e g = mint_uid e h" and "drop_bit 32 g = drop_bit 32 h"
  shows "g = h"
proof -
  have high: "drop_bit 40 g = drop_bit 40 h" "drop_bit 48 g = drop_bit 48 h"
      "drop_bit 56 g = drop_bit 56 h"
    by (rule drop_bit_32_more [OF assms(2)], simp)+
  have "ucast g = (ucast h :: u8) \<and> ucast (drop_bit 8 g) = (ucast (drop_bit 8 h) :: u8) \<and>
      ucast (drop_bit 16 g) = (ucast (drop_bit 16 h) :: u8) \<and>
      ucast (drop_bit 24 g) = (ucast (drop_bit 24 h) :: u8)"
    by (rule fnv_four_bytes [where h = "fold fnv_byte (epoch_bytes e) fnv_offset"])
      (use assms(1) in \<open>simp only: mint_uid_def hex16_inj to_le_bytes_simp fold_append comp_def
        fold.simps id_apply fnv_byte_same_byte high assms(2)\<close>)
  then have "to_le_bytes g = to_le_bytes h"
    by (simp add: to_le_bytes_simp high assms(2))
  then show ?thesis by (simp add: to_le_bytes_inj)
qed

text \<open>The uids of \<open>n\<close> calls of \<open>next_uid\<close>.\<close>

primrec uid_run :: "string \<Rightarrow> nat \<Rightarrow> u64 \<Rightarrow> string list" where
  "uid_run e 0 g = []"
| "uid_run e (Suc n) g = (let (uid, g') = next_uid e g in uid # uid_run e n g')"

lemma uid_run_mint:
  "uid_run e n g = map (\<lambda>i. mint_uid e (g + of_nat i)) [1..<Suc n]"
proof (induction n arbitrary: g)
  case (Suc n)
  have "map (\<lambda>i. mint_uid e (g + of_nat i)) [1..<Suc (Suc n)] =
      mint_uid e (g + 1) # map (\<lambda>i. mint_uid e (g + of_nat i)) (map Suc [1..<Suc n])"
    by (simp add: map_Suc_upt upt_conv_Cons del: upt_Suc)
  also have "\<dots> = mint_uid e (g + 1) # map (\<lambda>i. mint_uid e (g + 1 + of_nat i)) [1..<Suc n]"
    by (simp only: map_map comp_def of_nat_Suc add.assoc)
  finally show ?case
    using Suc by (simp add: next_uid_def del: upt_Suc)
qed simp

section \<open>The timeline\<close>

text \<open>Within the range of an \<open>i64\<close> the timeline does not go backwards, and a moment's offset
  leads from it to the wall clock.\<close>

lemma anchored_ts_mono:
  assumes "now \<le> later" "0 \<le> sint aw" "sint aw + int (later - anchor) < 2 ^ 63"
  shows "sint (anchored_ts aw anchor now) \<le> sint (anchored_ts aw anchor later)"
proof -
  have "sint (anchored_ts aw anchor t) = sint aw + int (t - anchor)" if "t \<le> later" for t
  proof -
    have "sint aw + int (t - anchor) < 2 ^ 63"
      using assms(3) that by linarith
    then have "sint (word_of_int (sint aw + int (t - anchor)) :: i64) = sint aw + int (t - anchor)"
      using assms(2) unfolding sint_sbintrunc' by (simp add: signed_take_bit_int_eq_self)
    then show ?thesis by (simp add: anchored_ts_def)
  qed
  with assms(1) show ?thesis by simp
qed

lemma anchored_now_wall: "anchored_now aw anchor now wall = (ts, off) \<Longrightarrow> ts + off = wall"
  by (auto simp: anchored_now_def Let_def)

text \<open>
  The uids of a process do not collide: the first \<open>2 ^ 32 - 1\<close> uids that \<open>next_uid\<close>
  mints, for whatever producer epoch, are pairwise different. (The number of the assignment is
  hashed, so this is a property of the hash: over the low four bytes of the number the
  polynomial in the prime cannot vanish.)
\<close>

theorem uids_are_unique:
  assumes "n < 2 ^ 32"
  shows "distinct (uid_run epoch n 0)"
proof -
  have small: "drop_bit 32 (of_nat i :: u64) = 0 \<and> unat (of_nat i :: u64) = i" if "i \<le> n" for i
  proof -
    have "i < 2 ^ 32" using that assms by simp
    then have "unat (of_nat i :: u64) = i" by (intro unat_of_nat_u64) simp
    moreover from this have "unat (drop_bit 32 (of_nat i :: u64)) = 0"
      using \<open>i < 2 ^ 32\<close> by (simp add: drop_bit_eq_div unat_div)
    ultimately show ?thesis by (simp add: unat_eq_zero)
  qed
  have "inj_on (\<lambda>i. mint_uid epoch (0 + of_nat i)) (set [1..<Suc n])"
    by (rule inj_onI) (metis add_0 atLeastLessThan_iff less_Suc_eq_le mint_uid_inj set_upt small)
  then show ?thesis
    unfolding uid_run_mint by (simp add: distinct_map del: upt_Suc)
qed

theorem uids_are_unique_witness: "distinct (uid_run ''e'' 1000 0)"
  by (rule uids_are_unique) simp

end
