(* ===== verification/SlotId.thy ===== *)
theory SlotId
  imports Uid MetricGroups
begin

text \<open>
  \<open>SlotIdentity\<close> (\<open>metriken/src/group/identity.rs\<close>): which occupant holds a slot of a slot space
  that several groups share. Every assignment is written to every group's slot metadata.

  The groups are trait objects, so the operations take the trait's functions as a record
  (\<open>slot_trait\<close>); the locale \<open>slot_metadata\<close> states what the identity relies on, and is
  interpreted on the counter and gauge groups of \<open>MetricGroups\<close>. The first part runs one call at a
  time. The second part is a step relation on the sections the code runs under the lock and
  the writes it makes after it: \<open>assign\<close> and \<open>release\<close> change the live map under the lock, and
  write to the groups one by one once the lock is dropped.
\<close>

section \<open>State\<close>

record 'g slot_trait =
  set_metadata :: "nat \<Rightarrow> smap \<Rightarrow> 'g \<Rightarrow> 'g"
  clear_metadata :: "nat \<Rightarrow> 'g \<Rightarrow> 'g"
  metadata_snapshot :: "'g \<Rightarrow> (nat \<times> smap) fset"

datatype 'g groups = Flat "'g list" | Grouped "'g list list"

fun each :: "('g \<Rightarrow> 'g) \<Rightarrow> 'g groups \<Rightarrow> 'g groups" where
  "each f (Flat gs) = Flat (map f gs)"
| "each f (Grouped ls) = Grouped (map (map f) ls)"

fun all_groups :: "'g groups \<Rightarrow> 'g list" where
  "all_groups (Flat gs) = gs"
| "all_groups (Grouped ls) = concat ls"

type_synonym occupants = "(nat, smap \<times> string) fmap"

record 'g slot_identity =
  si_groups :: "'g groups"
  si_live :: occupants

definition UID_LABEL :: string where
  "UID_LABEL = ''__uid__''"

definition si_new :: "'g list \<Rightarrow> 'g slot_identity" where
  "si_new gs = \<lparr>si_groups = Flat gs, si_live = fmempty\<rparr>"

definition si_grouped :: "'g list list \<Rightarrow> 'g slot_identity" where
  "si_grouped ls = \<lparr>si_groups = Grouped ls, si_live = fmempty\<rparr>"

section \<open>Operations\<close>

text \<open>What \<open>assign\<close> and \<open>release\<close> write to a group.\<close>

datatype slot_write = SetSlot nat smap | ClearSlot nat

fun write_slot :: "'g slot_trait \<Rightarrow> slot_write \<Rightarrow> 'g \<Rightarrow> 'g" where
  "write_slot tr (SetSlot slot md) g = set_metadata tr slot md g"
| "write_slot tr (ClearSlot slot) g = clear_metadata tr slot g"

text \<open>
  The section of \<open>assign\<close> under the lock: the uid it returns, what it goes on to write (nothing
  when the occupant announced itself again), the live map and the process-wide counter.
\<close>

definition assign_locked :: "string \<Rightarrow> nat \<Rightarrow> smap \<Rightarrow> occupants \<Rightarrow> u64 \<Rightarrow>
    string \<times> slot_write option \<times> occupants \<times> u64" where
  "assign_locked epoch slot labels live gen =
     (case fmlookup live slot of
        Some (current, uid) \<Rightarrow>
          (if current = labels then (uid, None, live, gen)
           else let (uid, gen') = next_uid epoch gen
                in (uid, Some (SetSlot slot (fmupd UID_LABEL uid labels)),
                    fmupd slot (labels, uid) live, gen'))
      | None \<Rightarrow>
          let (uid, gen') = next_uid epoch gen
          in (uid, Some (SetSlot slot (fmupd UID_LABEL uid labels)),
              fmupd slot (labels, uid) live, gen'))"

definition write_all :: "'g slot_trait \<Rightarrow> slot_write option \<Rightarrow> 'g groups \<Rightarrow> 'g groups" where
  "write_all tr w gs = (case w of None \<Rightarrow> gs | Some w \<Rightarrow> each (write_slot tr w) gs)"

definition si_assign :: "'g slot_trait \<Rightarrow> string \<Rightarrow> nat \<Rightarrow> smap \<Rightarrow> 'g slot_identity \<times> u64 \<Rightarrow>
    string \<times> 'g slot_identity \<times> u64" where
  "si_assign tr epoch slot labels = (\<lambda>(si, gen).
     let (uid, w, live, gen') = assign_locked epoch slot labels (si_live si) gen
     in (uid, \<lparr>si_groups = write_all tr w (si_groups si), si_live = live\<rparr>, gen'))"

definition si_release :: "'g slot_trait \<Rightarrow> nat \<Rightarrow> 'g slot_identity \<Rightarrow> 'g slot_identity" where
  "si_release tr slot si =
     \<lparr>si_groups = write_all tr (Some (ClearSlot slot)) (si_groups si),
      si_live = fmdrop slot (si_live si)\<rparr>"

text \<open>\<open>retain\<close> walks the \<open>BTreeMap\<close> in the order of its keys.\<close>

definition live_slots :: "occupants \<Rightarrow> nat list" where
  "live_slots live = sorted_list_of_fset (fmdom live)"

definition si_gone :: "(nat \<Rightarrow> smap \<Rightarrow> bool) \<Rightarrow> occupants \<Rightarrow> nat list" where
  "si_gone keep live =
     filter (\<lambda>slot. \<not> keep slot (fst (the (fmlookup live slot)))) (live_slots live)"

definition si_retain :: "'g slot_trait \<Rightarrow> (nat \<Rightarrow> smap \<Rightarrow> bool) \<Rightarrow> 'g slot_identity \<Rightarrow>
    nat \<times> 'g slot_identity" where
  "si_retain tr keep si =
     (let gone = si_gone keep (si_live si) in (length gone, fold (si_release tr) gone si))"

definition si_uid :: "'g slot_identity \<Rightarrow> nat \<Rightarrow> string option" where
  "si_uid si slot = map_option snd (fmlookup (si_live si) slot)"

definition si_len :: "'g slot_identity \<Rightarrow> nat" where
  "si_len si = size (fmdom (si_live si))"

text \<open>A run of calls, with the uid each assignment returned.\<close>

datatype slot_call = Assign nat smap | Release nat | Retain "nat \<Rightarrow> smap \<Rightarrow> bool"

fun si_run :: "'g slot_trait \<Rightarrow> string \<Rightarrow> slot_call list \<Rightarrow> 'g slot_identity \<times> u64 \<Rightarrow>
    (nat \<times> string) list \<times> 'g slot_identity \<times> u64" where
  "si_run tr epoch [] s = ([], s)"
| "si_run tr epoch (Assign slot labels # cs) s =
     (let (uid, s') = si_assign tr epoch slot labels s;
          (outs, s'') = si_run tr epoch cs s'
      in ((slot, uid) # outs, s''))"
| "si_run tr epoch (Release slot # cs) s = si_run tr epoch cs (si_release tr slot (fst s), snd s)"
| "si_run tr epoch (Retain keep # cs) s = si_run tr epoch cs (snd (si_retain tr keep (fst s)), snd s)"

section \<open>What a group's slots should say\<close>

definition expected :: "occupants \<Rightarrow> nat \<Rightarrow> smap option" where
  "expected live slot = map_option (\<lambda>(labels, uid). fmupd UID_LABEL uid labels) (fmlookup live slot)"

definition write_for :: "occupants \<Rightarrow> nat \<Rightarrow> slot_write" where
  "write_for live slot =
     (case expected live slot of None \<Rightarrow> ClearSlot slot | Some md \<Rightarrow> SetSlot slot md)"

fun slot_of :: "slot_write \<Rightarrow> nat" where
  "slot_of (SetSlot slot _) = slot"
| "slot_of (ClearSlot slot) = slot"

lemma slot_of_write_for [simp]: "slot_of (write_for live slot) = slot"
  by (simp add: write_for_def split: option.splits)

lemma expected_simps [simp]:
  "expected (fmupd slot (labels, uid) live) j =
     (if j = slot then Some (fmupd UID_LABEL uid labels) else expected live j)"
  "expected (fmdrop slot live) j = (if j = slot then None else expected live j)"
  "expected fmempty j = None"
  by (simp_all add: expected_def)

lemma write_for_other: "expected live' j = expected live j \<Longrightarrow> write_for live' j = write_for live j"
  by (simp add: write_for_def)

text \<open>The two outcomes of the section of \<open>assign\<close> under the lock.\<close>

lemma assign_locked_cases:
  obtains (same) uid where "fmlookup live slot = Some (labels, uid)"
      "assign_locked epoch slot labels live gen = (uid, None, live, gen)"
  | (new) "\<And>uid. fmlookup live slot \<noteq> Some (labels, uid)"
      "assign_locked epoch slot labels live gen =
        (mint_uid epoch (gen + 1),
         Some (SetSlot slot (fmupd UID_LABEL (mint_uid epoch (gen + 1)) labels)),
         fmupd slot (labels, mint_uid epoch (gen + 1)) live, gen + 1)"
  by (cases "\<exists>uid. fmlookup live slot = Some (labels, uid)")
    (fastforce simp: assign_locked_def next_uid_def split: option.splits prod.splits)+

lemma assign_locked_write:
  assumes "assign_locked epoch slot labels live gen = (uid, w, live', gen')"
  shows "(w = None \<and> live' = live) \<or> (w = Some (write_for live' slot) \<and>
      (\<forall>j. j \<noteq> slot \<longrightarrow> expected live' j = expected live j))"
  using assms by (cases rule: assign_locked_cases [of live slot labels epoch gen])
    (auto simp: write_for_def)

text \<open>A group agrees with the live map on a slot when its metadata there is the occupant's
  labels with its uid, or nothing (a slot beyond the group's entries always holds nothing).\<close>

definition agrees :: "'g slot_trait \<Rightarrow> ('g \<Rightarrow> nat) \<Rightarrow> occupants \<Rightarrow> nat \<Rightarrow> 'g \<Rightarrow> bool" where
  "agrees tr entries live slot g \<longleftrightarrow>
     (\<forall>md. (slot, md) |\<in>| metadata_snapshot tr g \<longleftrightarrow>
        slot < entries g \<and> expected live slot = Some md)"

definition si_agrees :: "'g slot_trait \<Rightarrow> ('g \<Rightarrow> nat) \<Rightarrow> 'g slot_identity \<Rightarrow> bool" where
  "si_agrees tr entries si \<longleftrightarrow>
     (\<forall>g \<in> set (all_groups (si_groups si)). \<forall>slot. agrees tr entries (si_live si) slot g)"

lemma agrees_cong:
  "expected live' slot = expected live slot \<Longrightarrow>
    agrees tr entries live' slot g = agrees tr entries live slot g"
  by (simp add: agrees_def)

lemma all_groups_each [simp]: "all_groups (each f gs) = map f (all_groups gs)"
  by (cases gs) (simp_all add: map_concat comp_def)

lemma write_all_simps [simp]:
  "write_all tr None gs = gs"
  "write_all tr (Some w) gs = each (write_slot tr w) gs"
  by (simp_all add: write_all_def)

section \<open>What the identity relies on\<close>

locale slot_metadata =
  fixes tr :: "'g slot_trait" and entries :: "'g \<Rightarrow> nat"
  assumes set_snapshot: "(j, m) |\<in>| metadata_snapshot tr (set_metadata tr i md g) \<longleftrightarrow>
      (if j = i \<and> i < entries g then m = md else (j, m) |\<in>| metadata_snapshot tr g)"
    and clear_snapshot: "(j, m) |\<in>| metadata_snapshot tr (clear_metadata tr i g) \<longleftrightarrow>
      j \<noteq> i \<and> (j, m) |\<in>| metadata_snapshot tr g"
    and set_entries: "entries (set_metadata tr i md g) = entries g"
    and clear_entries: "entries (clear_metadata tr i g) = entries g"
begin

lemma write_entries [simp]: "entries (write_slot tr w g) = entries g"
  by (cases w) (simp_all add: set_entries clear_entries)

lemma agrees_other:
  "slot_of w \<noteq> slot \<Longrightarrow>
    agrees tr entries live slot (write_slot tr w g) = agrees tr entries live slot g"
  by (cases w) (auto simp: agrees_def set_snapshot clear_snapshot set_entries clear_entries)

text \<open>The write of the current occupant brings a slot into agreement, provided a slot beyond
  the group's entries held nothing.\<close>

lemma write_agrees:
  assumes "\<And>md. entries g \<le> slot \<Longrightarrow> (slot, md) |\<notin>| metadata_snapshot tr g"
  shows "agrees tr entries live slot (write_slot tr (write_for live slot) g)"
  using assms unfolding write_for_def
  by (cases "expected live slot")
    (auto simp: agrees_def set_snapshot clear_snapshot set_entries clear_entries not_less)

lemma write_beyond:
  "entries g \<le> slot \<Longrightarrow> (slot, md) |\<notin>| metadata_snapshot tr g \<Longrightarrow>
    (slot, md) |\<notin>| metadata_snapshot tr (write_slot tr w g)"
  by (cases w) (auto simp: set_snapshot clear_snapshot)

lemma write_keeps_agreement:
  assumes "\<And>slot. agrees tr entries live slot g"
    and "\<And>j. j \<noteq> slot \<Longrightarrow> expected live' j = expected live j"
  shows "agrees tr entries live' j (write_slot tr (write_for live' slot) g)"
proof (cases "j = slot")
  case True
  have "agrees tr entries live' slot (write_slot tr (write_for live' slot) g)"
    by (rule write_agrees) (use assms(1) in \<open>simp add: agrees_def\<close>)
  with True show ?thesis by simp
next
  case False
  then show ?thesis using assms by (simp add: agrees_other agrees_cong [of live' j live])
qed

lemma assign_agrees:
  assumes "si_agrees tr entries si" and "si_assign tr epoch slot labels (si, gen) = (uid, si', gen')"
  shows "si_agrees tr entries si'"
proof -
  obtain u w live g' where locked: "assign_locked epoch slot labels (si_live si) gen = (u, w, live, g')"
    by (metis prod_cases4)
  then have si': "si' = \<lparr>si_groups = write_all tr w (si_groups si), si_live = live\<rparr>"
    using assms(2) by (simp add: si_assign_def)
  show ?thesis
    using assign_locked_write [OF locked]
  proof (elim disjE conjE)
    assume "w = None" "live = si_live si"
    with assms(1) show ?thesis by (simp add: si' si_agrees_def)
  next
    assume "w = Some (write_for live slot)"
      and "\<forall>j. j \<noteq> slot \<longrightarrow> expected live j = expected (si_live si) j"
    with assms(1) show ?thesis
      by (fastforce simp: si' si_agrees_def intro!: write_keeps_agreement [of "si_live si"])
  qed
qed

lemma release_agrees: "si_agrees tr entries si \<Longrightarrow> si_agrees tr entries (si_release tr slot si)"
proof -
  assume before: "si_agrees tr entries si"
  let ?live = "fmdrop slot (si_live si)"
  have "agrees tr entries ?live j (write_slot tr (write_for ?live slot) g)"
    if "g \<in> set (all_groups (si_groups si))" for j g
    by (rule write_keeps_agreement [of "si_live si"]) (use before that in \<open>simp_all add: si_agrees_def\<close>)
  moreover have "write_for ?live slot = ClearSlot slot"
    by (simp add: write_for_def)
  ultimately show "si_agrees tr entries (si_release tr slot si)"
    by (simp add: si_agrees_def si_release_def)
qed

lemma retain_agrees: "si_agrees tr entries si \<Longrightarrow> si_agrees tr entries (snd (si_retain tr keep si))"
proof -
  have "si_agrees tr entries (fold (si_release tr) gone si)" if "si_agrees tr entries si" for gone
    using that by (induction gone arbitrary: si) (simp_all add: release_agrees)
  then show "si_agrees tr entries si \<Longrightarrow> si_agrees tr entries (snd (si_retain tr keep si))"
    by (simp add: si_retain_def Let_def)
qed

lemma run_agrees:
  "si_agrees tr entries (fst s) \<Longrightarrow> si_agrees tr entries (fst (snd (si_run tr epoch cs s)))"
proof (induction cs arbitrary: s)
  case (Cons c cs)
  show ?case
  proof (cases c)
    case (Assign slot labels)
    have "si_agrees tr entries (fst (snd (si_assign tr epoch slot labels s)))"
      using Cons.prems by (metis assign_agrees prod.collapse)
    with Cons.IH Assign show ?thesis by (simp add: split_beta Let_def)
  qed (simp_all add: Cons release_agrees retain_agrees)
qed simp

end

section \<open>The groups\<close>

text \<open>\<open>slot_metadata!\<close> implements the trait for every group type by its own operations of the same
  names; for the counter and gauge groups these are the ones of \<open>MetricGroups\<close>.\<close>

definition group_slots :: "group slot_trait" where
  "group_slots = \<lparr>set_metadata = grp_set_metadata, clear_metadata = grp_clear_metadata,
     metadata_snapshot = grp_metadata_snapshot\<rparr>"

interpretation group_slots: slot_metadata group_slots g_entries
  by unfold_locales
    (auto simp: group_slots_def grp_set_metadata_def grp_clear_metadata_def
      grp_metadata_snapshot_def gm_snapshot_iff)

section \<open>Uids\<close>

definition minted :: "string \<Rightarrow> u64 \<Rightarrow> string set" where
  "minted epoch gen = mint_uid epoch ` {g. 0 < g \<and> g \<le> gen}"

definition uid_at :: "occupants \<Rightarrow> nat \<Rightarrow> string option" where
  "uid_at live i = map_option snd (fmlookup live i)"

lemma uid_at_simps [simp]:
  "uid_at (fmupd slot (labels, uid) live) i = (if i = slot then Some uid else uid_at live i)"
  "uid_at (fmdrop slot live) i = (if i = slot then None else uid_at live i)"
  "uid_at fmempty i = None"
  "si_uid si i = uid_at (si_live si) i"
  by (simp_all add: uid_at_def si_uid_def)

definition uids_ok :: "string \<Rightarrow> occupants \<Rightarrow> u64 \<Rightarrow> bool" where
  "uids_ok epoch live gen \<longleftrightarrow>
     (\<forall>i u. uid_at live i = Some u \<longrightarrow> u \<in> minted epoch gen) \<and>
     (\<forall>i j u. uid_at live i = Some u \<longrightarrow>
        uid_at live j = Some u \<longrightarrow> i = j)"

lemma next_generation:
  fixes gen :: u64
  assumes "unat gen + 1 < 2 ^ 32"
  shows "unat (gen + 1) = unat gen + 1" "gen \<le> gen + 1" "0 < gen + 1"
    "drop_bit 32 (gen + 1) = 0" "g \<le> gen \<Longrightarrow> drop_bit 32 g = 0"
proof -
  show n: "unat (gen + 1) = unat gen + 1"
    using assms by (simp add: unat_word_ariths)
  then show "gen \<le> gen + 1" "0 < gen + 1"
    by (simp_all add: word_le_nat_alt word_less_nat_alt)
  have small: "drop_bit 32 w = 0" if "unat w < 2 ^ 32" for w :: u64
    using that by (intro word_unat_eq_iff [THEN iffD2]) (simp add: drop_bit_eq_div unat_div)
  then show "drop_bit 32 (gen + 1) = 0" using assms n by simp
  show "g \<le> gen \<Longrightarrow> drop_bit 32 g = 0"
    using assms by (intro small) (simp add: word_le_nat_alt)
qed

lemma mint_is_fresh:
  assumes "unat gen + 1 < 2 ^ 32"
  shows "mint_uid epoch (gen + 1) \<notin> minted epoch gen"
proof
  assume "mint_uid epoch (gen + 1) \<in> minted epoch gen"
  then obtain g where g: "mint_uid epoch (gen + 1) = mint_uid epoch g" "g \<le> gen"
    by (auto simp: minted_def)
  with next_generation [OF assms] have "gen + 1 = g"
    by (intro mint_uid_inj [OF g(1)]) simp
  with g(2) next_generation(1) [OF assms] show False
    by (simp add: word_le_nat_alt)
qed

lemma minted_next:
  assumes "unat gen + 1 < 2 ^ 32"
  shows "minted epoch gen \<subseteq> minted epoch (gen + 1)" "mint_uid epoch (gen + 1) \<in> minted epoch (gen + 1)"
  using next_generation [OF assms] by (auto simp: minted_def)

lemma uids_ok_drop: "uids_ok epoch live gen \<Longrightarrow> uids_ok epoch (fmdrop slot live) gen"
  by (auto simp: uids_ok_def split: if_splits)

lemma uids_ok_new:
  assumes ok: "uids_ok epoch live gen" and "unat gen + 1 < 2 ^ 32"
  shows "uids_ok epoch (fmupd slot (labels, mint_uid epoch (gen + 1)) live) (gen + 1)"
proof -
  have "uid_at live i \<noteq> Some (mint_uid epoch (gen + 1))" for i
    using ok mint_is_fresh [OF assms(2)] unfolding uids_ok_def by blast
  moreover have "uid_at live i = Some u \<Longrightarrow> u \<in> minted epoch (gen + 1)" for i u
    using ok minted_next(1) [OF assms(2)] unfolding uids_ok_def by blast
  moreover have "uid_at live i = Some u \<Longrightarrow> uid_at live j = Some u \<Longrightarrow> i = j" for i j u
    using ok unfolding uids_ok_def by blast
  moreover have "mint_uid epoch (gen + 1) \<in> minted epoch (gen + 1)"
    by (rule minted_next(2) [OF assms(2)])
  ultimately show ?thesis unfolding uids_ok_def uid_at_simps by (smt (verit) option.inject)
qed

lemma assign_uids:
  assumes "uids_ok epoch (si_live si) gen" and "unat gen + 1 < 2 ^ 32"
    and "si_assign tr epoch slot labels (si, gen) = (uid, si', gen')"
  shows "uids_ok epoch (si_live si') gen' \<and> uid \<in> minted epoch gen' \<and>
    minted epoch gen \<subseteq> minted epoch gen' \<and> unat gen' \<le> unat gen + 1 \<and>
    (uid \<notin> minted epoch gen \<or> fmlookup (si_live si) slot = Some (labels, uid))"
proof (cases rule: assign_locked_cases [of "si_live si" slot labels epoch gen])
  case (same u)
  then have "uid = u" "si_live si' = si_live si" "gen' = gen"
    using assms(3) by (auto simp: si_assign_def)
  moreover have "u \<in> minted epoch gen"
    using assms(1) same(1) unfolding uids_ok_def uid_at_def by fastforce
  ultimately show ?thesis using assms(1) same(1) by simp
next
  case new
  with assms(3) have "si_live si' = fmupd slot (labels, mint_uid epoch (gen + 1)) (si_live si)"
      "gen' = gen + 1" "uid = mint_uid epoch (gen + 1)"
    by (auto simp: si_assign_def)
  then show ?thesis
    using uids_ok_new [OF assms(1,2)] minted_next [OF assms(2)] mint_is_fresh [OF assms(2)]
      next_generation [OF assms(2)] by auto
qed

lemma retain_live: "uids_ok epoch (si_live si) gen \<Longrightarrow> uids_ok epoch (si_live (snd (si_retain tr keep si))) gen"
proof -
  have "uids_ok epoch (si_live (fold (si_release tr) gone si)) gen"
    if "uids_ok epoch (si_live si) gen" for gone
    using that by (induction gone arbitrary: si) (simp_all add: si_release_def uids_ok_drop)
  then show "uids_ok epoch (si_live si) gen \<Longrightarrow>
      uids_ok epoch (si_live (snd (si_retain tr keep si))) gen"
    by (simp add: si_retain_def Let_def)
qed

lemma run_uids:
  assumes "uids_ok epoch (si_live si) gen" and "unat gen + length cs < 2 ^ 32"
    and "si_run tr epoch cs (si, gen) = (outs, si', gen')"
  shows "uids_ok epoch (si_live si') gen' \<and> snd ` set outs \<subseteq> minted epoch gen' \<and>
    minted epoch gen \<subseteq> minted epoch gen' \<and> unat gen' \<le> unat gen + length cs"
  using assms
proof (induction cs arbitrary: si gen outs)
  case (Cons c cs)
  show ?case
  proof (cases c)
    case (Assign slot labels)
    obtain u si1 gen1 where a: "si_assign tr epoch slot labels (si, gen) = (u, si1, gen1)"
      by (metis prod_cases3)
    obtain outs1 where r: "si_run tr epoch cs (si1, gen1) = (outs1, si', gen')"
        and outs: "outs = (slot, u) # outs1"
      using Cons.prems(3) Assign a by (auto split: prod.splits)
    have step: "uids_ok epoch (si_live si1) gen1" "u \<in> minted epoch gen1"
        "minted epoch gen \<subseteq> minted epoch gen1" "unat gen1 \<le> unat gen + 1"
      using assign_uids [OF Cons.prems(1) _ a] Cons.prems(2) by auto
    have "uids_ok epoch (si_live si') gen' \<and> snd ` set outs1 \<subseteq> minted epoch gen' \<and>
        minted epoch gen1 \<subseteq> minted epoch gen' \<and> unat gen' \<le> unat gen1 + length cs"
      by (rule Cons.IH [OF step(1) _ r]) (use step(4) Cons.prems(2) in simp)
    with step outs show ?thesis by auto
  next
    case (Release slot)
    with Cons.prems have "uids_ok epoch (si_live (si_release tr slot si)) gen"
      by (simp add: si_release_def uids_ok_drop)
    moreover have "si_run tr epoch cs (si_release tr slot si, gen) = (outs, si', gen')"
      using Cons.prems(3) Release by simp
    ultimately have "uids_ok epoch (si_live si') gen' \<and> snd ` set outs \<subseteq> minted epoch gen' \<and>
        minted epoch gen \<subseteq> minted epoch gen' \<and> unat gen' \<le> unat gen + length cs"
      using Cons.prems(2) by (intro Cons.IH) simp_all
    then show ?thesis by simp
  next
    case (Retain keep)
    with Cons.prems have "uids_ok epoch (si_live (snd (si_retain tr keep si))) gen"
      by (simp add: retain_live)
    moreover have "si_run tr epoch cs (snd (si_retain tr keep si), gen) = (outs, si', gen')"
      using Cons.prems(3) Retain by simp
    ultimately have "uids_ok epoch (si_live si') gen' \<and> snd ` set outs \<subseteq> minted epoch gen' \<and>
        minted epoch gen \<subseteq> minted epoch gen' \<and> unat gen' \<le> unat gen + length cs"
      using Cons.prems(2) by (intro Cons.IH) simp_all
    then show ?thesis by simp
  qed
qed (auto simp: minted_def)

text \<open>
  C4. An occupant's uid is its own. After any run of fewer than \<open>2 ^ 32\<close> assignments and releases from a new
  identity, no two live slots hold the same uid; and an \<open>assign\<close> that follows either
  announces the occupant the slot already holds, and returns its uid, or returns a uid that
  no earlier assignment of the run returned, whatever slot and labels it was for.
\<close>

theorem occupants_have_their_own_uids:
  assumes "si_live si = fmempty" and "length cs + 1 < 2 ^ 32"
    and "si_run tr epoch cs (si, 0) = (outs, si', gen')"
    and "si_assign tr epoch slot labels (si', gen') = (uid, si'', gen'')"
  shows "(\<forall>i j. si_uid si' i = si_uid si' j \<and> si_uid si' i \<noteq> None \<longrightarrow> i = j) \<and>
    (fmlookup (si_live si') slot = Some (labels, uid) \<or> uid \<notin> snd ` set outs)"
proof -
  have "uids_ok epoch (si_live si) 0" by (simp add: assms(1) uids_ok_def)
  then have run: "uids_ok epoch (si_live si') gen'" "snd ` set outs \<subseteq> minted epoch gen'"
      "unat gen' \<le> length cs"
    using run_uids [OF _ _ assms(3)] assms(2) by auto
  have "unat gen' + 1 < 2 ^ 32" using run(3) assms(2) by simp
  from assign_uids [OF run(1) this assms(4)] run(2)
  have "fmlookup (si_live si') slot = Some (labels, uid) \<or> uid \<notin> snd ` set outs" by blast
  moreover have "\<forall>i j. si_uid si' i = si_uid si' j \<and> si_uid si' i \<noteq> None \<longrightarrow> i = j"
    using run(1) unfolding uids_ok_def uid_at_simps by (metis option.exhaust)
  ultimately show ?thesis by blast
qed

text \<open>
  C3. The groups always say who holds a slot. After any run of assignments, releases and
  retains, one at a time, on groups whose slots started empty, the slot metadata of every group of the identity
  is, for every slot the group has, exactly the labels of the slot's occupant with its uid
  under \<open>__uid__\<close>, and nothing for a slot that holds no occupant.
\<close>

theorem groups_say_who_holds_a_slot:
  assumes "\<And>g. g \<in> set (all_groups gs) \<Longrightarrow> grp_metadata_snapshot g = {||}"
    and "si_run group_slots epoch cs (\<lparr>si_groups = gs, si_live = fmempty\<rparr>, gen) = (outs, si, gen')"
    and "g \<in> set (all_groups (si_groups si))"
  shows "(slot, md) |\<in>| grp_metadata_snapshot g \<longleftrightarrow>
    slot < g_entries g \<and> expected (si_live si) slot = Some md"
proof -
  have "si_agrees group_slots g_entries \<lparr>si_groups = gs, si_live = fmempty\<rparr>"
    using assms(1) by (simp add: si_agrees_def agrees_def group_slots_def)
  then have "si_agrees group_slots g_entries si"
    using group_slots.run_agrees [of "(\<lparr>si_groups = gs, si_live = fmempty\<rparr>, gen)" epoch cs] assms(2)
    by simp
  with assms(3) show ?thesis by (simp add: si_agrees_def agrees_def group_slots_def)
qed

theorem groups_say_who_holds_a_slot_witness:
  "(let (outs, si, gen) = si_run group_slots ''e'' [Assign 3 fmempty, Retain (\<lambda>_ _. False), Assign 5 fmempty]
        (\<lparr>si_groups = Flat [grp_new 8], si_live = fmempty\<rparr>, 0)
    in \<forall>g \<in> set (all_groups (si_groups si)).
         ((3, fmupd UID_LABEL (mint_uid ''e'' 1) fmempty) |\<notin>| grp_metadata_snapshot g) \<and>
         expected (si_live si) 5 = Some (fmupd UID_LABEL (mint_uid ''e'' 2) fmempty))"
proof -
  define start where "start = (\<lparr>si_groups = Flat [grp_new 8], si_live = fmempty\<rparr>, 0 :: u64)"
  define calls where "calls = [Assign 3 fmempty, Retain (\<lambda>_ _. False), Assign 5 fmempty]"
  obtain outs si gen where run: "si_run group_slots ''e'' calls start = (outs, si, gen)"
    by (metis prod_cases3)
  have "expected (si_live si) 3 = None \<and>
      expected (si_live si) 5 = Some (fmupd UID_LABEL (mint_uid ''e'' 2) fmempty)"
    using run
    by (simp add: calls_def start_def si_assign_def assign_locked_def next_uid_def si_retain_def
        si_gone_def live_slots_def si_release_def expected_def Let_def sorted_list_of_fset.rep_eq) auto
  moreover have "(3, fmupd UID_LABEL (mint_uid ''e'' 1) fmempty) |\<notin>| grp_metadata_snapshot g" if "g \<in> set (all_groups (si_groups si))" for g
  proof -
    have "(3, fmupd UID_LABEL (mint_uid ''e'' 1) fmempty) |\<in>| grp_metadata_snapshot g \<longleftrightarrow>
        3 < g_entries g \<and> expected (si_live si) 3 = Some (fmupd UID_LABEL (mint_uid ''e'' 1) fmempty)"
      by (rule groups_say_who_holds_a_slot [OF _ run [unfolded start_def] that])
        (simp add: grp_new_def grp_metadata_snapshot_def gm_snapshot_def gm_new_def)
    with \<open>expected (si_live si) 3 = None \<and> _\<close> show ?thesis by simp
  qed
  ultimately show ?thesis
    using run unfolding calls_def start_def by simp
qed

theorem occupants_have_their_own_uids_witness:
  "(let (outs, si, gen) = si_run group_slots ''e'' [Assign 3 fmempty, Release 3] (si_new [grp_new 8], 0);
        (uid, _) = si_assign group_slots ''e'' 3 fmempty (si, gen)
    in uid \<notin> snd ` set outs)"
proof -
  obtain outs si gen where run:
      "si_run group_slots ''e'' [Assign 3 fmempty, Release 3] (si_new [grp_new 8], 0) = (outs, si, gen)"
    by (metis prod_cases3)
  obtain uid si' gen' where call: "si_assign group_slots ''e'' 3 fmempty (si, gen) = (uid, si', gen')"
    by (metis prod_cases3)
  have "fmlookup (si_live si) 3 = None"
    using run by (auto simp: si_new_def si_assign_def assign_locked_def next_uid_def si_release_def Let_def)
  moreover have "fmlookup (si_live si) 3 = Some (fmempty, uid) \<or> uid \<notin> snd ` set outs"
    by (rule occupants_have_their_own_uids [OF _ _ run call, THEN conjunct2])
      (simp_all add: si_new_def)
  ultimately show ?thesis using run call by simp
qed

section \<open>Threads\<close>

text \<open>The write to one group, the \<open>k\<close>-th in the order of \<open>Groups::each\<close>.\<close>

fun at_lists :: "nat \<Rightarrow> ('g \<Rightarrow> 'g) \<Rightarrow> 'g list list \<Rightarrow> 'g list list" where
  "at_lists k f [] = []"
| "at_lists k f (l # ls) =
     (if k < length l then l[k := f (l ! k)] # ls else l # at_lists (k - length l) f ls)"

fun at_group :: "nat \<Rightarrow> ('g \<Rightarrow> 'g) \<Rightarrow> 'g groups \<Rightarrow> 'g groups" where
  "at_group k f (Flat gs) = Flat (gs[k := f (gs ! k)])"
| "at_group k f (Grouped ls) = Grouped (at_lists k f ls)"

record 'g slot_sys =
  sy_groups :: "'g groups"
  sy_live :: occupants
  sy_gen :: u64
  sy_pending :: "nat \<Rightarrow> (nat \<times> slot_write) list"   \<comment> \<open>per thread, the writes its call has left\<close>

definition sys_init :: "'g groups \<Rightarrow> 'g slot_sys" where
  "sys_init gs = \<lparr>sy_groups = gs, sy_live = fmempty, sy_gen = 0, sy_pending = \<lambda>_. []\<rparr>"

definition spread :: "'g slot_sys \<Rightarrow> slot_write option \<Rightarrow> (nat \<times> slot_write) list" where
  "spread s w = (case w of None \<Rightarrow> []
     | Some w \<Rightarrow> map (\<lambda>k. (k, w)) [0..<length (all_groups (sy_groups s))])"

definition slot_idle :: "'g slot_sys \<Rightarrow> nat \<Rightarrow> bool" where
  "slot_idle s slot \<longleftrightarrow> (\<forall>t k w. (k, w) \<in> set (sy_pending s t) \<longrightarrow> slot_of w \<noteq> slot)"

text \<open>The parameter \<open>serial\<close> restricts the callers: no call on a slot starts while another call on it is
  still writing.\<close>

inductive slot_step :: "'g slot_trait \<Rightarrow> string \<Rightarrow> bool \<Rightarrow> 'g slot_sys \<Rightarrow> 'g slot_sys \<Rightarrow> bool"
  for tr :: "'g slot_trait" and epoch :: string and serial :: bool where
  begin_assign: "sy_pending s t = [] \<Longrightarrow> (serial \<Longrightarrow> slot_idle s slot) \<Longrightarrow>
    assign_locked epoch slot labels (sy_live s) (sy_gen s) = (uid, w, live, gen) \<Longrightarrow>
    slot_step tr epoch serial s
      (s\<lparr>sy_live := live, sy_gen := gen, sy_pending := (sy_pending s)(t := spread s w)\<rparr>)"
| begin_release: "sy_pending s t = [] \<Longrightarrow> (serial \<Longrightarrow> slot_idle s slot) \<Longrightarrow>
    slot_step tr epoch serial s
      (s\<lparr>sy_live := fmdrop slot (sy_live s),
         sy_pending := (sy_pending s)(t := spread s (Some (ClearSlot slot)))\<rparr>)"
| write_group: "sy_pending s t = (k, w) # rest \<Longrightarrow>
    slot_step tr epoch serial s
      (s\<lparr>sy_groups := at_group k (write_slot tr w) (sy_groups s),
         sy_pending := (sy_pending s)(t := rest)\<rparr>)"

inductive slot_reach :: "'g slot_trait \<Rightarrow> string \<Rightarrow> bool \<Rightarrow> 'g slot_sys \<Rightarrow> 'g slot_sys \<Rightarrow> bool"
  for tr :: "'g slot_trait" and epoch :: string and serial :: bool and s0 :: "'g slot_sys" where
  slot_start: "slot_reach tr epoch serial s0 s0"
| slot_next: "slot_reach tr epoch serial s0 s \<Longrightarrow> slot_step tr epoch serial s s' \<Longrightarrow>
    slot_reach tr epoch serial s0 s'"

lemma concat_at_lists [simp]:
  "k < length (concat ls) \<Longrightarrow> concat (at_lists k f ls) = (concat ls)[k := f (concat ls ! k)]"
  by (induction ls arbitrary: k) (auto simp: list_update_append nth_append)

lemma all_groups_at [simp]:
  "k < length (all_groups gs) \<Longrightarrow>
    all_groups (at_group k f gs) = (all_groups gs)[k := f (all_groups gs ! k)]"
  by (cases gs) simp_all

text \<open>A write to every group in turn is the write \<open>each\<close> makes, so a call that runs alone does
  what the operations of the first part do.\<close>

lemma fold_at_group:
  "n \<le> length (all_groups gs) \<Longrightarrow>
    all_groups (fold (\<lambda>k. at_group k f) [0..<n] gs) =
      map f (take n (all_groups gs)) @ drop n (all_groups gs)"
proof (induction n)
  case (Suc n)
  let ?gs = "fold (\<lambda>k. at_group k f) [0..<n] gs"
  have IH: "all_groups ?gs = map f (take n (all_groups gs)) @ drop n (all_groups gs)"
    using Suc by simp
  have "n < length (all_groups gs)" using Suc by simp
  then show ?case
    unfolding upt_Suc fold_append
    by (simp add: IH list_update_append nth_append take_Suc_conv_app_nth
        flip: Cons_nth_drop_Suc)
qed simp

lemma writes_in_turn_are_each:
  "all_groups (fold (\<lambda>(k, w). at_group k (write_slot tr w))
      (spread s (Some w)) (sy_groups s)) = all_groups (each (write_slot tr w) (sy_groups s))"
  using fold_at_group [of "length (all_groups (sy_groups s))" "sy_groups s" "write_slot tr w"]
  by (simp add: spread_def fold_map comp_def)

section \<open>One caller per slot\<close>

definition sys_inv :: "'g slot_trait \<Rightarrow> ('g \<Rightarrow> nat) \<Rightarrow> 'g slot_sys \<Rightarrow> bool" where
  "sys_inv tr entries s \<longleftrightarrow>
     (\<forall>t k w. (k, w) \<in> set (sy_pending s t) \<longrightarrow>
        k < length (all_groups (sy_groups s)) \<and> w = write_for (sy_live s) (slot_of w)) \<and>
     (\<forall>k < length (all_groups (sy_groups s)). \<forall>slot.
        (\<forall>md. entries (all_groups (sy_groups s) ! k) \<le> slot \<longrightarrow>
           (slot, md) |\<notin>| metadata_snapshot tr (all_groups (sy_groups s) ! k)) \<and>
        ((\<forall>t w. (k, w) \<in> set (sy_pending s t) \<longrightarrow> slot_of w \<noteq> slot) \<longrightarrow>
           agrees tr entries (sy_live s) slot (all_groups (sy_groups s) ! k)))"

lemma sys_invD:
  assumes "sys_inv tr entries s"
  shows "(k, w) \<in> set (sy_pending s t) \<Longrightarrow> k < length (all_groups (sy_groups s))"
    "(k, w) \<in> set (sy_pending s t) \<Longrightarrow> w = write_for (sy_live s) (slot_of w)"
    "k < length (all_groups (sy_groups s)) \<Longrightarrow> entries (all_groups (sy_groups s) ! k) \<le> slot \<Longrightarrow>
       (slot, md) |\<notin>| metadata_snapshot tr (all_groups (sy_groups s) ! k)"
    "k < length (all_groups (sy_groups s)) \<Longrightarrow>
       (\<And>t w. (k, w) \<in> set (sy_pending s t) \<Longrightarrow> slot_of w \<noteq> slot) \<Longrightarrow>
       agrees tr entries (sy_live s) slot (all_groups (sy_groups s) ! k)"
  using assms unfolding sys_inv_def by blast+

lemma sys_invI:
  assumes "\<And>t k w. (k, w) \<in> set (sy_pending s t) \<Longrightarrow>
        k < length (all_groups (sy_groups s)) \<and> w = write_for (sy_live s) (slot_of w)"
    and "\<And>k slot md. k < length (all_groups (sy_groups s)) \<Longrightarrow>
        entries (all_groups (sy_groups s) ! k) \<le> slot \<Longrightarrow>
        (slot, md) |\<notin>| metadata_snapshot tr (all_groups (sy_groups s) ! k)"
    and "\<And>k slot. k < length (all_groups (sy_groups s)) \<Longrightarrow>
        (\<And>t w. (k, w) \<in> set (sy_pending s t) \<Longrightarrow> slot_of w \<noteq> slot) \<Longrightarrow>
        agrees tr entries (sy_live s) slot (all_groups (sy_groups s) ! k)"
  shows "sys_inv tr entries s"
  using assms unfolding sys_inv_def by blast

text \<open>A call on an idle slot changes what that slot should say and queues exactly that for
  every group.\<close>

lemma begin_call_inv:
  assumes inv: "sys_inv tr entries s" and idle: "slot_idle s slot" and free: "sy_pending s t = []"
    and call: "(w = None \<and> live = sy_live s) \<or> (w = Some (write_for live slot) \<and>
      (\<forall>j. j \<noteq> slot \<longrightarrow> expected live j = expected (sy_live s) j))"
  shows "sys_inv tr entries
    (s\<lparr>sy_live := live, sy_gen := gen, sy_pending := (sy_pending s)(t := spread s w)\<rparr>)"
  using call
proof (elim disjE conjE)
  assume "w = None" "live = sy_live s"
  then have "(sy_pending s)(t := spread s w) = sy_pending s"
    using free by (auto simp: spread_def)
  with \<open>live = sy_live s\<close> inv show ?thesis by (simp add: sys_inv_def)
next
  assume w: "w = Some (write_for live slot)"
    and other: "\<forall>j. j \<noteq> slot \<longrightarrow> expected live j = expected (sy_live s) j"
  have old: "slot_of v \<noteq> slot" if "(k, v) \<in> set (sy_pending s t')" for t' k v
    using idle that unfolding slot_idle_def by blast
  show ?thesis
  proof (rule sys_invI, goal_cases)
    case (1 t' k v)
    show ?case
    proof (cases "t' = t")
      case True
      with 1 show ?thesis by (auto simp: spread_def w)
    next
      case False
      with 1 have v: "(k, v) \<in> set (sy_pending s t')" by simp
      have "write_for live (slot_of v) = write_for (sy_live s) (slot_of v)"
        by (rule write_for_other) (use other old [OF v] in blast)
      with sys_invD(1,2) [OF inv v] show ?thesis by simp
    qed
  next
    case (2 k slot md)
    then show ?case using sys_invD(3) [OF inv, of k slot md] by simp
  next
    case (3 k j)
    have "j \<noteq> slot"
    proof
      assume "j = slot"
      have "(k, write_for live slot) \<in> set (spread s w)" using 3(1) by (auto simp: spread_def w)
      then show False using 3(2) [of "write_for live slot" t] \<open>j = slot\<close> by simp
    qed
    moreover have "agrees tr entries (sy_live s) j (all_groups (sy_groups s) ! k)"
    proof (rule sys_invD(4) [OF inv])
      show "k < length (all_groups (sy_groups s))" using 3(1) by simp
      fix t' v assume "(k, v) \<in> set (sy_pending s t')"
      then show "slot_of v \<noteq> j" using 3(2) [of v t'] free by (cases "t' = t") auto
    qed
    ultimately show ?case using other by (simp add: agrees_cong [of live j "sy_live s"])
  qed
qed


context slot_metadata
begin

lemma write_group_inv:
  assumes inv: "sys_inv tr entries s" and pending: "sy_pending s t = (k, w) # rest"
  shows "sys_inv tr entries
    (s\<lparr>sy_groups := at_group k (write_slot tr w) (sy_groups s),
       sy_pending := (sy_pending s)(t := rest)\<rparr>)"
proof -
  let ?gs = "all_groups (sy_groups s)"
  have k: "k < length ?gs" and w: "w = write_for (sy_live s) (slot_of w)"
    using sys_invD(1,2) [OF inv, of k w t] pending by auto
  have later: "(j, v) \<in> set (sy_pending s t')" if "(j, v) \<in> set (((sy_pending s)(t := rest)) t')" for j v t'
    using that pending by (cases "t' = t") auto
  show ?thesis
  proof (rule sys_invI, goal_cases)
    case (1 t' j v)
    then have "(j, v) \<in> set (sy_pending s t')" by (intro later) simp
    with sys_invD(1,2) [OF inv this] k show ?case by simp
  next
    case (2 j slot md)
    then have "j < length ?gs" "entries (?gs ! j) \<le> slot"
      using k by (auto simp: nth_list_update split: if_splits)
    then have "(slot, md) |\<notin>| metadata_snapshot tr (?gs ! j)" by (rule sys_invD(3) [OF inv])
    with \<open>entries (?gs ! j) \<le> slot\<close> k show ?case
      by (auto simp: nth_list_update dest: write_beyond)
  next
    case (3 j slot)
    then have j: "j < length ?gs" using k by simp
    have rest: "slot_of v \<noteq> slot" if "(j, v) \<in> set (((sy_pending s)(t := rest)) t')" for t' v
      using 3(2) that by simp
    show ?case
    proof (cases "j = k \<and> slot = slot_of w")
      case True
      have "agrees tr entries (sy_live s) (slot_of w)
          (write_slot tr (write_for (sy_live s) (slot_of w)) (?gs ! k))"
        by (rule write_agrees) (use sys_invD(3) [OF inv k] in blast)
      with True k w show ?thesis by simp
    next
      case False
      have "agrees tr entries (sy_live s) slot (?gs ! j)"
      proof (rule sys_invD(4) [OF inv j])
        fix t' v assume v: "(j, v) \<in> set (sy_pending s t')"
        show "slot_of v \<noteq> slot"
        proof (cases "t' = t \<and> (j, v) = (k, w)")
          case True
          with False show ?thesis by auto
        next
          case _: False
          with v pending have "(j, v) \<in> set (((sy_pending s)(t := rest)) t')" by (cases "t' = t") auto
          then show ?thesis by (rule rest)
        qed
      qed
      with False k j show ?thesis by (auto simp: nth_list_update agrees_other)
    qed
  qed
qed

lemma slot_step_inv:
  assumes "slot_step tr epoch True s s'" and "sys_inv tr entries s"
  shows "sys_inv tr entries s'"
  using assms
proof cases
  case (begin_assign t slot labels uid w live gen)
  then show ?thesis
    using begin_call_inv [OF assms(2) _ _ assign_locked_write] by blast
next
  case (begin_release t slot)
  have "ClearSlot slot = write_for (fmdrop slot (sy_live s)) slot" by (simp add: write_for_def)
  then show ?thesis
    using begin_call_inv [OF assms(2), of slot t "Some (ClearSlot slot)" "fmdrop slot (sy_live s)"
        "sy_gen s"] begin_release by simp
next
  case write_group
  then show ?thesis using write_group_inv [OF assms(2)] by simp
qed

lemma slot_reach_inv:
  assumes "slot_reach tr epoch True s0 s" and "sys_inv tr entries s0"
  shows "sys_inv tr entries s"
  using assms by (induction rule: slot_reach.induct) (auto intro: slot_step_inv)

end

text \<open>
  With one caller per slot at a time, readers in any interleaving see every group agree:
  in every state that threads calling \<open>assign\<close> and \<open>release\<close> can reach, every slot no call is
  still writing to has, in every group, the occupant of the live map as its metadata, with its
  uid.
\<close>

theorem idle_slots_agree:
  assumes "\<And>g. g \<in> set (all_groups gs) \<Longrightarrow> grp_metadata_snapshot g = {||}"
    and "slot_reach group_slots epoch True (sys_init gs) s"
    and "slot_idle s slot" and "g \<in> set (all_groups (sy_groups s))"
  shows "(slot, md) |\<in>| grp_metadata_snapshot g \<longleftrightarrow>
    slot < g_entries g \<and> expected (sy_live s) slot = Some md"
proof -
  have "sys_inv group_slots g_entries (sys_init gs)"
    using assms(1) by (intro sys_invI) (auto simp: sys_init_def group_slots_def agrees_def)
  with assms(2) have inv: "sys_inv group_slots g_entries s"
    by (rule group_slots.slot_reach_inv)
  obtain k where "k < length (all_groups (sy_groups s))" "g = all_groups (sy_groups s) ! k"
    using assms(4) by (metis in_set_conv_nth)
  then have "agrees group_slots g_entries (sy_live s) slot g"
    using sys_invD(4) [OF inv, of k slot] assms(3) unfolding slot_idle_def by blast
  then show ?thesis by (simp add: agrees_def group_slots_def)
qed


lemma slot_go:
  "slot_reach tr epoch serial s0 s \<Longrightarrow> slot_step tr epoch serial s s' \<Longrightarrow> s' = s'' \<Longrightarrow>
    slot_reach tr epoch serial s0 s''"
  by (auto intro: slot_next)

lemma snapshot_after_set:
  "(3, m) |\<in>| grp_metadata_snapshot (write_slot group_slots (SetSlot 3 md) g) \<longleftrightarrow>
    (if 3 < g_entries g then m = md else (3, m) |\<in>| grp_metadata_snapshot g)"
  using group_slots.set_snapshot [of 3 m 3 md g] by (simp add: group_slots_def)

theorem idle_slots_agree_witness:
  "\<exists>s g. slot_reach group_slots ''e'' True (sys_init (Flat [grp_new 8])) s \<and> slot_idle s 3 \<and>
     g \<in> set (all_groups (sy_groups s)) \<and>
     (3, fmupd UID_LABEL (mint_uid ''e'' 1) fmempty) |\<in>| grp_metadata_snapshot g"
proof -
  let ?md = "fmupd UID_LABEL (mint_uid ''e'' 1) fmempty"
  let ?live = "fmupd 3 (fmempty, mint_uid ''e'' 1) fmempty"
  let ?s = "\<lparr>sy_groups = Flat [write_slot group_slots (SetSlot 3 ?md) (grp_new 8)],
      sy_live = ?live, sy_gen = 1, sy_pending = \<lambda>_. []\<rparr>"
  let ?reach = "slot_reach group_slots ''e'' True (sys_init (Flat [grp_new 8]))"
  have "?reach \<lparr>sy_groups = Flat [grp_new 8], sy_live = ?live, sy_gen = 1,
      sy_pending = (\<lambda>_. [])(0 := [(0, SetSlot 3 ?md)])\<rparr>"
    by (rule slot_go [OF slot_start], rule begin_assign [where t = 0 and slot = 3 and labels = fmempty],
      simp add: sys_init_def, simp add: sys_init_def slot_idle_def,
      simp add: sys_init_def assign_locked_def next_uid_def, simp add: sys_init_def spread_def)
  then have reach: "?reach ?s"
    by (rule slot_go) (rule write_group [where t = 0], simp, simp add: fun_eq_iff)
  have "(3, ?md) |\<in>| grp_metadata_snapshot (write_slot group_slots (SetSlot 3 ?md) (grp_new 8)) \<longleftrightarrow>
      3 < g_entries (write_slot group_slots (SetSlot 3 ?md) (grp_new 8)) \<and>
      expected (sy_live ?s) 3 = Some ?md"
    by (rule idle_slots_agree [OF _ reach])
      (simp_all add: slot_idle_def grp_metadata_snapshot_def gm_snapshot_def grp_new_def gm_new_def)
  then have said: "(3, ?md) |\<in>| grp_metadata_snapshot (write_slot group_slots (SetSlot 3 ?md) (grp_new 8))"
    by (simp add: group_slots.set_entries)
  show ?thesis
    by (intro exI conjI, rule reach) (use said in \<open>simp_all add: slot_idle_def\<close>)
qed

text \<open>
  Without that restriction the groups can be left disagreeing with the identity for
  good: \<open>assign\<close> writes to the groups after it has dropped the lock, so of two threads that
  assign the same slot the one that took the slot first can write last. The system below is at rest,
  the identity says that the slot holds the second occupant, and the group's metadata names
  the first one, with the first one's uid.
\<close>

theorem racing_assigns_leave_the_old_occupant:
  "\<exists>s g. slot_reach group_slots ''e'' False (sys_init (Flat [grp_new 8])) s \<and>
     (\<forall>t. sy_pending s t = []) \<and>
     fmlookup (sy_live s) 3 = Some (fmupd ''comm'' ''b'' fmempty, mint_uid ''e'' 2) \<and>
     sy_groups s = Flat [g] \<and>
     (3, fmupd UID_LABEL (mint_uid ''e'' 1) (fmupd ''comm'' ''a'' fmempty)) |\<in>| grp_metadata_snapshot g"
proof -
  let ?a = "fmupd ''comm'' ''a'' fmempty" and ?b = "fmupd ''comm'' ''b'' fmempty"
  let ?wa = "SetSlot 3 (fmupd UID_LABEL (mint_uid ''e'' 1) ?a)"
  let ?wb = "SetSlot 3 (fmupd UID_LABEL (mint_uid ''e'' 2) ?b)"
  let ?live = "fmupd 3 (?b, mint_uid ''e'' 2) (fmupd 3 (?a, mint_uid ''e'' 1) fmempty)"
  let ?s = "\<lparr>sy_groups = Flat [write_slot group_slots ?wa (write_slot group_slots ?wb (grp_new 8))],
      sy_live = ?live, sy_gen = 2, sy_pending = \<lambda>_. []\<rparr>"
  let ?reach = "slot_reach group_slots ''e'' False (sys_init (Flat [grp_new 8]))"
  have ab: "?a \<noteq> ?b" by (auto dest: arg_cong [of _ _ "\<lambda>m. fmlookup m ''comm''"])
  have "?reach \<lparr>sy_groups = Flat [grp_new 8], sy_live = fmupd 3 (?a, mint_uid ''e'' 1) fmempty,
      sy_gen = 1, sy_pending = (\<lambda>_. [])(0 := [(0, ?wa)])\<rparr>"
    by (rule slot_go [OF slot_start], rule begin_assign [where t = 0 and slot = 3 and labels = ?a],
      simp add: sys_init_def, simp,
      simp add: sys_init_def assign_locked_def next_uid_def, simp add: sys_init_def spread_def)
  then have "?reach \<lparr>sy_groups = Flat [grp_new 8], sy_live = ?live,
      sy_gen = 2, sy_pending = (\<lambda>_. [])(0 := [(0, ?wa)], 1 := [(0, ?wb)])\<rparr>"
    by (rule slot_go) (rule begin_assign [where t = 1 and slot = 3 and labels = ?b],
      simp, simp, simp add: ab assign_locked_def next_uid_def, simp add: spread_def)
  then have "?reach \<lparr>sy_groups = Flat [write_slot group_slots ?wb (grp_new 8)], sy_live = ?live,
      sy_gen = 2, sy_pending = (\<lambda>_. [])(0 := [(0, ?wa)])\<rparr>"
    by (rule slot_go) (rule write_group [where t = 1], simp, simp add: fun_eq_iff)
  then have reach: "?reach ?s"
    by (rule slot_go) (rule write_group [where t = 0], simp, simp add: fun_eq_iff)
  show ?thesis
    by (rule exI [of _ ?s], rule exI [of _ "write_slot group_slots ?wa (write_slot group_slots ?wb (grp_new 8))"],
        intro conjI, rule reach) (simp_all add: snapshot_after_set del: write_slot.simps)
qed

end
