(* ===== verification/Families.thy ===== *)
theory Families
  imports Uid SlotId
begin

text \<open>
  Families (\<open>metriken/src/family.rs\<close>): one metric whose members are created and dropped at run
  time. The table gives a member a slot, the slot of a dropped member first, and a member's handle
  and its slot share one atomic. The model keeps the atomics in a store, so that sharing is
  a cell number held by both.

  \<open>CounterFamily\<close> and \<open>GaugeFamily\<close> are the same operations on \<open>u64\<close> and \<open>i64\<close> words; they differ
  in the value an empty slot reads as and in the updates their handles offer. Every table operation is made under the
  family's lock, and every update of a member is one atomic operation.
\<close>

section \<open>The table\<close>

record table =
  tb_slots :: "(smap \<times> nat) option list"   \<comment> \<open>labels, and the number of the member's cell\<close>
  tb_free :: "nat list"                     \<comment> \<open>in the \<open>Vec\<close>'s order: the last is popped first\<close>
  tb_live :: nat
  tb_version :: u64

datatype table_panic = SlotOutOfBounds

definition tb_new :: table where
  "tb_new = \<lparr>tb_slots = [], tb_free = [], tb_live = 0, tb_version = 0\<rparr>"

definition tb_insert :: "smap \<Rightarrow> nat \<Rightarrow> table \<Rightarrow> (table_panic + nat) \<times> table" where
  "tb_insert labels cell t =
     (let slot = (labels, cell) in
      if tb_free t \<noteq> []
      then
        (let idx = last (tb_free t); t1 = t\<lparr>tb_free := butlast (tb_free t)\<rparr>
         in if idx < length (tb_slots t1)
            then (Inr idx, t1\<lparr>tb_slots := (tb_slots t1)[idx := Some slot],
                    tb_live := tb_live t1 + 1, tb_version := tb_version t1 + 1\<rparr>)
            else (Inl SlotOutOfBounds, t1))
      else
        (let t1 = t\<lparr>tb_slots := tb_slots t @ [Some slot]\<rparr>
         in (Inr (length (tb_slots t1) - 1),
             t1\<lparr>tb_live := tb_live t1 + 1, tb_version := tb_version t1 + 1\<rparr>)))"

definition tb_remove :: "nat \<Rightarrow> table \<Rightarrow> (table_panic + unit) \<times> table" where
  "tb_remove idx t =
     (if length (tb_slots t) \<le> idx then (Inl SlotOutOfBounds, t)
      else if tb_slots t ! idx \<noteq> None
      then (Inr (), t\<lparr>tb_slots := (tb_slots t)[idx := None], tb_free := tb_free t @ [idx],
              tb_live := tb_live t - 1, tb_version := tb_version t + 1\<rparr>)
      else (Inr (), t))"

section \<open>Members and their handles\<close>

record family =
  fam_table :: table
  fam_cells :: "nat \<Rightarrow> u64"   \<comment> \<open>the atomics\<close>
  fam_next :: nat             \<comment> \<open>the number of the next atomic\<close>

record member =
  m_idx :: nat
  m_cell :: nat

definition fam_new :: family where
  "fam_new = \<lparr>fam_table = tb_new, fam_cells = (\<lambda>_. 0), fam_next = 0\<rparr>"

text \<open>\<open>collect\<close> into a \<open>HashMap\<close>: the last of equal keys wins.\<close>

definition collect_map :: "(string \<times> string) list \<Rightarrow> smap" where
  "collect_map kvs = fold (\<lambda>(k, v) m. fmupd k v m) kvs fmempty"

definition fam_create :: "string \<Rightarrow> (string \<times> string) list \<Rightarrow> u64 \<Rightarrow> family \<times> u64 \<Rightarrow>
    (table_panic + member) \<times> family \<times> u64" where
  "fam_create epoch labels v0 = (\<lambda>(fam, gen).
     let (uid, gen') = next_uid epoch gen;
         labels = fmupd UID_LABEL uid (collect_map labels);
         cell = fam_next fam;
         fam = fam\<lparr>fam_cells := (fam_cells fam)(cell := v0), fam_next := cell + 1\<rparr>;
         (r, t) = tb_insert labels cell (fam_table fam)
     in (map_sum id (\<lambda>idx. \<lparr>m_idx = idx, m_cell = cell\<rparr>) r, fam\<lparr>fam_table := t\<rparr>, gen'))"

definition fam_entries :: "family \<Rightarrow> nat" where
  "fam_entries fam = length (tb_slots (fam_table fam))"

definition fam_len :: "family \<Rightarrow> nat" where
  "fam_len fam = tb_live (fam_table fam)"

definition fam_version :: "family \<Rightarrow> u64" where
  "fam_version fam = tb_version (fam_table fam)"

definition fam_slot :: "family \<Rightarrow> nat \<Rightarrow> (smap \<times> nat) option" where
  "fam_slot fam idx =
     (if idx < length (tb_slots (fam_table fam)) then tb_slots (fam_table fam) ! idx else None)"

definition fam_cell :: "family \<Rightarrow> nat \<Rightarrow> nat option" where
  "fam_cell fam idx = map_option snd (fam_slot fam idx)"

definition fam_labels :: "family \<Rightarrow> nat \<Rightarrow> smap option" where
  "fam_labels fam idx = map_option fst (fam_slot fam idx)"

definition fam_all_labels :: "family \<Rightarrow> (nat \<times> smap) list" where
  "fam_all_labels fam =
     List.map_filter (\<lambda>(i, s). map_option (\<lambda>s. (i, fst s)) s)
       (enumerate 0 (tb_slots (fam_table fam)))"

definition fam_load :: "u64 \<Rightarrow> family \<Rightarrow> u64 list" where
  "fam_load vacant fam =
     map (\<lambda>s. case s of None \<Rightarrow> vacant | Some s \<Rightarrow> fam_cells fam (snd s)) (tb_slots (fam_table fam))"

text \<open>The handles. \<open>drop\<close> takes the handle, so the caller has it no more.\<close>

definition member_add :: "member \<Rightarrow> u64 \<Rightarrow> family \<Rightarrow> u64 \<times> family" where
  "member_add m v fam =
     (fam_cells fam (m_cell m),
      fam\<lparr>fam_cells := (fam_cells fam)(m_cell m := fam_cells fam (m_cell m) + v)\<rparr>)"

definition member_increment :: "member \<Rightarrow> family \<Rightarrow> u64 \<times> family" where
  "member_increment m fam = member_add m 1 fam"

definition member_set :: "member \<Rightarrow> i64 \<Rightarrow> family \<Rightarrow> i64 \<times> family" where
  "member_set m v fam =
     (fam_cells fam (m_cell m), fam\<lparr>fam_cells := (fam_cells fam)(m_cell m := v)\<rparr>)"

definition member_value :: "member \<Rightarrow> family \<Rightarrow> u64" where
  "member_value m fam = fam_cells fam (m_cell m)"

definition member_slot :: "member \<Rightarrow> nat" where
  "member_slot m = m_idx m"

definition member_drop :: "member \<Rightarrow> family \<Rightarrow> (table_panic + unit) \<times> family" where
  "member_drop m fam =
     (let (r, t) = tb_remove (m_idx m) (fam_table fam) in (r, fam\<lparr>fam_table := t\<rparr>))"

text \<open>What a group reader asks of a family.\<close>

definition fam_value :: "family \<Rightarrow> nat \<Rightarrow> u64 option" where
  "fam_value fam idx = map_option (fam_cells fam) (fam_cell fam idx)"

definition cf_member :: "string \<Rightarrow> (string \<times> string) list \<Rightarrow> family \<times> u64 \<Rightarrow>
    (table_panic + member) \<times> family \<times> u64" where
  "cf_member epoch labels = fam_create epoch labels 0"

definition cf_load_counters :: "family \<Rightarrow> u64 list" where
  "cf_load_counters = fam_load u64_max"

definition gf_member :: "string \<Rightarrow> (string \<times> string) list \<Rightarrow> family \<times> u64 \<Rightarrow>
    (table_panic + member) \<times> family \<times> u64" where
  "gf_member epoch labels = fam_create epoch labels 0"

definition gf_load_gauges :: "family \<Rightarrow> i64 list" where
  "gf_load_gauges = fam_load i64_min"

section \<open>A program over a family\<close>

text \<open>
  The handles a program has made, by the order it made them; \<open>None\<close> once dropped. The borrow
  checker keeps a program from using a handle it dropped, so those calls do nothing here.
\<close>

datatype fam_call = Create "(string \<times> string) list" | Add nat u64 | Put nat i64 | Drop nat

record fam_sys =
  fs_fam :: family
  fs_gen :: u64
  fs_handles :: "member option list"

definition fs_init :: "u64 \<Rightarrow> fam_sys" where
  "fs_init gen = \<lparr>fs_fam = fam_new, fs_gen = gen, fs_handles = []\<rparr>"

definition handle :: "fam_sys \<Rightarrow> nat \<Rightarrow> member option" where
  "handle s n = (if n < length (fs_handles s) then fs_handles s ! n else None)"

fun fam_apply :: "string \<Rightarrow> fam_call \<Rightarrow> fam_sys \<Rightarrow> table_panic + fam_sys" where
  "fam_apply epoch (Create labels) s =
     (case fam_create epoch labels 0 (fs_fam s, fs_gen s) of
        (Inl e, _) \<Rightarrow> Inl e
      | (Inr m, fam, gen) \<Rightarrow>
          Inr \<lparr>fs_fam = fam, fs_gen = gen, fs_handles = fs_handles s @ [Some m]\<rparr>)"
| "fam_apply epoch (Add n v) s =
     (case handle s n of None \<Rightarrow> Inr s | Some m \<Rightarrow> Inr (s\<lparr>fs_fam := snd (member_add m v (fs_fam s))\<rparr>))"
| "fam_apply epoch (Put n v) s =
     (case handle s n of None \<Rightarrow> Inr s | Some m \<Rightarrow> Inr (s\<lparr>fs_fam := snd (member_set m v (fs_fam s))\<rparr>))"
| "fam_apply epoch (Drop n) s =
     (case handle s n of
        None \<Rightarrow> Inr s
      | Some m \<Rightarrow>
          (case member_drop m (fs_fam s) of
             (Inl e, _) \<Rightarrow> Inl e
           | (Inr _, fam) \<Rightarrow> Inr (s\<lparr>fs_fam := fam, fs_handles := (fs_handles s)[n := None]\<rparr>)))"

fun fam_run :: "string \<Rightarrow> fam_call list \<Rightarrow> fam_sys \<Rightarrow> table_panic + fam_sys" where
  "fam_run epoch [] s = Inr s"
| "fam_run epoch (c # cs) s =
     (case fam_apply epoch c s of Inl e \<Rightarrow> Inl e | Inr s' \<Rightarrow> fam_run epoch cs s')"

text \<open>The specification: each member by itself, its labels and its value.\<close>

fun member_spec :: "string \<Rightarrow> fam_call \<Rightarrow> (smap \<times> u64) option list \<times> u64 \<Rightarrow>
    (smap \<times> u64) option list \<times> u64" where
  "member_spec epoch (Create labels) (ms, gen) =
     (ms @ [Some (fmupd UID_LABEL (mint_uid epoch (gen + 1)) (collect_map labels), 0)], gen + 1)"
| "member_spec epoch (Add n v) (ms, gen) =
     ((if n < length ms then ms[n := map_option (\<lambda>(l, x). (l, x + v)) (ms ! n)] else ms), gen)"
| "member_spec epoch (Put n v) (ms, gen) =
     ((if n < length ms then ms[n := map_option (\<lambda>(l, x). (l, v)) (ms ! n)] else ms), gen)"
| "member_spec epoch (Drop n) (ms, gen) = (ms[n := None], gen)"

section \<open>The invariant\<close>

definition live_of :: "'a option list \<Rightarrow> nat" where
  "live_of xs = length (filter (\<lambda>x. x \<noteq> None) xs)"

lemma live_of_simps [simp]:
  "live_of [] = 0" "live_of (xs @ ys) = live_of xs + live_of ys"
  "live_of (Some x # xs) = Suc (live_of xs)" "live_of (None # xs) = live_of xs"
  by (simp_all add: live_of_def)

lemma live_of_fill: "i < length xs \<Longrightarrow> xs ! i = None \<Longrightarrow> live_of (xs[i := Some x]) = Suc (live_of xs)"
proof (induction xs arbitrary: i)
  case (Cons y xs)
  then show ?case by (cases i; cases y) simp_all
qed simp

lemma live_of_clear: "i < length xs \<Longrightarrow> xs ! i = Some x \<Longrightarrow> Suc (live_of (xs[i := None])) = live_of xs"
proof (induction xs arbitrary: i)
  case (Cons y xs)
  then show ?case by (cases i; cases y) simp_all
qed simp

lemma live_of_full: "(\<forall>i < length xs. xs ! i \<noteq> None) \<longleftrightarrow> live_of xs = length xs"
proof (induction xs)
  case (Cons y xs)
  have le: "live_of xs \<le> length xs" by (simp add: live_of_def)
  have "(\<forall>i < length (y # xs). (y # xs) ! i \<noteq> None) \<longleftrightarrow> y \<noteq> None \<and> (\<forall>i < length xs. xs ! i \<noteq> None)"
    by (auto simp: less_Suc_eq_0_disj)
  with Cons le show ?case by (cases y) auto
qed simp

lemma live_of_le: "live_of xs \<le> length xs"
  by (simp add: live_of_def)

text \<open>The free list holds every empty slot once, and \<open>live\<close> counts the others.\<close>

definition table_inv :: "table \<Rightarrow> bool" where
  "table_inv t \<longleftrightarrow> distinct (tb_free t) \<and>
     set (tb_free t) = {i. i < length (tb_slots t) \<and> tb_slots t ! i = None} \<and>
     tb_live t = live_of (tb_slots t)"

lemma table_inv_new: "table_inv tb_new"
  by (simp add: table_inv_def tb_new_def)

text \<open>An insert returns a slot that was empty or is the next, and changes no other slot.\<close>

lemma tb_insert_correct:
  assumes "table_inv t"
  obtains idx t' where "tb_insert labels cell t = (Inr idx, t')" "table_inv t'"
    "idx < length (tb_slots t) \<and> tb_slots t ! idx = None \<and> tb_slots t' = (tb_slots t)[idx := Some (labels, cell)] \<or>
     idx = length (tb_slots t) \<and> live_of (tb_slots t) = length (tb_slots t) \<and>
       tb_slots t' = tb_slots t @ [Some (labels, cell)]"
    "tb_version t' = tb_version t + 1"
proof (cases "tb_free t = []")
  case True
  let ?t = "t\<lparr>tb_slots := tb_slots t @ [Some (labels, cell)], tb_live := tb_live t + 1,
      tb_version := tb_version t + 1\<rparr>"
  have "tb_insert labels cell t = (Inr (length (tb_slots t)), ?t)"
    using True by (simp add: tb_insert_def)
  moreover have "table_inv ?t"
    using assms True by (auto simp: table_inv_def nth_append less_Suc_eq)
  moreover have "live_of (tb_slots t) = length (tb_slots t)"
    using assms True live_of_full [of "tb_slots t"] by (auto simp: table_inv_def)
  ultimately show ?thesis using that [of "length (tb_slots t)" ?t] by simp
next
  case False
  let ?idx = "last (tb_free t)"
  let ?t = "t\<lparr>tb_free := butlast (tb_free t), tb_slots := (tb_slots t)[?idx := Some (labels, cell)],
      tb_live := tb_live t + 1, tb_version := tb_version t + 1\<rparr>"
  have "?idx \<in> set (tb_free t)" using False by simp
  then have idx: "?idx < length (tb_slots t)" "tb_slots t ! ?idx = None"
    using assms by (auto simp: table_inv_def)
  have "tb_insert labels cell t = (Inr ?idx, ?t)"
    using False idx by (simp add: tb_insert_def Let_def)
  moreover have "table_inv ?t"
  proof -
    have free: "tb_free t = butlast (tb_free t) @ [?idx]" using False by simp
    then have "distinct (butlast (tb_free t) @ [?idx])" "set (butlast (tb_free t) @ [?idx]) =
        {i. i < length (tb_slots t) \<and> tb_slots t ! i = None}"
      using assms by (simp_all add: table_inv_def)
    then have "set (butlast (tb_free t)) =
        {i. i < length (tb_slots t) \<and> tb_slots t ! i = None} - {?idx}" by auto
    then show ?thesis
      using assms idx by (auto simp: table_inv_def distinct_butlast nth_list_update live_of_fill)
  qed
  ultimately show ?thesis by (rule that) (simp_all add: idx)
qed

lemma tb_remove_correct:
  assumes "table_inv t" and "idx < length (tb_slots t)" and "tb_slots t ! idx = Some x"
  obtains t' where "tb_remove idx t = (Inr (), t')" "table_inv t'"
    "tb_slots t' = (tb_slots t)[idx := None]" "tb_version t' = tb_version t + 1"
proof -
  let ?t = "t\<lparr>tb_slots := (tb_slots t)[idx := None], tb_free := tb_free t @ [idx],
      tb_live := tb_live t - 1, tb_version := tb_version t + 1\<rparr>"
  have "tb_remove idx t = (Inr (), ?t)" using assms by (simp add: tb_remove_def)
  moreover have "table_inv ?t"
  proof -
    have free: "distinct (tb_free t)" "set (tb_free t) =
        {i. i < length (tb_slots t) \<and> tb_slots t ! i = None}"
      using assms(1) by (simp_all add: table_inv_def)
    have "{i. i < length (tb_slots t) \<and> (tb_slots t)[idx := None] ! i = None} =
        insert idx {i. i < length (tb_slots t) \<and> tb_slots t ! i = None}"
      using assms(2) by (auto simp: nth_list_update)
    moreover have "tb_live t - 1 = live_of ((tb_slots t)[idx := None])"
      using assms(1) live_of_clear [OF assms(2,3)] by (simp add: table_inv_def)
    moreover have "idx \<notin> set (tb_free t)" using free(2) assms(3) by simp
    ultimately show ?thesis using free by (simp add: table_inv_def)
  qed
  ultimately show ?thesis by (rule that) simp_all
qed

text \<open>The handles a program holds and the family's members correspond, and each member's
  value and labels are the ones the specification gives it.\<close>

fun member_ok :: "family \<Rightarrow> member option \<Rightarrow> (smap \<times> u64) option \<Rightarrow> bool" where
  "member_ok fam None None = True"
| "member_ok fam (Some m) (Some (labels, v)) \<longleftrightarrow>
     fam_slot fam (m_idx m) = Some (labels, m_cell m) \<and> fam_cells fam (m_cell m) = v \<and>
     m_cell m < fam_next fam"
| "member_ok fam _ _ = False"

definition handles_apart :: "fam_sys \<Rightarrow> bool" where
  "handles_apart s \<longleftrightarrow>
     (\<forall>n n' m m'. handle s n = Some m \<longrightarrow> handle s n' = Some m' \<longrightarrow> n \<noteq> n' \<longrightarrow>
        m_idx m \<noteq> m_idx m' \<and> m_cell m \<noteq> m_cell m')"

definition slots_held :: "fam_sys \<Rightarrow> bool" where
  "slots_held s \<longleftrightarrow>
     (\<forall>i x. fam_slot (fs_fam s) i = Some x \<longrightarrow> (\<exists>n m. handle s n = Some m \<and> m_idx m = i))"

definition fam_inv :: "fam_sys \<Rightarrow> (smap \<times> u64) option list \<Rightarrow> u64 \<Rightarrow> nat \<Rightarrow> bool" where
  "fam_inv s ms gen peak \<longleftrightarrow>
     table_inv (fam_table (fs_fam s)) \<and> fs_gen s = gen \<and>
     length (fs_handles s) = length ms \<and>
     (\<forall>n < length ms. member_ok (fs_fam s) (fs_handles s ! n) (ms ! n)) \<and>
     handles_apart s \<and> slots_held s \<and>
     fam_entries (fs_fam s) = peak \<and>
     fam_len (fs_fam s) = live_of ms \<and>
     fam_version (fs_fam s) = of_nat (2 * length ms - live_of ms)"

lemma handle_in: "handle s n = Some m \<Longrightarrow> n < length (fs_handles s) \<and> fs_handles s ! n = Some m"
  by (simp add: handle_def split: if_splits)

lemma handlesD:
  assumes "handles_apart s" "handle s n = Some m" "handle s n' = Some m'" "n \<noteq> n'"
  shows "m_idx m \<noteq> m_idx m'" "m_cell m \<noteq> m_cell m'"
  using assms unfolding handles_apart_def by blast+

lemma member_ok_cases:
  assumes "member_ok fam h e"
  obtains "h = None" "e = None" | m labels v where "h = Some m" "e = Some (labels, v)"
    "fam_slot fam (m_idx m) = Some (labels, m_cell m)" "fam_cells fam (m_cell m) = v"
    "m_cell m < fam_next fam"
  using assms by (cases "(fam, h, e)" rule: member_ok.cases) auto

lemma fam_inv_init: "fam_inv (fs_init gen) [] gen 0"
  using table_inv_new
  by (simp add: fam_inv_def fs_init_def fam_new_def handles_apart_def slots_held_def
      handle_def fam_slot_def fam_entries_def fam_len_def fam_version_def tb_new_def)

text \<open>An update of one member's atomic.\<close>

lemma update_inv:
  assumes inv: "fam_inv s ms gen peak" and m: "handle s n = Some m"
    and e: "ms ! n = Some (labels, v)"
  shows "fam_inv (s\<lparr>fs_fam := (fs_fam s)\<lparr>fam_cells := (fam_cells (fs_fam s))(m_cell m := v')\<rparr>\<rparr>)
    (ms[n := Some (labels, v')]) gen peak"
proof -
  let ?fam = "(fs_fam s)\<lparr>fam_cells := (fam_cells (fs_fam s))(m_cell m := v')\<rparr>"
  let ?s = "s\<lparr>fs_fam := ?fam\<rparr>"
  have handles: "handle ?s = handle s" by (simp add: handle_def fun_eq_iff)
  have slots: "fam_slot ?fam = fam_slot (fs_fam s)" by (simp add: fam_slot_def fun_eq_iff)
  have n: "n < length ms" "fs_handles s ! n = Some m"
    using inv handle_in [OF m] by (auto simp: fam_inv_def)
  have ok: "\<forall>j < length ms. member_ok (fs_fam s) (fs_handles s ! j) (ms ! j)"
    using inv by (simp add: fam_inv_def)
  have "member_ok ?fam (fs_handles s ! j) (ms[n := Some (labels, v')] ! j)" if j: "j < length ms" for j
  proof (cases "j = n")
    case True
    with ok n e show ?thesis by (auto simp: slots)
  next
    case False
    from ok j have "member_ok (fs_fam s) (fs_handles s ! j) (ms ! j)" by blast
    then show ?thesis
    proof (cases rule: member_ok_cases)
      case (2 m' labels' v)
      have "handle s j = Some m'" using inv j 2(1) by (simp add: handle_def fam_inv_def)
      then have "m_cell m' \<noteq> m_cell m"
        using handlesD(2) [OF _ _ m] False inv unfolding fam_inv_def by metis
      with 2 False show ?thesis by (simp add: slots)
    qed (use False in simp)
  qed
  moreover have "live_of (ms[n := Some (labels, v')]) = live_of ms"
    using live_of_clear [OF n(1) e] live_of_fill [of n "ms[n := None]" "(labels, v')"] n(1)
    by simp
  ultimately show ?thesis
    using inv unfolding fam_inv_def handles_apart_def slots_held_def
    by (simp add: handles slots fam_entries_def fam_len_def fam_version_def)
qed

text \<open>Dropping a handle.\<close>

lemma drop_inv:
  assumes inv: "fam_inv s ms gen peak" and m: "handle s n = Some m"
  shows "\<exists>fam. member_drop m (fs_fam s) = (Inr (), fam) \<and>
    fam_inv (s\<lparr>fs_fam := fam, fs_handles := (fs_handles s)[n := None]\<rparr>) (ms[n := None]) gen peak"
proof -
  have n: "n < length ms" "fs_handles s ! n = Some m"
    using inv handle_in [OF m] by (auto simp: fam_inv_def)
  have ok: "\<forall>j < length ms. member_ok (fs_fam s) (fs_handles s ! j) (ms ! j)"
    using inv by (simp add: fam_inv_def)
  then have "member_ok (fs_fam s) (Some m) (ms ! n)" using n by fastforce
  then obtain labels v where e: "ms ! n = Some (labels, v)"
      and slot: "fam_slot (fs_fam s) (m_idx m) = Some (labels, m_cell m)"
    by (cases rule: member_ok_cases) auto
  let ?t = "fam_table (fs_fam s)"
  have idx: "m_idx m < length (tb_slots ?t)" "tb_slots ?t ! m_idx m = Some (labels, m_cell m)"
    using slot by (auto simp: fam_slot_def split: if_splits)
  have tinv: "table_inv ?t" using inv by (simp add: fam_inv_def)
  obtain t' where t': "tb_remove (m_idx m) ?t = (Inr (), t')" "table_inv t'"
      "tb_slots t' = (tb_slots ?t)[m_idx m := None]" "tb_version t' = tb_version ?t + 1"
    by (rule tb_remove_correct [OF tinv idx])
  let ?fam = "(fs_fam s)\<lparr>fam_table := t'\<rparr>"
  let ?s = "s\<lparr>fs_fam := ?fam, fs_handles := (fs_handles s)[n := None]\<rparr>"
  have slots: "fam_slot ?fam i = (if i = m_idx m then None else fam_slot (fs_fam s) i)" for i
    using idx by (auto simp: fam_slot_def t')
  have handles: "handle ?s j = (if j = n then None else handle s j)" for j
    using n inv by (auto simp: handle_def fam_inv_def)
  have apart: "handles_apart s" and held: "slots_held s" using inv by (simp_all add: fam_inv_def)
  have "member_ok ?fam ((fs_handles s)[n := None] ! j) (ms[n := None] ! j)" if j: "j < length ms" for j
  proof (cases "j = n")
    case True
    with j inv show ?thesis by (simp add: fam_inv_def)
  next
    case False
    from ok j have "member_ok (fs_fam s) (fs_handles s ! j) (ms ! j)" by blast
    then show ?thesis
    proof (cases rule: member_ok_cases)
      case (2 m' labels' v)
      have "handle s j = Some m'" using inv j 2(1) by (simp add: handle_def fam_inv_def)
      then have "m_idx m' \<noteq> m_idx m" using handlesD(1) [OF apart _ m] False by blast
      with 2 False show ?thesis by (simp add: slots)
    qed (use False in simp)
  qed
  moreover have "handles_apart ?s"
    unfolding handles_apart_def handles using apart unfolding handles_apart_def by simp
  moreover have "slots_held ?s"
    unfolding slots_held_def
  proof (intro allI impI)
    fix i x assume "fam_slot (fs_fam ?s) i = Some x"
    then have "i \<noteq> m_idx m" "fam_slot (fs_fam s) i = Some x" by (auto simp: slots split: if_splits)
    then obtain k m' where "handle s k = Some m'" "m_idx m' = i"
      using held unfolding slots_held_def by blast
    moreover from this have "k \<noteq> n" using m \<open>i \<noteq> m_idx m\<close> by auto
    ultimately show "\<exists>k m. handle ?s k = Some m \<and> m_idx m = i" by (auto simp: handles)
  qed
  moreover have live: "Suc (live_of (ms[n := None])) = live_of ms" by (rule live_of_clear [OF n(1) e])
  moreover have "fam_version ?fam = of_nat (2 * length ms - live_of (ms[n := None]))"
  proof -
    have "2 * length ms - live_of (ms[n := None]) = Suc (2 * length ms - live_of ms)"
      using live live_of_le [of ms] by simp
    then show ?thesis using inv by (simp add: fam_inv_def fam_version_def t')
  qed
  moreover have "fam_len ?fam = live_of (ms[n := None])"
  proof -
    have "Suc (live_of (tb_slots t')) = live_of (tb_slots ?t)"
      unfolding t'(3) by (rule live_of_clear [OF idx])
    then show ?thesis
      using inv live t'(2) by (simp add: fam_inv_def fam_len_def table_inv_def)
  qed
  ultimately have "fam_inv ?s (ms[n := None]) gen peak"
    using inv t'(2,3) by (simp add: fam_inv_def fam_entries_def)
  then show ?thesis by (simp add: member_drop_def t'(1))
qed

text \<open>Creating a member.\<close>

lemma create_inv:
  fixes epoch labels
  assumes inv: "fam_inv s ms gen peak"
  defines "lab \<equiv> fmupd UID_LABEL (mint_uid epoch (gen + 1)) (collect_map labels)"
  shows "\<exists>m fam. fam_create epoch labels 0 (fs_fam s, fs_gen s) = (Inr m, fam, gen + 1) \<and>
    fam_inv \<lparr>fs_fam = fam, fs_gen = gen + 1, fs_handles = fs_handles s @ [Some m]\<rparr>
      (ms @ [Some (lab, 0)]) (gen + 1) (max peak (live_of ms + 1))"
proof -
  let ?t = "fam_table (fs_fam s)"
  let ?cell = "fam_next (fs_fam s)"
  have tinv: "table_inv ?t" using inv by (simp add: fam_inv_def)
  obtain idx t' where t': "tb_insert lab ?cell ?t = (Inr idx, t')" "table_inv t'"
      and place: "idx < length (tb_slots ?t) \<and> tb_slots ?t ! idx = None \<and>
          tb_slots t' = (tb_slots ?t)[idx := Some (lab, ?cell)] \<or>
        idx = length (tb_slots ?t) \<and> live_of (tb_slots ?t) = length (tb_slots ?t) \<and>
          tb_slots t' = tb_slots ?t @ [Some (lab, ?cell)]"
      and version: "tb_version t' = tb_version ?t + 1"
    by (rule tb_insert_correct [OF tinv])
  let ?m = "\<lparr>m_idx = idx, m_cell = ?cell\<rparr>"
  let ?fam = "\<lparr>fam_table = t', fam_cells = (fam_cells (fs_fam s))(?cell := 0), fam_next = Suc ?cell\<rparr>"
  let ?s = "\<lparr>fs_fam = ?fam, fs_gen = gen + 1, fs_handles = fs_handles s @ [Some ?m]\<rparr>"
  have create: "fam_create epoch labels 0 (fs_fam s, fs_gen s) = (Inr ?m, ?fam, gen + 1)"
    using inv t'(1) by (simp add: fam_create_def next_uid_def Let_def lab_def fam_inv_def)
  have empty: "fam_slot (fs_fam s) idx = None" using place by (auto simp: fam_slot_def)
  have slots: "fam_slot ?fam i = (if i = idx then Some (lab, ?cell) else fam_slot (fs_fam s) i)" for i
    using place by (auto simp: fam_slot_def nth_append)
  have len: "length (fs_handles s) = length ms"
      and ok: "\<And>j. j < length ms \<Longrightarrow> member_ok (fs_fam s) (fs_handles s ! j) (ms ! j)"
      and apart: "handles_apart s" and held: "slots_held s"
    using inv by (simp_all add: fam_inv_def)
  have handles: "handle ?s j = (if j = length ms then Some ?m else handle s j)" for j
    using len by (auto simp: handle_def nth_append)
  have old: "m_idx m \<noteq> idx \<and> m_cell m < ?cell" if "handle s j = Some m" for j m
  proof -
    have "j < length ms" "fs_handles s ! j = Some m" using handle_in [OF that] len by auto
    then have "member_ok (fs_fam s) (Some m) (ms ! j)" using ok by metis
    then show ?thesis using empty by (cases rule: member_ok_cases) auto
  qed
  have "member_ok ?fam ((fs_handles s @ [Some ?m]) ! j) ((ms @ [Some (lab, 0)]) ! j)"
    if j: "j < length (ms @ [Some (lab, 0)])" for j
  proof (cases "j = length ms")
    case True
    with len show ?thesis by (simp add: nth_append slots)
  next
    case False
    with j have j: "j < length ms" by simp
    from ok [OF j] show ?thesis
    proof (cases rule: member_ok_cases)
      case (2 m' labels' v)
      have "handle s j = Some m'" using len j 2(1) by (simp add: handle_def)
      with old have "m_idx m' \<noteq> idx" by blast
      with 2 j len show ?thesis by (auto simp: nth_append slots)
    qed (use j len in \<open>simp add: nth_append\<close>)
  qed
  moreover have "handles_apart ?s"
    unfolding handles_apart_def handles
    using apart old unfolding handles_apart_def
    by (auto split: if_splits) (metis less_irrefl)+
  moreover have "slots_held ?s"
    unfolding slots_held_def
  proof (intro allI impI)
    fix i x assume i: "fam_slot (fs_fam ?s) i = Some x"
    show "\<exists>k m. handle ?s k = Some m \<and> m_idx m = i"
    proof (cases "i = idx")
      case True
      then show ?thesis by (intro exI [of _ "length ms"] exI [of _ ?m]) (simp add: handles)
    next
      case False
      with i have "fam_slot (fs_fam s) i = Some x" by (simp add: slots)
      then obtain k m' where "handle s k = Some m'" "m_idx m' = i"
        using held unfolding slots_held_def by blast
      moreover from this have "k \<noteq> length ms" using handle_in len by fastforce
      ultimately show ?thesis by (auto simp: handles)
    qed
  qed
  moreover have live: "live_of (tb_slots t') = live_of (tb_slots ?t) + 1"
    using place by (auto simp: live_of_fill)
  moreover have entries: "fam_entries ?fam = max peak (live_of ms + 1)"
  proof -
    have "live_of (tb_slots ?t) = live_of ms" "length (tb_slots ?t) = peak"
      using inv by (simp_all add: fam_inv_def fam_len_def table_inv_def fam_entries_def)
    with place live live_of_le [of "tb_slots t'"] show ?thesis
      by (auto simp: fam_entries_def)
  qed
  moreover have "fam_len ?fam = live_of (ms @ [Some (lab, 0)])"
    using inv t'(2) live by (simp add: fam_inv_def fam_len_def table_inv_def)
  moreover have "fam_version ?fam = of_nat (2 * length (ms @ [Some (lab, 0)]) - live_of (ms @ [Some (lab, 0)]))"
  proof -
    have "2 * length (ms @ [Some (lab, 0)]) - live_of (ms @ [Some (lab, 0)]) =
        Suc (2 * length ms - live_of ms)"
      using live_of_le [of ms] by simp
    then show ?thesis using inv version by (simp add: fam_inv_def fam_version_def)
  qed
  ultimately have "fam_inv ?s (ms @ [Some (lab, 0)]) (gen + 1) (max peak (live_of ms + 1))"
    using t'(2) len by (simp add: fam_inv_def)
  with create show ?thesis by blast
qed

section \<open>Every run\<close>

fun members_run :: "string \<Rightarrow> fam_call list \<Rightarrow> (smap \<times> u64) option list \<times> u64 \<Rightarrow>
    (smap \<times> u64) option list \<times> u64" where
  "members_run epoch [] st = st"
| "members_run epoch (c # cs) st = members_run epoch cs (member_spec epoch c st)"

text \<open>The most members alive at once.\<close>

fun peak_run :: "string \<Rightarrow> fam_call list \<Rightarrow> (smap \<times> u64) option list \<times> u64 \<Rightarrow> nat" where
  "peak_run epoch [] st = live_of (fst st)"
| "peak_run epoch (c # cs) st = max (live_of (fst st)) (peak_run epoch cs (member_spec epoch c st))"

lemma live_of_update_le: "live_of (xs[n := None]) \<le> live_of xs"
proof (cases "n < length xs \<and> xs ! n \<noteq> None")
  case True
  then show ?thesis using live_of_clear [of n xs] by force
next
  case False
  then have "xs[n := None] = xs" by (metis list_update_beyond list_update_id not_less)
  then show ?thesis by simp
qed

lemma apply_inv:
  assumes inv: "fam_inv s ms gen peak" and peak: "live_of ms \<le> peak"
    and spec: "member_spec epoch c (ms, gen) = (ms', gen')"
  shows "\<exists>s'. fam_apply epoch c s = Inr s' \<and> fam_inv s' ms' gen' (max peak (live_of ms'))"
proof -
  have len: "length (fs_handles s) = length ms"
      and ok: "\<And>j. j < length ms \<Longrightarrow> member_ok (fs_fam s) (fs_handles s ! j) (ms ! j)"
    using inv by (simp_all add: fam_inv_def)
  have absent: "ms[n := None] = ms \<and> (n < length ms \<longrightarrow> ms ! n = None)"
    if "handle s n = None" for n
  proof (cases "n < length ms")
    case True
    with that len have "fs_handles s ! n = None" by (simp add: handle_def)
    with ok [OF True] have "ms ! n = None" by (cases rule: member_ok_cases) auto
    then show ?thesis by (metis list_update_id)
  next
    case False
    then show ?thesis by (simp add: list_update_beyond)
  qed
  have something: "n < length ms \<and> (\<exists>labels. ms ! n = Some (labels, fam_cells (fs_fam s) (m_cell m)))"
    if "handle s n = Some m" for n m
  proof -
    have n: "n < length ms" "fs_handles s ! n = Some m" using handle_in [OF that] len by auto
    with ok [OF n(1)] show ?thesis by (cases rule: member_ok_cases) auto
  qed
  show ?thesis
  proof (cases c)
    case (Create labels)
    from create_inv [OF inv, of epoch labels] spec Create show ?thesis by force
  next
    case (Add n v)
    show ?thesis
    proof (cases "handle s n")
      case None
      have same: "n < length ms \<Longrightarrow> ms ! n = None" "ms[n := None] = ms"
        using absent [OF None] by simp_all
      have "ms' = ms \<and> gen' = gen"
        using spec same by (cases "n < length ms") (simp_all add: Add)
      with Add None inv peak show ?thesis by (simp add: max_absorb1)
    next
      case (Some m)
      from something [OF Some] obtain labels where
          e: "n < length ms" "ms ! n = Some (labels, fam_cells (fs_fam s) (m_cell m))" by blast
      have "live_of ms' = live_of ms"
        using spec Add e live_of_clear [OF e] live_of_fill [of n "ms[n := None]"] by auto
      with update_inv [OF inv Some e(2), of "fam_cells (fs_fam s) (m_cell m) + v"] Add Some spec e peak
      show ?thesis by (auto simp: member_add_def max_absorb1)
    qed
  next
    case (Put n v)
    show ?thesis
    proof (cases "handle s n")
      case None
      with Put spec absent [OF None] have "ms' = ms" "gen' = gen" by (auto split: if_splits)
      with Put None inv peak show ?thesis by (simp add: max_absorb1)
    next
      case (Some m)
      from something [OF Some] obtain labels where
          e: "n < length ms" "ms ! n = Some (labels, fam_cells (fs_fam s) (m_cell m))" by blast
      have "live_of ms' = live_of ms"
        using spec Put e live_of_clear [OF e] live_of_fill [of n "ms[n := None]"] by auto
      with update_inv [OF inv Some e(2), of v] Put Some spec e peak
      show ?thesis by (auto simp: member_set_def max_absorb1)
    qed
  next
    case (Drop n)
    have ms': "ms' = ms[n := None]" "gen' = gen" using spec Drop by auto
    have peak': "max peak (live_of ms') = peak"
      using peak live_of_update_le [of ms n] by (simp add: ms' max_absorb1)
    show ?thesis
    proof (cases "handle s n")
      case None
      with absent [OF None] Drop ms' inv peak' show ?thesis by simp
    next
      case (Some m)
      with drop_inv [OF inv Some] Drop ms' peak' show ?thesis by auto
    qed
  qed
qed

lemma run_inv:
  assumes "fam_inv s ms gen peak" "live_of ms \<le> peak"
  shows "\<exists>s'. fam_run epoch cs s = Inr s' \<and>
    fam_inv s' (fst (members_run epoch cs (ms, gen))) (snd (members_run epoch cs (ms, gen)))
      (max peak (peak_run epoch cs (ms, gen)))"
  using assms
proof (induction cs arbitrary: s ms gen peak)
  case Nil
  then show ?case by (simp add: max_absorb1)
next
  case (Cons c cs)
  obtain ms' gen' where spec: "member_spec epoch c (ms, gen) = (ms', gen')" by (meson surj_pair)
  obtain s' where s': "fam_apply epoch c s = Inr s'" "fam_inv s' ms' gen' (max peak (live_of ms'))"
    using apply_inv [OF Cons.prems spec] by blast
  have "live_of ms' \<le> peak_run epoch cs (ms', gen')" by (cases cs) simp_all
  then have "max (max peak (live_of ms')) (peak_run epoch cs (ms', gen')) =
      max peak (peak_run epoch (c # cs) (ms, gen))"
    using Cons.prems(2) spec by simp
  with Cons.IH [OF s'(2)] s'(1) spec show ?case by simp
qed

lemma members_run_inv:
  obtains s where "fam_run epoch cs (fs_init gen) = Inr s"
    "fam_inv s (fst (members_run epoch cs ([], gen))) (snd (members_run epoch cs ([], gen)))
       (peak_run epoch cs ([], gen))"
  using run_inv [OF fam_inv_init [of gen], of epoch cs] by auto

text \<open>
  C1. A family behaves as a set of members that know nothing of each other. However a program
  creates, updates and drops members, no call panics, and afterwards a group reader finds each member the program still
  holds at its handle's slot: with the labels it was created with and its own uid, and the
  value its own updates gave it since it was created, at zero, whatever members held the slot before.
\<close>

theorem family_members_are_independent:
  assumes "members_run epoch cs ([], gen) = (ms, gen')"
  shows "\<exists>s. fam_run epoch cs (fs_init gen) = Inr s \<and> length (fs_handles s) = length ms \<and>
    (\<forall>n < length ms. case ms ! n of
        None \<Rightarrow> handle s n = None
      | Some (labels, v) \<Rightarrow> \<exists>m. handle s n = Some m \<and> member_value m (fs_fam s) = v \<and>
          fam_labels (fs_fam s) (member_slot m) = Some labels \<and>
          fam_value (fs_fam s) (member_slot m) = Some v \<and>
          member_slot m < fam_entries (fs_fam s) \<and>
          cf_load_counters (fs_fam s) ! member_slot m = v)"
proof -
  obtain s where s: "fam_run epoch cs (fs_init gen) = Inr s"
    and inv: "fam_inv s (fst (members_run epoch cs ([], gen))) (snd (members_run epoch cs ([], gen)))
       (peak_run epoch cs ([], gen))"
    by (rule members_run_inv)
  have len: "length (fs_handles s) = length ms"
      and ok: "\<And>n. n < length ms \<Longrightarrow> member_ok (fs_fam s) (fs_handles s ! n) (ms ! n)"
    using inv assms by (simp_all add: fam_inv_def)
  have "case ms ! n of None \<Rightarrow> handle s n = None
      | Some (labels, v) \<Rightarrow> \<exists>m. handle s n = Some m \<and> member_value m (fs_fam s) = v \<and>
          fam_labels (fs_fam s) (member_slot m) = Some labels \<and>
          fam_value (fs_fam s) (member_slot m) = Some v \<and>
          member_slot m < fam_entries (fs_fam s) \<and>
          cf_load_counters (fs_fam s) ! member_slot m = v" if n: "n < length ms" for n
    using ok [OF n]
  proof (cases rule: member_ok_cases)
    case 1
    then show ?thesis using n len by (simp add: handle_def)
  next
    case (2 m labels v)
    then have "handle s n = Some m" using n len by (simp add: handle_def)
    moreover have "m_idx m < length (tb_slots (fam_table (fs_fam s)))"
        "tb_slots (fam_table (fs_fam s)) ! m_idx m = Some (labels, m_cell m)"
      using 2(3) by (auto simp: fam_slot_def split: if_splits)
    ultimately show ?thesis
      using 2 by (simp add: member_value_def fam_labels_def fam_value_def fam_cell_def
          member_slot_def fam_entries_def cf_load_counters_def fam_load_def)
  qed
  with s len show ?thesis by blast
qed

lemma all_less_two: "(\<forall>n < Suc (Suc 0). P n) \<longleftrightarrow> P 0 \<and> P 1"
  by (auto simp: less_Suc_eq)

theorem family_members_are_independent_witness:
  "\<exists>s m. fam_run ''e'' [Create [], Add 0 5, Drop 0, Create [(''k'', ''v'')], Add 1 7] (fs_init 0) = Inr s \<and>
     handle s 0 = None \<and> handle s 1 = Some m \<and> member_value m (fs_fam s) = 7"
proof -
  have run: "members_run ''e'' [Create [], Add 0 5, Drop 0, Create [(''k'', ''v'')], Add 1 7] ([], 0) =
      ([None, Some (fmupd UID_LABEL (mint_uid ''e'' 2) (collect_map [(''k'', ''v'')]), 7)], 2)"
    by simp
  from family_members_are_independent [OF run] obtain s where
      s: "fam_run ''e'' [Create [], Add 0 5, Drop 0, Create [(''k'', ''v'')], Add 1 7] (fs_init 0) = Inr s"
    and first: "handle s 0 = None"
    and second: "\<exists>m. handle s 1 = Some m \<and> member_value m (fs_fam s) = 7"
    by (auto simp: all_less_two simp del: fam_run.simps)
  then show ?thesis by blast
qed

text \<open>
  C35. A family grows to its members, not to their number over time: its table has as many
  slots as there were ever members at once, since a dropped member's slot is the next one
  taken; \<open>len\<close> counts the members; every slot that no handle holds reads as
  absent; and the version a reader checks before it reuses a cached schema has
  counted every creation and every drop.
\<close>

theorem family_slots_are_reused:
  "\<exists>s. fam_run epoch cs (fs_init gen) = Inr s \<and>
    fam_entries (fs_fam s) = peak_run epoch cs ([], gen) \<and>
    fam_len (fs_fam s) = live_of (fs_handles s) \<and>
    fam_version (fs_fam s) =
      of_nat (length (fs_handles s) + (length (fs_handles s) - live_of (fs_handles s))) \<and>
    (\<forall>i < fam_entries (fs_fam s). (\<nexists>n m. handle s n = Some m \<and> member_slot m = i) \<longrightarrow>
       fam_value (fs_fam s) i = None \<and> cf_load_counters (fs_fam s) ! i = u64_max)"
proof -
  obtain s where s: "fam_run epoch cs (fs_init gen) = Inr s"
    and inv: "fam_inv s (fst (members_run epoch cs ([], gen))) (snd (members_run epoch cs ([], gen)))
       (peak_run epoch cs ([], gen))"
    by (rule members_run_inv)
  define ms where "ms = fst (members_run epoch cs ([], gen))"
  have len: "length (fs_handles s) = length ms"
      and ok: "\<And>n. n < length ms \<Longrightarrow> member_ok (fs_fam s) (fs_handles s ! n) (ms ! n)"
      and held: "slots_held s"
    using inv by (simp_all add: fam_inv_def ms_def)
  have "list_all2 (\<lambda>h e. h = None \<longleftrightarrow> e = None) (fs_handles s) ms"
    unfolding list_all2_conv_all_nth
  proof (intro conjI allI impI)
    fix n assume "n < length (fs_handles s)"
    then have "member_ok (fs_fam s) (fs_handles s ! n) (ms ! n)" using len by (intro ok) simp
    then show "fs_handles s ! n = None \<longleftrightarrow> ms ! n = None" by (cases rule: member_ok_cases) simp_all
  qed (rule len)
  then have live: "live_of (fs_handles s) = live_of ms"
  proof (induction rule: list_all2_induct)
    case (Cons h hs e es)
    then show ?case by (cases h; cases e) simp_all
  qed simp
  have "fam_value (fs_fam s) i = None \<and> cf_load_counters (fs_fam s) ! i = u64_max"
    if i: "i < fam_entries (fs_fam s)" and free: "\<nexists>n m. handle s n = Some m \<and> member_slot m = i" for i
  proof -
    have "fam_slot (fs_fam s) i = None"
      using held free unfolding slots_held_def member_slot_def by (meson not_None_eq)
    then show ?thesis
      using i by (simp add: fam_value_def fam_cell_def fam_slot_def fam_entries_def
          cf_load_counters_def fam_load_def)
  qed
  moreover have "fam_entries (fs_fam s) = peak_run epoch cs ([], gen)"
      "fam_len (fs_fam s) = live_of ms" "fam_version (fs_fam s) = of_nat (2 * length ms - live_of ms)"
    using inv by (simp_all add: fam_inv_def ms_def)
  moreover have "2 * length ms - live_of ms = length ms + (length ms - live_of ms)"
    using live_of_le [of ms] by simp
  ultimately show ?thesis
    using s live len by (intro exI [where x = s] conjI allI impI) simp_all
qed

theorem family_slots_are_reused_witness:
  "\<exists>s. fam_run ''e'' [Create [], Drop 0, Create [], Drop 1, Create []] (fs_init 0) = Inr s \<and>
     fam_entries (fs_fam s) = 1"
proof -
  have "peak_run ''e'' [Create [], Drop 0, Create [], Drop 1, Create []] ([], 0) = 1"
    by simp
  with family_slots_are_reused [of "''e''" "[Create [], Drop 0, Create [], Drop 1, Create []]" 0]
  show ?thesis by auto
qed

end
