(* ===== verification/ShardPool.thy ===== *)
theory ShardPool
  imports Prelude
begin

text \<open>
  Which shard a thread records into (\<open>metriken/src/sharded.rs\<close>: \<open>SHARD_ID\<close>, \<open>SHARD_LEASE\<close>,
  \<open>ShardPool\<close>, \<open>set_thread_shard\<close>, \<open>shard_index\<close>). Threads are numbered and none is numbered
  twice. A thread's thread-locals go through three phases: in use, the lease destroyed (a
  thread-local destructor of the program may still record then, since \<open>SHARD_ID\<close> has no
  destructor), gone. The ghost field \<open>sh_leaked\<close> lists the shards that were handed out when their
  lease could no longer be stored; those never return to the pool.
\<close>

section \<open>The pool\<close>

definition NUM_SHARDS :: nat where
  "NUM_SHARDS = 256"

record shard_pool =
  sp_free :: "nat list"    \<comment> \<open>in the \<open>Vec\<close>'s order\<close>
  sp_fresh :: nat
  sp_overflow :: nat

definition sp_new :: shard_pool where
  "sp_new = \<lparr>sp_free = [], sp_fresh = 0, sp_overflow = 0\<rparr>"

definition sp_take :: "shard_pool \<Rightarrow> (nat \<times> bool) \<times> shard_pool" where
  "sp_take p =
     (if sp_free p \<noteq> [] then ((last (sp_free p), True), p\<lparr>sp_free := butlast (sp_free p)\<rparr>)
      else if sp_fresh p < NUM_SHARDS
      then ((NUM_SHARDS - (sp_fresh p + 1), True), p\<lparr>sp_fresh := sp_fresh p + 1\<rparr>)
      else ((NUM_SHARDS - 1 - (sp_overflow p + 1) mod NUM_SHARDS, False),
            p\<lparr>sp_overflow := sp_overflow p + 1\<rparr>))"

definition sp_give :: "nat \<Rightarrow> shard_pool \<Rightarrow> shard_pool" where
  "sp_give i p = p\<lparr>sp_free := sp_free p @ [i]\<rparr>"

section \<open>Threads\<close>

datatype tls_phase = Alive | LeaseGone | Exited

record shard_sys =
  sh_pool :: shard_pool
  sh_id :: "nat \<Rightarrow> nat option"       \<comment> \<open>\<open>SHARD_ID\<close> of each thread\<close>
  sh_lease :: "nat \<Rightarrow> nat option"    \<comment> \<open>\<open>SHARD_LEASE\<close> of each thread\<close>
  sh_tls :: "nat \<Rightarrow> tls_phase"
  sh_leaked :: "nat list"

definition sh_init :: shard_sys where
  "sh_init = \<lparr>sh_pool = sp_new, sh_id = (\<lambda>_. None), sh_lease = (\<lambda>_. None),
     sh_tls = (\<lambda>_. Alive), sh_leaked = []\<rparr>"

text \<open>Dropping the lease a thread may hold.\<close>

definition drop_lease :: "nat \<Rightarrow> shard_sys \<Rightarrow> shard_sys" where
  "drop_lease t s =
     (case sh_lease s t of
        None \<Rightarrow> s
      | Some i \<Rightarrow> s\<lparr>sh_pool := sp_give i (sh_pool s), sh_lease := (sh_lease s)(t := None)\<rparr>)"

definition set_thread_shard :: "nat \<Rightarrow> nat \<Rightarrow> shard_sys \<Rightarrow> shard_sys" where
  "set_thread_shard t i s =
     (let s = s\<lparr>sh_id := (sh_id s)(t := Some (i mod NUM_SHARDS))\<rparr>
      in if sh_tls s t = Alive then drop_lease t s else s)"

definition assign_thread_shard :: "nat \<Rightarrow> shard_sys \<Rightarrow> nat \<times> shard_sys" where
  "assign_thread_shard t s =
     (let ((i, lease), pool) = sp_take (sh_pool s);
          s = s\<lparr>sh_pool := pool, sh_id := (sh_id s)(t := Some i)\<rparr>
      in (i,
          if lease then
            (if sh_tls s t = Alive then s\<lparr>sh_lease := (sh_lease s)(t := Some i)\<rparr>
             else s\<lparr>sh_leaked := i # sh_leaked s\<rparr>)
          else s))"

definition shard_index :: "nat \<Rightarrow> shard_sys \<Rightarrow> nat \<times> shard_sys" where
  "shard_index t s =
     (case sh_id s t of Some i \<Rightarrow> (i, s) | None \<Rightarrow> assign_thread_shard t s)"

text \<open>A thread's exit: its lease is destroyed, then the rest of its thread-locals.\<close>

definition destroy_lease :: "nat \<Rightarrow> shard_sys \<Rightarrow> shard_sys" where
  "destroy_lease t s = (drop_lease t s)\<lparr>sh_tls := (sh_tls s)(t := LeaseGone)\<rparr>"

definition thread_gone :: "nat \<Rightarrow> shard_sys \<Rightarrow> shard_sys" where
  "thread_gone t s = s\<lparr>sh_id := (sh_id s)(t := None), sh_tls := (sh_tls s)(t := Exited)\<rparr>"

inductive shard_step :: "shard_sys \<Rightarrow> shard_sys \<Rightarrow> bool" where
  sets: "sh_tls s t \<noteq> Exited \<Longrightarrow> shard_step s (set_thread_shard t i s)"
| records: "sh_tls s t \<noteq> Exited \<Longrightarrow> shard_step s (snd (shard_index t s))"
| exits: "sh_tls s t = Alive \<Longrightarrow> shard_step s (destroy_lease t s)"
| gone: "sh_tls s t = LeaseGone \<Longrightarrow> shard_step s (thread_gone t s)"

text \<open>Shards a thread holds or that were leaked, and the most there ever were at once.\<close>

definition held :: "shard_sys \<Rightarrow> nat" where
  "held s = card {t. sh_lease s t \<noteq> None} + length (sh_leaked s)"

inductive shard_reach :: "shard_sys \<Rightarrow> nat \<Rightarrow> bool" where
  reach_start: "shard_reach sh_init 0"
| reach_next: "shard_reach s peak \<Longrightarrow> shard_step s s' \<Longrightarrow> shard_reach s' (max peak (held s'))"

section \<open>The invariant\<close>

definition leased :: "shard_sys \<Rightarrow> nat set" where
  "leased s = {i. \<exists>t. sh_lease s t = Some i}"

definition shard_inv :: "shard_sys \<Rightarrow> bool" where
  "shard_inv s \<longleftrightarrow>
     sp_fresh (sh_pool s) \<le> NUM_SHARDS \<and>
     distinct (sp_free (sh_pool s) @ sh_leaked s) \<and>
     set (sp_free (sh_pool s) @ sh_leaked s) \<inter> leased s = {} \<and>
     set (sp_free (sh_pool s) @ sh_leaked s) \<union> leased s =
       {NUM_SHARDS - sp_fresh (sh_pool s)..<NUM_SHARDS} \<and>
     inj_on (sh_lease s) {t. sh_lease s t \<noteq> None} \<and>
     (\<forall>t i. sh_lease s t = Some i \<longrightarrow> sh_tls s t = Alive \<and> sh_id s t = Some i) \<and>
     (\<forall>t i. sh_id s t = Some i \<longrightarrow> i < NUM_SHARDS)"

lemma leased_image: "Some ` leased s = sh_lease s ` {t. sh_lease s t \<noteq> None}"
  by (force simp: leased_def)

lemma shard_invD:
  assumes "shard_inv s"
  shows "sp_fresh (sh_pool s) \<le> NUM_SHARDS" "distinct (sp_free (sh_pool s) @ sh_leaked s)"
    "set (sp_free (sh_pool s) @ sh_leaked s) \<inter> leased s = {}"
    "set (sp_free (sh_pool s) @ sh_leaked s) \<union> leased s =
       {NUM_SHARDS - sp_fresh (sh_pool s)..<NUM_SHARDS}"
    "inj_on (sh_lease s) {t. sh_lease s t \<noteq> None}"
    "sh_lease s t = Some i \<Longrightarrow> sh_tls s t = Alive" "sh_lease s t = Some i \<Longrightarrow> sh_id s t = Some i"
    "sh_id s t = Some i \<Longrightarrow> i < NUM_SHARDS"
  using assms unfolding shard_inv_def by blast+

lemma finite_leased: "shard_inv s \<Longrightarrow> finite (leased s)"
  using shard_invD(4) by (metis finite_Un finite_atLeastLessThan)

lemma leased_apart:
  "shard_inv s \<Longrightarrow> sh_lease s t = Some i \<Longrightarrow> sh_lease s t' = Some i \<Longrightarrow> t = t'"
  by (rule inj_onD [OF shard_invD(5)]) auto

lemma inj_leases:
  "(\<And>t t' i. f t = Some i \<Longrightarrow> f t' = Some i \<Longrightarrow> t = t') \<Longrightarrow> inj_on f {t. f t \<noteq> None}"
  unfolding inj_on_def by (metis (mono_tags) mem_Collect_eq not_None_eq)

lemma finite_leases: "shard_inv s \<Longrightarrow> finite {t. sh_lease s t \<noteq> None}"
  by (rule finite_imageD [OF _ shard_invD(5)])
    (simp_all add: finite_leased del: not_None_eq flip: leased_image)

text \<open>The shards handed out are the free ones and the held ones.\<close>

lemma fresh_held:
  assumes inv: "shard_inv s"
  shows "sp_fresh (sh_pool s) = length (sp_free (sh_pool s)) + held s"
proof -
  let ?S = "set (sp_free (sh_pool s) @ sh_leaked s)"
  have "card {t. sh_lease s t \<noteq> None} = card (Some ` leased s)"
    unfolding leased_image by (rule card_image [OF shard_invD(5) [OF inv], symmetric])
  also have "\<dots> = card (leased s)" by (rule card_image) simp
  finally have leases: "card {t. sh_lease s t \<noteq> None} = card (leased s)" .
  have "sp_fresh (sh_pool s) = card {NUM_SHARDS - sp_fresh (sh_pool s)..<NUM_SHARDS}"
    using shard_invD(1) [OF inv] by simp
  also have "\<dots> = card (?S \<union> leased s)" by (simp only: shard_invD(4) [OF inv])
  also have "\<dots> = card ?S + card (leased s)"
    by (rule card_Un_disjoint [OF _ finite_leased [OF inv] shard_invD(3) [OF inv]]) simp
  also have "card ?S = length (sp_free (sh_pool s)) + length (sh_leaked s)"
    using distinct_card [OF shard_invD(2) [OF inv]] by simp
  finally show ?thesis unfolding held_def leases by simp
qed

lemma shard_inv_init: "shard_inv sh_init"
  by (simp add: shard_inv_def sh_init_def sp_new_def leased_def)

section \<open>The steps keep it\<close>

lemma drop_lease_inv:
  assumes inv: "shard_inv s"
  shows "shard_inv (drop_lease t s)"
proof (cases "sh_lease s t")
  case None
  with inv show ?thesis by (simp add: drop_lease_def)
next
  case (Some i)
  let ?s = "drop_lease t s"
  have lease: "sh_lease ?s = (sh_lease s)(t := None)" and id: "sh_id ?s = sh_id s"
    and tls: "sh_tls ?s = sh_tls s" and leaked: "sh_leaked ?s = sh_leaked s"
    and free: "sp_free (sh_pool ?s) = sp_free (sh_pool s) @ [i]"
    and fresh: "sp_fresh (sh_pool ?s) = sp_fresh (sh_pool s)"
    by (simp_all add: drop_lease_def Some sp_give_def)
  have i: "i \<in> leased s" using Some by (auto simp: leased_def)
  have leased: "leased ?s = leased s - {i}"
  proof -
    have "sh_lease ?s t' = Some j \<longleftrightarrow> sh_lease s t' = Some j \<and> j \<noteq> i" for t' j
      unfolding lease using leased_apart [OF inv Some, of t'] Some by (cases "t' = t") auto
    then show ?thesis by (auto simp: leased_def)
  qed
  have apart: "i \<notin> set (sp_free (sh_pool s) @ sh_leaked s)"
    using shard_invD(3) [OF inv] i by blast
  have "inj_on (sh_lease ?s) {t. sh_lease ?s t \<noteq> None}"
    by (rule inj_leases) (use leased_apart [OF inv] in \<open>simp add: lease split: if_splits\<close>)
  moreover have "distinct (sp_free (sh_pool ?s) @ sh_leaked ?s)"
    using shard_invD(2) [OF inv] apart by (auto simp: free leaked)
  moreover have "set (sp_free (sh_pool ?s) @ sh_leaked ?s) = insert i (set (sp_free (sh_pool s) @ sh_leaked s))"
    by (simp add: free leaked)
  moreover have "insert i (set (sp_free (sh_pool s) @ sh_leaked s)) \<inter> leased ?s = {}"
    using shard_invD(3) [OF inv] leased by blast
  moreover have "insert i (set (sp_free (sh_pool s) @ sh_leaked s)) \<union> leased ?s =
      {NUM_SHARDS - sp_fresh (sh_pool s)..<NUM_SHARDS}"
    using shard_invD(4) [OF inv] leased i by blast
  moreover have "sh_lease ?s t' = Some j \<Longrightarrow> sh_tls ?s t' = Alive \<and> sh_id ?s t' = Some j" for t' j
    using shard_invD(6,7) [OF inv] by (simp add: lease id tls split: if_splits)
  moreover have "sh_id ?s t' = Some j \<Longrightarrow> j < NUM_SHARDS" for t' j
    using shard_invD(8) [OF inv] by (simp add: id)
  ultimately show ?thesis
    unfolding shard_inv_def using shard_invD(1) [OF inv] by (simp add: fresh)
qed

lemma set_id_inv:
  "shard_inv s \<Longrightarrow> sh_lease s t = None \<Longrightarrow> i < NUM_SHARDS \<Longrightarrow>
    shard_inv (s\<lparr>sh_id := (sh_id s)(t := Some i)\<rparr>)"
  by (auto simp: shard_inv_def leased_def)

lemma drop_lease_fields [simp]:
  "sh_id (drop_lease t s) = sh_id s" "sh_tls (drop_lease t s) = sh_tls s"
  "sh_lease (drop_lease t s) = (sh_lease s)(t := None)"
  by (auto simp: drop_lease_def split: option.splits)

lemma drop_lease_set_id:
  "drop_lease t (s\<lparr>sh_id := f\<rparr>) = (drop_lease t s)\<lparr>sh_id := f\<rparr>"
  by (simp add: drop_lease_def split: option.splits)

lemma set_thread_shard_inv:
  assumes inv: "shard_inv s"
  shows "shard_inv (set_thread_shard t i s)"
proof (cases "sh_tls s t = Alive")
  case True
  then have "set_thread_shard t i s =
      (drop_lease t s)\<lparr>sh_id := (sh_id (drop_lease t s))(t := Some (i mod NUM_SHARDS))\<rparr>"
    by (simp add: set_thread_shard_def drop_lease_set_id)
  then show ?thesis
    using drop_lease_inv [OF inv] set_id_inv [of "drop_lease t s" t "i mod NUM_SHARDS"]
    by (simp add: NUM_SHARDS_def)
next
  case False
  then have "sh_lease s t = None" using shard_invD(6) [OF inv] by (metis not_None_eq)
  with False set_id_inv [OF inv this, of "i mod NUM_SHARDS"] show ?thesis
    by (simp add: set_thread_shard_def NUM_SHARDS_def)
qed

text \<open>Taking a shard: one that nobody holds, or a shared one when all 256 are held.\<close>

lemma sp_take_cases:
  assumes inv: "shard_inv s"
  obtains (own) i pool where "sp_take (sh_pool s) = ((i, True), pool)"
      "i < NUM_SHARDS" "i \<notin> leased s" "i \<notin> set (sh_leaked s)"
      "set (sp_free pool) = set (sp_free (sh_pool s)) - {i}" "distinct (sp_free pool)"
      "{NUM_SHARDS - sp_fresh pool..<NUM_SHARDS} =
         insert i {NUM_SHARDS - sp_fresh (sh_pool s)..<NUM_SHARDS}"
      "sp_fresh pool \<le> NUM_SHARDS"
      "sp_fresh pool = sp_fresh (sh_pool s) \<or>
         sp_free pool = [] \<and> sp_fresh pool = Suc (sp_fresh (sh_pool s))"
  | (shared) i pool where "sp_take (sh_pool s) = ((i, False), pool)" "i < NUM_SHARDS"
      "sp_free (sh_pool s) = []" "sp_fresh (sh_pool s) = NUM_SHARDS"
      "sp_free pool = sp_free (sh_pool s)" "sp_fresh pool = sp_fresh (sh_pool s)"
proof (cases "sp_free (sh_pool s) = []")
  case False
  let ?p = "sh_pool s"
  let ?i = "last (sp_free ?p)"
  have free: "sp_free ?p = butlast (sp_free ?p) @ [?i]" using False by simp
  have i: "?i \<in> set (sp_free ?p)" using False by simp
  have dist: "distinct (butlast (sp_free ?p) @ [?i])" "?i \<notin> set (sh_leaked s)"
    using shard_invD(2) [OF inv] i free by auto
  have "set (sp_free ?p) = insert ?i (set (butlast (sp_free ?p)))"
    using arg_cong [OF free, of set] by simp
  then have butlast: "set (butlast (sp_free ?p)) = set (sp_free ?p) - {?i}"
    using dist(1) by auto
  have range: "?i \<in> {NUM_SHARDS - sp_fresh ?p..<NUM_SHARDS}"
    using shard_invD(4) [OF inv] i by auto
  show ?thesis
  proof (rule own)
    show "sp_take ?p = ((?i, True), ?p\<lparr>sp_free := butlast (sp_free ?p)\<rparr>)"
      using False by (simp add: sp_take_def)
    show "?i \<notin> leased s" using shard_invD(3) [OF inv] i by auto
    show "?i < NUM_SHARDS" using range by simp
    show "?i \<notin> set (sh_leaked s)" by (rule dist(2))
    show "set (sp_free (?p\<lparr>sp_free := butlast (sp_free ?p)\<rparr>)) = set (sp_free ?p) - {?i}"
      using butlast by simp
    show "distinct (sp_free (?p\<lparr>sp_free := butlast (sp_free ?p)\<rparr>))" using dist(1) by simp
    show "{NUM_SHARDS - sp_fresh (?p\<lparr>sp_free := butlast (sp_free ?p)\<rparr>)..<NUM_SHARDS} =
        insert ?i {NUM_SHARDS - sp_fresh ?p..<NUM_SHARDS}"
      using range by (simp add: insert_absorb)
    show "sp_fresh (?p\<lparr>sp_free := butlast (sp_free ?p)\<rparr>) \<le> NUM_SHARDS"
      using shard_invD(1) [OF inv] by simp
  qed simp
next
  case True
  let ?p = "sh_pool s"
  show ?thesis
  proof (cases "sp_fresh ?p < NUM_SHARDS")
    case fresh: True
    let ?i = "NUM_SHARDS - (sp_fresh ?p + 1)"
    have out: "?i \<notin> {NUM_SHARDS - sp_fresh ?p..<NUM_SHARDS}" using fresh by auto
    show ?thesis
    proof (rule own)
      show "sp_take ?p = ((?i, True), ?p\<lparr>sp_fresh := sp_fresh ?p + 1\<rparr>)"
        using True fresh by (simp add: sp_take_def)
      show "?i < NUM_SHARDS" using fresh by simp
      show "?i \<notin> leased s" "?i \<notin> set (sh_leaked s)"
        using shard_invD(4) [OF inv] out by auto
      show "{NUM_SHARDS - sp_fresh (?p\<lparr>sp_fresh := sp_fresh ?p + 1\<rparr>)..<NUM_SHARDS} =
          insert ?i {NUM_SHARDS - sp_fresh ?p..<NUM_SHARDS}"
        using fresh by auto
    qed (use True fresh in simp_all)
  next
    case False
    then have "sp_fresh ?p = NUM_SHARDS" using shard_invD(1) [OF inv] by simp
    show ?thesis
    proof (rule shared)
      show "sp_take ?p = ((NUM_SHARDS - 1 - (sp_overflow ?p + 1) mod NUM_SHARDS, False),
          ?p\<lparr>sp_overflow := sp_overflow ?p + 1\<rparr>)"
        using True False by (simp add: sp_take_def)
      show "NUM_SHARDS - 1 - (sp_overflow ?p + 1) mod NUM_SHARDS < NUM_SHARDS"
        by (simp add: NUM_SHARDS_def)
    qed (simp_all add: True \<open>sp_fresh ?p = NUM_SHARDS\<close>)
  qed
qed

text \<open>The taken shard goes to the thread, or leaks.\<close>

lemma lease_inv:
  assumes inv: "shard_inv s" and lease: "sh_lease s t = None" and alive: "sh_tls s t = Alive"
    and own: "i < NUM_SHARDS" "i \<notin> leased s" "i \<notin> set (sh_leaked s)"
      "set (sp_free pool) = set (sp_free (sh_pool s)) - {i}" "distinct (sp_free pool)"
      "{NUM_SHARDS - sp_fresh pool..<NUM_SHARDS} =
         insert i {NUM_SHARDS - sp_fresh (sh_pool s)..<NUM_SHARDS}"
      "sp_fresh pool \<le> NUM_SHARDS"
  shows "shard_inv (s\<lparr>sh_pool := pool, sh_id := (sh_id s)(t := Some i), sh_lease := (sh_lease s)(t := Some i)\<rparr>)"
    (is "shard_inv ?s")
proof -
  have leased': "leased ?s = insert i (leased s)"
  proof -
    have "(\<exists>t'. sh_lease ?s t' = Some j) \<longleftrightarrow> j = i \<or> (\<exists>t'. sh_lease s t' = Some j)" for j
      using lease by (simp, metis option.distinct(1))
    then show ?thesis by (simp add: leased_def set_eq_iff)
  qed
  have others: "sh_lease s t' \<noteq> Some i" for t' using own(2) by (auto simp: leased_def)
  show ?thesis
    unfolding shard_inv_def leased'
  proof (intro conjI)
    show "inj_on (sh_lease ?s) {t. sh_lease ?s t \<noteq> None}"
      by (rule inj_leases) (use others leased_apart [OF inv] in \<open>simp split: if_splits\<close>)
    show "set (sp_free (sh_pool ?s) @ sh_leaked ?s) \<inter> insert i (leased s) = {}"
      using own(3,4) shard_invD(3) [OF inv] by auto
    show "set (sp_free (sh_pool ?s) @ sh_leaked ?s) \<union> insert i (leased s) =
        {NUM_SHARDS - sp_fresh (sh_pool ?s)..<NUM_SHARDS}"
      using own(4,6) shard_invD(4) [OF inv] by auto
    show "distinct (sp_free (sh_pool ?s) @ sh_leaked ?s)"
      using own(4,5) shard_invD(2) [OF inv] by auto
    show "sp_fresh (sh_pool ?s) \<le> NUM_SHARDS" using own(7) by simp
    show "\<forall>t' j. sh_lease ?s t' = Some j \<longrightarrow> sh_tls ?s t' = Alive \<and> sh_id ?s t' = Some j"
      using shard_invD(6,7) [OF inv] alive by auto
    show "\<forall>t' j. sh_id ?s t' = Some j \<longrightarrow> j < NUM_SHARDS"
      using shard_invD(8) [OF inv] own(1) by auto
  qed
qed

lemma leak_inv:
  assumes inv: "shard_inv s" and lease: "sh_lease s t = None"
    and own: "i < NUM_SHARDS" "i \<notin> leased s" "i \<notin> set (sh_leaked s)"
      "set (sp_free pool) = set (sp_free (sh_pool s)) - {i}" "distinct (sp_free pool)"
      "{NUM_SHARDS - sp_fresh pool..<NUM_SHARDS} =
         insert i {NUM_SHARDS - sp_fresh (sh_pool s)..<NUM_SHARDS}"
      "sp_fresh pool \<le> NUM_SHARDS"
  shows "shard_inv (s\<lparr>sh_pool := pool, sh_id := (sh_id s)(t := Some i), sh_leaked := i # sh_leaked s\<rparr>)"
    (is "shard_inv ?s")
proof -
  have leased': "leased ?s = leased s" by (simp add: leased_def)
  show ?thesis
    unfolding shard_inv_def leased'
  proof (intro conjI)
    show "inj_on (sh_lease ?s) {t. sh_lease ?s t \<noteq> None}" using shard_invD(5) [OF inv] by simp
    show "set (sp_free (sh_pool ?s) @ sh_leaked ?s) \<inter> leased s = {}"
      using own(2,4) shard_invD(3) [OF inv] by auto
    show "set (sp_free (sh_pool ?s) @ sh_leaked ?s) \<union> leased s =
        {NUM_SHARDS - sp_fresh (sh_pool ?s)..<NUM_SHARDS}"
      using own(4,6) shard_invD(4) [OF inv] by auto
    show "distinct (sp_free (sh_pool ?s) @ sh_leaked ?s)"
      using own(3,4,5) shard_invD(2) [OF inv] by auto
    show "sp_fresh (sh_pool ?s) \<le> NUM_SHARDS" using own(7) by simp
    show "\<forall>t' j. sh_lease ?s t' = Some j \<longrightarrow> sh_tls ?s t' = Alive \<and> sh_id ?s t' = Some j"
      using shard_invD(6,7) [OF inv] lease by auto
    show "\<forall>t' j. sh_id ?s t' = Some j \<longrightarrow> j < NUM_SHARDS"
      using shard_invD(8) [OF inv] own(1) by auto
  qed
qed

lemma fresh_max:
  assumes "shard_inv s'" "sp_fresh (sh_pool s') = f \<or> sp_free (sh_pool s') = [] \<and> sp_fresh (sh_pool s') = Suc f"
  shows "sp_fresh (sh_pool s') = max f (held s')"
  using assms(2) fresh_held [OF assms(1)] by auto

text \<open>A thread that has no shard takes one.\<close>

lemma assign_inv:
  assumes inv: "shard_inv s" and none: "sh_id s t = None" and assign: "assign_thread_shard t s = (i, s')"
  shows "shard_inv s' \<and> sh_id s' t = Some i \<and> i < NUM_SHARDS \<and>
    (if held s < NUM_SHARDS
     then (\<forall>t'. sh_lease s t' \<noteq> Some i) \<and> (sh_tls s t = Alive \<longrightarrow> sh_lease s' t = Some i)
     else sh_lease s' = sh_lease s) \<and>
    sp_fresh (sh_pool s') = max (sp_fresh (sh_pool s)) (held s')"
proof -
  have lease: "sh_lease s t = None" using shard_invD(7) [OF inv] none by (metis not_None_eq option.distinct(1))
  have count: "sp_fresh (sh_pool s) = length (sp_free (sh_pool s)) + held s" by (rule fresh_held [OF inv])
  from inv show ?thesis
  proof (cases rule: sp_take_cases)
    case (own i' pool)
    have i': "i' = i" using assign own(1) by (auto simp: assign_thread_shard_def Let_def split: if_splits)
    note own = own [unfolded i']
    have room: "held s < NUM_SHARDS"
    proof (rule ccontr)
      assume "\<not> held s < NUM_SHARDS"
      then have "length (sp_free (sh_pool s)) = 0" "sp_fresh (sh_pool s) = NUM_SHARDS"
        using count shard_invD(1) [OF inv] by linarith+
      then show False using own(1) by (simp add: sp_take_def)
    qed
    have others: "\<forall>t'. sh_lease s t' \<noteq> Some i" using own(3) by (auto simp: leased_def)
    show ?thesis
    proof (cases "sh_tls s t = Alive")
      case True
      then have s': "s' = s\<lparr>sh_pool := pool, sh_id := (sh_id s)(t := Some i), sh_lease := (sh_lease s)(t := Some i)\<rparr>"
        using assign own(1) by (simp add: assign_thread_shard_def)
      have "shard_inv s'" unfolding s' by (rule lease_inv [OF inv lease True own(2-8)])
      moreover from this have "sp_fresh (sh_pool s') = max (sp_fresh (sh_pool s)) (held s')"
        by (rule fresh_max) (use own(9) in \<open>simp add: s'\<close>)
      ultimately show ?thesis using room others own(2) by (simp add: s')
    next
      case False
      then have s': "s' = s\<lparr>sh_pool := pool, sh_id := (sh_id s)(t := Some i), sh_leaked := i # sh_leaked s\<rparr>"
        using assign own(1) by (simp add: assign_thread_shard_def)
      have "shard_inv s'" unfolding s' by (rule leak_inv [OF inv lease own(2-8)])
      moreover from this have "sp_fresh (sh_pool s') = max (sp_fresh (sh_pool s)) (held s')"
        by (rule fresh_max) (use own(9) in \<open>simp add: s'\<close>)
      ultimately show ?thesis using room others own(2) False by (simp add: s')
    qed
  next
    case (shared i' pool)
    have s': "s' = s\<lparr>sh_pool := pool, sh_id := (sh_id s)(t := Some i)\<rparr>" "i' = i"
      using assign shared(1) by (auto simp: assign_thread_shard_def)
    have leased': "leased s' = leased s" by (simp add: leased_def s')
    have "shard_inv s'"
      unfolding shard_inv_def leased'
      using inv lease shared(2) s'(2) by (simp add: shard_inv_def s'(1) shared(5,6))
    moreover from this have "sp_fresh (sh_pool s') = max (sp_fresh (sh_pool s)) (held s')"
      by (rule fresh_max) (simp add: s' shared(6))
    ultimately show ?thesis using count shared s' by simp
  qed
qed

section \<open>Reachable states\<close>

lemma gone_inv: "shard_inv s \<Longrightarrow> sh_lease s t = None \<Longrightarrow> shard_inv (thread_gone t s)"
  by (auto simp: shard_inv_def leased_def thread_gone_def)

lemma destroy_inv: "shard_inv s \<Longrightarrow> shard_inv (destroy_lease t s)"
  using drop_lease_inv [of s t]
  by (auto simp: shard_inv_def leased_def destroy_lease_def)

lemma held_tls [simp]: "held (s\<lparr>sh_tls := f\<rparr>) = held s" "held (s\<lparr>sh_id := g\<rparr>) = held s"
  by (simp_all add: held_def)

lemma drop_lease_fresh [simp]: "sp_fresh (sh_pool (drop_lease t s)) = sp_fresh (sh_pool s)"
  by (simp add: drop_lease_def sp_give_def split: option.splits)

lemma step_inv:
  assumes "shard_step s s'" "shard_inv s"
  shows "shard_inv s' \<and> sp_fresh (sh_pool s') = max (sp_fresh (sh_pool s)) (held s')"
  using assms(1)
proof cases
  case (sets t i)
  have "shard_inv s'" unfolding sets by (rule set_thread_shard_inv [OF assms(2)])
  moreover have "sp_fresh (sh_pool s') = sp_fresh (sh_pool s)"
    by (simp add: sets set_thread_shard_def Let_def drop_lease_set_id)
  ultimately show ?thesis using fresh_max by blast
next
  case (records t)
  show ?thesis
  proof (cases "sh_id s t")
    case None
    obtain i s1 where a: "assign_thread_shard t s = (i, s1)" by (meson surj_pair)
    with assign_inv [OF assms(2) None a] records None show ?thesis by (simp add: shard_index_def)
  next
    case (Some i)
    then have "s' = s" using records by (simp add: shard_index_def)
    with assms(2) fresh_max [OF assms(2)] show ?thesis by blast
  qed
next
  case (exits t)
  have "shard_inv s'" unfolding exits by (rule destroy_inv [OF assms(2)])
  moreover have "sp_fresh (sh_pool s') = sp_fresh (sh_pool s)"
    by (simp add: exits destroy_lease_def)
  ultimately show ?thesis using fresh_max by blast
next
  case (gone t)
  have "sh_lease s t = None" using gone(2) shard_invD(6) [OF assms(2)] by (metis not_None_eq tls_phase.distinct(1))
  then have "shard_inv s'" unfolding gone by (rule gone_inv [OF assms(2)])
  moreover have "sp_fresh (sh_pool s') = sp_fresh (sh_pool s)"
    by (simp add: gone thread_gone_def)
  ultimately show ?thesis using fresh_max by blast
qed

lemma reach_inv: "shard_reach s peak \<Longrightarrow> shard_inv s \<and> sp_fresh (sh_pool s) = peak"
proof (induction rule: shard_reach.induct)
  case reach_start
  show ?case using shard_inv_init by (simp add: sh_init_def sp_new_def)
next
  case (reach_next s peak s')
  with step_inv show ?case by auto
qed

text \<open>
  C8. A shard is one thread's. In every state the threads of a process can reach, no two threads lease
  the same shard, no free shard is leased, a thread with a lease records into the shard it leases, every
  thread's shard is one of the 256, and the shards ever taken from the pool are as many as
  were held at once at the busiest moment, however many threads have come and gone.
\<close>

theorem leases_are_exclusive:
  assumes "shard_reach s peak"
  shows "(sh_lease s t = Some i \<and> sh_lease s t' = Some i \<longrightarrow> t = t') \<and>
    (sh_lease s t = Some i \<longrightarrow> i \<notin> set (sp_free (sh_pool s)) \<and> shard_index t s = (i, s)) \<and>
    (sh_id s t = Some i \<longrightarrow> i < NUM_SHARDS) \<and>
    distinct (sp_free (sh_pool s)) \<and> sp_fresh (sh_pool s) = peak \<and> peak \<le> NUM_SHARDS"
proof -
  have inv: "shard_inv s" and peak: "sp_fresh (sh_pool s) = peak" using reach_inv [OF assms] by auto
  have "sh_lease s t = Some i \<Longrightarrow> i \<notin> set (sp_free (sh_pool s))"
    using shard_invD(3) [OF inv] by (auto simp: leased_def)
  moreover have "distinct (sp_free (sh_pool s))" using shard_invD(2) [OF inv] by simp
  ultimately show ?thesis
    using leased_apart [OF inv] shard_invD(1,7,8) [OF inv] peak by (simp add: shard_index_def)
qed

theorem leases_are_exclusive_witness:
  "\<exists>s. shard_reach s 1 \<and> sh_lease s 7 = Some 255 \<and> shard_index 7 s = (255, s)"
proof -
  have "shard_reach (snd (shard_index 7 sh_init)) (max 0 (held (snd (shard_index 7 sh_init))))"
    (is "shard_reach ?s _")
    by (rule reach_next [OF reach_start records]) (simp add: sh_init_def)
  moreover have s: "?s = sh_init\<lparr>sh_pool := sp_new\<lparr>sp_fresh := 1\<rparr>, sh_id := (\<lambda>_. None)(7 := Some 255),
      sh_lease := (\<lambda>_. None)(7 := Some 255)\<rparr>"
    by (simp add: shard_index_def assign_thread_shard_def sh_init_def sp_take_def sp_new_def NUM_SHARDS_def)
  moreover have "held ?s = 1" unfolding s by (simp add: held_def sh_init_def)
  ultimately have reach: "shard_reach ?s 1" by simp
  have "sh_lease ?s 7 = Some 255" unfolding s by simp
  with leases_are_exclusive [OF reach, of 7 255 7] reach show ?thesis by blast
qed

text \<open>
  Recording for the first time gives a thread its own shard whenever there is one: a thread that records
  without having called \<open>set_thread_shard\<close> gets a shard that no other thread leases if fewer
  than 256 are held, and leases it, unless its lease is already destroyed; and while
  256 are held it shares one and takes no lease.
\<close>

theorem first_record_gets_its_own_shard:
  assumes "shard_reach s peak" and "sh_id s t = None" and "shard_index t s = (i, s')"
  shows "i < NUM_SHARDS \<and> sh_id s' t = Some i \<and>
    (if held s < NUM_SHARDS
     then (\<forall>t'. sh_lease s t' \<noteq> Some i) \<and> (sh_tls s t = Alive \<longrightarrow> sh_lease s' t = Some i)
     else sh_lease s' = sh_lease s)"
proof -
  have "assign_thread_shard t s = (i, s')" using assms(2,3) by (simp add: shard_index_def)
  with assign_inv [OF _ assms(2)] reach_inv [OF assms(1)] show ?thesis by blast
qed

theorem first_record_gets_its_own_shard_witness:
  "(let (i, s') = shard_index 7 sh_init in i = 255 \<and> sh_lease s' 7 = Some i)"
proof -
  obtain i s' where call: "shard_index 7 sh_init = (i, s')" by (meson surj_pair)
  have "held sh_init < NUM_SHARDS" by (simp add: held_def sh_init_def NUM_SHARDS_def)
  with first_record_gets_its_own_shard [OF reach_start _ call] have "sh_lease s' 7 = Some i"
    by (simp add: sh_init_def)
  moreover have "i = 255"
    using call by (auto simp: shard_index_def assign_thread_shard_def sh_init_def sp_take_def sp_new_def NUM_SHARDS_def)
  ultimately show ?thesis by (simp add: call)
qed

end
