(* ===== verification/ShardedGroups.thy ===== *)
theory ShardedGroups
  imports ShardPool SlotId
begin

text \<open>
  \<open>ShardedCounterGroup\<close> (\<open>metriken/src/sharded.rs\<close>): counters whose threads write to shards of
  their own, laid out in cache lines. \<open>a\<close> is the target architecture, which decides the
  size of a line. A write is one \<open>fetch_add\<close> on one slot of the calling thread's shard; a read sums a
  slot over all shards with \<open>+=\<close>, which panics on overflow when the program is built with overflow checks
  (\<open>ovf\<close>) and wraps otherwise.
\<close>

section \<open>State\<close>

definition CACHE_LINE :: "string \<Rightarrow> nat" where
  "CACHE_LINE a =
     (if a \<in> {''x86_64'', ''aarch64'', ''arm64ec'', ''powerpc64''} then 128
      else if a \<in> {''arm'', ''mips'', ''mips32r6'', ''mips64'', ''mips64r6'', ''sparc'', ''hexagon''} then 32
      else if a = ''m68k'' then 16
      else if a = ''s390x'' then 256
      else 64)"

definition SLOTS_PER_LINE :: "string \<Rightarrow> nat" where
  "SLOTS_PER_LINE a = CACHE_LINE a div 8"

record sharded_group =
  sg_values :: "u64 list list option"   \<comment> \<open>the \<open>OnceLock\<close>; a \<open>CacheLine\<close> is the list of its slots\<close>
  sg_metadata :: group_metadata
  sg_entries :: nat
  sg_lines :: nat                       \<comment> \<open>\<open>lines_per_shard\<close>\<close>

definition div_ceil :: "nat \<Rightarrow> nat \<Rightarrow> nat" where
  "div_ceil m n = m div n + (if m mod n = 0 then 0 else 1)"

definition sg_new :: "string \<Rightarrow> nat \<Rightarrow> sharded_group" where
  "sg_new a n = \<lparr>sg_values = None, sg_metadata = gm_new, sg_entries = n,
     sg_lines = div_ceil n (SLOTS_PER_LINE a)\<rparr>"

definition sg_get_or_init :: "string \<Rightarrow> sharded_group \<Rightarrow> sharded_group" where
  "sg_get_or_init a g =
     (case sg_values g of
        Some _ \<Rightarrow> g
      | None \<Rightarrow> g\<lparr>sg_values := Some (replicate (NUM_SHARDS * sg_lines g) (replicate (SLOTS_PER_LINE a) 0))\<rparr>)"

section \<open>Operations\<close>

datatype sharded_panic = OutOfBounds | Overflow

text \<open>\<open>self.slot(shard, idx).fetch_add(value)\<close>.\<close>

definition sg_fetch_add :: "string \<Rightarrow> nat \<Rightarrow> nat \<Rightarrow> u64 \<Rightarrow> sharded_group \<Rightarrow>
    (sharded_panic + u64) \<times> sharded_group" where
  "sg_fetch_add a shard idx v g =
     (let line = shard * sg_lines g + idx div SLOTS_PER_LINE a;
          slot = idx mod SLOTS_PER_LINE a;
          g = sg_get_or_init a g;
          lines = the (sg_values g)
      in if line < length lines \<and> slot < length (lines ! line)
         then (Inr (lines ! line ! slot),
               g\<lparr>sg_values := Some (lines[line := (lines ! line)[slot := lines ! line ! slot + v]])\<rparr>)
         else (Inl OutOfBounds, g))"

definition sg_add :: "string \<Rightarrow> nat \<Rightarrow> nat \<Rightarrow> u64 \<Rightarrow> shard_sys \<times> sharded_group \<Rightarrow>
    (sharded_panic + bool) \<times> shard_sys \<times> sharded_group" where
  "sg_add a t idx v = (\<lambda>(s, g).
     if sg_entries g \<le> idx then (Inr False, s, g)
     else let (shard, s') = shard_index t s;
              (r, g') = sg_fetch_add a shard idx v g
          in (map_sum id (\<lambda>_. True) r, s', g'))"

definition sg_increment :: "string \<Rightarrow> nat \<Rightarrow> nat \<Rightarrow> shard_sys \<times> sharded_group \<Rightarrow>
    (sharded_panic + bool) \<times> shard_sys \<times> sharded_group" where
  "sg_increment a t idx = sg_add a t idx 1"

text \<open>\<open>sum += x\<close>.\<close>

definition plus_u64 :: "bool \<Rightarrow> u64 \<Rightarrow> u64 \<Rightarrow> sharded_panic + u64" where
  "plus_u64 ovf x y = (if ovf \<and> 2 ^ 64 \<le> unat x + unat y then Inl Overflow else Inr (x + y))"

fun sum_shards :: "bool \<Rightarrow> string \<Rightarrow> nat \<Rightarrow> sharded_group \<Rightarrow> u64 list list \<Rightarrow> nat list \<Rightarrow> u64 \<Rightarrow>
    sharded_panic + u64" where
  "sum_shards ovf a idx g lines [] acc = Inr acc"
| "sum_shards ovf a idx g lines (shard # shards) acc =
     (let line = shard * sg_lines g + idx div SLOTS_PER_LINE a;
          slot = idx mod SLOTS_PER_LINE a
      in if line < length lines \<and> slot < length (lines ! line)
         then (case plus_u64 ovf acc (lines ! line ! slot) of
                 Inl e \<Rightarrow> Inl e
               | Inr acc' \<Rightarrow> sum_shards ovf a idx g lines shards acc')
         else Inl OutOfBounds)"

definition sg_value :: "bool \<Rightarrow> string \<Rightarrow> nat \<Rightarrow> sharded_group \<Rightarrow> sharded_panic + u64 option" where
  "sg_value ovf a idx g =
     (if sg_entries g \<le> idx then Inr None
      else case sg_values g of
          None \<Rightarrow> Inr None
        | Some lines \<Rightarrow> map_sum id Some (sum_shards ovf a idx g lines [0..<NUM_SHARDS] 0))"

fun sg_load_from :: "bool \<Rightarrow> string \<Rightarrow> sharded_group \<Rightarrow> nat list \<Rightarrow> sharded_panic + u64 list" where
  "sg_load_from ovf a g [] = Inr []"
| "sg_load_from ovf a g (idx # idxs) =
     (case sg_value ovf a idx g of
        Inl e \<Rightarrow> Inl e
      | Inr v \<Rightarrow> map_sum id (Cons (case v of None \<Rightarrow> 0 | Some v \<Rightarrow> v)) (sg_load_from ovf a g idxs))"

definition sg_load :: "bool \<Rightarrow> string \<Rightarrow> sharded_group \<Rightarrow> sharded_panic + u64 list option" where
  "sg_load ovf a g =
     (case sg_values g of
        None \<Rightarrow> Inr None
      | Some _ \<Rightarrow> map_sum id Some (sg_load_from ovf a g [0..<sg_entries g]))"

definition sg_set_metadata :: "nat \<Rightarrow> smap \<Rightarrow> sharded_group \<Rightarrow> sharded_group" where
  "sg_set_metadata idx md g =
     (if idx < sg_entries g then g\<lparr>sg_metadata := gm_insert idx md (sg_metadata g)\<rparr> else g)"

definition sg_insert_metadata :: "nat \<Rightarrow> string \<Rightarrow> string \<Rightarrow> sharded_group \<Rightarrow> sharded_group" where
  "sg_insert_metadata idx k v g =
     (if idx < sg_entries g then g\<lparr>sg_metadata := gm_insert_kv idx k v (sg_metadata g)\<rparr> else g)"

definition sg_clear_metadata :: "nat \<Rightarrow> sharded_group \<Rightarrow> sharded_group" where
  "sg_clear_metadata idx g = g\<lparr>sg_metadata := gm_remove idx (sg_metadata g)\<rparr>"

definition sg_load_metadata :: "sharded_group \<Rightarrow> nat \<Rightarrow> smap option" where
  "sg_load_metadata g idx = gm_load (sg_metadata g) idx"

definition sg_metadata_version :: "sharded_group \<Rightarrow> u64" where
  "sg_metadata_version g = gm_version (sg_metadata g)"

definition sg_metadata_snapshot :: "sharded_group \<Rightarrow> (nat \<times> smap) fset" where
  "sg_metadata_snapshot g = gm_snapshot (sg_metadata g)"

text \<open>A sharded group under a \<open>SlotIdentity\<close>.\<close>

definition sharded_slots :: "sharded_group slot_trait" where
  "sharded_slots = \<lparr>set_metadata = sg_set_metadata, clear_metadata = sg_clear_metadata,
     metadata_snapshot = sg_metadata_snapshot\<rparr>"

interpretation sharded_slots: slot_metadata sharded_slots sg_entries
  by unfold_locales
    (auto simp: sharded_slots_def sg_set_metadata_def sg_clear_metadata_def
      sg_metadata_snapshot_def gm_snapshot_iff)

section \<open>The layout\<close>

lemma slots_per_line_pos [simp]: "0 < SLOTS_PER_LINE a"
  by (simp add: SLOTS_PER_LINE_def CACHE_LINE_def)

lemma line_in_shard: "idx < n \<Longrightarrow> 0 < k \<Longrightarrow> idx div k < div_ceil n k"
proof -
  assume "idx < n" "0 < k"
  have "n \<le> div_ceil n k * k"
  proof -
    have "k * (n div k) + n mod k \<le> k * (n div k) + (if n mod k = 0 then 0 else k)"
      by (rule add_left_mono) (use mod_less_divisor [OF \<open>0 < k\<close>, of n] in \<open>auto\<close>)
    then have "n \<le> k * (n div k) + (if n mod k = 0 then 0 else k)"
      by (simp only: mult_div_mod_eq)
    then show ?thesis by (auto simp: div_ceil_def algebra_simps split: if_splits)
  qed
  with \<open>idx < n\<close> show "idx div k < div_ceil n k"
    by (metis less_le_trans less_mult_imp_div_less)
qed

lemma line_in_bounds:
  assumes "shard < NUM_SHARDS" "l < m"
  shows "shard * m + l < NUM_SHARDS * m"
proof -
  have "shard * m + l < (shard + 1) * m" using assms(2) by simp
  also have "\<dots> \<le> NUM_SHARDS * m" using assms(1) by (intro mult_le_mono1) simp
  finally show ?thesis .
qed

text \<open>Different shards, or different entries, never share a slot.\<close>

lemma slot_inj:
  assumes "0 < k" "i div k < m" "j div k < m"
    and "s * m + i div k = t * m + j div k" "i mod k = j mod k"
  shows "s = t \<and> i = (j :: nat)"
proof -
  have "(s * m + i div k) div m = s" "(t * m + j div k) div m = t" using assms(2,3) by auto
  then have "s = t" using assms(4) by simp
  then have "i div k = j div k" using assms(4) by simp
  then show ?thesis using \<open>s = t\<close> assms(5) by (metis div_mult_mod_eq)
qed

definition sg_inv :: "string \<Rightarrow> sharded_group \<Rightarrow> bool" where
  "sg_inv a g \<longleftrightarrow> sg_lines g = div_ceil (sg_entries g) (SLOTS_PER_LINE a) \<and>
     (case sg_values g of None \<Rightarrow> True
      | Some lines \<Rightarrow> length lines = NUM_SHARDS * sg_lines g \<and>
          (\<forall>line \<in> set lines. length line = SLOTS_PER_LINE a))"

definition cell_at :: "string \<Rightarrow> sharded_group \<Rightarrow> nat \<Rightarrow> nat \<Rightarrow> u64" where
  "cell_at a g shard idx =
     (case sg_values g of None \<Rightarrow> 0
      | Some lines \<Rightarrow> lines ! (shard * sg_lines g + idx div SLOTS_PER_LINE a) ! (idx mod SLOTS_PER_LINE a))"

lemma sg_inv_new: "sg_inv a (sg_new a n)"
  by (simp add: sg_inv_def sg_new_def)

lemma sg_bounds:
  assumes "sg_inv a g" "sg_values g = Some lines" "idx < sg_entries g" "shard < NUM_SHARDS"
  shows "shard * sg_lines g + idx div SLOTS_PER_LINE a < length lines"
    "idx mod SLOTS_PER_LINE a < length (lines ! (shard * sg_lines g + idx div SLOTS_PER_LINE a))"
proof -
  have "idx div SLOTS_PER_LINE a < sg_lines g"
    using assms line_in_shard by (simp add: sg_inv_def)
  then show line: "shard * sg_lines g + idx div SLOTS_PER_LINE a < length lines"
    using assms line_in_bounds by (simp add: sg_inv_def)
  then show "idx mod SLOTS_PER_LINE a < length (lines ! (shard * sg_lines g + idx div SLOTS_PER_LINE a))"
    using assms by (simp add: sg_inv_def)
qed

lemma sg_get_or_init_inv:
  assumes "sg_inv a g"
  shows "sg_inv a (sg_get_or_init a g)" "sg_values (sg_get_or_init a g) \<noteq> None"
    "sg_entries (sg_get_or_init a g) = sg_entries g" "sg_lines (sg_get_or_init a g) = sg_lines g"
    "idx < sg_entries g \<Longrightarrow> shard < NUM_SHARDS \<Longrightarrow>
       cell_at a (sg_get_or_init a g) shard idx = cell_at a g shard idx"
proof -
  show "sg_inv a (sg_get_or_init a g)" "sg_values (sg_get_or_init a g) \<noteq> None"
    "sg_entries (sg_get_or_init a g) = sg_entries g" "sg_lines (sg_get_or_init a g) = sg_lines g"
    using assms by (auto simp: sg_inv_def sg_get_or_init_def split: option.splits)
  assume "idx < sg_entries g" "shard < NUM_SHARDS"
  moreover have "idx div SLOTS_PER_LINE a < sg_lines g"
    using assms line_in_shard calculation(1) by (simp add: sg_inv_def)
  ultimately show "cell_at a (sg_get_or_init a g) shard idx = cell_at a g shard idx"
    using line_in_bounds by (simp add: cell_at_def sg_get_or_init_def split: option.splits)
qed

lemma sg_fetch_add_correct:
  assumes inv: "sg_inv a g" and idx: "idx < sg_entries g" and shard: "shard < NUM_SHARDS"
  shows "\<exists>old g'. sg_fetch_add a shard idx v g = (Inr old, g') \<and> sg_inv a g' \<and>
    sg_entries g' = sg_entries g \<and> sg_values g' \<noteq> None \<and>
    (\<forall>s i. s < NUM_SHARDS \<longrightarrow> i < sg_entries g \<longrightarrow>
       cell_at a g' s i = (if s = shard \<and> i = idx then cell_at a g s i + v else cell_at a g s i))"
proof -
  let ?g = "sg_get_or_init a g"
  obtain lines where lines: "sg_values ?g = Some lines"
    using sg_get_or_init_inv(2) [OF inv] by blast
  note init = sg_get_or_init_inv [OF inv]
  let ?line = "shard * sg_lines g + idx div SLOTS_PER_LINE a" and ?slot = "idx mod SLOTS_PER_LINE a"
  have bounds: "?line < length lines" "?slot < length (lines ! ?line)"
    using sg_bounds [OF init(1) lines _ shard, of idx] idx init(3,4) by simp_all
  let ?lines = "lines[?line := (lines ! ?line)[?slot := lines ! ?line ! ?slot + v]]"
  let ?g' = "?g\<lparr>sg_values := Some ?lines\<rparr>"
  have "sg_fetch_add a shard idx v g = (Inr (lines ! ?line ! ?slot), ?g')"
    using bounds by (simp add: sg_fetch_add_def Let_def lines)
  moreover have "sg_inv a ?g'"
    using init(1) lines bounds by (auto simp: sg_inv_def dest!: set_update_subset_insert [THEN subsetD])
  moreover have "cell_at a ?g' s i = (if s = shard \<and> i = idx then cell_at a g s i + v else cell_at a g s i)"
    if s: "s < NUM_SHARDS" and i: "i < sg_entries g" for s i
  proof -
    let ?l = "s * sg_lines g + i div SLOTS_PER_LINE a" and ?t = "i mod SLOTS_PER_LINE a"
    have l: "?l < length lines" "?t < length (lines ! ?l)"
      using sg_bounds [OF init(1) lines _ s, of i] i init(3,4) by simp_all
    have small: "i div SLOTS_PER_LINE a < sg_lines g" "idx div SLOTS_PER_LINE a < sg_lines g"
      using inv line_in_shard idx i by (simp_all add: sg_inv_def)
    have old: "cell_at a g s i = lines ! ?l ! ?t"
      using init(5) [OF i s] lines init(4) by (simp add: cell_at_def)
    have same: "?l = ?line \<and> ?t = ?slot \<longleftrightarrow> s = shard \<and> i = idx"
      using slot_inj [OF _ small] by auto
    have "cell_at a ?g' s i = ?lines ! ?l ! ?t"
      by (simp add: cell_at_def init(4))
    also have "\<dots> = (if ?l = ?line \<and> ?t = ?slot then lines ! ?l ! ?t + v else lines ! ?l ! ?t)"
      using l bounds by (simp add: nth_list_update)
    finally show ?thesis unfolding same old .
  qed
  ultimately show ?thesis using init(3) by auto
qed

section \<open>Reading\<close>

lemma sum_shards_wrap:
  assumes "sg_inv a g" "sg_values g = Some lines" "idx < sg_entries g" "\<forall>s \<in> set shards. s < NUM_SHARDS"
  shows "sum_shards False a idx g lines shards acc =
    Inr (acc + sum_list (map (\<lambda>s. cell_at a g s idx) shards))"
  using assms(4)
proof (induction shards arbitrary: acc)
  case (Cons s shards)
  then show ?case
    using sg_bounds [OF assms(1-3), of s]
    by (simp add: Let_def plus_u64_def cell_at_def assms(2) add.assoc)
qed simp

lemma sum_shards_checked:
  assumes "sg_inv a g" "sg_values g = Some lines" "idx < sg_entries g" "\<forall>s \<in> set shards. s < NUM_SHARDS"
  shows "sum_shards True a idx g lines shards acc =
    (if unat acc + sum_list (map (\<lambda>s. unat (cell_at a g s idx)) shards) < 2 ^ 64
     then Inr (acc + sum_list (map (\<lambda>s. cell_at a g s idx) shards)) else Inl Overflow)"
  using assms(4)
proof (induction shards arbitrary: acc)
  case Nil
  have "unat acc < 2 ^ 64" using unsigned_less [of acc] by simp
  then show ?case by simp
next
  case (Cons s shards)
  let ?c = "cell_at a g s idx"
  have line: "sum_shards True a idx g lines (s # shards) acc =
      (case plus_u64 True acc ?c of Inl e \<Rightarrow> Inl e | Inr acc' \<Rightarrow> sum_shards True a idx g lines shards acc')"
    using sg_bounds [OF assms(1-3), of s] Cons.prems by (simp add: Let_def cell_at_def assms(2))
  show ?case
  proof (cases "unat acc + unat ?c < 2 ^ 64")
    case True
    then have "unat (acc + ?c) = unat acc + unat ?c" by (simp add: unat_word_ariths)
    with True Cons line show ?thesis by (simp add: plus_u64_def add.assoc)
  next
    case False
    with line show ?thesis by (simp add: plus_u64_def)
  qed
qed

section \<open>Threads recording\<close>

text \<open>A process whose threads take, set and return shards and add to one group; \<open>adds\<close> lists
  the calls of \<open>add\<close> made so far.\<close>

inductive sg_reach :: "string \<Rightarrow> nat \<Rightarrow> (nat \<times> u64) list \<Rightarrow> shard_sys \<times> sharded_group \<Rightarrow> bool"
  for a :: string and n :: nat where
  sg_start: "sg_reach a n [] (sh_init, sg_new a n)"
| sg_thread: "sg_reach a n adds (s, g) \<Longrightarrow> shard_step s s' \<Longrightarrow> sg_reach a n adds (s', g)"
| sg_call: "sg_reach a n adds (s, g) \<Longrightarrow> sh_tls s t \<noteq> Exited \<Longrightarrow>
    snd (sg_add a t idx v (s, g)) = (s', g') \<Longrightarrow> sg_reach a n (adds @ [(idx, v)]) (s', g')"

definition added :: "nat \<Rightarrow> (nat \<times> u64) list \<Rightarrow> u64 list" where
  "added idx adds = map snd (filter (\<lambda>e. fst e = idx) adds)"

lemma added_simps [simp]:
  "added idx [] = []"
  "added idx (adds @ [(i, v)]) = added idx adds @ (if i = idx then [v] else [])"
  by (simp_all add: added_def)

lemma sum_at_one:
  fixes f :: "nat \<Rightarrow> u64"
  assumes "k < m"
  shows "sum_list (map (\<lambda>s. if s = k then f s + v else f s) [0..<m]) = sum_list (map f [0..<m]) + v"
proof -
  have "map (\<lambda>s. if s = k then f s + v else f s) [0..<m] =
      (map f [0..<m])[k := map f [0..<m] ! k + v]"
    using assms by (intro nth_equalityI) (auto simp: nth_list_update)
  then show ?thesis using sum_list_word_update [of k "map f [0..<m]" v] assms by simp
qed

definition sg_sum :: "string \<Rightarrow> sharded_group \<Rightarrow> nat \<Rightarrow> u64" where
  "sg_sum a g idx = sum_list (map (\<lambda>s. cell_at a g s idx) [0..<NUM_SHARDS])"

lemma shard_index_step:
  assumes "shard_inv s" "shard_index t s = (i, s')"
  shows "shard_inv s' \<and> i < NUM_SHARDS"
proof (cases "sh_id s t")
  case None
  with assms assign_inv [OF assms(1) None] show ?thesis by (auto simp: shard_index_def)
next
  case (Some j)
  with assms shard_invD(8) [OF assms(1) Some] show ?thesis by (auto simp: shard_index_def)
qed

lemma sg_add_correct:
  assumes "shard_inv s" "sg_inv a g"
  shows "\<exists>s' g'. sg_add a t idx v (s, g) = (Inr (idx < sg_entries g), s', g') \<and> shard_inv s' \<and>
    sg_inv a g' \<and> sg_entries g' = sg_entries g \<and>
    (sg_values g' \<noteq> None \<longleftrightarrow> sg_values g \<noteq> None \<or> idx < sg_entries g) \<and>
    (\<forall>i < sg_entries g. sg_sum a g' i = sg_sum a g i + (if i = idx then v else 0))"
proof (cases "idx < sg_entries g")
  case False
  with assms show ?thesis by (simp add: sg_add_def)
next
  case True
  obtain shard s' where shard: "shard_index t s = (shard, s')" by (meson surj_pair)
  have s': "shard_inv s'" "shard < NUM_SHARDS" using shard_index_step [OF assms(1) shard] by auto
  obtain old g' where add: "sg_fetch_add a shard idx v g = (Inr old, g')" "sg_inv a g'"
      "sg_entries g' = sg_entries g" "sg_values g' \<noteq> None"
    and cells: "\<And>k i. k < NUM_SHARDS \<Longrightarrow> i < sg_entries g \<Longrightarrow>
       cell_at a g' k i = (if k = shard \<and> i = idx then cell_at a g k i + v else cell_at a g k i)"
    using sg_fetch_add_correct [OF assms(2) True s'(2), of v] by blast
  have "sg_sum a g' i = sg_sum a g i + (if i = idx then v else 0)" if i: "i < sg_entries g" for i
  proof -
    have eq: "map (\<lambda>k. cell_at a g' k i) [0..<NUM_SHARDS] =
        map (\<lambda>k. if k = shard \<and> i = idx then cell_at a g k i + v else cell_at a g k i) [0..<NUM_SHARDS]"
      using cells i by simp
    show ?thesis
      unfolding sg_sum_def eq
      using sum_at_one [OF s'(2), of "\<lambda>k. cell_at a g k i" v] by simp
  qed
  with True shard add s'(1) show ?thesis by (simp add: sg_add_def)
qed

lemma sg_reach_inv:
  assumes "sg_reach a n adds st"
  shows "shard_inv (fst st) \<and> sg_inv a (snd st) \<and> sg_entries (snd st) = n \<and>
    (sg_values (snd st) \<noteq> None \<longleftrightarrow> (\<exists>e \<in> set adds. fst e < n)) \<and>
    (\<forall>i < n. sg_sum a (snd st) i = sum_list (added i adds))"
  using assms
proof (induction rule: sg_reach.induct)
  case sg_start
  then show ?case
    using shard_inv_init sg_inv_new [of a n]
    by (simp add: sg_new_def sg_sum_def cell_at_def sum_list_triv)
next
  case (sg_thread adds s g s')
  with step_inv show ?case by auto
next
  case (sg_call adds s g t idx v s' g')
  then have "shard_inv s" "sg_inv a g" by simp_all
  from sg_add_correct [OF this, of t idx v] sg_call show ?case by auto
qed

lemma wrapping_read:
  assumes "sg_reach a n adds (s, g)"
  shows "sg_value False a idx g =
      Inr (if idx < n \<and> (\<exists>e \<in> set adds. fst e < n) then Some (sum_list (added idx adds)) else None)"
proof -
  have inv: "sg_inv a g" "sg_entries g = n"
      "sg_values g \<noteq> None \<longleftrightarrow> (\<exists>e \<in> set adds. fst e < n)"
      "\<forall>i < n. sg_sum a g i = sum_list (added i adds)"
    using sg_reach_inv [OF assms] by auto
  have "sg_value False a idx g = Inr (if idx < n \<and> sg_values g \<noteq> None
      then Some (sum_list (added idx adds)) else None)"
  proof (cases "idx < n \<and> sg_values g \<noteq> None")
    case True
    then obtain lines where lines: "sg_values g = Some lines" by blast
    have "sum_shards False a idx g lines [0..<NUM_SHARDS] 0 = Inr (sg_sum a g idx)"
      using sum_shards_wrap [OF inv(1) lines, of idx "[0..<NUM_SHARDS]" 0] True inv(2)
      by (simp add: sg_sum_def)
    with True lines inv(2,4) show ?thesis by (simp add: sg_value_def)
  next
    case False
    with inv(2) show ?thesis by (auto simp: sg_value_def)
  qed
  then show ?thesis using inv(3) by simp
qed

text \<open>
  C7. A sharded counter counts. Whatever threads record, whenever they take, choose, return or
  share shards and exit, no call of \<open>add\<close> panics and it returns whether the entry exists; and a read of an entry
  of a group that was written to returns exactly the sum of the values added to that
  entry, as a wrapping \<open>u64\<close>: the entries and the shards never overlap in the cache lines, and a
  shard that changes hands keeps its counts. That is of a build without overflow checks, the \<open>False\<close>: with them a
  read panics where the sum passes \<open>u64::MAX\<close>.
\<close>

theorem sharded_counter_counts:
  assumes "sg_reach a n adds (s, g)"
  shows "sg_value False a idx g =
      Inr (if idx < n \<and> (\<exists>e \<in> set adds. fst e < n) then Some (sum_list (added idx adds)) else None) \<and>
    fst (sg_add a t idx v (s, g)) = Inr (idx < n)"
  using wrapping_read [OF assms] sg_reach_inv [OF assms] sg_add_correct [of s a g t idx v] by auto

lemma reach_one_add:
  "sg_reach a n [(idx, v)] (snd (sg_add a t idx v (sh_init, sg_new a n)))"
proof -
  obtain s g where sg: "snd (sg_add a t idx v (sh_init, sg_new a n)) = (s, g)" by (meson surj_pair)
  have "sg_reach a n ([] @ [(idx, v)]) (s, g)"
    by (rule sg_call [OF sg_start _ sg]) (simp add: sh_init_def)
  then show ?thesis by (simp add: sg)
qed

theorem sharded_counter_counts_witness:
  "\<exists>g. sg_value False ''x86_64'' 17 g = Inr (Some 5) \<and> sg_value False ''x86_64'' 1 g = Inr (Some 0)"
proof -
  obtain s g where sg: "snd (sg_add ''x86_64'' 3 17 5 (sh_init, sg_new ''x86_64'' 20)) = (s, g)"
    by (meson surj_pair)
  have reach: "sg_reach ''x86_64'' 20 [(17, 5)] (s, g)"
    using reach_one_add [of "''x86_64''" 20 17 5 3] by (simp add: sg)
  show ?thesis
    using sharded_counter_counts [OF reach, of 17] sharded_counter_counts [OF reach, of 1]
    by (intro exI [of _ g]) (simp add: added_def)
qed

lemma checked_read:
  assumes "sg_reach a n adds (s, g)" and "idx < n" and "sg_values g \<noteq> None"
  shows "sg_value True a idx g =
    (if sum_list (map (\<lambda>shard. unat (cell_at a g shard idx)) [0..<NUM_SHARDS]) < 2 ^ 64
     then sg_value False a idx g else Inl Overflow)"
proof -
  have inv: "sg_inv a g" "sg_entries g = n" using sg_reach_inv [OF assms(1)] by auto
  obtain lines where lines: "sg_values g = Some lines" using assms(3) by blast
  show ?thesis
    using sum_shards_wrap [OF inv(1) lines, of idx "[0..<NUM_SHARDS]" 0]
      sum_shards_checked [OF inv(1) lines, of idx "[0..<NUM_SHARDS]" 0] assms(2) inv(2) lines
    by (simp add: sg_value_def)
qed

text \<open>The shards two new threads take.\<close>

lemma first_shards:
  obtains s1 s2 where "shard_index 0 sh_init = (255, s1)" "sh_tls s1 1 = Alive"
    "shard_index 1 s1 = (254, s2)"
  by (rule that [of "snd (shard_index 0 sh_init)" "snd (shard_index 1 (snd (shard_index 0 sh_init)))"])
    (simp_all add: shard_index_def assign_thread_shard_def sh_init_def sp_take_def sp_new_def NUM_SHARDS_def)

lemma two_cells_le:
  fixes f :: "nat \<Rightarrow> nat"
  assumes "i < j" "j < m"
  shows "f i + f j \<le> sum_list (map f [0..<m])"
proof -
  have "sum f {i, j} \<le> sum f {0..<m}" by (rule sum_mono2) (use assms in auto)
  then show ?thesis using assms(1) by (simp add: interv_sum_list_conv_sum_set_nat)
qed

text \<open>
  Where the program is built with overflow checks, reading a sharded counter can panic:
  the slots of the shards wrap when they are added to, but the sum over the shards does not. One thread adds the
  largest \<open>u64\<close> to an entry and another adds one; both calls succeed, and a
  plain counter would read 0, as this one does without the checks, but the read
  overflows.
\<close>

theorem checked_read_can_panic:
  "\<exists>s g. sg_reach a 1 [(0, u64_max), (0, 1)] (s, g) \<and>
     sg_value False a 0 g = Inr (Some 0) \<and> sg_value True a 0 g = Inl Overflow"
proof -
  obtain s1 s2 where shards: "shard_index 0 sh_init = (255, s1)" "sh_tls s1 1 = Alive"
      "shard_index 1 s1 = (254, s2)"
    by (rule first_shards)
  have n: "sg_entries (sg_new a m) = m" for m by (simp add: sg_new_def)
  have zero: "cell_at a (sg_new a m) k i = 0" for k i m by (simp add: cell_at_def sg_new_def)
  obtain o1 g1 where g1: "sg_fetch_add a 255 0 u64_max (sg_new a 1) = (Inr o1, g1)" "sg_inv a g1"
      "sg_entries g1 = 1"
    and c1: "\<And>k. k < NUM_SHARDS \<Longrightarrow> cell_at a g1 k 0 = (if k = 255 then u64_max else 0)"
    using sg_fetch_add_correct [OF sg_inv_new [of a 1], where idx = 0 and shard = 255 and v = u64_max] by (auto simp: n zero NUM_SHARDS_def)
  obtain o2 g2 where g2: "sg_fetch_add a 254 0 1 g1 = (Inr o2, g2)" "sg_values g2 \<noteq> None"
    and c2: "\<And>k. k < NUM_SHARDS \<Longrightarrow> cell_at a g2 k 0 = (if k = 254 then cell_at a g1 k 0 + 1 else cell_at a g1 k 0)"
    using sg_fetch_add_correct [OF g1(2), where idx = 0 and shard = 254 and v = 1] by (auto simp: g1(3) NUM_SHARDS_def)
  have "sg_reach a 1 ([] @ [(0, u64_max)]) (s1, g1)"
    by (rule sg_call [OF sg_start, where t = 0]) (simp_all add: sh_init_def sg_add_def n shards(1) [unfolded sh_init_def] g1(1) [simplified])
  then have reach: "sg_reach a 1 ([(0, u64_max)] @ [(0, 1)]) (s2, g2)"
    by (intro sg_call [where s = s1 and g = g1 and t = 1 and v = 1]) (simp_all add: shards [simplified] sg_add_def g1(3) g2(1))
  have "sg_value False a 0 g2 = Inr (Some 0)"
    using wrapping_read [OF reach, of 0] by (simp add: added_def)
  moreover have "sg_value True a 0 g2 = Inl Overflow"
  proof -
    have "unat (cell_at a g2 254 0) + unat (cell_at a g2 255 0) = 2 ^ 64"
      by (simp add: c2 c1 NUM_SHARDS_def unat_u64_max)
    then have "\<not> sum_list (map (\<lambda>shard. unat (cell_at a g2 shard 0)) [0..<NUM_SHARDS]) < 2 ^ 64"
      using two_cells_le [of 254 255 NUM_SHARDS "\<lambda>k. unat (cell_at a g2 k 0)"] by (simp add: NUM_SHARDS_def)
    with checked_read [OF reach _ g2(2), of 0] show ?thesis by simp
  qed
  ultimately show ?thesis using reach by auto
qed

end
