(* ===== verification/Histograms.thy ===== *)
theory Histograms
  imports ShardedGroups
begin

text \<open>
  The histograms of \<open>metriken/src/histogram.rs\<close>, \<open>metriken/src/group/histogram.rs\<close> and
  \<open>metriken/src/sharded.rs\<close>. The bucket arrays come from the \<open>histogram\<close> crate, which is not part of
  the repository: its functions are the record \<open>hist_crate\<close>, and \<open>crate_ok\<close> is what this code relies
  on. A \<open>histogram::Histogram\<close> is read through \<open>as_slice\<close>, so it is the list of its
  buckets' counts.
\<close>

section \<open>What the crate provides\<close>

record hist_config =
  grouping_power :: nat
  max_value_power :: nat

datatype hist_error = OutOfRange | IncompatibleParameters

record 'h hist_crate =
  hc_config :: "nat \<Rightarrow> nat \<Rightarrow> hist_config option"           \<comment> \<open>\<open>Config::new\<close>\<close>
  hc_total_buckets :: "hist_config \<Rightarrow> nat"
  hc_with_config :: "hist_config \<Rightarrow> 'h"                    \<comment> \<open>\<open>AtomicHistogram::with_config\<close>\<close>
  hc_add :: "u64 \<Rightarrow> u64 \<Rightarrow> 'h \<Rightarrow> hist_error + 'h"           \<comment> \<open>\<open>AtomicHistogram::add\<close>\<close>
  hc_load :: "'h \<Rightarrow> u64 list"

text \<open>Whether \<open>value\<close> falls in a bucket of \<open>config\<close>; a \<open>max_value_power\<close> is at most 64.\<close>

definition in_range :: "hist_config \<Rightarrow> u64 \<Rightarrow> bool" where
  "in_range config value \<longleftrightarrow>
     max_value_power config = 64 \<or> value < push_bit (max_value_power config) 1"

text \<open>
  Of the crate: a new histogram has \<open>total_buckets\<close> buckets at zero; every value in range has a
  bucket, and \<open>add\<close> adds the count to it with a wrapping \<open>fetch_add\<close> and leaves the others; it
  rejects a value out of range.
\<close>

definition crate_ok :: "'h hist_crate \<Rightarrow> hist_config \<Rightarrow> (u64 \<Rightarrow> nat) \<Rightarrow> bool" where
  "crate_ok hc config bucket \<longleftrightarrow>
     hc_load hc (hc_with_config hc config) = replicate (hc_total_buckets hc config) 0 \<and>
     (\<forall>value count h. length (hc_load hc h) = hc_total_buckets hc config \<longrightarrow>
        (if in_range config value
         then bucket value < hc_total_buckets hc config \<and>
           (\<exists>h'. hc_add hc value count h = Inr h' \<and>
              hc_load hc h' = (hc_load hc h)[bucket value := hc_load hc h ! bucket value + count])
         else hc_add hc value count h = Inl OutOfRange))"

section \<open>One histogram\<close>

text \<open>\<open>new\<close> panics on an invalid configuration (\<open>None\<close>).\<close>

record 'h atomic_histogram =
  ah_inner :: "'h option"
  ah_config :: hist_config

definition ah_new :: "'h hist_crate \<Rightarrow> nat \<Rightarrow> nat \<Rightarrow> 'h atomic_histogram option" where
  "ah_new hc gp mvp = map_option (\<lambda>c. \<lparr>ah_inner = None, ah_config = c\<rparr>) (hc_config hc gp mvp)"

definition ah_get_or_init :: "'h hist_crate \<Rightarrow> 'h atomic_histogram \<Rightarrow> 'h" where
  "ah_get_or_init hc a =
     (case ah_inner a of Some h \<Rightarrow> h | None \<Rightarrow> hc_with_config hc (ah_config a))"

definition ah_increment :: "'h hist_crate \<Rightarrow> u64 \<Rightarrow> 'h atomic_histogram \<Rightarrow>
    (hist_error + unit) \<times> 'h atomic_histogram" where
  "ah_increment hc value a =
     (let h = ah_get_or_init hc a in
      case hc_add hc value 1 h of
        Inl e \<Rightarrow> (Inl e, a\<lparr>ah_inner := Some h\<rparr>)
      | Inr h' \<Rightarrow> (Inr (), a\<lparr>ah_inner := Some h'\<rparr>))"

definition ah_load :: "'h hist_crate \<Rightarrow> 'h atomic_histogram \<Rightarrow> u64 list option" where
  "ah_load hc a = map_option (hc_load hc) (ah_inner a)"

text \<open>The histograms replaced as a whole: buckets and window under one lock.\<close>

record rw_histogram =
  rw_inner :: "(u64 list \<times> window option) option"
  rw_config :: hist_config

definition rw_new :: "'h hist_crate \<Rightarrow> nat \<Rightarrow> nat \<Rightarrow> rw_histogram option" where
  "rw_new hc gp mvp = map_option (\<lambda>c. \<lparr>rw_inner = None, rw_config = c\<rparr>) (hc_config hc gp mvp)"

definition rw_get_or_init :: "'h hist_crate \<Rightarrow> rw_histogram \<Rightarrow> u64 list \<times> window option" where
  "rw_get_or_init hc r =
     (case rw_inner r of
        Some st \<Rightarrow> st
      | None \<Rightarrow> (replicate (hc_total_buckets hc (rw_config r)) 0, None))"

definition rw_update_from :: "'h hist_crate \<Rightarrow> u64 list \<Rightarrow> rw_histogram \<Rightarrow>
    (hist_error + unit) \<times> rw_histogram" where
  "rw_update_from hc data r =
     (if length data \<noteq> hc_total_buckets hc (rw_config r) then (Inl IncompatibleParameters, r)
      else let (buckets, window) = rw_get_or_init hc r
           in (Inr (), r\<lparr>rw_inner := Some (data, window)\<rparr>))"

definition rw_set_with_window :: "'h hist_crate \<Rightarrow> u64 list \<Rightarrow> window \<Rightarrow> rw_histogram \<Rightarrow>
    (hist_error + unit) \<times> rw_histogram" where
  "rw_set_with_window hc data w r =
     (if length data \<noteq> hc_total_buckets hc (rw_config r) then (Inl IncompatibleParameters, r)
      else (Inr (), r\<lparr>rw_inner := Some (data, Some w)\<rparr>))"

definition rw_load :: "rw_histogram \<Rightarrow> u64 list option" where
  "rw_load r = map_option fst (rw_inner r)"

definition rw_load_with_window :: "rw_histogram \<Rightarrow> u64 list option \<times> window option" where
  "rw_load_with_window r =
     (case rw_inner r of Some (h, w) \<Rightarrow> (Some h, w) | None \<Rightarrow> (None, None))"

text \<open>\<open>GaugeHistogram\<close> has the same state; its \<open>set\<close> clears the window.\<close>

definition gh_write :: "'h hist_crate \<Rightarrow> u64 list \<Rightarrow> window option \<Rightarrow> rw_histogram \<Rightarrow>
    (hist_error + unit) \<times> rw_histogram" where
  "gh_write hc buckets window r =
     (if length buckets \<noteq> hc_total_buckets hc (rw_config r) then (Inl IncompatibleParameters, r)
      else (Inr (), r\<lparr>rw_inner := Some (buckets, window)\<rparr>))"

definition gh_set :: "'h hist_crate \<Rightarrow> u64 list \<Rightarrow> rw_histogram \<Rightarrow> (hist_error + unit) \<times> rw_histogram" where
  "gh_set hc buckets = gh_write hc buckets None"

definition gh_set_with_window :: "'h hist_crate \<Rightarrow> u64 list \<Rightarrow> window \<Rightarrow> rw_histogram \<Rightarrow>
    (hist_error + unit) \<times> rw_histogram" where
  "gh_set_with_window hc buckets w = gh_write hc buckets (Some w)"

definition gh_load_with_window :: "rw_histogram \<Rightarrow> u64 list option \<times> window option" where
  "gh_load_with_window = rw_load_with_window"

section \<open>A group of histograms\<close>

record 'h histogram_group =
  hg_inner :: "'h list option"
  hg_metadata :: group_metadata
  hg_config :: hist_config
  hg_entries :: nat

definition hg_new :: "'h hist_crate \<Rightarrow> nat \<Rightarrow> nat \<Rightarrow> nat \<Rightarrow> 'h histogram_group option" where
  "hg_new hc n gp mvp = map_option (\<lambda>c. \<lparr>hg_inner = None, hg_metadata = gm_new, hg_config = c,
     hg_entries = n\<rparr>) (hc_config hc gp mvp)"

definition hg_get_or_init :: "'h hist_crate \<Rightarrow> 'h histogram_group \<Rightarrow> 'h list" where
  "hg_get_or_init hc g =
     (case hg_inner g of
        Some v \<Rightarrow> v
      | None \<Rightarrow> replicate (hg_entries g) (hc_with_config hc (hg_config g)))"

definition hg_increment :: "'h hist_crate \<Rightarrow> nat \<Rightarrow> u64 \<Rightarrow> 'h histogram_group \<Rightarrow>
    (hist_error + bool) \<times> 'h histogram_group" where
  "hg_increment hc idx value g =
     (if hg_entries g \<le> idx then (Inr False, g)
      else
        let inner = hg_get_or_init hc g in
        case hc_add hc value 1 (inner ! idx) of
          Inl e \<Rightarrow> (Inl e, g\<lparr>hg_inner := Some inner\<rparr>)
        | Inr h \<Rightarrow> (Inr True, g\<lparr>hg_inner := Some (inner[idx := h])\<rparr>))"

definition hg_load :: "'h hist_crate \<Rightarrow> nat \<Rightarrow> 'h histogram_group \<Rightarrow> u64 list option" where
  "hg_load hc idx g =
     (if hg_entries g \<le> idx then None else map_option (\<lambda>v. hc_load hc (v ! idx)) (hg_inner g))"

definition hg_load_all :: "'h hist_crate \<Rightarrow> 'h histogram_group \<Rightarrow> u64 list list option" where
  "hg_load_all hc g = map_option (map (hc_load hc)) (hg_inner g)"

section \<open>Sharded histograms\<close>

fun add_into :: "u64 list \<Rightarrow> u64 list \<Rightarrow> u64 list" where
  "add_into (x # xs) (y # ys) = (x + y) # add_into xs ys"
| "add_into xs ys = xs"

fun merge :: "u64 list list \<Rightarrow> u64 list option" where
  "merge [] = None"
| "merge (h # hs) = Some (foldl add_into h hs)"

record 'h sharded_histogram =
  sh_shards :: "'h option list"
  sh_config :: hist_config

definition sh_new :: "'h hist_crate \<Rightarrow> nat \<Rightarrow> nat \<Rightarrow> 'h sharded_histogram option" where
  "sh_new hc gp mvp =
     map_option (\<lambda>c. \<lparr>sh_shards = replicate NUM_SHARDS None, sh_config = c\<rparr>) (hc_config hc gp mvp)"

text \<open>\<open>init_shard\<close>: the shard found or allocated, unless the value is out of range.\<close>

definition sh_init_shard :: "'h hist_crate \<Rightarrow> nat \<Rightarrow> u64 \<Rightarrow> shard_sys \<Rightarrow> 'h sharded_histogram \<Rightarrow>
    (nat \<times> 'h) option \<times> shard_sys" where
  "sh_init_shard hc t value s g =
     (if \<not> in_range (sh_config g) value then (None, s)
      else let (i, s') = shard_index t s
           in (Some (i, case sh_shards g ! i of
                  Some h \<Rightarrow> h | None \<Rightarrow> hc_with_config hc (sh_config g)), s'))"

definition sh_add :: "'h hist_crate \<Rightarrow> nat \<Rightarrow> u64 \<Rightarrow> u64 \<Rightarrow> shard_sys \<times> 'h sharded_histogram \<Rightarrow>
    (hist_error + unit) \<times> shard_sys \<times> 'h sharded_histogram" where
  "sh_add hc t value count = (\<lambda>(s, g).
     let (found, s') =
       (case Option.bind (sh_id s t) (\<lambda>i. map_option (Pair i) (sh_shards g ! i)) of
          Some (i, h) \<Rightarrow> (Some (i, h), s)
        | None \<Rightarrow> sh_init_shard hc t value s g)
     in case found of
          None \<Rightarrow> (Inl OutOfRange, s', g)
        | Some (i, h) \<Rightarrow>
            (case hc_add hc value count h of
               Inl e \<Rightarrow> (Inl e, s', g\<lparr>sh_shards := (sh_shards g)[i := Some h]\<rparr>)
             | Inr h' \<Rightarrow> (Inr (), s', g\<lparr>sh_shards := (sh_shards g)[i := Some h']\<rparr>)))"

definition sh_increment :: "'h hist_crate \<Rightarrow> nat \<Rightarrow> u64 \<Rightarrow> shard_sys \<times> 'h sharded_histogram \<Rightarrow>
    (hist_error + unit) \<times> shard_sys \<times> 'h sharded_histogram" where
  "sh_increment hc t value = sh_add hc t value 1"

definition sh_load :: "'h hist_crate \<Rightarrow> 'h sharded_histogram \<Rightarrow> u64 list option" where
  "sh_load hc g = merge (map (hc_load hc) (List.map_filter (\<lambda>x. x) (sh_shards g)))"

text \<open>A shard of a group holds one histogram per entry.\<close>

record 'h sharded_histogram_group =
  shg_shards :: "'h list option list"
  shg_metadata :: group_metadata
  shg_config :: hist_config
  shg_entries :: nat

definition shg_new :: "'h hist_crate \<Rightarrow> nat \<Rightarrow> nat \<Rightarrow> nat \<Rightarrow> 'h sharded_histogram_group option" where
  "shg_new hc n gp mvp =
     map_option (\<lambda>c. \<lparr>shg_shards = replicate NUM_SHARDS None, shg_metadata = gm_new,
       shg_config = c, shg_entries = n\<rparr>) (hc_config hc gp mvp)"

definition shg_shard :: "'h hist_crate \<Rightarrow> nat \<Rightarrow> 'h sharded_histogram_group \<Rightarrow> 'h list" where
  "shg_shard hc i g =
     (case shg_shards g ! i of
        Some v \<Rightarrow> v
      | None \<Rightarrow> replicate (shg_entries g) (hc_with_config hc (shg_config g)))"

definition shg_add :: "'h hist_crate \<Rightarrow> nat \<Rightarrow> nat \<Rightarrow> u64 \<Rightarrow> u64 \<Rightarrow>
    shard_sys \<times> 'h sharded_histogram_group \<Rightarrow>
    (hist_error + bool) \<times> shard_sys \<times> 'h sharded_histogram_group" where
  "shg_add hc t idx value count = (\<lambda>(s, g).
     if shg_entries g \<le> idx then (Inr False, s, g)
     else if \<not> in_range (shg_config g) value then (Inl OutOfRange, s, g)
     else
       let (i, s') = shard_index t s;
           shard = shg_shard hc i g
       in case hc_add hc value count (shard ! idx) of
            Inl e \<Rightarrow> (Inl e, s', g\<lparr>shg_shards := (shg_shards g)[i := Some shard]\<rparr>)
          | Inr h \<Rightarrow> (Inr True, s', g\<lparr>shg_shards := (shg_shards g)[i := Some (shard[idx := h])]\<rparr>))"

definition shg_increment :: "'h hist_crate \<Rightarrow> nat \<Rightarrow> nat \<Rightarrow> u64 \<Rightarrow>
    shard_sys \<times> 'h sharded_histogram_group \<Rightarrow>
    (hist_error + bool) \<times> shard_sys \<times> 'h sharded_histogram_group" where
  "shg_increment hc t idx value = shg_add hc t idx value 1"

definition shg_load :: "'h hist_crate \<Rightarrow> nat \<Rightarrow> 'h sharded_histogram_group \<Rightarrow> u64 list option" where
  "shg_load hc idx g =
     (if shg_entries g \<le> idx then None
      else merge (map (\<lambda>shard. hc_load hc (shard ! idx)) (List.map_filter (\<lambda>x. x) (shg_shards g))))"

definition shg_load_all :: "'h hist_crate \<Rightarrow> 'h sharded_histogram_group \<Rightarrow> u64 list list option" where
  "shg_load_all hc g =
     (if list_all (\<lambda>s. s = None) (shg_shards g) then None
      else those (map (\<lambda>idx. shg_load hc idx g) [0..<shg_entries g]))"

section \<open>Merging shards\<close>

text \<open>What the shards hold in a bucket; \<open>L\<close> reads a shard's histogram.\<close>

definition bucket_sum :: "('x \<Rightarrow> u64 list) \<Rightarrow> 'x option list \<Rightarrow> nat \<Rightarrow> u64" where
  "bucket_sum L shards b = sum_list (map (\<lambda>s. case s of None \<Rightarrow> 0 | Some x \<Rightarrow> L x ! b) shards)"

lemma length_add_into [simp]: "length (add_into xs ys) = length xs"
  by (induction xs ys rule: add_into.induct) simp_all

lemma nth_add_into: "length xs = length ys \<Longrightarrow> b < length xs \<Longrightarrow> add_into xs ys ! b = xs ! b + ys ! b"
proof (induction xs ys arbitrary: b rule: add_into.induct)
  case (1 x xs y ys)
  then show ?case by (cases b) simp_all
qed simp_all

lemma foldl_add_into:
  assumes "\<forall>h \<in> set hs. length h = length acc"
  shows "length (foldl add_into acc hs) = length acc \<and>
    (\<forall>b < length acc. foldl add_into acc hs ! b = acc ! b + sum_list (map (\<lambda>h. h ! b) hs))"
  using assms
proof (induction hs arbitrary: acc)
  case (Cons h hs)
  then show ?case by (simp add: nth_add_into add.assoc)
qed simp

lemma map_filter_id_Cons [simp]:
  "List.map_filter (\<lambda>x. x) (None # xs) = List.map_filter (\<lambda>x. x) xs"
  "List.map_filter (\<lambda>x. x) (Some x # xs) = x # List.map_filter (\<lambda>x. x) xs"
  "List.map_filter (\<lambda>x. x) [] = []"
  by (simp_all add: List.map_filter_def)

lemma set_map_filter_id [simp]: "set (List.map_filter (\<lambda>x. x) xs) = {x. Some x \<in> set xs}"
  by (force simp: List.map_filter_def)

lemma sum_map_filter:
  "sum_list (map (\<lambda>h. h ! b) (map L (List.map_filter (\<lambda>x. x) shards))) = bucket_sum L shards b"
proof (induction shards)
  case (Cons s shards)
  then show ?case by (cases s) (simp_all add: bucket_sum_def)
qed (simp add: bucket_sum_def)

lemma merge_shards:
  assumes "\<forall>x. Some x \<in> set shards \<longrightarrow> length (L x) = n"
  shows "merge (map L (List.map_filter (\<lambda>x. x) shards)) =
    (if list_all (\<lambda>s. s = None) shards then None else Some (map (bucket_sum L shards) [0..<n]))"
proof (cases "map L (List.map_filter (\<lambda>x. x) shards)")
  case Nil
  then have "List.map_filter (\<lambda>x. x) shards = []" by simp
  then have "{x. Some x \<in> set shards} = {}" by (metis set_empty set_map_filter_id)
  then have "list_all (\<lambda>s. s = None) shards"
    unfolding list_all_iff by (metis empty_iff mem_Collect_eq not_None_eq)
  with Nil show ?thesis by simp
next
  case (Cons h hs)
  have lens: "\<forall>k \<in> set (h # hs). length k = n"
    unfolding Cons [symmetric] using assms by auto
  have "h \<in> set (map L (List.map_filter (\<lambda>x. x) shards))" unfolding Cons by simp
  then have some: "\<not> list_all (\<lambda>s. s = None) shards" by (auto simp: list_all_iff)
  have fold: "length (foldl add_into h hs) = n"
      "b < n \<Longrightarrow> foldl add_into h hs ! b = h ! b + sum_list (map (\<lambda>k. k ! b) hs)" for b
    using foldl_add_into [of hs h] lens by simp_all
  have "foldl add_into h hs = map (bucket_sum L shards) [0..<n]"
  proof (rule nth_equalityI)
    fix b assume "b < length (foldl add_into h hs)"
    then have b: "b < n" using fold(1) by simp
    have "bucket_sum L shards b = sum_list (map (\<lambda>k. k ! b) (h # hs))"
      unfolding Cons [symmetric] sum_map_filter ..
    then show "foldl add_into h hs ! b = map (bucket_sum L shards) [0..<n] ! b"
      using fold(2) [OF b] b by simp
  qed (simp add: fold(1))
  with some Cons show ?thesis by simp
qed

text \<open>A record in one shard.\<close>

lemma bucket_sum_add:
  assumes i: "i < length shards" and b: "b < n" "b0 < n"
    and old: "old = (case shards ! i of None \<Rightarrow> replicate n 0 | Some x \<Rightarrow> L x)" "length old = n"
    and new: "L x' = old[b0 := old ! b0 + c]"
  shows "bucket_sum L (shards[i := Some x']) b = bucket_sum L shards b + (if b = b0 then c else 0)"
proof -
  let ?f = "\<lambda>s. case s of None \<Rightarrow> 0 | Some x \<Rightarrow> L x ! b"
  have "?f (Some x') = ?f (shards ! i) + (if b = b0 then c else 0)"
    using new old b by (simp add: nth_list_update split: option.splits)
  then have "map ?f (shards[i := Some x']) =
      (map ?f shards)[i := map ?f shards ! i + (if b = b0 then c else 0)]"
    using i by (simp add: map_update)
  then show ?thesis
    using sum_list_word_update [of i "map ?f shards"] i unfolding bucket_sum_def by simp
qed

lemma bucket_sum_none: "list_all (\<lambda>s. s = None) shards \<Longrightarrow> bucket_sum L shards b = 0"
  unfolding bucket_sum_def by (induction shards) simp_all

section \<open>What was recorded\<close>

definition recorded :: "hist_config \<Rightarrow> nat \<Rightarrow> (u64 \<Rightarrow> nat) \<Rightarrow> (u64 \<times> u64) list \<Rightarrow> u64 list" where
  "recorded config n bucket adds =
     map (\<lambda>b. sum_list (map snd (filter (\<lambda>(v, c). in_range config v \<and> bucket v = b) adds))) [0..<n]"

lemma nth_recorded:
  "b < n \<Longrightarrow> recorded config n bucket adds ! b =
     sum_list (map snd (filter (\<lambda>(v, c). in_range config v \<and> bucket v = b) adds))"
  by (simp add: recorded_def)

lemma crateD:
  assumes "crate_ok hc config bucket" "length (hc_load hc h) = hc_total_buckets hc config"
  shows "in_range config v \<Longrightarrow> bucket v < hc_total_buckets hc config"
    "in_range config v \<Longrightarrow> \<exists>h'. hc_add hc v c h = Inr h' \<and>
       hc_load hc h' = (hc_load hc h)[bucket v := hc_load hc h ! bucket v + c]"
    "\<not> in_range config v \<Longrightarrow> hc_add hc v c h = Inl OutOfRange"
  using assms unfolding crate_ok_def by (meson | presburger)+

lemma crate_new:
  "crate_ok hc config bucket \<Longrightarrow> hc_load hc (hc_with_config hc config) = replicate (hc_total_buckets hc config) 0"
  by (simp add: crate_ok_def)

section \<open>Threads recording\<close>

inductive sh_reach :: "'h hist_crate \<Rightarrow> hist_config \<Rightarrow> (u64 \<times> u64) list \<Rightarrow>
    shard_sys \<times> 'h sharded_histogram \<Rightarrow> bool" for hc :: "'h hist_crate" and config :: hist_config where
  sh_start: "sh_reach hc config [] (sh_init, \<lparr>sh_shards = replicate NUM_SHARDS None, sh_config = config\<rparr>)"
| sh_thread: "sh_reach hc config adds (s, g) \<Longrightarrow> shard_step s s' \<Longrightarrow> sh_reach hc config adds (s', g)"
| sh_call: "sh_reach hc config adds (s, g) \<Longrightarrow> sh_tls s t \<noteq> Exited \<Longrightarrow>
    snd (sh_add hc t v c (s, g)) = (s', g') \<Longrightarrow> sh_reach hc config (adds @ [(v, c)]) (s', g')"

definition sh_inv :: "'h hist_crate \<Rightarrow> hist_config \<Rightarrow> 'h sharded_histogram \<Rightarrow> bool" where
  "sh_inv hc config g \<longleftrightarrow> sh_config g = config \<and> length (sh_shards g) = NUM_SHARDS \<and>
     (\<forall>h. Some h \<in> set (sh_shards g) \<longrightarrow> length (hc_load hc h) = hc_total_buckets hc config)"

lemma sh_add_correct:
  assumes ok: "crate_ok hc config bucket" and s: "shard_inv s" and inv: "sh_inv hc config g"
  shows "\<exists>s' g'. sh_add hc t v c (s, g) =
      (if in_range config v then Inr () else Inl OutOfRange, s', g') \<and>
    shard_inv s' \<and> sh_inv hc config g' \<and>
    (list_all (\<lambda>x. x = None) (sh_shards g') \<longleftrightarrow> list_all (\<lambda>x. x = None) (sh_shards g) \<and> \<not> in_range config v) \<and>
    (\<not> in_range config v \<longrightarrow> s' = s \<and> g' = g) \<and>
    (\<forall>b < hc_total_buckets hc config. bucket_sum (hc_load hc) (sh_shards g') b =
       bucket_sum (hc_load hc) (sh_shards g) b + (if in_range config v \<and> b = bucket v then c else 0))"
proof -
  let ?n = "hc_total_buckets hc config"
  have config: "sh_config g = config" and len: "length (sh_shards g) = NUM_SHARDS"
    and lens: "\<And>h. Some h \<in> set (sh_shards g) \<Longrightarrow> length (hc_load hc h) = ?n"
    using inv by (simp_all add: sh_inv_def)
  define found where "found =
       (case Option.bind (sh_id s t) (\<lambda>i. map_option (Pair i) (sh_shards g ! i)) of
          Some (i, h) \<Rightarrow> (Some (i, h), s)
        | None \<Rightarrow> sh_init_shard hc t v s g)"
  have cases: "(fst found = None \<and> \<not> in_range config v \<and> snd found = s) \<or>
    (\<exists>i h. fst found = Some (i, h) \<and> i < NUM_SHARDS \<and> shard_inv (snd found) \<and>
       ((sh_shards g ! i = Some h \<and> (\<not> in_range config v \<longrightarrow> snd found = s)) \<or>
        (sh_shards g ! i = None \<and> h = hc_with_config hc config \<and> in_range config v)))"
  proof (cases "Option.bind (sh_id s t) (\<lambda>i. map_option (Pair i) (sh_shards g ! i))")
    case (Some ih)
    then obtain i h where ih: "ih = (i, h)" "sh_id s t = Some i" "sh_shards g ! i = Some h"
      by (auto simp: bind_eq_Some_conv)
    with Some s shard_invD(8) [OF s ih(2)] show ?thesis by (simp add: found_def)
  next
    case None
    show ?thesis
    proof (cases "in_range config v")
      case True
      obtain i s' where i: "shard_index t s = (i, s')" by (meson surj_pair)
      with shard_index_step [OF s i] True None config show ?thesis
        by (cases "sh_shards g ! i") (simp_all add: found_def sh_init_shard_def)
    next
      case False
      with None config show ?thesis by (simp add: found_def sh_init_shard_def)
    qed
  qed
  have add: "sh_add hc t v c (s, g) = (case found of (None, s') \<Rightarrow> (Inl OutOfRange, s', g)
      | (Some (i, h), s') \<Rightarrow>
          (case hc_add hc v c h of
             Inl e \<Rightarrow> (Inl e, s', g\<lparr>sh_shards := (sh_shards g)[i := Some h]\<rparr>)
           | Inr h' \<Rightarrow> (Inr (), s', g\<lparr>sh_shards := (sh_shards g)[i := Some h']\<rparr>)))"
    by (simp add: sh_add_def found_def split: prod.splits option.splits)
  from cases show ?thesis
  proof (elim disjE exE conjE)
    assume "fst found = None" "\<not> in_range config v" "snd found = s"
    with add s inv show ?thesis by (cases found) simp
  next
    fix i h
    assume found: "fst found = Some (i, h)" "i < NUM_SHARDS" "shard_inv (snd found)"
      and h: "sh_shards g ! i = Some h" "\<not> in_range config v \<longrightarrow> snd found = s"
    then have "Some h \<in> set (sh_shards g)" using len by (metis nth_mem)
    then have hlen: "length (hc_load hc h) = ?n" by (rule lens)
    show ?thesis
    proof (cases "in_range config v")
      case False
      then have "(sh_shards g)[i := Some h] = sh_shards g" using h(1) by (metis list_update_id)
      with False add found h inv s crateD(3) [OF ok hlen False] show ?thesis by (cases found) simp
    next
      case True
      obtain h' where h': "hc_add hc v c h = Inr h'"
          "hc_load hc h' = (hc_load hc h)[bucket v := hc_load hc h ! bucket v + c]"
        using crateD(2) [OF ok hlen True] by blast
      have "bucket_sum (hc_load hc) ((sh_shards g)[i := Some h']) b =
          bucket_sum (hc_load hc) (sh_shards g) b + (if b = bucket v then c else 0)" if "b < ?n" for b
        by (rule bucket_sum_add [where n = "?n" and old = "hc_load hc h"])
          (use found(2) len that crateD(1) [OF ok hlen True] h(1) hlen h'(2) in simp_all)
      moreover have "sh_inv hc config (g\<lparr>sh_shards := (sh_shards g)[i := Some h']\<rparr>)"
        using inv h'(2) hlen lens
        by (auto simp: sh_inv_def dest!: set_update_subset_insert [THEN subsetD])
      moreover have "\<not> list_all (\<lambda>x. x = None) ((sh_shards g)[i := Some h'])"
        using found(2) len by (auto simp: list_all_length intro!: exI [of _ i])
      ultimately show ?thesis using add found h'(1) True by (cases found) simp
    qed
  next
    fix i h
    assume found: "fst found = Some (i, h)" "i < NUM_SHARDS" "shard_inv (snd found)"
      and h: "sh_shards g ! i = None" "h = hc_with_config hc config" "in_range config v"
    have hlen: "length (hc_load hc h) = ?n" using crate_new [OF ok] h(2) by simp
    obtain h' where h': "hc_add hc v c h = Inr h'"
        "hc_load hc h' = (hc_load hc h)[bucket v := hc_load hc h ! bucket v + c]"
      using crateD(2) [OF ok hlen h(3)] by blast
    have "bucket_sum (hc_load hc) ((sh_shards g)[i := Some h']) b =
        bucket_sum (hc_load hc) (sh_shards g) b + (if b = bucket v then c else 0)" if "b < ?n" for b
      by (rule bucket_sum_add [where n = "?n" and old = "hc_load hc h"])
        (use found(2) len that crateD(1) [OF ok hlen h(3)] h crate_new [OF ok] hlen h'(2) in simp_all)
    moreover have "sh_inv hc config (g\<lparr>sh_shards := (sh_shards g)[i := Some h']\<rparr>)"
      using inv h'(2) hlen lens
      by (auto simp: sh_inv_def dest!: set_update_subset_insert [THEN subsetD])
    moreover have "\<not> list_all (\<lambda>x. x = None) ((sh_shards g)[i := Some h'])"
      using found(2) len by (auto simp: list_all_length intro!: exI [of _ i])
    ultimately show ?thesis using add found h'(1) h(3) by (cases found) simp
  qed
qed

lemma sh_reach_inv:
  assumes "crate_ok hc config bucket" and "sh_reach hc config adds st"
  shows "shard_inv (fst st) \<and> sh_inv hc config (snd st) \<and>
    (list_all (\<lambda>x. x = None) (sh_shards (snd st)) \<longleftrightarrow> (\<forall>(v, c) \<in> set adds. \<not> in_range config v)) \<and>
    (\<forall>b < hc_total_buckets hc config. bucket_sum (hc_load hc) (sh_shards (snd st)) b =
       recorded config (hc_total_buckets hc config) bucket adds ! b)"
  using assms(2)
proof (induction rule: sh_reach.induct)
  case sh_start
  have "list_all (\<lambda>x. x = None) (replicate NUM_SHARDS None)" by (simp add: list_all_length)
  then show ?case
    using shard_inv_init bucket_sum_none by (auto simp: sh_inv_def nth_recorded)
next
  case (sh_thread adds s g s')
  with step_inv show ?case by fastforce
next
  case (sh_call adds s g t v c s' g')
  then have inv: "shard_inv s" "sh_inv hc config g" by simp_all
  show ?case
    using sh_add_correct [OF assms(1) inv, of t v c] sh_call by (auto simp: nth_recorded)
qed

text \<open>
  C32. A sharded histogram is a histogram. Whatever shards the recording threads take, choose, return or share, a
  load gives, bucket by bucket, the wrapped sum of the counts of every call whose value is in
  range, and nothing while no such call was made; and each call succeeds exactly when
  its value is in range. This rests on what \<open>crate_ok\<close> says of the \<open>histogram\<close> crate.
\<close>

theorem sharded_histogram_records_everything:
  assumes "crate_ok hc config bucket" and "sh_reach hc config adds (s, g)"
  shows "sh_load hc g =
      (if \<forall>(v, c) \<in> set adds. \<not> in_range config v then None
       else Some (recorded config (hc_total_buckets hc config) bucket adds)) \<and>
    fst (sh_add hc t v c (s, g)) = (if in_range config v then Inr () else Inl OutOfRange)"
proof -
  have inv: "shard_inv s" "sh_inv hc config g"
      "list_all (\<lambda>x. x = None) (sh_shards g) \<longleftrightarrow> (\<forall>(v, c) \<in> set adds. \<not> in_range config v)"
      "\<forall>b < hc_total_buckets hc config. bucket_sum (hc_load hc) (sh_shards g) b =
         recorded config (hc_total_buckets hc config) bucket adds ! b"
    using sh_reach_inv [OF assms] by simp_all
  have "map (bucket_sum (hc_load hc) (sh_shards g)) [0..<hc_total_buckets hc config] =
      recorded config (hc_total_buckets hc config) bucket adds"
    using inv(4) by (intro nth_equalityI) (simp_all add: recorded_def)
  moreover have "sh_load hc g = (if list_all (\<lambda>x. x = None) (sh_shards g) then None
      else Some (map (bucket_sum (hc_load hc) (sh_shards g)) [0..<hc_total_buckets hc config]))"
    unfolding sh_load_def by (rule merge_shards) (use inv(2) in \<open>simp add: sh_inv_def\<close>)
  moreover have "fst (sh_add hc t v c (s, g)) = (if in_range config v then Inr () else Inl OutOfRange)"
    using sh_add_correct [OF assms(1) inv(1,2), of t v c] by auto
  ultimately show ?thesis by (simp only: inv(3))
qed

text \<open>A crate with one bucket for each value below four, to exhibit the hypotheses.\<close>

definition small_config :: hist_config where
  "small_config = \<lparr>grouping_power = 1, max_value_power = 2\<rparr>"

definition small_crate :: "u64 list hist_crate" where
  "small_crate = \<lparr>hc_config = (\<lambda>gp mvp. Some \<lparr>grouping_power = gp, max_value_power = mvp\<rparr>),
     hc_total_buckets = (\<lambda>c. 2 ^ max_value_power c),
     hc_with_config = (\<lambda>c. replicate (2 ^ max_value_power c) 0),
     hc_add = (\<lambda>v c h. if v < 4 then Inr (h[unat v := h ! unat v + c]) else Inl OutOfRange),
     hc_load = (\<lambda>h. h)\<rparr>"

lemma small_crate_ok: "crate_ok small_crate small_config unat"
  by (simp add: crate_ok_def small_crate_def small_config_def in_range_def word_less_nat_alt)

theorem sharded_histogram_records_everything_witness:
  "\<exists>g. sh_load small_crate g = Some [0, 0, 5, 0]"
proof -
  obtain s g where sg: "snd (sh_add small_crate 7 2 5
      (sh_init, \<lparr>sh_shards = replicate NUM_SHARDS None, sh_config = small_config\<rparr>)) = (s, g)"
    by (meson surj_pair)
  have "sh_reach small_crate small_config ([] @ [(2, 5)]) (s, g)"
    by (rule sh_call [OF sh_start _ sg]) (simp add: sh_init_def)
  from sharded_histogram_records_everything [OF small_crate_ok this, of 0 0 0]
  have "sh_load small_crate g = Some (recorded small_config 4 unat [(2, 5)])"
    by (simp add: small_crate_def small_config_def in_range_def)
  also have "recorded small_config 4 unat [(2, 5)] = [0, 0, 5, 0]"
    by (simp add: recorded_def small_config_def in_range_def upt_rec)
  finally show ?thesis by blast
qed

text \<open>
  A rejected value costs nothing: recording a value that is out of range into a sharded histogram, or into
  an entry of a sharded histogram group, returns \<open>OutOfRange\<close>, takes no shard from the pool
  and allocates no histogram, whether or not the calling thread has a shard; recording
  at an index the group does not have returns \<open>false\<close> and does neither.
\<close>

theorem rejected_values_take_no_shard:
  assumes "crate_ok hc config bucket" and "sh_reach hc config adds (s, g)"
    and "\<not> in_range config v" and "shg_config gs = config"
  shows "sh_add hc t v c (s, g) = (Inl OutOfRange, s, g) \<and>
    shg_add hc t i v c (s, gs) = (if i < shg_entries gs then Inl OutOfRange else Inr False, s, gs)"
proof -
  have inv: "shard_inv s" "sh_inv hc config g" using sh_reach_inv [OF assms(1,2)] by simp_all
  have "sh_add hc t v c (s, g) = (Inl OutOfRange, s, g)"
    using sh_add_correct [OF assms(1) inv, of t v c] assms(3) by auto
  with assms(3,4) show ?thesis by (simp add: shg_add_def)
qed

theorem rejected_values_take_no_shard_witness:
  "sh_add small_crate 7 9 1 (sh_init, \<lparr>sh_shards = replicate NUM_SHARDS None, sh_config = small_config\<rparr>) =
     (Inl OutOfRange, sh_init, \<lparr>sh_shards = replicate NUM_SHARDS None, sh_config = small_config\<rparr>)"
  by (rule rejected_values_take_no_shard [where gs = "\<lparr>shg_shards = [], shg_metadata = gm_new,
        shg_config = small_config, shg_entries = 0\<rparr>", THEN conjunct1, OF small_crate_ok sh_start])
    (simp_all add: in_range_def small_config_def word_less_nat_alt)

section \<open>Buckets and window\<close>

text \<open>Calls of \<open>set_with_window\<close> in the order they take the lock.\<close>

fun rw_run :: "'h hist_crate \<Rightarrow> (u64 list \<times> window) list \<Rightarrow> rw_histogram \<Rightarrow>
    (hist_error + unit) list \<times> rw_histogram" where
  "rw_run hc [] r = ([], r)"
| "rw_run hc ((data, w) # calls) r =
     (let (res, r') = rw_set_with_window hc data w r; (rs, r'') = rw_run hc calls r'
      in (res # rs, r''))"

definition accepted :: "'h hist_crate \<Rightarrow> hist_config \<Rightarrow> (u64 list \<times> window) list \<Rightarrow> (u64 list \<times> window) list" where
  "accepted hc config calls = filter (\<lambda>(data, w). length data = hc_total_buckets hc config) calls"

lemma rw_run_correct:
  "rw_run hc calls r = (rs, r') \<Longrightarrow>
    rw_config r' = rw_config r \<and>
    rs = map (\<lambda>(data, w). if length data = hc_total_buckets hc (rw_config r) then Inr ()
        else Inl IncompatibleParameters) calls \<and>
    rw_inner r' = (if accepted hc (rw_config r) calls = [] then rw_inner r
      else Some (fst (last (accepted hc (rw_config r) calls)),
        Some (snd (last (accepted hc (rw_config r) calls)))))"
proof (induction calls arbitrary: r rs)
  case (Cons c calls)
  obtain data w where c: "c = (data, w)" by (meson surj_pair)
  obtain res r1 where one: "rw_set_with_window hc data w r = (res, r1)" by (meson surj_pair)
  obtain rs1 where rest: "rw_run hc calls r1 = (rs1, r')" "rs = res # rs1"
    using Cons.prems c one by (auto split: prod.splits)
  from Cons.IH [OF rest(1)] one show ?case
    by (auto simp: c rest(2) rw_set_with_window_def accepted_def split: if_splits)
qed (simp add: accepted_def)

text \<open>
  A bulk-updated histogram is always one call's. After any sequence of \<open>set_with_window\<close> calls, each call
  reports whether its data had the right number of buckets, and \<open>load_with_window\<close> returns the
  buckets of the last call that was accepted together with that same call's window: a rejected
  call changes neither.
\<close>

theorem rw_histogram_pairs_are_one_calls:
  assumes "rw_run hc calls \<lparr>rw_inner = None, rw_config = config\<rparr> = (rs, r)"
  shows "rw_load_with_window r =
      (if accepted hc config calls = [] then (None, None)
       else (Some (fst (last (accepted hc config calls))), Some (snd (last (accepted hc config calls))))) \<and>
    rs = map (\<lambda>(data, w). if length data = hc_total_buckets hc config then Inr ()
        else Inl IncompatibleParameters) calls"
  using rw_run_correct [OF assms] by (simp add: rw_load_with_window_def)

theorem rw_histogram_pairs_are_one_calls_witness:
  "\<exists>rs r. rw_run small_crate [([1, 2, 3, 4], window_new 1 2), ([9], window_new 3 4)]
      \<lparr>rw_inner = None, rw_config = small_config\<rparr> = (rs, r) \<and>
     rw_load_with_window r = (Some [1, 2, 3, 4], Some (window_new 1 2)) \<and> rs = [Inr (), Inl IncompatibleParameters]"
proof -
  obtain rs r where run: "rw_run small_crate [([1, 2, 3, 4], window_new 1 2), ([9], window_new 3 4)]
      \<lparr>rw_inner = None, rw_config = small_config\<rparr> = (rs, r)"
    by (meson surj_pair)
  from rw_histogram_pairs_are_one_calls [OF run] run show ?thesis
    by (simp add: accepted_def small_crate_def small_config_def)
qed

end
