(* ===== verification/Identity.thy ===== *)
theory Identity
  imports Prelude
begin

text \<open>
  \<open>ProducerIdentity\<close> (\<open>metriken-model/src/identity.rs\<close>): the software, version, build and host a
  producer declares in its metadata, and how they are read back. Also the iteration over
  a \<open>BTreeMap\<close>, in key order, which later theories use.
\<close>

section \<open>Iterating over a map\<close>

definition map_entries :: "('k::linorder, 'v) fmap \<Rightarrow> ('k \<times> 'v) list" where
  "map_entries m = map (\<lambda>k. (k, the (fmlookup m k))) (sorted_list_of_fset (fmdom m))"

lemma set_map_entries: "(k, v) \<in> set (map_entries m) \<longleftrightarrow> fmlookup m k = Some v"
  by (auto simp: map_entries_def image_iff sorted_list_of_fset.rep_eq fmlookup_dom_iff)

lemma distinct_map_entries: "distinct (map fst (map_entries m))"
  by (simp add: map_entries_def comp_def sorted_list_of_fset.rep_eq)

lemma map_of_map_entries: "map_of (map_entries m) k = fmlookup m k"
proof (cases "fmlookup m k")
  case None
  then have "k \<notin> fst ` set (map_entries m)" using set_map_entries [of k _ m] by force
  with None show ?thesis by (simp add: map_of_eq_None_iff)
next
  case (Some v)
  then have "(k, v) \<in> set (map_entries m)" by (simp add: set_map_entries)
  with map_of_is_SomeI [OF distinct_map_entries this] Some show ?thesis by simp
qed

section \<open>The identity\<close>

definition KEY_NAME :: string where "KEY_NAME = ''metriken.producer.name''"
definition KEY_VERSION :: string where "KEY_VERSION = ''metriken.producer.version''"
definition KEY_BUILD :: string where "KEY_BUILD = ''metriken.producer.build''"
definition KEY_HOST :: string where "KEY_HOST = ''metriken.producer.host''"

lemmas producer_keys = KEY_NAME_def KEY_VERSION_def KEY_BUILD_def KEY_HOST_def

record producer_identity =
  pi_name :: string
  pi_version :: "string option"
  pi_build :: "string option"
  pi_host :: "string option"

definition pi_new :: "string \<Rightarrow> producer_identity" where
  "pi_new name = \<lparr>pi_name = name, pi_version = None, pi_build = None, pi_host = None\<rparr>"

definition pi_with_version :: "string \<Rightarrow> producer_identity \<Rightarrow> producer_identity" where
  "pi_with_version v i = i\<lparr>pi_version := Some v\<rparr>"

definition pi_with_build :: "string \<Rightarrow> producer_identity \<Rightarrow> producer_identity" where
  "pi_with_build v i = i\<lparr>pi_build := Some v\<rparr>"

definition pi_with_host :: "string \<Rightarrow> producer_identity \<Rightarrow> producer_identity" where
  "pi_with_host v i = i\<lparr>pi_host := Some v\<rparr>"

definition nonempty :: "string \<Rightarrow> string option" where
  "nonempty v = (if v = '''' then None else Some v)"

fun insert_set :: "string \<Rightarrow> string option \<Rightarrow> smap \<Rightarrow> smap" where
  "insert_set key None m = m"
| "insert_set key (Some v) m = (if v = '''' then m else fmupd key v m)"

definition to_metadata :: "producer_identity \<Rightarrow> smap" where
  "to_metadata i =
     insert_set KEY_HOST (pi_host i) (insert_set KEY_BUILD (pi_build i)
       (insert_set KEY_VERSION (pi_version i) (fmupd KEY_NAME (pi_name i) fmempty)))"

definition read_key :: "string \<times> string \<Rightarrow> producer_identity \<Rightarrow> producer_identity" where
  "read_key = (\<lambda>(key, value) i.
     if key = KEY_NAME then i\<lparr>pi_name := value\<rparr>
     else if key = KEY_VERSION then i\<lparr>pi_version := nonempty value\<rparr>
     else if key = KEY_BUILD then i\<lparr>pi_build := nonempty value\<rparr>
     else if key = KEY_HOST then i\<lparr>pi_host := nonempty value\<rparr>
     else i)"

definition from_metadata :: "(string \<times> string) list \<Rightarrow> producer_identity option" where
  "from_metadata kvs =
     (let i = fold read_key kvs (pi_new '''') in if pi_name i \<noteq> '''' then Some i else None)"

section \<open>What is read back\<close>

definition lookup_last :: "(string \<times> string) list \<Rightarrow> string \<Rightarrow> string option" where
  "lookup_last kvs = map_of (rev kvs)"

lemma keys_distinct [simp]:
  "KEY_VERSION \<noteq> KEY_NAME" "KEY_BUILD \<noteq> KEY_NAME" "KEY_HOST \<noteq> KEY_NAME"
  "KEY_BUILD \<noteq> KEY_VERSION" "KEY_HOST \<noteq> KEY_VERSION" "KEY_HOST \<noteq> KEY_BUILD"
  "KEY_NAME \<noteq> KEY_VERSION" "KEY_NAME \<noteq> KEY_BUILD" "KEY_NAME \<noteq> KEY_HOST"
  "KEY_VERSION \<noteq> KEY_BUILD" "KEY_VERSION \<noteq> KEY_HOST" "KEY_BUILD \<noteq> KEY_HOST"
  by (simp_all add: producer_keys)

lemma read_key_fields:
  "pi_name (read_key (k, v) i) = (if k = KEY_NAME then v else pi_name i)"
  "pi_version (read_key (k, v) i) = (if k = KEY_VERSION then nonempty v else pi_version i)"
  "pi_build (read_key (k, v) i) = (if k = KEY_BUILD then nonempty v else pi_build i)"
  "pi_host (read_key (k, v) i) = (if k = KEY_HOST then nonempty v else pi_host i)"
  by (auto simp: read_key_def)

lemma fold_read_key:
  "fold read_key kvs i = \<lparr>
     pi_name = (case lookup_last kvs KEY_NAME of None \<Rightarrow> pi_name i | Some v \<Rightarrow> v),
     pi_version = (case lookup_last kvs KEY_VERSION of None \<Rightarrow> pi_version i | Some v \<Rightarrow> nonempty v),
     pi_build = (case lookup_last kvs KEY_BUILD of None \<Rightarrow> pi_build i | Some v \<Rightarrow> nonempty v),
     pi_host = (case lookup_last kvs KEY_HOST of None \<Rightarrow> pi_host i | Some v \<Rightarrow> nonempty v)\<rparr>"
proof (induction kvs arbitrary: i)
  case (Cons kv kvs)
  obtain k v where kv: "kv = (k, v)" by (meson surj_pair)
  show ?case
    unfolding fold_simps comp_def Cons.IH
    by (auto simp: kv read_key_fields lookup_last_def map_add_def split: option.splits)
qed (simp add: lookup_last_def)

lemma lookup_map_entries: "lookup_last (map_entries m) k = fmlookup m k"
proof -
  have dist: "distinct (map fst (rev (map_entries m)))"
    using distinct_map_entries [of m] by (simp add: rev_map [symmetric])
  show ?thesis
  proof (cases "fmlookup m k")
    case None
    then have "k \<notin> fst ` set (rev (map_entries m))" using set_map_entries [of k _ m] by force
    with None show ?thesis unfolding lookup_last_def by (simp add: map_of_eq_None_iff)
  next
    case (Some v)
    then have "(k, v) \<in> set (rev (map_entries m))" by (simp add: set_map_entries)
    with Some dist show ?thesis unfolding lookup_last_def by (simp add: map_of_is_SomeI)
  qed
qed

definition kept :: "string option \<Rightarrow> string option" where
  "kept v = Option.bind v nonempty"

lemma from_metadata_lookup:
  "from_metadata (map_entries m) =
     (case kept (fmlookup m KEY_NAME) of
        None \<Rightarrow> None
      | Some name \<Rightarrow> Some \<lparr>pi_name = name, pi_version = kept (fmlookup m KEY_VERSION),
          pi_build = kept (fmlookup m KEY_BUILD), pi_host = kept (fmlookup m KEY_HOST)\<rparr>)"
  by (auto simp: from_metadata_def fold_read_key lookup_map_entries pi_new_def kept_def nonempty_def Let_def
      split: option.splits)

lemma lookup_insert_set:
  "fmlookup (insert_set key v m) k =
     (if k = key \<and> kept v \<noteq> None then kept v else fmlookup m k)"
  by (cases v) (auto simp: kept_def nonempty_def)

text \<open>
  An identity survives its metadata. Written over any metadata and read back, an identity with a name
  is read as itself, with an empty version, build or host read as absent; what it does not declare itself is what the other metadata says
  of it, and metadata with no name, or an empty one, is no identity.
\<close>

theorem identity_roundtrip:
  "from_metadata (map_entries (m ++\<^sub>f to_metadata i)) =
     (if pi_name i = '''' then None
      else Some \<lparr>pi_name = pi_name i,
        pi_version = (case kept (pi_version i) of None \<Rightarrow> kept (fmlookup m KEY_VERSION) | Some v \<Rightarrow> Some v),
        pi_build = (case kept (pi_build i) of None \<Rightarrow> kept (fmlookup m KEY_BUILD) | Some v \<Rightarrow> Some v),
        pi_host = (case kept (pi_host i) of None \<Rightarrow> kept (fmlookup m KEY_HOST) | Some v \<Rightarrow> Some v)\<rparr>)"
proof -
  have kept_idem: "kept (kept v) = kept v" for v
    by (cases v) (auto simp: kept_def nonempty_def)
  have over: "kept (fmlookup (m ++\<^sub>f to_metadata i) key) =
      (case kept v of None \<Rightarrow> kept (fmlookup m key) | Some x \<Rightarrow> Some x)"
    if "fmlookup (to_metadata i) key = kept v" for key v
  proof (cases "kept v")
    case None
    with that show ?thesis by (simp add: fmdom_notI)
  next
    case (Some x)
    with that have "key |\<in>| fmdom (to_metadata i)" by (simp add: fmdomI)
    with that Some kept_idem [of v] show ?thesis by simp
  qed
  have lookups: "fmlookup (to_metadata i) KEY_VERSION = kept (pi_version i)"
      "fmlookup (to_metadata i) KEY_BUILD = kept (pi_build i)"
      "fmlookup (to_metadata i) KEY_HOST = kept (pi_host i)"
      "fmlookup (to_metadata i) KEY_NAME = Some (pi_name i)"
    by (simp_all add: to_metadata_def lookup_insert_set)
  then have "KEY_NAME |\<in>| fmdom (to_metadata i)" by (simp add: fmdomI)
  then have name: "kept (fmlookup (m ++\<^sub>f to_metadata i) KEY_NAME) = nonempty (pi_name i)"
    by (simp add: lookups kept_def)
  show ?thesis
    unfolding from_metadata_lookup name over [OF lookups(1)] over [OF lookups(2)] over [OF lookups(3)]
    by (simp add: nonempty_def)
qed

end
