(* ===== verification/LayerFold.thy ===== *)
theory LayerFold
  imports Identity "HOL-Library.Product_Lexorder" "HOL-Library.Option_ord"
begin

text \<open>
  The identity layers of a source (\<open>metriken-storage/src/layers.rs\<close>): the entries, the fold
  of a layer, and the three layers merged. A layer is a list of entries that is only appended to; its
  fold applies them in an order of its own.

  JSON is not modelled: \<open>serde\<close> holds the functions of \<open>serde_json\<close> the code calls, on
  documents and on values, and \<open>serde_ok\<close> says that what they print they read
  back. The type \<open>'j\<close> stands for a JSON value.
\<close>

section \<open>Layers and entries\<close>

definition RESERVED_PREFIX :: string where "RESERVED_PREFIX = ''metriken.''"
definition PRODUCER_KEY :: string where "PRODUCER_KEY = ''metriken.layer.producer''"
definition RECORDER_KEY :: string where "RECORDER_KEY = ''metriken.layer.recorder''"
definition USER_KEY :: string where "USER_KEY = ''metriken.layer.user''"
definition UNION_KEYS :: "string list" where "UNION_KEYS = [''descriptions'']"
definition PRODUCER_NAME :: string where "PRODUCER_NAME = ''producer_name''"
definition PRODUCER_LABEL :: string where "PRODUCER_LABEL = ''__producer__''"
definition VERSION :: string where "VERSION = ''version''"
definition BUILD :: string where "BUILD = ''build''"
definition HOST :: string where "HOST = ''host''"
definition PRODUCER_EPOCH :: string where "PRODUCER_EPOCH = ''producer_epoch''"
definition PRODUCER_EPOCHS :: string where "PRODUCER_EPOCHS = ''producer_epochs''"
definition UNLAYERED :: "string list" where
  "UNLAYERED = [''writer_sessions'', ''encoder'', ''events'']"

lemmas layer_names = RESERVED_PREFIX_def PRODUCER_KEY_def RECORDER_KEY_def USER_KEY_def
  UNION_KEYS_def PRODUCER_NAME_def PRODUCER_LABEL_def VERSION_def BUILD_def HOST_def
  PRODUCER_EPOCH_def PRODUCER_EPOCHS_def UNLAYERED_def

definition reserved :: "string \<Rightarrow> bool" where
  "reserved key \<longleftrightarrow> take (length RESERVED_PREFIX) key = RESERVED_PREFIX"

definition forbidden_metadata :: "string \<Rightarrow> bool" where
  "forbidden_metadata key \<longleftrightarrow>
     reserved key \<or> key = PRODUCER_EPOCH \<or> key = PRODUCER_EPOCHS \<or> key \<in> set UNLAYERED"

text \<open>\<open>identity_keys\<close>: a producer identity as a producer entry's labels and metadata.\<close>

fun insert_some :: "string \<Rightarrow> string option \<Rightarrow> smap \<Rightarrow> smap" where
  "insert_some key None m = m"
| "insert_some key (Some v) m = fmupd key v m"

definition identity_keys :: "producer_identity \<Rightarrow> smap \<times> smap \<Rightarrow> smap \<times> smap" where
  "identity_keys i = (\<lambda>(labels, metadata).
     (insert_some HOST (pi_host i) labels,
      insert_some BUILD (pi_build i) (insert_some VERSION (pi_version i)
        (fmupd PRODUCER_NAME (pi_name i) metadata))))"

datatype layer = Recorder | Producer | User

definition ORDER :: "layer list" where
  "ORDER = [Recorder, Producer, User]"

fun layer_key :: "layer \<Rightarrow> string" where
  "layer_key Recorder = RECORDER_KEY"
| "layer_key Producer = PRODUCER_KEY"
| "layer_key User = USER_KEY"

fun layer_name :: "layer \<Rightarrow> string" where
  "layer_name Recorder = ''recorder''"
| "layer_name Producer = ''producer''"
| "layer_name User = ''user''"

record 'j entry =
  en_id :: string
  en_seq :: u64
  en_ts :: "u64 option"
  en_by :: string
  en_from_ts :: "u64 option"
  en_epoch :: "string option"
  en_labels :: smap
  en_metadata :: smap
  en_unset_labels :: "string list"
  en_unset_metadata :: "string list"
  en_extra :: "(string, 'j) fmap"

definition entry_new :: "string \<Rightarrow> string \<Rightarrow> 'j entry" where
  "entry_new id' by' = \<lparr>en_id = id', en_seq = 0, en_ts = None, en_by = by', en_from_ts = None,
     en_epoch = None, en_labels = fmempty, en_metadata = fmempty, en_unset_labels = [],
     en_unset_metadata = [], en_extra = fmempty\<rparr>"

definition same_contents :: "'j entry \<Rightarrow> 'j entry \<Rightarrow> bool" where
  "same_contents a b \<longleftrightarrow> en_labels a = en_labels b \<and> en_metadata a = en_metadata b \<and>
     en_unset_labels a = en_unset_labels b \<and> en_unset_metadata a = en_unset_metadata b \<and>
     en_epoch a = en_epoch b"

definition map_keys :: "('k::linorder, 'v) fmap \<Rightarrow> 'k list" where
  "map_keys m = sorted_list_of_fset (fmdom m)"

lemma set_map_keys [simp]: "set (map_keys m) = fset (fmdom m)"
  by (simp add: map_keys_def sorted_list_of_fset.rep_eq)

definition forbidden_key :: "'j entry \<Rightarrow> string option" where
  "forbidden_key e =
     (case find reserved (map_keys (en_labels e) @ en_unset_labels e) of
        Some k \<Rightarrow> Some k
      | None \<Rightarrow> find forbidden_metadata (map_keys (en_metadata e) @ en_unset_metadata e))"

record 'j layer_doc =
  doc_labels :: smap
  doc_metadata :: smap
  doc_entries :: "'j entry list"
  doc_extra :: "(string, 'j) fmap"

definition doc_default :: "'j layer_doc" where
  "doc_default = \<lparr>doc_labels = fmempty, doc_metadata = fmempty, doc_entries = [], doc_extra = fmempty\<rparr>"

section \<open>JSON\<close>

datatype 'j json = JObject "(string, 'j) fmap" | JOther 'j

record 'j serde =
  js_value :: "string \<Rightarrow> 'j json option"                \<comment> \<open>\<open>from_str::<Value>\<close>\<close>
  js_object :: "(string, 'j) fmap \<Rightarrow> string"            \<comment> \<open>\<open>Value::Object(..).to_string()\<close>\<close>
  js_doc :: "string \<Rightarrow> string + 'j layer_doc"           \<comment> \<open>\<open>from_str::<LayerDoc>\<close>\<close>
  js_doc_string :: "'j layer_doc \<Rightarrow> string"
  js_epochs :: "string \<Rightarrow> (string \<times> u64) list option"   \<comment> \<open>the list of \<open>listed_epochs\<close>\<close>

definition serde_ok :: "'j serde \<Rightarrow> bool" where
  "serde_ok js \<longleftrightarrow> (\<forall>m. js_value js (js_object js m) = Some (JObject m)) \<and>
     (\<forall>d. js_doc js (js_doc_string js d) = Inr d)"

definition as_object :: "'j serde \<Rightarrow> string \<Rightarrow> (string, 'j) fmap option" where
  "as_object js s = (case js_value js s of Some (JObject m) \<Rightarrow> Some m | _ \<Rightarrow> None)"

definition union_objects :: "'j serde \<Rightarrow> string \<Rightarrow> string \<Rightarrow> string option" where
  "union_objects js old new =
     (case as_object js old of
        None \<Rightarrow> None
      | Some merged \<Rightarrow>
          (case as_object js new of
             None \<Rightarrow> None
           | Some newer \<Rightarrow> Some (js_object js (merged ++\<^sub>f newer))))"

section \<open>Folding\<close>

record folded =
  fo_labels :: smap
  fo_metadata :: smap

definition fo_default :: folded where
  "fo_default = \<lparr>fo_labels = fmempty, fo_metadata = fmempty\<rparr>"

text \<open>What \<open>apply\<close> puts under a metadata key.\<close>

definition merge_value :: "'j serde \<Rightarrow> smap \<Rightarrow> string \<Rightarrow> string \<Rightarrow> string" where
  "merge_value js m k v =
     (case fmlookup m k of
        None \<Rightarrow> v
      | Some old \<Rightarrow>
          (if k \<in> set UNION_KEYS then (case union_objects js old v of None \<Rightarrow> v | Some u \<Rightarrow> u) else v))"

definition fo_apply :: "'j serde \<Rightarrow> smap \<Rightarrow> smap \<Rightarrow> folded \<Rightarrow> folded" where
  "fo_apply js labels metadata f =
     f\<lparr>fo_labels := fold (\<lambda>(k, v) m. fmupd k v m) (map_entries labels) (fo_labels f),
       fo_metadata := fold (\<lambda>(k, v) m. fmupd k (merge_value js m k v) m) (map_entries metadata)
         (fo_metadata f)\<rparr>"

definition fo_apply_entry :: "'j serde \<Rightarrow> 'j entry \<Rightarrow> folded \<Rightarrow> folded" where
  "fo_apply_entry js e f =
     fo_apply js (en_labels e) (en_metadata e)
       (f\<lparr>fo_labels := fold fmdrop (en_unset_labels e) (fo_labels f),
          fo_metadata := fold fmdrop (en_unset_metadata e) (fo_metadata f)\<rparr>)"

text \<open>Rust's \<open>sort_by\<close> is stable, and an absent \<open>from_ts\<close> is less than any present one.\<close>

definition ordered :: "layer \<Rightarrow> 'j layer_doc \<Rightarrow> 'j entry list" where
  "ordered l d =
     (case l of
        User \<Rightarrow> sort_key (\<lambda>e. (en_seq e, en_id e)) (doc_entries d)
      | _ \<Rightarrow> sort_key (\<lambda>e. (en_from_ts e, en_seq e, en_id e)) (doc_entries d))"

definition doc_fold :: "'j serde \<Rightarrow> layer \<Rightarrow> 'j layer_doc \<Rightarrow> folded" where
  "doc_fold js l d = fold (fo_apply_entry js) (ordered l d) fo_default"

datatype layer_error =
    Refused string            \<comment> \<open>a key an entry may not set or unset\<close>
  | Unparsable layer string   \<comment> \<open>a layer key that does not parse, and \<open>serde_json\<close>'s message\<close>
  | SeqExhausted layer u64

definition max_seq :: "'j entry list \<Rightarrow> u64 option" where
  "max_seq es = (if es = [] then None else Some (Max (en_seq ` set es)))"

definition next_seq :: "layer \<Rightarrow> 'j layer_doc \<Rightarrow> layer_error + u64" where
  "next_seq l d =
     (case max_seq (doc_entries d) of
        None \<Rightarrow> Inr 0
      | Some s \<Rightarrow> (case checked_add s 1 of None \<Rightarrow> Inl (SeqExhausted l s) | Some n \<Rightarrow> Inr n))"

section \<open>The three layers\<close>

record 'j layers =
  ly_recorder :: "'j layer_doc"
  ly_producer :: "'j layer_doc"
  ly_user :: "'j layer_doc"

definition layers_default :: "'j layers" where
  "layers_default = \<lparr>ly_recorder = doc_default, ly_producer = doc_default, ly_user = doc_default\<rparr>"

fun ly_get :: "layer \<Rightarrow> 'j layers \<Rightarrow> 'j layer_doc" where
  "ly_get Recorder ls = ly_recorder ls"
| "ly_get Producer ls = ly_producer ls"
| "ly_get User ls = ly_user ls"

fun ly_set :: "layer \<Rightarrow> 'j layer_doc \<Rightarrow> 'j layers \<Rightarrow> 'j layers" where
  "ly_set Recorder d ls = ls\<lparr>ly_recorder := d\<rparr>"
| "ly_set Producer d ls = ls\<lparr>ly_producer := d\<rparr>"
| "ly_set User d ls = ls\<lparr>ly_user := d\<rparr>"

definition read_layer :: "'j serde \<Rightarrow> smap \<Rightarrow> layer \<Rightarrow> layer_error + 'j layer_doc option" where
  "read_layer js metadata l =
     (case fmlookup metadata (layer_key l) of
        None \<Rightarrow> Inr None
      | Some raw \<Rightarrow> (case js_doc js raw of Inl e \<Rightarrow> Inl (Unparsable l e) | Inr d \<Rightarrow> Inr (Some d)))"

fun read_layers :: "'j serde \<Rightarrow> smap \<Rightarrow> layer list \<Rightarrow> 'j layers \<Rightarrow> layer_error + 'j layers" where
  "read_layers js metadata [] ls = Inr ls"
| "read_layers js metadata (l # rest) ls =
     (case read_layer js metadata l of
        Inl e \<Rightarrow> Inl e
      | Inr None \<Rightarrow> read_layers js metadata rest ls
      | Inr (Some d) \<Rightarrow> read_layers js metadata rest (ly_set l d ls))"

definition ly_read :: "'j serde \<Rightarrow> smap \<Rightarrow> layer_error + 'j layers option" where
  "ly_read js metadata =
     (if list_all (\<lambda>l. layer_key l |\<notin>| fmdom metadata) ORDER then Inr None
      else map_sum id Some (read_layers js metadata ORDER layers_default))"

definition without_empty :: "smap \<Rightarrow> smap" where
  "without_empty m = fmfilter (\<lambda>k. fmlookup m k \<noteq> Some '''') m"

definition merge_layer :: "'j serde \<Rightarrow> 'j layers \<Rightarrow> layer \<Rightarrow> folded \<Rightarrow> folded" where
  "merge_layer js ls l merged =
     (let f = doc_fold js l (ly_get l ls);
          f = (if l \<noteq> User then \<lparr>fo_labels = without_empty (fo_labels f),
                 fo_metadata = without_empty (fo_metadata f)\<rparr> else f)
      in fo_apply js (fo_labels f) (fo_metadata f) merged)"

definition merged_with_removals :: "'j serde \<Rightarrow> 'j layers \<Rightarrow> folded" where
  "merged_with_removals js ls =
     (let merged = fold (merge_layer js ls) ORDER fo_default
      in if PRODUCER_LABEL |\<notin>| fmdom (fo_labels merged)
         then (case fmlookup (fo_metadata merged) PRODUCER_NAME of
                 None \<Rightarrow> merged
               | Some name \<Rightarrow>
                   (if name = '''' then merged
                    else merged\<lparr>fo_labels := fmupd PRODUCER_LABEL name (fo_labels merged)\<rparr>))
         else merged)"

definition merged :: "'j serde \<Rightarrow> 'j layers \<Rightarrow> folded" where
  "merged js ls =
     (let m = merged_with_removals js ls
      in m\<lparr>fo_labels := without_empty (fo_labels m), fo_metadata := without_empty (fo_metadata m)\<rparr>)"

section \<open>What a key folds to\<close>

lemma lookup_without_empty:
  "fmlookup (without_empty m) k = Option.bind (fmlookup m k) nonempty"
  by (cases "fmlookup m k") (simp_all add: without_empty_def nonempty_def)

lemma fold_fmupd_entries:
  "fmlookup (fold (\<lambda>(k, v) m. fmupd k v m) kvs m0) k =
     (case lookup_last kvs k of None \<Rightarrow> fmlookup m0 k | Some v \<Rightarrow> Some v)"
proof (induction kvs arbitrary: m0)
  case (Cons kv kvs)
  obtain k' v where kv: "kv = (k', v)" by (meson surj_pair)
  show ?case
    unfolding fold_simps comp_def Cons.IH
    by (auto simp: kv lookup_last_def map_add_def split: option.splits)
qed (simp add: lookup_last_def)

lemma fo_apply_labels:
  "fmlookup (fo_labels (fo_apply js labels metadata f)) k =
     (case fmlookup labels k of None \<Rightarrow> fmlookup (fo_labels f) k | Some v \<Rightarrow> Some v)"
  by (simp add: fo_apply_def fold_fmupd_entries lookup_map_entries)

lemma fold_merge_entries:
  assumes "distinct (map fst kvs)"
  shows "fmlookup (fold (\<lambda>(k, v) m. fmupd k (merge_value js m k v) m) kvs m0) k =
     (case map_of kvs k of None \<Rightarrow> fmlookup m0 k | Some v \<Rightarrow> Some (merge_value js m0 k v))"
  using assms
proof (induction kvs arbitrary: m0)
  case (Cons kv kvs)
  obtain k' v where kv: "kv = (k', v)" by (meson surj_pair)
  have fresh: "map_of kvs k' = None" using Cons.prems kv by (simp add: map_of_eq_None_iff)
  have same: "merge_value js (fmupd k' x m0) k y = merge_value js m0 k y" if "k \<noteq> k'" for x y
    using that by (simp add: merge_value_def)
  show ?case
    unfolding fold_simps comp_def
    using Cons.IH [of "fmupd k' (merge_value js m0 k' v) m0"] Cons.prems fresh same
    by (auto simp: kv split: option.splits)
qed simp

lemma fo_apply_metadata:
  "fmlookup (fo_metadata (fo_apply js labels metadata f)) k =
     (case fmlookup metadata k of None \<Rightarrow> fmlookup (fo_metadata f) k
      | Some v \<Rightarrow> Some (merge_value js (fo_metadata f) k v))"
  by (simp add: fo_apply_def fold_merge_entries [OF distinct_map_entries] map_of_map_entries)

end
