(* ===== verification/Layers.thy ===== *)
theory Layers
  imports LayerFold Uid
begin

text \<open>
  Writing the identity layers (\<open>metriken-storage/src/layers.rs\<close>): what a source recorded before
  the layers is read as (\<open>derive_legacy\<close>), what changed outside \<open>append\<close> (\<open>drift\<close>), and \<open>append\<close>
  itself, which edits a source's labels and metadata in place.

  \<open>xxh3\<close> is the 128-bit hash of the \<open>twox_hash\<close> crate; nothing below depends on it. A call returns its result with the two maps, as
  the code mutates them through references.
\<close>

section \<open>A source recorded before the layers\<close>

record legacy_evidence =
  ev_producer_name :: "string option"

definition hash_field :: "u8 list option \<Rightarrow> u8 list" where
  "hash_field value =
     (case value of None \<Rightarrow> [0] | Some bytes \<Rightarrow> 1 # to_le_bytes (of_nat (length bytes)) @ bytes)"

definition hex32 :: "u128 \<Rightarrow> string" where
  "hex32 h = map (\<lambda>i. hex_digits ! unat (and (drop_bit (124 - 4 * i) h) 15)) [0..<32]"

definition derived_id :: "(u8 list \<Rightarrow> u128) \<Rightarrow> string option \<Rightarrow> layer \<Rightarrow> string option \<Rightarrow> u64 option \<Rightarrow> string" where
  "derived_id xxh3 uuid l epoch from_ts =
     ''derived-'' @ hex32 (xxh3
       (hash_field (map_option epoch_bytes uuid) @
        hash_field (Some (epoch_bytes (layer_name l))) @
        hash_field (map_option epoch_bytes epoch) @
        hash_field (map_option to_le_bytes from_ts)))"

definition legacy_epochs :: "'j serde \<Rightarrow> smap \<Rightarrow> (string \<times> u64 option) list" where
  "legacy_epochs js metadata =
     (let listed = Option.bind (fmlookup metadata PRODUCER_EPOCHS) (js_epochs js) in
      case listed of
        Some (e # es) \<Rightarrow> map (\<lambda>(epoch, from_ts). (epoch, Some from_ts)) (e # es)
      | _ \<Rightarrow> (case fmlookup metadata PRODUCER_EPOCH of
                Some epoch \<Rightarrow> (if epoch \<noteq> '''' then [(epoch, None)] else [])
              | None \<Rightarrow> []))"

definition refresh_cache :: "'j serde \<Rightarrow> layer \<Rightarrow> 'j layer_doc \<Rightarrow> 'j layer_doc" where
  "refresh_cache js l d =
     (let f = doc_fold js l d in d\<lparr>doc_labels := fo_labels f, doc_metadata := fo_metadata f\<rparr>)"

definition refresh_caches :: "'j serde \<Rightarrow> 'j layers \<Rightarrow> 'j layers" where
  "refresh_caches js ls = fold (\<lambda>l ls. ly_set l (refresh_cache js l (ly_get l ls)) ls) ORDER ls"

definition push_entry :: "'j entry \<Rightarrow> 'j layer_doc \<Rightarrow> 'j layer_doc" where
  "push_entry e d = d\<lparr>doc_entries := doc_entries d @ [e]\<rparr>"

definition upgrade_entry :: "(u8 list \<Rightarrow> u128) \<Rightarrow> string option \<Rightarrow> layer \<Rightarrow> string option \<Rightarrow> u64 option \<Rightarrow> 'j entry" where
  "upgrade_entry xxh3 uuid l epoch from_ts = entry_new (derived_id xxh3 uuid l epoch from_ts) ''upgrade''"

definition legacy_labels :: "smap \<Rightarrow> smap" where
  "legacy_labels labels = fmfilter (\<lambda>k. \<not> reserved k) labels"

definition legacy_metadata :: "smap \<Rightarrow> smap" where
  "legacy_metadata metadata =
     fmfilter (\<lambda>k. k \<notin> set UNLAYERED \<and> \<not> reserved k \<and> k \<noteq> PRODUCER_EPOCH \<and> k \<noteq> PRODUCER_EPOCHS) metadata"

definition derive_legacy :: "'j serde \<Rightarrow> (u8 list \<Rightarrow> u128) \<Rightarrow> string option \<Rightarrow> smap \<Rightarrow> smap \<Rightarrow>
    legacy_evidence \<Rightarrow> 'j layers" where
  "derive_legacy js xxh3 uuid labels metadata evidence =
     (let user =
        (if legacy_labels labels = fmempty then []
         else [(upgrade_entry xxh3 uuid User None None)\<lparr>en_labels := legacy_labels labels\<rparr>]);
      opened =
        (if legacy_metadata metadata = fmempty then []
         else [(upgrade_entry xxh3 uuid Recorder None None)\<lparr>en_metadata := legacy_metadata metadata\<rparr>]);
      declared =
        (case from_metadata (map_entries metadata) of
           None \<Rightarrow> []
         | Some identity \<Rightarrow>
             let (ls, md) = identity_keys identity (fmempty, fmempty)
             in [(upgrade_entry xxh3 uuid Producer None None)\<lparr>en_labels := ls, en_metadata := md\<rparr>]);
      named =
        (case ev_producer_name evidence of
           None \<Rightarrow> []
         | Some name \<Rightarrow>
             [(upgrade_entry xxh3 uuid Recorder (Some (''producer_name:'' @ name)) None)
                \<lparr>en_seq := 1, en_metadata := fmupd ''producer_name'' name fmempty\<rparr>]);
      epochs =
        map (\<lambda>(position, epoch, from_ts).
            (upgrade_entry xxh3 uuid Recorder (Some epoch) from_ts)
              \<lparr>en_seq := of_nat position, en_from_ts := from_ts, en_epoch := Some epoch\<rparr>)
          (enumerate 0 (legacy_epochs js metadata))
      in refresh_caches js
           \<lparr>ly_recorder = doc_default\<lparr>doc_entries := opened @ named @ epochs\<rparr>,
            ly_producer = doc_default\<lparr>doc_entries := declared\<rparr>,
            ly_user = doc_default\<lparr>doc_entries := user\<rparr>\<rparr>)"

section \<open>What changed outside append\<close>

definition present :: "smap \<Rightarrow> string \<Rightarrow> string option" where
  "present m k = Option.bind (fmlookup m k) nonempty"

definition or_empty :: "string option \<Rightarrow> string" where
  "or_empty v = (case v of None \<Rightarrow> '''' | Some v \<Rightarrow> v)"

definition union_added :: "'j serde \<Rightarrow> string \<Rightarrow> string option \<Rightarrow> string option \<Rightarrow> string option" where
  "union_added js k was have =
     (if k \<notin> set UNION_KEYS then None
      else case (was, have) of
          (Some w, Some h) \<Rightarrow>
            (case (as_object js w, as_object js h) of
               (Some w, Some h) \<Rightarrow> Some (js_object js (fmfilter (\<lambda>name. fmlookup w name \<noteq> fmlookup h name) h))
             | _ \<Rightarrow> None)
        | _ \<Rightarrow> None)"

definition union_holds :: "'j serde \<Rightarrow> string \<Rightarrow> string option \<Rightarrow> string option \<Rightarrow> bool" where
  "union_holds js k was have =
     (case (was, have) of
        (Some w, Some h) \<Rightarrow>
          k \<in> set UNION_KEYS \<and>
          (case (Option.bind (union_objects js w h) (js_value js), js_value js w) of
             (Some u, Some w) \<Rightarrow> u = w
           | _ \<Rightarrow> False)
      | _ \<Rightarrow> False)"

definition label_drift :: "smap \<Rightarrow> smap \<Rightarrow> string \<Rightarrow> string option" where
  "label_drift before labels k =
     (if reserved k then None
      else if k = PRODUCER_LABEL \<and> k |\<notin>| fmdom labels then None
      else if present before k \<noteq> present labels k then Some (or_empty (present labels k))
      else None)"

definition metadata_drift :: "'j serde \<Rightarrow> smap \<Rightarrow> smap \<Rightarrow> string \<Rightarrow> string option" where
  "metadata_drift js before metadata k =
     (let have = present metadata k; was = present before k in
      if was \<noteq> have \<and> \<not> union_holds js k was have
      then Some (case union_added js k was have of Some v \<Rightarrow> v | None \<Rightarrow> or_empty have)
      else None)"

definition collect_drift :: "(string \<Rightarrow> string option) \<Rightarrow> string list \<Rightarrow> smap" where
  "collect_drift change keys =
     fold (\<lambda>k m. case change k of None \<Rightarrow> m | Some v \<Rightarrow> fmupd k v m) keys fmempty"

definition drift :: "'j serde \<Rightarrow> folded \<Rightarrow> smap \<Rightarrow> smap \<Rightarrow> 'j entry option" where
  "drift js before labels metadata =
     (let e = (entry_new '''' ''external'')
            \<lparr>en_labels := collect_drift (label_drift (fo_labels before) labels)
               (map_keys (fo_labels before) @ map_keys labels),
             en_metadata := collect_drift (metadata_drift js (fo_metadata before) metadata)
               (map_keys (fo_metadata before))\<rparr>
      in if en_labels e \<noteq> fmempty \<or> en_metadata e \<noteq> fmempty then Some e else None)"

section \<open>Appending\<close>

fun decimal :: "nat \<Rightarrow> string" where
  "decimal n = (if n < 10 then [''0123456789'' ! n] else decimal (n div 10) @ [''0123456789'' ! (n mod 10)])"

declare decimal.simps [simp del]

text \<open>\<open>max_by_key\<close> returns the last of the greatest elements.\<close>

definition newest :: "'j entry list \<Rightarrow> 'j entry option" where
  "newest es =
     (if es = [] then None
      else Some (last (filter (\<lambda>e. en_seq e = Max (en_seq ` set es)) es)))"

definition unchanged_by :: "'j serde \<Rightarrow> layer \<Rightarrow> 'j layer_doc \<Rightarrow> 'j entry \<Rightarrow> ('j entry \<Rightarrow> bool) \<Rightarrow> bool" where
  "unchanged_by js l d e keep =
     (let without = d\<lparr>doc_entries := filter keep (doc_entries d)\<rparr>
      in doc_fold js l (push_entry e without) = doc_fold js l without)"

definition repeats :: "'j serde \<Rightarrow> 'j layer_doc \<Rightarrow> 'j entry \<Rightarrow> bool" where
  "repeats js d e \<longleftrightarrow>
     (let os = ordered Producer d in os \<noteq> [] \<and> same_contents (last os) e) \<or>
     (case newest (doc_entries d) of
        None \<Rightarrow> False
      | Some n \<Rightarrow> same_contents n e \<and> unchanged_by js Producer d e (\<lambda>_. True) \<and>
          unchanged_by js Producer d e (\<lambda>x. en_epoch x = en_epoch e))"

text \<open>The layers read or derived, with the change made outside folded in.\<close>

definition with_external :: "'j serde \<Rightarrow> 'j entry \<Rightarrow> smap \<Rightarrow> smap \<Rightarrow> 'j layers \<Rightarrow> layer_error + 'j layers" where
  "with_external js e labels metadata ls =
     (case drift js (merged_with_removals js ls) labels metadata of
        None \<Rightarrow> Inr ls
      | Some ext \<Rightarrow>
          (case next_seq User (ly_get User ls) of
             Inl err \<Rightarrow> Inl err
           | Inr n \<Rightarrow>
               Inr (ly_set User (push_entry
                 (ext\<lparr>en_seq := n, en_id := ''external-'' @ decimal (unat n) @ ''-'' @ en_id e, en_ts := en_ts e\<rparr>)
                 (ly_get User ls)) ls)))"

definition write_back :: "'j serde \<Rightarrow> folded \<Rightarrow> 'j layers \<Rightarrow> smap \<Rightarrow> smap \<times> smap" where
  "write_back js before ls metadata =
     (let after = merged js ls;
          metadata = fold (\<lambda>k m. if k |\<notin>| fmdom (fo_metadata after) then fmdrop k m else m)
            (map_keys (fo_metadata before)) metadata;
          metadata = fold (\<lambda>(k, v) m. if v = '''' then fmdrop k m else m)
            (map_entries (fo_metadata (merged_with_removals js ls))) metadata;
          metadata = metadata ++\<^sub>f fo_metadata after;
          metadata = fold (\<lambda>l m. fmupd (layer_key l) (js_doc_string js (ly_get l ls)) m) ORDER metadata
      in (fo_labels after, metadata))"

definition layers_append :: "'j serde \<Rightarrow> (u8 list \<Rightarrow> u128) \<Rightarrow> string option \<Rightarrow> legacy_evidence \<Rightarrow> layer \<Rightarrow>
    'j entry \<Rightarrow> smap \<times> smap \<Rightarrow> (layer_error + bool) \<times> smap \<times> smap" where
  "layers_append js xxh3 uuid evidence l e = (\<lambda>(labels, metadata).
     case forbidden_key e of
       Some key \<Rightarrow> (Inl (Refused key), labels, metadata)
     | None \<Rightarrow>
       (case ly_read js metadata of
          Inl err \<Rightarrow> (Inl err, labels, metadata)
        | Inr read \<Rightarrow>
          (let (ls, derived) = (case read of
                 Some ls \<Rightarrow> (ls, False)
               | None \<Rightarrow> (derive_legacy js xxh3 uuid labels metadata evidence, True));
               before = merged js ls
           in case (if derived then Inr ls else with_external js e labels metadata ls) of
                Inl err \<Rightarrow> (Inl err, labels, metadata)
              | Inr ls1 \<Rightarrow>
                (let d = ly_get l ls1 in
                 case next_seq l d of
                   Inl err \<Rightarrow> (Inl err, labels, metadata)
                 | Inr n \<Rightarrow>
                   (let e = e\<lparr>en_seq := n\<rparr> in
                    if l = Producer \<and> repeats js d e then (Inr False, labels, metadata)
                    else
                      let ls2 = refresh_caches js (ly_set l (push_entry e d) ls1);
                          (labels', metadata') = write_back js before ls2 metadata
                      in (Inr True, labels', metadata'))))))"

end
