(* ===== verification/LayersCorrect.thy ===== *)
theory LayersCorrect
  imports Layers "HOL-Library.Multiset"
begin

text \<open>
  What a call of \<open>Layers::append\<close> leaves behind (metriken-storage/src/layers.rs, modelled in \<open>Layers\<close>): which
  keys a fold can hold, that an append only grows the layers and keeps the caches, labels and metadata
  in agreement with them, what happens when it fails or has nothing to add, and which layer a merged
  key comes from.
\<close>

section \<open>Which keys a fold can hold\<close>

definition clean_entry :: "'j entry \<Rightarrow> bool" where
  "clean_entry e \<longleftrightarrow> (\<forall>k. k |\<in>| fmdom (en_labels e) \<longrightarrow> \<not> reserved k) \<and>
     (\<forall>k. k |\<in>| fmdom (en_metadata e) \<longrightarrow> \<not> forbidden_metadata k)"

definition clean :: "'j layers \<Rightarrow> bool" where
  "clean ls \<longleftrightarrow> (\<forall>l. \<forall>e \<in> set (doc_entries (ly_get l ls)). clean_entry e)"

lemma forbidden_key_clean: "forbidden_key e = None \<Longrightarrow> clean_entry e"
  by (auto simp: forbidden_key_def clean_entry_def find_None_iff split: option.splits)

lemma clean_entry_seq [simp]: "clean_entry (e\<lparr>en_seq := n\<rparr>) = clean_entry e"
  by (simp add: clean_entry_def)

lemma dom_fold_fmdrop: "fmdom (fold fmdrop ks m) |\<subseteq>| fmdom m"
  by (induction ks arbitrary: m) (auto, fastforce)

lemma lookup_fold_fmdrop: "fmlookup (fold fmdrop ks m) k = (if k \<in> set ks then None else fmlookup m k)"
  by (induction ks arbitrary: m) auto

lemma fo_apply_dom:
  "fmdom (fo_labels (fo_apply js labels metadata f)) = fmdom labels |\<union>| fmdom (fo_labels f)"
  "fmdom (fo_metadata (fo_apply js labels metadata f)) = fmdom metadata |\<union>| fmdom (fo_metadata f)"
  by (auto simp: fmlookup_dom_iff fo_apply_labels fo_apply_metadata split: option.splits)

lemma fo_apply_entry_dom:
  "k |\<in>| fmdom (fo_labels (fo_apply_entry js e f)) \<Longrightarrow> k |\<in>| fmdom (en_labels e) \<or> k |\<in>| fmdom (fo_labels f)"
  "k |\<in>| fmdom (fo_metadata (fo_apply_entry js e f)) \<Longrightarrow> k |\<in>| fmdom (en_metadata e) \<or> k |\<in>| fmdom (fo_metadata f)"
  by (auto simp: fo_apply_entry_def fo_apply_dom fmlookup_dom_iff lookup_fold_fmdrop split: if_splits)

lemma fold_apply_clean:
  assumes "\<forall>e \<in> set es. clean_entry e"
    and "\<And>k. k |\<in>| fmdom (fo_labels f) \<Longrightarrow> \<not> reserved k"
    and "\<And>k. k |\<in>| fmdom (fo_metadata f) \<Longrightarrow> \<not> forbidden_metadata k"
  shows "(\<forall>k. k |\<in>| fmdom (fo_labels (fold (fo_apply_entry js) es f)) \<longrightarrow> \<not> reserved k) \<and>
    (\<forall>k. k |\<in>| fmdom (fo_metadata (fold (fo_apply_entry js) es f)) \<longrightarrow> \<not> forbidden_metadata k)"
  using assms
proof (induction es arbitrary: f)
  case (Cons e es)
  have "clean_entry e" using Cons.prems(1) by simp
  then have "k |\<in>| fmdom (fo_labels (fo_apply_entry js e f)) \<Longrightarrow> \<not> reserved k"
      "k |\<in>| fmdom (fo_metadata (fo_apply_entry js e f)) \<Longrightarrow> \<not> forbidden_metadata k" for k
    using fo_apply_entry_dom [of k js e f] Cons.prems(2,3) unfolding clean_entry_def by blast+
  then show ?case
    using Cons.IH [of "fo_apply_entry js e f"] Cons.prems(1) by simp
qed simp

lemma set_ordered [simp]: "set (ordered l d) = set (doc_entries d)"
  by (cases l) (simp_all add: ordered_def)

lemma doc_fold_clean:
  assumes "clean ls"
  shows "k |\<in>| fmdom (fo_labels (doc_fold js l (ly_get l ls))) \<Longrightarrow> \<not> reserved k"
    "k |\<in>| fmdom (fo_metadata (doc_fold js l (ly_get l ls))) \<Longrightarrow> \<not> forbidden_metadata k"
  using fold_apply_clean [of "ordered l (ly_get l ls)" fo_default js] assms
  unfolding doc_fold_def clean_def by (auto simp: fo_default_def)

lemma dom_without_empty: "k |\<in>| fmdom (without_empty m) \<Longrightarrow> k |\<in>| fmdom m"
  by (simp add: without_empty_def)

lemma merge_layer_dom:
  "k |\<in>| fmdom (fo_labels (merge_layer js ls l f)) \<Longrightarrow>
    k |\<in>| fmdom (fo_labels (doc_fold js l (ly_get l ls))) \<or> k |\<in>| fmdom (fo_labels f)"
  "k |\<in>| fmdom (fo_metadata (merge_layer js ls l f)) \<Longrightarrow>
    k |\<in>| fmdom (fo_metadata (doc_fold js l (ly_get l ls))) \<or> k |\<in>| fmdom (fo_metadata f)"
  by (auto simp: merge_layer_def fo_apply_dom Let_def dest: dom_without_empty split: if_splits)

lemma removals_clean:
  assumes "clean ls"
  shows "k |\<in>| fmdom (fo_metadata (merged_with_removals js ls)) \<Longrightarrow> \<not> forbidden_metadata k"
proof -
  have "fo_metadata (merged_with_removals js ls) = fo_metadata (fold (merge_layer js ls) ORDER fo_default)"
    by (auto simp: merged_with_removals_def Let_def split: option.splits)
  moreover have "k |\<in>| fmdom (fo_metadata (fold (merge_layer js ls) ORDER fo_default)) \<Longrightarrow> \<not> forbidden_metadata k"
    using doc_fold_clean(2) [OF assms]
    by (auto simp: ORDER_def fo_default_def dest!: merge_layer_dom(2))
  ultimately show "k |\<in>| fmdom (fo_metadata (merged_with_removals js ls)) \<Longrightarrow> \<not> forbidden_metadata k"
    by simp
qed

lemma merged_lookup:
  "fmlookup (fo_labels (merged js ls)) k = present (fo_labels (merged_with_removals js ls)) k"
  "fmlookup (fo_metadata (merged js ls)) k = present (fo_metadata (merged_with_removals js ls)) k"
  by (simp_all add: merged_def Let_def lookup_without_empty present_def)

lemma layer_keys_forbidden [simp]: "forbidden_metadata (layer_key l)"
  by (cases l) (simp_all add: forbidden_metadata_def reserved_def layer_names)

lemma layer_key_inj [simp]: "layer_key l = layer_key m \<longleftrightarrow> l = m"
  by (cases l; cases m) (simp_all add: layer_names)

section \<open>Caches\<close>

lemma ly_get_set [simp]: "ly_get l (ly_set m d ls) = (if l = m then d else ly_get l ls)"
  by (cases l; cases m) simp_all

lemma refresh_cache_entries [simp]: "doc_entries (refresh_cache js l d) = doc_entries d"
  by (simp add: refresh_cache_def Let_def)

lemma ly_get_refresh [simp]: "ly_get l (refresh_caches js ls) = refresh_cache js l (ly_get l ls)"
  by (cases l) (simp_all add: refresh_caches_def ORDER_def)

lemma doc_fold_entries: "doc_entries d = doc_entries d' \<Longrightarrow> doc_fold js l d = doc_fold js l d'"
  by (cases l) (simp_all add: doc_fold_def ordered_def)

lemma merged_refresh [simp]:
  "merged_with_removals js (refresh_caches js ls) = merged_with_removals js ls"
  "merged js (refresh_caches js ls) = merged js ls"
proof -
  have "merge_layer js (refresh_caches js ls) l = merge_layer js ls l" for l
    using doc_fold_entries [of "refresh_cache js l (ly_get l ls)" "ly_get l ls" js l]
    by (simp add: merge_layer_def fun_eq_iff)
  then have "merge_layer js (refresh_caches js ls) = merge_layer js ls" by (simp add: fun_eq_iff)
  then show removals: "merged_with_removals js (refresh_caches js ls) = merged_with_removals js ls"
    by (simp add: merged_with_removals_def)
  then show "merged js (refresh_caches js ls) = merged js ls"
    by (simp add: merged_def)
qed

lemma clean_refresh [simp]: "clean (refresh_caches js ls) = clean ls"
  by (simp add: clean_def)

section \<open>Writing back and reading again\<close>

lemma fold_drop_where:
  "fmlookup (fold (\<lambda>k m. if P k then fmdrop k m else m) ks m) k =
     (if k \<in> set ks \<and> P k then None else fmlookup m k)"
  by (induction ks arbitrary: m) auto

lemma fold_drop_pairs:
  "fmlookup (fold (\<lambda>(k, v) m. if P v then fmdrop k m else m) kvs m) k =
     (if \<exists>v. (k, v) \<in> set kvs \<and> P v then None else fmlookup m k)"
  by (induction kvs arbitrary: m) auto

lemma write_back_labels [simp]: "fst (write_back js before ls metadata) = fo_labels (merged js ls)"
  by (simp add: write_back_def Let_def)

lemma write_back_key:
  "fmlookup (snd (write_back js before ls metadata)) (layer_key l) = Some (js_doc_string js (ly_get l ls))"
  by (cases l) (simp_all add: write_back_def Let_def ORDER_def layer_names)

lemma write_back_other:
  assumes "\<And>l. k \<noteq> layer_key l"
  shows "fmlookup (snd (write_back js before ls metadata)) k =
    (case fmlookup (fo_metadata (merged js ls)) k of
       Some v \<Rightarrow> Some v
     | None \<Rightarrow>
         (if k |\<in>| fmdom (fo_metadata before) \<or> k |\<in>| fmdom (fo_metadata (merged_with_removals js ls))
          then None else fmlookup metadata k))"
proof -
  have keys: "k \<noteq> RECORDER_KEY" "k \<noteq> PRODUCER_KEY" "k \<noteq> USER_KEY"
    using assms [of Recorder] assms [of Producer] assms [of User] by simp_all
  have empty: "(\<exists>v. (k, v) \<in> set (map_entries (fo_metadata (merged_with_removals js ls))) \<and> v = '''') \<longleftrightarrow>
      k |\<in>| fmdom (fo_metadata (merged_with_removals js ls)) \<and> fmlookup (fo_metadata (merged js ls)) k = None"
    by (auto simp: set_map_entries merged_lookup present_def nonempty_def fmlookup_dom_iff
        split: if_splits)
  show ?thesis
    unfolding write_back_def Let_def
    using keys empty
    by (auto simp: ORDER_def fold_drop_where fold_drop_pairs fmdom_notI fmlookup_dom_iff split: option.splits)
qed

lemma read_back:
  assumes "serde_ok js"
  shows "ly_read js (snd (write_back js before ls metadata)) = Inr (Some ls)"
proof -
  let ?m = "snd (write_back js before ls metadata)"
  have read: "read_layer js ?m l = Inr (Some (ly_get l ls))" for l
    using assms by (simp add: read_layer_def write_back_key serde_ok_def)
  have "layer_key Recorder |\<in>| fmdom ?m"
    using write_back_key [of js before ls metadata Recorder] by (rule fmdomI)
  then have some: "\<not> list_all (\<lambda>l. layer_key l |\<notin>| fmdom ?m) ORDER"
    by (simp add: ORDER_def del: layer_key.simps)
  have "read_layers js ?m ORDER layers_default = Inr ls"
    unfolding ORDER_def by (simp add: read layers_default_def)
  with some show ?thesis by (simp add: ly_read_def)
qed

lemma collect_drift_empty: "(\<And>k. k \<in> set ks \<Longrightarrow> change k = None) \<Longrightarrow> collect_drift change ks = fmempty"
proof -
  assume "\<And>k. k \<in> set ks \<Longrightarrow> change k = None"
  then have "fold (\<lambda>k m. case change k of None \<Rightarrow> m | Some v \<Rightarrow> fmupd k v m) ks m = m" for m
    by (induction ks arbitrary: m) auto
  then show ?thesis by (simp add: collect_drift_def)
qed

lemma no_drift:
  assumes "\<And>k. present (fo_labels before) k = present labels k"
    and "\<And>k. k |\<in>| fmdom (fo_metadata before) \<Longrightarrow> present (fo_metadata before) k = present metadata k"
  shows "drift js before labels metadata = None"
proof -
  have "collect_drift (label_drift (fo_labels before) labels) ks = fmempty" for ks
    by (rule collect_drift_empty) (simp add: label_drift_def assms(1))
  moreover have "collect_drift (metadata_drift js (fo_metadata before) metadata) (map_keys (fo_metadata before)) = fmempty"
    by (rule collect_drift_empty) (simp add: metadata_drift_def assms(2))
  ultimately show ?thesis by (simp add: drift_def Let_def entry_new_def)
qed

lemma present_idem: "Option.bind (present m k) nonempty = present m k"
  by (cases "fmlookup m k") (simp_all add: present_def nonempty_def)

lemma write_back_no_drift:
  assumes "clean ls"
  shows "drift js (merged_with_removals js ls) (fo_labels (merged js ls))
    (snd (write_back js before ls metadata)) = None"
proof (rule no_drift)
  fix k
  show "present (fo_labels (merged_with_removals js ls)) k = present (fo_labels (merged js ls)) k"
    unfolding present_def [of "fo_labels (merged js ls)"] merged_lookup(1) present_idem ..
next
  fix k assume k: "k |\<in>| fmdom (fo_metadata (merged_with_removals js ls))"
  then have "k \<noteq> layer_key l" for l using removals_clean [OF assms k] by auto
  from write_back_other [OF this, of js before ls metadata] k
  have "fmlookup (snd (write_back js before ls metadata)) k = fmlookup (fo_metadata (merged js ls)) k"
    by (simp split: option.splits)
  then show "present (fo_metadata (merged_with_removals js ls)) k =
      present (snd (write_back js before ls metadata)) k"
    unfolding present_def [of "snd _"] merged_lookup(2) by (simp add: present_idem)
qed

section \<open>Every layer stays free of forbidden keys\<close>

lemma identity_keys_clean:
  assumes "identity_keys i (fmempty, fmempty) = (ls, md)"
  shows "k |\<in>| fmdom ls \<Longrightarrow> \<not> reserved k" "k |\<in>| fmdom md \<Longrightarrow> \<not> forbidden_metadata k"
proof -
  have dom: "k |\<in>| fmdom (insert_some key v m) \<Longrightarrow> k = key \<or> k |\<in>| fmdom m" for key v m
    by (cases v) auto
  have "\<not> reserved HOST" "\<not> forbidden_metadata BUILD" "\<not> forbidden_metadata VERSION"
      "\<not> forbidden_metadata PRODUCER_NAME"
    by (simp_all add: forbidden_metadata_def reserved_def layer_names)
  then show "k |\<in>| fmdom ls \<Longrightarrow> \<not> reserved k" "k |\<in>| fmdom md \<Longrightarrow> \<not> forbidden_metadata k"
    using assms by (auto simp: identity_keys_def dest!: dom)
qed

lemma upgrade_fields [simp]:
  "en_labels (upgrade_entry xxh3 uuid l epoch from_ts) = fmempty"
  "en_metadata (upgrade_entry xxh3 uuid l epoch from_ts) = fmempty"
  by (simp_all add: upgrade_entry_def entry_new_def)

lemma named_key_allowed: "\<not> forbidden_metadata ''producer_name''"
  by (simp add: forbidden_metadata_def reserved_def layer_names)

lemma derive_legacy_clean: "clean (derive_legacy js xxh3 uuid labels metadata evidence)"
proof -
  have "clean_entry ((upgrade_entry xxh3 uuid Producer None None)\<lparr>en_labels := ls, en_metadata := md\<rparr>)"
    if "(ls, md) = identity_keys i (fmempty, fmempty)" for i ls md
    using identity_keys_clean [OF that [symmetric]] by (simp add: clean_entry_def)
  moreover have "clean_entry ((upgrade_entry xxh3 uuid User None None)\<lparr>en_labels := legacy_labels labels\<rparr>)"
    by (simp add: clean_entry_def legacy_labels_def)
  moreover have "clean_entry ((upgrade_entry xxh3 uuid Recorder None None)\<lparr>en_metadata := legacy_metadata metadata\<rparr>)"
    by (auto simp: clean_entry_def legacy_metadata_def forbidden_metadata_def)
  moreover have "clean_entry ((upgrade_entry xxh3 uuid Recorder tag None)
      \<lparr>en_seq := 1, en_metadata := fmupd ''producer_name'' name fmempty\<rparr>)" for tag name
    using named_key_allowed by (simp add: clean_entry_def)
  moreover have "clean_entry ((upgrade_entry xxh3 uuid Recorder tag from_ts)
      \<lparr>en_seq := n, en_from_ts := from_ts, en_epoch := ep\<rparr>)" for tag from_ts n ep
    by (simp add: clean_entry_def)
  ultimately have "clean_entry e"
    if "e \<in> set (doc_entries (ly_get l (derive_legacy js xxh3 uuid labels metadata evidence)))" for l e
    using that
    by (cases l) (auto simp: derive_legacy_def Let_def doc_default_def split: if_splits option.splits prod.splits)
  then show ?thesis by (simp add: clean_def)
qed

lemma collect_drift_dom: "k |\<in>| fmdom (collect_drift change ks) \<Longrightarrow> k \<in> set ks \<and> change k \<noteq> None"
proof -
  have "k |\<in>| fmdom (fold (\<lambda>k m. case change k of None \<Rightarrow> m | Some v \<Rightarrow> fmupd k v m) ks m) \<Longrightarrow>
      k |\<in>| fmdom m \<or> (k \<in> set ks \<and> change k \<noteq> None)" for m
  proof (induction ks arbitrary: m)
    case (Cons j ks)
    then show ?case by (cases "change j") fastforce+
  qed simp
  from this [of fmempty] show "k |\<in>| fmdom (collect_drift change ks) \<Longrightarrow> k \<in> set ks \<and> change k \<noteq> None"
    by (simp add: collect_drift_def)
qed

lemma drift_clean:
  assumes "clean ls" and "drift js (merged_with_removals js ls) labels metadata = Some e"
  shows "clean_entry e"
proof -
  have "k |\<in>| fmdom (en_labels e) \<Longrightarrow> \<not> reserved k" for k
    using assms(2) by (auto simp: drift_def Let_def label_drift_def split: if_splits dest!: collect_drift_dom)
  moreover have "k |\<in>| fmdom (en_metadata e) \<Longrightarrow> \<not> forbidden_metadata k" for k
    using assms(2) removals_clean [OF assms(1), of k js]
    by (auto simp: drift_def Let_def split: if_splits dest!: collect_drift_dom)
  ultimately show ?thesis by (simp add: clean_entry_def)
qed

text \<open>The layers only grow: \<open>grown\<close> says that a layer's entries are a prefix of its later ones.\<close>

definition grown :: "'j layers \<Rightarrow> 'j layers \<Rightarrow> bool" where
  "grown ls ls' \<longleftrightarrow> (\<forall>l. \<exists>es. doc_entries (ly_get l ls') = doc_entries (ly_get l ls) @ es)"

lemma grown_refl: "grown ls ls"
  by (simp add: grown_def)

lemma grown_trans: "grown ls ls1 \<Longrightarrow> grown ls1 ls2 \<Longrightarrow> grown ls ls2"
  unfolding grown_def by (metis append.assoc)

lemma grown_push: "grown ls (ly_set l (push_entry e (ly_get l ls)) ls)"
  by (simp add: grown_def push_entry_def)

lemma grown_refresh: "grown ls (refresh_caches js ls)"
  by (simp add: grown_def)

lemma clean_push: "clean ls \<Longrightarrow> clean_entry e \<Longrightarrow> clean (ly_set l (push_entry e (ly_get l ls)) ls)"
  by (auto simp: clean_def push_entry_def)

lemma with_external_inv:
  assumes "clean ls" and "with_external js e labels metadata ls = Inr ls1"
  shows "clean ls1 \<and> grown ls ls1"
proof (cases "drift js (merged_with_removals js ls) labels metadata")
  case None
  with assms show ?thesis by (simp add: with_external_def grown_refl)
next
  case (Some ext)
  then obtain n where ls1: "ls1 = ly_set User (push_entry
      (ext\<lparr>en_seq := n, en_id := ''external-'' @ decimal (unat n) @ ''-'' @ en_id e, en_ts := en_ts e\<rparr>)
      (ly_get User ls)) ls"
    using assms(2) by (auto simp: with_external_def split: sum.splits)
  have "clean_entry (ext\<lparr>en_seq := n, en_id := i, en_ts := ts\<rparr>)" for i ts
    using drift_clean [OF assms(1) Some] by (simp add: clean_entry_def)
  then show ?thesis unfolding ls1 using clean_push [OF assms(1)] grown_push by blast
qed

section \<open>A call of append\<close>

text \<open>The layers a source has, read or derived.\<close>

definition source_layers :: "'j serde \<Rightarrow> (u8 list \<Rightarrow> u128) \<Rightarrow> string option \<Rightarrow> legacy_evidence \<Rightarrow>
    smap \<times> smap \<Rightarrow> layer_error + 'j layers" where
  "source_layers js xxh3 uuid evidence = (\<lambda>(labels, metadata).
     map_sum id (\<lambda>read. case read of
         None \<Rightarrow> derive_legacy js xxh3 uuid labels metadata evidence | Some ls \<Rightarrow> ls)
       (ly_read js metadata))"

definition source_clean :: "'j serde \<Rightarrow> smap \<Rightarrow> bool" where
  "source_clean js metadata \<longleftrightarrow> (\<forall>ls. ly_read js metadata = Inr (Some ls) \<longrightarrow> clean ls)"

lemma append_cases:
  assumes "layers_append js xxh3 uuid evidence l e (labels, metadata) = (r, labels', metadata')"
  obtains (kept) "labels' = labels" "metadata' = metadata" "r \<noteq> Inr True"
  | (wrote) ls ls1 n ls2 where "r = Inr True" "forbidden_key e = None"
      "source_layers js xxh3 uuid evidence (labels, metadata) = Inr ls"
      "ls1 = ls \<and> ly_read js metadata = Inr None \<or> with_external js e labels metadata ls = Inr ls1"
      "next_seq l (ly_get l ls1) = Inr n"
      "\<not> (l = Producer \<and> repeats js (ly_get l ls1) (e\<lparr>en_seq := n\<rparr>))"
      "ls2 = refresh_caches js (ly_set l (push_entry (e\<lparr>en_seq := n\<rparr>) (ly_get l ls1)) ls1)"
      "(labels', metadata') = write_back js (merged js ls) ls2 metadata"
proof (cases "r = Inr True")
  case False
  with assms have "labels' = labels \<and> metadata' = metadata"
    by (auto simp: layers_append_def Let_def split: option.splits sum.splits if_splits prod.splits)
  with False kept show ?thesis by blast
next
  case True
  note unfolded = assms [unfolded layers_append_def Let_def]
  have forbidden: "forbidden_key e = None" using unfolded True by (auto split: option.splits)
  obtain read where read: "ly_read js metadata = Inr read"
    using unfolded True forbidden by (auto split: sum.splits)
  define ls where "ls = (case read of None \<Rightarrow> derive_legacy js xxh3 uuid labels metadata evidence | Some ls \<Rightarrow> ls)"
  have source: "source_layers js xxh3 uuid evidence (labels, metadata) = Inr ls"
    by (simp add: source_layers_def read ls_def)
  obtain ls1 where ls1: "(if read = None then Inr ls else with_external js e labels metadata ls) = Inr ls1"
    using unfolded True forbidden read unfolding ls_def
    by (cases read) (auto split: sum.splits)
  obtain n where n: "next_seq l (ly_get l ls1) = Inr n"
    using unfolded True forbidden read ls1 unfolding ls_def
    by (cases read) (auto split: sum.splits)
  let ?ls2 = "refresh_caches js (ly_set l (push_entry (e\<lparr>en_seq := n\<rparr>) (ly_get l ls1)) ls1)"
  have "\<not> (l = Producer \<and> repeats js (ly_get l ls1) (e\<lparr>en_seq := n\<rparr>)) \<and>
      (labels', metadata') = write_back js (merged js ls) ?ls2 metadata"
    using unfolded True forbidden read ls1 n unfolding ls_def
    by (cases read) (auto split: if_splits prod.splits)
  with wrote [OF True forbidden source _ n] ls1 read show ?thesis
    by (auto split: if_splits)
qed

lemma append_writes:
  assumes "serde_ok js" and "source_clean js metadata"
    and "layers_append js xxh3 uuid evidence l e (labels, metadata) = (Inr True, labels', metadata')"
  shows "\<exists>ls ls'. source_layers js xxh3 uuid evidence (labels, metadata) = Inr ls \<and>
    ly_read js metadata' = Inr (Some ls') \<and> clean ls' \<and> grown ls ls' \<and>
    (\<exists>n es. doc_entries (ly_get l ls') = es @ [e\<lparr>en_seq := n\<rparr>]) \<and>
    (\<forall>l. doc_fold js l (ly_get l ls') =
       \<lparr>fo_labels = doc_labels (ly_get l ls'), fo_metadata = doc_metadata (ly_get l ls')\<rparr>) \<and>
    labels' = fo_labels (merged js ls') \<and>
    (\<forall>k v. fmlookup (fo_metadata (merged js ls')) k = Some v \<longrightarrow> fmlookup metadata' k = Some v) \<and>
    drift js (merged_with_removals js ls') labels' metadata' = None \<and>
    (\<forall>k. k |\<notin>| fmdom (fo_metadata (merged js ls)) \<and> k |\<notin>| fmdom (fo_metadata (merged_with_removals js ls')) \<and>
       (\<forall>l. k \<noteq> layer_key l) \<longrightarrow> fmlookup metadata' k = fmlookup metadata k)"
  using assms(3)
proof (cases rule: append_cases)
  case kept
  then show ?thesis by simp
next
  case (wrote ls ls1 n ls2)
  have "clean ls"
    using wrote(3) assms(2) derive_legacy_clean
    by (auto simp: source_layers_def source_clean_def map_sum_def split: sum.splits option.splits)
  then have ls1: "clean ls1" "grown ls ls1"
    using wrote(4) with_external_inv grown_refl by blast+
  have "clean_entry (e\<lparr>en_seq := n\<rparr>)" using forbidden_key_clean [OF wrote(2)] by simp
  then have clean2: "clean ls2" unfolding wrote(7) clean_refresh by (rule clean_push [OF ls1(1)])
  have grown2: "grown ls ls2"
    unfolding wrote(7) using ls1(2) grown_push grown_refresh by (meson grown_trans)
  have entry: "doc_entries (ly_get l ls2) = doc_entries (ly_get l ls1) @ [e\<lparr>en_seq := n\<rparr>]"
    by (simp add: wrote(7) push_entry_def)
  have cache: "doc_fold js m (ly_get m ls2) =
      \<lparr>fo_labels = doc_labels (ly_get m ls2), fo_metadata = doc_metadata (ly_get m ls2)\<rparr>" for m
  proof -
    let ?d = "ly_get m (ly_set l (push_entry (e\<lparr>en_seq := n\<rparr>) (ly_get l ls1)) ls1)"
    have "ly_get m ls2 = refresh_cache js m ?d" by (simp only: wrote(7) ly_get_refresh)
    moreover have "doc_fold js m (refresh_cache js m ?d) = doc_fold js m ?d"
      by (rule doc_fold_entries) simp
    ultimately show ?thesis by (simp add: refresh_cache_def Let_def)
  qed
  have labels': "labels' = fo_labels (merged js ls2)" and
      metadata': "metadata' = snd (write_back js (merged js ls) ls2 metadata)"
    using wrote(8) write_back_labels [of js "merged js ls" ls2 metadata] by (metis fst_conv, metis snd_conv)
  have "fmlookup metadata' k = Some v" if "fmlookup (fo_metadata (merged js ls2)) k = Some v" for k v
  proof -
    have "k |\<in>| fmdom (fo_metadata (merged_with_removals js ls2))"
      using that unfolding merged_lookup present_def fmlookup_dom_iff by (cases "fmlookup (fo_metadata (merged_with_removals js ls2)) k") auto
    then have "k \<noteq> layer_key l" for l using removals_clean [OF clean2] by fastforce
    from write_back_other [OF this, of js "merged js ls" ls2 metadata] that show ?thesis
      by (simp add: metadata')
  qed
  moreover have "fmlookup metadata' k = fmlookup metadata k"
    if "k |\<notin>| fmdom (fo_metadata (merged js ls))" "k |\<notin>| fmdom (fo_metadata (merged_with_removals js ls2))"
      "\<forall>l. k \<noteq> layer_key l" for k
  proof -
    have "fmlookup (fo_metadata (merged js ls2)) k = None"
      using that(2) by (simp add: merged_lookup present_def fmdom_notD)
    then show ?thesis
      using write_back_other [of k js "merged js ls" ls2 metadata] that by (simp add: metadata')
  qed
  ultimately show ?thesis
    using wrote(3) read_back [OF assms(1)] clean2 grown2 entry cache labels'
      write_back_no_drift [OF clean2]
    by (intro exI [of _ ls] exI [of _ ls2]) (auto simp: metadata')
qed

text \<open>
  C2. A call of \<open>append\<close> that appends leaves everything in agreement. The layers read back from the metadata it wrote end with the
  appended entry, and every layer's earlier entries are still there, in order; each layer's cache is
  the fold of its entries; the source's labels are the merged layers' labels and its metadata
  holds every key the merged layers set; a metadata key that neither the layers before nor those
  after set is untouched; and a further \<open>append\<close> finds no change made outside to fold in. No layer ever holds a
  forbidden key.
\<close>

theorem append_keeps_the_layers_in_agreement:
  assumes "serde_ok js" and "source_clean js metadata"
    and "layers_append js xxh3 uuid evidence l e (labels, metadata) = (Inr True, labels', metadata')"
  shows "\<exists>ls ls'. source_layers js xxh3 uuid evidence (labels, metadata) = Inr ls \<and>
    ly_read js metadata' = Inr (Some ls') \<and> clean ls' \<and> grown ls ls' \<and>
    (\<exists>n es. doc_entries (ly_get l ls') = es @ [e\<lparr>en_seq := n\<rparr>]) \<and>
    (\<forall>l. doc_fold js l (ly_get l ls') =
       \<lparr>fo_labels = doc_labels (ly_get l ls'), fo_metadata = doc_metadata (ly_get l ls')\<rparr>) \<and>
    labels' = fo_labels (merged js ls') \<and>
    (\<forall>k v. fmlookup (fo_metadata (merged js ls')) k = Some v \<longrightarrow> fmlookup metadata' k = Some v) \<and>
    drift js (merged_with_removals js ls') labels' metadata' = None \<and>
    (\<forall>k. k |\<notin>| fmdom (fo_metadata (merged js ls)) \<and> k |\<notin>| fmdom (fo_metadata (merged_with_removals js ls')) \<and>
       (\<forall>l. k \<noteq> layer_key l) \<longrightarrow> fmlookup metadata' k = fmlookup metadata k)"
  by (rule append_writes [OF assms])

text \<open>
  C34. A call of \<open>append\<close> that does not append changes nothing: when it returns an error, or reports a repeated
  producer entry, the labels and the metadata are what they were. An entry that sets or unsets a
  reserved key, a flat epoch key or a key dendro maintains is refused whatever the source holds.
\<close>

theorem failed_append_changes_nothing:
  assumes "layers_append js xxh3 uuid evidence l e (labels, metadata) = (r, labels', metadata')"
  shows "(r = Inr True \<or> labels' = labels \<and> metadata' = metadata) \<and>
    (forbidden_key e = None \<or> r = Inl (Refused (the (forbidden_key e))))"
proof -
  have "forbidden_key e = Some k \<Longrightarrow> r = Inl (Refused k)" for k
    using assms by (simp add: layers_append_def)
  moreover have "r = Inr True \<or> labels' = labels \<and> metadata' = metadata"
    using assms by (cases rule: append_cases) auto
  ultimately show ?thesis by (cases "forbidden_key e") auto
qed

section \<open>Repeated producer entries\<close>

lemma last_sort_key:
  fixes f :: "'a \<Rightarrow> 'b::linorder"
  assumes "\<forall>x \<in> set xs. f x < f y"
  shows "last (sort_key f (xs @ [y])) = y"
proof -
  let ?s = "sort_key f (xs @ [y])"
  have ne: "?s \<noteq> []" by (metis length_0_conv length_append_singleton length_sort nat.distinct(1))
  have "last ?s \<in> set (xs @ [y])" using last_in_set [OF ne] by simp
  moreover have "f y \<le> f (last ?s)"
  proof -
    have "y \<in> set ?s" by simp
    then obtain i where i: "i < length ?s" "?s ! i = y" by (meson in_set_conv_nth)
    have "sorted (map f ?s)" by simp
    then have "map f ?s ! i \<le> map f ?s ! (length ?s - 1)"
      using i(1) by (intro sorted_nth_mono) auto
    then show ?thesis using i ne by (simp add: last_conv_nth del: length_sort)
  qed
  ultimately show ?thesis using assms by fastforce
qed

lemma next_seq_bound:
  assumes "next_seq l d = Inr n" "x \<in> set (doc_entries d)"
  shows "en_seq x < n"
proof -
  have ne: "doc_entries d \<noteq> []" using assms(2) by auto
  let ?m = "Max (en_seq ` set (doc_entries d))"
  have "checked_add ?m 1 = Some n"
    using assms(1) ne by (simp add: next_seq_def max_seq_def split: option.splits)
  then have "unat n = unat ?m + 1" using checked_add_Some by fastforce
  moreover have "en_seq x \<le> ?m" using assms(2) by simp
  ultimately show ?thesis by (simp add: word_le_nat_alt word_less_nat_alt)
qed

lemma next_seq_small:
  assumes "\<forall>x \<in> set (doc_entries d). unat (en_seq x) < b" "b < 2 ^ 64"
  shows "\<exists>n. next_seq l d = Inr n \<and> unat n \<le> b"
proof (cases "doc_entries d = []")
  case True
  then show ?thesis by (simp add: next_seq_def max_seq_def)
next
  case False
  let ?m = "Max (en_seq ` set (doc_entries d))"
  have "?m \<in> en_seq ` set (doc_entries d)" using False by (intro Max_in) auto
  then have m: "unat ?m < b" using assms(1) by auto
  then have "checked_add ?m 1 = Some (?m + 1)" using assms(2) by (simp add: checked_add_def)
  moreover from this have "unat (?m + 1) = unat ?m + 1" using checked_add_Some by fastforce
  ultimately show ?thesis using False m by (simp add: next_seq_def max_seq_def)
qed

lemma same_contents_forbidden: "same_contents e e' \<Longrightarrow> forbidden_key e' = forbidden_key e"
  unfolding same_contents_def forbidden_key_def by metis

lemma with_external_producer:
  "with_external js e labels metadata ls = Inr ls1 \<Longrightarrow> ly_get Producer ls1 = ly_get Producer ls"
  by (auto simp: with_external_def split: option.splits sum.splits)

text \<open>
  A producer that says the same thing again is heard once. If appending a producer entry appended it, and no entry of the
  producer layer is stamped later, appending an entry with the same contents, whatever its id,
  time and stamp, returns \<open>false\<close> and changes nothing, however often a handshake is resent. (The layer's sequence numbers must not be
  exhausted, since the code numbers the entry before it looks for a repeat.)
\<close>

theorem repeated_producer_entry_appends_nothing:
  assumes "serde_ok js" and "source_clean js metadata"
    and "source_layers js xxh3 uuid evidence (labels, metadata) = Inr ls"
    and "\<forall>x \<in> set (doc_entries (ly_get Producer ls)).
      en_from_ts x \<le> en_from_ts e \<and> unat (en_seq x) < 2 ^ 64 - 2"
    and "layers_append js xxh3 uuid evidence Producer e (labels, metadata) = (Inr True, labels', metadata')"
    and "same_contents e e'"
  shows "layers_append js xxh3 uuid' evidence' Producer e' (labels', metadata') = (Inr False, labels', metadata')"
proof -
  obtain ls' where ls': "ly_read js metadata' = Inr (Some ls')"
      "drift js (merged_with_removals js ls') labels' metadata' = None"
    using append_writes [OF assms(1,2,5)] by blast
  from assms(5) obtain ls1 n where forbidden: "forbidden_key e = None"
    and layers1: "ls1 = ls \<or> with_external js e labels metadata ls = Inr ls1"
    and seq: "next_seq Producer (ly_get Producer ls1) = Inr n"
    and written: "(labels', metadata') = write_back js (merged js ls)
      (refresh_caches js (ly_set Producer (push_entry (e\<lparr>en_seq := n\<rparr>) (ly_get Producer ls1)) ls1)) metadata"
  proof (cases rule: append_cases)
    case (wrote ls0 ls1 n ls2)
    then have "ls0 = ls" using assms(3) by simp
    with wrote show ?thesis by (intro that) auto
  qed simp
  have same: "doc_entries (ly_get Producer ls1) = doc_entries (ly_get Producer ls)"
    using layers1 with_external_producer by metis
  have "ls' = refresh_caches js (ly_set Producer (push_entry (e\<lparr>en_seq := n\<rparr>) (ly_get Producer ls1)) ls1)"
    using ls'(1) read_back [OF assms(1)] written by (metis Inr_inject option.inject snd_conv)
  then have entries: "doc_entries (ly_get Producer ls') = doc_entries (ly_get Producer ls) @ [e\<lparr>en_seq := n\<rparr>]"
    using same by (simp add: push_entry_def)
  have "last (ordered Producer (ly_get Producer ls')) = e\<lparr>en_seq := n\<rparr>"
    unfolding ordered_def entries layer.case
  proof (rule last_sort_key, rule ballI)
    fix x assume x: "x \<in> set (doc_entries (ly_get Producer ls))"
    have "en_seq x < n" using next_seq_bound [OF seq] x same by metis
    then show "(en_from_ts x, en_seq x, en_id x) <
        (en_from_ts (e\<lparr>en_seq := n\<rparr>), en_seq (e\<lparr>en_seq := n\<rparr>), en_id (e\<lparr>en_seq := n\<rparr>))"
      using assms(4) x by (auto simp: less_prod_def order.order_iff_strict)
  qed
  moreover have "ordered Producer (ly_get Producer ls') \<noteq> []"
    using set_ordered [of Producer "ly_get Producer ls'"] entries
    by (metis append_is_Nil_conv list.distinct(1) set_empty)
  ultimately have repeats: "repeats js (ly_get Producer ls') (e'\<lparr>en_seq := k\<rparr>)" for k
    using assms(6) by (simp add: repeats_def same_contents_def)
  have "\<forall>x \<in> set (doc_entries (ly_get Producer ls1)). unat (en_seq x) < 2 ^ 64 - 2"
    using assms(4) same by simp
  then have "unat n \<le> 2 ^ 64 - 2"
    using next_seq_small [of "ly_get Producer ls1" "2 ^ 64 - 2" Producer] seq by auto
  then have "\<forall>x \<in> set (doc_entries (ly_get Producer ls')). unat (en_seq x) < 2 ^ 64 - 1"
    using assms(4) unfolding entries by auto
  then obtain k where k: "next_seq Producer (ly_get Producer ls') = Inr k"
    using next_seq_small [of "ly_get Producer ls'" "2 ^ 64 - 1" Producer] by auto
  have "forbidden_key e' = None" using same_contents_forbidden [OF assms(6)] forbidden by simp
  moreover have "with_external js e' labels' metadata' ls' = Inr ls'"
    using ls'(2) by (simp add: with_external_def)
  ultimately show ?thesis
    using ls'(1) k repeats by (simp add: layers_append_def Let_def)
qed

section \<open>What the merge says of a key\<close>

abbreviation fold_labels :: "'j serde \<Rightarrow> 'j layers \<Rightarrow> layer \<Rightarrow> smap" where
  "fold_labels js ls l \<equiv> fo_labels (doc_fold js l (ly_get l ls))"

abbreviation fold_metadata :: "'j serde \<Rightarrow> 'j layers \<Rightarrow> layer \<Rightarrow> smap" where
  "fold_metadata js ls l \<equiv> fo_metadata (doc_fold js l (ly_get l ls))"

fun first_some :: "'a option list \<Rightarrow> 'a option" where
  "first_some [] = None"
| "first_some (None # xs) = first_some xs"
| "first_some (Some x # xs) = Some x"

lemma first_some_one [simp]: "first_some [x] = x"
  by (cases x) simp_all

lemma first_some_last [simp]: "first_some [a, b, c, None] = first_some [a, b, c]"
  by (cases a; cases b; cases c) simp_all

lemma merge_layer_labels:
  "fmlookup (fo_labels (merge_layer js ls l f)) k =
     first_some [if l = User then fmlookup (fold_labels js ls l) k else present (fold_labels js ls l) k,
       fmlookup (fo_labels f) k]"
  by (auto simp: merge_layer_def Let_def fo_apply_labels lookup_without_empty present_def split: option.splits)

lemma merge_layer_metadata:
  assumes "k \<notin> set UNION_KEYS"
  shows "fmlookup (fo_metadata (merge_layer js ls l f)) k =
     first_some [if l = User then fmlookup (fold_metadata js ls l) k else present (fold_metadata js ls l) k,
       fmlookup (fo_metadata f) k]"
proof -
  have "merge_value js m k v = v" for m v
    using assms by (simp add: merge_value_def split: option.splits)
  then show ?thesis
    by (auto simp: merge_layer_def Let_def fo_apply_metadata lookup_without_empty present_def split: option.splits)
qed

lemma first_some_append: "first_some (xs @ ys) = first_some [first_some xs, first_some ys]"
  by (induction xs rule: first_some.induct) (auto split: option.splits)

lemma first_some_two [simp]: "first_some [x, first_some ys] = first_some (x # ys)"
  by (cases x; cases "first_some ys") simp_all

lemma merged_labels_before_name:
  "fmlookup (fo_labels (fold (merge_layer js ls) ORDER fo_default)) k =
     first_some [fmlookup (fold_labels js ls User) k, present (fold_labels js ls Producer) k,
       present (fold_labels js ls Recorder) k]"
  by (simp add: ORDER_def merge_layer_labels fo_default_def)

lemma merged_metadata_lookup:
  assumes "k \<notin> set UNION_KEYS"
  shows "fmlookup (fo_metadata (merged_with_removals js ls)) k =
     first_some [fmlookup (fold_metadata js ls User) k, present (fold_metadata js ls Producer) k,
       present (fold_metadata js ls Recorder) k]"
proof -
  have "fo_metadata (merged_with_removals js ls) = fo_metadata (fold (merge_layer js ls) ORDER fo_default)"
    by (auto simp: merged_with_removals_def Let_def split: option.splits)
  then show ?thesis
    using assms
    by (simp add: ORDER_def merge_layer_metadata fo_default_def)
qed

text \<open>
  C33. Who decides a key. A label of the merged layers is the user layer's if that layer sets it, where an empty value
  removes it; otherwise the producer layer's non-empty value, otherwise the recorder layer's; and a
  metadata key that is not merged key by key likewise. \<open>__producer__\<close>, when no layer sets it, is the
  merged \<open>producer_name\<close>.
\<close>

theorem merge_precedence:
  "fmlookup (fo_labels (merged js ls)) k =
     Option.bind (first_some [fmlookup (fold_labels js ls User) k, present (fold_labels js ls Producer) k,
         present (fold_labels js ls Recorder) k,
         if k = PRODUCER_LABEL then fmlookup (fo_metadata (merged js ls)) PRODUCER_NAME else None]) nonempty \<and>
   (k \<in> set UNION_KEYS \<or> fmlookup (fo_metadata (merged js ls)) k =
     Option.bind (first_some [fmlookup (fold_metadata js ls User) k, present (fold_metadata js ls Producer) k,
         present (fold_metadata js ls Recorder) k]) nonempty)"
proof -
  let ?m = "fold (merge_layer js ls) ORDER fo_default"
  let ?name = "present (fo_metadata ?m) PRODUCER_NAME"
  have md: "fo_metadata (merged_with_removals js ls) = fo_metadata ?m"
    by (auto simp: merged_with_removals_def Let_def split: option.splits)
  have name: "fmlookup (fo_metadata (merged js ls)) PRODUCER_NAME = ?name"
    by (simp add: merged_lookup md)
  have labels: "fmlookup (fo_labels (merged_with_removals js ls)) k =
      first_some [fmlookup (fo_labels ?m) k, if k = PRODUCER_LABEL then ?name else None]"
    by (cases "fmlookup (fo_labels ?m) k")
      (auto simp: merged_with_removals_def Let_def present_def nonempty_def fmlookup_dom_iff split: option.splits)
  have "fmlookup (fo_labels (merged js ls)) k =
      Option.bind (first_some [fmlookup (fold_labels js ls User) k, present (fold_labels js ls Producer) k,
         present (fold_labels js ls Recorder) k, if k = PRODUCER_LABEL then ?name else None]) nonempty"
    unfolding merged_lookup present_def [of "fo_labels (merged_with_removals js ls)"] labels merged_labels_before_name
    using first_some_append [of "[fmlookup (fold_labels js ls User) k, present (fold_labels js ls Producer) k,
         present (fold_labels js ls Recorder) k]" "[if k = PRODUCER_LABEL then ?name else None]"] by simp
  moreover have "k \<notin> set UNION_KEYS \<Longrightarrow> fmlookup (fo_metadata (merged js ls)) k =
      Option.bind (first_some [fmlookup (fold_metadata js ls User) k, present (fold_metadata js ls Producer) k,
         present (fold_metadata js ls Recorder) k]) nonempty"
    unfolding merged_lookup present_def [of "fo_metadata (merged_with_removals js ls)"]
    by (simp add: merged_metadata_lookup)
  ultimately show ?thesis unfolding name by blast
qed

section \<open>The order of writing does not matter\<close>

definition sort_ids :: "layer \<Rightarrow> 'j entry \<Rightarrow> u64 option \<times> u64 \<times> string" where
  "sort_ids l e = (if l = User then None else en_from_ts e, en_seq e, en_id e)"

lemma ordered_sort_ids:
  fixes d :: "'j layer_doc"
  shows "ordered l d = sort_key (sort_ids l) (doc_entries d)"
proof (cases "l = User")
  case True
  have "sort_key (\<lambda>e. (en_seq e, en_id e)) xs = sort_key (sort_ids User) xs" for xs :: "'j entry list"
  proof (induction xs)
    case (Cons x xs)
    have "insort_key (\<lambda>e. (en_seq e, en_id e)) x ys = insort_key (sort_ids User) x ys" for ys
      by (induction ys) (simp_all add: sort_ids_def less_eq_prod_def)
    with Cons show ?case by simp
  qed simp
  with True show ?thesis by (simp add: ordered_def)
next
  case False
  have "sort_ids l = (\<lambda>e :: 'j entry. (en_from_ts e, en_seq e, en_id e))"
    using False by (simp add: sort_ids_def fun_eq_iff)
  with False show ?thesis by (cases l) (simp_all add: ordered_def)
qed

text \<open>
  Copies of a layer that hold the same entries agree. The fold of a layer does not depend on the order in which its entries were
  written down, provided no two share their stamp, number and id (their number and id, in the
  user layer): every entry has its place, whichever copy of the source it was appended to first.
\<close>

theorem fold_ignores_writing_order:
  assumes "mset (doc_entries d) = mset (doc_entries d')" and "inj_on (sort_ids l) (set (doc_entries d))"
  shows "doc_fold js l d = doc_fold js l d'"
proof -
  have "sort_key (sort_ids l) (doc_entries d) = sort_key (sort_ids l) (doc_entries d')"
    by (rule sort_key_inj_key_eq) (use assms in simp_all)
  then show ?thesis by (simp add: doc_fold_def ordered_sort_ids)
qed

end
