(* ===== verification/Codec.thy ===== *)
theory Codec
  imports Identity
begin

text \<open>
  A prefix code and its recursive-descent decoders. Nothing of the program is modelled here: the
  wire and document formats belong to other crates and are parameters of the model, and the codecs
  built from these parts show that what is assumed of those crates can hold of functions
  that compute.
\<close>

section \<open>Decoders\<close>

type_synonym 'a decoder = "string \<Rightarrow> ('a \<times> string) option"

definition reads :: "('a \<Rightarrow> string) \<Rightarrow> 'a decoder \<Rightarrow> bool" where
  "reads enc dec \<longleftrightarrow> (\<forall>a rest. dec (enc a @ rest) = Some (a, rest))"

named_theorems readers \<open>what reads back\<close>

lemma readsD [simp]: "reads enc dec \<Longrightarrow> dec (enc a @ rest) = Some (a, rest)"
  by (simp add: reads_def)

lemma reads_whole [simp]: "reads enc dec \<Longrightarrow> dec (enc a) = Some (a, [])"
  using readsD [of enc dec a "[]"] by simp

definition enc_nat :: "nat \<Rightarrow> string" where
  "enc_nat n = replicate n CHR ''1'' @ ''0''"

fun dec_nat :: "nat decoder" where
  "dec_nat [] = None"
| "dec_nat (c # s) = (if c = CHR ''1'' then map_option (\<lambda>(n, rest). (Suc n, rest)) (dec_nat s) else Some (0, s))"

lemma reads_nat [readers]: "reads enc_nat dec_nat"
proof -
  have "dec_nat (enc_nat n @ rest) = Some (n, rest)" for n rest
    by (induction n) (simp_all add: enc_nat_def)
  then show ?thesis by (simp add: reads_def)
qed

text \<open>A value read as another type: \<open>abs\<close> undoes \<open>rep\<close>.\<close>

definition dec_map :: "('a \<Rightarrow> 'b) \<Rightarrow> 'a decoder \<Rightarrow> 'b decoder" where
  "dec_map f dec s = map_option (\<lambda>(a, rest). (f a, rest)) (dec s)"

lemma reads_map:
  assumes "reads enc dec" and "\<And>b. f (rep b) = b"
  shows "reads (\<lambda>b. enc (rep b)) (dec_map f dec)"
  using assms by (simp add: reads_def dec_map_def)

definition enc_pair :: "('a \<Rightarrow> string) \<Rightarrow> ('b \<Rightarrow> string) \<Rightarrow> 'a \<times> 'b \<Rightarrow> string" where
  "enc_pair ea eb = (\<lambda>(a, b). ea a @ eb b)"

definition dec_pair :: "'a decoder \<Rightarrow> 'b decoder \<Rightarrow> ('a \<times> 'b) decoder" where
  "dec_pair da db s = (case da s of None \<Rightarrow> None | Some (a, rest) \<Rightarrow> dec_map (Pair a) db rest)"

lemma reads_pair [readers]: "reads ea da \<Longrightarrow> reads eb db \<Longrightarrow> reads (enc_pair ea eb) (dec_pair da db)"
  by (simp add: reads_def enc_pair_def dec_pair_def dec_map_def)

fun dec_items :: "'a decoder \<Rightarrow> nat \<Rightarrow> 'a list decoder" where
  "dec_items da 0 s = Some ([], s)"
| "dec_items da (Suc n) s = (case da s of None \<Rightarrow> None | Some (a, rest) \<Rightarrow> dec_map (Cons a) (dec_items da n) rest)"

definition enc_list :: "('a \<Rightarrow> string) \<Rightarrow> 'a list \<Rightarrow> string" where
  "enc_list ea xs = enc_nat (length xs) @ concat (map ea xs)"

definition dec_list :: "'a decoder \<Rightarrow> 'a list decoder" where
  "dec_list da s = (case dec_nat s of None \<Rightarrow> None | Some (n, rest) \<Rightarrow> dec_items da n rest)"

lemma reads_list [readers]:
  assumes "reads ea da"
  shows "reads (enc_list ea) (dec_list da)"
proof -
  have "dec_items da (length xs) (concat (map ea xs) @ rest) = Some (xs, rest)" for xs rest
    by (induction xs) (simp_all add: assms dec_map_def)
  then show ?thesis
    by (simp add: reads_def enc_list_def dec_list_def readsD [OF reads_nat])
qed

section \<open>Strings, numbers and maps\<close>

definition enc_string :: "string \<Rightarrow> string" where
  "enc_string = enc_list (\<lambda>c. [c])"

fun dec_char :: "char decoder" where
  "dec_char [] = None"
| "dec_char (c # s) = Some (c, s)"

definition dec_string :: "string decoder" where
  "dec_string = dec_list dec_char"

lemma reads_string [readers]: "reads enc_string dec_string"
  unfolding enc_string_def dec_string_def by (rule reads_list) (simp add: reads_def)

definition enc_u64 :: "u64 \<Rightarrow> string" where
  "enc_u64 w = enc_nat (unat w)"

definition dec_u64 :: "u64 decoder" where
  "dec_u64 = dec_map of_nat dec_nat"

lemma reads_u64 [readers]: "reads enc_u64 dec_u64"
  using reads_map [OF reads_nat, of of_nat unat] by (simp add: enc_u64_def [abs_def] dec_u64_def)

definition enc_option :: "('a \<Rightarrow> string) \<Rightarrow> 'a option \<Rightarrow> string" where
  "enc_option ea v = enc_list ea (case v of None \<Rightarrow> [] | Some a \<Rightarrow> [a])"

definition dec_option :: "'a decoder \<Rightarrow> 'a option decoder" where
  "dec_option da = dec_map (\<lambda>xs. case xs of [] \<Rightarrow> None | a # _ \<Rightarrow> Some a) (dec_list da)"

lemma reads_option [readers]: "reads ea da \<Longrightarrow> reads (enc_option ea) (dec_option da)"
  using reads_map [OF reads_list, of ea da "\<lambda>xs. case xs of [] \<Rightarrow> None | a # _ \<Rightarrow> Some a"
    "\<lambda>v. case v of None \<Rightarrow> [] | Some a \<Rightarrow> [a]"]
  by (simp add: enc_option_def [abs_def] dec_option_def split: option.splits)

definition enc_fmap :: "('v \<Rightarrow> string) \<Rightarrow> (string, 'v) fmap \<Rightarrow> string" where
  "enc_fmap ev m = enc_list (enc_pair enc_string ev) (map_entries m)"

definition dec_fmap :: "'v decoder \<Rightarrow> (string, 'v) fmap decoder" where
  "dec_fmap dv = dec_map fmap_of_list (dec_list (dec_pair dec_string dv))"

lemma fmap_of_map_entries: "fmap_of_list (map_entries m) = m"
  by (rule fmap_eqI) (simp add: fmlookup_of_list map_of_map_entries)

lemma reads_fmap [readers]: "reads ev dv \<Longrightarrow> reads (enc_fmap ev) (dec_fmap dv)"
  using reads_map [OF reads_list [OF reads_pair [OF reads_string]], of ev dv fmap_of_list map_entries]
  by (simp add: enc_fmap_def [abs_def] dec_fmap_def fmap_of_map_entries)

definition enc_unit :: "unit \<Rightarrow> string" where
  "enc_unit u = []"

definition dec_unit :: "unit decoder" where
  "dec_unit s = Some ((), s)"

lemma reads_unit [readers]: "reads enc_unit dec_unit"
  by (simp add: reads_def enc_unit_def dec_unit_def)

end
