(* ===== verification/JsonCodec.thy ===== *)
theory JsonCodec
  imports LayersCorrect Codec
begin

text \<open>
  A concrete \<open>serde\<close>: documents printed as a prefix code and read back by recursive descent. It is
  what the layer properties are instantiated with, to show that \<open>serde_ok\<close> can hold of functions
  that compute; the text it prints is not JSON.
\<close>

section \<open>The data of the layers\<close>

type_synonym entry_parts = "string \<times> u64 \<times> u64 option \<times> string \<times> u64 option \<times> string option \<times> smap \<times> smap \<times>
  string list \<times> string list \<times> (string, unit) fmap"

definition entry_parts :: "unit entry \<Rightarrow> entry_parts" where
  "entry_parts e = (en_id e, en_seq e, en_ts e, en_by e, en_from_ts e, en_epoch e, en_labels e,
     en_metadata e, en_unset_labels e, en_unset_metadata e, en_extra e)"

definition entry_of :: "entry_parts \<Rightarrow> unit entry" where
  "entry_of = (\<lambda>(i, s, t, b, f, ep, l, m, ul, um, x).
     \<lparr>en_id = i, en_seq = s, en_ts = t, en_by = b, en_from_ts = f, en_epoch = ep, en_labels = l,
      en_metadata = m, en_unset_labels = ul, en_unset_metadata = um, en_extra = x\<rparr>)"

definition enc_entry :: "unit entry \<Rightarrow> string" where
  "enc_entry e = enc_pair enc_string (enc_pair enc_u64 (enc_pair (enc_option enc_u64) (enc_pair enc_string
     (enc_pair (enc_option enc_u64) (enc_pair (enc_option enc_string) (enc_pair (enc_fmap enc_string)
     (enc_pair (enc_fmap enc_string) (enc_pair (enc_list enc_string) (enc_pair (enc_list enc_string)
     (enc_fmap enc_unit)))))))))) (entry_parts e)"

definition dec_entry :: "unit entry decoder" where
  "dec_entry = dec_map entry_of (dec_pair dec_string (dec_pair dec_u64 (dec_pair (dec_option dec_u64)
     (dec_pair dec_string (dec_pair (dec_option dec_u64) (dec_pair (dec_option dec_string)
     (dec_pair (dec_fmap dec_string) (dec_pair (dec_fmap dec_string) (dec_pair (dec_list dec_string)
     (dec_pair (dec_list dec_string) (dec_fmap dec_unit)))))))))))"

lemma reads_entry [readers]: "reads enc_entry dec_entry"
  unfolding enc_entry_def [abs_def] dec_entry_def
  by (rule reads_map) (intro readers, simp add: entry_parts_def entry_of_def)

definition enc_doc :: "unit layer_doc \<Rightarrow> string" where
  "enc_doc d = enc_pair (enc_fmap enc_string) (enc_pair (enc_fmap enc_string) (enc_pair (enc_list enc_entry)
     (enc_fmap enc_unit))) (doc_labels d, doc_metadata d, doc_entries d, doc_extra d)"

definition dec_doc :: "unit layer_doc decoder" where
  "dec_doc = dec_map (\<lambda>(l, m, es, x). \<lparr>doc_labels = l, doc_metadata = m, doc_entries = es, doc_extra = x\<rparr>)
     (dec_pair (dec_fmap dec_string) (dec_pair (dec_fmap dec_string) (dec_pair (dec_list dec_entry)
     (dec_fmap dec_unit))))"

lemma reads_doc [readers]: "reads enc_doc dec_doc"
  unfolding enc_doc_def [abs_def] dec_doc_def
  by (rule reads_map) (intro readers, simp)

section \<open>The codec\<close>

definition codec :: "unit serde" where
  "codec = \<lparr>js_value = (\<lambda>s. map_option (\<lambda>(m, _). JObject m) (dec_fmap dec_unit s)),
     js_object = enc_fmap enc_unit,
     js_doc = (\<lambda>s. case dec_doc s of None \<Rightarrow> Inl ''not a layer'' | Some (d, _) \<Rightarrow> Inr d),
     js_doc_string = enc_doc,
     js_epochs = (\<lambda>s. None)\<rparr>"

lemma serde_codec [simp]: "serde_ok codec"
  by (simp add: serde_ok_def codec_def reads_whole [OF reads_doc] reads_whole [OF reads_fmap [OF reads_unit]])

section \<open>A source with nothing recorded\<close>

abbreviation no_evidence :: legacy_evidence where
  "no_evidence \<equiv> \<lparr>ev_producer_name = None\<rparr>"

definition said :: "unit entry" where
  "said = (entry_new ''e1'' ''rezolus'')\<lparr>en_metadata := fmupd VERSION ''5.0'' fmempty\<rparr>"

lemma codec_read_empty [simp]: "ly_read codec fmempty = Inr None"
  by (simp add: ly_read_def ORDER_def)

lemma codec_source_clean [simp]: "source_clean codec fmempty"
  by (simp add: source_clean_def)

lemma legacy_of_nothing [simp]: "legacy_labels fmempty = fmempty" "legacy_metadata fmempty = fmempty"
  by (simp_all add: legacy_labels_def legacy_metadata_def)

lemma map_entries_empty [simp]: "map_entries fmempty = []"
  by (simp add: map_entries_def sorted_list_of_fset.rep_eq)

lemma derive_nothing:
  "derive_legacy codec xxh3 uuid fmempty fmempty no_evidence = layers_default"
  by (simp add: derive_legacy_def legacy_epochs_def from_metadata_def pi_new_def enumerate_eq_zip
    refresh_caches_def refresh_cache_def ORDER_def layers_default_def doc_default_def doc_fold_def ordered_def
    fo_default_def)

lemma said_allowed [simp]: "forbidden_key said = None"
  by (simp add: forbidden_key_def said_def entry_new_def map_keys_def find_None_iff sorted_list_of_fset.rep_eq
    forbidden_metadata_def reserved_def layer_names)

lemma said_appends:
  "\<exists>labels metadata. layers_append codec xxh3 uuid no_evidence Producer said (fmempty, fmempty) = (Inr True, labels, metadata)"
  by (simp add: layers_append_def derive_nothing layers_default_def doc_default_def next_seq_def max_seq_def
    repeats_def ordered_def newest_def Let_def split: prod.splits)


section \<open>The layer properties at this codec\<close>

theorem append_keeps_the_layers_in_agreement_witness:
  "\<exists>labels metadata ls. layers_append codec (\<lambda>_. 0) None no_evidence Producer said (fmempty, fmempty) =
     (Inr True, labels, metadata) \<and> ly_read codec metadata = Inr (Some ls) \<and>
     drift codec (merged_with_removals codec ls) labels metadata = None"
proof -
  obtain labels metadata where appended:
    "layers_append codec (\<lambda>_. 0) None no_evidence Producer said (fmempty, fmempty) = (Inr True, labels, metadata)"
    using said_appends by blast
  from append_keeps_the_layers_in_agreement [OF serde_codec codec_source_clean this] appended
  show ?thesis by blast
qed

theorem failed_append_changes_nothing_witness:
  "layers_append codec (\<lambda>_. 0) None no_evidence Producer
     (said\<lparr>en_unset_metadata := [PRODUCER_EPOCH]\<rparr>) (fmempty, fmempty) =
   (Inl (Refused PRODUCER_EPOCH), fmempty, fmempty)"
proof -
  let ?e = "said\<lparr>en_unset_metadata := [PRODUCER_EPOCH]\<rparr>"
  obtain r labels metadata where run:
    "layers_append codec (\<lambda>_. 0) None no_evidence Producer ?e (fmempty, fmempty) = (r, labels, metadata)"
    using prod_cases3 by blast
  have key: "forbidden_key ?e = Some PRODUCER_EPOCH"
    by (simp add: forbidden_key_def said_def entry_new_def map_keys_def sorted_list_of_fset.rep_eq
      forbidden_metadata_def reserved_def layer_names)
  from failed_append_changes_nothing [OF run] show ?thesis by (auto simp: run key)
qed

theorem repeated_producer_entry_appends_nothing_witness:
  "\<exists>labels metadata. layers_append codec (\<lambda>_. 0) None no_evidence Producer said (fmempty, fmempty) =
     (Inr True, labels, metadata) \<and>
     layers_append codec (\<lambda>_. 0) None no_evidence Producer (said\<lparr>en_id := ''e2''\<rparr>) (labels, metadata) =
     (Inr False, labels, metadata)"
proof -
  obtain labels metadata where appended:
    "layers_append codec (\<lambda>_. 0) None no_evidence Producer said (fmempty, fmempty) = (Inr True, labels, metadata)"
    using said_appends by blast
  have source: "source_layers codec (\<lambda>_. 0) None no_evidence (fmempty, fmempty) = Inr layers_default"
    by (simp add: source_layers_def derive_nothing)
  have same: "same_contents said (said\<lparr>en_id := ''e2''\<rparr>)"
    by (simp add: same_contents_def)
  have "layers_append codec (\<lambda>_. 0) None no_evidence Producer (said\<lparr>en_id := ''e2''\<rparr>) (labels, metadata) =
     (Inr False, labels, metadata)"
    by (rule repeated_producer_entry_appends_nothing [OF serde_codec codec_source_clean source _ appended same])
      (simp add: layers_default_def doc_default_def)
  with appended show ?thesis by blast
qed

theorem fold_ignores_writing_order_witness:
  "doc_fold codec User (doc_default\<lparr>doc_entries := [entry_new ''a'' ''x'', entry_new ''b'' ''y'']\<rparr>) =
   doc_fold codec User (doc_default\<lparr>doc_entries := [entry_new ''b'' ''y'', entry_new ''a'' ''x'']\<rparr>)"
  by (rule fold_ignores_writing_order) (simp_all add: sort_ids_def entry_new_def)

end
