(* ===== verification/Snapshots.thy ===== *)
theory Snapshots
  imports Windows Identity
begin

text \<open>
  What one pass over a producer's metrics gives: a group's schema and its values
  (\<open>metriken-model/src/schema.rs\<close>, \<open>snapshot.rs\<close>). The histogram type is the \<open>histogram\<close>
  crate's: its values are of type \<open>'h\<close> and \<open>hist_value\<close> holds the functions of it that
  the code calls. \<open>rmp_serde\<close>'s encoding of a schema, which the hash is taken of, is
  the parameter \<open>enc\<close>. A \<open>SystemTime\<close> or \<open>Duration\<close> is a number of nanoseconds.
\<close>

section \<open>Schemas\<close>

definition METRIC_TYPE :: string where "METRIC_TYPE = ''metric_type''"
definition COUNTER_HISTOGRAM :: string where "COUNTER_HISTOGRAM = ''counter_histogram''"
definition GAUGE_HISTOGRAM :: string where "GAUGE_HISTOGRAM = ''gauge_histogram''"
definition LEGACY_HISTOGRAM :: string where "LEGACY_HISTOGRAM = ''histogram''"

definition is_counter_histogram :: "string \<Rightarrow> bool" where
  "is_counter_histogram t \<longleftrightarrow> t = COUNTER_HISTOGRAM \<or> t = LEGACY_HISTOGRAM"

definition is_gauge_histogram :: "string \<Rightarrow> bool" where
  "is_gauge_histogram t \<longleftrightarrow> t = GAUGE_HISTOGRAM"

record metric_desc =
  md_name :: string
  md_metadata :: smap

record group_schema =
  gs_counters :: "metric_desc list"
  gs_gauges :: "metric_desc list"
  gs_histograms :: "metric_desc list"
  gs_gauge_histograms :: "metric_desc list"

type_synonym hash128 = "u64 \<times> u64"

definition FNV_OFFSET :: u128 where "FNV_OFFSET = 0x6c62272e07bb014262b821756295c58d"
definition FNV_PRIME :: u128 where "FNV_PRIME = 0x0000000001000000000000000000013b"

definition fnv1a_128 :: "u8 list \<Rightarrow> hash128" where
  "fnv1a_128 bytes =
     (let h = fold (\<lambda>b h. xor h (ucast b) * FNV_PRIME) bytes FNV_OFFSET
      in (ucast (drop_bit 64 h), ucast h))"

definition schema_hash :: "(group_schema \<Rightarrow> u8 list) \<Rightarrow> group_schema \<Rightarrow> hash128" where
  "schema_hash enc s = fnv1a_128 (enc s)"

section \<open>Values\<close>

record 'h hist_value =
  hv_grouping_power :: "'h \<Rightarrow> u8"
  hv_max_value_power :: "'h \<Rightarrow> u8"
  hv_as_slice :: "'h \<Rightarrow> u64 list"
  hv_from_buckets :: "u8 \<Rightarrow> u8 \<Rightarrow> u64 list \<Rightarrow> 'h option"
  hv_decimal :: "u8 \<Rightarrow> string"                        \<comment> \<open>\<open>u8::to_string\<close>\<close>

text \<open>A reading with its name: \<open>Counter\<close>, \<open>Gauge\<close> and \<open>Histogram\<close> differ in the type of the value.\<close>

record 'v reading =
  rd_name :: string
  rd_value :: 'v
  rd_metadata :: smap
  rd_window :: "window option"

definition reading_new :: "string \<Rightarrow> 'v \<Rightarrow> smap \<Rightarrow> 'v reading" where
  "reading_new name v md = \<lparr>rd_name = name, rd_value = v, rd_metadata = md, rd_window = None\<rparr>"

definition with_window :: "window option \<Rightarrow> 'v reading \<Rightarrow> 'v reading" where
  "with_window w r = r\<lparr>rd_window := w\<rparr>"

record 'h group_snapshot =
  gr_name :: string
  gr_schema_hash :: hash128
  gr_schema :: "group_schema option"
  gr_window :: "window option"
  gr_counters :: "u64 option list"
  gr_gauges :: "i64 option list"
  gr_histograms :: "'h option list"
  gr_gauge_histograms :: "'h option list"

datatype group_validation_error = ArityMismatch | SchemaHashMismatch

definition validate :: "(group_schema \<Rightarrow> u8 list) \<Rightarrow> 'h group_snapshot \<Rightarrow> group_validation_error + unit" where
  "validate enc g =
     (case gr_schema g of
        None \<Rightarrow> Inr ()
      | Some s \<Rightarrow>
          (if length (gs_counters s) \<noteq> length (gr_counters g) \<or>
              length (gs_gauges s) \<noteq> length (gr_gauges g) \<or>
              length (gs_histograms s) \<noteq> length (gr_histograms g) \<or>
              length (gs_gauge_histograms s) \<noteq> length (gr_gauge_histograms g)
           then Inl ArityMismatch
           else if schema_hash enc s \<noteq> gr_schema_hash g then Inl SchemaHashMismatch
           else Inr ()))"

section \<open>Snapshots\<close>

record 'h flat_snapshot =
  fs_systemtime :: nat
  fs_duration :: "nat option"              \<comment> \<open>version 2 only\<close>
  fs_metadata :: smap
  fs_counters :: "u64 reading list"
  fs_gauges :: "i64 reading list"
  fs_histograms :: "'h reading list"
  fs_gauge_histograms :: "'h reading list"

record 'h snapshot_v3 =
  v3_systemtime :: nat
  v3_duration :: nat
  v3_metadata :: smap
  v3_groups :: "'h group_snapshot list"

datatype 'h snapshot = V1 "'h flat_snapshot" | V2 "'h flat_snapshot" | V3 "'h snapshot_v3"

fun systemtime :: "'h snapshot \<Rightarrow> nat" where
  "systemtime (V1 s) = fs_systemtime s"
| "systemtime (V2 s) = fs_systemtime s"
| "systemtime (V3 s) = v3_systemtime s"

fun duration :: "'h snapshot \<Rightarrow> nat option" where
  "duration (V1 s) = None"
| "duration (V2 s) = fs_duration s"
| "duration (V3 s) = Some (v3_duration s)"

fun take_metadata :: "'h snapshot \<Rightarrow> smap \<times> 'h snapshot" where
  "take_metadata (V1 s) = (fs_metadata s, V1 (s\<lparr>fs_metadata := fmempty\<rparr>))"
| "take_metadata (V2 s) = (fs_metadata s, V2 (s\<lparr>fs_metadata := fmempty\<rparr>))"
| "take_metadata (V3 s) = (v3_metadata s, V3 (s\<lparr>v3_metadata := fmempty\<rparr>))"

definition canonicalize :: "'h hist_value \<Rightarrow> 'h \<Rightarrow> 'h option" where
  "canonicalize hv h = hv_from_buckets hv (hv_grouping_power hv h) (hv_max_value_power hv h) (hv_as_slice hv h)"

definition canonical :: "'h hist_value \<Rightarrow> 'h reading list \<Rightarrow> 'h reading list" where
  "canonical hv rs = List.map_filter
     (\<lambda>r. map_option (\<lambda>v. r\<lparr>rd_value := v\<rparr>) (canonicalize hv (rd_value r))) rs"

text \<open>
  A kind of value: its descriptors in a schema, its values in a group, how the values are taken out of
  the group, and what a descriptor and a value make.
\<close>

record ('v, 'h) value_kind =
  vk_descs :: "group_schema \<Rightarrow> metric_desc list"
  vk_values :: "'h group_snapshot \<Rightarrow> 'v option list"
  vk_clear :: "'h group_snapshot \<Rightarrow> 'h group_snapshot"
  vk_read :: "metric_desc \<Rightarrow> 'v \<Rightarrow> 'v reading option"

definition expand_group :: "('v, 'h) value_kind \<Rightarrow> 'h group_snapshot \<Rightarrow> 'v reading list \<times> 'h group_snapshot" where
  "expand_group k g =
     (case gr_schema g of
        None \<Rightarrow> ([], g)
      | Some s \<Rightarrow>
          (if length (vk_descs k s) \<noteq> length (vk_values k g) then ([], g)
           else (List.map_filter
                   (\<lambda>(desc, value). Option.bind value (\<lambda>v. map_option (with_window (gr_window g)) (vk_read k desc v)))
                   (zip (vk_descs k s) (vk_values k g)),
                 vk_clear k g)))"

definition expand :: "('v, 'h) value_kind \<Rightarrow> 'h group_snapshot list \<Rightarrow> 'v reading list \<times> 'h group_snapshot list" where
  "expand k gs = (let es = map (expand_group k) gs in (concat (map fst es), map snd es))"

definition scalar_read :: "metric_desc \<Rightarrow> 'v \<Rightarrow> 'v reading option" where
  "scalar_read desc v = Some (reading_new (md_name desc) v (md_metadata desc))"

definition hist_read :: "'h hist_value \<Rightarrow> metric_desc \<Rightarrow> 'h \<Rightarrow> 'h reading option" where
  "hist_read hv desc v =
     map_option (\<lambda>v. reading_new (md_name desc) v
         (fmupd ''max_value_power'' (hv_decimal hv (hv_max_value_power hv v))
           (fmupd ''grouping_power'' (hv_decimal hv (hv_grouping_power hv v)) (md_metadata desc))))
       (canonicalize hv v)"

definition counter_kind :: "(u64, 'h) value_kind" where
  "counter_kind = \<lparr>vk_descs = gs_counters, vk_values = gr_counters,
     vk_clear = (\<lambda>g. g\<lparr>gr_counters := []\<rparr>), vk_read = scalar_read\<rparr>"

definition gauge_kind :: "(i64, 'h) value_kind" where
  "gauge_kind = \<lparr>vk_descs = gs_gauges, vk_values = gr_gauges,
     vk_clear = (\<lambda>g. g\<lparr>gr_gauges := []\<rparr>), vk_read = scalar_read\<rparr>"

definition histogram_kind :: "'h hist_value \<Rightarrow> ('h, 'h) value_kind" where
  "histogram_kind hv = \<lparr>vk_descs = gs_histograms, vk_values = gr_histograms,
     vk_clear = (\<lambda>g. g\<lparr>gr_histograms := []\<rparr>), vk_read = hist_read hv\<rparr>"

definition gauge_histogram_kind :: "'h hist_value \<Rightarrow> ('h, 'h) value_kind" where
  "gauge_histogram_kind hv = \<lparr>vk_descs = gs_gauge_histograms, vk_values = gr_gauge_histograms,
     vk_clear = (\<lambda>g. g\<lparr>gr_gauge_histograms := []\<rparr>), vk_read = hist_read hv\<rparr>"

definition expand_v3 :: "('v, 'h) value_kind \<Rightarrow> 'h snapshot_v3 \<Rightarrow> 'v reading list \<times> 'h snapshot" where
  "expand_v3 k s = (let (out, gs) = expand k (v3_groups s) in (out, V3 (s\<lparr>v3_groups := gs\<rparr>)))"

fun counters :: "'h snapshot \<Rightarrow> u64 reading list \<times> 'h snapshot" where
  "counters (V1 s) = (fs_counters s, V1 (s\<lparr>fs_counters := []\<rparr>))"
| "counters (V2 s) = (fs_counters s, V2 (s\<lparr>fs_counters := []\<rparr>))"
| "counters (V3 s) = expand_v3 counter_kind s"

fun gauges :: "'h snapshot \<Rightarrow> i64 reading list \<times> 'h snapshot" where
  "gauges (V1 s) = (fs_gauges s, V1 (s\<lparr>fs_gauges := []\<rparr>))"
| "gauges (V2 s) = (fs_gauges s, V2 (s\<lparr>fs_gauges := []\<rparr>))"
| "gauges (V3 s) = expand_v3 gauge_kind s"

fun histograms :: "'h hist_value \<Rightarrow> 'h snapshot \<Rightarrow> 'h reading list \<times> 'h snapshot" where
  "histograms hv (V1 s) = (canonical hv (fs_histograms s), V1 (s\<lparr>fs_histograms := []\<rparr>))"
| "histograms hv (V2 s) = (canonical hv (fs_histograms s), V2 (s\<lparr>fs_histograms := []\<rparr>))"
| "histograms hv (V3 s) = expand_v3 (histogram_kind hv) s"

fun gauge_histograms :: "'h hist_value \<Rightarrow> 'h snapshot \<Rightarrow> 'h reading list \<times> 'h snapshot" where
  "gauge_histograms hv (V1 s) = (canonical hv (fs_gauge_histograms s), V1 (s\<lparr>fs_gauge_histograms := []\<rparr>))"
| "gauge_histograms hv (V2 s) = (canonical hv (fs_gauge_histograms s), V2 (s\<lparr>fs_gauge_histograms := []\<rparr>))"
| "gauge_histograms hv (V3 s) = expand_v3 (gauge_histogram_kind hv) s"

section \<open>What the accessors hand out\<close>

lemma group_unchanged_or_cleared: "snd (expand_group k g) = g \<or> snd (expand_group k g) = vk_clear k g"
  by (auto simp: expand_group_def split: option.splits)

text \<open>Reading one kind leaves another kind's readings as they were.\<close>

lemma expand_other:
  assumes "\<And>g. vk_values k' (vk_clear k g) = vk_values k' g"
    and "\<And>g. gr_schema (vk_clear k g) = gr_schema g" "\<And>g. gr_window (vk_clear k g) = gr_window g"
  shows "fst (expand k' (snd (expand k gs))) = fst (expand k' gs)"
proof -
  have "fst (expand_group k' (snd (expand_group k g))) = fst (expand_group k' g)" for g
    using group_unchanged_or_cleared [of k g] assms
    by (auto simp: expand_group_def split: option.splits)
  then show ?thesis by (simp add: expand_def Let_def comp_def)
qed

lemma expand_again:
  assumes "\<And>g. vk_values k (vk_clear k g) = []" and "\<And>g. gr_schema (vk_clear k g) = gr_schema g"
  shows "fst (expand k (snd (expand k gs))) = []"
proof -
  have "fst (expand_group k (snd (expand_group k g))) = []" for g
    using assms by (auto simp: expand_group_def List.map_filter_simps split: option.splits)
  then show ?thesis by (simp add: expand_def Let_def comp_def)
qed

lemmas kind_defs = counter_kind_def gauge_kind_def histogram_kind_def gauge_histogram_kind_def

lemma expand_v3_pair: "expand_v3 k s = (fst (expand k (v3_groups s)), V3 (s\<lparr>v3_groups := snd (expand k (v3_groups s))\<rparr>))"
  by (simp add: expand_v3_def split: prod.splits)

lemma canonical_empty [simp]: "canonical hv [] = []"
  by (simp add: canonical_def List.map_filter_simps)

named_theorems untouched \<open>what reading one kind leaves of another\<close>

lemma counters_leave [untouched]:
  "fst (gauges (snd (counters s))) = fst (gauges s)"
  "fst (histograms hv (snd (counters s))) = fst (histograms hv s)"
  "fst (gauge_histograms hv (snd (counters s))) = fst (gauge_histograms hv s)"
  by (cases s; simp add: expand_v3_pair expand_other kind_defs)+

lemma gauges_leave [untouched]:
  "fst (counters (snd (gauges s))) = fst (counters s)"
  "fst (histograms hv (snd (gauges s))) = fst (histograms hv s)"
  "fst (gauge_histograms hv (snd (gauges s))) = fst (gauge_histograms hv s)"
  by (cases s; simp add: expand_v3_pair expand_other kind_defs)+

lemma histograms_leave [untouched]:
  "fst (counters (snd (histograms hv s))) = fst (counters s)"
  "fst (gauges (snd (histograms hv s))) = fst (gauges s)"
  "fst (gauge_histograms hv (snd (histograms hv s))) = fst (gauge_histograms hv s)"
  by (cases s; simp add: expand_v3_pair expand_other kind_defs)+

lemma gauge_histograms_leave [untouched]:
  "fst (counters (snd (gauge_histograms hv s))) = fst (counters s)"
  "fst (gauges (snd (gauge_histograms hv s))) = fst (gauges s)"
  "fst (histograms hv (snd (gauge_histograms hv s))) = fst (histograms hv s)"
  by (cases s; simp add: expand_v3_pair expand_other kind_defs)+

lemma drained [simp]:
  "fst (counters (snd (counters s))) = []" "fst (gauges (snd (gauges s))) = []"
  "fst (histograms hv (snd (histograms hv s))) = []"
  "fst (gauge_histograms hv (snd (gauge_histograms hv s))) = []"
  by (cases s; simp add: expand_v3_pair expand_again kind_defs)+








end
