(* ===== verification/LongLayout.thy ===== *)
theory LongLayout
  imports Snapshots "HOL-Library.Multiset"
begin

text \<open>
  How a recording lays a group out long (\<open>metriken-storage/src/writer.rs\<close>): \<open>LongColumns\<close>, the columns of
  the group's metrics, which only grow, and \<open>LongLayout::of\<close>, which divides every member's metadata between
  a column and an occupant of a slot.

  An occupant's identity is a text in the code, \<open>uid:..\<close> or \<open>labels:\<close> with the map's debug output, which
  tells maps apart; here it is a datatype.
\<close>

section \<open>Columns\<close>

datatype kind = KCounter | KGauge | KHistogram

fun descs :: "kind \<Rightarrow> group_schema \<Rightarrow> metric_desc list" where
  "descs KCounter s = gs_counters s"
| "descs KGauge s = gs_gauges s"
| "descs KHistogram s = gs_histograms s"

fun push_desc :: "kind \<Rightarrow> metric_desc \<Rightarrow> group_schema \<Rightarrow> group_schema" where
  "push_desc KCounter d s = s\<lparr>gs_counters := gs_counters s @ [d]\<rparr>"
| "push_desc KGauge d s = s\<lparr>gs_gauges := gs_gauges s @ [d]\<rparr>"
| "push_desc KHistogram d s = s\<lparr>gs_histograms := gs_histograms s @ [d]\<rparr>"

lemma descs_push [simp]: "descs k (push_desc k' d s) = (if k = k' then descs k s @ [d] else descs k s)"
  by (cases k; cases k') simp_all

lemma push_gauge_histograms [simp]: "gs_gauge_histograms (push_desc k d s) = gs_gauge_histograms s"
  by (cases k) simp_all

declare push_desc.simps [simp del]

record long_columns =
  lc_schema :: group_schema
  lc_hash :: hash128
  lc_index :: "kind \<Rightarrow> (string, nat) fmap"
  lc_names :: "string fset"

definition no_columns :: group_schema where
  "no_columns = \<lparr>gs_counters = [], gs_gauges = [], gs_histograms = [], gs_gauge_histograms = []\<rparr>"

definition lc_default :: long_columns where
  "lc_default = \<lparr>lc_schema = no_columns, lc_hash = (0, 0), lc_index = (\<lambda>_. fmempty), lc_names = {||}\<rparr>"

lemma descs_no_columns [simp]: "descs k no_columns = []"
  by (cases k) (simp_all add: no_columns_def)

definition key_of :: "(string \<times> string) list \<Rightarrow> string" where
  "key_of entries = concat (map (\<lambda>(k, v). k @ [CHR 0x1F] @ v @ [CHR 0x1E]) entries)"

definition column_key :: "smap \<Rightarrow> string" where
  "column_key md = key_of (map_entries md)"

text \<open>Decimal digits, and the first of the numbered names that is not taken.\<close>

fun digits :: "nat \<Rightarrow> string" where
  "digits n = (if n < 10 then [''0123456789'' ! n] else digits (n div 10) @ [''0123456789'' ! (n mod 10)])"

declare digits.simps [simp del]

fun undigits :: "string \<Rightarrow> nat" where
  "undigits s = foldl (\<lambda>n c. 10 * n + (of_char c - 48)) 0 s"

lemma undigit: "d < 10 \<Longrightarrow> (of_char (''0123456789'' ! d) :: nat) - 48 = d"
proof -
  assume "d < 10"
  then have "d = 0 \<or> d = 1 \<or> d = 2 \<or> d = 3 \<or> d = 4 \<or> d = 5 \<or> d = 6 \<or> d = 7 \<or> d = 8 \<or> d = 9"
    by arith
  then show ?thesis by (elim disjE) simp_all
qed

lemma undigits_digits [simp]: "undigits (digits n) = n"
proof (induction n rule: digits.induct)
  case (1 n)
  show ?case
  proof (cases "n < 10")
    case True
    then show ?thesis by (subst digits.simps) (simp add: undigit)
  next
    case False
    with 1 show ?thesis by (subst digits.simps) (simp add: undigit)
  qed
qed

definition numbered :: "string \<Rightarrow> nat \<Rightarrow> string" where
  "numbered base n = base @ ''#'' @ digits n"

lemma numbered_inj: "numbered base n = numbered base m \<longleftrightarrow> n = m"
  unfolding numbered_def by (metis append_Cons append_Nil list.inject same_append_eq undigits_digits)

function numbered_from :: "string \<Rightarrow> string fset \<Rightarrow> nat \<Rightarrow> string" where
  "numbered_from base names n = (if numbered base n |\<in>| names then numbered_from base names (n + 1) else numbered base n)"
  by pat_completeness auto

termination
proof (relation "measure (\<lambda>(base, names, n). card {m. n \<le> m \<and> numbered base m |\<in>| names})")
  fix base names n
  assume taken: "numbered base n |\<in>| names"
  let ?S = "{m. n \<le> m \<and> numbered base m |\<in>| names}"
  have "inj_on (numbered base) ?S" by (rule inj_onI) (simp add: numbered_inj)
  moreover have "numbered base ` ?S \<subseteq> fset names" by auto
  ultimately have "finite ?S" using finite_imageD finite_subset finite_fset by blast
  moreover have "{m. n + 1 \<le> m \<and> numbered base m |\<in>| names} \<subset> ?S"
  proof (rule psubsetI)
    show "{m. n + 1 \<le> m \<and> numbered base m |\<in>| names} \<subseteq> ?S" by auto
    have "n \<in> ?S" "n \<notin> {m. n + 1 \<le> m \<and> numbered base m |\<in>| names}" using taken by simp_all
    then show "{m. n + 1 \<le> m \<and> numbered base m |\<in>| names} \<noteq> ?S" by blast
  qed
  ultimately have "card {m. n + 1 \<le> m \<and> numbered base m |\<in>| names} < card ?S" by (rule psubset_card_mono)
  then show "((base, names, n + 1), base, names, n) \<in> measure (\<lambda>(base, names, n). card {m. n \<le> m \<and> numbered base m |\<in>| names})"
    by simp
qed simp

declare numbered_from.simps [simp del]

lemma numbered_from_fresh: "numbered_from base names n |\<notin>| names"
  by (induction base names n rule: numbered_from.induct) (subst numbered_from.simps, simp)

definition column_name :: "string \<Rightarrow> string fset \<Rightarrow> string" where
  "column_name base names = (if base |\<in>| names then numbered_from base names 1 else base)"

lemma column_name_fresh: "column_name base names |\<notin>| names"
  by (simp add: column_name_def numbered_from_fresh)

definition wire_column :: "kind \<Rightarrow> metric_desc \<Rightarrow> long_columns \<Rightarrow> (nat \<times> bool) \<times> long_columns" where
  "wire_column kind d cols =
     (let key = column_key (md_metadata d)
      in case fmlookup (lc_index cols kind) key of
          Some c \<Rightarrow> ((c, False), cols)
        | None \<Rightarrow>
            (let base = (case fmlookup (md_metadata d) ''metric'' of Some m \<Rightarrow> m | None \<Rightarrow> md_name d);
                 name = column_name base (lc_names cols);
                 c = length (descs kind (lc_schema cols))
             in ((c, True), cols\<lparr>lc_schema := push_desc kind \<lparr>md_name = name, md_metadata = md_metadata d\<rparr> (lc_schema cols),
                    lc_index := (lc_index cols)(kind := fmupd key c (lc_index cols kind)),
                    lc_names := finsert name (lc_names cols)\<rparr>)))"

section \<open>Whose a label is\<close>

definition STORAGE_KEYS :: "string list" where
  "STORAGE_KEYS = [''metric'', ''metric_type'', ''unit'', ''grouping_power'', ''max_value_power'', ''sampler'', ''description'']"

definition slot_of :: "metric_desc \<Rightarrow> string" where
  "slot_of d = (case fmlookup (md_metadata d) ''id'' of None \<Rightarrow> [] | Some v \<Rightarrow> v)"

definition slotted :: "group_schema \<Rightarrow> bool" where
  "slotted s \<longleftrightarrow> (\<exists>d \<in> set (gs_counters s @ gs_gauges s @ gs_histograms s). ''id'' |\<in>| fmdom (md_metadata d))"

text \<open>The keys on which the metrics of a slot differ from the slot's first.\<close>

definition differing :: "metric_desc \<Rightarrow> metric_desc \<Rightarrow> string fset" where
  "differing f d = ffilter (\<lambda>k. fmlookup (md_metadata f) k \<noteq> fmlookup (md_metadata d) k)
     (fmdom (md_metadata f) |\<union>| fmdom (md_metadata d))"

fun scan_keys :: "metric_desc list \<Rightarrow> (string, metric_desc) fmap \<Rightarrow> string fset \<Rightarrow> string fset" where
  "scan_keys [] first per_metric = per_metric"
| "scan_keys (d # ds) first per_metric =
     (case fmlookup first (slot_of d) of
        None \<Rightarrow> scan_keys ds (fmupd (slot_of d) d first) per_metric
      | Some f \<Rightarrow> scan_keys ds first (per_metric |\<union>| differing f d))"

definition per_metric_keys :: "group_schema \<Rightarrow> string fset" where
  "per_metric_keys s = scan_keys (gs_counters s @ gs_gauges s @ gs_histograms s) fmempty {||}"

definition is_occupant_key :: "group_schema \<Rightarrow> string \<Rightarrow> bool" where
  "is_occupant_key s k \<longleftrightarrow> k \<notin> set STORAGE_KEYS \<and> k |\<notin>| per_metric_keys s"

datatype identity = UidId string | LabelsId smap

definition occupant_identity :: "smap \<Rightarrow> identity" where
  "occupant_identity labels = (case fmlookup labels ''__uid__'' of Some uid \<Rightarrow> UidId uid | None \<Rightarrow> LabelsId labels)"

section \<open>The layout\<close>

record slot =
  sl_identity :: identity
  sl_labels :: smap
  sl_number :: "u64 option"
  sl_pairs :: "kind \<Rightarrow> (nat \<times> nat) list"

record long_layout =
  ll_arity :: "nat \<times> nat \<times> nat"
  ll_slots :: "slot list"

definition members :: "group_schema \<Rightarrow> (kind \<times> nat \<times> metric_desc) list" where
  "members s = concat (map (\<lambda>k. map (\<lambda>(i, d). (k, i, d)) (enumerate 0 (descs k s))) [KCounter, KGauge, KHistogram])"

definition new_slot :: "smap \<Rightarrow> slot" where
  "new_slot labels = \<lparr>sl_identity = occupant_identity labels, sl_labels = labels, sl_number = None, sl_pairs = (\<lambda>_. [])\<rparr>"

definition slot_at :: "string \<Rightarrow> smap \<Rightarrow> slot list \<times> (string, nat) fmap \<Rightarrow> nat \<times> slot list \<times> (string, nat) fmap" where
  "slot_at sid labels = (\<lambda>(slots, index).
     (case fmlookup index sid of
        Some si \<Rightarrow> (si, slots, index)
      | None \<Rightarrow> (length slots, slots @ [new_slot labels], fmupd sid (length slots) index)))"

definition add_pair :: "kind \<Rightarrow> nat \<times> nat \<Rightarrow> slot \<Rightarrow> slot" where
  "add_pair k p s = s\<lparr>sl_pairs := (sl_pairs s)(k := sl_pairs s k @ [p])\<rparr>"

definition place :: "(string \<Rightarrow> bool) \<Rightarrow> kind \<times> nat \<times> metric_desc \<Rightarrow>
    long_columns \<times> bool \<times> slot list \<times> (string, nat) fmap \<Rightarrow> long_columns \<times> bool \<times> slot list \<times> (string, nat) fmap" where
  "place occ = (\<lambda>(kind, member, d) (cols, changed, slots, index).
     (let ((c, added), cols) = wire_column kind (d\<lparr>md_metadata := fmfilter (\<lambda>k. \<not> occ k) (md_metadata d)\<rparr>) cols;
          (si, slots, index) = slot_at (slot_of d) (fmfilter occ (md_metadata d)) (slots, index)
      in (cols, changed \<or> added, slots[si := add_pair kind (member, c) (slots ! si)], index)))"

definition ll_of :: "(group_schema \<Rightarrow> u8 list) \<Rightarrow> group_schema \<Rightarrow> long_columns \<Rightarrow> long_layout \<times> long_columns" where
  "ll_of enc s cols =
     (let (cols, changed, slots, _) = fold (place (is_occupant_key s)) (members s) (cols, False, [], fmempty);
          cols = (if changed then cols\<lparr>lc_hash := schema_hash enc (lc_schema cols)\<rparr> else cols)
      in (\<lparr>ll_arity = (length (gs_counters s), length (gs_gauges s), length (gs_histograms s)), ll_slots = slots\<rparr>, cols))"

section \<open>Columns are told apart by their keys\<close>

text \<open>A column's key joins its metadata with two control characters, so it tells apart metadata without them.\<close>

definition plain :: "string \<Rightarrow> bool" where
  "plain s \<longleftrightarrow> CHR 0x1F \<notin> set s \<and> CHR 0x1E \<notin> set s"

definition plain_map :: "smap \<Rightarrow> bool" where
  "plain_map md \<longleftrightarrow> (\<forall>k v. fmlookup md k = Some v \<longrightarrow> plain k \<and> plain v)"

definition plain_schema :: "group_schema \<Rightarrow> bool" where
  "plain_schema s \<longleftrightarrow> (\<forall>k. \<forall>d \<in> set (descs k s). plain_map (md_metadata d))"

lemma split_at:
  assumes "c \<notin> set xs" "c \<notin> set ys" "xs @ c # r = ys @ c # r'"
  shows "xs = ys \<and> r = r'"
proof -
  have "takeWhile (\<lambda>x. x \<noteq> c) (xs @ c # r) = xs" "takeWhile (\<lambda>x. x \<noteq> c) (ys @ c # r') = ys"
    using assms(1,2) by (subst takeWhile_append2; auto)+
  with assms(3) show ?thesis by auto
qed

lemma key_of_inj:
  assumes "\<forall>(k, v) \<in> set es. plain k \<and> plain v" "\<forall>(k, v) \<in> set es'. plain k \<and> plain v" "key_of es = key_of es'"
  shows "es = es'"
  using assms
proof (induction es arbitrary: es')
  case Nil
  then show ?case by (cases es') (auto simp: key_of_def)
next
  case (Cons e es)
  obtain k v where e: "e = (k, v)" by fastforce
  obtain k' v' rest where es': "es' = (k', v') # rest"
    using Cons.prems(3) by (cases es') (auto simp: key_of_def e)
  have eq: "k @ CHR 0x1F # v @ CHR 0x1E # key_of es = k' @ CHR 0x1F # v' @ CHR 0x1E # key_of rest"
    using Cons.prems(3) by (simp add: key_of_def e es')
  have plains: "plain k" "plain v" "plain k'" "plain v'" using Cons.prems(1,2) by (auto simp: e es')
  have one: "k = k'" "v @ CHR 0x1E # key_of es = v' @ CHR 0x1E # key_of rest"
    using split_at [OF _ _ eq] plains by (simp_all add: plain_def)
  have two: "v = v'" "key_of es = key_of rest"
    using split_at [OF _ _ one(2)] plains by (simp_all add: plain_def)
  with one Cons.IH [of rest] Cons.prems(1,2) show ?case by (simp add: e es')
qed

lemma column_key_inj:
  assumes "plain_map md" "plain_map md'" "column_key md = column_key md'"
  shows "md = md'"
proof -
  have "map_entries md = map_entries md'"
    using assms unfolding column_key_def
    by (intro key_of_inj) (auto simp: plain_map_def set_map_entries)
  then show ?thesis by (metis fmap_eqI map_of_map_entries)
qed

section \<open>The columns\<close>

definition cols_ok :: "long_columns \<Rightarrow> bool" where
  "cols_ok cols \<longleftrightarrow>
     (\<forall>k key c. fmlookup (lc_index cols k) key = Some c \<longrightarrow>
        c < length (descs k (lc_schema cols)) \<and> key = column_key (md_metadata (descs k (lc_schema cols) ! c))) \<and>
     (\<forall>k. \<forall>c < length (descs k (lc_schema cols)).
        fmlookup (lc_index cols k) (column_key (md_metadata (descs k (lc_schema cols) ! c))) = Some c) \<and>
     plain_schema (lc_schema cols) \<and>
     (\<forall>k. \<forall>d \<in> set (descs k (lc_schema cols)). md_name d |\<in>| lc_names cols) \<and>
     distinct (map md_name (concat (map (\<lambda>k. descs k (lc_schema cols)) [KCounter, KGauge, KHistogram])))"

lemma cols_okD:
  assumes "cols_ok cols"
  shows "fmlookup (lc_index cols k) key = Some c \<Longrightarrow> c < length (descs k (lc_schema cols))"
    "fmlookup (lc_index cols k) key = Some c \<Longrightarrow> key = column_key (md_metadata (descs k (lc_schema cols) ! c))"
    "plain_schema (lc_schema cols)"
    "c < length (descs k (lc_schema cols)) \<Longrightarrow>
       fmlookup (lc_index cols k) (column_key (md_metadata (descs k (lc_schema cols) ! c))) = Some c"
  using assms unfolding cols_ok_def by blast+

text \<open>So no two columns of a kind have the same metadata.\<close>

lemma columns_apart:
  assumes "cols_ok cols"
  shows "distinct (map md_metadata (descs k (lc_schema cols)))"
  unfolding distinct_conv_nth
proof (intro allI impI)
  fix i j
  assume ij: "i < length (map md_metadata (descs k (lc_schema cols)))"
    "j < length (map md_metadata (descs k (lc_schema cols)))" "i \<noteq> j"
  with cols_okD(4) [OF assms, of i k] cols_okD(4) [OF assms, of j k]
  show "map md_metadata (descs k (lc_schema cols)) ! i \<noteq> map md_metadata (descs k (lc_schema cols)) ! j" by auto
qed

lemma cols_ok_default [simp]: "cols_ok lc_default"
  by (simp add: cols_ok_def lc_default_def plain_schema_def)

definition columns_grown :: "long_columns \<Rightarrow> long_columns \<Rightarrow> bool" where
  "columns_grown cols cols' \<longleftrightarrow> (\<forall>k. \<exists>new. descs k (lc_schema cols') = descs k (lc_schema cols) @ new)"

lemma columns_grown_refl [simp]: "columns_grown cols cols"
  by (simp add: columns_grown_def)

lemma columns_grown_trans: "columns_grown a b \<Longrightarrow> columns_grown b c \<Longrightarrow> columns_grown a c"
  unfolding columns_grown_def by (metis append_assoc)

lemma columns_grown_nth: "columns_grown a b \<Longrightarrow> c < length (descs k (lc_schema a)) \<Longrightarrow>
    descs k (lc_schema b) ! c = descs k (lc_schema a) ! c \<and> c < length (descs k (lc_schema b))"
  unfolding columns_grown_def by (metis length_append nth_append trans_less_add1)

lemma columns_grown_length: "columns_grown a b \<Longrightarrow> length (descs k (lc_schema a)) \<le> length (descs k (lc_schema b))"
  unfolding columns_grown_def by (metis length_append le_add1)

lemma wire_column_ok:
  assumes "cols_ok cols" "plain_map (md_metadata d)" "wire_column k d cols = ((c, added), cols')"
  shows "cols_ok cols' \<and> columns_grown cols cols' \<and> c < length (descs k (lc_schema cols')) \<and>
    md_metadata (descs k (lc_schema cols') ! c) = md_metadata d \<and> (\<not> added \<longrightarrow> cols' = cols) \<and>
    (added \<longrightarrow> length (descs k (lc_schema cols)) < length (descs k (lc_schema cols')))"
proof (cases "fmlookup (lc_index cols k) (column_key (md_metadata d))")
  case (Some c0)
  then have *: "c = c0" "\<not> added" "cols' = cols" using assms(3) by (auto simp: wire_column_def)
  have "plain_map (md_metadata (descs k (lc_schema cols) ! c0))"
    using cols_okD(3) [OF assms(1)] cols_okD(1) [OF assms(1) Some] nth_mem unfolding plain_schema_def by blast
  with cols_okD(1,2) [OF assms(1) Some] assms(2) have "md_metadata (descs k (lc_schema cols) ! c0) = md_metadata d"
    by (metis column_key_inj)
  with * assms(1) cols_okD(1) [OF assms(1) Some] show ?thesis by simp
next
  case None
  let ?name = "column_name (case fmlookup (md_metadata d) ''metric'' of Some m \<Rightarrow> m | None \<Rightarrow> md_name d) (lc_names cols)"
  have fresh: "?name |\<notin>| lc_names cols" by (rule column_name_fresh)
  have names: "\<forall>k. \<forall>d \<in> set (descs k (lc_schema cols)). md_name d \<noteq> ?name"
    using assms(1) fresh unfolding cols_ok_def by metis
  have cols': "cols' = cols\<lparr>lc_schema := push_desc k \<lparr>md_name = ?name, md_metadata = md_metadata d\<rparr> (lc_schema cols),
        lc_index := (lc_index cols)(k := fmupd (column_key (md_metadata d)) (length (descs k (lc_schema cols))) (lc_index cols k)),
        lc_names := finsert ?name (lc_names cols)\<rparr>"
    and c: "c = length (descs k (lc_schema cols))" "added"
    using assms(3) None by (auto simp: wire_column_def Let_def)
  have "cols_ok cols'"
    unfolding cols_ok_def
  proof (intro conjI allI impI)
    fix k' key c'
    assume "fmlookup (lc_index cols' k') key = Some c'"
    then show "c' < length (descs k' (lc_schema cols'))" "key = column_key (md_metadata (descs k' (lc_schema cols') ! c'))"
      using cols_okD(1,2) [OF assms(1), of k' key c']
      by (auto simp: cols' nth_append split: if_splits)
  next
    fix k' c'
    assume c': "c' < length (descs k' (lc_schema cols'))"
    show "fmlookup (lc_index cols' k') (column_key (md_metadata (descs k' (lc_schema cols') ! c'))) = Some c'"
    proof (cases "c' < length (descs k' (lc_schema cols))")
      case True
      with cols_okD(4) [OF assms(1) True] None show ?thesis by (auto simp: cols' nth_append)
    next
      case False
      with c' show ?thesis by (auto simp: cols' nth_append split: if_splits)
    qed
  next
    show "plain_schema (lc_schema cols')"
      using cols_okD(3) [OF assms(1)] assms(2) by (auto simp: cols' plain_schema_def)
  next
    show "\<forall>d \<in> set (descs k' (lc_schema cols')). md_name d |\<in>| lc_names cols'" for k'
      using assms(1) by (auto simp: cols' cols_ok_def)
  next
    have "distinct (map md_name (concat (map (\<lambda>k. descs k (lc_schema cols)) [KCounter, KGauge, KHistogram])))"
      using assms(1) unfolding cols_ok_def by blast
    moreover have "?name \<notin> md_name ` set (descs k' (lc_schema cols))" for k'
      using names by force
    ultimately show "distinct (map md_name (concat (map (\<lambda>k. descs k (lc_schema cols')) [KCounter, KGauge, KHistogram])))"
      by (cases k) (simp_all add: cols' image_Un del: descs.simps)
  qed
  then show ?thesis by (simp add: cols' c columns_grown_def)
qed

section \<open>Every label is kept\<close>

text \<open>The members of a slot agree on every key the scan lets through.\<close>

definition agree :: "string \<Rightarrow> metric_desc \<Rightarrow> metric_desc \<Rightarrow> bool" where
  "agree k d d' \<longleftrightarrow> fmlookup (md_metadata d) k = fmlookup (md_metadata d') k"

lemma agree_sym: "agree k d d' \<Longrightarrow> agree k d' d"
  by (simp add: agree_def)

lemma agree_via: "agree k f d \<Longrightarrow> agree k f d' \<Longrightarrow> agree k d d'"
  by (simp add: agree_def)

lemma scan_keys_mono: "x |\<in>| pm \<Longrightarrow> x |\<in>| scan_keys ds first pm"
proof (induction ds arbitrary: first pm)
  case (Cons d ds)
  then show ?case by (cases "fmlookup first (slot_of d)") simp_all
qed simp

lemma not_differing: "k |\<notin>| differing f d \<Longrightarrow> agree k f d"
  by (cases "k |\<in>| fmdom (md_metadata f) |\<union>| fmdom (md_metadata d)") (auto simp: differing_def agree_def fmdom_notD)

lemma scan_keys_agree:
  assumes "k |\<notin>| scan_keys ds first pm"
  shows "(\<forall>d \<in> set ds. \<forall>f. fmlookup first (slot_of d) = Some f \<longrightarrow> agree k f d) \<and>
    (\<forall>d \<in> set ds. \<forall>d' \<in> set ds. slot_of d = slot_of d' \<longrightarrow> agree k d d')"
  using assms
proof (induction ds arbitrary: first pm)
  case Nil
  then show ?case by simp
next
  case (Cons d ds)
  show ?case
  proof (cases "fmlookup first (slot_of d)")
    case None
    with Cons.prems have "k |\<notin>| scan_keys ds (fmupd (slot_of d) d first) pm" by simp
    note ih = Cons.IH [OF this]
    have same: "agree k d d'" if "d' \<in> set ds" "slot_of d' = slot_of d" for d'
      using ih that by simp
    have "agree k f d'" if "d' \<in> set (d # ds)" "fmlookup first (slot_of d') = Some f" for d' f
    proof -
      have "slot_of d' \<noteq> slot_of d" using that(2) None by auto
      with that have "d' \<in> set ds" "fmlookup (fmupd (slot_of d) d first) (slot_of d') = Some f" by auto
      with ih show ?thesis by blast
    qed
    moreover have "agree k d' d''" if "d' \<in> set (d # ds)" "d'' \<in> set (d # ds)" "slot_of d' = slot_of d''" for d' d''
    proof (cases "d' = d \<or> d'' = d")
      case True
      have "agree k d d" by (simp add: agree_def)
      with True that same agree_sym show ?thesis by (metis set_ConsD)
    next
      case False
      with that ih show ?thesis by auto
    qed
    ultimately show ?thesis by blast
  next
    case (Some f)
    with Cons.prems have rest: "k |\<notin>| scan_keys ds first (pm |\<union>| differing f d)" by simp
    then have f: "agree k f d"
      using scan_keys_mono [of k "pm |\<union>| differing f d" ds first] not_differing by auto
    note ih = Cons.IH [OF rest]
    have "agree k f' d'" if "d' \<in> set (d # ds)" "fmlookup first (slot_of d') = Some f'" for d' f'
      using that ih f Some by auto
    moreover have "agree k d' d''" if "d' \<in> set (d # ds)" "d'' \<in> set (d # ds)" "slot_of d' = slot_of d''" for d' d''
    proof (cases "d' = d \<or> d'' = d")
      case True
      then have "fmlookup first (slot_of d') = Some f" using Some that(3) by auto
      then have "agree k f d'" "agree k f d''" using that ih f by auto
      then show ?thesis by (rule agree_via)
    next
      case False
      with that ih show ?thesis by auto
    qed
    ultimately show ?thesis by blast
  qed
qed

lemma scan_keys_differ:
  assumes "k |\<in>| scan_keys ds first pm"
  shows "k |\<in>| pm \<or> (\<exists>d \<in> set ds. \<exists>f. fmlookup first (slot_of d) = Some f \<and> \<not> agree k f d) \<or>
    (\<exists>d \<in> set ds. \<exists>d' \<in> set ds. slot_of d = slot_of d' \<and> \<not> agree k d d')"
  using assms
proof (induction ds arbitrary: first pm)
  case (Cons d ds)
  have differ: "\<not> agree k f d" if "k |\<in>| differing f d" for f using that by (simp add: differing_def agree_def)
  show ?case
  proof (cases "fmlookup first (slot_of d)")
    case None
    with Cons.prems have "k |\<in>| scan_keys ds (fmupd (slot_of d) d first) pm" by simp
    from Cons.IH [OF this] consider "k |\<in>| pm"
      | d' f where "d' \<in> set ds" "fmlookup (fmupd (slot_of d) d first) (slot_of d') = Some f" "\<not> agree k f d'"
      | d' d'' where "d' \<in> set ds" "d'' \<in> set ds" "slot_of d' = slot_of d''" "\<not> agree k d' d''" by blast
    then show ?thesis
    proof cases
      case 2
      show ?thesis
      proof (cases "slot_of d = slot_of d'")
        case True
        with 2 have "f = d" by simp
        with 2 True show ?thesis by (meson list.set_intros)
      next
        case False
        with 2(2) have "fmlookup first (slot_of d') = Some f" by simp
        with 2 show ?thesis by (meson list.set_intros)
      qed
    qed (meson list.set_intros)+
  next
    case (Some f)
    with Cons.prems have "k |\<in>| scan_keys ds first (pm |\<union>| differing f d)" by simp
    from Cons.IH [OF this] consider "k |\<in>| pm |\<union>| differing f d"
      | d' f' where "d' \<in> set ds" "fmlookup first (slot_of d') = Some f'" "\<not> agree k f' d'"
      | d' d'' where "d' \<in> set ds" "d'' \<in> set ds" "slot_of d' = slot_of d''" "\<not> agree k d' d''" by blast
    then show ?thesis
    proof cases
      case 1
      with differ [of f] Some show ?thesis by (metis funion_iff list.set_intros(1))
    qed (meson list.set_intros)+
  qed
qed simp

lemma in_members: "(k, i, d) \<in> set (members s) \<longleftrightarrow> i < length (descs k s) \<and> d = descs k s ! i"
  by (cases k) (auto simp: members_def in_set_enumerate_eq)

lemma occupant_key_agrees:
  assumes "is_occupant_key s key" "(k, i, d) \<in> set (members s)" "(k', i', d') \<in> set (members s)" "slot_of d = slot_of d'"
  shows "agree key d d'"
proof -
  have "d \<in> set (gs_counters s @ gs_gauges s @ gs_histograms s)" "d' \<in> set (gs_counters s @ gs_gauges s @ gs_histograms s)"
    using assms(2,3) by (cases k; cases k'; auto simp: in_members)+
  then show ?thesis
    using assms(1,4) scan_keys_agree unfolding is_occupant_key_def per_metric_keys_def by blast
qed

lemma per_metric_keys_differ:
  assumes "key |\<in>| per_metric_keys s"
  shows "\<exists>(k, i, d) \<in> set (members s). \<exists>(k', i', d') \<in> set (members s). slot_of d = slot_of d' \<and> \<not> agree key d d'"
proof -
  let ?ds = "gs_counters s @ gs_gauges s @ gs_histograms s"
  have member: "\<exists>k i. (k, i, d) \<in> set (members s)" if "d \<in> set ?ds" for d
  proof -
    from that obtain k where "d \<in> set (descs k s)" by (metis UnE descs.simps set_append)
    then show ?thesis unfolding in_members by (metis in_set_conv_nth)
  qed
  obtain d d' where differ: "d \<in> set ?ds" "d' \<in> set ?ds" "slot_of d = slot_of d'" "\<not> agree key d d'"
    using scan_keys_differ [OF assms [unfolded per_metric_keys_def]] by (simp del: set_append) blast
  obtain k i k' i' where "(k, i, d) \<in> set (members s)" "(k', i', d') \<in> set (members s)"
    using member [OF differ(1)] member [OF differ(2)] by blast
  with differ(3,4) show ?thesis by blast
qed

text \<open>
  A label is the slot's when it is no key of the storage and every two members of one slot agree on it.
\<close>

definition slot_key :: "group_schema \<Rightarrow> string \<Rightarrow> bool" where
  "slot_key s key \<longleftrightarrow> key \<notin> set STORAGE_KEYS \<and>
     (\<forall>(k, i, d) \<in> set (members s). \<forall>(k', i', d') \<in> set (members s). slot_of d = slot_of d' \<longrightarrow>
        fmlookup (md_metadata d) key = fmlookup (md_metadata d') key)"

lemma is_occupant_key_iff: "is_occupant_key s = slot_key s"
proof
  fix key
  show "is_occupant_key s key = slot_key s key"
  proof
    assume occ: "is_occupant_key s key"
    then have "agree key d d'" if "(k, i, d) \<in> set (members s)" "(k', i', d') \<in> set (members s)" "slot_of d = slot_of d'"
      for k i d k' i' d' using occupant_key_agrees that by blast
    with occ show "slot_key s key" unfolding slot_key_def is_occupant_key_def agree_def by blast
  next
    assume own: "slot_key s key"
    have "key |\<notin>| per_metric_keys s"
    proof
      assume "key |\<in>| per_metric_keys s"
      from per_metric_keys_differ [OF this] obtain k i d k' i' d' where m: "(k, i, d) \<in> set (members s)"
          "(k', i', d') \<in> set (members s)" "slot_of d = slot_of d'" "\<not> agree key d d'" by blast
      from own have "\<forall>(k, i, d) \<in> set (members s). \<forall>(k', i', d') \<in> set (members s). slot_of d = slot_of d' \<longrightarrow>
        fmlookup (md_metadata d) key = fmlookup (md_metadata d') key" unfolding slot_key_def by blast
      from bspec [OF bspec [OF this m(1), unfolded prod.case] m(2), unfolded prod.case] m(3,4) show False
        by (simp add: agree_def)
    qed
    with own show "is_occupant_key s key" by (simp add: slot_key_def is_occupant_key_def)
  qed
qed

text \<open>What the layout holds after some of the members.\<close>

definition placed :: "group_schema \<Rightarrow> (kind \<times> nat \<times> metric_desc) list \<Rightarrow> long_columns \<Rightarrow> slot list \<Rightarrow> (string, nat) fmap \<Rightarrow> bool" where
  "placed s ms cols slots index \<longleftrightarrow>
     (\<forall>(k, i, d) \<in> set ms. \<exists>si c. fmlookup index (slot_of d) = Some si \<and> (i, c) \<in> set (sl_pairs (slots ! si) k) \<and>
        c < length (descs k (lc_schema cols)) \<and>
        md_metadata (descs k (lc_schema cols) ! c) = fmfilter (\<lambda>k. \<not> is_occupant_key s k) (md_metadata d)) \<and>
     (\<forall>sid si. fmlookup index sid = Some si \<longrightarrow> si < length slots \<and>
        (\<exists>(k, i, d) \<in> set (members s). slot_of d = sid \<and> sl_labels (slots ! si) = fmfilter (is_occupant_key s) (md_metadata d)))"

definition slot_ok :: "slot \<Rightarrow> bool" where
  "slot_ok sl \<longleftrightarrow> sl_identity sl = occupant_identity (sl_labels sl)"

definition member_numbers :: "kind \<Rightarrow> slot list \<Rightarrow> nat list" where
  "member_numbers k slots = concat (map (\<lambda>sl. map fst (sl_pairs sl k)) slots)"

lemma member_numbers_update:
  "si < length slots \<Longrightarrow> mset (member_numbers k (slots[si := add_pair k' (i, c) (slots ! si)])) =
     mset (member_numbers k slots) + (if k = k' then {#i#} else {#})"
proof (induction slots arbitrary: si)
  case (Cons sl slots)
  show ?case
  proof (cases si)
    case 0
    then show ?thesis by (simp add: member_numbers_def add_pair_def)
  next
    case (Suc n)
    with Cons.IH [of n] Cons.prems show ?thesis by (simp add: member_numbers_def)
  qed
qed simp

text \<open>The slots' ids, in the order of the slots: what the index looks up.\<close>

definition indexed :: "string list \<Rightarrow> slot list \<Rightarrow> (string, nat) fmap \<Rightarrow> bool" where
  "indexed ids slots index \<longleftrightarrow> distinct ids \<and> length ids = length slots \<and>
     (\<forall>sid si. fmlookup index sid = Some si \<longleftrightarrow> si < length ids \<and> ids ! si = sid)"

lemma indexed_set: "indexed ids slots index \<Longrightarrow> sid \<in> set ids \<longleftrightarrow> sid |\<in>| fmdom index"
  by (auto simp: indexed_def in_set_conv_nth fmlookup_dom_iff)

lemma slot_at_indexed:
  assumes "slot_at sid0 labels (slots, index) = (si, slots', index')" "indexed ids slots index"
  shows "\<exists>ids'. indexed ids' slots' index' \<and> set ids' = insert sid0 (set ids)"
proof (cases "fmlookup index sid0")
  case (Some si0)
  moreover from this have "sid0 \<in> set ids" using indexed_set [OF assms(2)] by (simp add: fmdomI)
  ultimately show ?thesis using assms by (auto simp: slot_at_def insert_absorb)
next
  case None
  then have new: "sid0 \<notin> set ids" using indexed_set [OF assms(2)] by (simp add: fmdom_notI)
  have look: "fmlookup index sid = Some j \<longleftrightarrow> j < length ids \<and> ids ! j = sid" for sid j
    using assms(2) by (simp add: indexed_def)
  have at: "length slots' = Suc (length slots)" "index' = fmupd sid0 (length ids) index" "length ids = length slots" "distinct ids"
    using assms None by (auto simp: slot_at_def indexed_def)
  have "fmlookup index' sid = Some j \<longleftrightarrow> j < length (ids @ [sid0]) \<and> (ids @ [sid0]) ! j = sid" for sid j
    using look [of sid j] new nth_mem [of j ids] by (auto simp: at(2) nth_append less_Suc_eq)
  then have "indexed (ids @ [sid0]) slots' index'"
    using new at unfolding indexed_def by simp
  then show ?thesis by (intro exI [of _ "ids @ [sid0]"]) simp
qed

lemma indexed_update [simp]: "indexed ids (slots[i := sl]) index = indexed ids slots index"
  by (simp add: indexed_def)

definition layout_inv :: "group_schema \<Rightarrow> long_columns \<Rightarrow> (kind \<times> nat \<times> metric_desc) list \<Rightarrow>
    long_columns \<times> bool \<times> slot list \<times> (string, nat) fmap \<Rightarrow> bool" where
  "layout_inv s cols0 ms = (\<lambda>(cols, changed, slots, index).
     cols_ok cols \<and> columns_grown cols0 cols \<and> (\<not> changed \<longrightarrow> cols = cols0) \<and>
     (changed \<longrightarrow> (\<exists>k. length (descs k (lc_schema cols0)) < length (descs k (lc_schema cols)))) \<and>
     placed s ms cols slots index \<and> list_all slot_ok slots \<and>
     (\<exists>ids. indexed ids slots index \<and> set ids = (\<lambda>(k, i, d). slot_of d) ` set ms) \<and>
     (\<forall>k. mset (member_numbers k slots) = mset (map (fst \<circ> snd) (filter (\<lambda>m. fst m = k) ms))))"

lemma slot_at_ok:
  assumes "slot_at sid0 labels (slots, index) = (si, slots', index')"
    and "\<forall>sid si. fmlookup index sid = Some si \<longrightarrow> si < length slots" and "list_all slot_ok slots"
  shows "si < length slots'" "fmlookup index' sid0 = Some si"
    "\<forall>sid si'. fmlookup index sid = Some si' \<longrightarrow> fmlookup index' sid = Some si' \<and> si' < length slots \<and> slots' ! si' = slots ! si'"
    "\<forall>sid si'. fmlookup index' sid = Some si' \<longrightarrow> fmlookup index sid = Some si' \<or>
       sid = sid0 \<and> si' = si \<and> slots' ! si' = new_slot labels"
    "list_all slot_ok slots'" "\<forall>k. mset (member_numbers k slots') = mset (member_numbers k slots)"
    "length slots \<le> length slots'"
proof -
  consider (known) "fmlookup index sid0 = Some si" "slots' = slots" "index' = index"
    | (new) "fmlookup index sid0 = None" "si = length slots" "slots' = slots @ [new_slot labels]" "index' = fmupd sid0 si index"
    using assms(1) by (auto simp: slot_at_def split: option.splits)
  then have "si < length slots' \<and> fmlookup index' sid0 = Some si \<and>
    (\<forall>sid si'. fmlookup index sid = Some si' \<longrightarrow> fmlookup index' sid = Some si' \<and> si' < length slots \<and> slots' ! si' = slots ! si') \<and>
    (\<forall>sid si'. fmlookup index' sid = Some si' \<longrightarrow> fmlookup index sid = Some si' \<or>
       sid = sid0 \<and> si' = si \<and> slots' ! si' = new_slot labels) \<and>
    list_all slot_ok slots' \<and> (\<forall>k. mset (member_numbers k slots') = mset (member_numbers k slots)) \<and> length slots \<le> length slots'"
  proof cases
    case known
    with assms(2,3) show ?thesis by simp
  next
    case new
    have "slots' ! j = slots ! j" if "j < length slots" for j using that by (simp add: new nth_append)
    with new assms(2,3) show ?thesis by (auto simp: new_slot_def slot_ok_def member_numbers_def)
  qed
  then show "si < length slots'" "fmlookup index' sid0 = Some si"
    "\<forall>sid si'. fmlookup index sid = Some si' \<longrightarrow> fmlookup index' sid = Some si' \<and> si' < length slots \<and> slots' ! si' = slots ! si'"
    "\<forall>sid si'. fmlookup index' sid = Some si' \<longrightarrow> fmlookup index sid = Some si' \<or>
       sid = sid0 \<and> si' = si \<and> slots' ! si' = new_slot labels"
    "list_all slot_ok slots'" "\<forall>k. mset (member_numbers k slots') = mset (member_numbers k slots)"
    "length slots \<le> length slots'" by blast+
qed

lemma layout_inv_step:
  assumes "layout_inv s cols0 ms st" "(k, i, d) \<in> set (members s)" "plain_schema s"
  shows "layout_inv s cols0 (ms @ [(k, i, d)]) (place (is_occupant_key s) (k, i, d) st)"
proof -
  obtain cols changed slots index where st: "st = (cols, changed, slots, index)" by (metis prod_cases4)
  let ?occ = "is_occupant_key s"
  let ?col = "d\<lparr>md_metadata := fmfilter (\<lambda>k. \<not> ?occ k) (md_metadata d)\<rparr>"
  obtain c added cols' where wire: "wire_column k ?col cols = ((c, added), cols')" by (metis prod.collapse)
  obtain si slots' index' where at: "slot_at (slot_of d) (fmfilter ?occ (md_metadata d)) (slots, index) = (si, slots', index')"
    by (metis prod_cases3)
  have "plain_map (md_metadata d)"
    using assms(2,3) nth_mem unfolding plain_schema_def in_members by blast
  then have plain: "plain_map (md_metadata ?col)" by (auto simp: plain_map_def)
  from assms(1) have inv: "cols_ok cols" "columns_grown cols0 cols" "\<not> changed \<longrightarrow> cols = cols0" "placed s ms cols slots index"
      "list_all slot_ok slots" "\<forall>k. mset (member_numbers k slots) = mset (map (fst \<circ> snd) (filter (\<lambda>m. fst m = k) ms))"
    and longer: "changed \<longrightarrow> (\<exists>k. length (descs k (lc_schema cols0)) < length (descs k (lc_schema cols)))"
    and ids: "\<exists>ids. indexed ids slots index \<and> set ids = (\<lambda>(k, i, d). slot_of d) ` set ms"
    by (simp_all add: layout_inv_def st)
  note col = wire_column_ok [OF inv(1) plain wire]
  have "\<forall>sid si. fmlookup index sid = Some si \<longrightarrow> si < length slots"
    using inv(4) unfolding placed_def by blast
  note si = slot_at_ok [OF at this inv(5)]
  let ?slots = "slots'[si := add_pair k (i, c) (slots' ! si)]"
  have step: "place ?occ (k, i, d) st = (cols', changed \<or> added, ?slots, index')"
    by (simp add: place_def st wire at)
  have labels: "sl_labels (?slots ! j) = sl_labels (slots' ! j)" "set (sl_pairs (slots' ! j) k') \<subseteq> set (sl_pairs (?slots ! j) k')"
    for j k' using si(1) by (auto simp: nth_list_update add_pair_def)
  have "placed s (ms @ [(k, i, d)]) cols' ?slots index'"
    unfolding placed_def
  proof (intro conjI ballI allI impI)
    fix m assume "m \<in> set (ms @ [(k, i, d)])"
    moreover obtain k0 i0 d0 where m: "m = (k0, i0, d0)" by (metis prod_cases3)
    ultimately consider "(k0, i0, d0) \<in> set ms" | "k0 = k" "i0 = i" "d0 = d" by auto
    then have "\<exists>si c. fmlookup index' (slot_of d0) = Some si \<and> (i0, c) \<in> set (sl_pairs (?slots ! si) k0) \<and>
        c < length (descs k0 (lc_schema cols')) \<and>
        md_metadata (descs k0 (lc_schema cols') ! c) = fmfilter (\<lambda>k. \<not> ?occ k) (md_metadata d0)"
    proof cases
      case 1
      then obtain sj c0 where "fmlookup index (slot_of d0) = Some sj" "(i0, c0) \<in> set (sl_pairs (slots ! sj) k0)"
        "c0 < length (descs k0 (lc_schema cols))"
        "md_metadata (descs k0 (lc_schema cols) ! c0) = fmfilter (\<lambda>k. \<not> ?occ k) (md_metadata d0)"
        using inv(4) unfolding placed_def by blast
      note old = this
      then have "fmlookup index' (slot_of d0) = Some sj" "slots' ! sj = slots ! sj"
        using si(3) by simp_all
      moreover have "(i0, c0) \<in> set (sl_pairs (?slots ! sj) k0)"
        using labels(2) [of sj k0] old(2) calculation by auto
      moreover have "descs k0 (lc_schema cols') ! c0 = descs k0 (lc_schema cols) ! c0 \<and> c0 < length (descs k0 (lc_schema cols'))"
        using columns_grown_nth old(3) col by blast
      ultimately show ?thesis using old(4) by auto
    next
      case 2
      have "(i, c) \<in> set (sl_pairs (?slots ! si) k)" using si(1) by (simp add: add_pair_def)
      with 2 si(2) col show ?thesis by auto
    qed
    then show "case m of (k, i, d) \<Rightarrow> \<exists>si c. fmlookup index' (slot_of d) = Some si \<and> (i, c) \<in> set (sl_pairs (?slots ! si) k) \<and>
        c < length (descs k (lc_schema cols')) \<and>
        md_metadata (descs k (lc_schema cols') ! c) = fmfilter (\<lambda>k. \<not> ?occ k) (md_metadata d)"
      by (simp add: m)
  next
    fix sid sj assume sj: "fmlookup index' sid = Some sj"
    from si(4) sj consider (old) "fmlookup index sid = Some sj"
      | (new) "sid = slot_of d" "sj = si" "slots' ! sj = new_slot (fmfilter ?occ (md_metadata d))" by blast
    then have "sj < length slots' \<and> (\<exists>(k, i, d) \<in> set (members s). slot_of d = sid \<and>
        sl_labels (slots' ! sj) = fmfilter ?occ (md_metadata d))"
    proof cases
      case old
      have "length slots \<le> length slots'" by (rule si(7))
      moreover have "sj < length slots \<and> (\<exists>(k, i, d) \<in> set (members s). slot_of d = sid \<and>
        sl_labels (slots ! sj) = fmfilter ?occ (md_metadata d))" using inv(4) old unfolding placed_def by blast
      moreover have "slots' ! sj = slots ! sj" using si(3) old by blast
      ultimately show ?thesis by auto
    next
      case new
      with si(1) assms(2) show ?thesis by (auto simp: new_slot_def)
    qed
    then show "sj < length ?slots" "\<exists>(k, i, d) \<in> set (members s). slot_of d = sid \<and>
        sl_labels (?slots ! sj) = fmfilter ?occ (md_metadata d)" by (simp_all add: labels(1))
  qed
  moreover have "list_all slot_ok ?slots"
    using si(1,5) by (simp add: list_all_length nth_list_update add_pair_def slot_ok_def)
  moreover have "mset (member_numbers k' ?slots) = mset (map (fst \<circ> snd) (filter (\<lambda>m. fst m = k') (ms @ [(k, i, d)])))" for k'
    using inv(6) si(1,6) by (simp add: member_numbers_update)
  moreover have "\<exists>ids. indexed ids ?slots index' \<and> set ids = (\<lambda>(k, i, d). slot_of d) ` set (ms @ [(k, i, d)])"
  proof -
    from ids obtain ids0 where ids0: "indexed ids0 slots index" "set ids0 = (\<lambda>(k, i, d). slot_of d) ` set ms" by blast
    from slot_at_indexed [OF at ids0(1)] obtain ids' where "indexed ids' slots' index'" "set ids' = insert (slot_of d) (set ids0)"
      by blast
    then show ?thesis by (intro exI [of _ ids']) (simp add: ids0(2))
  qed
  moreover have "changed \<or> added \<longrightarrow> (\<exists>k. length (descs k (lc_schema cols0)) < length (descs k (lc_schema cols')))"
    using longer col columns_grown_length [OF inv(2)] columns_grown_length [of cols cols'] by (meson le_less_trans less_le_trans)
  ultimately show ?thesis
    using col inv(3) columns_grown_trans [OF inv(2)] by (simp add: layout_inv_def step)
qed

lemma layout_inv_fold:
  assumes "plain_schema s" "set ms' \<subseteq> set (members s)" "layout_inv s cols0 ms st"
  shows "layout_inv s cols0 (ms @ ms') (fold (place (is_occupant_key s)) ms' st)"
  using assms(2,3)
proof (induction ms' arbitrary: ms st)
  case (Cons m ms')
  obtain k i d where m: "m = (k, i, d)" by (metis prod_cases3)
  have "layout_inv s cols0 (ms @ [m]) (place (is_occupant_key s) m st)"
    using layout_inv_step [OF Cons.prems(2) _ assms(1), of k i d] Cons.prems(1) by (simp add: m)
  from Cons.IH [OF _ this] Cons.prems(1) show ?case by simp
qed simp

lemma layout_inv_start: "cols_ok cols \<Longrightarrow> layout_inv s cols [] (cols, False, [], fmempty)"
  by (simp add: layout_inv_def placed_def member_numbers_def indexed_def)

lemma member_indices: "map (fst \<circ> snd) (filter (\<lambda>m. fst m = k) (members s)) = [0..<length (descs k s)]"
  by (cases k) (simp_all add: members_def filter_map comp_def case_prod_beta enumerate_eq_zip)

text \<open>
  One slot for each slot id of the members, and each member in one: the slot has the member's slot labels, its
  column the rest of the metadata, so the two together are the metadata and share no key.
\<close>

definition laid_out :: "group_schema \<Rightarrow> slot list \<Rightarrow> group_schema \<Rightarrow> bool" where
  "laid_out s slots columns \<longleftrightarrow>
     (\<exists>ids. distinct ids \<and> length ids = length slots \<and> set ids = (\<lambda>(k, i, d). slot_of d) ` set (members s) \<and>
        (\<forall>(k, i, d) \<in> set (members s). \<exists>si c. si < length slots \<and> ids ! si = slot_of d \<and>
           (i, c) \<in> set (sl_pairs (slots ! si) k) \<and> c < length (descs k columns) \<and>
           sl_labels (slots ! si) = fmfilter (slot_key s) (md_metadata d) \<and>
           md_metadata (descs k columns ! c) = fmfilter (\<lambda>key. \<not> slot_key s key) (md_metadata d) \<and>
           md_metadata (descs k columns ! c) ++\<^sub>f sl_labels (slots ! si) = md_metadata d \<and>
           fmdom (md_metadata (descs k columns ! c)) |\<inter>| fmdom (sl_labels (slots ! si)) = {||}))"

lemma placed_laid_out:
  assumes "placed s (members s) cols slots index" "indexed ids slots index"
    and "set ids = (\<lambda>(k, i, d). slot_of d) ` set (members s)"
  shows "laid_out s slots (lc_schema cols)"
  unfolding laid_out_def
proof (intro exI [of _ ids] conjI ballI)
  show "distinct ids" "length ids = length slots" using assms(2) by (simp_all add: indexed_def)
  show "set ids = (\<lambda>(k, i, d). slot_of d) ` set (members s)" by (rule assms(3))
  fix m assume in_m: "m \<in> set (members s)"
  obtain k i d where m: "m = (k, i, d)" by (metis prod_cases3)
  from assms(1) in_m obtain si c where c: "fmlookup index (slot_of d) = Some si" "(i, c) \<in> set (sl_pairs (slots ! si) k)"
    "c < length (descs k (lc_schema cols))"
    "md_metadata (descs k (lc_schema cols) ! c) = fmfilter (\<lambda>k. \<not> is_occupant_key s k) (md_metadata d)"
    unfolding placed_def m by blast
  from assms(1) c(1) obtain k0 i0 d0 where d0: "si < length slots" "(k0, i0, d0) \<in> set (members s)" "slot_of d0 = slot_of d"
    "sl_labels (slots ! si) = fmfilter (is_occupant_key s) (md_metadata d0)"
    unfolding placed_def by blast
  have id: "ids ! si = slot_of d" using assms(2) c(1) by (simp add: indexed_def)
  have same: "fmlookup (md_metadata d0) key = fmlookup (md_metadata d) key" if "is_occupant_key s key" for key
    using occupant_key_agrees [OF that d0(2) _ d0(3)] in_m by (simp add: m agree_def)
  then have labels: "sl_labels (slots ! si) = fmfilter (slot_key s) (md_metadata d)"
    by (auto intro!: fmap_eqI simp: d0(4) is_occupant_key_iff)
  have parts: "fmfilter (\<lambda>k. \<not> P k) md ++\<^sub>f fmfilter P md = md" "fmdom (fmfilter (\<lambda>k. \<not> P k) md) |\<inter>| fmdom (fmfilter P md) = {||}"
    for P and md :: smap by (auto intro!: fmap_eqI simp: fmlookup_dom_iff)
  show "case m of (k, i, d) \<Rightarrow> \<exists>si c. si < length slots \<and> ids ! si = slot_of d \<and>
      (i, c) \<in> set (sl_pairs (slots ! si) k) \<and> c < length (descs k (lc_schema cols)) \<and>
      sl_labels (slots ! si) = fmfilter (slot_key s) (md_metadata d) \<and>
      md_metadata (descs k (lc_schema cols) ! c) = fmfilter (\<lambda>key. \<not> slot_key s key) (md_metadata d) \<and>
      md_metadata (descs k (lc_schema cols) ! c) ++\<^sub>f sl_labels (slots ! si) = md_metadata d \<and>
      fmdom (md_metadata (descs k (lc_schema cols) ! c)) |\<inter>| fmdom (sl_labels (slots ! si)) = {||}"
    unfolding m prod.case
    by (rule exI [of _ si], rule exI [of _ c])
      (use c(2-4) d0(1) id labels in \<open>simp add: is_occupant_key_iff parts del: fmdom_filter\<close>)
qed

lemma ll_of_ok:
  assumes "cols_ok cols" "plain_schema s" "ll_of enc s cols = (layout, cols')"
  shows "cols_ok cols'" "columns_grown cols cols'" "laid_out s (ll_slots layout) (lc_schema cols')" "list_all slot_ok (ll_slots layout)"
    "mset (member_numbers k (ll_slots layout)) = mset [0..<length (descs k s)]"
    "ll_arity layout = (length (gs_counters s), length (gs_gauges s), length (gs_histograms s))"
    "lc_hash cols' = (if lc_schema cols' = lc_schema cols then lc_hash cols else schema_hash enc (lc_schema cols'))"
proof -
  obtain cols1 changed slots index where st: "fold (place (is_occupant_key s)) (members s) (cols, False, [], fmempty)
      = (cols1, changed, slots, index)" by (metis prod_cases4)
  have inv: "layout_inv s cols (members s) (cols1, changed, slots, index)"
    using layout_inv_fold [OF assms(2) _ layout_inv_start [OF assms(1)], of "members s"] by (simp add: st)
  have out: "ll_slots layout = slots" "lc_schema cols' = lc_schema cols1" "lc_index cols' = lc_index cols1" "lc_names cols' = lc_names cols1"
    "ll_arity layout = (length (gs_counters s), length (gs_gauges s), length (gs_histograms s))"
    "lc_hash cols' = (if changed then schema_hash enc (lc_schema cols1) else lc_hash cols1)"
    using assms(3) by (cases changed; auto simp: ll_of_def st Let_def)+
  from inv show "cols_ok cols'" by (simp add: layout_inv_def cols_ok_def out)
  from inv show "columns_grown cols cols'" by (simp add: layout_inv_def columns_grown_def out)
  from inv show "list_all slot_ok (ll_slots layout)" by (simp add: layout_inv_def out)
  from inv show "mset (member_numbers k (ll_slots layout)) = mset [0..<length (descs k s)]"
    by (simp add: layout_inv_def out member_indices)
  show "ll_arity layout = (length (gs_counters s), length (gs_gauges s), length (gs_histograms s))" by (rule out(5))
  from inv have "changed \<longrightarrow> lc_schema cols1 \<noteq> lc_schema cols" "\<not> changed \<longrightarrow> cols1 = cols"
    by (auto simp: layout_inv_def)
  then show "lc_hash cols' = (if lc_schema cols' = lc_schema cols then lc_hash cols else schema_hash enc (lc_schema cols'))"
    by (cases changed) (simp_all add: out)
  from inv obtain ids where "placed s (members s) cols1 slots index" "indexed ids slots index"
      "set ids = (\<lambda>(k, i, d). slot_of d) ` set (members s)" by (auto simp: layout_inv_def)
  from placed_laid_out [OF this] show "laid_out s (ll_slots layout) (lc_schema cols')" by (simp add: out)
qed

text \<open>
  C22. Laying a group out long loses no label and invents none. Where no name or value holds the two control
  characters that separate them in a column's key: there is one slot for each slot id of the members, and
  every member of the schema is in one place, a slot and a column; the slot has the labels that are not the storage's and that every two members of
  one slot agree on, the column the rest, so the two together are the member's metadata. Columns handed out before stay
  where they were; no two columns of a kind have the same metadata, so a column that is there already is used again, and no
  two columns have the same name. The hash is taken anew exactly when a column is added.
\<close>

theorem long_layout_keeps_every_label:
  assumes "cols_ok cols" and "plain_schema s"
  shows "let (layout, cols') = ll_of enc s cols
    in laid_out s (ll_slots layout) (lc_schema cols') \<and> columns_grown cols cols' \<and> cols_ok cols' \<and>
      (\<forall>k. distinct (map md_metadata (descs k (lc_schema cols')))) \<and>
      distinct (map md_name (gs_counters (lc_schema cols') @ gs_gauges (lc_schema cols') @ gs_histograms (lc_schema cols'))) \<and>
      (\<forall>k. mset (member_numbers k (ll_slots layout)) = mset [0..<length (descs k s)]) \<and>
      lc_hash cols' = (if lc_schema cols' = lc_schema cols then lc_hash cols else schema_hash enc (lc_schema cols'))"
proof -
  obtain layout cols' where run: "ll_of enc s cols = (layout, cols')" by fastforce
  note ok = ll_of_ok [OF assms run]
  have "distinct (map md_name (concat (map (\<lambda>k. descs k (lc_schema cols')) [KCounter, KGauge, KHistogram])))"
    using ok(1) unfolding cols_ok_def by blast
  then have "distinct (map md_name (gs_counters (lc_schema cols') @ gs_gauges (lc_schema cols') @ gs_histograms (lc_schema cols')))"
    by simp
  with ok columns_apart [OF ok(1)] show ?thesis by (simp add: run)
qed

text \<open>Without that, two metrics can share a column.\<close>

lemma separators_in_labels_share_a_column:
  "column_key (fmupd ''a'' (''b'' @ [CHR 0x1E] @ ''c'' @ [CHR 0x1F] @ ''d'') fmempty) =
   column_key (fmupd ''a'' ''b'' (fmupd ''c'' ''d'' fmempty))"
  by (simp add: column_key_def key_of_def map_entries_def sorted_list_of_fset.rep_eq)

end
