(* ===== verification/WalRows.thy ===== *)
theory WalRows
  imports Snapshots
begin

text \<open>
  The rows a recording keeps before they are sealed and a producer streams
  (\<open>metriken-model/src/wal.rs\<close>), how a group snapshot becomes one (\<open>convert.rs\<close>), what a row costs
  a writer's budget (\<open>cost.rs\<close>) and the occupant rows (\<open>occupants.rs\<close>).

  The encoding is the \<open>rmp\<close> and \<open>rmp_serde\<close> crates': the record \<open>rmp\<close> holds the functions of them the
  code calls, and \<open>rmp_ok\<close> says what their documentation says of them: a struct is
  an array of its fields, an absent option is \<open>nil\<close>, an empty list of gauge histograms is left
  out, and what was written is read back.
\<close>

section \<open>Rows\<close>

text \<open>A histogram slot: the two powers of its configuration, and its buckets.\<close>

type_synonym hist_cell = "u8 \<times> u8 \<times> u64 list"

record wal_group_row =
  wg_schema_hash :: hash128
  wg_schema :: "group_schema option"
  wg_window :: "(u64 \<times> u64) option"
  wg_counters :: "u64 option list"
  wg_gauges :: "i64 option list"
  wg_histograms :: "hist_cell option list"
  wg_gauge_histograms :: "hist_cell option list"

record long_occupant =
  lo_occupant :: u64
  lo_counters :: "u64 option list"
  lo_gauges :: "i64 option list"
  lo_histograms :: "hist_cell option list"
  lo_gauge_histograms :: "hist_cell option list"

record wal_long_row =
  wlr_schema_hash :: hash128
  wlr_schema :: "group_schema option"
  wlr_window :: "(u64 \<times> u64) option"
  wlr_occupants :: "long_occupant list"

record occupant =
  oc_occupant :: u64
  oc_labels :: smap

datatype wal_value = WCounter u64 | WGauge i64 | WHistogram u8 u8 "u64 list" | WGaugeHistogram u8 u8 "u64 list"

record wal_cell =
  wc_name :: string
  wc_metadata :: "smap option"
  wc_value :: wal_value
  wc_window :: "(u64 \<times> u64) option"

definition SUFFIX :: string where "SUFFIX = ''/occupants''"

definition stream_of :: "string \<Rightarrow> string" where
  "stream_of table = table @ SUFFIX"

text \<open>\<open>str::strip_suffix\<close>.\<close>

definition table_of :: "string \<Rightarrow> string option" where
  "table_of stream =
     (let n = length stream - length SUFFIX
      in if length SUFFIX \<le> length stream \<and> drop n stream = SUFFIX then Some (take n stream) else None)"

lemma table_of_stream_of [simp]: "table_of (stream_of table) = Some table"
  by (simp add: table_of_def stream_of_def)

lemma table_of_Some: "table_of stream = Some table \<longleftrightarrow> stream = stream_of table"
proof
  assume "table_of stream = Some table"
  then have "table = take (length stream - length SUFFIX) stream" and
      "drop (length stream - length SUFFIX) stream = SUFFIX"
    by (auto simp: table_of_def Let_def split: if_splits)
  then show "stream = stream_of table" unfolding stream_of_def by (metis append_take_drop_id)
qed simp

section \<open>Encoding\<close>

record rmp =
  rm_group :: "wal_group_row \<Rightarrow> string + u8 list"          \<comment> \<open>\<open>rmp_serde::to_vec\<close>\<close>
  rm_group_of :: "u8 list \<Rightarrow> string + wal_group_row"       \<comment> \<open>\<open>rmp_serde::from_slice\<close>\<close>
  rm_long :: "wal_long_row \<Rightarrow> string + u8 list"
  rm_long_of :: "u8 list \<Rightarrow> string + wal_long_row"
  rm_occupants :: "occupant list \<Rightarrow> u8 list"               \<comment> \<open>\<open>to_vec(..).expect(..)\<close>\<close>
  rm_occupants_of :: "u8 list \<Rightarrow> string + occupant list"
  rm_schema :: "group_schema \<Rightarrow> string + u8 list"          \<comment> \<open>\<open>rmp_serde::encode::write\<close>\<close>
  rm_array_len :: "u8 list \<Rightarrow> (nat \<times> u8 list) option"    \<comment> \<open>\<open>rmp::decode::read_array_len\<close>\<close>
  rm_int :: "u8 list \<Rightarrow> (u64 \<times> u8 list) option"          \<comment> \<open>\<open>rmp::decode::read_int\<close>\<close>

text \<open>\<open>rmp::Marker::Null.to_u8()\<close>.\<close>

definition NULL :: u8 where "NULL = 0xc0"

definition encode_wal_group_row :: "rmp \<Rightarrow> wal_group_row \<Rightarrow> string + u8 list" where
  "encode_wal_group_row rm row =
     (case rm_group rm row of Inl e \<Rightarrow> Inl (''failed to encode a group WAL row: '' @ e) | Inr b \<Rightarrow> Inr b)"

definition decode_wal_group_row :: "rmp \<Rightarrow> u8 list \<Rightarrow> string + wal_group_row" where
  "decode_wal_group_row rm bytes =
     (case rm_group_of rm bytes of Inl e \<Rightarrow> Inl (''failed to decode a group WAL row: '' @ e) | Inr r \<Rightarrow> Inr r)"

definition encode_wal_long_row :: "rmp \<Rightarrow> wal_long_row \<Rightarrow> string + u8 list" where
  "encode_wal_long_row rm row =
     (case rm_long rm row of Inl e \<Rightarrow> Inl (''failed to encode a WAL long row: '' @ e) | Inr b \<Rightarrow> Inr b)"

definition decode_wal_long_row :: "rmp \<Rightarrow> u8 list \<Rightarrow> string + wal_long_row" where
  "decode_wal_long_row rm bytes =
     (case rm_long_of rm bytes of Inl e \<Rightarrow> Inl (''failed to decode a WAL long row: '' @ e) | Inr r \<Rightarrow> Inr r)"

definition encode_wal_row :: "rmp \<Rightarrow> occupant list \<Rightarrow> u8 list" where
  "encode_wal_row rm os = rm_occupants rm os"

definition decode_wal_row :: "rmp \<Rightarrow> u8 list \<Rightarrow> string + occupant list" where
  "decode_wal_row rm row =
     (case rm_occupants_of rm row of Inl e \<Rightarrow> Inl (''decoding an occupant WAL row: '' @ e) | Inr os \<Rightarrow> Inr os)"

definition schema_nil_offset :: "rmp \<Rightarrow> u8 list \<Rightarrow> nat option" where
  "schema_nil_offset rm payload =
     (case rm_array_len rm payload of
        None \<Rightarrow> None
      | Some (n, r1) \<Rightarrow>
          (if n \<noteq> 6 \<and> n \<noteq> 7 then None
           else case rm_array_len rm r1 of
               None \<Rightarrow> None
             | Some (m, r2) \<Rightarrow>
                 (if m \<noteq> 2 then None
                  else case rm_int rm r2 of
                      None \<Rightarrow> None
                    | Some (_, r3) \<Rightarrow>
                        (case rm_int rm r3 of
                           None \<Rightarrow> None
                         | Some (_, rest) \<Rightarrow>
                             (let at = length payload - length rest
                              in if at < length payload \<and> payload ! at = NULL then Some at else None)))))"

definition encode_wal_group_row_with_schema :: "rmp \<Rightarrow> u8 list \<Rightarrow> group_schema \<Rightarrow> string + u8 list" where
  "encode_wal_group_row_with_schema rm payload schema =
     (case schema_nil_offset rm payload of
        Some at \<Rightarrow>
          (case rm_schema rm schema of
             Inl e \<Rightarrow> Inl (''failed to encode a group schema: '' @ e)
           | Inr bytes \<Rightarrow> Inr (take at payload @ bytes @ drop (at + 1) payload))
      | None \<Rightarrow>
          (case decode_wal_group_row rm payload of
             Inl e \<Rightarrow> Inl e
           | Inr row \<Rightarrow> encode_wal_group_row rm (row\<lparr>wg_schema := Some schema\<rparr>)))"

section \<open>From snapshots\<close>

definition hist_cell :: "'h hist_value \<Rightarrow> 'h \<Rightarrow> hist_cell" where
  "hist_cell hv h = (hv_grouping_power hv h, hv_max_value_power hv h, hv_as_slice hv h)"

definition cells :: "'h hist_value \<Rightarrow> 'h option list \<Rightarrow> hist_cell option list" where
  "cells hv values = map (map_option (hist_cell hv)) values"

definition window_pair :: "window \<Rightarrow> u64 \<times> u64" where
  "window_pair w = (begin_ns w, end_ns w)"

definition to_wal_group_row :: "'h hist_value \<Rightarrow> 'h group_snapshot \<Rightarrow> group_schema option \<Rightarrow> wal_group_row" where
  "to_wal_group_row hv g schema =
     \<lparr>wg_schema_hash = gr_schema_hash g, wg_schema = schema, wg_window = map_option window_pair (gr_window g),
      wg_counters = gr_counters g, wg_gauges = gr_gauges g, wg_histograms = cells hv (gr_histograms g),
      wg_gauge_histograms = cells hv (gr_gauge_histograms g)\<rparr>"

section \<open>Cost\<close>

definition VALUE_SLOT_BYTES :: nat where "VALUE_SLOT_BYTES = 16"
definition WINDOW_SLOT_BYTES :: nat where "WINDOW_SLOT_BYTES = 24"
definition HISTOGRAM_BUCKET_BYTES :: nat where "HISTOGRAM_BUCKET_BYTES = 8"

definition present_count :: "'a option list \<Rightarrow> nat" where
  "present_count vs = length (filter (\<lambda>v. v \<noteq> None) vs)"

definition flatten :: "'a option list \<Rightarrow> 'a list" where
  "flatten vs = List.map_filter id vs"

definition bucket_bytes :: "u64 list \<Rightarrow> nat" where
  "bucket_bytes buckets = VALUE_SLOT_BYTES + length buckets * HISTOGRAM_BUCKET_BYTES"

definition group_approx_bytes :: "'h hist_value \<Rightarrow> 'h group_snapshot \<Rightarrow> nat" where
  "group_approx_bytes hv g =
     WINDOW_SLOT_BYTES + present_count (gr_counters g) * VALUE_SLOT_BYTES +
     present_count (gr_gauges g) * VALUE_SLOT_BYTES +
     sum_list (map (\<lambda>h. bucket_bytes (hv_as_slice hv h)) (flatten (gr_histograms g @ gr_gauge_histograms g)))"

definition cell_bytes :: "hist_cell \<Rightarrow> nat" where
  "cell_bytes = (\<lambda>(_, _, buckets). bucket_bytes buckets)"

definition wal_group_row_approx_bytes :: "wal_group_row \<Rightarrow> nat" where
  "wal_group_row_approx_bytes row =
     WINDOW_SLOT_BYTES + present_count (wg_counters row) * VALUE_SLOT_BYTES +
     present_count (wg_gauges row) * VALUE_SLOT_BYTES +
     sum_list (map cell_bytes (flatten (wg_histograms row @ wg_gauge_histograms row)))"

definition long_occupant_bytes :: "long_occupant \<Rightarrow> nat" where
  "long_occupant_bytes o' =
     VALUE_SLOT_BYTES + present_count (lo_counters o') * VALUE_SLOT_BYTES +
     present_count (lo_gauges o') * VALUE_SLOT_BYTES +
     sum_list (map cell_bytes (flatten (lo_histograms o' @ lo_gauge_histograms o')))"

definition wal_long_row_approx_bytes :: "wal_long_row \<Rightarrow> nat" where
  "wal_long_row_approx_bytes row = WINDOW_SLOT_BYTES + sum_list (map long_occupant_bytes (wlr_occupants row))"

lemma flatten_append [simp]: "flatten (xs @ ys) = flatten xs @ flatten ys"
  by (simp add: flatten_def List.map_filter_def)

lemma flatten_map: "flatten (map (map_option f) vs) = map f (flatten vs)"
  by (induction vs) (auto simp: flatten_def List.map_filter_simps split: option.splits)

text \<open>A recording taken off the stream seals where a scraped one does.\<close>

lemma metered_alike: "wal_group_row_approx_bytes (to_wal_group_row hv g schema) = group_approx_bytes hv g"
  by (simp add: wal_group_row_approx_bytes_def group_approx_bytes_def to_wal_group_row_def cells_def
    flatten_map comp_def cell_bytes_def hist_cell_def)

section \<open>What is assumed of the encoding\<close>

definition group_fields :: "wal_group_row \<Rightarrow> nat" where
  "group_fields r = (if wg_gauge_histograms r = [] then 6 else 7)"

definition schema_cell :: "rmp \<Rightarrow> group_schema option \<Rightarrow> u8 list \<Rightarrow> bool" where
  "schema_cell rm s bytes = (case s of None \<Rightarrow> bytes = [NULL] | Some s \<Rightarrow> rm_schema rm s = Inr bytes)"

text \<open>The bytes of a group row: the array's header and the hash, the schema, and the rest.\<close>

definition header_reads :: "rmp \<Rightarrow> wal_group_row \<Rightarrow> u8 list \<Rightarrow> bool" where
  "header_reads rm r head \<longleftrightarrow> (\<forall>rest. \<exists>r1 r2 r3. rm_array_len rm (head @ rest) = Some (group_fields r, r1) \<and>
     rm_array_len rm r1 = Some (2, r2) \<and> rm_int rm r2 = Some (fst (wg_schema_hash r), r3) \<and>
     rm_int rm r3 = Some (snd (wg_schema_hash r), rest))"

definition row_bytes :: "rmp \<Rightarrow> wal_group_row \<Rightarrow> u8 list \<Rightarrow> u8 list \<Rightarrow> bool" where
  "row_bytes rm r head tail \<longleftrightarrow>
     (\<forall>s. \<exists>bytes. schema_cell rm s bytes \<and> rm_group rm (r\<lparr>wg_schema := s\<rparr>) = Inr (head @ bytes @ tail))"

definition group_layout :: "rmp \<Rightarrow> bool" where
  "group_layout rm \<longleftrightarrow> (\<forall>r. \<exists>head tail. header_reads rm r head \<and> row_bytes rm r head tail)"

definition rmp_ok :: "rmp \<Rightarrow> bool" where
  "rmp_ok rm \<longleftrightarrow> group_layout rm \<and>
     (\<forall>s. \<exists>b bytes. rm_schema rm s = Inr (b # bytes) \<and> b \<noteq> NULL) \<and>
     (\<forall>r bytes. rm_group rm r = Inr bytes \<longrightarrow> rm_group_of rm bytes = Inr r) \<and>
     (\<forall>r. \<exists>bytes. rm_long rm r = Inr bytes \<and> rm_long_of rm bytes = Inr r) \<and>
     (\<forall>os. rm_occupants_of rm (rm_occupants rm os) = Inr os)"

lemma group_layoutD:
  assumes "rmp_ok rm"
  obtains head tail where "header_reads rm r head" "row_bytes rm r head tail"
proof -
  from assms have "\<exists>head tail. header_reads rm r head \<and> row_bytes rm r head tail"
    unfolding rmp_ok_def group_layout_def by blast
  then show thesis using that by blast
qed

lemma rmp_group_back: "rmp_ok rm \<Longrightarrow> rm_group rm r = Inr bytes \<Longrightarrow> rm_group_of rm bytes = Inr r"
  by (simp add: rmp_ok_def)

lemma rmp_schema: "rmp_ok rm \<Longrightarrow> \<exists>b bytes. rm_schema rm s = Inr (b # bytes) \<and> b \<noteq> NULL"
  by (simp add: rmp_ok_def)

lemma same_schema_update: "r\<lparr>wg_schema := wg_schema r\<rparr> = r"
  by simp

lemma schema_nil_offset_layout:
  assumes "header_reads rm r head"
  shows "schema_nil_offset rm (head @ b # rest) = (if b = NULL then Some (length head) else None)"
proof -
  from assms obtain r1 r2 r3 where
    "rm_array_len rm (head @ b # rest) = Some (group_fields r, r1)" "rm_array_len rm r1 = Some (2, r2)"
    "rm_int rm r2 = Some (fst (wg_schema_hash r), r3)" "rm_int rm r3 = Some (snd (wg_schema_hash r), b # rest)"
    unfolding header_reads_def by blast
  then show ?thesis
    by (simp add: schema_nil_offset_def group_fields_def Let_def nth_append)
qed

lemma splice_encodes:
  assumes "rmp_ok rm" and "encode_wal_group_row rm r = Inr payload"
  shows "encode_wal_group_row_with_schema rm payload s = encode_wal_group_row rm (r\<lparr>wg_schema := Some s\<rparr>) \<and>
    (\<exists>bytes. encode_wal_group_row_with_schema rm payload s = Inr bytes \<and>
       decode_wal_group_row rm bytes = Inr (r\<lparr>wg_schema := Some s\<rparr>))"
proof -
  have payload: "rm_group rm r = Inr payload"
    using assms(2) by (simp add: encode_wal_group_row_def split: sum.splits)
  obtain head tail where reads: "header_reads rm r head" and "row_bytes rm r head tail"
    by (rule group_layoutD [OF assms(1)])
  then have layout: "\<exists>bytes. schema_cell rm s bytes \<and> rm_group rm (r\<lparr>wg_schema := s\<rparr>) = Inr (head @ bytes @ tail)" for s
    by (simp add: row_bytes_def)
  obtain b bs where schema: "rm_schema rm s = Inr (b # bs)" using rmp_schema [OF assms(1)] by blast
  with layout [of "Some s"] have anchored: "rm_group rm (r\<lparr>wg_schema := Some s\<rparr>) = Inr (head @ (b # bs) @ tail)"
    by (auto simp: schema_cell_def)
  have "encode_wal_group_row_with_schema rm payload s = Inr (head @ (b # bs) @ tail)"
  proof (cases "wg_schema r")
    case None
    then have same: "r\<lparr>wg_schema := None\<rparr> = r" by (metis same_schema_update)
    have "payload = head @ NULL # tail"
      using layout [of None] payload unfolding same by (simp add: schema_cell_def)
    then show ?thesis
      by (simp add: encode_wal_group_row_with_schema_def schema_nil_offset_layout [OF reads] schema)
  next
    case (Some s')
    obtain b' bs' where schema': "rm_schema rm s' = Inr (b' # bs')" "b' \<noteq> NULL"
      using rmp_schema [OF assms(1)] by blast
    have same: "r\<lparr>wg_schema := Some s'\<rparr> = r" using Some by (metis same_schema_update)
    have bytes: "payload = head @ b' # bs' @ tail"
      using layout [of "Some s'"] payload unfolding same by (simp add: schema_cell_def schema')
    have reread: "rm_group_of rm payload = Inr r" by (rule rmp_group_back [OF assms(1) payload])
    show ?thesis
      using schema'(2) by (simp add: encode_wal_group_row_with_schema_def bytes schema_nil_offset_layout [OF reads]
        decode_wal_group_row_def reread [unfolded bytes] encode_wal_group_row_def anchored)
  qed
  with anchored rmp_group_back [OF assms(1) anchored] show ?thesis
    by (simp add: encode_wal_group_row_def decode_wal_group_row_def)
qed

text \<open>
  C37. Adding a schema to an encoded row is encoding the row with the schema. Given the bytes of a row, with or without a schema of
  its own, \<open>encode_wal_group_row_with_schema\<close> gives exactly the bytes of the same row holding the
  given schema, though it splices the schema in without decoding the values, and reading them back gives that row.
\<close>

theorem splice_is_encoding_with_schema:
  assumes "rmp_ok rm" and "encode_wal_group_row rm r = Inr payload"
  shows "encode_wal_group_row_with_schema rm payload s = encode_wal_group_row rm (r\<lparr>wg_schema := Some s\<rparr>) \<and>
    (\<exists>bytes. encode_wal_group_row_with_schema rm payload s = Inr bytes \<and>
       decode_wal_group_row rm bytes = Inr (r\<lparr>wg_schema := Some s\<rparr>))"
  by (rule splice_encodes [OF assms])

end
