(* ===== verification/Frames.thy ===== *)
theory Frames
  imports WalRows
begin

text \<open>
  The producer's end of the stream (\<open>metriken-exposition/src/stream/frames.rs\<close>): the cache of
  schemas, a pass's groups encoded once for all subscribers, and \<open>FrameProducer\<close>, which
  decides per subscriber which rows carry their schema and which occupants are
  described.

  \<open>FrameProducer::interval\<close> is generic over the trait \<open>StreamRow\<close>: a record of its methods
  here, with one constant per implementation. \<open>WalRow\<close>, \<open>Frame\<close> and
  \<open>NO_INDEX_STATE\<close> are the dendro crate's; the two fields the code never varies (the source, which is 0, and the
  index state) are kept in the frame.
\<close>

section \<open>A pass's groups\<close>

record 'h long_member =
  lm_key :: u64
  lm_labels :: smap
  lm_counters :: "u64 option list"
  lm_gauges :: "i64 option list"
  lm_histograms :: "'h option list"

record 'h long_group =
  lg_name :: string
  lg_window :: "window option"
  lg_columns_hash :: hash128
  lg_columns :: group_schema
  lg_occupants :: "'h long_member list"

datatype 'h stream_group = SWide "'h group_snapshot" | SLong "'h long_group"

fun sg_name :: "'h stream_group \<Rightarrow> string" where
  "sg_name (SWide g) = gr_name g"
| "sg_name (SLong g) = lg_name g"

section \<open>The schema cache\<close>

type_synonym schema_cache = "(string, hash128 \<times> group_schema) fmap"

definition cached :: "string \<Rightarrow> hash128 \<Rightarrow> group_schema \<Rightarrow> schema_cache \<Rightarrow> group_schema \<times> schema_cache" where
  "cached name hash source c =
     (case fmlookup c name of
        Some (h, s) \<Rightarrow> if h = hash then (s, c) else (source, fmupd name (hash, source) c)
      | None \<Rightarrow> (source, fmupd name (hash, source) c))"

definition sc_schema :: "'h group_snapshot \<Rightarrow> schema_cache \<Rightarrow> group_schema option \<times> schema_cache" where
  "sc_schema g c =
     (case gr_schema g of
        None \<Rightarrow> (None, c)
      | Some source \<Rightarrow> (let (s, c') = cached (gr_name g) (gr_schema_hash g) source c in (Some s, c')))"

definition sc_columns :: "'h long_group \<Rightarrow> schema_cache \<Rightarrow> group_schema \<times> schema_cache" where
  "sc_columns g c = cached (lg_name g) (lg_columns_hash g) (lg_columns g) c"

definition sc_retain :: "(string \<Rightarrow> bool) \<Rightarrow> schema_cache \<Rightarrow> schema_cache" where
  "sc_retain keep c = fmfilter keep c"

definition sc_len :: "schema_cache \<Rightarrow> nat" where
  "sc_len c = size (fmdom c)"

section \<open>Encoded groups\<close>

type_synonym keyed_labels = "u64 \<times> smap"

record encoded_group =
  eg_stream :: string
  eg_window :: "(u64 \<times> u64) option"
  eg_schema_hash :: hash128
  eg_schema :: "group_schema option"
  eg_row :: "u8 list"

record encoded_long_group =
  el_stream :: string
  el_window :: "(u64 \<times> u64) option"
  el_columns_hash :: hash128
  el_columns :: group_schema
  el_occupants :: "keyed_labels list"
  el_row :: "u8 list"

datatype encoded_stream_group = EWide encoded_group | ELong encoded_long_group

definition eg_encode :: "rmp \<Rightarrow> 'h hist_value \<Rightarrow> 'h group_snapshot \<Rightarrow> schema_cache \<Rightarrow>
    (string + encoded_group) \<times> schema_cache" where
  "eg_encode rm hv g c =
     (let (schema, c') = sc_schema g c
      in (map_sum id (\<lambda>row. \<lparr>eg_stream = gr_name g, eg_window = map_option window_pair (gr_window g),
             eg_schema_hash = gr_schema_hash g, eg_schema = schema, eg_row = row\<rparr>)
           (encode_wal_group_row rm (to_wal_group_row hv g None)), c'))"

definition long_row :: "'h hist_value \<Rightarrow> 'h long_group \<Rightarrow> wal_long_row" where
  "long_row hv g =
     \<lparr>wlr_schema_hash = lg_columns_hash g, wlr_schema = None, wlr_window = map_option window_pair (lg_window g),
      wlr_occupants = map (\<lambda>o'. \<lparr>lo_occupant = lm_key o', lo_counters = lm_counters o',
          lo_gauges = lm_gauges o', lo_histograms = cells hv (lm_histograms o'), lo_gauge_histograms = []\<rparr>)
        (lg_occupants g)\<rparr>"

definition el_encode :: "rmp \<Rightarrow> 'h hist_value \<Rightarrow> 'h long_group \<Rightarrow> schema_cache \<Rightarrow>
    (string + encoded_long_group) \<times> schema_cache" where
  "el_encode rm hv g c =
     (let row = long_row hv g; (columns, c') = sc_columns g c
      in (map_sum id (\<lambda>bytes. \<lparr>el_stream = lg_name g, el_window = wlr_window row,
             el_columns_hash = lg_columns_hash g, el_columns = columns,
             el_occupants = map (\<lambda>o'. (lm_key o', lm_labels o')) (lg_occupants g), el_row = bytes\<rparr>)
           (encode_wal_long_row rm row), c'))"

fun es_encode :: "rmp \<Rightarrow> 'h hist_value \<Rightarrow> 'h stream_group \<Rightarrow> schema_cache \<Rightarrow>
    (string + encoded_stream_group) \<times> schema_cache" where
  "es_encode rm hv (SWide g) c = (let (r, c') = eg_encode rm hv g c in (map_sum id EWide r, c'))"
| "es_encode rm hv (SLong g) c = (let (r, c') = el_encode rm hv g c in (map_sum id ELong r, c'))"

text \<open>A pass's groups one after another; the first that fails ends it.\<close>

fun encode_all :: "('g \<Rightarrow> schema_cache \<Rightarrow> (string + 'e) \<times> schema_cache) \<Rightarrow> 'g list \<Rightarrow> schema_cache \<Rightarrow>
    (string + 'e list) \<times> schema_cache" where
  "encode_all enc [] c = (Inr [], c)"
| "encode_all enc (g # gs) c =
     (case enc g c of
        (Inl e, c') \<Rightarrow> (Inl e, c')
      | (Inr x, c') \<Rightarrow> (let (r, c'') = encode_all enc gs c' in (map_sum id (Cons x) r, c'')))"

definition encode_groups :: "rmp \<Rightarrow> 'h hist_value \<Rightarrow> 'h group_snapshot list \<Rightarrow> schema_cache \<Rightarrow>
    (string + encoded_group list) \<times> schema_cache" where
  "encode_groups rm hv = encode_all (eg_encode rm hv)"

section \<open>Rows\<close>

record 'r stream_row =
  sr_stream :: "'r \<Rightarrow> string"
  sr_schema_hash :: "'r \<Rightarrow> hash128"
  sr_schema :: "'r \<Rightarrow> group_schema option"
  sr_payload :: "'r \<Rightarrow> u8 list"
  sr_window :: "'r \<Rightarrow> window option"
  sr_occupants :: "'r \<Rightarrow> keyed_labels list option"

definition pair_window :: "u64 \<times> u64 \<Rightarrow> window" where
  "pair_window = (\<lambda>(b, e). window_new b e)"

definition encoded_group_row :: "encoded_group stream_row" where
  "encoded_group_row = \<lparr>sr_stream = eg_stream, sr_schema_hash = eg_schema_hash, sr_schema = eg_schema,
     sr_payload = eg_row, sr_window = (\<lambda>g. map_option pair_window (eg_window g)), sr_occupants = (\<lambda>_. None)\<rparr>"

definition encoded_long_group_row :: "encoded_long_group stream_row" where
  "encoded_long_group_row = \<lparr>sr_stream = el_stream, sr_schema_hash = el_columns_hash,
     sr_schema = (\<lambda>g. Some (el_columns g)), sr_payload = el_row,
     sr_window = (\<lambda>g. map_option pair_window (el_window g)), sr_occupants = (\<lambda>g. Some (el_occupants g))\<rparr>"

fun by_form :: "(encoded_group \<Rightarrow> 'a) \<Rightarrow> (encoded_long_group \<Rightarrow> 'a) \<Rightarrow> encoded_stream_group \<Rightarrow> 'a" where
  "by_form f h (EWide g) = f g"
| "by_form f h (ELong g) = h g"

definition encoded_stream_group_row :: "encoded_stream_group stream_row" where
  "encoded_stream_group_row =
     (let w = encoded_group_row; l = encoded_long_group_row
      in \<lparr>sr_stream = by_form (sr_stream w) (sr_stream l),
          sr_schema_hash = by_form (sr_schema_hash w) (sr_schema_hash l),
          sr_schema = by_form (sr_schema w) (sr_schema l),
          sr_payload = by_form (sr_payload w) (sr_payload l),
          sr_window = by_form (sr_window w) (sr_window l),
          sr_occupants = by_form (sr_occupants w) (sr_occupants l)\<rparr>)"

section \<open>The frame producer\<close>

record dendro_row =
  dr_stream :: string
  dr_ts :: i64
  dr_wall_offset :: i64
  dr_row :: "u8 list"

record handshake_frame =
  hf_source :: nat
  hf_uuid :: "string option"
  hf_labels :: smap
  hf_metadata :: smap
  hf_anchor :: i64
  hf_complete :: bool

type_synonym index_state = "u64 \<times> u64"

record rows_frame =
  rf_source :: nat
  rf_seq :: u64
  rf_index_state :: index_state
  rf_rows :: "dendro_row list"

datatype frame =
    FHandshake handshake_frame
  | FIndex
  | FRows rows_frame
  | FSegment
  | FClockOffset
  | FUnknown

definition SOURCE :: nat where "SOURCE = 0"

record frame_producer =
  fp_uuid :: string
  fp_anchor :: i64
  fp_labels :: smap
  fp_metadata :: smap
  fp_sent_schemas :: "(string, hash128) fmap"
  fp_sent_occupants :: "(string, u64 fset) fmap"
  fp_handshake_sent :: bool

definition fp_for_source :: "string \<Rightarrow> i64 \<Rightarrow> smap \<Rightarrow> smap \<Rightarrow> frame_producer" where
  "fp_for_source uuid anchor labels metadata =
     \<lparr>fp_uuid = uuid, fp_anchor = anchor, fp_labels = labels, fp_metadata = metadata,
      fp_sent_schemas = fmempty, fp_sent_occupants = fmempty, fp_handshake_sent = False\<rparr>"

text \<open>\<open>epoch\<close> and \<open>anchor\<close> are the process's, \<open>key\<close> is dendro's \<open>keys::PRODUCER_EPOCH\<close>.\<close>

definition fp_new :: "string \<Rightarrow> string \<Rightarrow> i64 \<Rightarrow> smap \<Rightarrow> smap \<Rightarrow> frame_producer" where
  "fp_new key epoch anchor labels metadata = fp_for_source epoch anchor labels (fmupd key epoch metadata)"

definition fp_insert_metadata :: "string \<Rightarrow> string \<Rightarrow> frame_producer \<Rightarrow> frame_producer" where
  "fp_insert_metadata key value p = p\<lparr>fp_metadata := fmupd key value (fp_metadata p)\<rparr>"

definition fp_handshake :: "frame_producer \<Rightarrow> frame \<times> frame_producer" where
  "fp_handshake p =
     (FHandshake \<lparr>hf_source = SOURCE, hf_uuid = Some (fp_uuid p), hf_labels = fp_labels p,
        hf_metadata = fp_metadata p, hf_anchor = fp_anchor p, hf_complete = False\<rparr>,
      p\<lparr>fp_handshake_sent := True\<rparr>)"

definition with_schema :: "rmp \<Rightarrow> u8 list \<Rightarrow> group_schema \<Rightarrow> u8 list" where
  "with_schema rm payload schema =
     (case encode_wal_group_row_with_schema rm payload schema of Inl _ \<Rightarrow> payload | Inr b \<Rightarrow> b)"

definition with_long_schema :: "rmp \<Rightarrow> u8 list \<Rightarrow> group_schema \<Rightarrow> u8 list" where
  "with_long_schema rm payload schema =
     (case decode_wal_long_row rm payload of
        Inl _ \<Rightarrow> payload
      | Inr row \<Rightarrow>
          (case encode_wal_long_row rm (row\<lparr>wlr_schema := Some schema\<rparr>) of Inl _ \<Rightarrow> payload | Inr b \<Rightarrow> b))"

text \<open>What \<open>interval\<close> does for one row, in two parts: the occupants it describes, and the row.\<close>

definition fp_change_form :: "string \<Rightarrow> bool \<Rightarrow> frame_producer \<Rightarrow> frame_producer" where
  "fp_change_form stream long p =
     (let was_long = stream |\<in>| fmdom (fp_sent_occupants p);
          p = (if was_long \<noteq> long then p\<lparr>fp_sent_schemas := fmdrop stream (fp_sent_schemas p)\<rparr> else p)
      in if long then p else p\<lparr>fp_sent_occupants := fmdrop stream (fp_sent_occupants p)\<rparr>)"

definition fp_new_occupants :: "string \<Rightarrow> keyed_labels list \<Rightarrow> frame_producer \<Rightarrow> occupant list \<times> frame_producer" where
  "fp_new_occupants stream present p =
     (let sent = (case fmlookup (fp_sent_occupants p) stream of None \<Rightarrow> {||} | Some s \<Rightarrow> s);
          new = map (\<lambda>(key, labels). \<lparr>oc_occupant = key, oc_labels = labels\<rparr>)
                  (filter (\<lambda>(key, _). key |\<notin>| sent) present)
      in (new, p\<lparr>fp_sent_occupants := fmupd stream (fset_of_list (map fst present)) (fp_sent_occupants p)\<rparr>))"

definition fp_payload :: "rmp \<Rightarrow> 'r stream_row \<Rightarrow> 'r \<Rightarrow> frame_producer \<Rightarrow> u8 list \<times> frame_producer" where
  "fp_payload rm tr row p =
     (if fmlookup (fp_sent_schemas p) (sr_stream tr row) = Some (sr_schema_hash tr row)
      then (sr_payload tr row, p)
      else ((case (sr_schema tr row, sr_occupants tr row) of
               (Some schema, None) \<Rightarrow> with_schema rm (sr_payload tr row) schema
             | (Some schema, Some _) \<Rightarrow> with_long_schema rm (sr_payload tr row) schema
             | (None, _) \<Rightarrow> sr_payload tr row),
            p\<lparr>fp_sent_schemas := fmupd (sr_stream tr row) (sr_schema_hash tr row) (fp_sent_schemas p)\<rparr>))"

definition fp_row :: "rmp \<Rightarrow> 'r stream_row \<Rightarrow> i64 \<Rightarrow> i64 \<Rightarrow> 'r \<Rightarrow> frame_producer \<Rightarrow> dendro_row list \<times> frame_producer" where
  "fp_row rm tr ts wall row p =
     (let stream = sr_stream tr row;
          long = sr_occupants tr row;
          p = fp_change_form stream (long \<noteq> None) p;
          (new, p) = (case long of None \<Rightarrow> ([], p) | Some present \<Rightarrow> fp_new_occupants stream present p);
          described = (if new = [] then [] else
            [\<lparr>dr_stream = stream_of stream, dr_ts = ts, dr_wall_offset = wall, dr_row = encode_wal_row rm new\<rparr>]);
          (payload, p) = fp_payload rm tr row p
      in (described @ [\<lparr>dr_stream = stream, dr_ts = ts, dr_wall_offset = wall, dr_row = payload\<rparr>], p))"

fun fp_rows :: "rmp \<Rightarrow> 'r stream_row \<Rightarrow> i64 \<Rightarrow> i64 \<Rightarrow> 'r list \<Rightarrow> frame_producer \<Rightarrow> dendro_row list \<times> frame_producer" where
  "fp_rows rm tr ts wall [] p = ([], p)"
| "fp_rows rm tr ts wall (row # rows) p =
     (let (out, p) = fp_row rm tr ts wall row p; (outs, p) = fp_rows rm tr ts wall rows p in (out @ outs, p))"

definition fp_interval :: "rmp \<Rightarrow> 'r stream_row \<Rightarrow> index_state \<Rightarrow> 'r list \<Rightarrow> i64 \<Rightarrow> i64 \<Rightarrow> u64 \<Rightarrow> frame_producer \<Rightarrow>
    frame \<times> frame_producer" where
  "fp_interval rm tr no_index rows ts wall seq p =
     (let (out, p') = fp_rows rm tr ts wall rows p
      in (FRows \<lparr>rf_source = SOURCE, rf_seq = seq, rf_index_state = no_index, rf_rows = out\<rparr>, p'))"

definition fp_empty_interval :: "index_state \<Rightarrow> u64 \<Rightarrow> frame" where
  "fp_empty_interval no_index seq =
     FRows \<lparr>rf_source = SOURCE, rf_seq = seq, rf_index_state = no_index, rf_rows = []\<rparr>"

end
