(* ===== verification/StreamDecode.thy ===== *)
theory StreamDecode
  imports Frames
begin

text \<open>
  The consumer's end of the stream: \<open>StreamDecoder\<close> (\<open>metriken-storage/src/writer.rs\<close>), which turns
  rows back into groups, and a reader, which stands for whoever consumes the groups and
  holds what it was sent: schemas by stream, and labels by occupant key. The reader is the specification of
  what a subscriber can resolve; nothing of it is code.
\<close>

section \<open>Row forms\<close>

datatype row_form = GroupForm | LongForm

definition GROUP_ROW_FIELDS :: nat where "GROUP_ROW_FIELDS = 6"
definition LONG_ROW_FIELDS :: nat where "LONG_ROW_FIELDS = 4"

definition be_nat :: "u8 list \<Rightarrow> nat" where
  "be_nat bytes = fold (\<lambda>b n. 256 * n + unat b) bytes 0"

definition array_len :: "u8 list \<Rightarrow> nat option" where
  "array_len payload =
     (case payload of
        [] \<Rightarrow> None
      | b # rest \<Rightarrow>
          (if 0x90 \<le> b \<and> b \<le> 0x9f then Some (unat (and b 0x0f))
           else if b = 0xdc then (if 2 \<le> length rest then Some (be_nat (take 2 rest)) else None)
           else if b = 0xdd then (if 4 \<le> length rest then Some (be_nat (take 4 rest)) else None)
           else None))"

definition row_form :: "u8 list \<Rightarrow> row_form option" where
  "row_form payload =
     (case array_len payload of
        None \<Rightarrow> None
      | Some n \<Rightarrow> (if n = GROUP_ROW_FIELDS then Some GroupForm
                  else if n = LONG_ROW_FIELDS then Some LongForm else None))"

section \<open>The decoder\<close>

datatype 'h streamed_group =
    Wide "'h group_snapshot"
  | LongRow string wal_long_row
  | Occupants string "occupant list"

record stream_decoder =
  sd_schemas :: "(string, hash128 \<times> group_schema) fmap"
  sd_unresolved :: u64

definition sd_new :: stream_decoder where
  "sd_new = \<lparr>sd_schemas = fmempty, sd_unresolved = 0\<rparr>"

definition rebuild_cell :: "'h hist_value \<Rightarrow> hist_cell option \<Rightarrow> 'h option option" where
  "rebuild_cell hv c = (case c of None \<Rightarrow> Some None
     | Some (gp, mvp, buckets) \<Rightarrow> map_option Some (hv_from_buckets hv gp mvp buckets))"

text \<open>The text of the crate's error, which ends the message, is left out.\<close>

definition rebuild :: "'h hist_value \<Rightarrow> string \<Rightarrow> string \<Rightarrow> hist_cell option list \<Rightarrow> string + 'h option list" where
  "rebuild hv stream kind slots =
     (case those (map (rebuild_cell hv) slots) of
        None \<Rightarrow> Inl (''stream '' @ stream @ '': '' @ kind) | Some hs \<Rightarrow> Inr hs)"

definition on_stream :: "string \<Rightarrow> string + 'a \<Rightarrow> string + 'a" where
  "on_stream stream r = (case r of Inl e \<Rightarrow> Inl (''stream '' @ stream @ '': '' @ e) | Inr x \<Rightarrow> Inr x)"

definition sd_group :: "'h hist_value \<Rightarrow> string \<Rightarrow> wal_group_row \<Rightarrow> stream_decoder \<Rightarrow>
    (string + 'h streamed_group option) \<times> stream_decoder" where
  "sd_group hv stream decoded d =
     (let arrived = wg_schema decoded;
          d = (case arrived of None \<Rightarrow> d
               | Some schema \<Rightarrow> d\<lparr>sd_schemas := fmupd stream (wg_schema_hash decoded, schema) (sd_schemas d)\<rparr>)
      in if map_option fst (fmlookup (sd_schemas d) stream) \<noteq> Some (wg_schema_hash decoded)
         then (Inr None, d\<lparr>sd_unresolved := sd_unresolved d + 1\<rparr>)
         else
           (case rebuild hv stream ''histogram'' (wg_histograms decoded) of
              Inl e \<Rightarrow> (Inl e, d)
            | Inr hs \<Rightarrow>
                (case rebuild hv stream ''gauge histogram'' (wg_gauge_histograms decoded) of
                   Inl e \<Rightarrow> (Inl e, d)
                 | Inr ghs \<Rightarrow>
                     (Inr (Some (Wide \<lparr>gr_name = stream, gr_schema_hash = wg_schema_hash decoded,
                        gr_schema = arrived, gr_window = map_option pair_window (wg_window decoded),
                        gr_counters = wg_counters decoded, gr_gauges = wg_gauges decoded,
                        gr_histograms = hs, gr_gauge_histograms = ghs\<rparr>)), d))))"

definition sd_row :: "rmp \<Rightarrow> 'h hist_value \<Rightarrow> dendro_row \<Rightarrow> stream_decoder \<Rightarrow>
    (string + 'h streamed_group option) \<times> stream_decoder" where
  "sd_row rm hv row d =
     (let stream = dr_stream row in
      case table_of stream of
        Some table \<Rightarrow>
          (map_sum id (\<lambda>os. Some (Occupants table os)) (on_stream stream (decode_wal_row rm (dr_row row))), d)
      | None \<Rightarrow>
          (if row_form (dr_row row) = Some LongForm
           then (map_sum id (\<lambda>r. Some (LongRow stream r)) (on_stream stream (decode_wal_long_row rm (dr_row row))), d)
           else
             (case on_stream stream (decode_wal_group_row rm (dr_row row)) of
                Inl e \<Rightarrow> (Inl e, d)
              | Inr decoded \<Rightarrow> sd_group hv stream decoded d)))"

fun sd_decode :: "rmp \<Rightarrow> 'h hist_value \<Rightarrow> dendro_row list \<Rightarrow> stream_decoder \<Rightarrow>
    (string + 'h streamed_group list) \<times> stream_decoder" where
  "sd_decode rm hv [] d = (Inr [], d)"
| "sd_decode rm hv (row # rows) d =
     (case sd_row rm hv row d of
        (Inl e, d) \<Rightarrow> (Inl e, d)
      | (Inr out, d) \<Rightarrow>
          (let (r, d) = sd_decode rm hv rows d
           in (map_sum id (\<lambda>gs. (case out of None \<Rightarrow> gs | Some g \<Rightarrow> g # gs)) r, d)))"

section \<open>The reader\<close>

record reader =
  rr_wide :: "(string, hash128 \<times> group_schema) fmap"
  rr_long :: "(string, hash128 \<times> group_schema) fmap"
  rr_labels :: "(string, (u64, smap) fmap) fmap"

definition rr_new :: reader where
  "rr_new = \<lparr>rr_wide = fmempty, rr_long = fmempty, rr_labels = fmempty\<rparr>"

definition learn :: "string \<Rightarrow> hash128 \<Rightarrow> group_schema option \<Rightarrow> (string, hash128 \<times> group_schema) fmap \<Rightarrow>
    (string, hash128 \<times> group_schema) fmap" where
  "learn name hash schema m = (case schema of None \<Rightarrow> m | Some s \<Rightarrow> fmupd name (hash, s) m)"

definition known :: "string \<Rightarrow> hash128 \<Rightarrow> (string, hash128 \<times> group_schema) fmap \<Rightarrow> group_schema option" where
  "known name hash m = (case fmlookup m name of Some (h, s) \<Rightarrow> if h = hash then Some s else None | None \<Rightarrow> None)"

definition labels_of :: "reader \<Rightarrow> string \<Rightarrow> (u64, smap) fmap" where
  "labels_of r table = (case fmlookup (rr_labels r) table of None \<Rightarrow> fmempty | Some m \<Rightarrow> m)"

definition read_member :: "'h hist_value \<Rightarrow> (u64, smap) fmap \<Rightarrow> long_occupant \<Rightarrow> 'h long_member option" where
  "read_member hv labels o' =
     (case (fmlookup labels (lo_occupant o'), those (map (rebuild_cell hv) (lo_histograms o'))) of
        (Some l, Some hs) \<Rightarrow>
          Some \<lparr>lm_key = lo_occupant o', lm_labels = l, lm_counters = lo_counters o',
                lm_gauges = lo_gauges o', lm_histograms = hs\<rparr>
      | _ \<Rightarrow> None)"

fun read_group :: "'h hist_value \<Rightarrow> 'h streamed_group \<Rightarrow> reader \<Rightarrow> ('h stream_group list \<times> reader) option" where
  "read_group hv (Wide g) r =
     (let m = learn (gr_name g) (gr_schema_hash g) (gr_schema g) (rr_wide r)
      in map_option (\<lambda>s. ([SWide (g\<lparr>gr_schema := Some s\<rparr>)], r\<lparr>rr_wide := m\<rparr>)) (known (gr_name g) (gr_schema_hash g) m))"
| "read_group hv (Occupants table os) r =
     Some ([], r\<lparr>rr_labels := fmupd table (fold (\<lambda>o' m. fmupd (oc_occupant o') (oc_labels o') m) os (labels_of r table))
                 (rr_labels r)\<rparr>)"
| "read_group hv (LongRow name row) r =
     (let m = learn name (wlr_schema_hash row) (wlr_schema row) (rr_long r);
          labels = labels_of r name
      in case (known name (wlr_schema_hash row) m, those (map (read_member hv labels) (wlr_occupants row))) of
           (Some s, Some members) \<Rightarrow>
             Some ([SLong \<lparr>lg_name = name, lg_window = map_option pair_window (wlr_window row),
                           lg_columns_hash = wlr_schema_hash row, lg_columns = s, lg_occupants = members\<rparr>],
                   r\<lparr>rr_long := m,
                     rr_labels := fmupd name (fmfilter (\<lambda>k. k \<in> set (map lo_occupant (wlr_occupants row))) labels)
                       (rr_labels r)\<rparr>)
         | _ \<Rightarrow> None)"

fun read_all :: "'h hist_value \<Rightarrow> 'h streamed_group list \<Rightarrow> reader \<Rightarrow> ('h stream_group list \<times> reader) option" where
  "read_all hv [] r = Some ([], r)"
| "read_all hv (g # gs) r =
     (case read_group hv g r of
        None \<Rightarrow> None
      | Some (out, r) \<Rightarrow> map_option (\<lambda>(outs, r). (out @ outs, r)) (read_all hv gs r))"

section \<open>One connection\<close>

record connection =
  cn_cache :: schema_cache
  cn_producer :: frame_producer
  cn_decoder :: stream_decoder
  cn_reader :: reader

text \<open>A pass: its groups, its stamp and the interval's number.\<close>

type_synonym 'h pass = "'h stream_group list \<times> i64 \<times> i64 \<times> u64"

definition carry_pass :: "rmp \<Rightarrow> 'h hist_value \<Rightarrow> index_state \<Rightarrow> 'h pass \<Rightarrow> connection \<Rightarrow>
    ('h stream_group list \<times> connection) option" where
  "carry_pass rm hv no_index = (\<lambda>(gs, ts, wall, seq) cn.
     (case encode_all (es_encode rm hv) gs (cn_cache cn) of
        (Inl _, _) \<Rightarrow> None
      | (Inr es, c) \<Rightarrow>
          (case fp_interval rm encoded_stream_group_row no_index es ts wall seq (cn_producer cn) of
             (FRows f, p) \<Rightarrow>
               (case sd_decode rm hv (rf_rows f) (cn_decoder cn) of
                  (Inl _, _) \<Rightarrow> None
                | (Inr sgs, d) \<Rightarrow>
                    map_option (\<lambda>(out, r). (out, \<lparr>cn_cache = c, cn_producer = p, cn_decoder = d, cn_reader = r\<rparr>))
                      (read_all hv sgs (cn_reader cn)))
           | _ \<Rightarrow> None)))"

fun carry :: "rmp \<Rightarrow> 'h hist_value \<Rightarrow> index_state \<Rightarrow> 'h pass list \<Rightarrow> connection \<Rightarrow>
    ('h stream_group list list \<times> connection) option" where
  "carry rm hv no_index [] cn = Some ([], cn)"
| "carry rm hv no_index (p # ps) cn =
     (case carry_pass rm hv no_index p cn of
        None \<Rightarrow> None
      | Some (out, cn) \<Rightarrow> map_option (\<lambda>(outs, cn). (out # outs, cn)) (carry rm hv no_index ps cn))"

definition connect :: "frame_producer \<Rightarrow> schema_cache \<Rightarrow> connection" where
  "connect p c = \<lparr>cn_cache = c, cn_producer = p, cn_decoder = sd_new, cn_reader = rr_new\<rparr>"

end
