(* ===== verification/Recorder.thy ===== *)
theory Recorder
  imports LongLayout StreamDecode
begin

text \<open>
  Recording a source (\<open>SourceRecorder\<close> of \<open>metriken-storage/src/writer.rs\<close>): which rows a pass becomes, what
  they carry of schemas and labels, and what is forgotten when segments are sealed. Of \<open>SourceWriter\<close>, dendro's,
  only the calls made are kept; \<open>SegmentAccount\<close>, dendro's too, is the type \<open>'a\<close> with the record \<open>accounts\<close>
  of its methods. Warnings, and the bits that limit them, are left out.
\<close>

section \<open>State\<close>

datatype layout = LWide group_schema | LLong long_layout

fun ly_arity :: "layout \<Rightarrow> nat \<times> nat \<times> nat" where
  "ly_arity (LWide s) = (length (gs_counters s), length (gs_gauges s), length (gs_histograms s))"
| "ly_arity (LLong l) = ll_arity l"

record wire_columns =
  wr_columns :: "kind \<Rightarrow> nat list"
  wr_shared :: smap

record group_state =
  st_last_key :: "u64 option"
  st_long :: "bool option"
  st_layouts :: "(hash128 \<times> layout) list"
  st_anchored :: "hash128 option"
  st_columns :: long_columns
  st_occupants :: "(identity, u64) fmap"
  st_seen :: "(u64, smap) fmap"
  st_last_restated :: "u64 option"
  st_wire :: "(hash128 \<times> wire_columns) option"
  st_keys :: "(u64, u64 \<times> smap) fmap"
  st_announced :: "(u64, smap) fmap"
  st_described :: "u64 fset"

definition group_state_default :: group_state where
  "group_state_default = \<lparr>st_last_key = None, st_long = None, st_layouts = [], st_anchored = None,
     st_columns = lc_default, st_occupants = fmempty, st_seen = fmempty, st_last_restated = None,
     st_wire = None, st_keys = fmempty, st_announced = fmempty, st_described = {||}\<rparr>"

record sampler_state =
  sm_last_key :: "u64 option"
  sm_described :: "string fset"

definition sampler_state_default :: sampler_state where
  "sampler_state_default = \<lparr>sm_last_key = None, sm_described = {||}\<rparr>"

record 'a accounts =
  ac_open_first :: "string \<Rightarrow> 'a"
  ac_add_row :: "nat \<Rightarrow> i64 \<Rightarrow> 'a \<Rightarrow> 'a"
  ac_is_due :: "'a \<Rightarrow> bool"
  ac_rotate :: "'a \<Rightarrow> 'a"

record writer_config =
  cf_restate_every_ns :: u64
  cf_long_groups :: bool

definition writer_config_default :: writer_config where
  "writer_config_default = \<lparr>cf_restate_every_ns = 300000000000, cf_long_groups = True\<rparr>"

record 'a source_recorder =
  rc_groups :: "(string, group_state) fmap"
  rc_samplers :: "(string, sampler_state) fmap"
  rc_accounts :: "(string, 'a) fmap"
  rc_opened :: "(string, i64) fmap"
  rc_long :: "string fset"

text \<open>What the recorder is given: the encodings, the histograms, the accounts and the configuration.\<close>

record ('a, 'h) recording =
  re_rm :: rmp
  re_cells :: "wal_cell list \<Rightarrow> string + u8 list"
  re_hist :: "'h hist_value"
  re_schema :: "group_schema \<Rightarrow> u8 list"
  re_accounts :: "'a accounts"
  re_config :: writer_config

section \<open>Accounts and segments\<close>

definition account :: "('a, 'h) recording \<Rightarrow> string \<Rightarrow> 'a source_recorder \<Rightarrow> 'a" where
  "account re stream rc =
     (case fmlookup (rc_accounts rc) stream of Some a \<Rightarrow> a | None \<Rightarrow> ac_open_first (re_accounts re) stream)"

definition add_row :: "('a, 'h) recording \<Rightarrow> string \<Rightarrow> nat \<Rightarrow> u64 \<Rightarrow> 'a source_recorder \<Rightarrow> 'a source_recorder" where
  "add_row re stream bytes ts rc =
     rc\<lparr>rc_accounts := fmupd stream (ac_add_row (re_accounts re) bytes ts (account re stream rc)) (rc_accounts rc),
        rc_opened := (if stream |\<in>| fmdom (rc_opened rc) then rc_opened rc else fmupd stream ts (rc_opened rc))\<rparr>"

definition set_group :: "string \<Rightarrow> group_state \<Rightarrow> 'a source_recorder \<Rightarrow> 'a source_recorder" where
  "set_group name s rc = rc\<lparr>rc_groups := fmupd name s (rc_groups rc)\<rparr>"

definition get_group :: "string \<Rightarrow> 'a source_recorder \<Rightarrow> group_state" where
  "get_group name rc = (case fmlookup (rc_groups rc) name of Some s \<Rightarrow> s | None \<Rightarrow> group_state_default)"

definition seal_stream :: "string \<Rightarrow> 'a source_recorder \<Rightarrow> 'a source_recorder" where
  "seal_stream stream rc =
     rc\<lparr>rc_groups := (case fmlookup (rc_groups rc) stream of None \<Rightarrow> rc_groups rc
          | Some s \<Rightarrow> fmupd stream (s\<lparr>st_anchored := None\<rparr>) (rc_groups rc)),
        rc_samplers := (case fmlookup (rc_samplers rc) stream of None \<Rightarrow> rc_samplers rc
          | Some s \<Rightarrow> fmupd stream (s\<lparr>sm_described := {||}\<rparr>) (rc_samplers rc)),
        rc_opened := fmdrop stream (rc_opened rc)\<rparr>"

definition sealing :: "string list \<Rightarrow> 'a source_recorder \<Rightarrow> 'a source_recorder" where
  "sealing batch rc = fold seal_stream batch rc"

section \<open>Layouts\<close>

definition SCHEMA_RING_LEN :: nat where "SCHEMA_RING_LEN = 3"

definition st_layout :: "('a, 'h) recording \<Rightarrow> 'h group_snapshot \<Rightarrow> group_state \<Rightarrow> layout option \<times> group_state" where
  "st_layout re g s =
     (case find (\<lambda>(h, _). h = gr_schema_hash g) (st_layouts s) of
        Some (_, l) \<Rightarrow> (Some l, s)
      | None \<Rightarrow>
          (case gr_schema g of
             None \<Rightarrow> (None, s)
           | Some schema \<Rightarrow>
               (let long = (case st_long s of Some b \<Rightarrow> b | None \<Rightarrow>
                      cf_long_groups (re_config re) \<and> slotted schema \<and> gs_gauge_histograms schema = []);
                    (l, cols) = (if long then (let (ll, cols) = ll_of (re_schema re) schema (st_columns s) in (LLong ll, cols))
                      else (LWide schema, st_columns s));
                    kept = (if length (st_layouts s) = SCHEMA_RING_LEN then butlast (st_layouts s) else st_layouts s)
                in (Some l, s\<lparr>st_long := Some long, st_columns := cols, st_layouts := (gr_schema_hash g, l) # kept\<rparr>))))"

text \<open>A number for an identity: the one it has, or the next.\<close>

definition number_of :: "identity \<Rightarrow> group_state \<Rightarrow> u64 \<times> group_state" where
  "number_of i s =
     (let next = of_nat (size (fmdom (st_occupants s)))
      in case fmlookup (st_occupants s) i of
          Some n \<Rightarrow> (n, s)
        | None \<Rightarrow> (next, s\<lparr>st_occupants := fmupd i next (st_occupants s)\<rparr>))"

text \<open>An occupant's labels, kept until the next restatement, and described if they never were.\<close>

definition note_seen :: "u64 \<Rightarrow> smap \<Rightarrow> group_state \<Rightarrow> group_state" where
  "note_seen n labels s =
     s\<lparr>st_seen := (if n |\<in>| fmdom (st_seen s) then st_seen s else fmupd n labels (st_seen s))\<rparr>"

definition describe :: "u64 \<Rightarrow> smap \<Rightarrow> group_state \<Rightarrow> occupant list \<times> group_state" where
  "describe n labels s =
     (if n |\<in>| st_described s then ([], s)
      else ([\<lparr>oc_occupant = n, oc_labels = labels\<rparr>], s\<lparr>st_described := finsert n (st_described s)\<rparr>))"

section \<open>Rows of a long group\<close>

definition fill :: "(nat \<times> nat) list \<Rightarrow> 'v option list \<Rightarrow> nat \<Rightarrow> 'v option list" where
  "fill pairs values width = fold (\<lambda>(m, c) vs. vs[c := values ! m]) pairs (replicate width None)"

definition has_values :: "'h group_snapshot \<Rightarrow> slot \<Rightarrow> bool" where
  "has_values g sl \<longleftrightarrow> (\<exists>(m, _) \<in> set (sl_pairs sl KCounter). gr_counters g ! m \<noteq> None) \<or>
     (\<exists>(m, _) \<in> set (sl_pairs sl KGauge). gr_gauges g ! m \<noteq> None) \<or>
     (\<exists>(m, _) \<in> set (sl_pairs sl KHistogram). gr_histograms g ! m \<noteq> None)"

definition occupant_row :: "'h hist_value \<Rightarrow> 'h group_snapshot \<Rightarrow> group_schema \<Rightarrow> u64 \<Rightarrow> slot \<Rightarrow> long_occupant" where
  "occupant_row hv g columns n sl =
     \<lparr>lo_occupant = n, lo_counters = fill (sl_pairs sl KCounter) (gr_counters g) (length (gs_counters columns)),
      lo_gauges = fill (sl_pairs sl KGauge) (gr_gauges g) (length (gs_gauges columns)),
      lo_histograms = fill (sl_pairs sl KHistogram) (cells hv (gr_histograms g)) (length (gs_histograms columns)),
      lo_gauge_histograms = []\<rparr>"

definition slot_number :: "slot \<Rightarrow> group_state \<Rightarrow> u64 \<times> slot \<times> occupant list \<times> group_state" where
  "slot_number sl s =
     (case sl_number sl of
        Some n \<Rightarrow> (n, sl, [], s)
      | None \<Rightarrow> (let (n, s) = number_of (sl_identity sl) s; (new, s) = describe n (sl_labels sl) s
                 in (n, sl\<lparr>sl_number := Some n\<rparr>, new, s)))"

text \<open>The slots of a pass, in their order: their rows, the occupants described, and the slots with their numbers.\<close>

fun stage_slots :: "'h hist_value \<Rightarrow> 'h group_snapshot \<Rightarrow> slot list \<Rightarrow> group_state \<Rightarrow>
    long_occupant list \<times> occupant list \<times> slot list \<times> group_state" where
  "stage_slots hv g [] s = ([], [], [], s)"
| "stage_slots hv g (sl # slots) s =
     (if \<not> has_values g sl
      then (let (present, new, slots, s) = stage_slots hv g slots s in (present, new, sl # slots, s))
      else (let (n, sl', new, s) = slot_number sl s;
                s = note_seen n (sl_labels sl) s;
                row = occupant_row hv g (lc_schema (st_columns s)) n sl;
                (present, news, slots, s) = stage_slots hv g slots s
            in (row # present, new @ news, sl' # slots, s)))"

definition restate :: "('a, 'h) recording \<Rightarrow> u64 \<Rightarrow> occupant list \<Rightarrow> group_state \<Rightarrow> occupant list \<times> group_state" where
  "restate re ts first_seen s =
     (let (due, s) = (case st_last_restated s of
            None \<Rightarrow> (False, s\<lparr>st_last_restated := Some ts\<rparr>)
          | Some t \<Rightarrow> (saturating_sub ts t \<ge> cf_restate_every_ns (re_config re), s))
      in if due
         then (first_seen @ map (\<lambda>(n, labels). \<lparr>oc_occupant = n, oc_labels = labels\<rparr>)
                 (filter (\<lambda>(n, _). n \<notin> oc_occupant ` set first_seen) (map_entries (st_seen s))),
               s\<lparr>st_last_restated := Some ts, st_seen := fmempty\<rparr>)
         else (first_seen, s))"

definition long_group_row :: "(u64 \<times> u64) option \<Rightarrow> long_occupant list \<Rightarrow> group_state \<Rightarrow> wal_long_row" where
  "long_group_row window present s =
     \<lparr>wlr_schema_hash = lc_hash (st_columns s),
      wlr_schema = (if st_anchored s \<noteq> Some (lc_hash (st_columns s)) then Some (lc_schema (st_columns s)) else None),
      wlr_window = window, wlr_occupants = present\<rparr>"

definition write_long :: "('a, 'h) recording \<Rightarrow> string \<Rightarrow> (u64 \<times> u64) option \<Rightarrow> long_occupant list \<Rightarrow> occupant list \<Rightarrow>
    u64 \<Rightarrow> i64 \<Rightarrow> 'a source_recorder \<Rightarrow> (string + dendro_row list) \<times> 'a source_recorder" where
  "write_long re name window present first_seen ts wall rc =
     (let rc = rc\<lparr>rc_long := finsert name (rc_long rc)\<rparr>; s = get_group name rc
      in if present = [] then (Inr [], rc)
         else
           (let row = long_group_row window present s;
                s = s\<lparr>st_anchored := Some (lc_hash (st_columns s))\<rparr>
            in case encode_wal_long_row (re_rm re) row of
                 Inl e \<Rightarrow> (Inl e, set_group name s rc)
               | Inr bytes \<Rightarrow>
                   (let (labels, s) = restate re ts first_seen s;
                        rc = set_group name s rc;
                        stream = stream_of name;
                        (described, rc) = (if labels = [] then ([], rc)
                          else ([\<lparr>dr_stream = stream, dr_ts = ts, dr_wall_offset = wall, dr_row = encode_wal_row (re_rm re) labels\<rparr>],
                                add_row re stream (length labels * 64) ts rc))
                    in (Inr (\<lparr>dr_stream = name, dr_ts = ts, dr_wall_offset = wall, dr_row = bytes\<rparr> # described),
                        add_row re name (wal_long_row_approx_bytes row) ts rc))))"

section \<open>Staging a group\<close>

definition no_members :: "'h group_snapshot \<Rightarrow> bool" where
  "no_members g \<longleftrightarrow> gr_counters g = [] \<and> gr_gauges g = [] \<and> gr_histograms g = [] \<and> gr_gauge_histograms g = []"

definition group_key :: "'h group_snapshot \<Rightarrow> u64 \<Rightarrow> u64" where
  "group_key g ts = (case gr_window g of Some w \<Rightarrow> end_ns w | None \<Rightarrow> ts)"

definition fits_layout :: "'h group_snapshot \<Rightarrow> layout \<Rightarrow> bool" where
  "fits_layout g l \<longleftrightarrow> ly_arity l = (length (gr_counters g), length (gr_gauges g), length (gr_histograms g)) \<and>
     (case l of LWide s \<Rightarrow> length (gs_gauge_histograms s) = length (gr_gauge_histograms g) | LLong _ \<Rightarrow> True)"

definition stage_wide :: "('a, 'h) recording \<Rightarrow> 'h group_snapshot \<Rightarrow> group_schema \<Rightarrow> u64 \<Rightarrow> i64 \<Rightarrow> group_state \<Rightarrow>
    'a source_recorder \<Rightarrow> (string + dendro_row list) \<times> 'a source_recorder" where
  "stage_wide re g schema ts wall s rc =
     (let anchor = st_anchored s \<noteq> Some (gr_schema_hash g);
          rc = set_group (gr_name g) (s\<lparr>st_anchored := Some (gr_schema_hash g)\<rparr>) rc
      in case encode_wal_group_row (re_rm re) (to_wal_group_row (re_hist re) g (if anchor then Some schema else None)) of
          Inl e \<Rightarrow> (Inl e, rc)
        | Inr bytes \<Rightarrow> (Inr [\<lparr>dr_stream = gr_name g, dr_ts = ts, dr_wall_offset = wall, dr_row = bytes\<rparr>],
              add_row re (gr_name g) (group_approx_bytes (re_hist re) g) ts rc))"

definition stage_long :: "('a, 'h) recording \<Rightarrow> 'h group_snapshot \<Rightarrow> long_layout \<Rightarrow> u64 \<Rightarrow> i64 \<Rightarrow> group_state \<Rightarrow>
    'a source_recorder \<Rightarrow> (string + dendro_row list) \<times> 'a source_recorder" where
  "stage_long re g l ts wall s rc =
     (let (present, first_seen, slots, s) = stage_slots (re_hist re) g (ll_slots l) s;
          numbered = LLong (l\<lparr>ll_slots := slots\<rparr>);
          s = s\<lparr>st_layouts := map (\<lambda>(h, x). if h = gr_schema_hash g then (h, numbered) else (h, x)) (st_layouts s)\<rparr>
      in write_long re (gr_name g) (map_option window_pair (gr_window g)) present first_seen ts wall
           (set_group (gr_name g) s rc))"

definition stage_group :: "('a, 'h) recording \<Rightarrow> 'h group_snapshot \<Rightarrow> u64 \<Rightarrow> i64 \<Rightarrow> 'a source_recorder \<Rightarrow>
    (string + dendro_row list) \<times> 'a source_recorder" where
  "stage_group re g ts wall rc =
     (case validate (re_schema re) g of
        Inl _ \<Rightarrow> (Inr [], rc)
      | Inr _ \<Rightarrow>
          (let s = get_group (gr_name g) rc; key = group_key g ts
           in if no_members g then (Inr [], set_group (gr_name g) (s\<lparr>st_last_key := Some key\<rparr>) rc)
              else
                (let (layout, s) = st_layout re g s
                 in if st_last_key s = Some key then (Inr [], set_group (gr_name g) s rc)
                    else case layout of
                        None \<Rightarrow> (Inr [], set_group (gr_name g) s rc)
                      | Some l \<Rightarrow>
                          (if \<not> fits_layout g l then (Inr [], set_group (gr_name g) s rc)
                           else (let s = s\<lparr>st_last_key := Some key\<rparr>
                                 in case l of
                                      LWide schema \<Rightarrow> stage_wide re g schema ts wall s rc
                                    | LLong ll \<Rightarrow> stage_long re g ll ts wall s rc)))))"

text \<open>A version-3 snapshot: the first group of each name.\<close>

fun stage_groups :: "('a, 'h) recording \<Rightarrow> 'h group_snapshot list \<Rightarrow> string fset \<Rightarrow> u64 \<Rightarrow> i64 \<Rightarrow> 'a source_recorder \<Rightarrow>
    (string + dendro_row list) \<times> 'a source_recorder" where
  "stage_groups re [] finished ts wall rc = (Inr [], rc)"
| "stage_groups re (g # gs) finished ts wall rc =
     (if gr_name g |\<in>| finished then stage_groups re gs finished ts wall rc
      else case stage_group re g ts wall rc of
          (Inl e, rc) \<Rightarrow> (Inl e, rc)
        | (Inr rows, rc) \<Rightarrow>
            (let (r, rc) = stage_groups re gs (finsert (gr_name g) finished) ts wall rc in (map_sum id ((@) rows) r, rc)))"

section \<open>A pass off a stream\<close>

definition shared_keys :: "group_schema \<Rightarrow> smap" where
  "shared_keys schema =
     (case gs_counters schema @ gs_gauges schema @ gs_histograms schema of
        [] \<Rightarrow> fmempty
      | first # rest \<Rightarrow>
          fold (\<lambda>d shared. fmfilter (\<lambda>k. fmlookup (md_metadata d) k = fmlookup shared k) shared) rest
            (fmfilter (\<lambda>k. k \<notin> set STORAGE_KEYS) (md_metadata first)))"

text \<open>The columns of a row's schema of one kind, without what they share.\<close>

fun map_columns :: "kind \<Rightarrow> smap \<Rightarrow> metric_desc list \<Rightarrow> long_columns \<Rightarrow> nat list \<times> bool \<times> long_columns" where
  "map_columns kind shared [] cols = ([], False, cols)"
| "map_columns kind shared (d # ds) cols =
     (let ((c, added), cols) = wire_column kind (d\<lparr>md_metadata := fmfilter (\<lambda>k. k |\<notin>| fmdom shared) (md_metadata d)\<rparr>) cols;
          (cs, more, cols) = map_columns kind shared ds cols
      in (c # cs, added \<or> more, cols))"

definition take_columns :: "('a, 'h) recording \<Rightarrow> hash128 \<Rightarrow> group_schema \<Rightarrow> group_state \<Rightarrow> group_state" where
  "take_columns re hash schema s =
     (let shared = shared_keys schema;
          (cs, a, cols) = map_columns KCounter shared (gs_counters schema) (st_columns s);
          (gs, b, cols) = map_columns KGauge shared (gs_gauges schema) cols;
          (hs, c, cols) = map_columns KHistogram shared (gs_histograms schema) cols;
          cols = (if a \<or> b \<or> c then cols\<lparr>lc_hash := schema_hash (re_schema re) (lc_schema cols)\<rparr> else cols)
      in s\<lparr>st_columns := cols, st_wire := Some (hash,
             \<lparr>wr_columns = (\<lambda>k. case k of KCounter \<Rightarrow> cs | KGauge \<Rightarrow> gs | KHistogram \<Rightarrow> hs), wr_shared = shared\<rparr>)\<rparr>)"

definition add_missing :: "smap \<Rightarrow> smap \<Rightarrow> smap" where
  "add_missing shared labels = shared ++\<^sub>f labels"

text \<open>An occupant's number and labels: those its key has, or those announced for it.\<close>

definition resolve_key :: "smap \<Rightarrow> u64 \<Rightarrow> group_state \<Rightarrow> (u64 \<times> smap) option \<times> group_state" where
  "resolve_key shared key s =
     (case fmlookup (st_keys s) key of
        Some found \<Rightarrow> (Some found, s)
      | None \<Rightarrow>
          (case fmlookup (st_announced s) key of
             None \<Rightarrow> (None, s)
           | Some labels \<Rightarrow>
               (let labels = add_missing shared labels;
                    (n, s) = number_of (occupant_identity labels) (s\<lparr>st_announced := fmdrop key (st_announced s)\<rparr>)
                in (Some (n, labels), s\<lparr>st_keys := fmupd key (n, labels) (st_keys s)\<rparr>))))"

definition spread :: "nat list \<Rightarrow> 'v option list \<Rightarrow> nat \<Rightarrow> 'v option list" where
  "spread columns values width = fill (enumerate 0 columns) values width"

definition wire_occupant :: "wire_columns \<Rightarrow> group_schema \<Rightarrow> u64 \<Rightarrow> long_occupant \<Rightarrow> long_occupant" where
  "wire_occupant w columns n x =
     \<lparr>lo_occupant = n,
      lo_counters = spread (wr_columns w KCounter) (lo_counters x) (length (gs_counters columns)),
      lo_gauges = spread (wr_columns w KGauge) (lo_gauges x) (length (gs_gauges columns)),
      lo_histograms = spread (wr_columns w KHistogram) (lo_histograms x) (length (gs_histograms columns)),
      lo_gauge_histograms = []\<rparr>"

definition fits_wire :: "wire_columns \<Rightarrow> long_occupant \<Rightarrow> bool" where
  "fits_wire w x \<longleftrightarrow> length (lo_counters x) = length (wr_columns w KCounter) \<and>
     length (lo_gauges x) = length (wr_columns w KGauge) \<and> length (lo_histograms x) = length (wr_columns w KHistogram)"

fun stage_occupants :: "wire_columns \<Rightarrow> group_schema \<Rightarrow> long_occupant list \<Rightarrow> group_state \<Rightarrow>
    long_occupant list \<times> occupant list \<times> group_state" where
  "stage_occupants w columns [] s = ([], [], s)"
| "stage_occupants w columns (x # xs) s =
     (if \<not> fits_wire w x then stage_occupants w columns xs s
      else case resolve_key (wr_shared w) (lo_occupant x) s of
          (None, s) \<Rightarrow> stage_occupants w columns xs s
        | (Some (n, labels), s) \<Rightarrow>
            (let (new, s) = describe n labels s;
                 (present, news, s) = stage_occupants w columns xs (note_seen n labels s)
             in (wire_occupant w columns n x # present, new @ news, s)))"

definition retain_keys :: "u64 set \<Rightarrow> group_state \<Rightarrow> group_state" where
  "retain_keys ks s = s\<lparr>st_keys := fmfilter (\<lambda>k. k \<in> ks) (st_keys s), st_announced := fmfilter (\<lambda>k. k \<in> ks) (st_announced s)\<rparr>"

definition stage_long_row :: "('a, 'h) recording \<Rightarrow> string \<Rightarrow> wal_long_row \<Rightarrow> u64 \<Rightarrow> i64 \<Rightarrow> 'a source_recorder \<Rightarrow>
    (string + dendro_row list) \<times> 'a source_recorder" where
  "stage_long_row re name row ts wall rc =
     (let s = get_group name rc
      in if st_long s = Some False then (Inr [], set_group name s rc)
         else
           (let s = (case wlr_schema row of
                  Some schema \<Rightarrow> if map_option fst (st_wire s) \<noteq> Some (wlr_schema_hash row)
                    then take_columns re (wlr_schema_hash row) schema s else s
                | None \<Rightarrow> s);
                key = (case wlr_window row of Some (_, e) \<Rightarrow> e | None \<Rightarrow> ts)
            in if st_last_key s = Some key then (Inr [], set_group name s rc)
               else case st_wire s of
                   None \<Rightarrow> (Inr [], set_group name s rc)
                 | Some (hash, w) \<Rightarrow>
                     (if hash \<noteq> wlr_schema_hash row then (Inr [], set_group name s rc)
                      else
                        (let s = s\<lparr>st_long := Some True, st_last_key := Some key\<rparr>;
                             (present, first_seen, s) = stage_occupants w (lc_schema (st_columns s)) (wlr_occupants row) s;
                             s = retain_keys (lo_occupant ` set (wlr_occupants row)) s
                         in write_long re name (wlr_window row) present first_seen ts wall (set_group name s rc)))))"

definition announce :: "occupant list \<Rightarrow> group_state \<Rightarrow> group_state" where
  "announce os s = fold (\<lambda>x s. s\<lparr>st_keys := fmdrop (oc_occupant x) (st_keys s),
     st_announced := fmupd (oc_occupant x) (oc_labels x) (st_announced s)\<rparr>) os s"

fun stage_streamed :: "('a, 'h) recording \<Rightarrow> 'h streamed_group list \<Rightarrow> string fset \<Rightarrow> u64 \<Rightarrow> i64 \<Rightarrow> 'a source_recorder \<Rightarrow>
    (string + dendro_row list) \<times> 'a source_recorder" where
  "stage_streamed re [] finished ts wall rc = (Inr [], rc)"
| "stage_streamed re (Occupants table os # gs) finished ts wall rc =
     (let s = get_group table rc
      in stage_streamed re gs finished ts wall
           (set_group table (if st_long s = Some False then s else announce os s) rc))"
| "stage_streamed re (Wide g # gs) finished ts wall rc =
     (if gr_name g |\<in>| finished then stage_streamed re gs finished ts wall rc
      else case stage_group re g ts wall rc of
          (Inl e, rc) \<Rightarrow> (Inl e, rc)
        | (Inr rows, rc) \<Rightarrow>
            (let (r, rc) = stage_streamed re gs (finsert (gr_name g) finished) ts wall rc in (map_sum id ((@) rows) r, rc)))"
| "stage_streamed re (LongRow name row # gs) finished ts wall rc =
     (if name |\<in>| finished then stage_streamed re gs finished ts wall rc
      else case stage_long_row re name row ts wall rc of
          (Inl e, rc) \<Rightarrow> (Inl e, rc)
        | (Inr rows, rc) \<Rightarrow>
            (let (r, rc) = stage_streamed re gs (finsert name finished) ts wall rc in (map_sum id ((@) rows) r, rc)))"

section \<open>Snapshots of individual metrics\<close>

datatype 'h cell_value = CCounter u64 | CGauge i64 | CHistogram 'h | CGaugeHistogram 'h

record 'h cell_entry =
  ce_name :: string
  ce_metadata :: smap
  ce_window :: "(u64 \<times> u64) option"
  ce_value :: "'h cell_value"

definition CELL_OVERHEAD_BYTES :: nat where "CELL_OVERHEAD_BYTES = VALUE_SLOT_BYTES + WINDOW_SLOT_BYTES"

definition cells_approx_bytes :: "'h hist_value \<Rightarrow> 'h cell_entry list \<Rightarrow> nat" where
  "cells_approx_bytes hv cs = sum_list (map (\<lambda>c. case ce_value c of
       CHistogram h \<Rightarrow> CELL_OVERHEAD_BYTES + length (hv_as_slice hv h) * HISTOGRAM_BUCKET_BYTES
     | CGaugeHistogram h \<Rightarrow> CELL_OVERHEAD_BYTES + length (hv_as_slice hv h) * HISTOGRAM_BUCKET_BYTES
     | _ \<Rightarrow> CELL_OVERHEAD_BYTES) cs)"

definition wal_value_of :: "'h hist_value \<Rightarrow> 'h cell_value \<Rightarrow> wal_value" where
  "wal_value_of hv v = (case v of
       CCounter n \<Rightarrow> WCounter n
     | CGauge n \<Rightarrow> WGauge n
     | CHistogram h \<Rightarrow> WHistogram (hv_grouping_power hv h) (hv_max_value_power hv h) (hv_as_slice hv h)
     | CGaugeHistogram h \<Rightarrow> WGaugeHistogram (hv_grouping_power hv h) (hv_max_value_power hv h) (hv_as_slice hv h))"

definition sampler_of :: "smap \<Rightarrow> string" where
  "sampler_of m = (case fmlookup m ''sampler'' of Some s \<Rightarrow> s | None \<Rightarrow> ''unattributed'')"

definition entry_of_reading :: "('v \<Rightarrow> 'h cell_value) \<Rightarrow> 'v reading \<Rightarrow> 'h cell_entry" where
  "entry_of_reading f r = \<lparr>ce_name = rd_name r, ce_metadata = rd_metadata r,
     ce_window = map_option window_pair (rd_window r), ce_value = f (rd_value r)\<rparr>"

definition flat_entries :: "'h flat_snapshot \<Rightarrow> 'h cell_entry list" where
  "flat_entries f = map (entry_of_reading CCounter) (fs_counters f) @ map (entry_of_reading CGauge) (fs_gauges f) @
     map (entry_of_reading CHistogram) (fs_histograms f) @ map (entry_of_reading CGaugeHistogram) (fs_gauge_histograms f)"

text \<open>Each metric's cell, which carries its metadata the first time in a segment.\<close>

fun wal_cells :: "'h hist_value \<Rightarrow> 'h cell_entry list \<Rightarrow> string fset \<Rightarrow> wal_cell list \<times> string fset" where
  "wal_cells hv [] described = ([], described)"
| "wal_cells hv (e # es) described =
     (let cell = \<lparr>wc_name = ce_name e, wc_metadata = (if ce_name e |\<in>| described then None else Some (ce_metadata e)),
            wc_value = wal_value_of hv (ce_value e), wc_window = ce_window e\<rparr>;
          (cs, described) = wal_cells hv es (finsert (ce_name e) described)
      in (cell # cs, described))"

definition sampler_key :: "'h cell_entry list \<Rightarrow> u64 \<Rightarrow> u64" where
  "sampler_key entries ts = (case List.map_filter (\<lambda>e. map_option snd (ce_window e)) entries of
       [] \<Rightarrow> ts | k # ks \<Rightarrow> fold max ks k)"

definition stage_sampler :: "('a, 'h) recording \<Rightarrow> string \<Rightarrow> 'h cell_entry list \<Rightarrow> u64 \<Rightarrow> i64 \<Rightarrow> 'a source_recorder \<Rightarrow>
    (string + dendro_row list) \<times> 'a source_recorder" where
  "stage_sampler re sampler entries ts wall rc =
     (if CHR ''/'' \<in> set sampler then (Inr [], rc)
      else
        (let key = sampler_key entries ts;
             s = (case fmlookup (rc_samplers rc) sampler of Some s \<Rightarrow> s | None \<Rightarrow> sampler_state_default)
         in if (\<exists>prev. sm_last_key s = Some prev \<and> key \<le> prev) then (Inr [], rc\<lparr>rc_samplers := fmupd sampler s (rc_samplers rc)\<rparr>)
            else
              (let (cs, described) = wal_cells (re_hist re) entries (sm_described s);
                   rc = rc\<lparr>rc_samplers := fmupd sampler \<lparr>sm_last_key = Some key, sm_described = described\<rparr> (rc_samplers rc)\<rparr>
               in case re_cells re cs of
                   Inl e \<Rightarrow> (Inl e, rc)
                 | Inr bytes \<Rightarrow> (Inr [\<lparr>dr_stream = sampler, dr_ts = ts, dr_wall_offset = wall, dr_row = bytes\<rparr>],
                     add_row re sampler (cells_approx_bytes (re_hist re) entries) ts rc))))"

fun stage_samplers :: "('a, 'h) recording \<Rightarrow> 'h cell_entry list \<Rightarrow> string list \<Rightarrow> u64 \<Rightarrow> i64 \<Rightarrow> 'a source_recorder \<Rightarrow>
    (string + dendro_row list) \<times> 'a source_recorder" where
  "stage_samplers re entries [] ts wall rc = (Inr [], rc)"
| "stage_samplers re entries (sampler # samplers) ts wall rc =
     (case stage_sampler re sampler (filter (\<lambda>e. sampler_of (ce_metadata e) = sampler) entries) ts wall rc of
        (Inl e, rc) \<Rightarrow> (Inl e, rc)
      | (Inr rows, rc) \<Rightarrow>
          (let (r, rc) = stage_samplers re entries samplers ts wall rc in (map_sum id ((@) rows) r, rc)))"

definition stage_flat :: "('a, 'h) recording \<Rightarrow> 'h flat_snapshot \<Rightarrow> u64 \<Rightarrow> i64 \<Rightarrow> 'a source_recorder \<Rightarrow>
    (string + dendro_row list) \<times> 'a source_recorder" where
  "stage_flat re f ts wall rc =
     (let entries = flat_entries f
      in stage_samplers re entries (sorted_list_of_fset (fset_of_list (map (\<lambda>e. sampler_of (ce_metadata e)) entries))) ts wall rc)"

fun stage :: "('a, 'h) recording \<Rightarrow> 'h snapshot \<Rightarrow> u64 \<Rightarrow> i64 \<Rightarrow> 'a source_recorder \<Rightarrow>
    (string + dendro_row list) \<times> 'a source_recorder" where
  "stage re (V3 v) ts wall rc = stage_groups re (v3_groups v) {||} ts wall rc"
| "stage re (V1 f) ts wall rc = stage_flat re f ts wall rc"
| "stage re (V2 f) ts wall rc = stage_flat re f ts wall rc"

section \<open>Sealing and retention\<close>

text \<open>The calls made of the writer.\<close>

datatype writer_call = SealCapped "string list" | EvictTables i64 | EvictOccupants i64 | FinalizeAt i64 i64

definition rotate :: "('a, 'h) recording \<Rightarrow> string list \<Rightarrow> 'a source_recorder \<Rightarrow> 'a source_recorder" where
  "rotate re batch rc = rc\<lparr>rc_accounts :=
     fold (\<lambda>s m. case fmlookup m s of None \<Rightarrow> m | Some a \<Rightarrow> fmupd s (ac_rotate (re_accounts re) a) m) batch (rc_accounts rc)\<rparr>"

definition seal_batch :: "('a, 'h) recording \<Rightarrow> string list \<Rightarrow> 'a source_recorder \<Rightarrow> writer_call list \<times> 'a source_recorder" where
  "seal_batch re batch rc =
     (if batch = [] then [] else [SealCapped batch], sealing batch (rotate re batch rc))"

definition maybe_seal :: "('a, 'h) recording \<Rightarrow> 'a source_recorder \<Rightarrow> writer_call list \<times> 'a source_recorder" where
  "maybe_seal re rc =
     seal_batch re (map fst (filter (\<lambda>(_, a). ac_is_due (re_accounts re) a) (map_entries (rc_accounts rc)))) rc"

definition evict_before :: "('a, 'h) recording \<Rightarrow> u64 \<Rightarrow> 'a source_recorder \<Rightarrow> writer_call list \<times> 'a source_recorder" where
  "evict_before re cutoff rc =
     (let batch = map fst (filter (\<lambda>(s, first). sint first < sint cutoff \<and> table_of s = None) (map_entries (rc_opened rc)));
          (calls, rc) = seal_batch re batch rc
      in (calls @ [EvictTables cutoff, EvictOccupants (saturating_sub cutoff (cf_restate_every_ns (re_config re)))], rc))"

definition finalize :: "u64 \<Rightarrow> i64 \<Rightarrow> 'a source_recorder \<Rightarrow> writer_call list" where
  "finalize ts wall rc =
     (let batch = map fst (map_entries (rc_accounts rc))
      in (if batch = [] then [] else [SealCapped batch]) @ [FinalizeAt ts wall])"

end
