(* ===== verification/StreamTrip.thy ===== *)
theory StreamTrip
  imports StreamDecode
begin

text \<open>
  What a connection carries: every group a producer puts into a pass is resolved on the other end to
  itself, though its schema and its occupants' labels were sent only when they were new.
\<close>

section \<open>What is assumed of a run\<close>

fun sg_hash :: "'h stream_group \<Rightarrow> hash128" where
  "sg_hash (SWide g) = gr_schema_hash g"
| "sg_hash (SLong g) = lg_columns_hash g"

fun sg_schema :: "'h stream_group \<Rightarrow> group_schema option" where
  "sg_schema (SWide g) = gr_schema g"
| "sg_schema (SLong g) = Some (lg_columns g)"

fun sg_keyed :: "'h stream_group \<Rightarrow> keyed_labels list" where
  "sg_keyed (SWide g) = []"
| "sg_keyed (SLong g) = map (\<lambda>m. (lm_key m, lm_labels m)) (lg_occupants g)"

text \<open>
  Every group has a schema and a name that is no occupant stream's, a hash stands for one schema of a
  name, and a key for one occupant's labels.
\<close>

definition run_ok :: "'h stream_group set \<Rightarrow> bool" where
  "run_ok G \<longleftrightarrow>
     (\<forall>g \<in> G. sg_schema g \<noteq> None \<and> table_of (sg_name g) = None) \<and>
     (\<forall>g \<in> G. \<forall>g' \<in> G. sg_name g = sg_name g' \<and> sg_hash g = sg_hash g' \<longrightarrow> sg_schema g = sg_schema g') \<and>
     (\<forall>g \<in> G. \<forall>g' \<in> G. \<forall>(k, l) \<in> set (sg_keyed g). \<forall>(k', l') \<in> set (sg_keyed g').
        sg_name g = sg_name g' \<and> k = k' \<longrightarrow> l = l')"

definition hist_ok :: "'h hist_value \<Rightarrow> bool" where
  "hist_ok hv \<longleftrightarrow> (\<forall>h. canonicalize hv h = Some h)"

text \<open>A group row is an array of six or seven elements, a long row one of four.\<close>

definition arrays_ok :: "rmp \<Rightarrow> bool" where
  "arrays_ok rm \<longleftrightarrow> (\<forall>r bytes. rm_group rm r = Inr bytes \<longrightarrow> row_form bytes \<noteq> Some LongForm) \<and>
     (\<forall>r bytes. rm_long rm r = Inr bytes \<longrightarrow> row_form bytes = Some LongForm)"

text \<open>A schema is one of the run's under a name and a hash; labels are those of a key.\<close>

definition of_run :: "'h stream_group set \<Rightarrow> string \<Rightarrow> hash128 \<Rightarrow> group_schema \<Rightarrow> bool" where
  "of_run G name hash s \<longleftrightarrow> (\<forall>g \<in> G. sg_name g = name \<and> sg_hash g = hash \<longrightarrow> sg_schema g = Some s)"

definition labels_of_run :: "'h stream_group set \<Rightarrow> string \<Rightarrow> u64 \<Rightarrow> smap \<Rightarrow> bool" where
  "labels_of_run G name k l \<longleftrightarrow> (\<forall>g \<in> G. \<forall>(k', l') \<in> set (sg_keyed g). sg_name g = name \<and> k' = k \<longrightarrow> l' = l)"

definition cache_ok :: "'h stream_group set \<Rightarrow> schema_cache \<Rightarrow> bool" where
  "cache_ok G c \<longleftrightarrow> (\<forall>name h s. fmlookup c name = Some (h, s) \<longrightarrow> of_run G name h s)"

lemma run_okD:
  assumes "run_ok G" "g \<in> G"
  shows "table_of (sg_name g) = None" "\<exists>s. sg_schema g = Some s"
    "sg_schema g = Some s \<Longrightarrow> of_run G (sg_name g) (sg_hash g) s"
    "(k, l) \<in> set (sg_keyed g) \<Longrightarrow> labels_of_run G (sg_name g) k l"
proof -
  note run = assms(1) [unfolded run_ok_def]
  from run [THEN conjunct1, rule_format, OF assms(2)]
  show "table_of (sg_name g) = None" "\<exists>s. sg_schema g = Some s" by auto
  note schemas = run [THEN conjunct2, THEN conjunct1, rule_format, OF assms(2)]
  show "of_run G (sg_name g) (sg_hash g) s" if "sg_schema g = Some s"
    unfolding of_run_def using schemas that by metis
  note keys = run [THEN conjunct2, THEN conjunct2, THEN bspec, OF assms(2)]
  show "labels_of_run G (sg_name g) k l" if "(k, l) \<in> set (sg_keyed g)"
    unfolding labels_of_run_def
  proof (intro ballI, clarify)
    fix g' l' assume g': "g' \<in> G" "(k, l') \<in> set (sg_keyed g')" "sg_name g' = sg_name g"
    from keys [THEN bspec, OF g'(1)] that have
      "\<forall>(k', l') \<in> set (sg_keyed g'). sg_name g = sg_name g' \<and> k = k' \<longrightarrow> l = l'" by fast
    with g'(2,3) show "l' = l" by fastforce
  qed
qed

section \<open>Encoding a pass\<close>

fun encodes :: "rmp \<Rightarrow> 'h hist_value \<Rightarrow> 'h stream_group \<Rightarrow> encoded_stream_group \<Rightarrow> bool" where
  "encodes rm hv (SWide g) (EWide e) \<longleftrightarrow> eg_stream e = gr_name g \<and> eg_schema_hash e = gr_schema_hash g \<and>
     eg_schema e = gr_schema g \<and> encode_wal_group_row rm (to_wal_group_row hv g None) = Inr (eg_row e)"
| "encodes rm hv (SLong g) (ELong e) \<longleftrightarrow> el_stream e = lg_name g \<and> el_columns_hash e = lg_columns_hash g \<and>
     el_columns e = lg_columns g \<and> el_occupants e = sg_keyed (SLong g) \<and>
     encode_wal_long_row rm (long_row hv g) = Inr (el_row e)"
| "encodes _ _ _ _ \<longleftrightarrow> False"

lemma cached_ok:
  assumes "cache_ok G c" "cached name hash source c = (s, c')" "of_run G name hash source"
    and "g \<in> G" "sg_name g = name" "sg_hash g = hash"
  shows "s = source \<and> cache_ok G c'"
proof (cases "\<exists>s'. fmlookup c name = Some (hash, s')")
  case True
  then obtain s' where s': "fmlookup c name = Some (hash, s')" by blast
  with assms(1) have "of_run G name hash s'" unfolding cache_ok_def by blast
  with assms(3-6) have "s' = source" unfolding of_run_def by (metis option.inject)
  with s' assms(1,2) show ?thesis by (simp add: cached_def)
next
  case False
  then have "s = source" "c' = fmupd name (hash, source) c"
    using assms(2) by (auto simp: cached_def split: option.splits prod.splits if_splits)
  with assms(1,3) show ?thesis by (auto simp: cache_ok_def)
qed

lemma encode_group_row_total:
  assumes "rmp_ok rm"
  shows "\<exists>bytes. encode_wal_group_row rm r = Inr bytes"
proof -
  obtain head tail where "row_bytes rm r head tail" by (rule group_layoutD [OF assms])
  then have "\<exists>bytes. rm_group rm (r\<lparr>wg_schema := wg_schema r\<rparr>) = Inr bytes" unfolding row_bytes_def by blast
  then show ?thesis by (auto simp: encode_wal_group_row_def)
qed

lemma encode_long_row_total:
  assumes "rmp_ok rm"
  shows "\<exists>bytes. encode_wal_long_row rm r = Inr bytes \<and> rm_long rm r = Inr bytes \<and>
    decode_wal_long_row rm bytes = Inr r"
proof -
  obtain bytes where "rm_long rm r = Inr bytes" "rm_long_of rm bytes = Inr r"
    using assms unfolding rmp_ok_def by blast
  then show ?thesis by (simp add: encode_wal_long_row_def decode_wal_long_row_def)
qed

lemma es_encode_ok:
  assumes "rmp_ok rm" "run_ok G" "cache_ok G c" "g \<in> G"
  shows "\<exists>e c'. es_encode rm hv g c = (Inr e, c') \<and> encodes rm hv g e \<and> cache_ok G c'"
proof (cases g)
  case (SWide w)
  obtain source where source: "gr_schema w = Some source" using run_okD(2) [OF assms(2,4)] SWide by auto
  obtain s c' where sc: "cached (gr_name w) (gr_schema_hash w) source c = (s, c')" by (meson surj_pair)
  have run: "of_run G (gr_name w) (gr_schema_hash w) source"
    using run_okD(3) [OF assms(2,4), of source] by (simp add: SWide source)
  have "s = source \<and> cache_ok G c'"
    by (rule cached_ok [OF assms(3) sc run assms(4)]) (simp_all add: SWide)
  moreover obtain bytes where "encode_wal_group_row rm (to_wal_group_row hv w None) = Inr bytes"
    using encode_group_row_total [OF assms(1)] by blast
  ultimately show ?thesis
    by (simp add: SWide eg_encode_def sc_schema_def source sc)
next
  case (SLong w)
  obtain s c' where sc: "cached (lg_name w) (lg_columns_hash w) (lg_columns w) c = (s, c')" by (meson surj_pair)
  have run: "of_run G (lg_name w) (lg_columns_hash w) (lg_columns w)"
    using run_okD(3) [OF assms(2,4), of "lg_columns w"] by (simp add: SLong)
  have "s = lg_columns w \<and> cache_ok G c'"
    by (rule cached_ok [OF assms(3) sc run assms(4)]) (simp_all add: SLong)
  moreover obtain bytes where "encode_wal_long_row rm (long_row hv w) = Inr bytes"
    using encode_long_row_total [OF assms(1)] by blast
  ultimately show ?thesis
    by (simp add: SLong el_encode_def sc_columns_def sc)
qed

lemma encode_all_ok:
  assumes "rmp_ok rm" "run_ok G" "cache_ok G c" "set gs \<subseteq> G"
  shows "\<exists>es c'. encode_all (es_encode rm hv) gs c = (Inr es, c') \<and> list_all2 (encodes rm hv) gs es \<and> cache_ok G c'"
  using assms(3,4)
proof (induction gs arbitrary: c)
  case (Cons g gs)
  obtain e c1 where e: "es_encode rm hv g c = (Inr e, c1)" "encodes rm hv g e" "cache_ok G c1"
    using es_encode_ok [OF assms(1,2) Cons.prems(1), of g hv] Cons.prems(2) by auto
  obtain es c' where es: "encode_all (es_encode rm hv) gs c1 = (Inr es, c')" "list_all2 (encodes rm hv) gs es"
      "cache_ok G c'"
    using Cons.IH [OF e(3)] Cons.prems(2) by auto
  with e show ?case by simp
qed simp

section \<open>Carrying one row\<close>

definition conn_ok :: "'h stream_group set \<Rightarrow> frame_producer \<Rightarrow> stream_decoder \<Rightarrow> reader \<Rightarrow> bool" where
  "conn_ok G p d r \<longleftrightarrow>
     (\<forall>n h. fmlookup (fp_sent_schemas p) n = Some h \<longrightarrow>
        (if n |\<in>| fmdom (fp_sent_occupants p)
         then \<exists>s. fmlookup (rr_long r) n = Some (h, s) \<and> of_run G n h s
         else (\<exists>s. fmlookup (rr_wide r) n = Some (h, s) \<and> of_run G n h s) \<and>
              (\<exists>s. fmlookup (sd_schemas d) n = Some (h, s)))) \<and>
     (\<forall>n ks k. fmlookup (fp_sent_occupants p) n = Some ks \<and> k |\<in>| ks \<longrightarrow>
        (\<exists>l. fmlookup (labels_of r n) k = Some l \<and> labels_of_run G n k l))"

lemma conn_okI:
  assumes "\<And>n h. fmlookup (fp_sent_schemas p) n = Some h \<Longrightarrow> n |\<in>| fmdom (fp_sent_occupants p) \<Longrightarrow>
        \<exists>s. fmlookup (rr_long r) n = Some (h, s) \<and> of_run G n h s"
    and "\<And>n h. fmlookup (fp_sent_schemas p) n = Some h \<Longrightarrow> n |\<notin>| fmdom (fp_sent_occupants p) \<Longrightarrow>
        (\<exists>s. fmlookup (rr_wide r) n = Some (h, s) \<and> of_run G n h s) \<and> (\<exists>s. fmlookup (sd_schemas d) n = Some (h, s))"
    and "\<And>n ks k. fmlookup (fp_sent_occupants p) n = Some ks \<Longrightarrow> k |\<in>| ks \<Longrightarrow>
        \<exists>l. fmlookup (labels_of r n) k = Some l \<and> labels_of_run G n k l"
  shows "conn_ok G p d r"
  using assms unfolding conn_ok_def by (metis (no_types, lifting))

lemma conn_okD:
  assumes "conn_ok G p d r"
  shows "fmlookup (fp_sent_schemas p) n = Some h \<Longrightarrow> n |\<in>| fmdom (fp_sent_occupants p) \<Longrightarrow>
        \<exists>s. fmlookup (rr_long r) n = Some (h, s) \<and> of_run G n h s"
    "fmlookup (fp_sent_schemas p) n = Some h \<Longrightarrow> n |\<notin>| fmdom (fp_sent_occupants p) \<Longrightarrow>
        (\<exists>s. fmlookup (rr_wide r) n = Some (h, s) \<and> of_run G n h s) \<and> (\<exists>s. fmlookup (sd_schemas d) n = Some (h, s))"
    "fmlookup (fp_sent_occupants p) n = Some ks \<Longrightarrow> k |\<in>| ks \<Longrightarrow>
        \<exists>l. fmlookup (labels_of r n) k = Some l \<and> labels_of_run G n k l"
  using assms unfolding conn_ok_def by (metis (no_types, lifting))+

lemma window_pair_back [simp]: "map_option pair_window (map_option window_pair w) = w"
  by (cases w) (simp_all add: pair_window_def window_pair_def window_new_def)

lemma those_map: "(\<And>x. x \<in> set xs \<Longrightarrow> f x = Some (g x)) \<Longrightarrow> those (map f xs) = Some (map g xs)"
  by (induction xs) simp_all

lemma rebuild_cells:
  assumes "hist_ok hv"
  shows "those (map (rebuild_cell hv) (cells hv hs)) = Some hs"
proof -
  have "rebuild_cell hv (map_option (hist_cell hv) h) = Some h" for h
    using assms by (cases h) (simp_all add: rebuild_cell_def hist_cell_def hist_ok_def canonicalize_def)
  then show ?thesis
    using those_map [of hs "\<lambda>h. rebuild_cell hv (map_option (hist_cell hv) h)" "\<lambda>h. h"]
    by (simp add: cells_def comp_def)
qed

lemma to_wal_fields [simp]:
  "wg_schema_hash (to_wal_group_row hv w X) = gr_schema_hash w" "wg_schema (to_wal_group_row hv w X) = X"
  "wg_window (to_wal_group_row hv w X) = map_option window_pair (gr_window w)"
  "wg_counters (to_wal_group_row hv w X) = gr_counters w" "wg_gauges (to_wal_group_row hv w X) = gr_gauges w"
  "wg_histograms (to_wal_group_row hv w X) = cells hv (gr_histograms w)"
  "wg_gauge_histograms (to_wal_group_row hv w X) = cells hv (gr_gauge_histograms w)"
  by (simp_all add: to_wal_group_row_def)

lemma decode_group:
  assumes "hist_ok hv" and "fmlookup (learn (gr_name w) (gr_schema_hash w) X (sd_schemas d)) (gr_name w) = Some (gr_schema_hash w, s)"
  shows "sd_group hv (gr_name w) (to_wal_group_row hv w X) d = (Inr (Some (Wide (w\<lparr>gr_schema := X\<rparr>))),
    d\<lparr>sd_schemas := learn (gr_name w) (gr_schema_hash w) X (sd_schemas d)\<rparr>)"
proof -
  have w: "\<lparr>gr_name = gr_name w, gr_schema_hash = gr_schema_hash w, gr_schema = X, gr_window = gr_window w,
      gr_counters = gr_counters w, gr_gauges = gr_gauges w, gr_histograms = gr_histograms w,
      gr_gauge_histograms = gr_gauge_histograms w\<rparr> = w\<lparr>gr_schema := X\<rparr>"
    by simp
  show ?thesis
    using assms(2)
    by (cases X) (simp_all add: sd_group_def Let_def learn_def w [simplified] rebuild_def rebuild_cells [OF assms(1)]
      del: split_paired_All split_paired_Ex)
qed

lemma decode_wide:
  assumes "rmp_ok rm" "arrays_ok rm" "table_of stream = None"
    and "encode_wal_group_row rm r = Inr bytes" "dr_stream row = stream" "dr_row row = bytes"
  shows "sd_row rm hv row d = sd_group hv stream r d"
proof -
  have bytes: "rm_group rm r = Inr bytes"
    using assms(4) by (simp add: encode_wal_group_row_def split: sum.splits)
  then have "row_form bytes \<noteq> Some LongForm" using assms(2) unfolding arrays_ok_def by blast
  moreover have "decode_wal_group_row rm bytes = Inr r"
    using rmp_group_back [OF assms(1) bytes] by (simp add: decode_wal_group_row_def)
  ultimately show ?thesis
    by (simp add: sd_row_def assms(3,5,6) on_stream_def)
qed

lemma read_wide:
  assumes "gr_schema w = Some s" "known (gr_name w) (gr_schema_hash w) (learn (gr_name w) (gr_schema_hash w) X (rr_wide r)) = Some s"
  shows "read_group hv (Wide (w\<lparr>gr_schema := X\<rparr>)) r =
    Some ([SWide w], r\<lparr>rr_wide := learn (gr_name w) (gr_schema_hash w) X (rr_wide r)\<rparr>)"
proof -
  have "w\<lparr>gr_schema := Some s\<rparr> = w" using assms(1) by (metis group_snapshot.surjective group_snapshot.update_convs(3) group_snapshot.select_convs(3))
  then show ?thesis using assms(2) by (simp add: Let_def)
qed

lemma change_form_frame:
  "fmlookup (fp_sent_schemas (fp_change_form n long p)) m =
     (if m = n \<and> (n |\<in>| fmdom (fp_sent_occupants p)) \<noteq> long then None else fmlookup (fp_sent_schemas p) m)"
  "fmlookup (fp_sent_occupants (fp_change_form n long p)) m =
     (if m = n \<and> \<not> long then None else fmlookup (fp_sent_occupants p) m)"
  by (auto simp: fp_change_form_def Let_def)

lemma with_schema_encodes:
  assumes "rmp_ok rm" "encode_wal_group_row rm (to_wal_group_row hv w None) = Inr payload"
  shows "encode_wal_group_row rm (to_wal_group_row hv w (Some s)) = Inr (with_schema rm payload s)"
proof -
  have "(to_wal_group_row hv w None)\<lparr>wg_schema := Some s\<rparr> = to_wal_group_row hv w (Some s)"
    by (simp add: to_wal_group_row_def)
  with splice_encodes [OF assms, of s] obtain bytes where
    "encode_wal_group_row_with_schema rm payload s = Inr bytes"
    "encode_wal_group_row rm (to_wal_group_row hv w (Some s)) = Inr bytes"
    by metis
  then show ?thesis by (simp add: with_schema_def)
qed

lemma learn_lookup: "fmlookup (learn n h X m) k = (if k = n \<and> X \<noteq> None then Some (h, the X) else fmlookup m k)"
  by (cases X) (auto simp: learn_def)

lemma deliver_wide:
  assumes "rmp_ok rm" "arrays_ok rm" "hist_ok hv" "run_ok G" "SWide w \<in> G" "encodes rm hv (SWide w) (EWide e)"
    and "conn_ok G p d r"
  shows "\<exists>out p' sgs d' r'. fp_row rm encoded_stream_group_row ts wall (EWide e) p = (out, p') \<and>
    sd_decode rm hv out d = (Inr sgs, d') \<and> read_all hv sgs r = Some ([SWide w], r') \<and> conn_ok G p' d' r' \<and>
    sd_unresolved d' = sd_unresolved d"
proof -
  let ?n = "gr_name w" and ?h = "gr_schema_hash w"
  obtain s where s: "gr_schema w = Some s" using run_okD(2) [OF assms(4,5)] by auto
  have run: "of_run G ?n ?h s" using run_okD(3) [OF assms(4,5), of s] s by simp
  have table: "table_of ?n = None" using run_okD(1) [OF assms(4,5)] by simp
  have e: "eg_stream e = ?n" "eg_schema_hash e = ?h" "eg_schema e = Some s"
      "encode_wal_group_row rm (to_wal_group_row hv w None) = Inr (eg_row e)"
    using assms(6) s by simp_all
  let ?p1 = "fp_change_form ?n False p"
  define fresh where "fresh \<longleftrightarrow> fmlookup (fp_sent_schemas ?p1) ?n \<noteq> Some ?h"
  define X where "X = (if fresh then Some s else None)"
  define bytes where "bytes = (if fresh then with_schema rm (eg_row e) s else eg_row e)"
  define p' where "p' = (if fresh then ?p1\<lparr>fp_sent_schemas := fmupd ?n ?h (fp_sent_schemas ?p1)\<rparr> else ?p1)"
  let ?row = "\<lparr>dr_stream = ?n, dr_ts = ts, dr_wall_offset = wall, dr_row = bytes\<rparr>"
  have sent: "fp_row rm encoded_stream_group_row ts wall (EWide e) p = ([?row], p')"
    by (simp add: fp_row_def fp_payload_def encoded_stream_group_row_def encoded_group_row_def
      Let_def e(1-3) bytes_def p'_def fresh_def)
  have bytes: "encode_wal_group_row rm (to_wal_group_row hv w X) = Inr bytes"
    using e(4) with_schema_encodes [OF assms(1) e(4), of s] by (simp add: X_def bytes_def)
  have held: "(\<exists>s'. fmlookup (sd_schemas d) ?n = Some (?h, s')) \<and> fmlookup (rr_wide r) ?n = Some (?h, s)" if "\<not> fresh"
  proof -
    from that have "fmlookup (fp_sent_schemas p) ?n = Some ?h" "?n |\<notin>| fmdom (fp_sent_occupants p)"
      by (auto simp: fresh_def change_form_frame split: if_splits)
    then obtain s1 s2 where "fmlookup (rr_wide r) ?n = Some (?h, s1)" "of_run G ?n ?h s1"
        "fmlookup (sd_schemas d) ?n = Some (?h, s2)"
      using assms(7) unfolding conn_ok_def by meson
    moreover from this(2) have "s1 = s" using assms(5) s unfolding of_run_def by fastforce
    ultimately show ?thesis by blast
  qed
  have decoded: "sd_row rm hv ?row d = (Inr (Some (Wide (w\<lparr>gr_schema := X\<rparr>))), d\<lparr>sd_schemas := learn ?n ?h X (sd_schemas d)\<rparr>)"
  proof -
    obtain s' where "fmlookup (learn ?n ?h X (sd_schemas d)) ?n = Some (?h, s')"
      using held by (cases fresh) (auto simp: learn_lookup X_def)
    from decode_group [OF assms(3) this] decode_wide [OF assms(1,2) table bytes, of ?row hv d]
    show ?thesis by simp
  qed
  have read: "read_group hv (Wide (w\<lparr>gr_schema := X\<rparr>)) r = Some ([SWide w], r\<lparr>rr_wide := learn ?n ?h X (rr_wide r)\<rparr>)"
    using held by (intro read_wide [OF s]) (auto simp: known_def learn_lookup X_def)
  have "conn_ok G p' (d\<lparr>sd_schemas := learn ?n ?h X (sd_schemas d)\<rparr>) (r\<lparr>rr_wide := learn ?n ?h X (rr_wide r)\<rparr>)"
  proof (rule conn_okI)
    fix m h assume m: "fmlookup (fp_sent_schemas p') m = Some h"
    show "m |\<in>| fmdom (fp_sent_occupants p') \<Longrightarrow>
        \<exists>s. fmlookup (rr_long (r\<lparr>rr_wide := learn ?n ?h X (rr_wide r)\<rparr>)) m = Some (h, s) \<and> of_run G m h s"
      using m conn_okD(1) [OF assms(7), of m h]
      by (cases "m = ?n") (auto simp: p'_def change_form_frame fmlookup_dom_iff split: if_splits)
    assume wide: "m |\<notin>| fmdom (fp_sent_occupants p')"
    show "(\<exists>s. fmlookup (rr_wide (r\<lparr>rr_wide := learn ?n ?h X (rr_wide r)\<rparr>)) m = Some (h, s) \<and> of_run G m h s) \<and>
        (\<exists>s. fmlookup (sd_schemas (d\<lparr>sd_schemas := learn ?n ?h X (sd_schemas d)\<rparr>)) m = Some (h, s))"
    proof (cases "m = ?n")
      case True
      with m have "h = ?h" by (auto simp: p'_def fresh_def split: if_splits)
      with True held run show ?thesis by (cases fresh) (auto simp: learn_lookup X_def)
    next
      case False
      with m wide conn_okD(2) [OF assms(7), of m h] show ?thesis
        by (auto simp: p'_def change_form_frame learn_lookup fmlookup_dom_iff split: if_splits)
    qed
  next
    fix m ks k assume "fmlookup (fp_sent_occupants p') m = Some ks" "k |\<in>| ks"
    then show "\<exists>l. fmlookup (labels_of (r\<lparr>rr_wide := learn ?n ?h X (rr_wide r)\<rparr>) m) k = Some l \<and> labels_of_run G m k l"
      using conn_okD(3) [OF assms(7), of m ks k]
      by (auto simp: p'_def change_form_frame labels_of_def split: if_splits)
  qed
  with sent decoded read show ?thesis by simp
qed

text \<open>The long form: the occupants not yet described go first, then the row.\<close>

lemma lookup_fold_labels:
  "fmlookup (fold (\<lambda>o' m. fmupd (oc_occupant o') (oc_labels o') m) os m) k =
     (case map_of (rev (map (\<lambda>o'. (oc_occupant o', oc_labels o')) os)) k of None \<Rightarrow> fmlookup m k | Some l \<Rightarrow> Some l)"
  by (induction os arbitrary: m) (auto simp: map_add_def split: option.splits)

lemma with_long_schema_encodes:
  assumes "rmp_ok rm" "encode_wal_long_row rm row = Inr payload"
  shows "encode_wal_long_row rm (row\<lparr>wlr_schema := Some s\<rparr>) = Inr (with_long_schema rm payload s)"
  using encode_long_row_total [OF assms(1), of row] encode_long_row_total [OF assms(1), of "row\<lparr>wlr_schema := Some s\<rparr>"]
    assms(2) by (auto simp: with_long_schema_def)

lemma decode_long:
  assumes "rmp_ok rm" "arrays_ok rm" "table_of stream = None"
    and "encode_wal_long_row rm r = Inr bytes" "dr_stream row = stream" "dr_row row = bytes"
  shows "sd_row rm hv row d = (Inr (Some (LongRow stream r)), d)"
proof -
  have "rm_long rm r = Inr bytes" "decode_wal_long_row rm bytes = Inr r"
    using encode_long_row_total [OF assms(1), of r] assms(4) by auto
  moreover from this(1) have "row_form bytes = Some LongForm" using assms(2) unfolding arrays_ok_def by blast
  ultimately show ?thesis by (simp add: sd_row_def assms(3,5,6) on_stream_def)
qed

lemma read_members:
  assumes "hist_ok hv" "\<And>m. m \<in> set (lg_occupants w) \<Longrightarrow> fmlookup labels (lm_key m) = Some (lm_labels m)"
  shows "those (map (read_member hv labels) (wlr_occupants (long_row hv w))) = Some (lg_occupants w)"
proof -
  have "read_member hv labels \<lparr>lo_occupant = lm_key m, lo_counters = lm_counters m, lo_gauges = lm_gauges m,
      lo_histograms = cells hv (lm_histograms m), lo_gauge_histograms = []\<rparr> = Some m"
    if "m \<in> set (lg_occupants w)" for m
    using assms(2) [OF that] by (simp add: read_member_def rebuild_cells [OF assms(1)])
  then show ?thesis
    using those_map [of "lg_occupants w" "\<lambda>m. read_member hv labels \<lparr>lo_occupant = lm_key m,
      lo_counters = lm_counters m, lo_gauges = lm_gauges m, lo_histograms = cells hv (lm_histograms m),
      lo_gauge_histograms = []\<rparr>" "\<lambda>m. m"]
    by (simp add: long_row_def comp_def)
qed

lemma read_long:
  assumes "hist_ok hv" "\<And>m. m \<in> set (lg_occupants w) \<Longrightarrow> fmlookup (labels_of r (lg_name w)) (lm_key m) = Some (lm_labels m)"
    and "known (lg_name w) (lg_columns_hash w) (learn (lg_name w) (lg_columns_hash w) X (rr_long r)) = Some (lg_columns w)"
  shows "read_group hv (LongRow (lg_name w) ((long_row hv w)\<lparr>wlr_schema := X\<rparr>)) r =
    Some ([SLong w], r\<lparr>rr_long := learn (lg_name w) (lg_columns_hash w) X (rr_long r),
      rr_labels := fmupd (lg_name w) (fmfilter (\<lambda>k. k \<in> lm_key ` set (lg_occupants w)) (labels_of r (lg_name w))) (rr_labels r)\<rparr>)"
proof -
  have "wlr_schema_hash (long_row hv w) = lg_columns_hash w"
      "wlr_window (long_row hv w) = map_option window_pair (lg_window w)"
      "set (map lo_occupant (wlr_occupants (long_row hv w))) = lm_key ` set (lg_occupants w)"
    by (simp_all add: long_row_def comp_def)
  with read_members [OF assms(1,2)] assms(3) show ?thesis by (simp add: Let_def)
qed

lemma sd_decode_append:
  "sd_decode rm hv (xs @ ys) d = (case sd_decode rm hv xs d of
     (Inl e, d) \<Rightarrow> (Inl e, d)
   | (Inr gs, d) \<Rightarrow> (case sd_decode rm hv ys d of (Inl e, d) \<Rightarrow> (Inl e, d) | (Inr hs, d) \<Rightarrow> (Inr (gs @ hs), d)))"
  by (induction xs arbitrary: d) (auto split: prod.splits sum.splits option.splits)

lemma read_all_append:
  "read_all hv (xs @ ys) r = (case read_all hv xs r of None \<Rightarrow> None
     | Some (out, r) \<Rightarrow> map_option (\<lambda>(outs, r). (out @ outs, r)) (read_all hv ys r))"
  by (induction xs arbitrary: r) (auto simp: option.map_comp comp_def case_prod_unfold option.map_id option.map_ident split: option.splits prod.splits)

lemma deliver_occupants:
  assumes "rmp_ok rm" "fp_new_occupants n present p = (new, p')"
    and "\<forall>k l. (k, l) \<in> set present \<longrightarrow> labels_of_run G n k l"
    and "\<forall>k ks. fmlookup (fp_sent_occupants p) n = Some ks \<and> k |\<in>| ks \<longrightarrow>
      (\<exists>l. fmlookup (labels_of r n) k = Some l \<and> labels_of_run G n k l)"
  shows "\<exists>sgs r'. sd_decode rm hv (if new = [] then [] else [\<lparr>dr_stream = stream_of n, dr_ts = ts,
        dr_wall_offset = wall, dr_row = encode_wal_row rm new\<rparr>]) d = (Inr sgs, d) \<and>
    read_all hv sgs r = Some ([], r') \<and> rr_wide r' = rr_wide r \<and> rr_long r' = rr_long r \<and>
    (\<forall>m. m \<noteq> n \<longrightarrow> labels_of r' m = labels_of r m) \<and>
    (\<forall>k l. (k, l) \<in> set present \<longrightarrow> (\<exists>l'. fmlookup (labels_of r' n) k = Some l' \<and> labels_of_run G n k l'))"
proof -
  let ?pairs = "map (\<lambda>o'. (oc_occupant o', oc_labels o')) new"
  let ?labels = "fold (\<lambda>o' m. fmupd (oc_occupant o') (oc_labels o') m) new (labels_of r n)"
  let ?sgs = "if new = [] then [] else [Occupants n new]"
  let ?r' = "if new = [] then r else r\<lparr>rr_labels := fmupd n ?labels (rr_labels r)\<rparr>"
  let ?sent = "case fmlookup (fp_sent_occupants p) n of None \<Rightarrow> {||} | Some s \<Rightarrow> s"
  have pairs: "?pairs = filter (\<lambda>(key, _). key |\<notin>| ?sent) present"
    using assms(2) by (auto simp: fp_new_occupants_def Let_def comp_def case_prod_beta)
  have "decode_wal_row rm (encode_wal_row rm new) = Inr new"
    using assms(1) by (simp add: rmp_ok_def decode_wal_row_def encode_wal_row_def)
  then have decoded: "sd_decode rm hv (if new = [] then [] else [\<lparr>dr_stream = stream_of n, dr_ts = ts,
        dr_wall_offset = wall, dr_row = encode_wal_row rm new\<rparr>]) d = (Inr ?sgs, d)"
    by (simp add: sd_row_def on_stream_def)
  have read: "read_all hv ?sgs r = Some ([], ?r')" by simp
  have labels: "labels_of ?r' n = ?labels" "\<forall>m. m \<noteq> n \<longrightarrow> labels_of ?r' m = labels_of r m"
    by (simp_all add: labels_of_def)
  have "\<exists>l'. fmlookup ?labels k = Some l' \<and> labels_of_run G n k l'" if kl: "(k, l) \<in> set present" for k l
  proof (cases "map_of (rev ?pairs) k")
    case (Some l')
    then have "(k, l') \<in> set ?pairs" using map_of_SomeD [of "rev ?pairs" k l'] by (simp only: set_rev)
    then have "(k, l') \<in> set present" unfolding pairs by simp
    with assms(3) have "labels_of_run G n k l'" by blast
    with Some show ?thesis by (simp add: lookup_fold_labels)
  next
    case None
    from map_of_eq_None_iff [THEN iffD1, OF this] have "k \<notin> fst ` set ?pairs" by (simp only: set_rev not_False_eq_True)
    then have "k |\<in>| ?sent" using kl unfolding pairs by force
    then obtain ks where "fmlookup (fp_sent_occupants p) n = Some ks" "k |\<in>| ks"
      by (cases "fmlookup (fp_sent_occupants p) n") auto
    with assms(4) have "\<exists>l. fmlookup (labels_of r n) k = Some l \<and> labels_of_run G n k l" by blast
    with None show ?thesis by (simp add: lookup_fold_labels)
  qed
  with decoded read labels show ?thesis
    by (intro exI [of _ ?sgs] exI [of _ ?r']) simp
qed

lemma deliver_long:
  assumes "rmp_ok rm" "arrays_ok rm" "hist_ok hv" "run_ok G" "SLong w \<in> G" "encodes rm hv (SLong w) (ELong e)"
    and "conn_ok G p d r"
  shows "\<exists>out p' sgs d' r'. fp_row rm encoded_stream_group_row ts wall (ELong e) p = (out, p') \<and>
    sd_decode rm hv out d = (Inr sgs, d') \<and> read_all hv sgs r = Some ([SLong w], r') \<and> conn_ok G p' d' r' \<and>
    sd_unresolved d' = sd_unresolved d"
proof -
  let ?n = "lg_name w" and ?h = "lg_columns_hash w" and ?s = "lg_columns w" and ?present = "sg_keyed (SLong w)"
  have run: "of_run G ?n ?h ?s" using run_okD(3) [OF assms(4,5), of ?s] by simp
  have keyed: "\<forall>k l. (k, l) \<in> set ?present \<longrightarrow> labels_of_run G ?n k l"
    using run_okD(4) [OF assms(4,5)] by simp
  have table: "table_of ?n = None" using run_okD(1) [OF assms(4,5)] by simp
  have e: "el_stream e = ?n" "el_columns_hash e = ?h" "el_columns e = ?s" "el_occupants e = ?present"
      "encode_wal_long_row rm (long_row hv w) = Inr (el_row e)"
    using assms(6) by simp_all
  let ?p1 = "fp_change_form ?n True p"
  obtain new p2 where new: "fp_new_occupants ?n ?present ?p1 = (new, p2)" by (meson surj_pair)
  have p2: "fp_sent_schemas p2 = fp_sent_schemas ?p1"
      "fp_sent_occupants p2 = fmupd ?n (fset_of_list (map fst ?present)) (fp_sent_occupants ?p1)"
    using new by (auto simp: fp_new_occupants_def Let_def)
  define fresh where "fresh \<longleftrightarrow> fmlookup (fp_sent_schemas p2) ?n \<noteq> Some ?h"
  define X where "X = (if fresh then Some ?s else None)"
  define bytes where "bytes = (if fresh then with_long_schema rm (el_row e) ?s else el_row e)"
  define p' where "p' = (if fresh then p2\<lparr>fp_sent_schemas := fmupd ?n ?h (fp_sent_schemas p2)\<rparr> else p2)"
  let ?occ = "if new = [] then [] else [\<lparr>dr_stream = stream_of ?n, dr_ts = ts,
        dr_wall_offset = wall, dr_row = encode_wal_row rm new\<rparr>]"
  let ?row = "\<lparr>dr_stream = ?n, dr_ts = ts, dr_wall_offset = wall, dr_row = bytes\<rparr>"
  have sent: "fp_row rm encoded_stream_group_row ts wall (ELong e) p = (?occ @ [?row], p')"
    by (simp add: fp_row_def fp_payload_def encoded_stream_group_row_def encoded_long_group_row_def
      Let_def e(1-4) new bytes_def p'_def fresh_def del: sg_keyed.simps)
  have "long_row hv w = (long_row hv w)\<lparr>wlr_schema := None\<rparr>" by (simp add: long_row_def)
  then have bytes: "encode_wal_long_row rm ((long_row hv w)\<lparr>wlr_schema := X\<rparr>) = Inr bytes"
    using e(5) with_long_schema_encodes [OF assms(1) e(5), of ?s] by (simp add: X_def bytes_def)
  have old: "\<forall>k ks. fmlookup (fp_sent_occupants ?p1) ?n = Some ks \<and> k |\<in>| ks \<longrightarrow>
      (\<exists>l. fmlookup (labels_of r ?n) k = Some l \<and> labels_of_run G ?n k l)"
    using conn_okD(3) [OF assms(7), of ?n] by (simp add: change_form_frame)
  obtain sgs r1 where occ: "sd_decode rm hv ?occ d = (Inr sgs, d)" "read_all hv sgs r = Some ([], r1)"
    "rr_wide r1 = rr_wide r" "rr_long r1 = rr_long r" "\<forall>m. m \<noteq> ?n \<longrightarrow> labels_of r1 m = labels_of r m"
    "\<forall>k l. (k, l) \<in> set ?present \<longrightarrow> (\<exists>l'. fmlookup (labels_of r1 ?n) k = Some l' \<and> labels_of_run G ?n k l')"
    using deliver_occupants [OF assms(1) new keyed old, where hv = hv and ts = ts and wall = wall and d = d] by blast
  have labels: "fmlookup (labels_of r1 ?n) (lm_key m) = Some (lm_labels m)" if "m \<in> set (lg_occupants w)" for m
  proof -
    have kl: "(lm_key m, lm_labels m) \<in> set ?present" using that by simp
    with occ(6) obtain l' where l': "fmlookup (labels_of r1 ?n) (lm_key m) = Some l'" "labels_of_run G ?n (lm_key m) l'"
      by blast
    with kl assms(5) have "l' = lm_labels m" unfolding labels_of_run_def by fastforce
    with l' show ?thesis by simp
  qed
  have held: "fmlookup (rr_long r) ?n = Some (?h, ?s)" if "\<not> fresh"
  proof -
    from that have "fmlookup (fp_sent_schemas p) ?n = Some ?h" "?n |\<in>| fmdom (fp_sent_occupants p)"
      by (auto simp: fresh_def p2(1) change_form_frame split: if_splits)
    then obtain s1 where "fmlookup (rr_long r) ?n = Some (?h, s1)" "of_run G ?n ?h s1"
      using conn_okD(1) [OF assms(7), of ?n ?h] by blast
    moreover from this(2) have "s1 = ?s" using assms(5) unfolding of_run_def by fastforce
    ultimately show ?thesis by blast
  qed
  have decoded: "sd_row rm hv ?row d = (Inr (Some (LongRow ?n ((long_row hv w)\<lparr>wlr_schema := X\<rparr>))), d)"
    by (rule decode_long [OF assms(1,2) table bytes]) simp_all
  let ?r' = "r1\<lparr>rr_long := learn ?n ?h X (rr_long r1),
      rr_labels := fmupd ?n (fmfilter (\<lambda>k. k \<in> lm_key ` set (lg_occupants w)) (labels_of r1 ?n)) (rr_labels r1)\<rparr>"
  have read: "read_group hv (LongRow ?n ((long_row hv w)\<lparr>wlr_schema := X\<rparr>)) r1 = Some ([SLong w], ?r')"
    using held by (intro read_long [OF assms(3) labels]) (auto simp: known_def learn_lookup X_def occ(4))
  have ls: "labels_of ?r' m = (if m = ?n then fmfilter (\<lambda>k. k \<in> lm_key ` set (lg_occupants w)) (labels_of r1 ?n)
      else labels_of r m)" for m
    using occ(5) by (simp add: labels_of_def)
  have "conn_ok G p' d ?r'"
  proof (rule conn_okI)
    fix m h assume m: "fmlookup (fp_sent_schemas p') m = Some h"
    show "\<exists>s. fmlookup (rr_long ?r') m = Some (h, s) \<and> of_run G m h s" if "m |\<in>| fmdom (fp_sent_occupants p')"
    proof (cases "m = ?n")
      case True
      with m have "h = ?h" by (auto simp: p'_def fresh_def split: if_splits)
      with True held run show ?thesis by (cases fresh) (auto simp: learn_lookup X_def occ(4))
    next
      case False
      with m that conn_okD(1) [OF assms(7), of m h] show ?thesis
        by (auto simp: p'_def p2 change_form_frame learn_lookup fmlookup_dom_iff occ(4) split: if_splits)
    qed
    assume "m |\<notin>| fmdom (fp_sent_occupants p')"
    then have "m \<noteq> ?n" "m |\<notin>| fmdom (fp_sent_occupants p)"
      by (auto simp: p'_def p2 change_form_frame fmlookup_dom_iff split: if_splits)
    with m conn_okD(2) [OF assms(7), of m h]
    show "(\<exists>s. fmlookup (rr_wide ?r') m = Some (h, s) \<and> of_run G m h s) \<and> (\<exists>s. fmlookup (sd_schemas d) m = Some (h, s))"
      by (auto simp: p'_def p2 change_form_frame occ(3) split: if_splits)
  next
    fix m ks k assume ks: "fmlookup (fp_sent_occupants p') m = Some ks" "k |\<in>| ks"
    have p'_occ: "fp_sent_occupants p' = fp_sent_occupants p2" by (simp add: p'_def)
    show "\<exists>l. fmlookup (labels_of ?r' m) k = Some l \<and> labels_of_run G m k l"
    proof (cases "m = ?n")
      case True
      with ks obtain x where x: "x \<in> set (lg_occupants w)" "k = lm_key x"
        by (auto simp: p'_occ p2 fset_of_list.rep_eq)
      with True labels [OF x(1)] keyed [rule_format, of k "lm_labels x"] show ?thesis unfolding ls by auto
    next
      case False
      with ks conn_okD(3) [OF assms(7), of m ks k] show ?thesis
        unfolding ls by (simp add: p'_occ p2 change_form_frame)
    qed
  qed
  with sent occ(1,2) decoded read show ?thesis by (simp add: sd_decode_append read_all_append)
qed

lemma deliver_row:
  assumes "rmp_ok rm" "arrays_ok rm" "hist_ok hv" "run_ok G" "g \<in> G" "encodes rm hv g e" "conn_ok G p d r"
  shows "\<exists>out p' sgs d' r'. fp_row rm encoded_stream_group_row ts wall e p = (out, p') \<and>
    sd_decode rm hv out d = (Inr sgs, d') \<and> read_all hv sgs r = Some ([g], r') \<and> conn_ok G p' d' r' \<and>
    sd_unresolved d' = sd_unresolved d"
proof (cases g)
  case (SWide w)
  with assms(6) obtain e' where "e = EWide e'" by (cases e) auto
  with assms SWide deliver_wide [OF assms(1-4), of w e' p d r ts wall] show ?thesis by simp
next
  case (SLong w)
  with assms(6) obtain e' where "e = ELong e'" by (cases e) auto
  with assms SLong deliver_long [OF assms(1-4), of w e' p d r ts wall] show ?thesis by simp
qed

section \<open>Carrying passes\<close>

lemma deliver_rows:
  assumes "rmp_ok rm" "arrays_ok rm" "hist_ok hv" "run_ok G" "list_all2 (encodes rm hv) gs es" "set gs \<subseteq> G" "conn_ok G p d r"
  shows "\<exists>out p' sgs d' r'. fp_rows rm encoded_stream_group_row ts wall es p = (out, p') \<and>
    sd_decode rm hv out d = (Inr sgs, d') \<and> read_all hv sgs r = Some (gs, r') \<and> conn_ok G p' d' r' \<and>
    sd_unresolved d' = sd_unresolved d"
  using assms(5-7)
proof (induction arbitrary: p d r rule: list_all2_induct)
  case (Cons g gs e es)
  from Cons.prems(1) have g: "g \<in> G" and gs: "set gs \<subseteq> G" by auto
  obtain out p1 sgs d1 r1 where one: "fp_row rm encoded_stream_group_row ts wall e p = (out, p1)"
    "sd_decode rm hv out d = (Inr sgs, d1)" "read_all hv sgs r = Some ([g], r1)" "conn_ok G p1 d1 r1"
    "sd_unresolved d1 = sd_unresolved d"
    using deliver_row [OF assms(1-4) g Cons.hyps(1) Cons.prems(2), of ts wall] by blast
  obtain outs p' sgs' d' r' where rest: "fp_rows rm encoded_stream_group_row ts wall es p1 = (outs, p')"
    "sd_decode rm hv outs d1 = (Inr sgs', d')" "read_all hv sgs' r1 = Some (gs, r')" "conn_ok G p' d' r'"
    "sd_unresolved d' = sd_unresolved d1"
    using Cons.IH [OF gs one(4)] by blast
  show ?case
    using one rest by (simp add: sd_decode_append read_all_append)
qed simp

lemma carry_pass_ok:
  assumes "rmp_ok rm" "arrays_ok rm" "hist_ok hv" "run_ok G" "set gs \<subseteq> G"
    and "cache_ok G (cn_cache cn)" "conn_ok G (cn_producer cn) (cn_decoder cn) (cn_reader cn)"
  shows "\<exists>cn'. carry_pass rm hv no_index (gs, ts, wall, seq) cn = Some (gs, cn') \<and> cache_ok G (cn_cache cn') \<and>
    conn_ok G (cn_producer cn') (cn_decoder cn') (cn_reader cn') \<and>
    sd_unresolved (cn_decoder cn') = sd_unresolved (cn_decoder cn)"
proof -
  obtain es c where es: "encode_all (es_encode rm hv) gs (cn_cache cn) = (Inr es, c)"
      "list_all2 (encodes rm hv) gs es" "cache_ok G c"
    using encode_all_ok [OF assms(1,4,6,5), of hv] by blast
  obtain out p sgs d r where "fp_rows rm encoded_stream_group_row ts wall es (cn_producer cn) = (out, p)"
    "sd_decode rm hv out (cn_decoder cn) = (Inr sgs, d)" "read_all hv sgs (cn_reader cn) = Some (gs, r)"
    "conn_ok G p d r" "sd_unresolved d = sd_unresolved (cn_decoder cn)"
    using deliver_rows [OF assms(1-4) es(2) assms(5,7), of ts wall] by blast
  with es show ?thesis by (simp add: carry_pass_def fp_interval_def)
qed

lemma carry_ok:
  assumes "rmp_ok rm" "arrays_ok rm" "hist_ok hv" "run_ok G" "\<forall>(gs, _) \<in> set ps. set gs \<subseteq> G"
    and "cache_ok G (cn_cache cn)" "conn_ok G (cn_producer cn) (cn_decoder cn) (cn_reader cn)"
  shows "\<exists>cn'. carry rm hv no_index ps cn = Some (map fst ps, cn') \<and>
    sd_unresolved (cn_decoder cn') = sd_unresolved (cn_decoder cn)"
  using assms(5-7)
proof (induction ps arbitrary: cn)
  case (Cons q ps)
  obtain gs ts wall seq where q: "q = (gs, ts, wall, seq)" by (metis prod_cases4)
  have sub: "set gs \<subseteq> G" using Cons.prems(1) by (simp add: q)
  obtain cn1 where one: "carry_pass rm hv no_index q cn = Some (gs, cn1)" "cache_ok G (cn_cache cn1)"
    "conn_ok G (cn_producer cn1) (cn_decoder cn1) (cn_reader cn1)"
    "sd_unresolved (cn_decoder cn1) = sd_unresolved (cn_decoder cn)"
    using carry_pass_ok [OF assms(1-4) sub Cons.prems(2,3), of no_index ts wall seq] by (auto simp: q)
  with Cons.IH [of cn1] Cons.prems(1) q show ?case by fastforce
qed simp

lemma fresh_connection:
  "conn_ok G (fp_for_source uuid anchor labels metadata) sd_new rr_new"
  by (rule conn_okI) (simp_all add: fp_for_source_def)

text \<open>
  C17. Every group a producer streams is resolved on the other end to itself. Over a fresh connection, whatever passes the
  producer sends (groups in either form, changing form, members and schemas from pass to pass), every row decodes, none
  is left unresolved, and a consumer that holds what it was sent reads, pass by pass, exactly the groups that
  went in: their schemas, their windows and values, and every occupant's labels, although a schema goes
  with a row only when it is new to the subscriber and labels only when their occupant is. This rests on what is
  assumed of the encoding and the histograms, and on a hash standing for one schema of a group and a
  key for one occupant.
\<close>

theorem streamed_groups_arrive:
  assumes "rmp_ok rm" and "arrays_ok rm" and "hist_ok hv"
    and "run_ok (\<Union> (set ` fst ` set passes))" and "cache_ok (\<Union> (set ` fst ` set passes)) cache"
  shows "\<exists>cn. carry rm hv no_index passes (connect (fp_for_source uuid anchor labels metadata) cache) =
      Some (map fst passes, cn) \<and> sd_unresolved (cn_decoder cn) = 0"
proof -
  let ?cn = "connect (fp_for_source uuid anchor labels metadata) cache"
  have "\<forall>(gs, _) \<in> set passes. set gs \<subseteq> \<Union> (set ` fst ` set passes)" by force
  moreover have "cache_ok (\<Union> (set ` fst ` set passes)) (cn_cache ?cn)"
    using assms(5) by (simp add: connect_def)
  moreover have "conn_ok (\<Union> (set ` fst ` set passes)) (cn_producer ?cn) (cn_decoder ?cn) (cn_reader ?cn)"
    by (simp add: connect_def fresh_connection)
  moreover have "sd_unresolved (cn_decoder ?cn) = 0"
    by (simp add: connect_def sd_new_def)
  ultimately show ?thesis
    using carry_ok [OF assms(1-4), of passes ?cn no_index] by auto
qed

section \<open>A schema that is never sent\<close>

definition withheld :: "string \<Rightarrow> hash128 \<Rightarrow> connection \<Rightarrow> bool" where
  "withheld n h cn \<longleftrightarrow> fmlookup (fp_sent_schemas (cn_producer cn)) n = Some h \<and>
     n |\<notin>| fmdom (fp_sent_occupants (cn_producer cn)) \<and> n |\<notin>| fmdom (sd_schemas (cn_decoder cn))"

lemma eg_encode_fields:
  assumes "rmp_ok rm"
  shows "\<exists>e c'. es_encode rm hv (SWide w) c = (Inr (EWide e), c') \<and> eg_stream e = gr_name w \<and>
    eg_schema_hash e = gr_schema_hash w \<and> (gr_schema w = None \<longrightarrow> eg_schema e = None) \<and>
    encode_wal_group_row rm (to_wal_group_row hv w None) = Inr (eg_row e)"
proof -
  obtain bytes where "encode_wal_group_row rm (to_wal_group_row hv w None) = Inr bytes"
    using encode_group_row_total [OF assms] by blast
  then show ?thesis by (auto simp: eg_encode_def sc_schema_def split: prod.splits option.splits)
qed

lemma schemaless_pass:
  assumes "rmp_ok rm" "arrays_ok rm" "table_of (gr_name w) = None"
    and "withheld (gr_name w) (gr_schema_hash w) cn \<or>
      gr_schema w = None \<and> cn_producer cn = fp_for_source uuid anchor labels metadata \<and> cn_decoder cn = sd_new"
  shows "\<exists>cn'. carry_pass rm hv no_index ([SWide w], ts, wall, seq) cn = Some ([], cn') \<and>
    withheld (gr_name w) (gr_schema_hash w) cn' \<and>
    sd_unresolved (cn_decoder cn') = sd_unresolved (cn_decoder cn) + 1"
proof -
  let ?n = "gr_name w" and ?h = "gr_schema_hash w" and ?p = "fp_change_form (gr_name w) False (cn_producer cn)"
  obtain e c where enc: "es_encode rm hv (SWide w) (cn_cache cn) = (Inr (EWide e), c)"
    and e: "eg_stream e = ?n" "eg_schema_hash e = ?h" "gr_schema w = None \<longrightarrow> eg_schema e = None"
      "encode_wal_group_row rm (to_wal_group_row hv w None) = Inr (eg_row e)"
    using eg_encode_fields [OF assms(1)] by blast
  let ?row = "\<lparr>dr_stream = ?n, dr_ts = ts, dr_wall_offset = wall, dr_row = eg_row e\<rparr>"
  have cases: "fmlookup (fp_sent_schemas ?p) ?n = Some ?h \<or> eg_schema e = None" "?n |\<notin>| fmdom (sd_schemas (cn_decoder cn))"
    using assms(4) e(3) by (auto simp: withheld_def change_form_frame fp_for_source_def sd_new_def)
  obtain p' where row: "fp_row rm encoded_stream_group_row ts wall (EWide e) (cn_producer cn) = ([?row], p')"
    and p': "fmlookup (fp_sent_schemas p') ?n = Some ?h" "fp_sent_occupants p' = fp_sent_occupants ?p"
    using cases(1) by (cases "fmlookup (fp_sent_schemas ?p) ?n = Some ?h")
      (auto simp: fp_row_def fp_payload_def encoded_stream_group_row_def encoded_group_row_def Let_def e(1,2))
  have "sd_row rm hv ?row (cn_decoder cn) = sd_group hv ?n (to_wal_group_row hv w None) (cn_decoder cn)"
    by (rule decode_wide [OF assms(1,2,3) e(4)]) simp_all
  moreover have "fmlookup (sd_schemas (cn_decoder cn)) ?n = None"
    using cases(2) by (rule fmdom_notD)
  ultimately have dec: "sd_row rm hv ?row (cn_decoder cn) =
      (Inr None, (cn_decoder cn)\<lparr>sd_unresolved := sd_unresolved (cn_decoder cn) + 1\<rparr>)"
    by (simp add: sd_group_def Let_def)
  have "?n |\<notin>| fmdom (fp_sent_occupants p')" unfolding p'(2) by (simp add: change_form_frame fmlookup_dom_iff)
  then show ?thesis
    using enc row dec p'(1) cases(2) by (simp add: carry_pass_def fp_interval_def withheld_def)
qed

text \<open>
  C38. A row that goes without its schema keeps the schema from ever going. When a subscriber's first row of a group
  has no schema to hand, the producer notes the hash as sent although nothing was; from then on, while
  the hash stays what it is, no row of the group carries the schema however many of them have it, and the
  subscriber skips every one.
\<close>

theorem schemaless_row_withholds_the_schema:
  assumes "rmp_ok rm" and "arrays_ok rm" and "table_of (gr_name w) = None" and "gr_schema w = None"
    and "\<forall>gs \<in> fst ` set later. \<exists>w'. gs = [SWide w'] \<and> gr_name w' = gr_name w \<and> gr_schema_hash w' = gr_schema_hash w"
  shows "\<exists>cn. carry rm hv no_index (([SWide w], ts, wall, seq) # later)
        (connect (fp_for_source uuid anchor labels metadata) cache) = Some (replicate (Suc (length later)) [], cn) \<and>
      sd_unresolved (cn_decoder cn) = of_nat (Suc (length later))"
proof -
  have more: "\<exists>cn'. carry rm hv no_index later cn = Some (replicate (length later) [], cn') \<and>
      sd_unresolved (cn_decoder cn') = sd_unresolved (cn_decoder cn) + of_nat (length later)"
    if "withheld (gr_name w) (gr_schema_hash w) cn" for cn
    using assms(5) that
  proof (induction later arbitrary: cn)
    case (Cons q later)
    obtain gs t x s where q: "q = (gs, t, x, s)" by (metis prod_cases4)
    obtain w' where w': "gs = [SWide w']" "gr_name w' = gr_name w" "gr_schema_hash w' = gr_schema_hash w"
      using Cons.prems(1) q by auto
    obtain cn1 where one: "carry_pass rm hv no_index q cn = Some ([], cn1)" "withheld (gr_name w) (gr_schema_hash w) cn1"
      "sd_unresolved (cn_decoder cn1) = sd_unresolved (cn_decoder cn) + 1"
      using schemaless_pass [OF assms(1,2), of w' cn _ _ _ _ hv no_index t x s] assms(3) Cons.prems(2)
      by (auto simp: q w')
    obtain cn' where "carry rm hv no_index later cn1 = Some (replicate (length later) [], cn')"
      "sd_unresolved (cn_decoder cn') = sd_unresolved (cn_decoder cn1) + of_nat (length later)"
      using Cons.IH [OF _ one(2)] Cons.prems(1) by auto
    with one show ?case by (simp add: algebra_simps)
  qed simp
  let ?cn = "connect (fp_for_source uuid anchor labels metadata) cache"
  obtain cn1 where one: "carry_pass rm hv no_index ([SWide w], ts, wall, seq) ?cn = Some ([], cn1)"
    "withheld (gr_name w) (gr_schema_hash w) cn1" "sd_unresolved (cn_decoder cn1) = 1"
    using schemaless_pass [OF assms(1,2,3), of ?cn uuid anchor labels metadata hv no_index ts wall seq] assms(4) by (auto simp: connect_def sd_new_def)
  from more [OF one(2)] one show ?thesis by auto
qed

end
