(* ===== verification/Occupancy.thy ===== *)
theory Occupancy
  imports Recorder StreamTrip
begin

text \<open>
  Whom a recording's occupant numbers stand for: over everything staged, one number per occupant and one
  occupant per number, and no row that names an occupant whose labels were never written.
\<close>

section \<open>The numbers of a group\<close>

definition holds :: "identity \<Rightarrow> u64 \<Rightarrow> group_state \<Rightarrow> bool" where
  "holds i n s \<longleftrightarrow> fmlookup (st_occupants s) i = Some n"

definition numbers_apart :: "group_state \<Rightarrow> bool" where
  "numbers_apart s \<longleftrightarrow> size (fmdom (st_occupants s)) \<le> 2 ^ 64 \<longrightarrow>
     (\<forall>i n. holds i n s \<longrightarrow> unat n < size (fmdom (st_occupants s))) \<and>
     (\<forall>i i' n. holds i n s \<and> holds i' n s \<longrightarrow> i = i')"

definition slot_numbered :: "group_state \<Rightarrow> slot \<Rightarrow> bool" where
  "slot_numbered s sl \<longleftrightarrow> slot_ok sl \<and> (\<forall>n. sl_number sl = Some n \<longrightarrow> holds (sl_identity sl) n s \<and> n |\<in>| st_described s)"

definition layout_numbered :: "group_state \<Rightarrow> layout \<Rightarrow> bool" where
  "layout_numbered s l \<longleftrightarrow> (case l of LWide _ \<Rightarrow> True | LLong ll \<Rightarrow> list_all (slot_numbered s) (ll_slots ll))"

text \<open>\<open>D\<close> is what the rows so far describe.\<close>

definition group_ok :: "(u64 \<times> smap) set \<Rightarrow> group_state \<Rightarrow> bool" where
  "group_ok D s \<longleftrightarrow> numbers_apart s \<and>
     (\<forall>(n, l) \<in> D. holds (occupant_identity l) n s) \<and>
     fset (st_described s) \<subseteq> fst ` D \<and>
     (\<forall>k n l. fmlookup (st_keys s) k = Some (n, l) \<longrightarrow> holds (occupant_identity l) n s) \<and>
     (\<forall>n l. fmlookup (st_seen s) n = Some l \<longrightarrow> holds (occupant_identity l) n s) \<and>
     (\<forall>(h, l) \<in> set (st_layouts s). layout_numbered s l)"

lemma group_ok_default [simp]: "group_ok {} group_state_default"
  by (simp add: group_ok_def numbers_apart_def holds_def group_state_default_def)

lemma group_okD:
  assumes "group_ok D s"
  shows "numbers_apart s" "(n, l) \<in> D \<Longrightarrow> holds (occupant_identity l) n s" "n |\<in>| st_described s \<Longrightarrow> n \<in> fst ` D"
    "fmlookup (st_keys s) k = Some (n, l) \<Longrightarrow> holds (occupant_identity l) n s"
    "fmlookup (st_seen s) n = Some l \<Longrightarrow> holds (occupant_identity l) n s"
    "(h, x) \<in> set (st_layouts s) \<Longrightarrow> layout_numbered s x"
  using assms unfolding group_ok_def by blast+

text \<open>A later state of a group: occupants keep their numbers and what was described stays so.\<close>

definition later :: "group_state \<Rightarrow> group_state \<Rightarrow> bool" where
  "later s s' \<longleftrightarrow> (\<forall>i n. holds i n s \<longrightarrow> holds i n s') \<and> st_described s |\<subseteq>| st_described s'"

lemma later_refl [simp]: "later s s"
  by (simp add: later_def)

lemma later_trans: "later a b \<Longrightarrow> later b c \<Longrightarrow> later a c"
  unfolding later_def by blast

lemma later_slot: "later s s' \<Longrightarrow> slot_numbered s sl \<Longrightarrow> slot_numbered s' sl"
  unfolding later_def slot_numbered_def by blast

lemma later_layout: "later s s' \<Longrightarrow> layout_numbered s l \<Longrightarrow> layout_numbered s' l"
  unfolding layout_numbered_def by (cases l) (auto simp: list_all_iff later_slot)

lemma laterD: "later s s' \<Longrightarrow> holds i n s \<Longrightarrow> holds i n s'"
  by (simp add: later_def)

lemma group_ok_step:
  assumes "group_ok D s" "later s s'" "numbers_apart s'"
    and "\<And>n l. (n, l) \<in> E \<Longrightarrow> holds (occupant_identity l) n s'"
    and "\<And>n. n |\<in>| st_described s' \<Longrightarrow> n |\<in>| st_described s \<or> n \<in> fst ` E"
    and "\<And>k n l. fmlookup (st_keys s') k = Some (n, l) \<Longrightarrow> fmlookup (st_keys s) k = Some (n, l) \<or> holds (occupant_identity l) n s'"
    and "\<And>n l. fmlookup (st_seen s') n = Some l \<Longrightarrow> fmlookup (st_seen s) n = Some l \<or> holds (occupant_identity l) n s'"
    and "\<And>h x. (h, x) \<in> set (st_layouts s') \<Longrightarrow> (h, x) \<in> set (st_layouts s) \<or> layout_numbered s' x"
  shows "group_ok (D \<union> E) s'"
  unfolding group_ok_def
proof (intro conjI)
  show "numbers_apart s'" by (rule assms(3))
  show "\<forall>(n, l) \<in> D \<union> E. holds (occupant_identity l) n s'"
    using group_okD(2) [OF assms(1)] laterD [OF assms(2)] assms(4) by blast
  show "fset (st_described s') \<subseteq> fst ` (D \<union> E)"
    using group_okD(3) [OF assms(1)] assms(5) by blast
  show "\<forall>k n l. fmlookup (st_keys s') k = Some (n, l) \<longrightarrow> holds (occupant_identity l) n s'"
    using group_okD(4) [OF assms(1)] laterD [OF assms(2)] assms(6) by blast
  show "\<forall>n l. fmlookup (st_seen s') n = Some l \<longrightarrow> holds (occupant_identity l) n s'"
    using group_okD(5) [OF assms(1)] laterD [OF assms(2)] assms(7) by blast
  show "\<forall>(h, l) \<in> set (st_layouts s'). layout_numbered s' l"
    using group_okD(6) [OF assms(1)] later_layout [OF assms(2)] assms(8) by blast
qed

text \<open>Steps that leave the numbers alone.\<close>

definition same_numbers :: "group_state \<Rightarrow> group_state \<Rightarrow> bool" where
  "same_numbers s s' \<longleftrightarrow> st_occupants s' = st_occupants s \<and> st_described s |\<subseteq>| st_described s'"

lemma same_numbersD:
  assumes "same_numbers s s'"
  shows "later s s'" "numbers_apart s \<Longrightarrow> numbers_apart s'" "holds i n s' \<longleftrightarrow> holds i n s"
  using assms by (simp_all add: same_numbers_def later_def numbers_apart_def holds_def)

lemma number_of_ok:
  assumes "group_ok D s" "number_of i s = (n, s')"
  shows "group_ok D s'" "later s s'" "holds i n s'" "st_described s' = st_described s" "st_columns s' = st_columns s"
    "st_layouts s' = st_layouts s"
proof -
  have "group_ok D s' \<and> later s s' \<and> holds i n s' \<and> st_described s' = st_described s \<and> st_columns s' = st_columns s \<and>
    st_layouts s' = st_layouts s"
  proof (cases "fmlookup (st_occupants s) i")
    case (Some m)
    with assms show ?thesis by (auto simp: number_of_def holds_def Let_def)
  next
    case None
    let ?next = "of_nat (size (fmdom (st_occupants s))) :: u64"
    have s': "s' = s\<lparr>st_occupants := fmupd i ?next (st_occupants s)\<rparr>" and n: "n = ?next"
      using assms(2) None by (auto simp: number_of_def Let_def)
    have size: "size (fmdom (st_occupants s')) = Suc (size (fmdom (st_occupants s)))"
      using None by (simp add: s' fmdom_notI)
    have num: "holds j m s' \<longleftrightarrow> (if j = i then m = n else holds j m s)" for j m
      by (auto simp: holds_def s' n)
    have "\<not> holds i m s" for m using None by (simp add: holds_def)
    then have lat: "later s s'" unfolding later_def num by (auto simp: s')
    have "numbers_apart s'"
      unfolding numbers_apart_def
    proof (rule impI)
      assume "size (fmdom (st_occupants s')) \<le> 2 ^ 64"
      then have small: "size (fmdom (st_occupants s)) < 2 ^ 64" by (simp only: size)
      then have n_val: "unat n = size (fmdom (st_occupants s))" by (simp only: n unat_of_nat_u64)
      have old: "\<forall>i n. holds i n s \<longrightarrow> unat n < size (fmdom (st_occupants s))"
        "\<forall>i i' n. holds i n s \<and> holds i' n s \<longrightarrow> i = i'"
        using group_okD(1) [OF assms(1)] small unfolding numbers_apart_def by auto
      show "(\<forall>i n. holds i n s' \<longrightarrow> unat n < size (fmdom (st_occupants s'))) \<and>
          (\<forall>i i' n. holds i n s' \<and> holds i' n s' \<longrightarrow> i = i')"
      proof (intro conjI allI impI)
        fix j m assume "holds j m s'"
        then show "unat m < size (fmdom (st_occupants s'))"
          unfolding num size using old(1) n_val by (metis less_Suc_eq)
      next
        fix j j' m assume "holds j m s' \<and> holds j' m s'"
        then show "j = j'" unfolding num using old n_val by (metis nat_neq_iff)
      qed
    qed
    then have "group_ok (D \<union> {}) s'"
      by (rule group_ok_step [OF assms(1) lat]) (simp_all add: s')
    with lat show ?thesis by (simp add: num) (simp add: s')
  qed
  then show "group_ok D s'" "later s s'" "holds i n s'" "st_described s' = st_described s" "st_columns s' = st_columns s"
    "st_layouts s' = st_layouts s" by blast+
qed

abbreviation labelled :: "occupant list \<Rightarrow> (u64 \<times> smap) set" where
  "labelled os \<equiv> (\<lambda>x. (oc_occupant x, oc_labels x)) ` set os"

lemma describe_ok:
  assumes "group_ok D s" "holds (occupant_identity l) n s" "describe n l s = (new, s')"
  shows "group_ok (D \<union> labelled new) s'" "later s s'" "n |\<in>| st_described s'"
    "st_columns s' = st_columns s" "st_layouts s' = st_layouts s" "st_occupants s' = st_occupants s"
proof -
  have eq: "st_columns s' = st_columns s" "st_layouts s' = st_layouts s" "st_occupants s' = st_occupants s"
      "st_keys s' = st_keys s" "st_seen s' = st_seen s" "n |\<in>| st_described s'"
      "\<And>m. m |\<in>| st_described s' \<longleftrightarrow> m |\<in>| st_described s \<or> m = n \<and> new \<noteq> []"
      "labelled new \<subseteq> {(n, l)}" "new \<noteq> [] \<longrightarrow> labelled new = {(n, l)}"
    using assms(3) by (auto simp: describe_def split: if_splits)
  then have same: "same_numbers s s'" by (auto simp: same_numbers_def)
  show "group_ok (D \<union> labelled new) s'"
  proof (rule group_ok_step [OF assms(1) same_numbersD(1) [OF same] same_numbersD(2) [OF same group_okD(1) [OF assms(1)]]])
    show "holds (occupant_identity l') m s'" if "(m, l') \<in> labelled new" for m l'
      using that eq(8) assms(2) same_numbersD(3) [OF same] by auto
    show "m |\<in>| st_described s \<or> m \<in> fst ` labelled new" if "m |\<in>| st_described s'" for m
      using that eq(7,9) by force
  qed (simp_all only: eq disj_not1 simp_thms)
  show "later s s'" by (rule same_numbersD(1) [OF same])
qed (use assms(3) in \<open>auto simp: describe_def split: if_splits\<close>)

lemma note_seen_ok:
  assumes "group_ok D s" "holds (occupant_identity l) n s"
  shows "group_ok D (note_seen n l s)" "later s (note_seen n l s)" "st_columns (note_seen n l s) = st_columns s"
    "st_layouts (note_seen n l s) = st_layouts s" "st_described (note_seen n l s) = st_described s"
    "st_occupants (note_seen n l s) = st_occupants s"
proof -
  let ?s = "note_seen n l s"
  have same: "same_numbers s ?s" by (simp add: same_numbers_def note_seen_def)
  show "later s ?s" by (rule same_numbersD(1) [OF same])
  have "group_ok (D \<union> {}) ?s"
  proof (rule group_ok_step [OF assms(1) same_numbersD(1) [OF same] same_numbersD(2) [OF same group_okD(1) [OF assms(1)]]])
    show "fmlookup (st_seen s) m = Some l' \<or> holds (occupant_identity l') m ?s" if "fmlookup (st_seen ?s) m = Some l'" for m l'
      using that assms(2) same_numbersD(3) [OF same] by (auto simp: note_seen_def split: if_splits)
  qed (simp_all add: note_seen_def)
  then show "group_ok D ?s" by simp
qed (simp_all add: note_seen_def)

section \<open>The rows of a long group\<close>

lemma slot_number_ok:
  assumes "group_ok D s" "slot_numbered s sl" "slot_number sl s = (n, sl', new, s')"
  shows "group_ok (D \<union> labelled new) s'" "later s s'" "slot_numbered s' sl'" "n |\<in>| st_described s'"
    "holds (occupant_identity (sl_labels sl)) n s'" "st_columns s' = st_columns s" "st_layouts s' = st_layouts s"
proof -
  have ident: "sl_identity sl = occupant_identity (sl_labels sl)" using assms(2) by (simp add: slot_numbered_def slot_ok_def)
  have "group_ok (D \<union> labelled new) s' \<and> later s s' \<and> slot_numbered s' sl' \<and> n |\<in>| st_described s' \<and>
    holds (occupant_identity (sl_labels sl)) n s' \<and> st_columns s' = st_columns s \<and> st_layouts s' = st_layouts s"
  proof (cases "sl_number sl")
    case (Some m)
    with assms(3) have "n = m" "sl' = sl" "new = []" "s' = s" by (auto simp: slot_number_def)
    with assms(1,2) Some ident show ?thesis by (auto simp: slot_numbered_def)
  next
    case None
    obtain s1 where one: "number_of (sl_identity sl) s = (n, s1)"
      and two: "describe n (sl_labels sl) s1 = (new, s')" and sl': "sl' = sl\<lparr>sl_number := Some n\<rparr>"
      using assms(3) None by (auto simp: slot_number_def split: prod.splits)
    note n = number_of_ok [OF assms(1) one]
    have held: "holds (occupant_identity (sl_labels sl)) n s1" using n(3) ident by simp
    note d = describe_ok [OF n(1) held two]
    have "holds (occupant_identity (sl_labels sl)) n s'" using laterD [OF d(2) held] .
    then show ?thesis
      using n d later_trans [OF n(2) d(2)] ident by (simp add: slot_numbered_def slot_ok_def sl')
  qed
  then show "group_ok (D \<union> labelled new) s'" "later s s'" "slot_numbered s' sl'" "n |\<in>| st_described s'"
    "holds (occupant_identity (sl_labels sl)) n s'" "st_columns s' = st_columns s" "st_layouts s' = st_layouts s" by blast+
qed

lemma later_describes: "later s s' \<Longrightarrow> n |\<in>| st_described s \<Longrightarrow> n |\<in>| st_described s'"
  by (auto simp: later_def)

lemma stage_slots_ok:
  "group_ok D s \<Longrightarrow> list_all (slot_numbered s) slots \<Longrightarrow> stage_slots hv g slots s = (present, new, slots', s') \<Longrightarrow>
     group_ok (D \<union> labelled new) s' \<and> later s s' \<and> list_all (slot_numbered s') slots' \<and>
     (\<forall>x \<in> set present. lo_occupant x |\<in>| st_described s') \<and> (present = [] \<longrightarrow> new = []) \<and>
     st_columns s' = st_columns s \<and> st_layouts s' = st_layouts s"
proof (induction slots arbitrary: D s present new slots')
  case Nil
  then show ?case by simp
next
  case (Cons sl slots)
  show ?case
  proof (cases "has_values g sl")
    case False
    then obtain rest where "stage_slots hv g slots s = (present, new, rest, s')" and slots': "slots' = sl # rest"
      using Cons.prems(3) by (auto split: prod.splits)
    from Cons.IH [OF Cons.prems(1) _ this(1)] Cons.prems(2) show ?thesis
      by (auto simp: slots' intro: later_slot)
  next
    case True
    obtain n sl' new1 s1 where one: "slot_number sl s = (n, sl', new1, s1)" by (metis prod_cases4)
    let ?s2 = "note_seen n (sl_labels sl) s1"
    obtain present2 new2 rest where two: "stage_slots hv g slots ?s2 = (present2, new2, rest, s')"
      and out: "present = occupant_row hv g (lc_schema (st_columns ?s2)) n sl # present2" "new = new1 @ new2" "slots' = sl' # rest"
      using Cons.prems(3) True one by (auto simp: Let_def split: prod.splits)
    have sl: "slot_numbered s sl" "list_all (slot_numbered s) slots" using Cons.prems(2) by simp_all
    note n = slot_number_ok [OF Cons.prems(1) sl(1) one]
    note seen = note_seen_ok [OF n(1,5)]
    have lat: "later s ?s2" using later_trans [OF n(2) seen(2)] .
    have "list_all (slot_numbered ?s2) slots" using sl(2) later_slot [OF lat] by (simp add: list_all_iff)
    note rest = Cons.IH [OF seen(1) this two]
    have "later s s'" using later_trans [OF lat] rest by blast
    moreover have "slot_numbered s' sl'" using later_slot [OF later_trans [OF seen(2)] n(3)] rest by blast
    moreover have "n |\<in>| st_described s'" using later_describes [OF later_trans [OF seen(2)] n(4)] rest by blast
    ultimately show ?thesis
      using rest n(6,7) seen(3,4) by (simp add: out image_Un Un_assoc occupant_row_def)
  qed
qed

lemma restate_ok:
  assumes "group_ok (D \<union> labelled fs) s" "restate re ts fs s = (labels, s')"
  shows "group_ok (D \<union> labelled labels) s'" "labelled fs \<subseteq> labelled labels" "st_described s' = st_described s"
    "labels = [] \<Longrightarrow> fs = []"
proof -
  have same: "same_numbers s s'" "st_described s' = st_described s" "st_keys s' = st_keys s" "st_layouts s' = st_layouts s"
    and labels: "labelled fs \<subseteq> labelled labels"
      "\<And>n l. (n, l) \<in> labelled labels \<Longrightarrow> (n, l) \<in> labelled fs \<or> fmlookup (st_seen s) n = Some l"
      "\<And>n l. fmlookup (st_seen s') n = Some l \<Longrightarrow> fmlookup (st_seen s) n = Some l" "labels = [] \<Longrightarrow> fs = []"
    using assms(2)
    by (auto simp: restate_def same_numbers_def Let_def set_map_entries image_Un split: option.splits if_splits prod.splits)
  have "group_ok (D \<union> labelled fs \<union> labelled labels) s'"
  proof (rule group_ok_step [OF assms(1) same_numbersD(1) [OF same(1)] same_numbersD(2) [OF same(1) group_okD(1) [OF assms(1)]]])
    show "holds (occupant_identity l) n s'" if "(n, l) \<in> labelled labels" for n l
      using labels(2) [OF that] group_okD(2,5) [OF assms(1)] same_numbersD(3) [OF same(1)] by blast
  qed (use same labels(3) in auto)
  moreover have "D \<union> labelled fs \<union> labelled labels = D \<union> labelled labels" using labels(1) by blast
  ultimately show "group_ok (D \<union> labelled labels) s'" by simp
  show "labelled fs \<subseteq> labelled labels" "st_described s' = st_described s" "labels = [] \<Longrightarrow> fs = []"
    by (fact labels(1) same(2) labels(4))+
qed

section \<open>What rows say\<close>

definition described :: "rmp \<Rightarrow> string \<Rightarrow> dendro_row list \<Rightarrow> (u64 \<times> smap) set" where
  "described rm table rows = (\<Union>row \<in> set rows. if dr_stream row = stream_of table
     then (case decode_wal_row rm (dr_row row) of Inr os \<Rightarrow> labelled os | Inl _ \<Rightarrow> {}) else {})"

definition long_numbers :: "rmp \<Rightarrow> string \<Rightarrow> dendro_row list \<Rightarrow> u64 set" where
  "long_numbers rm name rows = (\<Union>row \<in> set rows. if dr_stream row = name \<and> row_form (dr_row row) = Some LongForm
     then (case decode_wal_long_row rm (dr_row row) of Inr r \<Rightarrow> lo_occupant ` set (wlr_occupants r) | Inl _ \<Rightarrow> {}) else {})"

lemma said_simps [simp]:
  "described rm table [] = {}" "described rm table (rows @ rows') = described rm table rows \<union> described rm table rows'"
  "long_numbers rm name [] = {}" "long_numbers rm name (rows @ rows') = long_numbers rm name rows \<union> long_numbers rm name rows'"
  by (auto simp: described_def long_numbers_def)

lemma stream_of_other [simp]: "stream_of name \<noteq> name" "name \<noteq> stream_of name"
proof -
  have "length (stream_of name) \<noteq> length name" by (simp add: stream_of_def SUFFIX_def)
  then show "stream_of name \<noteq> name" "name \<noteq> stream_of name" by metis+
qed

lemma get_set_group [simp]: "get_group name (set_group name s rc) = s"
  by (simp add: get_group_def set_group_def)

lemma groups_simps [simp]:
  "rc_groups (set_group name s rc) = fmupd name s (rc_groups rc)"
  "rc_groups (add_row re stream bytes ts rc) = rc_groups rc"
  "get_group n (add_row re stream bytes ts rc) = get_group n rc"
  by (simp_all add: set_group_def add_row_def get_group_def)

lemma get_group_long [simp]: "get_group n (rc\<lparr>rc_long := x\<rparr>) = get_group n rc"
  by (simp add: get_group_def)

text \<open>One step of a group: its rows, and that other groups are left alone.\<close>

definition own_rows :: "string \<Rightarrow> dendro_row list \<Rightarrow> bool" where
  "own_rows name rows \<longleftrightarrow> (\<forall>row \<in> set rows. dr_stream row = name \<or> dr_stream row = stream_of name)"

definition others_same :: "string \<Rightarrow> 'a source_recorder \<Rightarrow> 'a source_recorder \<Rightarrow> bool" where
  "others_same name rc rc' \<longleftrightarrow> (\<forall>n. n \<noteq> name \<longrightarrow> fmlookup (rc_groups rc') n = fmlookup (rc_groups rc) n)"

definition advances :: "rmp \<Rightarrow> string \<Rightarrow> (u64 \<times> smap) set \<Rightarrow> dendro_row list \<Rightarrow> 'a source_recorder \<Rightarrow> 'a source_recorder \<Rightarrow> bool" where
  "advances rm name D rows rc rc' \<longleftrightarrow> own_rows name rows \<and> others_same name rc rc' \<and>
     group_ok (D \<union> described rm name rows) (get_group name rc') \<and>
     long_numbers rm name rows \<subseteq> fst ` (D \<union> described rm name rows)"

lemma advances_quiet:
  "group_ok D s \<Longrightarrow> advances rm name D [] rc (set_group name s rc)"
  by (simp add: advances_def own_rows_def others_same_def)

lemma write_long_ok:
  assumes "rmp_ok (re_rm re)" "arrays_ok (re_rm re)"
    and "group_ok (D \<union> labelled fs) (get_group name rc)" "\<forall>x \<in> set present. lo_occupant x |\<in>| st_described (get_group name rc)"
    and "present = [] \<longrightarrow> fs = []"
  shows "\<exists>rows rc'. write_long re name window present fs ts wall rc = (Inr rows, rc') \<and>
    advances (re_rm re) name D rows rc rc'"
proof (cases "present = []")
  case True
  with assms(3,5) show ?thesis
    by (simp add: write_long_def Let_def advances_def own_rows_def others_same_def)
next
  case False
  let ?rm = "re_rm re" and ?s = "get_group name rc"
  let ?row = "long_group_row window present ?s" and ?s1 = "?s\<lparr>st_anchored := Some (lc_hash (st_columns ?s))\<rparr>"
  obtain bytes where bytes: "rm_long ?rm ?row = Inr bytes" "rm_long_of ?rm bytes = Inr ?row"
    using assms(1) unfolding rmp_ok_def by blast
  have form: "row_form bytes = Some LongForm" using assms(2) bytes(1) by (simp add: arrays_ok_def)
  obtain labels s' where re: "restate re ts fs ?s1 = (labels, s')" by fastforce
  have s1: "group_ok (D \<union> labelled fs) ?s1"
    using group_ok_step [OF assms(3), of ?s1 "{}"] group_okD(1) [OF assms(3)]
    by (simp add: later_def numbers_apart_def holds_def)
  note r = restate_ok [OF s1 re]
  let ?main = "\<lparr>dr_stream = name, dr_ts = ts, dr_wall_offset = wall, dr_row = bytes\<rparr>"
  let ?rest = "if labels = [] then [] else
    [\<lparr>dr_stream = stream_of name, dr_ts = ts, dr_wall_offset = wall, dr_row = encode_wal_row ?rm labels\<rparr>]"
  obtain rc' where run: "write_long re name window present fs ts wall rc = (Inr (?main # ?rest), rc')"
    and rc': "get_group name rc' = s'" "others_same name rc rc'"
    using False re
    by (cases "labels = []") (auto simp: write_long_def Let_def encode_wal_long_row_def bytes others_same_def)
  have desc: "described ?rm name (?main # ?rest) = labelled labels"
    using assms(1) by (simp add: described_def decode_wal_row_def encode_wal_row_def rmp_ok_def)
  have nums: "long_numbers ?rm name (?main # ?rest) = lo_occupant ` set present"
    using form by (simp add: long_numbers_def decode_wal_long_row_def bytes long_group_row_def)
  have "lo_occupant ` set present \<subseteq> fst ` (D \<union> labelled labels)"
  proof
    fix n assume "n \<in> lo_occupant ` set present"
    then have "n |\<in>| st_described s'" using assms(4) r(3) by auto
    then show "n \<in> fst ` (D \<union> labelled labels)" by (rule group_okD(3) [OF r(1)])
  qed
  then have "advances ?rm name D (?main # ?rest) rc rc'"
    unfolding advances_def desc nums using r(1) rc' by (simp add: own_rows_def)
  with run show ?thesis by blast
qed

section \<open>Staging\<close>

lemma fresh_slots:
  assumes "ll_of enc schema cols = (ll, cols')"
  shows "list_all (\<lambda>sl. slot_ok sl \<and> sl_number sl = None) (ll_slots ll)"
proof -
  let ?ok = "\<lambda>sl. slot_ok sl \<and> sl_number sl = None"
  have step: "list_all ?ok (fst (snd (snd (place occ m st))))" if "list_all ?ok (fst (snd (snd st)))" for occ m st
  proof -
    obtain k i d where m: "m = (k, i, d)" by (metis prod_cases3)
    obtain cols changed slots index where st: "st = (cols, changed, slots, index)" by (metis prod_cases4)
    obtain si slots' index' where at: "slot_at (slot_of d) (fmfilter occ (md_metadata d)) (slots, index) = (si, slots', index')"
      by (metis prod_cases3)
    have "list_all ?ok slots'"
      using at that by (auto simp: slot_at_def st new_slot_def slot_ok_def split: option.splits)
    then have "list_all ?ok (slots'[si := add_pair k p (slots' ! si)])" for p
      by (cases "si < length slots'") (simp_all add: list_all_length nth_list_update add_pair_def slot_ok_def)
    then show ?thesis by (simp add: place_def m st at case_prod_beta)
  qed
  have "list_all ?ok (fst (snd (snd (fold (place occ) ms st))))" if "list_all ?ok (fst (snd (snd st)))" for occ ms st
    using that
  proof (induction ms arbitrary: st)
    case (Cons m ms)
    from Cons.IH [OF step [OF Cons.prems]] show ?case by simp
  qed simp
  from this [of "(cols, False, [], fmempty)" "is_occupant_key schema" "members schema"] assms
  show ?thesis by (auto simp: ll_of_def case_prod_beta)
qed

lemma st_layout_cases:
  assumes "st_layout re g s = (l, s')"
  obtains (cached) x where "l = Some x" "s' = s" "\<exists>h. (h, x) \<in> set (st_layouts s)"
  | (unknown) "l = None" "s' = s"
  | (made) x schema kept cols long where "l = Some x" "gr_schema g = Some schema" "set kept \<subseteq> set (st_layouts s)"
      "s' = s\<lparr>st_long := Some long, st_columns := cols, st_layouts := (gr_schema_hash g, x) # kept\<rparr>"
      "if long then \<exists>ll. x = LLong ll \<and> ll_of (re_schema re) schema (st_columns s) = (ll, cols) else x = LWide schema \<and> cols = st_columns s"
proof (cases "find (\<lambda>(h, _). h = gr_schema_hash g) (st_layouts s)")
  case (Some p)
  then obtain i where "i < length (st_layouts s)" "p = st_layouts s ! i" unfolding find_Some_iff by blast
  then have "p \<in> set (st_layouts s)" by simp
  with Some assms cached show thesis by (cases p) (auto simp: st_layout_def)
next
  case None
  show thesis
  proof (cases "gr_schema g")
    case None
    with \<open>find _ _ = None\<close> assms unknown show thesis by (simp add: st_layout_def)
  next
    case (Some schema)
    let ?long = "case st_long s of Some b \<Rightarrow> b | None \<Rightarrow>
       cf_long_groups (re_config re) \<and> slotted schema \<and> gs_gauge_histograms schema = []"
    let ?kept = "if length (st_layouts s) = SCHEMA_RING_LEN then butlast (st_layouts s) else st_layouts s"
    have kept: "set ?kept \<subseteq> set (st_layouts s)" by (auto dest: in_set_butlastD)
    obtain ll cols where ll: "ll_of (re_schema re) schema (st_columns s) = (ll, cols)" by fastforce
    show thesis
    proof (cases ?long)
      case True
      with assms Some \<open>find _ _ = None\<close> ll show thesis
        by (intro made [of "LLong ll" schema ?kept cols True] kept) (simp_all add: st_layout_def Let_def)
    next
      case False
      with assms Some \<open>find _ _ = None\<close> show thesis
        by (intro made [of "LWide schema" schema ?kept "st_columns s" False] kept) (simp_all add: st_layout_def Let_def)
    qed
  qed
qed

lemma st_layout_ok:
  assumes "group_ok D s" "st_layout re g s = (l, s')"
  shows "group_ok D s'" "l = Some x \<Longrightarrow> layout_numbered s' x"
proof -
  have "group_ok D s' \<and> (\<forall>x. l = Some x \<longrightarrow> layout_numbered s' x)"
    using assms(2)
  proof (cases rule: st_layout_cases)
    case cached
    with assms(1) group_okD(6) show ?thesis by auto
  next
    case unknown
    with assms(1) show ?thesis by simp
  next
    case (made x schema kept cols long)
    have same: "same_numbers s s'" by (simp add: same_numbers_def made(4))
    have x: "layout_numbered s' x"
    proof (cases long)
      case True
      with made(5) obtain ll where ll: "x = LLong ll" "ll_of (re_schema re) schema (st_columns s) = (ll, cols)" by auto
      from fresh_slots [OF ll(2)] show ?thesis
        by (simp add: ll(1) layout_numbered_def slot_numbered_def list_all_iff)
    next
      case False
      with made(5) show ?thesis by (simp add: layout_numbered_def)
    qed
    have "group_ok (D \<union> {}) s'"
    proof (rule group_ok_step [OF assms(1) same_numbersD(1) [OF same] same_numbersD(2) [OF same group_okD(1) [OF assms(1)]]])
      show "(h, y) \<in> set (st_layouts s) \<or> layout_numbered s' y" if "(h, y) \<in> set (st_layouts s')" for h y
        using that x made(3) by (auto simp: made(4))
    qed (simp_all add: made(4))
    with x made(1) show ?thesis by simp
  qed
  then show "group_ok D s'" "l = Some x \<Longrightarrow> layout_numbered s' x" by blast+
qed

lemma stage_wide_ok:
  assumes "rmp_ok (re_rm re)" "arrays_ok (re_rm re)" "group_ok D s"
  shows "\<exists>rows rc'. stage_wide re g schema ts wall s rc = (Inr rows, rc') \<and> advances (re_rm re) (gr_name g) D rows rc rc'"
proof -
  let ?rm = "re_rm re" and ?s = "s\<lparr>st_anchored := Some (gr_schema_hash g)\<rparr>"
  let ?row = "to_wal_group_row (re_hist re) g (if st_anchored s \<noteq> Some (gr_schema_hash g) then Some schema else None)"
  obtain bytes where "encode_wal_group_row ?rm ?row = Inr bytes"
    using encode_group_row_total [OF assms(1)] by blast
  moreover from this have "row_form bytes \<noteq> Some LongForm"
    using assms(2) by (auto simp: arrays_ok_def encode_wal_group_row_def split: sum.splits)
  moreover have "group_ok (D \<union> {}) ?s"
    using group_ok_step [OF assms(3), of ?s "{}"] group_okD(1) [OF assms(3)]
    by (simp add: later_def numbers_apart_def holds_def)
  ultimately show ?thesis
    by (auto simp: stage_wide_def Let_def advances_def own_rows_def others_same_def described_def long_numbers_def)
qed

lemma stage_long_ok:
  assumes "rmp_ok (re_rm re)" "arrays_ok (re_rm re)" "group_ok D s" "layout_numbered s (LLong l)"
  shows "\<exists>rows rc'. stage_long re g l ts wall s rc = (Inr rows, rc') \<and> advances (re_rm re) (gr_name g) D rows rc rc'"
proof -
  obtain present fs slots s1 where slots: "stage_slots (re_hist re) g (ll_slots l) s = (present, fs, slots, s1)"
    by (metis prod_cases4)
  let ?numbered = "LLong (l\<lparr>ll_slots := slots\<rparr>)"
  let ?s2 = "s1\<lparr>st_layouts := map (\<lambda>(h, x). if h = gr_schema_hash g then (h, ?numbered) else (h, x)) (st_layouts s1)\<rparr>"
  have "list_all (slot_numbered s) (ll_slots l)" using assms(4) by (simp add: layout_numbered_def)
  note st = stage_slots_ok [OF assms(3) this slots]
  have same: "same_numbers s1 ?s2" by (simp add: same_numbers_def)
  have num: "layout_numbered ?s2 ?numbered"
    using st later_slot [OF same_numbersD(1) [OF same]] by (simp add: layout_numbered_def list_all_iff)
  have "group_ok (D \<union> labelled fs \<union> {}) ?s2"
  proof (rule group_ok_step [OF _ same_numbersD(1) [OF same] same_numbersD(2) [OF same]])
    show "group_ok (D \<union> labelled fs) s1" "numbers_apart s1" using st group_okD(1) by blast+
    show "(h, y) \<in> set (st_layouts s1) \<or> layout_numbered ?s2 y" if "(h, y) \<in> set (st_layouts ?s2)" for h y
      using that num by (auto split: if_splits)
  qed simp_all
  then have "group_ok (D \<union> labelled fs) (get_group (gr_name g) (set_group (gr_name g) ?s2 rc))" by simp
  from write_long_ok [OF assms(1,2) this, of present "map_option window_pair (gr_window g)" ts wall] st
  obtain rows rc' where "write_long re (gr_name g) (map_option window_pair (gr_window g)) present fs ts wall (set_group (gr_name g) ?s2 rc)
      = (Inr rows, rc')" "advances (re_rm re) (gr_name g) D rows (set_group (gr_name g) ?s2 rc) rc'"
    by auto
  then show ?thesis
    by (auto simp: stage_long_def slots advances_def others_same_def)
qed

lemma last_key_ok: "group_ok D s \<Longrightarrow> group_ok D (s\<lparr>st_last_key := k, st_long := b\<rparr>)"
  using group_ok_step [of D s "s\<lparr>st_last_key := k, st_long := b\<rparr>" "{}"] group_okD(1) [of D s]
  by (simp add: later_def numbers_apart_def holds_def)

lemma last_key_ok': "group_ok D s \<Longrightarrow> group_ok D (s\<lparr>st_last_key := k\<rparr>)"
  using last_key_ok [where D = D and s = s and k = k and b = "st_long s"] by simp

lemma stage_group_ok:
  assumes "rmp_ok (re_rm re)" "arrays_ok (re_rm re)" "group_ok D (get_group (gr_name g) rc)"
  shows "\<exists>rows rc'. stage_group re g ts wall rc = (Inr rows, rc') \<and> advances (re_rm re) (gr_name g) D rows rc rc'"
proof -
  let ?n = "gr_name g" and ?s = "get_group (gr_name g) rc" and ?key = "group_key g ts"
  obtain l s1 where lay: "st_layout re g ?s = (l, s1)" by fastforce
  note s1 = st_layout_ok [OF assms(3) lay]
  have quiet: "advances (re_rm re) ?n D [] rc (set_group ?n s rc)" if "group_ok D s" for s
    using advances_quiet [OF that] .
  consider (bad) "validate (re_schema re) g \<noteq> Inr ()"
    | (empty) "validate (re_schema re) g = Inr ()" "no_members g"
    | (skip) "validate (re_schema re) g = Inr ()" "\<not> no_members g"
        "st_last_key s1 = Some ?key \<or> l = None \<or> (\<exists>x. l = Some x \<and> \<not> fits_layout g x)"
    | (goes) x where "validate (re_schema re) g = Inr ()" "\<not> no_members g" "st_last_key s1 \<noteq> Some ?key" "l = Some x"
        "fits_layout g x"
    by (metis option.exhaust)
  then show ?thesis
  proof cases
    case bad
    then obtain e where "validate (re_schema re) g = Inl e" by (cases "validate (re_schema re) g") auto
    with assms(3) show ?thesis by (simp add: stage_group_def advances_def own_rows_def others_same_def)
  next
    case empty
    with quiet [OF last_key_ok' [OF assms(3)]] show ?thesis by (simp add: stage_group_def Let_def)
  next
    case skip
    with quiet [OF s1(1)] lay show ?thesis by (auto simp: stage_group_def Let_def)
  next
    case goes
    let ?s2 = "s1\<lparr>st_last_key := Some ?key\<rparr>"
    have ok: "group_ok D ?s2" by (rule last_key_ok' [OF s1(1)])
    have num: "layout_numbered ?s2 x"
      using later_layout [of s1 ?s2 x] s1(2) [OF goes(4)] by (simp add: later_def holds_def)
    show ?thesis
    proof (cases x)
      case (LWide schema)
      with goes lay stage_wide_ok [OF assms(1,2) ok] show ?thesis by (simp add: stage_group_def Let_def)
    next
      case (LLong ll)
      with goes lay stage_long_ok [OF assms(1,2) ok] num show ?thesis by (simp add: stage_group_def Let_def)
    qed
  qed
qed

section \<open>Staging a streamed row\<close>

text \<open>A step that keeps numbers, descriptions and layouts, and adds no key and no label.\<close>

lemma group_ok_kept:
  assumes "group_ok D s" "st_occupants s' = st_occupants s" "st_described s' = st_described s" "st_layouts s' = st_layouts s"
    and "st_seen s' = st_seen s" "\<And>k p. fmlookup (st_keys s') k = Some p \<Longrightarrow> fmlookup (st_keys s) k = Some p"
  shows "group_ok D s'"
proof -
  have same: "same_numbers s s'" by (simp add: same_numbers_def assms)
  have "group_ok (D \<union> {}) s'"
    by (rule group_ok_step [OF assms(1) same_numbersD(1) [OF same] same_numbersD(2) [OF same group_okD(1) [OF assms(1)]]])
      (auto simp: assms(2-5) dest: assms(6))
  then show ?thesis by simp
qed

lemma resolve_key_ok:
  assumes "group_ok D s" "resolve_key shared key s = (r, s')"
  shows "group_ok D s'" "later s s'" "r = Some (n, l) \<Longrightarrow> holds (occupant_identity l) n s'"
proof -
  have "group_ok D s' \<and> later s s' \<and> (\<forall>n l. r = Some (n, l) \<longrightarrow> holds (occupant_identity l) n s')"
  proof (cases "fmlookup (st_keys s) key")
    case (Some found)
    with assms group_okD(4) [OF assms(1)] show ?thesis by (auto simp: resolve_key_def)
  next
    case no_key: None
    show ?thesis
    proof (cases "fmlookup (st_announced s) key")
      case None
      with no_key assms show ?thesis by (simp add: resolve_key_def)
    next
      case (Some labels)
      let ?l = "add_missing shared labels" and ?s = "s\<lparr>st_announced := fmdrop key (st_announced s)\<rparr>"
      obtain n s1 where num: "number_of (occupant_identity ?l) ?s = (n, s1)" by fastforce
      have r: "r = Some (n, ?l)" "s' = s1\<lparr>st_keys := fmupd key (n, ?l) (st_keys s1)\<rparr>"
        using assms(2) no_key Some num by (auto simp: resolve_key_def Let_def)
      have "group_ok D ?s" by (rule group_ok_kept [OF assms(1)]) simp_all
      note n = number_of_ok [OF this num]
      have same: "same_numbers s1 s'" by (simp add: same_numbers_def r)
      have held: "holds (occupant_identity ?l) n s'" using n(3) same_numbersD(3) [OF same] by simp
      have "group_ok (D \<union> {}) s'"
      proof (rule group_ok_step [OF n(1) same_numbersD(1) [OF same] same_numbersD(2) [OF same group_okD(1) [OF n(1)]]])
        show "fmlookup (st_keys s1) k = Some (m, l) \<or> holds (occupant_identity l) m s'"
          if "fmlookup (st_keys s') k = Some (m, l)" for k m l
          using that held by (auto simp: r split: if_splits)
      qed (simp_all add: r)
      moreover have "later s ?s" by (simp add: later_def holds_def)
      then have "later s s'" using later_trans n(2) same_numbersD(1) [OF same] by blast
      ultimately show ?thesis using held r(1) by simp
    qed
  qed
  then show "group_ok D s'" "later s s'" "r = Some (n, l) \<Longrightarrow> holds (occupant_identity l) n s'" by blast+
qed

lemma stage_occupants_ok:
  "group_ok D s \<Longrightarrow> stage_occupants w columns xs s = (present, new, s') \<Longrightarrow>
     group_ok (D \<union> labelled new) s' \<and> later s s' \<and>
     (\<forall>x \<in> set present. lo_occupant x |\<in>| st_described s') \<and> (present = [] \<longrightarrow> new = [])"
proof (induction xs arbitrary: D s present new)
  case Nil
  then show ?case by simp
next
  case (Cons x xs)
  show ?case
  proof (cases "fits_wire w x")
    case False
    with Cons show ?thesis by simp
  next
    case True
    obtain r s1 where one: "resolve_key (wr_shared w) (lo_occupant x) s = (r, s1)" by fastforce
    note res = resolve_key_ok [OF Cons.prems(1) one]
    show ?thesis
    proof (cases r)
      case None
      with Cons.prems(2) True one have "stage_occupants w columns xs s1 = (present, new, s')" by simp
      from Cons.IH [OF res(1) this] later_trans [OF res(2)] show ?thesis by blast
    next
      case (Some p)
      obtain n l where p: "p = (n, l)" by fastforce
      obtain new1 s2 where two: "describe n l s1 = (new1, s2)" by fastforce
      let ?s3 = "note_seen n l s2"
      obtain present2 new2 where three: "stage_occupants w columns xs ?s3 = (present2, new2, s')"
        and out: "present = wire_occupant w columns n x # present2" "new = new1 @ new2"
        using Cons.prems(2) True one two by (auto simp: Some p Let_def split: prod.splits)
      have held: "holds (occupant_identity l) n s1" using res(3) Some p by simp
      note d = describe_ok [OF res(1) held two]
      note seen = note_seen_ok [OF d(1) laterD [OF d(2) held]]
      note rest = Cons.IH [OF seen(1) three]
      have "n |\<in>| st_described s'" using rest d(3) later_describes [OF later_trans [OF seen(2)]] by blast
      moreover have "later s s'" using later_trans [OF res(2) later_trans [OF d(2) later_trans [OF seen(2)]]] rest by blast
      ultimately show ?thesis
        using rest by (simp add: out image_Un Un_assoc wire_occupant_def)
    qed
  qed
qed

lemma take_columns_kept:
  "st_occupants (take_columns re h schema s) = st_occupants s" "st_described (take_columns re h schema s) = st_described s"
  "st_layouts (take_columns re h schema s) = st_layouts s" "st_seen (take_columns re h schema s) = st_seen s"
  "st_keys (take_columns re h schema s) = st_keys s"
  by (simp_all add: take_columns_def Let_def case_prod_beta)

lemma announce_simps [simp]:
  "announce [] s = s"
  "announce (x # os) s = announce os (s\<lparr>st_keys := fmdrop (oc_occupant x) (st_keys s),
     st_announced := fmupd (oc_occupant x) (oc_labels x) (st_announced s)\<rparr>)"
  by (simp_all add: announce_def)

lemma announce_kept [simp]:
  "st_occupants (announce os s) = st_occupants s" "st_described (announce os s) = st_described s"
  "st_layouts (announce os s) = st_layouts s" "st_seen (announce os s) = st_seen s"
  by (induction os arbitrary: s) simp_all

lemma announce_keys: "fmlookup (st_keys (announce os s)) k = Some p \<Longrightarrow> fmlookup (st_keys s) k = Some p"
proof (induction os arbitrary: s)
  case (Cons x os)
  from Cons.IH [OF Cons.prems [unfolded announce_simps]] show ?case by (simp split: if_splits)
qed simp

lemma announce_ok: "group_ok D s \<Longrightarrow> group_ok D (announce os s)"
  by (rule group_ok_kept [of D s]) (assumption | rule announce_kept | erule announce_keys)+

lemma stage_long_row_ok:
  assumes "rmp_ok (re_rm re)" "arrays_ok (re_rm re)" "group_ok D (get_group name rc)"
  shows "\<exists>rows rc'. stage_long_row re name row ts wall rc = (Inr rows, rc') \<and> advances (re_rm re) name D rows rc rc'"
proof -
  let ?s = "get_group name rc" and ?key = "case wlr_window row of Some (_, e) \<Rightarrow> e | None \<Rightarrow> ts"
  let ?s1 = "case wlr_schema row of
      Some schema \<Rightarrow> if map_option fst (st_wire ?s) \<noteq> Some (wlr_schema_hash row)
        then take_columns re (wlr_schema_hash row) schema ?s else ?s
    | None \<Rightarrow> ?s"
  have taken: "group_ok D (take_columns re h schema ?s)" for h schema
    by (rule group_ok_kept [OF assms(3)]) (simp_all add: take_columns_kept)
  then have s1: "group_ok D ?s1" using assms(3) by (simp split: option.split)
  have quiet: "advances (re_rm re) name D [] rc (set_group name s rc)" if "group_ok D s" for s
    using advances_quiet [OF that] .
  consider (wide) "st_long ?s = Some False"
    | (skip) "st_long ?s \<noteq> Some False" "st_last_key ?s1 = Some ?key \<or> st_wire ?s1 = None \<or>
        (\<exists>h w. st_wire ?s1 = Some (h, w) \<and> h \<noteq> wlr_schema_hash row)"
    | (goes) w where "st_long ?s \<noteq> Some False" "st_last_key ?s1 \<noteq> Some ?key" "st_wire ?s1 = Some (wlr_schema_hash row, w)"
    by (metis option.exhaust surj_pair)
  then show ?thesis
  proof cases
    case wide
    with quiet [OF assms(3)] show ?thesis by (simp add: stage_long_row_def)
  next
    case skip
    with quiet [OF s1] show ?thesis by (auto simp: stage_long_row_def Let_def)
  next
    case goes
    let ?s2 = "?s1\<lparr>st_long := Some True, st_last_key := Some ?key\<rparr>"
    have s2: "group_ok D ?s2" by (rule group_ok_kept [OF s1]) simp_all
    obtain present fs s3 where three: "stage_occupants w (lc_schema (st_columns ?s2)) (wlr_occupants row) ?s2 = (present, fs, s3)"
      by (metis prod_cases3)
    let ?s4 = "retain_keys (lo_occupant ` set (wlr_occupants row)) s3"
    note st = stage_occupants_ok [OF s2 three]
    have kept: "st_occupants ?s4 = st_occupants s3" "st_described ?s4 = st_described s3" "st_layouts ?s4 = st_layouts s3"
      "st_seen ?s4 = st_seen s3" "\<And>k p. fmlookup (st_keys ?s4) k = Some p \<Longrightarrow> fmlookup (st_keys s3) k = Some p"
      by (auto simp: retain_keys_def split: if_splits)
    have "group_ok (D \<union> labelled fs) ?s4" by (rule group_ok_kept [OF conjunct1 [OF st] kept])
    then have "group_ok (D \<union> labelled fs) (get_group name (set_group name ?s4 rc))" by simp
    from write_long_ok [OF assms(1,2) this, of present "wlr_window row" ts wall] st kept(2)
    obtain rows rc' where out: "write_long re name (wlr_window row) present fs ts wall (set_group name ?s4 rc) = (Inr rows, rc')"
      "advances (re_rm re) name D rows (set_group name ?s4 rc) rc'"
      by auto
    have "stage_long_row re name row ts wall rc = (Inr rows, rc')"
      using goes three out(1) by (simp add: stage_long_row_def Let_def)
    with out(2) show ?thesis by (auto simp: advances_def others_same_def)
  qed
qed


section \<open>A whole recording\<close>

text \<open>A group's table: \<open>sampler/group\<close>, and no occupant stream.\<close>

definition table_name :: "string \<Rightarrow> bool" where
  "table_name n \<longleftrightarrow> CHR ''/'' \<in> set n \<and> table_of n = None"

definition all_ok :: "rmp \<Rightarrow> dendro_row list \<Rightarrow> 'a source_recorder \<Rightarrow> bool" where
  "all_ok rm rows rc \<longleftrightarrow> (\<forall>n. table_name n \<longrightarrow> group_ok (described rm n rows) (get_group n rc) \<and>
     long_numbers rm n rows \<subseteq> fst ` described rm n rows)"

lemma all_okD: "all_ok rm rows rc \<Longrightarrow> table_name n \<Longrightarrow> group_ok (described rm n rows) (get_group n rc)"
  by (simp add: all_ok_def)

text \<open>Rows that are none of a table's say nothing of its occupants.\<close>

lemma said_by_others:
  assumes "\<forall>row \<in> set rows. dr_stream row \<noteq> n \<and> dr_stream row \<noteq> stream_of n"
  shows "described rm n rows = {}" "long_numbers rm n rows = {}"
  using assms by (auto simp: described_def long_numbers_def)

lemma stream_of_apart:
  assumes "table_name n" "table_name m" "n \<noteq> m"
  shows "stream_of n \<noteq> m" "stream_of n \<noteq> stream_of m" "n \<noteq> stream_of m"
  using assms table_of_stream_of [of n] table_of_stream_of [of m] by (auto simp: table_name_def stream_of_def)

lemma all_ok_advances:
  assumes "all_ok rm rows rc" "table_name n" "advances rm n (described rm n rows) new rc rc'"
  shows "all_ok rm (rows @ new) rc'"
  unfolding all_ok_def
proof (intro allI impI)
  fix m assume m: "table_name m"
  note adv = assms(3) [unfolded advances_def]
  show "group_ok (described rm m (rows @ new)) (get_group m rc') \<and>
    long_numbers rm m (rows @ new) \<subseteq> fst ` described rm m (rows @ new)"
  proof (cases "m = n")
    case True
    with adv assms(1) m show ?thesis unfolding all_ok_def said_simps by (metis Un_least image_Un sup.coboundedI1)
  next
    case False
    have "get_group m rc' = get_group m rc" using adv False by (simp add: others_same_def get_group_def)
    moreover have "\<forall>row \<in> set new. dr_stream row \<noteq> m \<and> dr_stream row \<noteq> stream_of m"
      using adv stream_of_apart [OF assms(2) m] False by (auto simp: own_rows_def)
    ultimately show ?thesis using assms(1) m by (simp add: all_ok_def said_by_others)
  qed
qed

lemma all_ok_same_groups:
  assumes "all_ok rm rows rc" "\<And>n. group_ok (described rm n rows) (get_group n rc) \<Longrightarrow> group_ok (described rm n rows) (get_group n rc')"
  shows "all_ok rm rows rc'"
  using assms by (simp add: all_ok_def)

lemma stage_groups_ok:
  assumes "rmp_ok (re_rm re)" "arrays_ok (re_rm re)" "all_ok (re_rm re) rows rc" "list_all (\<lambda>g. table_name (gr_name g)) gs"
  shows "\<exists>new rc'. stage_groups re gs finished ts wall rc = (Inr new, rc') \<and> all_ok (re_rm re) (rows @ new) rc'"
  using assms(3,4)
proof (induction gs arbitrary: finished rc rows)
  case Nil
  then show ?case by simp
next
  case (Cons g gs)
  from Cons.prems have g: "table_name (gr_name g)" and gs: "list_all (\<lambda>g. table_name (gr_name g)) gs" by simp_all
  show ?case
  proof (cases "gr_name g |\<in>| finished")
    case True
    with Cons.IH [OF Cons.prems(1) gs] show ?thesis by simp
  next
    case False
    obtain new rc1 where one: "stage_group re g ts wall rc = (Inr new, rc1)"
      and adv: "advances (re_rm re) (gr_name g) (described (re_rm re) (gr_name g) rows) new rc rc1"
      using stage_group_ok [OF assms(1,2) all_okD [OF Cons.prems(1) g]] by blast
    from Cons.IH [OF all_ok_advances [OF Cons.prems(1) g adv] gs, of "finsert (gr_name g) finished"]
    show ?thesis using False one by auto
  qed
qed

fun streamed_names :: "'h streamed_group \<Rightarrow> string" where
  "streamed_names (Wide g) = gr_name g"
| "streamed_names (LongRow name row) = name"
| "streamed_names (Occupants table os) = table"

lemma stage_streamed_ok:
  assumes "rmp_ok (re_rm re)" "arrays_ok (re_rm re)" "all_ok (re_rm re) rows rc" "list_all (\<lambda>g. table_name (streamed_names g)) gs"
  shows "\<exists>new rc'. stage_streamed re gs finished ts wall rc = (Inr new, rc') \<and> all_ok (re_rm re) (rows @ new) rc'"
  using assms(3,4)
proof (induction gs arbitrary: finished rc rows)
  case Nil
  then show ?case by simp
next
  case (Cons x gs)
  from Cons.prems have gs: "list_all (\<lambda>g. table_name (streamed_names g)) gs" by simp
  have step: ?case
    if "table_name n" "n |\<notin>| finished" "f = (Inr new, rc1)" "advances (re_rm re) n (described (re_rm re) n rows) new rc rc1"
      "stage_streamed re (x # gs) finished ts wall rc =
        (case f of (Inl e, rc) \<Rightarrow> (Inl e, rc) | (Inr rows, rc) \<Rightarrow>
          (let (r, rc) = stage_streamed re gs (finsert n finished) ts wall rc in (map_sum id ((@) rows) r, rc)))"
    for n new rc1 f
    using Cons.IH [OF all_ok_advances [OF Cons.prems(1) that(1,4)] gs, of "finsert n finished"] that(3,5) by auto
  show ?case
  proof (cases x)
    case (Occupants table os)
    let ?s = "get_group table rc"
    let ?s' = "if st_long ?s = Some False then ?s else announce os ?s"
    have "table_name table" using Cons.prems(2) Occupants by simp
    from all_okD [OF Cons.prems(1) this] have "group_ok (described (re_rm re) table rows) ?s'" by (simp add: announce_ok)
    from all_ok_advances [OF Cons.prems(1) \<open>table_name table\<close> advances_quiet [OF this]]
    have "all_ok (re_rm re) rows (set_group table ?s' rc)" by simp
    from Cons.IH [OF this gs] show ?thesis using Occupants by (simp add: Let_def)
  next
    case (Wide g)
    show ?thesis
    proof (cases "gr_name g |\<in>| finished")
      case True
      with Cons.IH [OF Cons.prems(1) gs] Wide show ?thesis by simp
    next
      case False
      have n: "table_name (gr_name g)" using Cons.prems(2) Wide by simp
      obtain new rc1 where out: "stage_group re g ts wall rc = (Inr new, rc1)"
        "advances (re_rm re) (gr_name g) (described (re_rm re) (gr_name g) rows) new rc rc1"
        using stage_group_ok [OF assms(1,2) all_okD [OF Cons.prems(1) n]] by blast
      show ?thesis by (rule step [OF n False out]) (simp add: Wide False)
    qed
  next
    case (LongRow name row)
    show ?thesis
    proof (cases "name |\<in>| finished")
      case True
      with Cons.IH [OF Cons.prems(1) gs] LongRow show ?thesis by simp
    next
      case False
      have n: "table_name name" using Cons.prems(2) LongRow by simp
      obtain new rc1 where out: "stage_long_row re name row ts wall rc = (Inr new, rc1)"
        "advances (re_rm re) name (described (re_rm re) name rows) new rc rc1"
        using stage_long_row_ok [OF assms(1,2) all_okD [OF Cons.prems(1) n]] by blast
      show ?thesis by (rule step [OF n False out]) (simp add: LongRow False)
    qed
  qed
qed

text \<open>Rows of individual metrics go to their samplers' streams, whose names hold no \<open>/\<close>.\<close>

lemma stage_sampler_kept:
  assumes "stage_sampler re sampler entries ts wall rc = (r, rc')"
  shows "rc_groups rc' = rc_groups rc"
    "r = Inr new \<Longrightarrow> row \<in> set new \<Longrightarrow> CHR ''/'' \<notin> set (dr_stream row)"
  using assms by (auto simp: stage_sampler_def Let_def add_row_def split: if_splits option.splits prod.splits sum.splits)

lemma stage_samplers_kept:
  "stage_samplers re entries samplers ts wall rc = (r, rc') \<Longrightarrow> rc_groups rc' = rc_groups rc \<and>
     (\<forall>new. r = Inr new \<longrightarrow> (\<forall>row \<in> set new. CHR ''/'' \<notin> set (dr_stream row)))"
proof (induction samplers arbitrary: rc r rc')
  case Nil
  then show ?case by auto
next
  case (Cons x xs)
  obtain r1 rc1 where one: "stage_sampler re x (filter (\<lambda>e. sampler_of (ce_metadata e) = x) entries) ts wall rc = (r1, rc1)"
    by fastforce
  obtain r2 rc2 where two: "stage_samplers re entries xs ts wall rc1 = (r2, rc2)" by fastforce
  note kept = stage_sampler_kept [OF one] Cons.IH [OF two]
  show ?case
  proof (cases r1)
    case (Inl e)
    with Cons.prems one kept(1) show ?thesis by auto
  next
    case (Inr rows)
    then have r: "rc' = rc2" "r = map_sum id ((@) rows) r2" using Cons.prems one two by auto
    with kept Inr show ?thesis by (cases r2) auto
  qed
qed

lemma stage_flat_ok:
  assumes "all_ok rm rows rc" "stage_flat re f ts wall rc = (r, rc')"
  shows "all_ok rm rows rc'" "r = Inr new \<Longrightarrow> all_ok rm (rows @ new) rc'"
proof -
  note kept = stage_samplers_kept [OF assms(2) [unfolded stage_flat_def Let_def]]
  have "get_group n rc' = get_group n rc" for n using kept by (simp add: get_group_def)
  with assms(1) show one: "all_ok rm rows rc'" by (simp add: all_ok_def)
  show "all_ok rm (rows @ new) rc'" if "r = Inr new"
  proof -
    have away: "dr_stream row \<noteq> n \<and> dr_stream row \<noteq> stream_of n" if "table_name n" "row \<in> set new" for n row
    proof -
      have "CHR ''/'' \<notin> set (dr_stream row)" using kept \<open>r = Inr new\<close> that(2) by blast
      moreover have "CHR ''/'' \<in> set n" "CHR ''/'' \<in> set (stream_of n)" using that(1) by (simp_all add: table_name_def stream_of_def)
      ultimately show ?thesis by metis
    qed
    have "described rm n new = {}" "long_numbers rm n new = {}" if "table_name n" for n
      using said_by_others [of new n rm] away [OF that] by blast+
    with one show ?thesis by (simp add: all_ok_def)
  qed
qed

text \<open>Sealing forgets what the open segments carry, and no number.\<close>

lemma seal_stream_group: "group_ok D (get_group n rc) \<Longrightarrow> group_ok D (get_group n (seal_stream stream rc))"
proof -
  assume ok: "group_ok D (get_group n rc)"
  consider "get_group n (seal_stream stream rc) = get_group n rc"
    | "get_group n (seal_stream stream rc) = (get_group n rc)\<lparr>st_anchored := None\<rparr>"
    by (cases "fmlookup (rc_groups rc) stream"; cases "stream = n") (auto simp: seal_stream_def get_group_def)
  then show ?thesis
  proof cases
    case 2
    show ?thesis unfolding 2 by (rule group_ok_kept [OF ok]) simp_all
  qed (simp add: ok)
qed

lemma sealing_ok: "all_ok rm rows rc \<Longrightarrow> all_ok rm rows (sealing batch rc)"
  unfolding sealing_def
proof (induction batch arbitrary: rc)
  case (Cons x batch)
  from Cons.IH [OF all_ok_same_groups [OF Cons.prems seal_stream_group]] show ?case by simp
qed simp

lemma seal_batch_ok: "all_ok rm rows rc \<Longrightarrow> all_ok rm rows (snd (seal_batch re batch rc))"
  unfolding seal_batch_def snd_conv
  by (rule sealing_ok, erule all_ok_same_groups) (simp add: get_group_def rotate_def)

text \<open>What a recording does to a source, in any order; a snapshot that errs commits no rows.\<close>

datatype 'h rec_op = Stage "'h snapshot" u64 i64 | StageStreamed "'h streamed_group list" u64 i64 | MaybeSeal | EvictBefore u64

fun rec_step :: "('a, 'h) recording \<Rightarrow> 'h rec_op \<Rightarrow> 'a source_recorder \<Rightarrow> (string + dendro_row list) \<times> 'a source_recorder" where
  "rec_step re (Stage s ts wall) rc = stage re s ts wall rc"
| "rec_step re (StageStreamed gs ts wall) rc = stage_streamed re gs {||} ts wall rc"
| "rec_step re MaybeSeal rc = (Inr [], snd (maybe_seal re rc))"
| "rec_step re (EvictBefore cutoff) rc = (Inr [], snd (evict_before re cutoff rc))"

fun record_ops :: "('a, 'h) recording \<Rightarrow> 'h rec_op list \<Rightarrow> 'a source_recorder \<Rightarrow> dendro_row list \<times> 'a source_recorder" where
  "record_ops re [] rc = ([], rc)"
| "record_ops re (x # xs) rc =
     (let (r, rc) = rec_step re x rc; (rows, rc) = record_ops re xs rc
      in ((case r of Inl _ \<Rightarrow> [] | Inr new \<Rightarrow> new) @ rows, rc))"

definition fresh_recorder :: "'a source_recorder" where
  "fresh_recorder = \<lparr>rc_groups = fmempty, rc_samplers = fmempty, rc_accounts = fmempty, rc_opened = fmempty, rc_long = {||}\<rparr>"

fun op_names :: "'h rec_op \<Rightarrow> string list" where
  "op_names (Stage (V3 v) ts wall) = map gr_name (v3_groups v)"
| "op_names (StageStreamed gs ts wall) = map streamed_names gs"
| "op_names x = []"

lemma rec_step_ok:
  assumes "rmp_ok (re_rm re)" "arrays_ok (re_rm re)" "all_ok (re_rm re) rows rc" "list_all table_name (op_names x)"
    and "rec_step re x rc = (r, rc')"
  shows "all_ok (re_rm re) (rows @ (case r of Inl _ \<Rightarrow> [] | Inr new \<Rightarrow> new)) rc'"
proof (cases x)
  case (Stage s ts wall)
  show ?thesis
  proof (cases s)
    case (V3 v)
    have "list_all (\<lambda>g. table_name (gr_name g)) (v3_groups v)" using assms(4) Stage V3 by (simp add: list_all_iff)
    from stage_groups_ok [OF assms(1-3) this, where finished = "{||}" and ts = ts and wall = wall] assms(5) Stage V3
    show ?thesis by auto
  next
    case (V1 f)
    with assms(5) Stage have "stage_flat re f ts wall rc = (r, rc')" by simp
    from stage_flat_ok [OF assms(3) this] show ?thesis by (cases r) auto
  next
    case (V2 f)
    with assms(5) Stage have "stage_flat re f ts wall rc = (r, rc')" by simp
    from stage_flat_ok [OF assms(3) this] show ?thesis by (cases r) auto
  qed
next
  case (StageStreamed gs ts wall)
  have "list_all (\<lambda>g. table_name (streamed_names g)) gs" using assms(4) StageStreamed by (simp add: list_all_iff)
  from stage_streamed_ok [OF assms(1-3) this, where finished = "{||}" and ts = ts and wall = wall] assms(5) StageStreamed
  show ?thesis by auto
next
  case MaybeSeal
  with assms(3,5) show ?thesis by (auto simp: maybe_seal_def seal_batch_ok)
next
  case (EvictBefore cutoff)
  with assms(3,5) show ?thesis by (auto simp: evict_before_def Let_def case_prod_beta seal_batch_ok)
qed

lemma record_ops_ok:
  assumes "rmp_ok (re_rm re)" "arrays_ok (re_rm re)"
  shows "all_ok (re_rm re) rows rc \<Longrightarrow> list_all (\<lambda>x. list_all table_name (op_names x)) xs \<Longrightarrow>
    record_ops re xs rc = (new, rc') \<Longrightarrow> all_ok (re_rm re) (rows @ new) rc'"
proof (induction xs arbitrary: rows rc new rc')
  case Nil
  then show ?case by simp
next
  case (Cons x xs)
  obtain r rc1 where one: "rec_step re x rc = (r, rc1)" by fastforce
  obtain new2 rc2 where two: "record_ops re xs rc1 = (new2, rc2)" by fastforce
  from Cons.prems(2) have ok: "list_all table_name (op_names x)" "list_all (\<lambda>x. list_all table_name (op_names x)) xs" by simp_all
  from Cons.IH [OF rec_step_ok [OF assms Cons.prems(1) ok(1) one] ok(2) two] Cons.prems(3) one two show ?case by simp
qed

lemma fresh_all_ok [simp]: "all_ok rm [] fresh_recorder"
  by (simp add: all_ok_def get_group_def fresh_recorder_def)

text \<open>
  C18. Over any run of staging, streaming, sealing and eviction a table's occupants keep their numbers: of what
  the occupant stream's rows describe, two entries have one number just if they are one occupant (one uid, or one
  set of labels), and every occupant number in a long row is described there. The names are those of tables, which
  hold a slash and are no occupant stream's, and the numbers fit their width.
\<close>

theorem occupants_keep_their_numbers:
  assumes "rmp_ok (re_rm re)" "arrays_ok (re_rm re)"
    and "\<forall>x \<in> set ops. \<forall>n \<in> set (op_names x). table_name n"
    and "record_ops re ops fresh_recorder = (rows, rc)"
    and "table_name name" "size (fmdom (st_occupants (get_group name rc))) \<le> 2 ^ 64"
  shows "(\<forall>(n, l) \<in> described (re_rm re) name rows. \<forall>(n', l') \<in> described (re_rm re) name rows.
      n = n' \<longleftrightarrow> occupant_identity l = occupant_identity l') \<and>
    (\<forall>n \<in> long_numbers (re_rm re) name rows. \<exists>l. (n, l) \<in> described (re_rm re) name rows)"
proof -
  have "list_all (\<lambda>x. list_all table_name (op_names x)) ops" using assms(3) by (simp add: list_all_iff)
  from record_ops_ok [OF assms(1,2) fresh_all_ok this assms(4)] have all: "all_ok (re_rm re) rows rc" by simp
  let ?s = "get_group name rc"
  have ok: "group_ok (described (re_rm re) name rows) ?s"
    and said: "long_numbers (re_rm re) name rows \<subseteq> fst ` described (re_rm re) name rows"
    using all assms(5) by (simp_all add: all_ok_def)
  have held: "holds (occupant_identity l) n ?s" if "(n, l) \<in> described (re_rm re) name rows" for n l
    using group_okD(2) [OF ok that] .
  have apart: "i = i'" if "holds i n ?s" "holds i' n ?s" for i i' n
    using group_okD(1) [OF ok] assms(6) that unfolding numbers_apart_def by blast
  have one: "n = n'" if "holds i n ?s" "holds i n' ?s" for i n n'
    using that by (simp add: holds_def)
  have "n = n' \<longleftrightarrow> occupant_identity l = occupant_identity l'"
    if "(n, l) \<in> described (re_rm re) name rows" "(n', l') \<in> described (re_rm re) name rows" for n l n' l'
    using apart one held [OF that(1)] held [OF that(2)] by metis
  moreover have "\<exists>l. (n, l) \<in> described (re_rm re) name rows" if "n \<in> long_numbers (re_rm re) name rows" for n
    using subsetD [OF said that] by auto
  ultimately show ?thesis by blast
qed
end
