(* ===== verification/StreamWire.thy ===== *)
theory StreamWire
  imports Frames
begin

text \<open>
  Reading the stream from bytes (\<open>metriken-recorder/src/frames.rs\<close>): \<open>FrameDecoder\<close> cuts a body
  that arrives in chunks into frames, \<open>StreamSubscriber\<close> folds an interval's frames into rows, and
  \<open>Applied::passes\<close> groups the rows by stamp.

  The framing is dendro's: \<open>wire\<close> holds the constants and the decoder the code uses.
  The code reads a frame's length from the first four bytes once it holds \<open>LENGTH_PREFIX_BYTES\<close>, so it
  needs that constant to be four or more; \<open>wire_ok\<close> says that it is four.
\<close>

section \<open>Frames out of bytes\<close>

record wire =
  wi_magic :: "u8 list"                        \<comment> \<open>\<open>wire::MAGIC\<close>\<close>
  wi_version :: nat                            \<comment> \<open>\<open>wire::PROTOCOL_VERSION\<close>\<close>
  wi_prefix :: nat                             \<comment> \<open>\<open>wire::LENGTH_PREFIX_BYTES\<close>\<close>
  wi_max :: nat                                \<comment> \<open>\<open>wire::MAX_FRAME_BYTES\<close>\<close>
  wi_decode :: "u8 list \<Rightarrow> string + frame"     \<comment> \<open>\<open>wire::decode_payload\<close>\<close>

datatype wire_error =
    NotAStream
  | WrongVersion nat
  | FrameTooLong nat
  | Undecodable string

record frame_decoder =
  fd_buf :: "u8 list"
  fd_preamble_read :: bool

definition fd_new :: frame_decoder where
  "fd_new = \<lparr>fd_buf = [], fd_preamble_read = False\<rparr>"

definition le_nat :: "u8 list \<Rightarrow> nat" where
  "le_nat bytes = foldr (\<lambda>b n. unat b + 256 * n) bytes 0"

definition declared :: "u8 list \<Rightarrow> nat" where
  "declared buf = le_nat (take 4 buf)"

text \<open>The loop; a prefix of no bytes, with which it would not advance, ends it here.\<close>

function fd_loop :: "wire \<Rightarrow> u8 list \<Rightarrow> (wire_error + frame list) \<times> u8 list" where
  "fd_loop w buf =
     (if length buf < wi_prefix w \<or> wi_prefix w = 0 then (Inr [], buf)
      else if declared buf > wi_max w then (Inl (FrameTooLong (declared buf)), buf)
      else if length buf < wi_prefix w + declared buf then (Inr [], buf)
      else case wi_decode w (take (declared buf) (drop (wi_prefix w) buf)) of
          Inl e \<Rightarrow> (Inl (Undecodable e), buf)
        | Inr frame \<Rightarrow>
            (let (r, rest) = fd_loop w (drop (wi_prefix w + declared buf) buf) in (map_sum id (Cons frame) r, rest)))"
  by pat_completeness auto

termination
  by (relation "measure (\<lambda>(w, buf). length buf)") auto

declare fd_loop.simps [simp del]

definition fd_preamble :: "wire \<Rightarrow> u8 list \<Rightarrow> (wire_error + u8 list) option" where
  "fd_preamble w buf =
     (let want = length (wi_magic w) + 2 in
      if length buf < want then None
      else if take (length (wi_magic w)) buf \<noteq> wi_magic w then Some (Inl NotAStream)
      else let version = le_nat (take 2 (drop (length (wi_magic w)) buf)) in
        if version \<noteq> wi_version w then Some (Inl (WrongVersion version)) else Some (Inr (drop want buf)))"

definition fd_push :: "wire \<Rightarrow> u8 list \<Rightarrow> frame_decoder \<Rightarrow> (wire_error + frame list) \<times> frame_decoder" where
  "fd_push w chunk d =
     (let buf = fd_buf d @ chunk in
      if fd_preamble_read d
      then (let (r, rest) = fd_loop w buf in (r, d\<lparr>fd_buf := rest\<rparr>))
      else case fd_preamble w buf of
          None \<Rightarrow> (Inr [], d\<lparr>fd_buf := buf\<rparr>)
        | Some (Inl e) \<Rightarrow> (Inl e, d\<lparr>fd_buf := buf\<rparr>)
        | Some (Inr buf) \<Rightarrow>
            (let (r, rest) = fd_loop w buf in (r, \<lparr>fd_buf = rest, fd_preamble_read = True\<rparr>)))"

definition fd_pending :: "frame_decoder \<Rightarrow> nat" where
  "fd_pending d = length (fd_buf d)"

text \<open>A body's chunks, until one fails.\<close>

fun fd_run :: "wire \<Rightarrow> u8 list list \<Rightarrow> frame_decoder \<Rightarrow> (wire_error + frame list) \<times> frame_decoder" where
  "fd_run w [] d = (Inr [], d)"
| "fd_run w (c # cs) d =
     (case fd_push w c d of
        (Inl e, d) \<Rightarrow> (Inl e, d)
      | (Inr fs, d) \<Rightarrow> (let (r, d) = fd_run w cs d in (map_sum id ((@) fs) r, d)))"

section \<open>One interval's frames\<close>

record handshake =
  hs_uuid :: "string option"
  hs_labels :: smap
  hs_metadata :: smap
  hs_anchor :: u64
  hs_served :: "u64 option"

definition handshake_new :: "string option \<Rightarrow> smap \<Rightarrow> smap \<Rightarrow> u64 \<Rightarrow> handshake" where
  "handshake_new uuid labels metadata anchor =
     \<lparr>hs_uuid = uuid, hs_labels = labels, hs_metadata = metadata, hs_anchor = anchor, hs_served = None\<rparr>"

definition hs_epoch :: "handshake \<Rightarrow> string option" where
  "hs_epoch h = Option.bind (hs_uuid h) nonempty"

record applied =
  ap_seq :: u64
  ap_rows :: "dendro_row list"
  ap_gap :: bool

definition applied_default :: applied where
  "applied_default = \<lparr>ap_seq = 0, ap_rows = [], ap_gap = False\<rparr>"

record subscriber =
  ss_handshake :: "handshake option"
  ss_last_seq :: "u64 option"

definition ss_new :: subscriber where
  "ss_new = \<lparr>ss_handshake = None, ss_last_seq = None\<rparr>"

definition ss_set_served_interval :: "u64 option \<Rightarrow> subscriber \<Rightarrow> subscriber" where
  "ss_set_served_interval served s =
     s\<lparr>ss_handshake := map_option (\<lambda>h. h\<lparr>hs_served := served\<rparr>) (ss_handshake s)\<rparr>"

datatype apply_error = SourceChanged "string option" "string option" | UnexpectedFrame string

fun frame_kind :: "frame \<Rightarrow> string" where
  "frame_kind (FHandshake _) = ''handshake''"
| "frame_kind FIndex = ''index''"
| "frame_kind (FRows _) = ''rows''"
| "frame_kind FSegment = ''segment''"
| "frame_kind FClockOffset = ''clock offset''"
| "frame_kind FUnknown = ''kind this recorder was not written for''"

definition saturating_add :: "u64 \<Rightarrow> u64 \<Rightarrow> u64" where
  "saturating_add a b = (case checked_add a b of None \<Rightarrow> u64_max | Some c \<Rightarrow> c)"

text \<open>\<open>u64::try_from(..).unwrap_or(0)\<close> of a signed number.\<close>

definition nonnegative :: "i64 \<Rightarrow> u64" where
  "nonnegative a = (if sint a < 0 then 0 else a)"

fun ss_frame :: "frame \<Rightarrow> subscriber \<times> applied \<Rightarrow> apply_error + subscriber \<times> applied" where
  "ss_frame (FHandshake f) (s, out) =
     (case ss_handshake s of
        Some existing \<Rightarrow>
          (if hs_uuid existing \<noteq> hf_uuid f then Inl (SourceChanged (hs_uuid existing) (hf_uuid f))
           else Inr (s\<lparr>ss_handshake := Some ((handshake_new (hf_uuid f) (hf_labels f) (hf_metadata f)
                  (nonnegative (hf_anchor f)))\<lparr>hs_served := hs_served existing\<rparr>)\<rparr>, out))
      | None \<Rightarrow> Inr (s\<lparr>ss_handshake := Some (handshake_new (hf_uuid f) (hf_labels f) (hf_metadata f)
                  (nonnegative (hf_anchor f)))\<rparr>, out))"
| "ss_frame FIndex (s, out) = Inr (s, out)"
| "ss_frame (FRows f) (s, out) =
     Inr (s\<lparr>ss_last_seq := Some (rf_seq f)\<rparr>,
          out\<lparr>ap_gap := (case ss_last_seq s of None \<Rightarrow> ap_gap out | Some prev \<Rightarrow> rf_seq f > saturating_add prev 1),
              ap_seq := rf_seq f, ap_rows := ap_rows out @ rf_rows f\<rparr>)"
| "ss_frame f (s, out) = Inl (UnexpectedFrame (frame_kind f))"

fun ss_apply_from :: "frame list \<Rightarrow> subscriber \<times> applied \<Rightarrow> apply_error + subscriber \<times> applied" where
  "ss_apply_from [] st = Inr st"
| "ss_apply_from (f # fs) st = (case ss_frame f st of Inl e \<Rightarrow> Inl e | Inr st \<Rightarrow> ss_apply_from fs st)"

definition ss_apply :: "frame list \<Rightarrow> subscriber \<Rightarrow> apply_error + subscriber \<times> applied" where
  "ss_apply fs s = ss_apply_from fs (s, applied_default)"

record stream_pass =
  sp_ts :: u64
  sp_wall_offset :: i64
  sp_rows :: "dendro_row list"

text \<open>The \<open>BTreeMap\<close> from stamps, which are signed; a stamp that gets this far is not negative.\<close>

definition by_stamp_add :: "dendro_row \<Rightarrow> (u64, i64 \<times> dendro_row list) fmap \<Rightarrow> (u64, i64 \<times> dendro_row list) fmap" where
  "by_stamp_add row m =
     (case fmlookup m (dr_ts row) of
        None \<Rightarrow> fmupd (dr_ts row) (dr_wall_offset row, [row]) m
      | Some (wall, rows) \<Rightarrow> fmupd (dr_ts row) (wall, rows @ [row]) m)"

fun by_stamp :: "dendro_row list \<Rightarrow> (u64, i64 \<times> dendro_row list) fmap \<Rightarrow>
    dendro_row + (u64, i64 \<times> dendro_row list) fmap" where
  "by_stamp [] m = Inr m"
| "by_stamp (row # rows) m = (if sint (dr_ts row) < 0 then Inl row else by_stamp rows (by_stamp_add row m))"

definition ap_passes :: "applied \<Rightarrow> dendro_row + stream_pass list" where
  "ap_passes a = map_sum id
     (\<lambda>m. map (\<lambda>(ts, wall, rows). \<lparr>sp_ts = ts, sp_wall_offset = wall, sp_rows = rows\<rparr>) (map_entries m))
     (by_stamp (ap_rows a) fmempty)"

text \<open>\<open>saturating_add\<close> on signed numbers, and the newest row's wall clock.\<close>

definition wall_ns :: "dendro_row \<Rightarrow> u64" where
  "wall_ns r = of_int (max 0 (min (sint (dr_ts r) + sint (dr_wall_offset r)) (2 ^ 63 - 1)))"

definition ap_newest_wall_ns :: "applied \<Rightarrow> u64 option" where
  "ap_newest_wall_ns a = (if ap_rows a = [] then None else Some (Max (wall_ns ` set (ap_rows a))))"

section \<open>However the body is cut\<close>

definition wire_ok :: "wire \<Rightarrow> bool" where
  "wire_ok w \<longleftrightarrow> wi_prefix w = 4"

lemma map_sum_Cons: "map_sum id (Cons f) (map_sum id ((@) fs) r) = map_sum id ((@) (f # fs)) r"
  by (cases r) simp_all

lemma map_sum_Nil [simp]: "map_sum id ((@) []) r = r"
  by (cases r) simp_all

lemma fd_loop_append:
  assumes "wire_ok w"
  shows "(fst (fd_loop w (xs @ ys)) = (case fd_loop w xs of (Inl e, _) \<Rightarrow> Inl e
        | (Inr fs, rest) \<Rightarrow> map_sum id ((@) fs) (fst (fd_loop w (rest @ ys))))) \<and>
    (\<forall>fs rest. fd_loop w xs = (Inr fs, rest) \<longrightarrow> snd (fd_loop w (xs @ ys)) = snd (fd_loop w (rest @ ys)))"
proof (induction xs rule: measure_induct_rule [of length])
  case (less xs)
  let ?len = "declared xs"
  consider (short) "length xs < 4"
    | (long) "4 \<le> length xs" "?len > wi_max w"
    | (partial) "4 \<le> length xs" "?len \<le> wi_max w" "length xs < 4 + ?len"
    | (whole) "4 \<le> length xs" "?len \<le> wi_max w" "4 + ?len \<le> length xs"
    by linarith
  then show ?case
  proof cases
    case short
    then have "fd_loop w xs = (Inr [], xs)" using assms by (subst fd_loop.simps) (simp add: wire_ok_def)
    then show ?thesis by (cases "fst (fd_loop w (xs @ ys))") simp_all
  next
    case partial
    then have "fd_loop w xs = (Inr [], xs)" using assms by (subst fd_loop.simps) (simp add: wire_ok_def)
    then show ?thesis by (cases "fst (fd_loop w (xs @ ys))") simp_all
  next
    case long
    then have same: "declared (xs @ ys) = ?len" by (simp add: declared_def)
    with long assms have "fd_loop w xs = (Inl (FrameTooLong ?len), xs)"
        "fd_loop w (xs @ ys) = (Inl (FrameTooLong ?len), xs @ ys)"
      by (subst fd_loop.simps, simp add: wire_ok_def)+
    then show ?thesis by simp
  next
    case whole
    then have same: "declared (xs @ ys) = ?len" by (simp add: declared_def)
    let ?payload = "take ?len (drop 4 xs)" and ?rest = "drop (4 + ?len) xs"
    have cut: "take ?len (drop 4 (xs @ ys)) = ?payload" "drop (4 + ?len) (xs @ ys) = ?rest @ ys"
      using whole by simp_all
    have one: "fd_loop w xs = (case wi_decode w ?payload of Inl e \<Rightarrow> (Inl (Undecodable e), xs)
        | Inr f \<Rightarrow> (let (r, rest) = fd_loop w ?rest in (map_sum id (Cons f) r, rest)))"
      using whole assms by (subst fd_loop.simps) (simp add: wire_ok_def cong: sum.case_cong)
    have both: "fd_loop w (xs @ ys) = (case wi_decode w ?payload of Inl e \<Rightarrow> (Inl (Undecodable e), xs @ ys)
        | Inr f \<Rightarrow> (let (r, rest) = fd_loop w (?rest @ ys) in (map_sum id (Cons f) r, rest)))"
      using whole assms by (subst fd_loop.simps) (simp add: wire_ok_def same cut cong: sum.case_cong)
    show ?thesis
    proof (cases "wi_decode w ?payload")
      case (Inl e)
      with one both show ?thesis by simp
    next
      case (Inr f)
      have "length ?rest < length xs" using whole by simp
      note ih = less.IH [OF this]
      obtain r rest where rest: "fd_loop w ?rest = (r, rest)" by (meson surj_pair)
      show ?thesis
        using ih one both Inr rest
        by (cases r) (auto simp: case_prod_beta map_sum_Cons)
    qed
  qed
qed

lemma fd_loop_settled:
  assumes "wire_ok w" "fd_loop w xs = (Inr fs, rest)"
  shows "fd_loop w rest = (Inr [], rest)"
  using assms(2)
proof (induction xs arbitrary: fs rule: measure_induct_rule [of length])
  case (less xs)
  show ?case
  proof (cases "length xs < 4 \<or> length xs < 4 + declared xs \<and> declared xs \<le> wi_max w")
    case True
    then have "fd_loop w xs = (Inr [], xs)" using assms(1) by (subst fd_loop.simps) (auto simp: wire_ok_def)
    with less.prems show ?thesis by simp
  next
    case False
    let ?rest = "drop (4 + declared xs) xs"
    obtain fs' where "fd_loop w ?rest = (Inr fs', rest)"
      using less.prems False assms(1)
      by (subst (asm) fd_loop.simps)
        (auto simp: wire_ok_def Let_def case_prod_beta prod_eq_iff map_sum_def split: if_splits sum.splits)
    with less.IH [of ?rest] False show ?thesis by auto
  qed
qed

text \<open>What a push does with two chunks glued together is what it does with one after the other.\<close>

lemma fd_preamble_append:
  "fd_preamble w xs = Some (Inl e) \<Longrightarrow> fd_preamble w (xs @ ys) = Some (Inl e)"
  "fd_preamble w xs = Some (Inr rest) \<Longrightarrow> fd_preamble w (xs @ ys) = Some (Inr (rest @ ys))"
  by (auto simp: fd_preamble_def Let_def split: if_splits)

definition settled :: "wire \<Rightarrow> frame_decoder \<Rightarrow> bool" where
  "settled w d \<longleftrightarrow> (if fd_preamble_read d then fd_loop w (fd_buf d) = (Inr [], fd_buf d)
     else fd_preamble w (fd_buf d) = None)"

lemma settled_new [simp]: "settled w fd_new"
  by (simp add: settled_def fd_new_def fd_preamble_def)

lemma settled_push:
  assumes "wire_ok w" "fd_push w c d = (Inr fs, d')"
  shows "settled w d'"
  using assms(2)
  by (auto simp: fd_push_def settled_def Let_def split: if_splits option.splits sum.splits prod.splits
      intro: fd_loop_settled [OF assms(1)])

lemma fd_push_append:
  assumes "wire_ok w"
  shows "fst (fd_push w (a @ b) d) = (case fd_push w a d of (Inl e, _) \<Rightarrow> Inl e
      | (Inr fs, d') \<Rightarrow> map_sum id ((@) fs) (fst (fd_push w b d')))" (is ?frames)
    and "fd_push w a d = (Inr fs, d') \<Longrightarrow> snd (fd_push w (a @ b) d) = snd (fd_push w b d')"
proof -
  note loop = fd_loop_append [OF assms]
  consider (read) "fd_preamble_read d"
    | (wait) "\<not> fd_preamble_read d" "fd_preamble w (fd_buf d @ a) = None"
    | (bad) e where "\<not> fd_preamble_read d" "fd_preamble w (fd_buf d @ a) = Some (Inl e)"
    | (begun) rest where "\<not> fd_preamble_read d" "fd_preamble w (fd_buf d @ a) = Some (Inr rest)"
    by (metis option.exhaust sum.exhaust)
  then have "?frames \<and>
      (fd_push w a d = (Inr fs, d') \<longrightarrow> snd (fd_push w (a @ b) d) = snd (fd_push w b d'))"
  proof cases
    case read
    with loop [of "fd_buf d @ a" b] show ?thesis
      by (auto simp: fd_push_def case_prod_beta Let_def prod_eq_iff split: sum.splits)
  next
    case wait
    then show ?thesis
      by (auto simp: fd_push_def case_prod_beta Let_def sum.map_ident split: sum.splits option.splits)
  next
    case bad
    with fd_preamble_append(1) [OF bad(2), of b] show ?thesis by (simp add: fd_push_def)
  next
    case begun
    obtain r left where "fd_loop w rest = (r, left)" by (meson surj_pair)
    with begun fd_preamble_append(2) [OF begun(2), of b] loop [of rest b] show ?thesis
      by (auto simp: fd_push_def case_prod_beta Let_def split: sum.splits)
  qed
  then show ?frames
      and "fd_push w a d = (Inr fs, d') \<Longrightarrow> snd (fd_push w (a @ b) d) = snd (fd_push w b d')"
    by blast+
qed

lemma fd_run_concat:
  assumes "wire_ok w"
  shows "settled w d \<Longrightarrow> fst (fd_run w cs d) = fst (fd_push w (concat cs) d)"
    and "settled w d \<Longrightarrow> fd_run w cs d = (Inr fs, d') \<Longrightarrow> snd (fd_push w (concat cs) d) = d'"
proof -
  have "\<forall>fs d'. settled w d \<longrightarrow> fst (fd_run w cs d) = fst (fd_push w (concat cs) d) \<and>
      (fd_run w cs d = (Inr fs, d') \<longrightarrow> snd (fd_push w (concat cs) d) = d')"
  proof (induction cs arbitrary: d)
    case Nil
    then show ?case
      by (auto simp: settled_def fd_push_def Let_def split: if_splits)
  next
    case (Cons c cs)
    show ?case
    proof (cases "fd_push w c d")
      case (Pair r d1)
      show ?thesis
      proof (cases r)
        case (Inl e)
        with Pair fd_push_append(1) [OF assms, of c "concat cs" d] show ?thesis by simp
      next
        case (Inr gs)
        have "settled w d1" using settled_push [OF assms] Pair Inr by blast
        with Cons.IH [of d1] Pair Inr fd_push_append(1) [OF assms, of c "concat cs" d]
          fd_push_append(2) [OF assms, of c d gs d1 "concat cs"]
        show ?thesis by (auto simp: case_prod_beta map_sum_def prod_eq_iff split: sum.splits)
      qed
    qed
  qed
  then show "settled w d \<Longrightarrow> fst (fd_run w cs d) = fst (fd_push w (concat cs) d)"
      and "settled w d \<Longrightarrow> fd_run w cs d = (Inr fs, d') \<Longrightarrow> snd (fd_push w (concat cs) d) = d'"
    by blast+
qed

text \<open>
  How a response body is cut into chunks does not matter: pushing the chunks one after the other
  gives the frames, or the error, that pushing the whole body at once gives.
\<close>

theorem chunks_do_not_matter:
  assumes "wire_ok w"
  shows "fst (fd_run w chunks fd_new) = fst (fd_push w (concat chunks) fd_new)"
  by (rule fd_run_concat(1) [OF assms settled_new])

section \<open>What a producer writes is read back\<close>

fun le_bytes :: "nat \<Rightarrow> nat \<Rightarrow> u8 list" where
  "le_bytes 0 n = []"
| "le_bytes (Suc k) n = of_nat (n mod 256) # le_bytes k (n div 256)"

lemma length_le_bytes [simp]: "length (le_bytes k n) = k"
  by (induction k arbitrary: n) simp_all

lemma le_nat_bytes: "n < 256 ^ k \<Longrightarrow> le_nat (le_bytes k n) = n"
proof (induction k arbitrary: n)
  case 0
  then show ?case by (simp add: le_nat_def)
next
  case (Suc k)
  then have "n div 256 < 256 ^ k" by (simp add: div_less_iff_less_mult mult.commute)
  with Suc.IH show ?case by (simp add: le_nat_def unat_of_nat)
qed

text \<open>A body: the preamble, whole frames, and the beginning of one more that the connection cut off.\<close>

definition preamble :: "wire \<Rightarrow> u8 list" where
  "preamble w = wi_magic w @ le_bytes 2 (wi_version w)"

definition framed :: "u8 list \<Rightarrow> u8 list" where
  "framed payload = le_bytes 4 (length payload) @ payload"

definition fits :: "wire \<Rightarrow> u8 list \<Rightarrow> bool" where
  "fits w payload \<longleftrightarrow> length payload \<le> wi_max w \<and> length payload < 2 ^ 32"

definition cut_short :: "wire \<Rightarrow> u8 list \<Rightarrow> bool" where
  "cut_short w tail \<longleftrightarrow> (\<exists>payload n. fits w payload \<and> n < length (framed payload) \<and> tail = take n (framed payload))"

lemma declared_framed: "fits w p \<Longrightarrow> declared (framed p @ rest) = length p"
  by (simp add: declared_def framed_def fits_def le_nat_bytes)

lemma fd_loop_cut_short:
  assumes "wire_ok w" "cut_short w tail"
  shows "fd_loop w tail = (Inr [], tail)"
proof -
  obtain p n where p: "fits w p" "n < length (framed p)" "tail = take n (framed p)"
    using assms(2) by (auto simp: cut_short_def)
  show ?thesis
  proof (cases "length tail < 4")
    case True
    with assms(1) show ?thesis by (subst fd_loop.simps) (simp add: wire_ok_def)
  next
    case False
    then have "declared tail = length p"
      using p declared_framed [OF p(1), of "[]"] by (simp add: declared_def min_def)
    with False p assms(1) show ?thesis
      by (subst fd_loop.simps) (simp add: wire_ok_def fits_def framed_def)
  qed
qed

lemma fd_loop_frames:
  assumes "wire_ok w" "list_all (fits w) ps" "map (wi_decode w) ps = map Inr fs" "cut_short w tail"
  shows "fd_loop w (concat (map framed ps) @ tail) = (Inr fs, tail)"
  using assms(2,3)
proof (induction ps arbitrary: fs)
  case Nil
  with fd_loop_cut_short [OF assms(1,4)] show ?case by simp
next
  case (Cons p ps)
  then obtain f gs where fs: "fs = f # gs" "wi_decode w p = Inr f" "map (wi_decode w) ps = map Inr gs"
    by (cases fs) auto
  let ?rest = "concat (map framed ps) @ tail"
  have "declared (framed p @ ?rest) = length p" using Cons.prems(1) by (simp add: declared_framed [of w])
  moreover have "length (framed p) = 4 + length p" by (simp add: framed_def)
  moreover have "take (length p) (drop 4 (framed p @ ?rest)) = p" by (simp add: framed_def)
  moreover have "fd_loop w ?rest = (Inr gs, tail)" using Cons fs by simp
  ultimately show ?case
    using Cons.prems(1) assms(1) fs
    by (subst fd_loop.simps) (simp add: wire_ok_def fits_def)
qed

text \<open>
  C23. A body that is the preamble, frames of at most the largest size and the beginning of one more frame
  is read as exactly those frames, however it is cut into chunks, and the decoder says how many bytes of
  the unfinished frame it holds.
\<close>

theorem frames_survive_the_wire:
  assumes "wire_ok w" "wi_version w < 2 ^ 16"
    and "list_all (fits w) payloads" "map (wi_decode w) payloads = map Inr frames"
    and "cut_short w tail"
    and "concat chunks = preamble w @ concat (map framed payloads) @ tail"
  shows "fst (fd_run w chunks fd_new) = Inr frames \<and>
    fd_pending (snd (fd_run w chunks fd_new)) = length tail"
proof -
  have "fd_preamble w (concat chunks) = Some (Inr (concat (map framed payloads) @ tail))"
    using assms(2) by (simp add: assms(6) fd_preamble_def preamble_def le_nat_bytes Let_def)
  then have whole: "fd_push w (concat chunks) fd_new = (Inr frames, \<lparr>fd_buf = tail, fd_preamble_read = True\<rparr>)"
    using fd_loop_frames [OF assms(1,3,4,5)] by (simp add: fd_push_def fd_new_def)
  then have "fst (fd_run w chunks fd_new) = Inr frames"
    using fd_run_concat(1) [OF assms(1) settled_new] by simp
  then obtain d where d: "fd_run w chunks fd_new = (Inr frames, d)" by (metis prod.collapse)
  with fd_run_concat(2) [OF assms(1) settled_new d] whole show ?thesis by (auto simp: fd_pending_def)
qed

section \<open>The passes of an interval\<close>

definition stamped :: "u64 \<Rightarrow> dendro_row list \<Rightarrow> dendro_row list" where
  "stamped ts rows = filter (\<lambda>r. dr_ts r = ts) rows"

definition pass_at :: "u64 \<Rightarrow> dendro_row list \<Rightarrow> stream_pass" where
  "pass_at ts rows = \<lparr>sp_ts = ts, sp_wall_offset = dr_wall_offset (hd (stamped ts rows)), sp_rows = stamped ts rows\<rparr>"

lemma by_stamp_error:
  "find (\<lambda>r. sint (dr_ts r) < 0) rows = Some r \<Longrightarrow> by_stamp rows m = Inl r"
  by (induction rows arbitrary: m) (auto split: if_splits)

lemma by_stamp_rows:
  assumes "find (\<lambda>r. sint (dr_ts r) < 0) rows = None"
  obtains m' where "by_stamp rows m = Inr m'"
    and "fmlookup m' ts = (case fmlookup m ts of
        None \<Rightarrow> if stamped ts rows = [] then None else Some (dr_wall_offset (hd (stamped ts rows)), stamped ts rows)
      | Some (wall, old) \<Rightarrow> Some (wall, old @ stamped ts rows))"
  using assms
proof (induction rows arbitrary: m thesis)
  case Nil
  then show ?case by (auto simp: stamped_def split: option.splits)
next
  case (Cons r rows)
  then have pos: "\<not> sint (dr_ts r) < 0" "find (\<lambda>r. sint (dr_ts r) < 0) rows = None"
    by (auto split: if_splits)
  obtain m' where "by_stamp rows (by_stamp_add r m) = Inr m'"
    and "fmlookup m' ts = (case fmlookup (by_stamp_add r m) ts of
        None \<Rightarrow> if stamped ts rows = [] then None else Some (dr_wall_offset (hd (stamped ts rows)), stamped ts rows)
      | Some (wall, old) \<Rightarrow> Some (wall, old @ stamped ts rows))"
    using Cons.IH [OF _ pos(2)] by blast
  with pos(1) show ?case
    by (intro Cons.prems(1)) (auto simp: by_stamp_add_def stamped_def split: option.splits if_splits)
qed

text \<open>
  The passes of an interval: an interval with a row stamped before the epoch is refused, naming the
  first such row; any other gives one pass for each stamp its rows have, the earliest first, which holds
  the rows of that stamp in the order they arrived and the wall offset of the first of them.
\<close>

theorem passes_collect_the_rows_by_stamp:
  "ap_passes a = (case find (\<lambda>r. sint (dr_ts r) < 0) (ap_rows a) of
      Some r \<Rightarrow> Inl r
    | None \<Rightarrow> Inr (map (\<lambda>ts. pass_at ts (ap_rows a)) (sorted_list_of_set (dr_ts ` set (ap_rows a)))))"
proof (cases "find (\<lambda>r. sint (dr_ts r) < 0) (ap_rows a)")
  case (Some r)
  then show ?thesis by (simp add: ap_passes_def by_stamp_error)
next
  case None
  let ?rows = "ap_rows a"
  obtain m where m: "by_stamp ?rows fmempty = Inr m"
    using by_stamp_rows [OF None] by metis
  have lookup: "fmlookup m ts =
      (if stamped ts ?rows = [] then None else Some (dr_wall_offset (hd (stamped ts ?rows)), stamped ts ?rows))" for ts
    using by_stamp_rows [OF None, of fmempty ts] m by force
  have dom: "fset (fmdom m) = dr_ts ` set ?rows"
    by (auto simp: fmlookup_dom_iff lookup stamped_def filter_empty_conv split: if_splits)
  have "stamped ts ?rows \<noteq> []" if "ts \<in> dr_ts ` set ?rows" for ts
    using that by (auto simp: stamped_def filter_empty_conv)
  then have "map (\<lambda>(ts, wall, rows). \<lparr>sp_ts = ts, sp_wall_offset = wall, sp_rows = rows\<rparr>) (map_entries m)
      = map (\<lambda>ts. pass_at ts ?rows) (sorted_list_of_set (dr_ts ` set ?rows))"
    by (simp add: map_entries_def sorted_list_of_fset.rep_eq dom lookup pass_at_def comp_def cong: map_cong)
  with None m show ?thesis by (simp add: ap_passes_def)
qed

end
