(* ===== verification/Subscription.thy ===== *)
theory Subscription
  imports Frames
begin

text \<open>
  Serving the stream (\<open>metriken-exposition/src/stream/clock.rs\<close> and \<open>route.rs\<close>, with the
  names of \<open>metriken-model/src/wire.rs\<close>): the request's query string, one subscription's deadlines,
  interval indices and frames, and the cache of passes that subscriptions share.

  A \<open>Duration\<close> is a number of nanoseconds, a \<open>SystemTime\<close> the (signed) nanoseconds since
  the Unix epoch. \<open>u64\<close> sums wrap, as they do in a release build; \<open>no_wrap\<close> below says when
  they do not. The \<open>humantime\<close> crate's parser and formatter and dendro's encoder are parameters.
  Log lines are left out, as is the \<open>debug_assert\<close> of \<open>negotiated\<close>.
\<close>

section \<open>The clock\<close>

definition align_wait :: "nat \<Rightarrow> nat \<Rightarrow> nat" where
  "align_wait now_ns period =
     (if period = 0 then 0 else min (period - now_ns mod period) (2 ^ 64 - 1))"

definition interval_index :: "u64 \<Rightarrow> nat \<Rightarrow> u64" where
  "interval_index wall_ns interval = wall_ns div max (of_nat interval) 1"

definition monotonic_interval_index :: "u64 \<Rightarrow> nat \<Rightarrow> u64 option \<Rightarrow> u64" where
  "monotonic_interval_index wall_ns interval prev =
     (let measured = interval_index wall_ns interval
      in case prev of Some previous \<Rightarrow> if measured \<le> previous then previous + 1 else measured | None \<Rightarrow> measured)"

section \<open>The request\<close>

datatype layout = Wide | Long

fun as_str :: "layout \<Rightarrow> string" where
  "as_str Wide = ''wide''"
| "as_str Long = ''long''"

record wire_names =
  wn_content_type :: string
  wn_frame_interval :: string
  wn_update_floor :: string
  wn_layout :: string

definition HANDSHAKE_FRAME_INTERVAL :: string where
  "HANDSHAKE_FRAME_INTERVAL = ''metriken.frame_interval''"

definition HANDSHAKE_UPDATE_FLOOR :: string where
  "HANDSHAKE_UPDATE_FLOOR = ''metriken.update_floor''"

definition WIRE_NAMES :: wire_names where
  "WIRE_NAMES = \<lparr>wn_content_type = ''application/vnd.metriken.replication.v1+dendro'',
     wn_frame_interval = ''x-metriken-frame-interval'', wn_update_floor = ''x-metriken-update-floor'',
     wn_layout = ''x-metriken-layout''\<rparr>"

text \<open>The refusals, all of status 400.\<close>

datatype refusal =
    DuplicateParameter string
  | ZeroInterval
  | BadInterval string string
  | BadLayout string

definition refusal_status :: "refusal \<Rightarrow> nat" where
  "refusal_status r = 400"

record stream_request =
  rq_interval :: nat
  rq_layout :: layout

definition stream_request_default :: stream_request where
  "stream_request_default = \<lparr>rq_interval = 1000000000, rq_layout = Wide\<rparr>"

text \<open>The standard library's: UTF-8, hexadecimal digits, and splitting a string.\<close>

definition continuation :: "char \<Rightarrow> bool" where
  "continuation c \<longleftrightarrow> 0x80 \<le> (of_char c :: nat) \<and> of_char c < (0xC0 :: nat)"

fun valid_utf8 :: "string \<Rightarrow> bool" where
  "valid_utf8 [] = True"
| "valid_utf8 (a # s) =
     (let n = (of_char a :: nat)
      in if n < 0x80 then valid_utf8 s
         else case s of
             [] \<Rightarrow> False
           | b # s1 \<Rightarrow>
               (if 0xC2 \<le> n \<and> n < 0xE0 then continuation b \<and> valid_utf8 s1
                else case s1 of
                    [] \<Rightarrow> False
                  | c # s2 \<Rightarrow>
                      (if 0xE0 \<le> n \<and> n < 0xF0
                       then continuation b \<and> (n = 0xE0 \<longrightarrow> 0xA0 \<le> (of_char b :: nat)) \<and>
                         (n = 0xED \<longrightarrow> (of_char b :: nat) < 0xA0) \<and> continuation c \<and> valid_utf8 s2
                       else case s2 of
                           [] \<Rightarrow> False
                         | d # s3 \<Rightarrow> 0xF0 \<le> n \<and> n < 0xF5 \<and> continuation b \<and>
                             (n = 0xF0 \<longrightarrow> 0x90 \<le> (of_char b :: nat)) \<and> (n = 0xF4 \<longrightarrow> (of_char b :: nat) < 0x90) \<and>
                             continuation c \<and> continuation d \<and> valid_utf8 s3)))"

definition hex_digit :: "char \<Rightarrow> nat option" where
  "hex_digit c =
     (let n = (of_char c :: nat)
      in if 48 \<le> n \<and> n < 58 then Some (n - 48)
         else if 65 \<le> n \<and> n < 71 then Some (n - 55)
         else if 97 \<le> n \<and> n < 103 then Some (n - 87) else None)"

text \<open>\<open>u8::from_str_radix(h, 16)\<close> of a string of two bytes, which takes a leading plus sign.\<close>

definition hex_byte :: "char \<Rightarrow> char \<Rightarrow> nat option" where
  "hex_byte a b =
     (if a = CHR ''+'' then hex_digit b
      else case (hex_digit a, hex_digit b) of (Some h, Some l) \<Rightarrow> Some (16 * h + l) | _ \<Rightarrow> None)"

fun decode_bytes :: "string \<Rightarrow> string" where
  "decode_bytes [] = []"
| "decode_bytes (c # s) =
     (if c = CHR ''+'' then CHR '' '' # decode_bytes s
      else if c = CHR ''%'' then
        (case s of
           a # b # s' \<Rightarrow>
             (case hex_byte a b of
                Some v \<Rightarrow> char_of v # decode_bytes s'
              | None \<Rightarrow> CHR ''%'' # decode_bytes (a # b # s'))
         | _ \<Rightarrow> CHR ''%'' # decode_bytes s)
      else c # decode_bytes s)"

definition percent_decode :: "string \<Rightarrow> string" where
  "percent_decode s = (let out = decode_bytes s in if valid_utf8 out then out else s)"

definition split_once :: "char \<Rightarrow> string \<Rightarrow> (string \<times> string) option" where
  "split_once c s =
     (case dropWhile (\<lambda>x. x \<noteq> c) s of [] \<Rightarrow> None | _ # rest \<Rightarrow> Some (takeWhile (\<lambda>x. x \<noteq> c) s, rest))"

text \<open>\<open>parse\<close>: the loop over the parameters, then the two values.\<close>

fun parse_pairs :: "string list \<Rightarrow> string option \<times> string option \<Rightarrow> refusal + string option \<times> string option" where
  "parse_pairs [] slots = Inr slots"
| "parse_pairs (p # ps) (interval, layout) =
     (let (key, v) = (case split_once (CHR ''='') p of None \<Rightarrow> (p, []) | Some kv \<Rightarrow> kv)
      in if percent_decode key = ''interval''
         then (if interval \<noteq> None then Inl (DuplicateParameter (percent_decode key))
               else parse_pairs ps (Some (percent_decode v), layout))
         else if percent_decode key = ''layout''
         then (if layout \<noteq> None then Inl (DuplicateParameter (percent_decode key))
               else parse_pairs ps (interval, Some (percent_decode v)))
         else parse_pairs ps (interval, layout))"

definition request_interval :: "(string \<Rightarrow> string + nat) \<Rightarrow> string option \<Rightarrow> refusal + nat" where
  "request_interval humantime s =
     (case s of
        None \<Rightarrow> Inr 1000000000
      | Some s \<Rightarrow>
          (case humantime s of
             Inl e \<Rightarrow> Inl (BadInterval s e)
           | Inr d \<Rightarrow> if d = 0 then Inl ZeroInterval else Inr d))"

definition request_layout :: "string option \<Rightarrow> refusal + layout" where
  "request_layout s =
     (case s of
        None \<Rightarrow> Inr Wide
      | Some s \<Rightarrow> if s = ''wide'' then Inr Wide else if s = ''long'' then Inr Long else Inl (BadLayout s))"

definition strip_question :: "string \<Rightarrow> string" where
  "strip_question query = (case query of c # s \<Rightarrow> if c = CHR ''?'' then s else query | [] \<Rightarrow> [])"

definition parse_request :: "(string \<Rightarrow> string + nat) \<Rightarrow> string \<Rightarrow> refusal + stream_request" where
  "parse_request humantime query =
     (case parse_pairs (filter (\<lambda>p. p \<noteq> []) (split_on (CHR ''&'') (strip_question query))) (None, None) of
        Inl e \<Rightarrow> Inl e
      | Inr (interval, layout) \<Rightarrow>
          (case request_interval humantime interval of
             Inl e \<Rightarrow> Inl e
           | Inr i \<Rightarrow> map_sum id (\<lambda>l. \<lparr>rq_interval = i, rq_layout = l\<rparr>) (request_layout layout)))"

section \<open>A subscription\<close>

record pass_stamp =
  ps_wall_ns :: u64
  ps_ts :: i64
  ps_wall_offset :: i64

record 'r pass =
  pa_stamp :: pass_stamp
  pa_rows :: "'r list"

record subscription =
  su_request :: stream_request
  su_offered :: nat
  su_floor :: nat
  su_producer :: frame_producer
  su_last_window :: "(string, u64) fmap"
  su_last_sent_wall :: "u64 option"
  su_last_index :: "u64 option"

definition with_producer :: "stream_request \<Rightarrow> nat \<Rightarrow> frame_producer \<Rightarrow> subscription" where
  "with_producer request update_floor producer =
     \<lparr>su_request = request, su_offered = rq_interval request, su_floor = update_floor, su_producer = producer,
      su_last_window = fmempty, su_last_sent_wall = None, su_last_index = None\<rparr>"

definition negotiated :: "(nat \<Rightarrow> string) \<Rightarrow> subscription \<Rightarrow> subscription" where
  "negotiated format s =
     (let served = max (su_offered s) (su_floor s)
      in s\<lparr>su_request := (su_request s)\<lparr>rq_interval := served\<rparr>,
           su_producer := fp_insert_metadata HANDSHAKE_UPDATE_FLOOR (format (su_floor s))
             (fp_insert_metadata HANDSHAKE_FRAME_INTERVAL (format served) (su_producer s))\<rparr>)"

definition headers :: "(nat \<Rightarrow> string) \<Rightarrow> subscription \<Rightarrow> (string \<times> string) list" where
  "headers format s =
     [(''content-type'', wn_content_type WIRE_NAMES),
      (wn_frame_interval WIRE_NAMES, format (rq_interval (su_request s))),
      (wn_update_floor WIRE_NAMES, format (su_floor s)),
      (wn_layout WIRE_NAMES, as_str (rq_layout (su_request s)))]"

text \<open>\<open>FrameProducer::opening\<close>, behind the preamble, and the subscription's.\<close>

definition fp_opening :: "u8 list \<Rightarrow> (frame \<Rightarrow> string + u8 list) \<Rightarrow> frame_producer \<Rightarrow>
    (string + u8 list) \<times> frame_producer" where
  "fp_opening preamble encode p = (let (f, p') = fp_handshake p in (map_sum id ((@) preamble) (encode f), p'))"

definition sub_opening :: "u8 list \<Rightarrow> (frame \<Rightarrow> string + u8 list) \<Rightarrow> subscription \<Rightarrow>
    (string + u8 list) \<times> subscription" where
  "sub_opening preamble encode s =
     (let (r, p) = fp_opening preamble encode (su_producer s) in (r, s\<lparr>su_producer := p\<rparr>))"

definition next_deadline :: "subscription \<Rightarrow> int \<Rightarrow> int" where
  "next_deadline s now =
     (let interval = rq_interval (su_request s)
      in if 0 \<le> now then now + int (align_wait (nat now) interval) else now + int interval)"

text \<open>The rows of a pass that go out, and what is remembered of them.\<close>

fun sieve :: "'r stream_row \<Rightarrow> 'r list \<Rightarrow> (string, u64) fmap \<Rightarrow> 'r list \<times> (string, u64) fmap" where
  "sieve tr [] ends = ([], ends)"
| "sieve tr (row # rows) ends =
     (case sr_window tr row of
        None \<Rightarrow> (let (out, ends) = sieve tr rows ends in (row # out, ends))
      | Some w \<Rightarrow>
          (if fmlookup ends (sr_stream tr row) = Some (end_ns w) then sieve tr rows ends
           else (let (out, ends) = sieve tr rows (fmupd (sr_stream tr row) (end_ns w) ends) in (row # out, ends))))"

definition advanced :: "subscription \<Rightarrow> 'r pass \<Rightarrow> bool" where
  "advanced s pass \<longleftrightarrow> su_last_sent_wall s \<noteq> Some (ps_wall_ns (pa_stamp pass))"

definition fresh_rows :: "'r stream_row \<Rightarrow> subscription \<Rightarrow> 'r pass \<Rightarrow> 'r list \<times> (string, u64) fmap" where
  "fresh_rows tr s pass =
     (if advanced s pass then sieve tr (pa_rows pass) (su_last_window s) else ([], su_last_window s))"

definition woke_ns :: "int \<Rightarrow> u64" where
  "woke_ns now = (if 0 \<le> now then of_int now else 0)"

definition next_index :: "subscription \<Rightarrow> int \<Rightarrow> u64" where
  "next_index s now = monotonic_interval_index (woke_ns now) (rq_interval (su_request s)) (su_last_index s)"

definition interval_frame :: "rmp \<Rightarrow> 'r stream_row \<Rightarrow> index_state \<Rightarrow> 'r pass option \<Rightarrow> int \<Rightarrow> subscription \<Rightarrow>
    frame \<times> subscription" where
  "interval_frame rm tr no_index pass now s =
     (let index = next_index s now; s' = s\<lparr>su_last_index := Some index\<rparr>
      in case pass of
          None \<Rightarrow> (fp_empty_interval no_index index, s')
        | Some pass \<Rightarrow>
            (let stamp = pa_stamp pass; (rows, ends) = fresh_rows tr s pass;
                 (f, p) = fp_interval rm tr no_index rows (ps_ts stamp) (ps_wall_offset stamp) index (su_producer s)
             in (f, s'\<lparr>su_last_sent_wall := Some (ps_wall_ns stamp), su_last_window := ends, su_producer := p\<rparr>)))"

definition frame_at :: "rmp \<Rightarrow> 'r stream_row \<Rightarrow> index_state \<Rightarrow> (frame \<Rightarrow> string + u8 list) \<Rightarrow> 'r pass option \<Rightarrow> int \<Rightarrow>
    subscription \<Rightarrow> (string + u8 list) \<times> subscription" where
  "frame_at rm tr no_index encode pass now s =
     (let (f, s') = interval_frame rm tr no_index pass now s in (encode f, s'))"

definition empty_frame_at :: "rmp \<Rightarrow> index_state \<Rightarrow> (frame \<Rightarrow> string + u8 list) \<Rightarrow> int \<Rightarrow> subscription \<Rightarrow>
    (string + u8 list) \<times> subscription" where
  "empty_frame_at rm no_index encode now s = frame_at rm encoded_group_row no_index encode None now s"

section \<open>Passes over the registry\<close>

text \<open>
  The builder is \<open>'b\<close>; \<open>build\<close> is \<open>build_groups\<close> or \<open>build_stream\<close> of it with the
  extra groups.
\<close>

type_synonym registry_pass = "encoded_stream_group pass"

record layout_state =
  ls_schemas :: schema_cache
  ls_last :: "(int \<times> registry_pass) option"

record 'b registry_passes =
  rp_builder :: 'b
  rp_wide :: layout_state
  rp_long :: layout_state
  rp_floor :: nat

definition rp_new :: "'b \<Rightarrow> nat \<Rightarrow> 'b registry_passes" where
  "rp_new builder update_floor =
     (let none = \<lparr>ls_schemas = fmempty, ls_last = None\<rparr>
      in \<lparr>rp_builder = builder, rp_wide = none, rp_long = none, rp_floor = update_floor\<rparr>)"

definition rp_cached :: "layout \<Rightarrow> 'b registry_passes \<Rightarrow> layout_state" where
  "rp_cached l rp = (case l of Wide \<Rightarrow> rp_wide rp | Long \<Rightarrow> rp_long rp)"

definition rp_store :: "layout \<Rightarrow> layout_state \<Rightarrow> 'b registry_passes \<Rightarrow> 'b registry_passes" where
  "rp_store l ls rp = (case l of Wide \<Rightarrow> rp\<lparr>rp_wide := ls\<rparr> | Long \<Rightarrow> rp\<lparr>rp_long := ls\<rparr>)"

definition pass_reuse :: "nat \<Rightarrow> nat" where
  "pass_reuse update_floor = update_floor - update_floor div 4"

definition pass_fresh :: "nat \<Rightarrow> int \<Rightarrow> int \<Rightarrow> bool" where
  "pass_fresh update_floor now built \<longleftrightarrow> \<bar>now - built\<bar> < int (pass_reuse update_floor)"

definition stamp_wall :: "i64 \<Rightarrow> i64 \<Rightarrow> u64" where
  "stamp_wall ts wall_offset = (if sint (ts + wall_offset) < 0 then 0 else ts + wall_offset)"

definition rp_build :: "rmp \<Rightarrow> 'h hist_value \<Rightarrow> (layout \<Rightarrow> 'b \<Rightarrow> 'h stream_group list \<times> 'b) \<Rightarrow> i64 \<times> i64 \<Rightarrow>
    layout \<Rightarrow> int \<Rightarrow> 'b registry_passes \<Rightarrow> registry_pass option \<times> 'b registry_passes" where
  "rp_build rm hv build stamp layout now rp =
     (let cached = rp_cached layout rp;
          (groups, builder) = build layout (rp_builder rp);
          (encoded, schemas) = encode_all (es_encode rm hv) groups (ls_schemas cached);
          rp = rp\<lparr>rp_builder := builder\<rparr>
      in case encoded of
          Inl e \<Rightarrow> (None, rp_store layout \<lparr>ls_schemas = schemas, ls_last = None\<rparr> rp)
        | Inr rows \<Rightarrow>
            (let names = sr_stream encoded_stream_group_row ` set rows;
                 pass = \<lparr>pa_stamp = \<lparr>ps_wall_ns = stamp_wall (fst stamp) (snd stamp), ps_ts = fst stamp,
                     ps_wall_offset = snd stamp\<rparr>, pa_rows = rows\<rparr>
             in (Some pass, rp_store layout
                   \<lparr>ls_schemas = sc_retain (\<lambda>name. name \<in> names) schemas, ls_last = Some (now, pass)\<rparr> rp)))"

definition rp_pass :: "rmp \<Rightarrow> 'h hist_value \<Rightarrow> (layout \<Rightarrow> 'b \<Rightarrow> 'h stream_group list \<times> 'b) \<Rightarrow> i64 \<times> i64 \<Rightarrow>
    layout \<Rightarrow> int \<Rightarrow> 'b registry_passes \<Rightarrow> registry_pass option \<times> 'b registry_passes" where
  "rp_pass rm hv build stamp layout now rp =
     (let cached = rp_cached layout rp
      in case ls_last cached of
          Some (built, pass) \<Rightarrow> if pass_fresh (rp_floor rp) now built then (Some pass, rp)
            else rp_build rm hv build stamp layout now rp
        | None \<Rightarrow> rp_build rm hv build stamp layout now rp)"

section \<open>What a subscriber is sent\<close>

text \<open>A subscription's wakes, each with its pass, if there is one, and the clock; and the frames it sends.\<close>

fun sub_run :: "rmp \<Rightarrow> 'r stream_row \<Rightarrow> index_state \<Rightarrow> ('r pass option \<times> int) list \<Rightarrow> subscription \<Rightarrow> frame list" where
  "sub_run rm tr no_index [] s = []"
| "sub_run rm tr no_index ((pass, now) # wakes) s =
     (let (f, s') = interval_frame rm tr no_index pass now s in f # sub_run rm tr no_index wakes s')"

text \<open>
  The specification, from the passes alone: the stamp of the last pass, the rows of the passes that are not the
  one before again, and the ends of a stream's windows.
\<close>

fun last_wall :: "u64 option \<Rightarrow> 'r pass option list \<Rightarrow> u64 option" where
  "last_wall wall [] = wall"
| "last_wall wall (None # ps) = last_wall wall ps"
| "last_wall wall (Some p # ps) = last_wall (Some (ps_wall_ns (pa_stamp p))) ps"

fun new_passes :: "u64 option \<Rightarrow> 'r pass option list \<Rightarrow> 'r pass list" where
  "new_passes wall [] = []"
| "new_passes wall (None # ps) = new_passes wall ps"
| "new_passes wall (Some p # ps) =
     (if wall = Some (ps_wall_ns (pa_stamp p)) then new_passes wall ps
      else p # new_passes (Some (ps_wall_ns (pa_stamp p))) ps)"

definition offered :: "'r pass option list \<Rightarrow> 'r list" where
  "offered passes = concat (map pa_rows (new_passes None passes))"

definition end_on :: "'r stream_row \<Rightarrow> string \<Rightarrow> 'r \<Rightarrow> u64 option" where
  "end_on tr stream r = (if sr_stream tr r = stream then map_option end_ns (sr_window tr r) else None)"

definition ends_on :: "'r stream_row \<Rightarrow> string \<Rightarrow> 'r list \<Rightarrow> u64 list" where
  "ends_on tr stream rows = List.map_filter (end_on tr stream) rows"

definition windowless :: "'r stream_row \<Rightarrow> 'r list \<Rightarrow> 'r list" where
  "windowless tr rows = filter (\<lambda>r. sr_window tr r = None) rows"

text \<open>
  A row is due when it has no window, or one that does not end where the last window on its stream
  did, among all the rows offered before it; and those of a pass, after the earlier ones.
\<close>

definition is_due :: "'r stream_row \<Rightarrow> 'r list \<Rightarrow> 'r \<Rightarrow> bool" where
  "is_due tr before r =
     (case sr_window tr r of
        None \<Rightarrow> True
      | Some w \<Rightarrow> let ends = ends_on tr (sr_stream tr r) before in ends = [] \<or> List.last ends \<noteq> end_ns w)"

fun due_rows :: "'r stream_row \<Rightarrow> 'r list \<Rightarrow> 'r list \<Rightarrow> 'r list" where
  "due_rows tr before [] = []"
| "due_rows tr before (r # rs) = (if is_due tr before r then [r] else []) @ due_rows tr (before @ [r]) rs"

definition due :: "'r stream_row \<Rightarrow> 'r pass option list \<Rightarrow> 'r pass option \<Rightarrow> 'r list" where
  "due tr earlier pass =
     (case pass of
        None \<Rightarrow> []
      | Some p \<Rightarrow> if last_wall None earlier = Some (ps_wall_ns (pa_stamp p)) then []
          else due_rows tr (offered earlier) (pa_rows p))"

text \<open>
  A frame carries some rows with a stamp: for each in order its own row, stamped, with its payload as it is or with its
  schema, and before a long one perhaps a row that describes its occupants.
\<close>

definition row_of :: "rmp \<Rightarrow> 'r stream_row \<Rightarrow> pass_stamp \<Rightarrow> 'r \<Rightarrow> dendro_row \<Rightarrow> bool" where
  "row_of rm tr stamp r d \<longleftrightarrow>
     dr_stream d = sr_stream tr r \<and> dr_ts d = ps_ts stamp \<and> dr_wall_offset d = ps_wall_offset stamp \<and>
     (dr_row d = sr_payload tr r \<or>
      (\<exists>schema. sr_schema tr r = Some schema \<and>
         dr_row d = (if sr_occupants tr r = None then with_schema rm (sr_payload tr r) schema
                     else with_long_schema rm (sr_payload tr r) schema)))"

definition row_group :: "rmp \<Rightarrow> 'r stream_row \<Rightarrow> pass_stamp \<Rightarrow> 'r \<Rightarrow> dendro_row list \<Rightarrow> bool" where
  "row_group rm tr stamp r ds \<longleftrightarrow>
     (\<exists>d. row_of rm tr stamp r d \<and>
        (ds = [d] \<or> (\<exists>labels. sr_occupants tr r \<noteq> None \<and> dr_stream labels = stream_of (sr_stream tr r) \<and>
           dr_ts labels = ps_ts stamp \<and> dr_wall_offset labels = ps_wall_offset stamp \<and> ds = [labels, d])))"

definition frame_carries :: "rmp \<Rightarrow> 'r stream_row \<Rightarrow> 'r pass option \<Rightarrow> 'r list \<Rightarrow> frame \<Rightarrow> bool" where
  "frame_carries rm tr pass rows f \<longleftrightarrow>
     (\<exists>rf. f = FRows rf \<and>
        (case pass of
           None \<Rightarrow> rows = [] \<and> rf_rows rf = []
         | Some p \<Rightarrow> \<exists>groups. list_all2 (row_group rm tr (pa_stamp p)) rows groups \<and> rf_rows rf = concat groups))"

fun changes :: "'a option \<Rightarrow> 'a list \<Rightarrow> 'a list" where
  "changes prev [] = []"
| "changes prev (x # xs) = (if prev = Some x then changes prev xs else x # changes (Some x) xs)"

lemma changes_is_remdups_adj:
  "changes None xs = remdups_adj xs"
  "x # changes (Some x) xs = remdups_adj (x # xs)"
proof -
  have *: "x # changes (Some x) xs = remdups_adj (x # xs)" for x :: 'a and xs
    by (induction xs arbitrary: x) simp_all
  then show "x # changes (Some x) xs = remdups_adj (x # xs)" .
  show "changes None xs = remdups_adj xs"
    by (cases xs) (simp_all add: * del: remdups_adj.simps(3))
qed

lemma ends_on_simps [simp]:
  "ends_on tr st [] = []"
  "ends_on tr st (r # rs) = (case end_on tr st r of None \<Rightarrow> ends_on tr st rs | Some e \<Rightarrow> e # ends_on tr st rs)"
  "ends_on tr st (rs @ rs') = ends_on tr st rs @ ends_on tr st rs'"
  by (simp_all add: ends_on_def List.map_filter_def split: option.splits)

lemma windowless_simps [simp]:
  "windowless tr [] = []"
  "windowless tr (r # rs) = (if sr_window tr r = None then r # windowless tr rs else windowless tr rs)"
  "windowless tr (rs @ rs') = windowless tr rs @ windowless tr rs'"
  by (simp_all add: windowless_def)

fun later :: "'a option \<Rightarrow> 'a list \<Rightarrow> 'a option" where
  "later prev [] = prev"
| "later prev (x # xs) = later (Some x) xs"

lemma changes_append: "changes prev (xs @ ys) = changes prev xs @ changes (later prev xs) ys"
  by (induction xs arbitrary: prev) auto

lemma later_append: "later prev (xs @ ys) = later (later prev xs) ys"
  by (induction xs arbitrary: prev) auto

lemma later_None: "later None xs = (if xs = [] then None else Some (List.last xs))"
proof -
  have "later (Some x) xs = Some (List.last (x # xs))" for x :: 'a and xs
    by (induction xs arbitrary: x) simp_all
  then show ?thesis by (cases xs) simp_all
qed

lemma is_due_later: "is_due tr before r \<longleftrightarrow>
    (\<forall>w. sr_window tr r = Some w \<longrightarrow> later None (ends_on tr (sr_stream tr r) before) \<noteq> Some (end_ns w))"
  by (auto simp: is_due_def later_None Let_def split: option.splits)

lemma due_rows_sends:
  "ends_on tr st (due_rows tr before rows) = changes (later None (ends_on tr st before)) (ends_on tr st rows) \<and>
   windowless tr (due_rows tr before rows) = windowless tr rows"
proof (induction rows arbitrary: before)
  case (Cons r rows)
  show ?case
  proof (cases "sr_window tr r")
    case None
    with Cons [of "before @ [r]"] show ?thesis by (simp add: is_due_def end_on_def)
  next
    case (Some w)
    with Cons [of "before @ [r]"] show ?thesis
      by (auto simp: is_due_later end_on_def later_append)
  qed
qed simp

lemma new_passes_append: "new_passes wall (ps @ qs) = new_passes wall ps @ new_passes (last_wall wall ps) qs"
  by (induction wall ps rule: new_passes.induct) auto

lemma last_wall_append: "last_wall wall (ps @ qs) = last_wall (last_wall wall ps) qs"
  by (induction wall ps rule: last_wall.induct) auto

lemma offered_snoc:
  "offered (ps @ [p]) = offered ps @
     (case p of None \<Rightarrow> [] | Some q \<Rightarrow> if last_wall None ps = Some (ps_wall_ns (pa_stamp q)) then [] else pa_rows q)"
  by (simp add: offered_def new_passes_append split: option.split)

lemma offered_Nil [simp]: "offered [] = []"
  by (simp add: offered_def)

lemma sorted_remdups_adj_distinct: "sorted xs \<Longrightarrow> distinct (remdups_adj xs)" for xs :: "'a :: linorder list"
  by (induction xs rule: remdups_adj.induct) force+

lemma due_sends:
  "ends_on tr st (concat (map (\<lambda>k. due tr (take k ps) (ps ! k)) [0..<length ps])) = changes None (ends_on tr st (offered ps)) \<and>
   windowless tr (concat (map (\<lambda>k. due tr (take k ps) (ps ! k)) [0..<length ps])) = windowless tr (offered ps)"
proof (induction ps rule: rev_induct)
  case (snoc p ps)
  have same: "map (\<lambda>k. due tr (take k (ps @ [p])) ((ps @ [p]) ! k)) [0..<length ps] = map (\<lambda>k. due tr (take k ps) (ps ! k)) [0..<length ps]"
    by (rule map_cong) (simp_all add: nth_append)
  have "concat (map (\<lambda>k. due tr (take k (ps @ [p])) ((ps @ [p]) ! k)) [0..<length (ps @ [p])])
      = concat (map (\<lambda>k. due tr (take k ps) (ps ! k)) [0..<length ps]) @ due tr ps p"
    by (simp only: length_append_singleton upt_Suc le0 if_True map_append concat_append same) simp
  with snoc due_rows_sends [of tr st "offered ps"] show ?case
    by (simp add: offered_snoc changes_append due_def split: option.split)
qed simp

text \<open>What a subscription remembers of the passes before: the last stamp, and every stream's last end.\<close>

definition tracks :: "'r stream_row \<Rightarrow> 'r pass option list \<Rightarrow> subscription \<Rightarrow> bool" where
  "tracks tr earlier s \<longleftrightarrow> su_last_sent_wall s = last_wall None earlier \<and>
     (\<forall>st. fmlookup (su_last_window s) st = later None (ends_on tr st (offered earlier)))"

lemma sieve_due:
  assumes "sieve tr rows ends = (out, ends')" "\<forall>st. fmlookup ends st = later None (ends_on tr st before)"
  shows "out = due_rows tr before rows \<and> (\<forall>st. fmlookup ends' st = later None (ends_on tr st (before @ rows)))"
  using assms
proof (induction rows arbitrary: ends out before)
  case (Cons r rows)
  show ?case
  proof (cases "sr_window tr r")
    case None
    obtain out' where run: "sieve tr rows ends = (out', ends')" "out = r # out'"
      using Cons.prems(1) None by (auto split: prod.splits)
    have "\<forall>st. fmlookup ends st = later None (ends_on tr st (before @ [r]))"
      using Cons.prems(2) None by (simp add: end_on_def)
    from Cons.IH [OF run(1) this] None run(2) show ?thesis by (simp add: is_due_def)
  next
    case (Some w)
    show ?thesis
    proof (cases "fmlookup ends (sr_stream tr r) = Some (end_ns w)")
      case True
      with Some Cons.prems have run: "sieve tr rows ends = (out, ends')" and
        "\<forall>st. fmlookup ends st = later None (ends_on tr st (before @ [r]))"
        by (auto simp: end_on_def later_append)
      from Cons.IH [OF this] True Some Cons.prems(2) show ?thesis by (simp add: is_due_later)
    next
      case False
      with Some Cons.prems(1) obtain out' where run: "out = r # out'"
          "sieve tr rows (fmupd (sr_stream tr r) (end_ns w) ends) = (out', ends')"
        by (auto split: prod.splits)
      have "\<forall>st. fmlookup (fmupd (sr_stream tr r) (end_ns w) ends) st = later None (ends_on tr st (before @ [r]))"
        using Cons.prems(2) Some by (simp add: end_on_def later_append)
      from Cons.IH [OF run(2) this] False Some run(1) Cons.prems(2) show ?thesis by (simp add: is_due_later)
    qed
  qed
qed simp

lemma fp_rows_carry:
  "fp_rows rm tr (ps_ts stamp) (ps_wall_offset stamp) rows p = (out, p') \<Longrightarrow>
     \<exists>groups. list_all2 (row_group rm tr stamp) rows groups \<and> out = concat groups"
proof (induction rows arbitrary: p out p')
  case Nil
  then show ?case by (intro exI [of _ "[]"]) simp
next
  case (Cons r rows)
  obtain g p1 where one: "fp_row rm tr (ps_ts stamp) (ps_wall_offset stamp) r p = (g, p1)" by fastforce
  obtain gs p2 where two: "fp_rows rm tr (ps_ts stamp) (ps_wall_offset stamp) rows p1 = (gs, p2)" by fastforce
  from Cons.IH [OF two] obtain groups where groups: "list_all2 (row_group rm tr stamp) rows groups" "gs = concat groups" by blast
  have "row_group rm tr stamp r g"
    using one by (auto simp: fp_row_def fp_payload_def row_group_def row_of_def Let_def split: prod.splits option.splits if_splits)
  with groups Cons.prems one two show ?case by (intro exI [of _ "g # groups"]) auto
qed

lemma interval_frame_state:
  assumes "interval_frame rm tr no_index pass now s = (f, s')"
  shows "su_request s' = su_request s" "su_last_index s' = Some (next_index s now)"
    "su_last_sent_wall s' = (case pass of None \<Rightarrow> su_last_sent_wall s | Some p \<Rightarrow> Some (ps_wall_ns (pa_stamp p)))"
    "su_last_window s' = (case pass of None \<Rightarrow> su_last_window s | Some p \<Rightarrow> snd (fresh_rows tr s p))"
    "\<exists>rf. f = FRows rf \<and> rf_seq rf = next_index s now"
  using assms
  by (auto simp: interval_frame_def Let_def fp_interval_def fp_empty_interval_def split: option.splits prod.splits)

lemma interval_frame_carries:
  assumes "interval_frame rm tr no_index pass now s = (f, s')" "tracks tr earlier s"
  shows "frame_carries rm tr pass (due tr earlier pass) f \<and> tracks tr (earlier @ [pass]) s'"
proof (cases pass)
  case None
  with assms show ?thesis
    by (auto simp: interval_frame_def frame_carries_def due_def fp_empty_interval_def Let_def tracks_def last_wall_append offered_snoc)
next
  case (Some p)
  obtain rows ends where fresh: "fresh_rows tr s p = (rows, ends)" by fastforce
  have "rows = due tr earlier pass \<and> (\<forall>st. fmlookup ends st = later None (ends_on tr st (offered (earlier @ [pass]))))"
  proof (cases "advanced s p")
    case True
    with fresh have "sieve tr (pa_rows p) (su_last_window s) = (rows, ends)" by (simp add: fresh_rows_def)
    from sieve_due [OF this, of "offered earlier"] True Some assms(2) show ?thesis
      by (simp add: tracks_def advanced_def due_def offered_snoc)
  next
    case False
    with fresh Some assms(2) show ?thesis by (simp add: tracks_def advanced_def due_def offered_snoc fresh_rows_def)
  qed
  moreover obtain out q where "fp_rows rm tr (ps_ts (pa_stamp p)) (ps_wall_offset (pa_stamp p)) rows (su_producer s) = (out, q)"
    by fastforce
  moreover note fp_rows_carry [OF this]
  ultimately show ?thesis
    using assms(1) Some fresh
    by (auto simp: interval_frame_def fp_interval_def frame_carries_def tracks_def last_wall_append Let_def)
qed

lemma sub_run_length: "length (sub_run rm tr no_index wakes s) = length wakes"
  by (induction rm tr no_index wakes s rule: sub_run.induct) (auto split: prod.splits)

lemma sub_run_carries:
  assumes "tracks tr earlier s" "k < length wakes"
  shows "frame_carries rm tr (map fst wakes ! k) (due tr (earlier @ take k (map fst wakes)) (map fst wakes ! k))
    (sub_run rm tr no_index wakes s ! k)"
  using assms
proof (induction wakes arbitrary: s earlier k)
  case (Cons wake wakes)
  obtain pass now where wake: "wake = (pass, now)" by fastforce
  obtain f s' where step: "interval_frame rm tr no_index pass now s = (f, s')" by fastforce
  note one = interval_frame_carries [OF step Cons.prems(1)]
  show ?case
  proof (cases k)
    case 0
    with one step show ?thesis by (simp add: wake)
  next
    case (Suc j)
    with Cons.IH [of "earlier @ [pass]" s' j] one Cons.prems(2) step show ?thesis by (simp add: wake)
  qed
qed simp

fun frame_seq :: "frame \<Rightarrow> u64" where
  "frame_seq (FRows rf) = rf_seq rf"
| "frame_seq _ = 0"

definition no_wrap :: "nat \<Rightarrow> ('r pass option \<times> int) list \<Rightarrow> bool" where
  "no_wrap interval wakes \<longleftrightarrow>
     (\<forall>(pass, now) \<in> set wakes. unat (interval_index (woke_ns now) interval) + length wakes < 2 ^ 64)"

lemma next_index_bounds:
  assumes "no_wrap (rq_interval (su_request s)) ((pass, now) # wakes)"
    and "\<forall>prev. su_last_index s = Some prev \<longrightarrow> unat prev + length ((pass, now) # wakes) < 2 ^ 64"
  shows "unat (next_index s now) + length wakes < 2 ^ 64"
    "su_last_index s = Some prev \<Longrightarrow> prev < next_index s now"
proof -
  let ?m = "interval_index (woke_ns now) (rq_interval (su_request s))"
  have m: "unat ?m + Suc (length wakes) < 2 ^ 64" using assms(1) by (simp add: no_wrap_def)
  have up: "unat (prev + 1) = Suc (unat prev) \<and> prev < prev + 1"
    if "su_last_index s = Some prev" for prev
  proof -
    have "unat prev + 1 < 2 ^ 64" using assms(2) that by auto
    then show ?thesis by (simp add: unat_word_ariths word_less_nat_alt)
  qed
  show "unat (next_index s now) + length wakes < 2 ^ 64"
    using m up assms(2)
    by (auto simp: next_index_def monotonic_interval_index_def Let_def split: option.splits)
  show "su_last_index s = Some prev \<Longrightarrow> prev < next_index s now"
    using up by (auto simp: next_index_def monotonic_interval_index_def Let_def)
qed

lemma sub_run_seqs:
  assumes "no_wrap (rq_interval (su_request s)) wakes"
    and "\<forall>prev. su_last_index s = Some prev \<longrightarrow> unat prev + length wakes < 2 ^ 64"
  shows "sorted_wrt (<) (map frame_seq (sub_run rm tr no_index wakes s)) \<and>
    (\<forall>prev. su_last_index s = Some prev \<longrightarrow>
       (\<forall>x \<in> set (sub_run rm tr no_index wakes s). prev < frame_seq x))"
  using assms
proof (induction wakes arbitrary: s)
  case Nil
  then show ?case by simp
next
  case (Cons wake wakes)
  obtain pass now where wake: "wake = (pass, now)" by fastforce
  obtain f s' where step: "interval_frame rm tr no_index pass now s = (f, s')" by fastforce
  note state = interval_frame_state [OF step]
  note bounds = next_index_bounds [OF Cons.prems [unfolded wake]]
  have "no_wrap (rq_interval (su_request s')) wakes"
    using Cons.prems(1) state(1) by (auto simp: no_wrap_def wake)
  then have rest: "sorted_wrt (<) (map frame_seq (sub_run rm tr no_index wakes s')) \<and>
      (\<forall>x \<in> set (sub_run rm tr no_index wakes s'). next_index s now < frame_seq x)"
    using Cons.IH [of s'] bounds(1) state(2) by (simp add: comp_def)
  moreover have "frame_seq f = next_index s now" using state(5) by auto
  moreover have "\<forall>prev. su_last_index s = Some prev \<longrightarrow> prev < next_index s now" using bounds(2) by simp
  ultimately show ?case using step by (auto simp: wake comp_def intro: less_trans)
qed

text \<open>
  C24. What a new subscription's frames carry, whatever its wakes: one frame per wake, numbered upwards (while the
  indices do not reach the end of \<open>u64\<close>), and in the rows of each frame exactly what is due of its pass, in the pass's order and
  with its stamp: nothing of no pass or of the pass before again, and otherwise every row without a window and
  every row whose window does not end where the last one on its stream did. So of a stream's windows each change of
  the end is sent once; and while the ends on a stream do not go back, every end offered is sent, and none twice.
\<close>

theorem subscriber_is_sent_every_reading_once:
  assumes "no_wrap (rq_interval request) wakes"
  shows "let frames = sub_run rm tr no_index wakes (with_producer request update_floor producer);
      passes = map fst wakes;
      carried = concat (map (\<lambda>k. due tr (take k passes) (passes ! k)) [0..<length passes])
    in length frames = length wakes \<and> sorted_wrt (<) (map frame_seq frames) \<and>
      (\<forall>k < length wakes. frame_carries rm tr (passes ! k) (due tr (take k passes) (passes ! k)) (frames ! k)) \<and>
      ends_on tr st carried = remdups_adj (ends_on tr st (offered passes)) \<and>
      windowless tr carried = windowless tr (offered passes) \<and>
      (sorted (ends_on tr st (offered passes)) \<longrightarrow>
         distinct (ends_on tr st carried) \<and> set (ends_on tr st carried) = set (ends_on tr st (offered passes)))"
proof -
  let ?s = "with_producer request update_floor producer"
  have "tracks tr [] ?s" by (simp add: tracks_def with_producer_def)
  note carries = sub_run_carries [OF this, of _ wakes rm no_index]
  have "sorted_wrt (<) (map frame_seq (sub_run rm tr no_index wakes ?s))"
    using sub_run_seqs [of ?s wakes rm tr no_index] assms by (simp add: with_producer_def)
  then show ?thesis
    using carries due_sends [of tr st "map fst wakes"]
    by (simp add: Let_def sub_run_length changes_is_remdups_adj sorted_remdups_adj_distinct)
qed

section \<open>Deadlines\<close>

text \<open>
  A subscription sleeps to the next whole multiple of its interval, counted from the Unix epoch: later than
  now, at most one interval away, and no multiple lies between.
\<close>

theorem next_deadline_is_the_next_boundary:
  assumes "0 \<le> now" "0 < rq_interval (su_request s)" "rq_interval (su_request s) < 2 ^ 64"
  shows "now < next_deadline s now \<and> int (rq_interval (su_request s)) dvd next_deadline s now \<and>
    next_deadline s now \<le> now + int (rq_interval (su_request s))"
proof -
  let ?p = "rq_interval (su_request s)"
  obtain n where n: "now = int n" using assms(1) nonneg_int_cases by blast
  have mod: "n mod ?p < ?p" using assms(2) by simp
  define d where "d = n + (?p - n mod ?p)"
  have "align_wait n ?p = ?p - n mod ?p"
    using assms by (simp add: align_wait_def)
  then have "next_deadline s now = int d"
    by (simp add: n next_deadline_def Let_def d_def)
  moreover have "d = (n div ?p + 1) * ?p"
    unfolding d_def using mod div_mult_mod_eq [of n ?p] by (simp only: distrib_right)
  then have "?p dvd d" by simp
  moreover have "n < d" "d \<le> n + ?p"
    using mod by (simp_all add: d_def)
  ultimately show ?thesis by (simp add: n)
qed

section \<open>Query strings\<close>

definition hex_char :: "nat \<Rightarrow> char" where
  "hex_char n = (if n < 10 then char_of (48 + n) else char_of (55 + n))"

definition percent_encode :: "string \<Rightarrow> string" where
  "percent_encode s = concat (map (\<lambda>c. [CHR ''%'', hex_char (of_char c div 16), hex_char (of_char c mod 16)]) s)"

definition encode_pair :: "string \<times> string \<Rightarrow> string" where
  "encode_pair = (\<lambda>(k, v). percent_encode k @ ''='' @ percent_encode v)"

fun encode_query :: "(string \<times> string) list \<Rightarrow> string" where
  "encode_query [] = []"
| "encode_query [kv] = encode_pair kv"
| "encode_query (kv # kvs) = encode_pair kv @ ''&'' @ encode_query kvs"

lemma of_hex_char: "n < 16 \<Longrightarrow> of_char (hex_char n) = (if n < 10 then 48 + n else 55 + n)"
  by (simp add: hex_char_def)

lemma hex_char_simps:
  assumes "n < 16"
  shows "hex_digit (hex_char n) = Some n" "hex_char n \<noteq> CHR ''+''" "hex_char n \<noteq> CHR ''&''"
    "hex_char n \<noteq> CHR ''=''"
proof -
  have "hex_char n \<noteq> c" if "of_char c \<in> {38, 43, 61 :: nat}" for c
    using of_hex_char [OF assms] assms that by (auto split: if_splits)
  then show "hex_char n \<noteq> CHR ''+''" "hex_char n \<noteq> CHR ''&''" "hex_char n \<noteq> CHR ''=''"
    by simp_all
  show "hex_digit (hex_char n) = Some n"
    using assms by (simp add: hex_digit_def of_hex_char Let_def)
qed

lemma nibbles: "(of_char c :: nat) div 16 < 16" "(of_char c :: nat) mod 16 < 16"
  using nat_of_char_less_256 [of c] by (simp_all add: less_mult_imp_div_less)

lemma hex_byte_of_char: "hex_byte (hex_char (of_char c div 16)) (hex_char (of_char c mod 16)) = Some (of_char c)"
  by (simp add: hex_byte_def hex_char_simps nibbles)

lemma decode_percent_encode: "decode_bytes (percent_encode s) = s"
proof (induction s)
  case Nil
  then show ?case by (simp add: percent_encode_def)
next
  case (Cons c s)
  then show ?case by (simp add: percent_encode_def hex_byte_of_char)
qed

lemma percent_encode_Cons:
  "percent_encode (c # s) = CHR ''%'' # hex_char (of_char c div 16) # hex_char (of_char c mod 16) # percent_encode s"
  by (simp add: percent_encode_def)

lemma percent_encode_plain:
  "CHR ''&'' \<notin> set (percent_encode s)" "CHR ''='' \<notin> set (percent_encode s)"
proof (induction s)
  case (Cons c s)
  {
    case 1
    from Cons(1) hex_char_simps(3) [OF nibbles(1) [of c]] hex_char_simps(3) [OF nibbles(2) [of c]]
    show ?case unfolding percent_encode_Cons by simp
  next
    case 2
    from Cons(2) hex_char_simps(4) [OF nibbles(1) [of c]] hex_char_simps(4) [OF nibbles(2) [of c]]
    show ?case unfolding percent_encode_Cons by simp
  }
qed (simp_all add: percent_encode_def)

lemma split_once_pair: "split_once (CHR ''='') (encode_pair (k, v)) = Some (percent_encode k, percent_encode v)"
proof -
  have "takeWhile (\<lambda>x. x \<noteq> CHR ''='') (percent_encode k @ CHR ''='' # percent_encode v) = percent_encode k"
    using percent_encode_plain(2) [of k] by (subst takeWhile_append2) auto
  moreover have "dropWhile (\<lambda>x. x \<noteq> CHR ''='') (percent_encode k @ CHR ''='' # percent_encode v)
      = CHR ''='' # percent_encode v"
    using percent_encode_plain(2) [of k] by (subst dropWhile_append2) auto
  ultimately show ?thesis by (simp add: split_once_def encode_pair_def)
qed

lemma encode_pair_plain: "CHR ''&'' \<notin> set (encode_pair kv)" "encode_pair kv \<noteq> []"
  using percent_encode_plain(1) by (auto simp: encode_pair_def split: prod.splits)

lemma split_encode_query:
  "filter (\<lambda>p. p \<noteq> []) (split_on (CHR ''&'') (encode_query kvs)) = map encode_pair kvs"
  by (induction kvs rule: encode_query.induct)
    (simp_all add: split_on_plain split_on_append encode_pair_plain)

definition wanted :: "(string \<times> string) list \<Rightarrow> string list" where
  "wanted kvs = filter (\<lambda>k. k = ''interval'' \<or> k = ''layout'') (map fst kvs)"

definition first_of :: "'a option \<Rightarrow> 'a option \<Rightarrow> 'a option" where
  "first_of a b = (case a of None \<Rightarrow> b | Some x \<Rightarrow> Some x)"

lemma parse_pairs_encoded:
  assumes "\<forall>(k, v) \<in> set kvs. valid_utf8 k \<and> valid_utf8 v"
  shows "if distinct (wanted kvs) \<and> (i = None \<or> ''interval'' \<notin> set (wanted kvs))
      \<and> (l = None \<or> ''layout'' \<notin> set (wanted kvs))
    then parse_pairs (map encode_pair kvs) (i, l)
      = Inr (first_of i (map_of kvs ''interval''), first_of l (map_of kvs ''layout''))
    else \<exists>k. parse_pairs (map encode_pair kvs) (i, l) = Inl (DuplicateParameter k)"
  using assms
proof (induction kvs arbitrary: i l)
  case Nil
  then show ?case by (simp add: wanted_def first_of_def split: option.splits)
next
  case (Cons kv kvs)
  obtain k v where kv: "kv = (k, v)" by fastforce
  have dec: "percent_decode (percent_encode k) = k" "percent_decode (percent_encode v) = v"
    using Cons.prems by (simp_all add: kv percent_decode_def decode_percent_encode)
  have ih: "\<And>i l. if distinct (wanted kvs) \<and> (i = None \<or> ''interval'' \<notin> set (wanted kvs))
      \<and> (l = None \<or> ''layout'' \<notin> set (wanted kvs))
    then parse_pairs (map encode_pair kvs) (i, l)
      = Inr (first_of i (map_of kvs ''interval''), first_of l (map_of kvs ''layout''))
    else \<exists>k. parse_pairs (map encode_pair kvs) (i, l) = Inl (DuplicateParameter k)"
    using Cons by simp
  consider "k = ''interval''" | "k = ''layout''" | "k \<noteq> ''interval''" "k \<noteq> ''layout''" by blast
  then show ?case
  proof cases
    case 1
    with ih [of "Some v" l] show ?thesis
      by (cases i) (simp_all add: kv split_once_pair dec [unfolded 1] wanted_def first_of_def split: if_splits)
  next
    case 2
    with ih [of i "Some v"] show ?thesis
      by (cases l) (simp_all add: kv split_once_pair dec [unfolded 2] wanted_def first_of_def split: if_splits)
  next
    case 3
    with ih [of i l] show ?thesis by (simp add: kv split_once_pair dec wanted_def)
  qed
qed

text \<open>
  C39. A request's parameters survive the query string: names and values of any UTF-8 text, percent-encoded byte by
  byte and with or without a question mark before them, are parsed as themselves, the interval by the duration
  parser and the layout by its name, with a second of wide layout where they are missing; a query that
  gives either twice is refused.
\<close>

theorem requests_survive_the_query_string:
  assumes "\<forall>(k, v) \<in> set kvs. valid_utf8 k \<and> valid_utf8 v"
    and "query = encode_query kvs \<or> query = CHR ''?'' # encode_query kvs"
  shows "if distinct (wanted kvs)
    then parse_request humantime query =
      (case request_interval humantime (map_of kvs ''interval'') of
         Inl e \<Rightarrow> Inl e
       | Inr i \<Rightarrow> map_sum id (\<lambda>l. \<lparr>rq_interval = i, rq_layout = l\<rparr>) (request_layout (map_of kvs ''layout'')))
    else \<exists>k. parse_request humantime query = Inl (DuplicateParameter k)"
proof -
  have "\<exists>c s. encode_pair kv = c # s \<and> c \<noteq> CHR ''?''" for kv
    by (cases "fst kv") (auto simp: encode_pair_def percent_encode_def split: prod.splits)
  then have "encode_query kvs = [] \<or> (\<exists>c s. encode_query kvs = c # s \<and> c \<noteq> CHR ''?'')"
    by (cases kvs rule: encode_query.cases) (simp, metis encode_query.simps(2), metis append_Cons encode_query.simps(3))
  then have "strip_question query = encode_query kvs"
    using assms(2) by (auto simp: strip_question_def split: list.splits)
  then show ?thesis
    using parse_pairs_encoded [OF assms(1), of None None]
    by (auto simp: parse_request_def split_encode_query first_of_def)
qed

text \<open>\<open>from_str_radix\<close> takes a plus sign, so an escape that is not two hexadecimal digits is decoded too.\<close>

lemma plus_sign_in_an_escape:
  "percent_decode ''a%+Fb'' = [CHR ''a'', CHR 0x0F, CHR ''b'']"
  by code_simp

end
