(* ===== verification/WireCodec.thy ===== *)
theory WireCodec
  imports StreamTrip StreamWire Subscription Codec
begin

text \<open>
  A concrete encoding with the layout that \<open>rmp_ok\<close> describes, and what the stream's properties are
  instantiated with, to show that their hypotheses can hold of functions that compute. Numbers are
  written in unary: this is not MessagePack.
\<close>

section \<open>Bytes and characters\<close>

definition to_bytes :: "string \<Rightarrow> u8 list" where
  "to_bytes s = map of_char s"

definition to_chars :: "u8 list \<Rightarrow> string" where
  "to_chars bs = map (\<lambda>b. char_of (unat b)) bs"

lemma char_of_unat: "char_of (unat (of_char c :: u8)) = c"
proof -
  have "unat (of_char c :: u8) = of_char c"
    using nat_of_char_less_256 [of c] by (simp add: unat_of_nat flip: of_nat_of_char [where 'a = u8])
  then show ?thesis by simp
qed

lemma to_chars_bytes [simp]: "to_chars (to_bytes s) = s"
  by (simp add: to_chars_def to_bytes_def char_of_unat comp_def)

lemma to_chars_bytes_append [simp]: "to_chars (to_bytes s @ bs) = s @ to_chars bs"
  using to_chars_bytes [of s] by (simp add: to_chars_def del: to_chars_bytes)

lemma to_bytes_chars [simp]: "to_bytes (to_chars bs) = bs"
proof -
  have "of_char (char_of (unat b)) = b" for b :: u8
  proof -
    have "(of_char (char_of (unat b)) :: u8) = of_nat (of_char (char_of (unat b)))"
      by (simp only: of_nat_of_char)
    also have "\<dots> = of_nat (unat b mod 256)" by (simp only: of_char_of)
    also have "unat b mod 256 = unat b"
    proof -
      have "unat b < 2 ^ LENGTH(8)" by (rule unsigned_less)
      then show ?thesis by simp
    qed
    finally show ?thesis by simp
  qed
  then show ?thesis by (simp add: to_chars_def to_bytes_def comp_def)
qed

lemma to_bytes_append [simp]: "to_bytes (s @ s') = to_bytes s @ to_bytes s'"
  by (simp add: to_bytes_def)

lemma to_bytes_Cons [simp]: "to_bytes (c # s) = of_char c # to_bytes s"
  by (simp add: to_bytes_def)

lemma to_bytes_Nil [simp]: "to_bytes [] = []"
  by (simp add: to_bytes_def)

section \<open>The parts of a row\<close>

definition enc_u8 :: "u8 \<Rightarrow> string" where
  "enc_u8 w = enc_nat (unat w)"

definition dec_u8 :: "u8 decoder" where
  "dec_u8 = dec_map of_nat dec_nat"

lemma reads_u8 [readers]: "reads enc_u8 dec_u8"
  using reads_map [OF reads_nat, of of_nat unat] by (simp add: enc_u8_def [abs_def] dec_u8_def)

definition enc_desc :: "metric_desc \<Rightarrow> string" where
  "enc_desc d = enc_pair enc_string (enc_fmap enc_string) (md_name d, md_metadata d)"

definition dec_desc :: "metric_desc decoder" where
  "dec_desc = dec_map (\<lambda>(n, m). \<lparr>md_name = n, md_metadata = m\<rparr>) (dec_pair dec_string (dec_fmap dec_string))"

lemma reads_desc [readers]: "reads enc_desc dec_desc"
  unfolding enc_desc_def [abs_def] dec_desc_def by (rule reads_map) (intro readers, simp)

definition enc_schema :: "group_schema \<Rightarrow> string" where
  "enc_schema s = enc_pair (enc_list enc_desc) (enc_pair (enc_list enc_desc) (enc_pair (enc_list enc_desc)
     (enc_list enc_desc))) (gs_counters s, gs_gauges s, gs_histograms s, gs_gauge_histograms s)"

definition dec_schema :: "group_schema decoder" where
  "dec_schema = dec_map (\<lambda>(c, g, h, gh).
       \<lparr>gs_counters = c, gs_gauges = g, gs_histograms = h, gs_gauge_histograms = gh\<rparr>)
     (dec_pair (dec_list dec_desc) (dec_pair (dec_list dec_desc) (dec_pair (dec_list dec_desc) (dec_list dec_desc))))"

lemma reads_schema [readers]: "reads enc_schema dec_schema"
  unfolding enc_schema_def [abs_def] dec_schema_def by (rule reads_map) (intro readers, simp)

text \<open>A schema or nil.\<close>

definition schema_text :: "group_schema option \<Rightarrow> string" where
  "schema_text s = (case s of None \<Rightarrow> [CHR 0xC0] | Some s \<Rightarrow> CHR 0x94 # enc_schema s)"

fun dec_schema_text :: "group_schema option decoder" where
  "dec_schema_text [] = None"
| "dec_schema_text (c # s) = (if c = CHR 0xC0 then Some (None, s) else dec_map Some dec_schema s)"

lemma reads_schema_text [readers]: "reads schema_text dec_schema_text"
  by (simp add: reads_def schema_text_def dec_map_def readsD [OF reads_schema] split: option.splits)

abbreviation enc_cells :: "hist_cell option list \<Rightarrow> string" where
  "enc_cells \<equiv> enc_list (enc_option (enc_pair enc_u8 (enc_pair enc_u8 (enc_list enc_u64))))"

abbreviation dec_cells :: "hist_cell option list decoder" where
  "dec_cells \<equiv> dec_list (dec_option (dec_pair dec_u8 (dec_pair dec_u8 (dec_list dec_u64))))"

abbreviation enc_window :: "(u64 \<times> u64) option \<Rightarrow> string" where
  "enc_window \<equiv> enc_option (enc_pair enc_u64 enc_u64)"

abbreviation dec_window :: "(u64 \<times> u64) option decoder" where
  "dec_window \<equiv> dec_option (dec_pair dec_u64 dec_u64)"

abbreviation enc_slots :: "u64 option list \<Rightarrow> string" where
  "enc_slots \<equiv> enc_list (enc_option enc_u64)"

abbreviation dec_slots :: "u64 option list decoder" where
  "dec_slots \<equiv> dec_list (dec_option dec_u64)"

section \<open>Group rows\<close>

definition row_head :: "wal_group_row \<Rightarrow> string" where
  "row_head r = (if wg_gauge_histograms r = [] then CHR 0x96 else CHR 0x97) # CHR 0x92 #
     enc_u64 (fst (wg_schema_hash r)) @ enc_u64 (snd (wg_schema_hash r))"

definition row_tail :: "wal_group_row \<Rightarrow> string" where
  "row_tail r = enc_pair enc_window (enc_pair enc_slots (enc_pair enc_slots (enc_pair enc_cells enc_cells)))
     (wg_window r, wg_counters r, wg_gauges r, wg_histograms r, wg_gauge_histograms r)"

definition enc_group_row :: "wal_group_row \<Rightarrow> string" where
  "enc_group_row r = row_head r @ schema_text (wg_schema r) @ row_tail r"

definition dec_group_row :: "wal_group_row decoder" where
  "dec_group_row s = dec_map (\<lambda>(h1, h2, sch, w, c, g, h, gh).
       \<lparr>wg_schema_hash = (h1, h2), wg_schema = sch, wg_window = w, wg_counters = c, wg_gauges = g,
        wg_histograms = h, wg_gauge_histograms = gh\<rparr>)
     (dec_pair dec_u64 (dec_pair dec_u64 (dec_pair dec_schema_text (dec_pair dec_window (dec_pair dec_slots
       (dec_pair dec_slots (dec_pair dec_cells dec_cells))))))) (drop 2 s)"

lemma dec_enc_group_row: "dec_group_row (enc_group_row r) = Some (r, [])"
proof -
  let ?e = "enc_pair enc_u64 (enc_pair enc_u64 (enc_pair schema_text (enc_pair enc_window (enc_pair enc_slots
      (enc_pair enc_slots (enc_pair enc_cells enc_cells))))))"
  let ?d = "dec_pair dec_u64 (dec_pair dec_u64 (dec_pair dec_schema_text (dec_pair dec_window (dec_pair dec_slots
      (dec_pair dec_slots (dec_pair dec_cells dec_cells))))))"
  have "reads ?e ?d" by (intro readers)
  then have "?d (?e (fst (wg_schema_hash r), snd (wg_schema_hash r), wg_schema r, wg_window r, wg_counters r,
      wg_gauges r, wg_histograms r, wg_gauge_histograms r)) = Some ((fst (wg_schema_hash r),
      snd (wg_schema_hash r), wg_schema r, wg_window r, wg_counters r, wg_gauges r, wg_histograms r, wg_gauge_histograms r), [])"
    by (rule reads_whole)
  moreover have "drop 2 (enc_group_row r) = ?e (fst (wg_schema_hash r), snd (wg_schema_hash r), wg_schema r,
      wg_window r, wg_counters r, wg_gauges r, wg_histograms r, wg_gauge_histograms r)"
    by (simp add: enc_group_row_def row_head_def row_tail_def enc_pair_def numeral_2_eq_2)
  ultimately show ?thesis by (simp add: dec_group_row_def dec_map_def)
qed

section \<open>Long rows and occupants\<close>

definition enc_long_occupant :: "long_occupant \<Rightarrow> string" where
  "enc_long_occupant x = enc_pair enc_u64 (enc_pair enc_slots (enc_pair enc_slots (enc_pair enc_cells enc_cells)))
     (lo_occupant x, lo_counters x, lo_gauges x, lo_histograms x, lo_gauge_histograms x)"

definition dec_long_occupant :: "long_occupant decoder" where
  "dec_long_occupant = dec_map (\<lambda>(k, c, g, h, gh). \<lparr>lo_occupant = k, lo_counters = c, lo_gauges = g,
       lo_histograms = h, lo_gauge_histograms = gh\<rparr>)
     (dec_pair dec_u64 (dec_pair dec_slots (dec_pair dec_slots (dec_pair dec_cells dec_cells))))"

lemma reads_long_occupant [readers]: "reads enc_long_occupant dec_long_occupant"
  unfolding enc_long_occupant_def [abs_def] dec_long_occupant_def by (rule reads_map) (intro readers, simp)

definition enc_long_row :: "wal_long_row \<Rightarrow> string" where
  "enc_long_row r = enc_pair enc_u64 (enc_pair enc_u64 (enc_pair schema_text (enc_pair enc_window (enc_list enc_long_occupant))))
     (fst (wlr_schema_hash r), snd (wlr_schema_hash r), wlr_schema r, wlr_window r, wlr_occupants r)"

definition dec_long_row :: "wal_long_row decoder" where
  "dec_long_row = dec_map (\<lambda>(h1, h2, s, w, os). \<lparr>wlr_schema_hash = (h1, h2), wlr_schema = s, wlr_window = w, wlr_occupants = os\<rparr>)
     (dec_pair dec_u64 (dec_pair dec_u64 (dec_pair dec_schema_text (dec_pair dec_window (dec_list dec_long_occupant)))))"

lemma reads_long_row: "reads enc_long_row dec_long_row"
  unfolding enc_long_row_def [abs_def] dec_long_row_def by (rule reads_map) (intro readers, simp)

definition enc_occupant :: "occupant \<Rightarrow> string" where
  "enc_occupant x = enc_pair enc_u64 (enc_fmap enc_string) (oc_occupant x, oc_labels x)"

definition dec_occupant :: "occupant decoder" where
  "dec_occupant = dec_map (\<lambda>(k, l). \<lparr>oc_occupant = k, oc_labels = l\<rparr>) (dec_pair dec_u64 (dec_fmap dec_string))"

lemma reads_occupant [readers]: "reads enc_occupant dec_occupant"
  unfolding enc_occupant_def [abs_def] dec_occupant_def by (rule reads_map) (intro readers, simp)

section \<open>The encoding\<close>

definition whole :: "('a \<times> string) option \<Rightarrow> string + 'a" where
  "whole r = (case r of Some (a, _) \<Rightarrow> Inr a | None \<Rightarrow> Inl ''malformed'')"

fun read_array_len :: "u8 list \<Rightarrow> (nat \<times> u8 list) option" where
  "read_array_len [] = None"
| "read_array_len (b # rest) = (if 0x90 \<le> b \<and> b \<le> 0x9f then Some (unat (and b 0x0f), rest) else None)"

definition unary :: rmp where
  "unary = \<lparr>rm_group = (\<lambda>r. Inr (to_bytes (enc_group_row r))),
     rm_group_of = (\<lambda>bs. whole (dec_group_row (to_chars bs))),
     rm_long = (\<lambda>r. Inr (0x94 # to_bytes (enc_long_row r))),
     rm_long_of = (\<lambda>bs. whole (dec_long_row (to_chars (drop 1 bs)))),
     rm_occupants = (\<lambda>os. to_bytes (enc_list enc_occupant os)),
     rm_occupants_of = (\<lambda>bs. whole (dec_list dec_occupant (to_chars bs))),
     rm_schema = (\<lambda>s. Inr (to_bytes (schema_text (Some s)))),
     rm_array_len = read_array_len,
     rm_int = (\<lambda>bs. map_option (\<lambda>(n, rest). (n, to_bytes rest)) (dec_u64 (to_chars bs)))\<rparr>"

lemma unary_layout: "group_layout unary"
proof -
  have "header_reads unary r (to_bytes (row_head r)) \<and> row_bytes unary r (to_bytes (row_head r)) (to_bytes (row_tail r))" for r
  proof
    show "header_reads unary r (to_bytes (row_head r))"
      by (simp add: header_reads_def unary_def row_head_def group_fields_def readsD [OF reads_u64])
    show "row_bytes unary r (to_bytes (row_head r)) (to_bytes (row_tail r))"
      by (auto simp: row_bytes_def schema_cell_def unary_def enc_group_row_def row_head_def row_tail_def
        schema_text_def NULL_def split: option.splits)
  qed
  then show ?thesis unfolding group_layout_def by blast
qed

lemma unary_ok [simp]: "rmp_ok unary"
  using unary_layout reads_whole [OF reads_list [OF reads_occupant]]
  by (simp add: rmp_ok_def) (simp add: unary_def whole_def dec_enc_group_row reads_whole [OF reads_long_row] schema_text_def NULL_def)

lemma unary_arrays [simp]: "arrays_ok unary"
  by (simp add: arrays_ok_def unary_def row_form_def array_len_def enc_group_row_def row_head_def
    GROUP_ROW_FIELDS_def LONG_ROW_FIELDS_def)

text \<open>Histograms that are one value, a wire whose frames are of one kind, and a group.\<close>

definition plain_hist :: "unit hist_value" where
  "plain_hist = \<lparr>hv_grouping_power = (\<lambda>_. 0), hv_max_value_power = (\<lambda>_. 0), hv_as_slice = (\<lambda>_. []),
     hv_from_buckets = (\<lambda>_ _ _. Some ()), hv_decimal = (\<lambda>_. [])\<rparr>"

lemma plain_hist_ok [simp]: "hist_ok plain_hist"
  by (simp add: hist_ok_def canonicalize_def plain_hist_def)

definition small_wire :: wire where
  "small_wire = \<lparr>wi_magic = [0x44], wi_version = 1, wi_prefix = 4, wi_max = 16,
     wi_decode = (\<lambda>p. if p = [7] then Inr FIndex else Inl ''unknown frame'')\<rparr>"

lemma small_wire_ok [simp]: "wire_ok small_wire"
  by (simp add: wire_ok_def small_wire_def)

definition one_counter :: group_schema where
  "one_counter = \<lparr>gs_counters = [\<lparr>md_name = ''c'', md_metadata = fmempty\<rparr>], gs_gauges = [], gs_histograms = [],
     gs_gauge_histograms = []\<rparr>"

definition wide_group :: "u64 \<Rightarrow> group_schema option \<Rightarrow> unit group_snapshot" where
  "wide_group n s = \<lparr>gr_name = ''cpu'', gr_schema_hash = (1, 2), gr_schema = s, gr_window = None,
     gr_counters = [Some n], gr_gauges = [], gr_histograms = [], gr_gauge_histograms = []\<rparr>"

definition long_form :: "u64 \<Rightarrow> unit long_group" where
  "long_form n = \<lparr>lg_name = ''cpu'', lg_window = None, lg_columns_hash = (1, 2), lg_columns = one_counter,
     lg_occupants = [\<lparr>lm_key = 4, lm_labels = fmupd ''id'' ''0'' fmempty, lm_counters = [Some n], lm_gauges = [],
       lm_histograms = []\<rparr>]\<rparr>"

section \<open>The stream's properties at this encoding\<close>

theorem splice_is_encoding_with_schema_witness:
  "encode_wal_group_row_with_schema unary (to_bytes (enc_group_row (to_wal_group_row plain_hist (wide_group 5 None) None)))
       one_counter =
     encode_wal_group_row unary (to_wal_group_row plain_hist (wide_group 5 None) (Some one_counter))"
  using splice_is_encoding_with_schema [OF unary_ok, of "to_wal_group_row plain_hist (wide_group 5 None) None"
      "to_bytes (enc_group_row (to_wal_group_row plain_hist (wide_group 5 None) None))" one_counter]
  by (simp add: encode_wal_group_row_def unary_def to_wal_group_row_def)

theorem streamed_groups_arrive_witness:
  "\<exists>cn. carry unary plain_hist (0, 0)
       [([SWide (wide_group 5 (Some one_counter))], 10, 0, 1), ([SWide (wide_group 6 (Some one_counter))], 20, 0, 2),
        ([SLong (long_form 7)], 30, 0, 3)]
       (connect (fp_for_source ''epoch'' 0 fmempty fmempty) fmempty) =
     Some ([[SWide (wide_group 5 (Some one_counter))], [SWide (wide_group 6 (Some one_counter))], [SLong (long_form 7)]], cn) \<and>
     sd_unresolved (cn_decoder cn) = 0"
proof -
  let ?passes = "[([SWide (wide_group 5 (Some one_counter))], 10, 0, 1), ([SWide (wide_group 6 (Some one_counter))], 20, 0, 2),
        ([SLong (long_form 7)], 30, 0, 3)] :: unit StreamDecode.pass list"
  have "run_ok (\<Union> (set ` fst ` set ?passes))"
    by (simp add: run_ok_def wide_group_def long_form_def table_of_def SUFFIX_def)
  from streamed_groups_arrive [OF unary_ok unary_arrays plain_hist_ok this, of fmempty "(0, 0)" "''epoch''" 0 fmempty fmempty]
  show ?thesis by (simp add: cache_ok_def)
qed

theorem schemaless_row_withholds_the_schema_witness:
  "\<exists>cn. carry unary plain_hist (0, 0)
       [([SWide (wide_group 5 None)], 10, 0, 1), ([SWide (wide_group 6 (Some one_counter))], 20, 0, 2)]
       (connect (fp_for_source ''epoch'' 0 fmempty fmempty) fmempty) = Some ([[], []], cn) \<and>
     sd_unresolved (cn_decoder cn) = 2"
  using schemaless_row_withholds_the_schema [OF unary_ok unary_arrays, of "wide_group 5 None"
      "[([SWide (wide_group 6 (Some one_counter))], 20, 0, 2)]" plain_hist "(0, 0)" 10 0 1 "''epoch''" 0 fmempty fmempty fmempty]
  by (simp add: wide_group_def table_of_def SUFFIX_def)

theorem chunks_do_not_matter_witness:
  "fst (fd_run small_wire [[0x44, 1], [0, 1, 0, 0], [0, 7, 1]] fd_new) =
     fst (fd_push small_wire [0x44, 1, 0, 1, 0, 0, 0, 7, 1] fd_new)"
  using chunks_do_not_matter [OF small_wire_ok, of "[[0x44, 1], [0, 1, 0, 0], [0, 7, 1]]"] by simp

lemma le_bytes_numeral: "le_bytes (numeral v) n = of_nat (n mod 256) # le_bytes (pred_numeral v) (n div 256)"
  by (simp only: numeral_eq_Suc [of v] le_bytes.simps)

lemma small_parts: "framed [x] = [1, 0, 0, 0, x]" "preamble small_wire = [0x44, 1, 0]"
  by (simp_all add: framed_def preamble_def small_wire_def le_bytes_numeral)

lemma small_cut: "cut_short small_wire [1]"
proof -
  have "fits small_wire [9]" by (simp add: fits_def small_wire_def)
  moreover have "(1 :: nat) < length (framed [9])" "[1] = take 1 (framed [9])" by (simp_all add: small_parts)
  ultimately show ?thesis unfolding cut_short_def by blast
qed

lemma small_body:
  "concat [[0x44, 1], [0, 1, 0, 0], [0, 7, 1]] = preamble small_wire @ concat (map framed [[7]]) @ [1]"
  by (simp add: small_parts)

lemma small_frames:
  "wi_version small_wire < 2 ^ 16" "list_all (fits small_wire) [[7]]"
  "map (wi_decode small_wire) [[7]] = map Inr [FIndex]"
  by (simp_all add: small_wire_def fits_def)

theorem frames_survive_the_wire_witness:
  "fst (fd_run small_wire [[0x44, 1], [0, 1, 0, 0], [0, 7, 1]] fd_new) = Inr [FIndex] \<and>
     fd_pending (snd (fd_run small_wire [[0x44, 1], [0, 1, 0, 0], [0, 7, 1]] fd_new)) = length [1 :: u8]"
  by (rule frames_survive_the_wire [OF small_wire_ok small_frames small_cut small_body])

definition scraped :: "u64 \<Rightarrow> encoded_group" where
  "scraped e = \<lparr>eg_stream = ''cpu'', eg_window = Some (0, e), eg_schema_hash = (1, 2), eg_schema = Some one_counter,
     eg_row = []\<rparr>"

definition pass_of :: "u64 \<Rightarrow> encoded_group list \<Rightarrow> encoded_group Subscription.pass" where
  "pass_of wall rows = \<lparr>pa_stamp = \<lparr>ps_wall_ns = wall, ps_ts = wall, ps_wall_offset = 0\<rparr>, pa_rows = rows\<rparr>"

definition small_wakes :: "(encoded_group Subscription.pass option \<times> int) list" where
  "small_wakes = [(Some (pass_of 100 [scraped 90]), 100), (Some (pass_of 100 [scraped 90]), 200), (None, 250),
     (Some (pass_of 300 [scraped 90]), 300), (Some (pass_of 400 [scraped 390]), 400)]"

definition small_subscription :: subscription where
  "small_subscription = with_producer \<lparr>rq_interval = 100, rq_layout = Wide\<rparr> 50 (fp_for_source ''epoch'' 0 fmempty fmempty)"

lemma small_offered:
  "ends_on encoded_group_row ''cpu'' (offered (map fst small_wakes)) = [90, 90, 390]"
  "offered (take 4 (map fst small_wakes)) = [scraped 90, scraped 90]"
  "last_wall None (take 4 (map fst small_wakes)) = Some 300"
  by (simp_all add: small_wakes_def offered_def pass_of_def scraped_def end_on_def encoded_group_row_def pair_window_def
      window_new_def)

lemma small_due: "due encoded_group_row (take 4 (map fst small_wakes)) (map fst small_wakes ! 4) = [scraped 390]"
proof -
  have "map fst small_wakes ! 4 = Some (pass_of 400 [scraped 390])" by (simp add: small_wakes_def)
  then show ?thesis unfolding due_def small_offered
    by (simp add: is_due_def pass_of_def scraped_def end_on_def encoded_group_row_def pair_window_def window_new_def)
qed

theorem subscriber_is_sent_every_reading_once_witness:
  "length (sub_run unary encoded_group_row (0, 0) small_wakes small_subscription) = 5 \<and>
   frame_carries unary encoded_group_row (map fst small_wakes ! 4) [scraped 390]
     (sub_run unary encoded_group_row (0, 0) small_wakes small_subscription ! 4) \<and>
   ends_on encoded_group_row ''cpu'' (concat (map (\<lambda>k. due encoded_group_row (take k (map fst small_wakes)) (map fst small_wakes ! k))
     [0..<length (map fst small_wakes)])) = [90, 390]"
proof -
  let ?frames = "sub_run unary encoded_group_row (0, 0) small_wakes small_subscription"
  let ?carried = "concat (map (\<lambda>k. due encoded_group_row (take k (map fst small_wakes)) (map fst small_wakes ! k))
      [0..<length (map fst small_wakes)])"
  have "no_wrap (rq_interval \<lparr>rq_interval = 100, rq_layout = Wide\<rparr>) small_wakes"
    by (simp add: small_wakes_def no_wrap_def woke_ns_def interval_index_def)
  note all = subscriber_is_sent_every_reading_once [OF this, of unary encoded_group_row "(0, 0)" 50
      "fp_for_source ''epoch'' 0 fmempty fmempty" "''cpu''", folded small_subscription_def, unfolded Let_def]
  have count: "length small_wakes = 5" "4 < length small_wakes" by (simp_all add: small_wakes_def)
  note frames = conjunct1 [OF all] conjunct1 [OF conjunct2 [OF conjunct2 [OF all]]]
    conjunct1 [OF conjunct2 [OF conjunct2 [OF conjunct2 [OF all]]]]
  have "frame_carries unary encoded_group_row (map fst small_wakes ! 4) [scraped 390] (?frames ! 4)"
    using mp [OF spec [OF frames(2), of 4] count(2)] unfolding small_due .
  moreover have "ends_on encoded_group_row ''cpu'' ?carried = [90, 390]" unfolding frames(3) small_offered by simp
  ultimately show ?thesis unfolding frames(1) count(1) by (intro conjI refl)
qed

theorem next_deadline_is_the_next_boundary_witness:
  "250 < next_deadline (with_producer \<lparr>rq_interval = 100, rq_layout = Wide\<rparr> 50 (fp_for_source [] 0 fmempty fmempty)) 250 \<and>
   next_deadline (with_producer \<lparr>rq_interval = 100, rq_layout = Wide\<rparr> 50 (fp_for_source [] 0 fmempty fmempty)) 250 \<le> 350"
  using next_deadline_is_the_next_boundary [of 250
      "with_producer \<lparr>rq_interval = 100, rq_layout = Wide\<rparr> 50 (fp_for_source [] 0 fmempty fmempty)"]
  by (simp add: with_producer_def)

theorem requests_survive_the_query_string_witness:
  "parse_request (\<lambda>s. if s = ''5 s'' then Inr 5000000000 else Inl ''bad'')
      (CHR ''?'' # encode_query [(''interval'', ''5 s''), (''x'', ''&''), (''layout'', ''long'')]) =
    Inr \<lparr>rq_interval = 5000000000, rq_layout = Long\<rparr>"
  using requests_survive_the_query_string [of "[(''interval'', ''5 s''), (''x'', ''&''), (''layout'', ''long'')]"
    "CHR ''?'' # encode_query [(''interval'', ''5 s''), (''x'', ''&''), (''layout'', ''long'')]"
    "\<lambda>s. if s = ''5 s'' then Inr 5000000000 else Inl ''bad''"]
  by (simp add: wanted_def request_interval_def request_layout_def Let_def)

end
