(* ===== verification/RecordingInstances.thy ===== *)
theory RecordingInstances
  imports Occupancy WireCodec
begin

text \<open>A concrete recording, to which the properties of \<open>LongLayout\<close> and \<open>Occupancy\<close> apply.\<close>

definition byte_accounts :: "nat accounts" where
  "byte_accounts = \<lparr>ac_open_first = (\<lambda>_. 0), ac_add_row = (\<lambda>bytes _ a. a + bytes), ac_is_due = (\<lambda>a. 1000 \<le> a),
     ac_rotate = (\<lambda>_. 0)\<rparr>"

definition small_recording :: "(nat, unit) recording" where
  "small_recording = \<lparr>re_rm = unary, re_cells = (\<lambda>_. Inr []), re_hist = plain_hist, re_schema = (\<lambda>_. []),
     re_accounts = byte_accounts, re_config = writer_config_default\<rparr>"

definition task :: "string \<Rightarrow> smap" where
  "task pid = fmupd ''id'' pid fmempty"

definition task_row :: "u64 \<Rightarrow> u64 list \<Rightarrow> wal_long_row" where
  "task_row stamp keys = \<lparr>wlr_schema_hash = (1, 2), wlr_schema = Some one_counter, wlr_window = Some (0, stamp),
     wlr_occupants = map (\<lambda>k. \<lparr>lo_occupant = k, lo_counters = [Some 5], lo_gauges = [], lo_histograms = [],
       lo_gauge_histograms = []\<rparr>) keys\<rparr>"

definition small_run :: "unit rec_op list" where
  "small_run =
     [StageStreamed [Occupants ''cpu/tasks'' [\<lparr>oc_occupant = 7, oc_labels = task ''1''\<rparr>], LongRow ''cpu/tasks'' (task_row 1 [7])] 1 0,
      MaybeSeal,
      StageStreamed [Occupants ''cpu/tasks'' [\<lparr>oc_occupant = 9, oc_labels = task ''1''\<rparr>, \<lparr>oc_occupant = 7, oc_labels = task ''2''\<rparr>],
        LongRow ''cpu/tasks'' (task_row 2 [9, 7])] 2 0]"

lemma small_names: "\<forall>x \<in> set small_run. \<forall>n \<in> set (op_names x). table_name n"
  by (simp add: small_run_def table_name_def table_of_def SUFFIX_def)

theorem long_layout_keeps_every_label_witness:
  "let (layout, cols') = ll_of (\<lambda>_. []) one_counter lc_default
   in laid_out one_counter (ll_slots layout) (lc_schema cols') \<and> columns_grown lc_default cols' \<and> cols_ok cols' \<and>
     (\<forall>k. distinct (map md_metadata (descs k (lc_schema cols')))) \<and>
     distinct (map md_name (gs_counters (lc_schema cols') @ gs_gauges (lc_schema cols') @ gs_histograms (lc_schema cols'))) \<and>
     (\<forall>k. mset (member_numbers k (ll_slots layout)) = mset [0..<length (descs k one_counter)]) \<and>
     lc_hash cols' = (if lc_schema cols' = lc_schema lc_default then lc_hash lc_default else schema_hash (\<lambda>_. []) (lc_schema cols'))"
proof (rule long_layout_keeps_every_label)
  show "cols_ok lc_default" by (simp add: cols_ok_def lc_default_def plain_schema_def)
  have "d = \<lparr>md_name = ''c'', md_metadata = fmempty\<rparr>" if "d \<in> set (descs k one_counter)" for d k
    using that by (cases k) (simp_all add: one_counter_def)
  then show "plain_schema one_counter" by (force simp: plain_schema_def plain_map_def)
qed

text \<open>A streamed row numbers at most the occupants in it.\<close>

definition numbered_in :: "group_state \<Rightarrow> nat" where
  "numbered_in s = size (fmdom (st_occupants s))"

lemma number_of_grows: "number_of i s = (n, s') \<Longrightarrow> numbered_in s' \<le> Suc (numbered_in s)"
  by (auto simp: number_of_def numbered_in_def Let_def card_insert_if split: option.splits)

lemma resolve_key_grows: "resolve_key shared key s = (r, s') \<Longrightarrow> numbered_in s' \<le> Suc (numbered_in s)"
  using number_of_grows
  by (fastforce simp: resolve_key_def Let_def numbered_in_def split: option.splits prod.splits)

lemma describe_grows: "describe n l s = (new, s') \<Longrightarrow> numbered_in s' = numbered_in s"
  by (auto simp: describe_def numbered_in_def split: if_splits)

lemma stage_occupants_grows:
  "stage_occupants w columns xs s = (present, new, s') \<Longrightarrow> numbered_in s' \<le> numbered_in s + length xs"
proof (induction xs arbitrary: s present new)
  case Nil
  then show ?case by simp
next
  case (Cons x xs)
  obtain r s1 where one: "resolve_key (wr_shared w) (lo_occupant x) s = (r, s1)" by fastforce
  note grows = resolve_key_grows [OF one]
  show ?case
  proof (cases "fits_wire w x")
    case False
    with Cons.prems Cons.IH [of s present new] show ?thesis by simp
  next
    case True
    show ?thesis
    proof (cases r)
      case None
      with Cons.prems True one Cons.IH [of s1 present new] grows show ?thesis by simp
    next
      case (Some p)
      obtain n l where p: "p = (n, l)" by fastforce
      obtain new1 s2 where two: "describe n l s1 = (new1, s2)" by fastforce
      obtain present2 new2 where "stage_occupants w columns xs (note_seen n l s2) = (present2, new2, s')"
        using Cons.prems True one two Some p by (auto simp: Let_def split: prod.splits)
      from Cons.IH [OF this] grows describe_grows [OF two] show ?thesis by (simp add: note_seen_def numbered_in_def)
    qed
  qed
qed

lemma write_long_numbers:
  "write_long re name window present fs ts wall rc = (r, rc') \<Longrightarrow>
     numbered_in (get_group name rc') = numbered_in (get_group name rc)"
  by (auto simp: write_long_def Let_def restate_def numbered_in_def split: if_splits sum.splits option.splits prod.splits)

lemma stage_long_row_grows:
  assumes "stage_long_row re name row ts wall rc = (r, rc')"
  shows "numbered_in (get_group name rc') \<le> numbered_in (get_group name rc) + length (wlr_occupants row)"
proof -
  let ?s = "get_group name rc"
  define s1 where "s1 = (case wlr_schema row of
      Some schema \<Rightarrow> if map_option fst (st_wire ?s) \<noteq> Some (wlr_schema_hash row)
        then take_columns re (wlr_schema_hash row) schema ?s else ?s
    | None \<Rightarrow> ?s)"
  have s1: "numbered_in s1 = numbered_in ?s"
    by (simp add: s1_def numbered_in_def take_columns_kept split: option.split)
  note run = assms [unfolded stage_long_row_def Let_def, folded s1_def]
  show ?thesis
  proof (cases "st_long ?s = Some False \<or> st_last_key s1 = Some (case wlr_window row of None \<Rightarrow> ts | Some (x, e) \<Rightarrow> e) \<or>
      st_wire s1 = None \<or> (\<exists>h w. st_wire s1 = Some (h, w) \<and> h \<noteq> wlr_schema_hash row)")
    case True
    with run s1 show ?thesis by (auto split: if_splits option.splits)
  next
    case False
    then obtain w where w: "st_wire s1 = Some (wlr_schema_hash row, w)" by auto
    let ?s2 = "s1\<lparr>st_long := Some True, st_last_key := Some (case wlr_window row of None \<Rightarrow> ts | Some (x, e) \<Rightarrow> e)\<rparr>"
    obtain present fs s3 where three: "stage_occupants w (lc_schema (st_columns ?s2)) (wlr_occupants row) ?s2 = (present, fs, s3)"
      by (metis prod_cases3)
    have "write_long re name (wlr_window row) present fs ts wall
       (set_group name (retain_keys (lo_occupant ` set (wlr_occupants row)) s3) rc) = (r, rc')"
      using run False w three by simp
    from write_long_numbers [OF this] stage_occupants_grows [OF three] s1 show ?thesis
      by (simp add: retain_keys_def numbered_in_def)
  qed
qed

lemma announce_numbers [simp]: "numbered_in (announce os s) = numbered_in s"
  by (simp add: numbered_in_def)

lemma maybe_seal_numbers: "numbered_in (get_group name (snd (maybe_seal re rc))) = numbered_in (get_group name rc)"
proof -
  have seal: "numbered_in (get_group name (seal_stream x rc)) = numbered_in (get_group name rc)" for x and rc :: "'a source_recorder"
    by (cases "fmlookup (rc_groups rc) x"; cases "x = name") (auto simp: seal_stream_def get_group_def numbered_in_def)
  have "numbered_in (get_group name (sealing batch rc)) = numbered_in (get_group name rc)" for batch and rc :: "'a source_recorder"
    unfolding sealing_def by (induction batch arbitrary: rc) (simp_all add: seal)
  then show ?thesis by (simp add: maybe_seal_def seal_batch_def rotate_def get_group_def)
qed

lemma streamed_table_numbers:
  assumes "stage_streamed re [Occupants name os, LongRow name row] {||} ts wall rc = (r, rc')"
  shows "numbered_in (get_group name rc') \<le> numbered_in (get_group name rc) + length (wlr_occupants row)"
proof -
  let ?s = "get_group name rc"
  let ?rc = "set_group name (if st_long ?s = Some False then ?s else announce os ?s) rc"
  obtain r1 rc1 where one: "stage_long_row re name row ts wall ?rc = (r1, rc1)" by fastforce
  have "rc' = rc1" using assms one by (auto simp: Let_def split: sum.splits prod.splits)
  with stage_long_row_grows [OF one] show ?thesis by (simp split: if_splits)
qed

lemma small_size: "size (fmdom (st_occupants (get_group ''cpu/tasks'' (snd (record_ops small_recording small_run fresh_recorder))))) \<le> 3"
proof -
  let ?n = "''cpu/tasks''"
  let ?first = "[Occupants ?n [\<lparr>oc_occupant = 7, oc_labels = task ''1''\<rparr>], LongRow ?n (task_row 1 [7])]"
  let ?third = "[Occupants ?n [\<lparr>oc_occupant = 9, oc_labels = task ''1''\<rparr>, \<lparr>oc_occupant = 7, oc_labels = task ''2''\<rparr>],
        LongRow ?n (task_row 2 [9, 7])]"
  obtain r1 rc1 where one: "stage_streamed small_recording ?first {||} 1 0 fresh_recorder = (r1, rc1)" by fastforce
  obtain r3 rc3 where three: "stage_streamed small_recording ?third {||} 2 0 (snd (maybe_seal small_recording rc1)) = (r3, rc3)"
    by fastforce
  have "numbered_in (get_group ?n rc1) \<le> numbered_in (get_group ?n (fresh_recorder :: nat source_recorder)) + 1"
    using streamed_table_numbers [OF one] by (simp add: task_row_def)
  moreover have "numbered_in (get_group ?n rc3) \<le> numbered_in (get_group ?n rc1) + 2"
    using streamed_table_numbers [OF three]
      maybe_seal_numbers [of ?n small_recording rc1]
    by (simp add: task_row_def)
  moreover have "snd (record_ops small_recording small_run fresh_recorder) = rc3"
    using one three by (simp add: small_run_def case_prod_beta del: stage_streamed.simps)
  moreover have "numbered_in (get_group ?n (fresh_recorder :: nat source_recorder)) = 0"
    by (simp add: numbered_in_def get_group_def fresh_recorder_def group_state_default_def)
  ultimately show ?thesis by (simp add: numbered_in_def)
qed

theorem occupants_keep_their_numbers_witness:
  "let rows = fst (record_ops small_recording small_run fresh_recorder)
   in (\<forall>(n, l) \<in> described unary ''cpu/tasks'' rows. \<forall>(n', l') \<in> described unary ''cpu/tasks'' rows.
        n = n' \<longleftrightarrow> occupant_identity l = occupant_identity l') \<and>
      (\<forall>n \<in> long_numbers unary ''cpu/tasks'' rows. \<exists>l. (n, l) \<in> described unary ''cpu/tasks'' rows)"
proof -
  have "size (fmdom (st_occupants (get_group ''cpu/tasks'' (snd (record_ops small_recording small_run fresh_recorder))))) \<le> 2 ^ 64"
    using small_size by simp
  moreover have "table_name ''cpu/tasks''" by (simp add: table_name_def table_of_def SUFFIX_def)
  moreover have "re_rm small_recording = unary" by (simp add: small_recording_def)
  ultimately show ?thesis
    using occupants_keep_their_numbers [of small_recording small_run "fst (record_ops small_recording small_run fresh_recorder)"
        "snd (record_ops small_recording small_run fresh_recorder)" "''cpu/tasks''"] small_names
    by (simp add: Let_def)
qed

end
