(* ===== verification/Labels.thy ===== *)
theory Labels
  imports Prelude Identity
begin

text \<open>
  Label sets and the matchers that select series by them (\<open>metriken-storage/src/labels.rs\<close>). The \<open>regex\<close>
  crate is a parameter; \<open>regex_ok\<close> is what the code relies on of it.
\<close>

section \<open>Labels\<close>

definition STORAGE_KEYS :: "string list" where
  "STORAGE_KEYS = [''metric'', ''metric_type'', ''unit'', ''grouping_power'', ''max_value_power'']"

definition is_storage_key :: "string \<Rightarrow> bool" where
  "is_storage_key key \<longleftrightarrow> key \<in> set STORAGE_KEYS"

definition is_internal_label :: "string \<Rightarrow> bool" where
  "is_internal_label name \<longleftrightarrow> strip_prefix ''__'' name \<noteq> None"

definition RECORDING_LABEL :: string where "RECORDING_LABEL = ''__recording__''"

definition is_matched_label :: "string \<Rightarrow> bool" where
  "is_matched_label name \<longleftrightarrow> \<not> is_internal_label name \<or> name = RECORDING_LABEL"

type_synonym labels = smap

definition labels_from_metadata :: "(string \<times> string) list \<Rightarrow> labels" where
  "labels_from_metadata metadata =
     fold (\<lambda>(k, v) m. fmupd k v m) (filter (\<lambda>(k, _). \<not> is_storage_key k) metadata) fmempty"

section \<open>Matchers\<close>

datatype match_op = Equal | NotEqual | Regex | NotRegex

text \<open>The \<open>regex\<close> crate: \<open>Regex::new\<close>, \<open>is_match\<close> and \<open>escape\<close>.\<close>

record 'r regex_crate =
  rx_new :: "string \<Rightarrow> 'r option"
  rx_is_match :: "'r \<Rightarrow> string \<Rightarrow> bool"
  rx_escape :: "string \<Rightarrow> string"

definition encode :: "'r regex_crate \<Rightarrow> match_op \<Rightarrow> string \<Rightarrow> string" where
  "encode rx op operand = (case op of
       Equal \<Rightarrow> (case operand of c # _ \<Rightarrow> if c \<in> set ''!~='' then CHR ''='' # operand else operand | [] \<Rightarrow> operand)
     | NotEqual \<Rightarrow> CHR ''!'' # rx_escape rx operand
     | Regex \<Rightarrow> CHR ''~'' # operand
     | NotRegex \<Rightarrow> CHR ''!'' # operand)"

definition PATTERN_CACHE :: nat where "PATTERN_CACHE = 256"

definition is_meta :: "char \<Rightarrow> bool" where
  "is_meta c \<longleftrightarrow> c = CHR 0x5C \<or> c \<in> set ''.+*?()[]{}^$''"

definition anchored :: "string \<Rightarrow> string" where
  "anchored pattern = ''^(?:'' @ pattern @ '')$''"

text \<open>Patterns compiled on this thread.\<close>

type_synonym 'r patterns = "(string, 'r option) fmap"

definition compiled :: "'r regex_crate \<Rightarrow> string \<Rightarrow> 'r patterns \<Rightarrow> 'r patterns" where
  "compiled rx pattern patterns =
     (if pattern |\<in>| fmdom patterns then patterns
      else fmupd pattern (rx_new rx (anchored pattern))
        (if PATTERN_CACHE \<le> size (fmdom patterns) then fmempty else patterns))"

definition match_pattern :: "'r regex_crate \<Rightarrow> string \<Rightarrow> string \<Rightarrow> 'r patterns \<Rightarrow> bool \<times> 'r patterns" where
  "match_pattern rx v pattern patterns =
     (if list_all (\<lambda>alternative. \<not> list_ex is_meta alternative) (split_on (CHR ''|'') pattern)
      then (v \<in> set (split_on (CHR ''|'') pattern), patterns)
      else (let patterns = compiled rx pattern patterns
            in (case fmlookup patterns pattern of Some (Some r) \<Rightarrow> rx_is_match rx r v | _ \<Rightarrow> False, patterns)))"

text \<open>One matcher of a filter: whether the series passes it.\<close>

definition match_one :: "'r regex_crate \<Rightarrow> labels \<Rightarrow> string \<Rightarrow> string \<Rightarrow> 'r patterns \<Rightarrow> bool \<times> 'r patterns" where
  "match_one rx self label v patterns =
     (case strip_prefix ''!'' v of
        Some pattern \<Rightarrow>
          (case fmlookup self label of
             Some own \<Rightarrow> (let (hit, patterns) = match_pattern rx own pattern patterns in (\<not> hit, patterns))
           | None \<Rightarrow> (True, patterns))
      | None \<Rightarrow>
          (case strip_prefix ''~'' v of
             Some pattern \<Rightarrow>
               (case fmlookup self label of None \<Rightarrow> (False, patterns) | Some own \<Rightarrow> match_pattern rx own pattern patterns)
           | None \<Rightarrow>
               (case fmlookup self label of
                  Some own \<Rightarrow> (own = (case strip_prefix ''='' v of Some operand \<Rightarrow> operand | None \<Rightarrow> v), patterns)
                | None \<Rightarrow> (False, patterns))))"

fun match_each :: "'r regex_crate \<Rightarrow> labels \<Rightarrow> (string \<times> string) list \<Rightarrow> 'r patterns \<Rightarrow> bool \<times> 'r patterns" where
  "match_each rx self [] patterns = (True, patterns)"
| "match_each rx self ((label, v) # rest) patterns =
     (let (passes, patterns) = match_one rx self label v patterns
      in if passes then match_each rx self rest patterns else (False, patterns))"

definition labels_matches :: "'r regex_crate \<Rightarrow> labels \<Rightarrow> labels \<Rightarrow> 'r patterns \<Rightarrow> bool \<times> 'r patterns" where
  "labels_matches rx self other patterns = match_each rx self (map_entries other) patterns"

section \<open>The cache does not show\<close>

definition patterns_ok :: "'r regex_crate \<Rightarrow> 'r patterns \<Rightarrow> bool" where
  "patterns_ok rx patterns \<longleftrightarrow> size (fmdom patterns) \<le> PATTERN_CACHE \<and>
     (\<forall>p r. fmlookup patterns p = Some r \<longrightarrow> r = rx_new rx (anchored p))"

lemma patterns_ok_empty [simp]: "patterns_ok rx fmempty"
  by (simp add: patterns_ok_def)

text \<open>Whether a pattern, anchored, matches; one that does not compile matches nothing.\<close>

definition regex_hits :: "'r regex_crate \<Rightarrow> string \<Rightarrow> string \<Rightarrow> bool" where
  "regex_hits rx pattern v \<longleftrightarrow> (\<exists>r. rx_new rx (anchored pattern) = Some r \<and> rx_is_match rx r v)"

definition hits :: "'r regex_crate \<Rightarrow> string \<Rightarrow> string \<Rightarrow> bool" where
  "hits rx pattern v \<longleftrightarrow>
     (if list_all (\<lambda>alternative. \<not> list_ex is_meta alternative) (split_on (CHR ''|'') pattern)
      then v \<in> set (split_on (CHR ''|'') pattern) else regex_hits rx pattern v)"

lemma compiled_ok:
  assumes "patterns_ok rx patterns"
  shows "patterns_ok rx (compiled rx pattern patterns)"
    "fmlookup (compiled rx pattern patterns) pattern = Some (rx_new rx (anchored pattern))"
proof -
  show "fmlookup (compiled rx pattern patterns) pattern = Some (rx_new rx (anchored pattern))"
    using assms by (cases "fmlookup patterns pattern") (auto simp: compiled_def patterns_ok_def fmlookup_dom_iff)
  have "size (fmdom (compiled rx pattern patterns)) \<le> PATTERN_CACHE"
    using assms by (auto simp: compiled_def patterns_ok_def PATTERN_CACHE_def card_insert_if)
  moreover have "\<forall>p r. fmlookup (compiled rx pattern patterns) p = Some r \<longrightarrow> r = rx_new rx (anchored p)"
    using assms by (auto simp: compiled_def patterns_ok_def split: if_splits)
  ultimately show "patterns_ok rx (compiled rx pattern patterns)" unfolding patterns_ok_def by blast
qed

lemma match_pattern_ok:
  assumes "patterns_ok rx patterns" "match_pattern rx v pattern patterns = (b, patterns')"
  shows "b = hits rx pattern v" "patterns_ok rx patterns'"
  using assms compiled_ok [OF assms(1), of pattern]
  by (auto simp: match_pattern_def hits_def regex_hits_def Let_def split: if_splits option.splits)

definition passes :: "'r regex_crate \<Rightarrow> string option \<Rightarrow> string \<Rightarrow> bool" where
  "passes rx own v =
     (case strip_prefix ''!'' v of
        Some pattern \<Rightarrow> (case own of Some x \<Rightarrow> \<not> hits rx pattern x | None \<Rightarrow> True)
      | None \<Rightarrow>
          (case strip_prefix ''~'' v of
             Some pattern \<Rightarrow> (case own of Some x \<Rightarrow> hits rx pattern x | None \<Rightarrow> False)
           | None \<Rightarrow> own = Some (case strip_prefix ''='' v of Some operand \<Rightarrow> operand | None \<Rightarrow> v)))"

lemma match_one_ok:
  assumes "patterns_ok rx patterns" "match_one rx self label v patterns = (b, patterns')"
  shows "b = passes rx (fmlookup self label) v" "patterns_ok rx patterns'"
proof -
  have "b = passes rx (fmlookup self label) v \<and> patterns_ok rx patterns'"
    using assms match_pattern_ok [OF assms(1)]
    by (fastforce simp: match_one_def passes_def split: option.splits prod.splits)
  then show "b = passes rx (fmlookup self label) v" "patterns_ok rx patterns'" by blast+
qed

lemma match_each_ok:
  "patterns_ok rx patterns \<Longrightarrow> match_each rx self entries patterns = (b, patterns') \<Longrightarrow>
     (b \<longleftrightarrow> (\<forall>(label, v) \<in> set entries. passes rx (fmlookup self label) v)) \<and> patterns_ok rx patterns'"
proof (induction entries arbitrary: patterns)
  case Nil
  then show ?case by simp
next
  case (Cons e entries)
  obtain label v where e: "e = (label, v)" by fastforce
  obtain b1 patterns1 where one: "match_one rx self label v patterns = (b1, patterns1)" by fastforce
  note ok = match_one_ok [OF Cons.prems(1) one]
  show ?case
  proof (cases b1)
    case True
    with Cons.prems(2) one have "match_each rx self entries patterns1 = (b, patterns')" by (simp add: e)
    from Cons.IH [OF ok(2) this] ok(1) True show ?thesis by (simp add: e)
  next
    case False
    with Cons.prems(2) one ok show ?thesis by (auto simp: e)
  qed
qed

text \<open>What a filter decides, cache aside.\<close>

definition accepts :: "'r regex_crate \<Rightarrow> labels \<Rightarrow> labels \<Rightarrow> bool" where
  "accepts rx matchers self \<longleftrightarrow> (\<forall>k v. fmlookup matchers k = Some v \<longrightarrow> passes rx (fmlookup self k) v)"

lemma labels_matches_ok:
  assumes "patterns_ok rx patterns" "labels_matches rx self matchers patterns = (b, patterns')"
  shows "b = accepts rx matchers self" "patterns_ok rx patterns'"
  using match_each_ok [OF assms(1) assms(2) [unfolded labels_matches_def]]
  by (auto simp: accepts_def set_map_entries)

section \<open>An encoded matcher decides as its operator\<close>

text \<open>
  What is relied on of the \<open>regex\<close> crate: escaping puts a backslash before each special character, so what it
  gives matches its operand alone; and a pattern without special characters but \<open>|\<close> matches its alternatives.
\<close>

definition regex_ok :: "'r regex_crate \<Rightarrow> bool" where
  "regex_ok rx \<longleftrightarrow>
     (\<forall>s. list_ex is_meta (rx_escape rx s) \<or> rx_escape rx s = s \<and> CHR ''|'' \<notin> set s) \<and>
     (\<forall>s v. regex_hits rx (rx_escape rx s) v \<longleftrightarrow> v = s) \<and>
     (\<forall>p v. \<not> list_ex is_meta p \<longrightarrow> (regex_hits rx p v \<longleftrightarrow> v \<in> set (split_on (CHR ''|'') p)))"

lemma in_split_on: "set (concat (split_on c s)) = set s - {c}"
proof (induction s)
  case (Cons x s)
  then show ?case by (cases "split_on c s") auto
qed simp

lemma no_meta_split:
  "list_all (\<lambda>a. \<not> list_ex is_meta a) (split_on (CHR ''|'') p) \<longleftrightarrow> \<not> list_ex is_meta p"
proof -
  have "\<not> is_meta (CHR ''|'')" by (simp add: is_meta_def)
  then have "list_ex is_meta p \<longleftrightarrow> (\<exists>x \<in> set p - {CHR ''|''}. is_meta x)" by (auto simp: list_ex_iff)
  also have "\<dots> \<longleftrightarrow> (\<exists>x \<in> set (concat (split_on (CHR ''|'') p)). is_meta x)" by (simp only: in_split_on)
  finally show ?thesis by (auto simp: list_all_iff list_ex_iff)
qed

text \<open>Deciding a list of literals without a regex decides as the regex would.\<close>

lemma hits_regex: "regex_ok rx \<Longrightarrow> hits rx p v \<longleftrightarrow> regex_hits rx p v"
  by (simp add: hits_def no_meta_split regex_ok_def)

lemma regex_escape: "regex_ok rx \<Longrightarrow> regex_hits rx (rx_escape rx s) v \<longleftrightarrow> v = s"
  by (simp add: regex_ok_def)

fun decides :: "'r regex_crate \<Rightarrow> match_op \<Rightarrow> string \<Rightarrow> string option \<Rightarrow> bool" where
  "decides rx Equal operand own \<longleftrightarrow> own = Some operand"
| "decides rx NotEqual operand own \<longleftrightarrow> own \<noteq> Some operand"
| "decides rx Regex operand own \<longleftrightarrow> (\<exists>v. own = Some v \<and> regex_hits rx operand v)"
| "decides rx NotRegex operand own \<longleftrightarrow> (\<forall>v. own = Some v \<longrightarrow> \<not> regex_hits rx operand v)"

lemma strip_prefix_one: "strip_prefix [c] s = (case s of x # r \<Rightarrow> if x = c then Some r else None | [] \<Rightarrow> None)"
  by (cases s) auto

lemma passes_encoded:
  assumes "regex_ok rx"
  shows "passes rx own (encode rx op operand) \<longleftrightarrow> decides rx op operand own"
  by (cases op; cases own; cases operand)
    (auto simp: passes_def encode_def strip_prefix_one hits_regex [OF assms] regex_escape [OF assms])

definition encode_filter :: "'r regex_crate \<Rightarrow> (string, match_op \<times> string) fmap \<Rightarrow> labels" where
  "encode_filter rx f = fmmap (\<lambda>(op, operand). encode rx op operand) f"

text \<open>
  C25. A filter decides as its matchers say. Encoded as \<open>MatchOp::encode\<close> writes them, the four operators accept a label
  set exactly when each holds of the value it carries, an absent label failing \<open>=\<close> and \<open>=~\<close> and
  passing \<open>!=\<close> and \<open>!~\<close>: whatever the operand begins with, whatever patterns are cached, and the cache stays
  within its bound and holds only what its patterns compile to.
\<close>

theorem encoded_matchers_decide:
  assumes "regex_ok rx" "patterns_ok rx patterns"
  shows "let (matched, patterns') = labels_matches rx self (encode_filter rx f) patterns
    in (matched \<longleftrightarrow> (\<forall>k op operand. fmlookup f k = Some (op, operand) \<longrightarrow> decides rx op operand (fmlookup self k))) \<and>
       patterns_ok rx patterns'"
proof -
  obtain b patterns' where run: "labels_matches rx self (encode_filter rx f) patterns = (b, patterns')" by fastforce
  note ok = labels_matches_ok [OF assms(2) run]
  have "accepts rx (encode_filter rx f) self \<longleftrightarrow>
      (\<forall>k op operand. fmlookup f k = Some (op, operand) \<longrightarrow> decides rx op operand (fmlookup self k))"
    unfolding accepts_def encode_filter_def by (fastforce simp flip: passes_encoded [OF assms(1)])
  with ok run show ?thesis by simp
qed

end
