(* ===== verification/Labeled.thy ===== *)
theory Labeled
  imports Labels
begin

text \<open>
  A source whose series carry a recording's labels (\<open>metriken-storage/src/labeled.rs\<close>): how a series is
  relabelled, and how a filter is split between what the source is asked and what is decided on the
  relabelled series. The source is a parameter; \<open>Labels::matches\<close> is \<open>accepts\<close>, which is what it decides
  whatever its cache of patterns.
\<close>

section \<open>Adding labels\<close>

definition EXPORTED_PREFIX :: string where "EXPORTED_PREFIX = ''exported_''"

definition exported :: "string \<Rightarrow> string" where
  "exported k = EXPORTED_PREFIX @ k"

lemma length_exported [simp]: "length (exported k) = 9 + length k"
  by (simp add: exported_def EXPORTED_PREFIX_def)

datatype precedence = Recording | Series

text \<open>The displaced values move one prefix further, as far as the chain goes.\<close>

function move_exported :: "string \<Rightarrow> string \<Rightarrow> labels \<Rightarrow> labels" where
  "move_exported key moving labels =
     (case fmlookup labels key of
        None \<Rightarrow> fmupd key moving labels
      | Some displaced \<Rightarrow> move_exported (exported key) displaced (fmupd key moving labels))"
  by pat_completeness auto

termination
proof (relation "measure (\<lambda>(key, _, labels). card {k \<in> fset (fmdom labels). length key \<le> length k})")
  fix key moving displaced :: string and labels :: labels
  assume own: "fmlookup labels key = Some displaced"
  let ?below = "{k \<in> fset (fmdom (fmupd key moving labels)). length (exported key) \<le> length k}"
  let ?here = "{k \<in> fset (fmdom labels). length key \<le> length k}"
  have dom: "key |\<in>| fmdom labels" using own by (simp add: fmdomI)
  then have "?below \<subseteq> ?here" by auto
  moreover have "key \<in> ?here" "key \<notin> ?below" using dom by simp_all
  ultimately have "?below \<subset> ?here" by blast
  then have "card ?below < card ?here" by (rule psubset_card_mono [rotated]) simp
  then show "((exported key, displaced, fmupd key moving labels), key, moving, labels)
    \<in> measure (\<lambda>(key, _, labels). card {k \<in> fset (fmdom labels). length key \<le> length k})" by simp
qed simp

declare move_exported.simps [simp del]

definition add_label :: "string \<Rightarrow> string \<Rightarrow> labels \<Rightarrow> labels" where
  "add_label k v labels =
     (case fmlookup labels k of
        None \<Rightarrow> fmupd k v labels
      | Some own \<Rightarrow> move_exported (exported k) own (fmupd k v labels))"

definition add_labels :: "labels \<Rightarrow> labels \<Rightarrow> labels" where
  "add_labels extra labels = fold (\<lambda>(k, v). add_label k v) (map_entries extra) labels"

definition add_labels_with :: "precedence \<Rightarrow> labels \<Rightarrow> labels \<Rightarrow> labels" where
  "add_labels_with precedence extra labels =
     (case precedence of Recording \<Rightarrow> add_labels extra labels | Series \<Rightarrow> extra ++\<^sub>f labels)"

section \<open>Splitting a filter\<close>

function is_exported_of :: "string \<Rightarrow> labels \<Rightarrow> bool" where
  "is_exported_of key extra =
     (case strip_prefix EXPORTED_PREFIX key of
        None \<Rightarrow> False
      | Some stripped \<Rightarrow> stripped |\<in>| fmdom extra \<or> is_exported_of stripped extra)"
  by pat_completeness auto

termination
  by (relation "measure (\<lambda>(key, _). length key)") (auto simp: EXPORTED_PREFIX_def)

declare is_exported_of.simps [simp del]

fun translate_each :: "'r regex_crate \<Rightarrow> labels \<Rightarrow> (string \<times> string) list \<Rightarrow> labels \<Rightarrow> labels option" where
  "translate_each rx extra [] out = Some out"
| "translate_each rx extra ((k, v) # rest) out =
     (if k |\<in>| fmdom extra
      then (if accepts rx (fmupd k v fmempty) extra then translate_each rx extra rest out else None)
      else translate_each rx extra rest (if is_exported_of k extra then out else fmupd k v out))"

definition translate_filter :: "'r regex_crate \<Rightarrow> labels \<Rightarrow> labels \<Rightarrow> labels option" where
  "translate_filter rx extra matchers =
     (if extra = fmempty then Some matchers else translate_each rx extra (map_entries matchers) fmempty)"

definition keeps :: "'r regex_crate \<Rightarrow> labels \<Rightarrow> labels \<Rightarrow> labels \<Rightarrow> bool" where
  "keeps rx labels extra matchers \<longleftrightarrow>
     (let moved = fmfilter (\<lambda>k. is_exported_of k extra) matchers in moved = fmempty \<or> accepts rx moved labels)"

definition translate_filter_with :: "'r regex_crate \<Rightarrow> labels \<Rightarrow> labels \<Rightarrow> precedence \<Rightarrow> labels option" where
  "translate_filter_with rx extra matchers precedence =
     (case precedence of Recording \<Rightarrow> translate_filter rx extra matchers
      | Series \<Rightarrow> Some (fmfilter (\<lambda>k. k |\<notin>| fmdom extra) matchers))"

definition keeps_with :: "'r regex_crate \<Rightarrow> labels \<Rightarrow> labels \<Rightarrow> labels \<Rightarrow> precedence \<Rightarrow> bool" where
  "keeps_with rx labels extra matchers precedence \<longleftrightarrow>
     (case precedence of Recording \<Rightarrow> keeps rx labels extra matchers
      | Series \<Rightarrow> (let added = fmfilter (\<lambda>k. k |\<in>| fmdom extra) matchers in added = fmempty \<or> accepts rx added labels))"

section \<open>The source\<close>

record labeled_source =
  ls_extra :: labels
  ls_precedence :: precedence
  ls_mark :: "(string \<times> string) option"
  ls_decided :: labels

definition ls_new :: "labels \<Rightarrow> labeled_source" where
  "ls_new extra = \<lparr>ls_extra = extra, ls_precedence = Recording, ls_mark = None, ls_decided = fmempty\<rparr>"

definition set_decided :: "labeled_source \<Rightarrow> labeled_source" where
  "set_decided src = src\<lparr>ls_decided := (case ls_mark src of None \<Rightarrow> ls_extra src | Some (k, v) \<Rightarrow> fmupd k v (ls_extra src))\<rparr>"

definition with_precedence :: "precedence \<Rightarrow> labeled_source \<Rightarrow> labeled_source" where
  "with_precedence precedence src = set_decided (src\<lparr>ls_precedence := precedence\<rparr>)"

definition marking :: "string \<Rightarrow> string \<Rightarrow> labeled_source \<Rightarrow> labeled_source" where
  "marking k v src = set_decided (src\<lparr>ls_precedence := Series, ls_mark := Some (k, v)\<rparr>)"

definition relabel :: "labeled_source \<Rightarrow> labels \<Rightarrow> labels" where
  "relabel src labels =
     (let labels = add_labels_with (ls_precedence src) (ls_extra src) labels
      in case (ls_mark src, ls_precedence src) of (Some (k, v), Series) \<Rightarrow> fmupd k v labels | _ \<Rightarrow> labels)"

definition translate :: "'r regex_crate \<Rightarrow> labeled_source \<Rightarrow> labels \<Rightarrow> labels option" where
  "translate rx src matchers =
     (case ls_precedence src of Recording \<Rightarrow> translate_filter rx (ls_extra src) matchers
      | Series \<Rightarrow> translate_filter_with rx (ls_decided src) matchers Series)"

definition ls_keeps :: "'r regex_crate \<Rightarrow> labeled_source \<Rightarrow> labels \<Rightarrow> labels \<Rightarrow> bool" where
  "ls_keeps rx src labels matchers \<longleftrightarrow>
     (case ls_precedence src of Recording \<Rightarrow> keeps rx labels (ls_extra src) matchers
      | Series \<Rightarrow> keeps_with rx labels (ls_decided src) matchers Series)"

text \<open>
  \<open>counters\<close>, \<open>gauges\<close> and \<open>counter_streams\<close>: the source's series for a filter, relabelled, and those the
  filter still accepts. \<open>read\<close> is the inner source's method with its name and range, \<open>'d\<close> what a series holds, and
  \<open>timed\<close> what the source does to that: nothing for \<open>counters\<close> and \<open>gauges\<close>, while a counter stream, which
  carries its interval, is given the one set by \<open>with_interval\<close> where there is one.
\<close>

definition timed_stream :: "'f option \<Rightarrow> 'f option \<times> 's \<Rightarrow> 'f option \<times> 's" where
  "timed_stream interval s = (if interval \<noteq> None then (interval, snd s) else s)"

definition ls_series :: "'r regex_crate \<Rightarrow> labeled_source \<Rightarrow> ('d \<Rightarrow> 'd) \<Rightarrow> (labels \<Rightarrow> (labels \<times> 'd) list option) \<Rightarrow> labels \<Rightarrow>
    (labels \<times> 'd) list option" where
  "ls_series rx src timed read matchers =
     (case translate rx src matchers of
        None \<Rightarrow> None
      | Some inner_filter \<Rightarrow>
          (case read inner_filter of
             None \<Rightarrow> None
           | Some series \<Rightarrow>
               (let series = filter (\<lambda>(l, _). ls_keeps rx src l matchers) (map (\<lambda>(l, d). (relabel src l, timed d)) series)
                in if series = [] then None else Some series)))"

definition ls_counter_streams :: "'r regex_crate \<Rightarrow> labeled_source \<Rightarrow> 'f option \<Rightarrow>
    (labels \<Rightarrow> (labels \<times> ('f option \<times> 's)) list option) \<Rightarrow> labels \<Rightarrow> (labels \<times> ('f option \<times> 's)) list option" where
  "ls_counter_streams rx src interval = ls_series rx src (timed_stream interval)"

definition recording_label_keys :: "string list \<Rightarrow> labeled_source \<Rightarrow> string list" where
  "recording_label_keys inner src =
     (let keys = inner @ (case ls_precedence src of Recording \<Rightarrow> map fst (map_entries (ls_extra src))
        | Series \<Rightarrow> (case ls_mark src of None \<Rightarrow> [] | Some (k, _) \<Rightarrow> [k]))
      in remdups_adj (sort keys))"

section \<open>What relabelling changes\<close>

text \<open>\<open>chain k\<close>: \<open>exported_k\<close>, with any number of prefixes.\<close>

inductive chain :: "string \<Rightarrow> string \<Rightarrow> bool" where
  chain_one: "chain k (exported k)"
| chain_more: "chain k key \<Longrightarrow> chain k (exported key)"

lemma chain_from_exported: "chain (exported k) key \<Longrightarrow> chain k key"
  by (induction "exported k" key rule: chain.induct) (auto intro: chain.intros)

lemma exported_inj [simp]: "exported k = exported s \<longleftrightarrow> k = s"
  by (simp add: exported_def)

lemma chain_exported: "chain k (exported s) \<longleftrightarrow> k = s \<or> chain k s"
  by (subst chain.simps) auto

lemma chain_shape: "chain k key \<Longrightarrow> \<exists>s. key = exported s"
  by (cases rule: chain.cases) auto

lemma chain_longer: "chain k key \<Longrightarrow> length k < length key"
  by (induction rule: chain.induct) auto

lemma strip_exported: "strip_prefix EXPORTED_PREFIX key = Some s \<longleftrightarrow> key = exported s"
  by (simp add: exported_def)

lemma is_exported_iff: "is_exported_of key extra \<longleftrightarrow> (\<exists>k. k |\<in>| fmdom extra \<and> chain k key)"
proof (induction key extra rule: is_exported_of.induct)
  case (1 key extra)
  show ?case
  proof (cases "strip_prefix EXPORTED_PREFIX key")
    case None
    then have "key \<noteq> exported s" for s using strip_exported [of key s] by simp
    then have "\<not> chain k key" for k using chain_shape [of k key] by blast
    with None show ?thesis by (simp add: is_exported_of.simps [of key])
  next
    case (Some stripped)
    then have key: "key = exported stripped" by (simp only: strip_exported)
    have "is_exported_of key extra \<longleftrightarrow> stripped |\<in>| fmdom extra \<or> is_exported_of stripped extra"
      unfolding is_exported_of.simps [of key] Some by simp
    also have "\<dots> \<longleftrightarrow> (\<exists>k. k |\<in>| fmdom extra \<and> (k = stripped \<or> chain k stripped))" using 1 [OF Some] by blast
    finally show ?thesis unfolding key chain_exported .
  qed
qed

lemma move_exported_other: "k \<noteq> key \<Longrightarrow> \<not> chain key k \<Longrightarrow> fmlookup (move_exported key moving labels) k = fmlookup labels k"
proof (induction key moving labels rule: move_exported.induct)
  case (1 key moving labels)
  show ?case
  proof (cases "fmlookup labels key")
    case None
    with 1(2) show ?thesis by (simp add: move_exported.simps [of key])
  next
    case (Some displaced)
    have "k \<noteq> exported key" "\<not> chain (exported key) k" using 1(3) chain_one chain_from_exported by blast+
    with 1(1) [OF Some] Some 1(2) show ?thesis by (simp add: move_exported.simps [of key])
  qed
qed

lemma add_label_here: "fmlookup (add_label k v labels) k = Some v"
proof -
  have "length (exported k) \<noteq> length k" by simp
  then have "k \<noteq> exported k" by metis
  moreover have "\<not> chain (exported k) k" using chain_longer [of "exported k" k] by auto
  ultimately show ?thesis by (simp add: add_label_def move_exported_other split: option.split)
qed

lemma add_label_other:
  assumes "k \<noteq> j" "\<not> chain j k"
  shows "fmlookup (add_label j v labels) k = fmlookup labels k"
proof -
  have "k \<noteq> exported j" "\<not> chain (exported j) k" using assms(2) chain_one chain_from_exported by blast+
  with assms(1) show ?thesis by (simp add: add_label_def move_exported_other split: option.split)
qed

text \<open>No added key is where another added key's displaced values go.\<close>

definition apart :: "labels \<Rightarrow> bool" where
  "apart extra \<longleftrightarrow> (\<forall>k. k |\<in>| fmdom extra \<longrightarrow> \<not> is_exported_of k extra)"

lemma fold_add_other:
  "(\<forall>(j, v) \<in> set entries. k \<noteq> j \<and> \<not> chain j k) \<Longrightarrow> fmlookup (fold (\<lambda>(k, v). add_label k v) entries labels) k = fmlookup labels k"
  by (induction entries arbitrary: labels) (auto simp: add_label_other)

lemma add_labels_other:
  assumes "k |\<notin>| fmdom extra" "\<not> is_exported_of k extra"
  shows "fmlookup (add_labels extra labels) k = fmlookup labels k"
  unfolding add_labels_def
proof (rule fold_add_other)
  show "\<forall>(j, v) \<in> set (map_entries extra). k \<noteq> j \<and> \<not> chain j k"
    using assms fmdomI [of extra] unfolding is_exported_iff by (auto simp: set_map_entries)
qed

lemma add_labels_added:
  assumes "apart extra" "fmlookup extra k = Some v"
  shows "fmlookup (add_labels extra labels) k = Some v"
proof -
  obtain before after where entries: "map_entries extra = before @ (k, v) # after"
    using assms(2) split_list [of "(k, v)" "map_entries extra"] unfolding set_map_entries by blast
  have "\<not> is_exported_of k extra" using assms fmdomI [of extra k] unfolding apart_def by blast
  then have "k \<noteq> j \<and> \<not> chain j k" if "(j, w) \<in> set after" for j w
  proof -
    have "(j, w) \<in> set (map_entries extra)" using that unfolding entries by simp
    then have "fmlookup extra j = Some w" unfolding set_map_entries .
    moreover have "k \<notin> fst ` set after" using distinct_map_entries [of extra] unfolding entries by simp
    then have "k \<noteq> j" using that by (metis fst_conv image_eqI)
    ultimately show ?thesis using \<open>\<not> is_exported_of k extra\<close> fmdomI [of extra j] unfolding is_exported_iff by blast
  qed
  then have "fmlookup (fold (\<lambda>(k, v). add_label k v) after l) k = fmlookup l k" for l
    by (intro fold_add_other) blast
  then show ?thesis by (simp add: add_labels_def entries add_label_here)
qed

section \<open>A filter decides as on the relabelled series\<close>

lemma translate_each_ok:
  "translate_each rx extra entries out = r \<Longrightarrow> distinct (map fst entries) \<Longrightarrow>
     (\<forall>k \<in> fst ` set entries. fmlookup out k = None) \<Longrightarrow>
     (case r of
        None \<Rightarrow> \<exists>(k, v) \<in> set entries. k |\<in>| fmdom extra \<and> \<not> passes rx (fmlookup extra k) v
      | Some f \<Rightarrow> (\<forall>(k, v) \<in> set entries. k |\<in>| fmdom extra \<longrightarrow> passes rx (fmlookup extra k) v) \<and>
          (\<forall>k v. fmlookup f k = Some v \<longleftrightarrow> fmlookup out k = Some v \<or>
             (k, v) \<in> set entries \<and> k |\<notin>| fmdom extra \<and> \<not> is_exported_of k extra))"
proof (induction entries arbitrary: out)
  case Nil
  then show ?case by auto
next
  case (Cons e entries)
  obtain k v where e: "e = (k, v)" by fastforce
  have dist: "distinct (map fst entries)" "k \<notin> fst ` set entries" using Cons.prems(2) by (simp_all add: e)
  have new: "\<forall>j \<in> fst ` set entries. fmlookup out j = None" "fmlookup out k = None" using Cons.prems(3) by (simp_all add: e)
  show ?case
  proof (cases "k |\<in>| fmdom extra")
    case True
    have "accepts rx (fmupd k v fmempty) extra \<longleftrightarrow> passes rx (fmlookup extra k) v" by (simp add: accepts_def)
    with True Cons.prems(1) Cons.IH [OF _ dist(1) new(1)] show ?thesis by (auto simp: e split: if_splits option.splits)
  next
    case False
    show ?thesis
    proof (cases "is_exported_of k extra")
      case True
      with False Cons.prems(1) Cons.IH [OF _ dist(1) new(1)] show ?thesis by (auto simp: e split: option.splits)
    next
      case kept: False
      have "\<forall>j \<in> fst ` set entries. fmlookup (fmupd k v out) j = None" using new(1) dist(2) by auto
      from Cons.IH [OF _ dist(1) this] kept False Cons.prems(1) new(2) show ?thesis
        by (auto simp: e split: option.splits if_splits)
    qed
  qed
qed

lemma translate_filter_ok:
  "case translate_filter rx extra matchers of
     None \<Rightarrow> \<exists>k v. fmlookup matchers k = Some v \<and> k |\<in>| fmdom extra \<and> \<not> passes rx (fmlookup extra k) v
   | Some f \<Rightarrow> (\<forall>k v. fmlookup matchers k = Some v \<longrightarrow> k |\<in>| fmdom extra \<longrightarrow> passes rx (fmlookup extra k) v) \<and>
       (\<forall>k v. fmlookup f k = Some v \<longleftrightarrow> fmlookup matchers k = Some v \<and> k |\<notin>| fmdom extra \<and> \<not> is_exported_of k extra)"
proof (cases "extra = fmempty")
  case True
  then show ?thesis by (simp add: translate_filter_def is_exported_iff)
next
  case False
  then have "translate_filter rx extra matchers = translate_each rx extra (map_entries matchers) fmempty"
    by (simp add: translate_filter_def)
  note each = translate_each_ok [OF this [symmetric] distinct_map_entries]
  show ?thesis
  proof (cases "translate_filter rx extra matchers")
    case None
    have "\<exists>(k, v) \<in> set (map_entries matchers). k |\<in>| fmdom extra \<and> \<not> passes rx (fmlookup extra k) v"
      using each unfolding None by simp
    then have "\<exists>k v. fmlookup matchers k = Some v \<and> k |\<in>| fmdom extra \<and> \<not> passes rx (fmlookup extra k) v"
      unfolding set_map_entries [symmetric] by blast
    then show ?thesis unfolding None by simp
  next
    case (Some f)
    have f: "(\<forall>(k, v) \<in> set (map_entries matchers). k |\<in>| fmdom extra \<longrightarrow> passes rx (fmlookup extra k) v)"
      "(\<forall>k v. fmlookup f k = Some v \<longleftrightarrow> (k, v) \<in> set (map_entries matchers) \<and> k |\<notin>| fmdom extra \<and> \<not> is_exported_of k extra)"
      using each unfolding Some by simp_all
    show ?thesis unfolding Some option.case using f unfolding set_map_entries [symmetric] by blast
  qed
qed

lemma accepts_filtered: "(let m = fmfilter P matchers in m = fmempty \<or> accepts rx m labels) \<longleftrightarrow>
    (\<forall>k v. P k \<longrightarrow> fmlookup matchers k = Some v \<longrightarrow> passes rx (fmlookup labels k) v)"
proof -
  have "\<not> (P k \<and> fmlookup matchers k = Some v)" if "fmfilter P matchers = fmempty" for k v
    using arg_cong [OF that, of "\<lambda>m. fmlookup m k"] by auto
  then show ?thesis by (cases "fmfilter P matchers = fmempty") (auto simp: accepts_def Let_def)
qed

text \<open>The sources that are made.\<close>

inductive built :: "labeled_source \<Rightarrow> bool" where
  built_new: "built (ls_new extra)"
| built_precedence: "built src \<Longrightarrow> built (with_precedence p src)"
| built_marking: "built src \<Longrightarrow> built (marking k v src)"

lemma built_decided:
  "built src \<Longrightarrow> ls_precedence src = Series \<Longrightarrow>
     ls_decided src = (case ls_mark src of None \<Rightarrow> ls_extra src | Some (k, v) \<Rightarrow> fmupd k v (ls_extra src))"
  by (induction rule: built.induct) (simp_all add: ls_new_def with_precedence_def marking_def set_decided_def split: option.split)

lemma accepts_alt:
  assumes "\<And>k v. fmlookup matchers k = Some v \<Longrightarrow>
      passes rx (fmlookup l' k) v \<longleftrightarrow> (if D k then d k v else if E k then passes rx (fmlookup l' k) v else passes rx (fmlookup l k) v)"
    and "\<And>k. D k \<Longrightarrow> \<not> E k"
  shows "accepts rx matchers l' \<longleftrightarrow> (\<forall>k v. fmlookup matchers k = Some v \<longrightarrow> D k \<longrightarrow> d k v) \<and>
    (\<forall>k v. fmlookup matchers k = Some v \<and> \<not> D k \<and> \<not> E k \<longrightarrow> passes rx (fmlookup l k) v) \<and>
    (\<forall>k v. E k \<longrightarrow> fmlookup matchers k = Some v \<longrightarrow> passes rx (fmlookup l' k) v)"
proof -
  have d: "passes rx (fmlookup l' k) v \<longleftrightarrow> d k v" if "D k" "fmlookup matchers k = Some v" for k v
    using assms(1) [OF that(2)] that(1) by simp
  have n: "passes rx (fmlookup l' k) v \<longleftrightarrow> passes rx (fmlookup l k) v"
    if "\<not> D k" "\<not> E k" "fmlookup matchers k = Some v" for k v
    using assms(1) [OF that(3)] that(1,2) by simp
  from d n assms(2) show ?thesis unfolding accepts_def by blast
qed

lemma recording_decides:
  assumes "apart extra"
  shows "accepts rx matchers (add_labels extra l) \<longleftrightarrow>
    (case translate_filter rx extra matchers of None \<Rightarrow> False
     | Some f \<Rightarrow> accepts rx f l \<and> keeps rx (add_labels extra l) extra matchers)"
proof -
  let ?l = "add_labels extra l" and ?D = "\<lambda>k. k |\<in>| fmdom extra" and ?E = "\<lambda>k. is_exported_of k extra"
  have "passes rx (fmlookup ?l k) v \<longleftrightarrow>
      (if ?D k then passes rx (fmlookup extra k) v else if ?E k then passes rx (fmlookup ?l k) v else passes rx (fmlookup l k) v)" for k v
    using add_labels_added [OF assms] add_labels_other by (auto simp: fmlookup_dom_iff)
  then have all: "accepts rx matchers ?l \<longleftrightarrow> (\<forall>k v. fmlookup matchers k = Some v \<longrightarrow> ?D k \<longrightarrow> passes rx (fmlookup extra k) v) \<and>
    (\<forall>k v. fmlookup matchers k = Some v \<and> \<not> ?D k \<and> \<not> ?E k \<longrightarrow> passes rx (fmlookup l k) v) \<and>
    (\<forall>k v. ?E k \<longrightarrow> fmlookup matchers k = Some v \<longrightarrow> passes rx (fmlookup ?l k) v)"
    by (rule accepts_alt) (use assms in \<open>simp add: apart_def\<close>)
  have kept: "keeps rx ?l extra matchers \<longleftrightarrow> (\<forall>k v. ?E k \<longrightarrow> fmlookup matchers k = Some v \<longrightarrow> passes rx (fmlookup ?l k) v)"
    by (simp add: keeps_def accepts_filtered [unfolded Let_def] Let_def)
  show ?thesis
  proof (cases "translate_filter rx extra matchers")
    case None
    with translate_filter_ok [where rx = rx and extra = extra and matchers = matchers] all show ?thesis by auto
  next
    case (Some f)
    have "(\<forall>k v. fmlookup matchers k = Some v \<longrightarrow> ?D k \<longrightarrow> passes rx (fmlookup extra k) v)"
      and f: "\<And>k v. fmlookup f k = Some v \<longleftrightarrow> fmlookup matchers k = Some v \<and> \<not> ?D k \<and> \<not> ?E k"
      using translate_filter_ok [where rx = rx and extra = extra and matchers = matchers] unfolding Some by simp_all
    with all kept show ?thesis unfolding Some by (simp add: accepts_def)
  qed
qed

lemma relabel_series:
  assumes "ls_precedence src = Series"
  shows "fmlookup (relabel src l) k =
    (case ls_mark src of Some (j, v) \<Rightarrow> if k = j then Some v
         else if k |\<in>| fmdom l then fmlookup l k else fmlookup (ls_extra src) k
     | None \<Rightarrow> if k |\<in>| fmdom l then fmlookup l k else fmlookup (ls_extra src) k)"
  using assms by (auto simp: relabel_def add_labels_with_def Let_def split: option.splits)

lemma series_decides:
  assumes "ls_precedence src = Series" "built src"
  shows "accepts rx matchers (relabel src l) \<longleftrightarrow>
    accepts rx (fmfilter (\<lambda>k. k |\<notin>| fmdom (ls_decided src)) matchers) l \<and>
    keeps_with rx (relabel src l) (ls_decided src) matchers Series"
proof -
  let ?E = "\<lambda>k. k |\<in>| fmdom (ls_decided src)"
  have "fmlookup (relabel src l) k = fmlookup l k" if "\<not> ?E k" for k
    using that built_decided [OF assms(2,1)] relabel_series [OF assms(1), of l k]
    by (auto simp: fmdom_notD split: option.splits if_splits)
  then have "passes rx (fmlookup (relabel src l) k) v \<longleftrightarrow>
      (if False then True else if ?E k then passes rx (fmlookup (relabel src l) k) v else passes rx (fmlookup l k) v)" for k v
    by simp
  from accepts_alt [of matchers rx "relabel src l" "\<lambda>_. False" "\<lambda>_ _. True" ?E l, OF this]
  show ?thesis
    by (auto simp: keeps_with_def accepts_filtered [unfolded Let_def] Let_def) (auto simp: accepts_def)
qed

lemma ls_decides:
  assumes "built src" "ls_precedence src = Recording \<longrightarrow> apart (ls_extra src)"
  shows "accepts rx matchers (relabel src l) \<longleftrightarrow>
    (case translate rx src matchers of None \<Rightarrow> False
     | Some f \<Rightarrow> accepts rx f l \<and> ls_keeps rx src (relabel src l) matchers)"
proof (cases "ls_precedence src")
  case Recording
  then have "relabel src l = add_labels (ls_extra src) l"
    by (cases "ls_mark src") (auto simp: relabel_def add_labels_with_def Let_def)
  with recording_decides [of "ls_extra src" rx matchers l] assms(2) Recording show ?thesis
    by (simp add: translate_def ls_keeps_def cong: option.case_cong)
next
  case Series
  with series_decides [OF Series assms(1)] show ?thesis
    by (simp add: translate_def ls_keeps_def translate_filter_with_def)
qed

text \<open>The series a filter selects of a source: \<open>None\<close> when there are none.\<close>

definition selected :: "'r regex_crate \<Rightarrow> labels \<Rightarrow> (labels \<times> 'd) list \<Rightarrow> (labels \<times> 'd) list option" where
  "selected rx matchers series =
     (let chosen = filter (\<lambda>(l, _). accepts rx matchers l) series in if chosen = [] then None else Some chosen)"

text \<open>
  C20. A source with labels added selects as if its series had carried them. What a filter selects of it, through the
  part passed on to the source and the part checked afterwards, is what the filter selects of the relabelled series:
  under either precedence and with a mark, whatever interval its streams are given, as long as no added label is
  another's \<open>exported_\<close> name.
\<close>

theorem labelled_source_selects_as_relabelled:
  assumes "built src" and "ls_precedence src = Recording \<longrightarrow> apart (ls_extra src)"
    and "\<forall>f. read f = selected rx f series"
  shows "ls_series rx src timed read matchers = selected rx matchers (map (\<lambda>(l, d). (relabel src l, timed d)) series)"
proof -
  note decides = ls_decides [OF assms(1,2), of rx matchers]
  show ?thesis
  proof (cases "translate rx src matchers")
    case None
    then have "filter (\<lambda>(l, _). accepts rx matchers l) (map (\<lambda>(l, d). (relabel src l, timed d)) series) = []"
      using decides by (induction series) auto
    with None show ?thesis by (simp add: ls_series_def selected_def)
  next
    case (Some f)
    have same: "filter (\<lambda>(l, _). ls_keeps rx src l matchers) (map (\<lambda>(l, d). (relabel src l, timed d))
        (filter (\<lambda>(l, _). accepts rx f l) series)) =
      filter (\<lambda>(l, _). accepts rx matchers l) (map (\<lambda>(l, d). (relabel src l, timed d)) series)"
      using decides by (induction series) (auto simp: Some)
    have "filter (\<lambda>(l, _). accepts rx f l) series = [] \<Longrightarrow>
        filter (\<lambda>(l, _). accepts rx matchers l) (map (\<lambda>(l, d). (relabel src l, timed d)) series) = []"
      using same by auto
    with same show ?thesis by (auto simp: ls_series_def Some assms(3) selected_def Let_def)
  qed
qed

text \<open>
  An added key that is another's \<open>exported_\<close> key: the filter is decided against the added value, which the
  series does not end up carrying.
\<close>

lemma move_to_free: "fmlookup labels key = None \<Longrightarrow> move_exported key moving labels = fmupd key moving labels"
  by (simp add: move_exported.simps)

lemma exported_key_added_too:
  fixes rx :: "'r regex_crate"
  defines "extra \<equiv> fmupd ''exported_z'' ''a'' (fmupd ''z'' ''b'' fmempty)"
    and "own \<equiv> fmupd ''z'' ''c'' fmempty"
    and "matchers \<equiv> fmupd ''exported_z'' ''c'' fmempty"
  shows "accepts rx matchers (add_labels extra own)" "translate_filter rx extra matchers = None"
proof -
  have entries: "map_entries extra = [(''exported_z'', ''a''), (''z'', ''b'')]"
    by (simp add: extra_def map_entries_def sorted_list_of_fset.rep_eq)
  have "add_labels extra own =
    move_exported (exported ''z'') ''c'' (fmupd ''z'' ''b'' (fmupd ''exported_z'' ''a'' own))"
    by (simp add: add_labels_def entries add_label_def own_def)
  also have "exported ''z'' = ''exported_z''" by (simp add: exported_def EXPORTED_PREFIX_def)
  also have "move_exported ''exported_z'' ''c'' (fmupd ''z'' ''b'' (fmupd ''exported_z'' ''a'' own)) = fmupd ''exported_exported_z'' ''a'' (fmupd ''exported_z'' ''c'' (fmupd ''z'' ''b'' (fmupd ''exported_z'' ''a'' own)))"
    by (simp add: move_exported.simps [of "''exported_z''"] move_to_free exported_def EXPORTED_PREFIX_def own_def)
  finally have "fmlookup (add_labels extra own) ''exported_z'' = Some ''c''" by simp
  then show "accepts rx matchers (add_labels extra own)"
    by (simp add: accepts_def matchers_def passes_def strip_prefix_one)
  have "map_entries matchers = [(''exported_z'', ''c'')]"
    by (simp add: matchers_def map_entries_def sorted_list_of_fset.rep_eq)
  then show "translate_filter rx extra matchers = None"
    by (simp add: translate_filter_def extra_def accepts_def passes_def strip_prefix_one)
qed

end
