(* ===== verification/LabelInstances.thy ===== *)
theory LabelInstances
  imports Labeled
begin

text \<open>A regex crate that knows escaped literals and lists of alternatives, for which \<open>regex_ok\<close> holds.\<close>

definition special :: "char \<Rightarrow> bool" where
  "special c \<longleftrightarrow> is_meta c \<or> c = CHR ''|''"

fun escape :: "string \<Rightarrow> string" where
  "escape [] = []"
| "escape (c # s) = (if special c then CHR 0x5C # c # escape s else c # escape s)"

fun unescape :: "string \<Rightarrow> string" where
  "unescape [] = []"
| "unescape [c] = [c]"
| "unescape (b # c # s) = (if b = CHR 0x5C then c # unescape s else b # unescape (c # s))"

lemma backslash [simp]: "special (CHR 0x5C)" "is_meta (CHR 0x5C)" "special (CHR ''|'')"
  by (simp_all add: special_def is_meta_def)

lemma unescape_plain: "b \<noteq> CHR 0x5C \<Longrightarrow> unescape (b # s) = b # unescape s"
  by (cases s) simp_all

lemma unescape_escape [simp]: "unescape (escape s) = s"
proof (induction s)
  case (Cons c s)
  have "\<not> special c \<Longrightarrow> c \<noteq> CHR 0x5C" using backslash(1) by blast
  with Cons show ?case by (simp add: unescape_plain)
qed simp

lemma escape_plain: "\<not> list_ex is_meta (escape s) \<Longrightarrow> escape s = s \<and> CHR ''|'' \<notin> set s"
  by (induction s) (auto split: if_splits)

definition literals :: "string list regex_crate" where
  "literals = \<lparr>rx_new = (\<lambda>full.
       (let p = take (length full - 6) (drop 4 full)
        in if \<not> list_ex is_meta p then Some (split_on (CHR ''|'') p)
           else if escape (unescape p) = p then Some [unescape p] else None)),
     rx_is_match = (\<lambda>r v. v \<in> set r), rx_escape = escape\<rparr>"

lemma literals_hits:
  "regex_hits literals p v \<longleftrightarrow>
     (if \<not> list_ex is_meta p then v \<in> set (split_on (CHR ''|'') p) else escape (unescape p) = p \<and> v = unescape p)"
  by (simp add: regex_hits_def literals_def anchored_def Let_def)

lemma literals_ok [simp]: "regex_ok literals"
proof -
  have "regex_hits literals (escape s) v \<longleftrightarrow> v = s" for s v
    using escape_plain [of s] by (auto simp: literals_hits split_on_plain)
  moreover have "list_ex is_meta (escape s) \<or> escape s = s \<and> CHR ''|'' \<notin> set s" for s
    using escape_plain by blast
  moreover have "regex_hits literals p v \<longleftrightarrow> v \<in> set (split_on (CHR ''|'') p)" if "\<not> list_ex is_meta p" for p v
    using that by (simp add: literals_hits)
  moreover have "rx_escape literals = escape" by (simp add: literals_def)
  ultimately show ?thesis by (simp add: regex_ok_def)
qed

theorem encoded_matchers_decide_witness:
  "let (matched, patterns') = labels_matches literals (fmupd ''host'' ''a.b'' fmempty)
      (encode_filter literals (fmupd ''host'' (NotEqual, ''axb'') (fmupd ''op'' (NotRegex, ''read|write'') fmempty))) fmempty
   in matched \<and> patterns_ok literals patterns'"
  using encoded_matchers_decide [OF literals_ok patterns_ok_empty, of "fmupd ''host'' ''a.b'' fmempty"
      "fmupd ''host'' (NotEqual, ''axb'') (fmupd ''op'' (NotRegex, ''read|write'') fmempty)"]
  by (simp add: case_prod_beta split: if_splits)

theorem labelled_source_selects_as_relabelled_witness:
  "ls_counter_streams literals (ls_new (fmupd ''host'' ''lb'' fmempty)) (Some (10 :: nat))
     (\<lambda>f. selected literals f [(fmupd ''host'' ''backend'' fmempty, (None, 1 :: nat)), (fmupd ''id'' ''0'' fmempty, (Some 5, 2))])
     (fmupd ''exported_host'' ''backend'' fmempty) =
   selected literals (fmupd ''exported_host'' ''backend'' fmempty)
     (map (\<lambda>(l, d). (relabel (ls_new (fmupd ''host'' ''lb'' fmempty)) l, (Some 10, snd d)))
        [(fmupd ''host'' ''backend'' fmempty, (None, 1)), (fmupd ''id'' ''0'' fmempty, (Some (5 :: nat), 2))])"
proof -
  let ?src = "ls_new (fmupd ''host'' ''lb'' fmempty)"
    and ?series = "[(fmupd ''host'' ''backend'' fmempty, (None, 1 :: nat)), (fmupd ''id'' ''0'' fmempty, (Some (5 :: nat), 2))]"
  have "\<not> is_exported_of ''host'' (fmupd ''host'' ''lb'' fmempty)"
    by (simp add: is_exported_of.simps [of "''host''"] EXPORTED_PREFIX_def)
  then have apart: "ls_precedence ?src = Recording \<longrightarrow> apart (ls_extra ?src)" by (simp add: apart_def ls_new_def)
  have given: "timed_stream (Some (10 :: nat)) = (\<lambda>d :: nat option \<times> nat. (Some 10, snd d))" by (simp add: timed_stream_def fun_eq_iff)
  have "\<forall>f. selected literals f ?series = selected literals f ?series" by simp
  from labelled_source_selects_as_relabelled [OF built_new apart this, of "timed_stream (Some 10)"]
  show ?thesis unfolding ls_counter_streams_def given .
qed

end
