(* ===== verification/Points.thy ===== *)
theory Points
  imports Labels
begin

text \<open>
  The points that pass through a query (\<open>metriken-query/src/promql/streaming/mod.rs\<close>), and a series sampled at
  instants taken from others. An iterator is the list of what it has yet to give. Floating-point arithmetic is
  the parameter \<open>F\<close>, the operations of \<open>f64\<close> the code uses; what follows holds of any.
\<close>

record 'f f64 =
  f_add :: "'f \<Rightarrow> 'f \<Rightarrow> 'f"
  f_sub :: "'f \<Rightarrow> 'f \<Rightarrow> 'f"
  f_mul :: "'f \<Rightarrow> 'f \<Rightarrow> 'f"
  f_div :: "'f \<Rightarrow> 'f \<Rightarrow> 'f"
  f_lt :: "'f \<Rightarrow> 'f \<Rightarrow> bool"
  f_eq :: "'f \<Rightarrow> 'f \<Rightarrow> bool"
  f_min :: "'f \<Rightarrow> 'f \<Rightarrow> 'f"
  f_max :: "'f \<Rightarrow> 'f \<Rightarrow> 'f"
  f_abs :: "'f \<Rightarrow> 'f"
  f_is_finite :: "'f \<Rightarrow> bool"
  f_of_u64 :: "u64 \<Rightarrow> 'f"
  f_of_i64 :: "i64 \<Rightarrow> 'f"
  f_of_nat :: "nat \<Rightarrow> 'f"
  f_nano :: 'f
  f_tiny :: 'f
  f_zero :: 'f
  f_infinity :: 'f
  f_neg_infinity :: 'f
  f_nan :: 'f

text \<open>\<open><=\<close> of \<open>f64\<close>: less or equal, and neither for a NaN. \<open>f_nano\<close> is \<open>1e9\<close>, \<open>f_tiny\<close> \<open>1e-10\<close>.\<close>

definition f_le :: "'f f64 \<Rightarrow> 'f \<Rightarrow> 'f \<Rightarrow> bool" where
  "f_le F a b \<longleftrightarrow> f_lt F a b \<or> f_eq F a b"

type_synonym 'f band = "'f \<times> 'f"

record 'f rate_edges =
  re_left :: "'f \<times> 'f"
  re_right :: "'f \<times> 'f"

text \<open>The derived \<open>PartialEq\<close>, which compares floats.\<close>

definition edges_eq :: "'f f64 \<Rightarrow> 'f rate_edges option \<Rightarrow> 'f rate_edges option \<Rightarrow> bool" where
  "edges_eq F a b = (case (a, b) of
       (None, None) \<Rightarrow> True
     | (Some x, Some y) \<Rightarrow> f_eq F (fst (re_left x)) (fst (re_left y)) \<and> f_eq F (snd (re_left x)) (snd (re_left y)) \<and>
         f_eq F (fst (re_right x)) (fst (re_right y)) \<and> f_eq F (snd (re_right x)) (snd (re_right y))
     | _ \<Rightarrow> False)"

record 'f point =
  pt_t :: u64
  pt_v :: 'f
  pt_bounds :: "'f band option"
  pt_edges :: "'f rate_edges option"
  pt_interpolated :: bool
  pt_timing :: bool

definition point_at :: "u64 \<Rightarrow> 'f \<Rightarrow> 'f point" where
  "point_at t v = \<lparr>pt_t = t, pt_v = v, pt_bounds = None, pt_edges = None, pt_interpolated = False, pt_timing = False\<rparr>"

definition timing_at :: "'f f64 \<Rightarrow> u64 \<Rightarrow> 'f point" where
  "timing_at F t = (point_at t (f_nan F))\<lparr>pt_timing := True\<rparr>"

lemma point_simps [simp]:
  "pt_t (point_at t v) = t" "pt_t (timing_at F t) = t" "pt_timing (timing_at F t)" "\<not> pt_timing (point_at t v)"
  by (simp_all add: point_at_def timing_at_def)

datatype join = Exact | Latest u64

datatype rate_mode = Grid | Raw

definition join_for_mode :: "rate_mode \<Rightarrow> u64 \<Rightarrow> join" where
  "join_for_mode mode hold_ns = (case mode of Grid \<Rightarrow> Exact | Raw \<Rightarrow> Latest hold_ns)"

section \<open>A series held between its points\<close>

record 'f held_series =
  hd_iter :: "'f point list"
  hd_latest :: "('f point \<times> u64) option"
  hd_max_hold :: u64

definition held_new :: "'f point list \<Rightarrow> u64 \<Rightarrow> 'f held_series" where
  "held_new iter max_hold = \<lparr>hd_iter = iter, hd_latest = None, hd_max_hold = max_hold\<rparr>"

definition peek_t :: "'f held_series \<Rightarrow> u64 option" where
  "peek_t h = (case hd_iter h of [] \<Rightarrow> None | p # _ \<Rightarrow> Some (pt_t p))"

fun advance_points :: "u64 \<Rightarrow> u64 \<Rightarrow> 'f point list \<Rightarrow> ('f point \<times> u64) option \<Rightarrow> 'f point list \<times> ('f point \<times> u64) option" where
  "advance_points t max_hold [] latest = ([], latest)"
| "advance_points t max_hold (p # ps) latest =
     (if pt_t p \<le> t
      then (let hold = (case latest of Some (q, _) \<Rightarrow> min (saturating_sub (pt_t p) (pt_t q)) max_hold | None \<Rightarrow> max_hold)
            in advance_points t max_hold ps (Some (p, hold)))
      else (p # ps, latest))"

definition advance_to :: "u64 \<Rightarrow> 'f held_series \<Rightarrow> 'f held_series" where
  "advance_to t h = (let (iter, latest) = advance_points t (hd_max_hold h) (hd_iter h) (hd_latest h)
     in h\<lparr>hd_iter := iter, hd_latest := latest\<rparr>)"

definition held_at :: "u64 \<Rightarrow> 'f held_series \<Rightarrow> 'f point option" where
  "held_at t h = (case hd_latest h of
       None \<Rightarrow> None
     | Some (p, hold) \<Rightarrow> if \<not> pt_timing p \<and> saturating_sub t (pt_t p) \<le> hold then Some p else None)"

definition held_timing_at :: "u64 \<Rightarrow> 'f held_series \<Rightarrow> bool" where
  "held_timing_at t h \<longleftrightarrow> (case hd_latest h of None \<Rightarrow> False | Some (p, _) \<Rightarrow> pt_timing p \<and> pt_t p = t)"

definition held_clear :: "'f held_series \<Rightarrow> 'f held_series" where
  "held_clear h = h\<lparr>hd_iter := [], hd_latest := None\<rparr>"

lemma advance_points_shrinks:
  "advance_points t m ps latest = (ps', latest') \<Longrightarrow> length ps' \<le> length ps"
  by (induction t m ps latest rule: advance_points.induct) (auto simp: Let_def split: if_splits)

lemma advance_points_takes:
  "ps \<noteq> [] \<Longrightarrow> pt_t (hd ps) \<le> t \<Longrightarrow> advance_points t m ps latest = (ps', latest') \<Longrightarrow> length ps' < length ps"
  by (cases ps) (auto simp: Let_def le_imp_less_Suc dest: advance_points_shrinks)

lemma advance_points_twice:
  "t \<le> t' \<Longrightarrow> advance_points t m ps latest = (ps1, latest1) \<Longrightarrow>
     advance_points t' m ps1 latest1 = advance_points t' m ps latest"
proof (induction t m ps latest rule: advance_points.induct)
  case (2 t m p ps latest)
  then show ?case by (cases "pt_t p \<le> t") (auto simp: Let_def)
qed simp

text \<open>Advancing in steps is advancing at once.\<close>

lemma advance_to_twice: "t \<le> t' \<Longrightarrow> advance_to t' (advance_to t h) = advance_to t' h"
  using advance_points_twice [of t t' "hd_max_hold h" "hd_iter h" "hd_latest h"]
  by (simp add: advance_to_def case_prod_beta)

section \<open>Leaving a query\<close>

type_synonym 'f series = "labels \<times> 'f point list"

record 'f matrix_sample =
  ms_metric :: labels
  ms_values :: "('f \<times> 'f) list"
  ms_intervals :: "'f band list option"
  ms_bands :: "'f band option list option"
  ms_interpolated :: "bool list option"

definition seconds :: "'f f64 \<Rightarrow> u64 \<Rightarrow> 'f" where
  "seconds F t = f_div F (f_of_u64 F t) (f_nano F)"

definition collect_series :: "'f f64 \<Rightarrow> string option \<Rightarrow> 'f series \<Rightarrow> 'f matrix_sample option" where
  "collect_series F metric_name = (\<lambda>(labels, points).
     (if points = [] then None
      else Some \<lparr>ms_metric = (case metric_name of None \<Rightarrow> fmempty | Some n \<Rightarrow> fmupd ''__name__'' n fmempty) ++\<^sub>f labels,
        ms_values = map (\<lambda>p. (seconds F (pt_t p), pt_v p)) points,
        ms_intervals = (if list_all (\<lambda>p. pt_bounds p \<noteq> None) points then Some (map (the \<circ> pt_bounds) points) else None),
        ms_bands = (if list_ex (\<lambda>p. pt_bounds p \<noteq> None) points then Some (map pt_bounds points) else None),
        ms_interpolated = (if list_ex pt_interpolated points then Some (map pt_interpolated points) else None)\<rparr>))"

definition collect_to_matrix :: "'f f64 \<Rightarrow> 'f series list \<Rightarrow> string option \<Rightarrow> 'f matrix_sample list" where
  "collect_to_matrix F streaming metric_name = List.map_filter (collect_series F metric_name) streaming"

end
