(* ===== verification/Rates.thy ===== *)
theory Rates
  imports Points
begin

text \<open>
  Rates of counters over a stream of samples (\<open>metriken-query/src/promql/streaming/rate.rs\<close>). A producer pulls
  samples as it needs them and lets them go when no later point can need them. \<open>u64\<close> differences wrap, as in a
  release build. \<open>partition_point\<close> is that of a list the predicate splits.
\<close>

text \<open>\<open>CounterSample\<close> (\<open>metriken-storage/src/types.rs\<close>).\<close>

record counter_sample =
  cs_ts :: u64
  cs_value :: u64
  cs_window :: "(u64 \<times> u64) option"

definition checked_sub :: "u64 \<Rightarrow> u64 \<Rightarrow> u64 option" where
  "checked_sub a b = (if b \<le> a then Some (a - b) else None)"

definition partition_point :: "('a \<Rightarrow> bool) \<Rightarrow> 'a list \<Rightarrow> nat" where
  "partition_point p xs = length (takeWhile p xs)"

definition get :: "'a list \<Rightarrow> nat \<Rightarrow> 'a option" where
  "get xs i = (if i < length xs then Some (xs ! i) else None)"

text \<open>The increase of a counter from a reading to the next: a decrease is a reset.\<close>

definition counter_delta :: "'f f64 \<Rightarrow> u64 \<Rightarrow> u64 \<Rightarrow> 'f" where
  "counter_delta F prev cur = f_of_u64 F (if prev \<le> cur then cur - prev else cur)"

section \<open>Pair by pair\<close>

definition pair_rate :: "'f f64 \<Rightarrow> counter_sample \<Rightarrow> counter_sample \<Rightarrow> 'f point option" where
  "pair_rate F prev cur =
     (let delta = counter_delta F (cs_value prev) (cs_value cur)
      in case checked_sub (cs_ts cur) (cs_ts prev) of
          None \<Rightarrow> None
        | Some dur \<Rightarrow>
            (let dur_s = seconds F dur
             in if f_le F dur_s (f_zero F) then None
                else
                  (let v = f_div F delta dur_s;
                       bounds = (case (cs_window prev, cs_window cur) of
                           (Some (b_prev, e_prev), Some (b_cur, e_cur)) \<Rightarrow>
                             (case (checked_sub e_cur b_prev, checked_sub b_cur e_prev) of
                                (Some longest, Some shortest) \<Rightarrow>
                                  (if f_lt F (f_zero F) (seconds F shortest)
                                   then Some (f_min F (f_div F delta (seconds F longest)) v,
                                          f_max F (f_div F delta (seconds F shortest)) v)
                                   else None)
                              | _ \<Rightarrow> None)
                         | _ \<Rightarrow> None)
                   in Some ((point_at (cs_ts cur) v)\<lparr>pt_bounds := bounds\<rparr>))))"

record pairwise_rate =
  pw_source :: "counter_sample list"
  pw_prev :: "counter_sample option"
  pw_end_ns :: u64
  pw_max_gap_ns :: u64

definition pw_from_stream :: "counter_sample list \<Rightarrow> u64 \<Rightarrow> pairwise_rate" where
  "pw_from_stream source end_ns = \<lparr>pw_source = source, pw_prev = None, pw_end_ns = end_ns, pw_max_gap_ns = u64_max\<rparr>"

definition pw_max_gap :: "u64 \<Rightarrow> pairwise_rate \<Rightarrow> pairwise_rate" where
  "pw_max_gap gap_ns w = w\<lparr>pw_max_gap_ns := gap_ns\<rparr>"

function pw_next :: "'f f64 \<Rightarrow> pairwise_rate \<Rightarrow> 'f point option \<times> pairwise_rate" where
  "pw_next F w =
     (case pw_source w of
        [] \<Rightarrow> (None, w)
      | cur # rest \<Rightarrow>
          (let w = w\<lparr>pw_source := rest\<rparr>
           in if pw_end_ns w < cs_ts cur then (None, w)
              else
                (let w' = w\<lparr>pw_prev := Some cur\<rparr>
                 in case pw_prev w of
                     None \<Rightarrow> (Some (timing_at F (cs_ts cur)), w')
                   | Some prev \<Rightarrow>
                       if cs_ts cur = cs_ts prev then pw_next F w'
                       else if pw_max_gap_ns w < cs_ts cur - cs_ts prev then (Some (timing_at F (cs_ts cur)), w')
                       else (case pair_rate F prev cur of Some p \<Rightarrow> (Some p, w') | None \<Rightarrow> pw_next F w'))))"
  by pat_completeness auto

termination
  by (relation "measure (\<lambda>(F, w). length (pw_source w))") auto

section \<open>The start of a window\<close>

record 'f kept_sample =
  kp_ts :: u64
  kp_cum :: 'f
  kp_window :: "(u64 \<times> u64) option"

definition range_start :: "u64 list \<Rightarrow> u64 \<Rightarrow> u64 \<Rightarrow> u64 \<Rightarrow> u64 option" where
  "range_start ts from at reach_ns =
     (let i = partition_point (\<lambda>t. t \<le> from) ts
      in if 0 < i \<and> from - ts ! (i - 1) \<le> reach_ns then Some from
         else case get ts i of Some s \<Rightarrow> if s < at then Some s else None | None \<Rightarrow> None)"

section \<open>The producer on the grid, at points or at samples\<close>

record 'f grid_rate =
  gr_source :: "counter_sample list"
  gr_exhausted :: bool
  gr_kept :: "'f kept_sample list"
  gr_first_ts :: "u64 option"
  gr_last_ts :: "u64 option"
  gr_pulled :: nat
  gr_prev_value :: "u64 option"
  gr_acc :: 'f
  gr_spacings :: "u64 list"
  gr_typical :: u64
  gr_windowed :: bool
  gr_cursor_ns :: u64
  gr_end_ns :: u64
  gr_step_ns :: u64
  gr_span_ns :: u64
  gr_range :: bool
  gr_reach_ns :: u64
  gr_samples :: "u64 option option"
  gr_points :: "(u64 list \<times> nat) option"
  gr_done :: bool

definition SPACING_PROBE :: nat where "SPACING_PROBE = 9"

definition pull :: "'f f64 \<Rightarrow> 'f grid_rate \<Rightarrow> bool \<times> 'f grid_rate" where
  "pull F g =
     (if gr_exhausted g then (False, g)
      else case gr_source g of
          [] \<Rightarrow> (False, g\<lparr>gr_exhausted := True\<rparr>)
        | sample # rest \<Rightarrow>
            (let acc = (case gr_prev_value g of
                   Some prev \<Rightarrow> f_add F (gr_acc g) (counter_delta F prev (cs_value sample)) | None \<Rightarrow> gr_acc g);
                 spacings = (case gr_last_ts g of
                   Some last_ts \<Rightarrow> if length (gr_spacings g) < SPACING_PROBE - 1
                     then gr_spacings g @ [cs_ts sample - last_ts] else gr_spacings g
                 | None \<Rightarrow> gr_spacings g)
             in (True, g\<lparr>gr_source := rest, gr_acc := acc, gr_prev_value := Some (cs_value sample), gr_spacings := spacings,
                  gr_first_ts := (case gr_first_ts g of Some first \<Rightarrow> Some first | None \<Rightarrow> Some (cs_ts sample)),
                  gr_last_ts := Some (cs_ts sample), gr_pulled := gr_pulled g + 1,
                  gr_kept := gr_kept g @ [\<lparr>kp_ts = cs_ts sample, kp_cum = acc, kp_window = cs_window sample\<rparr>]\<rparr>)))"

lemma pull_takes: "pull F g = (True, g') \<Longrightarrow> length (gr_source g') < length (gr_source g)"
  by (auto simp: pull_def Let_def split: if_splits list.splits)

text \<open>\<open>while wanted && pull\<close>, the loop of \<open>from_stream\<close>, \<open>reach\<close> and \<open>sample_after\<close>.\<close>

function pull_while :: "'f f64 \<Rightarrow> ('f grid_rate \<Rightarrow> bool) \<Rightarrow> 'f grid_rate \<Rightarrow> 'f grid_rate" where
  "pull_while F wanted g =
     (if wanted g then (let (pulled, g') = pull F g in if pulled then pull_while F wanted g' else g') else g)"
  by pat_completeness auto

termination
  by (relation "measure (\<lambda>(F, wanted, g). length (gr_source g))") (auto dest!: pull_takes dest: sym)

declare pull_while.simps [simp del]

definition median_spacing :: "u64 list \<Rightarrow> u64" where
  "median_spacing spacings = max (case get (sort spacings) (length spacings div 2) of Some s \<Rightarrow> s | None \<Rightarrow> 1) 1"

text \<open>The fields as \<open>from_stream\<close> sets them, before it pulls.\<close>

definition unread :: "'f f64 \<Rightarrow> counter_sample list \<Rightarrow> bool \<Rightarrow> u64 \<Rightarrow> u64 \<Rightarrow> u64 \<Rightarrow> u64 \<Rightarrow> 'f grid_rate" where
  "unread F source windowed start_ns end_ns step_ns span_ns =
     \<lparr>gr_source = source, gr_exhausted = False, gr_kept = [], gr_first_ts = None, gr_last_ts = None,
      gr_pulled = 0, gr_prev_value = None, gr_acc = f_zero F, gr_spacings = [], gr_typical = 1, gr_windowed = windowed,
      gr_cursor_ns = start_ns, gr_end_ns = end_ns, gr_step_ns = step_ns, gr_span_ns = max span_ns 1,
      gr_range = False, gr_reach_ns = 0, gr_samples = None, gr_points = None, gr_done = (step_ns = 0)\<rparr>"

definition from_stream :: "'f f64 \<Rightarrow> counter_sample list \<Rightarrow> bool \<Rightarrow> u64 \<Rightarrow> u64 \<Rightarrow> u64 \<Rightarrow> u64 \<Rightarrow> 'f grid_rate" where
  "from_stream F source windowed start_ns end_ns step_ns span_ns =
     (let this = pull_while F (\<lambda>g. gr_pulled g < SPACING_PROBE) (unread F source windowed start_ns end_ns step_ns span_ns)
      in this\<lparr>gr_done := gr_done this \<or> gr_pulled this < 2, gr_typical := median_spacing (gr_spacings this)\<rparr>)"

definition at_points :: "u64 list \<Rightarrow> 'f grid_rate \<Rightarrow> 'f grid_rate" where
  "at_points points g = g\<lparr>gr_points := Some (points, 0)\<rparr>"

definition over_range :: "u64 \<Rightarrow> 'f grid_rate \<Rightarrow> 'f grid_rate" where
  "over_range reach_ns g = g\<lparr>gr_range := True, gr_reach_ns := reach_ns\<rparr>"

definition at_samples :: "'f grid_rate \<Rightarrow> 'f grid_rate" where
  "at_samples g = g\<lparr>gr_samples := Some None, gr_done := (gr_pulled g = 0)\<rparr>"

definition reach :: "'f f64 \<Rightarrow> u64 \<Rightarrow> 'f grid_rate \<Rightarrow> 'f grid_rate" where
  "reach F edge g = pull_while F (\<lambda>g. gr_kept g = [] \<or> kp_ts (List.last (gr_kept g)) < edge) g"

fun trim_kept :: "u64 \<Rightarrow> 'f kept_sample list \<Rightarrow> 'f kept_sample list" where
  "trim_kept left (k # l # ks) = (if kp_ts l \<le> left then trim_kept left (l # ks) else k # l # ks)"
| "trim_kept left ks = ks"

definition trim :: "u64 \<Rightarrow> 'f grid_rate \<Rightarrow> 'f grid_rate" where
  "trim left g = g\<lparr>gr_kept := trim_kept left (gr_kept g)\<rparr>"

definition gr_hi :: "'f grid_rate \<Rightarrow> u64 \<Rightarrow> nat" where
  "gr_hi g edge = partition_point (\<lambda>k. kp_ts k < edge) (gr_kept g)"

definition observed :: "'f grid_rate \<Rightarrow> u64 \<Rightarrow> bool" where
  "observed g edge = (case (gr_first_ts g, gr_last_ts g) of
       (Some first, Some last_ts) \<Rightarrow> first \<le> edge \<and> edge \<le> last_ts | _ \<Rightarrow> False)"

text \<open>How far an edge is from the sample below it to the one above.\<close>

definition fraction :: "'f f64 \<Rightarrow> u64 \<Rightarrow> 'f kept_sample \<Rightarrow> 'f kept_sample \<Rightarrow> 'f" where
  "fraction F edge k_lo k_hi = f_div F (f_of_u64 F (edge - kp_ts k_lo)) (f_of_u64 F (kp_ts k_hi - kp_ts k_lo))"

definition interp :: "'f f64 \<Rightarrow> 'f grid_rate \<Rightarrow> u64 \<Rightarrow> 'f option" where
  "interp F g edge =
     (if \<not> observed g edge then None
      else case get (gr_kept g) (gr_hi g edge) of
          None \<Rightarrow> None
        | Some k_hi \<Rightarrow>
            if kp_ts k_hi = edge then Some (kp_cum k_hi)
            else if gr_hi g edge = 0 then None
            else (let k_lo = gr_kept g ! (gr_hi g edge - 1)
                  in Some (f_add F (kp_cum k_lo) (f_mul F (fraction F edge k_lo k_hi) (f_sub F (kp_cum k_hi) (kp_cum k_lo))))))"

definition interp_window :: "'f f64 \<Rightarrow> 'f grid_rate \<Rightarrow> u64 \<Rightarrow> ('f \<times> 'f) option" where
  "interp_window F g edge =
     (if \<not> gr_windowed g \<or> \<not> observed g edge then None
      else case get (gr_kept g) (gr_hi g edge) of
          None \<Rightarrow> None
        | Some k_hi \<Rightarrow>
            case kp_window k_hi of
              None \<Rightarrow> None
            | Some (b_hi, e_hi) \<Rightarrow>
                if kp_ts k_hi = edge then Some (f_of_u64 F b_hi, f_of_u64 F e_hi)
                else if gr_hi g edge = 0 then None
                else (let k_lo = gr_kept g ! (gr_hi g edge - 1)
                      in case kp_window k_lo of
                          None \<Rightarrow> None
                        | Some (b_lo, e_lo) \<Rightarrow>
                            (let frac = fraction F edge k_lo k_hi;
                                 at = (\<lambda>lo hi. f_add F (f_of_u64 F lo) (f_mul F frac (f_sub F (f_of_u64 F hi) (f_of_u64 F lo))))
                             in Some (at b_lo b_hi, at e_lo e_hi))))"

definition sampled_window :: "'f f64 \<Rightarrow> 'f grid_rate \<Rightarrow> u64 \<Rightarrow> ('f \<times> 'f) option" where
  "sampled_window F g edge =
     (if gr_pulled g < 2 then interp_window F g edge
      else if (case get (gr_kept g) (gr_hi g edge) of Some k \<Rightarrow> kp_ts k = edge | None \<Rightarrow> False) then interp_window F g edge
      else if gr_hi g edge = 0 \<or> length (gr_kept g) \<le> gr_hi g edge then None
      else if saturating_mul (gr_typical g) 2 < kp_ts (gr_kept g ! gr_hi g edge) - kp_ts (gr_kept g ! (gr_hi g edge - 1)) then None
      else interp_window F g edge)"

definition next_sample :: "u64 option \<Rightarrow> 'f grid_rate \<Rightarrow> u64 option" where
  "next_sample after g = map_option kp_ts (get (gr_kept g)
     (case after of Some a \<Rightarrow> partition_point (\<lambda>k. kp_ts k \<le> a) (gr_kept g) | None \<Rightarrow> 0))"

definition sample_after :: "'f f64 \<Rightarrow> u64 option \<Rightarrow> 'f grid_rate \<Rightarrow> u64 option \<times> 'f grid_rate" where
  "sample_after F after g = (let g' = pull_while F (\<lambda>g. next_sample after g = None) g in (next_sample after g', g'))"

subsection \<open>One turn of the loop\<close>

datatype placed = Stop | Skip | At u64 u64

datatype 'f turn = Return "'f point option" | Continue

definition place_next :: "'f f64 \<Rightarrow> 'f grid_rate \<Rightarrow> placed \<times> 'f grid_rate" where
  "place_next F g =
     (case gr_samples g of
        Some last_at \<Rightarrow>
          (let (r, g) = sample_after F last_at g
           in case r of
               None \<Rightarrow> (Stop, g)
             | Some t \<Rightarrow>
                 if gr_end_ns g < t then (Stop, g\<lparr>gr_done := True\<rparr>)
                 else (At t (saturating_sub t (gr_span_ns g)), g\<lparr>gr_samples := Some (Some t)\<rparr>))
      | None \<Rightarrow>
          case gr_points g of
            Some (points, i) \<Rightarrow>
              (let g = g\<lparr>gr_points := Some (points, i + 1)\<rparr>
               in if gr_range g
                  then (case get points i of
                      None \<Rightarrow> (Stop, g)
                    | Some t \<Rightarrow>
                        if gr_end_ns g < t \<or> t < gr_cursor_ns g \<or> 0 < i \<and> t \<le> points ! (i - 1) then (Skip, g)
                        else (At t (saturating_sub t (gr_span_ns g)), g))
                  else (case (get points i, get points (i + 1)) of
                      (Some prev, Some t) \<Rightarrow>
                        if gr_end_ns g < t \<or> t \<le> prev \<or> t < gr_cursor_ns g then (Skip, g) else (At t prev, g)
                    | _ \<Rightarrow> (Stop, g)))
          | None \<Rightarrow>
              if gr_end_ns g < gr_cursor_ns g then (Stop, g)
              else
                (let t = gr_cursor_ns g;
                     g = (case checked_add (gr_cursor_ns g) (gr_step_ns g) of
                         Some next \<Rightarrow> g\<lparr>gr_cursor_ns := next\<rparr> | None \<Rightarrow> g\<lparr>gr_done := True\<rparr>)
                 in case checked_sub t (gr_span_ns g) of
                     Some left \<Rightarrow> (At t left, g)
                   | None \<Rightarrow> if gr_range g then (At t 0, g) else (Skip, g)))"

text \<open>Where the window is read: at the point, or, past the last sample, held at that sample.\<close>

definition held_end :: "'f grid_rate \<Rightarrow> u64 \<Rightarrow> u64 \<Rightarrow> (u64 \<times> u64) option" where
  "held_end g t left =
     (case gr_last_ts g of
        Some last_ts \<Rightarrow>
          if gr_exhausted g \<and> last_ts < t
          then (if 2 \<le> gr_pulled g \<and> saturating_sub (gr_end_ns g) last_ts \<le> gr_typical g
                then Some (last_ts, saturating_sub last_ts (t - left)) else None)
          else Some (t, left)
      | None \<Rightarrow> Some (t, left))"

definition window_start :: "'f grid_rate \<Rightarrow> u64 \<Rightarrow> u64 \<Rightarrow> u64 option" where
  "window_start g from at = (if gr_range g then range_start (map kp_ts (gr_kept g)) from at (gr_reach_ns g) else Some from)"

definition band_of :: "'f f64 \<Rightarrow> 'f \<Rightarrow> 'f \<Rightarrow> ('f \<times> 'f) \<times> 'f \<times> 'f \<Rightarrow> 'f band option" where
  "band_of F increase v = (\<lambda>((b_left, e_left), (b_hi, e_hi)).
     (let elapsed_max = f_div F (f_sub F e_hi b_left) (f_nano F); elapsed_min = f_div F (f_sub F b_hi e_left) (f_nano F)
      in if f_lt F (f_zero F) elapsed_min \<and> f_lt F (f_zero F) elapsed_max
         then Some (f_min F (f_div F increase elapsed_max) v, f_max F (f_div F increase elapsed_min) v)
         else None))"

definition rate_point :: "'f f64 \<Rightarrow> 'f grid_rate \<Rightarrow> u64 \<Rightarrow> u64 \<Rightarrow> u64 \<Rightarrow> 'f point option" where
  "rate_point F g t t_eval left =
     (let step_s = f_div F (f_sub F (f_of_u64 F t_eval) (f_of_u64 F left)) (f_nano F)
      in case (interp F g t_eval, interp F g left) of
          (Some v_hi, Some v_lo) \<Rightarrow>
            if f_le F step_s (f_zero F) then None
            else
              (let increase = f_sub F v_hi v_lo;
                   v = f_div F increase step_s;
                   window_pair = (case (sampled_window F g left, sampled_window F g t_eval) of
                     (Some l, Some r) \<Rightarrow> Some (l, r) | _ \<Rightarrow> None);
                   bounds = Option.bind window_pair (band_of F increase v)
               in Some \<lparr>pt_t = t, pt_v = v, pt_bounds = bounds,
                    pt_edges = (if bounds \<noteq> None \<and> gr_samples g = None
                      then map_option (\<lambda>(l, r). \<lparr>re_left = l, re_right = r\<rparr>) window_pair else None),
                    pt_interpolated = (window_pair = None \<and> gr_windowed g), pt_timing = False\<rparr>)
        | _ \<Rightarrow> None)"

definition no_value :: "'f f64 \<Rightarrow> 'f grid_rate \<Rightarrow> u64 \<Rightarrow> 'f turn" where
  "no_value F g t = (if gr_samples g = None then Continue else Return (Some (timing_at F t)))"

definition evaluate :: "'f f64 \<Rightarrow> u64 \<Rightarrow> u64 \<Rightarrow> 'f grid_rate \<Rightarrow> 'f turn \<times> 'f grid_rate" where
  "evaluate F t left g =
     (let g = reach F t g
      in case held_end g t left of
          None \<Rightarrow> (if gr_points g = None then Return None else Continue, g)
        | Some (at, from) \<Rightarrow>
            case window_start g from at of
              None \<Rightarrow> (no_value F g t, g)
            | Some from \<Rightarrow>
                (let g = trim from g
                 in (case rate_point F g t at from of Some p \<Rightarrow> Return (Some p) | None \<Rightarrow> no_value F g t, g)))"

definition grid_turn :: "'f f64 \<Rightarrow> 'f grid_rate \<Rightarrow> 'f turn \<times> 'f grid_rate" where
  "grid_turn F g = (case place_next F g of
       (Stop, g) \<Rightarrow> (Return None, g)
     | (Skip, g) \<Rightarrow> (Continue, g)
     | (At t left, g) \<Rightarrow> evaluate F t left g)"

partial_function (option) grid_next :: "'f f64 \<Rightarrow> 'f grid_rate \<Rightarrow> ('f point option \<times> 'f grid_rate) option" where
  "grid_next F g =
     (if gr_done g then Some (None, g)
      else case grid_turn F g of (Return r, g') \<Rightarrow> Some (r, g') | (Continue, g') \<Rightarrow> grid_next F g')"

text \<open>All a producer gives.\<close>

partial_function (option) grid_points :: "'f f64 \<Rightarrow> 'f grid_rate \<Rightarrow> 'f point list option" where
  "grid_points F g = (case grid_next F g of
       None \<Rightarrow> None
     | Some (None, _) \<Rightarrow> Some []
     | Some (Some p, g') \<Rightarrow> Option.bind (grid_points F g') (\<lambda>ps. Some (p # ps)))"


lemma grid_points_turn:
  "grid_points F g =
     (if gr_done g then Some []
      else case grid_turn F g of
          (Return None, _) \<Rightarrow> Some []
        | (Return (Some p), g') \<Rightarrow> map_option (\<lambda>ps. p # ps) (grid_points F g')
        | (Continue, g') \<Rightarrow> grid_points F g')"
proof (cases "gr_done g")
  case False
  obtain r g' where turn: "grid_turn F g = (r, g')" by fastforce
  show ?thesis
  proof (cases r)
    case Continue
    then have "grid_next F g = grid_next F g'" using False turn by (simp add: grid_next.simps [of F g])
    then show ?thesis using False turn Continue by (simp add: grid_points.simps)
  next
    case (Return x)
    then have "grid_next F g = Some (x, g')" using False turn by (simp add: grid_next.simps [of F g])
    moreover have "Option.bind ps (\<lambda>ps. Some (p # ps)) = map_option (\<lambda>ps. p # ps) ps" for p :: "'a point" and ps
      by (cases ps) simp_all
    ultimately show ?thesis using False turn Return by (simp add: grid_points.simps [of F g] split: option.split)
  qed
qed (simp add: grid_points.simps [of F g] grid_next.simps [of F g])

subsection \<open>A producer ends\<close>

text \<open>The turns a producer has left, at most.\<close>

definition turns_left :: "'f grid_rate \<Rightarrow> nat" where
  "turns_left g = (case gr_samples g of
       Some at \<Rightarrow> (case at of None \<Rightarrow> 2 ^ 64 | Some a \<Rightarrow> 2 ^ 64 - 1 - unat a)
     | None \<Rightarrow> (case gr_points g of
           Some (points, i) \<Rightarrow> length points - i | None \<Rightarrow> if gr_done g then 0 else 2 ^ 64 - unat (gr_cursor_ns g)))"

definition placing :: "'f grid_rate \<Rightarrow> 'f grid_rate \<Rightarrow> bool" where
  "placing g g' \<longleftrightarrow> gr_samples g' = gr_samples g \<and> gr_points g' = gr_points g \<and> gr_done g' = gr_done g \<and>
     gr_cursor_ns g' = gr_cursor_ns g \<and> gr_step_ns g' = gr_step_ns g"

lemma placing_trans: "placing g g' \<Longrightarrow> placing g' g'' \<Longrightarrow> placing g g''"
  by (simp add: placing_def)

lemma placing_turns: "placing g g' \<Longrightarrow> turns_left g' = turns_left g"
  unfolding placing_def turns_left_def by (elim conjE) (simp only:)

lemma pull_placing: "placing g (snd (pull F g))"
  by (auto simp: pull_def placing_def Let_def split: list.split)

lemma pull_while_placing: "placing g (pull_while F wanted g)"
proof (induction F wanted g rule: pull_while.induct)
  case (1 F wanted g)
  obtain b g' where p: "pull F g = (b, g')" by fastforce
  have "placing g g'" using pull_placing [of g F] p by simp
  moreover have "wanted g \<Longrightarrow> b \<Longrightarrow> placing g' (pull_while F wanted g')" using 1 p by simp
  moreover have "placing g g" by (simp add: placing_def)
  ultimately show ?case by (auto simp: pull_while.simps [of F wanted g] p intro: placing_trans)
qed

lemma evaluate_placing: "placing g (snd (evaluate F t left g))"
  using pull_while_placing [of g F]
  by (auto simp: evaluate_def reach_def Let_def trim_def placing_def split: option.split)

lemma unat_less_2_64: "unat (a :: u64) < 2 ^ 64"
proof -
  have "unat a < 2 ^ LENGTH(64)" by (rule unsigned_less)
  then show ?thesis by simp
qed

lemma sample_after_later:
  assumes "sample_after F after g = (Some t, g')" "after = Some a"
  shows "a < t"
proof -
  let ?i = "partition_point (\<lambda>k. kp_ts k \<le> a) (gr_kept g')"
  from assms have "get (gr_kept g') ?i \<noteq> None" "t = kp_ts (gr_kept g' ! ?i)"
    by (auto simp: sample_after_def Let_def next_sample_def get_def split: if_splits)
  then have "\<not> kp_ts (gr_kept g' ! ?i) \<le> a"
    using nth_length_takeWhile [of "\<lambda>k. kp_ts k \<le> a" "gr_kept g'"] by (auto simp: get_def partition_point_def split: if_splits)
  with \<open>t = _\<close> show ?thesis by simp
qed

definition moves :: "'f grid_rate \<Rightarrow> bool" where
  "moves g \<longleftrightarrow> gr_samples g \<noteq> None \<or> gr_points g \<noteq> None \<or> gr_step_ns g \<noteq> 0"

lemma turn_takes:
  assumes "\<not> gr_done g" "moves g" "grid_turn F g = (r, g')" "r \<noteq> Return None"
  shows "turns_left g' < turns_left g \<and> moves g'"
proof -
  obtain pl g1 where place: "place_next F g = (pl, g1)" by fastforce
  have pl: "pl \<noteq> Stop" using assms(3,4) place by (auto simp: grid_turn_def)
  have "placing g1 g'"
  proof (cases pl)
    case (At t left)
    then show ?thesis using assms(3) place evaluate_placing [of g1 F t left] by (simp add: grid_turn_def)
  qed (use assms(3) place pl in \<open>simp_all add: grid_turn_def placing_def\<close>)
  moreover have "turns_left g1 < turns_left g \<and> moves g1"
  proof (cases "gr_samples g")
    case (Some after)
    obtain x g2 where s: "sample_after F after g = (x, g2)" by fastforce
    then obtain t where x: "x = Some t" using place pl Some by (auto simp: place_next_def split: option.splits)
    have g1: "g1 = g2\<lparr>gr_samples := Some (Some t)\<rparr>"
      using place pl Some s x by (auto simp: place_next_def split: if_splits)
    have "placing g g2" using s pull_while_placing by (auto simp: sample_after_def Let_def)
    moreover have "2 ^ 64 - 1 - unat t < turns_left g"
      using sample_after_later [OF s [unfolded x]] Some
        unat_less_2_64 [of t] by (cases after) (auto simp: turns_left_def word_less_nat_alt)
    ultimately show ?thesis by (simp add: g1 placing_def turns_left_def moves_def)
  next
    case None
    show ?thesis
    proof (cases "gr_points g")
      case (Some pts)
      obtain points i where pts: "pts = (points, i)" by fastforce
      have "i < length points" "g1 = g\<lparr>gr_points := Some (points, i + 1)\<rparr>"
        using place pl None Some pts by (auto simp: place_next_def get_def Let_def split: if_splits option.splits)
      with None Some pts show ?thesis by (simp add: turns_left_def moves_def)
    next
      case None'': None
      have cur: "gr_step_ns g1 = gr_step_ns g \<and> gr_samples g1 = None \<and> gr_points g1 = None \<and>
          (gr_done g1 \<or> (\<exists>c. checked_add (gr_cursor_ns g) (gr_step_ns g) = Some c \<and> gr_cursor_ns g1 = c))"
        using place pl None None'' by (auto simp: place_next_def Let_def split: if_splits option.splits)
      have "0 < unat (gr_step_ns g)" using assms(2) None None'' by (simp add: moves_def unat_gt_0)
      moreover have "unat (gr_cursor_ns g) < 2 ^ 64" by (rule unat_less_2_64)
      ultimately show ?thesis using cur assms(1) None None''
        by (auto simp: turns_left_def moves_def dest!: checked_add_Some)
    qed
  qed
  ultimately show ?thesis by (simp add: placing_turns) (simp add: placing_def moves_def)
qed

lemma points_end: "gr_done g \<or> moves g \<Longrightarrow> \<exists>ps. grid_points F g = Some ps"
proof (induction "turns_left g" arbitrary: g rule: less_induct)
  case less
  show ?case
  proof (cases "gr_done g")
    case False
    obtain r g' where turn: "grid_turn F g = (r, g')" by fastforce
    have "r \<noteq> Return None \<Longrightarrow> \<exists>ps. grid_points F g' = Some ps"
      using turn_takes [OF False _ turn] less False by auto
    with False turn show ?thesis by (auto simp: grid_points_turn [of F g] split: turn.split option.split)
  qed (simp add: grid_points_turn)
qed

text \<open>The producers a query makes.\<close>

inductive rate_built :: "'f f64 \<Rightarrow> 'f grid_rate \<Rightarrow> bool" for F where
  built_stream: "rate_built F (from_stream F source windowed start_ns end_ns step_ns span_ns)"
| built_points: "rate_built F g \<Longrightarrow> rate_built F (at_points points g)"
| built_range: "rate_built F g \<Longrightarrow> rate_built F (over_range reach_ns g)"
| built_samples: "rate_built F g \<Longrightarrow> rate_built F (at_samples g)"

lemma rate_built_moves: "rate_built F g \<Longrightarrow> gr_done g \<or> moves g"
proof (induction rule: rate_built.induct)
  case (built_stream source windowed start_ns end_ns step_ns span_ns)
  have "placing (unread F source windowed start_ns end_ns step_ns span_ns)
      (pull_while F (\<lambda>g. gr_pulled g < SPACING_PROBE) (unread F source windowed start_ns end_ns step_ns span_ns))"
    by (rule pull_while_placing)
  then show ?case by (auto simp: from_stream_def Let_def moves_def placing_def unread_def)
qed (auto simp: at_points_def over_range_def at_samples_def moves_def)

text \<open>
  C28. A rate ends. A producer placed on the grid, at points or at samples, with a range or without, gives finitely many
  points and stops, whatever its samples and whatever its step.
\<close>

theorem every_rate_producer_ends:
  assumes "rate_built F g"
  shows "\<exists>ps. grid_points F g = Some ps"
  using rate_built_moves [OF assms] by (rule points_end)

end
