(* ===== verification/RateStream.thy ===== *)
theory RateStream
  imports Rates
begin

text \<open>
  A rate over a stream is the rate over the whole series: what the producer of \<open>Rates\<close> has let go, or not yet
  pulled, is never what a point needs. \<open>whole_series\<close> is the producer with every sample in hand and \<open>value_at\<close>
  its value at one tick.
\<close>

section \<open>The whole series\<close>

fun cumulate :: "'f f64 \<Rightarrow> u64 option \<Rightarrow> 'f \<Rightarrow> counter_sample list \<Rightarrow> 'f kept_sample list" where
  "cumulate F prev acc [] = []"
| "cumulate F prev acc (s # ss) =
     (let acc' = (case prev of Some p \<Rightarrow> f_add F acc (counter_delta F p (cs_value s)) | None \<Rightarrow> acc)
      in \<lparr>kp_ts = cs_ts s, kp_cum = acc', kp_window = cs_window s\<rparr> # cumulate F (Some (cs_value s)) acc' ss)"

definition series_of :: "'f f64 \<Rightarrow> counter_sample list \<Rightarrow> 'f kept_sample list" where
  "series_of F all = cumulate F None (f_zero F) all"

text \<open>The value and the sum a stream of some samples leaves.\<close>

fun counted :: "'f f64 \<Rightarrow> u64 option \<Rightarrow> 'f \<Rightarrow> counter_sample list \<Rightarrow> u64 option \<times> 'f" where
  "counted F prev acc [] = (prev, acc)"
| "counted F prev acc (s # ss) =
     counted F (Some (cs_value s)) (case prev of Some p \<Rightarrow> f_add F acc (counter_delta F p (cs_value s)) | None \<Rightarrow> acc) ss"

lemma cumulate_append:
  "cumulate F prev acc (xs @ ys) = cumulate F prev acc xs @ (let (p, a) = counted F prev acc xs in cumulate F p a ys)"
  by (induction F prev acc xs rule: cumulate.induct) (simp_all add: Let_def)

lemma counted_append:
  "counted F prev acc (xs @ ys) = (let (p, a) = counted F prev acc xs in counted F p a ys)"
  by (induction F prev acc xs rule: counted.induct) simp_all

lemma cumulate_ts: "map kp_ts (cumulate F prev acc xs) = map cs_ts xs"
  by (induction F prev acc xs rule: cumulate.induct) (simp_all add: Let_def)

lemma length_series [simp]: "length (series_of F all) = length all"
  using arg_cong [OF cumulate_ts [of F None "f_zero F" all], of length] by (simp add: series_of_def)

lemma series_ts [simp]: "map kp_ts (series_of F all) = map cs_ts all"
  by (simp add: series_of_def cumulate_ts)

lemma series_nth [simp]: "i < length all \<Longrightarrow> kp_ts (series_of F all ! i) = cs_ts (all ! i)"
  by (metis length_series nth_map series_ts)

lemma cumulate_take: "take n (cumulate F prev acc xs) = cumulate F prev acc (take n xs)"
proof (induction F prev acc xs arbitrary: n rule: cumulate.induct)
  case (2 F prev acc s ss)
  then show ?case by (cases n) (simp_all add: Let_def)
qed simp

lemma series_take: "take n (series_of F all) = series_of F (take n all)"
  by (simp add: series_of_def cumulate_take)

definition whole_series :: "'f f64 \<Rightarrow> counter_sample list \<Rightarrow> 'f grid_rate \<Rightarrow> 'f grid_rate" where
  "whole_series F all g = g\<lparr>gr_source := [], gr_exhausted := True, gr_kept := series_of F all,
     gr_first_ts := map_option cs_ts (get all 0), gr_last_ts := map_option cs_ts (get all (length all - 1)),
     gr_pulled := length all, gr_prev_value := fst (counted F None (f_zero F) all),
     gr_acc := snd (counted F None (f_zero F) all), gr_spacings := [], gr_cursor_ns := 0, gr_done := False\<rparr>"

text \<open>A stream that has pulled \<open>n\<close> samples of \<open>all\<close> and let go of \<open>d\<close>.\<close>

definition streams :: "'f f64 \<Rightarrow> counter_sample list \<Rightarrow> nat \<Rightarrow> nat \<Rightarrow> 'f grid_rate \<Rightarrow> bool" where
  "streams F all d n g \<longleftrightarrow> n \<le> length all \<and> (d = 0 \<or> d < n) \<and> gr_pulled g = n \<and> gr_source g = drop n all \<and>
     (gr_exhausted g \<longrightarrow> n = length all) \<and> gr_kept g = drop d (take n (series_of F all)) \<and>
     gr_first_ts g = (if n = 0 then None else Some (cs_ts (all ! 0))) \<and>
     gr_last_ts g = (if n = 0 then None else Some (cs_ts (all ! (n - 1)))) \<and>
     (gr_prev_value g, gr_acc g) = counted F None (f_zero F) (take n all)"

lemma pull_streams:
  assumes "streams F all d n g" "pull F g = (b, g')"
  shows "whole_series F all g' = whole_series F all g"
    "if b then streams F all d (Suc n) g' else n = length all \<and> streams F all d n g' \<and> gr_exhausted g'"
    "gr_cursor_ns g' = gr_cursor_ns g \<and> gr_done g' = gr_done g"
proof -
  note s = assms(1) [unfolded streams_def]
  show "whole_series F all g' = whole_series F all g"
    using assms(2) by (auto simp: pull_def whole_series_def Let_def split: if_splits list.splits)
  show "gr_cursor_ns g' = gr_cursor_ns g \<and> gr_done g' = gr_done g"
    using assms(2) by (auto simp: pull_def Let_def split: if_splits list.splits)
  show "if b then streams F all d (Suc n) g' else n = length all \<and> streams F all d n g' \<and> gr_exhausted g'"
  proof (cases "gr_exhausted g \<or> gr_source g = []")
    case True
    then have "n = length all" using s by auto
    moreover have "pull F g = (False, g\<lparr>gr_exhausted := True\<rparr>)"
      using True by (cases "gr_exhausted g") (simp_all add: pull_def)
    ultimately show ?thesis using assms s by (auto simp: streams_def)
  next
    case False
    then have n: "n < length all" using s by auto
    then have src: "gr_source g = all ! n # drop (Suc n) all" using s by (simp add: Cons_nth_drop_Suc)
    have more: "take (Suc n) all = take n all @ [all ! n]" using n by (rule take_Suc_conv_app_nth)
    have c: "counted F None (f_zero F) (take n all) = (gr_prev_value g, gr_acc g)" using s by simp
    let ?a = "case gr_prev_value g of Some p \<Rightarrow> f_add F (gr_acc g) (counter_delta F p (cs_value (all ! n))) | None \<Rightarrow> gr_acc g"
    let ?k = "\<lparr>kp_ts = cs_ts (all ! n), kp_cum = ?a, kp_window = cs_window (all ! n)\<rparr>"
    have ser: "take (Suc n) (series_of F all) = take n (series_of F all) @ [?k]"
      by (simp add: series_take more) (simp add: series_of_def cumulate_append c)
    have fields: "\<not> gr_exhausted g" "gr_pulled g = n"
        "gr_first_ts g = (if n = 0 then None else Some (cs_ts (all ! 0)))"
        "gr_kept g @ [?k] = drop d (take (Suc n) (series_of F all))"
      using s n False by (auto simp: ser)
    have b: "b" "g' = snd (pull F g)" using assms(2) False src by (auto simp: pull_def Let_def)
    obtain sp where sp: "sp = gr_spacings (snd (pull F g))" by simp
    then have "snd (pull F g) = g\<lparr>gr_source := drop (Suc n) all, gr_acc := ?a, gr_prev_value := Some (cs_value (all ! n)),
        gr_spacings := sp, gr_first_ts := Some (cs_ts (all ! 0)), gr_last_ts := Some (cs_ts (all ! n)), gr_pulled := Suc n,
        gr_kept := gr_kept g @ [?k]\<rparr>"
      using fields(1-3) by (simp add: pull_def src Let_def)
    moreover have "d = 0 \<or> d < Suc n" using s by auto
    ultimately have "streams F all d (Suc n) (snd (pull F g))"
      using n fields(1,4) by (simp add: streams_def more counted_append c)
    with b show ?thesis by simp
  qed
qed

lemma pull_while_streams:
  assumes "streams F all d n g"
  shows "\<exists>m. n \<le> m \<and> streams F all d m (pull_while F wanted g) \<and>
    (wanted (pull_while F wanted g) \<longrightarrow> m = length all \<and> gr_exhausted (pull_while F wanted g)) \<and>
    whole_series F all (pull_while F wanted g) = whole_series F all g \<and>
    gr_cursor_ns (pull_while F wanted g) = gr_cursor_ns g \<and> gr_done (pull_while F wanted g) = gr_done g"
  using assms
proof (induction F wanted g arbitrary: n rule: pull_while.induct)
  case (1 F wanted g)
  show ?case
  proof (cases "wanted g")
    case True
    obtain b g' where p: "pull F g = (b, g')" by fastforce
    note pulled = pull_streams [OF 1(2) p]
    show ?thesis
    proof (cases b)
      case b: True
      then have "streams F all d (Suc n) g'" using pulled(2) by simp
      from 1(1) [OF True p [symmetric] refl b this] show ?thesis
        using True b pulled by (auto simp: pull_while.simps [of F wanted g] p intro: Suc_leD)
    next
      case False
      with True pulled show ?thesis by (auto simp: pull_while.simps [of F wanted g] p)
    qed
  qed (use 1(2) in \<open>auto simp: pull_while.simps [of F wanted g]\<close>)
qed


section \<open>What a window of the series shows\<close>

lemma partition_window:
  assumes "n \<le> length xs" "\<forall>x \<in> set (take d xs). P x" "n < length xs \<Longrightarrow> \<not> P (xs ! n)" "d \<le> n"
  shows "partition_point P (drop d (take n xs)) = partition_point P xs - d" "d \<le> partition_point P xs"
    "partition_point P xs \<le> n"
proof -
  have split: "xs = take d xs @ drop d (take n xs) @ drop n xs"
    using assms(4) by (metis append_assoc append_take_drop_id min.absorb1 take_take)
  have rest: "takeWhile P (drop n xs) = []"
    using assms(3) by (cases "n < length xs") (simp_all add: Cons_nth_drop_Suc [symmetric])
  have "takeWhile P xs = take d xs @ takeWhile P (drop d (take n xs) @ drop n xs)"
    by (subst split) (simp add: takeWhile_append2 assms(2))
  moreover have "takeWhile P (ys @ drop n xs) = takeWhile P ys" for ys
    by (induction ys) (simp_all add: rest)
  ultimately have tw: "takeWhile P xs = take d xs @ takeWhile P (drop d (take n xs))" by simp
  have d: "length (take d xs) = d" using assms(1,4) by simp
  with tw show "partition_point P (drop d (take n xs)) = partition_point P xs - d" "d \<le> partition_point P xs"
    by (simp_all add: partition_point_def)
  have "length (takeWhile P (drop d (take n xs))) \<le> n - d"
    using length_takeWhile_le [of P "drop d (take n xs)"] by simp
  with tw d assms(4) show "partition_point P xs \<le> n" by (simp add: partition_point_def)
qed

lemma partition_nth:
  "i < partition_point P xs \<Longrightarrow> P (xs ! i)"
  "partition_point P xs < length xs \<Longrightarrow> \<not> P (xs ! partition_point P xs)"
  "partition_point P xs \<le> length xs"
  unfolding partition_point_def
    apply (metis nth_mem set_takeWhileD takeWhile_nth)
   apply (rule nth_length_takeWhile, assumption)
  apply (rule length_takeWhile_le)
  done

lemma partition_le: "i < length xs \<Longrightarrow> \<not> P (xs ! i) \<Longrightarrow> partition_point P xs \<le> i"
  using partition_nth(1) [of i P xs] by (meson not_le_imp_less)

definition in_order :: "counter_sample list \<Rightarrow> bool" where
  "in_order all \<longleftrightarrow> sorted_wrt (\<lambda>a b. cs_ts a < cs_ts b) all"

lemma in_order_nth: "in_order all \<Longrightarrow> i < j \<Longrightarrow> j < length all \<Longrightarrow> cs_ts (all ! i) < cs_ts (all ! j)"
  unfolding in_order_def by (rule sorted_wrt_nth_less)

lemma in_order_le: "in_order all \<Longrightarrow> i \<le> j \<Longrightarrow> j < length all \<Longrightarrow> cs_ts (all ! i) \<le> cs_ts (all ! j)"
  by (cases "i = j") (auto dest: in_order_nth [of all i j])

text \<open>The samples that bracket \<open>edge\<close> are there.\<close>

definition bracketed :: "counter_sample list \<Rightarrow> nat \<Rightarrow> nat \<Rightarrow> u64 \<Rightarrow> bool" where
  "bracketed all d n edge \<longleftrightarrow> (d = 0 \<or> cs_ts (all ! d) \<le> edge) \<and> (n = length all \<or> 0 < n \<and> edge \<le> cs_ts (all ! (n - 1)))"

lemma bracket:
  assumes "in_order all" "streams F all d n g" "bracketed all d n edge"
  shows "gr_hi g edge = gr_hi (whole_series F all g) edge - d" "d \<le> gr_hi (whole_series F all g) edge"
    "get (gr_kept g) (gr_hi g edge) = get (gr_kept (whole_series F all g)) (gr_hi (whole_series F all g) edge)"
    "observed g edge = observed (whole_series F all g) edge"
    "get (gr_kept g) (gr_hi g edge) = Some k \<Longrightarrow> kp_ts k \<noteq> edge \<Longrightarrow> 0 < gr_hi (whole_series F all g) edge \<Longrightarrow>
       0 < gr_hi g edge \<and> gr_kept g ! (gr_hi g edge - 1) = gr_kept (whole_series F all g) ! (gr_hi (whole_series F all g) edge - 1)"
proof -
  note s = assms(2) [unfolded streams_def]
  let ?xs = "series_of F all" and ?P = "\<lambda>k. kp_ts k < edge" and ?j = "gr_hi (whole_series F all g) edge"
  have j: "?j = partition_point ?P ?xs" by (simp add: gr_hi_def whole_series_def)
  have dn: "d \<le> n" "n \<le> length ?xs" using s by auto
  have low: "\<forall>x \<in> set (take d ?xs). ?P x"
  proof
    fix x assume "x \<in> set (take d ?xs)"
    then obtain i where i: "i < d" "x = ?xs ! i" "i < length all" by (auto simp: in_set_conv_nth)
    then have "cs_ts (all ! i) < cs_ts (all ! d)" using s assms(1) by (intro in_order_nth) auto
    with i assms(3) show "?P x" by (auto simp: bracketed_def)
  qed
  have high: "\<not> ?P (?xs ! n)" if "n < length ?xs"
  proof -
    have "0 < n" "edge \<le> cs_ts (all ! (n - 1))" using that assms(3) by (auto simp: bracketed_def)
    moreover have "cs_ts (all ! (n - 1)) \<le> cs_ts (all ! n)" using that assms(1) by (intro in_order_le) auto
    ultimately show ?thesis using that by auto
  qed
  note part = partition_window [OF dn(2) low high dn(1), folded j]
  show hi: "gr_hi g edge = ?j - d" using part(1) s by (simp add: gr_hi_def)
  show dj: "d \<le> ?j" by (rule part(2))
  have jn: "?j < n \<or> n = length all"
  proof (cases "n = length all")
    case False
    then have "0 < n" "edge \<le> cs_ts (all ! (n - 1))" using assms(3) by (auto simp: bracketed_def)
    moreover from this False s have "\<not> ?P (?xs ! (n - 1))" by auto
    moreover from \<open>0 < n\<close> s have "n - 1 < length ?xs" by auto
    ultimately have "?j \<le> n - 1" using partition_le [of "n - 1" ?xs ?P] by (simp add: j)
    with \<open>0 < n\<close> show ?thesis by linarith
  qed simp
  show got: "get (gr_kept g) (gr_hi g edge) = get (gr_kept (whole_series F all g)) ?j"
    using jn dj s hi by (auto simp: get_def whole_series_def)
  show "observed g edge = observed (whole_series F all g) edge"
  proof (cases "n = length all")
    case True
    then show ?thesis using s by (auto simp: observed_def whole_series_def get_def)
  next
    case False
    then have e: "0 < n" "edge \<le> cs_ts (all ! (n - 1))" "n < length all" using assms(3) s by (auto simp: bracketed_def)
    moreover have "cs_ts (all ! (n - 1)) \<le> cs_ts (all ! (length all - 1))" using e assms(1) by (intro in_order_le) auto
    ultimately show ?thesis using s by (auto simp: observed_def whole_series_def get_def)
  qed
  assume k: "get (gr_kept g) (gr_hi g edge) = Some k" "kp_ts k \<noteq> edge" "0 < ?j"
  have "d < ?j"
  proof (rule ccontr)
    assume "\<not> d < ?j"
    with dj k(3) have d: "?j = d" "0 < d" by auto
    then have "d < length all" using s by auto
    moreover from this d got k(1) have "k = ?xs ! d" by (simp add: get_def whole_series_def)
    moreover have "cs_ts (all ! d) \<le> edge" using assms(3) d by (simp add: bracketed_def)
    moreover have "edge \<le> kp_ts (?xs ! ?j)" using partition_nth(2) [of ?P ?xs] \<open>d < length all\<close> d j by simp
    ultimately show False using k(2) d by simp
  qed
  moreover have "?j \<le> n" by (rule part(3))
  ultimately show "0 < gr_hi g edge \<and> gr_kept g ! (gr_hi g edge - 1) = gr_kept (whole_series F all g) ! (?j - 1)"
    using hi s by (auto simp: whole_series_def)
qed


lemma whole_conf [simp]:
  "gr_windowed (whole_series F all g) = gr_windowed g" "gr_typical (whole_series F all g) = gr_typical g"
  "gr_samples (whole_series F all g) = gr_samples g" "gr_points (whole_series F all g) = gr_points g"
  "gr_end_ns (whole_series F all g) = gr_end_ns g" "gr_step_ns (whole_series F all g) = gr_step_ns g"
  "gr_span_ns (whole_series F all g) = gr_span_ns g" "gr_range (whole_series F all g) = gr_range g"
  "gr_reach_ns (whole_series F all g) = gr_reach_ns g" "gr_pulled (whole_series F all g) = length all"
  "gr_exhausted (whole_series F all g)" "gr_kept (whole_series F all g) = series_of F all"
  by (simp_all add: whole_series_def)

lemma interp_whole:
  assumes "in_order all" "streams F all d n g" "bracketed all d n edge"
  shows "interp F g edge = interp F (whole_series F all g) edge"
    "interp_window F g edge = interp_window F (whole_series F all g) edge"
proof -
  note b = bracket [OF assms]
  let ?w = "whole_series F all g"
  have both: "interp F g edge = interp F ?w edge \<and> interp_window F g edge = interp_window F ?w edge"
  proof (cases "get (gr_kept ?w) (gr_hi ?w edge)")
    case None
    then show ?thesis using b(3,4) by (simp add: interp_def interp_window_def)
  next
    case (Some k)
    show ?thesis
    proof (cases "kp_ts k = edge \<or> gr_hi ?w edge = 0")
      case True
      then show ?thesis using Some b(1,3,4) by (auto simp: interp_def interp_window_def split: option.split)
    next
      case False
      then have "0 < gr_hi g edge" "gr_kept g ! (gr_hi g edge - 1) = gr_kept ?w ! (gr_hi ?w edge - 1)"
        using b(3,5) Some by auto
      with False Some b(3,4) show ?thesis by (simp add: interp_def interp_window_def cong: option.case_cong)
    qed
  qed
  then show "interp F g edge = interp F ?w edge" "interp_window F g edge = interp_window F ?w edge" by simp_all
qed

lemma get_None: "get xs i = None \<longleftrightarrow> length xs \<le> i"
  by (simp add: get_def not_less)

lemma get_Some: "get xs i = Some x \<longleftrightarrow> i < length xs \<and> xs ! i = x"
  by (simp add: get_def)

lemma sampled_whole:
  assumes "in_order all" "streams F all d n g" "bracketed all d n edge" "2 \<le> n"
  shows "sampled_window F g edge = sampled_window F (whole_series F all g) edge"
proof -
  note b = bracket [OF assms(1-3)] and w = interp_whole(2) [OF assms(1-3)]
  let ?w = "whole_series F all g"
  have n: "gr_pulled g = n" "n \<le> length all" using assms(2) by (simp_all add: streams_def)
  show ?thesis
  proof (cases "get (gr_kept ?w) (gr_hi ?w edge)")
    case None
    from b(3) have "length (gr_kept g) \<le> gr_hi g edge" "length (gr_kept ?w) \<le> gr_hi ?w edge"
      using None by (simp_all only: get_None [symmetric])
    moreover have "get (gr_kept g) (gr_hi g edge) = None" using None b(3) by simp
    ultimately show ?thesis using n assms(4) None by (simp add: sampled_window_def)
  next
    case (Some k)
    with b(3) have got: "get (gr_kept g) (gr_hi g edge) = Some k" by simp
    then have k: "gr_hi g edge < length (gr_kept g)" "gr_kept g ! gr_hi g edge = k"
        "gr_hi ?w edge < length (gr_kept ?w)" "gr_kept ?w ! gr_hi ?w edge = k"
      using Some by (simp_all only: get_Some)
    show ?thesis
    proof (cases "kp_ts k = edge \<or> gr_hi ?w edge = 0")
      case True
      then show ?thesis using n assms(4) Some got k b(1) w by (auto simp: sampled_window_def)
    next
      case False
      then have "0 < gr_hi g edge" "gr_kept g ! (gr_hi g edge - 1) = gr_kept ?w ! (gr_hi ?w edge - 1)" using b(5) got by auto
      with False n assms(4) Some got k w show ?thesis by (simp add: sampled_window_def)
    qed
  qed
qed

lemma point_whole:
  assumes "in_order all" "streams F all d n g" "bracketed all d n t_eval" "bracketed all d n left" "2 \<le> n"
  shows "rate_point F g t t_eval left = rate_point F (whole_series F all g) t t_eval left"
  unfolding rate_point_def
  by (simp only: interp_whole [OF assms(1-3)] interp_whole [OF assms(1,2,4)] sampled_whole [OF assms(1-3,5)]
      sampled_whole [OF assms(1,2,4,5)] whole_conf)

section \<open>What may be let go\<close>

lemma trim_kept_drop: "\<exists>m. trim_kept left ks = drop m ks \<and> (m = 0 \<or> m < length ks \<and> kp_ts (ks ! m) \<le> left)"
proof (induction left ks rule: trim_kept.induct)
  case (1 left k l ks)
  show ?case
  proof (cases "kp_ts l \<le> left")
    case True
    with 1 obtain m where m: "trim_kept left (l # ks) = drop m (l # ks)" "m = 0 \<or> m < length (l # ks) \<and> kp_ts ((l # ks) ! m) \<le> left"
      by blast
    with True have "trim_kept left (k # l # ks) = drop (Suc m) (k # l # ks)" "Suc m < length (k # l # ks)"
      "kp_ts ((k # l # ks) ! Suc m) \<le> left" by auto
    then show ?thesis by blast
  qed (auto intro: exI [of _ 0])
qed (auto intro: exI [of _ 0])

lemma trim_streams:
  assumes "streams F all d n g"
  shows "\<exists>d'. d \<le> d' \<and> streams F all d' n (trim left g) \<and> (d' = d \<or> cs_ts (all ! d') \<le> left)"
    "whole_series F all (trim left g) = whole_series F all g"
    "gr_cursor_ns (trim left g) = gr_cursor_ns g \<and> gr_done (trim left g) = gr_done g"
proof -
  note s = assms [unfolded streams_def]
  obtain m where m: "trim_kept left (gr_kept g) = drop m (gr_kept g)"
      "m = 0 \<or> m < length (gr_kept g) \<and> kp_ts (gr_kept g ! m) \<le> left"
    using trim_kept_drop by blast
  have len: "length (gr_kept g) = n - d" using s by simp
  have "streams F all (d + m) n (trim left g)"
    using s m len by (auto simp: streams_def trim_def add.commute)
  moreover have "m = 0 \<or> cs_ts (all ! (d + m)) \<le> left"
    using m(2) len s by auto
  ultimately show "\<exists>d'. d \<le> d' \<and> streams F all d' n (trim left g) \<and> (d' = d \<or> cs_ts (all ! d') \<le> left)"
    by (intro exI [of _ "d + m"]) auto
  show "whole_series F all (trim left g) = whole_series F all g"
    "gr_cursor_ns (trim left g) = gr_cursor_ns g \<and> gr_done (trim left g) = gr_done g"
    by (simp_all add: whole_series_def trim_def)
qed

text \<open>What was let go is at or before every later window's start, or too far before it to be reached.\<close>

definition let_go :: "counter_sample list \<Rightarrow> nat \<Rightarrow> 'f grid_rate \<Rightarrow> u64 \<Rightarrow> bool" where
  "let_go all d g from \<longleftrightarrow> d = 0 \<or> cs_ts (all ! d) \<le> from \<or>
     gr_range g \<and> cs_ts (all ! (d - 1)) \<le> from \<and> gr_reach_ns g < from - cs_ts (all ! (d - 1))"

lemma let_go_later:
  assumes "let_go all d g from" "from \<le> from'"
  shows "let_go all d g from'"
proof -
  have "gr_reach_ns g < from' - a" if "a \<le> from" "gr_reach_ns g < from - a" for a
  proof -
    have "from - a \<le> from' - a" using that(1) assms(2) order_trans [OF that(1) assms(2)]
      by (simp add: word_le_nat_alt unat_sub diff_le_mono)
    with that(2) show ?thesis by (rule order_less_le_trans)
  qed
  with assms show ?thesis unfolding let_go_def by (meson order_trans)
qed


lemma range_start_whole:
  assumes "in_order all" "streams F all d n g" "let_go all d g from" "from \<le> at" "0 < n" "at \<le> cs_ts (all ! (n - 1))" "gr_range g"
  defines "i \<equiv> partition_point (\<lambda>t. t \<le> from) (map cs_ts all)"
  shows "window_start g from at = window_start (whole_series F all g) from at"
    "window_start g from at =
       (if d < i \<and> from - cs_ts (all ! (i - 1)) \<le> gr_reach_ns g then Some from
        else if i < n \<and> cs_ts (all ! i) < at then Some (cs_ts (all ! i)) else None)"
    "d \<le> i" "j < i \<Longrightarrow> cs_ts (all ! j) \<le> from" "i \<le> n"
proof -
  note s = assms(2) [unfolded streams_def]
  let ?xs = "map cs_ts all" and ?P = "\<lambda>t. t \<le> from"
  have dn: "d \<le> n" "n \<le> length ?xs" "d = 0 \<or> d < n" using s by auto
  have low: "\<forall>x \<in> set (take d ?xs). ?P x"
  proof
    fix x assume "x \<in> set (take d ?xs)"
    then obtain j where j: "j < d" "x = cs_ts (all ! j)" "j < length all" by (auto simp: in_set_conv_nth)
    then have "x \<le> cs_ts (all ! d)" "x \<le> cs_ts (all ! (d - 1))"
      using dn in_order_le [OF assms(1), of j d] in_order_le [OF assms(1), of j "d - 1"] by auto
    with assms(3) j(1) show "?P x" by (auto simp: let_go_def)
  qed
  have above: "at < ?xs ! n" if "n < length ?xs"
    using that assms(5,6) in_order_nth [OF assms(1), of "n - 1" n] by auto
  have high: "\<not> ?P (?xs ! n)" if "n < length ?xs" using above [OF that] assms(4) by auto
  note part = partition_window [OF dn(2) low high dn(1), folded i_def]
  show di: "d \<le> i" by (rule part(2))
  show "i \<le> n" by (rule part(3))
  have ilen: "i \<le> length all" using partition_nth(3) [of ?P ?xs] by (simp add: i_def)
  show below: "cs_ts (all ! j) \<le> from" if "j < i" for j
    using that ilen partition_nth(1) [of j ?P ?xs] by (simp add: i_def)
  have kept: "map kp_ts (gr_kept g) = drop d (take n ?xs)" using s by (simp only: drop_map [symmetric] take_map [symmetric] series_ts)
  have near: "d < i \<or> (0 < i \<longrightarrow> \<not> from - cs_ts (all ! (i - 1)) \<le> gr_reach_ns g)"
  proof (cases "d < i")
    case False
    with di have i: "i = d" by simp
    have "\<not> cs_ts (all ! d) \<le> from" if "0 < d"
      using partition_nth(2) [of ?P ?xs] that i dn by (auto simp: i_def)
    with assms(3) i show ?thesis by (auto simp: let_go_def)
  qed simp
  have got: "get (drop d (take n ?xs)) (i - d) = (if i < n then Some (cs_ts (all ! i)) else None)"
    using di dn by (auto simp: get_def)
  have whole: "(case get ?xs i of Some s \<Rightarrow> if s < at then Some s else None | None \<Rightarrow> None) =
      (if i < n \<and> cs_ts (all ! i) < at then Some (cs_ts (all ! i)) else None)"
  proof (cases "i < n")
    case False
    then have "i = n" using \<open>i \<le> n\<close> by simp
    moreover have "n < length all \<Longrightarrow> \<not> cs_ts (all ! n) < at" using above by auto
    ultimately show ?thesis by (auto simp: get_def)
  qed (use dn in \<open>auto simp: get_def\<close>)
  have prev: "d < i \<Longrightarrow> drop d (take n ?xs) ! (i - d - 1) = cs_ts (all ! (i - 1))"
    using \<open>i \<le> n\<close> dn by auto
  show start: "window_start g from at =
       (if d < i \<and> from - cs_ts (all ! (i - 1)) \<le> gr_reach_ns g then Some from
        else if i < n \<and> cs_ts (all ! i) < at then Some (cs_ts (all ! i)) else None)"
  proof -
    define ts where "ts = map kp_ts (gr_kept g)"
    have "partition_point ?P ts = i - d" "get ts (i - d) = (if i < n then Some (cs_ts (all ! i)) else None)"
      "d < i \<Longrightarrow> ts ! (i - d - 1) = cs_ts (all ! (i - 1))"
      using part(1) got prev by (simp_all only: ts_def kept)
    then show ?thesis using assms(7) by (auto simp: window_start_def range_start_def Let_def ts_def [symmetric])
  qed
  have "window_start (whole_series F all g) from at =
       (if 0 < i \<and> from - cs_ts (all ! (i - 1)) \<le> gr_reach_ns g then Some from
        else if i < n \<and> cs_ts (all ! i) < at then Some (cs_ts (all ! i)) else None)"
    using assms(7) ilen whole
    by (cases "i = 0") (simp_all add: window_start_def range_start_def i_def [symmetric] whole)
  with start near show "window_start g from at = window_start (whole_series F all g) from at" by auto
qed

lemma start_whole:
  assumes "in_order all" "streams F all d n g" "let_go all d g from" "from \<le> at" "0 < n" "at \<le> cs_ts (all ! (n - 1))"
  shows "window_start g from at = window_start (whole_series F all g) from at"
    "window_start g from at = Some from' \<Longrightarrow> bracketed all d n from' \<and> bracketed all d n at \<and> from \<le> from' \<and> from' \<le> at"
    "window_start g from at = Some from' \<Longrightarrow> d' = d \<or> d < d' \<and> d' < n \<and> cs_ts (all ! d') \<le> from' \<Longrightarrow> let_go all d' g from"
proof -
  note s = assms(2) [unfolded streams_def]
  let ?i = "partition_point (\<lambda>t. t \<le> from) (map cs_ts all)"
  note r = range_start_whole [OF assms]
  show "window_start g from at = window_start (whole_series F all g) from at"
  proof (cases "gr_range g")
    case False
    then show ?thesis by (simp add: window_start_def)
  qed (rule r(1))
  have edge: "bracketed all d n e" if "d = 0 \<or> cs_ts (all ! d) \<le> e" "e \<le> at" for e
    using that assms(5,6) by (auto simp: bracketed_def)
  have i: "\<not> cs_ts (all ! ?i) \<le> from" if "?i < length all"
    using partition_nth(2) [of "\<lambda>t. t \<le> from" "map cs_ts all"] that by simp
  {
    assume w: "window_start g from at = Some from'"
    consider "from' = from" "\<not> gr_range g" | "from' = from" "gr_range g" "d < ?i"
      | "gr_range g" "?i < n" "from' = cs_ts (all ! ?i)" "from' < at" "d < ?i \<longrightarrow> \<not> from - cs_ts (all ! (?i - 1)) \<le> gr_reach_ns g"
      using w r(2) by (cases "gr_range g") (auto simp: window_start_def split: if_splits)
    note cases = this
    from cases show "bracketed all d n from' \<and> bracketed all d n at \<and> from \<le> from' \<and> from' \<le> at"
    proof cases
      case 1
      then have "d = 0 \<or> cs_ts (all ! d) \<le> from" using assms(3) by (simp add: let_go_def)
      with 1 edge assms(4) show ?thesis by (meson order_refl order_trans)
    next
      case 2
      then have "cs_ts (all ! d) \<le> from" using r(4) by blast
      with 2 edge assms(4) show ?thesis by (meson order_refl order_trans)
    next
      case 3
      have "cs_ts (all ! d) \<le> from'" using 3 in_order_le [OF assms(1), of d ?i] r(3) s by simp
      moreover have "from \<le> from'" using i 3 s by auto
      ultimately show ?thesis using 3(4) edge by (meson order_refl order_trans order_less_imp_le)
    qed
    assume d': "d' = d \<or> d < d' \<and> d' < n \<and> cs_ts (all ! d') \<le> from'"
    from cases show "let_go all d' g from"
    proof cases
      case 3
      show ?thesis
      proof (cases "d' = d")
        case False
        then have "d < d'" "d' < n" "cs_ts (all ! d') \<le> cs_ts (all ! ?i)" using d' 3(3) by auto
        then have "d' \<le> ?i" using in_order_nth [OF assms(1), of ?i d'] s by (meson leD not_le_imp_less order_less_le_trans)
        then show ?thesis
        proof (cases "d' = ?i")
          case True
          then have "cs_ts (all ! (d' - 1)) \<le> from" using r(4) [OF 3(1), of "d' - 1"] \<open>d < d'\<close> by simp
          with True 3 \<open>d < d'\<close> show ?thesis by (simp add: let_go_def not_le)
        next
          case False
          then have "cs_ts (all ! d') \<le> from" using r(4) [OF 3(1), of d'] \<open>d' \<le> ?i\<close> by simp
          then show ?thesis by (simp add: let_go_def)
        qed
      qed (use assms(3) in simp)
    qed (use d' assms(3) in \<open>auto simp: let_go_def\<close>)
  }
qed


section \<open>One turn\<close>

text \<open>The reference: what the whole series gives for a window.\<close>

definition rate_over :: "'f f64 \<Rightarrow> 'f grid_rate \<Rightarrow> u64 \<Rightarrow> u64 \<Rightarrow> 'f point option" where
  "rate_over F w t left = (case held_end w t left of
       None \<Rightarrow> None
     | Some (at, from) \<Rightarrow> (case window_start w from at of None \<Rightarrow> None | Some from' \<Rightarrow> rate_point F w t at from'))"

lemma whole_same:
  assumes "whole_series F all g' = whole_series F all g"
  shows "gr_windowed g' = gr_windowed g" "gr_typical g' = gr_typical g" "gr_samples g' = gr_samples g"
    "gr_points g' = gr_points g" "gr_end_ns g' = gr_end_ns g" "gr_step_ns g' = gr_step_ns g" "gr_span_ns g' = gr_span_ns g"
    "gr_range g' = gr_range g" "gr_reach_ns g' = gr_reach_ns g"
  using assms by (metis whole_conf)+

lemma last_kept:
  assumes "streams F all d n g" "gr_kept g \<noteq> []"
  shows "kp_ts (List.last (gr_kept g)) = cs_ts (all ! (n - 1))"
proof -
  note s = assms(1) [unfolded streams_def]
  then have "length (gr_kept g) = n - d" by simp
  with assms(2) s have n: "0 < n" "n - 1 < length all" "d + (n - d - 1) = n - 1" by (cases n; fastforce)+
  have "List.last (gr_kept g) = series_of F all ! (n - 1)"
    using assms(2) s n by (simp add: last_conv_nth)
  with n(2) show ?thesis by simp
qed

lemma held_end_whole:
  assumes "in_order all" "streams F all d n g" "2 \<le> n" "left \<le> t"
    and "gr_kept g = [] \<or> kp_ts (List.last (gr_kept g)) < t \<longrightarrow> n = length all \<and> gr_exhausted g"
  shows "held_end g t left = held_end (whole_series F all g) t left"
    "held_end g t left = Some (at, from) \<Longrightarrow> from \<le> at \<and> at \<le> cs_ts (all ! (n - 1))"
proof -
  note s = assms(2) [unfolded streams_def]
  let ?w = "whole_series F all g"
  have lasts: "gr_last_ts g = Some (cs_ts (all ! (n - 1)))" "gr_last_ts ?w = Some (cs_ts (all ! (length all - 1)))"
    using s assms(3) by (auto simp: whole_series_def get_def)
  have sat: "saturating_sub a b \<le> a" for a b by (simp add: word_le_nat_alt unat_saturating_sub)
  have both: "held_end g t left = held_end ?w t left \<and>
      (held_end g t left = Some (at, from) \<longrightarrow> from \<le> at \<and> at \<le> cs_ts (all ! (n - 1)))"
  proof (cases "gr_exhausted g")
    case True
    then have "n = length all" using s by simp
    with True lasts s assms(3,4) show ?thesis
      by (simp add: held_end_def whole_series_def) (auto simp: sat)
  next
    case False
    then have "\<not> (gr_kept g = [] \<or> kp_ts (List.last (gr_kept g)) < t)" using assms(5) by blast
    then have "gr_kept g \<noteq> []" "t \<le> kp_ts (List.last (gr_kept g))" by auto
    then have t: "t \<le> cs_ts (all ! (n - 1))" using last_kept [OF assms(2)] by simp
    also have "\<dots> \<le> cs_ts (all ! (length all - 1))" using s assms(1,3) by (intro in_order_le) auto
    finally have "\<not> cs_ts (all ! (length all - 1)) < t" by simp
    with False t lasts assms(4) show ?thesis by (auto simp: held_end_def)
  qed
  then show "held_end g t left = held_end ?w t left"
    "held_end g t left = Some (at, from) \<Longrightarrow> from \<le> at \<and> at \<le> cs_ts (all ! (n - 1))" by simp_all
qed

lemma evaluate_whole:
  assumes "in_order all" "streams F all d n g" "2 \<le> n" "gr_samples g = None" "gr_points g = None" "left \<le> t"
    and "\<forall>at from. held_end (whole_series F all g) t left = Some (at, from) \<longrightarrow> let_go all d g from"
    and "evaluate F t left g = (r, g')"
  shows "\<exists>d' n'. n \<le> n' \<and> streams F all d' n' g' \<and> whole_series F all g' = whole_series F all g \<and>
    gr_cursor_ns g' = gr_cursor_ns g \<and> gr_done g' = gr_done g \<and>
    (case held_end (whole_series F all g) t left of
       None \<Rightarrow> r = Return None
     | Some (at, from) \<Rightarrow> let_go all d' g' from \<and>
         r = (case rate_over F (whole_series F all g) t left of None \<Rightarrow> Continue | Some p \<Rightarrow> Return (Some p)))"
proof -
  let ?w = "whole_series F all g"
  define g1 where "g1 = reach F t g"
  obtain m where m: "n \<le> m" "streams F all d m g1" "whole_series F all g1 = ?w" "gr_cursor_ns g1 = gr_cursor_ns g"
      "gr_done g1 = gr_done g" "gr_kept g1 = [] \<or> kp_ts (List.last (gr_kept g1)) < t \<longrightarrow> m = length all \<and> gr_exhausted g1"
    using pull_while_streams [OF assms(2)] unfolding g1_def reach_def by blast
  note same = whole_same [OF m(3)]
  have m2: "2 \<le> m" using m(1) assms(3) by simp
  note held = held_end_whole [OF assms(1) m(2) m2 assms(6) m(6), unfolded m(3)]
  have none: "no_value F g t = Continue" if "gr_samples g = None" for g :: "'a grid_rate"
    using that by (simp add: no_value_def)
  show ?thesis
  proof (cases "held_end ?w t left")
    case None
    then have "r = Return None" "g' = g1"
      using assms(8) held(1) same assms(5) by (simp_all add: evaluate_def g1_def [symmetric])
    with None m show ?thesis by (intro exI [of _ d] exI [of _ m]) simp
  next
    case (Some x)
    obtain at "from" where x: "x = (at, from)" by fastforce
    then have g1: "held_end g1 t left = Some (at, from)" using Some held(1) by simp
    have edges: "from \<le> at" "at \<le> cs_ts (all ! (m - 1))" using held(2) [OF g1] by simp_all
    have go: "let_go all d g1 from" using assms(7) Some x same by (simp add: let_go_def)
    note start = start_whole [OF assms(1) m(2) go edges(1) _ edges(2), unfolded m(3)]
    have m0: "0 < m" using m2 by simp
    show ?thesis
    proof (cases "window_start g1 from at")
      case None
      then have "r = Continue" "g' = g1"
        using assms(8) g1 same assms(4) none by (simp_all add: evaluate_def g1_def [symmetric])
      moreover have "rate_over F ?w t left = None" using None start(1) [OF m0] Some x by (simp add: rate_over_def)
      ultimately show ?thesis using Some x m go by (intro exI [of _ d] exI [of _ m]) simp
    next
      case (Some from')
      obtain d' where d': "d \<le> d'" "streams F all d' m (trim from' g1)" "d' = d \<or> cs_ts (all ! d') \<le> from'"
        using trim_streams(1) [OF m(2)] by blast
      note tr = trim_streams(2,3) [OF m(2), of from']
      have br: "bracketed all d m from'" "bracketed all d m at" "from' \<le> at" using start(2) [OF m0 Some] by simp_all
      have "bracketed all d' m from'" "bracketed all d' m at"
        using br d'(1,3) by (auto simp: bracketed_def)
      then have point: "rate_point F (trim from' g1) t at from' = rate_point F ?w t at from'"
        using point_whole [OF assms(1) d'(2) _ _ m2] tr(1) m(3) by simp
      have "d' = 0 \<or> d' < m" using d'(2) by (simp add: streams_def)
      then have "d' = d \<or> d < d' \<and> d' < m \<and> cs_ts (all ! d') \<le> from'" using d'(1,3) by auto
      from start(3) [OF m0 Some this] have go': "let_go all d' g1 from" .
      have over: "rate_over F ?w t left = rate_point F ?w t at from'"
        using Some start(1) [OF m0] \<open>held_end ?w t left = Some x\<close> x by (simp add: rate_over_def)
      have samples: "gr_samples (trim from' g1) = None" using same assms(4) by (simp add: trim_def)
      have res: "r = (case rate_over F ?w t left of None \<Rightarrow> Continue | Some p \<Rightarrow> Return (Some p))" "g' = trim from' g1"
        using assms(8) g1 Some point over none [of "trim from' g1"] samples
        by (auto simp: evaluate_def Let_def g1_def [symmetric] split: option.splits)
      have "let_go all d' g' from" using go' by (simp add: let_go_def res(2) trim_def)
      with res d'(2) tr m \<open>held_end ?w t left = Some x\<close> x show ?thesis
        by (intro exI [of _ d'] exI [of _ m]) simp
    qed
  qed
qed


section \<open>The grid\<close>

definition ticks :: "u64 \<Rightarrow> u64 \<Rightarrow> u64 \<Rightarrow> u64 list" where
  "ticks start_ns end_ns step_ns =
     (if end_ns < start_ns then []
      else map (\<lambda>k. of_nat (unat start_ns + k * unat step_ns)) [0..<Suc ((unat end_ns - unat start_ns) div unat step_ns)])"

text \<open>The left edge of a tick's window, when there is one.\<close>

definition left_of :: "'f grid_rate \<Rightarrow> u64 \<Rightarrow> u64 option" where
  "left_of w t = (case checked_sub t (gr_span_ns w) of
       Some left \<Rightarrow> Some left | None \<Rightarrow> if gr_range w then Some 0 else None)"

definition value_at :: "'f f64 \<Rightarrow> 'f grid_rate \<Rightarrow> u64 \<Rightarrow> 'f point option" where
  "value_at F w t = (case left_of w t of None \<Rightarrow> None | Some left \<Rightarrow> rate_over F w t left)"

lemma ticks_step:
  assumes "step_ns \<noteq> 0"
  shows "ticks c e step_ns = (if e < c then [] else c # (case checked_add c step_ns of None \<Rightarrow> [] | Some c' \<Rightarrow> ticks c' e step_ns))"
proof (cases "e < c")
  case False
  then have ce: "unat c \<le> unat e" by (metis not_less word_le_nat_alt)
  have s: "0 < unat step_ns" using assms by (simp add: unat_gt_0)
  have upt: "[0..<Suc (Suc m)] = 0 # map Suc [0..<Suc m]" for m by (metis map_Suc_upt upt_conv_Cons zero_less_Suc)
  show ?thesis
  proof (cases "\<exists>c'. checked_add c step_ns = Some c' \<and> c' \<le> e")
    case True
    then obtain c' where c': "checked_add c step_ns = Some c'" "c' \<le> e" by blast
    have u: "unat c' = unat c + unat step_ns" using checked_add_Some [OF c'(1)] .
    then have "unat e - unat c = (unat e - unat c') + unat step_ns" using c'(2) by (simp add: word_le_nat_alt)
    then have "(unat e - unat c) div unat step_ns = Suc ((unat e - unat c') div unat step_ns)" using s by simp
    moreover have "map (\<lambda>k. of_nat (unat c + k * unat step_ns) :: u64) (0 # map Suc ks) =
        c # map (\<lambda>k. of_nat (unat c' + k * unat step_ns)) ks" for ks
      by (simp add: u algebra_simps)
    ultimately show ?thesis using False c' unfolding ticks_def by (simp only: upt if_False if_True not_less option.case)
        (simp add: not_less)
  next
    case no: False
    have "unat e - unat c < unat step_ns"
    proof (cases "checked_add c step_ns")
      case None
      then have "2 ^ 64 \<le> unat c + unat step_ns" by (simp add: checked_add_def split: if_splits)
      then show ?thesis using unat_less_2_64 [of e] ce by linarith
    next
      case (Some c')
      with no have "unat e < unat c'" by (metis not_le_imp_less word_less_nat_alt)
      with checked_add_Some [OF Some] s show ?thesis by simp
    qed
    then have "ticks c e step_ns = [c]" using False by (simp add: ticks_def)
    with False no show ?thesis by (auto simp: ticks_def split: option.split)
  qed
qed (simp add: ticks_def)

text \<open>Where the window of a tick starts, before it is moved to a sample.\<close>

definition window_from :: "counter_sample list \<Rightarrow> u64 \<Rightarrow> u64 \<Rightarrow> u64" where
  "window_from all span t = saturating_sub (min t (cs_ts (all ! (length all - 1)))) span"

lemma window_from_mono: "t \<le> t' \<Longrightarrow> window_from all span t \<le> window_from all span t'"
proof -
  assume "t \<le> t'"
  then have "min t l \<le> min t' l" for l :: u64 by (simp add: min.coboundedI1)
  then show ?thesis by (simp add: window_from_def word_le_nat_alt unat_saturating_sub diff_le_mono)
qed

lemma held_from:
  assumes "left_of w t = Some left" "held_end w t left = Some (at, from)" "w = whole_series F all g" "all \<noteq> []"
  shows "from = window_from all (gr_span_ns w) t"
proof -
  let ?l = "cs_ts (all ! (length all - 1))"
  have l: "gr_last_ts w = Some ?l" using assms(3,4) by (simp add: whole_series_def get_def)
  have left: "left = saturating_sub t (gr_span_ns w)"
    using assms(1) by (auto simp: left_of_def checked_sub_def saturating_sub_def split: if_splits)
  show ?thesis
  proof (cases "?l < t")
    case False
    then show ?thesis using assms(2) l left by (auto simp: held_end_def window_from_def)
  next
    case True
    then have "from = saturating_sub ?l (t - left)"
      using assms(2,3) l by (auto simp: held_end_def split: if_splits)
    moreover have "unat (t - left) = unat t - unat left"
      using left by (intro unat_sub) (simp add: word_le_nat_alt unat_saturating_sub)
    ultimately have "unat from = unat (window_from all (gr_span_ns w) t)"
      using True left by (simp add: window_from_def unat_saturating_sub word_less_nat_alt)
    then show ?thesis by (rule unsigned_word_eqI)
  qed
qed


lemma ticks_after:
  assumes "t \<in> set (ticks c e step_ns)"
  shows "c \<le> t"
proof -
  from assms have "\<not> e < c \<and> t \<in> (\<lambda>k. of_nat (unat c + k * unat step_ns)) ` {0..<Suc ((unat e - unat c) div unat step_ns)}"
    by (simp add: ticks_def del: upt_Suc of_nat_add of_nat_mult split: if_splits)
  then obtain k where k: "\<not> e < c" "k \<le> (unat e - unat c) div unat step_ns" "t = of_nat (unat c + k * unat step_ns)"
    by (elim conjE imageE) (auto simp only: atLeastLessThan_iff less_Suc_eq_le)
  have "k * unat step_ns \<le> unat e - unat c"
    using k(2) by (meson div_times_less_eq_dividend mult_le_mono1 order_trans)
  moreover have "unat c \<le> unat e" using k(1) by (metis not_less word_le_nat_alt)
  ultimately have "unat c + k * unat step_ns < 2 ^ 64" using unat_less_2_64 [of e] by linarith
  then have "unat t = unat c + k * unat step_ns" unfolding k(3) by (rule unat_of_nat_u64)
  then show ?thesis by (simp add: word_le_nat_alt)
qed

lemma held_none_later:
  assumes "held_end w t left = None" "t \<le> t'"
  shows "held_end w t' left' = None"
  using assms by (auto simp: held_end_def split: option.splits if_splits dest: order_less_le_trans)

lemma nothing_later:
  assumes "held_end w c left = None"
  shows "List.map_filter (value_at F w) (ticks c e step_ns) = []"
proof -
  have "value_at F w t = None" if "t \<in> set (ticks c e step_ns)" for t
    using held_none_later [OF assms ticks_after [OF that]] by (simp add: value_at_def rate_over_def split: option.split)
  then show ?thesis by (simp add: List.map_filter_def filter_empty_conv)
qed

lemma map_filter_ticks:
  assumes "gr_step_ns g \<noteq> 0" "\<not> gr_end_ns g < gr_cursor_ns g"
    and "g' = (case checked_add (gr_cursor_ns g) (gr_step_ns g) of
       Some next \<Rightarrow> g\<lparr>gr_cursor_ns := next\<rparr> | None \<Rightarrow> g\<lparr>gr_done := True\<rparr>)" "\<not> gr_done g"
  shows "List.map_filter f (ticks (gr_cursor_ns g) (gr_end_ns g) (gr_step_ns g)) =
    (case f (gr_cursor_ns g) of None \<Rightarrow> [] | Some p \<Rightarrow> [p]) @
    (if gr_done g' then [] else List.map_filter f (ticks (gr_cursor_ns g') (gr_end_ns g) (gr_step_ns g)))"
  using assms by (subst ticks_step) (auto simp: map_filter_simps split: option.split)

lemma grid_run:
  assumes "in_order all" "streams F all d n g" "2 \<le> n" "gr_samples g = None" "gr_points g = None" "gr_step_ns g \<noteq> 0"
    and "let_go all d g (window_from all (gr_span_ns g) (gr_cursor_ns g))"
  shows "grid_points F g = Some (if gr_done g then []
     else List.map_filter (value_at F (whole_series F all g)) (ticks (gr_cursor_ns g) (gr_end_ns g) (gr_step_ns g)))"
  using assms
proof (induction "turns_left g" arbitrary: g d n rule: less_induct)
  case less
  let ?w = "whole_series F all g" and ?t = "gr_cursor_ns g"
  show ?case
  proof (cases "gr_done g \<or> gr_end_ns g < ?t")
    case True
    then show ?thesis
      using less.prems(4,5) by (auto simp: grid_points_turn [of F g] grid_turn_def place_next_def ticks_def map_filter_simps)
  next
    case False
    define g0 where "g0 = (case checked_add ?t (gr_step_ns g) of
       Some next \<Rightarrow> g\<lparr>gr_cursor_ns := next\<rparr> | None \<Rightarrow> g\<lparr>gr_done := True\<rparr>)"
    have later: "gr_done g0 \<or> ?t \<le> gr_cursor_ns g0"
      using checked_add_Some by (auto simp: g0_def word_le_nat_alt split: option.splits)
    have same0: "whole_series F all g0 = ?w" "streams F all d n g0" "gr_end_ns g0 = gr_end_ns g"
      using less.prems(2) by (auto simp: g0_def whole_series_def streams_def split: option.split)
    note conf0 = whole_same [OF same0(1)]
    note split = map_filter_ticks [OF less.prems(6) _ g0_def, of "value_at F ?w"]
    have place: "place_next F g = (case left_of ?w ?t of Some left \<Rightarrow> (At ?t left, g0) | None \<Rightarrow> (Skip, g0))"
      using False less.prems(4,5) conf0
      by (simp add: place_next_def left_of_def g0_def Let_def split: option.split)
    have run: "grid_points F g' = Some (if gr_done g0 then [] else List.map_filter (value_at F ?w)
        (ticks (gr_cursor_ns g0) (gr_end_ns g) (gr_step_ns g)))"
      if "turns_left g' < turns_left g" "streams F all d' m g'" "2 \<le> m" "whole_series F all g' = ?w"
        "gr_cursor_ns g' = gr_cursor_ns g0" "gr_done g' = gr_done g0" "let_go all d' g' (window_from all (gr_span_ns g) ?t)"
      for g' d' m
    proof (cases "gr_done g0")
      case True
      then show ?thesis using that(6) by (simp add: grid_points_turn [of F g'])
    next
      case d0: False
      note conf = whole_same [OF that(4)]
      have "let_go all d' g' (window_from all (gr_span_ns g') (gr_cursor_ns g'))"
        using later d0 that(5,7) conf by (auto intro: let_go_later window_from_mono)
      then show ?thesis
        using less.hyps [OF that(1) less.prems(1) that(2,3)] less.prems(4-6) conf that(4,5,6) d0 by simp
    qed
    have fewer: "turns_left g' < turns_left g" if "grid_turn F g = (r, g')" "r \<noteq> Return None" for r g'
      using turn_takes [of g F r g'] that False less.prems(6) by (simp add: moves_def)
    show ?thesis
    proof (cases "left_of ?w ?t")
      case None
      then have turn: "grid_turn F g = (Continue, g0)" using place by (simp add: grid_turn_def)
      have "let_go all d g0 (window_from all (gr_span_ns g) ?t)"
        using less.prems(7) conf0 by (simp add: let_go_def)
      then have "grid_points F g0 = Some (if gr_done g0 then [] else List.map_filter (value_at F ?w)
          (ticks (gr_cursor_ns g0) (gr_end_ns g) (gr_step_ns g)))"
        using run [OF fewer [OF turn] same0(2) less.prems(3) same0(1)] by simp
      moreover have "value_at F ?w ?t = None" using None by (simp add: value_at_def)
      ultimately show ?thesis using False turn split by (simp add: grid_points_turn [of F g])
    next
      case (Some left)
      obtain r g' where ev: "evaluate F ?t left g0 = (r, g')" by fastforce
      then have turn: "grid_turn F g = (r, g')" using place Some by (simp add: grid_turn_def)
      have "left \<le> ?t" using Some by (auto simp: left_of_def checked_sub_def word_le_nat_alt unat_sub split: if_splits)
      have ne: "all \<noteq> []" using less.prems(2,3) by (auto simp: streams_def)
      have start: "from = window_from all (gr_span_ns g) ?t" if "held_end ?w ?t left = Some (at, from)" for at "from"
        using held_from [OF Some that refl ne] by simp
      have go0: "\<forall>at from. held_end (whole_series F all g0) ?t left = Some (at, from) \<longrightarrow> let_go all d g0 from"
        using start less.prems(7) conf0 same0(1) by (auto simp: let_go_def)
      have "gr_samples g0 = None" "gr_points g0 = None" using conf0 less.prems(4,5) by simp_all
      note ev' = evaluate_whole [OF less.prems(1) same0(2) less.prems(3) this \<open>left \<le> ?t\<close> go0 ev, unfolded same0(1)]
      then obtain d' m where m: "n \<le> m" "streams F all d' m g'" "whole_series F all g' = ?w" "gr_cursor_ns g' = gr_cursor_ns g0"
          "gr_done g' = gr_done g0"
          "case held_end ?w ?t left of None \<Rightarrow> r = Return None
             | Some (at, from) \<Rightarrow> let_go all d' g' from \<and>
                 r = (case rate_over F ?w ?t left of None \<Rightarrow> Continue | Some p \<Rightarrow> Return (Some p))"
        by blast
      have at_t: "value_at F ?w ?t = rate_over F ?w ?t left" using Some by (simp add: value_at_def)
      show ?thesis
      proof (cases "held_end ?w ?t left")
        case None
        with m(6) turn False show ?thesis by (simp add: grid_points_turn [of F g] nothing_later [OF None])
      next
        case held: (Some x)
        obtain at "from" where x: "x = (at, from)" by fastforce
        have r: "r = (case rate_over F ?w ?t left of None \<Rightarrow> Continue | Some p \<Rightarrow> Return (Some p))"
          and go: "let_go all d' g' (window_from all (gr_span_ns g) ?t)"
          using m(6) held x start by auto
        have "r \<noteq> Return None" using r by (auto split: option.splits)
        from run [OF fewer [OF turn this] m(2) _ m(3,4,5) go] m(1) less.prems(3)
        have rest: "grid_points F g' = Some (if gr_done g0 then [] else List.map_filter (value_at F ?w)
            (ticks (gr_cursor_ns g0) (gr_end_ns g) (gr_step_ns g)))" by simp
        show ?thesis
          using False split turn at_t r rest
          by (cases "rate_over F ?w ?t left") (simp_all add: grid_points_turn [of F g])
      qed
    qed
  qed
qed

lemma unread_streams: "streams F all 0 0 (unread F all windowed start_ns end_ns step_ns span_ns)"
  by (simp add: streams_def unread_def)

text \<open>
  C11. Streaming a rate loses nothing. Over samples whose times increase, the producer on the grid, with a range or without,
  gives at each tick what the whole series in hand gives there: no sample it has let go, and none it has not pulled,
  would have changed a value, its band or its flag, and no tick is left out.
\<close>

theorem streamed_rate_is_the_rate_of_the_series:
  assumes "in_order all" "step_ns \<noteq> 0"
    and "g = from_stream F all windowed start_ns end_ns step_ns span_ns \<or>
         g = over_range reach_ns (from_stream F all windowed start_ns end_ns step_ns span_ns)"
  shows "grid_points F g = Some (if length all < 2 then []
     else List.map_filter (value_at F (whole_series F all g)) (ticks start_ns end_ns step_ns))"
proof -
  let ?g0 = "unread F all windowed start_ns end_ns step_ns span_ns"
  define g1 where "g1 = pull_while F (\<lambda>g. gr_pulled g < SPACING_PROBE) ?g0"
  note pulled = pull_while_streams [OF unread_streams [of F all windowed start_ns end_ns step_ns span_ns],
      of "\<lambda>g. gr_pulled g < SPACING_PROBE", folded g1_def]
  from pulled obtain n where n: "streams F all 0 n g1" "gr_pulled g1 < SPACING_PROBE \<longrightarrow> n = length all"
      "whole_series F all g1 = whole_series F all ?g0" "gr_cursor_ns g1 = gr_cursor_ns ?g0" "gr_done g1 = gr_done ?g0"
    by blast
  note conf = whole_same [OF n(3)]
  have n': "gr_pulled g1 = n" "n \<le> length all" using n(1) by (simp_all add: streams_def)
  then have few: "n < 2 \<longleftrightarrow> length all < 2" using n(2) by (auto simp: SPACING_PROBE_def)
  define g2 where "g2 = from_stream F all windowed start_ns end_ns step_ns span_ns"
  have stream: "g2 = g1\<lparr>gr_done := gr_done g1 \<or> gr_pulled g1 < 2, gr_typical := median_spacing (gr_spacings g1)\<rparr>"
    by (simp add: g2_def from_stream_def g1_def Let_def)
  have g2: "streams F all 0 n g2" "gr_samples g2 = None" "gr_points g2 = None" "gr_step_ns g2 = step_ns" "gr_end_ns g2 = end_ns"
    "gr_cursor_ns g2 = start_ns" "gr_done g2 \<longleftrightarrow> length all < 2"
    using n(1) few n' assms(2) conf n(4,5) by (simp_all add: stream unread_def streams_def)
  have "streams F all 0 n (over_range reach_ns g2)" using g2(1) by (simp add: streams_def over_range_def)
  then have g: "streams F all 0 n g" "gr_samples g = None" "gr_points g = None" "gr_step_ns g = step_ns" "gr_end_ns g = end_ns"
    "gr_cursor_ns g = start_ns" "gr_done g \<longleftrightarrow> length all < 2"
    using assms(3) [folded g2_def] g2 by (auto simp: over_range_def)
  show ?thesis
  proof (cases "length all < 2")
    case True
    then show ?thesis using g(7) by (simp add: grid_points_turn [of F g])
  next
    case False
    then show ?thesis
      using grid_run [OF assms(1) g(1)] few g assms(2) by (simp add: let_go_def)
  qed
qed

end
