(* ===== verification/Gauges.thy ===== *)
theory Gauges
  imports RateStream
begin

text \<open>
  Gauges read at instants (\<open>metriken-query/src/promql/streaming/gauge.rs\<close>): where the points of a producer are
  placed, and the value of each of the four producers at one. A producer's two vectors are as long as each other.
\<close>

section \<open>Placement\<close>

record placement =
  pl_raw :: bool
  pl_start_ns :: u64
  pl_cursor_ns :: u64
  pl_step_ns :: u64
  pl_raw_idx :: nat
  pl_points :: "(u64 list \<times> nat) option"

definition placement_new :: "bool \<Rightarrow> u64 \<Rightarrow> u64 \<Rightarrow> placement" where
  "placement_new raw start_ns step_ns = \<lparr>pl_raw = raw, pl_start_ns = start_ns, pl_cursor_ns = start_ns,
     pl_step_ns = step_ns, pl_raw_idx = 0, pl_points = None\<rparr>"

definition placement_at_points :: "u64 list \<Rightarrow> placement \<Rightarrow> placement" where
  "placement_at_points points p = p\<lparr>pl_points := Some (points, 0)\<rparr>"

text \<open>The loop over the points, from index \<open>i\<close>: the first at or after the start, and the index after it.\<close>

function seek_point :: "u64 list \<Rightarrow> u64 \<Rightarrow> nat \<Rightarrow> u64 option \<times> nat" where
  "seek_point points start_ns i =
     (case get points i of
        None \<Rightarrow> (None, i)
      | Some t \<Rightarrow> if start_ns \<le> t then (Some t, i + 1) else seek_point points start_ns (i + 1))"
  by pat_completeness auto

termination
  by (relation "measure (\<lambda>(points, start_ns, i). length points - i)") (auto simp: get_Some)

declare seek_point.simps [simp del]

definition up_to :: "u64 \<Rightarrow> u64 \<Rightarrow> u64 option" where
  "up_to end_ns t = (if t \<le> end_ns then Some t else None)"

definition placement_next :: "u64 list \<Rightarrow> u64 \<Rightarrow> placement \<Rightarrow> u64 option \<times> placement" where
  "placement_next timestamps end_ns p =
     (case pl_points p of
        Some (points, i) \<Rightarrow>
          (let (t, i') = seek_point points (pl_start_ns p) i
           in (Option.bind t (up_to end_ns), p\<lparr>pl_points := Some (points, i')\<rparr>))
      | None \<Rightarrow>
          if pl_raw p then
            (case get timestamps (pl_raw_idx p) of
               None \<Rightarrow> (None, p) | Some t \<Rightarrow> (up_to end_ns t, p\<lparr>pl_raw_idx := pl_raw_idx p + 1\<rparr>))
          else if pl_step_ns p = 0 \<or> end_ns < pl_cursor_ns p then (None, p)
          else (Some (pl_cursor_ns p), p\<lparr>pl_cursor_ns := saturating_add (pl_cursor_ns p) (pl_step_ns p)\<rparr>))"

section \<open>The producers\<close>

text \<open>
  The four structs have the same fields; \<open>gg_range_ns\<close> is the \<open>staleness_ns\<close> of a \<open>GaugeStepGrid\<close>. A value is
  an \<open>i64\<close>, for \<open>GaugeDeriv\<close> an \<open>f64\<close>.
\<close>

record 'v gauge_producer =
  gg_timestamps :: "u64 list"
  gg_values :: "'v list"
  gg_end_ns :: u64
  gg_range_ns :: u64
  gg_place :: placement

definition gauge_producer_new :: "u64 list \<Rightarrow> 'v list \<Rightarrow> u64 \<Rightarrow> u64 \<Rightarrow> u64 \<Rightarrow> u64 \<Rightarrow> bool \<Rightarrow> 'v gauge_producer" where
  "gauge_producer_new timestamps values start_ns end_ns step_ns range_ns raw = \<lparr>gg_timestamps = timestamps, gg_values = values,
     gg_end_ns = end_ns, gg_range_ns = range_ns, gg_place = placement_new raw start_ns step_ns\<rparr>"

definition gauge_at_points :: "u64 list \<Rightarrow> 'v gauge_producer \<Rightarrow> 'v gauge_producer" where
  "gauge_at_points points g = g\<lparr>gg_place := placement_at_points points (gg_place g)\<rparr>"

definition read_upto :: "'v gauge_producer \<Rightarrow> u64 \<Rightarrow> nat" where
  "read_upto g t = partition_point (\<lambda>ts. ts \<le> t) (gg_timestamps g)"

definition window_lo :: "'v gauge_producer \<Rightarrow> u64 \<Rightarrow> nat" where
  "window_lo g t = partition_point (\<lambda>ts. ts < saturating_sub t (gg_range_ns g)) (gg_timestamps g)"

text \<open>\<open>&xs[lo..hi]\<close>.\<close>

definition sub_slice :: "nat \<Rightarrow> nat \<Rightarrow> 'a list \<Rightarrow> 'a list" where
  "sub_slice lo hi xs = drop lo (take hi xs)"

text \<open>The body of each \<open>next\<close> once placed at \<open>t\<close>; \<open>None\<close> is its \<open>continue\<close>.\<close>

definition step_grid_at :: "'f f64 \<Rightarrow> i64 gauge_producer \<Rightarrow> u64 \<Rightarrow> 'f point option" where
  "step_grid_at F g t =
     (let hi = read_upto g t
      in if hi = 0 then None
         else if gg_range_ns g < saturating_sub t (gg_timestamps g ! (hi - 1)) then None
         else Some (point_at t (f_of_i64 F (gg_values g ! (hi - 1)))))"

definition avg_over_time_at :: "'f f64 \<Rightarrow> i64 gauge_producer \<Rightarrow> u64 \<Rightarrow> 'f point option" where
  "avg_over_time_at F g t =
     (let lo = window_lo g t; hi = read_upto g t
      in if hi = lo then None
         else Some (point_at t (f_div F (fold (\<lambda>v sum. f_add F sum (f_of_i64 F v)) (sub_slice lo hi (gg_values g)) (f_zero F))
                (f_of_nat F (hi - lo)))))"

definition no_slope :: "'f f64 \<Rightarrow> 'v gauge_producer \<Rightarrow> u64 \<Rightarrow> 'f point option" where
  "no_slope F g t = (if pl_raw (gg_place g) then Some (timing_at F t) else None)"

definition idelta_at :: "'f f64 \<Rightarrow> i64 gauge_producer \<Rightarrow> u64 \<Rightarrow> 'f point option" where
  "idelta_at F g t =
     (let lo = window_lo g t; hi = read_upto g t
      in if hi - lo < 2 then no_slope F g t
         else Some (point_at t (f_sub F (f_of_i64 F (gg_values g ! (hi - 1))) (f_of_i64 F (gg_values g ! (hi - 2))))))"

definition deriv_sums :: "'f f64 \<Rightarrow> u64 \<Rightarrow> 'f \<Rightarrow> (u64 \<times> 'f) list \<Rightarrow> 'f \<times> 'f \<times> 'f \<times> 'f" where
  "deriv_sums F t y0 samples =
     fold (\<lambda>(ts, v) (sum_x, sum_y, sum_xy, sum_x2).
         (let x = f_div F (f_of_i64 F (ts - t)) (f_nano F); y = f_sub F v y0
          in (f_add F sum_x x, f_add F sum_y y, f_add F sum_xy (f_mul F x y), f_add F sum_x2 (f_mul F x x))))
       samples (f_zero F, f_zero F, f_zero F, f_zero F)"

definition slope :: "'f f64 \<Rightarrow> u64 \<Rightarrow> (u64 \<times> 'f) list \<Rightarrow> 'f" where
  "slope F t samples =
     (let n = f_of_nat F (length samples);
          (sum_x, sum_y, sum_xy, sum_x2) = deriv_sums F t (snd (hd samples)) samples;
          denom = f_sub F (f_mul F n sum_x2) (f_mul F sum_x sum_x)
      in if f_lt F (f_abs F denom) (f_tiny F) then f_zero F
         else f_div F (f_sub F (f_mul F n sum_xy) (f_mul F sum_x sum_y)) denom)"

definition deriv_at :: "'f f64 \<Rightarrow> 'f gauge_producer \<Rightarrow> u64 \<Rightarrow> 'f point option" where
  "deriv_at F g t =
     (let lo = window_lo g t; hi = read_upto g t
      in if hi - lo < 2 then no_slope F g t
         else Some (point_at t (slope F t (sub_slice lo hi (zip (gg_timestamps g) (gg_values g))))))"

text \<open>\<open>next\<close> of a producer whose body is \<open>body\<close>, and all it gives.\<close>

partial_function (option) gauge_next ::
  "('v gauge_producer \<Rightarrow> u64 \<Rightarrow> 'f point option) \<Rightarrow> 'v gauge_producer \<Rightarrow> ('f point option \<times> 'v gauge_producer) option" where
  "gauge_next body g =
     (case placement_next (gg_timestamps g) (gg_end_ns g) (gg_place g) of
        (None, p) \<Rightarrow> Some (None, g\<lparr>gg_place := p\<rparr>)
      | (Some t, p) \<Rightarrow>
          (case body (g\<lparr>gg_place := p\<rparr>) t of
             Some point \<Rightarrow> Some (Some point, g\<lparr>gg_place := p\<rparr>) | None \<Rightarrow> gauge_next body (g\<lparr>gg_place := p\<rparr>)))"

partial_function (option) gauge_points :: "('v gauge_producer \<Rightarrow> u64 \<Rightarrow> 'f point option) \<Rightarrow> 'v gauge_producer \<Rightarrow> 'f point list option" where
  "gauge_points body g = (case gauge_next body g of
       None \<Rightarrow> None
     | Some (None, _) \<Rightarrow> Some []
     | Some (Some p, g') \<Rightarrow> Option.bind (gauge_points body g') (\<lambda>ps. Some (p # ps)))"

lemma gauge_points_next:
  "gauge_points body g =
     (case placement_next (gg_timestamps g) (gg_end_ns g) (gg_place g) of
        (None, _) \<Rightarrow> Some []
      | (Some t, p) \<Rightarrow> map_option (\<lambda>ps. (case body (g\<lparr>gg_place := p\<rparr>) t of Some q \<Rightarrow> [q] | None \<Rightarrow> []) @ ps)
          (gauge_points body (g\<lparr>gg_place := p\<rparr>)))"
proof -
  obtain x p where n: "placement_next (gg_timestamps g) (gg_end_ns g) (gg_place g) = (x, p)" by fastforce
  show ?thesis
  proof (cases x)
    case None
    with n show ?thesis by (simp add: gauge_points.simps [of body g] gauge_next.simps [of body g])
  next
    case (Some t)
    show ?thesis
    proof (cases "body (g\<lparr>gg_place := p\<rparr>) t")
      case None
      with n Some have "gauge_next body g = gauge_next body (g\<lparr>gg_place := p\<rparr>)" by (simp add: gauge_next.simps [of body g])
      then have "gauge_points body g = gauge_points body (g\<lparr>gg_place := p\<rparr>)" 
        by (simp add: gauge_points.simps [of body g] gauge_points.simps [of body "g\<lparr>gg_place := p\<rparr>"])
      with n Some None show ?thesis by (cases "gauge_points body (g\<lparr>gg_place := p\<rparr>)") simp_all
    next
      case (Some q)
      with n \<open>x = Some t\<close> have "gauge_next body g = Some (Some q, g\<lparr>gg_place := p\<rparr>)" by (simp add: gauge_next.simps [of body g])
      with n \<open>x = Some t\<close> Some show ?thesis
        by (cases "gauge_points body (g\<lparr>gg_place := p\<rparr>)") (simp_all add: gauge_points.simps [of body g])
    qed
  qed
qed

section \<open>Where the points are\<close>

definition instants :: "u64 list \<Rightarrow> u64 \<Rightarrow> placement \<Rightarrow> u64 list" where
  "instants timestamps end_ns p = (case pl_points p of
       Some (points, i) \<Rightarrow> takeWhile (\<lambda>t. t \<le> end_ns) (filter (\<lambda>t. pl_start_ns p \<le> t) (drop i points))
     | None \<Rightarrow>
         if pl_raw p then takeWhile (\<lambda>t. t \<le> end_ns) (drop (pl_raw_idx p) timestamps)
         else if pl_step_ns p = 0 then [] else ticks (pl_cursor_ns p) end_ns (pl_step_ns p))"

lemma seek_point_filter:
  "filter (\<lambda>t. start_ns \<le> t) (drop i points) =
     (case seek_point points start_ns i of (None, _) \<Rightarrow> [] | (Some t, i') \<Rightarrow> t # filter (\<lambda>t. start_ns \<le> t) (drop i' points))"
proof (induction points start_ns i rule: seek_point.induct)
  case (1 points start_ns i)
  show ?case
  proof (cases "i < length points")
    case True
    then have "drop i points = points ! i # drop (Suc i) points" by (simp add: Cons_nth_drop_Suc)
    with 1 True show ?thesis by (simp add: seek_point.simps [of points start_ns i] get_def)
  qed (simp add: seek_point.simps get_def)
qed

text \<open>The grid ends when the range does not reach the last nanosecond that can be written.\<close>

definition ends :: "u64 \<Rightarrow> placement \<Rightarrow> bool" where
  "ends end_ns p \<longleftrightarrow> pl_points p \<noteq> None \<or> pl_raw p \<or> end_ns < u64_max"

lemma placement_next_instants:
  assumes "ends end_ns p" "placement_next timestamps end_ns p = (x, p')"
  shows "instants timestamps end_ns p = (case x of None \<Rightarrow> [] | Some t \<Rightarrow> t # instants timestamps end_ns p')"
    "ends end_ns p'" "pl_raw p' = pl_raw p"
proof -
  show "ends end_ns p'" "pl_raw p' = pl_raw p" using assms
    by (auto simp: ends_def placement_next_def split: option.splits prod.splits if_splits)
  show "instants timestamps end_ns p = (case x of None \<Rightarrow> [] | Some t \<Rightarrow> t # instants timestamps end_ns p')"
  proof (cases "pl_points p")
    case (Some pts)
    obtain points i where pts: "pts = (points, i)" by fastforce
    show ?thesis
      using assms(2) Some seek_point_filter [of "pl_start_ns p" i points]
      by (auto simp: pts placement_next_def instants_def up_to_def split: prod.splits option.splits if_splits)
  next
    case None
    show ?thesis
    proof (cases "pl_raw p")
      case True
      have "i < length timestamps \<Longrightarrow> drop i timestamps = timestamps ! i # drop (Suc i) timestamps" for i
        by (simp add: Cons_nth_drop_Suc)
      with assms(2) None True show ?thesis
        by (auto simp: placement_next_def instants_def up_to_def get_def split: if_splits)
    next
      case False
      let ?c = "pl_cursor_ns p" and ?s = "pl_step_ns p"
      have sat: "saturating_add ?c ?s = (case checked_add ?c ?s of Some c \<Rightarrow> c | None \<Rightarrow> u64_max)"
        by (simp add: saturating_add_def)
      have "ticks u64_max end_ns ?s = []" using assms(1) None False by (simp add: ends_def ticks_def)
      then show ?thesis
        using assms(2) None False ticks_step [of ?s ?c end_ns]
        by (auto simp: placement_next_def instants_def sat split: if_splits option.split)
    qed
  qed
qed


lemma gauge_points_instants:
  assumes "ends (gg_end_ns g) (gg_place g)"
    and "\<And>p t. pl_raw p = pl_raw (gg_place g) \<Longrightarrow> body (g\<lparr>gg_place := p\<rparr>) t = body g t"
  shows "gauge_points body g = Some (List.map_filter (body g) (instants (gg_timestamps g) (gg_end_ns g) (gg_place g)))"
  using assms
proof (induction "instants (gg_timestamps g) (gg_end_ns g) (gg_place g)" arbitrary: g)
  case Nil
  obtain x p where n: "placement_next (gg_timestamps g) (gg_end_ns g) (gg_place g) = (x, p)" by fastforce
  with Nil.hyps placement_next_instants(1) [OF Nil.prems(1) n] have "x = None" by (cases x) simp_all
  with n Nil.hyps show ?case by (simp add: gauge_points_next [of body g] map_filter_simps)
next
  case (Cons t ts)
  obtain x p where n: "placement_next (gg_timestamps g) (gg_end_ns g) (gg_place g) = (x, p)" by fastforce
  note nx = placement_next_instants [OF Cons.prems(1) n]
  have x: "x = Some t" "instants (gg_timestamps g) (gg_end_ns g) p = ts" using Cons.hyps(2) nx(1) by (cases x; simp)+
  let ?g = "g\<lparr>gg_place := p\<rparr>"
  have same: "body (g\<lparr>gg_place := q\<rparr>) t' = body g t'" if "pl_raw q = pl_raw (gg_place g)" for q t'
    using Cons.prems(2) that by blast
  have "gauge_points body ?g = Some (List.map_filter (body ?g) (instants (gg_timestamps ?g) (gg_end_ns ?g) (gg_place ?g)))"
    by (rule Cons.hyps(1)) (use x nx(2,3) same in simp_all)
  moreover have "body ?g = body g" using same nx(3) by auto
  ultimately show ?case
    using n x by (simp add: gauge_points_next [of body g] Cons.hyps(2) [symmetric] map_filter_simps split: option.split)
qed

section \<open>What is read at one\<close>

definition readings :: "'v gauge_producer \<Rightarrow> (u64 \<times> 'v) list" where
  "readings g = zip (gg_timestamps g) (gg_values g)"

definition seen :: "'v gauge_producer \<Rightarrow> u64 \<Rightarrow> (u64 \<times> 'v) list" where
  "seen g t = filter (\<lambda>(ts, _). ts \<le> t) (readings g)"

definition in_window :: "'v gauge_producer \<Rightarrow> u64 \<Rightarrow> (u64 \<times> 'v) list" where
  "in_window g t = filter (\<lambda>(ts, _). saturating_sub t (gg_range_ns g) \<le> ts \<and> ts \<le> t) (readings g)"

definition step_value :: "'f f64 \<Rightarrow> i64 gauge_producer \<Rightarrow> u64 \<Rightarrow> 'f point option" where
  "step_value F g t =
     (if seen g t = [] \<or> gg_range_ns g < saturating_sub t (fst (List.last (seen g t))) then None
      else Some (point_at t (f_of_i64 F (snd (List.last (seen g t))))))"

definition avg_value :: "'f f64 \<Rightarrow> i64 gauge_producer \<Rightarrow> u64 \<Rightarrow> 'f point option" where
  "avg_value F g t =
     (if in_window g t = [] then None
      else Some (point_at t (f_div F (fold (\<lambda>(_, v) sum. f_add F sum (f_of_i64 F v)) (in_window g t) (f_zero F))
             (f_of_nat F (length (in_window g t))))))"

definition idelta_value :: "'f f64 \<Rightarrow> i64 gauge_producer \<Rightarrow> u64 \<Rightarrow> 'f point option" where
  "idelta_value F g t = (case rev (in_window g t) of
       (_, cur) # (_, prev) # _ \<Rightarrow> Some (point_at t (f_sub F (f_of_i64 F cur) (f_of_i64 F prev))) | _ \<Rightarrow> no_slope F g t)"

definition deriv_value :: "'f f64 \<Rightarrow> 'f gauge_producer \<Rightarrow> u64 \<Rightarrow> 'f point option" where
  "deriv_value F g t = (if length (in_window g t) < 2 then no_slope F g t else Some (point_at t (slope F t (in_window g t))))"

definition well_read :: "'v gauge_producer \<Rightarrow> bool" where
  "well_read g \<longleftrightarrow> sorted (gg_timestamps g) \<and> length (gg_values g) = length (gg_timestamps g)"

lemma sorted_takeWhile:
  "sorted (map fst xs) \<Longrightarrow> takeWhile (\<lambda>(ts, _). ts \<le> (t :: 'a :: linorder)) xs = filter (\<lambda>(ts, _). ts \<le> t) xs"
proof (induction xs)
  case (Cons x xs)
  have "filter (\<lambda>(ts, _). ts \<le> t) xs = []" if "\<not> fst x \<le> t"
    using that Cons.prems by (force simp: filter_empty_conv)
  with Cons show ?case by (cases x) auto
qed simp

lemma sorted_window:
  "sorted (map fst xs) \<Longrightarrow> ws \<le> (t :: 'a :: linorder) \<Longrightarrow>
     drop (length (takeWhile (\<lambda>(ts, _). ts < ws) xs)) (takeWhile (\<lambda>(ts, _). ts \<le> t) xs) =
     filter (\<lambda>(ts, _). ws \<le> ts \<and> ts \<le> t) xs"
proof (induction xs)
  case (Cons x xs)
  show ?case
  proof (cases "fst x < ws")
    case True
    with Cons show ?thesis by (cases x) auto
  next
    case False
    then have "filter (\<lambda>(ts, _). ws \<le> ts \<and> ts \<le> t) (x # xs) = filter (\<lambda>(ts, _). ts \<le> t) (x # xs)"
      using Cons.prems(1) by (intro filter_cong) (auto intro: order_trans)
    with False sorted_takeWhile [OF Cons.prems(1)] show ?thesis by (cases x) simp
  qed
qed simp

lemma reading_nth:
  assumes "well_read g" "i < length (readings g)"
  shows "gg_timestamps g ! i = fst (readings g ! i)" "gg_values g ! i = snd (readings g ! i)"
  using assms by (simp_all add: readings_def well_read_def)

lemma partition_readings:
  assumes "well_read g"
  shows "partition_point P (gg_timestamps g) = length (takeWhile (\<lambda>(ts, _). P ts) (readings g))"
proof -
  have "gg_timestamps g = map fst (readings g)" using assms by (simp add: readings_def well_read_def)
  then show ?thesis by (simp add: partition_point_def takeWhile_map comp_def case_prod_beta')
qed

lemma saturating_sub_le: "saturating_sub a b \<le> a"
  by (simp add: word_le_nat_alt unat_saturating_sub)

lemma window_of:
  assumes "well_read g"
  shows "read_upto g t = length (seen g t)" "take (read_upto g t) (readings g) = seen g t"
    "sub_slice (window_lo g t) (read_upto g t) (readings g) = in_window g t"
    "read_upto g t - window_lo g t = length (in_window g t)"
proof -
  have s: "sorted (map fst (readings g))" using assms by (simp add: readings_def well_read_def)
  note part = partition_readings [OF assms]
  show seen: "read_upto g t = length (seen g t)" "take (read_upto g t) (readings g) = seen g t"
    using sorted_takeWhile [OF s, of t] takeWhile_eq_take [of "\<lambda>(ts, _). ts \<le> t" "readings g"]
    by (simp_all add: read_upto_def part seen_def)
  show "sub_slice (window_lo g t) (read_upto g t) (readings g) = in_window g t"
    using sorted_window [OF s saturating_sub_le [of t "gg_range_ns g"]] seen(2) sorted_takeWhile [OF s, of t]
    by (simp add: sub_slice_def window_lo_def part in_window_def seen_def)
  then show "read_upto g t - window_lo g t = length (in_window g t)"
    using seen by (metis length_drop sub_slice_def)
qed

lemma partition_point_mono: "(\<And>x. Q x \<Longrightarrow> P x) \<Longrightarrow> partition_point Q xs \<le> partition_point P xs"
  by (induction xs) (auto simp: partition_point_def)

lemma window_lo_le: "window_lo g t \<le> read_upto g t"
  unfolding window_lo_def read_upto_def
  by (rule partition_point_mono) (meson order_less_imp_le order_trans saturating_sub_le)

lemma sub_slice_values:
  assumes "well_read g"
  shows "sub_slice lo hi (gg_values g) = map snd (sub_slice lo hi (readings g))"
proof -
  have "gg_values g = map snd (readings g)" using assms by (simp add: readings_def well_read_def)
  then show ?thesis by (simp add: sub_slice_def drop_map take_map)
qed

lemma from_end:
  assumes "drop lo (take hi xs) = ys" "k < length ys" "hi \<le> length xs"
  shows "xs ! (hi - Suc k) = rev ys ! k"
proof -
  have "length ys = hi - lo" using assms(1,3) by auto
  then have "lo + (length ys - Suc k) = hi - Suc k" "length ys - Suc k < hi - lo" using assms(2) by auto
  with assms show ?thesis by (auto simp: rev_nth)
qed

lemma gauge_values:
  assumes "well_read g"
  shows "step_grid_at F g t = step_value F g t" "avg_over_time_at F g t = avg_value F g t"
    "idelta_at F g t = idelta_value F g t"
proof -
  note w = window_of [OF assms, of t] and r = reading_nth [OF assms]
  have hi: "read_upto g t \<le> length (readings g)" using partition_readings [OF assms]
    by (simp add: read_upto_def) (metis length_takeWhile_le)
  show "step_grid_at F g t = step_value F g t"
  proof (cases "seen g t = []")
    case False
    moreover from this have "0 < read_upto g t" using w(1) by simp
    moreover from this have "read_upto g t - 1 < length (readings g)" using hi by linarith
    moreover have "readings g ! (read_upto g t - 1) = List.last (seen g t)"
      using w(1,2) hi False from_end [of 0 "read_upto g t" "readings g" "seen g t" 0] by (auto simp: last_conv_nth rev_nth)
    ultimately have "readings g ! (read_upto g t - 1) = List.last (seen g t)" "read_upto g t - 1 < length (readings g)" "read_upto g t \<noteq> 0"
      by simp_all
    with False r show ?thesis by (simp add: step_grid_at_def step_value_def Let_def)
  qed (use w(1) in \<open>simp add: step_grid_at_def step_value_def\<close>)
  have empty: "read_upto g t = window_lo g t \<longleftrightarrow> in_window g t = []"
    using window_lo_le [of g t] w(4) by (metis diff_is_0_eq le_antisym length_0_conv diff_self_eq_0)
  show "avg_over_time_at F g t = avg_value F g t"
    using w(3,4) by (simp add: avg_over_time_at_def avg_value_def empty sub_slice_values [OF assms] fold_map comp_def case_prod_beta')
  show "idelta_at F g t = idelta_value F g t"
  proof (cases "length (in_window g t) < 2")
    case True
    then have "length (rev (in_window g t)) < 2" by simp
    then have "idelta_value F g t = no_slope F g t" by (auto simp: idelta_value_def split: list.split)
    with True w(4) show ?thesis by (simp add: idelta_at_def)
  next
    case False
    then obtain a b rest where ab: "rev (in_window g t) = a # b # rest"
      by (metis One_nat_def Suc_1 length_Cons length_rev less_Suc_eq list.size(3) neq_Nil_conv not_less_eq)
    have "readings g ! (read_upto g t - Suc 0) = a" "readings g ! (read_upto g t - Suc 1) = b"
      using False ab from_end [OF w(3) [unfolded sub_slice_def] _ hi] by auto
    moreover have "read_upto g t - 1 < length (readings g)" "read_upto g t - 2 < length (readings g)" using False w(4) hi by auto
    ultimately show ?thesis using False w(4) r ab by (simp add: idelta_at_def idelta_value_def case_prod_beta numeral_2_eq_2)
  qed
qed

lemma deriv_values: "well_read g \<Longrightarrow> deriv_at F g t = deriv_value F g t"
  using window_of [of g t] by (simp add: deriv_at_def deriv_value_def readings_def [symmetric])


text \<open>
  C26. Gauges read their window. Over readings in order of time, each of the four producers gives its value at the instants
  it is placed at: the last reading when it is not stale, the mean of those in the window, the difference of the last
  two, the slope of all of them. It ends if the range's end is before the last nanosecond that can be written.
\<close>

theorem gauges_read_their_window:
  assumes "well_read g" "ends (gg_end_ns g) (gg_place g)" "well_read h" "ends (gg_end_ns h) (gg_place h)"
  shows "gauge_points (step_grid_at F) g =
      Some (List.map_filter (step_value F g) (instants (gg_timestamps g) (gg_end_ns g) (gg_place g))) \<and>
    gauge_points (avg_over_time_at F) g =
      Some (List.map_filter (avg_value F g) (instants (gg_timestamps g) (gg_end_ns g) (gg_place g))) \<and>
    gauge_points (idelta_at F) g =
      Some (List.map_filter (idelta_value F g) (instants (gg_timestamps g) (gg_end_ns g) (gg_place g))) \<and>
    gauge_points (deriv_at F) h =
      Some (List.map_filter (deriv_value F h) (instants (gg_timestamps h) (gg_end_ns h) (gg_place h)))"
proof -
  note read = gauge_values [OF assms(1), of F] deriv_values [OF assms(3), of F]
  have "step_grid_at F g = step_value F g" "avg_over_time_at F g = avg_value F g" "idelta_at F g = idelta_value F g"
    "deriv_at F h = deriv_value F h" using read by auto
  moreover have "gauge_points (step_grid_at F) g =
      Some (List.map_filter (step_grid_at F g) (instants (gg_timestamps g) (gg_end_ns g) (gg_place g)))"
    "gauge_points (avg_over_time_at F) g =
      Some (List.map_filter (avg_over_time_at F g) (instants (gg_timestamps g) (gg_end_ns g) (gg_place g)))"
    "gauge_points (idelta_at F) g =
      Some (List.map_filter (idelta_at F g) (instants (gg_timestamps g) (gg_end_ns g) (gg_place g)))"
    by (rule gauge_points_instants [OF assms(2)],
        simp add: step_grid_at_def avg_over_time_at_def idelta_at_def no_slope_def read_upto_def window_lo_def Let_def)+
  moreover have "gauge_points (deriv_at F) h =
      Some (List.map_filter (deriv_at F h) (instants (gg_timestamps h) (gg_end_ns h) (gg_place h)))"
    by (rule gauge_points_instants [OF assms(4)], simp add: deriv_at_def no_slope_def read_upto_def window_lo_def Let_def)
  ultimately show ?thesis by (simp only: simp_thms)
qed

text \<open>
  A range that does reach it: past the end, the cursor stays at the last nanosecond, which is still in the range, and
  the grid never ends.
\<close>

lemma the_grid_never_ends:
  assumes "pl_points p = None" "\<not> pl_raw p" "pl_step_ns p \<noteq> 0" "pl_cursor_ns p = u64_max"
  shows "placement_next timestamps u64_max p = (Some u64_max, p)"
proof -
  have "checked_add u64_max (pl_step_ns p) = None"
    using assms(3) by (simp add: checked_add_def unat_u64_max) (simp add: unat_gt_0 Suc_leI flip: unat_gt_0)
  with assms show ?thesis by (cases p) (simp add: placement_next_def saturating_add_def)
qed

end
