(* ===== verification/Aggregation.thy ===== *)
theory Aggregation
  imports Points
begin

text \<open>
  Aggregations as merges of their series (\<open>metriken-query/src/promql/streaming/aggregate.rs\<close>): the reduction of
  the points at one time, the merge of a group's series, and the groups of an aggregation advanced in lockstep.
\<close>

section \<open>Groups\<close>

datatype agg_op = AggSum | AggAvg | AggMin | AggMax | AggCount

datatype group_by = Include "string list" | Exclude "string list"

definition derive_group_labels :: "group_by \<Rightarrow> labels \<Rightarrow> labels" where
  "derive_group_labels by labels = (case by of
       Include ks \<Rightarrow> fmfilter (\<lambda>k. k \<in> set ks) labels
     | Exclude ks \<Rightarrow> fmfilter (\<lambda>k. is_matched_label k \<and> k \<notin> set ks) labels)"

section \<open>The points one output point reduces\<close>

record 'f reduction =
  rd_sum :: 'f
  rd_count :: nat
  rd_min :: 'f
  rd_max :: 'f
  rd_any_bounded :: bool
  rd_any_interpolated :: bool
  rd_lo_sum :: 'f
  rd_hi_sum :: 'f
  rd_shared_edges :: "'f rate_edges option"
  rd_edges_unanimous :: bool
  rd_seen_any :: bool

definition reduction_default :: "'f f64 \<Rightarrow> 'f reduction" where
  "reduction_default F = \<lparr>rd_sum = f_zero F, rd_count = 0, rd_min = f_infinity F, rd_max = f_neg_infinity F,
     rd_any_bounded = False, rd_any_interpolated = False, rd_lo_sum = f_zero F, rd_hi_sum = f_zero F,
     rd_shared_edges = None, rd_edges_unanimous = True, rd_seen_any = False\<rparr>"

definition rd_add :: "'f f64 \<Rightarrow> 'f point \<Rightarrow> 'f reduction \<Rightarrow> 'f reduction" where
  "rd_add F p r =
     (let v = pt_v p; (lo, hi) = (case pt_bounds p of None \<Rightarrow> (v, v) | Some b \<Rightarrow> b)
      in r\<lparr>rd_sum := f_add F (rd_sum r) v, rd_count := rd_count r + 1,
           rd_min := (if f_lt F v (rd_min r) then v else rd_min r), rd_max := (if f_lt F (rd_max r) v then v else rd_max r),
           rd_any_bounded := rd_any_bounded r \<or> pt_bounds p \<noteq> None,
           rd_any_interpolated := rd_any_interpolated r \<or> pt_interpolated p,
           rd_shared_edges := (if rd_seen_any r then rd_shared_edges r else pt_edges p),
           rd_edges_unanimous := rd_edges_unanimous r \<and> (rd_seen_any r \<longrightarrow> edges_eq F (rd_shared_edges r) (pt_edges p)),
           rd_seen_any := True,
           rd_lo_sum := f_add F (rd_lo_sum r) lo, rd_hi_sum := f_add F (rd_hi_sum r) hi\<rparr>)"

definition rd_finish :: "'f f64 \<Rightarrow> agg_op \<Rightarrow> u64 \<Rightarrow> 'f reduction \<Rightarrow> 'f point option" where
  "rd_finish F op t r =
     (if rd_count r = 0 then None
      else
        (let n = f_of_nat F (rd_count r);
             v = (case op of AggSum \<Rightarrow> rd_sum r | AggAvg \<Rightarrow> f_div F (rd_sum r) n | AggMin \<Rightarrow> rd_min r | AggMax \<Rightarrow> rd_max r | AggCount \<Rightarrow> n);
             bounds = (if rd_any_bounded r \<and> \<not> rd_any_interpolated r
               then (case op of AggSum \<Rightarrow> Some (rd_lo_sum r, rd_hi_sum r)
                     | AggAvg \<Rightarrow> Some (f_div F (rd_lo_sum r) n, f_div F (rd_hi_sum r) n) | _ \<Rightarrow> None)
               else None)
         in Some \<lparr>pt_t = t, pt_v = v, pt_bounds = bounds,
              pt_edges = (if rd_edges_unanimous r then rd_shared_edges r else None),
              pt_interpolated = rd_any_interpolated r, pt_timing = False\<rparr>))"

section \<open>The merge of a group's series\<close>

datatype 'f children = ExactChildren "'f point list list" | LatestChildren "'f held_series list"

record 'f merge_reduce =
  mr_children :: "'f children"
  mr_op :: agg_op

definition mr_joined :: "'f point list list \<Rightarrow> agg_op \<Rightarrow> join \<Rightarrow> 'f merge_reduce" where
  "mr_joined children op join = \<lparr>mr_children = (case join of
       Exact \<Rightarrow> ExactChildren children | Latest hold \<Rightarrow> LatestChildren (map (\<lambda>c. held_new c hold) children)), mr_op = op\<rparr>"

definition head_t :: "'f point list \<Rightarrow> u64 option" where
  "head_t ps = (case ps of [] \<Rightarrow> None | p # _ \<Rightarrow> Some (pt_t p))"

text \<open>The smallest of some times: \<open>filter_map\<close> and \<open>min\<close>.\<close>

definition least_t :: "u64 option list \<Rightarrow> u64 option" where
  "least_t ts = (case List.map_filter id ts of [] \<Rightarrow> None | t # rest \<Rightarrow> Some (fold min rest t))"

definition next_ts :: "'f merge_reduce \<Rightarrow> u64 option" where
  "next_ts m = (case mr_children m of
       ExactChildren cs \<Rightarrow> least_t (map head_t cs) | LatestChildren hs \<Rightarrow> least_t (map peek_t hs))"

definition mr_clear :: "'f merge_reduce \<Rightarrow> 'f merge_reduce" where
  "mr_clear m = m\<lparr>mr_children := (case mr_children m of
       ExactChildren cs \<Rightarrow> ExactChildren [] | LatestChildren hs \<Rightarrow> LatestChildren (map held_clear hs))\<rparr>"

text \<open>One round: the reduction of what the children give at \<open>t\<close>, and whether one has a timing point there.\<close>

definition take_exact :: "u64 \<Rightarrow> 'f point list \<Rightarrow> 'f point option \<times> 'f point list" where
  "take_exact t ps = (case ps of [] \<Rightarrow> (None, []) | p # rest \<Rightarrow> if pt_t p = t then (Some p, rest) else (None, ps))"

definition mr_round :: "'f f64 \<Rightarrow> u64 \<Rightarrow> 'f children \<Rightarrow> 'f reduction \<times> bool \<times> 'f children" where
  "mr_round F t children = (case children of
       ExactChildren cs \<Rightarrow>
         (fold (rd_add F) (List.map_filter (fst \<circ> take_exact t) cs) (reduction_default F), False,
          ExactChildren (map (snd \<circ> take_exact t) cs))
     | LatestChildren hs \<Rightarrow>
         (let hs = map (advance_to t) hs
          in (fold (rd_add F) (List.map_filter (held_at t) hs) (reduction_default F), list_ex (held_timing_at t) hs,
              LatestChildren hs)))"

fun mr_left :: "'f children \<Rightarrow> nat" where
  "mr_left (ExactChildren cs) = sum_list (map length cs)"
| "mr_left (LatestChildren hs) = sum_list (map (length \<circ> hd_iter) hs)"

subsection \<open>Every round takes a point\<close>

lemma least_t_Min: "least_t ts = (if {x. Some x \<in> set ts} = {} then None else Some (Min {x. Some x \<in> set ts}))"
proof -
  have some: "set (List.map_filter id ts) = {x. Some x \<in> set ts}"
    by (induction ts) (auto simp: map_filter_simps split: option.splits)
  show ?thesis
  proof (cases "List.map_filter id ts")
    case Nil
    with some show ?thesis by (simp add: least_t_def)
  next
    case (Cons t rest)
    have "fold min rest t = Min (set (t # rest))" by (simp only: Min.set_eq_fold)
    also have "set (t # rest) = {x. Some x \<in> set ts}" using some Cons by simp
    finally show ?thesis using some Cons by (auto simp: least_t_def)
  qed
qed

lemma some_times_finite [simp]: "finite {x. Some x \<in> set ts}"
  by (rule finite_subset [of _ "the ` set ts"]) force+

lemma least_t_in: "least_t ts = Some t \<Longrightarrow> Some t \<in> set ts"
  using Min_in [OF some_times_finite, of ts] by (auto simp: least_t_Min split: if_splits)

lemma least_t_le: "least_t ts = Some t \<Longrightarrow> Some x \<in> set ts \<Longrightarrow> t \<le> x"
  using Min_le [OF some_times_finite, of x ts] by (auto simp: least_t_Min split: if_splits)

lemma least_t_None: "least_t ts = None \<longleftrightarrow> (\<forall>t \<in> set ts. t = None)"
  by (auto simp: least_t_Min) (metis option.exhaust)

lemma take_exact_length: "length (snd (take_exact t ps)) = length ps - (if head_t ps = Some t then 1 else 0)"
  by (auto simp: take_exact_def head_t_def split: list.splits)

lemma sum_list_less:
  fixes f g :: "'x \<Rightarrow> nat"
  assumes "\<And>x. x \<in> set xs \<Longrightarrow> f x \<le> g x" "x \<in> set xs" "f x < g x"
  shows "sum_list (map f xs) < sum_list (map g xs)"
  using assms
proof (induction xs)
  case (Cons y ys)
  have le: "f y \<le> g y" "sum_list (map f ys) \<le> sum_list (map g ys)"
    using Cons.prems(1) by (simp, intro sum_list_mono) simp
  show ?case
  proof (cases "x = y")
    case True
    with Cons.prems(3) le show ?thesis by simp
  next
    case False
    then have "sum_list (map f ys) < sum_list (map g ys)" using Cons by simp
    with le show ?thesis by simp
  qed
qed simp

lemma mr_round_takes:
  assumes "next_ts \<lparr>mr_children = cs, mr_op = op\<rparr> = Some t"
  shows "mr_left (snd (snd (mr_round F t cs))) < mr_left cs"
proof (cases cs)
  case (ExactChildren ps)
  with assms have "Some t \<in> set (map head_t ps)" by (intro least_t_in) (simp add: next_ts_def)
  then obtain p where p: "p \<in> set ps" "head_t p = Some t" by auto
  then have "length p > 0" by (auto simp: head_t_def split: list.splits)
  with p have "sum_list (map (\<lambda>x. length (snd (take_exact t x))) ps) < sum_list (map length ps)"
    by (intro sum_list_less [of ps _ _ p]) (auto simp: take_exact_length)
  with ExactChildren show ?thesis by (simp add: mr_round_def comp_def)
next
  case (LatestChildren hs)
  with assms have "Some t \<in> set (map peek_t hs)" by (intro least_t_in) (simp add: next_ts_def)
  then obtain h where h: "h \<in> set hs" "peek_t h = Some t" by auto
  have le: "length (hd_iter (advance_to t x)) \<le> length (hd_iter x)" for x :: "'a held_series"
    using advance_points_shrinks by (auto simp: advance_to_def split: prod.splits)
  have "hd_iter h \<noteq> []" "pt_t (hd (hd_iter h)) = t" using h(2) by (auto simp: peek_t_def split: list.splits)
  then have "length (hd_iter (advance_to t h)) < length (hd_iter h)"
    using advance_points_takes [of "hd_iter h" t] by (auto simp: advance_to_def split: prod.splits)
  then have "sum_list (map (\<lambda>x. length (hd_iter (advance_to t x))) hs) < sum_list (map (\<lambda>x. length (hd_iter x)) hs)"
    using h(1) le by (intro sum_list_less [of hs _ _ h])
  with LatestChildren show ?thesis by (simp add: mr_round_def Let_def comp_def)
qed

text \<open>\<open>Iterator::next\<close>: rounds until one gives a point.\<close>

function mr_next :: "'f f64 \<Rightarrow> 'f merge_reduce \<Rightarrow> 'f point option \<times> 'f merge_reduce" where
  "mr_next F m =
     (case next_ts m of
        None \<Rightarrow> (None, m)
      | Some t \<Rightarrow>
          (let (r, timing, cs) = mr_round F t (mr_children m); m' = m\<lparr>mr_children := cs\<rparr>
           in case rd_finish F (mr_op m) t r of
               Some p \<Rightarrow> (Some p, m')
             | None \<Rightarrow> if timing then (Some (timing_at F t), m') else mr_next F m'))"
  by pat_completeness auto

termination
proof (relation "measure (\<lambda>(F, m). mr_left (mr_children m))", simp)
  fix F :: "'f f64" and m m' :: "'f merge_reduce" and t r x timing cs y
  assume a: "next_ts m = Some t" "x = mr_round F t (mr_children m)" "(r, y) = x" "(timing, cs) = y" "m' = m\<lparr>mr_children := cs\<rparr>"
  have "next_ts \<lparr>mr_children = mr_children m, mr_op = mr_op m\<rparr> = Some t" using a(1) by (cases m) simp
  from mr_round_takes [OF this, of F] a show "((F, m'), F, m) \<in> measure (\<lambda>(F, m). mr_left (mr_children m))"
    by (auto dest: sym)
qed

declare mr_next.simps [simp del]

lemma least_t_next: "next_ts m = Some t \<Longrightarrow> mr_round F t (mr_children m) = (r, timing, cs) \<Longrightarrow> mr_left cs < mr_left (mr_children m)"
  using mr_round_takes [of "mr_children m" "mr_op m" t F] by (cases m) simp

lemma mr_next_less:
  "mr_next F m = (r, m') \<Longrightarrow> (r \<noteq> None \<longrightarrow> mr_left (mr_children m') < mr_left (mr_children m)) \<and>
     (r = None \<longrightarrow> mr_left (mr_children m') \<le> mr_left (mr_children m) \<and> next_ts m' = None)"
proof (induction F m rule: mr_next.induct)
  case (1 F m)
  show ?case
  proof (cases "next_ts m")
    case None
    with 1(2) show ?thesis by (auto simp: mr_next.simps [of F m])
  next
    case (Some t)
    obtain rd timing cs where round: "mr_round F t (mr_children m) = (rd, timing, cs)" by (metis prod_cases3)
    note less = least_t_next [OF Some round]
    show ?thesis
    proof (cases "rd_finish F (mr_op m) t rd = None \<and> \<not> timing")
      case True
      then have "mr_next F (m\<lparr>mr_children := cs\<rparr>) = (r, m')"
        using 1(2) by (simp add: mr_next.simps [of F m] Some round Let_def)
      from 1(1) [OF Some round [symmetric] refl refl refl _ _ this] True less show ?thesis by auto
    next
      case False
      with 1(2) less show ?thesis by (auto simp: mr_next.simps [of F m] Some round Let_def split: option.splits if_splits)
    qed
  qed
qed

text \<open>All a merge gives.\<close>

function mr_points :: "'f f64 \<Rightarrow> 'f merge_reduce \<Rightarrow> 'f point list" where
  "mr_points F m = (case mr_next F m of (None, _) \<Rightarrow> [] | (Some p, m') \<Rightarrow> p # mr_points F m')"
  by pat_completeness auto

termination
  by (relation "measure (\<lambda>(F, m). mr_left (mr_children m))") (auto dest!: sym [of "(Some _, _)"] mr_next_less)

declare mr_points.simps [simp del]

lemma mr_points_end: "next_ts m = None \<Longrightarrow> mr_points F m = []"
  by (simp add: mr_points.simps mr_next.simps)

lemma mr_points_next:
  assumes "mr_next F m = (r, m')"
  shows "mr_points F m = (case r of None \<Rightarrow> [] | Some p \<Rightarrow> [p]) @ mr_points F m'"
  using assms mr_next_less [OF assms] by (cases r) (simp_all add: mr_points.simps [of F m] mr_points_end)

section \<open>Groups in lockstep\<close>

text \<open>\<open>Lockstep\<close>'s vectors, one entry for each group.\<close>

record 'f lock_group =
  lk_merge :: "'f merge_reduce"
  lk_buffer :: "'f point list"
  lk_head :: "u64 option"
  lk_live :: bool

record 'f lockstep =
  lk_groups :: "'f lock_group list"
  lk_started :: bool

definition lk_new :: "'f merge_reduce list \<Rightarrow> 'f lockstep" where
  "lk_new merges = \<lparr>lk_groups = map (\<lambda>m. \<lparr>lk_merge = m, lk_buffer = [], lk_head = None, lk_live = True\<rparr>) merges,
     lk_started = False\<rparr>"

definition lk_start :: "'f lockstep \<Rightarrow> 'f lockstep" where
  "lk_start s = (if lk_started s then s
     else \<lparr>lk_groups = map (\<lambda>g. if lk_live g then g\<lparr>lk_head := next_ts (lk_merge g)\<rparr> else g) (lk_groups s),
           lk_started = True\<rparr>)"

definition lk_advance :: "'f f64 \<Rightarrow> u64 \<Rightarrow> 'f lock_group \<Rightarrow> 'f lock_group" where
  "lk_advance F t g =
     (if lk_live g \<and> lk_head g = Some t
      then (let (p, m) = mr_next F (lk_merge g)
            in g\<lparr>lk_merge := m, lk_buffer := lk_buffer g @ (case p of None \<Rightarrow> [] | Some p \<Rightarrow> [p]), lk_head := next_ts m\<rparr>)
      else g)"

definition live_head :: "'f lock_group \<Rightarrow> u64 option" where
  "live_head g = (if lk_live g then lk_head g else None)"

definition lk_left :: "'f lock_group \<Rightarrow> nat" where
  "lk_left g = 2 * mr_left (mr_children (lk_merge g)) + (if lk_head g = None then 0 else 1)"

lemma lk_advance_less:
  "lk_left (lk_advance F t g) \<le> lk_left g"
  "live_head g = Some t \<Longrightarrow> lk_left (lk_advance F t g) < lk_left g"
proof -
  obtain r m where n: "mr_next F (lk_merge g) = (r, m)" by fastforce
  note less = mr_next_less [OF n]
  have "lk_left (lk_advance F t g) < lk_left g" if "lk_live g" "lk_head g = Some t"
    using less that by (cases r) (auto simp: lk_left_def lk_advance_def n)
  then show "lk_left (lk_advance F t g) \<le> lk_left g" "live_head g = Some t \<Longrightarrow> lk_left (lk_advance F t g) < lk_left g"
    by (auto simp: live_head_def lk_advance_def split: if_splits)
qed

text \<open>Advance every live group whose next time is the smallest, until group \<open>index\<close> has a point.\<close>

function lk_fill :: "'f f64 \<Rightarrow> nat \<Rightarrow> 'f lock_group list \<Rightarrow> bool \<times> 'f lock_group list" where
  "lk_fill F index gs =
     (if lk_buffer (gs ! index) \<noteq> [] then (True, gs)
      else case least_t (map live_head gs) of
          None \<Rightarrow> (False, gs)
        | Some t \<Rightarrow> lk_fill F index (map (lk_advance F t) gs))"
  by pat_completeness auto

termination
proof (relation "measure (\<lambda>(F, index, gs). sum_list (map lk_left gs))", simp)
  fix F :: "'f f64" and index and gs :: "'f lock_group list" and t
  assume "least_t (map live_head gs) = Some t"
  from least_t_in [OF this] obtain g where "g \<in> set gs" "live_head g = Some t" by auto
  then have "sum_list (map (lk_left \<circ> lk_advance F t) gs) < sum_list (map lk_left gs)"
    by (intro sum_list_less [of gs _ _ g]) (simp_all add: lk_advance_less)
  then show "((F, index, map (lk_advance F t) gs), F, index, gs) \<in> measure (\<lambda>(F, index, gs). sum_list (map lk_left gs))" by simp
qed

declare lk_fill.simps [simp del]

definition lk_next :: "'f f64 \<Rightarrow> nat \<Rightarrow> 'f lockstep \<Rightarrow> 'f point option \<times> 'f lockstep" where
  "lk_next F index s =
     (let s = lk_start s; g = lk_groups s ! index
      in if lk_buffer g = [] \<and> lk_head g = None then (None, s)
         else
           (let (filled, gs) = lk_fill F index (lk_groups s)
            in if filled
               then (Some (hd (lk_buffer (gs ! index))),
                     s\<lparr>lk_groups := gs[index := (gs ! index)\<lparr>lk_buffer := tl (lk_buffer (gs ! index))\<rparr>]\<rparr>)
               else (None, s\<lparr>lk_groups := gs\<rparr>)))"

text \<open>Dropping a group's reader.\<close>

definition lk_drop :: "nat \<Rightarrow> 'f lockstep \<Rightarrow> 'f lockstep" where
  "lk_drop index s = s\<lparr>lk_groups := (lk_groups s)[index := (lk_groups s ! index)
     \<lparr>lk_merge := mr_clear (lk_merge (lk_groups s ! index)), lk_buffer := [], lk_head := None, lk_live := False\<rparr>]\<rparr>"

section \<open>Lockstep shows each reader its own group\<close>

definition lk_rest :: "'f f64 \<Rightarrow> 'f lock_group \<Rightarrow> 'f point list" where
  "lk_rest F g = lk_buffer g @ mr_points F (lk_merge g)"

definition group_inv :: "bool \<Rightarrow> 'f lock_group \<Rightarrow> bool" where
  "group_inv started g \<longleftrightarrow> (if lk_live g then started \<longrightarrow> lk_head g = next_ts (lk_merge g)
     else lk_buffer g = [] \<and> lk_head g = None \<and> next_ts (lk_merge g) = None)"

definition lk_inv :: "'f lockstep \<Rightarrow> bool" where
  "lk_inv s \<longleftrightarrow> list_all (group_inv (lk_started s)) (lk_groups s)"

lemma lk_advance_rest [simp]: "lk_rest F (lk_advance F t g) = lk_rest F g"
  by (cases "mr_next F (lk_merge g)") (simp add: lk_rest_def lk_advance_def mr_points_next [of F "lk_merge g"])

lemma lk_advance_inv: "group_inv True g \<Longrightarrow> group_inv True (lk_advance F t g)"
  by (auto simp: group_inv_def lk_advance_def Let_def split: prod.splits)

lemma lk_fill_ok:
  "lk_fill F index gs = (filled, gs') \<Longrightarrow> list_all (group_inv True) gs \<Longrightarrow> index < length gs \<Longrightarrow>
     list_all (group_inv True) gs' \<and> map (lk_rest F) gs' = map (lk_rest F) gs \<and>
     (if filled then lk_buffer (gs' ! index) \<noteq> [] else lk_rest F (gs' ! index) = [])"
proof (induction F index gs rule: lk_fill.induct)
  case (1 F index gs)
  have inv: "group_inv True (gs ! index)" using "1.prems"(2,3) by (simp add: list_all_length)
  show ?case
  proof (cases "lk_buffer (gs ! index) = []")
    case False
    with "1.prems" show ?thesis by (auto simp: lk_fill.simps [of F index gs])
  next
    case empty: True
    show ?thesis
    proof (cases "least_t (map live_head gs)")
      case None
      then have "live_head (gs ! index) = None" using "1.prems"(3) by (simp add: least_t_None)
      with inv empty have "lk_rest F (gs ! index) = []"
        by (auto simp: lk_rest_def group_inv_def live_head_def mr_points_end split: if_splits)
      with "1.prems" empty None show ?thesis by (auto simp: lk_fill.simps [of F index gs])
    next
      case (Some t)
      have "list_all (group_inv True) (map (lk_advance F t) gs)"
        using "1.prems"(2) by (auto simp: list_all_iff lk_advance_inv)
      moreover have "lk_fill F index (map (lk_advance F t) gs) = (filled, gs')"
        using "1.prems"(1) empty Some by (simp add: lk_fill.simps [of F index gs])
      ultimately show ?thesis using "1.IH" [OF _ Some] empty "1.prems"(3) by (simp add: comp_def)
    qed
  qed
qed

lemma lk_start_ok:
  assumes "lk_inv s"
  shows "list_all (group_inv True) (lk_groups (lk_start s))" "lk_started (lk_start s)"
    "map (lk_rest F) (lk_groups (lk_start s)) = map (lk_rest F) (lk_groups s)"
    "length (lk_groups (lk_start s)) = length (lk_groups s)"
  using assms by (auto simp: lk_start_def lk_inv_def list_all_iff group_inv_def lk_rest_def)

definition rests :: "'f f64 \<Rightarrow> 'f lockstep \<Rightarrow> 'f point list list" where
  "rests F s = map (lk_rest F) (lk_groups s)"

lemma list_all_update: "list_all P xs \<Longrightarrow> P x \<Longrightarrow> list_all P (xs[i := x])"
  using set_update_subset_insert [of xs i x] by (auto simp: list_all_iff)

text \<open>Readers of lists of their own.\<close>

definition own_next :: "nat \<Rightarrow> 'f point list list \<Rightarrow> 'f point option \<times> 'f point list list" where
  "own_next index rs = (case rs ! index of [] \<Rightarrow> (None, rs) | p # ps \<Rightarrow> (Some p, rs[index := ps]))"

lemma lk_next_ok:
  assumes "lk_inv s" "index < length (lk_groups s)" "lk_next F index s = (r, s')"
  shows "lk_inv s'" "own_next index (rests F s) = (r, rests F s')" "length (lk_groups s') = length (lk_groups s)"
proof -
  let ?s = "lk_start s" and ?g = "lk_groups (lk_start s) ! index"
  note st = lk_start_ok [OF assms(1)]
  have len: "index < length (lk_groups ?s)" using assms(2) st(4) by simp
  have nth: "rests F s ! index = lk_rest F ?g"
    using len st(3) [of F] assms(2) by (metis nth_map rests_def)
  have "lk_inv s' \<and> own_next index (rests F s) = (r, rests F s') \<and> length (lk_groups s') = length (lk_groups s)"
  proof (cases "lk_buffer ?g = [] \<and> lk_head ?g = None")
    case True
    then have "r = None" "s' = ?s" using assms(3) by (auto simp: lk_next_def Let_def)
    moreover have "group_inv True ?g" using st(1) len by (simp add: list_all_length)
    then have "lk_rest F ?g = []" using True by (auto simp: lk_rest_def group_inv_def mr_points_end split: if_splits)
    ultimately show ?thesis using st nth by (simp add: lk_inv_def own_next_def rests_def)
  next
    case False
    obtain filled gs where fill: "lk_fill F index (lk_groups ?s) = (filled, gs)" by fastforce
    note ok = lk_fill_ok [OF fill st(1) len]
    have same: "map (lk_rest F) gs = rests F s" using ok st(3) [of F] by (simp add: rests_def)
    then have lengths: "length gs = length (lk_groups s)" by (metis length_map rests_def)
    have here: "rests F s ! index = lk_rest F (gs ! index)" using same lengths assms(2) by (metis nth_map)
    show ?thesis
    proof (cases filled)
      case True
      let ?h = "(gs ! index)\<lparr>lk_buffer := tl (lk_buffer (gs ! index))\<rparr>"
      have out: "r = Some (hd (lk_buffer (gs ! index)))" "s' = ?s\<lparr>lk_groups := gs[index := ?h]\<rparr>"
        using assms(3) False fill True by (auto simp: lk_next_def Let_def)
      have buffer: "lk_buffer (gs ! index) = hd (lk_buffer (gs ! index)) # tl (lk_buffer (gs ! index))" using ok True by simp
      then have "lk_rest F (gs ! index) = hd (lk_buffer (gs ! index)) # lk_rest F ?h"
        using append_Cons [of "hd (lk_buffer (gs ! index))" "tl (lk_buffer (gs ! index))"] by (simp add: lk_rest_def)
      moreover have "group_inv True ?h" using ok lengths assms(2) buffer
        by (auto simp: list_all_length group_inv_def split: if_splits)
      then have "lk_inv s'" using ok st(2) by (simp add: lk_inv_def out(2) list_all_update)
      moreover have "rests F s' = (rests F s)[index := lk_rest F ?h]"
        by (simp add: rests_def out(2) map_update same [unfolded rests_def])
      ultimately show ?thesis using here lengths out by (simp add: own_next_def)
    next
      case unfilled: False
      then have out: "r = None" "s' = ?s\<lparr>lk_groups := gs\<rparr>"
        using assms(3) False fill by (auto simp: lk_next_def Let_def)
      moreover have "rests F s ! index = []" using ok unfilled here by simp
      ultimately show ?thesis using ok st(2) same lengths by (simp add: lk_inv_def own_next_def rests_def)
    qed
  qed
  then show "lk_inv s'" "own_next index (rests F s) = (r, rests F s')" "length (lk_groups s') = length (lk_groups s)"
    by blast+
qed

lemma cleared_ends: "next_ts (mr_clear m) = None"
  by (cases "mr_children m") (auto simp: next_ts_def mr_clear_def least_t_None held_clear_def peek_t_def)

lemma lk_drop_ok:
  assumes "lk_inv s" "index < length (lk_groups s)"
  shows "lk_inv (lk_drop index s)" "rests F (lk_drop index s) = (rests F s)[index := []]"
    "length (lk_groups (lk_drop index s)) = length (lk_groups s)"
  using assms by (auto simp: lk_inv_def lk_drop_def rests_def list_all_length nth_list_update group_inv_def map_update
      lk_rest_def cleared_ends mr_points_end)

datatype reader_op = ReadGroup nat | DropGroup nat

fun op_index :: "reader_op \<Rightarrow> nat" where
  "op_index (ReadGroup i) = i"
| "op_index (DropGroup i) = i"

fun lk_run :: "'f f64 \<Rightarrow> reader_op list \<Rightarrow> 'f lockstep \<Rightarrow> 'f point option list" where
  "lk_run F [] s = []"
| "lk_run F (ReadGroup i # ops) s = (let (r, s) = lk_next F i s in r # lk_run F ops s)"
| "lk_run F (DropGroup i # ops) s = lk_run F ops (lk_drop i s)"

fun own_run :: "reader_op list \<Rightarrow> 'f point list list \<Rightarrow> 'f point option list" where
  "own_run [] rs = []"
| "own_run (ReadGroup i # ops) rs = (let (r, rs) = own_next i rs in r # own_run ops rs)"
| "own_run (DropGroup i # ops) rs = own_run ops (rs[i := []])"

lemma lk_run_ok:
  "lk_inv s \<Longrightarrow> \<forall>x \<in> set ops. op_index x < length (lk_groups s) \<Longrightarrow> lk_run F ops s = own_run ops (rests F s)"
proof (induction ops arbitrary: s)
  case (Cons x ops)
  show ?case
  proof (cases x)
    case (ReadGroup i)
    obtain r s' where n: "lk_next F i s = (r, s')" by fastforce
    have "i < length (lk_groups s)" using Cons.prems(2) ReadGroup by simp
    note ok = lk_next_ok [OF Cons.prems(1) this n]
    from Cons.IH [OF ok(1)] Cons.prems(2) ok(2,3) n show ?thesis by (simp add: ReadGroup)
  next
    case (DropGroup i)
    have "i < length (lk_groups s)" using Cons.prems(2) DropGroup by simp
    note ok = lk_drop_ok [OF Cons.prems(1) this]
    from Cons.IH [OF ok(1)] Cons.prems(2) ok(2,3) show ?thesis by (simp add: DropGroup)
  qed
qed simp

lemma lk_new_ok: "lk_inv (lk_new merges)" "rests F (lk_new merges) = map (mr_points F) merges"
  "length (lk_groups (lk_new merges)) = length merges"
  by (simp_all add: lk_inv_def lk_new_def list_all_iff group_inv_def rests_def lk_rest_def)

section \<open>The aggregation\<close>

text \<open>
  The groups and their children. A \<open>HashMap\<close> gives its entries in no order; here it is that in which the groups
  first occur. One group is read directly, several through \<open>Lockstep\<close>.
\<close>

fun add_child :: "labels \<Rightarrow> 'f point list \<Rightarrow> (labels \<times> 'f point list list) list \<Rightarrow> (labels \<times> 'f point list list) list" where
  "add_child key iter [] = [(key, [iter])]"
| "add_child key iter ((k, cs) # rest) = (if k = key then (k, cs @ [iter]) # rest else (k, cs) # add_child key iter rest)"

definition grouped :: "group_by \<Rightarrow> 'f series list \<Rightarrow> (labels \<times> 'f point list list) list" where
  "grouped by input = fold (\<lambda>(labels, iter). add_child (derive_group_labels by labels) iter) input []"

datatype 'f aggregated = Direct "labels list" "'f merge_reduce list" | Shared "labels list" "'f lockstep"

definition aggregate :: "'f series list \<Rightarrow> agg_op \<Rightarrow> group_by \<Rightarrow> join \<Rightarrow> 'f aggregated" where
  "aggregate input op by join =
     (let groups = grouped by input; merges = map (\<lambda>(_, children). mr_joined children op join) groups
      in if length groups < 2 then Direct (map fst groups) merges else Shared (map fst groups) (lk_new merges))"

fun agg_labels :: "'f aggregated \<Rightarrow> labels list" where
  "agg_labels (Direct ls _) = ls"
| "agg_labels (Shared ls _) = ls"

fun direct_run :: "'f f64 \<Rightarrow> reader_op list \<Rightarrow> 'f merge_reduce list \<Rightarrow> 'f point option list" where
  "direct_run F [] ms = []"
| "direct_run F (ReadGroup i # ops) ms = (let (r, m) = mr_next F (ms ! i) in r # direct_run F ops (ms[i := m]))"
| "direct_run F (DropGroup i # ops) ms = direct_run F ops (ms[i := mr_clear (ms ! i)])"

fun agg_run :: "'f f64 \<Rightarrow> reader_op list \<Rightarrow> 'f aggregated \<Rightarrow> 'f point option list" where
  "agg_run F ops (Direct _ ms) = direct_run F ops ms"
| "agg_run F ops (Shared _ s) = lk_run F ops s"

lemma direct_run_ok:
  "\<forall>x \<in> set ops. op_index x < length ms \<Longrightarrow> direct_run F ops ms = own_run ops (map (mr_points F) ms)"
proof (induction ops arbitrary: ms)
  case (Cons x ops)
  show ?case
  proof (cases x)
    case (ReadGroup i)
    obtain r m where n: "mr_next F (ms ! i) = (r, m)" by fastforce
    have i: "i < length ms" using Cons.prems ReadGroup by simp
    have "mr_next F (ms ! i) = (None, m) \<Longrightarrow> mr_points F (ms ! i) = [] \<and> mr_points F m = []"
      using mr_next_less [of F "ms ! i"] mr_points_next [of F "ms ! i"] by (auto simp: mr_points_end)
    have "own_next i (map (mr_points F) ms) = (r, map (mr_points F) (ms[i := m]))"
    proof (cases r)
      case None
      with \<open>mr_next F (ms ! i) = (None, m) \<Longrightarrow> _\<close> n have "mr_points F (ms ! i) = []" "mr_points F m = []" by simp_all
      moreover from this i have "(map (mr_points F) ms)[i := []] = map (mr_points F) ms" by (metis list_update_id nth_map)
      ultimately show ?thesis using i None by (simp add: own_next_def map_update)
    next
      case (Some p)
      with i mr_points_next [OF n] show ?thesis by (simp add: own_next_def map_update)
    qed
    with Cons.IH [of "ms[i := m]"] Cons.prems n show ?thesis by (simp add: ReadGroup)
  next
    case (DropGroup i)
    have i: "i < length ms" using Cons.prems DropGroup by simp
    with Cons.IH [of "ms[i := mr_clear (ms ! i)]"] Cons.prems show ?thesis
      by (simp add: DropGroup map_update mr_points_end cleared_ends)
  qed
qed simp

text \<open>The groups, by their labels.\<close>

definition group_keys :: "group_by \<Rightarrow> 'f series list \<Rightarrow> labels list" where
  "group_keys by input = rev (remdups (rev (map (derive_group_labels by \<circ> fst) input)))"

definition children_of :: "group_by \<Rightarrow> 'f series list \<Rightarrow> labels \<Rightarrow> 'f point list list" where
  "children_of by input key = map snd (filter (\<lambda>(labels, _). derive_group_labels by labels = key) input)"

lemma add_child_keys: "map fst (add_child key iter groups) = (if key \<in> set (map fst groups) then map fst groups else map fst groups @ [key])"
  by (induction key iter groups rule: add_child.induct) auto

lemma add_child_known:
  "distinct (map fst groups) \<Longrightarrow> key \<in> set (map fst groups) \<Longrightarrow>
     add_child key iter groups = map (\<lambda>(k, cs). (k, if k = key then cs @ [iter] else cs)) groups"
proof (induction key iter groups rule: add_child.induct)
  case (2 key iter k cs rest)
  have "map (\<lambda>(j, cs). (j, if j = key then cs @ [iter] else cs)) rest = rest" if "key \<notin> set (map fst rest)"
    using that by (induction rest) auto
  with 2 show ?case by auto
qed simp

lemma add_child_new: "key \<notin> set (map fst groups) \<Longrightarrow> add_child key iter groups = groups @ [(key, [iter])]"
  by (induction key iter groups rule: add_child.induct) auto

lemma grouped_ok: "grouped by input = map (\<lambda>key. (key, children_of by input key)) (group_keys by input)"
proof (induction input rule: rev_induct)
  case Nil
  then show ?case by (simp add: grouped_def group_keys_def)
next
  case (snoc x input)
  obtain l iter where x: "x = (l, iter)" by fastforce
  let ?key = "derive_group_labels by l"
  have step: "grouped by (input @ [x]) = add_child ?key iter (map (\<lambda>key. (key, children_of by input key)) (group_keys by input))"
    using snoc by (simp add: grouped_def x)
  have keys: "set (group_keys by input) = (derive_group_labels by \<circ> fst) ` set input" "distinct (group_keys by input)"
    by (simp_all add: group_keys_def)
  have more: "children_of by (input @ [x]) key = children_of by input key @ (if key = ?key then [iter] else [])" for key
    by (auto simp: children_of_def x)
  have fst: "map fst (map (\<lambda>key. (key, children_of by input key)) (group_keys by input)) = group_keys by input"
    by (simp add: comp_def)
  show ?case
  proof (cases "?key \<in> set (group_keys by input)")
    case True
    then have "group_keys by (input @ [x]) = group_keys by input" using keys by (auto simp: group_keys_def x)
    with True keys(2) fst show ?thesis
      unfolding step by (subst add_child_known) (auto simp: more)
  next
    case False
    then have "group_keys by (input @ [x]) = group_keys by input @ [?key]" using keys by (auto simp: group_keys_def x)
    moreover have "children_of by input ?key = []" using False keys(1) by (force simp: children_of_def filter_empty_conv)
    moreover have "map (\<lambda>key. (key, children_of by (input @ [x]) key)) (group_keys by input) =
        map (\<lambda>key. (key, children_of by input key)) (group_keys by input)"
      using False by (intro map_cong) (auto simp: more)
    ultimately show ?thesis using False fst unfolding step by (subst add_child_new) (simp_all add: more)
  qed
qed

text \<open>
  C19. Groups advanced in lockstep are independent. However the readers of an aggregation's groups take turns, and
  whichever are dropped midway, each is given the points of the merge of its own group's series, all of them and in
  order, as if each group were merged alone; every read returns.
\<close>

theorem each_reader_gets_its_group:
  assumes "agg = aggregate input op by join"
    and "\<forall>x \<in> set ops. op_index x < length (agg_labels agg)"
  shows "agg_labels agg = group_keys by input \<and>
    agg_run F ops agg = own_run ops (map (\<lambda>key. mr_points F (mr_joined (children_of by input key) op join)) (group_keys by input))"
proof -
  have "agg_labels agg = group_keys by input" by (simp add: assms(1) aggregate_def grouped_ok Let_def comp_def)
  moreover from this assms(2) have ix: "\<forall>x \<in> set ops. op_index x < length (group_keys by input)" by simp
  let ?ms = "map (\<lambda>key. mr_joined (children_of by input key) op join) (group_keys by input)"
  have "agg_run F ops agg = own_run ops (map (mr_points F) ?ms)"
  proof (cases "length (group_keys by input) < 2")
    case True
    then show ?thesis using direct_run_ok [of ops ?ms F] ix by (simp add: assms(1) aggregate_def grouped_ok comp_def)
  next
    case False
    then show ?thesis using lk_run_ok [OF lk_new_ok(1), of ops ?ms F] ix
      by (simp add: assms(1) aggregate_def grouped_ok comp_def lk_new_ok)
  qed
  ultimately show ?thesis by (simp add: comp_def)
qed

section \<open>Exact merges reduce by time\<close>

definition increasing :: "'f point list \<Rightarrow> bool" where
  "increasing ps \<longleftrightarrow> sorted_wrt (\<lambda>p q. pt_t p < pt_t q) ps"

definition times :: "'f point list list \<Rightarrow> u64 set" where
  "times cs = (\<Union>ps \<in> set cs. pt_t ` set ps)"

definition found_at :: "u64 \<Rightarrow> 'f point list \<Rightarrow> 'f point option" where
  "found_at t ps = find (\<lambda>p. pt_t p = t) ps"

definition reduced_at :: "'f f64 \<Rightarrow> agg_op \<Rightarrow> 'f point list list \<Rightarrow> u64 \<Rightarrow> 'f point" where
  "reduced_at F op cs t =
     the (rd_finish F op t (fold (rd_add F) (List.map_filter (found_at t) cs) (reduction_default F)))"

lemma finite_times [simp]: "finite (times cs)"
  by (simp add: times_def)

lemma rd_count_fold: "rd_count (fold (rd_add F) ps r) = rd_count r + length ps"
  by (induction ps arbitrary: r) (simp_all add: rd_add_def case_prod_beta Let_def)

lemma rd_finish_some: "rd_count r \<noteq> 0 \<Longrightarrow> \<exists>p. rd_finish F op t r = Some p"
  by (simp add: rd_finish_def Let_def)

lemma increasing_take:
  fixes ps :: "'f point list"
  assumes "increasing ps" "\<forall>p \<in> set ps. t \<le> pt_t p"
  shows "fst (take_exact t ps) = found_at t ps" "increasing (snd (take_exact t ps))"
    "pt_t ` set (snd (take_exact t ps)) = pt_t ` set ps - {t}"
    "t' \<noteq> t \<Longrightarrow> found_at t' (snd (take_exact t ps)) = found_at t' ps"
proof -
  have none: "find (\<lambda>p. pt_t p = t) qs = None" if "\<forall>p \<in> set qs. t < pt_t p" for qs :: "'f point list"
    using that by (auto simp: find_None_iff)
  show "fst (take_exact t ps) = found_at t ps"
  proof (cases ps)
    case (Cons p qs)
    then show ?thesis
    proof (cases "pt_t p = t")
      case False
      then have "t < pt_t p" using assms(2) Cons by auto
      then have "\<forall>q \<in> set qs. t < pt_t q" using assms(1) Cons by (auto simp: increasing_def)
      with none False Cons show ?thesis by (simp add: take_exact_def found_at_def)
    qed (simp add: take_exact_def found_at_def)
  qed (simp add: take_exact_def found_at_def)
  show "increasing (snd (take_exact t ps))"
    using assms(1) by (auto simp: take_exact_def increasing_def split: list.split)
  show "pt_t ` set (snd (take_exact t ps)) = pt_t ` set ps - {t}"
    using assms by (cases ps) (auto simp: take_exact_def increasing_def order_le_less image_iff)
  show "t' \<noteq> t \<Longrightarrow> found_at t' (snd (take_exact t ps)) = found_at t' ps"
    by (auto simp: take_exact_def found_at_def split: list.split)
qed

lemma sorted_list_Min:
  assumes "finite S" "S \<noteq> {}"
  shows "sorted_list_of_set S = Min S # sorted_list_of_set (S - {Min S})"
  using assms by (simp add: sorted_list_of_set_nonempty)

lemma head_times: "increasing ps \<Longrightarrow> head_t ps = Some t \<Longrightarrow> p \<in> set ps \<Longrightarrow> t \<le> pt_t p"
  by (cases ps) (auto simp: head_t_def increasing_def)

lemma next_is_least:
  assumes "\<forall>ps \<in> set cs. increasing ps"
  shows "next_ts \<lparr>mr_children = ExactChildren cs, mr_op = op\<rparr> = (if times cs = {} then None else Some (Min (times cs)))"
proof (cases "least_t (map head_t cs)")
  case None
  then have heads: "\<forall>ps \<in> set cs. head_t ps = None" by (simp add: least_t_None)
  moreover have "head_t ps = None \<longleftrightarrow> ps = []" for ps :: "'a point list" by (cases ps) (simp_all add: head_t_def)
  ultimately have "\<forall>ps \<in> set cs. ps = []" by blast
  with None show ?thesis by (auto simp: next_ts_def times_def)
next
  case (Some t)
  from least_t_in [OF Some] obtain ps where ps: "ps \<in> set cs" "head_t ps = Some t" by auto
  then obtain p qs where "ps = p # qs" "t = pt_t p" by (auto simp: head_t_def split: list.splits)
  then have "t \<in> times cs" using ps(1) unfolding times_def by force
  moreover have "t \<le> x" if "x \<in> times cs" for x
  proof -
    from that obtain qs q where q: "qs \<in> set cs" "q \<in> set qs" "x = pt_t q" by (auto simp: times_def)
    then have "qs \<noteq> []" by auto
    then obtain u where u: "head_t qs = Some u" by (auto simp: head_t_def neq_Nil_conv)
    from least_t_le [OF Some, of u] u q(1) have "t \<le> u" by force
    also have "u \<le> x" using head_times [of qs u q] assms q u by auto
    finally show ?thesis .
  qed
  ultimately have "Min (times cs) = t" by (intro Min_eqI) auto
  with Some \<open>t \<in> times cs\<close> show ?thesis by (auto simp: next_ts_def)
qed

lemma exact_points:
  assumes "\<forall>ps \<in> set cs. increasing ps"
  shows "mr_points F \<lparr>mr_children = ExactChildren cs, mr_op = op\<rparr> = map (reduced_at F op cs) (sorted_list_of_set (times cs))"
  using assms
proof (induction "mr_left (ExactChildren cs)" arbitrary: cs rule: less_induct)
  case less
  let ?m = "\<lparr>mr_children = ExactChildren cs, mr_op = op\<rparr>"
  show ?case
  proof (cases "times cs = {}")
    case True
    with next_is_least [OF less.prems] show ?thesis by (simp add: mr_points_end)
  next
    case False
    let ?t = "Min (times cs)" and ?cs = "map (snd \<circ> take_exact (Min (times cs))) cs"
    have n: "next_ts ?m = Some ?t" using next_is_least [OF less.prems, of op] False by simp
    have low: "\<forall>p \<in> set ps. ?t \<le> pt_t p" if "ps \<in> set cs" for ps
      using that by (auto intro!: Min_le simp: times_def)
    note take = increasing_take [OF bspec [OF less.prems] low]
    have found: "List.map_filter (fst \<circ> take_exact ?t) cs = List.map_filter (found_at ?t) cs"
      by (simp add: List.map_filter_def comp_def) (rule map_cong, rule filter_cong, simp_all add: take(1))
    obtain ps where ps: "ps \<in> set cs" "?t \<in> pt_t ` set ps" using Min_in [OF finite_times False] by (auto simp: times_def)
    then have "found_at ?t ps \<noteq> None" by (auto simp: found_at_def find_None_iff)
    with ps(1) have "length (List.map_filter (found_at ?t) cs) \<noteq> 0" by (auto simp: List.map_filter_def filter_empty_conv)
    then have "rd_count (fold (rd_add F) (List.map_filter (found_at ?t) cs) (reduction_default F)) \<noteq> 0"
      by (simp add: rd_count_fold)
    then have fin: "rd_finish F op ?t (fold (rd_add F) (List.map_filter (found_at ?t) cs) (reduction_default F)) =
        Some (reduced_at F op cs ?t)"
      unfolding reduced_at_def using rd_finish_some [of _ F op ?t] by (metis option.sel)
    have next1: "mr_next F ?m = (Some (reduced_at F op cs ?t), \<lparr>mr_children = ExactChildren ?cs, mr_op = op\<rparr>)"
      by (simp add: mr_next.simps [of F ?m] n mr_round_def found fin)
    have "mr_left (ExactChildren ?cs) < mr_left (ExactChildren cs)"
      using mr_round_takes [OF n, of F] by (simp add: mr_round_def)
    moreover have "\<forall>ps \<in> set ?cs. increasing ps" using take(2) by simp
    ultimately have rest: "mr_points F \<lparr>mr_children = ExactChildren ?cs, mr_op = op\<rparr> =
        map (reduced_at F op ?cs) (sorted_list_of_set (times ?cs))"
      by (rule less.hyps)
    have "times ?cs = times cs - {?t}" using take(3) by (auto simp: times_def)
    moreover have "reduced_at F op ?cs t' = reduced_at F op cs t'" if "t' \<in> times ?cs" for t'
    proof -
      have "t' \<noteq> ?t" using that \<open>times ?cs = times cs - {?t}\<close> by blast
      then have "List.map_filter (found_at t') ?cs = List.map_filter (found_at t') cs"
        by (simp add: List.map_filter_def filter_map comp_def) (rule map_cong, rule filter_cong, simp_all add: take(4))
      then show ?thesis by (simp add: reduced_at_def)
    qed
    ultimately show ?thesis
      by (simp add: mr_points.simps [of F ?m] next1 rest sorted_list_Min [OF finite_times False])
  qed
qed

text \<open>
  C27. An aggregation on the grid reduces by time. Over series whose times increase, a group's merge gives one point for
  each time some series has, the earliest first, and it is the reduction of the points the series have there.
\<close>

theorem exact_aggregation_reduces_by_time:
  assumes "\<forall>(labels, ps) \<in> set input. increasing ps"
  shows "mr_points F (mr_joined (children_of by input key) op Exact) =
    map (reduced_at F op (children_of by input key)) (sorted_list_of_set (times (children_of by input key)))"
proof -
  have "\<forall>ps \<in> set (children_of by input key). increasing ps" using assms by (auto simp: children_of_def)
  then show ?thesis by (simp add: mr_joined_def exact_points)
qed

end
