(* ===== verification/Binary.thy ===== *)
theory Binary
  imports Aggregation
begin

text \<open>
  Binary operators over series (\<open>metriken-query/src/promql/streaming/binary.rs\<close>): the operators and their bands,
  the two ways two series are joined, and the matching of two sets of series.
\<close>

section \<open>Operators and bands\<close>

datatype bin_op = OpAdd | OpSub | OpMul | OpDiv

definition op_apply :: "'f f64 \<Rightarrow> bin_op \<Rightarrow> 'f \<Rightarrow> 'f \<Rightarrow> 'f option" where
  "op_apply F op lhs rhs = (case op of
       OpAdd \<Rightarrow> Some (f_add F lhs rhs)
     | OpSub \<Rightarrow> Some (f_sub F lhs rhs)
     | OpMul \<Rightarrow> Some (f_mul F lhs rhs)
     | OpDiv \<Rightarrow> if \<not> f_eq F rhs (f_zero F) then Some (f_div F lhs rhs) else None)"

definition interval_binop :: "'f f64 \<Rightarrow> bin_op \<Rightarrow> 'f band \<Rightarrow> 'f band \<Rightarrow> 'f band option" where
  "interval_binop F op l r =
     (let (a, b) = l; (c, d) = r;
          at = (\<lambda>f. [f a c, f a d, f b c, f b d]);
          corners = (case op of
              OpAdd \<Rightarrow> Some (at (f_add F)) | OpSub \<Rightarrow> Some (at (f_sub F)) | OpMul \<Rightarrow> Some (at (f_mul F))
            | OpDiv \<Rightarrow> if f_le F c (f_zero F) \<and> f_le F (f_zero F) d then None else Some (at (f_div F)))
      in case corners of
          None \<Rightarrow> None
        | Some xs \<Rightarrow>
            if list_ex (\<lambda>x. \<not> f_is_finite F x) xs then None
            else Some (foldl (f_min F) (f_infinity F) xs, foldl (f_max F) (f_neg_infinity F) xs))"

definition widen_band :: "'f f64 \<Rightarrow> 'f band \<Rightarrow> 'f rate_edges \<Rightarrow> 'f rate_edges \<Rightarrow> 'f \<Rightarrow> 'f band" where
  "widen_band F b own joint nominal =
     (let own_max = f_sub F (snd (re_right own)) (fst (re_left own));
          own_min = f_sub F (fst (re_right own)) (snd (re_left own));
          union_max = f_sub F (snd (re_right joint)) (fst (re_left joint));
          union_min = f_sub F (fst (re_right joint)) (snd (re_left joint))
      in if f_le F own_max (f_zero F) \<or> f_le F own_min (f_zero F) \<or> f_le F union_max (f_zero F) \<or> f_le F union_min (f_zero F)
         then b
         else
           (let shrink = f_div F own_max union_max; grow = f_div F own_min union_min;
                lo = f_min F (f_mul F (fst b) shrink) (f_mul F (fst b) grow);
                hi = f_max F (f_mul F (snd b) shrink) (f_mul F (snd b) grow)
            in (f_min F (f_min F (fst b) lo) nominal, f_max F (f_max F (snd b) hi) nominal)))"

definition spans_apart :: "'f f64 \<Rightarrow> 'f rate_edges \<Rightarrow> 'f rate_edges \<Rightarrow> bool" where
  "spans_apart F l r =
     (let left_end = f_max F (snd (re_left l)) (snd (re_left r)); right_begin = f_min F (fst (re_right l)) (fst (re_right r))
      in f_le F (f_sub F right_begin left_end) (f_zero F))"

definition union_edges :: "'f f64 \<Rightarrow> 'f rate_edges \<Rightarrow> 'f rate_edges \<Rightarrow> 'f rate_edges" where
  "union_edges F l r = \<lparr>
     re_left = (f_min F (fst (re_left l)) (fst (re_left r)), f_max F (snd (re_left l)) (snd (re_left r))),
     re_right = (f_min F (fst (re_right l)) (fst (re_right r)), f_max F (snd (re_right l)) (snd (re_right r)))\<rparr>"

text \<open>The operand's band, widened when the other operand belongs to another read; a bandless one is exact.\<close>

definition operand_band ::
  "'f f64 \<Rightarrow> 'f \<Rightarrow> 'f band option \<Rightarrow> 'f rate_edges option \<Rightarrow> 'f rate_edges option \<Rightarrow> 'f rate_edges option \<Rightarrow> 'f band" where
  "operand_band F v b le re own =
     (case b of
        None \<Rightarrow> (v, v)
      | Some b \<Rightarrow>
          (case (le, re, own) of
             (Some l, Some r, Some e) \<Rightarrow>
               if \<not> edges_eq F (Some l) (Some r) then widen_band F b e (union_edges F l r) v else b
           | _ \<Rightarrow> b))"

definition combine_bounds ::
  "'f f64 \<Rightarrow> bin_op \<Rightarrow> 'f \<Rightarrow> 'f band option \<Rightarrow> 'f rate_edges option \<Rightarrow> 'f \<Rightarrow> 'f band option \<Rightarrow> 'f rate_edges option \<Rightarrow> 'f band option" where
  "combine_bounds F op lv lb le rv rb re =
     (if lb = None \<and> rb = None then None
      else interval_binop F op (operand_band F lv lb le re le) (operand_band F rv rb le re re))"

definition combine_points :: "'f f64 \<Rightarrow> bin_op \<Rightarrow> 'f point \<Rightarrow> 'f point \<Rightarrow> 'f point option" where
  "combine_points F op left right =
     (case op_apply F op (pt_v left) (pt_v right) of
        None \<Rightarrow> None
      | Some v \<Rightarrow>
          (let bounds = combine_bounds F op (pt_v left) (pt_bounds left) (pt_edges left) (pt_v right) (pt_bounds right) (pt_edges right);
               apart = (case (pt_edges left, pt_edges right) of
                   (Some l, Some r) \<Rightarrow> \<not> edges_eq F (Some l) (Some r) \<and> spans_apart F l r | _ \<Rightarrow> False);
               interpolated = (pt_interpolated left \<or> pt_interpolated right \<or> apart)
           in Some \<lparr>pt_t = pt_t left, pt_v = v, pt_bounds = (if interpolated then None else bounds),
                pt_edges = (if edges_eq F (pt_edges left) (pt_edges right) then pt_edges left else None),
                pt_interpolated = interpolated, pt_timing = False\<rparr>))"

section \<open>A series and a scalar\<close>

definition scalar_point :: "'f f64 \<Rightarrow> bin_op \<Rightarrow> 'f \<Rightarrow> bool \<Rightarrow> 'f point \<Rightarrow> 'f point option" where
  "scalar_point F op scalar scalar_first p =
     (if pt_timing p then Some p
      else case (if scalar_first then op_apply F op scalar (pt_v p) else op_apply F op (pt_v p) scalar) of
          None \<Rightarrow> None
        | Some r \<Rightarrow> Some \<lparr>pt_t = pt_t p, pt_v = r,
            pt_bounds = Option.bind (pt_bounds p) (\<lambda>b.
              if scalar_first then interval_binop F op (scalar, scalar) b else interval_binop F op b (scalar, scalar)),
            pt_edges = pt_edges p, pt_interpolated = pt_interpolated p, pt_timing = False\<rparr>)"

definition matrix_scalar_op :: "'f f64 \<Rightarrow> 'f series list \<Rightarrow> bin_op \<Rightarrow> 'f \<Rightarrow> bool \<Rightarrow> 'f series list" where
  "matrix_scalar_op F series op scalar scalar_first =
     map (\<lambda>(labels, points). (labels, List.map_filter (scalar_point F op scalar scalar_first) points)) series"

section \<open>Two series\<close>

subsection \<open>At the times both have\<close>

function zip_next :: "'f f64 \<Rightarrow> bin_op \<Rightarrow> 'f point list \<Rightarrow> 'f point list \<Rightarrow> 'f point option \<times> 'f point list \<times> 'f point list" where
  "zip_next F op left right =
     (case (left, right) of
        (l # ls, r # rs) \<Rightarrow>
          if pt_t l < pt_t r then zip_next F op ls right
          else if pt_t r < pt_t l then zip_next F op left rs
          else (case combine_points F op l r of Some p \<Rightarrow> (Some p, ls, rs) | None \<Rightarrow> zip_next F op ls rs)
      | _ \<Rightarrow> (None, left, right))"
  by pat_completeness auto

termination
  by (relation "measure (\<lambda>(F, op, left, right). length left + length right)") auto

declare zip_next.simps [simp del]

lemma zip_next_less:
  "zip_next F op left right = (Some p, left', right') \<Longrightarrow> length left' + length right' < length left + length right"
proof (induction F op left right rule: zip_next.induct)
  case (1 F op left right)
  show ?case
  proof (cases left)
    case Nil
    with 1(4) show ?thesis by (simp add: zip_next.simps [of F op "[]" right])
  next
    case l: (Cons l ls)
    show ?thesis
    proof (cases right)
      case Nil
      with l 1(4) show ?thesis by (simp add: zip_next.simps [of F op "l # ls" "[]"])
    next
      case r: (Cons r rs)
      from 1 l r show ?thesis
        by (force simp: zip_next.simps [of F op "l # ls" "r # rs"] split: if_splits option.splits)
    qed
  qed
qed

function zip_points :: "'f f64 \<Rightarrow> bin_op \<Rightarrow> 'f point list \<Rightarrow> 'f point list \<Rightarrow> 'f point list" where
  "zip_points F op left right = (case zip_next F op left right of
       (None, _) \<Rightarrow> [] | (Some p, left', right') \<Rightarrow> p # zip_points F op left' right')"
  by pat_completeness auto

termination
  by (relation "measure (\<lambda>(F, op, left, right). length left + length right)") (auto dest!: sym [of "(Some _, _)"] zip_next_less)

declare zip_points.simps [simp del]

subsection \<open>Each held between its points\<close>

text \<open>What one time gives; \<open>None\<close> is the loop's next turn.\<close>

definition latest_at :: "'f f64 \<Rightarrow> bin_op \<Rightarrow> u64 \<Rightarrow> 'f held_series \<Rightarrow> 'f held_series \<Rightarrow> 'f point option" where
  "latest_at F op t left right = (case (held_at t left, held_at t right) of
       (Some l, Some r) \<Rightarrow> combine_points F op (l\<lparr>pt_t := t\<rparr>) r
     | _ \<Rightarrow> if held_timing_at t left \<or> held_timing_at t right then Some (timing_at F t) else None)"

lemma held_advances:
  fixes left right :: "'a held_series"
  assumes "least_t [peek_t left, peek_t right] = Some t"
  shows "length (hd_iter (advance_to t left)) + length (hd_iter (advance_to t right)) < length (hd_iter left) + length (hd_iter right)"
proof -
  have le: "length (hd_iter (advance_to t h)) \<le> length (hd_iter h)" for h :: "'a held_series"
    using advance_points_shrinks by (auto simp: advance_to_def split: prod.splits)
  have less: "length (hd_iter (advance_to t h)) < length (hd_iter h)" if "peek_t h = Some t" for h :: "'a held_series"
  proof -
    have "hd_iter h \<noteq> []" "pt_t (hd (hd_iter h)) = t" using that by (auto simp: peek_t_def split: list.splits)
    then show ?thesis using advance_points_takes [of "hd_iter h" t] by (auto simp: advance_to_def split: prod.splits)
  qed
  have "peek_t left = Some t \<or> peek_t right = Some t" using least_t_in [OF assms] by auto
  with less [of left] less [of right] le [of left] le [of right] show ?thesis by linarith
qed

function latest_next :: "'f f64 \<Rightarrow> bin_op \<Rightarrow> 'f held_series \<Rightarrow> 'f held_series \<Rightarrow> 'f point option \<times> 'f held_series \<times> 'f held_series" where
  "latest_next F op left right =
     (case least_t [peek_t left, peek_t right] of
        None \<Rightarrow> (None, left, right)
      | Some t \<Rightarrow>
          (case latest_at F op t (advance_to t left) (advance_to t right) of
             Some p \<Rightarrow> (Some p, advance_to t left, advance_to t right)
           | None \<Rightarrow> latest_next F op (advance_to t left) (advance_to t right)))"
  by pat_completeness auto

termination
  by (relation "measure (\<lambda>(F, op, left, right). length (hd_iter left) + length (hd_iter right))") (auto simp: held_advances)

declare latest_next.simps [simp del]

lemma latest_next_less:
  "latest_next F op left right = (Some p, left', right') \<Longrightarrow>
     length (hd_iter left') + length (hd_iter right') < length (hd_iter left) + length (hd_iter right)"
proof (induction F op left right rule: latest_next.induct)
  case (1 F op left right)
  show ?case
  proof (cases "least_t [peek_t left, peek_t right]")
    case None
    with 1(2) show ?thesis by (simp add: latest_next.simps [of F op left right])
  next
    case (Some t)
    note less = held_advances [OF Some]
    show ?thesis
    proof (cases "latest_at F op t (advance_to t left) (advance_to t right)")
      case None
      with 1 Some less show ?thesis by (simp add: latest_next.simps [of F op left right])
    next
      case (Some q)
      with 1(2) \<open>least_t _ = Some t\<close> less show ?thesis by (auto simp: latest_next.simps [of F op left right])
    qed
  qed
qed

function latest_points :: "'f f64 \<Rightarrow> bin_op \<Rightarrow> 'f held_series \<Rightarrow> 'f held_series \<Rightarrow> 'f point list" where
  "latest_points F op left right = (case latest_next F op left right of
       (None, _) \<Rightarrow> [] | (Some p, left', right') \<Rightarrow> p # latest_points F op left' right')"
  by pat_completeness auto

termination
  by (relation "measure (\<lambda>(F, op, left, right). length (hd_iter left) + length (hd_iter right))")
    (auto dest!: sym [of "(Some _, _)"] latest_next_less)

declare latest_points.simps [simp del]

subsection \<open>Either\<close>

definition pair :: "'f f64 \<Rightarrow> 'f point list \<Rightarrow> 'f point list \<Rightarrow> bin_op \<Rightarrow> join \<Rightarrow> 'f point list" where
  "pair F left right op join = (case join of
       Exact \<Rightarrow> zip_points F op left right
     | Latest hold \<Rightarrow> latest_points F op (held_new left hold) (held_new right hold))"

text \<open>
  \<open>RightLookupBinary\<close>: against the right side's points by their time. The map is built from the points in order, so
  a later point at one time takes the place of an earlier.
\<close>

definition right_lookup :: "'f point list \<Rightarrow> u64 \<Rightarrow> 'f point option" where
  "right_lookup points t = map_of (rev (map (\<lambda>p. (pt_t p, p\<lparr>pt_timing := False\<rparr>)) points)) t"

definition lookup_points :: "'f f64 \<Rightarrow> bin_op \<Rightarrow> 'f point list \<Rightarrow> 'f point list \<Rightarrow> 'f point list" where
  "lookup_points F op left right =
     List.map_filter (\<lambda>p. Option.bind (right_lookup right (pt_t p)) (combine_points F op p)) left"

section \<open>Two sets of series\<close>

datatype match_spec = DefaultMatch | On "string list" | Ignoring "string list"

definition match_key :: "labels \<Rightarrow> match_spec \<Rightarrow> labels" where
  "match_key labels spec = (case spec of
       DefaultMatch \<Rightarrow> fmfilter is_matched_label labels
     | On ks \<Rightarrow> fmfilter (\<lambda>k. k \<in> set ks) labels
     | Ignoring ks \<Rightarrow> fmfilter (\<lambda>k. is_matched_label k \<and> k \<notin> set ks) labels)"

type_synonym 'f keyed_series = "labels \<times> 'f series"

definition keyed :: "'f series list \<Rightarrow> match_spec \<Rightarrow> 'f keyed_series list" where
  "keyed s spec = map (\<lambda>(labels, points). (match_key labels spec, labels, points)) s"

text \<open>
  Whether a series has a point in the range: the points read, up to the first with a value at or after the start,
  and whether the last one with a value before it is held to it.
\<close>

fun read_to :: "u64 \<Rightarrow> 'f point list \<Rightarrow> 'f point list \<times> bool" where
  "read_to start_ns [] = ([], False)"
| "read_to start_ns (p # ps) =
     (if \<not> pt_timing p \<and> start_ns \<le> pt_t p then ([p], True)
      else (let (read, in_range) = read_to start_ns ps in (p # read, in_range)))"

fun held_gap :: "u64 \<Rightarrow> u64 option \<Rightarrow> 'f point list \<Rightarrow> ('f point \<times> u64) option" where
  "held_gap hold_ns before [] = None"
| "held_gap hold_ns before (p # ps) =
     (case held_gap hold_ns (Some (pt_t p)) ps of
        Some later \<Rightarrow> Some later
      | None \<Rightarrow> if pt_timing p then None
          else Some (p, case before of Some b \<Rightarrow> pt_t p - b | None \<Rightarrow> hold_ns))"

definition has_points :: "'f point list \<Rightarrow> u64 \<Rightarrow> u64 \<Rightarrow> bool" where
  "has_points points start_ns hold_ns =
     (let (read, in_range) = read_to start_ns points
      in in_range \<or> (case held_gap hold_ns None read of
             Some (p, gap) \<Rightarrow> start_ns - pt_t p \<le> min gap hold_ns | None \<Rightarrow> False))"

definition keys_shared :: "(labels \<Rightarrow> bool) \<Rightarrow> 'f keyed_series list \<Rightarrow> labels list" where
  "keys_shared checked series =
     filter (\<lambda>key. 1 < length (filter (\<lambda>(k, _). k = key) series)) (remdups (filter checked (map fst series)))"

fun unique_loop ::
  "labels list \<Rightarrow> u64 \<Rightarrow> u64 \<Rightarrow> 'f keyed_series list \<Rightarrow> (labels \<rightharpoonup> labels) \<Rightarrow> 'f keyed_series list \<Rightarrow>
     (labels \<times> labels \<times> labels) + 'f keyed_series list" where
  "unique_loop shared start_ns hold_ns [] kept_of out = Inr out"
| "unique_loop shared start_ns hold_ns ((key, labels, points) # rest) kept_of out =
     (if key \<notin> set shared then unique_loop shared start_ns hold_ns rest kept_of (out @ [(key, labels, points)])
      else if \<not> has_points points start_ns hold_ns then unique_loop shared start_ns hold_ns rest kept_of out
      else case kept_of key of
          Some first \<Rightarrow> Inl (key, first, labels)
        | None \<Rightarrow> unique_loop shared start_ns hold_ns rest (kept_of(key \<mapsto> labels)) (out @ [(key, labels, points)]))"

definition unique_by_key ::
  "'f keyed_series list \<Rightarrow> u64 \<Rightarrow> u64 \<Rightarrow> (labels \<Rightarrow> bool) \<Rightarrow> (labels \<times> labels \<times> labels) + 'f keyed_series list" where
  "unique_by_key series start_ns hold_ns checked =
     (let shared = keys_shared checked series
      in if shared = [] then Inr series else unique_loop shared start_ns hold_ns series Map.empty [])"

definition same_recording :: "labels \<Rightarrow> labels \<Rightarrow> string list \<Rightarrow> bool" where
  "same_recording a b recording_keys \<longleftrightarrow> list_all (\<lambda>k. case (fmlookup a k, fmlookup b k) of
       (Some x, Some y) \<Rightarrow> x = y | _ \<Rightarrow> True) recording_keys"

text \<open>The errors, with the match group and the two label sets their messages name.\<close>

datatype match_error = ManyToMany labels labels labels | MultipleMatches labels labels labels | SameLabels labels

definition join_hold :: "join \<Rightarrow> u64" where
  "join_hold join = (case join of Latest hold \<Rightarrow> hold | Exact \<Rightarrow> 0)"

text \<open>Each left series with the right one of its key, which is taken; those without one.\<close>

fun match_left ::
  "'f f64 \<Rightarrow> bin_op \<Rightarrow> join \<Rightarrow> 'f keyed_series list \<Rightarrow> 'f keyed_series list \<Rightarrow>
     'f series list \<times> 'f series list \<times> 'f keyed_series list" where
  "match_left F op join [] rights = ([], [], rights)"
| "match_left F op join ((key, labels, points) # rest) rights =
     (case map_of rights key of
        Some (_, right) \<Rightarrow>
          (let (out, unmatched, rights') = match_left F op join rest (filter (\<lambda>(k, _). k \<noteq> key) rights)
           in ((labels, pair F points right op join) # out, unmatched, rights'))
      | None \<Rightarrow>
          (let (out, unmatched, rights') = match_left F op join rest rights in (out, (labels, points) # unmatched, rights')))"

definition broadcast ::
  "'f f64 \<Rightarrow> bin_op \<Rightarrow> join \<Rightarrow> string list \<Rightarrow> 'f keyed_series list \<Rightarrow> 'f series \<Rightarrow> 'f series option" where
  "broadcast F op join recording_keys rights = (\<lambda>(labels, points).
     (case filter (\<lambda>(_, right_labels, _). same_recording labels right_labels recording_keys) rights of
        [(_, _, right)] \<Rightarrow> Some (labels, case join of
            Exact \<Rightarrow> lookup_points F op points right | Latest _ \<Rightarrow> pair F points right op join)
      | _ \<Rightarrow> None))"

text \<open>The right series by key: their keys are distinct by then. The order a \<open>HashMap\<close> lists them in is not read.\<close>

definition matrix_matrix_op ::
  "'f f64 \<Rightarrow> 'f series list \<Rightarrow> 'f series list \<Rightarrow> bin_op \<Rightarrow> match_spec \<Rightarrow> string list \<Rightarrow> join \<Rightarrow> u64 \<Rightarrow>
     match_error + 'f series list" where
  "matrix_matrix_op F left_set right_set op spec recording_keys join start_ns =
     (let hold = join_hold join
      in case unique_by_key (keyed right_set spec) start_ns hold (\<lambda>_. True) of
          Inl (key, a, b) \<Rightarrow> Inl (ManyToMany key a b)
        | Inr right_by_key \<Rightarrow>
            (case unique_by_key (keyed left_set spec) start_ns hold (\<lambda>key. key \<in> fst ` set right_by_key) of
               Inl (key, a, b) \<Rightarrow> Inl (MultipleMatches key a b)
             | Inr left \<Rightarrow>
                 (let (out, unmatched, rights) = match_left F op join left right_by_key
                  in if unmatched = [] \<or> spec \<noteq> DefaultMatch \<or> rights = [] then Inr out
                     else Inr (out @ List.map_filter (broadcast F op join recording_keys rights) unmatched))))"

datatype one_side = OneRight | OneLeft

definition distinct_label_sets :: "'f series list \<Rightarrow> u64 \<Rightarrow> u64 \<Rightarrow> labels + 'f series list" where
  "distinct_label_sets s start_ns hold_ns =
     (case unique_by_key (map (\<lambda>(labels, points). (labels, labels, points)) s) start_ns hold_ns (\<lambda>_. True) of
        Inl (_, a, _) \<Rightarrow> Inl a | Inr u \<Rightarrow> Inr (map snd u))"

definition include_labels :: "string list \<Rightarrow> labels \<Rightarrow> labels \<Rightarrow> labels" where
  "include_labels include one many = fold (\<lambda>name labels. case fmlookup one name of
       Some v \<Rightarrow> fmupd name v labels | None \<Rightarrow> fmdrop name labels) include many"

definition grouped_series ::
  "'f f64 \<Rightarrow> bin_op \<Rightarrow> one_side \<Rightarrow> string list \<Rightarrow> join \<Rightarrow> 'f keyed_series list \<Rightarrow> 'f keyed_series \<Rightarrow> 'f series option" where
  "grouped_series F op side include join ones = (\<lambda>(key, labels, points).
     (case map_of ones key of
        None \<Rightarrow> None
      | Some (one_labels, one) \<Rightarrow> Some (include_labels include one_labels labels,
          case side of OneRight \<Rightarrow> pair F points one op join | OneLeft \<Rightarrow> pair F one points op join)))"

definition matrix_grouped_op ::
  "'f f64 \<Rightarrow> 'f series list \<Rightarrow> 'f series list \<Rightarrow> bin_op \<Rightarrow> match_spec \<Rightarrow> one_side \<Rightarrow> string list \<Rightarrow> join \<Rightarrow> u64 \<Rightarrow>
     match_error + 'f series list" where
  "matrix_grouped_op F left_set right_set op spec side include join start_ns =
     (let hold = join_hold join;
          (many_set, one_set) = (case side of OneRight \<Rightarrow> (left_set, right_set) | OneLeft \<Rightarrow> (right_set, left_set))
      in case unique_by_key (keyed one_set spec) start_ns hold (\<lambda>_. True) of
          Inl (key, a, b) \<Rightarrow> Inl (ManyToMany key a b)
        | Inr ones \<Rightarrow>
            (case distinct_label_sets (List.map_filter (grouped_series F op side include join ones) (keyed many_set spec)) start_ns hold of
               Inl labels \<Rightarrow> Inl (SameLabels labels) | Inr s \<Rightarrow> Inr s))"

end
