(* ===== verification/Matching.thy ===== *)
theory Matching
  imports Binary Complex_Main
begin

text \<open>
  What a binary operator gives: the points of two series at the times both have, one-to-one matching of two sets of
  series, and bands that hold the value they bound.
\<close>

section \<open>Two series\<close>

lemma map_filter_same: "(\<And>x. x \<in> set xs \<Longrightarrow> f x = g x) \<Longrightarrow> List.map_filter f xs = List.map_filter g xs"
  by (induction xs) (simp_all add: map_filter_simps split: option.split)

definition at_shared :: "'f f64 \<Rightarrow> bin_op \<Rightarrow> 'f point list \<Rightarrow> 'f point \<Rightarrow> 'f point option" where
  "at_shared F op right l = (case found_at (pt_t l) right of None \<Rightarrow> None | Some r \<Rightarrow> combine_points F op l r)"

lemma found_at_Nil [simp]: "found_at t [] = None"
  by (simp add: found_at_def)

lemma found_at_Cons: "found_at t (p # ps) = (if pt_t p = t then Some p else found_at t ps)"
  by (simp add: found_at_def)

lemma found_at_later: "increasing (p # ps) \<Longrightarrow> t < pt_t p \<Longrightarrow> found_at t (p # ps) = None"
  by (auto simp: found_at_def increasing_def find_None_iff dest: order_less_trans)

lemma zip_points_next:
  "zip_points F op [] right = []" "zip_points F op left [] = []"
  "zip_points F op (l # ls) (r # rs) =
     (if pt_t l < pt_t r then zip_points F op ls (r # rs)
      else if pt_t r < pt_t l then zip_points F op (l # ls) rs
      else case combine_points F op l r of Some p \<Rightarrow> p # zip_points F op ls rs | None \<Rightarrow> zip_points F op ls rs)"
proof -
  show "zip_points F op [] right = []" "zip_points F op left [] = []"
    by (simp_all add: zip_points.simps zip_next.simps split: list.split)
  have "zip_next F op (l # ls) (r # rs) =
     (if pt_t l < pt_t r then zip_next F op ls (r # rs)
      else if pt_t r < pt_t l then zip_next F op (l # ls) rs
      else case combine_points F op l r of Some p \<Rightarrow> (Some p, ls, rs) | None \<Rightarrow> zip_next F op ls rs)"
    by (simp add: zip_next.simps)
  then show "zip_points F op (l # ls) (r # rs) =
     (if pt_t l < pt_t r then zip_points F op ls (r # rs)
      else if pt_t r < pt_t l then zip_points F op (l # ls) rs
      else case combine_points F op l r of Some p \<Rightarrow> p # zip_points F op ls rs | None \<Rightarrow> zip_points F op ls rs)"
    by (simp add: zip_points.simps [of F op "l # ls" "r # rs"] zip_points.simps [of F op ls "r # rs"]
        zip_points.simps [of F op "l # ls" rs] zip_points.simps [of F op ls rs] split: option.split)
qed

lemma increasing_tl: "increasing (p # ps) \<Longrightarrow> increasing ps"
  by (simp add: increasing_def)

lemma zip_shared:
  "increasing left \<Longrightarrow> increasing right \<Longrightarrow> zip_points F op left right = List.map_filter (at_shared F op right) left"
proof (induction "length left + length right" arbitrary: left right rule: less_induct)
  case less
  show ?case
  proof (cases left)
    case Nil
    then show ?thesis by (simp add: zip_points_next map_filter_simps)
  next
    case l: (Cons l ls)
    show ?thesis
    proof (cases right)
      case Nil
      then show ?thesis by (simp add: zip_points_next List.map_filter_def at_shared_def)
    next
      case r: (Cons r rs)
      have skip: "List.map_filter (at_shared F op (r # rs)) ps = List.map_filter (at_shared F op rs) ps"
        if "\<forall>p \<in> set ps. pt_t r < pt_t p" for ps
        using that by (intro map_filter_same) (auto simp: at_shared_def found_at_Cons)
      have later: "\<forall>p \<in> set ls. pt_t l < pt_t p" using less.prems(1) by (simp add: l increasing_def)
      consider "pt_t l < pt_t r" | "pt_t r < pt_t l" | "pt_t l = pt_t r" by (meson linorder_less_linear)
      then show ?thesis
      proof cases
        case 1
        then have "found_at (pt_t l) (r # rs) = None" using less.prems(2) by (intro found_at_later) (simp_all add: r)
        moreover have "zip_points F op ls right = List.map_filter (at_shared F op right) ls"
          using less by (simp add: l increasing_tl)
        ultimately show ?thesis using 1 by (simp add: l r zip_points_next map_filter_simps at_shared_def)
      next
        case 2
        have "zip_points F op left rs = List.map_filter (at_shared F op rs) left"
          by (rule less.hyps) (use less.prems r increasing_tl in auto)
        moreover have "\<forall>p \<in> set (l # ls). pt_t r < pt_t p" using 2 later by auto
        moreover from 2 have "\<not> pt_t l < pt_t r" by simp
        ultimately show ?thesis using 2 skip [of "l # ls"] by (simp add: l r zip_points_next)
      next
        case 3
        have "zip_points F op ls rs = List.map_filter (at_shared F op rs) ls"
          by (rule less.hyps) (use less.prems l r increasing_tl in auto)
        moreover have "List.map_filter (at_shared F op (r # rs)) ls = List.map_filter (at_shared F op rs) ls"
          using later 3 by (intro skip) simp
        ultimately show ?thesis using 3
          by (simp add: l r zip_points_next map_filter_simps at_shared_def found_at_Cons split: option.split)
      qed
    qed
  qed
qed

lemma lookup_found:
  assumes "increasing right" "\<forall>p \<in> set right. \<not> pt_timing p"
  shows "right_lookup right t = found_at t right"
proof -
  have "distinct (map pt_t right)"
    using assms(1) unfolding increasing_def by (induction right) auto
  then have "map_of (rev (map (\<lambda>p. (pt_t p, p\<lparr>pt_timing := False\<rparr>)) right)) = map_of (map (\<lambda>p. (pt_t p, p\<lparr>pt_timing := False\<rparr>)) right)"
    by (subst map_of_inject_set) (simp_all add: comp_def rev_map [symmetric] distinct_rev)
  then have "right_lookup right t = map_of (map (\<lambda>p. (pt_t p, p\<lparr>pt_timing := False\<rparr>)) right) t" by (simp add: right_lookup_def)
  moreover have "map_of (map (\<lambda>p. (pt_t p, p\<lparr>pt_timing := False\<rparr>)) ps) t = found_at t ps" if "\<forall>p \<in> set ps. \<not> pt_timing p" for ps
    using that by (induction ps) (auto simp: found_at_Cons)
  ultimately show ?thesis using assms(2) by simp
qed

text \<open>
  C40. On the grid, two series are combined at the times both have. Over series whose times increase, the merge gives the
  combination of the two points at each shared time, where there is one, and the lookup that a broadcast
  uses gives the same points.
\<close>

theorem exact_join_is_at_shared_times:
  assumes "increasing left" "increasing right"
  shows "pair F left right op Exact = List.map_filter (at_shared F op right) left \<and>
    ((\<forall>p \<in> set right. \<not> pt_timing p) \<longrightarrow> lookup_points F op left right = pair F left right op Exact)"
proof -
  have "lookup_points F op left right = List.map_filter (at_shared F op right) left" if "\<forall>p \<in> set right. \<not> pt_timing p"
    unfolding lookup_points_def lookup_found [OF assms(2) that]
    by (rule arg_cong2 [of _ _ left left List.map_filter]) (auto simp: at_shared_def split: option.split)
  then show ?thesis using zip_shared [OF assms] by (simp add: pair_def)
qed

section \<open>One-to-one matching\<close>

text \<open>The series of a key that have points in the range.\<close>

definition lively :: "u64 \<Rightarrow> u64 \<Rightarrow> labels \<Rightarrow> 'f keyed_series list \<Rightarrow> 'f keyed_series list" where
  "lively start_ns hold_ns key = filter (\<lambda>(k, _, points). k = key \<and> has_points points start_ns hold_ns)"

definition contested :: "u64 \<Rightarrow> u64 \<Rightarrow> 'f keyed_series list \<Rightarrow> labels \<Rightarrow> bool" where
  "contested start_ns hold_ns s key \<longleftrightarrow> 1 < length (lively start_ns hold_ns key s)"

definition first_two :: "u64 \<Rightarrow> u64 \<Rightarrow> 'f keyed_series list \<Rightarrow> labels \<Rightarrow> labels \<Rightarrow> labels \<Rightarrow> bool" where
  "first_two start_ns hold_ns s key a b \<longleftrightarrow> take 2 (map (\<lambda>(_, labels, _). labels) (lively start_ns hold_ns key s)) = [a, b]"

definition survivors :: "u64 \<Rightarrow> u64 \<Rightarrow> (labels \<Rightarrow> bool) \<Rightarrow> 'f keyed_series list \<Rightarrow> 'f keyed_series list" where
  "survivors start_ns hold_ns checked s =
     filter (\<lambda>(k, _, points). k \<in> set (keys_shared checked s) \<longrightarrow> has_points points start_ns hold_ns) s"

lemma unique_loop_ok:
  assumes "\<forall>key \<in> set shared. length (lively start_ns hold_ns key rest) + (if kept_of key = None then 0 else 1) \<le> 1"
  shows "unique_loop shared start_ns hold_ns rest kept_of out =
    Inr (out @ filter (\<lambda>(k, _, points). k \<in> set shared \<longrightarrow> has_points points start_ns hold_ns) rest)"
  using assms
proof (induction shared start_ns hold_ns rest kept_of out rule: unique_loop.induct)
  case (2 shared start_ns hold_ns key labels points rest kept_of out)
  show ?case
  proof (cases "key \<in> set shared \<and> has_points points start_ns hold_ns")
    case True
    then have none: "kept_of key = None" using 2(4) by (auto simp: lively_def split: if_splits)
    have "length (lively start_ns hold_ns k rest) + (if (kept_of(key \<mapsto> labels)) k = None then 0 else 1) \<le> 1" if "k \<in> set shared" for k
    proof (cases "k = key")
      case True
      have "length (lively start_ns hold_ns key ((key, labels, points) # rest)) \<le> 1"
        using 2(4) that True none by auto
      with True \<open>key \<in> set shared \<and> has_points points start_ns hold_ns\<close> show ?thesis by (simp add: lively_def)
    next
      case False
      then show ?thesis using bspec [OF 2(4) that] by (simp add: lively_def)
    qed
    then have "unique_loop shared start_ns hold_ns rest (kept_of(key \<mapsto> labels)) (out @ [(key, labels, points)]) =
        Inr ((out @ [(key, labels, points)]) @
          filter (\<lambda>(k, _, points). k \<in> set shared \<longrightarrow> has_points points start_ns hold_ns) rest)"
      using True none by (intro 2(3)) auto
    with True none show ?thesis by simp
  next
    case False
    have "length (lively start_ns hold_ns k rest) + (if kept_of k = None then 0 else 1) \<le> 1" if "k \<in> set shared" for k
      using bspec [OF 2(4) that] by (auto simp: lively_def split: if_splits)
    with 2(1,2) False show ?thesis by auto
  qed
qed simp

lemma unique_loop_err:
  assumes "\<exists>key \<in> set shared. 1 < length (lively start_ns hold_ns key rest) + (if kept_of key = None then 0 else 1)"
  shows "\<exists>key a b. unique_loop shared start_ns hold_ns rest kept_of out = Inl (key, a, b) \<and> key \<in> set shared \<and>
    take 2 ((case kept_of key of Some l \<Rightarrow> [l] | None \<Rightarrow> []) @ map (\<lambda>(_, labels, _). labels) (lively start_ns hold_ns key rest)) = [a, b]"
  using assms
proof (induction shared start_ns hold_ns rest kept_of out rule: unique_loop.induct)
  case (1 shared start_ns hold_ns kept_of out)
  then show ?case by (auto simp: lively_def split: if_splits)
next
  case (2 shared start_ns hold_ns key labels points rest kept_of out)
  show ?case
  proof (cases "key \<in> set shared \<and> has_points points start_ns hold_ns")
    case True
    show ?thesis
    proof (cases "kept_of key")
      case (Some first)
      with True show ?thesis by (auto simp: lively_def)
    next
      case None
      have "\<exists>k \<in> set shared. 1 < length (lively start_ns hold_ns k rest) + (if (kept_of(key \<mapsto> labels)) k = None then 0 else 1)"
        using 2(4) None True by (auto simp: lively_def split: if_splits)
      moreover have "\<not> key \<notin> set shared" "\<not> \<not> has_points points start_ns hold_ns" using True by simp_all
      ultimately obtain k a b where
        r: "unique_loop shared start_ns hold_ns rest (kept_of(key \<mapsto> labels)) (out @ [(key, labels, points)]) = Inl (k, a, b)"
          "k \<in> set shared" "take 2 ((case (kept_of(key \<mapsto> labels)) k of Some l \<Rightarrow> [l] | None \<Rightarrow> []) @
             map (\<lambda>(_, labels, _). labels) (lively start_ns hold_ns k rest)) = [a, b]"
        using 2(3) [OF _ _ None] by blast
      have "(case kept_of k of Some l \<Rightarrow> [l] | None \<Rightarrow> []) @
          map (\<lambda>(_, labels, _). labels) (lively start_ns hold_ns k ((key, labels, points) # rest)) =
        (case (kept_of(key \<mapsto> labels)) k of Some l \<Rightarrow> [l] | None \<Rightarrow> []) @
          map (\<lambda>(_, labels, _). labels) (lively start_ns hold_ns k rest)"
        using True None by (auto simp: lively_def)
      then have "take 2 ((case kept_of k of Some l \<Rightarrow> [l] | None \<Rightarrow> []) @
          map (\<lambda>(_, labels, _). labels) (lively start_ns hold_ns k ((key, labels, points) # rest))) = [a, b]"
        by (simp only: r(3))
      moreover have "unique_loop shared start_ns hold_ns ((key, labels, points) # rest) kept_of out = Inl (k, a, b)"
        using r(1) True None by simp
      ultimately show ?thesis using r(2) by blast
    qed
  next
    case False
    then have same: "lively start_ns hold_ns k ((key, labels, points) # rest) = lively start_ns hold_ns k rest" if "k \<in> set shared" for k
      using that by (auto simp: lively_def)
    then have "\<exists>k \<in> set shared. 1 < length (lively start_ns hold_ns k rest) + (if kept_of k = None then 0 else 1)"
      using 2(4) by auto
    with 2(1,2) False show ?thesis by (auto simp: same)
  qed
qed

lemma shared_key: "key \<in> set (keys_shared checked s) \<longleftrightarrow> checked key \<and> 1 < length (filter (\<lambda>(k, _). k = key) s)"
proof -
  have "key \<in> set (map fst s)" if "1 < length (filter (\<lambda>(k, _). k = key) s)"
    using that by (cases "filter (\<lambda>(k, _). k = key) s") (force simp: filter_eq_Cons_iff)+
  then show ?thesis by (auto simp: keys_shared_def)
qed

lemma lively_few: "length (lively start_ns hold_ns key s) \<le> length (filter (\<lambda>(k, _). k = key) s)"
  unfolding lively_def by (induction s) auto

lemma contested_shared: "contested start_ns hold_ns s key \<Longrightarrow> checked key \<Longrightarrow> key \<in> set (keys_shared checked s)"
  using lively_few [of start_ns hold_ns key s] by (simp add: contested_def shared_key)

lemma unique_by_key_ok:
  assumes "\<forall>key. checked key \<longrightarrow> \<not> contested start_ns hold_ns s key"
  shows "unique_by_key s start_ns hold_ns checked = Inr (survivors start_ns hold_ns checked s)"
proof (cases "keys_shared checked s = []")
  case True
  then show ?thesis by (simp add: unique_by_key_def survivors_def)
next
  case False
  have "\<forall>key \<in> set (keys_shared checked s). length (lively start_ns hold_ns key s) \<le> 1"
    using assms by (auto simp: shared_key contested_def not_less)
  with False show ?thesis
    by (simp add: unique_by_key_def survivors_def Let_def unique_loop_ok)
qed

lemma unique_by_key_err:
  assumes "checked key" "contested start_ns hold_ns s key"
  shows "\<exists>key a b. unique_by_key s start_ns hold_ns checked = Inl (key, a, b) \<and> checked key \<and> first_two start_ns hold_ns s key a b"
proof -
  have key: "key \<in> set (keys_shared checked s)" using assms contested_shared [where checked = checked] by blast
  then have "\<exists>key \<in> set (keys_shared checked s). 1 < length (lively start_ns hold_ns key s) + (if Map.empty key = None then 0 else 1)"
    using assms(2) by (intro bexI [of _ key]) (simp_all add: contested_def)
  from unique_loop_err [OF this, of "[]"] obtain k a b where
    "unique_loop (keys_shared checked s) start_ns hold_ns s Map.empty [] = Inl (k, a, b)" "k \<in> set (keys_shared checked s)"
    "take 2 (map (\<lambda>(_, labels, _). labels) (lively start_ns hold_ns k s)) = [a, b]" by auto
  moreover from key have "keys_shared checked s \<noteq> []" by auto
  ultimately show ?thesis by (auto simp: unique_by_key_def Let_def shared_key first_two_def)
qed


lemma survivors_alone:
  assumes "\<not> contested start_ns hold_ns s key" "checked key"
  shows "length (filter (\<lambda>(k, _). k = key) (survivors start_ns hold_ns checked s)) \<le> 1"
proof (cases "key \<in> set (keys_shared checked s)")
  case True
  then have "filter (\<lambda>(k, _). k = key) (survivors start_ns hold_ns checked s) = lively start_ns hold_ns key s"
    unfolding survivors_def lively_def by (simp add: filter_filter) (rule filter_cong; auto)
  with assms(1) show ?thesis by (simp add: contested_def)
next
  case False
  then have "filter (\<lambda>(k, _). k = key) (survivors start_ns hold_ns checked s) = filter (\<lambda>(k, _). k = key) s"
    unfolding survivors_def by (simp add: filter_filter) (rule filter_cong; auto)
  with False assms(2) show ?thesis by (simp add: shared_key)
qed

lemma map_of_other_key: "k \<noteq> key \<Longrightarrow> map_of (filter (\<lambda>(k, _). k \<noteq> key) rights) k = map_of rights k"
  by (induction rights) auto

text \<open>Left series in order with the right series of their key; each key is taken once.\<close>

definition matched_with :: "'f f64 \<Rightarrow> bin_op \<Rightarrow> join \<Rightarrow> 'f keyed_series list \<Rightarrow> 'f keyed_series \<Rightarrow> 'f series option" where
  "matched_with F op join rights = (\<lambda>(key, labels, points).
     (case map_of rights key of None \<Rightarrow> None | Some (_, right) \<Rightarrow> Some (labels, pair F points right op join)))"

lemma match_left_ok:
  assumes "\<forall>key \<in> fst ` set rights. length (filter (\<lambda>(k, _). k = key) left) \<le> 1"
  shows "match_left F op join left rights =
    (List.map_filter (matched_with F op join rights) left,
     map snd (filter (\<lambda>(k, _). k \<notin> fst ` set rights) left), filter (\<lambda>(k, _). k \<notin> fst ` set left) rights)"
  using assms
proof (induction F op join left rights rule: match_left.induct)
  case (1 F op join rights)
  then show ?case by (simp add: map_filter_simps case_prod_beta)
next
  case (2 F op join key labels points rest rights)
  have once: "length (filter (\<lambda>(k', _). k' = k) rest) \<le> 1" if "k \<in> fst ` set rights" for k
  proof -
    have "length (filter (\<lambda>(k', _). k' = k) rest) \<le> length (filter (\<lambda>(k', _). k' = k) ((key, labels, points) # rest))" by simp
    also have "\<dots> \<le> 1" using 2(3) that by blast
    finally show ?thesis .
  qed
  show ?case
  proof (cases "map_of rights key")
    case None
    then have key: "key \<notin> fst ` set rights" by (simp add: map_of_eq_None_iff)
    then have notkey: "\<forall>y \<in> set rights. fst y \<noteq> key" by force
    have "filter (\<lambda>(k, _). k \<notin> fst ` set rest) rights = filter (\<lambda>(k, _). k \<notin> fst ` set ((key, labels, points) # rest)) rights"
      by (rule filter_cong) (use notkey in \<open>auto simp del: image_iff\<close>)
    moreover have "match_left F op join rest rights =
      (List.map_filter (matched_with F op join rights) rest,
       map snd (filter (\<lambda>(k, _). k \<notin> fst ` set rights) rest), filter (\<lambda>(k, _). k \<notin> fst ` set rest) rights)"
      by (rule 2(1) [OF None]) (use once in blast)
    moreover have "matched_with F op join rights (key, labels, points) = None" using None by (simp add: matched_with_def)
    ultimately show ?thesis using None key by (simp add: map_filter_simps del: image_iff)
  next
    case (Some x)
    obtain right_labels right where x: "x = (right_labels, right)" by fastforce
    let ?rights = "filter (\<lambda>(k, _). k \<noteq> key) rights"
    have key: "key \<in> fst ` set rights" using Some by (metis domI dom_map_of_conv_image_fst)
    then have "length (filter (\<lambda>(k, _). k = key) ((key, labels, points) # rest)) \<le> 1" using 2(3) by blast
    then have "filter (\<lambda>(k, _). k = key) rest = []" by simp
    then have norest: "\<forall>y \<in> set rest. fst y \<noteq> key" by (simp add: filter_empty_conv case_prod_beta)
    have keys: "fst ` set ?rights = fst ` set rights - {key}" by force
    have ih: "match_left F op join rest ?rights =
      (List.map_filter (matched_with F op join ?rights) rest,
       map snd (filter (\<lambda>(k, _). k \<notin> fst ` set ?rights) rest), filter (\<lambda>(k, _). k \<notin> fst ` set rest) ?rights)"
      by (rule 2(2) [OF Some x [symmetric]]) (use once keys in blast)
    have same: "matched_with F op join ?rights y = matched_with F op join rights y" if "y \<in> set rest" for y
    proof -
      have "map_of ?rights (fst y) = map_of rights (fst y)" using norest that by (intro map_of_other_key) blast
      then show ?thesis by (cases y) (simp add: matched_with_def)
    qed
    have "List.map_filter (matched_with F op join ?rights) rest = List.map_filter (matched_with F op join rights) rest"
      using same by (rule map_filter_same)
    moreover have "filter (\<lambda>(k, _). k \<notin> fst ` set ?rights) rest = filter (\<lambda>(k, _). k \<notin> fst ` set rights) rest"
      unfolding keys by (rule filter_cong) (use norest in \<open>auto simp del: image_iff\<close>)
    moreover have "filter (\<lambda>(k, _). k \<notin> fst ` set rest) ?rights =
        filter (\<lambda>(k, _). k \<notin> fst ` set ((key, labels, points) # rest)) rights"
      by (simp add: filter_filter del: image_iff) (rule filter_cong; simp add: case_prod_beta; blast)
    moreover have "matched_with F op join rights (key, labels, points) = Some (labels, pair F points right op join)"
      using Some x by (simp add: matched_with_def)
    ultimately show ?thesis using Some x ih key by (simp add: map_filter_simps del: image_iff)
  qed
qed

definition fallback :: "'f f64 \<Rightarrow> bin_op \<Rightarrow> join \<Rightarrow> match_spec \<Rightarrow> string list \<Rightarrow> 'f keyed_series list \<Rightarrow> 'f keyed_series list \<Rightarrow> 'f series list" where
  "fallback F op join spec recording_keys left rights =
     (if spec \<noteq> DefaultMatch then []
      else List.map_filter (broadcast F op join recording_keys (filter (\<lambda>(k, _). k \<notin> fst ` set left) rights))
        (map snd (filter (\<lambda>(k, _). k \<notin> fst ` set rights) left)))"

text \<open>
  C12. Matching is one to one. Two right series with points in the range and one key are an error, and so are two such
  left ones whose key a right series has; each error names the first two. Otherwise each left series left over is
  joined with the one right series of its key, and under default matching the rest with the one right series of their
  recording that no left one matched.
\<close>

theorem matching_is_one_to_one:
  fixes left right :: "'f series list" and start_ns :: u64 and join :: join and spec :: match_spec
  defines "h \<equiv> join_hold join" and "R \<equiv> keyed right spec" and "L \<equiv> keyed left spec"
  defines "rights \<equiv> survivors start_ns h (\<lambda>_. True) R"
  defines "lefts \<equiv> survivors start_ns h (\<lambda>key. key \<in> fst ` set rights) L"
  shows "case matrix_matrix_op F left right op spec recording_keys join start_ns of
      Inl (ManyToMany key a b) \<Rightarrow> first_two start_ns h R key a b
    | Inl (MultipleMatches key a b) \<Rightarrow> first_two start_ns h L key a b \<and> key \<in> fst ` set rights
    | Inl (SameLabels _) \<Rightarrow> False
    | Inr out \<Rightarrow> (\<forall>key. \<not> contested start_ns h R key) \<and> (\<forall>key \<in> fst ` set rights. \<not> contested start_ns h L key) \<and>
        out = List.map_filter (matched_with F op join rights) lefts @ fallback F op join spec recording_keys lefts rights"
proof (cases "\<exists>key. contested start_ns h R key")
  case True
  then obtain key a b where "unique_by_key R start_ns h (\<lambda>_. True) = Inl (key, a, b)" "first_two start_ns h R key a b"
    using unique_by_key_err [of "\<lambda>_. True" _ start_ns h R] by blast
  then show ?thesis by (simp add: matrix_matrix_op_def Let_def h_def R_def)
next
  case no: False
  then have r: "unique_by_key R start_ns h (\<lambda>_. True) = Inr rights"
    unfolding rights_def by (intro unique_by_key_ok) blast
  show ?thesis
  proof (cases "\<exists>key \<in> fst ` set rights. contested start_ns h L key")
    case True
    then obtain key a b where "unique_by_key L start_ns h (\<lambda>key. key \<in> fst ` set rights) = Inl (key, a, b)"
        "key \<in> fst ` set rights" "first_two start_ns h L key a b"
      using unique_by_key_err [of "\<lambda>key. key \<in> fst ` set rights" _ start_ns h L] by blast
    with r show ?thesis by (simp add: matrix_matrix_op_def Let_def h_def R_def L_def)
  next
    case False
    then have l: "unique_by_key L start_ns h (\<lambda>key. key \<in> fst ` set rights) = Inr lefts"
      unfolding lefts_def by (intro unique_by_key_ok) blast
    have "\<forall>key \<in> fst ` set rights. length (filter (\<lambda>(k, _). k = key) lefts) \<le> 1"
      using False survivors_alone [of start_ns h L _ "\<lambda>key. key \<in> fst ` set rights"] unfolding lefts_def by blast
    note m = match_left_ok [OF this, of F op join]
    have none: "List.map_filter (broadcast F op join recording_keys []) xs = []" for xs
      by (simp add: List.map_filter_def broadcast_def case_prod_beta filter_empty_conv)
    have "matrix_matrix_op F left right op spec recording_keys join start_ns =
        Inr (List.map_filter (matched_with F op join rights) lefts @ fallback F op join spec recording_keys lefts rights)"
      using r l m none by (auto simp: matrix_matrix_op_def Let_def h_def R_def L_def fallback_def map_filter_simps)
    with no False show ?thesis by simp
  qed
qed

section \<open>Bands\<close>

text \<open>
  What IEEE 754 arithmetic does of it: on finite values the order is that of their reals, and a finite result is the
  exact one rounded, a rounding that keeps the order. \<open>val\<close> is the real a finite float stands for, \<open>rnd\<close> the rounding.
\<close>

definition rounds :: "'f f64 \<Rightarrow> ('f \<Rightarrow> real) \<Rightarrow> (real \<Rightarrow> real) \<Rightarrow> bool" where
  "rounds F val rnd \<longleftrightarrow> mono rnd \<and>
     (\<forall>a b. f_is_finite F a \<and> f_is_finite F b \<longrightarrow>
        (f_is_finite F (f_add F a b) \<longrightarrow> val (f_add F a b) = rnd (val a + val b)) \<and>
        (f_is_finite F (f_sub F a b) \<longrightarrow> val (f_sub F a b) = rnd (val a - val b)) \<and>
        (f_is_finite F (f_mul F a b) \<longrightarrow> val (f_mul F a b) = rnd (val a * val b)) \<and>
        (f_is_finite F (f_div F a b) \<longrightarrow> val b \<noteq> 0 \<and> val (f_div F a b) = rnd (val a / val b)) \<and>
        (f_lt F a b \<longleftrightarrow> val a < val b) \<and> (f_eq F a b \<longleftrightarrow> val a = val b) \<and>
        f_is_finite F (f_min F a b) \<and> val (f_min F a b) = min (val a) (val b) \<and>
        f_is_finite F (f_max F a b) \<and> val (f_max F a b) = max (val a) (val b)) \<and>
     (\<forall>a b. f_is_finite F b \<longrightarrow>
        (f_is_finite F (f_min F a b) \<longrightarrow> val (f_min F a b) \<le> val b) \<and>
        (f_is_finite F (f_max F a b) \<longrightarrow> val b \<le> val (f_max F a b))) \<and>
     (\<forall>a. f_is_finite F a \<longrightarrow> f_min F (f_infinity F) a = a \<and> f_max F (f_neg_infinity F) a = a) \<and>
     f_is_finite F (f_zero F) \<and> val (f_zero F) = 0"

definition holds :: "'f f64 \<Rightarrow> ('f \<Rightarrow> real) \<Rightarrow> 'f band \<Rightarrow> 'f \<Rightarrow> bool" where
  "holds F val b v \<longleftrightarrow> f_is_finite F (fst b) \<and> f_is_finite F (snd b) \<and> f_is_finite F v \<and>
     val (fst b) \<le> val v \<and> val v \<le> val (snd b)"

lemma between_products:
  fixes a b c d x y :: real
  assumes "a \<le> x" "x \<le> b" "c \<le> y" "y \<le> d"
  shows "min (min (a * c) (a * d)) (min (b * c) (b * d)) \<le> x * y" "x * y \<le> max (max (a * c) (a * d)) (max (b * c) (b * d))"
proof -
  have ends: "min (p * z) (q * z) \<le> w * z \<and> w * z \<le> max (p * z) (q * z)" if "p \<le> w" "w \<le> q" for p q w z :: real
    using that by (cases "0 \<le> z") (auto simp: min_def max_def mult_right_mono mult_right_mono_neg)
  have "min (a * y) (b * y) \<le> x * y \<and> x * y \<le> max (a * y) (b * y)" by (rule ends [OF assms(1,2)])
  moreover have "min (a * c) (a * d) \<le> a * y \<and> a * y \<le> max (a * c) (a * d)"
    "min (b * c) (b * d) \<le> b * y \<and> b * y \<le> max (b * c) (b * d)"
    using ends [OF assms(3,4)] by (simp_all add: mult.commute)
  ultimately show "min (min (a * c) (a * d)) (min (b * c) (b * d)) \<le> x * y"
    "x * y \<le> max (max (a * c) (a * d)) (max (b * c) (b * d))" by linarith+
qed


lemma between_quotients:
  fixes a b c d x y :: real
  assumes "a \<le> x" "x \<le> b" "c \<le> y" "y \<le> d" "0 < c \<or> d < 0"
  shows "min (min (a / c) (a / d)) (min (b / c) (b / d)) \<le> x / y" "x / y \<le> max (max (a / c) (a / d)) (max (b / c) (b / d))"
proof -
  have "inverse d \<le> inverse y \<and> inverse y \<le> inverse c"
    using assms(3-5) by (auto intro: le_imp_inverse_le le_imp_inverse_le_neg)
  from between_products [OF assms(1,2) conjunct1 [OF this] conjunct2 [OF this]]
  show "min (min (a / c) (a / d)) (min (b / c) (b / d)) \<le> x / y" "x / y \<le> max (max (a / c) (a / d)) (max (b / c) (b / d))"
    by (simp_all add: divide_inverse min.commute max.commute)
qed

text \<open>The corners of a combination, rounded, are on either side of the rounded value.\<close>

lemma corners_hold:
  assumes r: "rounds F val rnd"
    and fin: "f_is_finite F p" "f_is_finite F q" "f_is_finite F s" "f_is_finite F t"
    and vals: "val p = rnd p'" "val q = rnd q'" "val s = rnd s'" "val t = rnd t'" "val v = rnd v'" "f_is_finite F v"
    and exact: "min (min p' q') (min s' t') \<le> v'" "v' \<le> max (max p' q') (max s' t')"
  shows "holds F val (foldl (f_min F) (f_infinity F) [p, q, s, t], foldl (f_max F) (f_neg_infinity F) [p, q, s, t]) v"
proof -
  have mono: "mono rnd" using r by (simp add: rounds_def)
  have mn: "f_is_finite F (f_min F a b) \<and> val (f_min F a b) = min (val a) (val b)"
    and mx: "f_is_finite F (f_max F a b) \<and> val (f_max F a b) = max (val a) (val b)"
    if "f_is_finite F a" "f_is_finite F b" for a b using r that by (simp_all add: rounds_def)
  have seed: "f_min F (f_infinity F) p = p" "f_max F (f_neg_infinity F) p = p" using r fin(1) by (simp_all add: rounds_def)
  have "rnd (min (min (min p' q') s') t') \<le> rnd v'" "rnd v' \<le> rnd (max (max (max p' q') s') t')"
    using exact by (auto intro!: monoD [OF mono] simp: min.assoc max.assoc)
  then have "min (min (min (val p) (val q)) (val s)) (val t) \<le> val v" "val v \<le> max (max (max (val p) (val q)) (val s)) (val t)"
    by (simp_all add: vals min_of_mono [OF mono] max_of_mono [OF mono])
  then show ?thesis using fin vals(6) by (simp add: holds_def seed mn mx)
qed

definition corner_band :: "'f f64 \<Rightarrow> ('f \<Rightarrow> 'f \<Rightarrow> 'f) \<Rightarrow> 'f band \<Rightarrow> 'f band \<Rightarrow> 'f band" where
  "corner_band F f l r =
     (let xs = [f (fst l) (fst r), f (fst l) (snd r), f (snd l) (fst r), f (snd l) (snd r)]
      in (foldl (f_min F) (f_infinity F) xs, foldl (f_max F) (f_neg_infinity F) xs))"

definition finite_corners :: "'f f64 \<Rightarrow> ('f \<Rightarrow> 'f \<Rightarrow> 'f) \<Rightarrow> 'f band \<Rightarrow> 'f band \<Rightarrow> bool" where
  "finite_corners F f l r \<longleftrightarrow> f_is_finite F (f (fst l) (fst r)) \<and> f_is_finite F (f (fst l) (snd r)) \<and>
     f_is_finite F (f (snd l) (fst r)) \<and> f_is_finite F (f (snd l) (snd r))"

lemma interval_binop_corners:
  "interval_binop F op l r = Some b \<Longrightarrow>
     (case op of
        OpAdd \<Rightarrow> finite_corners F (f_add F) l r \<and> b = corner_band F (f_add F) l r
      | OpSub \<Rightarrow> finite_corners F (f_sub F) l r \<and> b = corner_band F (f_sub F) l r
      | OpMul \<Rightarrow> finite_corners F (f_mul F) l r \<and> b = corner_band F (f_mul F) l r
      | OpDiv \<Rightarrow> finite_corners F (f_div F) l r \<and> b = corner_band F (f_div F) l r \<and>
          \<not> (f_le F (fst r) (f_zero F) \<and> f_le F (f_zero F) (snd r)))"
  by (cases op; cases l; cases r)
    (auto simp: interval_binop_def finite_corners_def corner_band_def Let_def split: if_splits)

lemma corner_band_holds:
  assumes r: "rounds F val rnd" and l: "holds F val l x" and s: "holds F val s y"
    and c: "finite_corners F f l s \<and> b = corner_band F f l s" and v: "f_is_finite F (f x y)"
    and law: "\<And>p q. f_is_finite F p \<Longrightarrow> f_is_finite F q \<Longrightarrow> f_is_finite F (f p q) \<Longrightarrow> val (f p q) = rnd (g (val p) (val q))"
    and between: "\<And>a b c d. a \<le> val x \<Longrightarrow> val x \<le> b \<Longrightarrow> c \<le> val y \<Longrightarrow> val y \<le> d \<Longrightarrow> c = val (fst s) \<Longrightarrow> d = val (snd s) \<Longrightarrow>
        min (min (g a c) (g a d)) (min (g b c) (g b d)) \<le> g (val x) (val y) \<and>
        g (val x) (val y) \<le> max (max (g a c) (g a d)) (max (g b c) (g b d))"
  shows "holds F val b (f x y)"
proof -
  have fin: "f_is_finite F (fst l)" "f_is_finite F (snd l)" "f_is_finite F (fst s)" "f_is_finite F (snd s)"
      "f_is_finite F x" "f_is_finite F y"
    and le: "val (fst l) \<le> val x" "val x \<le> val (snd l)" "val (fst s) \<le> val y" "val y \<le> val (snd s)"
    using l s by (simp_all add: holds_def)
  have cs: "f_is_finite F (f (fst l) (fst s))" "f_is_finite F (f (fst l) (snd s))" "f_is_finite F (f (snd l) (fst s))"
      "f_is_finite F (f (snd l) (snd s))" and b: "b = corner_band F f l s"
    using c by (simp_all add: finite_corners_def)
  note bt = between [OF le refl refl]
  show ?thesis unfolding b corner_band_def Let_def
    by (rule corners_hold [OF r cs law [OF fin(1,3) cs(1)] law [OF fin(1,4) cs(2)] law [OF fin(2,3) cs(3)]
        law [OF fin(2,4) cs(4)] law [OF fin(5,6) v] v conjunct1 [OF bt] conjunct2 [OF bt]])
qed

lemma interval_holds:
  assumes r: "rounds F val rnd" and l: "holds F val l x" and s: "holds F val s y"
    and b: "interval_binop F op l s = Some b" and v: "op_apply F op x y = Some v" "f_is_finite F v"
  shows "holds F val b v"
proof -
  note corners = interval_binop_corners [OF b]
  show ?thesis
  proof (cases op)
    case OpAdd
    then have "holds F val b (f_add F x y)"
      using corners v by (intro corner_band_holds [OF r l s, where g = "(+)"])
        (use r in \<open>auto simp: rounds_def op_apply_def min_def max_def\<close>)
    with OpAdd v(1) show ?thesis by (simp add: op_apply_def)
  next
    case OpSub
    then have "holds F val b (f_sub F x y)"
      using corners v by (intro corner_band_holds [OF r l s, where g = "(-)"])
        (use r in \<open>auto simp: rounds_def op_apply_def min_def max_def\<close>)
    with OpSub v(1) show ?thesis by (simp add: op_apply_def)
  next
    case OpMul
    then have "holds F val b (f_mul F x y)"
      using corners v between_products by (intro corner_band_holds [OF r l s, where g = "(*)"])
        (use r in \<open>auto simp: rounds_def op_apply_def\<close>)
    with OpMul v(1) show ?thesis by (simp add: op_apply_def)
  next
    case OpDiv
    have ord: "f_le F p q \<longleftrightarrow> val p \<le> val q" if "f_is_finite F p" "f_is_finite F q" for p q
      using r that by (auto simp: rounds_def f_le_def)
    have "\<not> (f_le F (fst s) (f_zero F) \<and> f_le F (f_zero F) (snd s))" using corners OpDiv by simp
    moreover have "f_is_finite F (f_zero F)" "val (f_zero F) = 0" using r by (simp_all add: rounds_def)
    ultimately have "0 < val (fst s) \<or> val (snd s) < 0" using ord s by (auto simp: holds_def not_le)
    then have "holds F val b (f_div F x y)"
      using corners v OpDiv between_quotients by (intro corner_band_holds [OF r l s, where g = "(/)"])
        (use r in \<open>auto simp: rounds_def op_apply_def split: if_splits\<close>)
    with OpDiv v(1) show ?thesis by (simp add: op_apply_def split: if_splits)
  qed
qed

definition finite_band :: "'f f64 \<Rightarrow> 'f band \<Rightarrow> bool" where
  "finite_band F b \<longleftrightarrow> f_is_finite F (fst b) \<and> f_is_finite F (snd b)"

text \<open>A widened band still holds its value.\<close>

lemma widened_holds:
  assumes "rounds F val rnd" "holds F val b v" "finite_band F (widen_band F b own joint v)"
  shows "holds F val (widen_band F b own joint v) v"
proof -
  have "f_is_finite F (f_min F a v) \<longrightarrow> val (f_min F a v) \<le> val v" "f_is_finite F (f_max F a v) \<longrightarrow> val v \<le> val (f_max F a v)" for a
    using assms(1,2) by (simp_all add: rounds_def holds_def)
  moreover have "widen_band F b own joint v = b \<or> (\<exists>x y. widen_band F b own joint v = (f_min F x v, f_max F y v))"
    unfolding widen_band_def Let_def by auto
  ultimately show ?thesis using assms(2,3) by (auto simp: holds_def finite_band_def)
qed

lemma operand_holds:
  assumes "rounds F val rnd" "f_is_finite F v" "\<And>b'. b = Some b' \<Longrightarrow> holds F val b' v" "finite_band F (operand_band F v b le re own)"
  shows "holds F val (operand_band F v b le re own) v"
  using assms widened_holds [OF assms(1)]
  by (cases b) (auto simp: operand_band_def holds_def split: option.splits if_splits)

text \<open>
  C21. A band holds the value it bounds. In arithmetic that rounds in order, when each operand's band holds its value the
  band of their combination holds the result, for each operator, whether or not the operands' bands were widened for
  having been read apart.
\<close>

theorem bands_hold_the_value:
  assumes "rounds F val rnd" "f_is_finite F (pt_v l)" "f_is_finite F (pt_v r)"
    and "\<forall>b. pt_bounds l = Some b \<longrightarrow> holds F val b (pt_v l)" "\<forall>b. pt_bounds r = Some b \<longrightarrow> holds F val b (pt_v r)"
    and "finite_band F (operand_band F (pt_v l) (pt_bounds l) (pt_edges l) (pt_edges r) (pt_edges l))"
    and "finite_band F (operand_band F (pt_v r) (pt_bounds r) (pt_edges l) (pt_edges r) (pt_edges r))"
    and "combine_points F op l r = Some p" "pt_bounds p = Some b" "f_is_finite F (pt_v p)"
  shows "holds F val b (pt_v p)"
proof -
  have v: "op_apply F op (pt_v l) (pt_v r) = Some (pt_v p)"
    and b: "combine_bounds F op (pt_v l) (pt_bounds l) (pt_edges l) (pt_v r) (pt_bounds r) (pt_edges r) = Some b"
    using assms(8,9) by (auto simp: combine_points_def Let_def split: option.splits if_splits)
  have "interval_binop F op (operand_band F (pt_v l) (pt_bounds l) (pt_edges l) (pt_edges r) (pt_edges l))
      (operand_band F (pt_v r) (pt_bounds r) (pt_edges l) (pt_edges r) (pt_edges r)) = Some b"
    using b by (simp add: combine_bounds_def split: if_splits)
  moreover have "holds F val (operand_band F (pt_v l) (pt_bounds l) (pt_edges l) (pt_edges r) (pt_edges l)) (pt_v l)"
    using assms(4) by (intro operand_holds [OF assms(1,2) _ assms(6)]) blast
  moreover have "holds F val (operand_band F (pt_v r) (pt_bounds r) (pt_edges l) (pt_edges r) (pt_edges r)) (pt_v r)"
    using assms(5) by (intro operand_holds [OF assms(1,3) _ assms(7)]) blast
  ultimately show ?thesis using interval_holds [OF assms(1) _ _ _ v assms(10)] by blast
qed

theorem scaled_band_holds_the_value:
  assumes "rounds F val rnd" "f_is_finite F scalar" "f_is_finite F (pt_v p)" "\<not> pt_timing p"
    and "\<forall>b. pt_bounds p = Some b \<longrightarrow> holds F val b (pt_v p)"
    and "scalar_point F op scalar scalar_first p = Some q" "pt_bounds q = Some b" "f_is_finite F (pt_v q)"
  shows "holds F val b (pt_v q)"
proof -
  have s: "holds F val (scalar, scalar) scalar" using assms(2) by (simp add: holds_def)
  show ?thesis
  proof (cases scalar_first)
    case True
    with assms(4,6,7) obtain c where "pt_bounds p = Some c" "interval_binop F op (scalar, scalar) c = Some b"
        "op_apply F op scalar (pt_v p) = Some (pt_v q)"
      by (auto simp: scalar_point_def bind_eq_Some_conv split: option.splits)
    with interval_holds [OF assms(1) s _ _ _ assms(8)] assms(5) show ?thesis by blast
  next
    case False
    with assms(4,6,7) obtain c where "pt_bounds p = Some c" "interval_binop F op c (scalar, scalar) = Some b"
        "op_apply F op (pt_v p) scalar = Some (pt_v q)"
      by (auto simp: scalar_point_def bind_eq_Some_conv split: option.splits)
    with interval_holds [OF assms(1) _ s _ _ assms(8)] assms(5) show ?thesis by blast
  qed
qed

end
