(* ===== verification/QueryInstances.thy ===== *)
theory QueryInstances
  imports Gauges Matching
begin

text \<open>
  The theorems about queries at concrete series, over two arithmetics: \<open>whole\<close>, the integers, for those that hold
  of any, and \<open>exact\<close>, the reals and one value that is not finite, for those that need \<open>rounds\<close>.
\<close>

section \<open>Two arithmetics\<close>

definition whole :: "int f64" where
  "whole = \<lparr>f_add = (+), f_sub = (-), f_mul = (*), f_div = (div), f_lt = (<), f_eq = (=), f_min = min, f_max = max,
     f_abs = abs, f_is_finite = (\<lambda>_. True), f_of_u64 = uint, f_of_i64 = sint, f_of_nat = int, f_nano = 1, f_tiny = 1,
     f_zero = 0, f_infinity = 2 ^ 80, f_neg_infinity = - (2 ^ 80), f_nan = 0\<rparr>"

fun on_finite :: "(real \<Rightarrow> real \<Rightarrow> real) \<Rightarrow> real option \<Rightarrow> real option \<Rightarrow> real option" where
  "on_finite f (Some a) (Some b) = Some (f a b)"
| "on_finite f _ _ = None"

fun or_other :: "(real \<Rightarrow> real \<Rightarrow> real) \<Rightarrow> real option \<Rightarrow> real option \<Rightarrow> real option" where
  "or_other f None b = b"
| "or_other f a None = a"
| "or_other f (Some a) (Some b) = Some (f a b)"

fun compared :: "(real \<Rightarrow> real \<Rightarrow> bool) \<Rightarrow> real option \<Rightarrow> real option \<Rightarrow> bool" where
  "compared f (Some a) (Some b) = f a b"
| "compared f _ _ = False"

definition exact :: "real option f64" where
  "exact = \<lparr>f_add = on_finite (+), f_sub = on_finite (-), f_mul = on_finite (*),
     f_div = (\<lambda>a b. if b = Some 0 then None else on_finite (/) a b), f_lt = compared (<), f_eq = compared (=),
     f_min = or_other min, f_max = or_other max, f_abs = map_option abs, f_is_finite = (\<lambda>a. a \<noteq> None),
     f_of_u64 = (\<lambda>n. Some (of_int (uint n))), f_of_i64 = (\<lambda>n. Some (of_int (sint n))), f_of_nat = (\<lambda>n. Some (of_nat n)),
     f_nano = Some 1000000000, f_tiny = Some 0, f_zero = Some 0, f_infinity = None, f_neg_infinity = None, f_nan = None\<rparr>"

lemma exact_rounds: "rounds exact the id"
proof -
  have "mono (id :: real \<Rightarrow> real)" by (simp add: mono_def)
  moreover have "or_other min a (Some b) = Some c \<Longrightarrow> c \<le> b" "or_other max a (Some b) = Some c \<Longrightarrow> b \<le> c" for a b c
    by (cases a; simp; linarith)+
  ultimately show ?thesis by (auto simp: rounds_def exact_def)
qed

section \<open>Aggregation\<close>

definition readings_of :: "u64 list \<Rightarrow> int list \<Rightarrow> int point list" where
  "readings_of ts vs = map2 point_at ts vs"

definition three_series :: "int series list" where
  "three_series = [(fmupd ''cpu'' ''0'' fmempty, readings_of [1, 3] [10, 30]), (fmupd ''cpu'' ''1'' fmempty, readings_of [1, 2] [5, 6]),
     (fmupd ''cpu'' ''0'' (fmupd ''core'' ''1'' fmempty), readings_of [3] [4])]"

lemma by_cpu:
  "fmfilter (\<lambda>k. k = ''cpu'') (fmupd ''cpu'' n fmempty) = fmupd ''cpu'' n fmempty"
  "fmfilter (\<lambda>k. k = ''cpu'') (fmupd ''cpu'' n (fmupd ''core'' c fmempty)) = fmupd ''cpu'' n fmempty"
  "fmupd ''cpu'' n fmempty = fmupd ''cpu'' m fmempty \<longleftrightarrow> n = m"
  by (auto intro!: fmap_eqI dest: arg_cong [where f = "\<lambda>m. fmlookup m ''cpu''"])

lemma two_groups: "length (group_keys (Include [''cpu'']) three_series) = 2"
  by (simp add: group_keys_def three_series_def derive_group_labels_def by_cpu)

theorem each_reader_gets_its_group_witness:
  "agg_run whole [ReadGroup 1, ReadGroup 0, DropGroup 1, ReadGroup 0] (aggregate three_series AggSum (Include [''cpu'']) Exact) =
   own_run [ReadGroup 1, ReadGroup 0, DropGroup 1, ReadGroup 0]
     (map (\<lambda>key. mr_points whole (mr_joined (children_of (Include [''cpu'']) three_series key) AggSum Exact))
        (group_keys (Include [''cpu'']) three_series))"
proof (rule conjunct2 [OF each_reader_gets_its_group [OF refl]])
  show "\<forall>x \<in> set [ReadGroup 1, ReadGroup 0, DropGroup 1, ReadGroup 0].
      op_index x < length (agg_labels (aggregate three_series AggSum (Include [''cpu'']) Exact))"
    using two_groups conjunct1 [OF each_reader_gets_its_group [OF refl, of "[]" three_series AggSum "Include [''cpu'']" Exact]]
    by simp
qed

theorem exact_aggregation_reduces_by_time_witness:
  "mr_points whole (mr_joined (children_of (Include [''cpu'']) three_series (fmupd ''cpu'' ''0'' fmempty)) AggSum Exact) =
   map (reduced_at whole AggSum (children_of (Include [''cpu'']) three_series (fmupd ''cpu'' ''0'' fmempty)))
     (sorted_list_of_set (times (children_of (Include [''cpu'']) three_series (fmupd ''cpu'' ''0'' fmempty))))"
  by (rule exact_aggregation_reduces_by_time) (simp add: three_series_def readings_of_def increasing_def)

section \<open>Rates and gauges\<close>

definition ramp :: "counter_sample list" where
  "ramp = [\<lparr>cs_ts = 10, cs_value = 100, cs_window = None\<rparr>, \<lparr>cs_ts = 20, cs_value = 140, cs_window = None\<rparr>,
     \<lparr>cs_ts = 30, cs_value = 20, cs_window = None\<rparr>]"

theorem streamed_rate_is_the_rate_of_the_series_witness:
  "grid_points whole (over_range 5 (from_stream whole ramp False 0 40 10 15)) =
     Some (List.map_filter (value_at whole (whole_series whole ramp (over_range 5 (from_stream whole ramp False 0 40 10 15))))
       (ticks 0 40 10))"
proof -
  have "in_order ramp" "length ramp = 3" by (simp_all add: in_order_def ramp_def)
  then show ?thesis
    using streamed_rate_is_the_rate_of_the_series [OF _ _ disjI2 [OF refl], of ramp 10 whole 5 False 0 40 15] by simp
qed

text \<open>
  At explicit points without a range, a point past the last sample is read over a window that ends at that sample, and
  may start before the window of the point before it. What it needs was let go: with the points 18, 20 and 31 the last
  gives nothing, where it gives a value with the points 20 and 31 alone.
\<close>

definition steady :: "counter_sample list" where
  "steady = [\<lparr>cs_ts = 1, cs_value = 1, cs_window = None\<rparr>, \<lparr>cs_ts = 11, cs_value = 11, cs_window = None\<rparr>,
     \<lparr>cs_ts = 21, cs_value = 21, cs_window = None\<rparr>]"

lemma steady_pulled:
  "from_stream whole steady False 18 31 1 1 = \<lparr>gr_source = [], gr_exhausted = True,
      gr_kept = [\<lparr>kp_ts = 1, kp_cum = 0, kp_window = None\<rparr>, \<lparr>kp_ts = 11, kp_cum = 10, kp_window = None\<rparr>,
        \<lparr>kp_ts = 21, kp_cum = 20, kp_window = None\<rparr>], gr_first_ts = Some 1, gr_last_ts = Some 21,
      gr_pulled = 3, gr_prev_value = Some 21, gr_acc = 20, gr_spacings = [10, 10], gr_typical = 10, gr_windowed = False,
      gr_cursor_ns = 18, gr_end_ns = 31, gr_step_ns = 1, gr_span_ns = 1,
      gr_range = False, gr_reach_ns = 0, gr_samples = None, gr_points = None, gr_done = False\<rparr>"
  by (simp add: from_stream_def unread_def steady_def pull_while.simps pull_def counter_delta_def whole_def
      SPACING_PROBE_def median_spacing_def get_def)

lemmas run_defs = grid_points_turn grid_turn_def place_next_def evaluate_def reach_def held_end_def window_start_def
  trim_def rate_point_def no_value_def interp_def sampled_window_def interp_window_def observed_def gr_hi_def
  partition_point_def get_def fraction_def pull_while.simps pull_def saturating_sub_def saturating_mul_def f_le_def

lemma an_earlier_point_drops_a_later_one:
  "map_option (map pt_t) (grid_points whole (at_points [20, 31] (from_stream whole steady False 18 31 1 1))) = Some [31]"
  "map_option (map pt_t) (grid_points whole (at_points [18, 20, 31] (from_stream whole steady False 18 31 1 1))) = Some [20]"
  unfolding steady_pulled at_points_def by (simp_all add: run_defs whole_def Let_def)

theorem every_rate_producer_ends_witness:
  "\<exists>ps. grid_points whole (at_samples (over_range 5 (from_stream whole ramp False 0 40 0 15))) = Some ps"
  by (rule every_rate_producer_ends) (intro built_samples built_range built_stream)

theorem gauges_read_their_window_witness:
  "gauge_points (idelta_at whole) (gauge_producer_new [10, 20, 30] [7, 9, 4] 0 40 10 15 False) =
     Some (List.map_filter (idelta_value whole (gauge_producer_new [10, 20, 30] [7, 9, 4] 0 40 10 15 False)) (ticks 0 40 10))"
proof -
  let ?g = "gauge_producer_new [10, 20, 30] [7, 9, 4] 0 40 10 15 False :: i64 gauge_producer"
  let ?h = "gauge_producer_new [10, 20, 30] [7, 9, 4] 0 40 10 15 True :: int gauge_producer"
  have "well_read ?g" "well_read ?h" "ends (gg_end_ns ?g) (gg_place ?g)" "ends (gg_end_ns ?h) (gg_place ?h)"
    by (simp_all add: well_read_def gauge_producer_new_def ends_def placement_new_def)
  from gauges_read_their_window [OF this(1,3,2,4), of whole] show ?thesis
    by (simp add: gauge_producer_new_def instants_def placement_new_def)
qed

section \<open>Operators\<close>

theorem exact_join_is_at_shared_times_witness:
  "lookup_points whole OpSub (readings_of [1, 2, 4] [10, 20, 40]) (readings_of [2, 3, 4] [1, 2, 3]) =
   pair whole (readings_of [1, 2, 4] [10, 20, 40]) (readings_of [2, 3, 4] [1, 2, 3]) OpSub Exact"
  using exact_join_is_at_shared_times [of "readings_of [1, 2, 4] [10, 20, 40]" "readings_of [2, 3, 4] [1, 2, 3]" whole OpSub]
  by (simp add: readings_of_def increasing_def)

theorem bands_hold_the_value_witness:
  "\<exists>p b. combine_points exact OpMul ((point_at 1 (Some 3))\<lparr>pt_bounds := Some (Some 2, Some 4)\<rparr>) (point_at 1 (Some (-5))) = Some p \<and>
     pt_bounds p = Some b \<and> holds exact the b (pt_v p)"
proof -
  let ?l = "(point_at 1 (Some 3))\<lparr>pt_bounds := Some (Some 2, Some 4)\<rparr> :: real option point"
  let ?r = "point_at 1 (Some (-5)) :: real option point"
  obtain p where p: "combine_points exact OpMul ?l ?r = Some p" "pt_v p = Some (-15)" "pt_bounds p = Some (Some (-20), Some (-10))"
    by (simp add: combine_points_def op_apply_def exact_def point_at_def combine_bounds_def operand_band_def
        interval_binop_def Let_def edges_eq_def)
  moreover have "holds exact the (Some (-20), Some (-10)) (pt_v p)"
    by (rule bands_hold_the_value [OF exact_rounds _ _ _ _ _ _ p(1,3)])
      (simp_all add: p(2) holds_def exact_def point_at_def operand_band_def finite_band_def)
  ultimately show ?thesis by blast
qed


theorem matching_is_one_to_one_witness:
  "\<exists>key a b. matrix_matrix_op whole [] three_series OpAdd (On [''cpu'']) [] Exact 0 = Inl (ManyToMany key a b) \<and>
     first_two 0 0 (keyed three_series (On [''cpu''])) key a b"
proof -
  have "contested 0 0 (keyed three_series (On [''cpu''])) (fmupd ''cpu'' ''0'' fmempty)"
    by (simp add: contested_def lively_def keyed_def match_key_def three_series_def by_cpu has_points_def readings_of_def)
  then show ?thesis
    using matching_is_one_to_one [where F = whole and left = "[]" and right = three_series and op = OpAdd and
        spec = "On [''cpu'']" and recording_keys = "[]" and join = Exact and start_ns = 0]
    by (auto simp: join_hold_def keyed_def first_two_def lively_def split: sum.splits match_error.splits)
qed

end
