(* ===== verification/HistBuckets.thy ===== *)
theory HistBuckets
  imports Histograms "HOL-Library.Log_Nat"
begin

text \<open>
  The buckets of the histograms that are stored (\<open>metriken-storage/src/histogram_stream.rs\<close>): the lowest value of
  a bucket, the bucket of a value, and the configuration several streams are brought to. The arithmetic is the
  code's, on words; \<open>lo\<close> and \<open>bucket\<close> are what it computes, on numbers.
\<close>

type_synonym u32 = "32 word"

section \<open>The code\<close>

definition lower_bound :: "hist_config \<Rightarrow> u32 \<Rightarrow> u64" where
  "lower_bound config index =
     (let g_pow = grouping_power config;
          index = ucast index :: u64;
          g = drop_bit g_pow index;
          h = index - g * push_bit g_pow 1
      in if g < 1 then h else push_bit (g_pow + unat g - 1) 1 + push_bit (unat g - 1) 1 * h)"

definition leading_zeros :: "u64 \<Rightarrow> nat" where
  "leading_zeros v = 64 - floorlog 2 (unat v)"

definition bucket_of :: "'h hist_crate \<Rightarrow> hist_config \<Rightarrow> u64 \<Rightarrow> u32" where
  "bucket_of hc config value =
     (let grouping = grouping_power config;
          cutoff_power = grouping + 1;
          cutoff_value = push_bit cutoff_power 1 :: u64;
          last = of_nat (hc_total_buckets hc config) - 1 :: u32
      in if value < cutoff_value then min (ucast value) last
         else let power = 63 - leading_zeros value;
                  log_bin = power - cutoff_power;
                  offset = drop_bit (power - grouping) (value - push_bit power 1);
                  lower_bin_count = ucast cutoff_value :: u32;
                  divisions = push_bit grouping 1 :: u32
              in min (lower_bin_count + of_nat log_bin * divisions + ucast offset) last)"

text \<open>The smallest grouping power and the largest value power, \<open>None\<close> of no configuration.\<close>

definition common_config :: "'h hist_crate \<Rightarrow> hist_config list \<Rightarrow> hist_config option" where
  "common_config hc configs =
     (case fold (\<lambda>c. \<lambda>(grouping, max_power).
          (Some (case grouping of None \<Rightarrow> grouping_power c | Some g \<Rightarrow> min g (grouping_power c)),
           Some (case max_power of None \<Rightarrow> max_value_power c | Some m \<Rightarrow> max m (max_value_power c)))) configs (None, None)
      of (Some grouping, Some max_power) \<Rightarrow> hc_config hc grouping max_power
       | _ \<Rightarrow> None)"

text \<open>
  What is documented of the crate: a configuration has its grouping power below its value power, which is at most 64,
  and \<open>2 ^ grouping_power\<close> buckets for each power of two from there; their number fits the \<open>u32\<close> of an index.
\<close>

definition config_ok :: "'h hist_crate \<Rightarrow> hist_config \<Rightarrow> bool" where
  "config_ok hc c \<longleftrightarrow> grouping_power c < max_value_power c \<and> max_value_power c \<le> 64 \<and>
     hc_total_buckets hc c = (max_value_power c - grouping_power c + 1) * 2 ^ grouping_power c \<and>
     hc_total_buckets hc c < 2 ^ 32"

definition layout_ok :: "'h hist_crate \<Rightarrow> bool" where
  "layout_ok hc \<longleftrightarrow> (\<forall>g m c. hc_config hc g m = Some c \<longrightarrow> grouping_power c = g \<and> max_value_power c = m \<and> config_ok hc c)"

section \<open>On numbers\<close>

definition lo :: "nat \<Rightarrow> nat \<Rightarrow> nat" where
  "lo a i = (if i < 2 ^ a then i else 2 ^ (i div 2 ^ a - 1) * (2 ^ a + i mod 2 ^ a))"

definition bucket :: "nat \<Rightarrow> nat \<Rightarrow> nat" where
  "bucket a v = (if v < 2 ^ (a + 1) then v
     else let p = floorlog 2 v - 1 in (p - a + 1) * 2 ^ a + (v - 2 ^ p) div 2 ^ (p - a))"

lemma power_of: "0 < v \<Longrightarrow> 2 ^ (floorlog 2 v - 1) \<le> v \<and> v < 2 ^ floorlog 2 v"
  using floorlog_bounds [of v 2] by simp

lemma power_unique: "2 ^ p \<le> v \<Longrightarrow> v < 2 ^ Suc p \<Longrightarrow> floorlog 2 v - 1 = (p :: nat)"
  using floorlog_ge_SucI [of 2 p v] floorlog_le_iff [of 2 v "Suc p"] by simp

lemma lo_split: "h < 2 ^ a \<Longrightarrow> 0 < g \<Longrightarrow> lo a (g * 2 ^ a + h) = 2 ^ (g - 1) * (2 ^ a + h)"
  using div_mult_self3 [of "2 ^ a" g h] mod_mult_self3 [of g "2 ^ a" h] by (cases g) (simp_all add: lo_def)

lemma split_index: obtains g h where "i = g * 2 ^ a + h" "h < (2 :: nat) ^ a"
  using div_mult_mod_eq [of i "2 ^ a"] by (metis mod_less_divisor zero_less_numeral zero_less_power)

lemma lo_small: "i < 2 ^ (a + 1) \<Longrightarrow> lo a i = i"
proof (cases "i < 2 ^ a")
  case False
  assume "i < 2 ^ (a + 1)"
  then have "i = 1 * 2 ^ a + (i - 2 ^ a)" "i - 2 ^ a < 2 ^ a" using False by auto
  with lo_split [of "i - 2 ^ a" a 1] show ?thesis by simp
qed (simp add: lo_def)

text \<open>The bucket of a bucket's lowest value is that bucket.\<close>

lemma bucket_lo: "bucket a (lo a i) = i"
proof -
  obtain g h where i: "i = g * 2 ^ a + h" "h < 2 ^ a" by (rule split_index)
  show ?thesis
  proof (cases "g \<le> 1")
    case True
    then have "i < 2 ^ (a + 1)" using i by (cases g) auto
    then show ?thesis by (simp add: bucket_def lo_small)
  next
    case False
    define k where "k = g - 1"
    have g: "g = Suc k" "0 < k" using False by (auto simp: k_def)
    have lo: "lo a i = 2 ^ k * (2 ^ a + h)" using i(2) g lo_split [of h a g] unfolding i(1) by (simp only:) simp
    have ge: "2 ^ (a + k) \<le> lo a i" unfolding lo power_add by simp
    have "2 ^ k * (2 ^ a + h) < 2 ^ k * (2 * 2 ^ a)" using i(2) by simp
    also have "2 ^ k * (2 * 2 ^ a) = (2 :: nat) ^ Suc (a + k)" by (simp add: power_add)
    finally have "lo a i < 2 ^ Suc (a + k)" unfolding lo .
    from power_unique [OF ge this] have p: "floorlog 2 (lo a i) - 1 = a + k" .
    have "2 ^ (a + 1) \<le> (2 :: nat) ^ (a + k)" using g(2) by (intro power_increasing) simp_all
    then have "\<not> lo a i < 2 ^ (a + 1)" using ge by linarith
    then have "bucket a (lo a i) = (a + k - a + 1) * 2 ^ a + (lo a i - 2 ^ (a + k)) div 2 ^ (a + k - a)"
      using p by (simp only: bucket_def Let_def if_False)
    also have "lo a i - 2 ^ (a + k) = 2 ^ k * h" unfolding lo by (simp add: power_add algebra_simps)
    finally show ?thesis unfolding i(1) g(1) by simp
  qed
qed

lemma lo_less_Suc: "lo a i < lo a (Suc i)"
proof -
  obtain g h where i: "i = g * 2 ^ a + h" "h < 2 ^ a" by (rule split_index)
  show ?thesis
  proof (cases "g = 0")
    case True
    then have "i < 2 ^ (a + 1)" "Suc i < 2 ^ (a + 1)" using i by auto
    then show ?thesis by (simp add: lo_small)
  next
    case False
    then have a: "lo a i = 2 ^ (g - 1) * (2 ^ a + h)" using i lo_split by simp
    show ?thesis
    proof (cases "Suc h < 2 ^ a")
      case True
      then have "lo a (Suc i) = 2 ^ (g - 1) * (2 ^ a + Suc h)" using i False lo_split [of "Suc h" a g] by simp
      then show ?thesis using a by simp
    next
      case full: False
      then have h: "Suc h = 2 ^ a" using i by simp
      then have "Suc i = Suc g * 2 ^ a + 0" using i by simp
      then have "lo a (Suc i) = 2 ^ g * 2 ^ a" using lo_split [of 0 a "Suc g"] by simp
      also have "\<dots> = 2 ^ (g - 1) * (2 ^ a + Suc h)" using False h by (cases g) auto
      finally show ?thesis using a by simp
    qed
  qed
qed

lemma lo_mono: "strict_mono (lo a)"
  by (simp add: strict_mono_Suc_iff lo_less_Suc)

lemma lo_less_iff [simp]: "lo a i < lo a j \<longleftrightarrow> i < j"
  by (simp add: lo_mono strict_mono_less)

lemma lo_le_iff [simp]: "lo a i \<le> lo a j \<longleftrightarrow> i \<le> j"
  by (simp add: lo_mono strict_mono_less_eq)

text \<open>A value lies in its bucket.\<close>

lemma lo_bucket: "lo a (bucket a v) \<le> v" and lo_Suc_bucket: "v < lo a (Suc (bucket a v))"
proof -
  have "lo a (bucket a v) \<le> v \<and> v < lo a (Suc (bucket a v))"
  proof (cases "v < 2 ^ (a + 1)")
    case True
    then show ?thesis using lo_less_Suc [of a v] by (simp add: bucket_def lo_small)
  next
    case False
    define p where "p = floorlog 2 v - 1"
    have v: "0 < v" using False by (cases v) auto
    have f: "0 < floorlog 2 v" using power_of [OF v] v by (cases "floorlog 2 v") auto
    have p: "2 ^ p \<le> v" "v < 2 ^ Suc p" using power_of [OF v] f by (auto simp: p_def)
    have "2 ^ (a + 1) < (2 :: nat) ^ Suc p" using False p by linarith
    then have ap: "a < p" by simp
    define k where "k = p - a"
    have k: "p = a + k" "0 < k" using ap by (auto simp: k_def)
    define h where "h = (v - 2 ^ p) div 2 ^ k"
    have pk: "2 ^ p = (2 :: nat) ^ k * 2 ^ a" using k by (simp add: power_add)
    have "v - 2 ^ p < 2 ^ k * 2 ^ a" using p unfolding pk [symmetric] by simp
    then have h: "h < 2 ^ a" unfolding h_def by (simp add: less_mult_imp_div_less mult.commute)
    have b: "bucket a v = Suc k * 2 ^ a + h" using False by (simp add: bucket_def Let_def h_def k_def p_def)
    have lo: "lo a (bucket a v) = 2 ^ k * (2 ^ a + h)" using lo_split [OF h, of "Suc k"] b by simp
    have next': "lo a (Suc (bucket a v)) = 2 ^ k * (2 ^ a + Suc h)"
    proof (cases "Suc h < 2 ^ a")
      case True
      then show ?thesis using lo_split [of "Suc h" a "Suc k"] b by simp
    next
      case False
      then have h': "Suc h = 2 ^ a" using h by simp
      then have "Suc (bucket a v) = Suc (Suc k) * 2 ^ a + 0" using b by simp
      then have "lo a (Suc (bucket a v)) = 2 ^ Suc k * (2 ^ a + 0)"
        using lo_split [of 0 a "Suc (Suc k)"] by (simp only:) simp
      then show ?thesis using h' by simp
    qed
    have "2 ^ k * h \<le> v - 2 ^ p" "v - 2 ^ p < 2 ^ k * Suc h"
      unfolding h_def by (simp_all add: div_times_less_eq_dividend mult.commute)
        (metis add.commute dividend_less_times_div mult.commute zero_less_numeral zero_less_power mult_Suc)
    moreover have "v = 2 ^ k * 2 ^ a + (v - 2 ^ p)" using p pk by simp
    ultimately show ?thesis unfolding lo next' by (metis add_le_cancel_left add_less_cancel_left distrib_left)
  qed
  then show "lo a (bucket a v) \<le> v" "v < lo a (Suc (bucket a v))" by auto
qed

lemma bucket_iff: "bucket a v = j \<longleftrightarrow> lo a j \<le> v \<and> v < lo a (Suc j)"
proof
  assume "lo a j \<le> v \<and> v < lo a (Suc j)"
  then have "lo a j < lo a (Suc (bucket a v))" "lo a (bucket a v) < lo a (Suc j)"
    using lo_bucket [of a v] lo_Suc_bucket [of v a] by linarith+
  then show "bucket a v = j" by simp
qed (use lo_bucket lo_Suc_bucket in auto)

lemma bucket_mono: "v \<le> w \<Longrightarrow> bucket a v \<le> bucket a w"
proof -
  assume "v \<le> w"
  then have "lo a (bucket a v) < lo a (Suc (bucket a w))" using lo_bucket [of a v] lo_Suc_bucket [of w a] by linarith
  then show ?thesis by simp
qed

text \<open>Every edge of a coarser configuration is an edge of a finer one.\<close>

lemma coarse_edge: "a \<le> b \<Longrightarrow> \<exists>m. lo a j = lo b m"
proof -
  assume ab: "a \<le> b"
  show ?thesis
  proof (cases "lo a j < 2 ^ (b + 1)")
    case True
    then show ?thesis using lo_small by metis
  next
    case False
    obtain g h where j: "j = g * 2 ^ a + h" "h < 2 ^ a" by (rule split_index)
    have "2 ^ (a + 1) \<le> (2 :: nat) ^ (b + 1)" using ab by (intro power_increasing) auto
    with False have big: "\<not> j < 2 ^ (a + 1)" using lo_small [of j a] by linarith
    then have g: "0 < g" using j by (cases g) auto
    then have lo: "lo a j = 2 ^ (g - 1) * (2 ^ a + h)" using j lo_split by simp
    have "2 ^ (g - 1) * (2 ^ a + h) < 2 ^ (g - 1) * (2 * 2 ^ a)" using j by simp
    then have "2 ^ (b + 1) < 2 ^ (g - 1) * (2 * (2 :: nat) ^ a)" using False lo by linarith
    also have "\<dots> = 2 ^ (a + g)" using g by (cases g) (auto simp: power_add)
    finally have bg: "b + 1 < a + g" by (simp only: power_strict_increasing_iff one_less_numeral_iff semiring_norm)
    define g' where "g' = a + g - b"
    have h': "h * 2 ^ (b - a) < 2 ^ b"
    proof -
      have "h * 2 ^ (b - a) < 2 ^ a * 2 ^ (b - a)" using j by simp
      also have "\<dots> = (2 :: nat) ^ b" using ab by (simp flip: power_add)
      finally show ?thesis .
    qed
    have "lo b (g' * 2 ^ b + h * 2 ^ (b - a)) = 2 ^ (g' - 1) * (2 ^ b + h * 2 ^ (b - a))"
      using bg by (intro lo_split [OF h']) (simp add: g'_def)
    also have "2 ^ b + h * 2 ^ (b - a) = 2 ^ (b - a) * (2 ^ a + h)"
      using ab by (simp add: algebra_simps flip: power_add)
    also have "2 ^ (g' - 1) * (2 ^ (b - a) * (2 ^ a + h)) = 2 ^ (g - 1) * (2 ^ a + h)"
      using bg ab by (simp add: g'_def mult.assoc [symmetric] flip: power_add)
    finally show ?thesis using lo by metis
  qed
qed

text \<open>So no edge of the coarser configuration falls inside a bucket of the finer one.\<close>

lemma coarse_contains:
  assumes "a \<le> b"
  shows "lo a (bucket a (lo b i)) \<le> lo b i" "lo b (Suc i) \<le> lo a (Suc (bucket a (lo b i)))"
proof -
  show "lo a (bucket a (lo b i)) \<le> lo b i" by (rule lo_bucket)
  obtain m where m: "lo a (Suc (bucket a (lo b i))) = lo b m" using coarse_edge [OF assms] by blast
  have "lo b i < lo b m" using lo_Suc_bucket [of "lo b i" a] m by simp
  then show "lo b (Suc i) \<le> lo a (Suc (bucket a (lo b i)))" unfolding m by simp
qed

section \<open>The code computes these\<close>

lemma unat_of_nat_eq: "n < 2 ^ LENGTH('a) \<Longrightarrow> unat (of_nat n :: 'a::len word) = n"
  by (simp add: unat_of_nat)

lemma unat_two_power: "n < LENGTH('a) \<Longrightarrow> unat (2 ^ n :: 'a::len word) = 2 ^ n"
proof -
  assume "n < LENGTH('a)"
  then have "(2 :: nat) ^ n < 2 ^ LENGTH('a)" by simp
  then show "unat (2 ^ n :: 'a word) = 2 ^ n" using unat_of_nat_eq [where n = "2 ^ n" and 'a = 'a] by simp
qed

lemma lower_fits:
  assumes "config_ok hc c" "i < hc_total_buckets hc c"
  shows "lo (grouping_power c) i < 2 ^ max_value_power c" "lo (grouping_power c) i < 2 ^ 64" "grouping_power c < 31"
proof -
  let ?a = "grouping_power c" and ?m = "max_value_power c"
  have ok: "?a < ?m" "?m \<le> 64" "hc_total_buckets hc c = (?m - ?a + 1) * 2 ^ ?a" "hc_total_buckets hc c < 2 ^ 32"
    using assms by (simp_all add: config_ok_def)
  have "2 ^ (?a + 1) \<le> hc_total_buckets hc c" unfolding ok(3) power_add using ok(1) by simp
  then have "2 ^ (?a + 1) < (2 :: nat) ^ 32" using ok(4) by linarith
  then have "?a + 1 < 32" by (simp only: power_strict_increasing_iff one_less_numeral_iff semiring_norm)
  then show "?a < 31" by simp
  have "lo ?a i < lo ?a ((?m - ?a + 1) * 2 ^ ?a + 0)" using assms(2) ok(3) by simp
  also have "\<dots> = 2 ^ (?m - ?a) * 2 ^ ?a" using lo_split [of 0 ?a "?m - ?a + 1"] by simp
  also have "\<dots> = 2 ^ ?m" using ok(1) by (simp flip: power_add)
  finally show "lo ?a i < 2 ^ max_value_power c" .
  also have "\<dots> \<le> 2 ^ 64" using ok(2) by (rule power_increasing) simp
  finally show "lo ?a i < 2 ^ 64" .
qed

lemma unat_ucast_up: "LENGTH('a::len) \<le> LENGTH('b::len) \<Longrightarrow> unat (ucast (w :: 'a word) :: 'b word) = unat w"
proof -
  assume "LENGTH('a) \<le> LENGTH('b)"
  then have "(2 :: nat) ^ LENGTH('a) \<le> 2 ^ LENGTH('b)" by simp
  then have "unat w < 2 ^ LENGTH('b)" using unsigned_less [where 'a = nat, of w] by linarith
  then show "unat (ucast w :: 'b word) = unat w" by (simp add: unsigned_ucast_eq take_bit_nat_eq_self)
qed

theorem unat_lower_bound:
  assumes "config_ok hc c" "unat i < hc_total_buckets hc c"
  shows "unat (lower_bound c i) = lo (grouping_power c) (unat i)"
proof -
  let ?a = "grouping_power c" and ?i = "ucast i :: u64"
  have a: "?a < 31" by (rule lower_fits(3) [OF assms])
  have i: "unat ?i = unat i" by (rule unat_ucast_up) simp
  define g where "g = drop_bit ?a ?i"
  have g: "unat g = unat i div 2 ^ ?a" unfolding g_def by (subst unat_drop_bit_eq) (simp only: i drop_bit_eq_div)
  define h where "h = ?i - g * push_bit ?a 1"
  have gle: "unat (g * push_bit ?a 1) = unat i div 2 ^ ?a * 2 ^ ?a"
  proof -
    have "unat i div 2 ^ ?a * 2 ^ ?a \<le> unat i" by simp
    also have "unat i < 2 ^ 64" using unsigned_less [where 'a = nat, of i] by simp
    finally show ?thesis using a g by (simp add: unat_word_ariths push_bit_eq_mult unat_two_power)
  qed
  then have h: "unat h = unat i mod 2 ^ ?a"
    unfolding h_def using i by (simp add: unat_sub word_le_nat_alt minus_div_mult_eq_mod)
  show ?thesis
  proof (cases "unat i < 2 ^ ?a")
    case True
    then have "g < 1" using g by (simp add: word_less_nat_alt)
    then show ?thesis using True h i by (simp add: lower_bound_def Let_def lo_def flip: g_def h_def)
  next
    case False
    define k where "k = unat i div 2 ^ ?a"
    have "0 < k" using False by (simp add: k_def div_greater_zero_iff)
    have lt: "lo ?a (unat i) < 2 ^ 64" by (rule lower_fits(2) [OF assms])
    have lo: "lo ?a (unat i) = 2 ^ (k - 1) * (2 ^ ?a + unat i mod 2 ^ ?a)" using False by (simp add: lo_def k_def)
    have "\<not> g < 1" using False g by (simp add: word_less_nat_alt div_greater_zero_iff not_less)
    then have code: "lower_bound c i = push_bit (?a + k - 1) 1 + push_bit (k - 1) 1 * h"
      using g unfolding lower_bound_def Let_def g_def [symmetric] h_def [symmetric] by (simp only: if_False k_def)
    have two: "2 ^ (?a + k - 1) = (2 :: nat) ^ (k - 1) * 2 ^ ?a" using \<open>0 < k\<close> by (cases k) (auto simp: power_add)
    have "2 ^ (?a + k - 1) < (2 :: nat) ^ 64" using lt lo two by (simp add: distrib_left)
    then have ak: "?a + k - 1 < 64" by (simp only: power_strict_increasing_iff one_less_numeral_iff semiring_norm)
    then have k64: "k - 1 < 64" using \<open>0 < k\<close> by simp
    have "2 ^ (k - 1) * (unat i mod 2 ^ ?a) < 2 ^ 64" using lt lo by (simp add: distrib_left)
    then have "unat (push_bit (k - 1) 1 * h) = 2 ^ (k - 1) * (unat i mod 2 ^ ?a)"
      using k64 h by (simp add: unat_word_ariths push_bit_eq_mult unat_two_power)
    then show ?thesis
      unfolding code using lt lo two ak k64 h by (simp add: unat_word_ariths push_bit_eq_mult unat_two_power distrib_left)
  qed
qed

lemma bucket_fits:
  assumes "config_ok hc c" "v < 2 ^ max_value_power c"
  shows "bucket (grouping_power c) v < hc_total_buckets hc c"
proof -
  let ?a = "grouping_power c" and ?m = "max_value_power c"
  have ok: "?a < ?m" "hc_total_buckets hc c = (?m - ?a + 1) * 2 ^ ?a" using assms(1) by (simp_all add: config_ok_def)
  have "lo ?a (hc_total_buckets hc c) = 2 ^ (?m - ?a) * 2 ^ ?a" using lo_split [of 0 ?a "?m - ?a + 1"] ok(2) by simp
  also have "\<dots> = 2 ^ ?m" using ok(1) by (simp flip: power_add)
  finally have "lo ?a (bucket ?a v) < lo ?a (hc_total_buckets hc c)" using lo_bucket [of ?a v] assms(2) by linarith
  then show ?thesis by simp
qed

theorem unat_bucket_of:
  assumes "config_ok hc c" "unat v < 2 ^ max_value_power c"
  shows "unat (bucket_of hc c v) = bucket (grouping_power c) (unat v)"
proof -
  let ?a = "grouping_power c" and ?n = "hc_total_buckets hc c"
  have b: "bucket ?a (unat v) < ?n" by (rule bucket_fits [OF assms])
  have n: "?n < 2 ^ 32" using assms by (simp add: config_ok_def)
  have a: "?a < 31" using lower_fits(3) [OF assms(1) b] .
  have last: "unat (of_nat ?n - 1 :: u32) = ?n - 1"
  proof -
    have "of_nat ?n - 1 = (of_nat (?n - 1) :: u32)" using b by (cases ?n) simp_all
    then show ?thesis using n by (simp add: unat_of_nat del: of_nat_diff)
  qed
  have min': "unat (min x (of_nat ?n - 1 :: u32)) = k" if "unat x = k" "k < ?n" for x k
    using that last by (auto simp: min_def word_le_nat_alt)
  have cut: "unat (push_bit (?a + 1) 1 :: u64) = 2 ^ (?a + 1)"
    using a by (simp only: push_bit_eq_mult mult_1 unat_two_power) (simp add: unat_two_power del: power_Suc)
  show ?thesis
  proof (cases "unat v < 2 ^ (?a + 1)")
    case True
    then have "unat v < ?n" using b by (simp add: bucket_def)
    then have "unat (ucast v :: u32) = unat v" using n by (simp add: unsigned_ucast_eq take_bit_nat_eq_self)
    then show ?thesis using True cut b by (simp add: bucket_of_def Let_def min' bucket_def word_less_nat_alt)
  next
    case False
    define p where "p = floorlog 2 (unat v) - 1"
    have v: "0 < unat v" using False by (cases "unat v") auto
    have f: "0 < floorlog 2 (unat v)" using power_of [OF v] v by (cases "floorlog 2 (unat v)") auto
    have p: "2 ^ p \<le> unat v" "unat v < 2 ^ Suc p" using power_of [OF v] f by (auto simp: p_def)
    have "2 ^ (?a + 1) < (2 :: nat) ^ Suc p" using False p by linarith
    then have ap: "?a < p" by simp
    have "2 ^ p < (2 :: nat) ^ 64" using p unsigned_less [where 'a = nat, of v] by simp
    then have p64: "p < 64" by (simp only: power_strict_increasing_iff one_less_numeral_iff semiring_norm)
    have pw: "63 - leading_zeros v = p" using p64 f by (simp add: leading_zeros_def p_def)
    have "push_bit p 1 \<le> v" using p p64 by (simp add: word_le_nat_alt push_bit_eq_mult unat_two_power)
    then have "unat (v - push_bit p 1) = unat v - 2 ^ p" using p64 by (simp add: unat_sub push_bit_eq_mult unat_two_power)
    then have off: "unat (drop_bit (p - ?a) (v - push_bit p 1)) = (unat v - 2 ^ p) div 2 ^ (p - ?a)"
      by (subst unat_drop_bit_eq) (simp only: drop_bit_eq_div)
    define h where "h = (unat v - 2 ^ p) div 2 ^ (p - ?a)"
    have sum: "bucket ?a (unat v) = 2 ^ (?a + 1) + (p - (?a + 1)) * 2 ^ ?a + h"
    proof -
      have "p - ?a + 1 = 2 + (p - (?a + 1))" using ap by simp
      then have "(p - ?a + 1) * 2 ^ ?a = 2 ^ (?a + 1) + (p - (?a + 1)) * 2 ^ ?a" by (simp only: distrib_right) simp
      then show ?thesis using False by (simp only: bucket_def Let_def if_False h_def flip: p_def)
    qed
    let ?o = "ucast (drop_bit (p - ?a) (v - push_bit p 1)) :: u32"
    let ?c = "ucast (push_bit (?a + 1) 1 :: u64) :: u32"
    have parts: "h < 2 ^ 32" "2 ^ (?a + 1) < (2 :: nat) ^ 32" "bucket ?a (unat v) < 2 ^ 32"
      using b n sum by linarith+
    have offc: "unat ?o = h" using off parts(1) by (simp add: unsigned_ucast_eq take_bit_nat_eq_self h_def)
    have cutc: "unat ?c = 2 ^ (?a + 1)" using cut parts(2) by (simp only: unsigned_ucast_eq) (simp add: take_bit_nat_eq_self a del: power_Suc)
    have eq: "?c + of_nat (p - (?a + 1)) * push_bit ?a 1 + ?o = of_nat (bucket ?a (unat v))"
    proof -
      have "?c = of_nat (2 ^ (?a + 1))" "?o = of_nat h" unfolding cutc [symmetric] offc [symmetric] by simp_all
      then show ?thesis unfolding sum by (simp add: push_bit_eq_mult)
    qed
    have "unat (bucket_of hc c v) = unat (min (?c + of_nat (p - (?a + 1)) * push_bit ?a 1 + ?o) (of_nat ?n - 1))"
      using False cut pw by (simp add: bucket_of_def Let_def word_less_nat_alt)
    also have "\<dots> = bucket ?a (unat v)" unfolding eq by (rule min' [OF _ b]) (rule unat_of_nat_eq, use parts(3) in simp)
    finally show ?thesis .
  qed
qed

end
