(* ===== verification/HistStream.thy ===== *)
theory HistStream
  imports HistBuckets Labels "HOL-Library.Product_Lexorder"
begin

text \<open>
  Streams of histogram rows (\<open>metriken-storage/src/histogram_stream.rs\<close>): snapshots brought to a coarser
  configuration, and several streams merged, on their own times or on those of one of them.

  \<open>BinaryHeap\<close> gives some entry of least key; which one of several is its own affair, so it is the parameter \<open>tie\<close>,
  asked with the number of rows left.
\<close>

section \<open>Snapshots\<close>

record hist_snapshot =
  hs_index :: "u32 list"
  hs_count :: "u64 list"

definition cells_of :: "hist_snapshot \<Rightarrow> (u32 \<times> u64) list" where
  "cells_of s = zip (hs_index s) (hs_count s)"

text \<open>What the type promises: one count per index, ascending indices, counts that never fall.\<close>

definition snapshot_ok :: "hist_snapshot \<Rightarrow> bool" where
  "snapshot_ok s \<longleftrightarrow> length (hs_index s) = length (hs_count s) \<and> sorted_wrt (<) (hs_index s) \<and> sorted (hs_count s)"

definition rebucket_push :: "u32 \<times> u64 \<Rightarrow> hist_snapshot \<Rightarrow> hist_snapshot" where
  "rebucket_push = (\<lambda>(j, c) out.
     (if hs_index out \<noteq> [] \<and> last (hs_index out) = j
      then out\<lparr>hs_count := (hs_count out)[length (hs_count out) - 1 := c]\<rparr>
      else \<lparr>hs_index = hs_index out @ [j], hs_count = hs_count out @ [c]\<rparr>))"

definition rebucket :: "'h hist_crate \<Rightarrow> hist_snapshot \<Rightarrow> hist_config \<Rightarrow> hist_config \<Rightarrow> hist_snapshot" where
  "rebucket hc snapshot from to =
     fold (\<lambda>(i, c). rebucket_push (bucket_of hc to (lower_bound from i), c)) (cells_of snapshot) \<lparr>hs_index = [], hs_count = []\<rparr>"

section \<open>Rows and streams\<close>

record hist_row =
  hr_series :: nat
  hr_t :: u64
  hr_snapshot :: hist_snapshot
  hr_resumes :: bool

record hist_stream =
  st_config :: hist_config
  st_series :: "labels list"
  st_rows :: "hist_row list"

definition rebucketed :: "'h hist_crate \<Rightarrow> hist_config \<Rightarrow> hist_stream \<Rightarrow> hist_stream" where
  "rebucketed hc to s =
     (if st_config s = to then s
      else s\<lparr>st_config := to, st_rows := map (\<lambda>r. r\<lparr>hr_snapshot := rebucket hc (hr_snapshot r) (st_config s) to\<rparr>) (st_rows s)\<rparr>)"

text \<open>The position of a key in a list it is added to when it is new.\<close>

fun position :: "'a \<Rightarrow> 'a list \<Rightarrow> nat option" where
  "position x [] = None"
| "position x (y # ys) = (if y = x then Some 0 else map_option Suc (position x ys))"

definition assign_index :: "'a \<Rightarrow> 'a list \<Rightarrow> nat \<times> 'a list" where
  "assign_index key keys = (case position key keys of Some i \<Rightarrow> (i, keys) | None \<Rightarrow> (length keys, keys @ [key]))"

fun assign_all :: "'a list \<Rightarrow> 'a list \<Rightarrow> nat list \<times> 'a list" where
  "assign_all [] keys = ([], keys)"
| "assign_all (x # xs) keys =
     (let (i, keys) = assign_index x keys; (is, keys) = assign_all xs keys in (i # is, keys))"

fun unify_series :: "labels list list \<Rightarrow> labels list \<Rightarrow> nat list list \<times> labels list" where
  "unify_series [] keys = ([], keys)"
| "unify_series (s # ss) keys =
     (let (r, keys) = assign_all s keys; (rs, keys) = unify_series ss keys in (r # rs, keys))"

section \<open>The merge\<close>

text \<open>
  The heap holds the first row of each iterator that has one, so the iterators are the lists of what they have
  yet to give, with that row. \<open>mg_last\<close> is the clock's last row popped, \<open>mg_gap\<close> the interval before it.
\<close>

record merge_state =
  mg_iters :: "hist_row list list"
  mg_last :: "u64 option"
  mg_gap :: "u64 option"

definition entry_key :: "nat option \<Rightarrow> hist_row list list \<Rightarrow> nat \<Rightarrow> u64 \<times> bool \<times> nat" where
  "entry_key clock iters i = (let r = hd (iters ! i) in (hr_t r, clock = Some i, hr_series r))"

definition heap_pop :: "(nat \<Rightarrow> nat) \<Rightarrow> nat option \<Rightarrow> hist_row list list \<Rightarrow> nat option" where
  "heap_pop tie clock iters =
     (let entries = filter (\<lambda>i. iters ! i \<noteq> []) [0..<length iters];
          least = filter (\<lambda>i. list_all (\<lambda>j. entry_key clock iters i \<le> entry_key clock iters j) entries) entries
      in if least = [] then None else Some (least ! (tie (sum_list (map length iters)) mod length least)))"

definition clock_head :: "nat option \<Rightarrow> hist_row list list \<Rightarrow> u64 option" where
  "clock_head clock iters = (case clock of None \<Rightarrow> None
     | Some c \<Rightarrow> if c < length iters then (case iters ! c of [] \<Rightarrow> None | r # _ \<Rightarrow> Some (hr_t r)) else None)"

text \<open>One turn of the loop: the row it returns, unless it goes round again.\<close>

definition merge_turn :: "nat option \<Rightarrow> nat \<Rightarrow> merge_state \<Rightarrow> hist_row option \<times> merge_state" where
  "merge_turn clock i st =
     (let row = hd (mg_iters st ! i); st = st\<lparr>mg_iters := (mg_iters st)[i := tl (mg_iters st ! i)]\<rparr>
      in if clock = Some i
         then (Some row, if mg_last st \<noteq> Some (hr_t row)
           then st\<lparr>mg_gap := map_option (saturating_sub (hr_t row)) (mg_last st), mg_last := Some (hr_t row)\<rparr> else st)
         else
           (case mg_last st of None \<Rightarrow> Some row
            | Some latest \<Rightarrow>
                (case clock_head clock (mg_iters st) of
                   Some head \<Rightarrow>
                     (let gap = saturating_sub head latest
                      in if (case mg_gap st of None \<Rightarrow> True | Some before \<Rightarrow> gap \<le> saturating_mul before 2)
                         then Some (row\<lparr>hr_t := max (hr_t row) head\<rparr>) else Some row)
                 | None \<Rightarrow>
                     if (case mg_gap st of None \<Rightarrow> False | Some gap \<Rightarrow> saturating_sub (hr_t row) latest \<le> gap)
                     then None else Some row), st))"

lemma heap_pop_range: "heap_pop tie clock iters = Some i \<Longrightarrow> i < length iters \<and> iters ! i \<noteq> [] \<and>
    (\<forall>j < length iters. iters ! j \<noteq> [] \<longrightarrow> entry_key clock iters i \<le> entry_key clock iters j)"
proof -
  assume pop: "heap_pop tie clock iters = Some i"
  define least where "least = filter (\<lambda>i. list_all (\<lambda>j. entry_key clock iters i \<le> entry_key clock iters j)
      (filter (\<lambda>i. iters ! i \<noteq> []) [0..<length iters])) (filter (\<lambda>i. iters ! i \<noteq> []) [0..<length iters])"
  have "least \<noteq> []" "i = least ! (tie (sum_list (map length iters)) mod length least)"
    using pop by (auto simp: heap_pop_def Let_def least_def split: if_splits)
  then have "i \<in> set least" by simp
  then show ?thesis by (auto simp: least_def list_all_iff)
qed

lemma merge_turn_iters: "(out, st') = merge_turn clock i st \<Longrightarrow> mg_iters st' = (mg_iters st)[i := tl (mg_iters st ! i)]"
  by (auto simp: merge_turn_def Let_def split: if_splits option.splits)

lemma rows_left_less:
  "i < length iters \<Longrightarrow> iters ! i \<noteq> [] \<Longrightarrow>
     sum_list (map length (iters[i := tl (iters ! i)])) < sum_list (map length (iters :: 'a list list))"
proof (induction iters arbitrary: i)
  case (Cons x iters)
  then show ?case by (cases i) auto
qed simp

function merge_rows :: "(nat \<Rightarrow> nat) \<Rightarrow> nat option \<Rightarrow> merge_state \<Rightarrow> hist_row list" where
  "merge_rows tie clock st =
     (case heap_pop tie clock (mg_iters st) of
        None \<Rightarrow> []
      | Some i \<Rightarrow>
          (let (out, st') = merge_turn clock i st
           in case out of None \<Rightarrow> merge_rows tie clock st' | Some r \<Rightarrow> r # merge_rows tie clock st'))"
  by pat_completeness auto
termination
  by (relation "measure (\<lambda>(tie, clock, st). sum_list (map length (mg_iters st)))")
    (auto dest!: heap_pop_range merge_turn_iters simp: rows_left_less)

declare merge_rows.simps [simp del]

definition remap_rows :: "'h hist_crate \<Rightarrow> hist_config \<Rightarrow> nat list \<Rightarrow> hist_stream \<Rightarrow> hist_row list" where
  "remap_rows hc config local_remap s = map (\<lambda>r. r\<lparr>hr_series := local_remap ! hr_series r,
     hr_snapshot := (if st_config s \<noteq> config then rebucket hc (hr_snapshot r) (st_config s) config else hr_snapshot r)\<rparr>) (st_rows s)"

definition merge_streams :: "'h hist_crate \<Rightarrow> (nat \<Rightarrow> nat) \<Rightarrow> hist_stream list \<Rightarrow> nat option \<Rightarrow> hist_stream option" where
  "merge_streams hc tie streams clock =
     (case streams of [] \<Rightarrow> None | [s] \<Rightarrow> Some s
      | _ \<Rightarrow> (case common_config hc (map st_config streams) of None \<Rightarrow> None
          | Some config \<Rightarrow>
              (let (remap, global_series) = unify_series (map st_series streams) [];
                   iters = map2 (remap_rows hc config) remap streams
               in Some \<lparr>st_config = config, st_series = global_series,
                    st_rows = merge_rows tie clock \<lparr>mg_iters = iters, mg_last = None, mg_gap = None\<rparr>\<rparr>)))"

definition merge_all :: "'h hist_crate \<Rightarrow> (nat \<Rightarrow> nat) \<Rightarrow> hist_stream list \<Rightarrow> hist_stream option" where
  "merge_all hc tie streams = merge_streams hc tie streams None"

definition merge_on_clock :: "'h hist_crate \<Rightarrow> (nat \<Rightarrow> nat) \<Rightarrow> hist_stream list \<Rightarrow> nat \<Rightarrow> hist_stream option" where
  "merge_on_clock hc tie streams clock = merge_streams hc tie streams (Some clock)"

end
