(* ===== verification/HistMerge.thy ===== *)
theory HistMerge
  imports HistStream "HOL-Library.Multiset"
begin

text \<open>
  What a merge of streams gives: every row with the labels of its series, in order of time; on a clock, each row of
  another stream at the clock's next time, or left out after its last, by the rule \<open>restamp\<close>. And what bringing a
  snapshot to a coarser configuration keeps: each bucket's observations are those of the buckets it contains.
\<close>

section \<open>Series\<close>

lemma position_Some: "position x ys = Some i \<Longrightarrow> i < length ys \<and> ys ! i = x"
  by (induction ys arbitrary: i) (auto split: if_splits)

lemma position_None: "position x ys = None \<longleftrightarrow> x \<notin> set ys"
  by (induction ys) auto

lemma assign_index_ok:
  assumes "assign_index x keys = (i, keys')"
  shows "i < length keys'" "keys' ! i = x" "\<exists>ext. keys' = keys @ ext" "distinct keys \<Longrightarrow> distinct keys'"
    "set keys' = insert x (set keys)"
  using assms by (auto simp: assign_index_def position_None split: option.splits dest: position_Some)

lemma assign_all_ok:
  "assign_all xs keys = (is, keys') \<Longrightarrow>
     (\<exists>ext. keys' = keys @ ext) \<and> length is = length xs \<and> (\<forall>k < length xs. is ! k < length keys' \<and> keys' ! (is ! k) = xs ! k) \<and>
     (distinct keys \<longrightarrow> distinct keys') \<and> set keys' = set xs \<union> set keys"
proof (induction xs arbitrary: keys "is" keys')
  case (Cons x xs)
  obtain i keys1 where a: "assign_index x keys = (i, keys1)" by fastforce
  obtain js where b: "assign_all xs keys1 = (js, keys')" and "is": "is = i # js"
    using Cons.prems a by (auto simp: Let_def split: prod.splits)
  note A = assign_index_ok [OF a] and B = Cons.IH [OF b]
  from B obtain ext where ext: "keys' = keys1 @ ext" by blast
  have "i < length keys'" "keys' ! i = x" using A(1,2) ext by (auto simp: nth_append)
  with A B "is" show ?case by (auto simp: nth_Cons split: nat.splits)
qed simp

lemma unify_series_ok:
  "unify_series ss keys = (rs, keys') \<Longrightarrow>
     (\<exists>ext. keys' = keys @ ext) \<and> length rs = length ss \<and> (distinct keys \<longrightarrow> distinct keys') \<and>
     (\<forall>s < length ss. length (rs ! s) = length (ss ! s) \<and>
        (\<forall>k < length (ss ! s). rs ! s ! k < length keys' \<and> keys' ! (rs ! s ! k) = ss ! s ! k))"
proof (induction ss arbitrary: keys rs keys')
  case (Cons x ss)
  obtain r keys1 where a: "assign_all x keys = (r, keys1)" by fastforce
  obtain qs where b: "unify_series ss keys1 = (qs, keys')" and rs: "rs = r # qs"
    using Cons.prems a by (auto simp: Let_def split: prod.splits)
  note A = assign_all_ok [OF a] and B = Cons.IH [OF b]
  from B obtain ext where ext: "keys' = keys1 @ ext" by blast
  have "\<forall>k < length x. r ! k < length keys' \<and> keys' ! (r ! k) = x ! k" using A ext by (auto simp: nth_append)
  with A B rs show ?case by (auto simp: nth_Cons split: nat.splits)
qed simp

section \<open>Rows in the order they are popped\<close>

function popped :: "(nat \<Rightarrow> nat) \<Rightarrow> nat option \<Rightarrow> hist_row list list \<Rightarrow> (nat \<times> hist_row) list" where
  "popped tie clock iters =
     (case heap_pop tie clock iters of None \<Rightarrow> []
      | Some i \<Rightarrow> (i, hd (iters ! i)) # popped tie clock (iters[i := tl (iters ! i)]))"
  by pat_completeness auto
termination
  by (relation "measure (\<lambda>(tie, clock, iters). sum_list (map length iters))") (auto dest!: heap_pop_range simp: rows_left_less)

declare popped.simps [simp del]

lemma heap_pop_None: "heap_pop tie clock iters = None \<Longrightarrow> \<forall>xs \<in> set iters. xs = []"
proof (rule ccontr)
  assume none: "heap_pop tie clock iters = None" and "\<not> (\<forall>xs \<in> set iters. xs = [])"
  then obtain k where k: "k < length iters" "iters ! k \<noteq> []" by (auto simp: in_set_conv_nth)
  let ?E = "{i. i < length iters \<and> iters ! i \<noteq> []}"
  have fin: "finite ?E" "?E \<noteq> {}" using k by auto
  define i where "i = arg_min_on (entry_key clock iters) ?E"
  have "i \<in> ?E" unfolding i_def by (rule arg_min_if_finite(1) [OF fin])
  moreover have "entry_key clock iters i \<le> entry_key clock iters j" if "j \<in> ?E" for j
    using arg_min_if_finite(2) [OF fin, of "entry_key clock iters"] that unfolding i_def by (meson not_le)
  ultimately have "i \<in> set (filter (\<lambda>i. list_all (\<lambda>j. entry_key clock iters i \<le> entry_key clock iters j)
      (filter (\<lambda>i. iters ! i \<noteq> []) [0..<length iters])) (filter (\<lambda>i. iters ! i \<noteq> []) [0..<length iters]))"
    by (auto simp: list_all_iff)
  then show False using none by (simp only: heap_pop_def Let_def option.distinct split: if_splits) (metis empty_iff list.set(1))
qed

definition tagged :: "hist_row list list \<Rightarrow> (nat \<times> hist_row) multiset" where
  "tagged iters = (\<Sum>i < length iters. image_mset (Pair i) (mset (iters ! i)))"

lemma tagged_pop:
  assumes "i < length iters" "iters ! i \<noteq> []"
  shows "tagged iters = add_mset (i, hd (iters ! i)) (tagged (iters[i := tl (iters ! i)]))"
proof -
  let ?f = "\<lambda>j. image_mset (Pair j) (mset (iters ! j))"
  let ?g = "\<lambda>j. image_mset (Pair j) (mset (iters[i := tl (iters ! i)] ! j))"
  have "tagged iters = ?f i + sum ?f ({..<length iters} - {i})"
    unfolding tagged_def using assms(1) by (intro sum.remove) auto
  also have "?f i = add_mset (i, hd (iters ! i)) (?g i)" using assms by (cases "iters ! i") auto
  also have "sum ?f ({..<length iters} - {i}) = sum ?g ({..<length iters} - {i})" by (intro sum.cong) auto
  also have "add_mset (i, hd (iters ! i)) (?g i) + sum ?g ({..<length iters} - {i}) =
      add_mset (i, hd (iters ! i)) (?g i + sum ?g ({..<length iters} - {i}))" by simp
  also have "?g i + sum ?g ({..<length iters} - {i}) = tagged (iters[i := tl (iters ! i)])"
    unfolding tagged_def using assms(1) by (subst sum.remove [of "{..<length (iters[i := tl (iters ! i)])}" i]) auto
  finally show ?thesis .
qed

lemma popped_mset: "mset (popped tie clock iters) = tagged iters"
proof (induction tie clock iters rule: popped.induct)
  case (1 tie clock iters)
  show ?case
  proof (cases "heap_pop tie clock iters")
    case None
    then have "\<forall>i < length iters. iters ! i = []" using heap_pop_None by (metis nth_mem)
    then show ?thesis using None by (simp add: popped.simps tagged_def)
  next
    case (Some i)
    then show ?thesis using 1 heap_pop_range [OF Some] tagged_pop [of i iters]
      by (subst popped.simps) simp
  qed
qed

text \<open>Time and whether the row is the clock's, the part of the key that only rises.\<close>

definition pop_key :: "nat option \<Rightarrow> nat \<times> hist_row \<Rightarrow> u64 \<times> bool" where
  "pop_key clock = (\<lambda>(i, r). (hr_t r, clock = Some i))"

definition in_time :: "hist_row list \<Rightarrow> bool" where
  "in_time rows \<longleftrightarrow> sorted_wrt (\<lambda>a b. hr_t a \<le> hr_t b) rows"

lemma in_tagged: "x \<in># tagged iters \<longleftrightarrow> fst x < length iters \<and> snd x \<in> set (iters ! fst x)"
  by (cases x) (auto simp: tagged_def set_mset_sum)

lemma popped_least:
  assumes "heap_pop tie clock iters = Some i" "\<forall>xs \<in> set iters. in_time xs" "x \<in># tagged iters"
  shows "pop_key clock (i, hd (iters ! i)) \<le> pop_key clock x"
proof -
  obtain j r where x: "x = (j, r)" "j < length iters" "r \<in> set (iters ! j)" using assms(3) by (cases x) (auto simp: in_tagged)
  then have "entry_key clock iters i \<le> entry_key clock iters j" using heap_pop_range [OF assms(1)] by fastforce
  then have le: "pop_key clock (i, hd (iters ! i)) \<le> pop_key clock (j, hd (iters ! j))"
    by (auto simp: entry_key_def pop_key_def Let_def less_eq_prod_def)
  have "in_time (iters ! j)" using assms(2) x by simp
  then have "hr_t (hd (iters ! j)) \<le> hr_t r" using x(3) by (cases "iters ! j") (auto simp: in_time_def)
  then have "pop_key clock (j, hd (iters ! j)) \<le> pop_key clock x" by (auto simp: pop_key_def x less_eq_prod_def le_less)
  with le show ?thesis by (rule order_trans)
qed

lemma in_time_pop: "\<forall>xs \<in> set iters. in_time xs \<Longrightarrow> i < length iters \<Longrightarrow> \<forall>xs \<in> set (iters[i := tl (iters ! i)]). in_time xs"
proof
  fix xs
  assume a: "\<forall>xs \<in> set iters. in_time xs" "i < length iters" "xs \<in> set (iters[i := tl (iters ! i)])"
  then have "xs = tl (iters ! i) \<or> xs \<in> set iters" using set_update_subset_insert by fastforce
  moreover have "in_time (iters ! i)" using a(1,2) by simp
  then have "in_time (tl (iters ! i))" by (cases "iters ! i") (simp_all add: in_time_def)
  ultimately show "in_time xs" using a(1) by auto
qed

lemma popped_sorted:
  "\<forall>xs \<in> set iters. in_time xs \<Longrightarrow> sorted_wrt (\<lambda>a b. pop_key clock a \<le> pop_key clock b) (popped tie clock iters)"
proof (induction tie clock iters rule: popped.induct)
  case (1 tie clock iters)
  show ?case
  proof (cases "heap_pop tie clock iters")
    case None
    then show ?thesis by (simp add: popped.simps)
  next
    case (Some i)
    let ?iters = "iters[i := tl (iters ! i)]"
    have i: "i < length iters" "iters ! i \<noteq> []" using heap_pop_range [OF Some] by auto
    have "sorted_wrt (\<lambda>a b. pop_key clock a \<le> pop_key clock b) (popped tie clock ?iters)"
      using 1(1) [OF Some in_time_pop [OF 1(2) i(1)]] by simp
    moreover have "pop_key clock (i, hd (iters ! i)) \<le> pop_key clock x" if "x \<in> set (popped tie clock ?iters)" for x
    proof -
      have "x \<in># tagged ?iters" using that popped_mset by (metis set_mset_mset)
      then have "x \<in># tagged iters" using tagged_pop [OF i] by simp
      then show ?thesis by (rule popped_least [OF Some 1(2)])
    qed
    ultimately show ?thesis using Some by (subst popped.simps) simp
  qed
qed

section \<open>On the clock's times\<close>

text \<open>The last of some times before \<open>t\<close>, and the first at or after it.\<close>

definition before :: "u64 list \<Rightarrow> u64 \<Rightarrow> u64 option" where
  "before C t = (let S = set (filter (\<lambda>c. c < t) C) in if S = {} then None else Some (Max S))"

definition at_or_after :: "u64 list \<Rightarrow> u64 \<Rightarrow> u64 option" where
  "at_or_after C t = (let S = set (filter (\<lambda>c. t \<le> c) C) in if S = {} then None else Some (Min S))"

text \<open>Where a row at \<open>t\<close> of another stream goes when the clock has rows at \<open>C\<close>: \<open>None\<close> if it is left out.\<close>

definition restamp :: "u64 list \<Rightarrow> u64 \<Rightarrow> u64 option" where
  "restamp C t =
     (case before C t of None \<Rightarrow> Some t
      | Some latest \<Rightarrow>
          (let gap = map_option (saturating_sub latest) (before C latest)
           in case at_or_after C t of
                Some head \<Rightarrow>
                  if (case gap of None \<Rightarrow> True | Some g \<Rightarrow> head - latest \<le> saturating_mul g 2) then Some head else Some t
              | None \<Rightarrow> if (case gap of None \<Rightarrow> False | Some g \<Rightarrow> t - latest \<le> g) then None else Some t))"

definition restamped :: "nat \<Rightarrow> u64 list \<Rightarrow> nat \<times> hist_row \<Rightarrow> hist_row option" where
  "restamped c C = (\<lambda>(i, r). if i = c then Some r else map_option (\<lambda>t. r\<lparr>hr_t := t\<rparr>) (restamp C (hr_t r)))"

lemma sorted_last: "sorted D \<Longrightarrow> d \<in> set D \<Longrightarrow> d \<le> last (D :: u64 list)"
  by (induction D) auto

lemma sorted_Max: "sorted D \<Longrightarrow> D \<noteq> [] \<Longrightarrow> Max (set D) = last (D :: u64 list)"
  by (rule Max_eqI) (auto intro: sorted_last)

lemma before_snoc: "\<forall>d \<in> set D. d < t \<Longrightarrow> \<forall>d \<in> set E. t \<le> d \<Longrightarrow> sorted D \<Longrightarrow>
    before (D @ E) t = (if D = [] then None else Some (last D))"
proof -
  assume a: "\<forall>d \<in> set D. d < t" "\<forall>d \<in> set E. t \<le> d" "sorted D"
  have "filter (\<lambda>c. c < t) (D @ E) = D" using a(1,2) by (auto simp: filter_empty_conv intro!: filter_True)
  then show ?thesis using a(3) by (auto simp: before_def Let_def sorted_Max)
qed

lemma at_or_after_snoc: "\<forall>d \<in> set D. d < t \<Longrightarrow> \<forall>d \<in> set E. t \<le> d \<Longrightarrow> sorted E \<Longrightarrow>
    at_or_after (D @ E) t = (if E = [] then None else Some (hd E))"
proof -
  assume a: "\<forall>d \<in> set D. d < t" "\<forall>d \<in> set E. t \<le> d" "sorted E"
  have "filter (\<lambda>c. t \<le> c) (D @ E) = E" using a(1,2) by (auto simp: filter_empty_conv intro!: filter_True)
  then show ?thesis using a(3) by (cases E) (auto simp: at_or_after_def Let_def intro!: Min_eqI)
qed

text \<open>What the loop knows of the clock: \<open>D\<close> are the times of its rows so far.\<close>

definition clock_known :: "nat \<Rightarrow> u64 list \<Rightarrow> merge_state \<Rightarrow> bool" where
  "clock_known c D st \<longleftrightarrow> c < length (mg_iters st) \<and> sorted D \<and> (\<forall>xs \<in> set (mg_iters st). in_time xs) \<and>
     (\<forall>d \<in> set D. \<forall>(i, r) \<in># tagged (mg_iters st). if i = c then d \<le> hr_t r else d < hr_t r) \<and>
     mg_last st = (if D = [] then None else Some (last D)) \<and>
     mg_gap st = (case mg_last st of None \<Rightarrow> None | Some l \<Rightarrow> map_option (saturating_sub l) (before D l))"

lemma before_append_later: "\<forall>d \<in> set E. l \<le> d \<Longrightarrow> before (D @ E) l = before D l"
proof -
  assume "\<forall>d \<in> set E. l \<le> d"
  then have "filter (\<lambda>c. c < l) E = []" by (auto simp: filter_empty_conv)
  then show ?thesis by (simp add: before_def)
qed

lemma clock_known_bound:
  assumes "clock_known c D st" "d \<in> set D" "(j, q) \<in># tagged (mg_iters st)"
  shows "if j = c then d \<le> hr_t q else d < hr_t q"
proof -
  have "\<forall>d \<in> set D. \<forall>(i, r) \<in># tagged (mg_iters st). if i = c then d \<le> hr_t r else d < hr_t r"
    using assms(1) by (simp add: clock_known_def)
  from bspec [OF bspec [OF this assms(2)] assms(3)] show ?thesis by simp
qed

lemma clock_known_pop:
  assumes known: "clock_known c D st" and pop: "heap_pop tie (Some c) (mg_iters st) = Some i"
  defines "r \<equiv> hd (mg_iters st ! i)" and "D' \<equiv> if i = c then D @ [hr_t (hd (mg_iters st ! i))] else D"
  shows "clock_known c D' (snd (merge_turn (Some c) i st))"
    "D @ map hr_t (mg_iters st ! c) = D' @ map hr_t (mg_iters (snd (merge_turn (Some c) i st)) ! c)"
proof -
  let ?iters = "(mg_iters st)[i := tl (mg_iters st ! i)]"
  obtain out st' where turn: "merge_turn (Some c) i st = (out, st')" by fastforce
  have it: "mg_iters st' = ?iters" by (rule merge_turn_iters [OF turn [symmetric]])
  have i: "i < length (mg_iters st)" "mg_iters st ! i \<noteq> []" using heap_pop_range [OF pop] by auto
  have c: "c < length (mg_iters st)" "sorted D" and timely: "\<forall>xs \<in> set (mg_iters st). in_time xs"
    using known by (auto simp: clock_known_def)
  show "D @ map hr_t (mg_iters st ! c) = D' @ map hr_t (mg_iters (snd (merge_turn (Some c) i st)) ! c)"
    using i c by (cases "mg_iters st ! c") (auto simp: turn it D'_def)
  have tg: "tagged (mg_iters st) = add_mset (i, r) (tagged ?iters)" using tagged_pop [OF i] by (simp add: r_def)
  have bound: "d \<in> set D \<Longrightarrow> (j, q) \<in># tagged (mg_iters st) \<Longrightarrow> if j = c then d \<le> hr_t q else d < hr_t q" for d j q
    using clock_known_bound [OF known, of d j q] by simp
  have timely': "\<forall>xs \<in> set ?iters. in_time xs" by (rule in_time_pop [OF timely i(1)])
  show "clock_known c D' (snd (merge_turn (Some c) i st))"
  proof (cases "i = c")
    case False
    then have "mg_last st' = mg_last st" "mg_gap st' = mg_gap st"
      using turn by (auto simp: merge_turn_def Let_def split: option.splits if_splits)
    then show ?thesis using known False bound tg timely' it c by (auto simp: clock_known_def D'_def turn)
  next
    case True
    have lastD: "mg_last st = (if D = [] then None else Some (last D))" using known by (simp add: clock_known_def)
    have D: "D' = D @ [hr_t r]" using True by (simp add: D'_def r_def)
    have le: "\<forall>d \<in> set D. d \<le> hr_t r" using bound [of _ c r] tg True by auto
    have sorted: "sorted D'" using c(2) le by (simp add: D sorted_append)
    have least: "if j = c then hr_t r \<le> hr_t q else hr_t r < hr_t q" if "(j, q) \<in># tagged ?iters" for j q
    proof -
      have "(j, q) \<in># tagged (mg_iters st)" using that tg by simp
      from popped_least [OF pop timely this] True show ?thesis by (auto simp: pop_key_def less_eq_prod_def r_def)
    qed
    have later: "if j = c then d \<le> hr_t q else d < hr_t q" if "d \<in> set D'" "(j, q) \<in># tagged ?iters" for d j q
      using that least [OF that(2)] bound [of d j q] tg by (auto simp: D split: if_splits)
    have last': "mg_last st' = Some (hr_t r)" using turn True by (auto simp: merge_turn_def Let_def r_def split: if_splits)
    have gap': "mg_gap st' = map_option (saturating_sub (hr_t r)) (before D' (hr_t r))"
    proof (cases "mg_last st = Some (hr_t r)")
      case same: True
      then have "mg_gap st' = mg_gap st" using turn True by (auto simp: merge_turn_def Let_def r_def)
      moreover have "before D' (hr_t r) = before D (hr_t r)" unfolding D by (rule before_append_later) simp
      ultimately show ?thesis using known same by (simp add: clock_known_def)
    next
      case other: False
      have gap: "mg_gap st' = map_option (saturating_sub (hr_t r)) (mg_last st)"
        using turn True other by (auto simp: merge_turn_def Let_def r_def)
      have "\<forall>d \<in> set D. d < hr_t r"
      proof
        fix d assume d: "d \<in> set D"
        then have "D \<noteq> []" by auto
        then have "last D \<noteq> hr_t r" using other lastD by simp
        moreover have "d \<le> last D" by (rule sorted_last [OF c(2) d])
        moreover have "last D \<le> hr_t r" using le d by (metis empty_iff last_in_set list.set(1))
        ultimately show "d < hr_t r" by simp
      qed
      from before_snoc [OF this _ c(2), of "[hr_t r]"] gap lastD show ?thesis by (simp add: D)
    qed
    show ?thesis unfolding turn snd_conv clock_known_def it
      using c sorted timely' later last' gap' by (auto simp: D)
  qed
qed

lemma turn_restamps:
  assumes known: "clock_known c D st" and pop: "heap_pop tie (Some c) (mg_iters st) = Some i"
  shows "fst (merge_turn (Some c) i st) = restamped c (D @ map hr_t (mg_iters st ! c)) (i, hd (mg_iters st ! i))"
proof (cases "i = c")
  case True
  then show ?thesis by (simp add: merge_turn_def restamped_def Let_def)
next
  case False
  let ?r = "hd (mg_iters st ! i)" and ?E = "map hr_t (mg_iters st ! c)"
  have i: "i < length (mg_iters st)" "mg_iters st ! i \<noteq> []" using heap_pop_range [OF pop] by auto
  have c: "c < length (mg_iters st)" "sorted D" and timely: "\<forall>xs \<in> set (mg_iters st). in_time xs"
    using known by (auto simp: clock_known_def)
  have lastD: "mg_last st = (if D = [] then None else Some (last D))" using known by (simp add: clock_known_def)
  have tg: "(i, ?r) \<in># tagged (mg_iters st)" using tagged_pop [OF i] by simp
  have D: "\<forall>d \<in> set D. d < hr_t ?r" using clock_known_bound [OF known _ tg] False by simp
  have E: "\<forall>d \<in> set ?E. hr_t ?r \<le> d"
  proof
    fix d assume "d \<in> set ?E"
    then obtain q where q: "q \<in> set (mg_iters st ! c)" "d = hr_t q" by auto
    then have "(c, q) \<in># tagged (mg_iters st)" using c by (simp add: in_tagged)
    from popped_least [OF pop timely this] show "hr_t ?r \<le> d" using q by (auto simp: pop_key_def less_eq_prod_def)
  qed
  have "in_time (mg_iters st ! c)" using timely c(1) by simp
  then have sE: "sorted ?E" by (simp add: in_time_def sorted_wrt_map)
  have b: "before (D @ ?E) (hr_t ?r) = mg_last st" using before_snoc [OF D E c(2)] lastD by simp
  have a: "at_or_after (D @ ?E) (hr_t ?r) = clock_head (Some c) ((mg_iters st)[i := tl (mg_iters st ! i)])"
    using at_or_after_snoc [OF D E sE] c False by (cases "mg_iters st ! c") (auto simp: clock_head_def)
  have g: "map_option (saturating_sub l) (before (D @ ?E) l) = mg_gap st" if "mg_last st = Some l" for l
  proof -
    have "l \<in> set D" using that lastD by (auto split: if_splits)
    then have "\<forall>d \<in> set ?E. l \<le> d" using D E by fastforce
    from before_append_later [OF this, of D] show ?thesis using known that by (simp add: clock_known_def)
  qed
  have lt: "l < hr_t ?r" if "mg_last st = Some l" for l using that lastD D by (auto split: if_splits)
  have hd': "hr_t ?r \<le> h" if "clock_head (Some c) ((mg_iters st)[i := tl (mg_iters st ! i)]) = Some h" for h
    using that E c False by (cases "mg_iters st ! c") (auto simp: clock_head_def)
  show ?thesis
  proof (cases "mg_last st")
    case None
    then show ?thesis using False b by (simp add: merge_turn_def Let_def restamped_def restamp_def)
  next
    case (Some l)
    show ?thesis
    proof (cases "clock_head (Some c) ((mg_iters st)[i := tl (mg_iters st ! i)])")
      case None
      have "saturating_sub (hr_t ?r) l = hr_t ?r - l" using lt [OF Some] by (auto simp: saturating_sub_def dest: order.asym)
      then show ?thesis using Some None False a b g [OF Some]
        by (auto simp: merge_turn_def Let_def restamped_def restamp_def split: option.splits)
    next
      case head: (Some h)
      have "saturating_sub h l = h - l" "max (hr_t ?r) h = h"
        using lt [OF Some] hd' [OF head] by (auto simp: saturating_sub_def dest: order.asym)
      then show ?thesis using Some head False a b g [OF Some]
        by (auto simp: merge_turn_def Let_def restamped_def restamp_def split: option.splits)
    qed
  qed
qed

lemma merge_restamps:
  "clock_known c D st \<Longrightarrow> merge_rows tie (Some c) st =
     List.map_filter (restamped c (D @ map hr_t (mg_iters st ! c))) (popped tie (Some c) (mg_iters st))"
proof (induction tie "Some c" st arbitrary: D rule: merge_rows.induct)
  case (1 tie st)
  show ?case
  proof (cases "heap_pop tie (Some c) (mg_iters st)")
    case None
    then show ?thesis by (simp add: merge_rows.simps popped.simps map_filter_simps)
  next
    case (Some i)
    obtain out st' where turn: "merge_turn (Some c) i st = (out, st')" by fastforce
    note step = clock_known_pop [OF 1(3) Some] and now = turn_restamps [OF 1(3) Some]
    have it: "mg_iters st' = (mg_iters st)[i := tl (mg_iters st ! i)]" by (rule merge_turn_iters [OF turn [symmetric]])
    have rest: "merge_rows tie (Some c) st' =
        List.map_filter (restamped c (D @ map hr_t (mg_iters st ! c))) (popped tie (Some c) (mg_iters st'))"
      using 1(1,2) [OF Some turn [symmetric]] step turn by (cases out) (auto simp: turn)
    show ?thesis using Some rest now by (subst merge_rows.simps, subst popped.simps)
        (auto simp: turn it map_filter_simps split: option.splits)
  qed
qed

lemma unclocked_rows:
  "mg_last st = None \<Longrightarrow> merge_rows tie None st = map snd (popped tie None (mg_iters st))"
proof (induction tie "None :: nat option" st rule: merge_rows.induct)
  case (1 tie st)
  show ?case
  proof (cases "heap_pop tie None (mg_iters st)")
    case None
    then show ?thesis by (simp add: merge_rows.simps popped.simps)
  next
    case (Some i)
    have turn: "merge_turn None i st = (Some (hd (mg_iters st ! i)), st\<lparr>mg_iters := (mg_iters st)[i := tl (mg_iters st ! i)]\<rparr>)"
      using 1(3) by (simp add: merge_turn_def Let_def)
    show ?thesis using 1(2) [OF Some turn [symmetric]] 1(3) Some by (subst merge_rows.simps, subst popped.simps) (simp add: turn)
  qed
qed

section \<open>Restamping keeps the order\<close>

lemma at_or_after_ge: "at_or_after C t = Some h \<Longrightarrow> t \<le> h \<and> h \<in> set C \<and> (\<forall>c \<in> set C. t \<le> c \<longrightarrow> h \<le> c)"
proof -
  assume a: "at_or_after C t = Some h"
  let ?S = "set (filter (\<lambda>c. t \<le> c) C)"
  have "?S \<noteq> {}" "h = Min ?S" using a by (auto simp: at_or_after_def Let_def split: if_splits)
  then have "h \<in> ?S" "\<forall>c \<in> ?S. h \<le> c" using Min_in [of ?S] Min_le [of ?S] by (simp_all only: finite_set) blast+
  then show ?thesis by auto
qed

lemma restamp_cases: "restamp C t = Some t' \<Longrightarrow> t' = t \<or> at_or_after C t = Some t'"
  by (auto simp: restamp_def Let_def split: option.splits if_splits)

lemma restamp_ge: "restamp C t = Some t' \<Longrightarrow> t \<le> t'"
  using restamp_cases at_or_after_ge by fastforce

lemma restamp_mono:
  assumes "t1 \<le> t2" "restamp C t1 = Some s1" "restamp C t2 = Some s2"
  shows "s1 \<le> s2"
proof (cases "s1 = t1 \<or> s1 \<le> t2")
  case True
  then show ?thesis using assms restamp_ge by (meson order_trans)
next
  case False
  then have h: "at_or_after C t1 = Some s1" "t2 < s1" using restamp_cases [OF assms(2)] by auto
  note H = at_or_after_ge [OF h(1)]
  have "filter (\<lambda>c. c < t2) C = filter (\<lambda>c. c < t1) C" using H h(2) assms(1) by (intro filter_cong) (auto simp: not_le [symmetric])
  then have b: "before C t2 = before C t1" by (simp add: before_def)
  have "filter (\<lambda>c. t2 \<le> c) C = filter (\<lambda>c. t1 \<le> c) C" using H h(2) assms(1) by (intro filter_cong) auto
  then have a: "at_or_after C t2 = Some s1" using h(1) by (simp add: at_or_after_def)
  have "restamp C t2 = Some s1" using assms(2) False a b h(1)
    by (auto simp: restamp_def Let_def split: option.splits if_splits)
  then show ?thesis using assms(3) by simp
qed

text \<open>The time a row gets: its own without a clock, or on the clock's stream.\<close>

definition stamp :: "nat option \<Rightarrow> u64 list \<Rightarrow> nat \<Rightarrow> u64 \<Rightarrow> u64 option" where
  "stamp clock C i t = (case clock of None \<Rightarrow> Some t | Some c \<Rightarrow> if i = c then Some t else restamp C t)"

definition stamped :: "nat option \<Rightarrow> u64 list \<Rightarrow> nat \<times> hist_row \<Rightarrow> hist_row option" where
  "stamped clock C = (\<lambda>(i, r). map_option (\<lambda>t. r\<lparr>hr_t := t\<rparr>) (stamp clock C i (hr_t r)))"

lemma stamped_some: "stamped (Some c) C = restamped c C" "stamped None C = Some \<circ> snd"
  by (auto simp: stamped_def stamp_def restamped_def fun_eq_iff)

lemma stamped_mono:
  assumes "pop_key clock a \<le> pop_key clock b" "stamped clock C a = Some x" "stamped clock C b = Some y"
    "\<forall>c. clock = Some c \<longrightarrow> fst b = c \<longrightarrow> hr_t (snd b) \<in> set C"
  shows "hr_t x \<le> hr_t y"
proof -
  obtain i r j q where ab: "a = (i, r)" "b = (j, q)" by fastforce
  have le: "hr_t r \<le> hr_t q" using assms(1) by (auto simp: pop_key_def ab less_eq_prod_def)
  have xy: "stamp clock C i (hr_t r) = Some (hr_t x)" "stamp clock C j (hr_t q) = Some (hr_t y)"
    using assms(2,3) by (auto simp: stamped_def ab)
  show ?thesis
  proof (cases clock)
    case None
    then show ?thesis using xy le by (simp add: stamp_def)
  next
    case (Some c)
    show ?thesis
    proof (cases "i = c")
      case True
      have "hr_t q \<le> hr_t y" using xy(2) Some restamp_ge by (auto simp: stamp_def split: if_splits)
      then show ?thesis using le xy(1) Some True by (simp add: stamp_def)
    next
      case i: False
      show ?thesis
      proof (cases "j = c")
        case True
        then have "hr_t q \<in> set C" using assms(4) Some by (simp add: ab)
        then have "hr_t x \<le> hr_t q" using restamp_cases [of C "hr_t r" "hr_t x"] at_or_after_ge [of C "hr_t r" "hr_t x"] xy(1) Some i le
          by (auto simp: stamp_def)
        then show ?thesis using xy(2) Some True by (simp add: stamp_def)
      next
        case False
        then show ?thesis using xy Some i le restamp_mono by (auto simp: stamp_def)
      qed
    qed
  qed
qed

lemma merge_rows_popped:
  assumes "\<forall>xs \<in> set iters. in_time xs" "\<forall>c. clock = Some c \<longrightarrow> c < length iters"
  defines "C \<equiv> (case clock of None \<Rightarrow> [] | Some c \<Rightarrow> map hr_t (iters ! c))"
  shows "merge_rows tie clock \<lparr>mg_iters = iters, mg_last = None, mg_gap = None\<rparr> =
    List.map_filter (stamped clock C) (popped tie clock iters)"
proof (cases clock)
  case None
  have "List.map_filter (Some \<circ> snd) xs = map snd xs" for xs :: "(nat \<times> hist_row) list"
    by (induction xs) (simp_all add: map_filter_simps)
  then show ?thesis using None unclocked_rows by (simp add: stamped_some)
next
  case (Some c)
  have "clock_known c [] \<lparr>mg_iters = iters, mg_last = None, mg_gap = None\<rparr>"
    using assms Some by (simp add: clock_known_def)
  from merge_restamps [OF this] show ?thesis using Some by (simp add: stamped_some C_def)
qed

lemma in_map_filter: "y \<in> set (List.map_filter f xs) \<longleftrightarrow> (\<exists>b \<in> set xs. f b = Some y)"
  by (induction xs) (auto simp: map_filter_simps split: option.splits)

lemma sorted_wrt_map_filter:
  "sorted_wrt P xs \<Longrightarrow> (\<And>a b x y. a \<in> set xs \<Longrightarrow> b \<in> set xs \<Longrightarrow> P a b \<Longrightarrow> f a = Some x \<Longrightarrow> f b = Some y \<Longrightarrow> Q x y) \<Longrightarrow>
     sorted_wrt Q (List.map_filter f xs)"
proof (induction xs)
  case (Cons a xs)
  have tl: "sorted_wrt Q (List.map_filter f xs)" using Cons by (auto intro!: Cons.IH)
  show ?case
  proof (cases "f a")
    case (Some x)
    have "Q x y" if y: "y \<in> set (List.map_filter f xs)" for y
    proof -
      obtain b where "b \<in> set xs" "f b = Some y" using y by (auto simp: in_map_filter)
      then show ?thesis using Cons.prems(1) Cons.prems(2) [of a b x y] Some by simp
    qed
    then show ?thesis using tl Some by (simp add: map_filter_simps)
  qed (use tl in \<open>simp add: map_filter_simps\<close>)
qed (simp add: map_filter_simps)

lemma merge_rows_in_time:
  assumes "\<forall>xs \<in> set iters. in_time xs" "\<forall>c. clock = Some c \<longrightarrow> c < length iters"
  shows "in_time (merge_rows tie clock \<lparr>mg_iters = iters, mg_last = None, mg_gap = None\<rparr>)"
proof -
  let ?C = "case clock of None \<Rightarrow> [] | Some c \<Rightarrow> map hr_t (iters ! c)"
  have "set (popped tie clock iters) = set_mset (tagged iters)" by (metis popped_mset set_mset_mset)
  then have src: "hr_t (snd b) \<in> set ?C" if "b \<in> set (popped tie clock iters)" "clock = Some c" "fst b = c" for b c
    using that by (auto simp: in_tagged)
  show ?thesis unfolding merge_rows_popped [OF assms] in_time_def
    by (rule sorted_wrt_map_filter [OF popped_sorted [OF assms(1)]]) (use src stamped_mono in blast)
qed

definition mset_some :: "('a \<Rightarrow> 'b option) \<Rightarrow> 'a multiset \<Rightarrow> 'b multiset" where
  "mset_some f M = image_mset (the \<circ> f) (filter_mset (\<lambda>x. f x \<noteq> None) M)"

lemma mset_map_filter: "mset (List.map_filter f xs) = mset_some f (mset xs)"
  by (induction xs) (auto simp: map_filter_simps mset_some_def split: option.splits)

lemma mset_some_sum: "finite I \<Longrightarrow> mset_some f (sum g I) = (\<Sum>i \<in> I. mset_some f (g i))"
  by (induction I rule: finite_induct) (auto simp: mset_some_def)

lemma mset_some_image: "mset_some f (image_mset h M) = mset_some (f \<circ> h) M"
  by (induction M) (auto simp: mset_some_def)

lemma image_mset_some: "image_mset h (mset_some f M) = mset_some (map_option h \<circ> f) M"
  by (induction M) (auto simp: mset_some_def)

lemma merge_rows_mset:
  assumes "\<forall>xs \<in> set iters. in_time xs" "\<forall>c. clock = Some c \<longrightarrow> c < length iters"
  defines "C \<equiv> (case clock of None \<Rightarrow> [] | Some c \<Rightarrow> map hr_t (iters ! c))"
  shows "mset (merge_rows tie clock \<lparr>mg_iters = iters, mg_last = None, mg_gap = None\<rparr>) =
    (\<Sum>i < length iters. mset (List.map_filter (\<lambda>r. stamped clock C (i, r)) (iters ! i)))"
  unfolding merge_rows_popped [OF assms(1,2)] mset_map_filter popped_mset tagged_def
  by (subst mset_some_sum) (simp_all add: mset_some_image comp_def C_def)

section \<open>Merged streams\<close>

text \<open>A row as what it says: the labels of its series, a time, the counts under a configuration and whether it resumes.\<close>

definition row_says :: "'h hist_crate \<Rightarrow> hist_config \<Rightarrow> hist_stream \<Rightarrow> hist_row \<Rightarrow> u64 \<Rightarrow> labels \<times> u64 \<times> hist_snapshot \<times> bool" where
  "row_says hc config s r t = (st_series s ! hr_series r, t,
     if st_config s \<noteq> config then rebucket hc (hr_snapshot r) (st_config s) config else hr_snapshot r, hr_resumes r)"

definition stream_ok :: "hist_stream \<Rightarrow> bool" where
  "stream_ok s \<longleftrightarrow> in_time (st_rows s) \<and> (\<forall>r \<in> set (st_rows s). hr_series r < length (st_series s))"

lemma map_map_filter:
  "(\<And>x. x \<in> set xs \<Longrightarrow> map_option F (f (h x)) = g x) \<Longrightarrow> map F (List.map_filter f (map h xs)) = List.map_filter g xs"
proof (induction xs)
  case (Cons x xs)
  have "map_option F (f (h x)) = g x" using Cons.prems by simp
  then show ?case using Cons by (cases "f (h x)"; cases "g x") (auto simp: map_filter_simps)
qed (simp add: map_filter_simps)

lemma nth_remap:
  assumes "unify_series (map st_series streams) [] = (remap, keys)" "i < length streams"
  shows "map2 (remap_rows hc config) remap streams ! i = remap_rows hc config (remap ! i) (streams ! i)"
  using unify_series_ok [OF assms(1)] assms(2) by simp

lemma merged_rows:
  assumes "merge_streams hc tie streams clock = Some m" "2 \<le> length streams" "\<forall>s \<in> set streams. stream_ok s"
    "\<forall>c. clock = Some c \<longrightarrow> c < length streams"
  defines "C \<equiv> (case clock of None \<Rightarrow> [] | Some c \<Rightarrow> map hr_t (st_rows (streams ! c)))"
  shows "stream_ok m" "distinct (st_series m)"
    "image_mset (\<lambda>r. row_says hc (st_config m) m r (hr_t r)) (mset (st_rows m)) =
      (\<Sum>i < length streams. mset (List.map_filter
         (\<lambda>r. map_option (row_says hc (st_config m) (streams ! i) r) (stamp clock C i (hr_t r))) (st_rows (streams ! i))))"
proof -
  obtain remap keys where u: "unify_series (map st_series streams) [] = (remap, keys)" by fastforce
  define iters where "iters = map2 (remap_rows hc (st_config m)) remap streams"
  have m: "st_series m = keys" "st_rows m = merge_rows tie clock \<lparr>mg_iters = iters, mg_last = None, mg_gap = None\<rparr>"
    using assms(1,2) u by (auto simp: merge_streams_def iters_def split: list.splits option.splits)
  note U = unify_series_ok [OF u]
  have len: "length iters = length streams" using U by (simp add: iters_def)
  have it: "iters ! i = remap_rows hc (st_config m) (remap ! i) (streams ! i)" if "i < length streams" for i
    unfolding iters_def by (rule nth_remap [OF u that])
  have C: "C = (case clock of None \<Rightarrow> [] | Some c \<Rightarrow> map hr_t (iters ! c))"
    using assms(4) it by (auto simp: C_def remap_rows_def split: option.splits)
  have timely: "\<forall>xs \<in> set iters. in_time xs"
  proof
    fix xs assume "xs \<in> set iters"
    then obtain i where i: "i < length streams" "xs = iters ! i" using len by (auto simp: in_set_conv_nth)
    then have "in_time (st_rows (streams ! i))" using assms(3) by (simp add: stream_ok_def)
    then show "in_time xs" using i it by (simp add: in_time_def remap_rows_def sorted_wrt_map)
  qed
  have clk: "\<forall>c. clock = Some c \<longrightarrow> c < length iters" using assms(4) len by simp
  note M = merge_rows_mset [OF timely clk, of tie, folded C m(2), unfolded len]
  have series: "hr_series r < length (st_series (streams ! i))" if "i < length streams" "r \<in> set (st_rows (streams ! i))" for i r
    using assms(3) that by (simp add: stream_ok_def)
  have key: "remap ! i ! k < length keys" "keys ! (remap ! i ! k) = st_series (streams ! i) ! k"
    if "i < length streams" "k < length (st_series (streams ! i))" for i k using U that by auto
  show "distinct (st_series m)" using U m by simp
  show "stream_ok m" unfolding stream_ok_def
  proof
    show "in_time (st_rows m)" unfolding m by (rule merge_rows_in_time [OF timely clk])
    show "\<forall>r \<in> set (st_rows m). hr_series r < length (st_series m)"
    proof
      fix r assume "r \<in> set (st_rows m)"
      then have "r \<in># mset (st_rows m)" by simp
      then obtain i q where "i < length streams" "q \<in> set (iters ! i)" "stamped clock C (i, q) = Some r"
        unfolding M by (auto simp: set_mset_sum in_map_filter)
      then show "hr_series r < length (st_series m)"
        using it series key m by (auto simp: stamped_def remap_rows_def)
    qed
  qed
  show "image_mset (\<lambda>r. row_says hc (st_config m) m r (hr_t r)) (mset (st_rows m)) =
      (\<Sum>i < length streams. mset (List.map_filter
         (\<lambda>r. map_option (row_says hc (st_config m) (streams ! i) r) (stamp clock C i (hr_t r))) (st_rows (streams ! i))))"
  proof -
    let ?F = "\<lambda>r. row_says hc (st_config m) m r (hr_t r)"
    have one: "map ?F (List.map_filter (\<lambda>r. stamped clock C (i, r)) (iters ! i)) = List.map_filter
        (\<lambda>r. map_option (row_says hc (st_config m) (streams ! i) r) (stamp clock C i (hr_t r))) (st_rows (streams ! i))"
      if i: "i < length streams" for i
      unfolding it [OF i] remap_rows_def
    proof (rule map_map_filter)
      fix r assume r: "r \<in> set (st_rows (streams ! i))"
      show "map_option ?F (stamped clock C (i, r\<lparr>hr_series := remap ! i ! hr_series r,
          hr_snapshot := if st_config (streams ! i) \<noteq> st_config m then rebucket hc (hr_snapshot r) (st_config (streams ! i)) (st_config m)
            else hr_snapshot r\<rparr>)) = map_option (row_says hc (st_config m) (streams ! i) r) (stamp clock C i (hr_t r))"
        using key(2) [OF i series [OF i r]] m(1) by (cases "stamp clock C i (hr_t r)") (simp_all add: stamped_def row_says_def)
    qed
    have "image_mset ?F (mset (st_rows m)) = (\<Sum>i < length streams. image_mset ?F (mset (List.map_filter (\<lambda>r. stamped clock C (i, r)) (iters ! i))))"
      unfolding M using mset_some_sum [of "{..<length streams}" "Some \<circ> ?F"] by (simp add: mset_some_def comp_def)
    also have "\<dots> = (\<Sum>i < length streams. mset (List.map_filter
        (\<lambda>r. map_option (row_says hc (st_config m) (streams ! i) r) (stamp clock C i (hr_t r))) (st_rows (streams ! i))))"
      using one by (intro sum.cong) (simp_all flip: mset_map)
    finally show ?thesis .
  qed
qed

section \<open>Coarser buckets\<close>

text \<open>The count of each bucket from the running counts, and the observations under one index.\<close>

fun singles :: "u64 \<Rightarrow> (u32 \<times> u64) list \<Rightarrow> (u32 \<times> u64) list" where
  "singles below [] = []"
| "singles below ((i, c) # cs) = (i, saturating_sub c below) # singles c cs"

definition count_at :: "u32 \<Rightarrow> (u32 \<times> u64) list \<Rightarrow> nat" where
  "count_at j = (\<lambda>cs. sum_list (map (\<lambda>(i, n). if i = j then unat n else 0) (singles 0 cs)))"

definition rising :: "(u32 \<times> u64) list \<Rightarrow> bool" where
  "rising = sorted_wrt (\<lambda>a b. fst a < fst b \<and> snd a \<le> snd b)"

definition top :: "(u32 \<times> u64) list \<Rightarrow> u64" where
  "top cs = (if cs = [] then 0 else snd (last cs))"

lemma singles_append: "singles below (cs @ ds) = singles below cs @ singles (if cs = [] then below else top cs) ds"
  by (induction below cs rule: singles.induct) (auto simp: top_def)

lemma count_at_snoc: "count_at j (cs @ [(i, c)]) = count_at j cs + (if i = j then unat (saturating_sub c (top cs)) else 0)"
  by (simp add: count_at_def singles_append top_def)

lemma cells_ok: "snapshot_ok s \<longleftrightarrow> length (hs_index s) = length (hs_count s) \<and> rising (cells_of s)"
proof (cases "length (hs_index s) = length (hs_count s)")
  case True
  then have "map fst (cells_of s) = hs_index s" "map snd (cells_of s) = hs_count s" by (simp_all add: cells_of_def)
  then have "sorted_wrt (<) (hs_index s) \<longleftrightarrow> sorted_wrt (\<lambda>a b. fst a < fst b) (cells_of s)"
    "sorted (hs_count s) \<longleftrightarrow> sorted_wrt (\<lambda>a b. snd a \<le> snd b) (cells_of s)" by (metis sorted_wrt_map)+
  then show ?thesis using True by (auto simp: rising_def snapshot_ok_def sorted_wrt_iff_nth_less)
qed (simp add: snapshot_ok_def)

definition cell_push :: "u32 \<times> u64 \<Rightarrow> (u32 \<times> u64) list \<Rightarrow> (u32 \<times> u64) list" where
  "cell_push x cs = (if cs \<noteq> [] \<and> fst (last cs) = fst x then butlast cs @ [x] else cs @ [x])"

lemma cells_push:
  assumes "length (hs_index out) = length (hs_count out)"
  shows "length (hs_index (rebucket_push x out)) = length (hs_count (rebucket_push x out)) \<and>
    cells_of (rebucket_push x out) = cell_push x (cells_of out)"
proof (cases "hs_index out" rule: rev_cases)
  case Nil
  then show ?thesis using assms by (cases x) (auto simp: rebucket_push_def cells_of_def cell_push_def)
next
  case (snoc js i)
  then obtain ns n where "hs_count out = ns @ [n]" "length js = length ns" using assms by (cases "hs_count out" rule: rev_cases) auto
  then show ?thesis using snoc by (cases x) (auto simp: rebucket_push_def cells_of_def cell_push_def)
qed

lemma cells_rebucket_fold:
  "length (hs_index out) = length (hs_count out) \<Longrightarrow>
     length (hs_index (fold (\<lambda>(i, c). rebucket_push (f i, c)) cs out)) = length (hs_count (fold (\<lambda>(i, c). rebucket_push (f i, c)) cs out)) \<and>
     cells_of (fold (\<lambda>(i, c). rebucket_push (f i, c)) cs out) = fold (\<lambda>(i, c). cell_push (f i, c)) cs (cells_of out)"
proof (induction cs arbitrary: out)
  case (Cons x cs)
  obtain i c where x: "x = (i, c)" by fastforce
  from Cons.IH [of "rebucket_push (f i, c) out"] cells_push [OF Cons.prems, of "(f i, c)"] show ?case by (simp add: x)
qed simp

lemma gap_sum: "a \<le> b \<Longrightarrow> b \<le> c \<Longrightarrow> unat (saturating_sub b a) + unat (saturating_sub c b) = unat (saturating_sub c a)"
  by (simp add: unat_saturating_sub word_le_nat_alt)

lemma rising_snoc: "rising (cs @ [x]) \<longleftrightarrow> rising cs \<and> (\<forall>a \<in> set cs. fst a < fst x \<and> snd a \<le> snd x)"
  by (auto simp: rising_def sorted_wrt_append)

lemma rising_last: "rising cs \<Longrightarrow> cs \<noteq> [] \<Longrightarrow> \<forall>a \<in> set cs. fst a \<le> fst (last cs) \<and> snd a \<le> snd (last cs)"
  by (cases cs rule: rev_cases) (auto simp: rising_snoc intro: less_imp_le)

text \<open>Running counts brought under a map of indices that keeps their order: the counts under each new index add up.\<close>

lemma pushed_cells:
  assumes "rising cs" "\<And>a b. a \<in> fst ` set cs \<Longrightarrow> b \<in> fst ` set cs \<Longrightarrow> a < b \<Longrightarrow> f a \<le> f b"
  defines "out \<equiv> fold (\<lambda>(i, c). cell_push (f i, c)) cs []"
  shows "rising out \<and> top out = top cs \<and> (out = [] \<longleftrightarrow> cs = []) \<and> fst ` set out \<subseteq> f ` fst ` set cs \<and>
    (\<forall>j. count_at j out = sum_list (map (\<lambda>(i, n). if f i = j then unat n else 0) (singles 0 cs)))"
  using assms(1,2) unfolding out_def
proof (induction cs rule: rev_induct)
  case Nil
  then show ?case by (simp add: rising_def count_at_def top_def)
next
  case (snoc x cs)
  obtain i c where x: "x = (i, c)" by fastforce
  define acc where "acc = fold (\<lambda>(i, c). cell_push (f i, c)) cs []"
  have IH: "rising acc" "top acc = top cs" "acc = [] \<longleftrightarrow> cs = []" "fst ` set acc \<subseteq> f ` fst ` set cs"
    "count_at j acc = sum_list (map (\<lambda>(i, n). if f i = j then unat n else 0) (singles 0 cs))" for j
    using snoc.IH snoc.prems unfolding acc_def by (simp_all add: rising_snoc)
  have fold: "fold (\<lambda>(i, c). cell_push (f i, c)) (cs @ [x]) [] = cell_push (f i, c) acc" by (simp add: x acc_def)
  have cs: "\<forall>a \<in> set cs. fst a < i \<and> snd a \<le> c" using snoc.prems(1) by (simp add: rising_snoc x)
  have top: "top cs \<le> c" using cs by (auto simp: top_def)
  have fle: "fst a \<le> f i" if "a \<in> set acc" for a
  proof -
    have "fst a \<in> f ` fst ` set cs" using subsetD [OF IH(4) imageI [OF that]] .
    then obtain b where "b \<in> set cs" "fst a = f (fst b)" by auto
    then show ?thesis using snoc.prems(2) [of "fst b" i] cs by (auto simp: x)
  qed
  have sums: "sum_list (map (\<lambda>(i, n). if f i = j then unat n else 0) (singles 0 (cs @ [x]))) =
      count_at j acc + (if f i = j then unat (saturating_sub c (top cs)) else 0)" for j
    by (simp add: IH(5) singles_append x top_def)
  show ?case
  proof (cases "acc \<noteq> [] \<and> fst (last acc) = f i")
    case True
    then obtain init n where out: "acc = init @ [(f i, n)]" by (cases acc rule: rev_cases) auto
    have n: "n = top cs" using IH(2) by (simp add: out top_def)
    have new: "fold (\<lambda>(i, c). cell_push (f i, c)) (cs @ [x]) [] = init @ [(f i, c)]"
      unfolding fold by (simp add: cell_push_def out)
    have init: "\<forall>a \<in> set init. fst a < f i \<and> snd a \<le> n" "rising init" using IH(1) by (auto simp: out rising_snoc)
    have "top init \<le> n" using init by (auto simp: top_def)
    then have "unat (saturating_sub n (top init)) + unat (saturating_sub c n) = unat (saturating_sub c (top init))"
      using top n by (intro gap_sum) auto
    then have "count_at j (init @ [(f i, c)]) = count_at j acc + (if f i = j then unat (saturating_sub c (top cs)) else 0)" for j
      by (simp add: out count_at_snoc flip: n)
    moreover have "rising (init @ [(f i, c)])" using init top n by (simp add: rising_snoc) (meson order_trans)
    moreover have "fst ` set (init @ [(f i, c)]) \<subseteq> f ` fst ` set (cs @ [x])" using IH(4) by (auto simp: out x)
    ultimately show ?thesis unfolding new using sums by (simp add: top_def x)
  next
    case False
    then have new: "fold (\<lambda>(i, c). cell_push (f i, c)) (cs @ [x]) [] = acc @ [(f i, c)]" unfolding fold by (auto simp: cell_push_def)
    have "fst a < f i \<and> snd a \<le> c" if a: "a \<in> set acc" for a
    proof -
      have ne: "acc \<noteq> []" using a by auto
      note L = rising_last [OF IH(1) ne]
      have "last acc \<in> set acc" using ne by simp
      then have "fst (last acc) < f i" using fle False ne by (meson le_neq_trans)
      moreover have "snd (last acc) \<le> c" using top IH(2) ne by (simp add: top_def split: if_splits)
      ultimately show ?thesis using L a by (meson le_less_trans order_trans)
    qed
    then have "rising (acc @ [(f i, c)])" using IH(1) by (auto simp: rising_snoc)
    moreover have "fst ` set (acc @ [(f i, c)]) \<subseteq> f ` fst ` set (cs @ [x])" using IH(4) by (auto simp: x)
    ultimately show ?thesis unfolding new using sums IH(2) by (simp add: top_def x count_at_snoc)
  qed
qed

text \<open>A configuration no finer than another, and reaching as far.\<close>

definition coarser :: "hist_config \<Rightarrow> hist_config \<Rightarrow> bool" where
  "coarser to from \<longleftrightarrow> grouping_power to \<le> grouping_power from \<and> max_value_power from \<le> max_value_power to"

text \<open>Whether bucket \<open>i\<close> of one configuration lies inside bucket \<open>j\<close> of another.\<close>

definition bucket_within :: "hist_config \<Rightarrow> u32 \<Rightarrow> hist_config \<Rightarrow> u32 \<Rightarrow> bool" where
  "bucket_within from i to j \<longleftrightarrow> lo (grouping_power to) (unat j) \<le> lo (grouping_power from) (unat i) \<and>
     lo (grouping_power from) (Suc (unat i)) \<le> lo (grouping_power to) (Suc (unat j))"

lemma rebucketed_index:
  assumes "config_ok hc from" "config_ok hc to" "coarser to from" "unat i < hc_total_buckets hc from"
  shows "unat (bucket_of hc to (lower_bound from i)) = bucket (grouping_power to) (lo (grouping_power from) (unat i))"
    "bucket_of hc to (lower_bound from i) = j \<longleftrightarrow> bucket_within from i to j"
proof -
  have v: "unat (lower_bound from i) = lo (grouping_power from) (unat i)" by (rule unat_lower_bound [OF assms(1,4)])
  have "lo (grouping_power from) (unat i) < 2 ^ max_value_power from" by (rule lower_fits(1) [OF assms(1,4)])
  also have "\<dots> \<le> 2 ^ max_value_power to" using assms(3) by (intro power_increasing) (auto simp: coarser_def)
  finally have b: "unat (bucket_of hc to (lower_bound from i)) = bucket (grouping_power to) (lo (grouping_power from) (unat i))"
    using unat_bucket_of [OF assms(2)] v by simp
  show "unat (bucket_of hc to (lower_bound from i)) = bucket (grouping_power to) (lo (grouping_power from) (unat i))" by (rule b)
  have le: "grouping_power to \<le> grouping_power from" using assms(3) by (simp add: coarser_def)
  show "bucket_of hc to (lower_bound from i) = j \<longleftrightarrow> bucket_within from i to j"
  proof
    assume "bucket_of hc to (lower_bound from i) = j"
    then have "unat j = bucket (grouping_power to) (lo (grouping_power from) (unat i))" using b by simp
    then show "bucket_within from i to j" using coarse_contains [OF le] by (simp add: bucket_within_def)
  next
    assume "bucket_within from i to j"
    then have "lo (grouping_power to) (unat j) \<le> lo (grouping_power from) (unat i)"
      "lo (grouping_power from) (unat i) < lo (grouping_power to) (Suc (unat j))"
      using lo_less_Suc [of "grouping_power from" "unat i"] unfolding bucket_within_def by (auto intro: less_le_trans simp del: lo_less_iff lo_le_iff)
    then have "unat j = unat (bucket_of hc to (lower_bound from i))" unfolding b using bucket_iff by metis
    then show "bucket_of hc to (lower_bound from i) = j" by (simp add: word_unat_eq_iff)
  qed
qed

lemma common_config_fold:
  "fold (\<lambda>c. \<lambda>(g, m). (Some (case g of None \<Rightarrow> grouping_power c | Some g \<Rightarrow> min g (grouping_power c)),
       Some (case m of None \<Rightarrow> max_value_power c | Some m \<Rightarrow> max m (max_value_power c)))) configs (Some a, Some b) =
     (Some (Min (insert a (grouping_power ` set configs))), Some (Max (insert b (max_value_power ` set configs))))"
proof (induction configs arbitrary: a b)
  case (Cons c configs)
  have "Min (insert (min a (grouping_power c)) (grouping_power ` set configs)) = Min (insert a (insert (grouping_power c) (grouping_power ` set configs)))"
    "Max (insert (max b (max_value_power c)) (max_value_power ` set configs)) = Max (insert b (insert (max_value_power c) (max_value_power ` set configs)))"
    by (cases "configs = []"; simp add: min.assoc max.assoc)+
  then show ?case using Cons by simp
qed simp

lemma common_config_coarser:
  assumes "layout_ok hc" "common_config hc configs = Some to" "from \<in> set configs"
  shows "config_ok hc to" "coarser to from"
proof -
  obtain c cs where cs: "configs = c # cs" using assms(3) by (cases configs) auto
  have "hc_config hc (Min (grouping_power ` set configs)) (Max (max_value_power ` set configs)) = Some to"
    using assms(2) unfolding common_config_def cs by (simp add: common_config_fold)
  then have "grouping_power to = Min (grouping_power ` set configs)" "max_value_power to = Max (max_value_power ` set configs)" "config_ok hc to"
    using assms(1) by (auto simp: layout_ok_def)
  then show "config_ok hc to" "coarser to from" using assms(3) by (auto simp: coarser_def)
qed

definition held_in :: "hist_snapshot \<Rightarrow> u32 \<Rightarrow> nat" where
  "held_in s j = count_at j (cells_of s)"

lemma rebucket_ok:
  assumes "config_ok hc from" "config_ok hc to" "coarser to from" "snapshot_ok s"
    "\<forall>i \<in> set (hs_index s). unat i < hc_total_buckets hc from"
  shows "snapshot_ok (rebucket hc s from to) \<and>
    (\<forall>j. held_in (rebucket hc s from to) j =
       sum_list (map (\<lambda>(i, n). if bucket_within from i to j then unat n else 0) (singles 0 (cells_of s))))"
proof -
  let ?f = "\<lambda>i. bucket_of hc to (lower_bound from i)"
  let ?empty = "\<lparr>hs_index = [], hs_count = []\<rparr>"
  have rising: "rising (cells_of s)" using assms(4) by (simp add: cells_ok)
  have fst_cells: "fst ` set (cells_of s) \<subseteq> set (hs_index s)" by (auto simp: cells_of_def dest: set_zip_leftD)
  have mono: "?f a \<le> ?f b" if "a \<in> fst ` set (cells_of s)" "b \<in> fst ` set (cells_of s)" "a < b" for a b
  proof -
    have ab: "unat a < hc_total_buckets hc from" "unat b < hc_total_buckets hc from" using that fst_cells assms(5) by auto
    have "unat (?f a) \<le> unat (?f b)"
      unfolding rebucketed_index(1) [OF assms(1-3) ab(1)] rebucketed_index(1) [OF assms(1-3) ab(2)]
      using that(3) by (intro bucket_mono) (simp add: word_less_nat_alt)
    then show ?thesis by (simp add: word_le_nat_alt)
  qed
  have out: "length (hs_index (rebucket hc s from to)) = length (hs_count (rebucket hc s from to))"
    "cells_of (rebucket hc s from to) = fold (\<lambda>(i, c). cell_push (?f i, c)) (cells_of s) []"
    unfolding rebucket_def using cells_rebucket_fold [of ?empty ?f "cells_of s"] by (simp_all add: cells_of_def)
  note P = pushed_cells [of "cells_of s" ?f, OF rising mono, folded out(2)]
  have "(i, n) \<in> set (singles b cs) \<Longrightarrow> i \<in> fst ` set cs" for i n b cs by (induction b cs rule: singles.induct) auto
  then have same: "map (\<lambda>(i, n). if ?f i = j then unat n else 0) (singles 0 (cells_of s)) =
      map (\<lambda>(i, n). if bucket_within from i to j then unat n else 0) (singles 0 (cells_of s))" for j
    using fst_cells assms(5) by (intro map_cong) (auto simp: rebucketed_index(2) [OF assms(1-3)] subset_iff)
  show ?thesis using P out(1) by (simp add: cells_ok held_in_def same)
qed

section \<open>Properties\<close>

text \<open>C30. Bringing a snapshot to a coarser configuration keeps it well-formed, and each bucket then holds the observations
  of exactly the buckets whose values lie within it.\<close>

theorem rebucketed_counts_stay_in_their_buckets:
  assumes "config_ok hc from" "config_ok hc to" "coarser to from" "snapshot_ok s"
    "\<forall>i \<in> set (hs_index s). unat i < hc_total_buckets hc from"
  shows "snapshot_ok (rebucket hc s from to) \<and>
    (\<forall>j. held_in (rebucket hc s from to) j =
       sum_list (map (\<lambda>(i, n). if bucket_within from i to j then unat n else 0) (singles 0 (cells_of s))))"
  by (rule rebucket_ok [OF assms])

text \<open>C14. The merge of two or more streams has one series per label set and, in order of time, every row of every stream
  with its labels: at its own time, or, on a clock, at the time \<open>restamp\<close> gives it from the clock's times, left out where
  that gives none.\<close>

theorem merged_streams_keep_their_rows:
  assumes "merge_streams hc tie streams clock = Some m" "2 \<le> length streams" "\<forall>s \<in> set streams. stream_ok s"
    "\<forall>c. clock = Some c \<longrightarrow> c < length streams"
  shows "stream_ok m \<and> distinct (st_series m) \<and>
    image_mset (\<lambda>r. row_says hc (st_config m) m r (hr_t r)) (mset (st_rows m)) =
      (\<Sum>i < length streams. mset (List.map_filter
         (\<lambda>r. map_option (row_says hc (st_config m) (streams ! i) r)
            (stamp clock (case clock of None \<Rightarrow> [] | Some c \<Rightarrow> map hr_t (st_rows (streams ! c))) i (hr_t r)))
         (st_rows (streams ! i))))"
  using merged_rows [OF assms] by blast

end
