(* ===== verification/HistAccum.thy ===== *)
theory HistAccum
  imports HistMerge
begin

text \<open>
  Counts per bucket gathered from the changes between rows (\<open>metriken-query/src/promql/streaming/histogram.rs\<close>):
  the accumulator, the walk over two snapshots, and the flush of an accumulator as running counts.
\<close>

section \<open>The accumulator\<close>

record accum =
  ac_counts :: "u64 list"
  ac_touched :: "u32 list"
  ac_buckets :: nat

definition accum_new :: "'h hist_crate \<Rightarrow> hist_config \<Rightarrow> accum" where
  "accum_new hc config = \<lparr>ac_counts = [], ac_touched = [], ac_buckets = hc_total_buckets hc config\<rparr>"

definition accum_add :: "u32 \<Rightarrow> u64 \<Rightarrow> accum \<Rightarrow> accum" where
  "accum_add idx c a =
     (let i = unat idx in
      if ac_buckets a \<le> i then a
      else let counts = (if length (ac_counts a) \<le> i then ac_counts a @ replicate (i + 1 - length (ac_counts a)) 0 else ac_counts a)
           in a\<lparr>ac_touched := (if counts ! i = 0 then ac_touched a @ [idx] else ac_touched a),
                ac_counts := counts[i := saturating_add (counts ! i) c]\<rparr>)"

section \<open>The walk over two snapshots\<close>

fun skip_prev :: "u32 \<Rightarrow> (u32 \<times> u64) list \<Rightarrow> u64 \<Rightarrow> (u32 \<times> u64) list \<times> u64" where
  "skip_prev idx [] running = ([], running)"
| "skip_prev idx ((i, n) # prev) running = (if i < idx then skip_prev idx prev n else ((i, n) # prev, running))"

fun delta_cells :: "(u32 \<times> u64) list \<Rightarrow> u64 \<Rightarrow> (u32 \<times> u64) list \<Rightarrow> u64 \<Rightarrow> (u32 \<times> u64) list" where
  "delta_cells prev prev_running [] curr_running = []"
| "delta_cells prev prev_running ((idx, c) # later) curr_running =
     (let individual = saturating_sub c curr_running;
          (prev, prev_running) = skip_prev idx prev prev_running;
          (before, prev, prev_running) =
            (case prev of [] \<Rightarrow> (0, prev, prev_running)
             | (i, n) # rest \<Rightarrow> if i = idx then (saturating_sub n prev_running, rest, n) else (0, prev, prev_running));
          delta = saturating_sub individual before
      in (if 0 < delta then [(idx, delta)] else []) @ delta_cells prev prev_running later c)"

definition delta_walk :: "hist_snapshot \<Rightarrow> hist_snapshot \<Rightarrow> (u32 \<times> u64) list" where
  "delta_walk prev later = delta_cells (cells_of prev) 0 (cells_of later) 0"

definition accumulate_delta_into :: "hist_snapshot \<Rightarrow> hist_snapshot \<Rightarrow> accum \<Rightarrow> accum" where
  "accumulate_delta_into prev later = fold (\<lambda>(idx, d). accum_add idx d) (delta_walk prev later)"

definition total_count :: "hist_snapshot \<Rightarrow> u64" where
  "total_count s = (if hs_count s = [] then 0 else last (hs_count s))"

section \<open>The flush\<close>

fun flush_touched :: "u32 list \<Rightarrow> u64 list \<Rightarrow> u64 \<Rightarrow> (u32 \<times> u64) list \<times> u64 list" where
  "flush_touched [] counts running = ([], counts)"
| "flush_touched (idx # touched) counts running =
     (let c = counts ! unat idx; counts = counts[unat idx := 0]
      in if c = 0 then flush_touched touched counts running
         else let running = saturating_add running c; (out, counts) = flush_touched touched counts running
              in ((idx, running) # out, counts))"

text \<open>The running counts, none when the accumulator held none, and the accumulator cleared.\<close>

definition flush_accum :: "accum \<Rightarrow> (u32 \<times> u64) list \<times> accum" where
  "flush_accum a = (let (out, counts) = flush_touched (sort (ac_touched a)) (ac_counts a) 0
     in (out, a\<lparr>ac_counts := counts, ac_touched := []\<rparr>))"

section \<open>What an accumulator holds\<close>

definition held_at_idx :: "accum \<Rightarrow> u32 \<Rightarrow> nat" where
  "held_at_idx a j = (if unat j < length (ac_counts a) then unat (ac_counts a ! unat j) else 0)"

definition accum_total :: "accum \<Rightarrow> nat" where
  "accum_total a = sum_list (map unat (ac_counts a))"

definition accum_ok :: "accum \<Rightarrow> bool" where
  "accum_ok a \<longleftrightarrow> length (ac_counts a) \<le> ac_buckets a \<and> (\<forall>i \<in> set (ac_touched a). unat i < length (ac_counts a)) \<and>
     (\<forall>i. held_at_idx a i \<noteq> 0 \<longrightarrow> i \<in> set (ac_touched a)) \<and> length (ac_counts a) \<le> 2 ^ 32"

lemma accum_ok_touched: "accum_ok a \<Longrightarrow> held_at_idx a i \<noteq> 0 \<Longrightarrow> i \<in> set (ac_touched a)"
  by (simp add: accum_ok_def)

lemma accum_new_ok [simp]: "accum_ok (accum_new hc c)" "held_at_idx (accum_new hc c) j = 0" "accum_total (accum_new hc c) = 0"
  by (simp_all add: accum_ok_def accum_new_def held_at_idx_def accum_total_def)

lemma sum_list_update_nat: "i < length xs \<Longrightarrow> sum_list (map unat (xs[i := v])) + unat (xs ! i) = sum_list (map unat xs) + unat (v :: u64)"
proof (induction xs arbitrary: i)
  case (Cons x xs)
  then show ?case by (cases i) auto
qed simp

lemma accum_add_ok:
  assumes "accum_ok a" "accum_total a + unat c < 2 ^ 64"
  shows "accum_ok (accum_add idx c a)" "accum_total (accum_add idx c a) \<le> accum_total a + unat c"
    "held_at_idx (accum_add idx c a) j = held_at_idx a j + (if idx = j \<and> unat idx < ac_buckets a then unat c else 0)"
    "ac_buckets (accum_add idx c a) = ac_buckets a"
proof -
  let ?i = "unat idx"
  define counts where "counts = (if length (ac_counts a) \<le> ?i then ac_counts a @ replicate (?i + 1 - length (ac_counts a)) 0 else ac_counts a)"
  have i: "?i < length counts" by (auto simp: counts_def)
  have old: "(if unat j < length counts then unat (counts ! unat j) else 0) = held_at_idx a j" for j
    by (auto simp: counts_def held_at_idx_def nth_append)
  have tot: "sum_list (map unat counts) = accum_total a" by (auto simp: counts_def accum_total_def sum_list_replicate)
  have "unat (counts ! ?i) \<in> set (map unat counts)" using i by simp
  from member_le_sum_list [OF this] have "unat (counts ! ?i) \<le> accum_total a" using tot by simp
  then have small: "unat (counts ! ?i) + unat c < 2 ^ 64" using assms(2) by simp
  note plus = unat_saturating_add [OF small]
  have new: "accum_add idx c a = a\<lparr>ac_touched := (if counts ! ?i = 0 then ac_touched a @ [idx] else ac_touched a),
      ac_counts := counts[?i := saturating_add (counts ! ?i) c]\<rparr>" if "\<not> ac_buckets a \<le> ?i"
    using that by (simp add: accum_add_def Let_def flip: counts_def)
  show "ac_buckets (accum_add idx c a) = ac_buckets a" by (simp add: accum_add_def Let_def)
  show j: "held_at_idx (accum_add idx c a) j = held_at_idx a j + (if idx = j \<and> unat idx < ac_buckets a then unat c else 0)" for j
  proof (cases "ac_buckets a \<le> ?i")
    case False
    have "idx = j \<longleftrightarrow> ?i = unat j" by (simp add: word_unat_eq_iff)
    then show ?thesis using False i plus old [of j] unfolding new [OF False] held_at_idx_def by (cases "?i = unat j") (simp_all split: if_splits)
  qed (simp add: accum_add_def)
  show "accum_total (accum_add idx c a) \<le> accum_total a + unat c"
    using sum_list_update_nat [OF i, of "saturating_add (counts ! ?i) c"] plus tot
    by (auto simp: accum_add_def accum_total_def Let_def simp flip: counts_def)
  show "accum_ok (accum_add idx c a)"
  proof (cases "ac_buckets a \<le> ?i")
    case True
    then show ?thesis using assms by (simp add: accum_add_def)
  next
    case False
    have len: "length (ac_counts (accum_add idx c a)) = length counts" using False by (simp add: accum_add_def Let_def flip: counts_def)
    have "length counts \<le> ac_buckets a" "length counts \<le> 2 ^ 32"
      using False assms(1) unsigned_less [where 'a = nat, of idx] by (auto simp: counts_def accum_ok_def)
    moreover have touched: "ac_touched (accum_add idx c a) = (if counts ! ?i = 0 then ac_touched a @ [idx] else ac_touched a)"
      using False by (simp add: accum_add_def Let_def flip: counts_def)
    moreover have "\<forall>k \<in> set (ac_touched a). unat k < length counts" using assms(1) by (auto simp: accum_ok_def counts_def)
    moreover have "k \<in> set (ac_touched (accum_add idx c a))" if "held_at_idx (accum_add idx c a) k \<noteq> 0" for k
    proof (cases "k = idx")
      case True
      have "idx \<in> set (ac_touched a)" if "counts ! ?i \<noteq> 0"
      proof -
        have "unat (counts ! ?i) \<noteq> 0" using that by (simp add: unsigned_eq_0_iff)
        then have "held_at_idx a idx \<noteq> 0" using old [of idx] i by simp
        then show ?thesis using assms(1) by (simp add: accum_ok_def)
      qed
      then show ?thesis using True touched by auto
    next
      case other: False
      then have "held_at_idx a k \<noteq> 0" using that j [of k] by simp
      then show ?thesis using assms(1) touched by (auto simp: accum_ok_def)
    qed
    ultimately show ?thesis using i len \<open>ac_buckets (accum_add idx c a) = ac_buckets a\<close> by (auto simp: accum_ok_def)
  qed
qed

lemma accum_fold_ok:
  assumes "accum_ok a" "accum_total a + sum_list (map (unat \<circ> snd) ds) < 2 ^ 64"
  defines "a' \<equiv> fold (\<lambda>(idx, d). accum_add idx d) ds a"
  shows "accum_ok a' \<and> accum_total a' \<le> accum_total a + sum_list (map (unat \<circ> snd) ds) \<and> ac_buckets a' = ac_buckets a \<and>
    (\<forall>j. held_at_idx a' j = held_at_idx a j + sum_list (map (\<lambda>(i, d). if i = j \<and> unat i < ac_buckets a then unat d else 0) ds))"
  using assms(1,2) unfolding a'_def
proof (induction ds arbitrary: a)
  case (Cons x ds)
  obtain i d where x: "x = (i, d)" by fastforce
  have small: "accum_total a + unat d < 2 ^ 64" using Cons.prems by (simp add: x)
  note A = accum_add_ok [OF Cons.prems(1) small]
  have "accum_total (accum_add i d a) + sum_list (map (unat \<circ> snd) ds) < 2 ^ 64" using A(2) [of i] Cons.prems(2) by (simp add: x comp_def)
  from Cons.IH [OF A(1) this] A(2) [of i] show ?case by (simp add: x A(3,4) comp_def)
qed simp

section \<open>The walk computes the changes\<close>

definition count_from :: "u64 \<Rightarrow> u32 \<Rightarrow> (u32 \<times> u64) list \<Rightarrow> nat" where
  "count_from below j cs = sum_list (map (\<lambda>(i, n). if i = j then unat n else 0) (singles below cs))"

lemma count_from_simps [simp]:
  "count_from below j [] = 0"
  "count_from below j ((i, c) # cs) = (if i = j then unat (saturating_sub c below) else 0) + count_from c j cs"
  by (simp_all add: count_from_def)

lemma count_at_from: "count_at j cs = count_from 0 j cs"
  by (simp add: count_at_def count_from_def)

lemma count_from_absent: "\<forall>(i, c) \<in> set cs. i \<noteq> j \<Longrightarrow> count_from below j cs = 0"
  by (induction below cs rule: singles.induct) auto

lemma rising_Cons: "rising ((i, c) # cs) \<longleftrightarrow> rising cs \<and> (\<forall>(k, n) \<in> set cs. i < k \<and> c \<le> n)"
  by (auto simp: rising_def)

lemma skip_prev_ok:
  "skip_prev idx prev running = (prev', running') \<Longrightarrow> rising prev \<Longrightarrow>
     rising prev' \<and> (\<forall>(i, n) \<in> set prev'. idx \<le> i) \<and> (\<forall>j \<ge> idx. count_from running' j prev' = count_from running j prev)"
proof (induction idx prev running rule: skip_prev.induct)
  case (2 idx i n prev running)
  show ?case
  proof (cases "i < idx")
    case True
    then show ?thesis using 2 by (auto simp: rising_Cons)
  next
    case False
    then have "prev' = (i, n) # prev" "running' = running" using "2.prems"(1) by auto
    then show ?thesis using "2.prems"(2) False by (auto simp: rising_Cons not_less intro: less_imp_le order_trans)
  qed
qed (simp add: rising_def)

lemma delta_cells_ok:
  assumes "rising prev" "rising later"
  shows "sum_list (map (\<lambda>(i, d). if i = j then unat d else 0) (delta_cells prev pr later lr)) =
      count_from lr j later - count_from pr j prev \<and>
    (\<forall>(i, d) \<in> set (delta_cells prev pr later lr). 0 < d \<and> i \<in> fst ` set later)"
  using assms
proof (induction later arbitrary: prev pr lr)
  case Nil
  then show ?case by simp
next
  case (Cons x later)
  obtain idx c where x: "x = (idx, c)" by fastforce
  obtain prev1 pr1 where skip: "skip_prev idx prev pr = (prev1, pr1)" by fastforce
  note S = skip_prev_ok [OF skip Cons.prems(1)]
  obtain before prev2 pr2 where next': "(case prev1 of [] \<Rightarrow> (0, prev1, pr1)
      | (i, n) # rest \<Rightarrow> if i = idx then (saturating_sub n pr1, rest, n) else (0, prev1, pr1)) = (before, prev2, pr2)"
    by (rule prod_cases3)
  have S1: "rising prev1" "\<forall>(i, n) \<in> set prev1. idx \<le> i" using S by auto
  have B: "rising prev2 \<and> unat before = count_from pr1 idx prev1 \<and> (\<forall>j > idx. count_from pr2 j prev2 = count_from pr1 j prev1)"
  proof (cases prev1)
    case Nil
    then show ?thesis using next' by (auto simp: rising_def)
  next
    case (Cons y rest)
    obtain i n where y: "y = (i, n)" by fastforce
    show ?thesis
    proof (cases "i = idx")
      case True
      have "count_from n idx rest = 0" using S1 Cons y True by (intro count_from_absent) (auto simp: rising_Cons)
      then show ?thesis using next' S1 Cons y True by (auto simp: rising_Cons)
    next
      case False
      have "count_from pr1 idx prev1 = 0" using S1 Cons y False by (intro count_from_absent) (auto simp: rising_Cons)
      then show ?thesis using next' S1 Cons y False by auto
    qed
  qed
  have later: "rising later" "\<forall>(k, n) \<in> set later. idx < k" using Cons.prems(2) by (auto simp: x rising_Cons)
  let ?delta = "saturating_sub (saturating_sub c lr) before"
  have code: "delta_cells prev pr (x # later) lr = (if 0 < ?delta then [(idx, ?delta)] else []) @ delta_cells prev2 pr2 later c"
    by (simp add: x skip next')
  have zero: "sum_list (map (\<lambda>(i, d). if i = j then unat d else 0) (if 0 < ?delta then [(idx, ?delta)] else [])) =
      (if idx = j then unat ?delta else 0)" by (auto simp: word_neq_0_conv [symmetric] simp del: word_neq_0_conv)
  have d: "unat ?delta = unat (saturating_sub c lr) - count_from pr idx prev"
    using B S by (simp add: unat_saturating_sub)
  note IH = Cons.IH [of prev2 pr2 c] 
  have IH1: "sum_list (map (\<lambda>(i, d). if i = j then unat d else 0) (delta_cells prev2 pr2 later c)) = count_from c j later - count_from pr2 j prev2"
    "\<forall>(i, d) \<in> set (delta_cells prev2 pr2 later c). 0 < d \<and> i \<in> fst ` set later"
    using IH B later by auto
  have sum: "sum_list (map (\<lambda>(i, d). if i = j then unat d else 0) (delta_cells prev pr (x # later) lr)) =
      (if idx = j then unat ?delta else 0) + (count_from c j later - count_from pr2 j prev2)"
    unfolding code map_append sum_list_append zero IH1(1) by (rule refl)
  have "sum_list (map (\<lambda>(i, d). if i = j then unat d else 0) (delta_cells prev pr (x # later) lr)) =
      count_from lr j (x # later) - count_from pr j prev"
  proof (cases "idx < j")
    case True
    have "count_from pr2 j prev2 = count_from pr j prev" using B S True by (simp add: less_imp_le)
    then show ?thesis using True unfolding sum by (auto simp: x)
  next
    case False
    then have "count_from c j later = 0" using later(2) by (intro count_from_absent) auto
    then show ?thesis using False unfolding sum by (cases "idx = j") (simp_all add: x d)
  qed
  moreover have "\<forall>(i, d) \<in> set (delta_cells prev pr (x # later) lr). 0 < d \<and> i \<in> fst ` set (x # later)"
    using IH1(2) unfolding code by (auto simp: x split: if_splits)
  ultimately show ?case by blast
qed

theorem delta_walk_counts:
  assumes "snapshot_ok prev" "snapshot_ok later"
  shows "sum_list (map (\<lambda>(i, d). if i = j then unat d else 0) (delta_walk prev later)) = held_in later j - held_in prev j"
  using delta_cells_ok [of "cells_of prev" "cells_of later" j 0 0] assms
  by (simp add: delta_walk_def cells_ok held_in_def count_at_from)

section \<open>The flush gives what was held, and clears it\<close>

lemma singles_sum: "rising cs \<Longrightarrow> \<forall>(i, c) \<in> set cs. below \<le> c \<Longrightarrow>
    sum_list (map (unat \<circ> snd) (singles below cs)) = (if cs = [] then 0 else unat (top cs) - unat below)"
proof (induction below cs rule: singles.induct)
  case (2 below i c cs)
  have "below \<le> c" "\<forall>(k, n) \<in> set cs. c \<le> n" "rising cs" using "2.prems" by (auto simp: rising_Cons)
  moreover have "c \<le> top cs" if "cs \<noteq> []" using that \<open>\<forall>(k, n) \<in> set cs. c \<le> n\<close> last_in_set [OF that] by (auto simp: top_def split_beta)
  ultimately show ?case using "2.IH" by (auto simp: top_def unat_saturating_sub word_le_nat_alt comp_def)
qed simp

lemma flush_touched_zero: "counts ! unat i = 0 \<Longrightarrow> unat i < length counts \<Longrightarrow>
    flush_touched (i # ts) counts running = flush_touched ts counts running"
  by (simp add: Let_def) (metis list_update_id)

lemma flush_touched_ok:
  assumes "sorted ts" "\<forall>i \<in> set ts. unat i < length counts" "unat running + sum_list (map unat counts) < 2 ^ 64"
    "flush_touched ts counts running = (out, counts')"
  shows "rising out \<and> (\<forall>(i, c) \<in> set out. running \<le> c \<and> i \<in> set ts \<and> counts ! unat i \<noteq> 0) \<and>
    (\<forall>j. count_from running j out = (if j \<in> set ts then unat (counts ! unat j) else 0)) \<and>
    length counts' = length counts \<and> (\<forall>k < length counts. counts' ! k = (if k \<in> unat ` set ts then 0 else counts ! k))"
  using assms
proof (induction ts counts running arbitrary: out counts' rule: flush_touched.induct)
  case (1 counts running)
  then show ?case by (simp add: rising_def)
next
  case (2 idx ts counts running)
  let ?c = "counts ! unat idx" and ?counts = "counts[unat idx := 0]"
  have len: "unat idx < length counts" "\<forall>i \<in> set ts. unat i < length ?counts" using 2(4) by auto
  have sum: "sum_list (map unat ?counts) + unat ?c = sum_list (map unat counts)"
    using sum_list_update_nat [OF len(1), of 0] by simp
  show ?case
  proof (cases "?c = 0")
    case True
    then have "flush_touched ts ?counts running = (out, counts')" using 2(6) by simp
    from 2(1) [OF refl refl True _ len(2) _ this] 2(3,5) sum True
    have IH: "rising out" "\<forall>(i, c) \<in> set out. running \<le> c \<and> i \<in> set ts \<and> ?counts ! unat i \<noteq> 0"
      "\<And>j. count_from running j out = (if j \<in> set ts then unat (?counts ! unat j) else 0)"
      "length counts' = length counts" "\<forall>k < length counts. counts' ! k = (if k \<in> unat ` set ts then 0 else ?counts ! k)"
      by auto
    have same: "?counts = counts" using True by (metis list_update_id)
    show ?thesis using IH True len unfolding same by auto
  next
    case False
    let ?r = "saturating_add running ?c"
    obtain out1 where rest: "flush_touched ts ?counts ?r = (out1, counts')" and out: "out = (idx, ?r) # out1"
      using 2(6) False by (auto simp: Let_def split: prod.splits)
    have r: "unat ?r = unat running + unat ?c" using 2(5) sum by (intro unat_saturating_add) linarith
    then have bound: "unat ?r + sum_list (map unat ?counts) < 2 ^ 64" using 2(5) sum by linarith
    have "sorted ts" using 2(3) by simp
    note IH = 2(2) [OF refl refl False refl this len(2) bound rest]
    have le: "running \<le> ?r" "saturating_sub ?r running = ?c" using r
      by (auto simp: word_le_nat_alt saturating_sub_def word_less_nat_alt word_unat_eq_iff unat_sub)
    have other: "?counts ! unat i = (if i = idx then 0 else counts ! unat i)" for i
      using len(1) by (simp add: nth_list_update word_unat_eq_iff)
    have after: "idx < i \<and> ?r \<le> c \<and> i \<in> set ts \<and> counts ! unat i \<noteq> 0" if "(i, c) \<in> set out1" for i c
    proof -
      have "?r \<le> c" "i \<in> set ts" "?counts ! unat i \<noteq> 0" using IH that by auto
      moreover from this have "i \<noteq> idx" "idx \<le> i" using other 2(3) by auto
      ultimately show ?thesis using other [of i] by (simp add: le_neq_trans)
    qed
    have "rising out" using IH after by (auto simp: out rising_Cons)
    moreover have "\<forall>(i, c) \<in> set out. running \<le> c \<and> i \<in> set (idx # ts) \<and> counts ! unat i \<noteq> 0"
      using after le(1) False by (auto simp: out intro: order_trans)
    moreover have "count_from running j out = (if j \<in> set (idx # ts) then unat (counts ! unat j) else 0)" for j
    proof -
      have "count_from ?r j out1 = (if j \<in> set ts then unat (?counts ! unat j) else 0)" using IH by blast
      then show ?thesis using le(2) by (auto simp: out other)
    qed
    moreover have "\<forall>k < length counts. counts' ! k = (if k \<in> unat ` set (idx # ts) then 0 else counts ! k)"
      using IH by (auto simp: nth_list_update)
    ultimately show ?thesis using IH by simp
  qed
qed

text \<open>What the flush gives holds the accumulator's counts, under rising indices, and leaves it empty.\<close>

theorem flush_accum_ok:
  assumes "accum_ok a" "accum_total a < 2 ^ 64" "flush_accum a = (out, a')"
  shows "rising out" "count_at j out = held_at_idx a j" "accum_ok a'" "accum_total a' = 0" "held_at_idx a' j = 0"
    "ac_buckets a' = ac_buckets a" "\<forall>(i, c) \<in> set out. unat i < ac_buckets a" "out = [] \<longleftrightarrow> (\<forall>i. held_at_idx a i = 0)"
proof -
  let ?ts = "sort (ac_touched a)"
  obtain counts where f: "flush_touched ?ts (ac_counts a) 0 = (out, counts)" and a': "a' = a\<lparr>ac_counts := counts, ac_touched := []\<rparr>"
    using assms(3) by (auto simp: flush_accum_def split: prod.splits)
  have touched: "\<forall>i \<in> set ?ts. unat i < length (ac_counts a)" using assms(1) by (simp add: accum_ok_def)
  have bound: "unat (0 :: u64) + sum_list (map unat (ac_counts a)) < 2 ^ 64" using assms(2) by (simp add: accum_total_def)
  note F = flush_touched_ok [OF sorted_sort touched bound f]
  show rising: "rising out" using F by blast
  have held: "held_at_idx a j = (if j \<in> set ?ts then unat (ac_counts a ! unat j) else 0)" for j
  proof (cases "j \<in> set ?ts")
    case True
    then have "unat j < length (ac_counts a)" using touched by blast
    then show ?thesis using True by (simp add: held_at_idx_def)
  next
    case False
    then have "held_at_idx a j = 0" using accum_ok_touched [OF assms(1), of j] by auto
    then show ?thesis using False by simp
  qed
  show count: "count_at j out = held_at_idx a j" for j using F held by (simp add: count_at_from)
  have len: "length counts = length (ac_counts a)" using F by simp
  have zero: "counts ! k = 0" if k: "k < length counts" for k
  proof (cases "k \<in> unat ` set ?ts")
    case True
    then show ?thesis using F k len by auto
  next
    case False
    have "k < 2 ^ 32" using k len assms(1) by (simp add: accum_ok_def)
    then have uk: "unat (of_nat k :: u32) = k" by (simp add: unat_of_nat_eq)
    then have "(of_nat k :: u32) \<notin> set (ac_touched a)" using False by (metis image_eqI set_sort)
    then have "held_at_idx a (of_nat k) = 0" using accum_ok_touched [OF assms(1)] by blast
    then have "ac_counts a ! k = 0" using uk k len by (simp add: held_at_idx_def unsigned_eq_0_iff)
    then show ?thesis using F False k len by simp
  qed
  show held': "held_at_idx a' j = 0" for j using zero by (simp add: held_at_idx_def a')
  have "map unat counts = replicate (length counts) 0" using zero by (auto intro: nth_equalityI)
  then show "accum_total a' = 0" by (simp add: accum_total_def a' sum_list_replicate)
  show "accum_ok a'" using assms(1) len held' by (simp add: accum_ok_def a')
  show "ac_buckets a' = ac_buckets a" by (simp add: a')
  have len_b: "length (ac_counts a) \<le> ac_buckets a" using assms(1) by (simp add: accum_ok_def)
  have entry: "i \<in> set (ac_touched a) \<and> ac_counts a ! unat i \<noteq> 0" if "(i, c) \<in> set out" for i c using F that by auto
  show "\<forall>(i, c) \<in> set out. unat i < ac_buckets a" using entry touched len_b by fastforce
  show "out = [] \<longleftrightarrow> (\<forall>i. held_at_idx a i = 0)"
  proof
    assume "out = []"
    then show "\<forall>i. held_at_idx a i = 0" using count by (simp add: count_at_def)
  next
    assume none: "\<forall>i. held_at_idx a i = 0"
    show "out = []"
    proof (rule ccontr)
      assume "out \<noteq> []"
      then obtain i c where ic: "(i, c) \<in> set out" by (cases out) auto
      then have "held_at_idx a i \<noteq> 0" using entry [OF ic] touched by (simp add: held_at_idx_def unsigned_eq_0_iff)
      then show False using none by simp
    qed
  qed
qed

end
