(* ===== verification/HistWindows.thy ===== *)
theory HistWindows
  imports HistAccum Rates
begin

text \<open>
  A strided histogram call (\<open>Stride\<close> and \<open>Splitter\<close> of \<open>metriken-query/src/promql/streaming/histogram.rs\<close>): each row's
  change is shared among the windows its interval overlaps, and a window is emitted once no series can add to it.

  The code's \<open>i128\<close> holds every value here, so it is \<open>int\<close>; a \<open>u128\<close> is \<open>nat\<close>. A stride of zero, which divides by
  zero, is never built. What \<open>emit\<close> is handed is an event: the stamp, when there is one, and each group's running counts,
  which every caller takes by \<open>flush_accum\<close>. The scratch vector \<open>deltas\<close> is left out.
\<close>

record stride =
  sr_ns :: u64
  sr_anchor :: u64
  sr_emit_from :: u64

definition as_i64 :: "int \<Rightarrow> int" where
  "as_i64 x = signed_take_bit 63 x"

definition stride_window :: "stride \<Rightarrow> u64 \<Rightarrow> int" where
  "stride_window s t =
     (let d = uint t - uint (sr_anchor s); n = uint (sr_ns s) in as_i64 (d div n + (if d mod n \<noteq> 0 then 1 else 0)))"

definition opens_ns :: "stride \<Rightarrow> int \<Rightarrow> u64" where
  "opens_ns s k = word_of_int (min (max (uint (sr_anchor s) + (k - 1) * uint (sr_ns s)) 0) (uint u64_max))"

definition closes_ns :: "stride \<Rightarrow> int \<Rightarrow> u64" where
  "closes_ns s k = opens_ns s (min (k + 1) (2 ^ 63 - 1))"

definition SHARE_SCALE :: u64 where "SHARE_SCALE = 2 ^ 16"

definition MAX_OPEN_WINDOWS :: nat where "MAX_OPEN_WINDOWS = 256"

definition mul_div_floor :: "nat \<Rightarrow> nat \<Rightarrow> nat \<Rightarrow> nat" where
  "mul_div_floor a b c = (a div c) * b + (a mod c) * b div c"

record splitter =
  sw_stride :: stride
  sw_first :: int
  sw_closed_to :: int
  sw_newest :: int
  sw_open :: "(int \<times> accum list) list"
  sw_spare :: "accum list list"
  sw_groups :: nat
  sw_new :: accum            \<comment> \<open>\<open>Accum::new(config)\<close>\<close>
  sw_latest :: "(u64 \<times> u64) option list"
  sw_last_t :: u64
  sw_settled_at :: "(u64 \<times> u64) option"

type_synonym hist_event = "u64 option \<times> (u32 \<times> u64) list list"

definition splitter_new :: "'h hist_crate \<Rightarrow> stride \<Rightarrow> u64 \<Rightarrow> nat \<Rightarrow> nat \<Rightarrow> hist_config \<Rightarrow> splitter" where
  "splitter_new hc s start_ns series groups config =
     (let first = stride_window s start_ns
      in \<lparr>sw_stride = s, sw_first = first, sw_closed_to = first - 1, sw_newest = first - 1, sw_open = [], sw_spare = [],
          sw_groups = groups, sw_new = accum_new hc config, sw_latest = replicate series None, sw_last_t = 0, sw_settled_at = None\<rparr>)"

text \<open>The position of a window's accumulators among the open ones, opened if need be.\<close>

definition window_at :: "int \<Rightarrow> splitter \<Rightarrow> nat \<times> splitter" where
  "window_at k sp =
     (let k = max k (sw_closed_to sp + 1);
          pos = partition_point (\<lambda>(j, _). j < k) (sw_open sp)
      in if pos < length (sw_open sp) \<and> fst (sw_open sp ! pos) = k then (pos, sp)
         else let accums = (if sw_spare sp = [] then replicate (sw_groups sp) (sw_new sp) else last (sw_spare sp))
              in (pos, sp\<lparr>sw_spare := butlast (sw_spare sp),
                    sw_open := take pos (sw_open sp) @ (k, accums) # drop pos (sw_open sp)\<rparr>))"

definition add_shares :: "int \<Rightarrow> nat \<Rightarrow> (u32 \<times> u64) list \<Rightarrow> splitter \<Rightarrow> splitter" where
  "add_shares k g shares sp =
     (let (pos, sp) = window_at k sp; (j, accums) = sw_open sp ! pos
      in sp\<lparr>sw_open := (sw_open sp)[pos := (j, accums[g := fold (\<lambda>(idx, c). accum_add idx c) shares (accums ! g)])]\<rparr>)"

definition settled_time :: "u64 \<Rightarrow> splitter \<Rightarrow> u64 \<times> splitter" where
  "settled_time t sp =
     (let v = fold min (map fst (filter (\<lambda>(row, dt). 0 < dt \<and> saturating_sub t row < saturating_mul dt 2)
          (List.map_filter id (sw_latest sp)))) t
      in case sw_settled_at sp of
           Some (taken, known) \<Rightarrow> if taken = t then (known, sp) else (v, sp\<lparr>sw_settled_at := Some (t, v)\<rparr>)
         | None \<Rightarrow> (v, sp\<lparr>sw_settled_at := Some (t, v)\<rparr>))"

text \<open>One window closed: its event, and its accumulators, drained, put aside.\<close>

definition close_one :: "u64 \<Rightarrow> splitter \<Rightarrow> hist_event \<times> splitter" where
  "close_one cap sp =
     (let (j, accums) = hd (sw_open sp);
          stamp = min (closes_ns (sw_stride sp) j) cap;
          flushed = map flush_accum accums
      in ((if sr_emit_from (sw_stride sp) \<le> stamp then Some stamp else None, map fst flushed),
          sp\<lparr>sw_open := tl (sw_open sp), sw_closed_to := j, sw_spare := sw_spare sp @ [map snd flushed]\<rparr>))"

function close_through :: "u64 \<Rightarrow> u64 \<Rightarrow> splitter \<Rightarrow> hist_event list \<times> splitter" where
  "close_through until cap sp =
     (if sw_open sp \<noteq> [] \<and> closes_ns (sw_stride sp) (fst (hd (sw_open sp))) \<le> until
      then let (e, sp) = close_one cap sp; (es, sp) = close_through until cap sp in (e # es, sp)
      else ([], sp))"
  by pat_completeness auto
termination
  by (relation "measure (\<lambda>(until, cap, sp). length (sw_open sp))") (auto simp: close_one_def Let_def split: prod.splits)

declare close_through.simps [simp del]

lemma close_one_open: "close_one cap sp = (e, sp') \<Longrightarrow> sw_open sp' = tl (sw_open sp) \<and> sw_stride sp' = sw_stride sp"
  by (auto simp: close_one_def Let_def split: prod.splits)

lemma close_through_shrinks: "close_through until cap sp = (es, sp') \<Longrightarrow> length (sw_open sp') \<le> length (sw_open sp)"
proof (induction until cap sp arbitrary: es sp' rule: close_through.induct)
  case (1 until cap sp)
  obtain e sp1 where one: "close_one cap sp = (e, sp1)" by fastforce
  obtain es1 sp2 where rest: "close_through until cap sp1 = (es1, sp2)" by fastforce
  show ?case
  proof (cases "sw_open sp \<noteq> [] \<and> closes_ns (sw_stride sp) (fst (hd (sw_open sp))) \<le> until")
    case True
    then have "sp' = sp2" using 1(2) by (subst (asm) close_through.simps) (simp add: one rest)
    then show ?thesis using 1(1) [OF True one [symmetric] refl rest] close_one_open [OF one] by simp
  next
    case False
    then show ?thesis using 1(2) by (subst (asm) close_through.simps) auto
  qed
qed

lemma close_through_oldest:
  assumes "MAX_OPEN_WINDOWS < length (sw_open sp)" "close_through (closes_ns (sw_stride sp) (fst (sw_open sp ! 0))) cap sp = (es, sp')"
  shows "length (sw_open sp') < length (sw_open sp)"
proof -
  obtain e sp1 where one: "close_one cap sp = (e, sp1)" by fastforce
  have ne: "sw_open sp \<noteq> []" using assms(1) by auto
  obtain es1 sp2 where rest: "close_through (closes_ns (sw_stride sp) (fst (sw_open sp ! 0))) cap sp1 = (es1, sp2)" by fastforce
  have "sp' = sp2" using assms ne by (subst (asm) close_through.simps) (simp add: one rest hd_conv_nth)
  then show ?thesis using close_through_shrinks [OF rest] close_one_open [OF one] ne by (cases "sw_open sp") auto
qed

function close_excess :: "u64 \<Rightarrow> splitter \<Rightarrow> hist_event list \<times> splitter" where
  "close_excess cap sp =
     (if MAX_OPEN_WINDOWS < length (sw_open sp)
      then let oldest = closes_ns (sw_stride sp) (fst (sw_open sp ! 0));
               (es, sp) = close_through oldest cap sp; (es', sp) = close_excess cap sp in (es @ es', sp)
      else ([], sp))"
  by pat_completeness auto
termination
  by (relation "measure (\<lambda>(cap, sp). length (sw_open sp))")
    (auto dest!: sym [of _ "close_through _ _ _"] dest: close_through_oldest)

declare close_excess.simps [simp del]

definition share_of :: "nat \<Rightarrow> nat \<Rightarrow> nat \<Rightarrow> nat \<Rightarrow> nat" where
  "share_of d lower upper dt = mul_div_floor (d * unat SHARE_SCALE) upper dt - mul_div_floor (d * unat SHARE_SCALE) lower dt"

text \<open>\<open>u64::try_from(share).unwrap_or(u64::MAX)\<close>.\<close>

definition to_u64 :: "nat \<Rightarrow> u64" where
  "to_u64 n = (if n < 2 ^ 64 then of_nat n else u64_max)"

definition window_shares :: "stride \<Rightarrow> u64 \<Rightarrow> u64 \<Rightarrow> int \<Rightarrow> (u32 \<times> u64) list \<Rightarrow> (u32 \<times> u64) list" where
  "window_shares s p t k deltas =
     (let dt = unat (t - p);
          upper = unat (min (closes_ns s k) t - p);
          lower = unat (max (opens_ns s k) p - p)
      in List.map_filter (\<lambda>(idx, d). let share = share_of (unat d) lower upper dt
           in if 0 < share then Some (idx, to_u64 share) else None) deltas)"

fun share_windows :: "nat \<Rightarrow> u64 \<Rightarrow> u64 \<Rightarrow> (u32 \<times> u64) list \<Rightarrow> int \<Rightarrow> u64 \<Rightarrow> int list \<Rightarrow> splitter \<Rightarrow> hist_event list \<times> splitter" where
  "share_windows g p t deltas kt settled_to [] sp = ([], sp)"
| "share_windows g p t deltas kt settled_to (k # ks) sp =
     (let sp = add_shares k g (window_shares (sw_stride sp) p t k deltas) sp;
          (es1, sp) = (if k < kt then close_through (min settled_to (closes_ns (sw_stride sp) k)) t sp else ([], sp));
          (es2, sp) = close_excess t sp;
          (es3, sp) = share_windows g p t deltas kt settled_to ks sp
      in (es1 @ es2 @ es3, sp))"

definition share :: "nat \<Rightarrow> u64 \<Rightarrow> hist_snapshot \<Rightarrow> u64 \<Rightarrow> hist_snapshot \<Rightarrow> splitter \<Rightarrow> hist_event list \<times> splitter" where
  "share g p prev t later sp =
     (let s = sw_stride sp; kt = stride_window s t; kp = stride_window s p
      in if kt \<le> kp \<or> t \<le> p
         then close_excess t (add_shares kt g (map (\<lambda>(idx, d). (idx, saturating_mul d SHARE_SCALE)) (delta_walk prev later)) sp)
         else let from = max kp (sw_first sp);
                  (settled_to, sp) = (if 1 < kt - from then settled_time t sp else (0, sp))
              in share_windows g p t (delta_walk prev later) kt settled_to [from..kt] sp)"

definition splitter_row :: "nat \<Rightarrow> nat \<Rightarrow> hist_snapshot option \<Rightarrow> u64 \<Rightarrow> hist_snapshot \<Rightarrow> splitter \<Rightarrow> hist_event list \<times> splitter" where
  "splitter_row series g prev t later sp =
     (let earlier = map_option fst (sw_latest sp ! series);
          sp = sp\<lparr>sw_latest := (sw_latest sp)[series := Some (t, case earlier of None \<Rightarrow> 0 | Some p \<Rightarrow> saturating_sub t p)]\<rparr>;
          kt = stride_window (sw_stride sp) t
      in if kt < sw_first sp then ([], sp)
         else let sp = sp\<lparr>sw_last_t := t\<rparr>;
                  (es1, sp) = (case (earlier, prev) of (Some p, Some prev) \<Rightarrow> share g p prev t later sp | _ \<Rightarrow> ([], sp));
                  (es2, sp) = (if sw_newest sp < kt
                    then let (settled_to, sp) = settled_time t (sp\<lparr>sw_newest := kt\<rparr>)
                         in close_through (min settled_to (saturating_sub t 1)) t sp
                    else ([], sp))
              in (es1 @ es2, sp))"

definition splitter_finish :: "splitter \<Rightarrow> hist_event list \<times> splitter" where
  "splitter_finish sp = close_through u64_max (sw_last_t sp) sp"

end
