(* ===== verification/HistShares.thy ===== *)
theory HistShares
  imports HistWindows
begin

text \<open>
  Splitting a change among windows loses none of it: whatever closes when, what the events of a call hold of a bucket is
  the shares its rows gave it, and the shares of a row are its change. Windows are emitted in order and never more than
  \<open>MAX_OPEN_WINDOWS\<close> stay open.
\<close>

section \<open>The arithmetic\<close>

lemma mul_div_floor: "0 < c \<Longrightarrow> mul_div_floor a b c = a * b div c"
proof -
  assume c: "0 < c"
  have "a * b = c * (a div c * b) + a mod c * b"
    by (metis add_mult_distrib mult.assoc mult_div_mod_eq)
  then show ?thesis using c by (simp add: mul_div_floor_def)
qed

text \<open>The intermediate values fit a \<open>u128\<close>.\<close>

lemma mul_div_floor_fits:
  fixes a b c :: nat
  assumes "b \<le> c" "0 < c" "c < 2 ^ 64" "a < 2 ^ 80"
  shows "a div c * b < 2 ^ 128" "a mod c * b < 2 ^ 128"
proof -
  have "a div c * b \<le> a div c * c" by (rule mult_le_mono [OF order_refl assms(1)])
  also have "\<dots> \<le> a" by simp
  finally show "a div c * b < 2 ^ 128" using assms(4) by simp
  have "a mod c < 2 ^ 64" "b < 2 ^ 64" using assms mod_less_divisor [OF assms(2), of a] by linarith+
  then have "a mod c * b < 2 ^ 64 * 2 ^ 64" by (intro mult_strict_mono) auto
  then show "a mod c * b < 2 ^ 128" by simp
qed

section \<open>Windows in order\<close>

definition clamped :: "int \<Rightarrow> int" where
  "clamped x = min (max x 0) (uint u64_max)"

lemma clamped_range: "0 \<le> clamped x" "clamped x < 2 ^ 64"
proof -
  have "uint u64_max < 2 ^ 64" "0 \<le> uint u64_max" using uint_bounded [of u64_max] by simp_all
  then show "0 \<le> clamped x" "clamped x < 2 ^ 64" unfolding clamped_def by linarith+
qed

lemma uint_opens: "uint (opens_ns s k) = clamped (uint (sr_anchor s) + (k - 1) * uint (sr_ns s))"
proof -
  have "uint (word_of_int (clamped x) :: u64) = clamped x" for x
    using clamped_range [of x] by (simp add: uint_word_of_int_eq take_bit_int_eq_self)
  then show ?thesis by (simp only: opens_ns_def clamped_def)
qed

lemma opens_mono: "k \<le> l \<Longrightarrow> opens_ns s k \<le> opens_ns s l"
proof -
  assume "k \<le> l"
  then have "(k - 1) * uint (sr_ns s) \<le> (l - 1) * uint (sr_ns s)" by (intro mult_right_mono) auto
  then have "clamped (uint (sr_anchor s) + (k - 1) * uint (sr_ns s)) \<le> clamped (uint (sr_anchor s) + (l - 1) * uint (sr_ns s))"
    unfolding clamped_def by linarith
  then show ?thesis by (simp add: word_le_def uint_opens)
qed

lemma closes_mono: "k \<le> l \<Longrightarrow> closes_ns s k \<le> closes_ns s l"
  unfolding closes_ns_def by (rule opens_mono) simp

section \<open>What a splitter holds\<close>

definition accums_ok :: "splitter \<Rightarrow> accum list \<Rightarrow> bool" where
  "accums_ok sp as \<longleftrightarrow> length as = sw_groups sp \<and> (\<forall>a \<in> set as. accum_ok a \<and> ac_buckets a = ac_buckets (sw_new sp))"

definition splitter_ok :: "splitter \<Rightarrow> bool" where
  "splitter_ok sp \<longleftrightarrow> (\<forall>x \<in> set (sw_open sp). accums_ok sp (snd x)) \<and>
     (\<forall>as \<in> set (sw_spare sp). accums_ok sp as \<and> (\<forall>a \<in> set as. accum_total a = 0 \<and> (\<forall>j. held_at_idx a j = 0))) \<and>
     accum_ok (sw_new sp) \<and> accum_total (sw_new sp) = 0 \<and> (\<forall>j. held_at_idx (sw_new sp) j = 0) \<and>
     sorted_wrt (<) (map fst (sw_open sp)) \<and> (\<forall>x \<in> set (sw_open sp). sw_closed_to sp < fst x)"

definition holding :: "splitter \<Rightarrow> nat \<Rightarrow> u32 \<Rightarrow> nat" where
  "holding sp g j = sum_list (map (\<lambda>x. held_at_idx (snd x ! g) j) (sw_open sp))"

definition weight :: "splitter \<Rightarrow> nat" where
  "weight sp = sum_list (map (\<lambda>x. sum_list (map accum_total (snd x))) (sw_open sp))"

definition emitted :: "hist_event list \<Rightarrow> nat \<Rightarrow> u32 \<Rightarrow> nat" where
  "emitted es g j = sum_list (map (\<lambda>e. count_at j (snd e ! g)) es)"

lemma emitted_append [simp]: "emitted (es @ es') g j = emitted es g j + emitted es' g j"
  and emitted_Nil [simp]: "emitted [] g j = 0"
  by (simp_all add: emitted_def)

text \<open>What no operation on the windows changes.\<close>

definition same_frame :: "splitter \<Rightarrow> splitter \<Rightarrow> bool" where
  "same_frame sp sp' \<longleftrightarrow> sw_stride sp' = sw_stride sp \<and> sw_first sp' = sw_first sp \<and> sw_groups sp' = sw_groups sp \<and>
     sw_new sp' = sw_new sp \<and> sw_latest sp' = sw_latest sp \<and> sw_newest sp' = sw_newest sp \<and> sw_last_t sp' = sw_last_t sp \<and>
     sw_closed_to sp \<le> sw_closed_to sp'"

lemma same_frame_trans: "same_frame a b \<Longrightarrow> same_frame b c \<Longrightarrow> same_frame a c"
  by (auto simp: same_frame_def)

lemma same_frame_refl [simp]: "same_frame a a"
  by (simp add: same_frame_def)

subsection \<open>Opening a window\<close>

lemma dropWhile_ge: "sorted_wrt (<) (map fst xs) \<Longrightarrow> x \<in> set (dropWhile (\<lambda>(j, _). j < (k :: int)) xs) \<Longrightarrow> k \<le> fst x"
proof (induction xs)
  case (Cons y xs)
  show ?case
  proof (cases "fst y < k")
    case True
    then show ?thesis using Cons by (auto simp: split_beta)
  next
    case False
    then have "x = y \<or> x \<in> set xs" using Cons.prems(2) by (simp add: split_beta)
    moreover have "\<forall>x \<in> set xs. fst y < fst x" using Cons.prems(1) by simp
    ultimately show ?thesis using False by fastforce
  qed
qed simp

lemma take_partition:
  fixes k :: int
  assumes "sorted_wrt (<) (map fst xs)"
  defines "pos \<equiv> partition_point (\<lambda>(j, _). j < k) xs"
  shows "\<forall>x \<in> set (take pos xs). fst x < k" "\<forall>x \<in> set (drop pos xs). k \<le> fst x" "pos \<le> length xs"
proof -
  have t: "take pos xs = takeWhile (\<lambda>(j, _). j < k) xs" "drop pos xs = dropWhile (\<lambda>(j, _). j < k) xs"
    unfolding pos_def partition_point_def by (rule takeWhile_eq_take [symmetric], rule dropWhile_eq_drop [symmetric])
  show "\<forall>x \<in> set (take pos xs). fst x < k" unfolding t by (intro ballI) (drule set_takeWhileD, simp add: split_beta)
  show "\<forall>x \<in> set (drop pos xs). k \<le> fst x" unfolding t by (intro ballI dropWhile_ge [OF assms(1)])
  show "pos \<le> length xs" unfolding pos_def partition_point_def by (rule length_takeWhile_le)
qed

lemma window_at_ok:
  assumes ok: "splitter_ok sp" and code: "window_at k sp = (pos, sp')"
  shows "splitter_ok sp' \<and> pos < length (sw_open sp') \<and> fst (sw_open sp' ! pos) = max k (sw_closed_to sp + 1) \<and>
    (\<forall>g < sw_groups sp. \<forall>j. holding sp' g j = holding sp g j) \<and> weight sp' = weight sp \<and> same_frame sp sp' \<and>
    length (sw_open sp') \<le> Suc (length (sw_open sp)) \<and> sw_closed_to sp' = sw_closed_to sp"
proof -
  define kk where "kk = max k (sw_closed_to sp + 1)"
  define at_pos where "at_pos = partition_point (\<lambda>(j, _). j < kk) (sw_open sp)"
  define new_as where "new_as = (if sw_spare sp = [] then replicate (sw_groups sp) (sw_new sp) else last (sw_spare sp))"
  define below where "below = take at_pos (sw_open sp)"
  define above where "above = drop at_pos (sw_open sp)"
  have sorted: "sorted_wrt (<) (map fst (sw_open sp))" using ok by (simp add: splitter_ok_def)
  note T = take_partition [OF sorted, of kk, folded at_pos_def]
  show ?thesis
  proof (cases "at_pos < length (sw_open sp) \<and> fst (sw_open sp ! at_pos) = kk")
    case True
    then have "pos = at_pos" "sp' = sp" using code by (auto simp: window_at_def Let_def at_pos_def kk_def)
    then show ?thesis using True ok by (simp add: kk_def)
  next
    case False
    then have new: "pos = at_pos" "sp' = sp\<lparr>sw_spare := butlast (sw_spare sp), sw_open := below @ (kk, new_as) # above\<rparr>"
      using code by (auto simp: window_at_def Let_def at_pos_def kk_def new_as_def below_def above_def)
    have split: "sw_open sp = below @ above" by (simp add: below_def above_def)
    have len: "length below = at_pos" using T(3) by (simp add: below_def)
    have lower: "\<forall>x \<in> set below. fst x < kk" using T(1) by (simp add: below_def)
    have higher: "\<forall>x \<in> set above. kk < fst x"
    proof (cases above)
      case (Cons y ys)
      then have "at_pos < length (sw_open sp)" "sw_open sp ! at_pos = y" using split len by (auto simp: nth_append)
      then have "kk < fst y" using False T(2) Cons by (force simp: above_def)
      moreover have "\<forall>x \<in> set ys. fst y < fst x" using sorted split Cons by (simp add: sorted_wrt_append)
      ultimately show ?thesis using Cons by fastforce
    qed simp
    have spare: "accums_ok sp new_as \<and> (\<forall>a \<in> set new_as. accum_total a = 0 \<and> (\<forall>j. held_at_idx a j = 0))"
    proof (cases "sw_spare sp = []")
      case True
      then show ?thesis using ok by (simp add: new_as_def splitter_ok_def accums_ok_def)
    next
      case False
      then have "new_as \<in> set (sw_spare sp)" by (simp add: new_as_def)
      then show ?thesis using ok by (simp add: splitter_ok_def)
    qed
    have same: "accums_ok sp' = accums_ok sp" by (simp add: new accums_ok_def fun_eq_iff)
    have "sorted_wrt (<) (map fst (sw_open sp'))" using sorted lower higher split
      by (auto simp: new sorted_wrt_append)
    moreover have "\<forall>x \<in> set (sw_open sp'). accums_ok sp' (snd x) \<and> sw_closed_to sp' < fst x"
      using ok spare split unfolding same by (auto simp: new splitter_ok_def kk_def)
    moreover have "\<forall>as \<in> set (sw_spare sp). accums_ok sp as \<and> (\<forall>a \<in> set as. accum_total a = 0 \<and> (\<forall>j. held_at_idx a j = 0))"
      using ok by (simp add: splitter_ok_def)
    then have "\<forall>as \<in> set (sw_spare sp'). accums_ok sp' as \<and> (\<forall>a \<in> set as. accum_total a = 0 \<and> (\<forall>j. held_at_idx a j = 0))"
      unfolding same by (auto simp: new dest: in_set_butlastD)
    ultimately have "splitter_ok sp'" using ok same by (simp add: splitter_ok_def new)
    moreover have "holding sp' g j = holding sp g j" if g: "g < sw_groups sp" for g j
    proof -
      have "new_as ! g \<in> set new_as" using spare g by (simp add: accums_ok_def)
      then have "held_at_idx (new_as ! g) j = 0" using spare by blast
      then show ?thesis by (simp add: holding_def new split)
    qed
    moreover have "sum_list (map accum_total new_as) = 0" using spare by (simp add: sum_list_eq_0_iff)
    then have "weight sp' = weight sp" by (simp add: weight_def new split)
    ultimately show ?thesis using len by (auto simp: new same_frame_def split kk_def nth_append)
  qed
qed

section \<open>Adding to a window\<close>

lemma sum_list_update_diff:
  "i < length xs \<Longrightarrow> sum_list (map f (xs[i := y])) + f (xs ! i) = sum_list (map f xs) + (f y :: nat)"
proof (induction xs arbitrary: i)
  case (Cons x xs)
  then show ?case by (cases i) auto
qed simp

lemma elem_le_sum_list: "i < length xs \<Longrightarrow> f (xs ! i) \<le> sum_list (map f xs :: nat list)"
  by (rule member_le_sum_list) simp_all

lemma add_shares_ok:
  fixes k :: int
  assumes ok: "splitter_ok sp" and g: "g < sw_groups sp" and bound: "weight sp + sum_list (map (unat \<circ> snd) shares) < 2 ^ 64"
  defines "sp' \<equiv> add_shares k g shares sp"
  shows "splitter_ok sp' \<and> same_frame sp sp' \<and> sw_closed_to sp' = sw_closed_to sp \<and>
    weight sp' \<le> weight sp + sum_list (map (unat \<circ> snd) shares) \<and> length (sw_open sp') \<le> Suc (length (sw_open sp)) \<and>
    (\<forall>h < sw_groups sp. \<forall>j. holding sp' h j = holding sp h j +
       (if h = g then sum_list (map (\<lambda>(i, c). if i = j \<and> unat i < ac_buckets (sw_new sp) then unat c else 0) shares) else 0))"
proof -
  obtain pos sp1 where w: "window_at k sp = (pos, sp1)" by fastforce
  note W = window_at_ok [OF ok w]
  obtain kk as where at_pos: "sw_open sp1 ! pos = (kk, as)" by fastforce
  define a' where "a' = fold (\<lambda>(idx, c). accum_add idx c) shares (as ! g)"
  have sp': "sp' = sp1\<lparr>sw_open := (sw_open sp1)[pos := (kk, as[g := a'])]\<rparr>"
    by (simp add: sp'_def add_shares_def w at_pos a'_def)
  have pos: "pos < length (sw_open sp1)" and ok1: "splitter_ok sp1" and fr: "same_frame sp sp1" and w1: "weight sp1 = weight sp"
    using W by auto
  have "(kk, as) \<in> set (sw_open sp1)" using pos at_pos by (metis nth_mem)
  then have as: "accums_ok sp1 as" "sw_closed_to sp1 < kk" using ok1 by (force simp: splitter_ok_def)+
  have g1: "g < length as" using as(1) g fr by (simp add: accums_ok_def same_frame_def)
  then have ag: "accum_ok (as ! g)" "ac_buckets (as ! g) = ac_buckets (sw_new sp)" using as(1) fr by (auto simp: accums_ok_def same_frame_def)
  have "accum_total (as ! g) \<le> sum_list (map accum_total as)" by (rule elem_le_sum_list [OF g1])
  also have "\<dots> \<le> weight sp1" unfolding weight_def
    using elem_le_sum_list [OF pos, of "\<lambda>x. sum_list (map accum_total (snd x))"] at_pos by simp
  finally have "accum_total (as ! g) + sum_list (map (unat \<circ> snd) shares) < 2 ^ 64" using bound w1 by simp
  note A = accum_fold_ok [OF ag(1) this, folded a'_def]
  have same: "accums_ok sp' = accums_ok sp1" by (simp add: sp' accums_ok_def fun_eq_iff)
  have as': "accums_ok sp1 (as[g := a'])"
    using as(1) A ag(2) fr unfolding accums_ok_def by (auto simp: same_frame_def dest!: set_update_subset_insert [THEN subsetD])
  have "map fst ((sw_open sp1)[pos := (kk, as[g := a'])]) = map fst (sw_open sp1)"
    using at_pos pos by (simp add: map_update) (metis fst_conv list_update_id nth_map)
  then have sorted: "sorted_wrt (<) (map fst (sw_open sp'))" using ok1 by (simp add: sp' splitter_ok_def)
  have "\<forall>x \<in> set (sw_open sp'). accums_ok sp' (snd x) \<and> sw_closed_to sp' < fst x"
    using ok1 as' as(2) unfolding same by (auto simp: sp' splitter_ok_def dest!: set_update_subset_insert [THEN subsetD])
  then have "splitter_ok sp'" using ok1 sorted same by (simp add: splitter_ok_def sp')
  moreover have "same_frame sp sp'" "sw_closed_to sp' = sw_closed_to sp" using fr W by (auto simp: sp' same_frame_def)
  moreover have "length (sw_open sp') \<le> Suc (length (sw_open sp))" using W by (simp add: sp')
  moreover have "weight sp' \<le> weight sp + sum_list (map (unat \<circ> snd) shares)"
  proof -
    have "sum_list (map accum_total (as[g := a'])) + accum_total (as ! g) = sum_list (map accum_total as) + accum_total a'"
      by (rule sum_list_update_diff [OF g1])
    moreover have "weight sp' + sum_list (map accum_total as) = weight sp1 + sum_list (map accum_total (as[g := a']))"
      using sum_list_update_diff [OF pos, of "\<lambda>x. sum_list (map accum_total (snd x))" "(kk, as[g := a'])"] at_pos
      by (simp add: weight_def sp')
    ultimately show ?thesis using A w1 by linarith
  qed
  moreover have "holding sp' h j = holding sp h j +
       (if h = g then sum_list (map (\<lambda>(i, c). if i = j \<and> unat i < ac_buckets (sw_new sp) then unat c else 0) shares) else 0)"
    if h: "h < sw_groups sp" for h j
  proof -
    have "holding sp' h j + held_at_idx (as ! h) j = holding sp1 h j + held_at_idx (as[g := a'] ! h) j"
      using sum_list_update_diff [OF pos, of "\<lambda>x. held_at_idx (snd x ! h) j" "(kk, as[g := a'])"] at_pos
      by (simp add: holding_def sp')
    moreover have "holding sp1 h j = holding sp h j" using W h by blast
    ultimately show ?thesis using A ag(2) g1 by (cases "h = g") auto
  qed
  ultimately show ?thesis by blast
qed

section \<open>Closing windows\<close>

definition stamps :: "hist_event list \<Rightarrow> u64 list" where
  "stamps es = List.map_filter fst es"

definition stamped_between :: "u64 \<Rightarrow> u64 \<Rightarrow> hist_event list \<Rightarrow> bool" where
  "stamped_between a b es \<longleftrightarrow> a \<le> b \<and> sorted (stamps es) \<and> (\<forall>x \<in> set (stamps es). a \<le> x \<and> x \<le> b)"

lemma stamps_simps [simp]: "stamps [] = []" "stamps ((None, cs) # es) = stamps es" "stamps ((Some t, cs) # es) = t # stamps es"
  by (simp_all add: stamps_def map_filter_simps)

lemma stamps_append [simp]: "stamps (es @ es') = stamps es @ stamps es'"
  by (induction es) (auto simp: stamps_def map_filter_simps split: option.splits)

lemma stamped_between_append: "stamped_between a b es \<Longrightarrow> stamped_between b c es' \<Longrightarrow> stamped_between a c (es @ es')"
  by (fastforce simp: stamped_between_def sorted_append intro: order_trans)

lemma stamped_between_Nil [simp]: "stamped_between a b [] \<longleftrightarrow> a \<le> b"
  by (simp add: stamped_between_def)

text \<open>The latest a window closed so far can have been stamped.\<close>

definition closed_by :: "splitter \<Rightarrow> u64 \<Rightarrow> u64" where
  "closed_by sp cap = min (closes_ns (sw_stride sp) (sw_closed_to sp)) cap"

definition event_ok :: "splitter \<Rightarrow> hist_event \<Rightarrow> bool" where
  "event_ok sp e \<longleftrightarrow> length (snd e) = sw_groups sp \<and> (\<forall>cs \<in> set (snd e). rising cs) \<and>
     (\<forall>x. fst e = Some x \<longrightarrow> sr_emit_from (sw_stride sp) \<le> x)"

text \<open>What every operation that emits keeps.\<close>

definition emits :: "u64 \<Rightarrow> splitter \<Rightarrow> hist_event list \<Rightarrow> splitter \<Rightarrow> bool" where
  "emits cap sp es sp' \<longleftrightarrow> splitter_ok sp' \<and> same_frame sp sp' \<and> weight sp' \<le> weight sp \<and>
     (\<forall>g < sw_groups sp. \<forall>j. holding sp g j = holding sp' g j + emitted es g j) \<and>
     (\<forall>e \<in> set es. event_ok sp e) \<and> stamped_between (closed_by sp cap) (closed_by sp' cap) es"

lemma emits_refl: "splitter_ok sp \<Longrightarrow> emits cap sp [] sp"
  by (simp add: emits_def)

lemma emits_append:
  assumes "emits cap a es b" "emits cap b es' c"
  shows "emits cap a (es @ es') c"
proof -
  have g: "sw_groups b = sw_groups a" "sw_stride b = sw_stride a" using assms(1) by (simp_all add: emits_def same_frame_def)
  then have "event_ok b = event_ok a" by (simp add: event_ok_def fun_eq_iff)
  then show ?thesis using assms g unfolding emits_def
    by (auto intro: same_frame_trans stamped_between_append)
qed

lemma close_one_ok:
  assumes ok: "splitter_ok sp" and small: "weight sp < 2 ^ 64" and ne: "sw_open sp \<noteq> []" and code: "close_one cap sp = (e, sp')"
  shows "emits cap sp [e] sp'"
proof -
  obtain j as rest where op: "sw_open sp = (j, as) # rest" using ne by (cases "sw_open sp") auto
  let ?stamp = "min (closes_ns (sw_stride sp) j) cap"
  have e: "e = (if sr_emit_from (sw_stride sp) \<le> ?stamp then Some ?stamp else None, map (fst \<circ> flush_accum) as)"
    and sp': "sp' = sp\<lparr>sw_open := rest, sw_closed_to := j, sw_spare := sw_spare sp @ [map (snd \<circ> flush_accum) as]\<rparr>"
    using code by (auto simp: close_one_def op Let_def)
  have as: "accums_ok sp as" "sw_closed_to sp < j" and rest: "\<forall>x \<in> set rest. accums_ok sp (snd x) \<and> j < fst x"
    and sorted: "sorted_wrt (<) (map fst rest)" using ok by (auto simp: splitter_ok_def op)
  have flush: "rising (fst (flush_accum a)) \<and> (\<forall>j. count_at j (fst (flush_accum a)) = held_at_idx a j) \<and> accum_ok (snd (flush_accum a)) \<and>
      accum_total (snd (flush_accum a)) = 0 \<and> (\<forall>j. held_at_idx (snd (flush_accum a)) j = 0) \<and>
      ac_buckets (snd (flush_accum a)) = ac_buckets (sw_new sp)" if a: "a \<in> set as" for a
  proof -
    have "accum_total a \<le> sum_list (map accum_total as)" using a by (intro member_le_sum_list) auto
    also have "\<dots> \<le> weight sp" by (simp add: weight_def op)
    finally have "accum_total a < 2 ^ 64" using small by simp
    moreover have "accum_ok a" "ac_buckets a = ac_buckets (sw_new sp)" using as(1) a by (auto simp: accums_ok_def)
    ultimately show ?thesis using flush_accum_ok [of a "fst (flush_accum a)" "snd (flush_accum a)"] by auto
  qed
  have same: "accums_ok sp' = accums_ok sp" by (simp add: sp' accums_ok_def fun_eq_iff)
  have "accums_ok sp (map (snd \<circ> flush_accum) as)" using as(1) flush by (auto simp: accums_ok_def)
  then have spare: "\<forall>bs \<in> set (sw_spare sp'). accums_ok sp' bs \<and> (\<forall>a \<in> set bs. accum_total a = 0 \<and> (\<forall>j. held_at_idx a j = 0))"
    using ok flush unfolding same by (auto simp: sp' splitter_ok_def)
  have "splitter_ok sp'" using ok rest sorted spare same by (simp add: splitter_ok_def sp')
  moreover have "same_frame sp sp'" using as(2) by (simp add: same_frame_def sp')
  moreover have "weight sp' \<le> weight sp" by (simp add: weight_def sp' op)
  moreover have "holding sp g i = holding sp' g i + emitted [e] g i" if "g < sw_groups sp" for g i
  proof -
    have g: "g < length as" using that as(1) by (simp add: accums_ok_def)
    then have "count_at i (map (fst \<circ> flush_accum) as ! g) = held_at_idx (as ! g) i" using flush by simp
    then show ?thesis by (simp add: holding_def emitted_def sp' op e)
  qed
  moreover have "event_ok sp e" using as(1) flush by (auto simp: event_ok_def e accums_ok_def)
  moreover have "stamped_between (closed_by sp cap) (closed_by sp' cap) [e]"
  proof -
    have "closed_by sp cap \<le> ?stamp" using closes_mono [of "sw_closed_to sp" j "sw_stride sp"] as(2)
      unfolding closed_by_def by (meson less_imp_le min.mono order_refl)
    then show ?thesis by (simp add: stamped_between_def e sp' closed_by_def)
  qed
  ultimately show ?thesis by (simp add: emits_def)
qed

lemma close_through_ok:
  "splitter_ok sp \<Longrightarrow> weight sp < 2 ^ 64 \<Longrightarrow> close_through until cap sp = (es, sp') \<Longrightarrow> emits cap sp es sp'"
proof (induction until cap sp arbitrary: es sp' rule: close_through.induct)
  case (1 until cap sp)
  show ?case
  proof (cases "sw_open sp \<noteq> [] \<and> closes_ns (sw_stride sp) (fst (hd (sw_open sp))) \<le> until")
    case True
    obtain e sp1 where one: "close_one cap sp = (e, sp1)" by fastforce
    obtain es1 sp2 where rest: "close_through until cap sp1 = (es1, sp2)" by fastforce
    have "close_through until cap sp = (e # es1, sp2)" using True by (subst close_through.simps) (simp add: one rest)
    then have out: "es = [e] @ es1" "sp' = sp2" using 1(4) by auto
    have first: "emits cap sp [e] sp1" using close_one_ok [OF 1(2,3) _ one] True by blast
    then have "splitter_ok sp1" "weight sp1 < 2 ^ 64" using 1(3) by (auto simp: emits_def)
    from emits_append [OF first 1(1) [OF True one [symmetric] refl this rest]] show ?thesis unfolding out .
  next
    case False
    then show ?thesis using 1(2,4) by (subst (asm) close_through.simps) (auto intro: emits_refl)
  qed
qed

lemma close_excess_ok:
  "splitter_ok sp \<Longrightarrow> weight sp < 2 ^ 64 \<Longrightarrow> close_excess cap sp = (es, sp') \<Longrightarrow>
     emits cap sp es sp' \<and> length (sw_open sp') \<le> MAX_OPEN_WINDOWS"
proof (induction cap sp arbitrary: es sp' rule: close_excess.induct)
  case (1 cap sp)
  show ?case
  proof (cases "MAX_OPEN_WINDOWS < length (sw_open sp)")
    case True
    let ?oldest = "closes_ns (sw_stride sp) (fst (sw_open sp ! 0))"
    obtain es1 sp1 where first: "close_through ?oldest cap sp = (es1, sp1)" by fastforce
    obtain es2 sp2 where rest: "close_excess cap sp1 = (es2, sp2)" by fastforce
    have "close_excess cap sp = (es1 @ es2, sp2)" using True by (subst close_excess.simps) (simp add: first rest)
    then have out: "es = es1 @ es2" "sp' = sp2" using 1(4) by auto
    have f: "emits cap sp es1 sp1" by (rule close_through_ok [OF 1(2,3) first])
    then have "splitter_ok sp1" "weight sp1 < 2 ^ 64" using 1(3) by (auto simp: emits_def)
    note R = 1(1) [OF True refl first [symmetric] refl this rest]
    show ?thesis using emits_append [OF f] R by (simp add: out)
  next
    case False
    then show ?thesis using 1(2,4) by (subst (asm) close_excess.simps) (auto intro: emits_refl)
  qed
qed

section \<open>A row's shares\<close>

definition grows :: "u64 \<Rightarrow> splitter \<Rightarrow> (nat \<Rightarrow> u32 \<Rightarrow> nat) \<Rightarrow> nat \<Rightarrow> hist_event list \<Rightarrow> splitter \<Rightarrow> bool" where
  "grows cap sp A w es sp' \<longleftrightarrow> splitter_ok sp' \<and> same_frame sp sp' \<and> weight sp' \<le> weight sp + w \<and>
     (\<forall>g < sw_groups sp. \<forall>j. holding sp g j + A g j = holding sp' g j + emitted es g j) \<and>
     (\<forall>e \<in> set es. event_ok sp e) \<and> stamped_between (closed_by sp cap) (closed_by sp' cap) es"

lemma emits_grows: "emits cap sp es sp' \<Longrightarrow> grows cap sp (\<lambda>_ _. 0) 0 es sp'"
  by (simp add: emits_def grows_def)

lemma grows_append:
  assumes "grows cap a A w es b" "grows cap b B v es' c"
  shows "grows cap a (\<lambda>g j. A g j + B g j) (w + v) (es @ es') c"
proof -
  have g: "sw_groups b = sw_groups a" "sw_stride b = sw_stride a" using assms(1) by (simp_all add: grows_def same_frame_def)
  then have ev: "event_ok b = event_ok a" by (simp add: event_ok_def fun_eq_iff)
  have "holding a g j + (A g j + B g j) = holding c g j + emitted (es @ es') g j" if "g < sw_groups a" for g j
  proof -
    have "holding a g j + A g j = holding b g j + emitted es g j" "holding b g j + B g j = holding c g j + emitted es' g j"
      using assms g that by (auto simp: grows_def)
    then show ?thesis by simp
  qed
  moreover have "weight c \<le> weight a + (w + v)" using assms by (auto simp: grows_def)
  moreover have "same_frame a c" using assms unfolding grows_def by (blast intro: same_frame_trans)
  moreover have "stamped_between (closed_by a cap) (closed_by c cap) (es @ es')"
    using assms unfolding grows_def by (blast intro: stamped_between_append)
  ultimately show ?thesis using assms ev by (auto simp: grows_def)
qed

lemma grows_emits: "grows cap a A w es b \<Longrightarrow> emits cap b es' c \<Longrightarrow> grows cap a A w (es @ es') c"
  using grows_append [OF _ emits_grows] by simp

definition amount :: "(u32 \<times> u64) list \<Rightarrow> nat" where
  "amount shares = sum_list (map (unat \<circ> snd) shares)"

definition amount_at :: "nat \<Rightarrow> u32 \<Rightarrow> (u32 \<times> u64) list \<Rightarrow> nat" where
  "amount_at buckets j shares = sum_list (map (\<lambda>(i, c). if i = j \<and> unat i < buckets then unat c else 0) shares)"

lemma add_shares_grows:
  assumes "splitter_ok sp" "g < sw_groups sp" "weight sp + amount shares < 2 ^ 64"
  shows "grows cap sp (\<lambda>h j. if h = g then amount_at (ac_buckets (sw_new sp)) j shares else 0) (amount shares) [] (add_shares k g shares sp)"
  using add_shares_ok [OF assms(1,2), of shares k] assms(3)
  by (auto simp: grows_def amount_def amount_at_def closed_by_def same_frame_def)

lemma grows_small: "grows cap sp A w es sp' \<Longrightarrow> weight sp + w + v < 2 ^ 64 \<Longrightarrow> splitter_ok sp' \<and> weight sp' + v < 2 ^ 64"
  by (simp add: grows_def)

lemma share_windows_ok:
  assumes "splitter_ok sp" "g < sw_groups sp"
    "weight sp + sum_list (map (\<lambda>k. amount (window_shares (sw_stride sp) p t k deltas)) ks) < 2 ^ 64"
    "share_windows g p t deltas kt settled_to ks sp = (es, sp')"
  shows "grows t sp (\<lambda>h j. if h = g then sum_list (map (\<lambda>k. amount_at (ac_buckets (sw_new sp)) j (window_shares (sw_stride sp) p t k deltas)) ks) else 0)
      (sum_list (map (\<lambda>k. amount (window_shares (sw_stride sp) p t k deltas)) ks)) es sp' \<and>
    (ks \<noteq> [] \<longrightarrow> length (sw_open sp') \<le> MAX_OPEN_WINDOWS)"
  using assms
proof (induction ks arbitrary: sp es sp')
  case Nil
  then show ?case by (auto simp: grows_def)
next
  case (Cons k ks)
  let ?sh = "\<lambda>k. window_shares (sw_stride sp) p t k deltas" and ?B = "ac_buckets (sw_new sp)"
  define sp1 where "sp1 = add_shares k g (?sh k) sp"
  obtain es1 sp2 where two: "(if k < kt then close_through (min settled_to (closes_ns (sw_stride sp1) k)) t sp1 else ([], sp1)) = (es1, sp2)" by fastforce
  obtain es2 sp3 where three: "close_excess t sp2 = (es2, sp3)" by fastforce
  obtain es3 sp4 where four: "share_windows g p t deltas kt settled_to ks sp3 = (es3, sp4)" by fastforce
  have out: "es = es1 @ es2 @ es3" "sp' = sp4" using Cons.prems(4) by (auto simp: sp1_def [symmetric] two three four)
  let ?rest = "sum_list (map (\<lambda>k. amount (?sh k)) ks)"
  have b: "weight sp + amount (?sh k) + ?rest < 2 ^ 64" using Cons.prems(3) by simp
  then have b1: "weight sp + amount (?sh k) < 2 ^ 64" by simp
  have G1: "grows t sp (\<lambda>h j. if h = g then amount_at ?B j (?sh k) else 0) (amount (?sh k)) [] sp1"
    unfolding sp1_def by (rule add_shares_grows [OF Cons.prems(1,2) b1])
  note S1 = grows_small [OF G1 b]
  have "emits t sp1 es1 sp2"
  proof (cases "k < kt")
    case True
    then show ?thesis using close_through_ok [of sp1] S1 two by auto
  next
    case False
    then show ?thesis using two S1 by (auto intro: emits_refl)
  qed
  from grows_emits [OF G1 this] have G2: "grows t sp (\<lambda>h j. if h = g then amount_at ?B j (?sh k) else 0) (amount (?sh k)) es1 sp2" by simp
  note S2 = grows_small [OF G2 b]
  have E3: "emits t sp2 es2 sp3" "length (sw_open sp3) \<le> MAX_OPEN_WINDOWS" using close_excess_ok [of sp2 t es2 sp3] S2 three by auto
  note G3 = grows_emits [OF G2 E3(1)]
  note S3 = grows_small [OF G3 b]
  have fr: "sw_stride sp3 = sw_stride sp" "sw_groups sp3 = sw_groups sp" "sw_new sp3 = sw_new sp" using G3 by (auto simp: grows_def same_frame_def)
  have IH: "grows t sp3 (\<lambda>h j. if h = g then sum_list (map (\<lambda>k. amount_at ?B j (?sh k)) ks) else 0) ?rest es3 sp4 \<and>
      (ks \<noteq> [] \<longrightarrow> length (sw_open sp4) \<le> MAX_OPEN_WINDOWS)"
    using Cons.IH [OF _ _ _ four, unfolded fr] S3 Cons.prems(2) by simp
  then have "grows t sp3 (\<lambda>h j. if h = g then sum_list (map (\<lambda>k. amount_at ?B j (?sh k)) ks) else 0) ?rest es3 sp4" by blast
  from grows_append [OF G3 this] have "grows t sp (\<lambda>h j. if h = g then sum_list (map (\<lambda>k. amount_at ?B j (?sh k)) (k # ks)) else 0)
      (sum_list (map (\<lambda>k. amount (?sh k)) (k # ks))) es sp'"
    by (auto simp: out if_distrib [where f = "\<lambda>x. x + _"] cong: if_cong)
  moreover have "length (sw_open sp') \<le> MAX_OPEN_WINDOWS"
    using IH E3(2) four by (cases ks) (auto simp: out)
  ultimately show ?case by simp
qed

section \<open>The shares of a row are its change\<close>

definition stride_ok :: "stride \<Rightarrow> bool" where
  "stride_ok s \<longleftrightarrow> 4 \<le> uint (sr_ns s)"

lemma as_i64_id: "- (2 ^ 63) \<le> x \<Longrightarrow> x < 2 ^ 63 \<Longrightarrow> as_i64 x = x"
  unfolding as_i64_def by (rule signed_take_bit_int_eq_self) auto

text \<open>The window of \<open>t\<close> is the one whose close is the first at or after it.\<close>

lemma stride_window_bounds:
  fixes t :: u64
  assumes "stride_ok s"
  defines "k \<equiv> stride_window s t"
  shows "uint (sr_anchor s) + (k - 1) * uint (sr_ns s) < uint t" "uint t \<le> uint (sr_anchor s) + k * uint (sr_ns s)" "\<bar>k\<bar> < 2 ^ 62 + 2"
proof -
  let ?d = "uint t - uint (sr_anchor s)" and ?n = "uint (sr_ns s)"
  have n: "4 \<le> ?n" using assms by (simp add: stride_ok_def)
  have range: "0 \<le> uint (x :: u64)" "uint x < 2 ^ 64" for x using uint_bounded [of x] by simp_all
  have d: "- (2 ^ 64) < ?d" "?d < 2 ^ 64" using range [of t] range [of "sr_anchor s"] by linarith+
  define q r where "q = ?d div ?n" and "r = ?d mod ?n"
  define c where "c = q + (if r \<noteq> 0 then 1 else 0)"
  have m: "?d = ?n * q + r" "0 \<le> r" "r < ?n" using n by (simp_all add: pos_mod_bound q_def r_def)
  have c: "(c - 1) * ?n < ?d" "?d \<le> c * ?n" unfolding m(1) using m(2,3) n by (cases "r = 0"; simp add: c_def algebra_simps)+
  have "c < 2 ^ 62 + 2"
  proof (rule ccontr)
    assume "\<not> c < 2 ^ 62 + 2"
    then have "(2 ^ 62 + 1) * 4 \<le> (c - 1) * ?n" using n by (intro mult_mono) auto
    then show False using c(1) d(2) by simp
  qed
  moreover have "- (2 ^ 62 + 2) < c"
  proof (rule ccontr)
    assume "\<not> - (2 ^ 62 + 2) < c"
    then have "(2 ^ 62 + 2) * 4 \<le> (- c) * ?n" using n by (intro mult_mono) auto
    then show False using c(2) d(1) by simp
  qed
  ultimately have abs: "\<bar>c\<bar> < 2 ^ 62 + 2" by linarith
  have "k = as_i64 c" by (simp add: k_def stride_window_def Let_def c_def q_def r_def)
  also have "\<dots> = c" using abs by (intro as_i64_id) auto
  finally have k: "k = c" .
  show "uint (sr_anchor s) + (k - 1) * ?n < uint t" "uint t \<le> uint (sr_anchor s) + k * ?n" "\<bar>k\<bar> < 2 ^ 62 + 2"
    using c abs unfolding k by linarith+
qed

lemma closes_opens: "k < 2 ^ 63 - 1 \<Longrightarrow> closes_ns s k = opens_ns s (k + 1)"
  by (simp add: closes_ns_def)

lemma window_edges:
  assumes "stride_ok s"
  shows "opens_ns s (stride_window s t) \<le> t" "t \<le> closes_ns s (stride_window s t)"
    "k < stride_window s t \<Longrightarrow> closes_ns s k \<le> t" "k < stride_window s t \<Longrightarrow> closes_ns s k = opens_ns s (k + 1)"
proof -
  note W = stride_window_bounds [OF assms, of t]
  have t: "0 \<le> uint t" "uint t \<le> uint u64_max" by (simp_all add: word_le_def [symmetric])
  have small: "k \<le> stride_window s t \<Longrightarrow> k < 2 ^ 63 - 1" for k using W(3) by simp
  show "opens_ns s (stride_window s t) \<le> t" unfolding word_le_def uint_opens clamped_def using W(1) t by linarith
  show "t \<le> closes_ns s (stride_window s t)"
    unfolding closes_opens [OF small [OF order_refl]] word_le_def uint_opens clamped_def using W(2) t by simp
  assume k: "k < stride_window s t"
  then show e: "closes_ns s k = opens_ns s (k + 1)" using small by (intro closes_opens) simp
  have "k * uint (sr_ns s) \<le> (stride_window s t - 1) * uint (sr_ns s)" using k by (intro mult_right_mono) auto
  then show "closes_ns s k \<le> t" unfolding e word_le_def uint_opens clamped_def using W(1) t by simp
qed

text \<open>What a row at \<open>t\<close>, after one at \<open>p\<close>, adds when a bucket changed by \<open>n\<close>: all of it, less the part before the first window.\<close>

definition row_share :: "stride \<Rightarrow> int \<Rightarrow> u64 \<Rightarrow> u64 \<Rightarrow> nat \<Rightarrow> nat" where
  "row_share s first p t n =
     (if stride_window s t \<le> stride_window s p \<or> t \<le> p \<or> first \<le> stride_window s p then n * unat SHARE_SCALE
      else n * unat SHARE_SCALE - n * unat SHARE_SCALE * (unat (opens_ns s first) - unat p) div (unat t - unat p))"

lemma telescope: "from \<le> (kt :: int) \<Longrightarrow> (\<And>k. from \<le> k \<Longrightarrow> k < kt \<Longrightarrow> u k = l (k + 1)) \<Longrightarrow>
    (\<And>k. from \<le> k \<Longrightarrow> k \<le> kt \<Longrightarrow> l k \<le> (u k :: nat)) \<Longrightarrow>
    sum_list (map (\<lambda>k. u k - l k) [from..kt]) = u kt - l from \<and> l from \<le> u kt"
proof (induction "nat (kt - from)" arbitrary: kt)
  case 0
  then have "kt = from" by simp
  then show ?case using 0 by simp
next
  case (Suc n)
  then have lt: "from < kt" by simp
  have IH: "sum_list (map (\<lambda>k. u k - l k) [from..kt - 1]) = u (kt - 1) - l from \<and> l from \<le> u (kt - 1)"
  proof (rule Suc.hyps(1))
    show "n = nat (kt - 1 - from)" using Suc.hyps(2) by simp
    show "from \<le> kt - 1" using lt by simp
    show "u k = l (k + 1)" if "from \<le> k" "k < kt - 1" for k using that by (intro Suc.prems(2)) auto
    show "l k \<le> u k" if "from \<le> k" "k \<le> kt - 1" for k using that by (intro Suc.prems(3)) auto
  qed
  have "[from..kt] = [from..kt - 1] @ [kt]" using lt by (intro upto_rec2) simp
  moreover have "u (kt - 1) = l kt" "l kt \<le> u kt" using Suc.prems(2) [of "kt - 1"] Suc.prems(3) [of kt] lt by auto
  ultimately show ?case using IH by simp
qed

lemma share_of_le: "lower \<le> upper \<Longrightarrow> upper \<le> dt \<Longrightarrow> 0 < dt \<Longrightarrow> share_of d lower upper dt \<le> d * unat SHARE_SCALE"
proof -
  assume a: "lower \<le> upper" "upper \<le> dt" "0 < dt"
  have "d * unat SHARE_SCALE * upper div dt \<le> d * unat SHARE_SCALE * dt div dt" using a by (intro div_le_mono mult_le_mono) auto
  also have "\<dots> = d * unat SHARE_SCALE" using a(3) by simp
  finally show ?thesis using a(3) by (simp add: share_of_def mul_div_floor)
qed

lemma map_filter_shares: "sum_list (map (\<lambda>(i, c). h i (unat c)) (List.map_filter (\<lambda>(idx, d). if 0 < f d then Some (idx, to_u64 (f d)) else None) ds)) =
    sum_list (map (\<lambda>(i, d). h i (f d)) ds)"
  if "\<forall>(i, d) \<in> set ds. f d < 2 ^ 64" "\<And>i. h i 0 = (0 :: nat)" for f :: "u64 \<Rightarrow> nat"
  using that(1)
proof (induction ds)
  case (Cons x ds)
  obtain i d where x: "x = (i, d)" by fastforce
  have "f d < 2 ^ 64" using Cons.prems by (simp add: x)
  then have "unat (to_u64 (f d)) = f d" by (simp add: to_u64_def unat_of_nat)
  then show ?case using Cons that(2) by (auto simp: x map_filter_simps)
qed (simp add: map_filter_simps)

lemma window_shares_sum:
  assumes "\<forall>(i, d) \<in> set ds. unat d * unat SHARE_SCALE < 2 ^ 64" "\<And>i. h i 0 = (0 :: nat)" "p < t"
    "max (opens_ns s k) p \<le> min (closes_ns s k) t"
  shows "sum_list (map (\<lambda>(i, c). h i (unat c)) (window_shares s p t k ds)) =
    sum_list (map (\<lambda>(i, d). h i (share_of (unat d) (unat (max (opens_ns s k) p) - unat p) (unat (min (closes_ns s k) t) - unat p) (unat t - unat p))) ds)"
proof -
  have le: "p \<le> max (opens_ns s k) p" "p \<le> min (closes_ns s k) t" "p \<le> t" using assms(3,4) by (auto intro: order_trans)
  then have u: "unat (t - p) = unat t - unat p" "unat (min (closes_ns s k) t - p) = unat (min (closes_ns s k) t) - unat p"
    "unat (max (opens_ns s k) p - p) = unat (max (opens_ns s k) p) - unat p" by (simp_all only: unat_sub)
  let ?f = "\<lambda>d. share_of (unat d) (unat (max (opens_ns s k) p) - unat p) (unat (min (closes_ns s k) t) - unat p) (unat t - unat p)"
  have "\<forall>(i, d) \<in> set ds. ?f d < 2 ^ 64"
  proof clarify
    fix i d assume d: "(i, d) \<in> set ds"
    have "min (closes_ns s k) t \<le> t" by simp
    then have "?f d \<le> unat d * unat SHARE_SCALE" using assms(3,4)
      by (intro share_of_le diff_le_mono) (simp_all add: word_le_nat_alt word_less_nat_alt del: min.cobounded2)
    then show "?f d < 2 ^ 64" using assms(1) d by fastforce
  qed
  from map_filter_shares [where f = ?f and h = h and ds = ds, OF this assms(2)] show ?thesis
    by (simp only: window_shares_def Let_def u)
qed

lemma swap_sums:
  assumes "\<And>i. h i 0 = (0 :: nat)" "\<And>i a b. h i (a + b) = h i a + h i b"
  shows "sum_list (map (\<lambda>k. sum_list (map (\<lambda>(i, d). h i (F k d)) ds)) ks) =
    sum_list (map (\<lambda>(i, d). h i (sum_list (map (\<lambda>k. F k d) ks))) ds)"
proof (induction ks)
  case Nil
  show ?case by (simp add: assms(1) split_beta sum_list_0)
next
  case (Cons k ks)
  have "sum_list (map (\<lambda>(i, d). h i (F k d + sum_list (map (\<lambda>k. F k d) ks))) ds) =
      sum_list (map (\<lambda>(i, d). h i (F k d)) ds) + sum_list (map (\<lambda>(i, d). h i (sum_list (map (\<lambda>k. F k d) ks))) ds)"
    by (induction ds) (auto simp: assms(2))
  then show ?case using Cons by simp
qed

lemma window_edge:
  assumes s: "stride_ok s" and pt: "p < t" and k: "stride_window s p \<le> k" "k \<le> stride_window s t"
  shows "max (opens_ns s k) p \<le> min (closes_ns s k) t"
proof -
  have "opens_ns s k \<le> t" using opens_mono [OF k(2), of s] window_edges(1) [OF s, of t] by simp
  moreover have "opens_ns s k \<le> closes_ns s k"
  proof (cases "k = stride_window s t")
    case True
    then show ?thesis using window_edges(1,2) [OF s, of t] by simp
  next
    case False
    then show ?thesis using k window_edges(4) [OF s, of k t] opens_mono [of k "k + 1" s] by simp
  qed
  moreover have "p \<le> closes_ns s k" using window_edges(2) [OF s, of p] closes_mono [OF k(1), of s] by simp
  ultimately show ?thesis using pt by simp
qed

lemma share_sums:
  assumes s: "stride_ok s" and pt: "p < t" and w: "stride_window s p < stride_window s t" and first: "first \<le> stride_window s t"
    and small: "\<forall>(i, d) \<in> set ds. unat d * unat SHARE_SCALE < 2 ^ 64" and h: "\<And>i. h i 0 = (0 :: nat)"
      "\<And>i a b. h i (a + b) = h i a + h i b"
  shows "sum_list (map (\<lambda>k. sum_list (map (\<lambda>(i, c). h i (unat c)) (window_shares s p t k ds))) [max (stride_window s p) first..stride_window s t]) =
    sum_list (map (\<lambda>(i, d). h i (row_share s first p t (unat d))) ds)"
proof -
  let ?kt = "stride_window s t" and ?from = "max (stride_window s p) first"
  let ?l = "\<lambda>k. unat (max (opens_ns s k) p) - unat p" and ?u = "\<lambda>k. unat (min (closes_ns s k) t) - unat p"
  have ptn: "unat p < unat t" using pt by (simp add: word_less_nat_alt)
  have start: "?from \<le> ?kt" using w first by simp
  have above: "p \<le> closes_ns s k" if "stride_window s p \<le> k" for k
    using window_edges(2) [OF s, of p] closes_mono [OF that, of s] by simp
  have edge: "max (opens_ns s k) p \<le> min (closes_ns s k) t" if "?from \<le> k" "k \<le> ?kt" for k
    using that by (intro window_edge [OF s pt]) simp_all
  have step: "?u k = ?l (k + 1)" if "?from \<le> k" "k < ?kt" for k
  proof -
    have "p \<le> closes_ns s k" using that(1) by (intro above) simp
    then show ?thesis using window_edges(3,4) [OF s that(2)] by (simp add: min_absorb1 max_absorb1)
  qed
  have le: "?l k \<le> ?u k" if "?from \<le> k" "k \<le> ?kt" for k
    using edge [OF that] by (intro diff_le_mono) (simp add: word_le_nat_alt)
  have top: "?u ?kt = unat t - unat p" using window_edges(2) [OF s, of t] by (simp add: min_def)
  have each: "sum_list (map (\<lambda>k. share_of d (?l k) (?u k) (unat t - unat p)) [?from..?kt]) = row_share s first p t d" for d
  proof -
    let ?m = "\<lambda>x. mul_div_floor (d * unat SHARE_SCALE) x (unat t - unat p)"
    have "sum_list (map (\<lambda>k. ?m (?u k) - ?m (?l k)) [?from..?kt]) = ?m (?u ?kt) - ?m (?l ?from) \<and> ?m (?l ?from) \<le> ?m (?u ?kt)"
    proof (rule telescope [OF start])
      show "?m (?u k) = ?m (?l (k + 1))" if "?from \<le> k" "k < ?kt" for k using step [OF that] by simp
      show "?m (?l k) \<le> ?m (?u k)" if "?from \<le> k" "k \<le> ?kt" for k
        using le [OF that] ptn by (simp add: mul_div_floor div_le_mono)
    qed
    then have sum: "sum_list (map (\<lambda>k. share_of d (?l k) (?u k) (unat t - unat p)) [?from..?kt]) = ?m (unat t - unat p) - ?m (?l ?from)"
      by (simp add: share_of_def top)
    have whole: "?m (unat t - unat p) = d * unat SHARE_SCALE" using ptn by (simp add: mul_div_floor)
    have nw: "\<not> ?kt \<le> stride_window s p" "\<not> t \<le> p" using w pt by auto
    show ?thesis
    proof (cases "first \<le> stride_window s p")
      case True
      then have "?l ?from = 0" using window_edges(1) [OF s, of p] by (simp add: max_def)
      then show ?thesis using True sum whole ptn by (simp add: row_share_def mul_div_floor)
    next
      case False
      then have "?from = first" by simp
      moreover have "p \<le> opens_ns s first"
        using False window_edges(4) [OF s, of "stride_window s p" t] window_edges(2) [OF s, of p] w opens_mono [of "stride_window s p + 1" first s] by simp
      ultimately show ?thesis using False nw sum whole ptn by (simp add: row_share_def mul_div_floor max_def)
    qed
  qed
  have "sum_list (map (\<lambda>k. sum_list (map (\<lambda>(i, c). h i (unat c)) (window_shares s p t k ds))) [?from..?kt]) =
      sum_list (map (\<lambda>k. sum_list (map (\<lambda>(i, d). h i (share_of (unat d) (?l k) (?u k) (unat t - unat p))) ds)) [?from..?kt])"
    by (intro arg_cong [where f = sum_list] map_cong refl window_shares_sum [where h = h and ds = ds and s = s and p = p and t = t, OF small h(1) pt edge]) auto
  also have "\<dots> = sum_list (map (\<lambda>(i, d). h i (row_share s first p t (unat d))) ds)"
    unfolding swap_sums [where h = h, OF h] each ..
  finally show ?thesis .
qed

section \<open>One row\<close>

lemma delta_cells_from: "(i, d) \<in> set (delta_cells prev pr later lr) \<Longrightarrow> i \<in> fst ` set later"
proof (induction later arbitrary: prev pr lr)
  case (Cons x later)
  obtain idx c where x: "x = (idx, c)" by fastforce
  obtain prev1 pr1 where skip: "skip_prev idx prev pr = (prev1, pr1)" by fastforce
  obtain b prev2 pr2 where next': "(case prev1 of [] \<Rightarrow> (0, prev1, pr1)
      | (i, n) # rest \<Rightarrow> if i = idx then (saturating_sub n pr1, rest, n) else (0, prev1, pr1)) = (b, prev2, pr2)"
    by (rule prod_cases3)
  show ?case using Cons.prems Cons.IH [of prev2 pr2 c] by (auto simp: x skip next' Let_def split: if_splits)
qed simp

lemma delta_cells_distinct: "rising later \<Longrightarrow> distinct (map fst (delta_cells prev pr later lr))"
proof (induction later arbitrary: prev pr lr)
  case (Cons x later)
  obtain idx c where x: "x = (idx, c)" by fastforce
  obtain prev1 pr1 where skip: "skip_prev idx prev pr = (prev1, pr1)" by fastforce
  obtain b prev2 pr2 where next': "(case prev1 of [] \<Rightarrow> (0, prev1, pr1)
      | (i, n) # rest \<Rightarrow> if i = idx then (saturating_sub n pr1, rest, n) else (0, prev1, pr1)) = (b, prev2, pr2)"
    by (rule prod_cases3)
  have later: "rising later" "\<forall>k \<in> fst ` set later. idx < k" using Cons.prems by (auto simp: x rising_Cons)
  have "idx \<notin> fst ` set (delta_cells prev2 pr2 later c)" using delta_cells_from later(2) by fastforce
  then show ?case using Cons.IH [OF later(1), of prev2 pr2 c] by (simp add: x skip next' Let_def)
qed simp

lemma sum_distinct: "distinct (map fst ds) \<Longrightarrow> f 0 = (0 :: nat) \<Longrightarrow>
    sum_list (map (\<lambda>(i, d). if i = j then f (unat d) else 0) ds) = f (sum_list (map (\<lambda>(i, d). if i = j then unat d else 0) ds))"
proof (induction ds)
  case (Cons x ds)
  obtain i d where x: "x = (i, d)" by fastforce
  show ?case
  proof (cases "i = j")
    case True
    have z: "sum_list (map (\<lambda>(i, d). if i = j then g (unat d) else 0) ds) = 0" for g :: "nat \<Rightarrow> nat"
      using Cons.prems(1) True by (auto simp: x sum_list_eq_0_iff image_iff split_beta)
    show ?thesis unfolding x list.map sum_list.Cons prod.case by (simp only: True simp_thms if_True z [of f] z [of "\<lambda>n. n"] add_0_right)
  next
    case False
    then show ?thesis using Cons by (simp add: x)
  qed
qed simp

lemma delta_walk_distinct: "snapshot_ok later \<Longrightarrow> distinct (map fst (delta_walk prev later))"
  unfolding delta_walk_def by (rule delta_cells_distinct) (simp add: cells_ok)

text \<open>The changes of a row are no more than its count.\<close>

lemma delta_cells_le: "amount (delta_cells prev pr later lr) \<le> amount (singles lr later)"
proof (induction later arbitrary: prev pr lr)
  case (Cons x later)
  obtain idx c where x: "x = (idx, c)" by fastforce
  obtain prev1 pr1 where skip: "skip_prev idx prev pr = (prev1, pr1)" by fastforce
  obtain b prev2 pr2 where next': "(case prev1 of [] \<Rightarrow> (0, prev1, pr1)
      | (i, n) # rest \<Rightarrow> if i = idx then (saturating_sub n pr1, rest, n) else (0, prev1, pr1)) = (b, prev2, pr2)"
    by (rule prod_cases3)
  have "unat (saturating_sub (saturating_sub c lr) b) \<le> unat (saturating_sub c lr)" by (simp add: unat_saturating_sub)
  then show ?case using Cons.IH [of prev2 pr2 c] by (simp add: x skip next' Let_def amount_def)
qed (simp add: amount_def)

lemma delta_walk_le: "snapshot_ok later \<Longrightarrow> amount (delta_walk prev later) \<le> unat (total_count later)"
proof -
  assume ok: "snapshot_ok later"
  then have rising: "rising (cells_of later)" by (simp add: cells_ok)
  have "amount (delta_walk prev later) \<le> amount (singles 0 (cells_of later))" unfolding delta_walk_def by (rule delta_cells_le)
  also have "\<dots> = (if cells_of later = [] then 0 else unat (top (cells_of later)))"
    using singles_sum [OF rising, of 0] by (simp add: amount_def split_beta)
  also have "\<dots> \<le> unat (total_count later)"
  proof (cases "hs_count later" rule: rev_cases)
    case (snoc ns n)
    then obtain is' i where "hs_index later = is' @ [i]" "length is' = length ns"
      using ok by (cases "hs_index later" rule: rev_cases) (auto simp: snapshot_ok_def)
    then show ?thesis using snoc by (simp add: cells_of_def top_def total_count_def)
  qed (simp add: cells_of_def)
  finally show ?thesis .
qed

lemma amount_ge: "(i, d) \<in> set ds \<Longrightarrow> unat d \<le> amount ds"
  unfolding amount_def by (rule member_le_sum_list) force+

lemma row_share_le: "row_share s first p t n \<le> n * unat SHARE_SCALE"
  by (simp add: row_share_def)

lemma row_share_0 [simp]: "row_share s first p t 0 = 0"
  by (simp add: row_share_def)

lemma unat_SCALE: "unat SHARE_SCALE = 2 ^ 16"
  by (simp add: SHARE_SCALE_def)

lemma settled_only: "settled_time t sp = (v, sp1) \<Longrightarrow> \<exists>x. sp1 = sp\<lparr>sw_settled_at := x\<rparr>"
proof -
  assume a: "settled_time t sp = (v, sp1)"
  then have "sp1 = sp \<or> sp1 = sp\<lparr>sw_settled_at := sw_settled_at sp1\<rparr>"
    by (auto simp: settled_time_def Let_def split: option.splits if_splits)
  then show ?thesis by (metis splitter.surjective splitter.update_convs(11))
qed

lemma accums_ok_settled [simp]: "accums_ok (sp\<lparr>sw_settled_at := x\<rparr>) = accums_ok sp"
  by (simp add: accums_ok_def fun_eq_iff)

lemma event_ok_settled [simp]: "event_ok (sp\<lparr>sw_settled_at := x\<rparr>) = event_ok sp"
  by (simp add: event_ok_def fun_eq_iff)

lemma settled_frame [simp]:
  "splitter_ok (sp\<lparr>sw_settled_at := x\<rparr>) = splitter_ok sp" "weight (sp\<lparr>sw_settled_at := x\<rparr>) = weight sp"
  "holding (sp\<lparr>sw_settled_at := x\<rparr>) = holding sp" "closed_by (sp\<lparr>sw_settled_at := x\<rparr>) = closed_by sp"
  "same_frame sp (sp\<lparr>sw_settled_at := x\<rparr>)" "same_frame (sp\<lparr>sw_settled_at := x\<rparr>) = same_frame sp"
  by (simp_all add: splitter_ok_def weight_def holding_def closed_by_def same_frame_def fun_eq_iff)

lemma grows_settled: "settled_time t sp = (v, sp1) \<Longrightarrow> grows cap sp1 = grows cap sp \<and> splitter_ok sp1 = splitter_ok sp \<and>
    weight sp1 = weight sp \<and> same_frame sp sp1 \<and> sw_open sp1 = sw_open sp \<and> sw_closed_to sp1 = sw_closed_to sp"
  using settled_only [of t sp v sp1] by (auto simp: fun_eq_iff grows_def)

lemma amount_alt: "amount ds = sum_list (map (\<lambda>(i, c). unat c) ds)"
  by (induction ds) (auto simp: amount_def)

lemma amount_at_conv: "amount_at B j ds = (if unat j < B then sum_list (map (\<lambda>(i, d). if i = j then unat d else 0) ds) else 0)"
proof (cases "unat j < B")
  case True
  then have "(\<lambda>(i, d). if i = j \<and> unat i < B then unat d else 0) = (\<lambda>(i, d). if i = j then unat (d :: u64) else 0)" by auto
  then show ?thesis using True by (simp add: amount_at_def)
next
  case False
  then show ?thesis by (auto simp: amount_at_def sum_list_eq_0_iff)
qed

lemma row_changes:
  assumes snaps: "snapshot_ok prev" "snapshot_ok later" and small: "unat (total_count later) * unat SHARE_SCALE < 2 ^ 64"
  defines "ds \<equiv> delta_walk prev later"
  shows "distinct (map fst ds)" "amount ds * unat SHARE_SCALE \<le> unat (total_count later) * unat SHARE_SCALE"
    "\<forall>(i, d) \<in> set ds. unat d * unat SHARE_SCALE < 2 ^ 64"
    "sum_list (map (\<lambda>(i, d). if i = j then unat d else 0) ds) = held_in later j - held_in prev j"
proof -
  show "distinct (map fst ds)" unfolding ds_def by (rule delta_walk_distinct [OF snaps(2)])
  have "amount ds \<le> unat (total_count later)" unfolding ds_def by (rule delta_walk_le [OF snaps(2)])
  then show tot: "amount ds * unat SHARE_SCALE \<le> unat (total_count later) * unat SHARE_SCALE" by simp
  show "\<forall>(i, d) \<in> set ds. unat d * unat SHARE_SCALE < 2 ^ 64"
  proof clarify
    fix i d assume "(i, d) \<in> set ds"
    then have "unat d * unat SHARE_SCALE \<le> amount ds * unat SHARE_SCALE" by (intro mult_le_mono amount_ge) auto
    then show "unat d * unat SHARE_SCALE < 2 ^ 64" using tot small by linarith
  qed
  show "sum_list (map (\<lambda>(i, d). if i = j then unat d else 0) ds) = held_in later j - held_in prev j"
    unfolding ds_def by (rule delta_walk_counts [OF snaps])
qed

text \<open>A change that stays in one window, whole.\<close>

lemma whole_shares:
  assumes "\<forall>(i, d) \<in> set ds. unat d * unat SHARE_SCALE < 2 ^ 64"
  defines "sh \<equiv> map (\<lambda>(idx, d). (idx, saturating_mul d SHARE_SCALE)) ds"
  shows "amount sh = amount ds * unat SHARE_SCALE"
    "map (\<lambda>(i, c). if i = j then unat c else 0) sh = map (\<lambda>(i, d). if i = j then unat d * unat SHARE_SCALE else 0) ds"
proof -
  have scaled: "unat (saturating_mul d SHARE_SCALE) = unat d * unat SHARE_SCALE" if "(i, d) \<in> set ds" for i d
    using assms(1) that by (auto simp: saturating_mul_def unat_word_ariths)
  have m: "map (unat \<circ> snd) sh = map (\<lambda>(i, d). unat d * unat SHARE_SCALE) ds" by (auto simp: scaled sh_def)
  have "sum_list (map (\<lambda>(i, d). unat d * unat SHARE_SCALE) ds) = amount ds * unat SHARE_SCALE"
    unfolding amount_def by (induction ds) (auto simp: distrib_right)
  then show "amount sh = amount ds * unat SHARE_SCALE" unfolding amount_def m by (simp only: amount_def)
  show "map (\<lambda>(i, c). if i = j then unat c else 0) sh = map (\<lambda>(i, d). if i = j then unat d * unat SHARE_SCALE else 0) ds"
    by (auto simp: scaled sh_def)
qed

text \<open>The shares of all windows weigh no more than the row.\<close>

lemma window_amounts:
  assumes "stride_ok s" "p < t" "stride_window s p < stride_window s t" "first \<le> stride_window s t"
    "\<forall>(i, d) \<in> set ds. unat d * unat SHARE_SCALE < 2 ^ 64"
  shows "sum_list (map (\<lambda>k. amount (window_shares s p t k ds)) [max (stride_window s p) first..stride_window s t]) \<le> amount ds * unat SHARE_SCALE"
proof -
  have "sum_list (map (\<lambda>k. amount (window_shares s p t k ds)) [max (stride_window s p) first..stride_window s t]) =
      sum_list (map (\<lambda>(i, d). row_share s first p t (unat d)) ds)"
    using share_sums [OF assms, where h = "\<lambda>i n. n"] unfolding amount_alt by simp
  also have "\<dots> \<le> sum_list (map (\<lambda>(i, d). unat d * unat SHARE_SCALE) ds)" by (rule sum_list_mono) (auto simp: row_share_le)
  also have "\<dots> = amount ds * unat SHARE_SCALE" unfolding amount_def by (induction ds) (auto simp: distrib_right)
  finally show ?thesis .
qed

lemma share_ok:
  assumes ok: "splitter_ok sp" and g: "g < sw_groups sp" and s: "stride_ok (sw_stride sp)" and snaps: "snapshot_ok prev" "snapshot_ok later"
    and first: "sw_first sp \<le> stride_window (sw_stride sp) t"
    and small: "weight sp + unat (total_count later) * unat SHARE_SCALE < 2 ^ 64" and code: "share g p prev t later sp = (es, sp')"
  shows "grows t sp (\<lambda>h j. if h = g \<and> unat j < ac_buckets (sw_new sp)
        then row_share (sw_stride sp) (sw_first sp) p t (held_in later j - held_in prev j) else 0)
      (unat (total_count later) * unat SHARE_SCALE) es sp' \<and> length (sw_open sp') \<le> MAX_OPEN_WINDOWS"
proof -
  define s where "s = sw_stride sp"
  define ds where "ds = delta_walk prev later"
  define B where "B = ac_buckets (sw_new sp)"
  let ?kt = "stride_window s t" and ?kp = "stride_window s p" and ?S = "unat SHARE_SCALE" and ?share = "row_share s (sw_first sp) p t"
  have s': "stride_ok s" using \<open>stride_ok (sw_stride sp)\<close> by (simp add: s_def)
  have small': "unat (total_count later) * ?S < 2 ^ 64" using small by linarith
  note changed = row_changes [OF snaps small', folded ds_def]
  note dist = changed(1) and tot' = changed(2) and each = changed(3) and changes = changed(4)
  have at_j: "sum_list (map (\<lambda>(i, d). if i = j then ?share (unat d) else 0) ds) = ?share (held_in later j - held_in prev j)" for j
    using sum_distinct [OF dist, of ?share j] changes by simp
  have weigh: "grows t sp A w es' sp'' \<Longrightarrow> w \<le> unat (total_count later) * ?S \<Longrightarrow> grows t sp A (unat (total_count later) * ?S) es' sp''" for A w es' sp''
    by (auto simp: grows_def)
  show ?thesis
  proof (cases "?kt \<le> ?kp \<or> t \<le> p")
    case True
    let ?sh = "map (\<lambda>(idx, d). (idx, saturating_mul d SHARE_SCALE)) ds"
    have am: "amount ?sh = amount ds * ?S" by (rule whole_shares(1) [OF each])
    have sh: "map (\<lambda>(i, c). if i = j then unat c else 0) ?sh = map (\<lambda>(i, d). if i = j then ?share (unat d) else 0) ds" for j
      using True by (simp only: whole_shares(2) [OF each] row_share_def) auto
    have at_am: "amount_at B j ?sh = (if unat j < B then ?share (held_in later j - held_in prev j) else 0)" for j
      unfolding amount_at_conv sh at_j ..
    define sp1 where "sp1 = add_shares ?kt g ?sh sp"
    have run: "close_excess t sp1 = (es, sp')" using code True by (simp add: share_def Let_def sp1_def s_def ds_def)
    have b: "weight sp + amount ?sh < 2 ^ 64" using am tot' small by linarith
    have G: "grows t sp (\<lambda>h j. if h = g then amount_at B j ?sh else 0) (amount ?sh) [] sp1"
      unfolding sp1_def B_def by (rule add_shares_grows [OF ok g b])
    have "splitter_ok sp1 \<and> weight sp1 + 0 < 2 ^ 64" by (rule grows_small [OF G]) (use b in simp)
    then have E: "emits t sp1 es sp' \<and> length (sw_open sp') \<le> MAX_OPEN_WINDOWS" using close_excess_ok [OF _ _ run] by simp
    have fn: "(\<lambda>h j. if h = g then amount_at B j ?sh else 0) = (\<lambda>h j. if h = g \<and> unat j < B then ?share (held_in later j - held_in prev j) else 0)"
      by (auto simp: fun_eq_iff at_am)
    have "amount ?sh \<le> unat (total_count later) * ?S" using am tot' by simp
    from weigh [OF grows_emits [OF G conjunct1 [OF E]] this] show ?thesis
      unfolding fn B_def [symmetric] s_def [symmetric] using E by simp
  next
    case False
    let ?from = "max ?kp (sw_first sp)"
    obtain v sp1 where st: "(if 1 < ?kt - ?from then settled_time t sp else (0, sp)) = (v, sp1)" by fastforce
    have S: "grows cap sp1 = grows cap sp" "splitter_ok sp1" "weight sp1 = weight sp" "same_frame sp sp1" for cap
      using grows_settled [of t sp v sp1] st ok by (auto split: if_splits)
    have run: "share_windows g p t ds ?kt v [?from..?kt] sp1 = (es, sp')"
      using code False st by (simp add: share_def Let_def s_def ds_def)
    have fr: "sw_stride sp1 = s" "sw_groups sp1 = sw_groups sp" "sw_new sp1 = sw_new sp" using S(4) by (auto simp: same_frame_def s_def)
    have cond: "p < t" "?kp < ?kt" "sw_first sp \<le> ?kt" using False first by (auto simp: s_def)
    have sums: "sum_list (map (\<lambda>k. sum_list (map (\<lambda>(i, c). h i (unat c)) (window_shares s p t k ds))) [?from..?kt]) =
        sum_list (map (\<lambda>(i, d). h i (?share (unat d))) ds)" if "\<And>i. h i 0 = 0" "\<And>i a b. h i (a + b) = h i a + h i b" for h :: "u32 \<Rightarrow> nat \<Rightarrow> nat"
      by (rule share_sums [where h = h and ds = ds and first = "sw_first sp", OF s' cond each that])
    have am: "sum_list (map (\<lambda>k. amount (window_shares s p t k ds)) [?from..?kt]) \<le> unat (total_count later) * ?S"
      using window_amounts [OF s' cond each] tot' by (rule order_trans)
    have at_am: "sum_list (map (\<lambda>k. amount_at B j (window_shares s p t k ds)) [?from..?kt]) =
        (if unat j < B then ?share (held_in later j - held_in prev j) else 0)" for j
    proof (cases "unat j < B")
      case True
      then show ?thesis using sums [of "\<lambda>i n. if i = j then n else 0"] at_j by (simp add: amount_at_conv)
    next
      case False
      then show ?thesis by (simp add: amount_at_conv sum_list_0)
    qed
    have "weight sp1 + sum_list (map (\<lambda>k. amount (window_shares (sw_stride sp1) p t k ds)) [?from..?kt]) < 2 ^ 64"
      using am small S(3) fr(1) by simp
    note G = share_windows_ok [OF S(2) _ this run, unfolded fr S(1), folded B_def]
    have ne: "[?from..?kt] \<noteq> []" using cond by (auto simp: less_max_iff_disj)
    have fn: "(\<lambda>h j. if h = g then sum_list (map (\<lambda>k. amount_at B j (window_shares s p t k ds)) [?from..?kt]) else 0) =
        (\<lambda>h j. if h = g \<and> unat j < B then ?share (held_in later j - held_in prev j) else 0)" by (auto simp: fun_eq_iff at_am)
    show ?thesis unfolding B_def [symmetric] s_def [symmetric] using G [unfolded fn] g ne weigh [OF _ am] by blast
  qed
qed

lemma row_frame [simp]:
  "splitter_ok (sp\<lparr>sw_latest := l\<rparr>) = splitter_ok sp" "weight (sp\<lparr>sw_latest := l\<rparr>) = weight sp"
  "holding (sp\<lparr>sw_latest := l\<rparr>) = holding sp" "closed_by (sp\<lparr>sw_latest := l\<rparr>) = closed_by sp" "event_ok (sp\<lparr>sw_latest := l\<rparr>) = event_ok sp"
  "splitter_ok (sp\<lparr>sw_last_t := t\<rparr>) = splitter_ok sp" "weight (sp\<lparr>sw_last_t := t\<rparr>) = weight sp"
  "holding (sp\<lparr>sw_last_t := t\<rparr>) = holding sp" "closed_by (sp\<lparr>sw_last_t := t\<rparr>) = closed_by sp" "event_ok (sp\<lparr>sw_last_t := t\<rparr>) = event_ok sp"
  "splitter_ok (sp\<lparr>sw_newest := k\<rparr>) = splitter_ok sp" "weight (sp\<lparr>sw_newest := k\<rparr>) = weight sp"
  "holding (sp\<lparr>sw_newest := k\<rparr>) = holding sp" "closed_by (sp\<lparr>sw_newest := k\<rparr>) = closed_by sp" "event_ok (sp\<lparr>sw_newest := k\<rparr>) = event_ok sp"
  by (simp_all add: splitter_ok_def accums_ok_def weight_def holding_def closed_by_def event_ok_def fun_eq_iff)

text \<open>What a row keeps, whatever the time it ends at.\<close>

definition row_grows :: "u64 \<Rightarrow> splitter \<Rightarrow> (nat \<Rightarrow> u32 \<Rightarrow> nat) \<Rightarrow> nat \<Rightarrow> hist_event list \<Rightarrow> splitter \<Rightarrow> bool" where
  "row_grows cap sp A w es sp' \<longleftrightarrow> splitter_ok sp' \<and> weight sp' \<le> weight sp + w \<and>
     sw_stride sp' = sw_stride sp \<and> sw_first sp' = sw_first sp \<and> sw_groups sp' = sw_groups sp \<and> sw_new sp' = sw_new sp \<and>
     (\<forall>g < sw_groups sp. \<forall>j. holding sp g j + A g j = holding sp' g j + emitted es g j) \<and>
     (\<forall>e \<in> set es. event_ok sp e) \<and> stamped_between (closed_by sp cap) (closed_by sp' cap) es"

lemma grows_row: "grows cap sp A w es sp' \<Longrightarrow> row_grows cap sp A w es sp'"
  by (simp add: grows_def row_grows_def same_frame_def)

lemma closed_by_mono: "cap \<le> cap' \<Longrightarrow> closed_by sp cap \<le> closed_by sp cap'"
  by (auto simp: closed_by_def min_def)

lemma splitter_row_ok:
  assumes ok: "splitter_ok sp" and g: "g < sw_groups sp" and s: "stride_ok (sw_stride sp)"
    and snaps: "\<forall>p. prev = Some p \<longrightarrow> snapshot_ok p" "snapshot_ok later"
    and small: "weight sp + unat (total_count later) * unat SHARE_SCALE < 2 ^ 64" and few: "length (sw_open sp) \<le> MAX_OPEN_WINDOWS"
    and code: "splitter_row series g prev t later sp = (es, sp')"
  shows "row_grows t sp (\<lambda>h j. if h = g \<and> unat j < ac_buckets (sw_new sp) then
        (case (sw_latest sp ! series, prev) of (Some (p, _), Some prev) \<Rightarrow>
           if stride_window (sw_stride sp) t < sw_first sp then 0
           else row_share (sw_stride sp) (sw_first sp) p t (held_in later j - held_in prev j) | _ \<Rightarrow> 0) else 0)
      (unat (total_count later) * unat SHARE_SCALE) es sp'"
    "length (sw_open sp') \<le> MAX_OPEN_WINDOWS"
    "sw_last_t sp' = (if stride_window (sw_stride sp) t < sw_first sp then sw_last_t sp else t)"
    "stride_window (sw_stride sp) t < sw_first sp \<Longrightarrow> es = []"
    "\<exists>dt. sw_latest sp' = (sw_latest sp)[series := Some (t, dt)]"
proof -
  let ?kt = "stride_window (sw_stride sp) t" and ?W = "unat (total_count later) * unat SHARE_SCALE"
  define earlier where "earlier = map_option fst (sw_latest sp ! series)"
  define lat where "lat = (sw_latest sp)[series := Some (t, case earlier of None \<Rightarrow> 0 | Some p \<Rightarrow> saturating_sub t p)]"
  define A where "A = (\<lambda>h j. if h = g \<and> unat j < ac_buckets (sw_new sp) then
        (case (sw_latest sp ! series, prev) of (Some (p, _), Some prev) \<Rightarrow>
           if ?kt < sw_first sp then 0 else row_share (sw_stride sp) (sw_first sp) p t (held_in later j - held_in prev j) | _ \<Rightarrow> 0) else 0)"
  have "row_grows t sp A ?W es sp' \<and> length (sw_open sp') \<le> MAX_OPEN_WINDOWS \<and> sw_last_t sp' = (if ?kt < sw_first sp then sw_last_t sp else t) \<and>
      (?kt < sw_first sp \<longrightarrow> es = []) \<and> sw_latest sp' = lat"
  proof (cases "?kt < sw_first sp")
    case True
    then have "es = []" "sp' = sp\<lparr>sw_latest := lat\<rparr>"
      using code by (auto simp: splitter_row_def Let_def lat_def earlier_def)
    moreover have "A = (\<lambda>_ _. 0)" using True by (auto simp: A_def fun_eq_iff split: option.splits)
    ultimately show ?thesis using ok few True by (simp add: row_grows_def)
  next
    case False
    define sp1 where "sp1 = sp\<lparr>sw_latest := lat, sw_last_t := t\<rparr>"
    have sp1: "splitter_ok sp1" "sw_groups sp1 = sw_groups sp" "sw_stride sp1 = sw_stride sp" "sw_first sp1 = sw_first sp" "sw_new sp1 = sw_new sp"
      "weight sp1 = weight sp" "holding sp1 = holding sp" "event_ok sp1 = event_ok sp" "closed_by sp1 = closed_by sp" "length (sw_open sp1) = length (sw_open sp)"
      using ok by (simp_all add: sp1_def)
    obtain es1 sp2 where one: "(case (earlier, prev) of (Some p, Some prev) \<Rightarrow> share g p prev t later sp1 | _ \<Rightarrow> ([], sp1)) = (es1, sp2)" by fastforce
    obtain es2 sp3 where two: "(if sw_newest sp2 < ?kt then let (settled_to, sp) = settled_time t (sp2\<lparr>sw_newest := ?kt\<rparr>)
           in close_through (min settled_to (saturating_sub t 1)) t sp else ([], sp2)) = (es2, sp3)" by fastforce
    have "splitter_row series g prev t later sp =
        (let (a, x) = (case (earlier, prev) of (Some p, Some prev) \<Rightarrow> share g p prev t later sp1 | _ \<Rightarrow> ([], sp1));
             (b, y) = (if sw_newest x < ?kt then let (settled_to, sp) = settled_time t (x\<lparr>sw_newest := ?kt\<rparr>)
                 in close_through (min settled_to (saturating_sub t 1)) t sp else ([], x))
         in (a @ b, y))"
      using False unfolding splitter_row_def sp1_def lat_def earlier_def by (simp add: Let_def cong: if_cong)
    also have "\<dots> = (es1 @ es2, sp3)" by (subst one) (simp only: Let_def prod.case two [unfolded Let_def])
    finally have out: "es = es1 @ es2" "sp' = sp3" using code by auto
    have first: "grows t sp1 A ?W es1 sp2 \<and> length (sw_open sp2) \<le> MAX_OPEN_WINDOWS"
    proof (cases "earlier = None \<or> prev = None")
      case True
      then have "es1 = []" "sp2 = sp1" using one by (auto split: option.splits)
      moreover have "A = (\<lambda>_ _. 0)" using True by (auto simp: A_def earlier_def fun_eq_iff split: option.splits)
      ultimately show ?thesis using sp1 few by (simp add: grows_def)
    next
      case some: False
      then obtain p dt pr where p: "sw_latest sp ! series = Some (p, dt)" "earlier = Some p" "prev = Some pr" by (auto simp: earlier_def)
      have run: "share g p pr t later sp1 = (es1, sp2)" using one p by simp
      have A': "A = (\<lambda>h j. if h = g \<and> unat j < ac_buckets (sw_new sp1)
          then row_share (sw_stride sp1) (sw_first sp1) p t (held_in later j - held_in pr j) else 0)"
        using False p sp1 by (auto simp: A_def fun_eq_iff)
      show ?thesis unfolding A'
        by (rule share_ok [OF sp1(1) _ _ _ snaps(2) _ _ run]) (use g s snaps p small False sp1 in auto)
    qed
    have S2: "splitter_ok sp2" "weight sp2 < 2 ^ 64" using first small sp1 by (auto simp: grows_def)
    have second: "row_grows t sp2 (\<lambda>_ _. 0) 0 es2 sp3 \<and> length (sw_open sp3) \<le> MAX_OPEN_WINDOWS \<and> sw_latest sp3 = sw_latest sp2 \<and> sw_last_t sp3 = sw_last_t sp2"
    proof (cases "sw_newest sp2 < ?kt")
      case True
      obtain v sp4 where st: "settled_time t (sp2\<lparr>sw_newest := ?kt\<rparr>) = (v, sp4)" by fastforce
      obtain x where sp4: "sp4 = sp2\<lparr>sw_newest := ?kt, sw_settled_at := x\<rparr>" using settled_only [OF st] by auto
      have run: "close_through (min v (saturating_sub t 1)) t sp4 = (es2, sp3)" using two True st by simp
      have "emits t sp4 es2 sp3" by (rule close_through_ok [OF _ _ run]) (use S2 in \<open>simp_all add: sp4\<close>)
      then have "row_grows t sp4 (\<lambda>_ _. 0) 0 es2 sp3" "same_frame sp4 sp3" using emits_grows grows_row by (auto simp: emits_def)
      then have "row_grows t sp2 (\<lambda>_ _. 0) 0 es2 sp3" "sw_latest sp3 = sw_latest sp2" "sw_last_t sp3 = sw_last_t sp2"
        by (simp_all add: row_grows_def sp4 same_frame_def)
      moreover have "length (sw_open sp3) \<le> length (sw_open sp2)" using close_through_shrinks [OF run] by (simp add: sp4)
      ultimately show ?thesis using first by simp
    next
      case newest: False
      then have "es2 = []" "sp3 = sp2" using two by auto
      then show ?thesis using S2 first by (simp add: row_grows_def)
    qed
    have f: "sw_groups sp2 = sw_groups sp" "sw_latest sp2 = lat" "sw_last_t sp2 = t" "event_ok sp2 = event_ok sp"
      using first sp1 by (auto simp: grows_def same_frame_def event_ok_def fun_eq_iff) (simp_all add: sp1_def)
    have "row_grows t sp A ?W es sp'"
    proof -
      have "holding sp h j + A h j = holding sp3 h j + emitted (es1 @ es2) h j" if "h < sw_groups sp" for h j
      proof -
        have "holding sp1 h j + A h j = holding sp2 h j + emitted es1 h j" "holding sp2 h j = holding sp3 h j + emitted es2 h j"
          using first second that sp1 f by (auto simp: grows_def row_grows_def)
        then show ?thesis using sp1 by simp
      qed
      moreover have "stamped_between (closed_by sp t) (closed_by sp3 t) (es1 @ es2)"
        using first second sp1 by (auto simp: grows_def row_grows_def intro: stamped_between_append)
      ultimately show ?thesis using first second sp1 f unfolding out by (auto simp: grows_def row_grows_def same_frame_def)
    qed
    then show ?thesis using second f False out by simp
  qed
  then show "row_grows t sp (\<lambda>h j. if h = g \<and> unat j < ac_buckets (sw_new sp) then
        (case (sw_latest sp ! series, prev) of (Some (p, _), Some prev) \<Rightarrow>
           if ?kt < sw_first sp then 0 else row_share (sw_stride sp) (sw_first sp) p t (held_in later j - held_in prev j) | _ \<Rightarrow> 0) else 0) ?W es sp'"
    "length (sw_open sp') \<le> MAX_OPEN_WINDOWS" "sw_last_t sp' = (if ?kt < sw_first sp then sw_last_t sp else t)"
    "?kt < sw_first sp \<Longrightarrow> es = []" "\<exists>dt. sw_latest sp' = (sw_latest sp)[series := Some (t, dt)]"
    by (auto simp: A_def lat_def)
qed

text \<open>At the end every window closes.\<close>

lemma close_all_open: "close_through u64_max cap sp = (es, sp') \<Longrightarrow> sw_open sp' = []"
proof (induction "u64_max" cap sp arbitrary: es sp' rule: close_through.induct)
  case (1 cap sp)
  show ?case
  proof (cases "sw_open sp = []")
    case True
    then show ?thesis using 1(2) by (subst (asm) close_through.simps) auto
  next
    case False
    obtain e sp1 where one: "close_one cap sp = (e, sp1)" by fastforce
    obtain es1 sp2 where rest: "close_through u64_max cap sp1 = (es1, sp2)" by fastforce
    have "close_through u64_max cap sp = (e # es1, sp2)" using False by (subst close_through.simps) (simp add: one rest)
    then show ?thesis using 1(1) [OF _ one [symmetric] refl rest] 1(2) False by simp
  qed
qed

lemma splitter_finish_ok:
  assumes "splitter_ok sp" "weight sp < 2 ^ 64" "splitter_finish sp = (es, sp')"
  shows "(\<forall>g < sw_groups sp. \<forall>j. emitted es g j = holding sp g j) \<and> (\<forall>e \<in> set es. event_ok sp e) \<and>
    sorted (stamps es) \<and> (\<forall>x \<in> set (stamps es). closed_by sp (sw_last_t sp) \<le> x)"
proof -
  have run: "close_through u64_max (sw_last_t sp) sp = (es, sp')" using assms(3) by (simp add: splitter_finish_def)
  have "emits (sw_last_t sp) sp es sp'" by (rule close_through_ok [OF assms(1,2) run])
  moreover have "holding sp' g j = 0" for g j using close_all_open [OF run] by (simp add: holding_def)
  ultimately show ?thesis by (auto simp: emits_def stamped_between_def)
qed

end
