(* ===== verification/HistOps.thy ===== *)
theory HistOps
  imports HistShares Aggregation
begin

text \<open>
  The histogram functions of a query (\<open>metriken-query/src/promql/streaming/histogram.rs\<close>). Each walks the rows once and
  makes of them events, one per tick or window: the time and each group's running counts. What reads running counts as
  buckets, means and quantiles is the \<open>histogram\<close> crate, the parameter \<open>R\<close>; its record holds the two constants of
  \<open>f64\<close> and the printing of a float that this code uses besides.
\<close>

record ('f, 'k) hist_reader =
  qr_total :: "hist_config \<Rightarrow> (u32 \<times> u64) list \<Rightarrow> u64"       \<comment> \<open>\<open>total_count\<close>\<close>
  qr_mean :: "hist_config \<Rightarrow> (u32 \<times> u64) list \<Rightarrow> 'f option"
  qr_buckets :: "hist_config \<Rightarrow> (u32 \<times> u64) list \<Rightarrow> (u64 \<times> u64 \<times> u64) list"   \<comment> \<open>start, end, count\<close>
  qr_quantile :: "'f \<Rightarrow> 'k option"                          \<comment> \<open>\<open>Quantile::new\<close>\<close>
  qr_quantiles :: "hist_config \<Rightarrow> (u32 \<times> u64) list \<Rightarrow> 'f list \<Rightarrow> ('k \<Rightarrow> (u64 \<times> u64) option) option"
  qr_bounds :: "hist_config \<Rightarrow> u64 list option"
  qr_show :: "'f \<Rightarrow> string"
  qr_MAX :: 'f
  qr_MIN :: 'f

section \<open>From rows to events\<close>

fun run_rows :: "('r \<Rightarrow> 's \<Rightarrow> 'e list \<times> 's) \<Rightarrow> 'r list \<Rightarrow> 's \<Rightarrow> 'e list \<times> 's" where
  "run_rows step [] s = ([], s)"
| "run_rows step (r # rs) s = (let (es, s) = step r s; (es', s) = run_rows step rs s in (es @ es', s))"

record tick_state =
  tk_prev :: "hist_snapshot option list"
  tk_accums :: "accum list"
  tk_current :: "u64 option"

definition tick_flush :: "u64 \<Rightarrow> tick_state \<Rightarrow> hist_event list \<times> tick_state" where
  "tick_flush t st = ([(Some t, map (fst \<circ> flush_accum) (tk_accums st))], st\<lparr>tk_accums := map (snd \<circ> flush_accum) (tk_accums st)\<rparr>)"

definition tick_row :: "u64 \<Rightarrow> u64 \<Rightarrow> nat list \<Rightarrow> hist_row \<Rightarrow> tick_state \<Rightarrow> hist_event list \<times> tick_state" where
  "tick_row start stop series_group row st =
     (if stop < hr_t row then ([], st)
      else
        (let t = hr_t row; s = hr_series row;
             (es, st) = (case tk_current st of
               Some p \<Rightarrow> if p \<noteq> t \<and> start \<le> p then tick_flush p st else ([], st) | None \<Rightarrow> ([], st));
             g = series_group ! s;
             accums = (if start \<le> t
               then (case tk_prev st ! s of
                   Some p \<Rightarrow> (tk_accums st)[g := accumulate_delta_into p (hr_snapshot row) (tk_accums st ! g)]
                 | None \<Rightarrow> tk_accums st)
               else tk_accums st)
         in (es, \<lparr>tk_prev = (tk_prev st)[s := Some (hr_snapshot row)], tk_accums = accums, tk_current = Some t\<rparr>)))"

definition tick_events :: "'h hist_crate \<Rightarrow> hist_config \<Rightarrow> u64 \<Rightarrow> u64 \<Rightarrow> nat list \<Rightarrow> nat \<Rightarrow> hist_row list \<Rightarrow> hist_event list" where
  "tick_events hc config start stop series_group groups rows =
     (let (es, st) = run_rows (tick_row start stop series_group) rows
          \<lparr>tk_prev = replicate (length series_group) None, tk_accums = replicate groups (accum_new hc config), tk_current = None\<rparr>
      in es @ (case tk_current st of Some t \<Rightarrow> if start \<le> t then fst (tick_flush t st) else [] | None \<Rightarrow> []))"

definition window_row :: "u64 \<Rightarrow> nat list \<Rightarrow> hist_row \<Rightarrow> hist_snapshot option list \<times> splitter \<Rightarrow>
    hist_event list \<times> (hist_snapshot option list \<times> splitter)" where
  "window_row stop series_group row = (\<lambda>(prev, sp).
     (if stop < hr_t row then ([], (prev, sp))
      else let s = hr_series row; (es, sp) = splitter_row s (series_group ! s) (prev ! s) (hr_t row) (hr_snapshot row) sp
           in (es, (prev[s := Some (hr_snapshot row)], sp))))"

definition window_events :: "'h hist_crate \<Rightarrow> hist_config \<Rightarrow> stride \<Rightarrow> u64 \<Rightarrow> u64 \<Rightarrow> nat list \<Rightarrow> nat \<Rightarrow> hist_row list \<Rightarrow> hist_event list" where
  "window_events hc config s start stop series_group groups rows =
     (let (es, (prev, sp)) = run_rows (window_row stop series_group) rows
          (replicate (length series_group) None, splitter_new hc s start (length series_group) groups config)
      in es @ fst (splitter_finish sp))"

definition hist_events :: "'h hist_crate \<Rightarrow> hist_config \<Rightarrow> stride option \<Rightarrow> u64 \<Rightarrow> u64 \<Rightarrow> nat list \<Rightarrow> nat \<Rightarrow> hist_row list \<Rightarrow> hist_event list" where
  "hist_events hc config stride = (case stride of
       Some s \<Rightarrow> window_events hc config s | None \<Rightarrow> tick_events hc config)"

definition share_scale :: "stride option \<Rightarrow> u64" where
  "share_scale stride = (case stride of Some _ \<Rightarrow> SHARE_SCALE | None \<Rightarrow> 1)"

section \<open>Quantiles\<close>

type_synonym 'f quantile_row = "'f \<times> 'f \<times> 'f band option"

definition quantile_keys :: "('f, 'k) hist_reader \<Rightarrow> 'f list \<Rightarrow> (nat \<times> 'f \<times> 'k) list \<times> 'f list" where
  "quantile_keys R quantiles_in =
     (let keys = List.map_filter (\<lambda>(i, q). map_option (\<lambda>k. (i, q, k)) (qr_quantile R q)) (enumerate 0 quantiles_in)
      in (keys, map (\<lambda>(_, q, _). q) keys))"

definition apply_quantiles :: "'f f64 \<Rightarrow> ('f, 'k) hist_reader \<Rightarrow> hist_config \<Rightarrow> (u32 \<times> u64) list \<Rightarrow> 'f list \<Rightarrow> (nat \<times> 'f \<times> 'k) list \<Rightarrow>
    u64 \<Rightarrow> 'f quantile_row list list \<Rightarrow> 'f quantile_row list list" where
  "apply_quantiles F R config counts floats keys t_ns out =
     (case qr_quantiles R config counts floats of
        None \<Rightarrow> out
      | Some q_result \<Rightarrow>
          fold (\<lambda>(i, _, key) out.
            (case q_result key of
               None \<Rightarrow> out
             | Some (low, high) \<Rightarrow> out[i := out ! i @ [(seconds F t_ns, f_of_u64 F high, Some (f_of_u64 F low, f_of_u64 F high))]])) keys out)"

definition banded_sample :: "labels \<Rightarrow> ('f \<times> 'f) list \<Rightarrow> 'f band option list \<Rightarrow> bool \<Rightarrow> 'f matrix_sample" where
  "banded_sample metric values bands has =
     (let intervals = (if has \<and> list_all (\<lambda>b. b \<noteq> None) bands then Some (map the bands) else None)
      in \<lparr>ms_metric = metric, ms_values = values, ms_intervals = intervals,
          ms_bands = map_option (map Some) intervals, ms_interpolated = None\<rparr>)"

definition quantile_samples :: "('f, 'k) hist_reader \<Rightarrow> 'f list \<Rightarrow> 'f quantile_row list list \<Rightarrow> string \<Rightarrow> 'f matrix_sample list" where
  "quantile_samples R quantiles_in outputs metric_name =
     List.map_filter (\<lambda>(q, rows). if rows = [] then None
        else Some (banded_sample (fmupd ''quantile'' (qr_show R q) (fmupd ''__name__'' metric_name fmempty))
          (map (\<lambda>(t, v, _). (t, v)) rows) (map (\<lambda>(_, _, b). b) rows) True)) (zip quantiles_in outputs)"

definition quantiles_impl :: "'f f64 \<Rightarrow> 'h hist_crate \<Rightarrow> ('f, 'k) hist_reader \<Rightarrow> hist_stream \<Rightarrow> 'f list \<Rightarrow> u64 \<Rightarrow> u64 \<Rightarrow>
    stride option \<Rightarrow> string \<Rightarrow> 'f matrix_sample list" where
  "quantiles_impl F hc R stream quantiles_in start stop stride metric_name =
     (if st_series stream = [] then []
      else
        (let (keys, floats) = quantile_keys R quantiles_in
         in if keys = [] then []
            else
              (let events = hist_events hc (st_config stream) stride start stop (replicate (length (st_series stream)) 0) 1 (st_rows stream);
                   outputs = fold (\<lambda>(stamp, groups) out.
                     (case stamp of None \<Rightarrow> out
                      | Some t \<Rightarrow> if groups ! 0 = [] then out
                          else apply_quantiles F R (st_config stream) (groups ! 0) floats keys t out))
                     events (replicate (length quantiles_in) [])
               in quantile_samples R quantiles_in outputs metric_name)))"

section \<open>Reductions by group\<close>

type_synonym 'f reducer = "(u32 \<times> u64) list \<Rightarrow> 'f \<Rightarrow> ('f \<times> 'f band option) option"

definition bucket_weighted_sum :: "'f f64 \<Rightarrow> (u64 \<times> u64 \<times> u64) list \<Rightarrow> 'f band" where
  "bucket_weighted_sum F buckets =
     fold (\<lambda>(low, high, n) (a, b). (f_add F a (f_mul F (f_of_u64 F n) (f_of_u64 F low)), f_add F b (f_mul F (f_of_u64 F n) (f_of_u64 F high))))
       buckets (f_zero F, f_zero F)"

definition reduce_event :: "'f f64 \<Rightarrow> 'f reducer \<Rightarrow> 'f \<Rightarrow> hist_event \<Rightarrow> ('f \<times> 'f \<times> 'f band option) list list \<Rightarrow>
    ('f \<times> 'f \<times> 'f band option) list list" where
  "reduce_event F reducer scale = (\<lambda>(stamp, groups) outs.
     (case stamp of None \<Rightarrow> outs
      | Some t \<Rightarrow> map2 (\<lambda>counts out. if counts = [] then out
          else case reducer counts scale of None \<Rightarrow> out | Some (v, band) \<Rightarrow> out @ [(seconds F t, v, band)]) groups outs))"

text \<open>One sample per group with points; a group has intervals when every point of it has a band.\<close>

definition build_grouped_output :: "string \<Rightarrow> labels list \<Rightarrow> ('f \<times> 'f \<times> 'f band option) list list \<Rightarrow> bool \<Rightarrow> 'f matrix_sample list" where
  "build_grouped_output metric_name keys outs has_bands =
     List.map_filter (\<lambda>(key, points). if points = [] then None
        else Some (banded_sample (fmupd ''__name__'' metric_name fmempty ++\<^sub>f key)
          (map (\<lambda>(t, v, _). (t, v)) points) (map (\<lambda>(_, _, b). b) points) has_bands)) (zip keys outs)"

definition group_series :: "group_by \<Rightarrow> labels list \<Rightarrow> nat list \<times> labels list" where
  "group_series by series = assign_all (map (derive_group_labels by) series) []"

definition hist_reduce :: "'f f64 \<Rightarrow> 'h hist_crate \<Rightarrow> hist_stream \<Rightarrow> group_by \<Rightarrow> u64 \<Rightarrow> u64 \<Rightarrow> stride option \<Rightarrow> string \<Rightarrow> 'f reducer \<Rightarrow>
    'f matrix_sample list" where
  "hist_reduce F hc stream by start stop stride metric_name reducer =
     (if st_series stream = [] then []
      else
        (let (series_group, keys) = group_series by (st_series stream);
             events = hist_events hc (st_config stream) stride start stop series_group (length keys) (st_rows stream);
             outs = fold (reduce_event F reducer (f_of_u64 F (share_scale stride))) events (replicate (length keys) [])
         in build_grouped_output metric_name keys outs True))"

definition mean_reducer :: "'f f64 \<Rightarrow> ('f, 'k) hist_reader \<Rightarrow> hist_config \<Rightarrow> 'f reducer" where
  "mean_reducer F R config counts scale =
     (let c = qr_total R config counts in
      map_option (\<lambda>m. (m, if 0 < c then (let (low, high) = bucket_weighted_sum F (qr_buckets R config counts)
          in Some (f_div F low (f_of_u64 F c), f_div F high (f_of_u64 F c))) else None)) (qr_mean R config counts))"

definition count_reducer :: "'f f64 \<Rightarrow> ('f, 'k) hist_reader \<Rightarrow> hist_config \<Rightarrow> 'f reducer" where
  "count_reducer F R config counts scale =
     (let c = qr_total R config counts in if 0 < c then Some (f_div F (f_of_u64 F c) scale, None) else None)"

definition sum_reducer :: "'f f64 \<Rightarrow> ('f, 'k) hist_reader \<Rightarrow> hist_config \<Rightarrow> 'f reducer" where
  "sum_reducer F R config counts scale =
     (let c = qr_total R config counts in
      if c = 0 then None
      else (let (low, high) = bucket_weighted_sum F (qr_buckets R config counts)
            in map_option (\<lambda>m. (f_div F (f_mul F (f_of_u64 F c) m) scale, Some (f_div F low scale, f_div F high scale))) (qr_mean R config counts)))"

definition hist_mean :: "'f f64 \<Rightarrow> 'h hist_crate \<Rightarrow> ('f, 'k) hist_reader \<Rightarrow> hist_stream \<Rightarrow> group_by \<Rightarrow> u64 \<Rightarrow> u64 \<Rightarrow> stride option \<Rightarrow> string \<Rightarrow> 'f matrix_sample list" where
  "hist_mean F hc R stream by start stop stride metric_name =
     hist_reduce F hc stream by start stop stride metric_name (mean_reducer F R (st_config stream))"

definition hist_count :: "'f f64 \<Rightarrow> 'h hist_crate \<Rightarrow> ('f, 'k) hist_reader \<Rightarrow> hist_stream \<Rightarrow> group_by \<Rightarrow> u64 \<Rightarrow> u64 \<Rightarrow> stride option \<Rightarrow> string \<Rightarrow> 'f matrix_sample list" where
  "hist_count F hc R stream by start stop stride metric_name =
     hist_reduce F hc stream by start stop stride metric_name (count_reducer F R (st_config stream))"

definition hist_sum :: "'f f64 \<Rightarrow> 'h hist_crate \<Rightarrow> ('f, 'k) hist_reader \<Rightarrow> hist_stream \<Rightarrow> group_by \<Rightarrow> u64 \<Rightarrow> u64 \<Rightarrow> stride option \<Rightarrow> string \<Rightarrow> 'f matrix_sample list" where
  "hist_sum F hc R stream by start stop stride metric_name =
     hist_reduce F hc stream by start stop stride metric_name (sum_reducer F R (st_config stream))"

section \<open>The rate of observations\<close>

record 'f irate_state =
  ir_values :: "('f \<times> 'f) list list"
  ir_prev :: "hist_snapshot option list"
  ir_prev_t :: "u64 option list"
  ir_count :: "u64 list"
  ir_has_data :: "bool list"
  ir_resumes :: "bool list"
  ir_current :: "u64 option"

definition irate_point :: "'f f64 \<Rightarrow> u64 \<Rightarrow> u64 option \<Rightarrow> u64 \<Rightarrow> ('f \<times> 'f) list" where
  "irate_point F t prev_group_t n =
     (case prev_group_t of None \<Rightarrow> []
      | Some p \<Rightarrow> (let dt_ns = saturating_sub t p in
          if 0 < dt_ns then [(seconds F t, f_div F (f_max F (f_of_u64 F n) (f_zero F)) (seconds F dt_ns))] else []))"

definition irate_tick :: "'f f64 \<Rightarrow> u64 \<Rightarrow> u64 \<Rightarrow> 'f irate_state \<Rightarrow> 'f irate_state" where
  "irate_tick F start t st =
     (let gs = [0..<length (ir_values st)]
      in st\<lparr>ir_values := map (\<lambda>g. ir_values st ! g @
               (if ir_has_data st ! g \<and> start \<le> t then irate_point F t (ir_prev_t st ! g) (ir_count st ! g) else [])) gs,
            ir_prev_t := map (\<lambda>g. if ir_has_data st ! g \<or> ir_resumes st ! g then Some t else ir_prev_t st ! g) gs,
            ir_count := map (\<lambda>g. 0) gs, ir_has_data := map (\<lambda>g. False) gs, ir_resumes := map (\<lambda>g. False) gs\<rparr>)"

definition irate_row :: "'f f64 \<Rightarrow> u64 \<Rightarrow> u64 \<Rightarrow> nat list \<Rightarrow> hist_row \<Rightarrow> 'f irate_state \<Rightarrow> 'f irate_state" where
  "irate_row F start stop series_group row st =
     (if stop < hr_t row then st
      else
        (let t = hr_t row; s = hr_series row; g = series_group ! s;
             st = (case ir_current st of Some p \<Rightarrow> if p \<noteq> t then irate_tick F start p st else st | None \<Rightarrow> st);
             st = st\<lparr>ir_current := Some t\<rparr>;
             st = (if hr_resumes row then st\<lparr>ir_resumes := (ir_resumes st)[g := True]\<rparr>
               else case ir_prev st ! s of
                 None \<Rightarrow> st
               | Some prev \<Rightarrow>
                   (let delta = saturating_sub (total_count (hr_snapshot row)) (total_count prev)
                    in st\<lparr>ir_count := (ir_count st)[g := saturating_add (ir_count st ! g) delta], ir_has_data := (ir_has_data st)[g := True]\<rparr>))
         in st\<lparr>ir_prev := (ir_prev st)[s := Some (hr_snapshot row)]\<rparr>))"

definition irate_impl :: "'f f64 \<Rightarrow> hist_stream \<Rightarrow> group_by \<Rightarrow> u64 \<Rightarrow> u64 \<Rightarrow> string \<Rightarrow> 'f matrix_sample list" where
  "irate_impl F stream by start stop metric_name =
     (if st_series stream = [] then []
      else
        (let (series_group, keys) = group_series by (st_series stream);
             n = length (st_series stream); gc = length keys;
             st = fold (irate_row F start stop series_group) (st_rows stream)
               \<lparr>ir_values = replicate gc [], ir_prev = replicate n None, ir_prev_t = replicate gc None, ir_count = replicate gc 0,
                ir_has_data = replicate gc False, ir_resumes = replicate gc False, ir_current = None\<rparr>;
             values = (case ir_current st of
                 None \<Rightarrow> ir_values st
               | Some t \<Rightarrow> if start \<le> t
                   then map (\<lambda>g. ir_values st ! g @ (if ir_has_data st ! g then irate_point F t (ir_prev_t st ! g) (ir_count st ! g) else [])) [0..<gc]
                   else ir_values st)
         in build_grouped_output metric_name keys (map (map (\<lambda>(t, v). (t, v, None))) values) False))"

section \<open>The heatmap\<close>

record 'f heatmap =
  hm_timestamps :: "'f list"
  hm_bounds :: "u64 list"
  hm_data :: "(nat \<times> nat \<times> 'f) list"
  hm_min :: 'f
  hm_max :: 'f

record 'f heat_state =
  ht_timestamps :: "'f list"
  ht_data :: "(nat \<times> nat \<times> 'f) list"
  ht_min :: 'f
  ht_max :: 'f
  ht_min_bucket :: "nat option"     \<comment> \<open>\<open>None\<close> is \<open>usize::MAX\<close>\<close>
  ht_max_bucket :: nat

fun heat_cells :: "'f f64 \<Rightarrow> nat \<Rightarrow> 'f \<Rightarrow> u64 \<Rightarrow> (u32 \<times> u64) list \<Rightarrow> 'f heat_state \<Rightarrow> 'f heat_state" where
  "heat_cells F column scale below [] st = st"
| "heat_cells F column scale below ((idx, cumulative) # counts) st =
     (let individual = cumulative - below in
      heat_cells F column scale cumulative counts
        (if individual = 0 then st
         else let bucket_idx = unat idx; c = f_div F (f_of_u64 F individual) scale
              in st\<lparr>ht_data := ht_data st @ [(column, bucket_idx, c)], ht_min := f_min F (ht_min st) c,
                   ht_max := f_max F (ht_max st) c,
                   ht_min_bucket := Some (case ht_min_bucket st of None \<Rightarrow> bucket_idx | Some b \<Rightarrow> min b bucket_idx),
                   ht_max_bucket := max (ht_max_bucket st) bucket_idx\<rparr>))"

definition heat_event :: "'f f64 \<Rightarrow> 'f \<Rightarrow> hist_event \<Rightarrow> 'f heat_state \<Rightarrow> 'f heat_state" where
  "heat_event F scale = (\<lambda>(stamp, groups) st.
     (case stamp of None \<Rightarrow> st
      | Some t \<Rightarrow> if groups ! 0 = [] then st
          else heat_cells F (length (ht_timestamps st)) scale 0 (groups ! 0) (st\<lparr>ht_timestamps := ht_timestamps st @ [seconds F t]\<rparr>)))"

definition heatmap_impl :: "'f f64 \<Rightarrow> 'h hist_crate \<Rightarrow> ('f, 'k) hist_reader \<Rightarrow> hist_stream \<Rightarrow> u64 \<Rightarrow> u64 \<Rightarrow> stride option \<Rightarrow> 'f heatmap option" where
  "heatmap_impl F hc R stream start stop stride =
     (if st_series stream = [] then None
      else case qr_bounds R (st_config stream) of None \<Rightarrow> None
        | Some all_bounds \<Rightarrow>
            (let events = hist_events hc (st_config stream) stride start stop (replicate (length (st_series stream)) 0) 1 (st_rows stream);
                 st = fold (heat_event F (f_of_u64 F (share_scale stride))) events
                   \<lparr>ht_timestamps = [], ht_data = [], ht_min = qr_MAX R, ht_max = qr_MIN R, ht_min_bucket = None, ht_max_bucket = 0\<rparr>
             in if ht_timestamps st = [] then None
                else
                  (let (bounds, data) =
                     (case ht_min_bucket st of
                        Some lowest \<Rightarrow> if ht_data st \<noteq> [] \<and> ht_max_bucket st < length all_bounds
                          then (take (Suc (ht_max_bucket st) - lowest) (drop lowest all_bounds), map (\<lambda>(t, b, c). (t, b - lowest, c)) (ht_data st))
                          else (all_bounds, ht_data st)
                      | None \<Rightarrow> (all_bounds, ht_data st))
                   in Some \<lparr>hm_timestamps = ht_timestamps st, hm_bounds = bounds, hm_data = data,
                        hm_min = (if f_eq F (ht_min st) (qr_MAX R) then f_zero F else ht_min st),
                        hm_max = (if f_eq F (ht_max st) (qr_MIN R) then f_zero F else ht_max st)\<rparr>)))"

end
