(* ===== verification/HistTicks.thy ===== *)
theory HistTicks
  imports HistOps
begin

text \<open>What the ticks and the windows of a histogram call hold, against the rows it read.\<close>

section \<open>What a row adds\<close>

text \<open>The snapshot, and the row, of series \<open>s\<close> that a list of rows ends with.\<close>

definition latest_row :: "hist_row list \<Rightarrow> nat \<Rightarrow> hist_row option" where
  "latest_row rows s = (let xs = filter (\<lambda>r. hr_series r = s) rows in if xs = [] then None else Some (last xs))"

lemma latest_row_simps [simp]:
  "latest_row [] s = None"
  "latest_row (rows @ [r]) s = (if hr_series r = s then Some r else latest_row rows s)"
  by (simp_all add: latest_row_def Let_def)

text \<open>What row \<open>k\<close> of \<open>rows\<close> adds to bucket \<open>j\<close>: its count less that of its series' row before it.\<close>

definition gained :: "hist_row list \<Rightarrow> nat \<Rightarrow> u32 \<Rightarrow> nat" where
  "gained rows k j = (case latest_row (take k rows) (hr_series (rows ! k)) of
     None \<Rightarrow> 0 | Some p \<Rightarrow> held_in (hr_snapshot (rows ! k)) j - held_in (hr_snapshot p) j)"

definition gained_at :: "nat list \<Rightarrow> hist_row list \<Rightarrow> u64 \<Rightarrow> nat \<Rightarrow> u32 \<Rightarrow> nat" where
  "gained_at series_group rows t g j =
     (\<Sum>k < length rows. if hr_t (rows ! k) = t \<and> series_group ! hr_series (rows ! k) = g then gained rows k j else 0)"

definition observed_at :: "hist_row list \<Rightarrow> u64 \<Rightarrow> nat" where
  "observed_at rows t = sum_list (map (\<lambda>r. unat (total_count (hr_snapshot r))) (filter (\<lambda>r. hr_t r = t) rows))"

lemma sum_upto_snoc: "(\<Sum>k < length (xs @ [x]). f k) = (\<Sum>k < length xs. f k) + f (length xs)" for f :: "nat \<Rightarrow> nat"
  by simp

lemma gained_snoc: "k < length rows \<Longrightarrow> gained (rows @ [r]) k j = gained rows k j"
  by (simp add: gained_def nth_append split: option.split)

lemma gained_new: "gained (rows @ [r]) (length rows) j = (case latest_row rows (hr_series r) of
     None \<Rightarrow> 0 | Some p \<Rightarrow> held_in (hr_snapshot r) j - held_in (hr_snapshot p) j)"
  by (simp add: gained_def nth_append split: option.split)

lemma gained_at_snoc: "gained_at sg (rows @ [r]) t g j = gained_at sg rows t g j +
    (if hr_t r = t \<and> sg ! hr_series r = g then gained (rows @ [r]) (length rows) j else 0)"
  unfolding gained_at_def sum_upto_snoc by (intro arg_cong2 [where f = "(+)"] sum.cong) (auto simp: nth_append gained_snoc)

lemma gained_at_none: "t \<notin> hr_t ` set rows \<Longrightarrow> gained_at sg rows t g j = 0"
  unfolding gained_at_def by (rule sum.neutral) auto

lemma observed_at_snoc: "observed_at (rows @ [r]) t = observed_at rows t + (if hr_t r = t then unat (total_count (hr_snapshot r)) else 0)"
  by (simp add: observed_at_def)

lemma observed_at_none: "t \<notin> hr_t ` set rows \<Longrightarrow> observed_at rows t = 0"
  by (induction rows) (auto simp: observed_at_def)

lemma run_rows_append: "run_rows step (xs @ ys) s =
    (let (es, s1) = run_rows step xs s; (es', s2) = run_rows step ys s1 in (es @ es', s2))"
  by (induction xs arbitrary: s) (auto simp: split_beta Let_def)

lemma run_rows_filter: "(\<And>r s. r \<in> set rows \<Longrightarrow> \<not> P r \<Longrightarrow> step r s = ([], s)) \<Longrightarrow> run_rows step rows s = run_rows step (filter P rows) s"
  by (induction rows arbitrary: s) (auto simp: split_beta Let_def)

text \<open>A call's rows: in time order, of series and groups there are, with ascending snapshots.\<close>

definition rows_ok :: "nat list \<Rightarrow> nat \<Rightarrow> hist_row list \<Rightarrow> bool" where
  "rows_ok series_group groups rows \<longleftrightarrow> sorted (map hr_t rows) \<and>
     (\<forall>r \<in> set rows. hr_series r < length series_group \<and> series_group ! hr_series r < groups \<and> snapshot_ok (hr_snapshot r))"

lemma rows_ok_snoc: "rows_ok sg groups (rows @ [r]) \<Longrightarrow> rows_ok sg groups rows \<and> (\<forall>x \<in> set rows. hr_t x \<le> hr_t r) \<and>
    hr_series r < length sg \<and> sg ! hr_series r < groups \<and> snapshot_ok (hr_snapshot r)"
  by (auto simp: rows_ok_def sorted_append)

lemma rows_ok_filter: "rows_ok sg groups rows \<Longrightarrow> rows_ok sg groups (filter P rows)"
  by (auto simp: rows_ok_def intro: sorted_filter)

lemma latest_row_in: "latest_row rows s = Some p \<Longrightarrow> p \<in> set rows \<and> hr_series p = s"
proof -
  assume "latest_row rows s = Some p"
  then have "p \<in> set (filter (\<lambda>r. hr_series r = s) rows)" by (auto simp: latest_row_def Let_def split: if_splits intro: last_in_set simp del: set_filter)
  then show ?thesis by simp
qed

lemma stamps_of: "t \<in> set (stamps es) \<Longrightarrow> \<exists>cs. (Some t, cs) \<in> set es"
  by (induction es) (auto simp: stamps_def map_filter_simps split: option.splits)

lemma stamps_in: "(Some t, cs) \<in> set es \<Longrightarrow> t \<in> set (stamps es)"
  by (induction es) (auto simp: stamps_def map_filter_simps split: option.split)

section \<open>Ticks\<close>

lemma accumulate_ok:
  assumes "snapshot_ok prev" "snapshot_ok later" "accum_ok a" "accum_total a + unat (total_count later) < 2 ^ 64"
  defines "a' \<equiv> accumulate_delta_into prev later a"
  shows "accum_ok a'" "accum_total a' \<le> accum_total a + unat (total_count later)" "ac_buckets a' = ac_buckets a"
    "held_at_idx a' j = held_at_idx a j + (if unat j < ac_buckets a then held_in later j - held_in prev j else 0)"
proof -
  have le: "sum_list (map (unat \<circ> snd) (delta_walk prev later)) \<le> unat (total_count later)"
    using delta_walk_le [OF assms(2)] by (simp add: amount_def)
  then have "accum_total a + sum_list (map (unat \<circ> snd) (delta_walk prev later)) < 2 ^ 64" using assms(4) by simp
  note F = accum_fold_ok [OF assms(3) this, folded accumulate_delta_into_def, folded a'_def]
  show "accum_ok a'" "accum_total a' \<le> accum_total a + unat (total_count later)" "ac_buckets a' = ac_buckets a"
    using F le by auto
  show "held_at_idx a' j = held_at_idx a j + (if unat j < ac_buckets a then held_in later j - held_in prev j else 0)"
    using F amount_at_conv [of "ac_buckets a" j "delta_walk prev later"] delta_walk_counts [OF assms(1,2), of j]
    by (simp add: amount_at_def)
qed

definition tick_event_ok :: "nat list \<Rightarrow> nat \<Rightarrow> nat \<Rightarrow> hist_row list \<Rightarrow> hist_event \<Rightarrow> bool" where
  "tick_event_ok sg groups buckets rows e \<longleftrightarrow> (case e of (None, _) \<Rightarrow> False
     | (Some t, cums) \<Rightarrow> length cums = groups \<and> (\<forall>g < groups. rising (cums ! g) \<and>
         (\<forall>j. count_at j (cums ! g) = (if unat j < buckets then gained_at sg rows t g j else 0))))"

definition tick_inv :: "u64 \<Rightarrow> nat list \<Rightarrow> nat \<Rightarrow> nat \<Rightarrow> hist_row list \<Rightarrow> hist_event list \<Rightarrow> tick_state \<Rightarrow> bool" where
  "tick_inv start sg groups buckets rows es st \<longleftrightarrow>
     length (tk_prev st) = length sg \<and> (\<forall>s < length sg. tk_prev st ! s = map_option hr_snapshot (latest_row rows s)) \<and>
     tk_current st = (if rows = [] then None else Some (hr_t (last rows))) \<and>
     length (tk_accums st) = groups \<and> (\<forall>g < groups. accum_ok (tk_accums st ! g) \<and> ac_buckets (tk_accums st ! g) = buckets \<and>
       (case tk_current st of None \<Rightarrow> accum_total (tk_accums st ! g) = 0 \<and> (\<forall>j. held_at_idx (tk_accums st ! g) j = 0)
        | Some t \<Rightarrow> accum_total (tk_accums st ! g) \<le> (if start \<le> t then observed_at rows t else 0) \<and>
            (\<forall>j. held_at_idx (tk_accums st ! g) j = (if start \<le> t \<and> unat j < buckets then gained_at sg rows t g j else 0)))) \<and>
     sorted_wrt (<) (stamps es) \<and>
     set (stamps es) = {t \<in> hr_t ` set rows. start \<le> t \<and> tk_current st \<noteq> Some t} \<and>
     (\<forall>e \<in> set es. tick_event_ok sg groups buckets rows e)"

lemma tick_flush_ok:
  assumes "length (tk_accums st) = groups" "\<And>g. g < groups \<Longrightarrow> accum_ok (tk_accums st ! g) \<and> ac_buckets (tk_accums st ! g) = buckets \<and>
      accum_total (tk_accums st ! g) < 2 ^ 64 \<and> (\<forall>j. held_at_idx (tk_accums st ! g) j = (if unat j < buckets then gained_at sg rows t g j else 0))"
    "tick_flush t st = (es, st')"
  shows "\<exists>e. es = [e] \<and> fst e = Some t \<and> tick_event_ok sg groups buckets rows e" "tk_prev st' = tk_prev st" "tk_current st' = tk_current st"
    "length (tk_accums st') = groups"
    "\<And>g. g < groups \<Longrightarrow> accum_ok (tk_accums st' ! g) \<and> ac_buckets (tk_accums st' ! g) = buckets \<and>
      accum_total (tk_accums st' ! g) = 0 \<and> (\<forall>j. held_at_idx (tk_accums st' ! g) j = 0)"
proof -
  have es: "es = [(Some t, map (fst \<circ> flush_accum) (tk_accums st))]" and st': "st' = st\<lparr>tk_accums := map (snd \<circ> flush_accum) (tk_accums st)\<rparr>"
    using assms(3) by (auto simp: tick_flush_def)
  have F: "rising (fst (flush_accum (tk_accums st ! g))) \<and> (\<forall>j. count_at j (fst (flush_accum (tk_accums st ! g))) = held_at_idx (tk_accums st ! g) j) \<and>
      accum_ok (snd (flush_accum (tk_accums st ! g))) \<and> accum_total (snd (flush_accum (tk_accums st ! g))) = 0 \<and>
      (\<forall>j. held_at_idx (snd (flush_accum (tk_accums st ! g))) j = 0) \<and> ac_buckets (snd (flush_accum (tk_accums st ! g))) = buckets"
    if g: "g < groups" for g
  proof -
    obtain out a' where fl: "flush_accum (tk_accums st ! g) = (out, a')" by fastforce
    have "accum_ok (tk_accums st ! g)" "accum_total (tk_accums st ! g) < 2 ^ 64" using assms(2) [OF g] by auto
    note R = flush_accum_ok [OF this fl]
    show ?thesis using R assms(2) [OF g] by (simp add: fl)
  qed
  show "\<exists>e. es = [e] \<and> fst e = Some t \<and> tick_event_ok sg groups buckets rows e"
    unfolding es using F assms(1,2) by (simp add: tick_event_ok_def)
  show "tk_prev st' = tk_prev st" "tk_current st' = tk_current st" "length (tk_accums st') = groups" using assms(1) by (simp_all add: st')
  show "accum_ok (tk_accums st' ! g) \<and> ac_buckets (tk_accums st' ! g) = buckets \<and>
      accum_total (tk_accums st' ! g) = 0 \<and> (\<forall>j. held_at_idx (tk_accums st' ! g) j = 0)" if "g < groups" for g
    using F [OF that] that assms(1) by (simp add: st')
qed

lemma tick_event_ok_snoc:
  assumes "tick_event_ok sg groups buckets rows e" "fst e \<noteq> Some (hr_t r)"
  shows "tick_event_ok sg groups buckets (rows @ [r]) e"
  using assms by (auto simp: tick_event_ok_def gained_at_snoc split: option.splits prod.splits)

lemma tick_boundary:
  assumes inv: "tick_inv start sg groups buckets rows es st" and ok: "rows_ok sg groups (rows @ [r])"
    and small: "\<forall>t. observed_at rows t < 2 ^ 64"
    and code: "(case tk_current st of Some p \<Rightarrow> if p \<noteq> hr_t r \<and> start \<le> p then tick_flush p st else ([], st) | None \<Rightarrow> ([], st)) = (es1, st1)"
  shows "tk_prev st1 = tk_prev st" "length (tk_accums st1) = groups"
    "\<forall>g < groups. accum_ok (tk_accums st1 ! g) \<and> ac_buckets (tk_accums st1 ! g) = buckets \<and> accum_total (tk_accums st1 ! g) \<le> (if start \<le> hr_t r then observed_at rows (hr_t r) else 0) \<and>
       (\<forall>j. held_at_idx (tk_accums st1 ! g) j = (if start \<le> hr_t r \<and> unat j < buckets then gained_at sg rows (hr_t r) g j else 0))"
    "sorted_wrt (<) (stamps (es @ es1))" "set (stamps (es @ es1)) = {t \<in> hr_t ` set rows. start \<le> t \<and> t \<noteq> hr_t r}"
    "\<forall>e \<in> set (es @ es1). tick_event_ok sg groups buckets rows e"
proof -
  define T where "T = hr_t r"
  have now: "tk_current st = (if rows = [] then None else Some (hr_t (last rows)))" using inv by (simp add: tick_inv_def)
  have lens: "length (tk_accums st) = groups" using inv by (simp add: tick_inv_def)
  have evs: "sorted_wrt (<) (stamps es)" "set (stamps es) = {t \<in> hr_t ` set rows. start \<le> t \<and> tk_current st \<noteq> Some t}"
    "\<forall>e \<in> set es. tick_event_ok sg groups buckets rows e" using inv by (simp_all add: tick_inv_def)
  have acc: "accum_ok (tk_accums st ! g) \<and> ac_buckets (tk_accums st ! g) = buckets \<and>
      (case tk_current st of None \<Rightarrow> accum_total (tk_accums st ! g) = 0 \<and> (\<forall>j. held_at_idx (tk_accums st ! g) j = 0)
        | Some t \<Rightarrow> accum_total (tk_accums st ! g) \<le> (if start \<le> t then observed_at rows t else 0) \<and>
            (\<forall>j. held_at_idx (tk_accums st ! g) j = (if start \<le> t \<and> unat j < buckets then gained_at sg rows t g j else 0)))" if "g < groups" for g
    using inv that unfolding tick_inv_def by blast
  have upto: "hr_t x \<le> T" if "x \<in> set rows" for x using rows_ok_snoc [OF ok] that by (auto simp: T_def)
  have "tk_prev st1 = tk_prev st \<and> length (tk_accums st1) = groups \<and>
    (\<forall>g < groups. accum_ok (tk_accums st1 ! g) \<and> ac_buckets (tk_accums st1 ! g) = buckets \<and> accum_total (tk_accums st1 ! g) \<le> (if start \<le> T then observed_at rows T else 0) \<and>
       (\<forall>j. held_at_idx (tk_accums st1 ! g) j = (if start \<le> T \<and> unat j < buckets then gained_at sg rows T g j else 0))) \<and>
    sorted_wrt (<) (stamps (es @ es1)) \<and> set (stamps (es @ es1)) = {t \<in> hr_t ` set rows. start \<le> t \<and> t \<noteq> T} \<and>
    (\<forall>e \<in> set (es @ es1). tick_event_ok sg groups buckets rows e)"
  proof (cases "rows = []")
    case True
    then have c: "es1 = []" "st1 = st" "tk_current st = None" using code now by auto
    have z: "gained_at sg rows T g j = 0" "observed_at rows T = 0" for g j using True by (simp_all add: gained_at_none observed_at_none)
    show ?thesis using lens evs acc True c z [unfolded True] by simp
  next
    case False
    define p where "p = hr_t (last rows)"
    have cur: "tk_current st = Some p" using now False by (simp add: p_def)
    have p_in: "p \<in> hr_t ` set rows" using False by (simp add: p_def)
    have p_le: "p \<le> T" using upto p_in by auto
    have before_p: "x \<le> p" if "x \<in> hr_t ` set rows" for x
    proof -
      have "rows = butlast rows @ [last rows]" using False by simp
      then have "sorted (map hr_t (butlast rows @ [last rows]))" using rows_ok_snoc [OF ok] by (simp add: rows_ok_def)
      then have "\<forall>y \<in> set (butlast rows). hr_t y \<le> p" by (simp add: sorted_append p_def)
      moreover have "set rows = insert (last rows) (set (butlast rows))" using False by (metis append_butlast_last_id list.simps(15) rotate1.simps(2) set_rotate1)
      ultimately show ?thesis using that by (auto simp: p_def)
    qed
    show ?thesis
    proof (cases "p = T")
      case True
      then have c: "es1 = []" "st1 = st" using code cur by (auto simp: T_def)
      show ?thesis using lens evs acc c cur True by auto
    next
      case ne: False
      have none: "T \<notin> hr_t ` set rows" using before_p p_le ne by force
      have z: "gained_at sg rows T g j = 0" "observed_at rows T = 0" for g j using none by (simp_all add: gained_at_none observed_at_none)
      show ?thesis
      proof (cases "start \<le> p")
        case True
        then have fl: "tick_flush p st = (es1, st1)" using code cur ne by (simp add: T_def)
        have A: "accum_ok (tk_accums st ! g) \<and> ac_buckets (tk_accums st ! g) = buckets \<and> accum_total (tk_accums st ! g) < 2 ^ 64 \<and>
            (\<forall>j. held_at_idx (tk_accums st ! g) j = (if unat j < buckets then gained_at sg rows p g j else 0))" if "g < groups" for g
          using acc [OF that] small True cur by (auto intro: le_less_trans)
        note F = tick_flush_ok [OF lens A fl]
        obtain e where e: "es1 = [e]" "fst e = Some p" "tick_event_ok sg groups buckets rows e" using F(1) by blast
        obtain cs where e': "e = (Some p, cs)" using e(2) by (cases e) auto
        have st_e: "stamps (es @ es1) = stamps es @ [p]" by (simp add: e(1) e')
        have "\<forall>x \<in> set (stamps es). x < p" using evs(2) before_p cur by force
        then have sorted: "sorted_wrt (<) (stamps (es @ es1))" unfolding st_e using evs(1) by (simp add: sorted_wrt_append)
        have sets: "set (stamps (es @ es1)) = {t \<in> hr_t ` set rows. start \<le> t \<and> t \<noteq> T}"
          unfolding st_e using evs(2) cur p_in True none by auto
        show ?thesis using F(2,4,5) sorted sets evs(3) e(1,3) by (simp add: z)
      next
        case small_p: False
        then have c: "es1 = []" "st1 = st" using code cur by auto
        have early: "\<not> start \<le> x" if "x \<in> hr_t ` set rows" for x using before_p [OF that] small_p by simp
        have "set (stamps es) = {}" unfolding evs(2) using early by (auto simp del: image_iff)
        moreover have "{t \<in> hr_t ` set rows. start \<le> t \<and> t \<noteq> T} = {}" using early by (auto simp del: image_iff)
        moreover have "accum_total (tk_accums st ! g) = 0" if "g < groups" for g
          using acc [OF that] cur small_p by simp
        ultimately show ?thesis using c lens acc evs(3) cur small_p by (simp add: z)
      qed
    qed
  qed
  then show "tk_prev st1 = tk_prev st" "length (tk_accums st1) = groups"
    "\<forall>g < groups. accum_ok (tk_accums st1 ! g) \<and> ac_buckets (tk_accums st1 ! g) = buckets \<and> accum_total (tk_accums st1 ! g) \<le> (if start \<le> hr_t r then observed_at rows (hr_t r) else 0) \<and>
       (\<forall>j. held_at_idx (tk_accums st1 ! g) j = (if start \<le> hr_t r \<and> unat j < buckets then gained_at sg rows (hr_t r) g j else 0))"
    "sorted_wrt (<) (stamps (es @ es1))" "set (stamps (es @ es1)) = {t \<in> hr_t ` set rows. start \<le> t \<and> t \<noteq> hr_t r}"
    "\<forall>e \<in> set (es @ es1). tick_event_ok sg groups buckets rows e" unfolding T_def by blast+
qed

lemma tick_row_ok:
  assumes inv: "tick_inv start sg groups buckets rows es st" and ok: "rows_ok sg groups (rows @ [r])" and upto: "hr_t r \<le> stop"
    and small: "\<forall>t. observed_at (rows @ [r]) t < 2 ^ 64" and code: "tick_row start stop sg r st = (es', st')"
  shows "tick_inv start sg groups buckets (rows @ [r]) (es @ es') st'"
proof -
  define T where "T = hr_t r"
  define s where "s = hr_series r"
  define g0 where "g0 = sg ! s"
  obtain es1 st1 where first: "(case tk_current st of Some p \<Rightarrow> if p \<noteq> hr_t r \<and> start \<le> p then tick_flush p st else ([], st) | None \<Rightarrow> ([], st)) = (es1, st1)"
    by fastforce
  have small0: "\<forall>t. observed_at rows t < 2 ^ 64"
  proof
    fix t
    have "observed_at rows t \<le> observed_at (rows @ [r]) t" by (simp add: observed_at_snoc)
    then show "observed_at rows t < 2 ^ 64" using small by (blast intro: le_less_trans)
  qed
  note B = tick_boundary [OF inv ok small0 first]
  have R: "s < length sg" "g0 < groups" "snapshot_ok (hr_snapshot r)" using rows_ok_snoc [OF ok] by (auto simp: s_def g0_def)
  have prevs: "length (tk_prev st) = length sg" "\<forall>s < length sg. tk_prev st ! s = map_option hr_snapshot (latest_row rows s)"
    using inv by (simp_all add: tick_inv_def)
  define accums where "accums = (if start \<le> T
      then (case tk_prev st1 ! s of Some p \<Rightarrow> (tk_accums st1)[g0 := accumulate_delta_into p (hr_snapshot r) (tk_accums st1 ! g0)]
        | None \<Rightarrow> tk_accums st1) else tk_accums st1)"
  have code': "es' = es1" "st' = \<lparr>tk_prev = (tk_prev st1)[s := Some (hr_snapshot r)], tk_accums = accums, tk_current = Some T\<rparr>"
    using code upto unfolding tick_row_def Let_def first accums_def T_def s_def g0_def by (simp_all add: not_less [symmetric])
  have "accum_ok (accums ! g) \<and> ac_buckets (accums ! g) = buckets \<and>
      accum_total (accums ! g) \<le> (if start \<le> T then observed_at (rows @ [r]) T else 0) \<and>
      (\<forall>j. held_at_idx (accums ! g) j = (if start \<le> T \<and> unat j < buckets then gained_at sg (rows @ [r]) T g j else 0))" if g: "g < groups" for g
  proof -
    have G: "accum_ok (tk_accums st1 ! g)" "ac_buckets (tk_accums st1 ! g) = buckets"
      "accum_total (tk_accums st1 ! g) \<le> (if start \<le> T then observed_at rows T else 0)"
      "held_at_idx (tk_accums st1 ! g) j = (if start \<le> T \<and> unat j < buckets then gained_at sg rows T g j else 0)" for j
      using B(3) [rule_format, OF g] by (simp_all only: T_def)
    have more: "observed_at (rows @ [r]) T = observed_at rows T + unat (total_count (hr_snapshot r))" by (simp add: observed_at_snoc T_def)
    show ?thesis
    proof (cases "start \<le> T \<and> g = g0 \<and> latest_row rows s \<noteq> None")
      case True
      then obtain p where p: "latest_row rows s = Some p" by blast
      have "p \<in> set rows" using latest_row_in [OF p] by simp
      then have p_ok: "snapshot_ok (hr_snapshot p)" using ok by (simp add: rows_ok_def)
      have a: "accums ! g = accumulate_delta_into (hr_snapshot p) (hr_snapshot r) (tk_accums st1 ! g)"
        using True p R(1) g prevs(2) B(1,2) by (simp add: accums_def)
      have fits: "accum_total (tk_accums st1 ! g) + unat (total_count (hr_snapshot r)) < 2 ^ 64"
        using G(3) small [rule_format, of T] more True by simp
      note A = accumulate_ok [OF p_ok R(3) G(1) fits]
      have "gained (rows @ [r]) (length rows) j = held_in (hr_snapshot r) j - held_in (hr_snapshot p) j" for j
        using p by (simp add: gained_new s_def)
      then have "gained_at sg (rows @ [r]) T g j = gained_at sg rows T g j + (held_in (hr_snapshot r) j - held_in (hr_snapshot p) j)" for j
        using True by (simp add: gained_at_snoc T_def g0_def s_def)
      then show ?thesis unfolding a using A G True more by simp
    next
      case False
      have a: "accums ! g = tk_accums st1 ! g"
        using False R(1) g prevs(2) B(1) by (auto simp: accums_def split: option.split)
      have "gained_at sg (rows @ [r]) T g j = gained_at sg rows T g j" if "start \<le> T" for j
        using False that by (auto simp: gained_at_snoc gained_new g0_def s_def T_def)
      then show ?thesis using G more by (auto simp: a intro: le_trans)
    qed
  qed
  moreover have "length accums = groups" using B(2) by (simp add: accums_def split: option.split)
  moreover have "tick_event_ok sg groups buckets (rows @ [r]) e" if e: "e \<in> set (es @ es')" for e
  proof (rule tick_event_ok_snoc)
    show "tick_event_ok sg groups buckets rows e" using B(6) e code' by blast
    then obtain t cums where e': "e = (Some t, cums)" by (cases e; cases "fst e") (auto simp: tick_event_ok_def)
    then have "t \<in> set (stamps (es @ es'))" using e stamps_in by metis
    then have "t \<in> {t \<in> hr_t ` set rows. start \<le> t \<and> t \<noteq> hr_t r}" unfolding B(5) [symmetric] code' .
    then show "fst e \<noteq> Some (hr_t r)" by (simp add: e')
  qed
  moreover have "\<forall>s' < length sg. (tk_prev st1)[s := Some (hr_snapshot r)] ! s' = map_option hr_snapshot (latest_row (rows @ [r]) s')"
    using prevs B(1) by (auto simp: nth_list_update s_def)
  ultimately show ?thesis using B(4,5) prevs B(1) unfolding tick_inv_def code' by (auto simp: T_def)
qed

lemma tick_rows_ok:
  assumes "rows_ok sg groups rows" "\<forall>r \<in> set rows. hr_t r \<le> stop" "\<forall>t. observed_at rows t < 2 ^ 64"
    "tick_inv start sg groups buckets [] [] st" "run_rows (tick_row start stop sg) rows st = (es, st')"
  shows "tick_inv start sg groups buckets rows es st'"
  using assms
proof (induction rows arbitrary: es st' rule: rev_induct)
  case (snoc r rows)
  obtain es1 st1 where one: "run_rows (tick_row start stop sg) rows st = (es1, st1)" by fastforce
  obtain es2 st2 where two: "tick_row start stop sg r st1 = (es2, st2)" by fastforce
  have out: "es = es1 @ es2" "st' = st2" using snoc.prems(5) by (auto simp: run_rows_append one two)
  have "observed_at rows t < 2 ^ 64" for t using snoc.prems(3) [rule_format, of t] by (simp add: observed_at_snoc)
  then have "tick_inv start sg groups buckets rows es1 st1"
    using snoc.IH [OF _ _ _ snoc.prems(4) one] snoc.prems rows_ok_snoc by auto
  from tick_row_ok [OF this snoc.prems(1) _ snoc.prems(3) two] show ?case using snoc.prems(2) out by simp
qed simp

lemma tick_events_ok:
  fixes start stop :: u64 and hc :: "'h hist_crate" and config :: hist_config
  assumes ok: "rows_ok sg groups rows" and small: "\<forall>t. observed_at rows t < 2 ^ 64"
  defines "read \<equiv> filter (\<lambda>r. hr_t r \<le> stop) rows" and "es \<equiv> tick_events hc config start stop sg groups rows"
  shows "sorted_wrt (<) (stamps es) \<and> set (stamps es) = {t \<in> hr_t ` set read. start \<le> t} \<and>
    (\<forall>e \<in> set es. tick_event_ok sg groups (hc_total_buckets hc config) read e)"
proof -
  let ?st0 = "\<lparr>tk_prev = replicate (length sg) None, tk_accums = replicate groups (accum_new hc config), tk_current = None\<rparr>"
    and ?B = "hc_total_buckets hc config"
  have skip: "run_rows (tick_row start stop sg) rows s = run_rows (tick_row start stop sg) read s" for s
    unfolding read_def by (rule run_rows_filter) (simp add: tick_row_def not_le)
  obtain es1 st where run: "run_rows (tick_row start stop sg) read ?st0 = (es1, st)" by fastforce
  have inv0: "tick_inv start sg groups ?B [] [] ?st0"
    by (simp add: tick_inv_def) (simp add: accum_new_def)
  have "observed_at read t \<le> observed_at rows t" for t
    unfolding read_def by (induction rows) (auto simp: observed_at_def)
  then have small': "\<forall>t. observed_at read t < 2 ^ 64" using small by (blast intro: le_less_trans)
  have ok': "rows_ok sg groups read" using rows_ok_filter [OF ok] by (simp add: read_def)
  have "tick_inv start sg groups ?B read es1 st"
    by (rule tick_rows_ok [OF ok' _ small' inv0 run]) (simp add: read_def)
  note I = this [unfolded tick_inv_def]
  have es: "es = es1 @ (case tk_current st of Some t \<Rightarrow> if start \<le> t then fst (tick_flush t st) else [] | None \<Rightarrow> [])"
    by (simp add: es_def tick_events_def skip run)
  show ?thesis
  proof (cases "\<exists>t. tk_current st = Some t \<and> start \<le> t")
    case False
    have "set (stamps es1) = {t \<in> hr_t ` set read. start \<le> t}" using I False by auto
    moreover have "es = es1" using False by (auto simp: es split: option.split)
    ultimately show ?thesis using I by simp
  next
    case True
    then obtain t where t: "tk_current st = Some t" "start \<le> t" by blast
    obtain es2 st2 where fl: "tick_flush t st = (es2, st2)" by fastforce
    have ne: "read \<noteq> []" and last_t: "t = hr_t (last read)" using I t by (auto split: if_splits)
    have A: "accum_ok (tk_accums st ! g) \<and> ac_buckets (tk_accums st ! g) = ?B \<and> accum_total (tk_accums st ! g) < 2 ^ 64 \<and>
        (\<forall>j. held_at_idx (tk_accums st ! g) j = (if unat j < ?B then gained_at sg read t g j else 0))" if g: "g < groups" for g
    proof -
      have "accum_ok (tk_accums st ! g) \<and> ac_buckets (tk_accums st ! g) = ?B \<and> accum_total (tk_accums st ! g) \<le> observed_at read t \<and>
        (\<forall>j. held_at_idx (tk_accums st ! g) j = (if unat j < ?B then gained_at sg read t g j else 0))" using I g t by simp
      then show ?thesis using small' [rule_format, of t] by simp
    qed
    have "length (tk_accums st) = groups" using I by blast
    note F = tick_flush_ok(1) [OF this A fl]
    then obtain e where e: "es2 = [e]" "fst e = Some t" "tick_event_ok sg groups ?B read e" by blast
    obtain cs where e': "e = (Some t, cs)" using e(2) by (cases e) auto
    have out: "es = es1 @ [e]" using e(1) by (simp add: es t fl)
    have t_in: "t \<in> hr_t ` set read" using ne by (simp add: last_t)
    have upto: "x \<le> t" if "x \<in> hr_t ` set read" for x
    proof -
      have "x \<in> set (map hr_t read)" using that by simp
      then obtain k where "k < length read" "x = map hr_t read ! k" unfolding in_set_conv_nth by auto
      moreover have "sorted (map hr_t read)" using ok' by (simp add: rows_ok_def)
      moreover have "t = map hr_t read ! (length read - 1)" using ne by (simp add: last_t last_conv_nth)
      ultimately show ?thesis using ne by (auto simp: sorted_iff_nth_mono)
    qed
    have st1: "set (stamps es1) = {x \<in> hr_t ` set read. start \<le> x \<and> x \<noteq> t}" using I t by auto
    then have "\<forall>x \<in> set (stamps es1). x < t" using upto by force
    moreover have "sorted_wrt (<) (stamps es1)" using I by blast
    ultimately have "sorted_wrt (<) (stamps es)" by (simp add: out e' sorted_wrt_append)
    moreover have "set (stamps es) = {x \<in> hr_t ` set read. start \<le> x}" using st1 t_in t by (auto simp: out e')
    moreover have "\<forall>e \<in> set es1. tick_event_ok sg groups ?B read e" using I by blast
    ultimately show ?thesis using e(3) by (simp add: out)
  qed
qed

section \<open>Windows\<close>

text \<open>What row \<open>k\<close> gives the windows from \<open>first\<close> on, in shares of an observation.\<close>

definition shared :: "stride \<Rightarrow> int \<Rightarrow> hist_row list \<Rightarrow> nat \<Rightarrow> u32 \<Rightarrow> nat" where
  "shared s first rows k j = (case latest_row (take k rows) (hr_series (rows ! k)) of
     None \<Rightarrow> 0
   | Some p \<Rightarrow> if stride_window s (hr_t (rows ! k)) < first then 0
       else row_share s first (hr_t p) (hr_t (rows ! k)) (held_in (hr_snapshot (rows ! k)) j - held_in (hr_snapshot p) j))"

definition shared_to :: "stride \<Rightarrow> int \<Rightarrow> nat list \<Rightarrow> hist_row list \<Rightarrow> nat \<Rightarrow> u32 \<Rightarrow> nat" where
  "shared_to s first series_group rows g j =
     (\<Sum>k < length rows. if series_group ! hr_series (rows ! k) = g then shared s first rows k j else 0)"

definition observations_in :: "hist_row list \<Rightarrow> nat" where
  "observations_in rows = sum_list (map (\<lambda>r. unat (total_count (hr_snapshot r))) rows)"

lemma shared_snoc: "k < length rows \<Longrightarrow> shared s first (rows @ [r]) k j = shared s first rows k j"
  by (simp add: shared_def nth_append split: option.split)

lemma shared_new: "shared s first (rows @ [r]) (length rows) j = (case latest_row rows (hr_series r) of
     None \<Rightarrow> 0 | Some p \<Rightarrow> if stride_window s (hr_t r) < first then 0
       else row_share s first (hr_t p) (hr_t r) (held_in (hr_snapshot r) j - held_in (hr_snapshot p) j))"
  by (simp add: shared_def nth_append split: option.split)

lemma shared_to_snoc: "shared_to s first sg (rows @ [r]) g j = shared_to s first sg rows g j +
    (if sg ! hr_series r = g then shared s first (rows @ [r]) (length rows) j else 0)"
  unfolding shared_to_def sum_upto_snoc by (intro arg_cong2 [where f = "(+)"] sum.cong) (auto simp: nth_append shared_snoc)

lemma observed_snoc: "observations_in (rows @ [r]) = observations_in rows + unat (total_count (hr_snapshot r))"
  by (simp add: observations_in_def)

definition window_inv :: "stride \<Rightarrow> int \<Rightarrow> accum \<Rightarrow> nat list \<Rightarrow> nat \<Rightarrow> hist_row list \<Rightarrow> hist_event list \<Rightarrow>
    hist_snapshot option list \<Rightarrow> splitter \<Rightarrow> bool" where
  "window_inv s first new sg groups rows es prev sp \<longleftrightarrow>
     length prev = length sg \<and> length (sw_latest sp) = length sg \<and>
     (\<forall>i < length sg. prev ! i = map_option hr_snapshot (latest_row rows i) \<and>
        map_option fst (sw_latest sp ! i) = map_option hr_t (latest_row rows i)) \<and>
     splitter_ok sp \<and> sw_stride sp = s \<and> sw_first sp = first \<and> sw_groups sp = groups \<and> sw_new sp = new \<and>
     weight sp \<le> observations_in rows * unat SHARE_SCALE \<and> length (sw_open sp) \<le> MAX_OPEN_WINDOWS \<and>
     (\<forall>g < groups. \<forall>j. holding sp g j + emitted es g j = (if unat j < ac_buckets new then shared_to s first sg rows g j else 0)) \<and>
     (\<forall>e \<in> set es. event_ok sp e) \<and> stamped_between 0 (closed_by sp (sw_last_t sp)) es \<and>
     (if rows = [] then sw_last_t sp = 0 else sw_last_t sp \<le> hr_t (last rows))"

lemma event_ok_frame: "sw_groups sp' = sw_groups sp \<Longrightarrow> sw_stride sp' = sw_stride sp \<Longrightarrow> event_ok sp' = event_ok sp"
  by (simp add: event_ok_def fun_eq_iff)

lemma closed_by_cap: "closed_by sp t \<le> closed_by sp' t \<Longrightarrow> l \<le> t \<Longrightarrow> closed_by sp l \<le> closed_by sp' l"
  by (auto simp: closed_by_def min_def split: if_splits)

lemma stamped_weaken: "stamped_between a b es \<Longrightarrow> b \<le> c \<Longrightarrow> stamped_between a c es"
  by (auto simp: stamped_between_def)

lemma window_row_ok:
  assumes inv: "window_inv s first new sg groups rows es prev sp" and ok: "rows_ok sg groups (rows @ [r])" and s: "stride_ok s"
    and upto: "hr_t r \<le> stop" and small: "observations_in (rows @ [r]) * unat SHARE_SCALE < 2 ^ 64"
    and code: "window_row stop sg r (prev, sp) = (es', (prev', sp'))"
  shows "window_inv s first new sg groups (rows @ [r]) (es @ es') prev' sp'"
proof -
  define i where "i = hr_series r"
  define t where "t = hr_t r"
  note I = inv [unfolded window_inv_def]
  have R: "i < length sg" "sg ! i < groups" "snapshot_ok (hr_snapshot r)" "\<forall>x \<in> set rows. hr_t x \<le> t"
    using rows_ok_snoc [OF ok] by (auto simp: i_def t_def)
  have row: "splitter_row i (sg ! i) (prev ! i) t (hr_snapshot r) sp = (es', sp')" and prev': "prev' = prev[i := Some (hr_snapshot r)]"
    using code upto by (auto simp: window_row_def Let_def i_def t_def split: prod.splits if_splits)
  have st: "sw_stride sp = s" "sw_first sp = first" "sw_groups sp = groups" "sw_new sp = new" "splitter_ok sp"
    "weight sp \<le> observations_in rows * unat SHARE_SCALE" "length (sw_open sp) \<le> MAX_OPEN_WINDOWS" using I by blast+
  have lat: "prev ! i = map_option hr_snapshot (latest_row rows i)" "map_option fst (sw_latest sp ! i) = map_option hr_t (latest_row rows i)"
    using I R(1) by blast+
  have snaps: "\<forall>p. prev ! i = Some p \<longrightarrow> snapshot_ok p"
    using ok latest_row_in unfolding lat rows_ok_def by fastforce
  have fits: "weight sp + unat (total_count (hr_snapshot r)) * unat SHARE_SCALE < 2 ^ 64"
    using st(6) small by (simp add: observed_snoc algebra_simps)
  note W = splitter_row_ok [OF st(5) _ _ snaps R(3) fits st(7) row, unfolded st, OF R(2) s]
  have gain: "(case (sw_latest sp ! i, prev ! i) of (Some (p, _), Some prev) \<Rightarrow> if stride_window s t < first then 0
      else row_share s first p t (held_in (hr_snapshot r) j - held_in prev j) | _ \<Rightarrow> 0) = shared s first (rows @ [r]) (length rows) j" for j
    using lat by (auto simp: shared_new i_def t_def split: option.splits)
  note G = W(1) [unfolded row_grows_def st, unfolded gain]
  have last_t: "sw_last_t sp \<le> t"
  proof (cases "rows = []")
    case False
    then have "hr_t (last rows) \<le> t" using R(4) by simp
    then show ?thesis using I False by auto
  qed (use I in simp)
  have stamped: "stamped_between 0 (closed_by sp' (sw_last_t sp')) (es @ es')"
  proof -
    have old: "stamped_between 0 (closed_by sp (sw_last_t sp)) es" using I by blast
    have new_s: "stamped_between (closed_by sp t) (closed_by sp' t) es'" using G by blast
    show ?thesis
    proof (cases "stride_window s t < first")
      case True
      then have e: "es' = []" "sw_last_t sp' = sw_last_t sp" using W(3,4) by simp_all
      have "closed_by sp t \<le> closed_by sp' t" using new_s by (simp add: e)
      then have "closed_by sp (sw_last_t sp) \<le> closed_by sp' (sw_last_t sp)" using last_t by (rule closed_by_cap)
      then show ?thesis using stamped_weaken [OF old] by (simp add: e)
    next
      case False
      then have e: "sw_last_t sp' = t" using W(3) by simp
      have "stamped_between 0 (closed_by sp t) es" by (rule stamped_weaken [OF old closed_by_mono [OF last_t]])
      then show ?thesis using stamped_between_append new_s by (simp add: e)
    qed
  qed
  have frame: "sw_stride sp' = s" "sw_first sp' = first" "sw_groups sp' = groups" "sw_new sp' = new" "splitter_ok sp'" using G by blast+
  have w: "weight sp' \<le> observations_in (rows @ [r]) * unat SHARE_SCALE" using G st(6) by (simp add: observed_snoc algebra_simps)
  have evs: "\<forall>e \<in> set (es @ es'). event_ok sp' e"
    using I G by (simp add: event_ok_frame [of sp' sp] frame st) blast
  have held: "holding sp' g j + emitted (es @ es') g j = (if unat j < ac_buckets new then shared_to s first sg (rows @ [r]) g j else 0)"
    if g: "g < groups" for g j
  proof -
    have "holding sp g j + emitted es g j = (if unat j < ac_buckets new then shared_to s first sg rows g j else 0)" using I g by blast
    moreover have "holding sp g j + (if g = sg ! i \<and> unat j < ac_buckets new then shared s first (rows @ [r]) (length rows) j else 0) =
        holding sp' g j + emitted es' g j" using G g by blast
    ultimately show ?thesis by (auto simp: shared_to_snoc i_def split: if_splits)
  qed
  obtain dt where l: "sw_latest sp' = (sw_latest sp)[i := Some (t, dt)]" using W(5) by blast
  have heads: "\<forall>k < length sg. prev' ! k = map_option hr_snapshot (latest_row (rows @ [r]) k) \<and>
      map_option fst (sw_latest sp' ! k) = map_option hr_t (latest_row (rows @ [r]) k)"
    using I R(1) unfolding prev' l by (auto simp: nth_list_update i_def t_def)
  have lens: "length prev' = length sg" "length (sw_latest sp') = length sg" using I by (simp_all add: prev' l)
  have lt: "sw_last_t sp' \<le> hr_t (last (rows @ [r]))" using W(3) last_t by (simp add: t_def)
  show ?thesis unfolding window_inv_def using frame w evs held heads lens lt stamped W(2) by simp
qed

lemma window_rows_ok:
  assumes "rows_ok sg groups rows" "\<forall>r \<in> set rows. hr_t r \<le> stop" "stride_ok s" "observations_in rows * unat SHARE_SCALE < 2 ^ 64"
    "window_inv s first new sg groups [] [] prev sp" "run_rows (window_row stop sg) rows (prev, sp) = (es, (prev', sp'))"
  shows "window_inv s first new sg groups rows es prev' sp'"
  using assms
proof (induction rows arbitrary: es prev' sp' rule: rev_induct)
  case (snoc r rows)
  obtain es1 prev1 sp1 where one: "run_rows (window_row stop sg) rows (prev, sp) = (es1, (prev1, sp1))" by (metis prod.exhaust)
  obtain es2 prev2 sp2 where two: "window_row stop sg r (prev1, sp1) = (es2, (prev2, sp2))" by (metis prod.exhaust)
  have out: "es = es1 @ es2" "prev' = prev2" "sp' = sp2" using snoc.prems(6) by (auto simp: run_rows_append one two)
  have "observations_in rows * unat SHARE_SCALE < 2 ^ 64" using snoc.prems(4) by (simp add: observed_snoc algebra_simps)
  then have "window_inv s first new sg groups rows es1 prev1 sp1"
    using snoc.IH [OF _ _ snoc.prems(3) _ snoc.prems(5) one] snoc.prems(1,2) rows_ok_snoc by auto
  from window_row_ok [OF this snoc.prems(1,3) _ snoc.prems(4) two] show ?case using snoc.prems(2) out by simp
qed simp

lemma splitter_new_inv: "window_inv s (stride_window s start) (accum_new hc config) sg groups [] []
    (replicate (length sg) None) (splitter_new hc s start (length sg) groups config)"
  by (simp add: window_inv_def splitter_new_def Let_def splitter_ok_def weight_def holding_def shared_to_def observations_in_def closed_by_def)

lemma window_events_ok:
  fixes start stop :: u64 and hc :: "'h hist_crate" and config :: hist_config
  assumes ok: "rows_ok sg groups rows" and s: "stride_ok s"
  defines "read \<equiv> filter (\<lambda>r. hr_t r \<le> stop) rows" and "es \<equiv> window_events hc config s start stop sg groups rows"
  assumes small: "observations_in read * unat SHARE_SCALE < 2 ^ 64"
  shows "sorted (stamps es) \<and> (\<forall>x \<in> set (stamps es). sr_emit_from s \<le> x \<and> x \<le> stop) \<and>
    (\<forall>e \<in> set es. length (snd e) = groups \<and> (\<forall>cs \<in> set (snd e). rising cs)) \<and>
    (\<forall>g < groups. \<forall>j. emitted es g j =
       (if unat j < hc_total_buckets hc config then shared_to s (stride_window s start) sg read g j else 0))"
proof -
  let ?new = "accum_new hc config" and ?first = "stride_window s start" and ?sp0 = "splitter_new hc s start (length sg) groups config"
  have skip: "run_rows (window_row stop sg) rows st = run_rows (window_row stop sg) read st" for st
    unfolding read_def by (rule run_rows_filter) (auto simp: window_row_def not_le)
  obtain es1 prev sp where run: "run_rows (window_row stop sg) read (replicate (length sg) None, ?sp0) = (es1, (prev, sp))"
    by (metis prod.exhaust)
  have ok': "rows_ok sg groups read" unfolding read_def by (rule rows_ok_filter [OF ok])
  have upto: "\<forall>r \<in> set read. hr_t r \<le> stop" by (simp add: read_def)
  have "window_inv s ?first ?new sg groups read es1 prev sp"
    by (rule window_rows_ok [OF ok' upto s small splitter_new_inv run])
  note I = this [unfolded window_inv_def]
  obtain es2 sp' where fin: "splitter_finish sp = (es2, sp')" by fastforce
  have es: "es = es1 @ es2" by (simp add: es_def window_events_def skip run fin)
  have sp: "splitter_ok sp" "sw_groups sp = groups" "weight sp \<le> observations_in read * unat SHARE_SCALE" using I by blast+
  have light: "weight sp < 2 ^ 64" using sp(3) small by (rule le_less_trans)
  have run2: "close_through u64_max (sw_last_t sp) sp = (es2, sp')" using fin by (simp add: splitter_finish_def)
  note E = close_through_ok [OF sp(1) light run2, unfolded emits_def]
  note F = splitter_finish_ok [OF sp(1) light fin]
  have "stamped_between 0 (closed_by sp' (sw_last_t sp)) es" unfolding es using I E stamped_between_append by blast
  moreover have "closed_by sp' (sw_last_t sp) \<le> stop"
  proof -
    have "sw_last_t sp \<le> stop"
    proof (cases "read = []")
      case False
      then have "hr_t (last read) \<le> stop" using last_in_set [OF False] unfolding read_def by simp
      moreover have "sw_last_t sp \<le> hr_t (last read)" using I False by presburger
      ultimately show ?thesis by (rule order_trans [rotated])
    next
      case True
      then have "sw_last_t sp = 0" using I by presburger
      then show ?thesis by simp
    qed
    then show ?thesis by (simp add: closed_by_def min_le_iff_disj)
  qed
  moreover have events: "\<forall>e \<in> set es. event_ok sp e" using I F by (auto simp: es)
  moreover have "\<forall>x \<in> set (stamps es). sr_emit_from s \<le> x"
  proof
    fix x assume "x \<in> set (stamps es)"
    then obtain cs where "(Some x, cs) \<in> set es" using stamps_of by blast
    with events I show "sr_emit_from s \<le> x" by (fastforce simp: event_ok_def)
  qed
  ultimately have "sorted (stamps es) \<and> (\<forall>x \<in> set (stamps es). sr_emit_from s \<le> x \<and> x \<le> stop)" by (auto simp: stamped_between_def)
  moreover have "\<forall>e \<in> set es. length (snd e) = groups \<and> (\<forall>cs \<in> set (snd e). rising cs)"
    using events by (auto simp: event_ok_def sp(2))
  moreover have "emitted es g j = (if unat j < hc_total_buckets hc config then shared_to s ?first sg read g j else 0)"
    if g: "g < groups" for g j
  proof -
    have "holding sp g j + emitted es1 g j = (if unat j < ac_buckets ?new then shared_to s ?first sg read g j else 0)" using I g by blast
    moreover have "emitted es2 g j = holding sp g j" using F g sp(2) by blast
    moreover have "ac_buckets ?new = hc_total_buckets hc config" by (simp add: accum_new_def)
    ultimately show ?thesis by (simp add: es)
  qed
  ultimately show ?thesis by blast
qed

section \<open>Counts\<close>

lemma count_at_sum: "rising cs \<Longrightarrow> (\<Sum>j \<in> UNIV. count_at j cs) = unat (top cs)"
proof -
  assume rising: "rising cs"
  have "(\<Sum>j \<in> UNIV. sum_list (map (\<lambda>(i, n). if i = j then unat n else 0) xs)) = sum_list (map (unat \<circ> snd) xs)"
    for xs :: "(u32 \<times> u64) list"
    by (induction xs) (auto simp: sum.distrib)
  from this [of "singles 0 cs"] show ?thesis using singles_sum [OF rising, of 0] by (simp add: count_at_def top_def)
qed

definition tick_points :: "'f f64 \<Rightarrow> 'f reducer \<Rightarrow> 'f \<Rightarrow> nat \<Rightarrow> hist_event list \<Rightarrow> ('f \<times> 'f \<times> 'f band option) list" where
  "tick_points F reducer scale g es = concat (map (\<lambda>(stamp, groups). case stamp of None \<Rightarrow> []
     | Some t \<Rightarrow> if groups ! g = [] then [] else case reducer (groups ! g) scale of None \<Rightarrow> [] | Some (v, band) \<Rightarrow> [(seconds F t, v, band)]) es)"

lemma reduce_events: "\<forall>e \<in> set es. length (snd e) = length outs \<Longrightarrow>
    fold (reduce_event F reducer scale) es outs = map (\<lambda>g. outs ! g @ tick_points F reducer scale g es) [0..<length outs]"
proof (induction es arbitrary: outs)
  case Nil
  then show ?case by (simp add: tick_points_def map_nth)
next
  case (Cons e es)
  obtain stamp groups where e: "e = (stamp, groups)" by fastforce
  let ?outs = "reduce_event F reducer scale e outs"
  have len: "length ?outs = length outs" using Cons.prems by (simp add: e reduce_event_def split: option.split)
  have step: "?outs ! g = outs ! g @ tick_points F reducer scale g [e]" if "g < length outs" for g
    using that Cons.prems by (auto simp: e reduce_event_def tick_points_def split: option.split)
  have "tick_points F reducer scale g (e # es) = tick_points F reducer scale g [e] @ tick_points F reducer scale g es" for g
    by (simp add: tick_points_def)
  then show ?case using Cons.IH [of ?outs] Cons.prems by (simp add: len step)
qed

lemma tick_points_count:
  assumes "\<forall>e \<in> set es. tick_event_ok sg groups buckets rows e" "g < groups"
    and total: "\<forall>cs. rising cs \<longrightarrow> qr_total R config cs = top cs"
  defines "n \<equiv> \<lambda>t. \<Sum>j | unat j < buckets. gained_at sg rows t g j"
  shows "tick_points F (count_reducer F R config) scale g es =
    map (\<lambda>t. (seconds F t, f_div F (f_of_u64 F (of_nat (n t))) scale, None)) (filter (\<lambda>t. 0 < n t) (stamps es))"
  using assms(1)
proof (induction es)
  case Nil
  then show ?case by (simp add: tick_points_def)
next
  case (Cons e es)
  obtain t cums where e: "e = (Some t, cums)" using Cons.prems by (cases e; cases "fst e") (auto simp: tick_event_ok_def)
  have ok: "rising (cums ! g)" "\<forall>j. count_at j (cums ! g) = (if unat j < buckets then gained_at sg rows t g j else 0)"
    using Cons.prems assms(2) by (auto simp: e tick_event_ok_def)
  have "unat (top (cums ! g)) = (\<Sum>j \<in> UNIV. if unat j < buckets then gained_at sg rows t g j else 0)"
    using count_at_sum [OF ok(1)] ok(2) by simp
  also have "\<dots> = n t" unfolding n_def by (simp add: sum.If_cases)
  finally have top: "unat (top (cums ! g)) = n t" .
  have word: "top (cums ! g) = of_nat (n t)" unfolding top [symmetric] by simp
  have pos: "0 < top (cums ! g) \<longleftrightarrow> 0 < n t" unfolding top [symmetric] by (simp add: word_less_nat_alt)
  have empty: "0 < n t \<Longrightarrow> cums ! g \<noteq> []" using pos by (auto simp: top_def)
  have R: "qr_total R config (cums ! g) = top (cums ! g)" using total ok(1) by blast
  have "tick_points F (count_reducer F R config) scale g [e] =
      (if 0 < n t then [(seconds F t, f_div F (f_of_u64 F (of_nat (n t))) scale, None)] else [])"
    using pos empty by (auto simp: tick_points_def e count_reducer_def R Let_def word)
  moreover have "tick_points F (count_reducer F R config) scale g (e # es) =
      tick_points F (count_reducer F R config) scale g [e] @ tick_points F (count_reducer F R config) scale g es"
    by (simp add: tick_points_def)
  ultimately show ?case using Cons by (simp add: e)
qed

section \<open>Properties\<close>

text \<open>C15. Without a stride, a histogram call makes one event for each time of the rows it reads that is not before its start, in
  order. The event's running counts, read bucket by bucket, are for each group exactly what the rows of that time and group add:
  each row's own count of the bucket less that of its series' row before it, nothing where the bucket went down, and
  nothing for a series' first row.\<close>

theorem ticks_hold_what_their_rows_add:
  assumes "rows_ok sg groups rows" "\<forall>t. observed_at rows t < 2 ^ 64"
  shows "sorted_wrt (<) (stamps (tick_events hc config start stop sg groups rows)) \<and>
    set (stamps (tick_events hc config start stop sg groups rows)) = {t \<in> hr_t ` set rows. start \<le> t \<and> t \<le> stop} \<and>
    (\<forall>e \<in> set (tick_events hc config start stop sg groups rows). \<exists>t cums. e = (Some t, cums) \<and> length cums = groups \<and>
       (\<forall>g < groups. rising (cums ! g) \<and> (\<forall>j. count_at j (cums ! g) =
          (if unat j < hc_total_buckets hc config then gained_at sg (filter (\<lambda>r. hr_t r \<le> stop) rows) t g j else 0))))"
proof -
  have "\<exists>t cums. e = (Some t, cums) \<and> length cums = groups \<and> (\<forall>g < groups. rising (cums ! g) \<and>
      (\<forall>j. count_at j (cums ! g) = (if unat j < b then gained_at sg read t g j else 0)))" if "tick_event_ok sg groups b read e" for e b read
    using that by (cases e; cases "fst e") (auto simp: tick_event_ok_def)
  then show ?thesis using tick_events_ok [OF assms, where start = start and stop = stop and hc = hc and config = config] by auto
qed

text \<open>C29. \<open>histogram_count\<close> reports, for each group of series, one point for each time at which the group's rows add observations: the
  time, and the number they add over all buckets. What \<open>total_count\<close> of the histogram crate gives for running counts is taken to be the
  last of them.\<close>

theorem histogram_count_counts_the_observations:
  fixes start stop :: u64 and stream :: hist_stream and gb :: group_by and hc :: "'h hist_crate" and F :: "'f f64" and R :: "('f, 'k) hist_reader"
  assumes "sorted (map hr_t (st_rows stream))" "\<forall>t. observed_at (st_rows stream) t < 2 ^ 64"
    "\<forall>r \<in> set (st_rows stream). hr_series r < length (st_series stream) \<and> snapshot_ok (hr_snapshot r)"
    and total_count: "\<forall>cs. rising cs \<longrightarrow> qr_total R (st_config stream) cs = (if cs = [] then 0 else snd (last cs))"
  defines "sg \<equiv> fst (group_series gb (st_series stream))" and "gkeys \<equiv> snd (group_series gb (st_series stream))"
    and "read \<equiv> filter (\<lambda>r. hr_t r \<le> stop) (st_rows stream)"
  defines "n \<equiv> \<lambda>g t. \<Sum>j | unat j < hc_total_buckets hc (st_config stream). gained_at sg read t g j"
  shows "hist_count F hc R stream gb start stop None name =
    build_grouped_output name gkeys (map (\<lambda>g. map (\<lambda>t. (seconds F t, f_div F (f_of_u64 F (of_nat (n g t))) (f_of_u64 F 1), None))
      (filter (\<lambda>t. 0 < n g t) (sorted_list_of_set {t \<in> hr_t ` set read. start \<le> t}))) [0..<length gkeys]) True"
proof (cases "st_series stream = []")
  case True
  then show ?thesis by (simp add: hist_count_def hist_reduce_def gkeys_def group_series_def build_grouped_output_def map_filter_simps)
next
  case False
  have gs: "group_series gb (st_series stream) = (sg, gkeys)" by (simp add: sg_def gkeys_def)
  note A = assign_all_ok [OF gs [unfolded group_series_def]]
  have ok: "rows_ok sg (length gkeys) (st_rows stream)" using assms(1,3) A by (auto simp: rows_ok_def)
  define es where "es = tick_events hc (st_config stream) start stop sg (length gkeys) (st_rows stream)"
  note T = tick_events_ok [OF ok assms(2), where start = start and stop = stop and hc = hc and config = "st_config stream", folded read_def es_def]
  have st: "stamps es = sorted_list_of_set {t \<in> hr_t ` set read. start \<le> t}"
  proof -
    have "sorted (stamps es)" "distinct (stamps es)" using T by (simp_all add: strict_sorted_iff)
    then have "sorted_list_of_set (set (stamps es)) = stamps es" by (rule sorted_list_of_set.idem_if_sorted_distinct)
    then show ?thesis using T by simp
  qed
  have len: "\<forall>e \<in> set es. length (snd e) = length (replicate (length gkeys) ([] :: ('f \<times> 'f \<times> 'f band option) list))"
    using T by (auto simp: tick_event_ok_def split: option.splits)
  have total: "\<forall>cs. rising cs \<longrightarrow> qr_total R (st_config stream) cs = top cs" using total_count by (simp add: top_def)
  have "tick_points F (count_reducer F R (st_config stream)) (f_of_u64 F 1) g es =
      map (\<lambda>t. (seconds F t, f_div F (f_of_u64 F (of_nat (n g t))) (f_of_u64 F 1), None))
        (filter (\<lambda>t. 0 < n g t) (sorted_list_of_set {t \<in> hr_t ` set read. start \<le> t}))" if "g < length gkeys" for g
    unfolding st [symmetric] n_def by (rule tick_points_count [OF conjunct2 [OF conjunct2 [OF T]] that total])
  then have "map (\<lambda>g. replicate (length gkeys) [] ! g @ tick_points F (count_reducer F R (st_config stream)) (f_of_u64 F 1) g es) [0..<length gkeys] =
      map (\<lambda>g. map (\<lambda>t. (seconds F t, f_div F (f_of_u64 F (of_nat (n g t))) (f_of_u64 F 1), None))
        (filter (\<lambda>t. 0 < n g t) (sorted_list_of_set {t \<in> hr_t ` set read. start \<le> t}))) [0..<length gkeys]"
    by (intro map_cong) simp_all
  then show ?thesis using False
    by (simp only: hist_count_def hist_reduce_def gs hist_events_def share_scale_def reduce_events [OF len] Let_def prod.case option.case
        if_False length_replicate flip: es_def)
qed

end
