(* ===== verification/GaugeHist.thy ===== *)
theory GaugeHist
  imports HistTicks
begin

text \<open>
  Gauge histograms, read as state (\<open>metriken-query/src/promql/streaming/gauge_histogram.rs\<close>): at each time, the latest row of
  each series that is not stale, summed bucket by bucket over the series a result pools.

  A row's age is a subtraction of words: times that descend are the only ones for which it could wrap. What \<open>walk\<close> hands its
  caller at a time is an event: the time, which groups had a series, and each group's running counts, which every caller takes by
  \<open>flush_accum\<close>.
\<close>

section \<open>Times and parts\<close>

definition eval_times :: "u64 \<Rightarrow> u64 \<Rightarrow> u64 \<Rightarrow> u64 list option \<Rightarrow> u64 list" where
  "eval_times start stop step eval =
     (case eval of
        Some points \<Rightarrow> filter (\<lambda>t. start \<le> t \<and> t \<le> stop) points
      | None \<Rightarrow>
          if step = 0 \<or> stop \<le> start then [start]
          else let n = (stop - start) div step + 1 in map (\<lambda>k. start + of_nat k * step) [0..<unat n])"

type_synonym hist_part = "hist_stream \<times> u64"

record part_state =
  ps_rows :: "hist_row list"
  ps_global :: "nat list"
  ps_staleness :: u64
  ps_latest :: "(u64 \<times> hist_snapshot) option list"

record merged_parts =
  mp_config :: hist_config
  mp_series :: "labels list"
  mp_parts :: "part_state list"

definition part_state_new :: "'h hist_crate \<Rightarrow> hist_config \<Rightarrow> nat list \<Rightarrow> hist_part \<Rightarrow> part_state" where
  "part_state_new hc config global = (\<lambda>(stream, staleness).
     \<lparr>ps_rows = st_rows (rebucketed hc config stream), ps_global = global, ps_staleness = staleness,
      ps_latest = replicate (length global) None\<rparr>)"

definition merge_parts :: "'h hist_crate \<Rightarrow> hist_part list \<Rightarrow> merged_parts option" where
  "merge_parts hc parts =
     (case common_config hc (map (st_config \<circ> fst) parts) of None \<Rightarrow> None
      | Some config \<Rightarrow>
          (let (globals, series) = unify_series (map (st_series \<circ> fst) parts) []
           in Some \<lparr>mp_config = config, mp_series = series, mp_parts = map2 (part_state_new hc config) globals parts\<rparr>))"

section \<open>The walk\<close>

text \<open>A part once its rows up to \<open>t\<close> are read.\<close>

definition part_upto :: "u64 \<Rightarrow> part_state \<Rightarrow> part_state" where
  "part_upto t ps = ps\<lparr>ps_rows := dropWhile (\<lambda>r. hr_t r \<le> t) (ps_rows ps),
     ps_latest := fold (\<lambda>r latest. latest[hr_series r := Some (hr_t r, hr_snapshot r)]) (takeWhile (\<lambda>r. hr_t r \<le> t) (ps_rows ps)) (ps_latest ps)\<rparr>"

type_synonym answer = "u64 \<times> nat \<times> nat"   \<comment> \<open>a row's time, its part, and its series there\<close>

definition better :: "nat \<Rightarrow> answer \<Rightarrow> answer option list \<Rightarrow> answer option list" where
  "better g a best = (if (case best ! g of None \<Rightarrow> True | Some (b, _, _) \<Rightarrow> b < fst a) then best[g := Some a] else best)"

definition part_best :: "u64 \<Rightarrow> nat \<times> part_state \<Rightarrow> answer option list \<Rightarrow> answer option list" where
  "part_best t = (\<lambda>(p, ps) best. fold (\<lambda>(local, row) best.
     (case row of None \<Rightarrow> best
      | Some (ts, _) \<Rightarrow> if ps_staleness ps < t - ts then best else better (ps_global ps ! local) (ts, p, local) best))
     (enumerate 0 (ps_latest ps)) best)"

fun add_cells :: "u64 \<Rightarrow> (u32 \<times> u64) list \<Rightarrow> accum \<Rightarrow> accum" where
  "add_cells below [] a = a"
| "add_cells below ((idx, cumulative) # counts) a =
     (let n = saturating_sub cumulative below in add_cells cumulative counts (if 0 < n then accum_add idx n a else a))"

definition add_state :: "hist_snapshot \<Rightarrow> accum \<Rightarrow> accum" where
  "add_state snapshot = add_cells 0 (cells_of snapshot)"

definition add_answers :: "part_state list \<Rightarrow> nat list \<Rightarrow> answer option list \<Rightarrow> bool list \<times> accum list \<Rightarrow> bool list \<times> accum list" where
  "add_answers parts series_group best = fold (\<lambda>(series, chosen) (present, accums).
     (case chosen of None \<Rightarrow> (present, accums)
      | Some (_, p, local) \<Rightarrow>
          (case ps_latest (parts ! p) ! local of None \<Rightarrow> (present, accums)
           | Some (_, snapshot) \<Rightarrow>
               (let g = series_group ! series in (present[g := True], accums[g := add_state snapshot (accums ! g)])))))
     (enumerate 0 best)"

type_synonym state_event = "u64 \<times> bool list \<times> (u32 \<times> u64) list list"

fun walk_times :: "nat \<Rightarrow> nat list \<Rightarrow> nat \<Rightarrow> u64 list \<Rightarrow> part_state list \<Rightarrow> accum list \<Rightarrow> state_event list" where
  "walk_times n series_group groups [] parts accums = []"
| "walk_times n series_group groups (t # ticks) parts accums =
     (let parts = map (part_upto t) parts;
          best = fold (part_best t) (enumerate 0 parts) (replicate n None);
          (present, accums) = add_answers parts series_group best (replicate groups False, accums)
      in (t, present, map (fst \<circ> flush_accum) accums)
         # walk_times n series_group groups ticks parts (map (snd \<circ> flush_accum) accums))"

definition walk :: "'h hist_crate \<Rightarrow> merged_parts \<Rightarrow> u64 list \<Rightarrow> nat list \<Rightarrow> nat \<Rightarrow> state_event list" where
  "walk hc m ticks series_group groups =
     walk_times (length (mp_series m)) series_group groups ticks (mp_parts m) (replicate groups (accum_new hc (mp_config m)))"

section \<open>What is made of the states\<close>

definition gauge_quantiles :: "'f f64 \<Rightarrow> 'h hist_crate \<Rightarrow> ('f, 'k) hist_reader \<Rightarrow> hist_part list \<Rightarrow> 'f list \<Rightarrow> u64 list \<Rightarrow> string \<Rightarrow>
    'f matrix_sample list" where
  "gauge_quantiles F hc R parts quantiles_in ticks metric_name =
     (case merge_parts hc parts of None \<Rightarrow> []
      | Some m \<Rightarrow>
          (let (keys, floats) = quantile_keys R quantiles_in
           in if keys = [] \<or> mp_series m = [] then []
              else quantile_samples R quantiles_in
                (fold (\<lambda>(t, _, groups) out.
                   if groups ! 0 = [] then out else apply_quantiles F R (mp_config m) (groups ! 0) floats keys t out)
                   (walk hc m ticks (replicate (length (mp_series m)) 0) 1) (replicate (length quantiles_in) [])) metric_name))"

datatype state_reduction = Reduce_Count | Reduce_Sum | Reduce_Mean

definition state_value :: "'f f64 \<Rightarrow> ('f, 'k) hist_reader \<Rightarrow> hist_config \<Rightarrow> (u32 \<times> u64) list \<Rightarrow> state_reduction \<Rightarrow> ('f \<times> 'f band option) option" where
  "state_value F R config counts r =
     (let c = qr_total R config counts; (low, high) = bucket_weighted_sum F (qr_buckets R config counts)
      in case r of
           Reduce_Count \<Rightarrow> Some (f_of_u64 F c, None)
         | Reduce_Sum \<Rightarrow> map_option (\<lambda>m. (f_mul F (f_of_u64 F c) m, Some (low, high))) (qr_mean R config counts)
         | Reduce_Mean \<Rightarrow> map_option (\<lambda>m. (m, if 0 < c then Some (f_div F low (f_of_u64 F c), f_div F high (f_of_u64 F c)) else None))
             (qr_mean R config counts))"

text \<open>Present with no items: a count and a sum of zero, and no mean.\<close>

definition empty_value :: "'f f64 \<Rightarrow> state_reduction \<Rightarrow> ('f \<times> 'f band option) option" where
  "empty_value F r = (case r of Reduce_Count \<Rightarrow> Some (f_zero F, None) | Reduce_Sum \<Rightarrow> Some (f_zero F, Some (f_zero F, f_zero F)) | Reduce_Mean \<Rightarrow> None)"

definition state_points :: "'f f64 \<Rightarrow> ('f, 'k) hist_reader \<Rightarrow> hist_config \<Rightarrow> state_reduction \<Rightarrow> state_event \<Rightarrow>
    ('f \<times> 'f \<times> 'f band option) list list \<Rightarrow> ('f \<times> 'f \<times> 'f band option) list list" where
  "state_points F R config r = (\<lambda>(t, present, groups) outs.
     map (\<lambda>g. outs ! g @
       (if \<not> present ! g then []
        else case (if groups ! g \<noteq> [] then state_value F R config (groups ! g) r else empty_value F r) of
          None \<Rightarrow> [] | Some (v, band) \<Rightarrow> [(seconds F t, v, band)])) [0..<length outs])"

definition gauge_reduce :: "'f f64 \<Rightarrow> 'h hist_crate \<Rightarrow> ('f, 'k) hist_reader \<Rightarrow> hist_part list \<Rightarrow> state_reduction \<Rightarrow> group_by \<Rightarrow> u64 list \<Rightarrow>
    string \<Rightarrow> 'f matrix_sample list" where
  "gauge_reduce F hc R parts r by ticks metric_name =
     (case merge_parts hc parts of None \<Rightarrow> []
      | Some m \<Rightarrow>
          (let (series_group, keys) = group_series by (mp_series m)
           in build_grouped_output metric_name keys
                (fold (state_points F R (mp_config m) r) (walk hc m ticks series_group (length keys)) (replicate (length keys) [])) True))"

fun state_cells :: "'f f64 \<Rightarrow> nat \<Rightarrow> u64 \<Rightarrow> (u32 \<times> u64) list \<Rightarrow> (nat \<times> nat \<times> 'f) list" where
  "state_cells F column below [] = []"
| "state_cells F column below ((b, cumulative) # counts) =
     (let n = cumulative - below
      in (if 0 < n then [(column, unat b, f_of_u64 F n)] else []) @ state_cells F column cumulative counts)"

definition state_column :: "'f f64 \<Rightarrow> state_event \<Rightarrow> 'f list \<times> (nat \<times> nat \<times> 'f) list \<Rightarrow> 'f list \<times> (nat \<times> nat \<times> 'f) list" where
  "state_column F = (\<lambda>(t, present, groups) (timestamps, data).
     if \<not> present ! 0 then (timestamps, data)
     else (timestamps @ [seconds F t], data @ state_cells F (length timestamps) 0 (groups ! 0)))"

definition gauge_heatmap :: "'f f64 \<Rightarrow> 'h hist_crate \<Rightarrow> ('f, 'k) hist_reader \<Rightarrow> hist_part list \<Rightarrow> u64 list \<Rightarrow> 'f heatmap option" where
  "gauge_heatmap F hc R parts ticks =
     (case merge_parts hc parts of None \<Rightarrow> None
      | Some m \<Rightarrow>
          if mp_series m = [] then None
          else case qr_bounds R (mp_config m) of None \<Rightarrow> None
            | Some all_bounds \<Rightarrow>
                (let (timestamps, data) = fold (state_column F) (walk hc m ticks (replicate (length (mp_series m)) 0) 1) ([], [])
                 in if timestamps = [] then None
                    else
                      (let min_value = fold (\<lambda>d a. f_min F a (snd (snd d))) data (qr_MAX R);
                           max_value = fold (\<lambda>d a. f_max F a (snd (snd d))) data (qr_MIN R);
                           (bounds, data) =
                             (if data = [] then (all_bounds, data)
                              else let lowest = Min (set (map (fst \<circ> snd) data)); highest = Max (set (map (fst \<circ> snd) data))
                                   in if highest < length all_bounds
                                      then (take (Suc highest - lowest) (drop lowest all_bounds), map (\<lambda>(t, b, c). (t, b - lowest, c)) data)
                                      else (all_bounds, data))
                       in Some \<lparr>hm_timestamps = timestamps, hm_bounds = bounds, hm_data = data,
                            hm_min = (if f_eq F min_value (qr_MAX R) then f_zero F else min_value),
                            hm_max = (if f_eq F max_value (qr_MIN R) then f_zero F else max_value)\<rparr>)))"

end
