(* ===== verification/GaugeStates.thy ===== *)
theory GaugeStates
  imports GaugeHist
begin

text \<open>What a walk over gauge histograms finds at a time is what looking each series up anew finds.\<close>

section \<open>The lookup\<close>

text \<open>The row a part answers with for one of its series: the latest at or before \<open>t\<close>, unless it is stale.\<close>

definition part_answer :: "u64 \<Rightarrow> hist_row list \<Rightarrow> u64 \<Rightarrow> nat \<Rightarrow> hist_row option" where
  "part_answer t rows staleness local =
     (case latest_row (filter (\<lambda>r. hr_t r \<le> t) rows) local of None \<Rightarrow> None
      | Some r \<Rightarrow> if t - hr_t r \<le> staleness then Some r else None)"

text \<open>The rows the parts answer with for series \<open>s\<close>, in the order of the parts, and of them the first of the latest.\<close>

definition answers :: "u64 \<Rightarrow> part_state list \<Rightarrow> nat \<Rightarrow> hist_row list" where
  "answers t parts s = concat (map (\<lambda>ps. List.map_filter (\<lambda>(local, g). if g = s then part_answer t (ps_rows ps) (ps_staleness ps) local else None)
     (enumerate 0 (ps_global ps))) parts)"

definition state_of :: "u64 \<Rightarrow> part_state list \<Rightarrow> nat \<Rightarrow> hist_snapshot option" where
  "state_of t parts s =
     (let rows = answers t parts s in map_option hr_snapshot (find (\<lambda>r. list_all (\<lambda>r'. hr_t r' \<le> hr_t r) rows) rows))"

section \<open>The rows of a part up to a time\<close>

definition parts_ok :: "nat \<Rightarrow> part_state list \<Rightarrow> bool" where
  "parts_ok n parts \<longleftrightarrow> (\<forall>ps \<in> set parts. sorted (map hr_t (ps_rows ps)) \<and>
     (\<forall>r \<in> set (ps_rows ps). hr_series r < length (ps_global ps) \<and> snapshot_ok (hr_snapshot r)) \<and> (\<forall>g \<in> set (ps_global ps). g < n))"

text \<open>\<open>ps\<close> is the part \<open>ps0\<close> with the rows \<open>seen\<close> read.\<close>

definition part_read :: "part_state \<Rightarrow> hist_row list \<Rightarrow> part_state \<Rightarrow> bool" where
  "part_read ps0 seen ps \<longleftrightarrow> ps_rows ps0 = seen @ ps_rows ps \<and> ps_global ps = ps_global ps0 \<and> ps_staleness ps = ps_staleness ps0 \<and>
     length (ps_latest ps) = length (ps_global ps0) \<and>
     (\<forall>l < length (ps_global ps0). ps_latest ps ! l = map_option (\<lambda>r. (hr_t r, hr_snapshot r)) (latest_row seen l))"

lemma fold_latest: "\<forall>r \<in> set rows. hr_series r < length latest \<Longrightarrow>
    length (fold (\<lambda>r latest. latest[hr_series r := Some (hr_t r, hr_snapshot r)]) rows latest) = length latest \<and>
    (\<forall>l < length latest. latest ! l = map_option (\<lambda>r. (hr_t r, hr_snapshot r)) (latest_row seen l) \<longrightarrow>
       fold (\<lambda>r latest. latest[hr_series r := Some (hr_t r, hr_snapshot r)]) rows latest ! l =
         map_option (\<lambda>r. (hr_t r, hr_snapshot r)) (latest_row (seen @ rows) l))"
proof (induction rows arbitrary: latest seen)
  case (Cons r rows)
  let ?latest = "latest[hr_series r := Some (hr_t r, hr_snapshot r)]"
  have "\<forall>r \<in> set rows. hr_series r < length ?latest" using Cons.prems by simp
  note IH = Cons.IH [OF this, of "seen @ [r]"]
  have "?latest ! l = map_option (\<lambda>r. (hr_t r, hr_snapshot r)) (latest_row (seen @ [r]) l)"
    if "l < length latest" "latest ! l = map_option (\<lambda>r. (hr_t r, hr_snapshot r)) (latest_row seen l)" for l
    using that Cons.prems by (auto simp: nth_list_update)
  then show ?case using IH by simp
qed simp

lemma sorted_upto: "sorted (map hr_t rows) \<Longrightarrow> takeWhile (\<lambda>r. hr_t r \<le> t) rows = filter (\<lambda>r. hr_t r \<le> t) rows"
  by (induction rows) (auto intro!: filter_False[symmetric] dest: order_trans)

lemma part_upto_read:
  assumes "part_read ps0 seen ps" "sorted (map hr_t (ps_rows ps0))" "\<forall>r \<in> set (ps_rows ps0). hr_series r < length (ps_global ps0)"
    "\<forall>r \<in> set seen. hr_t r \<le> t"
  shows "part_read ps0 (filter (\<lambda>r. hr_t r \<le> t) (ps_rows ps0)) (part_upto t ps)"
proof -
  let ?now = "takeWhile (\<lambda>r. hr_t r \<le> t) (ps_rows ps)"
  have rows: "ps_rows ps0 = seen @ ps_rows ps" and len: "length (ps_latest ps) = length (ps_global ps0)"
    and lat: "\<forall>l < length (ps_global ps0). ps_latest ps ! l = map_option (\<lambda>r. (hr_t r, hr_snapshot r)) (latest_row seen l)"
    and same: "ps_global ps = ps_global ps0" "ps_staleness ps = ps_staleness ps0" using assms(1) by (simp_all add: part_read_def)
  have "sorted (map hr_t (ps_rows ps))" using assms(2) by (simp add: rows sorted_append)
  then have now: "?now = filter (\<lambda>r. hr_t r \<le> t) (ps_rows ps)" by (rule sorted_upto)
  have seen: "filter (\<lambda>r. hr_t r \<le> t) (ps_rows ps0) = seen @ ?now" using assms(4) by (simp add: rows now)
  have "\<forall>r \<in> set ?now. hr_series r < length (ps_latest ps)" using assms(3) len by (auto simp: rows dest: set_takeWhileD)
  note L = fold_latest [OF this, of seen]
  show ?thesis unfolding seen part_read_def using L len lat same rows by (simp add: part_upto_def)
qed

section \<open>The best answer\<close>

text \<open>The answers of the parts, each with the series it is for.\<close>

definition offers :: "u64 \<Rightarrow> nat \<times> part_state \<Rightarrow> (nat \<times> answer) list" where
  "offers t = (\<lambda>(p, ps). List.map_filter (\<lambda>(local, row). case row of None \<Rightarrow> None
     | Some (ts, _) \<Rightarrow> if ps_staleness ps < t - ts then None else Some (ps_global ps ! local, ts, p, local)) (enumerate 0 (ps_latest ps)))"

lemma fold_map_filter: "fold g (List.map_filter f xs) s = fold (\<lambda>x s. case f x of None \<Rightarrow> s | Some y \<Rightarrow> g y s) xs s"
  by (induction xs arbitrary: s) (auto simp: map_filter_simps split: option.split)

lemma part_best_offers: "part_best t x best = fold (\<lambda>(g, a). better g a) (offers t x) best"
proof -
  obtain p ps where x: "x = (p, ps)" by fastforce
  show ?thesis unfolding x part_best_def offers_def prod.case fold_map_filter
    by (intro fold_cong refl) (auto simp: fun_eq_iff split: option.split)
qed

lemma fold_part_best: "fold (part_best t) xs best = fold (\<lambda>(g, a). better g a) (concat (map (offers t) xs)) best"
  by (induction xs arbitrary: best) (simp_all add: part_best_offers)

definition first_best :: "answer list \<Rightarrow> answer option" where
  "first_best as = find (\<lambda>a. list_all (\<lambda>b. fst b \<le> fst a) as) as"

lemma first_best_is: "as \<noteq> [] \<Longrightarrow> \<exists>b. first_best as = Some b \<and> b \<in> set as \<and> (\<forall>c \<in> set as. fst c \<le> fst b)"
proof -
  assume "as \<noteq> []"
  then have "Max (fst ` set as) \<in> fst ` set as" by (intro Max_in) auto
  then obtain m where m: "m \<in> set as" "fst m = Max (fst ` set as)" by auto
  have "\<forall>c \<in> set as. fst c \<le> fst m" using m(2) by simp
  then have "first_best as \<noteq> None" unfolding first_best_def find_None_iff list_all_iff using m(1) by blast
  then obtain b where b: "first_best as = Some b" by blast
  then have "b \<in> set as \<and> (\<forall>c \<in> set as. fst c \<le> fst b)" unfolding first_best_def find_Some_iff list_all_iff by auto
  with b show ?thesis by blast
qed

lemma find_map: "find P (map f xs) = map_option f (find (P \<circ> f) xs)"
  by (induction xs) auto

lemma find_append: "find P (xs @ ys) = (case find P xs of None \<Rightarrow> find P ys | Some x \<Rightarrow> Some x)"
  by (induction xs) auto

lemma first_best_snoc: "first_best (as @ [a]) =
    (case first_best as of None \<Rightarrow> Some a | Some b \<Rightarrow> if fst b < fst a then Some a else Some b)"
proof (cases "as = []")
  case False
  then obtain b where b: "first_best as = Some b" "b \<in> set as" "\<forall>c \<in> set as. fst c \<le> fst b" using first_best_is by blast
  have whole: "list_all (\<lambda>c. fst c \<le> fst x) (as @ [a]) \<longleftrightarrow> list_all (\<lambda>c. fst c \<le> fst x) as \<and> fst a \<le> fst x" for x :: answer by simp
  show ?thesis
  proof (cases "fst b < fst a")
    case True
    have "find (\<lambda>x. list_all (\<lambda>c. fst c \<le> fst x) as \<and> fst a \<le> fst x) as = None"
      unfolding find_None_iff using b(3) True by force
    then show ?thesis using b(1,3) True unfolding first_best_def whole find_append by (auto simp: list_all_iff)
  next
    case le: False
    have "find (\<lambda>x. list_all (\<lambda>c. fst c \<le> fst x) as \<and> fst a \<le> fst x) as = find (\<lambda>x. list_all (\<lambda>c. fst c \<le> fst x) as) as"
      using b(2) le by (intro find_cong refl) (force simp: list_all_iff)
    then show ?thesis using b(1) le unfolding first_best_def whole find_append by simp
  qed
qed (simp add: first_best_def)

lemma better_nth: "g < length best \<Longrightarrow> length (better g a best) = length best \<and>
    better g a best ! s = (if s = g then (case best ! g of None \<Rightarrow> Some a | Some b \<Rightarrow> if fst b < fst a then Some a else Some b) else best ! s)"
  by (auto simp: better_def split: option.split)

lemma fold_better:
  assumes "\<forall>x \<in> set os. fst x < n"
  shows "length (fold (\<lambda>(g, a). better g a) os (replicate n None)) = n \<and>
    (\<forall>s < n. fold (\<lambda>(g, a). better g a) os (replicate n None) ! s = first_best (map snd (filter (\<lambda>x. fst x = s) os)))"
  using assms
proof (induction os rule: rev_induct)
  case (snoc x os)
  obtain g a where x: "x = (g, a)" by (cases x)
  let ?best = "fold (\<lambda>(g, a). better g a) os (replicate n None)"
  have IH: "length ?best = n" "\<forall>s < n. ?best ! s = first_best (map snd (filter (\<lambda>x. fst x = s) os))" using snoc by simp_all
  have g: "g < length ?best" using snoc.prems IH(1) by (simp add: x)
  show ?case using better_nth [OF g, of a] IH g by (simp add: x first_best_snoc)
qed (simp add: first_best_def)

section \<open>The best answer is the state\<close>

lemma enumerate_nth: "enumerate 0 xs = map (\<lambda>i. (i, xs ! i)) [0..<length xs]"
  by (rule nth_equalityI) (simp_all add: nth_enumerate_eq)

lemma map_filter_cong_list: "(\<And>x. x \<in> set xs \<Longrightarrow> f x = g x) \<Longrightarrow> List.map_filter f xs = List.map_filter g xs"
  by (induction xs) (auto simp: map_filter_simps split: option.split)

lemma map_filter_map: "List.map_filter f (map h xs) = List.map_filter (f \<circ> h) xs"
  by (induction xs) (auto simp: map_filter_simps split: option.split)

lemma map_filter_filter: "map h (filter P (List.map_filter f xs)) =
    List.map_filter (\<lambda>x. case f x of None \<Rightarrow> None | Some y \<Rightarrow> if P y then Some (h y) else None) xs"
  by (induction xs) (auto simp: map_filter_simps split: option.split)

lemma map_filter_compose: "map h (List.map_filter f xs) = List.map_filter (map_option h \<circ> f) xs"
  by (induction xs) (auto simp: map_filter_simps split: option.split)

definition time_and_state :: "hist_row \<Rightarrow> u64 \<times> hist_snapshot" where
  "time_and_state r = (hr_t r, hr_snapshot r)"

definition stored :: "part_state list \<Rightarrow> answer \<Rightarrow> u64 \<times> hist_snapshot" where
  "stored parts = (\<lambda>(ts, p, l). the (ps_latest (parts ! p) ! l))"

lemma part_offers:
  assumes read: "part_read ps0 (filter (\<lambda>r. hr_t r \<le> t) (ps_rows ps0)) ps" and at_p: "parts ! p = ps"
  shows "map (stored parts \<circ> snd) (filter (\<lambda>x. fst x = s) (offers t (p, ps))) =
      map time_and_state (List.map_filter (\<lambda>(local, g). if g = s then part_answer t (ps_rows ps0) (ps_staleness ps0) local else None)
        (enumerate 0 (ps_global ps0)))"
    "\<forall>x \<in> set (offers t (p, ps)). \<exists>l. snd x = (fst (stored parts (snd x)), p, l) \<and> ps_latest ps ! l = Some (stored parts (snd x)) \<and>
       l < length (ps_global ps0) \<and> fst x = ps_global ps0 ! l"
proof -
  let ?n = "length (ps_global ps0)"
  have R: "ps_global ps = ps_global ps0" "ps_staleness ps = ps_staleness ps0" "length (ps_latest ps) = ?n"
    "\<And>l. l < ?n \<Longrightarrow> ps_latest ps ! l = map_option (\<lambda>r. (hr_t r, hr_snapshot r)) (latest_row (filter (\<lambda>r. hr_t r \<le> t) (ps_rows ps0)) l)"
    using read by (simp_all add: part_read_def)
  show "map (stored parts \<circ> snd) (filter (\<lambda>x. fst x = s) (offers t (p, ps))) =
      map time_and_state (List.map_filter (\<lambda>(local, g). if g = s then part_answer t (ps_rows ps0) (ps_staleness ps0) local else None)
        (enumerate 0 (ps_global ps0)))"
    unfolding offers_def prod.case map_filter_filter map_filter_compose enumerate_nth map_filter_map R(3)
    by (rule map_filter_cong_list)
      (auto simp: R part_answer_def stored_def at_p time_and_state_def not_less split: option.split)
  show "\<forall>x \<in> set (offers t (p, ps)). \<exists>l. snd x = (fst (stored parts (snd x)), p, l) \<and> ps_latest ps ! l = Some (stored parts (snd x)) \<and>
       l < length (ps_global ps0) \<and> fst x = ps_global ps0 ! l"
  proof
    fix x assume "x \<in> set (offers t (p, ps))"
    then obtain l where l: "l < ?n" "(case ps_latest ps ! l of None \<Rightarrow> None
        | Some (ts, _) \<Rightarrow> if ps_staleness ps < t - ts then None else Some (ps_global ps ! l, ts, p, l)) = Some x"
      unfolding offers_def prod.case enumerate_nth map_filter_map R(3) in_map_filter by auto
    then obtain ts h where "ps_latest ps ! l = Some (ts, h)" "x = (ps_global ps ! l, ts, p, l)"
      by (cases "ps_latest ps ! l") (auto split: if_splits)
    then show "\<exists>l. snd x = (fst (stored parts (snd x)), p, l) \<and> ps_latest ps ! l = Some (stored parts (snd x)) \<and>
       l < length (ps_global ps0) \<and> fst x = ps_global ps0 ! l"
      using l(1) by (simp add: stored_def at_p R(1))
  qed
qed

text \<open>What the best answers say, once every part has been read up to \<open>t\<close>.\<close>

lemma best_is_state:
  assumes len: "length parts = length parts0"
    and read: "\<And>p. p < length parts0 \<Longrightarrow> part_read (parts0 ! p) (filter (\<lambda>r. hr_t r \<le> t) (ps_rows (parts0 ! p))) (parts ! p)"
    and ok: "parts_ok n parts0"
  defines "best \<equiv> fold (part_best t) (enumerate 0 parts) (replicate n None)"
  shows "length best = n"
    "\<And>s. s < n \<Longrightarrow> (case best ! s of None \<Rightarrow> None | Some (_, p, local) \<Rightarrow> map_option snd (ps_latest (parts ! p) ! local)) = state_of t parts0 s"
proof -
  define os where "os = concat (map (offers t) (enumerate 0 parts))"
  have os: "os = concat (map (\<lambda>p. offers t (p, parts ! p)) [0..<length parts0])"
    by (simp add: os_def enumerate_nth len comp_def)
  note O = part_offers [OF read refl]
  have off: "\<exists>p l. p < length parts0 \<and> snd x = (fst (stored parts (snd x)), p, l) \<and> ps_latest (parts ! p) ! l = Some (stored parts (snd x)) \<and> fst x < n"
    if x: "x \<in> set os" for x
  proof -
    obtain p where p: "p < length parts0" "x \<in> set (offers t (p, parts ! p))" using x unfolding os by auto
    have "parts0 ! p \<in> set parts0" using p(1) by simp
    then have "\<forall>g \<in> set (ps_global (parts0 ! p)). g < n" using ok unfolding parts_ok_def by blast
    then show ?thesis using O(2) [OF p(1)] p by fastforce
  qed
  have B: "length best = n \<and> (\<forall>s < n. best ! s = first_best (map snd (filter (\<lambda>x. fst x = s) os)))"
    unfolding best_def fold_part_best os_def [symmetric] using off by (intro fold_better) blast
  then show "length best = n" by blast
  fix s assume s: "s < n"
  define as where "as = map snd (filter (\<lambda>x. fst x = s) os)"
  have vals: "map (stored parts) as = map time_and_state (answers t parts0 s)"
  proof -
    have "map (stored parts) as = concat (map (\<lambda>p. map (stored parts \<circ> snd) (filter (\<lambda>x. fst x = s) (offers t (p, parts ! p)))) [0..<length parts0])"
      by (simp add: as_def os filter_concat map_concat comp_def)
    also have "\<dots> = concat (map (\<lambda>p. map time_and_state (List.map_filter (\<lambda>(local, g). if g = s
        then part_answer t (ps_rows (parts0 ! p)) (ps_staleness (parts0 ! p)) local else None) (enumerate 0 (ps_global (parts0 ! p))))) [0..<length parts0])"
      by (intro arg_cong [where f = concat] map_cong refl O(1)) simp
    also have "\<dots> = concat (map (\<lambda>ps. map time_and_state (List.map_filter (\<lambda>(local, g). if g = s
        then part_answer t (ps_rows ps) (ps_staleness ps) local else None) (enumerate 0 (ps_global ps)))) (map ((!) parts0) [0..<length parts0]))"
      by (simp add: comp_def)
    also have "\<dots> = map time_and_state (answers t parts0 s)" by (simp add: map_nth answers_def map_concat comp_def)
    finally show ?thesis .
  qed
  have same: "fst a = fst (stored parts a)" if "a \<in> set as" for a
    using off that by (fastforce simp: as_def)
  have "map_option (stored parts) (first_best as) = find (\<lambda>v. list_all (\<lambda>w. fst w \<le> fst v) (map (stored parts) as)) (map (stored parts) as)"
    unfolding first_best_def find_map using same by (intro arg_cong [where f = "map_option _"] find_cong refl) (auto simp: list_all_iff)
  also have "\<dots> = map_option time_and_state (find (\<lambda>r. list_all (\<lambda>r'. hr_t r' \<le> hr_t r) (answers t parts0 s)) (answers t parts0 s))"
    unfolding vals find_map by (simp add: list_all_iff time_and_state_def comp_def)
  finally have "map_option snd (map_option (stored parts) (first_best as)) = state_of t parts0 s"
    by (simp add: state_of_def Let_def option.map_comp comp_def time_and_state_def)
  moreover have "(case first_best as of None \<Rightarrow> None | Some (_, p, local) \<Rightarrow> map_option snd (ps_latest (parts ! p) ! local)) =
      map_option snd (map_option (stored parts) (first_best as))"
  proof (cases "first_best as")
    case (Some a)
    then have "a \<in> set as" by (auto simp: first_best_def find_Some_iff)
    then obtain x where "x \<in> set os" "a = snd x" by (auto simp: as_def)
    then obtain p l where "a = (fst (stored parts a), p, l)" "ps_latest (parts ! p) ! l = Some (stored parts a)" using off by blast
    then obtain ts where "a = (ts, p, l)" "ps_latest (parts ! p) ! l = Some (stored parts a)" by blast
    then show ?thesis by (simp add: Some)
  qed simp
  ultimately show "(case best ! s of None \<Rightarrow> None | Some (_, p, local) \<Rightarrow> map_option snd (ps_latest (parts ! p) ! local)) = state_of t parts0 s"
    using B s by (simp add: as_def)
qed

section \<open>The sums\<close>

lemma add_cells_fold: "add_cells below cs a = fold (\<lambda>(i, n). accum_add i n) (filter (\<lambda>(i, n). 0 < n) (singles below cs)) a"
  by (induction below cs a rule: add_cells.induct) (simp_all add: Let_def)

lemma positive_sum: "(\<And>i. h i 0 = (0 :: nat)) \<Longrightarrow>
    sum_list (map (\<lambda>(i, n). h i (unat (n :: u64))) (filter (\<lambda>(i, n). 0 < n) xs)) = sum_list (map (\<lambda>(i, n). h i (unat n)) xs)"
  by (induction xs) (auto simp: word_neq_0_conv [symmetric] simp del: word_neq_0_conv)

lemma top_total: "snapshot_ok s \<Longrightarrow> unat (top (cells_of s)) \<le> unat (total_count s)"
proof -
  assume ok: "snapshot_ok s"
  show ?thesis
  proof (cases "hs_count s" rule: rev_cases)
    case (snoc ns n)
    then obtain is' i where "hs_index s = is' @ [i]" "length is' = length ns"
      using ok by (cases "hs_index s" rule: rev_cases) (auto simp: snapshot_ok_def)
    then show ?thesis using snoc by (simp add: cells_of_def top_def total_count_def)
  qed (simp add: cells_of_def top_def)
qed

lemma add_state_ok:
  assumes s: "snapshot_ok s" and a: "accum_ok a" and small: "accum_total a + unat (total_count s) < 2 ^ 64"
  shows "accum_ok (add_state s a) \<and> accum_total (add_state s a) \<le> accum_total a + unat (total_count s) \<and>
    ac_buckets (add_state s a) = ac_buckets a \<and>
    (\<forall>j. held_at_idx (add_state s a) j = held_at_idx a j + (if unat j < ac_buckets a then held_in s j else 0))"
proof -
  let ?ds = "filter (\<lambda>(i, n). 0 < n) (singles 0 (cells_of s))"
  have "rising (cells_of s)" using s by (simp add: cells_ok)
  then have "sum_list (map (\<lambda>(i, n). unat n) (singles 0 (cells_of s))) \<le> unat (total_count s)"
    using singles_sum [of "cells_of s" 0] top_total [OF s] by (simp add: comp_def case_prod_unfold split: if_splits)
  then have le: "sum_list (map (unat \<circ> snd) ?ds) \<le> unat (total_count s)"
    using positive_sum [of "\<lambda>_ n. n" "singles 0 (cells_of s)"] by (simp add: comp_def case_prod_unfold)
  then have "accum_total a + sum_list (map (unat \<circ> snd) ?ds) < 2 ^ 64" using small by simp
  note F = accum_fold_ok [OF a this]
  have "sum_list (map (\<lambda>(i, d). if i = j \<and> unat i < ac_buckets a then unat d else 0) ?ds) =
      (if unat j < ac_buckets a then held_in s j else 0)" for j
    using positive_sum [of "\<lambda>i n. if i = j \<and> unat i < ac_buckets a then n else 0" "singles 0 (cells_of s)"]
    by (auto simp: held_in_def count_at_def cong: if_cong intro!: arg_cong [where f = sum_list])
  then show ?thesis using F le unfolding add_state_def add_cells_fold by auto
qed

text \<open>The sums over the series before the \<open>k\<close>th.\<close>

definition summed :: "nat list \<Rightarrow> (nat \<Rightarrow> hist_snapshot option) \<Rightarrow> nat \<Rightarrow> nat \<Rightarrow> u32 \<Rightarrow> nat" where
  "summed sg st k g j = (\<Sum>s < k. if sg ! s = g then (case st s of None \<Rightarrow> 0 | Some h \<Rightarrow> held_in h j) else 0)"

definition total_of :: "(nat \<Rightarrow> hist_snapshot option) \<Rightarrow> nat \<Rightarrow> nat" where
  "total_of st k = (\<Sum>s < k. case st s of None \<Rightarrow> 0 | Some h \<Rightarrow> unat (total_count h))"

definition empty_accums :: "nat \<Rightarrow> nat \<Rightarrow> accum list \<Rightarrow> bool" where
  "empty_accums groups buckets accums \<longleftrightarrow> length accums = groups \<and> (\<forall>a \<in> set accums. accum_ok a \<and> ac_buckets a = buckets \<and>
     accum_total a = 0 \<and> (\<forall>j. held_at_idx a j = 0))"

definition summed_ok :: "nat list \<Rightarrow> nat \<Rightarrow> nat \<Rightarrow> (nat \<Rightarrow> hist_snapshot option) \<Rightarrow> nat \<Rightarrow> bool list \<times> accum list \<Rightarrow> bool" where
  "summed_ok sg groups buckets st k = (\<lambda>(present, accums). length present = groups \<and> length accums = groups \<and>
     (\<forall>g < groups. (present ! g \<longleftrightarrow> (\<exists>s < k. sg ! s = g \<and> st s \<noteq> None)) \<and> accum_ok (accums ! g) \<and> ac_buckets (accums ! g) = buckets \<and>
        accum_total (accums ! g) \<le> total_of st k \<and>
        (\<forall>j. held_at_idx (accums ! g) j = (if unat j < buckets then summed sg st k g j else 0))))"

lemma add_answers_ok:
  assumes groups: "\<forall>s < n. sg ! s < groups" and st: "\<forall>s < n. \<forall>h. st s = Some h \<longrightarrow> snapshot_ok h" and small: "total_of st n < 2 ^ 64"
    and best: "length best = n" "\<forall>s < n. (case best ! s of None \<Rightarrow> None | Some (_, p, local) \<Rightarrow> map_option snd (ps_latest (parts ! p) ! local)) = st s"
    and empty: "empty_accums groups buckets accums"
  shows "summed_ok sg groups buckets st n (add_answers parts sg best (replicate groups False, accums))"
proof -
  define step where "step = (\<lambda>s (present, accums). case st s of None \<Rightarrow> (present, accums)
    | Some h \<Rightarrow> (present[sg ! s := True], accums[sg ! s := add_state h (accums ! (sg ! s))]))"
  have one: "(case best ! s of None \<Rightarrow> (present, accums) | Some (_, p, local) \<Rightarrow>
      (case ps_latest (parts ! p) ! local of None \<Rightarrow> (present, accums)
       | Some (_, h) \<Rightarrow> (let g = sg ! s in (present[g := True], accums[g := add_state h (accums ! g)])))) = step s (present, accums)"
    if "s < n" for s present and accums :: "accum list"
    unfolding step_def best(2) [rule_format, OF that, symmetric] by (auto simp: Let_def split: option.split)
  have code: "add_answers parts sg best x = fold step [0..<n] x" for x
    unfolding add_answers_def enumerate_nth best(1) fold_map by (intro fold_cong refl) (auto simp: fun_eq_iff one)
  have "summed_ok sg groups buckets st k (fold step [0..<k] (replicate groups False, accums))" if "k \<le> n" for k
    using that
  proof (induction k)
    case 0
    then show ?case using empty by (auto simp: summed_ok_def empty_accums_def summed_def total_of_def)
  next
    case (Suc k)
    obtain present as where before: "fold step [0..<k] (replicate groups False, accums) = (present, as)" by fastforce
    have IH: "summed_ok sg groups buckets st k (present, as)" using Suc before by simp
    have k: "k < n" "sg ! k < groups" using Suc.prems groups by auto
    have turn: "fold step [0..<Suc k] (replicate groups False, accums) = step k (present, as)" by (simp add: before)
    show ?case
    proof (cases "st k")
      case None
      then have "step k (present, as) = (present, as)" by (simp add: step_def)
      then show ?thesis unfolding turn using IH None
        by (auto simp: summed_ok_def summed_def total_of_def less_Suc_eq)
    next
      case (Some h)
      have h: "snapshot_ok h" using st k Some by blast
      have mono: "total_of st (Suc k) \<le> total_of st n" unfolding total_of_def using k by (intro sum_mono2) auto
      have tot: "total_of st (Suc k) = total_of st k + unat (total_count h)" by (simp add: total_of_def Some)
      have G: "accum_ok (as ! (sg ! k))" "accum_total (as ! (sg ! k)) \<le> total_of st k" "ac_buckets (as ! (sg ! k)) = buckets"
        "\<forall>j. held_at_idx (as ! (sg ! k)) j = (if unat j < buckets then summed sg st k (sg ! k) j else 0)"
        using IH k(2) by (auto simp: summed_ok_def)
      have "accum_total (as ! (sg ! k)) + unat (total_count h) < 2 ^ 64" using G(2) mono tot small by simp
      note A = add_state_ok [OF h G(1) this]
      have "summed_ok sg groups buckets st (Suc k) (present[sg ! k := True], as[sg ! k := add_state h (as ! (sg ! k))])"
        unfolding summed_ok_def prod.case
      proof (intro conjI allI impI)
        fix g assume g: "g < groups"
        have "present ! g \<longleftrightarrow> (\<exists>s < k. sg ! s = g \<and> st s \<noteq> None)" "length present = groups" using IH g by (simp_all add: summed_ok_def)
        then show "present[sg ! k := True] ! g \<longleftrightarrow> (\<exists>s < Suc k. sg ! s = g \<and> st s \<noteq> None)"
          using k(2) Some by (cases "g = sg ! k") (auto simp: less_Suc_eq)
        have other: "g \<noteq> sg ! k \<Longrightarrow> accum_ok (as ! g) \<and> ac_buckets (as ! g) = buckets \<and> accum_total (as ! g) \<le> total_of st k \<and>
            (\<forall>j. held_at_idx (as ! g) j = (if unat j < buckets then summed sg st k g j else 0))" using IH g by (simp add: summed_ok_def)
        have len: "sg ! k < length as" using IH k(2) by (simp add: summed_ok_def)
        show "accum_ok (as[sg ! k := add_state h (as ! (sg ! k))] ! g)" "ac_buckets (as[sg ! k := add_state h (as ! (sg ! k))] ! g) = buckets"
          "accum_total (as[sg ! k := add_state h (as ! (sg ! k))] ! g) \<le> total_of st (Suc k)"
          "held_at_idx (as[sg ! k := add_state h (as ! (sg ! k))] ! g) j = (if unat j < buckets then summed sg st (Suc k) g j else 0)" for j
          using A G other len tot by (auto simp: nth_list_update summed_def Some)
      qed (use IH in \<open>simp_all add: summed_ok_def\<close>)
      then show ?thesis unfolding turn by (simp add: step_def Some)
    qed
  qed
  then show ?thesis unfolding code by blast
qed

section \<open>The walk\<close>

definition state_event_ok :: "nat \<Rightarrow> nat list \<Rightarrow> nat \<Rightarrow> nat \<Rightarrow> part_state list \<Rightarrow> state_event \<Rightarrow> bool" where
  "state_event_ok n sg groups buckets parts = (\<lambda>(t, present, cums). length present = groups \<and> length cums = groups \<and>
     (\<forall>g < groups. (present ! g \<longleftrightarrow> (\<exists>s < n. sg ! s = g \<and> state_of t parts s \<noteq> None)) \<and> rising (cums ! g) \<and>
        (cums ! g = [] \<longleftrightarrow> (\<forall>j. count_at j (cums ! g) = 0)) \<and> (\<forall>j. count_at j (cums ! g) = (if unat j < buckets then summed sg (state_of t parts) n g j else 0))))"

lemma flush_accums:
  assumes "length as = groups" "\<forall>g < groups. accum_ok (as ! g) \<and> ac_buckets (as ! g) = buckets \<and> accum_total (as ! g) < 2 ^ 64"
  shows "empty_accums groups buckets (map (snd \<circ> flush_accum) as)"
    "\<forall>g < groups. rising (map (fst \<circ> flush_accum) as ! g) \<and>
      (map (fst \<circ> flush_accum) as ! g = [] \<longleftrightarrow> (\<forall>j. count_at j (map (fst \<circ> flush_accum) as ! g) = 0)) \<and> (\<forall>j. count_at j (map (fst \<circ> flush_accum) as ! g) = held_at_idx (as ! g) j)"
proof -
  have F: "rising (fst (flush_accum a)) \<and> (fst (flush_accum a) = [] \<longleftrightarrow> (\<forall>j. count_at j (fst (flush_accum a)) = 0)) \<and> (\<forall>j. count_at j (fst (flush_accum a)) = held_at_idx a j) \<and>
      accum_ok (snd (flush_accum a)) \<and> accum_total (snd (flush_accum a)) = 0 \<and>
      (\<forall>j. held_at_idx (snd (flush_accum a)) j = 0) \<and> ac_buckets (snd (flush_accum a)) = ac_buckets a"
    if a: "accum_ok a" "accum_total a < 2 ^ 64" for a
  proof -
    obtain out a' where fl: "flush_accum a = (out, a')" by fastforce
    note R = flush_accum_ok [OF a fl]
    show ?thesis using R by (simp add: fl)
  qed
  show "empty_accums groups buckets (map (snd \<circ> flush_accum) as)"
    unfolding empty_accums_def using assms F by (auto simp: in_set_conv_nth)
  show "\<forall>g < groups. rising (map (fst \<circ> flush_accum) as ! g) \<and>
      (map (fst \<circ> flush_accum) as ! g = [] \<longleftrightarrow> (\<forall>j. count_at j (map (fst \<circ> flush_accum) as ! g) = 0)) \<and> (\<forall>j. count_at j (map (fst \<circ> flush_accum) as ! g) = held_at_idx (as ! g) j)"
    using assms F by simp
qed

lemma state_of_ok: "parts_ok n parts \<Longrightarrow> state_of t parts s = Some h \<Longrightarrow> snapshot_ok h"
proof -
  assume ok: "parts_ok n parts" and h: "state_of t parts s = Some h"
  then obtain r where "find (\<lambda>r. list_all (\<lambda>r'. hr_t r' \<le> hr_t r) (answers t parts s)) (answers t parts s) = Some r" "h = hr_snapshot r"
    by (auto simp: state_of_def Let_def)
  then have r: "r \<in> set (answers t parts s)" "h = hr_snapshot r" by (auto simp: find_Some_iff)
  then obtain ps l where ps: "ps \<in> set parts" "part_answer t (ps_rows ps) (ps_staleness ps) l = Some r"
    by (auto simp: answers_def in_map_filter split: if_splits)
  then have "latest_row (filter (\<lambda>r. hr_t r \<le> t) (ps_rows ps)) l = Some r" by (auto simp: part_answer_def split: option.splits if_splits)
  then have "r \<in> set (ps_rows ps)" using latest_row_in by fastforce
  then show ?thesis using ok ps(1) r(2) by (auto simp: parts_ok_def)
qed

lemma walk_times_ok:
  assumes "sorted ticks" "length parts = length parts0"
    "\<forall>p < length parts0. \<exists>seen. part_read (parts0 ! p) seen (parts ! p) \<and> (\<forall>r \<in> set seen. \<forall>t \<in> set ticks. hr_t r \<le> t)"
    "parts_ok n parts0" "\<forall>s < n. sg ! s < groups" "\<forall>t \<in> set ticks. total_of (state_of t parts0) n < 2 ^ 64"
    "empty_accums groups buckets accums"
  shows "map fst (walk_times n sg groups ticks parts accums) = ticks \<and>
    (\<forall>e \<in> set (walk_times n sg groups ticks parts accums). state_event_ok n sg groups buckets parts0 e)"
  using assms
proof (induction ticks arbitrary: parts accums)
  case (Cons t ticks)
  let ?parts = "map (part_upto t) parts"
  define best where "best = fold (part_best t) (enumerate 0 ?parts) (replicate n None)"
  obtain present as where sum: "add_answers ?parts sg best (replicate groups False, accums) = (present, as)" by fastforce
  have read: "part_read (parts0 ! p) (filter (\<lambda>r. hr_t r \<le> t) (ps_rows (parts0 ! p))) (?parts ! p)" if p: "p < length parts0" for p
  proof -
    obtain seen where seen: "part_read (parts0 ! p) seen (parts ! p)" "\<forall>r \<in> set seen. hr_t r \<le> t" using Cons.prems(3) p by auto
    have "parts0 ! p \<in> set parts0" using p by simp
    then have "sorted (map hr_t (ps_rows (parts0 ! p)))" "\<forall>r \<in> set (ps_rows (parts0 ! p)). hr_series r < length (ps_global (parts0 ! p))"
      using Cons.prems(4) unfolding parts_ok_def by blast+
    from part_upto_read [OF seen(1) this seen(2)] show ?thesis using p Cons.prems(2) by simp
  qed
  have len: "length ?parts = length parts0" using Cons.prems(2) by simp
  have best_len: "length best = n" unfolding best_def by (rule best_is_state(1) [OF len read Cons.prems(4)])
  have states: "\<forall>s < n. (case best ! s of None \<Rightarrow> None | Some (_, p, local) \<Rightarrow> map_option snd (ps_latest (?parts ! p) ! local)) = state_of t parts0 s"
    using best_is_state(2) [OF len read Cons.prems(4)] unfolding best_def by blast
  have "summed_ok sg groups buckets (state_of t parts0) n (present, as)"
    unfolding sum [symmetric] using Cons.prems(5,6,7) state_of_ok [OF Cons.prems(4)]
    by (intro add_answers_ok best_len states) auto
  then have S: "length present = groups" "length as = groups"
    "\<forall>g < groups. (present ! g \<longleftrightarrow> (\<exists>s < n. sg ! s = g \<and> state_of t parts0 s \<noteq> None)) \<and> accum_ok (as ! g) \<and> ac_buckets (as ! g) = buckets \<and>
        accum_total (as ! g) \<le> total_of (state_of t parts0) n \<and>
        (\<forall>j. held_at_idx (as ! g) j = (if unat j < buckets then summed sg (state_of t parts0) n g j else 0))"
    by (simp_all add: summed_ok_def)
  have "\<forall>g < groups. accum_ok (as ! g) \<and> ac_buckets (as ! g) = buckets \<and> accum_total (as ! g) < 2 ^ 64"
    using S(3) Cons.prems(6) by (auto intro: le_less_trans)
  note F = flush_accums [OF S(2) this]
  have ev: "state_event_ok n sg groups buckets parts0 (t, present, map (fst \<circ> flush_accum) as)"
    unfolding state_event_ok_def prod.case using S F(2) by simp
  have later: "\<forall>p < length parts0. \<exists>seen. part_read (parts0 ! p) seen (?parts ! p) \<and> (\<forall>r \<in> set seen. \<forall>t \<in> set ticks. hr_t r \<le> t)"
    using read Cons.prems(1) by (fastforce intro: order_trans)
  have "map fst (walk_times n sg groups ticks ?parts (map (snd \<circ> flush_accum) as)) = ticks \<and>
    (\<forall>e \<in> set (walk_times n sg groups ticks ?parts (map (snd \<circ> flush_accum) as)). state_event_ok n sg groups buckets parts0 e)"
    using Cons.prems(1,6) by (intro Cons.IH len later Cons.prems(4,5) F(1)) auto
  then show ?case using ev by (simp add: sum flip: best_def)
qed simp

section \<open>The parts of a read\<close>

definition readable :: "'h hist_crate \<Rightarrow> hist_stream \<Rightarrow> bool" where
  "readable hc s \<longleftrightarrow> config_ok hc (st_config s) \<and> sorted (map hr_t (st_rows s)) \<and>
     (\<forall>r \<in> set (st_rows s). hr_series r < length (st_series s) \<and> snapshot_ok (hr_snapshot r) \<and>
        (\<forall>i \<in> set (hs_index (hr_snapshot r)). unat i < hc_total_buckets hc (st_config s)))"

lemma rebucketed_rows:
  assumes "readable hc s" "config_ok hc config" "coarser config (st_config s)"
  shows "map hr_t (st_rows (rebucketed hc config s)) = map hr_t (st_rows s)"
    "\<forall>r \<in> set (st_rows (rebucketed hc config s)). hr_series r < length (st_series s) \<and> snapshot_ok (hr_snapshot r)"
  using assms rebucket_ok [OF _ assms(2,3)] by (auto simp: rebucketed_def readable_def)

lemma merge_parts_ok:
  assumes "layout_ok hc" "merge_parts hc parts = Some m" "\<forall>x \<in> set parts. readable hc (fst x)"
  shows "parts_ok (length (mp_series m)) (mp_parts m)" "config_ok hc (mp_config m)"
proof -
  obtain config globals series where c: "common_config hc (map (st_config \<circ> fst) parts) = Some config"
    "unify_series (map (st_series \<circ> fst) parts) [] = (globals, series)"
    and m: "m = \<lparr>mp_config = config, mp_series = series, mp_parts = map2 (part_state_new hc config) globals parts\<rparr>"
    using assms(2) by (auto simp: merge_parts_def split: option.splits prod.splits)
  have ne: "parts \<noteq> []" using c(1) by (auto simp: common_config_def)
  have C: "config_ok hc config" "coarser config (st_config (fst x))" if "x \<in> set parts" for x
    using common_config_coarser [OF assms(1) c(1), of "st_config (fst x)"] that by auto
  then show "config_ok hc (mp_config m)" using ne by (cases parts) (auto simp: m)
  note U = unify_series_ok [OF c(2)]
  show "parts_ok (length (mp_series m)) (mp_parts m)"
    unfolding parts_ok_def
  proof
    fix ps assume "ps \<in> set (mp_parts m)"
    then obtain i where i: "i < length parts" "ps = part_state_new hc config (globals ! i) (parts ! i)"
      using U by (auto simp: m in_set_conv_nth)
    obtain s st where part: "parts ! i = (s, st)" by fastforce
    have "(s, st) \<in> set parts" using i(1) part nth_mem by metis
    then have s: "readable hc s" "config_ok hc config" "coarser config (st_config s)" using assms(3) C by auto
    have g: "length (globals ! i) = length (st_series s)" "\<forall>k < length (st_series s). globals ! i ! k < length series"
      using U i(1) by (auto simp: part)
    have "\<forall>k \<in> set (globals ! i). k < length series" using g by (auto simp: in_set_conv_nth)
    then show "sorted (map hr_t (ps_rows ps)) \<and> (\<forall>r \<in> set (ps_rows ps). hr_series r < length (ps_global ps) \<and> snapshot_ok (hr_snapshot r)) \<and>
        (\<forall>g \<in> set (ps_global ps). g < length (mp_series m))"
      using rebucketed_rows [OF s] s(1) g(1) by (simp add: i(2) part part_state_new_def m readable_def)
  qed
qed

lemma walk_ok:
  assumes "layout_ok hc" "merge_parts hc parts = Some m" "\<forall>x \<in> set parts. readable hc (fst x)" "sorted ticks"
    "\<forall>s < length (mp_series m). sg ! s < groups" "\<forall>t \<in> set ticks. total_of (state_of t (mp_parts m)) (length (mp_series m)) < 2 ^ 64"
  shows "map fst (walk hc m ticks sg groups) = ticks \<and>
    (\<forall>e \<in> set (walk hc m ticks sg groups). state_event_ok (length (mp_series m)) sg groups (hc_total_buckets hc (mp_config m)) (mp_parts m) e)"
proof -
  note ok = merge_parts_ok(1) [OF assms(1-3)]
  have start: "part_read (mp_parts m ! p) [] (mp_parts m ! p)" if "p < length (mp_parts m)" for p
  proof -
    obtain config globals where "mp_parts m = map2 (part_state_new hc config) globals parts"
      using assms(2) by (auto simp: merge_parts_def split: option.splits prod.splits)
    then have "mp_parts m ! p = part_state_new hc config (globals ! p) (parts ! p)" using that by simp
    then show ?thesis by (cases "parts ! p") (simp add: part_read_def part_state_new_def)
  qed
  have "empty_accums groups (hc_total_buckets hc (mp_config m)) (replicate groups (accum_new hc (mp_config m)))"
    by (simp add: empty_accums_def) (simp add: accum_new_def)
  moreover have "\<forall>p < length (mp_parts m). \<exists>seen. part_read (mp_parts m ! p) seen (mp_parts m ! p) \<and> (\<forall>r \<in> set seen. \<forall>t \<in> set ticks. hr_t r \<le> t)"
    using start by fastforce
  ultimately show ?thesis unfolding walk_def using assms(4-6) ok by (intro walk_times_ok) simp_all
qed

lemma fold_state_points: "\<forall>e \<in> set es. length (fst (snd e)) = length outs \<Longrightarrow>
    fold (state_points F R config r) es outs = map (\<lambda>g. outs ! g @ concat (map (\<lambda>(t, present, groups).
       if \<not> present ! g then []
       else case (if groups ! g \<noteq> [] then state_value F R config (groups ! g) r else empty_value F r) of
          None \<Rightarrow> [] | Some (v, band) \<Rightarrow> [(seconds F t, v, band)]) es)) [0..<length outs]"
proof (induction es arbitrary: outs)
  case Nil
  then show ?case by (simp add: map_nth)
next
  case (Cons e es)
  have "length (state_points F R config r e outs) = length outs" by (simp add: state_points_def split: prod.split)
  then show ?case using Cons.IH [of "state_points F R config r e outs"] Cons.prems
    by (auto simp: state_points_def split: prod.split)
qed

section \<open>Properties\<close>

text \<open>C16. At each time, in order, the walk finds what looking every series up anew in all the parts would: a group has a series when
  some series of it has a row at or before the time that is not stale in its part, and its running counts, read bucket by
  bucket, are the sum over its series of the latest such row of each, and none when there are no items.\<close>

theorem gauge_states_are_looked_up:
  assumes "layout_ok hc" "merge_parts hc parts = Some m" "\<forall>x \<in> set parts. readable hc (fst x)" "sorted ticks"
    "\<forall>s < length (mp_series m). sg ! s < groups" "\<forall>t \<in> set ticks. total_of (state_of t (mp_parts m)) (length (mp_series m)) < 2 ^ 64"
  shows "map fst (walk hc m ticks sg groups) = ticks \<and>
    (\<forall>(t, present, cums) \<in> set (walk hc m ticks sg groups). length present = groups \<and> length cums = groups \<and>
       (\<forall>g < groups. (present ! g \<longleftrightarrow> (\<exists>s < length (mp_series m). sg ! s = g \<and> state_of t (mp_parts m) s \<noteq> None)) \<and> rising (cums ! g) \<and>
          (cums ! g = [] \<longleftrightarrow> (\<forall>j. count_at j (cums ! g) = 0)) \<and> (\<forall>j. count_at j (cums ! g) = (if unat j < hc_total_buckets hc (mp_config m)
             then summed sg (state_of t (mp_parts m)) (length (mp_series m)) g j else 0))))"
  using walk_ok [OF assms] by (simp add: state_event_ok_def)

text \<open>C31. \<open>histogram_count\<close> of gauge histograms has, for each group, one point for each time at which a series of the group has a
  state, with the number of items over the group's states, zero among them.\<close>

theorem gauge_count_counts_the_items:
  fixes hc :: "'h hist_crate" and m :: merged_parts and gb :: group_by and F :: "'f f64" and R :: "('f, 'k) hist_reader"
  assumes "layout_ok hc" "merge_parts hc parts = Some m" "\<forall>x \<in> set parts. readable hc (fst x)" "sorted ticks"
    "\<forall>t \<in> set ticks. total_of (state_of t (mp_parts m)) (length (mp_series m)) < 2 ^ 64"
    and total_count: "\<forall>cs. rising cs \<longrightarrow> qr_total R (mp_config m) cs = (if cs = [] then 0 else snd (last cs))"
  defines "sg \<equiv> fst (group_series gb (mp_series m))" and "gkeys \<equiv> snd (group_series gb (mp_series m))"
    and "series \<equiv> length (mp_series m)"
  defines "n \<equiv> \<lambda>g t. \<Sum>j | unat j < hc_total_buckets hc (mp_config m). summed sg (state_of t (mp_parts m)) series g j"
    and "present \<equiv> \<lambda>g t. \<exists>s < series. sg ! s = g \<and> state_of t (mp_parts m) s \<noteq> None"
  shows "gauge_reduce F hc R parts Reduce_Count gb ticks name =
    build_grouped_output name gkeys (map (\<lambda>g. map (\<lambda>t. (seconds F t, if n g t = 0 then f_zero F else f_of_u64 F (of_nat (n g t)), None))
      (filter (present g) ticks)) [0..<length gkeys]) True"
proof -
  have gs: "group_series gb (mp_series m) = (sg, gkeys)" by (simp add: sg_def gkeys_def)
  have groups: "\<forall>s < length (mp_series m). sg ! s < length gkeys" using assign_all_ok [OF gs [unfolded group_series_def]] by simp
  define es where "es = walk hc m ticks sg (length gkeys)"
  note W = walk_ok [OF assms(1-4) groups assms(5), folded es_def series_def]
  define point where "point g t = (seconds F t, if n g t = 0 then f_zero F else f_of_u64 F (of_nat (n g t)), None :: 'f band option)" for g t
  have one: "(\<lambda>(t, present, groups). if \<not> present ! g then []
       else case (if groups ! g \<noteq> [] then state_value F R (mp_config m) (groups ! g) Reduce_Count else empty_value F Reduce_Count) of
          None \<Rightarrow> [] | Some (v, band) \<Rightarrow> [(seconds F t, v, band)]) e = (if present g (fst e) then [point g (fst e)] else [])"
    if e: "e \<in> set es" and g: "g < length gkeys" for e g
  proof -
    obtain t pr cums where e': "e = (t, pr, cums)" by (cases e)
    have "state_event_ok series sg (length gkeys) (hc_total_buckets hc (mp_config m)) (mp_parts m) e" using W e by blast
    then have S: "pr ! g = present g t" "rising (cums ! g)" "cums ! g = [] \<longleftrightarrow> (\<forall>j. count_at j (cums ! g) = 0)"
      "\<forall>j. count_at j (cums ! g) = (if unat j < hc_total_buckets hc (mp_config m) then summed sg (state_of t (mp_parts m)) series g j else 0)"
      using g by (simp_all add: e' state_event_ok_def present_def)
    have sum: "(\<Sum>j \<in> UNIV. count_at j (cums ! g)) = n g t" using S(4) by (simp add: n_def sum.If_cases)
    then have top: "unat (top (cums ! g)) = n g t" using count_at_sum [OF S(2)] by simp
    have word: "top (cums ! g) = of_nat (n g t)" unfolding top [symmetric] by simp
    have empty: "cums ! g = [] \<longleftrightarrow> n g t = 0" unfolding sum [symmetric] S(3) by simp
    have "qr_total R (mp_config m) (cums ! g) = of_nat (n g t)" using total_count S(2) word by (simp add: top_def)
    then show ?thesis using empty by (auto simp: e' S(1) point_def state_value_def empty_value_def Let_def split: prod.split)
  qed
  have flat: "concat (map (\<lambda>e. if present g (fst e) then [point g (fst e)] else []) es) = map (point g) (filter (present g) (map fst es))" for g
    by (induction es) auto
  have len: "\<forall>e \<in> set es. length (fst (snd e)) = length (replicate (length gkeys) ([] :: ('f \<times> 'f \<times> 'f band option) list))"
    using W by (auto simp: state_event_ok_def)
  have "fold (state_points F R (mp_config m) Reduce_Count) es (replicate (length gkeys) []) =
      map (\<lambda>g. map (point g) (filter (present g) ticks)) [0..<length gkeys]"
    unfolding fold_state_points [OF len] length_replicate
  proof (rule map_cong [OF refl])
    fix g assume "g \<in> set [0..<length gkeys]"
    then have g: "g < length gkeys" by simp
    have "concat (map (\<lambda>(t, present, groups). if \<not> present ! g then []
       else case (if groups ! g \<noteq> [] then state_value F R (mp_config m) (groups ! g) Reduce_Count else empty_value F Reduce_Count) of
          None \<Rightarrow> [] | Some (v, band) \<Rightarrow> [(seconds F t, v, band)]) es) =
      concat (map (\<lambda>e. if present g (fst e) then [point g (fst e)] else []) es)"
      by (intro arg_cong [where f = concat] map_cong refl one g)
    then show "replicate (length gkeys) [] ! g @ concat (map (\<lambda>(t, present, groups). if \<not> present ! g then []
       else case (if groups ! g \<noteq> [] then state_value F R (mp_config m) (groups ! g) Reduce_Count else empty_value F Reduce_Count) of
          None \<Rightarrow> [] | Some (v, band) \<Rightarrow> [(seconds F t, v, band)]) es) = map (point g) (filter (present g) ticks)"
      using g W flat [of g] by simp
  qed
  moreover have "point = (\<lambda>g t. (seconds F t, if n g t = 0 then f_zero F else f_of_u64 F (of_nat (n g t)), None))"
    by (simp add: point_def fun_eq_iff)
  ultimately show ?thesis by (simp add: gauge_reduce_def assms(2) gs flip: es_def)
qed

end
