(* ===== verification/HistPlaces.thy ===== *)
theory HistPlaces
  imports HistTicks
begin

text \<open>
  Which window a strided histogram call puts a share in. A row's change goes to the windows between its series' row
  before and itself, to each the part of the interval inside it, as long as the window is still open when
  the row is read; and each event is one window's. When that is so is said of the rows alone, in \<open>prompt\<close>.
\<close>

section \<open>What a window is due\<close>

text \<open>The part of a change of \<open>n\<close> between \<open>p\<close> and \<open>t\<close> inside window \<open>w\<close>, in shares of an observation.\<close>

definition window_part :: "stride \<Rightarrow> int \<Rightarrow> u64 \<Rightarrow> u64 \<Rightarrow> nat \<Rightarrow> nat" where
  "window_part s w p t n =
     (let upto = min (unat (closes_ns s w)) (unat t) - unat p; before = max (unat (opens_ns s w)) (unat p) - unat p;
          span = unat t - unat p
      in n * unat SHARE_SCALE * upto div span - n * unat SHARE_SCALE * before div span)"

definition row_part :: "stride \<Rightarrow> int \<Rightarrow> int \<Rightarrow> u64 \<Rightarrow> u64 \<Rightarrow> nat \<Rightarrow> nat" where
  "row_part s first w p t n =
     (if t \<le> p \<or> stride_window s t \<le> stride_window s p then if w = stride_window s t then n * unat SHARE_SCALE else 0
      else if max (stride_window s p) first \<le> w \<and> w \<le> stride_window s t then window_part s w p t n else 0)"

definition placed_share :: "stride \<Rightarrow> int \<Rightarrow> hist_row list \<Rightarrow> nat \<Rightarrow> int \<Rightarrow> u32 \<Rightarrow> nat" where
  "placed_share s first rows k w j = (case latest_row (take k rows) (hr_series (rows ! k)) of
     None \<Rightarrow> 0
   | Some p \<Rightarrow> if stride_window s (hr_t (rows ! k)) < first then 0
       else row_part s first w (hr_t p) (hr_t (rows ! k)) (held_in (hr_snapshot (rows ! k)) j - held_in (hr_snapshot p) j))"

definition window_due :: "stride \<Rightarrow> int \<Rightarrow> nat list \<Rightarrow> hist_row list \<Rightarrow> int \<Rightarrow> nat \<Rightarrow> u32 \<Rightarrow> nat" where
  "window_due s first series_group rows w g j =
     (\<Sum>k < length rows. if series_group ! hr_series (rows ! k) = g then placed_share s first rows k w j else 0)"

text \<open>
  Rows are prompt when none is at zero and a series' next row comes before anything closes that it adds to: whatever was read
  before it is either less than twice the series' last interval after its last row, so the series is waited for, or
  no window closes between.
\<close>

definition ready :: "stride \<Rightarrow> u64 \<Rightarrow> u64 \<Rightarrow> u64 \<Rightarrow> bool" where
  "ready s p gap t \<longleftrightarrow> (0 < gap \<and> t - p < saturating_mul gap 2) \<or> (\<forall>w. p < closes_ns s w \<longrightarrow> t \<le> closes_ns s w)"

definition series_times :: "hist_row list \<Rightarrow> nat \<Rightarrow> u64 list" where
  "series_times rows i = map hr_t (filter (\<lambda>r. hr_series r = i) rows)"

definition last_gap :: "u64 list \<Rightarrow> u64" where
  "last_gap ts = (if length ts < 2 then 0 else last ts - last (butlast ts))"

definition prompt :: "stride \<Rightarrow> hist_row list \<Rightarrow> bool" where
  "prompt s rows \<longleftrightarrow> (\<forall>k < length rows. 0 < hr_t (rows ! k) \<and>
     (let ts = series_times (take k rows) (hr_series (rows ! k))
      in ts \<noteq> [] \<longrightarrow> (\<forall>i < k. last ts < hr_t (rows ! i) \<longrightarrow> ready s (last ts) (last_gap ts) (hr_t (rows ! i)))))"

section \<open>The ledger\<close>

type_synonym ledger = "int \<Rightarrow> nat \<Rightarrow> u32 \<Rightarrow> nat"

definition enter :: "int \<Rightarrow> nat \<Rightarrow> (u32 \<Rightarrow> nat) \<Rightarrow> ledger \<Rightarrow> ledger" where
  "enter w g f L = (\<lambda>w' h j. L w' h j + (if w' = w \<and> h = g then f j else 0))"

lemma enter_zero [simp]: "enter w g (\<lambda>_. 0) L = L"
  by (simp add: enter_def fun_eq_iff)

text \<open>The open windows hold what the ledger says, and the ledger says nothing of a window that was never open.\<close>

definition ledger_ok :: "splitter \<Rightarrow> ledger \<Rightarrow> bool" where
  "ledger_ok sp L \<longleftrightarrow> (\<forall>(w, as) \<in> set (sw_open sp). \<forall>g < sw_groups sp. \<forall>j. held_at_idx (as ! g) j = L w g j) \<and>
     (\<forall>w > sw_closed_to sp. w \<notin> fst ` set (sw_open sp) \<longrightarrow> (\<forall>g < sw_groups sp. \<forall>j. L w g j = 0))"

definition event_of :: "stride \<Rightarrow> u64 \<Rightarrow> nat \<Rightarrow> ledger \<Rightarrow> int \<Rightarrow> hist_event \<Rightarrow> bool" where
  "event_of s stop_at groups L w e \<longleftrightarrow>
     fst e = (let stamp = min (closes_ns s w) stop_at in if sr_emit_from s \<le> stamp then Some stamp else None) \<and>
     (\<forall>g < groups. \<forall>j. count_at j (snd e ! g) = L w g j)"

text \<open>The events are those of the windows closed meanwhile, in order, with what the ledger says of each.\<close>

definition gives :: "u64 \<Rightarrow> splitter \<Rightarrow> ledger \<Rightarrow> hist_event list \<Rightarrow> splitter \<Rightarrow> ledger \<Rightarrow> bool" where
  "gives stop_at sp L es sp' L' \<longleftrightarrow> sw_stride sp' = sw_stride sp \<and> sw_groups sp' = sw_groups sp \<and>
     sw_closed_to sp \<le> sw_closed_to sp' \<and> ledger_ok sp' L' \<and>
     (\<forall>w \<le> sw_closed_to sp. \<forall>g < sw_groups sp. \<forall>j. L' w g j = L w g j) \<and>
     (\<exists>ws. sorted_wrt (<) ws \<and> (\<forall>w \<in> set ws. sw_closed_to sp < w \<and> w \<le> sw_closed_to sp') \<and>
        list_all2 (event_of (sw_stride sp) stop_at (sw_groups sp) L') ws es \<and>
        (\<forall>w. sw_closed_to sp < w \<longrightarrow> w \<le> sw_closed_to sp' \<longrightarrow> w \<notin> set ws \<longrightarrow> (\<forall>g < sw_groups sp. \<forall>j. L' w g j = 0)))"

lemma gives_refl: "ledger_ok sp L \<Longrightarrow> gives T sp L [] sp L"
  unfolding gives_def by (intro conjI exI [of _ "[]"]) auto

lemma gives_none:
  "sw_stride sp' = sw_stride sp \<Longrightarrow> sw_groups sp' = sw_groups sp \<Longrightarrow> sw_closed_to sp' = sw_closed_to sp \<Longrightarrow> ledger_ok sp' L' \<Longrightarrow>
     (\<And>w g j. w \<le> sw_closed_to sp \<Longrightarrow> g < sw_groups sp \<Longrightarrow> L' w g j = L w g j) \<Longrightarrow> gives T sp L [] sp' L'"
  unfolding gives_def by (intro conjI exI [of _ "[]"]) auto

lemma gives_trans:
  assumes "gives T a L es b L1" "gives T b L1 es' c L2"
  shows "gives T a L (es @ es') c L2"
proof -
  have f: "sw_stride b = sw_stride a" "sw_groups b = sw_groups a" "sw_closed_to a \<le> sw_closed_to b" "sw_closed_to b \<le> sw_closed_to c"
    using assms by (auto simp: gives_def)
  from assms(1) obtain ws where ws: "sorted_wrt (<) ws" "\<forall>w \<in> set ws. sw_closed_to a < w \<and> w \<le> sw_closed_to b"
    "list_all2 (event_of (sw_stride a) T (sw_groups a) L1) ws es"
    "\<forall>w. sw_closed_to a < w \<longrightarrow> w \<le> sw_closed_to b \<longrightarrow> w \<notin> set ws \<longrightarrow> (\<forall>g < sw_groups a. \<forall>j. L1 w g j = 0)"
    by (auto simp: gives_def)
  from assms(2) f obtain vs where vs: "sorted_wrt (<) vs" "\<forall>w \<in> set vs. sw_closed_to b < w \<and> w \<le> sw_closed_to c"
    "list_all2 (event_of (sw_stride a) T (sw_groups a) L2) vs es'"
    "\<forall>w. sw_closed_to b < w \<longrightarrow> w \<le> sw_closed_to c \<longrightarrow> w \<notin> set vs \<longrightarrow> (\<forall>g < sw_groups a. \<forall>j. L2 w g j = 0)"
    by (auto simp: gives_def)
  have same: "L2 w g j = L1 w g j" if "w \<le> sw_closed_to b" "g < sw_groups a" for w g j
    using assms(2) that f by (auto simp: gives_def)
  have "list_all2 (event_of (sw_stride a) T (sw_groups a) L2) ws es"
    by (rule list.rel_mono_strong [OF ws(3)]) (use ws(2) same in \<open>auto simp: event_of_def\<close>)
  then have "list_all2 (event_of (sw_stride a) T (sw_groups a) L2) (ws @ vs) (es @ es')" using vs(3) by (rule list_all2_appendI)
  moreover have "sorted_wrt (<) (ws @ vs)" using ws(1,2) vs(1,2) by (fastforce simp: sorted_wrt_append)
  moreover have "\<forall>w \<in> set (ws @ vs). sw_closed_to a < w \<and> w \<le> sw_closed_to c" using ws(2) vs(2) f by fastforce
  moreover have "\<forall>w. sw_closed_to a < w \<longrightarrow> w \<le> sw_closed_to c \<longrightarrow> w \<notin> set (ws @ vs) \<longrightarrow> (\<forall>g < sw_groups a. \<forall>j. L2 w g j = 0)"
  proof (intro allI impI)
    fix w g j
    assume w: "sw_closed_to a < w" "w \<le> sw_closed_to c" "w \<notin> set (ws @ vs)" "g < sw_groups a"
    show "L2 w g j = 0"
    proof (cases "w \<le> sw_closed_to b")
      case True
      then show ?thesis using ws(4) w same by simp
    next
      case False
      then show ?thesis using vs(4) w by simp
    qed
  qed
  moreover have "\<forall>w \<le> sw_closed_to a. \<forall>g < sw_groups a. \<forall>j. L2 w g j = L w g j"
    using assms(1) same f by (auto simp: gives_def)
  moreover have "ledger_ok c L2" using assms(2) by (simp add: gives_def)
  moreover have "sw_stride c = sw_stride a" "sw_groups c = sw_groups a" "sw_closed_to a \<le> sw_closed_to c"
    using assms by (auto simp: gives_def)
  ultimately show ?thesis unfolding gives_def by blast
qed

lemma ledger_okD: "ledger_ok sp L \<Longrightarrow> (w, as) \<in> set (sw_open sp) \<Longrightarrow> g < sw_groups sp \<Longrightarrow> held_at_idx (as ! g) j = L w g j"
  unfolding ledger_ok_def by fastforce

section \<open>Adding to a window\<close>

lemma window_at_ledger:
  assumes ok: "splitter_ok sp" and code: "window_at k sp = (pos, sp')" and L: "ledger_ok sp L"
  shows "ledger_ok sp' L"
proof -
  define kk where "kk = max k (sw_closed_to sp + 1)"
  define at_pos where "at_pos = partition_point (\<lambda>(j, _). j < kk) (sw_open sp)"
  define new_as where "new_as = (if sw_spare sp = [] then replicate (sw_groups sp) (sw_new sp) else last (sw_spare sp))"
  have W: "splitter_ok sp'" "sw_closed_to sp' = sw_closed_to sp" using window_at_ok [OF ok code] by blast+
  show ?thesis
  proof (cases "at_pos < length (sw_open sp) \<and> fst (sw_open sp ! at_pos) = kk")
    case True
    then have "sp' = sp" using code by (auto simp: window_at_def Let_def at_pos_def kk_def)
    then show ?thesis using L by simp
  next
    case False
    then have new: "sp' = sp\<lparr>sw_spare := butlast (sw_spare sp), sw_open := take at_pos (sw_open sp) @ (kk, new_as) # drop at_pos (sw_open sp)\<rparr>"
      using code by (auto simp: window_at_def Let_def at_pos_def kk_def new_as_def)
    have split: "set (sw_open sp) = set (take at_pos (sw_open sp)) \<union> set (drop at_pos (sw_open sp))"
      by (metis append_take_drop_id set_append)
    have fresh: "kk \<notin> fst ` set (sw_open sp)"
    proof -
      have "distinct (map fst (sw_open sp'))" using W(1) by (simp add: splitter_ok_def strict_sorted_iff)
      then show ?thesis unfolding split by (auto simp: new image_Un)
    qed
    have zero: "held_at_idx (new_as ! g) j = 0" if "g < sw_groups sp" for g j
    proof (cases "sw_spare sp = []")
      case True
      then show ?thesis using ok that by (simp add: new_as_def splitter_ok_def)
    next
      case spare: False
      then have "new_as \<in> set (sw_spare sp)" by (simp add: new_as_def)
      then have "accums_ok sp new_as" "\<forall>a \<in> set new_as. \<forall>j. held_at_idx a j = 0" using ok by (auto simp: splitter_ok_def)
      then show ?thesis using that by (simp add: accums_ok_def)
    qed
    have "L kk g j = 0" if "g < sw_groups sp" for g j using L fresh that by (auto simp: ledger_ok_def kk_def)
    then show ?thesis using L zero split unfolding ledger_ok_def by (auto simp: new)
  qed
qed

lemma add_shares_gives:
  assumes ok: "splitter_ok sp" and g: "g < sw_groups sp" and bound: "weight sp + amount shares < 2 ^ 64" and L: "ledger_ok sp L"
  shows "gives T sp L [] (add_shares k g shares sp)
    (enter (max k (sw_closed_to sp + 1)) g (\<lambda>j. amount_at (ac_buckets (sw_new sp)) j shares) L)"
proof -
  define w where "w = max k (sw_closed_to sp + 1)"
  define f where "f = (\<lambda>j. amount_at (ac_buckets (sw_new sp)) j shares)"
  obtain pos sp1 where at_k: "window_at k sp = (pos, sp1)" by fastforce
  note W = window_at_ok [OF ok at_k]
  obtain as where at_pos: "sw_open sp1 ! pos = (w, as)" using W by (cases "sw_open sp1 ! pos") (auto simp: w_def)
  define a' where "a' = fold (\<lambda>(idx, c). accum_add idx c) shares (as ! g)"
  have sp': "add_shares k g shares sp = sp1\<lparr>sw_open := (sw_open sp1)[pos := (w, as[g := a'])]\<rparr>"
    by (simp add: add_shares_def at_k at_pos a'_def)
  have pos: "pos < length (sw_open sp1)" and ok1: "splitter_ok sp1" and fr: "same_frame sp sp1" and w1: "weight sp1 = weight sp"
    and cl: "sw_closed_to sp1 = sw_closed_to sp"
    using W by auto
  have mem: "(w, as) \<in> set (sw_open sp1)" using pos at_pos by (metis nth_mem)
  then have as: "accums_ok sp1 as" using ok1 by (force simp: splitter_ok_def)
  then have g1: "g < length as" using g fr by (simp add: accums_ok_def same_frame_def)
  then have ag: "accum_ok (as ! g)" "ac_buckets (as ! g) = ac_buckets (sw_new sp)" using as fr by (auto simp: accums_ok_def same_frame_def)
  have "accum_total (as ! g) \<le> sum_list (map accum_total as)" by (rule elem_le_sum_list [OF g1])
  also have "\<dots> \<le> weight sp1" unfolding weight_def
    using elem_le_sum_list [OF pos, of "\<lambda>x. sum_list (map accum_total (snd x))"] at_pos by simp
  finally have "accum_total (as ! g) + sum_list (map (unat \<circ> snd) shares) < 2 ^ 64" using bound w1 by (simp add: amount_def)
  then have a': "held_at_idx a' j = held_at_idx (as ! g) j + f j" for j
    using accum_fold_ok [OF ag(1)] by (simp add: a'_def f_def amount_at_def ag(2))
  have L1: "ledger_ok sp1 L" by (rule window_at_ledger [OF ok at_k L])
  have dist: "distinct (map fst (sw_open sp1))" using ok1 by (simp add: splitter_ok_def strict_sorted_iff)
  have others: "v \<noteq> w \<and> (v, bs) \<in> set (sw_open sp1)"
    if "(v, bs) \<in> set ((sw_open sp1)[pos := (w, as[g := a'])])" "(v, bs) \<noteq> (w, as[g := a'])" for v bs
  proof -
    from that(1) obtain i where i: "i < length (sw_open sp1)" "(sw_open sp1)[pos := (w, as[g := a'])] ! i = (v, bs)"
      unfolding in_set_conv_nth by auto
    have apart: "i \<noteq> pos"
    proof
      assume "i = pos"
      then show False using i(2) that(2) pos by simp
    qed
    then have at_i: "sw_open sp1 ! i = (v, bs)" using i(2) by simp
    have "map fst (sw_open sp1) ! i \<noteq> map fst (sw_open sp1) ! pos"
      using nth_eq_iff_index_eq [OF dist, of i pos] i(1) pos apart by simp
    then have "v \<noteq> w" using i(1) pos at_i at_pos by simp
    moreover have "(v, bs) \<in> set (sw_open sp1)" using nth_mem [OF i(1)] at_i by simp
    ultimately show ?thesis by blast
  qed
  have keys: "fst ` set ((sw_open sp1)[pos := (w, as[g := a'])]) = fst ` set (sw_open sp1)"
  proof -
    have "map fst ((sw_open sp1)[pos := (w, as[g := a'])]) = map fst (sw_open sp1)"
      using at_pos pos by (simp add: map_update) (metis fst_conv list_update_id nth_map)
    then show ?thesis by (metis set_map)
  qed
  have grp: "sw_groups sp1 = sw_groups sp" using fr by (simp add: same_frame_def)
  have "held_at_idx (bs ! h) j = enter w g f L v h j"
    if in_set: "(v, bs) \<in> set ((sw_open sp1)[pos := (w, as[g := a'])])" and h: "h < sw_groups sp" for v bs h j
  proof (cases "(v, bs) = (w, as[g := a'])")
    case True
    have "held_at_idx (as ! h) j = L w h j" using ledger_okD [OF L1 mem] h grp by simp
    then show ?thesis using True a' g1 by (cases "h = g") (auto simp: enter_def)
  next
    case False
    then show ?thesis using others [OF in_set False] ledger_okD [OF L1, of v bs h j] h grp by (simp add: enter_def)
  qed
  moreover have "enter w g f L v h j = 0" if "sw_closed_to sp < v" "v \<notin> fst ` set (sw_open sp1)" "h < sw_groups sp" for v h j
  proof -
    have "v \<noteq> w" using that(2) mem by force
    then show ?thesis using L1 that grp cl by (simp add: ledger_ok_def enter_def)
  qed
  ultimately have "ledger_ok (add_shares k g shares sp) (enter w g f L)"
    unfolding ledger_ok_def sp' by (auto simp: grp cl keys)
  then show ?thesis
    unfolding w_def [symmetric] f_def [symmetric]
    using fr cl by (intro gives_none) (auto simp: sp' same_frame_def enter_def w_def)
qed

section \<open>Closing windows\<close>

lemma close_one_gives:
  assumes ok: "splitter_ok sp" and small: "weight sp < 2 ^ 64" and ne: "sw_open sp \<noteq> []" and code: "close_one cap sp = (e, sp')"
    and L: "ledger_ok sp L" and cap: "min (closes_ns (sw_stride sp) (fst (hd (sw_open sp)))) cap = min (closes_ns (sw_stride sp) (fst (hd (sw_open sp)))) T"
  shows "gives T sp L [e] sp' L"
proof -
  obtain w as rest where op: "sw_open sp = (w, as) # rest" using ne by (cases "sw_open sp") auto
  let ?c = "closes_ns (sw_stride sp) w"
  have "e = (if sr_emit_from (sw_stride sp) \<le> min ?c cap then Some (min ?c cap) else None, map (fst \<circ> flush_accum) as)"
    using code by (auto simp only: close_one_def op Let_def list.sel prod.case prod.inject map_map split: if_splits)
  moreover have "min ?c cap = min ?c T" using cap by (simp only: op list.sel fst_conv)
  ultimately have e: "e = (if sr_emit_from (sw_stride sp) \<le> min (closes_ns (sw_stride sp) w) T then Some (min (closes_ns (sw_stride sp) w) T) else None,
        map (fst \<circ> flush_accum) as)" by (simp only:)
  have sp': "sp' = sp\<lparr>sw_open := rest, sw_closed_to := w, sw_spare := sw_spare sp @ [map (snd \<circ> flush_accum) as]\<rparr>"
    using code by (auto simp: close_one_def op Let_def)
  have as: "accums_ok sp as" "sw_closed_to sp < w" and rest: "\<forall>x \<in> set rest. w < fst x"
    using ok by (auto simp: splitter_ok_def op)
  have "count_at j (map (fst \<circ> flush_accum) as ! g) = L w g j" if g: "g < sw_groups sp" for g j
  proof -
    have g1: "g < length as" using as(1) g by (simp add: accums_ok_def)
    then have "accum_total (as ! g) \<le> sum_list (map accum_total as)" by (intro elem_le_sum_list)
    also have "\<dots> \<le> weight sp" by (simp add: weight_def op)
    finally have "accum_total (as ! g) < 2 ^ 64" using small by simp
    moreover have "accum_ok (as ! g)" using as(1) g1 by (auto simp: accums_ok_def)
    ultimately have "count_at j (fst (flush_accum (as ! g))) = held_at_idx (as ! g) j"
      using flush_accum_ok(2) [of "as ! g" "fst (flush_accum (as ! g))" "snd (flush_accum (as ! g))"] by simp
    then show ?thesis using L g g1 by (simp add: ledger_ok_def op)
  qed
  then have event: "event_of (sw_stride sp) T (sw_groups sp) L w e" by (simp add: event_of_def e)
  have "ledger_ok sp' L"
    using L rest as(2) unfolding ledger_ok_def by (fastforce simp: sp' op)
  moreover have "same_frame sp sp'" using as(2) by (simp add: same_frame_def sp')
  moreover have "L v g j = 0" if "sw_closed_to sp < v" "v \<le> w" "v \<noteq> w" "g < sw_groups sp" for v g j
  proof -
    have "v \<notin> fst ` set (sw_open sp)" using that rest by (fastforce simp: op)
    then show ?thesis using L that by (simp add: ledger_ok_def)
  qed
  ultimately show ?thesis unfolding gives_def
    using event as(2) by (intro conjI exI [of _ "[w]"]) (auto simp: sp')
qed

lemma close_through_gives:
  "splitter_ok sp \<Longrightarrow> weight sp < 2 ^ 64 \<Longrightarrow> close_through until cap sp = (es, sp') \<Longrightarrow> ledger_ok sp L \<Longrightarrow>
     cap = T \<or> until \<le> cap \<and> cap \<le> T \<Longrightarrow>
     gives T sp L es sp' L \<and> set (sw_open sp') \<subseteq> set (sw_open sp) \<and>
     (sw_closed_to sp' = sw_closed_to sp \<or> closes_ns (sw_stride sp) (sw_closed_to sp') \<le> until)"
proof (induction until cap sp arbitrary: es sp' rule: close_through.induct)
  case (1 until cap sp)
  show ?case
  proof (cases "sw_open sp \<noteq> [] \<and> closes_ns (sw_stride sp) (fst (hd (sw_open sp))) \<le> until")
    case True
    obtain e sp1 where one: "close_one cap sp = (e, sp1)" by fastforce
    obtain es1 sp2 where rest: "close_through until cap sp1 = (es1, sp2)" by fastforce
    have "close_through until cap sp = (e # es1, sp2)" using True by (subst close_through.simps) (simp add: one rest)
    then have out: "es = [e] @ es1" "sp' = sp2" using 1(4) by auto
    have "min (closes_ns (sw_stride sp) (fst (hd (sw_open sp)))) cap = min (closes_ns (sw_stride sp) (fst (hd (sw_open sp)))) T"
      using True 1(6) by (auto simp: min_def)
    with close_one_gives [OF 1(2,3) _ one 1(5)] True have G: "gives T sp L [e] sp1 L" by blast
    have "emits cap sp [e] sp1" using close_one_ok [OF 1(2,3) _ one] True by blast
    then have S: "splitter_ok sp1" "weight sp1 < 2 ^ 64" using 1(3) by (auto simp: emits_def)
    have A: "ledger_ok sp1 L" using G by (simp add: gives_def)
    note IH = 1(1) [OF True one [symmetric] refl S rest A 1(6)]
    have c: "sw_closed_to sp1 = fst (hd (sw_open sp))" "set (sw_open sp1) \<subseteq> set (sw_open sp)" "sw_stride sp1 = sw_stride sp"
      using one True by (auto simp: close_one_def Let_def split: prod.splits intro: list.set_sel(2))
    show ?thesis unfolding out using gives_trans [OF G conjunct1 [OF IH]] IH c True by auto
  next
    case False
    then show ?thesis using 1(4,5) by (subst (asm) close_through.simps) (auto intro: gives_refl)
  qed
qed


section \<open>The time a series is waited for\<close>

definition waited :: "splitter \<Rightarrow> u64 \<Rightarrow> u64 \<Rightarrow> bool" where
  "waited sp t v \<longleftrightarrow> v \<le> t \<and> (\<forall>p gap. Some (p, gap) \<in> set (sw_latest sp) \<longrightarrow> 0 < gap \<longrightarrow>
     saturating_sub t p < saturating_mul gap 2 \<longrightarrow> v \<le> p)"

definition settled_ok :: "u64 \<Rightarrow> splitter \<Rightarrow> bool" where
  "settled_ok t sp \<longleftrightarrow> (\<forall>asked known. sw_settled_at sp = Some (asked, known) \<longrightarrow> asked \<le> t \<and> waited sp asked known)"

lemma fold_min_le: "fold min xs t \<le> t" "x \<in> set xs \<Longrightarrow> fold min xs t \<le> x" for t :: u64
proof -
  show start: "fold min xs t \<le> t" for xs and t :: u64
  proof (induction xs arbitrary: t)
    case (Cons y xs)
    from Cons [of "min y t"] show ?case by simp
  qed simp
  show "x \<in> set xs \<Longrightarrow> fold min xs t \<le> x"
  proof (induction xs arbitrary: t)
    case (Cons y xs)
    then show ?case using start [of xs "min y t"] by auto
  qed simp
qed

lemma in_somes: "Some x \<in> set xs \<Longrightarrow> x \<in> set (List.map_filter id xs)"
  by (induction xs) (auto simp: map_filter_simps split: option.split)

lemma settled_time_waited:
  assumes "settled_ok t sp" "settled_time t sp = (v, sp1)"
  shows "waited sp t v \<and> settled_ok t sp1"
proof -
  define x where "x = fold min (map fst (filter (\<lambda>(row, dt). 0 < dt \<and> saturating_sub t row < saturating_mul dt 2)
          (List.map_filter id (sw_latest sp)))) t"
  have "waited sp t x"
    unfolding waited_def
  proof (intro conjI allI impI)
    show "x \<le> t" unfolding x_def by (rule fold_min_le(1))
    fix p gap
    assume p: "Some (p, gap) \<in> set (sw_latest sp)" "0 < gap" "saturating_sub t p < saturating_mul gap 2"
    have "(p, gap) \<in> set (List.map_filter id (sw_latest sp))"
      using p(1) by (rule in_somes)
    then show "x \<le> p" unfolding x_def using p(2,3) by (intro fold_min_le(2)) force
  qed
  moreover have "(v = x \<and> sp1 = sp\<lparr>sw_settled_at := Some (t, x)\<rparr>) \<or> (sw_settled_at sp = Some (t, v) \<and> sp1 = sp)"
    using assms(2) by (auto simp: settled_time_def x_def [symmetric] Let_def split: option.splits if_splits)
  ultimately show ?thesis using assms(1) by (auto simp: settled_ok_def waited_def)
qed

lemma settled_at_kept:
  "window_at k sp = (pos, sp1) \<Longrightarrow> sw_settled_at sp1 = sw_settled_at sp"
  "sw_settled_at (add_shares k g shares sp) = sw_settled_at sp"
  "close_one cap sp = (e, sp1) \<Longrightarrow> sw_settled_at sp1 = sw_settled_at sp"
proof -
  show at_k: "window_at k sp = (pos, sp1) \<Longrightarrow> sw_settled_at sp1 = sw_settled_at sp" for k pos sp1
    by (auto simp: window_at_def Let_def split: if_splits)
  show "sw_settled_at (add_shares k g shares sp) = sw_settled_at sp"
    using at_k by (auto simp: add_shares_def split: prod.split)
  show "close_one cap sp = (e, sp1) \<Longrightarrow> sw_settled_at sp1 = sw_settled_at sp"
    by (auto simp: close_one_def Let_def split: prod.splits)
qed

lemma close_through_settled: "close_through until cap sp = (es, sp') \<Longrightarrow> sw_settled_at sp' = sw_settled_at sp"
proof (induction until cap sp arbitrary: es sp' rule: close_through.induct)
  case (1 until cap sp)
  show ?case
  proof (cases "sw_open sp \<noteq> [] \<and> closes_ns (sw_stride sp) (fst (hd (sw_open sp))) \<le> until")
    case True
    obtain e sp1 where one: "close_one cap sp = (e, sp1)" by fastforce
    obtain es1 sp2 where rest: "close_through until cap sp1 = (es1, sp2)" by fastforce
    have "sp' = sp2" using True 1(2) by (subst (asm) close_through.simps) (simp add: one rest)
    then show ?thesis using 1(1) [OF True one [symmetric] refl rest] settled_at_kept(3) [OF one] by simp
  next
    case False
    then show ?thesis using 1(2) by (subst (asm) close_through.simps) auto
  qed
qed

lemma settled_ok_frame: "sw_settled_at sp' = sw_settled_at sp \<Longrightarrow> sw_latest sp' = sw_latest sp \<Longrightarrow> settled_ok t sp' = settled_ok t sp"
  by (simp add: settled_ok_def waited_def)

section \<open>No window closes early\<close>

text \<open>The open windows lie between the first one and the call's last, so they are few enough.\<close>

definition few :: "int \<Rightarrow> splitter \<Rightarrow> bool" where
  "few W sp \<longleftrightarrow> sw_first sp \<le> sw_closed_to sp + 1 \<and> (\<forall>x \<in> set (sw_open sp). fst x \<le> W)"

lemma few_excess:
  assumes "splitter_ok sp" "few W sp" "W < sw_first sp + 256"
  shows "close_excess cap sp = ([], sp)"
proof -
  have dist: "distinct (map fst (sw_open sp))" using assms(1) by (simp add: splitter_ok_def strict_sorted_iff)
  have "fst ` set (sw_open sp) \<subseteq> {sw_closed_to sp + 1..W}"
    using assms(1,2) by (fastforce simp: splitter_ok_def few_def)
  then have "card (fst ` set (sw_open sp)) \<le> card {sw_closed_to sp + 1..W}" by (intro card_mono) auto
  moreover have "card (fst ` set (sw_open sp)) = length (sw_open sp)"
    using distinct_card [OF dist] by simp
  moreover have "W - sw_closed_to sp \<le> 256" using assms(2,3) by (simp add: few_def)
  then have "nat (W - sw_closed_to sp) \<le> 256" by simp
  ultimately have "\<not> MAX_OPEN_WINDOWS < length (sw_open sp)" by (simp add: MAX_OPEN_WINDOWS_def)
  then show ?thesis by (subst close_excess.simps) simp
qed

lemma add_shares_opens:
  assumes "splitter_ok sp"
  shows "\<forall>x \<in> set (sw_open (add_shares k g shares sp)). fst x \<in> insert (max k (sw_closed_to sp + 1)) (fst ` set (sw_open sp))"
proof -
  obtain pos sp1 where at_k: "window_at k sp = (pos, sp1)" by fastforce
  note W = window_at_ok [OF assms at_k]
  obtain as where at_pos: "sw_open sp1 ! pos = (max k (sw_closed_to sp + 1), as)" using W by (cases "sw_open sp1 ! pos") auto
  have "fst ` set (sw_open sp1) \<subseteq> insert (max k (sw_closed_to sp + 1)) (fst ` set (sw_open sp))"
    using at_k by (auto simp: window_at_def Let_def split: if_splits dest!: in_set_takeD in_set_dropD)
  moreover have "fst ` set (sw_open (add_shares k g shares sp)) \<subseteq> insert (max k (sw_closed_to sp + 1)) (fst ` set (sw_open sp1))"
    by (auto simp: add_shares_def at_k at_pos dest!: set_update_subset_insert [THEN subsetD])
  ultimately show ?thesis by blast
qed

lemma opens_before:
  assumes "stride_ok s" "0 < t"
  shows "opens_ns s (stride_window s t) < t"
proof -
  have "0 < uint t" using assms(2) by (simp add: word_less_def)
  then show ?thesis
    using stride_window_bounds(1) [OF assms(1), of t] by (simp add: word_less_def uint_opens clamped_def)
qed

lemma stride_window_mono:
  assumes "stride_ok s" "t \<le> t'"
  shows "stride_window s t \<le> stride_window s t'"
proof (rule ccontr)
  let ?n = "uint (sr_ns s)"
  assume "\<not> stride_window s t \<le> stride_window s t'"
  then have "stride_window s t' * ?n \<le> (stride_window s t - 1) * ?n" by (intro mult_right_mono) auto
  moreover have "uint t \<le> uint t'" using assms(2) by (simp add: word_le_def)
  ultimately show False using stride_window_bounds(1) [OF assms(1), of t] stride_window_bounds(2) [OF assms(1), of t'] by linarith
qed

lemma closed_share:
  assumes "p \<le> closes_ns s k" "p < t" "closes_ns s k \<le> max p (opens_ns s k)"
  shows "window_shares s p t k ds = []"
proof -
  define u where "u = unat (min (closes_ns s k) t - p)"
  define l where "l = unat (max (opens_ns s k) p - p)"
  have "min (closes_ns s k) t \<le> max (opens_ns s k) p" using assms(3) by (simp add: max.commute min_le_iff_disj)
  moreover have "p \<le> min (closes_ns s k) t" "p \<le> max (opens_ns s k) p" using assms(1,2) by simp_all
  ultimately have "u \<le> l" unfolding u_def l_def by (simp only: unat_sub) (simp add: word_le_nat_alt diff_le_mono)
  moreover have "0 < unat (t - p)" using assms(2) unat_sub [OF order_less_imp_le [OF assms(2)]] by (simp add: word_less_nat_alt)
  ultimately have zero: "share_of d l u (unat (t - p)) = 0" for d
    by (simp add: share_of_def mul_div_floor div_le_mono mult_le_mono)
  show ?thesis unfolding window_shares_def Let_def u_def [symmetric] l_def [symmetric] zero
    by (induction ds) (auto simp: map_filter_simps)
qed


section \<open>A row's shares, window by window\<close>

lemma share_windows_gives:
  assumes "splitter_ok sp" "g < sw_groups sp" "sw_stride sp = s" "stride_ok s"
    "weight sp + sum_list (map (\<lambda>k. amount (window_shares s p t k ds)) [k0..stride_window s t]) < 2 ^ 64"
    "ledger_ok sp L" "few W sp" "W < sw_first sp + 256" "stride_window s t \<le> W" "t \<le> T"
    "p < t" "stride_window s p \<le> k0" "sw_closed_to sp < stride_window s t"
    "sw_closed_to sp < k0 \<or> closes_ns s (sw_closed_to sp) \<le> max p (opens_ns s k0)"
    "share_windows g p t ds (stride_window s t) v [k0..stride_window s t] sp = (es, sp')"
  shows "gives T sp L es sp' (\<lambda>w h j. L w h j +
        (if h = g \<and> k0 \<le> w \<and> w \<le> stride_window s t then amount_at (ac_buckets (sw_new sp)) j (window_shares s p t w ds) else 0)) \<and>
    few W sp' \<and> sw_settled_at sp' = sw_settled_at sp \<and>
    (sw_closed_to sp' = sw_closed_to sp \<or> closes_ns s (sw_closed_to sp') < t \<and> closes_ns s (sw_closed_to sp') \<le> v)"
  using assms
proof (induction "nat (stride_window s t + 1 - k0)" arbitrary: k0 sp L es sp')
  case 0
  then have "[k0..stride_window s t] = []" by simp
  then have out: "es = []" "sp' = sp" using 0(16) by simp_all
  have "(\<lambda>w h j. L w h j + (if h = g \<and> k0 \<le> w \<and> w \<le> stride_window s t
      then amount_at (ac_buckets (sw_new sp)) j (window_shares s p t w ds) else 0)) = L"
    using 0(1) by (auto simp: fun_eq_iff)
  then show ?case using out 0 gives_refl by simp
next
  case (Suc n)
  let ?kt = "stride_window s t" and ?sh = "\<lambda>k. window_shares s p t k ds" and ?B = "ac_buckets (sw_new sp)"
  have le: "k0 \<le> ?kt" using Suc.hyps(2) by simp
  have t0: "0 < t" using Suc.prems(11) by (metis word_neq_0_conv word_not_simps(1))
  have list: "[k0..?kt] = k0 # [k0 + 1..?kt]" using le by (rule upto_rec1)
  define sp1 where "sp1 = add_shares k0 g (?sh k0) sp"
  have sp1s: "sw_stride sp1 = s" using add_shares_ok [OF Suc.prems(1,2), of "?sh k0" k0] Suc.prems(3,5) by (simp add: sp1_def same_frame_def list amount_def)
  obtain es1 sp2 where two: "(if k0 < ?kt then close_through (min v (closes_ns s k0)) t sp1 else ([], sp1)) = (es1, sp2)" by fastforce
  obtain es2 sp3 where three: "close_excess t sp2 = (es2, sp3)" by fastforce
  obtain es3 sp4 where four: "share_windows g p t ds ?kt v [k0 + 1..?kt] sp3 = (es3, sp4)" by fastforce
  have out: "es = es1 @ es2 @ es3" "sp' = sp4"
    using Suc.prems(15)
    by (simp_all only: list share_windows.simps Suc.prems(3) sp1_def [symmetric] sp1s Let_def two three four prod.case prod.inject)
  let ?rest = "sum_list (map (\<lambda>k. amount (?sh k)) [k0 + 1..?kt])"
  have b: "weight sp + amount (?sh k0) + ?rest < 2 ^ 64" using Suc.prems(5) by (simp add: list)
  then have b1: "weight sp + amount (?sh k0) < 2 ^ 64" by simp
  have G1: "grows t sp (\<lambda>h j. if h = g then amount_at ?B j (?sh k0) else 0) (amount (?sh k0)) [] sp1"
    unfolding sp1_def by (rule add_shares_grows [OF Suc.prems(1,2) b1])
  note S1 = grows_small [OF G1 b]
  define L1 where "L1 = enter k0 g (\<lambda>j. amount_at ?B j (?sh k0)) L"
  have P1: "gives T sp L [] sp1 L1"
  proof (cases "sw_closed_to sp < k0")
    case True
    then show ?thesis using add_shares_gives [OF Suc.prems(1,2) b1 Suc.prems(6), of T k0] by (simp add: sp1_def L1_def)
  next
    case False
    then have "closes_ns s k0 \<le> max p (opens_ns s k0)"
      using Suc.prems(14) closes_mono [of k0 "sw_closed_to sp" s] by (auto intro: order_trans)
    moreover have "p \<le> closes_ns s k0"
      using window_edges(2) [OF Suc.prems(4), of p] closes_mono [OF Suc.prems(12), of s] by simp
    ultimately have none: "?sh k0 = []" using Suc.prems(11) closed_share by blast
    have "L1 = L" "amount_at ?B j [] = 0" for j by (simp_all add: L1_def none amount_at_def)
    then show ?thesis using add_shares_gives [OF Suc.prems(1,2) b1 Suc.prems(6), of T k0] by (simp add: sp1_def none)
  qed
  have c1: "sw_closed_to sp1 = sw_closed_to sp" "sw_first sp1 = sw_first sp" "sw_groups sp1 = sw_groups sp" "sw_new sp1 = sw_new sp"
    using add_shares_ok [OF Suc.prems(1,2), of "?sh k0" k0] b1 by (simp_all add: sp1_def same_frame_def amount_def)
  have few1: "few W sp1"
    using Suc.prems(7,9,13) le add_shares_opens [OF Suc.prems(1), of k0 g "?sh k0"] c1 by (fastforce simp: few_def sp1_def [symmetric])
  have A1: "ledger_ok sp1 L1" using P1 by (simp add: gives_def)
  have P2: "gives T sp1 L1 es1 sp2 L1 \<and> emits t sp1 es1 sp2 \<and> few W sp2 \<and> sw_settled_at sp2 = sw_settled_at sp1 \<and>
      (sw_closed_to sp2 = sw_closed_to sp1 \<or> k0 < ?kt \<and> closes_ns s (sw_closed_to sp2) \<le> min v (closes_ns s k0))"
  proof (cases "k0 < ?kt")
    case True
    then have run: "close_through (min v (closes_ns s k0)) t sp1 = (es1, sp2)" using two by simp
    have "min v (closes_ns s k0) \<le> t" using window_edges(3) [OF Suc.prems(4) True] by (simp add: min_le_iff_disj)
    with close_through_gives [OF _ _ run A1, where T = T] S1 Suc.prems(10)
    have G: "gives T sp1 L1 es1 sp2 L1 \<and> set (sw_open sp2) \<subseteq> set (sw_open sp1) \<and>
        (sw_closed_to sp2 = sw_closed_to sp1 \<or> closes_ns s (sw_closed_to sp2) \<le> min v (closes_ns s k0))" by (simp add: sp1s)
    have E: "emits t sp1 es1 sp2" using close_through_ok [OF _ _ run] S1 by simp
    then have "few W sp2" using few1 G by (auto simp: few_def emits_def same_frame_def)
    then show ?thesis using G E close_through_settled [OF run] True by simp
  next
    case False
    then show ?thesis using two few1 A1 S1 by (auto intro: gives_refl emits_refl)
  qed
  have S2: "splitter_ok sp2" "weight sp2 + ?rest < 2 ^ 64" using P2 S1 by (auto simp: emits_def)
  have f2: "sw_stride sp2 = s" "sw_first sp2 = sw_first sp" "sw_groups sp2 = sw_groups sp" "sw_new sp2 = sw_new sp"
    using P2 c1 sp1s by (auto simp: emits_def same_frame_def)
  have "close_excess t sp2 = ([], sp2)" by (rule few_excess [OF S2(1)]) (use P2 Suc.prems(8) f2 in auto)
  then have e3: "es2 = []" "sp3 = sp2" using three by simp_all
  have opens: "k0 < ?kt \<Longrightarrow> closes_ns s k0 = opens_ns s (k0 + 1)" using window_edges(4) [OF Suc.prems(4)] by blast
  have before: "closes_ns s k0 < t" if "k0 < ?kt"
  proof -
    have "opens_ns s (k0 + 1) \<le> opens_ns s ?kt" using that by (intro opens_mono) simp
    then show ?thesis using opens [OF that] opens_before [OF Suc.prems(4) t0] by simp
  qed
  have moved: "closes_ns s (sw_closed_to sp2) < t \<and> closes_ns s (sw_closed_to sp2) \<le> v"
    if "sw_closed_to sp2 \<noteq> sw_closed_to sp1"
  proof -
    have "k0 < ?kt" "closes_ns s (sw_closed_to sp2) \<le> min v (closes_ns s k0)" using P2 that by auto
    then show ?thesis using before by (auto intro: le_less_trans)
  qed
  have kt2: "sw_closed_to sp2 < ?kt"
  proof (rule ccontr)
    assume no: "\<not> sw_closed_to sp2 < ?kt"
    then have "t \<le> closes_ns s (sw_closed_to sp2)"
      using window_edges(2) [OF Suc.prems(4), of t] closes_mono [of ?kt "sw_closed_to sp2" s] by simp
    moreover have "sw_closed_to sp2 \<noteq> sw_closed_to sp1" using no Suc.prems(13) c1 by auto
    ultimately show False using moved leD by blast
  qed
  have later: "sw_closed_to sp2 < k0 + 1 \<or> closes_ns s (sw_closed_to sp2) \<le> max p (opens_ns s (k0 + 1))"
  proof (cases "sw_closed_to sp2 = sw_closed_to sp1")
    case True
    have "opens_ns s k0 \<le> opens_ns s (k0 + 1)" by (rule opens_mono) simp
    then have "max p (opens_ns s k0) \<le> max p (opens_ns s (k0 + 1))" by (rule max.mono [OF order_refl])
    moreover have "sw_closed_to sp2 = sw_closed_to sp" using True c1 by simp
    ultimately show ?thesis using Suc.prems(14) order_trans by fastforce
  next
    case False
    then show ?thesis using P2 opens by (auto simp: le_max_iff_disj)
  qed
  have A2: "ledger_ok sp2 L1" using P2 by (simp add: gives_def)
  have "nat (?kt + 1 - (k0 + 1)) = n" using Suc.hyps(2) by simp
  note IH = Suc.hyps(1) [OF this [symmetric] S2(1) _ f2(1) Suc.prems(4) S2(2) A2 _ _ Suc.prems(9-11) _ kt2 later four [unfolded e3]]
  have IH': "gives T sp2 L1 es3 sp4 (\<lambda>w h j. L1 w h j +
        (if h = g \<and> k0 + 1 \<le> w \<and> w \<le> ?kt then amount_at ?B j (?sh w) else 0)) \<and>
    few W sp4 \<and> sw_settled_at sp4 = sw_settled_at sp2 \<and>
    (sw_closed_to sp4 = sw_closed_to sp2 \<or> closes_ns s (sw_closed_to sp4) < t \<and> closes_ns s (sw_closed_to sp4) \<le> v)"
    using IH [unfolded f2] Suc.prems(2,8,12) P2 by simp
  have "(\<lambda>w h j. L1 w h j + (if h = g \<and> k0 + 1 \<le> w \<and> w \<le> ?kt then amount_at ?B j (?sh w) else 0)) =
      (\<lambda>w h j. L w h j + (if h = g \<and> k0 \<le> w \<and> w \<le> ?kt then amount_at ?B j (?sh w) else 0))"
    using le by (auto simp: fun_eq_iff L1_def enter_def)
  then have "gives T sp L es sp' (\<lambda>w h j. L w h j + (if h = g \<and> k0 \<le> w \<and> w \<le> ?kt then amount_at ?B j (?sh w) else 0))"
    using gives_trans [OF P1 gives_trans [OF conjunct1 [OF P2] conjunct1 [OF IH']]] by (simp add: out e3)
  moreover have "sw_closed_to sp4 = sw_closed_to sp \<or> closes_ns s (sw_closed_to sp4) < t \<and> closes_ns s (sw_closed_to sp4) \<le> v"
    using IH' moved c1 by auto
  ultimately show ?case using IH' P2 settled_at_kept(2) by (simp add: out sp1_def)
qed


lemma unat_min_max: "unat (max a b) = max (unat a) (unat b)" "unat (min a b) = min (unat a) (unat b)" for a b :: u64
  by (auto simp: max_def min_def word_le_nat_alt)

lemma amount_at_window:
  assumes "stride_ok s" "p < t" "stride_window s p \<le> k" "k \<le> stride_window s t" "snapshot_ok prev" "snapshot_ok later"
    "unat (total_count later) * unat SHARE_SCALE < 2 ^ 64"
  shows "amount_at B j (window_shares s p t k (delta_walk prev later)) =
    (if unat j < B then window_part s k p t (held_in later j - held_in prev j) else 0)"
proof -
  let ?l = "unat (max (opens_ns s k) p) - unat p" and ?u = "unat (min (closes_ns s k) t) - unat p" and ?d = "unat t - unat p"
  note changed = row_changes [OF assms(5-7)]
  have pos: "0 < ?d" using assms(2) by (simp add: word_less_nat_alt)
  have "sum_list (map (\<lambda>(i, c). if i = j then unat c else 0) (window_shares s p t k (delta_walk prev later))) =
      sum_list (map (\<lambda>(i, d). if i = j then share_of (unat d) ?l ?u ?d else 0) (delta_walk prev later))"
    by (rule window_shares_sum [where h = "\<lambda>i n. if i = j then n else 0", OF changed(3) _ assms(2) window_edge [OF assms(1-4)]]) simp
  also have "\<dots> = share_of (held_in later j - held_in prev j) ?l ?u ?d"
    using sum_distinct [OF changed(1), of "\<lambda>n. share_of n ?l ?u ?d" j] changed(4) by (simp add: share_of_def mul_div_floor_def)
  also have "\<dots> = window_part s k p t (held_in later j - held_in prev j)"
    using pos by (simp add: share_of_def mul_div_floor window_part_def Let_def unat_min_max)
  finally show ?thesis by (simp add: amount_at_conv)
qed

lemma amount_at_whole:
  assumes "snapshot_ok prev" "snapshot_ok later" "unat (total_count later) * unat SHARE_SCALE < 2 ^ 64"
  shows "amount_at B j (map (\<lambda>(idx, d). (idx, saturating_mul d SHARE_SCALE)) (delta_walk prev later)) =
    (if unat j < B then (held_in later j - held_in prev j) * unat SHARE_SCALE else 0)"
proof -
  note changed = row_changes [OF assms]
  show ?thesis
    using sum_distinct [OF changed(1), of "\<lambda>n. n * unat SHARE_SCALE" j]
    by (simp only: amount_at_conv whole_shares(2) [OF changed(3)] changed(4) mult_0)
qed

section \<open>One row\<close>

lemma settled_keeps [simp]:
  "ledger_ok (sp\<lparr>sw_settled_at := x\<rparr>) = ledger_ok sp" "few W (sp\<lparr>sw_settled_at := x\<rparr>) = few W sp"
  "gives T (sp\<lparr>sw_settled_at := x\<rparr>) = gives T sp"
  by (simp_all add: ledger_ok_def few_def gives_def fun_eq_iff)

lemma share_gives:
  fixes sp :: splitter and t :: u64
  defines "s \<equiv> sw_stride sp" and "B \<equiv> ac_buckets (sw_new sp)"
  assumes ok: "splitter_ok sp" and g: "g < sw_groups sp" and s: "stride_ok s" and snaps: "snapshot_ok prev" "snapshot_ok later"
    and first: "sw_first sp \<le> stride_window s t"
    and small: "weight sp + unat (total_count later) * unat SHARE_SCALE < 2 ^ 64"
    and L: "ledger_ok sp L" and few: "few W sp" "W < sw_first sp + 256" "stride_window s t \<le> W" and T: "t \<le> T"
    and settled: "settled_ok t sp" and closed: "sw_closed_to sp < stride_window s t"
    and prompt: "sw_closed_to sp < sw_first sp \<or> closes_ns s (sw_closed_to sp) \<le> p"
    and code: "share g p prev t later sp = (es, sp')"
  shows "gives T sp L es sp' (\<lambda>w h j. L w h j +
        (if h = g \<and> unat j < B then row_part s (sw_first sp) w p t (held_in later j - held_in prev j) else 0)) \<and>
    few W sp' \<and> settled_ok t sp' \<and>
    (sw_closed_to sp' = sw_closed_to sp \<or> closes_ns s (sw_closed_to sp') < t \<and> (\<exists>v. waited sp t v \<and> closes_ns s (sw_closed_to sp') \<le> v))"
proof -
  define ds where "ds = delta_walk prev later"
  let ?kt = "stride_window s t" and ?kp = "stride_window s p" and ?S = "unat SHARE_SCALE" and ?n = "\<lambda>j. held_in later j - held_in prev j"
  have small': "unat (total_count later) * ?S < 2 ^ 64" using small by linarith
  note changed = row_changes [OF snaps small', folded ds_def]
  have latest: "sw_latest sp' = sw_latest sp"
    using share_ok [OF ok g s [unfolded s_def] snaps first [unfolded s_def] small code] by (simp add: grows_def same_frame_def)
  show ?thesis
  proof (cases "?kt \<le> ?kp \<or> t \<le> p")
    case True
    let ?sh = "map (\<lambda>(idx, d). (idx, saturating_mul d SHARE_SCALE)) ds"
    define sp1 where "sp1 = add_shares ?kt g ?sh sp"
    have run: "close_excess t sp1 = (es, sp')" using code True by (simp add: share_def Let_def sp1_def s_def ds_def)
    have b: "weight sp + amount ?sh < 2 ^ 64" using whole_shares(1) [OF changed(3)] changed(2) small by linarith
    have frame: "splitter_ok sp1 \<and> sw_closed_to sp1 = sw_closed_to sp \<and> sw_first sp1 = sw_first sp"
      using add_shares_ok [OF ok g, of ?sh ?kt] b by (simp add: sp1_def same_frame_def amount_def)
    have "few W sp1" using few closed add_shares_opens [OF ok, of ?kt g ?sh] frame by (fastforce simp: few_def sp1_def [symmetric])
    then have "close_excess t sp1 = ([], sp1)" using frame few by (intro few_excess) auto
    then have out: "es = []" "sp' = sp1" using run by simp_all
    have "enter ?kt g (\<lambda>j. amount_at B j ?sh) L = (\<lambda>w h j. L w h j +
        (if h = g \<and> unat j < B then row_part s (sw_first sp) w p t (?n j) else 0))"
      using True by (auto simp: fun_eq_iff enter_def ds_def amount_at_whole [OF snaps small'] row_part_def)
    then have "gives T sp L [] sp1 (\<lambda>w h j. L w h j + (if h = g \<and> unat j < B then row_part s (sw_first sp) w p t (?n j) else 0))"
      using add_shares_gives [OF ok g b L, of T ?kt] closed by (simp add: sp1_def B_def)
    moreover have "settled_ok t sp1"
      using settled_ok_frame [of sp1 sp] settled latest out settled_at_kept(2) [of ?kt g ?sh sp] by (simp add: sp1_def)
    ultimately show ?thesis using out \<open>few W sp1\<close> frame by simp
  next
    case False
    let ?from = "max ?kp (sw_first sp)"
    obtain v sp1 where st: "(if 1 < ?kt - ?from then settled_time t sp else (0, sp)) = (v, sp1)" by fastforce
    obtain x where sp1: "sp1 = sp\<lparr>sw_settled_at := x\<rparr>"
    proof (cases "1 < ?kt - ?from")
      case True
      then have "settled_time t sp = (v, sp1)" using st by simp
      then show ?thesis using settled_only that by blast
    next
      case False
      then have "sp1 = sp\<lparr>sw_settled_at := sw_settled_at sp\<rparr>" using st by simp
      then show ?thesis using that by blast
    qed
    have W: "waited sp t v" "settled_ok t sp1"
      using st settled settled_time_waited [OF settled, of v sp1] by (auto simp: waited_def split: if_splits)
    have run: "share_windows g p t ds ?kt v [?from..?kt] sp1 = (es, sp')"
      using code False st by (simp add: share_def Let_def s_def ds_def)
    have cond: "p < t" "?kp < ?kt" using False by auto
    have "sum_list (map (\<lambda>k. amount (window_shares s p t k ds)) [?from..?kt]) \<le> unat (total_count later) * ?S"
      using window_amounts [OF s cond first changed(3)] changed(2) by (rule order_trans)
    then have light: "weight sp1 + sum_list (map (\<lambda>k. amount (window_shares s p t k ds)) [?from..?kt]) < 2 ^ 64"
      using small by (simp add: sp1)
    have start: "sw_closed_to sp1 < ?from \<or> closes_ns s (sw_closed_to sp1) \<le> max p (opens_ns s ?from)"
      using prompt by (auto simp: sp1 le_max_iff_disj)
    note G = share_windows_gives [where W = W and T = T and L = L, OF _ _ _ s light _ _ _ few(3) T cond(1) _ _ start run]
    have B1: "ac_buckets (sw_new sp1) = B" by (simp add: sp1 B_def)
    have G': "gives T sp L es sp' (\<lambda>w h j. L w h j +
        (if h = g \<and> ?from \<le> w \<and> w \<le> ?kt then amount_at B j (window_shares s p t w ds) else 0)) \<and>
      few W sp' \<and> sw_settled_at sp' = sw_settled_at sp1 \<and>
      (sw_closed_to sp' = sw_closed_to sp \<or> closes_ns s (sw_closed_to sp') < t \<and> closes_ns s (sw_closed_to sp') \<le> v)"
      using G [unfolded B1] ok g few closed L by (simp add: sp1 s_def)
    have "(if h = g \<and> ?from \<le> w \<and> w \<le> ?kt then amount_at B j (window_shares s p t w ds) else 0) =
        (if h = g \<and> unat j < B then row_part s (sw_first sp) w p t (?n j) else 0)" for w h j
      using False amount_at_window [OF s cond(1) _ _ snaps small', of w B j] by (auto simp: ds_def row_part_def)
    then have "gives T sp L es sp' (\<lambda>w h j. L w h j + (if h = g \<and> unat j < B then row_part s (sw_first sp) w p t (?n j) else 0))"
      using G' by simp
    moreover have "settled_ok t sp'" using settled_ok_frame [of sp' sp1] W(2) G' latest by (simp add: sp1)
    ultimately show ?thesis using G' W(1) by blast
  qed
qed


lemma row_keeps [simp]:
  "ledger_ok (sp\<lparr>sw_latest := l\<rparr>) = ledger_ok sp" "few W (sp\<lparr>sw_latest := l\<rparr>) = few W sp" "gives T (sp\<lparr>sw_latest := l\<rparr>) = gives T sp"
  "ledger_ok (sp\<lparr>sw_last_t := x\<rparr>) = ledger_ok sp" "few W (sp\<lparr>sw_last_t := x\<rparr>) = few W sp" "gives T (sp\<lparr>sw_last_t := x\<rparr>) = gives T sp"
  "ledger_ok (sp\<lparr>sw_newest := k\<rparr>) = ledger_ok sp" "few W (sp\<lparr>sw_newest := k\<rparr>) = few W sp" "gives T (sp\<lparr>sw_newest := k\<rparr>) = gives T sp"
  "settled_ok t (sp\<lparr>sw_last_t := x\<rparr>) = settled_ok t sp" "settled_ok t (sp\<lparr>sw_newest := k\<rparr>) = settled_ok t sp"
  by (simp_all add: ledger_ok_def few_def gives_def settled_ok_def waited_def fun_eq_iff)

lemma settled_ok_later: "settled_ok t sp \<Longrightarrow> t \<le> t' \<Longrightarrow> settled_ok t' sp"
  unfolding settled_ok_def by (meson order_trans)

lemma settled_ok_latest:
  assumes "settled_ok t sp"
  shows "settled_ok t (sp\<lparr>sw_latest := (sw_latest sp)[i := Some (t, gap)]\<rparr>)"
  unfolding settled_ok_def waited_def
proof (intro allI impI conjI)
  fix asked known p gap'
  assume at_t: "sw_settled_at (sp\<lparr>sw_latest := (sw_latest sp)[i := Some (t, gap)]\<rparr>) = Some (asked, known)"
  then have old: "asked \<le> t" "waited sp asked known" using assms by (simp_all add: settled_ok_def)
  then show "asked \<le> t" "known \<le> asked" by (simp_all add: waited_def)
  assume p: "Some (p, gap') \<in> set (sw_latest (sp\<lparr>sw_latest := (sw_latest sp)[i := Some (t, gap)]\<rparr>))" "0 < gap'"
    "saturating_sub asked p < saturating_mul gap' 2"
  then have "Some (p, gap') = Some (t, gap) \<or> Some (p, gap') \<in> set (sw_latest sp)"
    using set_update_subset_insert [of "sw_latest sp" i "Some (t, gap)"] by auto
  then show "known \<le> p" using old p(2,3) by (auto simp: waited_def)
qed

lemma splitter_row_gives:
  fixes sp :: splitter and t :: u64
  defines "s \<equiv> sw_stride sp" and "B \<equiv> ac_buckets (sw_new sp)"
  assumes ok: "splitter_ok sp" and g: "g < sw_groups sp" and s: "stride_ok s"
    and snaps: "\<forall>p. prev = Some p \<longrightarrow> snapshot_ok p" "snapshot_ok later"
    and small: "weight sp + unat (total_count later) * unat SHARE_SCALE < 2 ^ 64"
    and L: "ledger_ok sp L" and few: "few W sp" "W < sw_first sp + 256" "stride_window s t \<le> W" and T: "0 < t" "t \<le> T"
    and settled: "settled_ok t sp" and closed: "sw_first sp \<le> stride_window s t \<longrightarrow> sw_closed_to sp < stride_window s t"
    and prompt: "\<forall>p gap. sw_latest sp ! i = Some (p, gap) \<longrightarrow> sw_closed_to sp < sw_first sp \<or> closes_ns s (sw_closed_to sp) \<le> p"
    and code: "splitter_row i g prev t later sp = (es, sp')"
  defines "lat \<equiv> (sw_latest sp)[i := Some (t, case sw_latest sp ! i of None \<Rightarrow> 0 | Some (p, _) \<Rightarrow> saturating_sub t p)]"
  shows "gives T sp L es sp' (\<lambda>w h j. L w h j + (if h = g \<and> unat j < B then
        (case (sw_latest sp ! i, prev) of (Some (p, _), Some prev) \<Rightarrow>
           if stride_window s t < sw_first sp then 0 else row_part s (sw_first sp) w p t (held_in later j - held_in prev j) | _ \<Rightarrow> 0) else 0)) \<and>
    few W sp' \<and> settled_ok t sp' \<and> sw_latest sp' = lat \<and>
    (stride_window s t < sw_first sp \<longrightarrow> es = [] \<and> sw_open sp' = sw_open sp) \<and>
    (sw_closed_to sp' = sw_closed_to sp \<or> closes_ns s (sw_closed_to sp') < t \<and> (\<exists>v. waited sp' t v \<and> closes_ns s (sw_closed_to sp') \<le> v))"
proof -
  let ?kt = "stride_window s t" and ?W = "unat (total_count later) * unat SHARE_SCALE"
  define earlier where "earlier = map_option fst (sw_latest sp ! i)"
  define M where "M = (\<lambda>w h j. L w h j + (if h = g \<and> unat j < B then
        (case (sw_latest sp ! i, prev) of (Some (p, _), Some prev) \<Rightarrow>
           if ?kt < sw_first sp then 0 else row_part s (sw_first sp) w p t (held_in later j - held_in prev j) | _ \<Rightarrow> 0) else 0))"
  have lat: "lat = (sw_latest sp)[i := Some (t, case earlier of None \<Rightarrow> 0 | Some p \<Rightarrow> saturating_sub t p)]"
    by (auto simp: lat_def earlier_def split: option.split)
  have settled1: "settled_ok t (sp\<lparr>sw_latest := lat\<rparr>)" unfolding lat by (rule settled_ok_latest [OF settled])
  show ?thesis unfolding M_def [symmetric]
  proof (cases "?kt < sw_first sp")
    case True
    then have "es = []" "sp' = sp\<lparr>sw_latest := lat\<rparr>"
      using code by (auto simp: splitter_row_def Let_def lat earlier_def s_def)
    moreover have "M = L" using True by (auto simp: M_def fun_eq_iff split: option.splits)
    moreover have "gives T sp L [] (sp\<lparr>sw_latest := lat\<rparr>) L" using L by (intro gives_none) simp_all
    ultimately show "gives T sp L es sp' M \<and> few W sp' \<and> settled_ok t sp' \<and> sw_latest sp' = lat \<and>
      (?kt < sw_first sp \<longrightarrow> es = [] \<and> sw_open sp' = sw_open sp) \<and>
      (sw_closed_to sp' = sw_closed_to sp \<or> closes_ns s (sw_closed_to sp') < t \<and> (\<exists>v. waited sp' t v \<and> closes_ns s (sw_closed_to sp') \<le> v))"
      using few settled1 by simp
  next
    case False
    define sp1 where "sp1 = sp\<lparr>sw_latest := lat, sw_last_t := t\<rparr>"
    have sp1: "splitter_ok sp1" "sw_groups sp1 = sw_groups sp" "sw_stride sp1 = s" "sw_first sp1 = sw_first sp" "sw_new sp1 = sw_new sp"
      "weight sp1 = weight sp" "sw_closed_to sp1 = sw_closed_to sp" "ledger_ok sp1 L" "few W sp1" "settled_ok t sp1" "sw_latest sp1 = lat"
      using ok L few settled1 by (simp_all add: sp1_def s_def)
    have G1: "gives T sp L [] sp1 L" using L by (intro gives_none) (simp_all add: sp1_def)
    obtain es1 sp2 where one: "(case (earlier, prev) of (Some p, Some prev) \<Rightarrow> share g p prev t later sp1 | _ \<Rightarrow> ([], sp1)) = (es1, sp2)" by fastforce
    obtain es2 sp3 where two: "(if sw_newest sp2 < ?kt then let (settled_to, sp) = settled_time t (sp2\<lparr>sw_newest := ?kt\<rparr>)
           in close_through (min settled_to (saturating_sub t 1)) t sp else ([], sp2)) = (es2, sp3)" by fastforce
    have "splitter_row i g prev t later sp =
        (let (a, x) = (case (earlier, prev) of (Some p, Some prev) \<Rightarrow> share g p prev t later sp1 | _ \<Rightarrow> ([], sp1));
             (b, y) = (if sw_newest x < ?kt then let (settled_to, sp) = settled_time t (x\<lparr>sw_newest := ?kt\<rparr>)
                 in close_through (min settled_to (saturating_sub t 1)) t sp else ([], x))
         in (a @ b, y))"
      using False unfolding splitter_row_def sp1_def lat earlier_def s_def by (simp add: Let_def cong: if_cong)
    also have "\<dots> = (es1 @ es2, sp3)" by (subst one) (simp only: Let_def prod.case two [unfolded Let_def])
    finally have out: "es = es1 @ es2" "sp' = sp3" using code by auto
    have first: "gives T sp1 L es1 sp2 M \<and> few W sp2 \<and> settled_ok t sp2 \<and> splitter_ok sp2 \<and> weight sp2 < 2 ^ 64 \<and> sw_latest sp2 = lat \<and>
      sw_first sp2 = sw_first sp \<and>
      (sw_closed_to sp2 = sw_closed_to sp \<or> closes_ns s (sw_closed_to sp2) < t \<and> (\<exists>v. waited sp2 t v \<and> closes_ns s (sw_closed_to sp2) \<le> v))"
    proof (cases "earlier = None \<or> prev = None")
      case True
      then have "es1 = []" "sp2 = sp1" using one by (auto split: option.splits)
      moreover have "M = L" using True by (auto simp: M_def earlier_def fun_eq_iff split: option.splits)
      ultimately show ?thesis using sp1 small by (simp add: gives_refl)
    next
      case some: False
      then obtain p gap pr where p: "sw_latest sp ! i = Some (p, gap)" "earlier = Some p" "prev = Some pr" by (auto simp: earlier_def)
      have run: "share g p pr t later sp1 = (es1, sp2)" using one p by simp
      have pr: "snapshot_ok pr" using snaps(1) p(3) by simp
      have in_first: "sw_first sp1 \<le> stride_window (sw_stride sp1) t" using False by (simp add: sp1)
      have light: "weight sp1 + ?W < 2 ^ 64" using small by (simp add: sp1)
      have stride1: "stride_ok (sw_stride sp1)" using s by (simp add: sp1)
      have grp: "g < sw_groups sp1" using g by (simp add: sp1)
      have closed1: "sw_closed_to sp1 < stride_window (sw_stride sp1) t" using closed False by (simp add: sp1)
      have prompt1: "sw_closed_to sp1 < sw_first sp1 \<or> closes_ns (sw_stride sp1) (sw_closed_to sp1) \<le> p"
        using prompt p(1) by (simp add: sp1)
      have few1: "W < sw_first sp1 + 256" "stride_window (sw_stride sp1) t \<le> W" using few by (simp_all add: sp1)
      note G = share_gives [OF sp1(1) grp stride1 pr snaps(2) in_first light sp1(8) sp1(9) few1 T(2) sp1(10) closed1 prompt1 run]
      have M: "(\<lambda>w h j. L w h j + (if h = g \<and> unat j < ac_buckets (sw_new sp1) then
          row_part (sw_stride sp1) (sw_first sp1) w p t (held_in later j - held_in pr j) else 0)) = M"
        using False p by (auto simp: M_def fun_eq_iff sp1 B_def)
      have "grows t sp1 (\<lambda>h j. if h = g \<and> unat j < ac_buckets (sw_new sp1)
          then row_share (sw_stride sp1) (sw_first sp1) p t (held_in later j - held_in pr j) else 0) ?W es1 sp2"
        using share_ok [OF sp1(1) grp stride1 pr snaps(2) in_first light run] by blast
      then have kept: "splitter_ok sp2 \<and> weight sp2 < 2 ^ 64 \<and> sw_latest sp2 = sw_latest sp1 \<and> sw_first sp2 = sw_first sp1"
        using light by (auto simp: grows_def same_frame_def)
      then have "waited sp2 = waited sp1" by (simp add: waited_def fun_eq_iff)
      then show ?thesis using G [unfolded M] kept sp1 by simp
    qed
    have stride2: "sw_stride sp2 = s" "sw_groups sp2 = sw_groups sp" using first sp1 by (simp_all add: gives_def)
    have A2: "ledger_ok sp2 M" using first by (simp add: gives_def)
    have second: "gives T sp2 M es2 sp3 M \<and> few W sp3 \<and> settled_ok t sp3 \<and> sw_latest sp3 = lat \<and>
      (sw_closed_to sp3 = sw_closed_to sp2 \<or> closes_ns s (sw_closed_to sp3) < t \<and> (\<exists>v. waited sp3 t v \<and> closes_ns s (sw_closed_to sp3) \<le> v))"
    proof (cases "sw_newest sp2 < ?kt")
      case True
      obtain v sp4 where st: "settled_time t (sp2\<lparr>sw_newest := ?kt\<rparr>) = (v, sp4)" by fastforce
      obtain x where sp4: "sp4 = sp2\<lparr>sw_newest := ?kt, sw_settled_at := x\<rparr>" using settled_only [OF st] by auto
      have W: "waited sp2 t v" "settled_ok t sp4"
        using settled_time_waited [OF _ st] first by (auto simp: waited_def)
      let ?until = "min v (saturating_sub t 1)"
      have run: "close_through ?until t sp4 = (es2, sp3)" using two True st by simp
      have less: "saturating_sub t 1 < t" using T(1) by (simp add: word_less_nat_alt unat_saturating_sub)
      then have cap: "?until \<le> t" by (meson min.coboundedI2 order_less_imp_le)
      have ok4: "splitter_ok sp4" "weight sp4 < 2 ^ 64" "ledger_ok sp4 M" using first A2 by (simp_all add: sp4)
      have G: "gives T sp4 M es2 sp3 M \<and> set (sw_open sp3) \<subseteq> set (sw_open sp4) \<and>
          (sw_closed_to sp3 = sw_closed_to sp4 \<or> closes_ns (sw_stride sp4) (sw_closed_to sp3) \<le> ?until)"
        using close_through_gives [OF ok4(1,2) run ok4(3)] cap T(2) by blast
      have E: "same_frame sp4 sp3" using close_through_ok [OF ok4(1,2) run] by (simp add: emits_def)
      have "few W sp3" using first G E by (auto simp: few_def same_frame_def sp4)
      moreover have "settled_ok t sp3"
        using settled_ok_frame [OF close_through_settled [OF run]] E W(2) by (simp add: same_frame_def)
      moreover have "waited sp3 t v" using W(1) E by (simp add: waited_def same_frame_def sp4)
      moreover have "closes_ns s (sw_closed_to sp3) < t \<and> closes_ns s (sw_closed_to sp3) \<le> v"
        if "closes_ns s (sw_closed_to sp3) \<le> ?until" using that less by auto
      ultimately show ?thesis using G E first by (auto simp: sp4 stride2 same_frame_def)
    next
      case False
      then have "es2 = []" "sp3 = sp2" using two by auto
      then show ?thesis using first A2 by (simp add: gives_refl)
    qed
    have "waited sp3 = waited sp2" using first second by (simp add: waited_def fun_eq_iff)
    then have "sw_closed_to sp3 = sw_closed_to sp \<or> closes_ns s (sw_closed_to sp3) < t \<and> (\<exists>v. waited sp3 t v \<and> closes_ns s (sw_closed_to sp3) \<le> v)"
      using first second by auto
    moreover have "gives T sp L es sp' M"
      using gives_trans [OF G1 gives_trans [OF conjunct1 [OF first] conjunct1 [OF second]]] by (simp add: out)
    ultimately show "gives T sp L es sp' M \<and> few W sp' \<and> settled_ok t sp' \<and> sw_latest sp' = lat \<and>
      (?kt < sw_first sp \<longrightarrow> es = [] \<and> sw_open sp' = sw_open sp) \<and>
      (sw_closed_to sp' = sw_closed_to sp \<or> closes_ns s (sw_closed_to sp') < t \<and> (\<exists>v. waited sp' t v \<and> closes_ns s (sw_closed_to sp') \<le> v))"
      using second False by (simp add: out)
  qed
qed


section \<open>All rows\<close>

lemma placed_snoc: "k < length rows \<Longrightarrow> placed_share s first (rows @ [r]) k w j = placed_share s first rows k w j"
  by (simp add: placed_share_def nth_append split: option.split)

lemma placed_new: "placed_share s first (rows @ [r]) (length rows) w j = (case latest_row rows (hr_series r) of
     None \<Rightarrow> 0 | Some p \<Rightarrow> if stride_window s (hr_t r) < first then 0
       else row_part s first w (hr_t p) (hr_t r) (held_in (hr_snapshot r) j - held_in (hr_snapshot p) j))"
  by (simp add: placed_share_def nth_append split: option.split)

lemma window_due_snoc: "window_due s first sg (rows @ [r]) w g j = window_due s first sg rows w g j +
    (if sg ! hr_series r = g then placed_share s first (rows @ [r]) (length rows) w j else 0)"
  unfolding window_due_def sum_upto_snoc by (intro arg_cong2 [where f = "(+)"] sum.cong) (auto simp: nth_append placed_snoc)

lemma series_times_snoc [simp]:
  "series_times [] i = []"
  "series_times (rows @ [r]) i = (if hr_series r = i then series_times rows i @ [hr_t r] else series_times rows i)"
  by (simp_all add: series_times_def)

lemma series_times_last: "latest_row rows i = None \<longleftrightarrow> series_times rows i = []"
  "latest_row rows i = Some p \<Longrightarrow> last (series_times rows i) = hr_t p \<and> series_times rows i \<noteq> []"
  by (auto simp: latest_row_def series_times_def Let_def last_map filter_empty_conv split: if_splits)

definition latest_of :: "u64 list \<Rightarrow> (u64 \<times> u64) option" where
  "latest_of ts = (if ts = [] then None else Some (last ts, last_gap ts))"

text \<open>When the next row of series \<open>i\<close> comes in time, no window it adds to has closed.\<close>

definition comes_in_time :: "stride \<Rightarrow> hist_row list \<Rightarrow> nat \<Rightarrow> bool" where
  "comes_in_time s rows i \<longleftrightarrow> (let ts = series_times rows i
     in \<forall>k < length rows. last ts < hr_t (rows ! k) \<longrightarrow> ready s (last ts) (last_gap ts) (hr_t (rows ! k)))"

definition still_open :: "stride \<Rightarrow> int \<Rightarrow> splitter \<Rightarrow> u64 \<Rightarrow> bool" where
  "still_open s first sp t \<longleftrightarrow> sw_closed_to sp = first - 1 \<or> closes_ns s (sw_closed_to sp) \<le> t"

definition due_ledger :: "stride \<Rightarrow> int \<Rightarrow> nat \<Rightarrow> nat list \<Rightarrow> hist_row list \<Rightarrow> ledger" where
  "due_ledger s first buckets sg rows = (\<lambda>w g j. if unat j < buckets then window_due s first sg rows w g j else 0)"

definition place_inv :: "stride \<Rightarrow> int \<Rightarrow> nat \<Rightarrow> nat list \<Rightarrow> int \<Rightarrow> u64 \<Rightarrow> splitter \<Rightarrow> hist_row list \<Rightarrow> hist_event list \<Rightarrow> splitter \<Rightarrow> bool" where
  "place_inv s first buckets sg W T sp0 rows es sp \<longleftrightarrow>
     gives T sp0 (\<lambda>_ _ _. 0) es sp (due_ledger s first buckets sg rows) \<and> few W sp \<and>
     (if rows = [] then sw_settled_at sp = None else settled_ok (hr_t (last rows)) sp) \<and>
     (\<forall>i < length sg. sw_latest sp ! i = latest_of (series_times rows i)) \<and>
     (sw_closed_to sp = first - 1 \<or> rows \<noteq> [] \<and> closes_ns s (sw_closed_to sp) < hr_t (last rows)) \<and>
     (\<forall>i < length sg. series_times rows i \<noteq> [] \<longrightarrow> comes_in_time s rows i \<longrightarrow> still_open s first sp (last (series_times rows i))) \<and>
     (es = [] \<and> sw_open sp = [] \<or> rows \<noteq> [] \<and> first \<le> stride_window s (hr_t (last rows)) \<and> sw_last_t sp = hr_t (last rows))"

lemma still_open_next:
  assumes others: "\<And>i. i < length sg \<Longrightarrow> series_times rows i \<noteq> [] \<Longrightarrow> comes_in_time s rows i \<Longrightarrow> still_open s first sp (last (series_times rows i))"
    and latest: "\<And>i. i < length sg \<Longrightarrow> sw_latest sp' ! i = latest_of (series_times (rows @ [r]) i)" "length (sw_latest sp') = length sg"
    and last_closed: "sw_closed_to sp = first - 1 \<or> closes_ns s (sw_closed_to sp) \<le> hr_t r"
    and moved: "sw_closed_to sp' = sw_closed_to sp \<or>
      closes_ns s (sw_closed_to sp') < hr_t r \<and> (\<exists>v. waited sp' (hr_t r) v \<and> closes_ns s (sw_closed_to sp') \<le> v)"
    and i: "i < length sg" "series_times (rows @ [r]) i \<noteq> []" "comes_in_time s (rows @ [r]) i"
  shows "still_open s first sp' (last (series_times (rows @ [r]) i))"
proof (cases "hr_series r = i")
  case True
  then show ?thesis using moved last_closed by (auto simp: still_open_def)
next
  case False
  let ?ts = "series_times rows i"
  have ts: "series_times (rows @ [r]) i = ?ts" "?ts \<noteq> []" using False i(2) by simp_all
  have all: "\<forall>k < Suc (length rows). last ?ts < hr_t ((rows @ [r]) ! k) \<longrightarrow> ready s (last ?ts) (last_gap ?ts) (hr_t ((rows @ [r]) ! k))"
    using i(3) unfolding comes_in_time_def ts(1) Let_def by simp
  show ?thesis
  proof (cases "sw_closed_to sp' = sw_closed_to sp")
    case True
    have "comes_in_time s rows i" unfolding comes_in_time_def Let_def
    proof (intro allI impI)
      fix k assume "k < length rows" "last ?ts < hr_t (rows ! k)"
      then show "ready s (last ?ts) (last_gap ?ts) (hr_t (rows ! k))" using spec [OF all, of k] by (simp add: nth_append)
    qed
    with others [OF i(1) ts(2)] show ?thesis by (simp only: still_open_def ts(1) True)
  next
    case moving: False
    then obtain v where v: "closes_ns s (sw_closed_to sp') < hr_t r" "waited sp' (hr_t r) v" "closes_ns s (sw_closed_to sp') \<le> v"
      using moved by blast
    have "closes_ns s (sw_closed_to sp') \<le> last ?ts"
    proof (cases "last ?ts < hr_t r")
      case True
      have "ready s (last ?ts) (last_gap ?ts) (hr_t r)" using spec [OF all, of "length rows"] True by simp
      then consider "0 < last_gap ?ts" "hr_t r - last ?ts < saturating_mul (last_gap ?ts) 2"
        | "\<forall>w. last ?ts < closes_ns s w \<longrightarrow> hr_t r \<le> closes_ns s w" by (auto simp: ready_def)
      then show ?thesis
      proof cases
        case 1
        have "Some (last ?ts, last_gap ?ts) \<in> set (sw_latest sp')"
          using latest(1) [OF i(1)] i(1) latest(2) ts by (metis latest_of_def nth_mem)
        moreover have "saturating_sub (hr_t r) (last ?ts) = hr_t r - last ?ts"
          using order_less_not_sym [OF True] by (simp add: saturating_sub_def)
        ultimately have "v \<le> last ?ts" using v(2) 1 unfolding waited_def by metis
        then show ?thesis using v(3) by simp
      next
        case 2
        then show ?thesis using v(1) by (meson leD leI)
      qed
    next
      case False
      then show ?thesis using v(1) by simp
    qed
    then show ?thesis by (simp only: still_open_def ts(1) simp_thms)
  qed
qed

lemma place_row:
  assumes inv: "window_inv s first new sg groups rows es prev sp" and ok: "rows_ok sg groups (rows @ [r])" and s: "stride_ok s"
    and upto: "hr_t r \<le> stop" and small: "observations_in (rows @ [r]) * unat SHARE_SCALE < 2 ^ 64"
    and code: "window_row stop sg r (prev, sp) = (es', (prev', sp'))"
    and place: "place_inv s first (ac_buckets new) sg W T sp0 rows es sp" and prompt: "prompt s (rows @ [r])"
    and W: "W < first + 256" "stride_window s (hr_t r) \<le> W" and T: "hr_t r \<le> T"
  shows "place_inv s first (ac_buckets new) sg W T sp0 (rows @ [r]) (es @ es') sp'"
proof -
  define i where "i = hr_series r"
  define t where "t = hr_t r"
  let ?kt = "stride_window s t" and ?B = "ac_buckets new" and ?L = "due_ledger s first (ac_buckets new) sg rows"
  note I = inv [unfolded window_inv_def]
  note P = place [unfolded place_inv_def]
  have R: "i < length sg" "sg ! i < groups" "snapshot_ok (hr_snapshot r)" "\<forall>x \<in> set rows. hr_t x \<le> t"
    using rows_ok_snoc [OF ok] by (auto simp: i_def t_def)
  have row: "splitter_row i (sg ! i) (prev ! i) t (hr_snapshot r) sp = (es', sp')"
    using code upto by (auto simp: window_row_def Let_def i_def t_def split: prod.splits if_splits)
  have st: "sw_stride sp = s" "sw_first sp = first" "sw_groups sp = groups" "sw_new sp = new" "splitter_ok sp"
    "weight sp \<le> observations_in rows * unat SHARE_SCALE" "length (sw_latest sp) = length sg" "length (sw_open sp) \<le> MAX_OPEN_WINDOWS"
    using I by blast+
  have lat: "prev ! i = map_option hr_snapshot (latest_row rows i)" using I R(1) by blast
  have snaps: "\<forall>p. prev ! i = Some p \<longrightarrow> snapshot_ok p"
    using ok latest_row_in unfolding lat rows_ok_def by fastforce
  have fits: "weight sp + unat (total_count (hr_snapshot r)) * unat SHARE_SCALE < 2 ^ 64"
    using st(6) small by (simp add: observed_snoc algebra_simps)
  have recent: "rows \<noteq> [] \<Longrightarrow> hr_t (last rows) \<le> t" using R(4) by simp
  have pr: "0 < t" "series_times rows i \<noteq> [] \<Longrightarrow> comes_in_time s rows i"
  proof -
    have at_r: "0 < hr_t ((rows @ [r]) ! length rows) \<and>
      (let ts = series_times (take (length rows) (rows @ [r])) (hr_series ((rows @ [r]) ! length rows))
       in ts \<noteq> [] \<longrightarrow> (\<forall>k < length rows. last ts < hr_t ((rows @ [r]) ! k) \<longrightarrow> ready s (last ts) (last_gap ts) (hr_t ((rows @ [r]) ! k))))"
      using prompt unfolding prompt_def by (elim allE [of _ "length rows"]) simp
    then show "0 < t" by (simp add: t_def)
    show "series_times rows i \<noteq> [] \<Longrightarrow> comes_in_time s rows i"
      using at_r unfolding comes_in_time_def by (auto simp: Let_def i_def nth_append)
  qed
  have settled: "settled_ok t sp"
  proof (cases "rows = []")
    case True
    then show ?thesis using P by (simp add: settled_ok_def)
  next
    case False
    then show ?thesis using P settled_ok_later recent by auto
  qed
  have last_closed: "sw_closed_to sp = first - 1 \<or> closes_ns s (sw_closed_to sp) < t"
    using P recent by (auto intro: less_le_trans)
  have closed: "first \<le> ?kt \<longrightarrow> sw_closed_to sp < ?kt"
  proof (intro impI, cases "sw_closed_to sp = first - 1")
    case True
    assume "first \<le> ?kt"
    then show "sw_closed_to sp < ?kt" using True by simp
  next
    case False
    then have "closes_ns s (sw_closed_to sp) < closes_ns s ?kt" using last_closed window_edges(2) [OF s, of t] by auto
    then show "sw_closed_to sp < ?kt" using closes_mono [of ?kt "sw_closed_to sp" s] by (meson leD leI)
  qed
  have here: "sw_latest sp ! i = latest_of (series_times rows i)" using P R(1) by blast
  have early: "\<forall>p gap. sw_latest sp ! i = Some (p, gap) \<longrightarrow> sw_closed_to sp < first \<or> closes_ns s (sw_closed_to sp) \<le> p"
  proof (intro allI impI)
    fix p gap assume that: "sw_latest sp ! i = Some (p, gap)"
    have ts: "series_times rows i \<noteq> []" "p = last (series_times rows i)" using that here by (auto simp: latest_of_def split: if_splits)
    then have "still_open s first sp p" using P R(1) pr(2) by blast
    then show "sw_closed_to sp < first \<or> closes_ns s (sw_closed_to sp) \<le> p" by (auto simp: still_open_def)
  qed
  have A: "ledger_ok sp ?L" using P by (simp add: gives_def)
  have g: "sg ! i < sw_groups sp" using R(2) st by simp
  have fewP: "few W sp" using P by blast
  note G = splitter_row_gives [where W = W and T = T, OF st(5) g _ snaps R(3) fits A fewP _ _ pr(1) _ settled _ _ row, unfolded st(1,2,4),
      OF s W(1) W(2) [folded t_def] T [folded t_def] closed early]
  define lat' where "lat' = (sw_latest sp)[i := Some (t, case sw_latest sp ! i of None \<Rightarrow> 0 | Some (p, _) \<Rightarrow> saturating_sub t p)]"
  have gain: "(case (sw_latest sp ! i, prev ! i) of (Some (p, _), Some prev) \<Rightarrow> if ?kt < first then 0
      else row_part s first w p t (held_in (hr_snapshot r) j - held_in prev j) | _ \<Rightarrow> 0) = placed_share s first (rows @ [r]) (length rows) w j" for w j
    using here lat series_times_last [of rows i] by (auto simp: placed_new i_def t_def latest_of_def split: option.splits)
  have ledger: "(\<lambda>w h j. ?L w h j + (if h = sg ! i \<and> unat j < ?B then placed_share s first (rows @ [r]) (length rows) w j else 0)) =
      due_ledger s first ?B sg (rows @ [r])"
    by (auto simp: fun_eq_iff due_ledger_def window_due_snoc i_def)
  note G' = G [unfolded gain ledger, folded lat'_def]
  have gives: "gives T sp0 (\<lambda>_ _ _. 0) (es @ es') sp' (due_ledger s first ?B sg (rows @ [r]))"
    using P G' gives_trans by blast
  have times: "sw_latest sp' ! k = latest_of (series_times (rows @ [r]) k)" if k: "k < length sg" for k
  proof (cases "k = i")
    case True
    let ?ts = "series_times rows i"
    have "sw_latest sp' ! k = Some (t, case latest_of ?ts of None \<Rightarrow> 0 | Some (p, _) \<Rightarrow> saturating_sub t p)"
      using G' True R(1) st(7) here by (simp add: lat'_def)
    moreover have "saturating_sub t (last ?ts) = t - last ?ts" if "?ts \<noteq> []"
    proof -
      have "last ?ts \<in> hr_t ` set rows" using last_in_set [OF that] by (auto simp: series_times_def)
      then have "last ?ts \<le> t" using R(4) by auto
      then have "\<not> t < last ?ts" by simp
      then show ?thesis by (simp add: saturating_sub_def)
    qed
    moreover have "last_gap (?ts @ [t]) = (if ?ts = [] then 0 else t - last ?ts)" by (cases ?ts) (simp_all add: last_gap_def)
    ultimately show ?thesis using True by (auto simp: latest_of_def i_def t_def)
  next
    case False
    then show ?thesis using G' P k by (simp add: lat'_def i_def)
  qed
  have len: "length (sw_latest sp') = length sg" using G' st(7) by (simp add: lat'_def)
  have open_next: "still_open s first sp' (last (series_times (rows @ [r]) k))"
    if "k < length sg" "series_times (rows @ [r]) k \<noteq> []" "comes_in_time s (rows @ [r]) k" for k
    by (rule still_open_next [where sp = sp, OF _ times len _ _ that]) (use P last_closed G' in \<open>auto simp: t_def\<close>)
  have closed': "sw_closed_to sp' = first - 1 \<or> closes_ns s (sw_closed_to sp') < hr_t (last (rows @ [r]))"
    using G' last_closed by (auto simp: t_def)
  note RW = splitter_row_ok [OF st(5) g _ snaps R(3) fits st(8) row, unfolded st(1,2,4), OF s]
  have ended: "es @ es' = [] \<and> sw_open sp' = [] \<or> first \<le> ?kt \<and> sw_last_t sp' = t"
  proof (cases "?kt < first")
    case True
    then have "es' = [] \<and> sw_open sp' = sw_open sp" using G' by blast
    moreover have "\<not> (rows \<noteq> [] \<and> first \<le> stride_window s (hr_t (last rows)))"
      using True recent stride_window_mono [OF s] by fastforce
    ultimately show ?thesis using P by auto
  next
    case False
    then show ?thesis using RW(3) by simp
  qed
  show ?thesis unfolding place_inv_def using gives G' times closed' open_next ended by (simp add: t_def)
qed

lemma place_rows:
  assumes "rows_ok sg groups rows" "\<forall>r \<in> set rows. hr_t r \<le> stop \<and> hr_t r \<le> T \<and> stride_window s (hr_t r) \<le> W" "stride_ok s"
    "observations_in rows * unat SHARE_SCALE < 2 ^ 64" "window_inv s first new sg groups [] [] prev sp" "prompt s rows" "W < first + 256"
    "place_inv s first (ac_buckets new) sg W T sp0 [] [] sp" "run_rows (window_row stop sg) rows (prev, sp) = (es, (prev', sp'))"
  shows "place_inv s first (ac_buckets new) sg W T sp0 rows es sp'"
  using assms
proof (induction rows arbitrary: es prev' sp' rule: rev_induct)
  case (snoc r rows)
  obtain es1 prev1 sp1 where one: "run_rows (window_row stop sg) rows (prev, sp) = (es1, (prev1, sp1))" by (metis prod.exhaust)
  obtain es2 prev2 sp2 where two: "window_row stop sg r (prev1, sp1) = (es2, (prev2, sp2))" by (metis prod.exhaust)
  have out: "es = es1 @ es2" "sp' = sp2" using snoc.prems(9) by (auto simp: run_rows_append one two)
  have small: "observations_in rows * unat SHARE_SCALE < 2 ^ 64" using snoc.prems(4) by (simp add: observed_snoc algebra_simps)
  have ok: "rows_ok sg groups rows" using rows_ok_snoc [OF snoc.prems(1)] by blast
  have "prompt s rows"
    unfolding prompt_def
  proof (intro allI impI)
    fix k assume k: "k < length rows"
    then have "0 < hr_t ((rows @ [r]) ! k) \<and> (let ts = series_times (take k (rows @ [r])) (hr_series ((rows @ [r]) ! k))
        in ts \<noteq> [] \<longrightarrow> (\<forall>i < k. last ts < hr_t ((rows @ [r]) ! i) \<longrightarrow> ready s (last ts) (last_gap ts) (hr_t ((rows @ [r]) ! i))))"
      using snoc.prems(6) unfolding prompt_def by simp
    then show "0 < hr_t (rows ! k) \<and> (let ts = series_times (take k rows) (hr_series (rows ! k))
        in ts \<noteq> [] \<longrightarrow> (\<forall>i < k. last ts < hr_t (rows ! i) \<longrightarrow> ready s (last ts) (last_gap ts) (hr_t (rows ! i))))"
      using k by (simp add: nth_append Let_def)
  qed
  with snoc.IH [OF ok _ snoc.prems(3) small snoc.prems(5) _ snoc.prems(7,8) one] snoc.prems(2)
  have "place_inv s first (ac_buckets new) sg W T sp0 rows es1 sp1" by simp
  moreover have "window_inv s first new sg groups rows es1 prev1 sp1"
    by (rule window_rows_ok [OF ok _ snoc.prems(3) small snoc.prems(5) one]) (use snoc.prems(2) in simp)
  ultimately show ?case
    using place_row [OF _ snoc.prems(1,3) _ snoc.prems(4) two _ snoc.prems(6,7)] snoc.prems(2) by (simp add: out)
qed simp


section \<open>The events of a call\<close>

lemma splitter_new_places:
  "place_inv s (stride_window s start) (ac_buckets (accum_new hc config)) sg W T (splitter_new hc s start (length sg) groups config) [] []
     (splitter_new hc s start (length sg) groups config)"
proof -
  let ?sp = "splitter_new hc s start (length sg) groups config"
  have "due_ledger s (stride_window s start) (ac_buckets (accum_new hc config)) sg [] = (\<lambda>_ _ _. 0)"
    by (auto simp: fun_eq_iff due_ledger_def window_due_def)
  moreover have "ledger_ok ?sp (\<lambda>_ _ _. 0)" by (simp add: ledger_ok_def splitter_new_def Let_def)
  ultimately show ?thesis
    by (simp add: place_inv_def gives_refl) (simp add: few_def splitter_new_def Let_def latest_of_def)
qed

lemma window_events_placed:
  fixes start stop :: u64 and hc :: "'h hist_crate" and config :: hist_config
  assumes ok: "rows_ok sg groups rows" and s: "stride_ok s"
  defines "read \<equiv> filter (\<lambda>r. hr_t r \<le> stop) rows" and "es \<equiv> window_events hc config s start stop sg groups rows"
    and "first \<equiv> stride_window s start"
  assumes small: "observations_in read * unat SHARE_SCALE < 2 ^ 64" and prompt: "prompt s read"
    and W: "stride_window s stop < first + 256"
  shows "\<exists>ws. sorted_wrt (<) ws \<and>
    list_all2 (event_of s (hr_t (last read)) groups (due_ledger s first (hc_total_buckets hc config) sg read)) ws es \<and>
    (\<forall>w. w \<notin> set ws \<longrightarrow> (\<forall>g < groups. \<forall>j. due_ledger s first (hc_total_buckets hc config) sg read w g j = 0))"
proof -
  let ?new = "accum_new hc config" and ?sp0 = "splitter_new hc s start (length sg) groups config" and ?T = "hr_t (last read)"
  let ?L = "due_ledger s first (hc_total_buckets hc config) sg read"
  have B: "ac_buckets ?new = hc_total_buckets hc config" by (simp add: accum_new_def)
  have skip: "run_rows (window_row stop sg) rows st = run_rows (window_row stop sg) read st" for st
    unfolding read_def by (rule run_rows_filter) (auto simp: window_row_def not_le)
  obtain es1 prev sp where run: "run_rows (window_row stop sg) read (replicate (length sg) None, ?sp0) = (es1, (prev, sp))"
    by (metis prod.exhaust)
  have ok': "rows_ok sg groups read" unfolding read_def by (rule rows_ok_filter [OF ok])
  have upto: "hr_t r \<le> stop \<and> hr_t r \<le> ?T \<and> stride_window s (hr_t r) \<le> stride_window s stop" if r: "r \<in> set read" for r
  proof -
    have t: "hr_t r \<le> stop" using r by (simp add: read_def)
    moreover have "hr_t r \<le> ?T"
    proof -
      obtain k where k: "k < length read" "r = read ! k" using r by (metis in_set_conv_nth)
      then have "map hr_t read ! k \<le> map hr_t read ! (length read - 1)"
        using ok' by (intro sorted_nth_mono) (auto simp: rows_ok_def)
      moreover have "read \<noteq> []" using k(1) by auto
      ultimately show ?thesis using k by (simp add: last_conv_nth)
    qed
    ultimately show ?thesis using stride_window_mono [OF s t] by blast
  qed
  have inv: "window_inv s first ?new sg groups read es1 prev sp"
    by (rule window_rows_ok [OF ok' _ s small splitter_new_inv [of s start hc config sg groups, folded first_def] run]) (use upto in blast)
  have "place_inv s first (ac_buckets ?new) sg (stride_window s stop) ?T ?sp0 read es1 sp"
    by (rule place_rows [OF ok' _ s small splitter_new_inv [of s start hc config sg groups, folded first_def] prompt W
          splitter_new_places [of s start, folded first_def] run]) (use upto in blast)
  note P = this [unfolded place_inv_def B]
  obtain es2 sp' where fin: "splitter_finish sp = (es2, sp')" by fastforce
  have es: "es = es1 @ es2" by (simp add: es_def window_events_def skip run fin)
  have run2: "close_through u64_max (sw_last_t sp) sp = (es2, sp')" using fin by (simp add: splitter_finish_def)
  have sp: "splitter_ok sp" "weight sp < 2 ^ 64" using inv small by (auto simp: window_inv_def intro: le_less_trans)
  have L: "ledger_ok sp ?L" using P by (simp add: gives_def)
  have "gives ?T sp ?L es2 sp' ?L"
  proof (cases "sw_open sp = []")
    case True
    then have "es2 = []" "sp' = sp" using run2 by (subst (asm) close_through.simps, simp)+
    then show ?thesis using L gives_refl by simp
  next
    case False
    then have "sw_last_t sp = ?T" using P by blast
    then show ?thesis using close_through_gives [OF sp run2 L, of ?T] by blast
  qed
  then have G: "gives ?T ?sp0 (\<lambda>_ _ _. 0) es sp' ?L" unfolding es using P gives_trans by blast
  have closed: "sw_open sp' = []" by (rule close_all_open [OF run2])
  have frame: "sw_stride ?sp0 = s" "sw_groups ?sp0 = groups" by (simp_all add: splitter_new_def Let_def)
  from G obtain ws where ws: "sorted_wrt (<) ws" "list_all2 (event_of s ?T groups ?L) ws es"
    "\<forall>w. sw_closed_to ?sp0 < w \<longrightarrow> w \<le> sw_closed_to sp' \<longrightarrow> w \<notin> set ws \<longrightarrow> (\<forall>g < groups. \<forall>j. ?L w g j = 0)"
    by (auto simp: gives_def frame)
  have "?L w g j = 0" if "w \<notin> set ws" "g < groups" for w g j
  proof -
    consider "w \<le> sw_closed_to ?sp0" | "sw_closed_to ?sp0 < w" "w \<le> sw_closed_to sp'" | "sw_closed_to sp' < w" by linarith
    then show ?thesis
    proof cases
      case 1
      then show ?thesis using G that(2) by (simp add: gives_def frame)
    next
      case 2
      then show ?thesis using ws(3) that by blast
    next
      case 3
      have "ledger_ok sp' ?L" "sw_groups sp' = groups" using G by (simp_all add: gives_def frame)
      then show ?thesis using 3 that(2) closed by (simp add: ledger_ok_def)
    qed
  qed
  with ws(1,2) show ?thesis by blast
qed

text \<open>
  C13. With a stride, no observation is lost or counted twice, and each goes to the windows it was made in. While the rows read hold fewer than
  2 to the 48 observations, whatever order the series' rows come in: over all the events of a call, those stamped
  before \<open>emit_from_ns\<close>, which have no stamp, among them, each group's bucket holds exactly the shares its rows add, the whole change of a
  row when it lies after the first window's opening and otherwise the part after that; the events' running counts
  rise; and their stamps ascend, from \<open>emit_from_ns\<close> to the end of the range. When the rows are prompt and the range is of at most 256
  windows, each event is that of one window, in order, stamped with the window's close or the last row's time if that is earlier, and
  holds of each bucket exactly that window's part of each row's change; and no other window has a part.
\<close>

theorem windows_share_out_what_their_rows_add:
  fixes start stop :: u64 and hc :: "'h hist_crate" and config :: hist_config
  assumes "rows_ok sg groups rows" "stride_ok s"
    "observations_in (filter (\<lambda>r. hr_t r \<le> stop) rows) * unat SHARE_SCALE < 2 ^ 64"
  defines "es \<equiv> window_events hc config s start stop sg groups rows" and "read \<equiv> filter (\<lambda>r. hr_t r \<le> stop) rows"
    and "first \<equiv> stride_window s start" and "buckets \<equiv> hc_total_buckets hc config"
  shows "sorted (stamps es) \<and> (\<forall>x \<in> set (stamps es). sr_emit_from s \<le> x \<and> x \<le> stop) \<and>
    (\<forall>e \<in> set es. length (snd e) = groups \<and> (\<forall>cs \<in> set (snd e). rising cs)) \<and>
    (\<forall>g < groups. \<forall>j. emitted es g j = (if unat j < buckets then shared_to s first sg read g j else 0)) \<and>
    (prompt s read \<and> stride_window s stop < first + 256 \<longrightarrow>
       (\<exists>ws. sorted_wrt (<) ws \<and>
          list_all2 (\<lambda>w (stamp, cums).
            stamp = (let x = min (closes_ns s w) (hr_t (last read)) in if sr_emit_from s \<le> x then Some x else None) \<and>
            (\<forall>g < groups. \<forall>j. count_at j (cums ! g) = (if unat j < buckets then window_due s first sg read w g j else 0))) ws es \<and>
          (\<forall>w. w \<notin> set ws \<longrightarrow> (\<forall>g < groups. \<forall>j. unat j < buckets \<longrightarrow> window_due s first sg read w g j = 0))))"
proof -
  note all = window_events_ok [OF assms(1-3), of hc config start, folded es_def read_def first_def buckets_def]
  have "\<exists>ws. sorted_wrt (<) ws \<and>
      list_all2 (\<lambda>w (stamp, cums).
        stamp = (let x = min (closes_ns s w) (hr_t (last read)) in if sr_emit_from s \<le> x then Some x else None) \<and>
        (\<forall>g < groups. \<forall>j. count_at j (cums ! g) = (if unat j < buckets then window_due s first sg read w g j else 0))) ws es \<and>
      (\<forall>w. w \<notin> set ws \<longrightarrow> (\<forall>g < groups. \<forall>j. unat j < buckets \<longrightarrow> window_due s first sg read w g j = 0))"
    if "prompt s read" "stride_window s stop < first + 256"
  proof -
    have event: "event_of s stop_at groups (due_ledger s first buckets sg read) = (\<lambda>w (stamp, cums).
        stamp = (let x = min (closes_ns s w) stop_at in if sr_emit_from s \<le> x then Some x else None) \<and>
        (\<forall>g < groups. \<forall>j. count_at j (cums ! g) = (if unat j < buckets then window_due s first sg read w g j else 0)))" for stop_at
      by (auto simp: fun_eq_iff event_of_def due_ledger_def)
    have zero: "due_ledger s first buckets sg read w g j = 0 \<longleftrightarrow> (unat j < buckets \<longrightarrow> window_due s first sg read w g j = 0)" for w g j
      by (simp add: due_ledger_def)
    from window_events_placed [OF assms(1-3), of start hc config, folded es_def read_def first_def buckets_def, OF that]
    show ?thesis unfolding event zero .
  qed
  with all show ?thesis by blast
qed

end
