(* ===== verification/HistInstances.thy ===== *)
theory HistInstances
  imports HistPlaces QueryInstances
begin

text \<open>
  The theorems about stored histograms at concrete streams, over a crate of the documented layout, \<open>layout\<close>, and a reader
  whose total is the last running count, and what a merge of two streams can do to the order of its series.
\<close>

definition layout :: "unit hist_crate" where
  "layout = \<lparr>hc_config = (\<lambda>g m. if g < m \<and> m \<le> 64 \<and> (m - g + 1) * 2 ^ g < (2 :: nat) ^ 32 then Some \<lparr>grouping_power = g, max_value_power = m\<rparr> else None),
     hc_total_buckets = (\<lambda>c. (max_value_power c - grouping_power c + 1) * 2 ^ grouping_power c),
     hc_with_config = (\<lambda>_. ()), hc_add = (\<lambda>_ _ _. Inr ()), hc_load = (\<lambda>_. [])\<rparr>"

definition fine :: hist_config where "fine = \<lparr>grouping_power = 1, max_value_power = 5\<rparr>"

definition coarse :: hist_config where "coarse = \<lparr>grouping_power = 0, max_value_power = 5\<rparr>"

definition snap :: "u64 \<Rightarrow> u64 \<Rightarrow> hist_snapshot" where
  "snap a b = \<lparr>hs_index = [1, 5], hs_count = [a, b]\<rparr>"

lemma snap_ok [simp]: "a \<le> b \<Longrightarrow> snapshot_ok (snap a b)"
  by (simp add: snapshot_ok_def snap_def)

lemma layout_fine: "config_ok layout fine" "config_ok layout coarse" "coarser coarse fine" "hc_total_buckets layout fine = 10" "hc_total_buckets layout coarse = 6"
  by (simp_all add: config_ok_def layout_def fine_def coarse_def coarser_def)

theorem rebucketed_counts_stay_in_their_buckets_witness:
  "snapshot_ok (rebucket layout (snap 2 7) fine coarse) \<and>
   (\<forall>j. held_in (rebucket layout (snap 2 7) fine coarse) j =
      (if bucket_within fine 1 coarse j then 2 else 0) + (if bucket_within fine 5 coarse j then 5 else 0))"
proof -
  have "\<forall>i \<in> set (hs_index (snap 2 7)). unat i < hc_total_buckets layout fine" by (simp add: snap_def layout_fine)
  from rebucketed_counts_stay_in_their_buckets [OF layout_fine(1,2,3) snap_ok this] show ?thesis
    by (simp add: cells_of_def snap_def saturating_sub_def)
qed

definition row_of :: "nat \<Rightarrow> u64 \<Rightarrow> hist_snapshot \<Rightarrow> hist_row" where
  "row_of s t h = \<lparr>hr_series = s, hr_t = t, hr_snapshot = h, hr_resumes = False\<rparr>"

definition left_stream :: hist_stream where
  "left_stream = \<lparr>st_config = fine, st_series = [fmupd ''id'' ''x'' fmempty], st_rows = [row_of 0 1 (snap 2 7)]\<rparr>"

definition right_stream :: hist_stream where
  "right_stream = \<lparr>st_config = fine, st_series = [fmupd ''id'' ''y'' fmempty, fmupd ''id'' ''x'' fmempty],
     st_rows = [row_of 0 1 (snap 1 1), row_of 1 1 (snap 3 4)]\<rparr>"

lemma x_not_y: "(fmupd ''id'' ''x'' fmempty :: labels) \<noteq> fmupd ''id'' ''y'' fmempty"
  by (auto dest: arg_cong [where f = "\<lambda>m. fmlookup m ''id''"])

lemma merged_there: "\<exists>m. merge_streams layout (\<lambda>_. 0) [left_stream, right_stream] clock = Some m"
  by (simp add: merge_streams_def common_config_def layout_def left_stream_def right_stream_def fine_def split: prod.split)

theorem merged_streams_keep_their_rows_witness:
  "\<exists>m. merge_streams layout (\<lambda>_. 0) [left_stream, right_stream] None = Some m \<and> stream_ok m \<and> distinct (st_series m) \<and>
     size (st_rows m) = 3"
proof -
  obtain m where m: "merge_streams layout (\<lambda>_. 0) [left_stream, right_stream] None = Some m" using merged_there by blast
  have ok: "2 \<le> length [left_stream, right_stream]" "\<forall>s \<in> set [left_stream, right_stream]. stream_ok s"
    "\<forall>c. None = Some c \<longrightarrow> c < length [left_stream, right_stream]"
    by (simp_all add: left_stream_def right_stream_def stream_ok_def in_time_def row_of_def)
  note M = merged_streams_keep_their_rows [OF m ok]
  have two: "{..<length [left_stream, right_stream]} = {0, 1}" by auto
  have "size (image_mset (\<lambda>r. row_says layout (st_config m) m r (hr_t r)) (mset (st_rows m))) =
      size (\<Sum>i < length [left_stream, right_stream]. mset (List.map_filter
         (\<lambda>r. map_option (row_says layout (st_config m) ([left_stream, right_stream] ! i) r) (stamp None [] i (hr_t r)))
         (st_rows ([left_stream, right_stream] ! i))))"
    using arg_cong [where f = size, OF conjunct2 [OF conjunct2 [OF M]]] by (simp only: option.case)
  also have "\<dots> = 3" unfolding two by (simp add: left_stream_def right_stream_def map_filter_simps stamp_def)
  finally have "size (st_rows m) = 3" by (simp only: size_image_mset size_mset)
  then show ?thesis using m M by blast
qed

text \<open>Within one time, a merge keeps the order of each stream's own series, not of the merged ones.\<close>

lemma turns:
  defines "a \<equiv> row_of 0 1 (snap 2 7)" and "b \<equiv> row_of 1 1 (snap 1 1)" and "c \<equiv> row_of 0 1 (snap 3 4)"
  shows "map (\<lambda>r. (hr_t r, hr_series r)) (merge_rows (\<lambda>_. 0) None \<lparr>mg_iters = [[a], [b, c]], mg_last = None, mg_gap = None\<rparr>) =
    [(1, 0), (1, 1), (1, 0)]"
  unfolding a_def b_def c_def by code_simp

lemma merged_out_of_series_order:
  "map_option (\<lambda>m. map (\<lambda>r. (hr_t r, hr_series r)) (st_rows m)) (merge_all layout (\<lambda>_. 0) [left_stream, right_stream]) =
     Some [(1, 0), (1, 1), (1, 0)]"
  using turns
  by (simp add: merge_all_def merge_streams_def common_config_def layout_def left_stream_def right_stream_def fine_def assign_index_def
      x_not_y x_not_y [symmetric] remap_rows_def row_of_def)

section \<open>Ticks and windows\<close>

definition some_rows :: "hist_row list" where
  "some_rows = [row_of 0 2 (snap 2 7), row_of 1 2 (snap 1 1), row_of 0 10 (snap 4 9), row_of 1 10 (snap 2 5)]"

lemma some_rows_ok: "rows_ok [0, 0] 1 some_rows"
  by (simp add: rows_ok_def some_rows_def row_of_def)

lemma some_rows_observed: "observed_at some_rows t < 2 ^ 64" "observations_in some_rows = 22"
  by (simp_all add: observed_at_def observations_in_def some_rows_def row_of_def total_count_def snap_def)

theorem ticks_hold_what_their_rows_add_witness:
  "set (stamps (tick_events layout fine 5 20 [0, 0] 1 some_rows)) = {10} \<and>
   fst (hd (tick_events layout fine 5 20 [0, 0] 1 some_rows)) = Some 10 \<and>
   count_at 1 (snd (hd (tick_events layout fine 5 20 [0, 0] 1 some_rows)) ! 0) = 3"
proof -
  have "\<forall>t. observed_at some_rows t < 2 ^ 64" using some_rows_observed by blast
  note T = ticks_hold_what_their_rows_add [OF some_rows_ok this, of layout fine 5 20]
  have st: "set (stamps (tick_events layout fine 5 20 [0, 0] 1 some_rows)) = {10}"
    using T by (auto simp: some_rows_def row_of_def)
  have "gained_at [0, 0] some_rows 10 0 1 = 3"
  proof -
    have "gained some_rows 2 1 = 2" "gained some_rows 3 1 = 1"
      by (simp_all add: gained_def latest_row_def some_rows_def row_of_def snap_def held_in_def count_at_def cells_of_def saturating_sub_def)
    moreover have "{..<length some_rows} = {0, 1, 2, 3}" by (auto simp: some_rows_def)
    ultimately show ?thesis by (simp add: gained_at_def) (simp add: some_rows_def row_of_def)
  qed
  moreover have "filter (\<lambda>r. hr_t r \<le> 20) some_rows = some_rows" by (simp add: some_rows_def row_of_def)
  ultimately have held: "gained_at [0, 0] (filter (\<lambda>r. hr_t r \<le> 20) some_rows) 10 0 1 = 3" by simp
  have "\<exists>cums. e = (Some 10, cums) \<and> count_at 1 (cums ! 0) = 3"
    if e: "e \<in> set (tick_events layout fine 5 20 [0, 0] 1 some_rows)" for e
  proof -
    obtain t cums where c: "e = (Some t, cums)" "\<forall>j. count_at j (cums ! 0) =
        (if unat j < hc_total_buckets layout fine then gained_at [0, 0] (filter (\<lambda>r. hr_t r \<le> 20) some_rows) t 0 j else 0)"
      using bspec [OF conjunct2 [OF conjunct2 [OF T]] e] by auto
    have "t \<in> set (stamps (tick_events layout fine 5 20 [0, 0] 1 some_rows))" using e unfolding c(1) by (rule stamps_in)
    then have "t = 10" unfolding st by simp
    then show ?thesis using c held by (simp add: layout_fine)
  qed
  moreover have "tick_events layout fine 5 20 [0, 0] 1 some_rows \<noteq> []" using st by auto
  then have "hd (tick_events layout fine 5 20 [0, 0] 1 some_rows) \<in> set (tick_events layout fine 5 20 [0, 0] 1 some_rows)" by (rule hd_in_set)
  ultimately have "\<exists>cums. hd (tick_events layout fine 5 20 [0, 0] 1 some_rows) = (Some 10, cums) \<and> count_at 1 (cums ! 0) = 3" by blast
  then show ?thesis using st by auto
qed

definition every_four :: stride where "every_four = \<lparr>sr_ns = 4, sr_anchor = 0, sr_emit_from = 0\<rparr>"

definition even_rows :: "hist_row list" where
  "even_rows = [row_of 0 5 (snap 2 7), row_of 1 5 (snap 1 1), row_of 0 7 (snap 4 9), row_of 1 7 (snap 2 5),
     row_of 0 9 (snap 6 9), row_of 1 9 (snap 3 5)]"

lemma even_rows_ok: "rows_ok [0, 0] 1 even_rows" "observations_in even_rows = 36" "filter (\<lambda>r. hr_t r \<le> 20) even_rows = even_rows"
  by (simp_all add: rows_ok_def even_rows_def row_of_def observations_in_def total_count_def) (simp_all add: snap_def)

lemma no_boundary: "5 < closes_ns every_four w \<Longrightarrow> 7 \<le> closes_ns every_four w"
proof -
  have closes: "uint (closes_ns every_four w) = clamped ((min (w + 1) (2 ^ 63 - 1) - 1) * 4)"
    by (simp add: closes_ns_def uint_opens every_four_def)
  have fours: "7 \<le> clamped (m * 4)" if "5 < clamped (m * 4)" for m
  proof -
    have "uint u64_max = 2 ^ 64 - 1" by (simp add: unsigned_minus_1_eq_mask mask_eq_exp_minus_1)
    then show ?thesis using that unfolding clamped_def by (simp add: max_def min_def split: if_splits) presburger
  qed
  have "7 \<le> uint (closes_ns every_four w)" if "5 < uint (closes_ns every_four w)"
    using that unfolding closes by (rule fours)
  then show "5 < closes_ns every_four w \<Longrightarrow> 7 \<le> closes_ns every_four w" by (simp add: word_less_def word_le_def)
qed

lemma even_rows_prompt: "prompt every_four even_rows"
proof -
  have first: "ready every_four 5 0 7" using no_boundary by (simp add: ready_def)
  have "saturating_mul 2 2 = 4" by (simp add: saturating_mul_def)
  then have second: "ready every_four 7 2 9" by (simp add: ready_def)
  have six: "(\<forall>k < length even_rows. P k) \<longleftrightarrow> P 0 \<and> P 1 \<and> P 2 \<and> P 3 \<and> P 4 \<and> P 5" for P
    by (simp add: even_rows_def numeral_eq_Suc All_less_Suc) blast
  have upto: "(\<forall>i < (5 :: nat). P i) \<longleftrightarrow> P 0 \<and> P 1 \<and> P 2 \<and> P 3 \<and> P 4" "(\<forall>i < (4 :: nat). P i) \<longleftrightarrow> P 0 \<and> P 1 \<and> P 2 \<and> P 3"
    "(\<forall>i < (3 :: nat). P i) \<longleftrightarrow> P 0 \<and> P 1 \<and> P 2" "(\<forall>i < (2 :: nat). P i) \<longleftrightarrow> P 0 \<and> P 1" for P
    by (simp_all add: numeral_eq_Suc All_less_Suc) blast+
  show ?thesis unfolding prompt_def six
    by (simp add: even_rows_def row_of_def series_times_def last_gap_def Let_def upto first second)
qed

theorem windows_share_out_what_their_rows_add_witness:
  "emitted (window_events layout fine every_four 4 20 [0, 0] 1 even_rows) 0 1 = shared_to every_four (stride_window every_four 4) [0, 0] even_rows 0 1 \<and>
   (\<exists>ws. sorted_wrt (<) ws \<and>
      list_all2 (\<lambda>w (stamp, cums). stamp = Some (min (closes_ns every_four w) 9) \<and>
          count_at 1 (cums ! 0) = window_due every_four (stride_window every_four 4) [0, 0] even_rows w 0 1)
        ws (window_events layout fine every_four 4 20 [0, 0] 1 even_rows))"
proof -
  let ?es = "window_events layout fine every_four 4 20 [0, 0] 1 even_rows" and ?first = "stride_window every_four 4"
  have ok: "stride_ok every_four" by (simp add: stride_ok_def every_four_def)
  have small: "observations_in (filter (\<lambda>r. hr_t r \<le> 20) even_rows) * unat SHARE_SCALE < 2 ^ 64"
    by (simp add: even_rows_ok unat_SCALE)
  note all = windows_share_out_what_their_rows_add [OF even_rows_ok(1) ok small, of layout fine 4, unfolded even_rows_ok(3)]
  have "stride_window every_four 20 < ?first + 256" by (simp add: stride_window_def every_four_def as_i64_id)
  then have narrow: "prompt every_four even_rows \<and> stride_window every_four 20 < ?first + 256" using even_rows_prompt by simp
  obtain ws where ws: "sorted_wrt (<) ws"
    "list_all2 (\<lambda>w (stamp, cums).
        stamp = (let x = min (closes_ns every_four w) (hr_t (last even_rows)) in if sr_emit_from every_four \<le> x then Some x else None) \<and>
        (\<forall>g < 1. \<forall>j. count_at j (cums ! g) = (if unat j < hc_total_buckets layout fine
            then window_due every_four ?first [0, 0] even_rows w g j else 0))) ws ?es"
    using mp [OF conjunct2 [OF conjunct2 [OF conjunct2 [OF conjunct2 [OF all]]]] narrow] by (elim exE conjE) (rule that)
  have last: "hr_t (last even_rows) = 9" by (simp add: even_rows_def row_of_def)
  have "list_all2 (\<lambda>w (stamp, cums). stamp = Some (min (closes_ns every_four w) 9) \<and>
      count_at 1 (cums ! 0) = window_due every_four ?first [0, 0] even_rows w 0 1) ws ?es"
    by (rule list_all2_mono [OF ws(2)]) (auto simp: last layout_fine Let_def every_four_def)
  moreover have "emitted ?es 0 1 = shared_to every_four ?first [0, 0] even_rows 0 1"
    using all by (simp add: layout_fine)
  ultimately show ?thesis using ws(1) by blast
qed

definition last_total :: "(int, unit) hist_reader" where
  "last_total = \<lparr>qr_total = (\<lambda>_ cs. if cs = [] then 0 else snd (last cs)), qr_mean = (\<lambda>_ _. None), qr_buckets = (\<lambda>_ _. []), qr_quantile = (\<lambda>_. None),
     qr_quantiles = (\<lambda>_ _ _. None), qr_bounds = (\<lambda>_. None), qr_show = (\<lambda>_. ''''), qr_MAX = 0, qr_MIN = 0\<rparr>"

definition a_stream :: hist_stream where
  "a_stream = \<lparr>st_config = fine, st_series = [fmupd ''id'' ''x'' fmempty, fmupd ''id'' ''y'' fmempty], st_rows = some_rows\<rparr>"

theorem histogram_count_counts_the_observations_witness:
  "\<exists>ps. hist_count whole layout last_total a_stream (Include []) 5 20 None ''h'' = build_grouped_output ''h'' [fmempty] [ps] True"
proof -
  have ok: "sorted (map hr_t (st_rows a_stream))" "\<forall>t. observed_at (st_rows a_stream) t < 2 ^ 64"
    "\<forall>r \<in> set (st_rows a_stream). hr_series r < length (st_series a_stream) \<and> snapshot_ok (hr_snapshot r)"
    "\<forall>cs. rising cs \<longrightarrow> qr_total last_total (st_config a_stream) cs = (if cs = [] then 0 else snd (last cs))"
    using some_rows_observed by (simp_all add: a_stream_def last_total_def) (simp_all add: some_rows_def row_of_def)
  have "snd (group_series (Include []) (st_series a_stream)) = [fmempty]"
    by (simp add: group_series_def a_stream_def assign_index_def derive_group_labels_def)
  then show ?thesis using histogram_count_counts_the_observations [OF ok, of whole layout "Include []" 5 20 "''h''"] by auto
qed

end
