(* ===== verification/GaugeHistInstances.thy ===== *)
theory GaugeHistInstances
  imports GaugeStates HistInstances
begin

text \<open>The theorems about gauge histograms at two parts that share a series, one of them soon stale.\<close>

definition quick_part :: hist_stream where
  "quick_part = \<lparr>st_config = fine, st_series = [fmupd ''id'' ''x'' fmempty], st_rows = [row_of 0 2 (snap 2 7)]\<rparr>"

definition slow_part :: hist_stream where
  "slow_part = \<lparr>st_config = fine, st_series = [fmupd ''id'' ''y'' fmempty, fmupd ''id'' ''x'' fmempty],
     st_rows = [row_of 0 1 (snap 1 1), row_of 1 5 (snap 3 4)]\<rparr>"

definition two_parts :: "hist_part list" where "two_parts = [(quick_part, 4), (slow_part, 20)]"

definition merged_two :: merged_parts where
  "merged_two = \<lparr>mp_config = fine, mp_series = [fmupd ''id'' ''x'' fmempty, fmupd ''id'' ''y'' fmempty],
     mp_parts = [\<lparr>ps_rows = st_rows quick_part, ps_global = [0], ps_staleness = 4, ps_latest = [None]\<rparr>,
       \<lparr>ps_rows = st_rows slow_part, ps_global = [1, 0], ps_staleness = 20, ps_latest = [None, None]\<rparr>]\<rparr>"

lemma layout_law: "layout_ok layout"
  by (auto simp: layout_ok_def layout_def config_ok_def split: if_splits)

lemma merge_two: "merge_parts layout two_parts = Some merged_two"
  by (simp add: merge_parts_def two_parts_def common_config_def quick_part_def slow_part_def fine_def layout_def assign_index_def
      x_not_y x_not_y [symmetric] part_state_new_def rebucketed_def merged_two_def)

lemma two_readable: "\<forall>x \<in> set two_parts. readable layout (fst x)"
  by (simp add: two_parts_def quick_part_def slow_part_def readable_def layout_fine row_of_def snap_def snapshot_ok_def)

lemma states_of_two:
  "state_of 3 (mp_parts merged_two) 0 = Some (snap 2 7)" "state_of 3 (mp_parts merged_two) 1 = Some (snap 1 1)"
  "state_of 8 (mp_parts merged_two) 0 = Some (snap 3 4)" "state_of 8 (mp_parts merged_two) 1 = Some (snap 1 1)"
  by (simp_all add: state_of_def answers_def part_answer_def latest_row_def merged_two_def quick_part_def slow_part_def row_of_def
      map_filter_simps)

lemma two_small: "\<forall>t \<in> set [3, 8]. total_of (state_of t (mp_parts merged_two)) (length (mp_series merged_two)) < 2 ^ 64"
proof -
  have "total_of st 2 = (case st 0 of None \<Rightarrow> 0 | Some h \<Rightarrow> unat (total_count h)) + (case st 1 of None \<Rightarrow> 0 | Some h \<Rightarrow> unat (total_count h))"
    for st by (simp add: total_of_def numeral_2_eq_2)
  then have "total_of (state_of 3 (mp_parts merged_two)) 2 = 8" "total_of (state_of 8 (mp_parts merged_two)) 2 = 5"
    by (simp_all only: states_of_two) (simp_all add: total_count_def snap_def)
  moreover have "length (mp_series merged_two) = 2" by (simp add: merged_two_def)
  ultimately show ?thesis by simp
qed

theorem gauge_states_are_looked_up_witness:
  "map fst (walk layout merged_two [3, 8] [0, 0] 1) = [3, 8] \<and> fst (snd (hd (walk layout merged_two [3, 8] [0, 0] 1))) ! 0"
proof -
  let ?es = "walk layout merged_two [3, 8] [0, 0] 1"
  have groups: "\<forall>s < length (mp_series merged_two). [0, 0] ! s < (1 :: nat)"
    by (auto simp: merged_two_def less_Suc_eq numeral_2_eq_2)
  note W = gauge_states_are_looked_up [OF layout_law merge_two two_readable _ groups two_small]
  have es: "map fst ?es = [3, 8]" using W by simp
  then obtain present cums rest where e: "?es = (3, present, cums) # rest" by (cases ?es) auto
  have "\<forall>(t, present, cums) \<in> set ?es. present ! 0 \<longleftrightarrow> (\<exists>s < length (mp_series merged_two). [0, 0] ! s = (0 :: nat) \<and>
      state_of t (mp_parts merged_two) s \<noteq> None)"
    using W by fastforce
  then have "present ! 0 \<longleftrightarrow> (\<exists>s < length (mp_series merged_two). [0, 0] ! s = (0 :: nat) \<and> state_of 3 (mp_parts merged_two) s \<noteq> None)"
    unfolding e by simp
  moreover have "0 < length (mp_series merged_two)" by (simp add: merged_two_def)
  ultimately have "present ! 0" using states_of_two(1) by force
  then show ?thesis using es e by simp
qed

theorem gauge_count_counts_the_items_witness:
  "\<exists>ps. gauge_reduce whole layout last_total two_parts Reduce_Count (Include []) [3, 8] ''h'' = build_grouped_output ''h'' [fmempty] [ps] True"
proof -
  have "snd (group_series (Include []) (mp_series merged_two)) = [fmempty]"
    by (simp add: group_series_def merged_two_def assign_index_def derive_group_labels_def)
  moreover have "\<forall>cs. rising cs \<longrightarrow> qr_total last_total (mp_config merged_two) cs = (if cs = [] then 0 else snd (last cs))"
    by (simp add: last_total_def)
  ultimately show ?thesis
    using gauge_count_counts_the_items [OF layout_law merge_two two_readable _ two_small, of last_total whole "Include []" "''h''"] by auto
qed

end
