(* ===== verification/Spec2Isabelle.thy ===== *)
theory Spec2Isabelle
  imports Scalars WindowedGroups CasLoop Families Histograms ShardedGroups JsonCodec RecordingInstances LabelInstances QueryInstances GaugeHistInstances
begin

text \<open>
  A model of metriken: the metrics a program keeps, how they are labelled, shared between
  threads and read, how a producer streams them to a recorder, and how a recording says whose they are.

  \<^bold>\<open>Instrumentation\<close> (\<open>metriken-types\<close>, \<open>metriken\<close>). A metric is written by any
  number of threads and read by a sampler.

  \<^item> \<open>Windows\<close>: acquisition windows and the two places one is kept
    (\<open>metriken-types/src/window.rs\<close>, \<open>metriken/src/window_cell.rs\<close>, \<open>group/windows.rs\<close>).
  \<^item> \<open>PairLock\<close>: the locale \<open>paired_store\<close>, which says what storing a value and its
    window under a lock must keep, and the interleavings of its writers and readers.
    \<open>Scalars\<close> (\<open>counter.rs\<close>, \<open>gauge.rs\<close>, \<open>lazy.rs\<close>, \<open>windowed.rs\<close>) and \<open>MetricGroups\<close>
    (\<open>group/counter.rs\<close>, \<open>group/gauge.rs\<close>) interpret it, and so does \<open>WindowedGroups\<close>, the groups of \<open>windowed.rs\<close>
    that leave only \<open>set_with_window\<close> to write with.
  \<^item> \<open>GroupMeta\<close>: slot metadata and its version (\<open>group/metadata.rs\<close>). \<open>CasLoop\<close>: the
    compare-exchange loop of a group's entry, instruction by instruction.
  \<^item> \<open>Uid\<close> (\<open>epoch.rs\<close>, the uids of \<open>group/identity.rs\<close>) and \<open>SlotId\<close> (the rest of
    \<open>group/identity.rs\<close>): occupants of slots. The locale \<open>slot_metadata\<close> is the contract of
    the \<open>SlotMetadata\<close> trait; both kinds of group interpret it.
  \<^item> \<open>Families\<close> (\<open>family.rs\<close>): members with handles, slots that are reused.
  \<^item> \<open>ShardPool\<close>, \<open>ShardedGroups\<close>, \<open>Histograms\<close> (\<open>sharded.rs\<close>, \<open>histogram.rs\<close>,
    \<open>group/histogram.rs\<close>): shards leased by threads, and the counters and histograms that
    are summed over them. The buckets of a histogram belong to the \<open>histogram\<close> crate, a
    parameter with the law \<open>crate_ok\<close>.

  \<^bold>\<open>Identity\<close> (\<open>metriken-model\<close>, \<open>metriken-storage\<close>).

  \<^item> \<open>Identity\<close>: what a producer declares of itself (\<open>metriken-model/src/identity.rs\<close>).
  \<^item> \<open>LayerFold\<close>, \<open>Layers\<close>, \<open>LayersCorrect\<close>: the recorder's, producer's and user's
    layers of a source, their fold and merge, and \<open>append\<close> (\<open>metriken-storage/src/layers.rs\<close>).
    \<open>serde_json\<close> is a parameter with the law \<open>serde_ok\<close>; \<open>JsonCodec\<close> is a codec that
    satisfies it, for the witnesses.

  \<^bold>\<open>The stream\<close> (\<open>metriken-model\<close>, \<open>metriken-exposition\<close>, \<open>metriken-storage\<close>,
  \<open>metriken-recorder\<close>). A producer sends its groups to subscribers, who record them.

  \<^item> \<open>Snapshots\<close> (\<open>schema.rs\<close>, \<open>snapshot.rs\<close>): groups with their schemas, the three versions of a
    snapshot and its readers. \<open>WalRows\<close> (\<open>wal.rs\<close>, \<open>convert.rs\<close>, \<open>cost.rs\<close>, \<open>occupants.rs\<close>):
    the rows groups become, and the splice that adds a schema to one.
  \<^item> \<open>Frames\<close> (\<open>stream/frames.rs\<close>): what one subscriber is sent of a pass. \<open>Subscription\<close>
    (\<open>stream/clock.rs\<close>, \<open>stream/route.rs\<close>): a subscription's request, deadlines and frames, and the
    passes subscriptions share.
  \<^item> \<open>StreamWire\<close> (\<open>metriken-recorder/src/frames.rs\<close>): frames out of the chunks of a body, and rows and
    passes out of frames. \<open>StreamDecode\<close> (\<open>StreamDecoder\<close> of \<open>metriken-storage/src/writer.rs\<close>): groups out
    of rows. \<open>StreamTrip\<close>: what went in at the producer's end is what the consumer resolves.
  \<^item> \<open>LongLayout\<close>, \<open>Recorder\<close>, \<open>Occupancy\<close> (\<open>SourceRecorder\<close> of \<open>writer.rs\<close>): how a slotted group is laid out
    over metric columns and occupants, the rows a pass becomes, and whom the occupants' numbers stand for.
    The writer the rows go to is dendro's; \<open>RecordingInstances\<close> is a concrete recording, for the witnesses.
  \<^item> The encodings are other crates': \<open>rmp_ok\<close> and \<open>wire_ok\<close> are what is assumed of them.
    \<open>Codec\<close> and \<open>WireCodec\<close> build encodings that satisfy it, for the witnesses.

  \<^bold>\<open>Queries\<close> (\<open>metriken-storage\<close>, \<open>metriken-query/src/promql/streaming\<close>). A query pulls points through
  iterators; an iterator is the list of what it has yet to give, or the state its \<open>next\<close> steps.

  \<^item> \<open>Labels\<close> (\<open>labels.rs\<close>): label sets and the matchers of a filter. \<open>Labeled\<close> (\<open>labeled.rs\<close>): a source with labels
    added, which splits a filter between itself and the source below. \<open>LabelInstances\<close> has a regex crate.
  \<^item> \<open>Points\<close> (\<open>mod.rs\<close>): the points of a query and a series held between them. \<open>Rates\<close>, \<open>RateStream\<close>
    (\<open>rate.rs\<close>): the rate of a counter over a stream, and that it is the rate of the whole series. \<open>Gauges\<close>
    (\<open>gauge.rs\<close>): gauges read at instants.
  \<^item> \<open>Aggregation\<close> (\<open>aggregate.rs\<close>): merges of series, and several advanced together. \<open>Binary\<close>, \<open>Matching\<close>
    (\<open>binary.rs\<close>): operators, their bands, the joins and the matching of two sets of series.
  \<^item> \<open>HistBuckets\<close>, \<open>HistStream\<close>, \<open>HistMerge\<close> (\<open>metriken-storage/src/histogram_stream.rs\<close>): the buckets of stored
    histograms, streams of their rows, and the merge of several. \<open>HistAccum\<close>, \<open>HistWindows\<close>, \<open>HistOps\<close> (\<open>histogram.rs\<close>): the
    changes between rows, gathered by tick or shared among windows, and the functions of them; \<open>HistShares\<close> and \<open>HistTicks\<close>
    prove that what is gathered is what the rows add, \<open>HistPlaces\<close> that each window is given its own part of it. \<open>HistInstances\<close> has a crate of the documented layout.
  \<^item> \<open>GaugeHist\<close>, \<open>GaugeStates\<close> (\<open>gauge_histogram.rs\<close>): gauge histograms, read as the state of each series at a time, and
    that the walk finds what a lookup finds. \<open>GaugeHistInstances\<close> has two parts that share a series.
  \<^item> Arithmetic on \<open>f64\<close> is the record \<open>F\<close> of its operations. Only the theorem on bands assumes anything of it:
    \<open>rounds\<close>, that finite results are rounded in order. \<open>QueryInstances\<close> has two arithmetics, for the witnesses.

  \<^bold>\<open>Conventions.\<close> A \<open>u64\<close> or \<open>i64\<close> is a 64-bit word, so wrapping is the code's;
  panics and errors are values of a sum; an operation that mutates returns the new state.
  Where threads matter the model is a step relation whose steps are the code's atomic
  actions (an atomic instruction, a section under a lock) and the properties are proved of every
  reachable state. Nothing here runs out of fuel: every function is total, but for the loops of a rate and of a
  gauge, which are \<open>partial_function\<close>s whose value \<open>None\<close> is not returning; that they return is proved.

  \<^bold>\<open>Not modelled.\<close> Memory orderings weaker than sequential consistency, poisoning of the
  locks, allocation failure, and whatever only formats, registers or downcasts: the metric
  registry and traits of \<open>metriken-core\<close>, the derive macro, the charts. Of the storage and query crates, the
  segments of an archive, the Parquet readers and writers and the stores over them, the parsing of a query, the choice
  of its producers, batch rates and the display of a result; of the exposition crate the group builder; of the
  recorder its loop.
\<close>

end
